(* ===== verification/Prelude.thy ===== *)
theory Prelude
  imports Main "HOL-Library.Word" "HOL-Library.Monad_Syntax"
begin

text \<open>
  Shared base of the development: names for the machine integers of the C code, the
  theorem collections the component proofs draw on, and the facts about linked chains
  and option-valued programs that every component uses.

  A C function that dereferences pointers is modelled as a function into \<open>option\<close>:
  \<open>None\<close> stands for an execution that leaves the defined behaviour of C (a read or a
  write through a null pointer, an array access out of bounds) or that does not return.
\<close>

section \<open>Machine integers\<close>

unbundle bit_operations_syntax

type_synonym u8 = "8 word"
type_synonym u16 = "16 word"
type_synonym u32 = "32 word"

named_theorems chain_simps \<open>unfolding and framing of linked chains\<close>
named_theorems op_defs \<open>definitions of the operations of a component\<close>
named_theorems bind_simps \<open>option-monad programs that are known to succeed\<close>

lemma unat_of_nat_lt: "n < 2 ^ LENGTH('a::len) \<Longrightarrow> unat (of_nat n :: 'a word) = n"
  by (simp add: unat_of_nat take_bit_nat_eq_self)

lemma unat_lt: "unat (w :: 'a::len word) < 2 ^ LENGTH('a)"
  by (rule unsigned_less)

lemma unat_u8_less [simp]: "unat (w :: u8) < 256"
  using unat_lt [of w] by simp

lemma unat_u16_less [simp]: "unat (w :: u16) < 65536"
  using unat_lt [of w] by simp

lemma unat_u32_less [simp]: "unat (w :: u32) < 4294967296"
  using unat_lt [of w] by simp

lemma ucast_of_nat_unat: "(ucast (w :: 'a::len word) :: 'b::len word) = of_nat (unat w)"
  by (metis of_nat_unat)

lemma ucast_of_nat_down:
  "LENGTH('b) \<le> LENGTH('a) \<Longrightarrow> (ucast (of_nat n :: 'a::len word) :: 'b::len word) = of_nat n"
  by (simp add: ucast_of_nat_unat unat_of_nat word_of_nat_eq_iff min_def flip: take_bit_eq_mod)

lemma ucast_sub_of_nat: "m \<le> n \<Longrightarrow> (ucast (of_nat n - of_nat m :: u32) :: u16) = of_nat (n - m)"
  by (simp add: ucast_of_nat_down flip: of_nat_diff)

lemma of_nat_word_less:
  "m < 2 ^ LENGTH('a::len) \<Longrightarrow> n < 2 ^ LENGTH('a) \<Longrightarrow> (of_nat m :: 'a word) < of_nat n \<longleftrightarrow> m < n"
  by (simp add: word_less_nat_alt unat_of_nat take_bit_nat_eq_self)

lemma of_nat_word_eq:
  "m < 2 ^ LENGTH('a::len) \<Longrightarrow> n < 2 ^ LENGTH('a) \<Longrightarrow> (of_nat m :: 'a word) = of_nat n \<longleftrightarrow> m = n"
  by (simp add: word_of_nat_eq_iff take_bit_nat_eq_self)

lemma unat_eq_of_nat: "unat (w :: 'a::len word) = n \<Longrightarrow> w = of_nat n"
  by (metis of_nat_unat ucast_id)

lemma in_notin_neq: "x \<in> A \<Longrightarrow> y \<notin> A \<Longrightarrow> x \<noteq> y"
  by blast

section \<open>Option-valued programs\<close>

definition guard_opt :: "bool \<Rightarrow> unit option" where
  "guard_opt b = (if b then Some () else None)"

lemma guard_opt_simps [simp]:
  "guard_opt True = Some ()"
  "guard_opt False = None"
  by (simp_all add: guard_opt_def)

lemma guard_opt_Some [simp]: "guard_opt b = Some u \<longleftrightarrow> b"
  by (simp add: guard_opt_def)

section \<open>Chains of nodes\<close>

text \<open>
  \<open>chain nil lnk h ts\<close>: following the link map \<open>lnk\<close> from the list head \<open>h\<close> visits
  exactly the nodes \<open>ts\<close> and then finds the null pointer \<open>nil\<close>.
  \<open>rchain rlnk h ts\<close>: every node of \<open>ts\<close> links back to its predecessor, the first one to
  the head \<open>h\<close>.
\<close>

fun chain :: "'p \<Rightarrow> ('p \<Rightarrow> 'p) \<Rightarrow> 'p \<Rightarrow> 'p list \<Rightarrow> bool" where
  "chain nil lnk h [] \<longleftrightarrow> lnk h = nil"
| "chain nil lnk h (t # ts) \<longleftrightarrow> t \<noteq> nil \<and> lnk h = t \<and> chain nil lnk t ts"

fun rchain :: "('p \<Rightarrow> 'p) \<Rightarrow> 'p \<Rightarrow> 'p list \<Rightarrow> bool" where
  "rchain rlnk h [] \<longleftrightarrow> True"
| "rchain rlnk h (t # ts) \<longleftrightarrow> rlnk t = h \<and> rchain rlnk t ts"

text \<open>The node a list of nodes ends with, starting from its head.\<close>

fun last_node :: "'p \<Rightarrow> 'p list \<Rightarrow> 'p" where
  "last_node h [] = h"
| "last_node h (t # ts) = last_node t ts"

definition first_node :: "'p \<Rightarrow> 'p list \<Rightarrow> 'p" where
  "first_node nil ts = (case ts of [] \<Rightarrow> nil | t # _ \<Rightarrow> t)"

lemma first_node_simps [simp]:
  "first_node nil [] = nil"
  "first_node nil (t # ts) = t"
  by (simp_all add: first_node_def)

lemma last_node_append [simp]: "last_node h (xs @ ys) = last_node (last_node h xs) ys"
  by (induction xs arbitrary: h) auto

lemma last_node_in: "last_node h ts \<in> insert h (set ts)"
  by (induction ts arbitrary: h) auto

lemma chain_head: "chain nil lnk h ts \<Longrightarrow> lnk h = first_node nil ts"
  by (cases ts) auto

lemma chain_unique: "chain nil lnk h ts \<Longrightarrow> chain nil lnk h us \<Longrightarrow> ts = us"
  by (induction nil lnk h ts arbitrary: us rule: chain.induct) (case_tac us; auto)+

lemma chain_nil_notin: "chain nil lnk h ts \<Longrightarrow> nil \<notin> set ts"
  by (induction nil lnk h ts rule: chain.induct) auto

lemma chain_suffix: "chain nil lnk h (xs @ t # ys) \<Longrightarrow> chain nil lnk t ys"
  by (induction xs arbitrary: h) auto

lemma chain_head_notin: "chain nil lnk h ts \<Longrightarrow> h \<notin> set ts"
proof
  assume c: "chain nil lnk h ts" and "h \<in> set ts"
  then obtain xs ys where ts: "ts = xs @ h # ys"
    by (auto simp: in_set_conv_decomp)
  with c have "chain nil lnk h ys" by (simp add: chain_suffix)
  with c have "ts = ys" by (rule chain_unique)
  with ts show False by simp
qed

lemma chain_distinct: "chain nil lnk h ts \<Longrightarrow> distinct (h # ts)"
proof (induction ts arbitrary: h)
  case Nil
  then show ?case by simp
next
  case (Cons t ts)
  from Cons.prems have "h \<notin> set (t # ts)" by (rule chain_head_notin)
  moreover from Cons.prems have "distinct (t # ts)" by (intro Cons.IH) simp
  ultimately show ?case by simp
qed

lemma chain_frame [simp]:
  "x \<noteq> h \<Longrightarrow> x \<notin> set ts \<Longrightarrow> chain nil (lnk(x := v)) h ts = chain nil lnk h ts"
  by (induction ts arbitrary: h) auto

lemma rchain_frame [simp]: "x \<notin> set ts \<Longrightarrow> rchain (rlnk(x := v)) h ts = rchain rlnk h ts"
  by (induction ts arbitrary: h) auto

lemma chain_cong: "(\<And>x. x \<in> insert h (set ts) \<Longrightarrow> l x = l' x) \<Longrightarrow> chain nil l h ts = chain nil l' h ts"
  by (induction ts arbitrary: h) auto

lemma rchain_cong: "(\<And>x. x \<in> set ts \<Longrightarrow> l x = l' x) \<Longrightarrow> rchain l h ts = rchain l' h ts"
  by (induction ts arbitrary: h) auto


lemma rchain_append: "rchain r h (xs @ ys) \<longleftrightarrow> rchain r h xs \<and> rchain r (last_node h xs) ys"
  by (induction xs arbitrary: h) auto

text \<open>Linking a node \<open>p\<close> in between \<open>xs\<close> and \<open>ys\<close>, and unlinking it.\<close>

lemma chain_insert:
  assumes "chain nil lnk h (xs @ ys)" and "p \<noteq> nil" and "p \<notin> insert h (set (xs @ ys))"
  shows "chain nil (lnk(p := first_node nil ys, last_node h xs := p)) h (xs @ p # ys)"
  using assms
proof (induction xs arbitrary: h)
  case Nil
  then have "h \<notin> set ys" using chain_head_notin by fastforce
  with Nil show ?case by (cases ys) (simp_all del: fun_upd_apply add: fun_upd_same fun_upd_other)
next
  case (Cons x xs)
  have h: "h \<notin> set (x # xs @ ys)" using Cons.prems(1) chain_head_notin by fastforce
  then have "last_node x xs \<noteq> h" using last_node_in [of x xs] by auto
  with Cons h show ?case by auto
qed

lemma chain_remove:
  assumes "chain nil lnk h (xs @ p # ys)"
  shows "chain nil (lnk(last_node h xs := lnk p)) h (xs @ ys)"
  using assms
proof (induction xs arbitrary: h)
  case Nil
  then have d: "h \<notin> set (p # ys)" using chain_head_notin by fastforce
  from Nil d show ?case by (cases ys) (simp_all del: fun_upd_apply add: fun_upd_same fun_upd_other)
next
  case (Cons x xs)
  have h: "h \<notin> set (x # xs @ p # ys)" using Cons.prems chain_head_notin by fastforce
  then have "last_node x xs \<noteq> h" using last_node_in [of x xs] by auto
  with Cons h show ?case by auto
qed

lemma chain_lnk_at: "chain nil lnk h (xs @ p # ys) \<Longrightarrow> lnk p = first_node nil ys"
  by (drule chain_suffix) (rule chain_head)

lemma chain_lnk_last: "chain nil lnk h (xs @ ys) \<Longrightarrow> lnk (last_node h xs) = first_node nil ys"
  by (induction xs arbitrary: h) (auto dest: chain_head)

lemma rchain_insert:
  assumes "rchain r h (xs @ ys)" and "p \<notin> set (xs @ ys)" and "distinct (xs @ ys)"
  shows "rchain (r(p := last_node h xs)) h (xs @ [p])"
    and "ys = y # zs \<Longrightarrow> rchain (r(y := p, p := last_node h xs)) h (xs @ p # ys)"
proof -
  show "rchain (r(p := last_node h xs)) h (xs @ [p])"
    using assms by (simp add: rchain_append)
  assume ys: "ys = y # zs"
  then have "rchain (r(y := p)) y zs" using assms by (simp add: rchain_append)
  with ys assms show "rchain (r(y := p, p := last_node h xs)) h (xs @ p # ys)"
    by (auto simp: rchain_append)
qed

lemma rchain_remove:
  assumes "rchain r h (xs @ p # ys)" and "distinct (xs @ p # ys)"
  shows "ys = [] \<Longrightarrow> rchain r h xs"
    and "ys = y # zs \<Longrightarrow> rchain (r(y := r p)) h (xs @ ys)"
  using assms by (auto simp: rchain_append)

lemma rchain_at: "rchain r h (xs @ p # ys) \<Longrightarrow> r p = last_node h xs"
  by (simp add: rchain_append)

section \<open>Lists ordered by priority\<close>

text \<open>
  The order the kernel keeps its task lists in: descending priority, and first come first
  served among equal priorities. \<open>ins_prio pr p ts\<close> puts \<open>p\<close> behind every element whose
  priority is at least \<open>pr p\<close>.
\<close>

definition ins_prio :: "('p \<Rightarrow> 'o::linorder) \<Rightarrow> 'p \<Rightarrow> 'p list \<Rightarrow> 'p list" where
  "ins_prio pr p ts = takeWhile (\<lambda>t. pr p \<le> pr t) ts @ p # dropWhile (\<lambda>t. pr p \<le> pr t) ts"

definition prio_sorted :: "('p \<Rightarrow> 'o::linorder) \<Rightarrow> 'p list \<Rightarrow> bool" where
  "prio_sorted pr ts \<longleftrightarrow> sorted_wrt (\<lambda>x y. pr y \<le> pr x) ts"

lemma prio_sorted_simps [simp]:
  "prio_sorted pr []"
  "prio_sorted pr (t # ts) \<longleftrightarrow> (\<forall>x\<in>set ts. pr x \<le> pr t) \<and> prio_sorted pr ts"
  by (auto simp: prio_sorted_def)

lemma ins_prio_simps [simp]:
  "ins_prio pr p [] = [p]"
  "ins_prio pr p (t # ts) = (if pr p \<le> pr t then t # ins_prio pr p ts else p # t # ts)"
  by (auto simp: ins_prio_def)

lemma set_ins_prio [simp]: "set (ins_prio pr p ts) = insert p (set ts)"
  by (induction ts) auto

lemma length_ins_prio [simp]: "length (ins_prio pr p ts) = Suc (length ts)"
  by (induction ts) auto

lemma ins_prio_not_Nil [simp]: "ins_prio pr p ts \<noteq> []"
  by (cases ts) auto

lemma distinct_ins_prio [simp]: "distinct (ins_prio pr p ts) \<longleftrightarrow> p \<notin> set ts \<and> distinct ts"
  by (induction ts) auto

lemma prio_sorted_ins [simp]: "prio_sorted pr (ins_prio pr p ts) \<longleftrightarrow> prio_sorted pr ts"
  by (induction ts) (auto intro: order_trans)

lemma prio_sorted_remove1: "prio_sorted pr ts \<Longrightarrow> prio_sorted pr (remove1 p ts)"
  by (induction ts) (auto dest: notin_set_remove1 set_mp [OF set_remove1_subset])

lemma prio_sorted_cong: "(\<And>t. t \<in> set ts \<Longrightarrow> pr t = pr' t) \<Longrightarrow> prio_sorted pr ts = prio_sorted pr' ts"
  by (induction ts) auto

lemma ins_prio_cong:
  "pr p = pr' p \<Longrightarrow> (\<And>t. t \<in> set ts \<Longrightarrow> pr t = pr' t) \<Longrightarrow> ins_prio pr p ts = ins_prio pr' p ts"
  by (induction ts) auto

text \<open>Insertion leaves every group of equal priority in its order, with \<open>p\<close> last.\<close>

lemma ins_prio_fifo:
  "filter (\<lambda>t. pr t = k) (ins_prio pr p ts)
     = filter (\<lambda>t. pr t = k) ts @ (if pr p = k then [p] else [])"
  if "prio_sorted pr ts"
  using that
proof (induction ts)
  case Nil
  then show ?case by simp
next
  case (Cons t ts)
  have "filter (\<lambda>t. pr t = pr p) ts = []" if "\<not> pr p \<le> pr t"
    using Cons.prems that by (auto simp: filter_empty_conv)
  with Cons show ?case by auto
qed

end
