(* ===== verification/Os_State.thy ===== *)
theory Os_State
  imports Prelude
begin

text \<open>
  The memory of the RTX kernel (\<open>rt_TypeDef.h\<close>, \<open>os_tcb.h\<close>): pointers to control blocks,
  one map per structure member (\<open>p->m\<close> is \<open>m s p\<close>), the kernel's global variables, and
  word-addressed memory for task stacks and memory boxes. Members that several structures
  share at the same offset, and that the code reaches through casts between \<open>P_XCB\<close> and
  \<open>P_TCB\<close>, are one map (\<open>cb_type\<close>, \<open>p_lnk\<close>, \<open>p_rlnk\<close>, \<open>p_dlnk\<close>, \<open>p_blnk\<close>, \<open>delta_time\<close>).
\<close>

section \<open>Pointers and constants\<close>

text \<open>\<open>&os_rdy\<close>, \<open>&os_dly\<close>, a task control block, a semaphore, mutex or mailbox control block,
  a timer control block, and a pointer value that is not word aligned and so is none of these
  (the CMSIS layer tests identifiers for it).\<close>

datatype ptr = NULL | Rdy | Dly | Tcb nat | Obj nat | Tmr nat | Unaligned u32

definition os_idle_TCB :: ptr where
  "os_idle_TCB = Tcb 0"

fun is_tcb :: "ptr \<Rightarrow> bool" where
  "is_tcb (Tcb n) \<longleftrightarrow> True"
| "is_tcb _ \<longleftrightarrow> False"

text \<open>Values for \<open>cb_type\<close> (\<open>rt_List.h\<close>).\<close>

definition TCB :: u8 where "TCB = 0"
definition MCB :: u8 where "MCB = 1"
definition SCB :: u8 where "SCB = 2"
definition MUCB :: u8 where "MUCB = 3"
definition HCB :: u8 where "HCB = 4"

text \<open>Values for \<open>state\<close> (\<open>rt_Task.h\<close>).\<close>

datatype tstate =
  INACTIVE | READY | RUNNING | WAIT_DLY | WAIT_ITV | WAIT_OR | WAIT_AND | WAIT_SEM | WAIT_MBX | WAIT_MUT

text \<open>Return codes (\<open>rt_Task.h\<close>).\<close>

definition OS_R_TMO :: u32 where "OS_R_TMO = 0x01"
definition OS_R_EVT :: u32 where "OS_R_EVT = 0x02"
definition OS_R_MBX :: u32 where "OS_R_MBX = 0x04"
definition OS_R_OK :: u32 where "OS_R_OK = 0x00"
definition OS_R_NOK :: u32 where "OS_R_NOK = 0xff"

lemmas cb_types = TCB_def MCB_def SCB_def MUCB_def HCB_def
lemmas ret_codes = OS_R_TMO_def OS_R_EVT_def OS_R_MBX_def OS_R_OK_def OS_R_NOK_def

section \<open>The kernel state\<close>

record os =
  \<comment> \<open>common to \<open>OS_XCB\<close> and the control blocks\<close>
  cb_type :: "ptr \<Rightarrow> u8"
  p_lnk :: "ptr \<Rightarrow> ptr"
  p_rlnk :: "ptr \<Rightarrow> ptr"
  p_dlnk :: "ptr \<Rightarrow> ptr"
  p_blnk :: "ptr \<Rightarrow> ptr"
  delta_time :: "ptr \<Rightarrow> u16"
  \<comment> \<open>\<open>OS_TCB\<close>\<close>
  state :: "ptr \<Rightarrow> tstate"
  prio :: "ptr \<Rightarrow> u8"
  task_id :: "ptr \<Rightarrow> u8"
  interval_time :: "ptr \<Rightarrow> u16"
  events :: "ptr \<Rightarrow> u16"
  waits :: "ptr \<Rightarrow> u16"
  msg :: "ptr \<Rightarrow> u32"
  stack_frame :: "ptr \<Rightarrow> u8"
  priv_stack :: "ptr \<Rightarrow> u32"
  tsk_stack :: "ptr \<Rightarrow> u32"
  stack :: "ptr \<Rightarrow> u32"
  ptask :: "ptr \<Rightarrow> u32"
  \<comment> \<open>\<open>OS_SCB\<close>\<close>
  tokens :: "ptr \<Rightarrow> u16"
  \<comment> \<open>\<open>OS_MUCB\<close>\<close>
  mut_prio :: "ptr \<Rightarrow> u8"
  mut_level :: "ptr \<Rightarrow> u16"
  mut_owner :: "ptr \<Rightarrow> ptr"
  \<comment> \<open>\<open>OS_MCB\<close>\<close>
  mbx_state :: "ptr \<Rightarrow> u8"
  mbx_isr_st :: "ptr \<Rightarrow> u8"
  mbx_first :: "ptr \<Rightarrow> u16"
  mbx_last :: "ptr \<Rightarrow> u16"
  mbx_count :: "ptr \<Rightarrow> u16"
  mbx_size :: "ptr \<Rightarrow> u16"
  mbx_msg :: "ptr \<Rightarrow> nat \<Rightarrow> u32"
  \<comment> \<open>\<open>os_psq\<close>\<close>
  psq_first :: u8
  psq_last :: u8
  psq_count :: u8
  psq_size :: u8
  psq_q :: "nat \<Rightarrow> ptr \<times> u32"
  \<comment> \<open>\<open>os_tsk\<close>, \<open>os_robin\<close>, \<open>os_time\<close>, \<open>os_active_TCB\<close>, system flags\<close>
  run :: ptr
  new_tsk :: ptr
  robin_task :: ptr
  robin_time :: u16
  robin_tout :: u16
  os_time :: u32
  os_active_TCB :: "ptr list"
  os_tick_irqn :: int
  os_lock :: bool
  os_psh_flag :: bool
  pend_flags :: u8
  \<comment> \<open>core registers: PendSV and SysTick pending bits, \<open>NVIC_ST_CTRL\<close>, the process stack pointer,
     R4 to R11 of the running task, \<open>IPSR\<close> and \<open>CONTROL\<close>\<close>
  pend_sv :: bool
  pend_st :: bool
  st_ctrl :: u32
  psp :: u32
  callee_regs :: "u32 list"
  ipsr :: u32
  control :: u32
  irq_en :: "int \<Rightarrow> bool"
  \<comment> \<open>memory words by byte address, and the address the linker gave each control block\<close>
  mem :: "u32 \<Rightarrow> u32"
  addr :: "ptr \<Rightarrow> u32"
  \<comment> \<open>\<open>os_timer_cb\<close> and the variables of the CMSIS layer\<close>
  tmr_next :: "ptr \<Rightarrow> ptr"
  tmr_state :: "ptr \<Rightarrow> u8"
  tmr_type :: "ptr \<Rightarrow> u8"
  tmr_arg :: "ptr \<Rightarrow> u32"
  tmr_tcnt :: "ptr \<Rightarrow> u16"
  tmr_icnt :: "ptr \<Rightarrow> u16"
  tmr_ptimer :: "ptr \<Rightarrow> u32"
  os_timer_head :: ptr
  osThreadId_osTimerThread :: ptr
  osMessageQId_osTimerMessageQ :: ptr
  os_initialized :: bool
  os_running :: bool

section \<open>Reading and writing through a pointer\<close>

text \<open>
  \<open>rd m p s\<close> is the C expression \<open>p->m\<close> and \<open>wr m_update p v s\<close> the statement
  \<open>p->m = v\<close>; through the null pointer neither is defined.
\<close>

definition rd :: "(os \<Rightarrow> ptr \<Rightarrow> 'a) \<Rightarrow> ptr \<Rightarrow> os \<Rightarrow> 'a option" where
  "rd m p s = (if p = NULL then None else Some (m s p))"

definition wr :: "(((ptr \<Rightarrow> 'a) \<Rightarrow> ptr \<Rightarrow> 'a) \<Rightarrow> os \<Rightarrow> os) \<Rightarrow> ptr \<Rightarrow> 'a \<Rightarrow> os \<Rightarrow> os option" where
  "wr upd p v s = (if p = NULL then None else Some (upd (\<lambda>f. f(p := v)) s))"

lemma rd_simps [simp]:
  "rd m NULL s = None"
  "p \<noteq> NULL \<Longrightarrow> rd m p s = Some (m s p)"
  by (simp_all add: rd_def)

lemma wr_NULL [simp]: "wr upd NULL v s = None"
  by (simp add: wr_def)

lemma wr_simps [simp]:
  "p \<noteq> NULL \<Longrightarrow> wr p_lnk_update p v0 s = Some (s\<lparr>p_lnk := (p_lnk s)(p := v0)\<rparr>)"
  "p \<noteq> NULL \<Longrightarrow> wr p_rlnk_update p v1 s = Some (s\<lparr>p_rlnk := (p_rlnk s)(p := v1)\<rparr>)"
  "p \<noteq> NULL \<Longrightarrow> wr p_dlnk_update p v2 s = Some (s\<lparr>p_dlnk := (p_dlnk s)(p := v2)\<rparr>)"
  "p \<noteq> NULL \<Longrightarrow> wr p_blnk_update p v3 s = Some (s\<lparr>p_blnk := (p_blnk s)(p := v3)\<rparr>)"
  "p \<noteq> NULL \<Longrightarrow> wr delta_time_update p v4 s = Some (s\<lparr>delta_time := (delta_time s)(p := v4)\<rparr>)"
  "p \<noteq> NULL \<Longrightarrow> wr state_update p v5 s = Some (s\<lparr>state := (state s)(p := v5)\<rparr>)"
  "p \<noteq> NULL \<Longrightarrow> wr prio_update p v6 s = Some (s\<lparr>prio := (prio s)(p := v6)\<rparr>)"
  "p \<noteq> NULL \<Longrightarrow> wr cb_type_update p v7 s = Some (s\<lparr>cb_type := (cb_type s)(p := v7)\<rparr>)"
  "p \<noteq> NULL \<Longrightarrow> wr interval_time_update p v8 s = Some (s\<lparr>interval_time := (interval_time s)(p := v8)\<rparr>)"
  "p \<noteq> NULL \<Longrightarrow> wr events_update p v9 s = Some (s\<lparr>events := (events s)(p := v9)\<rparr>)"
  "p \<noteq> NULL \<Longrightarrow> wr waits_update p v10 s = Some (s\<lparr>waits := (waits s)(p := v10)\<rparr>)"
  "p \<noteq> NULL \<Longrightarrow> wr msg_update p v11 s = Some (s\<lparr>msg := (msg s)(p := v11)\<rparr>)"
  "p \<noteq> NULL \<Longrightarrow> wr tokens_update p v12 s = Some (s\<lparr>tokens := (tokens s)(p := v12)\<rparr>)"
  "p \<noteq> NULL \<Longrightarrow> wr mut_prio_update p v13 s = Some (s\<lparr>mut_prio := (mut_prio s)(p := v13)\<rparr>)"
  "p \<noteq> NULL \<Longrightarrow> wr mut_level_update p v14 s = Some (s\<lparr>mut_level := (mut_level s)(p := v14)\<rparr>)"
  "p \<noteq> NULL \<Longrightarrow> wr mut_owner_update p v15 s = Some (s\<lparr>mut_owner := (mut_owner s)(p := v15)\<rparr>)"
  "p \<noteq> NULL \<Longrightarrow> wr mbx_state_update p v16 s = Some (s\<lparr>mbx_state := (mbx_state s)(p := v16)\<rparr>)"
  "p \<noteq> NULL \<Longrightarrow> wr mbx_isr_st_update p v17 s = Some (s\<lparr>mbx_isr_st := (mbx_isr_st s)(p := v17)\<rparr>)"
  "p \<noteq> NULL \<Longrightarrow> wr mbx_first_update p v18 s = Some (s\<lparr>mbx_first := (mbx_first s)(p := v18)\<rparr>)"
  "p \<noteq> NULL \<Longrightarrow> wr mbx_last_update p v19 s = Some (s\<lparr>mbx_last := (mbx_last s)(p := v19)\<rparr>)"
  "p \<noteq> NULL \<Longrightarrow> wr mbx_count_update p v20 s = Some (s\<lparr>mbx_count := (mbx_count s)(p := v20)\<rparr>)"
  "p \<noteq> NULL \<Longrightarrow> wr mbx_size_update p v21 s = Some (s\<lparr>mbx_size := (mbx_size s)(p := v21)\<rparr>)"
  "p \<noteq> NULL \<Longrightarrow> wr task_id_update p v22 s = Some (s\<lparr>task_id := (task_id s)(p := v22)\<rparr>)"
  "p \<noteq> NULL \<Longrightarrow> wr stack_frame_update p v23 s = Some (s\<lparr>stack_frame := (stack_frame s)(p := v23)\<rparr>)"
  "p \<noteq> NULL \<Longrightarrow> wr priv_stack_update p v24 s = Some (s\<lparr>priv_stack := (priv_stack s)(p := v24)\<rparr>)"
  "p \<noteq> NULL \<Longrightarrow> wr tsk_stack_update p v25 s = Some (s\<lparr>tsk_stack := (tsk_stack s)(p := v25)\<rparr>)"
  "p \<noteq> NULL \<Longrightarrow> wr stack_update p v26 s = Some (s\<lparr>stack := (stack s)(p := v26)\<rparr>)"
  "p \<noteq> NULL \<Longrightarrow> wr ptask_update p v27 s = Some (s\<lparr>ptask := (ptask s)(p := v27)\<rparr>)"
  "p \<noteq> NULL \<Longrightarrow> wr tmr_next_update p v28 s = Some (s\<lparr>tmr_next := (tmr_next s)(p := v28)\<rparr>)"
  "p \<noteq> NULL \<Longrightarrow> wr tmr_state_update p v29 s = Some (s\<lparr>tmr_state := (tmr_state s)(p := v29)\<rparr>)"
  "p \<noteq> NULL \<Longrightarrow> wr tmr_type_update p v30 s = Some (s\<lparr>tmr_type := (tmr_type s)(p := v30)\<rparr>)"
  "p \<noteq> NULL \<Longrightarrow> wr tmr_arg_update p v31 s = Some (s\<lparr>tmr_arg := (tmr_arg s)(p := v31)\<rparr>)"
  "p \<noteq> NULL \<Longrightarrow> wr tmr_tcnt_update p v32 s = Some (s\<lparr>tmr_tcnt := (tmr_tcnt s)(p := v32)\<rparr>)"
  "p \<noteq> NULL \<Longrightarrow> wr tmr_icnt_update p v33 s = Some (s\<lparr>tmr_icnt := (tmr_icnt s)(p := v33)\<rparr>)"
  "p \<noteq> NULL \<Longrightarrow> wr tmr_ptimer_update p v34 s = Some (s\<lparr>tmr_ptimer := (tmr_ptimer s)(p := v34)\<rparr>)"
  "p \<noteq> NULL \<Longrightarrow> wr mbx_msg_update p v35 s = Some (s\<lparr>mbx_msg := (mbx_msg s)(p := v35)\<rparr>)"
  by (cases s; simp add: wr_def)+

lemma is_tcb_not [simp]:
  "\<not> is_tcb NULL" "\<not> is_tcb Rdy" "\<not> is_tcb Dly" "\<not> is_tcb (Obj n)" "\<not> is_tcb (Tmr k)"
  by simp_all

lemma is_tcb_neq [simp]:
  "is_tcb t \<Longrightarrow> t \<noteq> NULL" "is_tcb t \<Longrightarrow> t \<noteq> Rdy" "is_tcb t \<Longrightarrow> t \<noteq> Dly" "is_tcb t \<Longrightarrow> t \<noteq> Obj n"
  "is_tcb t \<Longrightarrow> NULL \<noteq> t" "is_tcb t \<Longrightarrow> Rdy \<noteq> t" "is_tcb t \<Longrightarrow> Dly \<noteq> t" "is_tcb t \<Longrightarrow> Obj n \<noteq> t"
  by (cases t; simp)+

text \<open>\<open>rt_ret_val\<close> and \<open>rt_ret_val2\<close> (\<open>HAL_CM.c\<close>, the build without the floating point unit) store
  the return registers in the saved frame of a task.\<close>

definition rt_ret_regs :: "ptr \<Rightarrow> os \<Rightarrow> u32 option" where
  "rt_ret_regs p_TCB s = do {
     t \<leftarrow> rd tsk_stack p_TCB s;
     Some (t + 8 * 4)
   }"

definition rt_ret_val :: "ptr \<Rightarrow> u32 \<Rightarrow> os \<Rightarrow> os option" where
  "rt_ret_val p_TCB v0 s = do {
     ret \<leftarrow> rt_ret_regs p_TCB s;
     Some (s\<lparr>mem := (mem s)(ret := v0)\<rparr>)
   }"

definition rt_ret_val2 :: "ptr \<Rightarrow> u32 \<Rightarrow> u32 \<Rightarrow> os \<Rightarrow> os option" where
  "rt_ret_val2 p_TCB v0 v1 s = do {
     ret \<leftarrow> rt_ret_regs p_TCB s;
     let s = s\<lparr>mem := (mem s)(ret := v0)\<rparr>;
     Some (s\<lparr>mem := (mem s)(ret + 4 := v1)\<rparr>)
   }"

text \<open>The first return register in the saved frame of a task, as the task sees it when it resumes.\<close>

definition frame_r0 :: "os \<Rightarrow> ptr \<Rightarrow> u32" where
  "frame_r0 s p = mem s (tsk_stack s p + 32)"

definition frame_r1 :: "os \<Rightarrow> ptr \<Rightarrow> u32" where
  "frame_r1 s p = mem s (tsk_stack s p + 36)"

lemma rt_ret_val_eq [simp]:
  "p \<noteq> NULL \<Longrightarrow> rt_ret_val p v s = Some (s\<lparr>mem := (mem s)(tsk_stack s p + 32 := v)\<rparr>)"
  by (simp add: rt_ret_val_def rt_ret_regs_def)

lemma rt_ret_val2_eq [simp]:
  "p \<noteq> NULL \<Longrightarrow> rt_ret_val2 p v w s
     = Some (s\<lparr>mem := (mem s)(tsk_stack s p + 32 := v, tsk_stack s p + 36 := w)\<rparr>)"
  by (simp add: rt_ret_val2_def rt_ret_regs_def Let_def add.assoc)

end
