(* ===== verification/Rt_List.thy ===== *)
theory Rt_List
  imports Os_State
begin

text \<open>
  The kernel's task lists (\<open>rt_List.c\<close>): the ready list hanging off \<open>os_rdy\<close>, the waiting
  list of a semaphore, mutex or mailbox, and the delay list hanging off \<open>os_dly\<close>.
  First the operations as the code has them, then the facts about the chains they
  work on: insertion by priority, removal of the head and of an arbitrary task.
\<close>

section \<open>Operations\<close>

subsection \<open>Ready and waiting lists\<close>

definition sem_mbx :: "u8 \<Rightarrow> bool" where
  "sem_mbx ct \<longleftrightarrow> ct = SCB \<or> ct = MCB \<or> ct = MUCB"

text \<open>The search loop of \<open>rt_put_prio\<close>: returns \<open>(p_CB, p_CB2)\<close>.\<close>

partial_function (option) put_prio_search :: "u8 \<Rightarrow> ptr \<Rightarrow> ptr \<Rightarrow> os \<Rightarrow> (ptr \<times> ptr) option" where
  "put_prio_search pr p_CB p_CB2 s =
     (if p_CB2 \<noteq> NULL \<and> pr \<le> prio s p_CB2
      then put_prio_search pr p_CB2 (p_lnk s p_CB2) s
      else Some (p_CB, p_CB2))"

definition rt_put_prio :: "ptr \<Rightarrow> ptr \<Rightarrow> os \<Rightarrow> os option" where
  "rt_put_prio p_CB p_task s = do {
     ct \<leftarrow> rd cb_type p_CB s;
     let sm = sem_mbx ct;
     pr \<leftarrow> rd prio p_task s;
     p_CB2 \<leftarrow> rd p_lnk p_CB s;
     (p_CB, p_CB2) \<leftarrow> put_prio_search pr p_CB p_CB2 s;
     s \<leftarrow> wr p_lnk_update p_task p_CB2 s;
     s \<leftarrow> wr p_lnk_update p_CB p_task s;
     if sm then do {
       s \<leftarrow> (if p_CB2 \<noteq> NULL then wr p_rlnk_update p_CB2 p_task s else Some s);
       wr p_rlnk_update p_task p_CB s
     }
     else wr p_rlnk_update p_task NULL s
   }"

definition rt_get_first :: "ptr \<Rightarrow> os \<Rightarrow> (ptr \<times> os) option" where
  "rt_get_first p_CB s = do {
     p_first \<leftarrow> rd p_lnk p_CB s;
     nxt \<leftarrow> rd p_lnk p_first s;
     s \<leftarrow> wr p_lnk_update p_CB nxt s;
     ct \<leftarrow> rd cb_type p_CB s;
     s \<leftarrow> (if sem_mbx ct then do {
             s \<leftarrow> (if p_lnk s p_first \<noteq> NULL then do {
                     s \<leftarrow> wr p_rlnk_update (p_lnk s p_first) p_CB s;
                     wr p_lnk_update p_first NULL s
                   } else Some s);
             wr p_rlnk_update p_first NULL s
           }
           else wr p_lnk_update p_first NULL s);
     Some (p_first, s)
   }"

definition rt_put_rdy_first :: "ptr \<Rightarrow> os \<Rightarrow> os option" where
  "rt_put_rdy_first p_task s = do {
     s \<leftarrow> wr p_lnk_update p_task (p_lnk s Rdy) s;
     s \<leftarrow> wr p_rlnk_update p_task NULL s;
     wr p_lnk_update Rdy p_task s
   }"

definition rt_get_same_rdy_prio :: "os \<Rightarrow> (ptr \<times> os) option" where
  "rt_get_same_rdy_prio s = do {
     let p_first = p_lnk s Rdy;
     pf \<leftarrow> rd prio p_first s;
     pr \<leftarrow> rd prio (run s) s;
     if pf = pr then do {
       nxt \<leftarrow> rd p_lnk (p_lnk s Rdy) s;
       s \<leftarrow> wr p_lnk_update Rdy nxt s;
       Some (p_first, s)
     }
     else Some (NULL, s)
   }"

text \<open>The search of \<open>rt_rmv_list\<close> along the ready list.\<close>

partial_function (option) rmv_list_search :: "ptr \<Rightarrow> ptr \<Rightarrow> os \<Rightarrow> os option" where
  "rmv_list_search p_b p_task s =
     (if p_b \<noteq> NULL then
        (if p_lnk s p_b = p_task then do {
           nxt \<leftarrow> rd p_lnk p_task s;
           wr p_lnk_update p_b nxt s
         }
         else rmv_list_search (p_lnk s p_b) p_task s)
      else Some s)"

definition rt_rmv_list :: "ptr \<Rightarrow> os \<Rightarrow> os option" where
  "rt_rmv_list p_task s = do {
     r \<leftarrow> rd p_rlnk p_task s;
     if r \<noteq> NULL then do {
       nxt \<leftarrow> rd p_lnk p_task s;
       s \<leftarrow> wr p_lnk_update r nxt s;
       if nxt \<noteq> NULL then wr p_rlnk_update nxt r s else Some s
     }
     else rmv_list_search Rdy p_task s
   }"

text \<open>The walk of \<open>rt_resort_prio\<close> back to the head of the chain a task waits in.\<close>

partial_function (option) find_header :: "ptr \<Rightarrow> os \<Rightarrow> ptr option" where
  "find_header p_CB s = do {
     ct \<leftarrow> rd cb_type p_CB s;
     if ct = TCB then do {
       p_CB \<leftarrow> rd p_rlnk p_CB s;
       find_header p_CB s
     }
     else Some p_CB
   }"

definition rt_resort_prio :: "ptr \<Rightarrow> os \<Rightarrow> os option" where
  "rt_resort_prio p_task s = do {
     r \<leftarrow> rd p_rlnk p_task s;
     if r = NULL then
       if state s p_task = READY then do {
         s \<leftarrow> rt_rmv_list p_task s;
         rt_put_prio Rdy p_task s
       }
       else Some s
     else do {
       p_CB \<leftarrow> find_header r s;
       s \<leftarrow> rt_rmv_list p_task s;
       rt_put_prio p_CB p_task s
     }
   }"

definition rt_rdy_prio :: "os \<Rightarrow> u8 option" where
  "rt_rdy_prio s = rd prio (p_lnk s Rdy) s"

subsection \<open>Delay list\<close>

text \<open>The loop of \<open>rt_put_dly\<close> with its two exits.\<close>

definition put_dly_last :: "ptr \<Rightarrow> ptr \<Rightarrow> u32 \<Rightarrow> u32 \<Rightarrow> os \<Rightarrow> os option" where
  "put_dly_last p p_task delta idelay s = do {
     s \<leftarrow> wr p_dlnk_update p_task NULL s;
     s \<leftarrow> wr p_dlnk_update p p_task s;
     s \<leftarrow> wr p_blnk_update p_task p s;
     s \<leftarrow> wr delta_time_update p (ucast (idelay - delta)) s;
     wr delta_time_update p_task 0 s
   }"

definition put_dly_here :: "ptr \<Rightarrow> ptr \<Rightarrow> u32 \<Rightarrow> u32 \<Rightarrow> os \<Rightarrow> os option" where
  "put_dly_here p p_task delta idelay s = do {
     nxt \<leftarrow> rd p_dlnk p s;
     s \<leftarrow> wr p_dlnk_update p_task nxt s;
     s \<leftarrow> wr p_dlnk_update p p_task s;
     s \<leftarrow> wr p_blnk_update p_task p s;
     s \<leftarrow> (if p_dlnk s p_task \<noteq> NULL then wr p_blnk_update (p_dlnk s p_task) p_task s else Some s);
     s \<leftarrow> wr delta_time_update p_task (ucast (delta - idelay)) s;
     wr delta_time_update p (delta_time s p - delta_time s p_task) s
   }"

partial_function (option) put_dly_loop :: "ptr \<Rightarrow> ptr \<Rightarrow> u32 \<Rightarrow> u32 \<Rightarrow> os \<Rightarrow> os option" where
  "put_dly_loop p p_task delta idelay s =
     (if delta < idelay then
        (if p_dlnk s p = NULL then put_dly_last p p_task delta idelay s
         else put_dly_loop (p_dlnk s p) p_task
                (delta + ucast (delta_time s (p_dlnk s p))) idelay s)
      else put_dly_here p p_task delta idelay s)"

definition rt_put_dly :: "ptr \<Rightarrow> u16 \<Rightarrow> os \<Rightarrow> os option" where
  "rt_put_dly p_task delay s =
     (let idelay = ucast delay in
      if p_dlnk s Dly = NULL then put_dly_last Dly p_task 0 idelay s
      else put_dly_loop Dly p_task (ucast (delta_time s Dly)) idelay s)"

text \<open>One round of the loop of \<open>rt_dec_dly\<close>, and the loop.\<close>

definition dec_dly_unlink :: "ptr \<Rightarrow> os \<Rightarrow> os option" where
  "dec_dly_unlink p_rdy s = do {
     r \<leftarrow> rd p_rlnk p_rdy s;
     if r \<noteq> NULL then do {
       s \<leftarrow> wr p_lnk_update r (p_lnk s p_rdy) s;
       s \<leftarrow> (if p_lnk s p_rdy \<noteq> NULL then do {
               s \<leftarrow> wr p_rlnk_update (p_lnk s p_rdy) r s;
               wr p_lnk_update p_rdy NULL s
             } else Some s);
       wr p_rlnk_update p_rdy NULL s
     } else Some s
   }"

definition dec_dly_pop :: "ptr \<Rightarrow> os \<Rightarrow> os option" where
  "dec_dly_pop p_rdy s = do {
     s \<leftarrow> wr delta_time_update Dly (delta_time s p_rdy) s;
     s \<leftarrow> (if state s p_rdy = WAIT_ITV
           then wr delta_time_update p_rdy (interval_time s p_rdy + ucast (os_time s)) s
           else Some s);
     s \<leftarrow> wr state_update p_rdy READY s;
     s \<leftarrow> wr p_dlnk_update Dly (p_dlnk s p_rdy) s;
     s \<leftarrow> (if p_dlnk s p_rdy \<noteq> NULL then do {
             s \<leftarrow> wr p_blnk_update (p_dlnk s p_rdy) Dly s;
             wr p_dlnk_update p_rdy NULL s
           } else Some s);
     wr p_blnk_update p_rdy NULL s
   }"

definition dec_dly_body :: "os \<Rightarrow> os option" where
  "dec_dly_body s = do {
     let p_rdy = p_dlnk s Dly;
     s \<leftarrow> dec_dly_unlink p_rdy s;
     s \<leftarrow> rt_put_prio Rdy p_rdy s;
     dec_dly_pop p_rdy s
   }"

partial_function (option) dec_dly_loop :: "os \<Rightarrow> os option" where
  "dec_dly_loop s =
     (if delta_time s Dly = 0 \<and> p_dlnk s Dly \<noteq> NULL
      then do { s \<leftarrow> dec_dly_body s; dec_dly_loop s }
      else Some s)"

definition rt_dec_dly :: "os \<Rightarrow> os option" where
  "rt_dec_dly s =
     (if p_dlnk s Dly = NULL then Some s
      else do {
        s \<leftarrow> wr delta_time_update Dly (delta_time s Dly - 1) s;
        dec_dly_loop s
      })"

definition rt_rmv_dly :: "ptr \<Rightarrow> os \<Rightarrow> os option" where
  "rt_rmv_dly p_task s = do {
     p_b \<leftarrow> rd p_blnk p_task s;
     if p_b \<noteq> NULL then do {
       s \<leftarrow> wr p_dlnk_update p_b (p_dlnk s p_task) s;
       s \<leftarrow> (if p_dlnk s p_task \<noteq> NULL then do {
               s \<leftarrow> wr delta_time_update p_b (delta_time s p_b + delta_time s p_task) s;
               s \<leftarrow> wr p_blnk_update (p_dlnk s p_task) p_b s;
               wr p_dlnk_update p_task NULL s
             }
             else wr delta_time_update p_b 0 s);
       wr p_blnk_update p_task NULL s
     }
     else Some s
   }"

subsection \<open>Post service queue\<close>

text \<open>\<open>rt_inc_qi\<close> (\<open>rt_HAL_CM.h\<close>): reserve a slot of the queue, or return a value that is not below \<open>size\<close>.\<close>

definition rt_inc_qi :: "u32 \<Rightarrow> os \<Rightarrow> u32 \<times> os" where
  "rt_inc_qi sz s =
     (let cnt = ucast (psq_count s) :: u32 in
      if cnt < sz then
        let s = s\<lparr>psq_count := ucast (cnt + 1)\<rparr>;
            cnt = ucast (psq_first s) :: u32;
            c2 = cnt + 1;
            c2 = (if c2 = sz then 0 else c2)
        in (cnt, s\<lparr>psq_first := ucast c2\<rparr>)
      else (cnt, s))"

text \<open>\<open>os_error\<close> ends in an endless loop (\<open>mbed_die_advanced\<close>): the request does not return.\<close>

definition rt_psq_enq :: "ptr \<Rightarrow> u32 \<Rightarrow> os \<Rightarrow> os option" where
  "rt_psq_enq entry arg s =
     (let (idx, s) = rt_inc_qi (ucast (psq_size s)) s in
      if idx < ucast (psq_size s)
      then Some (s\<lparr>psq_q := (psq_q s)(unat idx := (entry, arg))\<rparr>)
      else None)"

section \<open>Facts about the ready and waiting lists\<close>

lemma put_prio_search_chain:
  "chain NULL (p_lnk s) h ts \<Longrightarrow>
     put_prio_search pr h (p_lnk s h) s =
       Some (last_node h (takeWhile (\<lambda>t. pr \<le> prio s t) ts),
             first_node NULL (dropWhile (\<lambda>t. pr \<le> prio s t) ts))"
proof (induction ts arbitrary: h)
  case Nil
  then show ?case by (subst put_prio_search.simps) simp
next
  case (Cons t ts)
  then show ?case by (subst put_prio_search.simps) auto
qed

lemma rt_put_prio_rdy:
  assumes c: "chain NULL (p_lnk s) h ts" and ty: "\<not> sem_mbx (cb_type s h)"
    and p: "p \<noteq> NULL" "p \<notin> insert h (set ts)" and h: "h \<noteq> NULL"
  shows "\<exists>l. rt_put_prio h p s = Some (s\<lparr>p_lnk := l, p_rlnk := (p_rlnk s)(p := NULL)\<rparr>) \<and>
     chain NULL l h (ins_prio (prio s) p ts) \<and>
     (\<forall>x. x \<notin> insert h (insert p (set ts)) \<longrightarrow> l x = p_lnk s x)"
proof -
  define xs where "xs = takeWhile (\<lambda>t. prio s p \<le> prio s t) ts"
  define ys where "ys = dropWhile (\<lambda>t. prio s p \<le> prio s t) ts"
  have ts: "ts = xs @ ys" and sub: "set xs \<subseteq> set ts"
    by (auto simp: xs_def ys_def dest: set_takeWhileD)
  have L: "last_node h xs \<in> insert h (set ts)" using last_node_in [of h xs] sub by auto
  have LN: "last_node h xs \<noteq> NULL" using L h chain_nil_notin [OF c] by auto
  define l where "l = (p_lnk s)(p := first_node NULL ys, last_node h xs := p)"
  have "chain NULL l h (ins_prio (prio s) p ts)"
    using chain_insert [of NULL "p_lnk s" h xs ys p] c p
    unfolding l_def ts ins_prio_def by (simp add: xs_def ys_def)
  moreover have "rt_put_prio h p s = Some (s\<lparr>p_lnk := l, p_rlnk := (p_rlnk s)(p := NULL)\<rparr>)"
    using p h LN ty unfolding rt_put_prio_def
    by (simp add: put_prio_search_chain [OF c] Let_def l_def xs_def [symmetric] ys_def [symmetric])
  moreover have "\<forall>x. x \<notin> insert h (insert p (set ts)) \<longrightarrow> l x = p_lnk s x"
    using L by (auto simp: l_def)
  ultimately show ?thesis by blast
qed

lemma rt_put_prio_wait:
  assumes c: "chain NULL (p_lnk s) h ts" and rc: "rchain (p_rlnk s) h ts"
    and ty: "sem_mbx (cb_type s h)"
    and p: "p \<noteq> NULL" "p \<notin> insert h (set ts)" and h: "h \<noteq> NULL"
  shows "\<exists>l r. rt_put_prio h p s = Some (s\<lparr>p_lnk := l, p_rlnk := r\<rparr>) \<and>
     chain NULL l h (ins_prio (prio s) p ts) \<and> rchain r h (ins_prio (prio s) p ts) \<and>
     (\<forall>x. x \<notin> insert h (insert p (set ts)) \<longrightarrow> l x = p_lnk s x) \<and>
     (\<forall>x. x \<notin> insert p (set ts) \<longrightarrow> r x = p_rlnk s x)"
proof -
  define xs where "xs = takeWhile (\<lambda>t. prio s p \<le> prio s t) ts"
  define ys where "ys = dropWhile (\<lambda>t. prio s p \<le> prio s t) ts"
  have ts: "ts = xs @ ys" and sub: "set xs \<subseteq> set ts"
    by (auto simp: xs_def ys_def dest: set_takeWhileD)
  have ins: "ins_prio (prio s) p ts = xs @ p # ys" by (simp add: ins_prio_def xs_def ys_def)
  have L: "last_node h xs \<in> insert h (set ts)" using last_node_in [of h xs] sub by auto
  have LN: "last_node h xs \<noteq> NULL" using L h chain_nil_notin [OF c] by auto
  have d: "distinct ts" using chain_distinct [OF c] by simp
  define l where "l = (p_lnk s)(p := first_node NULL ys, last_node h xs := p)"
  have cl: "chain NULL l h (xs @ p # ys)"
    using chain_insert [of NULL "p_lnk s" h xs ys p] c p unfolding l_def ts by simp
  have fr: "\<forall>x. x \<notin> insert h (insert p (set ts)) \<longrightarrow> l x = p_lnk s x"
    using L by (auto simp: l_def)
  show ?thesis
  proof (cases ys)
    case Nil
    define r where "r = (p_rlnk s)(p := last_node h xs)"
    have "rchain r h (xs @ p # ys)"
      using rchain_insert(1) [of "p_rlnk s" h xs ys p] rc p d Nil ts by (simp add: r_def)
    moreover have "rt_put_prio h p s = Some (s\<lparr>p_lnk := l, p_rlnk := r\<rparr>)"
      using p h LN ty Nil unfolding rt_put_prio_def
      by (simp add: put_prio_search_chain [OF c] Let_def l_def r_def xs_def [symmetric] ys_def [symmetric])
    moreover have "\<forall>x. x \<notin> insert p (set ts) \<longrightarrow> r x = p_rlnk s x" by (simp add: r_def)
    ultimately show ?thesis using cl fr unfolding ins by blast
  next
    case (Cons y zs)
    define r where "r = (p_rlnk s)(y := p, p := last_node h xs)"
    have "y \<noteq> NULL" using chain_nil_notin [OF c] Cons ts by auto
    have "rchain r h (xs @ p # ys)"
      using rchain_insert(2) [of "p_rlnk s" h xs ys p y zs] rc p d Cons ts by (simp add: r_def)
    moreover have "rt_put_prio h p s = Some (s\<lparr>p_lnk := l, p_rlnk := r\<rparr>)"
      using p h LN ty Cons \<open>y \<noteq> NULL\<close> unfolding rt_put_prio_def
      by (simp add: put_prio_search_chain [OF c] Let_def l_def r_def xs_def [symmetric] ys_def [symmetric])
    moreover have "\<forall>x. x \<notin> insert p (set ts) \<longrightarrow> r x = p_rlnk s x" using Cons ts by (simp add: r_def)
    ultimately show ?thesis using cl fr unfolding ins by blast
  qed
qed

lemma rt_get_first_rdy:
  assumes c: "chain NULL (p_lnk s) h (t # ts)" and ty: "\<not> sem_mbx (cb_type s h)" and h: "h \<noteq> NULL"
  shows "\<exists>l. rt_get_first h s = Some (t, s\<lparr>p_lnk := l\<rparr>) \<and>
     chain NULL l h ts \<and> (\<forall>x. x \<notin> {h, t} \<longrightarrow> l x = p_lnk s x)"
proof -
  have n: "h \<noteq> t" "h \<notin> set ts" "t \<notin> set ts" using chain_distinct [OF c] by auto
  have tn: "t \<noteq> NULL" and lt: "p_lnk s h = t" and ct: "chain NULL (p_lnk s) t ts" using c by auto
  define l where "l = (p_lnk s)(h := p_lnk s t, t := NULL)"
  have "chain NULL l h ts"
    using chain_remove [of NULL "p_lnk s" h "[]" t ts] c n by (simp add: l_def)
  moreover have "rt_get_first h s = Some (t, s\<lparr>p_lnk := l\<rparr>)"
    using n tn lt h ty by (simp add: rt_get_first_def l_def)
  ultimately show ?thesis by (auto simp: l_def)
qed

lemma rt_get_first_wait:
  assumes c: "chain NULL (p_lnk s) h (t # ts)" and rc: "rchain (p_rlnk s) h (t # ts)"
    and ty: "sem_mbx (cb_type s h)" and h: "h \<noteq> NULL"
  shows "\<exists>l r. rt_get_first h s = Some (t, s\<lparr>p_lnk := l, p_rlnk := r\<rparr>) \<and>
     chain NULL l h ts \<and> rchain r h ts \<and> r t = NULL \<and>
     (\<forall>x. x \<notin> {h, t} \<longrightarrow> l x = p_lnk s x) \<and>
     (\<forall>x. x \<notin> insert t (set ts) \<longrightarrow> r x = p_rlnk s x)"
proof -
  have n: "h \<noteq> t" "h \<notin> set ts" "t \<notin> set ts" "distinct ts" using chain_distinct [OF c] by auto
  have tn: "t \<noteq> NULL" and lt: "p_lnk s h = t" and ct: "chain NULL (p_lnk s) t ts" using c by auto
  show ?thesis
  proof (cases ts)
    case Nil
    with ct have "p_lnk s t = NULL" by simp
    then have e: "rt_get_first h s =
        Some (t, s\<lparr>p_lnk := (p_lnk s)(h := NULL), p_rlnk := (p_rlnk s)(t := NULL)\<rparr>)"
      using n tn lt h ty by (simp add: rt_get_first_def)
    show ?thesis
      by (rule exI [of _ "(p_lnk s)(h := NULL)"], rule exI [of _ "(p_rlnk s)(t := NULL)"])
        (simp add: e Nil)
  next
    case (Cons u us)
    with ct have u: "p_lnk s t = u" "u \<noteq> NULL" by auto
    define l where "l = (p_lnk s)(h := u, t := NULL)"
    define r where "r = (p_rlnk s)(u := h, t := NULL)"
    have "rt_get_first h s = Some (t, s\<lparr>p_lnk := l, p_rlnk := r\<rparr>)"
      using n tn lt h ty u by (simp add: rt_get_first_def l_def r_def)
    moreover have "chain NULL l h ts"
      using chain_remove [of NULL "p_lnk s" h "[]" t ts] c n u by (simp add: l_def)
    moreover have "rchain r h ts" using rc n Cons by (auto simp: r_def)
    moreover have "r t = NULL" "\<forall>x. x \<notin> {h, t} \<longrightarrow> l x = p_lnk s x"
      "\<forall>x. x \<notin> insert t (set ts) \<longrightarrow> r x = p_rlnk s x"
      using Cons by (auto simp: l_def r_def)
    ultimately show ?thesis by blast
  qed
qed

subsection \<open>Removal of an arbitrary task\<close>

lemma rmv_list_search_found:
  assumes "chain NULL (p_lnk s) h (xs @ p # ys)" and "h \<noteq> NULL"
  shows "rmv_list_search h p s = Some (s\<lparr>p_lnk := (p_lnk s)(last_node h xs := p_lnk s p)\<rparr>)"
  using assms
proof (induction xs arbitrary: h)
  case Nil
  then show ?case by (subst rmv_list_search.simps) auto
next
  case (Cons x xs)
  have "p_lnk s h \<noteq> p" using Cons.prems chain_distinct [of NULL "p_lnk s" h "(x # xs) @ p # ys"] by auto
  moreover have "rmv_list_search x p s = Some (s\<lparr>p_lnk := (p_lnk s)(last_node x xs := p_lnk s p)\<rparr>)"
    using Cons.prems by (intro Cons.IH) auto
  ultimately show ?case using Cons.prems by (subst rmv_list_search.simps) simp
qed

lemma rmv_list_search_absent:
  assumes "chain NULL (p_lnk s) h ts" and "p \<notin> set ts" and "p \<noteq> NULL"
  shows "rmv_list_search h p s = Some s"
  using assms
proof (induction ts arbitrary: h)
  case Nil
  then show ?case by (subst rmv_list_search.simps) (auto simp: rmv_list_search.simps [of NULL])
next
  case (Cons t ts)
  then show ?case by (subst rmv_list_search.simps) auto
qed

lemma rt_rmv_list_rdy:
  assumes c: "chain NULL (p_lnk s) Rdy (xs @ p # ys)" and r: "p_rlnk s p = NULL"
  shows "\<exists>l. rt_rmv_list p s = Some (s\<lparr>p_lnk := l\<rparr>) \<and> chain NULL l Rdy (xs @ ys) \<and>
     (\<forall>x. x \<notin> insert Rdy (set xs) \<longrightarrow> l x = p_lnk s x)"
proof -
  have "p \<noteq> NULL" using chain_nil_notin [OF c] by auto
  then have "rt_rmv_list p s = Some (s\<lparr>p_lnk := (p_lnk s)(last_node Rdy xs := p_lnk s p)\<rparr>)"
    using r rmv_list_search_found [OF c] by (simp add: rt_rmv_list_def)
  then show ?thesis using chain_remove [OF c] last_node_in [of Rdy xs] by auto
qed

lemma rt_rmv_list_absent:
  assumes "chain NULL (p_lnk s) Rdy ts" and "p_rlnk s p = NULL" and "p \<notin> set ts" and "p \<noteq> NULL"
  shows "rt_rmv_list p s = Some s"
  using assms rmv_list_search_absent by (simp add: rt_rmv_list_def)

lemma rt_rmv_list_wait:
  assumes c: "chain NULL (p_lnk s) h (xs @ p # ys)" and rc: "rchain (p_rlnk s) h (xs @ p # ys)"
    and h: "h \<noteq> NULL"
  shows "\<exists>l r. rt_rmv_list p s = Some (s\<lparr>p_lnk := l, p_rlnk := r\<rparr>) \<and>
     chain NULL l h (xs @ ys) \<and> rchain r h (xs @ ys) \<and>
     (\<forall>x. x \<notin> insert h (set xs) \<longrightarrow> l x = p_lnk s x) \<and>
     (\<forall>x. x \<notin> set ys \<longrightarrow> r x = p_rlnk s x)"
proof -
  have nn: "NULL \<notin> set (xs @ p # ys)" by (rule chain_nil_notin [OF c])
  then have pn: "p \<noteq> NULL" by auto
  have pr: "p_rlnk s p = last_node h xs" using rc by (rule rchain_at)
  have LN: "last_node h xs \<noteq> NULL" using last_node_in [of h xs] h nn by auto
  have d: "distinct (xs @ p # ys)" using chain_distinct [OF c] by simp
  have pl: "p_lnk s p = first_node NULL ys" using c by (rule chain_lnk_at)
  define l where "l = (p_lnk s)(last_node h xs := p_lnk s p)"
  have cl: "chain NULL l h (xs @ ys)" unfolding l_def by (rule chain_remove [OF c])
  have fr: "\<forall>x. x \<notin> insert h (set xs) \<longrightarrow> l x = p_lnk s x"
    using last_node_in [of h xs] by (auto simp: l_def)
  show ?thesis
  proof (cases ys)
    case Nil
    then have "rt_rmv_list p s = Some (s\<lparr>p_lnk := l, p_rlnk := p_rlnk s\<rparr>)"
      using pn nn pr LN pl by (simp add: rt_rmv_list_def l_def)
    moreover have "rchain (p_rlnk s) h (xs @ ys)" using rchain_remove(1) [OF rc d Nil] Nil by simp
    ultimately show ?thesis using cl fr by blast
  next
    case (Cons y zs)
    then have "y \<noteq> NULL" using nn by auto
    with Cons have "rt_rmv_list p s = Some (s\<lparr>p_lnk := l, p_rlnk := (p_rlnk s)(y := p_rlnk s p)\<rparr>)"
      using pn nn pr LN pl by (simp add: rt_rmv_list_def l_def)
    moreover have "\<forall>x. x \<notin> set ys \<longrightarrow> ((p_rlnk s)(y := p_rlnk s p)) x = p_rlnk s x"
      using Cons by simp
    ultimately show ?thesis using cl fr rchain_remove(2) [OF rc d Cons] by blast
  qed
qed

lemma find_header_rchain:
  assumes "rchain (p_rlnk s) h (xs @ [p])" and "\<forall>t\<in>set xs. cb_type s t = TCB \<and> t \<noteq> NULL"
    and "cb_type s h \<noteq> TCB" and "h \<noteq> NULL"
  shows "find_header (p_rlnk s p) s = Some h"
  using assms
proof (induction xs arbitrary: p rule: rev_induct)
  case Nil
  then show ?case by (subst find_header.simps) simp
next
  case (snoc x xs)
  then have "p_rlnk s p = x" "cb_type s x = TCB" "x \<noteq> NULL"
    by (auto simp: rchain_append)
  moreover have "find_header (p_rlnk s x) s = Some h"
    using snoc by (intro snoc.IH) (auto simp: rchain_append)
  ultimately show ?case by (subst find_header.simps) simp
qed

end
