(* ===== verification/Rt_Delay.thy ===== *)
theory Rt_Delay
  imports Rt_List
begin

text \<open>
  The delay list of \<open>rt_List.c\<close> against its meaning: a list of tasks with the number of ticks
  each has left, in ascending order. The code stores in every node, the head included, the
  ticks between the time of the node and the time of its successor; \<open>dly_list s D\<close> relates
  that representation to the list \<open>D\<close> of tasks with absolute times.
\<close>

section \<open>Representation\<close>

fun deltas :: "(ptr \<Rightarrow> u16) \<Rightarrow> nat \<Rightarrow> ptr \<Rightarrow> (ptr \<times> nat) list \<Rightarrow> bool" where
  "deltas dt b h [] \<longleftrightarrow> True"
| "deltas dt b h ((t, k) # D) \<longleftrightarrow> k = b + unat (dt h) \<and> deltas dt k t D"

fun last_time :: "nat \<Rightarrow> (ptr \<times> nat) list \<Rightarrow> nat" where
  "last_time b [] = b"
| "last_time b ((t, k) # D) = last_time k D"

definition dly_links :: "os \<Rightarrow> (ptr \<times> nat) list \<Rightarrow> bool" where
  "dly_links s D \<longleftrightarrow>
     chain NULL (p_dlnk s) Dly (map fst D) \<and> rchain (p_blnk s) Dly (map fst D) \<and>
     deltas (delta_time s) 0 Dly D \<and> delta_time s (last_node Dly (map fst D)) = 0"

definition dly_list :: "os \<Rightarrow> (ptr \<times> nat) list \<Rightarrow> bool" where
  "dly_list s D \<longleftrightarrow> dly_links s D \<and> (\<forall>(t, k)\<in>set D. is_tcb t \<and> 0 < k \<and> k < 65535)"

text \<open>The abstract operations: insertion before the first task that is due at the same tick or later,
  and removal.\<close>

definition ins_dly :: "ptr \<Rightarrow> nat \<Rightarrow> (ptr \<times> nat) list \<Rightarrow> (ptr \<times> nat) list" where
  "ins_dly p d D = takeWhile (\<lambda>x. snd x < d) D @ (p, d) # dropWhile (\<lambda>x. snd x < d) D"

definition rmv_dly :: "ptr \<Rightarrow> (ptr \<times> nat) list \<Rightarrow> (ptr \<times> nat) list" where
  "rmv_dly p D = filter (\<lambda>x. fst x \<noteq> p) D"

lemma set_ins_dly [simp]: "set (ins_dly p d D) = insert (p, d) (set D)"
proof -
  have "set (takeWhile (\<lambda>x. snd x < d) D) \<union> set (dropWhile (\<lambda>x. snd x < d) D) = set D"
    by (metis set_append takeWhile_dropWhile_id)
  then show ?thesis by (auto simp: ins_dly_def)
qed

lemma set_rmv_dly [simp]: "set (rmv_dly p D) = {x \<in> set D. fst x \<noteq> p}"
  by (simp add: rmv_dly_def)

lemma rmv_dly_absent [simp]: "p \<notin> fst ` set D \<Longrightarrow> rmv_dly p D = D"
  unfolding rmv_dly_def by (rule filter_True) force

lemma last_time_append [simp]: "last_time b (xs @ ys) = last_time (last_time b xs) ys"
  by (induction b xs rule: last_time.induct) auto

lemma deltas_append:
  "deltas dt b h (xs @ ys) \<longleftrightarrow>
     deltas dt b h xs \<and> deltas dt (last_time b xs) (last_node h (map fst xs)) ys"
  by (induction dt b h xs rule: deltas.induct) auto

lemma deltas_frame [simp]:
  "x \<noteq> h \<Longrightarrow> x \<notin> fst ` set D \<Longrightarrow> deltas (dt(x := v)) b h D = deltas dt b h D"
  by (induction dt b h D rule: deltas.induct) auto

lemma deltas_cong:
  "(\<And>x. x \<in> insert h (fst ` set D) \<Longrightarrow> dt x = dt' x) \<Longrightarrow> deltas dt b h D = deltas dt' b h D"
  by (induction dt b h D rule: deltas.induct) auto

text \<open>The delta of the last node before a prefix's end only matters for what follows it.\<close>

lemma deltas_last_irrelevant:
  assumes "deltas dt b h xs" and "distinct (h # map fst xs)"
  shows "deltas (dt(last_node h (map fst xs) := v)) b h xs"
  using assms
proof (induction xs arbitrary: b h)
  case Nil
  then show ?case by simp
next
  case (Cons x xs)
  obtain t k where x: "x = (t, k)" by (cases x)
  have "last_node t (map fst xs) \<noteq> h"
    using last_node_in [of t "map fst xs"] Cons.prems x by auto
  with Cons x show ?case by auto
qed

lemma deltas_times_ge: "deltas dt b h D \<Longrightarrow> x \<in> set D \<Longrightarrow> b \<le> snd x"
  by (induction dt b h D rule: deltas.induct) fastforce+

lemma deltas_sorted: "deltas dt b h D \<Longrightarrow> sorted (map snd D)"
  by (induction dt b h D rule: deltas.induct) (auto dest: deltas_times_ge)

lemma last_time_le:
  "deltas dt b h D \<Longrightarrow> \<forall>x\<in>set D. snd x < m \<Longrightarrow> b < m \<Longrightarrow> last_time b D < m"
  by (induction dt b h D rule: deltas.induct) auto

section \<open>Insertion\<close>

lemma put_dly_loop_chain:
  assumes "chain NULL (p_dlnk s) h (map fst D)" and "deltas (delta_time s) b h D"
    and "delta_time s (last_node h (map fst D)) = 0" and "k0 = b + unat (delta_time s h)"
    and "b < d" and "d < 65536" and "\<forall>x\<in>set D. snd x < 65536"
  shows "put_dly_loop h p (of_nat k0) (of_nat d) s =
    (case dropWhile (\<lambda>x. snd x < d) D of
       [] \<Rightarrow> put_dly_last (last_node h (map fst D)) p (of_nat (last_time b D)) (of_nat d) s
     | x # _ \<Rightarrow> put_dly_here (last_node h (map fst (takeWhile (\<lambda>x. snd x < d) D))) p
                  (of_nat (snd x)) (of_nat d) s)"
  using assms
proof (induction D arbitrary: h b k0)
  case Nil
  then have "(of_nat k0 :: u32) < of_nat d" by (simp add: of_nat_word_less)
  with Nil show ?case by (subst put_dly_loop.simps) simp
next
  case (Cons x D)
  obtain t k where x: "x = (t, k)" by (cases x)
  have k: "k0 = k" "k < 65536" using Cons.prems by (auto simp: x)
  have t: "t \<noteq> NULL" "p_dlnk s h = t" using Cons.prems(1) x by auto
  have less: "(of_nat k :: u32) < of_nat d \<longleftrightarrow> k < d"
    using k Cons.prems(6) by (simp add: of_nat_word_less)
  show ?case
  proof (cases "k < d")
    case False
    then show ?thesis
      using k less unfolding x by (subst put_dly_loop.simps) simp
  next
    case True
    have "put_dly_loop t p (of_nat (k + unat (delta_time s t))) (of_nat d) s =
      (case dropWhile (\<lambda>x. snd x < d) D of
       [] \<Rightarrow> put_dly_last (last_node t (map fst D)) p (of_nat (last_time k D)) (of_nat d) s
     | x # _ \<Rightarrow> put_dly_here (last_node t (map fst (takeWhile (\<lambda>x. snd x < d) D))) p
                  (of_nat (snd x)) (of_nat d) s)"
      using Cons.prems True x by (intro Cons.IH) auto
    moreover have "(of_nat k0 + ucast (delta_time s t) :: u32) = of_nat (k + unat (delta_time s t))"
      using k by simp
    ultimately show ?thesis
      using True k t less unfolding x by (subst put_dly_loop.simps) (simp cong: list.case_cong)
  qed
qed

lemma deltas_insert_end:
  assumes "deltas dt b h xs" and "distinct (h # map fst xs)" and "last_time b xs + unat w = d"
  shows "deltas (dt(last_node h (map fst xs) := w)) b h (xs @ [(p, d)])"
  using assms deltas_last_irrelevant [OF assms(1,2)] by (simp add: deltas_append)

lemma deltas_insert_mid:
  assumes D: "deltas dt b h (xs @ (t, k) # ys)" and dist: "distinct (h # map fst (xs @ (t, k) # ys))"
    and p: "p \<notin> insert h (fst ` set (xs @ (t, k) # ys))"
    and w: "last_time b xs + unat w1 = d" "d + unat w2 = k"
  shows "deltas (dt(p := w2, last_node h (map fst xs) := w1)) b h (xs @ (p, d) # (t, k) # ys)"
proof -
  let ?n = "last_node h (map fst xs)"
  let ?dt = "dt(p := w2, ?n := w1)"
  have n: "?n \<in> insert h (set (map fst xs))" by (rule last_node_in)
  have "insert h (set (map fst xs)) \<inter> insert p (insert t (fst ` set ys)) = {}"
    using p dist by (simp add: image_Un)
  then have np: "?n \<noteq> p" "?n \<noteq> t" "?n \<notin> fst ` set ys" using n by blast+
  have pn: "p \<noteq> h" "p \<noteq> t" "p \<notin> fst ` set xs" "p \<notin> fst ` set ys" using p by auto
  have D': "deltas dt b h xs" "deltas dt k t ys" using D by (auto simp: deltas_append)
  have "deltas (dt(p := w2)) b h xs" using D' pn by simp
  moreover have "distinct (h # map fst xs)" using dist by auto
  ultimately have "deltas ?dt b h xs" by (rule deltas_last_irrelevant)
  moreover have "deltas ?dt k t ys" using D' np pn by simp
  ultimately show ?thesis using w np by (simp add: deltas_append)
qed

text \<open>
  \<open>rt_put_dly\<close> inserts the task so that it is due in \<open>delay\<close> ticks and leaves the due time of
  every other task as it is.
\<close>

lemma dly_list_put:
  assumes D: "dly_list s D" and p: "is_tcb p" "p \<notin> fst ` set D" and d: "0 < d" "d < 0xFFFF"
  shows "\<exists>dl bl dt. rt_put_dly p d s = Some (s\<lparr>p_dlnk := dl, p_blnk := bl, delta_time := dt\<rparr>) \<and>
     dly_list (s\<lparr>p_dlnk := dl, p_blnk := bl, delta_time := dt\<rparr>) (ins_dly p (unat d) D) \<and>
     (\<forall>x. x \<notin> insert p (fst ` set D) \<longrightarrow> bl x = p_blnk s x)"
proof -
  define xs where "xs = takeWhile (\<lambda>x. snd x < unat d) D"
  define ys where "ys = dropWhile (\<lambda>x. snd x < unat d) D"
  have Dxy: "D = xs @ ys" by (simp add: xs_def ys_def)
  have ins: "ins_dly p (unat d) D = xs @ (p, unat d) # ys" by (simp add: ins_dly_def xs_def ys_def)
  have c: "chain NULL (p_dlnk s) Dly (map fst D)" and rc: "rchain (p_blnk s) Dly (map fst D)"
    and dl: "deltas (delta_time s) 0 Dly D" and z: "delta_time s (last_node Dly (map fst D)) = 0"
    and wf: "\<forall>(t, k)\<in>set D. is_tcb t \<and> 0 < k \<and> k < 65535"
    using D by (auto simp: dly_list_def dly_links_def)
  have dist: "distinct (Dly # map fst D)" by (rule chain_distinct [OF c])
  have p': "p \<noteq> NULL" "p \<noteq> Dly" using p by auto
  have d0: "0 < unat d" using d(1) by (simp add: word_less_nat_alt)
  have d1: "unat d < 65535" using d(2) by (simp add: word_less_nat_alt)
  have wf': "\<forall>x\<in>set D. snd x < 65536" using wf by fastforce
  have xless: "\<forall>x\<in>set xs. snd x < unat d" unfolding xs_def by (auto dest: set_takeWhileD)
  define n where "n = last_node Dly (map fst xs)"
  have nin: "n \<in> insert Dly (set (map fst xs))" unfolding n_def by (rule last_node_in)
  have nN: "n \<noteq> NULL" using nin chain_nil_notin [OF c] Dxy by auto
  have np: "n \<noteq> p" using nin p p' Dxy by auto
  have lt: "last_time 0 xs < unat d"
    using last_time_le [of "delta_time s" 0 Dly xs "unat d"] dl Dxy xless d0 by (simp add: deltas_append)
  have dxs: "deltas (delta_time s) 0 Dly xs" "distinct (Dly # map fst xs)"
    using dl dist Dxy by (auto simp: deltas_append)
  define cd where "cd = (p_dlnk s)(p := first_node NULL (map fst ys), n := p)"
  have chain': "chain NULL cd Dly (map fst (xs @ (p, unat d) # ys))"
    using chain_insert [of NULL "p_dlnk s" Dly "map fst xs" "map fst ys" p] c p p' Dxy
    by (simp add: cd_def n_def image_Un)
  have wf2: "\<forall>(t, k)\<in>set (xs @ (p, unat d) # ys). is_tcb t \<and> 0 < k \<and> k < 65535"
    using wf Dxy p d0 d1 by auto
  have start: "p_dlnk s Dly \<noteq> NULL \<Longrightarrow> rt_put_dly p d s =
      (case ys of [] \<Rightarrow> put_dly_last (last_node Dly (map fst D)) p (of_nat (last_time 0 D)) (of_nat (unat d)) s
       | x # _ \<Rightarrow> put_dly_here n p (of_nat (snd x)) (of_nat (unat d)) s)"
  proof -
    assume "p_dlnk s Dly \<noteq> NULL"
    then have "rt_put_dly p d s = put_dly_loop Dly p (of_nat (unat (delta_time s Dly))) (of_nat (unat d)) s"
      by (simp add: rt_put_dly_def)
    also have "\<dots> = (case dropWhile (\<lambda>x. snd x < unat d) D of
       [] \<Rightarrow> put_dly_last (last_node Dly (map fst D)) p (of_nat (last_time 0 D)) (of_nat (unat d)) s
     | x # _ \<Rightarrow> put_dly_here (last_node Dly (map fst (takeWhile (\<lambda>x. snd x < unat d) D))) p
                  (of_nat (snd x)) (of_nat (unat d)) s)"
      using d0 d1 wf' by (intro put_dly_loop_chain c dl z) auto
    finally show ?thesis unfolding xs_def [symmetric] ys_def [symmetric] n_def [symmetric] .
  qed
  show ?thesis
  proof (cases ys)
    case Nil
    define w :: u16 where "w = ucast (of_nat (unat d) - of_nat (last_time 0 xs) :: u32)"
    define bl where "bl = (p_blnk s)(p := n)"
    define dt where "dt = (delta_time s)(p := 0, n := w)"
    have start': "rt_put_dly p d s = put_dly_last n p (of_nat (last_time 0 xs)) (of_nat (unat d)) s"
    proof (cases "p_dlnk s Dly = NULL")
      case True
      then have "D = []" using c by (cases D) auto
      then show ?thesis using True by (simp add: rt_put_dly_def n_def xs_def)
    qed (use start Nil Dxy n_def in simp)
    then have res: "rt_put_dly p d s = Some (s\<lparr>p_dlnk := cd, p_blnk := bl, delta_time := dt\<rparr>)"
      using nN np p' Nil by (simp add: put_dly_last_def cd_def bl_def dt_def w_def fun_upd_twist)
    have w: "w = of_nat (unat d - last_time 0 xs)"
      unfolding w_def by (rule ucast_sub_of_nat) (use lt in simp)
    have "unat w = unat d - last_time 0 xs" unfolding w by (rule unat_of_nat_lt) (use d1 in simp)
    then have uw: "last_time 0 xs + unat w = unat d" using lt by simp
    have "deltas dt 0 Dly (xs @ [(p, unat d)])"
      unfolding dt_def n_def by (rule deltas_insert_end) (use dxs uw p p' Dxy in \<open>auto simp: image_Un\<close>)
    moreover have "rchain bl Dly (map fst (xs @ [(p, unat d)]))"
      using rc p Dxy Nil by (simp add: bl_def rchain_append n_def)
    ultimately have "dly_list (s\<lparr>p_dlnk := cd, p_blnk := bl, delta_time := dt\<rparr>) (xs @ (p, unat d) # ys)"
      using chain' wf2 Nil np by (simp add: dly_list_def dly_links_def dt_def)
    moreover have "\<forall>x. x \<notin> insert p (fst ` set D) \<longrightarrow> bl x = p_blnk s x" by (simp add: bl_def)
    ultimately show ?thesis using res unfolding ins by blast
  next
    case (Cons y zs)
    obtain t k where y: "y = (t, k)" by (cases y)
    have k: "unat d \<le> k" "k < 65535" "is_tcb t"
    proof -
      have "\<not> snd y < unat d" using Cons hd_dropWhile [of "\<lambda>x. snd x < unat d" D] by (simp add: ys_def)
      then show "unat d \<le> k" using y by simp
      show "k < 65535" "is_tcb t" using wf Dxy Cons y by auto
    qed
    have tN: "t \<noteq> NULL" "t \<noteq> p" "t \<noteq> n" using k p Dxy Cons y dist nin by auto
    have kn: "k = last_time 0 xs + unat (delta_time s n)"
      using dl Dxy Cons y by (simp add: deltas_append n_def)
    have dn: "p_dlnk s n = t"
      using chain_lnk_last [of NULL "p_dlnk s" Dly "map fst xs" "map fst ys"] c Dxy Cons y by (simp add: n_def)
    define w2 :: u16 where "w2 = ucast (of_nat k - of_nat (unat d) :: u32)"
    define w1 :: u16 where "w1 = delta_time s n - w2"
    define bl where "bl = (p_blnk s)(t := p, p := n)"
    define dt where "dt = (delta_time s)(p := w2, n := w1)"
    have "p_dlnk s Dly \<noteq> NULL"
      using chain_head [OF c] chain_nil_notin [OF c] Dxy Cons by (cases xs) auto
    then have "rt_put_dly p d s = put_dly_here n p (of_nat k) (of_nat (unat d)) s"
      using start Cons y by simp
    then have res: "rt_put_dly p d s = Some (s\<lparr>p_dlnk := cd, p_blnk := bl, delta_time := dt\<rparr>)"
      using nN np p' tN dn Cons y
      by (simp add: put_dly_here_def cd_def bl_def dt_def w2_def w1_def fun_upd_twist)
    have w2: "w2 = of_nat (k - unat d)"
      unfolding w2_def by (rule ucast_sub_of_nat) (use k in simp)
    have uw2: "unat w2 = k - unat d" unfolding w2 by (rule unat_of_nat_lt) (use k in simp)
    then have "w2 \<le> delta_time s n" using kn lt k by (simp add: word_le_nat_alt)
    then have uw1: "unat w1 = unat (delta_time s n) - unat w2" by (simp add: w1_def unat_sub)
    have s1: "last_time 0 xs + unat w1 = unat d" "unat d + unat w2 = k" using uw1 uw2 kn lt k by auto
    have "deltas dt 0 Dly (xs @ (p, unat d) # (t, k) # zs)"
      unfolding dt_def n_def
      by (rule deltas_insert_mid) (use dl dist p p' Dxy Cons y s1 in auto)
    moreover have "rchain bl Dly (map fst (xs @ (p, unat d) # (t, k) # zs))"
    proof -
      have "t \<notin> fst ` set xs" "t \<notin> fst ` set zs" "p \<notin> fst ` set zs" "p \<notin> fst ` set xs"
        using dist p Dxy Cons y by auto
      then show ?thesis using rc Dxy Cons y tN by (simp add: bl_def rchain_append n_def)
    qed
    moreover have "dt (last_node Dly (map fst (xs @ (p, unat d) # (t, k) # zs))) = 0"
    proof -
      let ?l = "last_node t (map fst zs)"
      have l: "?l \<in> insert t (set (map fst zs))" by (rule last_node_in)
      have "insert Dly (set (map fst xs)) \<inter> set (map fst zs) = {}" using dist Dxy Cons y by auto
      then have "n \<notin> set (map fst zs)" using nin by fast
      then have "n \<notin> insert t (set (map fst zs))" using tN by simp
      with l have "?l \<noteq> n" by (rule in_notin_neq)
      moreover have "p \<notin> insert t (set (map fst zs))" using p(2) Dxy Cons y by (simp add: image_Un)
      with l have "?l \<noteq> p" by (rule in_notin_neq)
      ultimately have "?l \<noteq> p" "?l \<noteq> n" by blast+
      then show ?thesis using z Dxy Cons y by (simp add: dt_def)
    qed
    ultimately have "dly_list (s\<lparr>p_dlnk := cd, p_blnk := bl, delta_time := dt\<rparr>) (xs @ (p, unat d) # ys)"
      using chain' wf2 Cons y by (simp add: dly_list_def dly_links_def)
    moreover have "\<forall>x. x \<notin> insert p (fst ` set D) \<longrightarrow> bl x = p_blnk s x"
      using Dxy Cons y by (simp add: bl_def)
    ultimately show ?thesis using res unfolding ins by blast
  qed
qed

section \<open>Removal\<close>

lemma rt_rmv_dly_absent:
  "p \<noteq> NULL \<Longrightarrow> p_blnk s p = NULL \<Longrightarrow> rt_rmv_dly p s = Some s"
  by (simp add: rt_rmv_dly_def)

lemma dly_list_times:
  "dly_list s D \<Longrightarrow> (t, k) \<in> set D \<Longrightarrow> is_tcb t \<and> 0 < k \<and> k < 65535"
  by (auto simp: dly_list_def)

lemma dly_list_distinct: "dly_list s D \<Longrightarrow> distinct (map fst D)"
  using chain_distinct [of NULL "p_dlnk s" Dly "map fst D"] by (simp add: dly_list_def dly_links_def)

lemma split_fst_list: "p \<in> fst ` set D \<Longrightarrow> \<exists>xs k ys. D = xs @ (p, k) # ys"
  by (force dest: split_list)

lemma dly_list_blnk:
  assumes D: "dly_list s D" and "p \<in> fst ` set D"
  shows "p_blnk s p \<noteq> NULL"
proof -
  obtain xs k ys where Dx: "D = xs @ (p, k) # ys" using split_fst_list [OF assms(2)] by blast
  have c: "chain NULL (p_dlnk s) Dly (map fst D)" and rc: "rchain (p_blnk s) Dly (map fst D)"
    using D by (simp_all add: dly_list_def dly_links_def)
  have "p_blnk s p = last_node Dly (map fst xs)" using rc Dx by (simp add: rchain_append)
  moreover have "NULL \<notin> set (map fst xs)" using chain_nil_notin [OF c] Dx by simp
  moreover have "NULL \<notin> insert Dly (set (map fst xs))" using calculation by simp
  with last_node_in [of Dly "map fst xs"] have "last_node Dly (map fst xs) \<noteq> NULL" by (rule in_notin_neq)
  ultimately show ?thesis by simp
qed

text \<open>\<open>rt_rmv_dly\<close> takes one task out and leaves the due times of the others as they are.\<close>

lemma dly_list_rmv:
  assumes D: "dly_list s (xs @ (p, k) # ys)"
  shows "\<exists>dl bl dt. rt_rmv_dly p s = Some (s\<lparr>p_dlnk := dl, p_blnk := bl, delta_time := dt\<rparr>) \<and>
     dly_list (s\<lparr>p_dlnk := dl, p_blnk := bl, delta_time := dt\<rparr>) (xs @ ys) \<and> bl p = NULL \<and>
     (\<forall>x. x \<notin> fst ` set (xs @ (p, k) # ys) \<longrightarrow> bl x = p_blnk s x)"
proof -
  let ?D = "xs @ (p, k) # ys"
  have c: "chain NULL (p_dlnk s) Dly (map fst xs @ p # map fst ys)"
    and rc: "rchain (p_blnk s) Dly (map fst xs @ p # map fst ys)"
    and dl: "deltas (delta_time s) 0 Dly ?D" and z: "delta_time s (last_node Dly (map fst ?D)) = 0"
    and wf: "\<forall>(t, k)\<in>set ?D. is_tcb t \<and> 0 < k \<and> k < 65535"
    using D by (auto simp: dly_list_def dly_links_def)
  have dist: "distinct (Dly # map fst xs @ p # map fst ys)" by (rule chain_distinct [OF c])
  define n where "n = last_node Dly (map fst xs)"
  have nin: "n \<in> insert Dly (set (map fst xs))" unfolding n_def by (rule last_node_in)
  have nN: "n \<noteq> NULL" using nin chain_nil_notin [OF c] by auto
  have p: "is_tcb p" "p \<noteq> NULL" "p \<noteq> n" using wf nin dist by auto
  have bp: "p_blnk s p = n" using rchain_at [OF rc] by (simp add: n_def)
  have lp: "p_dlnk s p = first_node NULL (map fst ys)" by (rule chain_lnk_at [OF c])
  define cd where "cd = (p_dlnk s)(n := p_dlnk s p)"
  have cc: "chain NULL cd Dly (map fst (xs @ ys))" using chain_remove [OF c] by (simp add: cd_def n_def)
  have wf2: "\<forall>(t, k)\<in>set (xs @ ys). is_tcb t \<and> 0 < k \<and> k < 65535" using wf by auto
  have kn: "k = last_time 0 xs + unat (delta_time s n)" using dl by (simp add: deltas_append n_def)
  have dxs: "deltas (delta_time s) 0 Dly xs" "distinct (Dly # map fst xs)"
    using dl dist by (auto simp: deltas_append)
  show ?thesis
  proof (cases ys)
    case Nil
    define bl where "bl = (p_blnk s)(p := NULL)"
    define dt where "dt = (delta_time s)(n := 0)"
    have "rt_rmv_dly p s = Some (s\<lparr>p_dlnk := cd, p_blnk := bl, delta_time := dt\<rparr>)"
      using p nN bp lp Nil by (simp add: rt_rmv_dly_def cd_def bl_def dt_def)
    moreover have "deltas dt 0 Dly (xs @ ys)"
      using deltas_last_irrelevant [OF dxs] Nil by (simp add: dt_def n_def)
    moreover have "rchain bl Dly (map fst (xs @ ys))" "dt (last_node Dly (map fst (xs @ ys))) = 0"
      using rc dist Nil by (auto simp: bl_def dt_def n_def rchain_append)
    moreover have "bl p = NULL" "\<forall>x. x \<notin> fst ` set ?D \<longrightarrow> bl x = p_blnk s x" by (auto simp: bl_def)
    ultimately show ?thesis using cc wf2
      by (intro exI [of _ cd] exI [of _ bl] exI [of _ dt]) (simp add: dly_list_def dly_links_def)
  next
    case (Cons y zs)
    obtain t m where y: "y = (t, m)" by (cases y)
    have t: "t \<noteq> NULL" "t \<noteq> p" "t \<noteq> n" "p_dlnk s p = t"
      using wf lp dist nin Cons y by auto
    have pz: "p \<notin> fst ` set xs" "p \<notin> fst ` set zs" "t \<notin> fst ` set xs" "t \<notin> fst ` set zs"
      using dist Cons y by auto
    have "insert Dly (set (map fst xs)) \<inter> fst ` set zs = {}" using dist Cons y by auto
    then have nz: "n \<notin> fst ` set zs" using nin by blast
    define w where "w = delta_time s n + delta_time s p"
    define bl where "bl = (p_blnk s)(t := n, p := NULL)"
    define dt where "dt = (delta_time s)(n := w)"
    define cd' where "cd' = cd(p := NULL)"
    have mp: "m = k + unat (delta_time s p)" "m < 65535" using dl wf Cons y by (auto simp: deltas_append)
    then have w: "last_time 0 xs + unat w = m" using kn by (simp add: w_def unat_word_ariths)
    have res: "rt_rmv_dly p s = Some (s\<lparr>p_dlnk := cd', p_blnk := bl, delta_time := dt\<rparr>)"
      using p nN bp t by (simp add: rt_rmv_dly_def cd_def cd'_def bl_def dt_def w_def)
    have "deltas dt 0 Dly xs" using deltas_last_irrelevant [OF dxs] by (simp add: dt_def n_def)
    moreover have "deltas (delta_time s) m t zs" using dl Cons y by (auto simp: deltas_append)
    then have "deltas dt m t zs" using t nz by (simp add: dt_def)
    ultimately have "deltas dt 0 Dly (xs @ ys)"
      using w Cons y by (simp add: deltas_append dt_def n_def)
    moreover have "rchain bl Dly (map fst (xs @ ys))"
      using rc pz t Cons y by (simp add: bl_def rchain_append n_def)
    moreover have "chain NULL cd' Dly (map fst (xs @ ys))"
      using cc pz p Cons y t by (simp add: cd'_def image_Un)
    moreover have "dt (last_node Dly (map fst (xs @ ys))) = 0"
    proof -
      have "last_node t (map fst zs) \<in> insert t (set (map fst zs))" by (rule last_node_in)
      then have "last_node t (map fst zs) \<noteq> n" using t nz by auto
      then show ?thesis using z Cons y by (simp add: dt_def)
    qed
    moreover have "bl p = NULL" "\<forall>x. x \<notin> fst ` set ?D \<longrightarrow> bl x = p_blnk s x"
      using Cons y by (auto simp: bl_def)
    ultimately show ?thesis using wf2 res
      by (intro exI [of _ cd'] exI [of _ bl] exI [of _ dt]) (simp add: dly_list_def dly_links_def)
  qed
qed

end
