(* ===== verification/Kernel_Links.thy ===== *)
theory Kernel_Links
  imports Rt_Delay
begin

text \<open>
  The ownership invariant of the kernel's lists. \<open>linv s R W D F\<close> says that in the memory
  \<open>s\<close> the ready list is \<open>R\<close>, the object \<open>Obj n\<close> has the waiting list \<open>W n\<close>, the delay list
  holds the tasks and remaining ticks \<open>D\<close>, and the live tasks that are in no ready or waiting
  list (the running one, those that wait for events or for a delay) are the set \<open>F\<close>.
  Every list operation of \<open>rt_List.c\<close> moves a task between these owners; the lemmas below
  say how, and that the operation returns.
\<close>

section \<open>The invariant\<close>

definition rdy_ok :: "os \<Rightarrow> ptr list \<Rightarrow> bool" where
  "rdy_ok s R \<longleftrightarrow> chain NULL (p_lnk s) Rdy R \<and> prio_sorted (prio s) R \<and> \<not> sem_mbx (cb_type s Rdy)"

definition wait_ok :: "os \<Rightarrow> nat \<Rightarrow> ptr list \<Rightarrow> bool" where
  "wait_ok s n ts \<longleftrightarrow>
     (ts \<noteq> [] \<longrightarrow> chain NULL (p_lnk s) (Obj n) ts \<and> rchain (p_rlnk s) (Obj n) ts \<and>
        sem_mbx (cb_type s (Obj n))) \<and>
     (sem_mbx (cb_type s (Obj n)) \<longrightarrow> chain NULL (p_lnk s) (Obj n) ts) \<and>
     prio_sorted (prio s) ts"

definition disj_ok :: "ptr list \<Rightarrow> (nat \<Rightarrow> ptr list) \<Rightarrow> ptr set \<Rightarrow> bool" where
  "disj_ok R W F \<longleftrightarrow>
     (\<forall>t\<in>set R. is_tcb t \<and> t \<notin> F \<and> (\<forall>n. t \<notin> set (W n))) \<and>
     (\<forall>n. \<forall>t\<in>set (W n). is_tcb t \<and> t \<notin> F \<and> (\<forall>m. t \<in> set (W m) \<longrightarrow> m = n)) \<and>
     (\<forall>t\<in>F. is_tcb t)"

definition own_ok :: "os \<Rightarrow> ptr list \<Rightarrow> (nat \<Rightarrow> ptr list) \<Rightarrow> (ptr \<times> nat) list \<Rightarrow> ptr set \<Rightarrow> bool" where
  "own_ok s R W D F \<longleftrightarrow>
     (\<forall>t\<in>set R \<union> F. p_rlnk s t = NULL) \<and>
     (\<forall>t\<in>set R \<union> F \<union> (\<Union>n. set (W n)). t \<notin> fst ` set D \<longrightarrow> p_blnk s t = NULL) \<and>
     fst ` set D \<subseteq> set R \<union> F \<union> (\<Union>n. set (W n)) \<and>
     (\<forall>n. cb_type s (Tcb n) = TCB)"

definition linv :: "os \<Rightarrow> ptr list \<Rightarrow> (nat \<Rightarrow> ptr list) \<Rightarrow> (ptr \<times> nat) list \<Rightarrow> ptr set \<Rightarrow> bool" where
  "linv s R W D F \<longleftrightarrow>
     rdy_ok s R \<and> (\<forall>n. wait_ok s n (W n)) \<and> dly_list s D \<and> disj_ok R W F \<and> own_ok s R W D F"

text \<open>While the tick handler works on the delay list, tasks with no ticks left are still on it.\<close>

definition linvz :: "os \<Rightarrow> ptr list \<Rightarrow> (nat \<Rightarrow> ptr list) \<Rightarrow> (ptr \<times> nat) list \<Rightarrow> ptr set \<Rightarrow> bool" where
  "linvz s R W D F \<longleftrightarrow>
     rdy_ok s R \<and> (\<forall>n. wait_ok s n (W n)) \<and> (dly_links s D \<and> (\<forall>(t, k)\<in>set D. is_tcb t \<and> k < 65535)) \<and>
     disj_ok R W F \<and> own_ok s R W D F"

lemma linv_linvz: "linv s R W D F \<longleftrightarrow> linvz s R W D F \<and> (\<forall>(t, k)\<in>set D. 0 < k)"
  by (auto simp: linv_def linvz_def dly_list_def)

lemmas linv_parts = linv_def rdy_ok_def wait_ok_def disj_ok_def own_ok_def dly_list_def dly_links_def

text \<open>The invariant reads the link members, priorities and control block types only.\<close>

lemma linv_frame [simp]:
  "linv (s\<lparr>mem := m\<rparr>) R W D F = linv s R W D F"
  "linv (s\<lparr>state := st\<rparr>) R W D F = linv s R W D F"
  "linv (s\<lparr>tokens := tk\<rparr>) R W D F = linv s R W D F"
  "linv (s\<lparr>run := c\<rparr>) R W D F = linv s R W D F"
  "linv (s\<lparr>new_tsk := c\<rparr>) R W D F = linv s R W D F"
  "linv (s\<lparr>events := e\<rparr>) R W D F = linv s R W D F"
  "linv (s\<lparr>waits := e\<rparr>) R W D F = linv s R W D F"
  "linv (s\<lparr>msg := x\<rparr>) R W D F = linv s R W D F"
  "linv (s\<lparr>interval_time := i\<rparr>) R W D F = linv s R W D F"
  "linv (s\<lparr>mut_prio := mp\<rparr>) R W D F = linv s R W D F"
  "linv (s\<lparr>mut_level := ml\<rparr>) R W D F = linv s R W D F"
  "linv (s\<lparr>mut_owner := mo\<rparr>) R W D F = linv s R W D F"
  "linv (s\<lparr>mbx_state := b\<rparr>) R W D F = linv s R W D F"
  "linv (s\<lparr>mbx_first := h\<rparr>) R W D F = linv s R W D F"
  "linv (s\<lparr>mbx_last := h\<rparr>) R W D F = linv s R W D F"
  "linv (s\<lparr>mbx_count := h\<rparr>) R W D F = linv s R W D F"
  "linv (s\<lparr>mbx_msg := mm\<rparr>) R W D F = linv s R W D F"
  "linv (s\<lparr>os_time := tm\<rparr>) R W D F = linv s R W D F"
  "linv (s\<lparr>robin_task := c\<rparr>) R W D F = linv s R W D F"
  "linv (s\<lparr>robin_time := h'\<rparr>) R W D F = linv s R W D F"
  by (simp_all add: linv_parts)

lemma linv_tcb:
  assumes "linv s R W D F"
  shows "t \<in> set R \<Longrightarrow> is_tcb t" and "t \<in> F \<Longrightarrow> is_tcb t" and "t \<in> set (W n) \<Longrightarrow> is_tcb t"
  using assms by (auto simp: linv_def disj_ok_def)

lemma disj_heads:
  assumes "disj_ok R W F" and "\<not> is_tcb p"
  shows "p \<notin> set R" and "p \<notin> F" and "p \<notin> set (W n)"
  using assms by (auto simp: disj_ok_def)

lemma disj_get_rdy: "disj_ok (t # R) W F \<Longrightarrow> t \<notin> set R \<Longrightarrow> disj_ok R W (insert t F)"
  by (auto simp: disj_ok_def)

lemma disj_put_rdy: "disj_ok R W F \<Longrightarrow> t \<in> F \<Longrightarrow> set R' = insert t (set R) \<Longrightarrow> disj_ok R' W (F - {t})"
  by (auto simp: disj_ok_def)

lemma disj_get_wait:
  assumes dj: "disj_ok R W F" and W: "set (W n) = insert t (set ts)" and t: "t \<notin> set ts"
  shows "disj_ok R (W(n := ts)) (insert t F)"
proof -
  have "t \<in> set (W n)" "\<forall>x\<in>set ts. x \<in> set (W n)" using W by simp_all
  with dj have tn: "is_tcb t" "t \<notin> F" "t \<notin> set R" "\<forall>m. t \<in> set (W m) \<longrightarrow> m = n"
    and tsn: "\<forall>x\<in>set ts. is_tcb x \<and> x \<notin> F \<and> x \<notin> set R \<and> (\<forall>m. x \<in> set (W m) \<longrightarrow> m = n)"
    unfolding disj_ok_def by blast+
  show ?thesis using dj tn tsn t unfolding disj_ok_def by (auto split: if_splits)
qed

lemma disj_put_wait:
  "disj_ok R W F \<Longrightarrow> t \<in> F \<Longrightarrow> set ts = insert t (set (W n)) \<Longrightarrow> disj_ok R (W(n := ts)) (F - {t})"
  unfolding disj_ok_def by (auto split: if_splits)

lemma waiters_get:
  assumes "set (W n) = insert t (set ts)"
  shows "insert t (\<Union>m. set ((W(n := ts)) m)) = (\<Union>m. set (W m))"
proof -
  have "(\<Union>m. set (W m)) = set (W n) \<union> (\<Union>m\<in>-{n}. set (W m))" by auto
  moreover have "(\<Union>m. set ((W(n := ts)) m)) = set ts \<union> (\<Union>m\<in>-{n}. set (W m))"
    by (auto split: if_splits)
  ultimately show ?thesis using assms by simp
qed

text \<open>Memories that agree on the link members of an object's waiting list agree on the list.\<close>

lemma wait_ok_cong:
  assumes "\<And>x. x \<in> insert (Obj n) (set ts) \<Longrightarrow> l x = p_lnk s x"
    and "\<And>x. x \<in> set ts \<Longrightarrow> r x = p_rlnk s x"
  shows "wait_ok (s\<lparr>p_lnk := l, p_rlnk := r\<rparr>) n ts = wait_ok s n ts"
  using chain_cong [of "Obj n" ts l "p_lnk s" NULL] rchain_cong [of ts r "p_rlnk s" "Obj n"] assms
  by (simp add: wait_ok_def)

lemma rdy_ok_cong:
  assumes "\<And>x. x \<in> insert Rdy (set R) \<Longrightarrow> l x = p_lnk s x"
  shows "rdy_ok (s\<lparr>p_lnk := l, p_rlnk := r\<rparr>) R = rdy_ok s R"
  using chain_cong [of Rdy R l "p_lnk s" NULL] assms by (simp add: rdy_ok_def)

lemma lnk_only [simp]: "s\<lparr>p_lnk := l, p_rlnk := p_rlnk s\<rparr> = s\<lparr>p_lnk := l\<rparr>"
  by simp

section \<open>The ready list\<close>

lemma linv_get_first_rdy:
  assumes L: "linv s (t # R) W D F"
  shows "\<exists>l. rt_get_first Rdy s = Some (t, s\<lparr>p_lnk := l\<rparr>) \<and> linv (s\<lparr>p_lnk := l\<rparr>) R W D (insert t F)"
proof -
  have t: "is_tcb t" and dj: "disj_ok (t # R) W F" using L by (simp_all add: linv_def disj_ok_def)
  obtain l where e: "rt_get_first Rdy s = Some (t, s\<lparr>p_lnk := l\<rparr>)" and c: "chain NULL l Rdy R"
    and fr: "\<And>x. x \<notin> {Rdy, t} \<Longrightarrow> l x = p_lnk s x"
    using rt_get_first_rdy [of s Rdy t R] L by (auto simp: linv_def rdy_ok_def)
  have "rdy_ok (s\<lparr>p_lnk := l\<rparr>) R" using L c by (simp add: linv_def rdy_ok_def)
  moreover have "wait_ok (s\<lparr>p_lnk := l\<rparr>) n (W n)" for n
  proof -
    have "t \<notin> insert (Obj n) (set (W n))" using L t by (auto simp: linv_def disj_ok_def)
    moreover have "Rdy \<notin> insert (Obj n) (set (W n))" using dj by (simp add: disj_heads)
    ultimately have "wait_ok (s\<lparr>p_lnk := l, p_rlnk := p_rlnk s\<rparr>) n (W n) = wait_ok s n (W n)"
      by (intro wait_ok_cong fr) auto
    then show ?thesis using L by (simp add: linv_def)
  qed
  moreover have "t \<notin> set R" using chain_distinct [of NULL "p_lnk s" Rdy "t # R"] L
    by (auto simp: linv_def rdy_ok_def)
  then have "disj_ok R W (insert t F)" by (rule disj_get_rdy [OF dj])
  moreover have "own_ok (s\<lparr>p_lnk := l\<rparr>) R W D (insert t F)" "dly_list (s\<lparr>p_lnk := l\<rparr>) D"
    using L by (auto simp: linv_def own_ok_def dly_list_def dly_links_def)
  ultimately show ?thesis using e by (auto simp: linv_def)
qed

lemma linvz_put_prio_rdy:
  assumes L: "linvz s R W D F" and t: "t \<in> F"
  shows "\<exists>l r. rt_put_prio Rdy t s = Some (s\<lparr>p_lnk := l, p_rlnk := r\<rparr>) \<and>
     linvz (s\<lparr>p_lnk := l, p_rlnk := r\<rparr>) (ins_prio (prio s) t R) W D (F - {t})"
proof -
  have dj: "disj_ok R W F" using L by (simp add: linvz_def)
  then have tt: "is_tcb t" "t \<notin> set R" using t by (auto simp: disj_ok_def)
  define r where "r = (p_rlnk s)(t := NULL)"
  obtain l where e: "rt_put_prio Rdy t s = Some (s\<lparr>p_lnk := l, p_rlnk := r\<rparr>)"
    and c: "chain NULL l Rdy (ins_prio (prio s) t R)"
    and fr: "\<And>x. x \<notin> insert Rdy (insert t (set R)) \<Longrightarrow> l x = p_lnk s x"
    using rt_put_prio_rdy [of s Rdy R t] L tt by (auto simp: linvz_def rdy_ok_def r_def)
  have rr: "r = p_rlnk s" using L t by (auto simp: r_def linvz_def own_ok_def)
  let ?s = "s\<lparr>p_lnk := l, p_rlnk := r\<rparr>"
  have "rdy_ok ?s (ins_prio (prio s) t R)" using L c by (simp add: linvz_def rdy_ok_def)
  moreover have "wait_ok ?s n (W n)" for n
  proof -
    have "t \<notin> set (W n)" "set R \<inter> set (W n) = {}" using dj t by (auto simp: disj_ok_def)
    moreover have "Rdy \<notin> set (W n)" "Obj n \<notin> set R" using dj by (simp_all add: disj_heads)
    ultimately have "wait_ok ?s n (W n) = wait_ok s n (W n)"
      using tt rr by (intro wait_ok_cong fr) auto
    then show ?thesis using L by (simp add: linvz_def)
  qed
  moreover have "disj_ok (ins_prio (prio s) t R) W (F - {t})" by (rule disj_put_rdy [OF dj t]) simp
  moreover have "own_ok ?s (ins_prio (prio s) t R) W D (F - {t})"
    using L t rr by (auto simp: linvz_def own_ok_def)
  moreover have "dly_links ?s D \<and> (\<forall>(t, k)\<in>set D. is_tcb t \<and> k < 65535)"
    using L by (simp add: linvz_def dly_links_def)
  ultimately show ?thesis using e by (auto simp: linvz_def)
qed

lemma linv_put_prio_rdy:
  assumes L: "linv s R W D F" and t: "t \<in> F"
  shows "\<exists>l r. rt_put_prio Rdy t s = Some (s\<lparr>p_lnk := l, p_rlnk := r\<rparr>) \<and>
     linv (s\<lparr>p_lnk := l, p_rlnk := r\<rparr>) (ins_prio (prio s) t R) W D (F - {t})"
  using linvz_put_prio_rdy [of s R W D F t] L t unfolding linv_linvz by blast

lemma linv_put_rdy_first:
  assumes L: "linv s R W D F" and t: "t \<in> F" and top: "\<forall>x\<in>set R. prio s x \<le> prio s t"
  shows "\<exists>l r. rt_put_rdy_first t s = Some (s\<lparr>p_lnk := l, p_rlnk := r\<rparr>) \<and>
     linv (s\<lparr>p_lnk := l, p_rlnk := r\<rparr>) (t # R) W D (F - {t})"
proof -
  have dj: "disj_ok R W F" using L by (simp add: linv_def)
  then have tt: "is_tcb t" "t \<notin> set R" using t by (auto simp: disj_ok_def)
  define l where "l = (p_lnk s)(t := p_lnk s Rdy, Rdy := t)"
  define r where "r = (p_rlnk s)(t := NULL)"
  have rr: "r = p_rlnk s" using L t by (auto simp: r_def linv_def own_ok_def)
  let ?s = "s\<lparr>p_lnk := l, p_rlnk := r\<rparr>"
  have e: "rt_put_rdy_first t s = Some ?s" using tt by (simp add: rt_put_rdy_first_def l_def r_def)
  have c: "chain NULL (p_lnk s) Rdy R" using L by (simp add: linv_def rdy_ok_def)
  have "chain NULL l Rdy (t # R)"
    using chain_insert [of NULL "p_lnk s" Rdy "[]" R t] c chain_head [OF c] tt by (simp add: l_def)
  then have "rdy_ok ?s (t # R)" using L top by (simp add: linv_def rdy_ok_def)
  moreover have "wait_ok ?s n (W n)" for n
  proof -
    have "t \<notin> insert (Obj n) (set (W n))" using dj t tt by (auto simp: disj_ok_def)
    moreover have "Rdy \<notin> insert (Obj n) (set (W n))" using dj by (simp add: disj_heads)
    ultimately have "wait_ok ?s n (W n) = wait_ok s n (W n)"
      using rr by (intro wait_ok_cong) (auto simp: l_def)
    then show ?thesis using L by (simp add: linv_def)
  qed
  moreover have "disj_ok (t # R) W (F - {t})" by (rule disj_put_rdy [OF dj t]) simp
  moreover have "own_ok ?s (t # R) W D (F - {t})" using L t rr by (auto simp: linv_def own_ok_def)
  moreover have "dly_list ?s D" using L by (simp add: linv_def dly_list_def dly_links_def)
  ultimately show ?thesis using e by (auto simp: linv_def)
qed

section \<open>The waiting lists\<close>

lemma linv_get_first_wait:
  assumes L: "linv s R W D F" and W: "W n = t # ts"
  shows "\<exists>l r. rt_get_first (Obj n) s = Some (t, s\<lparr>p_lnk := l, p_rlnk := r\<rparr>) \<and>
     linv (s\<lparr>p_lnk := l, p_rlnk := r\<rparr>) R (W(n := ts)) D (insert t F)"
proof -
  have wn: "wait_ok s n (t # ts)" using L W by (metis linv_def)
  then have c: "chain NULL (p_lnk s) (Obj n) (t # ts)" and rc: "rchain (p_rlnk s) (Obj n) (t # ts)"
    and ty: "sem_mbx (cb_type s (Obj n))" and so: "prio_sorted (prio s) (t # ts)"
    by (auto simp: wait_ok_def)
  have dj: "disj_ok R W F" using L by (simp add: linv_def)
  have tt: "\<forall>x\<in>set (t # ts). is_tcb x \<and> x \<notin> set R \<and> x \<notin> F"
    using dj W unfolding disj_ok_def by metis
  have oth: "set (t # ts) \<inter> set (W m) = {}" if "m \<noteq> n" for m
    using dj W that unfolding disj_ok_def by (metis disjoint_iff)
  obtain l r where e: "rt_get_first (Obj n) s = Some (t, s\<lparr>p_lnk := l, p_rlnk := r\<rparr>)"
    and cl: "chain NULL l (Obj n) ts" and rl: "rchain r (Obj n) ts" and rt: "r t = NULL"
    and fl: "\<And>x. x \<notin> {Obj n, t} \<Longrightarrow> l x = p_lnk s x"
    and fr: "\<And>x. x \<notin> insert t (set ts) \<Longrightarrow> r x = p_rlnk s x"
    using rt_get_first_wait [OF c rc ty] by auto
  let ?s = "s\<lparr>p_lnk := l, p_rlnk := r\<rparr>"
  have "rdy_ok ?s R = rdy_ok s R"
  proof (intro rdy_ok_cong fl)
    fix x assume "x \<in> insert Rdy (set R)"
    then show "x \<notin> {Obj n, t}" using tt disj_heads [OF dj, of "Obj n"] by auto
  qed
  then have "rdy_ok ?s R" using L by (simp add: linv_def)
  moreover have "wait_ok ?s m ((W(n := ts)) m)" for m
  proof (cases "m = n")
    case True
    then show ?thesis using cl rl ty so by (simp add: wait_ok_def)
  next
    case False
    have "Obj n \<notin> set (W m)" using dj by (simp add: disj_heads)
    then have "wait_ok ?s m (W m) = wait_ok s m (W m)"
      using oth [OF False] tt False by (intro wait_ok_cong fl fr) auto
    then show ?thesis using L False by (simp add: linv_def)
  qed
  moreover have tn: "t \<notin> set ts" using chain_distinct [OF c] by simp
  then have "disj_ok R (W(n := ts)) (insert t F)" by (intro disj_get_wait [OF dj]) (simp_all add: W)
  moreover have "own_ok ?s R (W(n := ts)) D (insert t F)"
  proof -
    have "insert t (\<Union>m. set ((W(n := ts)) m)) = (\<Union>m. set (W m))" by (rule waiters_get) (simp add: W)
    then have "set R \<union> insert t F \<union> (\<Union>m. set ((W(n := ts)) m)) = set R \<union> F \<union> (\<Union>m. set (W m))"
      by blast
    moreover have "r x = NULL" if x: "x \<in> set R \<union> insert t F" for x
    proof (cases "x = t")
      case False
      then have "x \<notin> insert t (set ts)" using x tt by auto
      then show ?thesis using fr x False L by (auto simp: linv_def own_ok_def)
    qed (use rt in simp)
    ultimately show ?thesis using L unfolding linv_def own_ok_def by simp
  qed
  moreover have "dly_list ?s D" using L by (simp add: linv_def dly_list_def dly_links_def)
  ultimately have "linv ?s R (W(n := ts)) D (insert t F)" unfolding linv_def by blast
  with e show ?thesis by blast
qed

lemma linv_put_prio_wait:
  assumes L: "linv s R W D F" and t: "t \<in> F" and ty: "sem_mbx (cb_type s (Obj n))"
  shows "\<exists>l r. rt_put_prio (Obj n) t s = Some (s\<lparr>p_lnk := l, p_rlnk := r\<rparr>) \<and>
     linv (s\<lparr>p_lnk := l, p_rlnk := r\<rparr>) R (W(n := ins_prio (prio s) t (W n))) D (F - {t})"
proof -
  have dj: "disj_ok R W F" using L by (simp add: linv_def)
  have wn: "wait_ok s n (W n)" using L by (simp add: linv_def)
  then have c: "chain NULL (p_lnk s) (Obj n) (W n)" and rc: "rchain (p_rlnk s) (Obj n) (W n)"
    and so: "prio_sorted (prio s) (W n)"
    using ty by (auto simp: wait_ok_def)
  have tt: "is_tcb t" "t \<notin> set R" "t \<notin> set (W m)" for m using dj t by (auto simp: disj_ok_def)
  have wt: "x \<in> set (W n) \<Longrightarrow> is_tcb x \<and> x \<notin> set R \<and> x \<notin> F \<and> (m \<noteq> n \<longrightarrow> x \<notin> set (W m))" for x m
    using dj unfolding disj_ok_def by metis
  let ?ts = "ins_prio (prio s) t (W n)"
  obtain l r where e: "rt_put_prio (Obj n) t s = Some (s\<lparr>p_lnk := l, p_rlnk := r\<rparr>)"
    and cl: "chain NULL l (Obj n) ?ts" and rl: "rchain r (Obj n) ?ts"
    and fl: "\<And>x. x \<notin> insert (Obj n) (insert t (set (W n))) \<Longrightarrow> l x = p_lnk s x"
    and fr: "\<And>x. x \<notin> insert t (set (W n)) \<Longrightarrow> r x = p_rlnk s x"
    using rt_put_prio_wait [OF c rc ty, of t] tt by auto
  let ?s = "s\<lparr>p_lnk := l, p_rlnk := r\<rparr>"
  have "rdy_ok ?s R = rdy_ok s R"
  proof (intro rdy_ok_cong fl)
    fix x assume "x \<in> insert Rdy (set R)"
    then show "x \<notin> insert (Obj n) (insert t (set (W n)))"
      using tt wt [of x] disj_heads [OF dj, of "Obj n"] disj_heads [OF dj, of Rdy] by auto
  qed
  then have "rdy_ok ?s R" using L by (simp add: linv_def)
  moreover have "wait_ok ?s m ((W(n := ?ts)) m)" for m
  proof (cases "m = n")
    case True
    then show ?thesis using cl rl ty so by (simp add: wait_ok_def)
  next
    case False
    have "Obj n \<notin> set (W m)" "Obj m \<notin> set (W n)" using dj by (simp_all add: disj_heads)
    moreover have "x \<notin> set (W n)" if "x \<in> set (W m)" for x using wt [of x m] that False by auto
    ultimately have "wait_ok ?s m (W m) = wait_ok s m (W m)"
      using tt(1) tt(3) [of m] False by (intro wait_ok_cong fl fr) auto
    then show ?thesis using L False by (simp add: linv_def)
  qed
  moreover have "disj_ok R (W(n := ?ts)) (F - {t})" by (intro disj_put_wait [OF dj t]) simp
  moreover have "own_ok ?s R (W(n := ?ts)) D (F - {t})"
  proof -
    have "set ((W(n := ?ts)) n) = insert t (set (W n))" by simp
    then have "(\<Union>m. set ((W(n := ?ts)) m)) = insert t (\<Union>m. set (W m))"
      using waiters_get [of "W(n := ?ts)" n t "W n"] by simp
    then have "set R \<union> (F - {t}) \<union> (\<Union>m. set ((W(n := ?ts)) m)) = set R \<union> F \<union> (\<Union>m. set (W m))"
      using t by auto
    moreover have "r x = NULL" if x: "x \<in> set R \<union> (F - {t})" for x
    proof -
      have "x \<notin> insert t (set (W n))" using x tt wt [of x] by auto
      then show ?thesis using fr x L by (auto simp: linv_def own_ok_def)
    qed
    ultimately show ?thesis using L unfolding linv_def own_ok_def by simp
  qed
  moreover have "dly_list ?s D" using L by (simp add: linv_def dly_list_def dly_links_def)
  ultimately have "linv ?s R (W(n := ?ts)) D (F - {t})" unfolding linv_def by blast
  with e show ?thesis by blast
qed

section \<open>The delay list\<close>

lemma linv_dly_frame:
  assumes L: "linv s R W D F" and D': "dly_list (s\<lparr>p_dlnk := dl, p_blnk := bl, delta_time := dt\<rparr>) D'"
    and b: "\<And>t. t \<in> set R \<union> F \<union> (\<Union>n. set (W n)) \<Longrightarrow> t \<notin> fst ` set D' \<Longrightarrow> bl t = NULL"
    and sub: "fst ` set D' \<subseteq> set R \<union> F \<union> (\<Union>n. set (W n))"
  shows "linv (s\<lparr>p_dlnk := dl, p_blnk := bl, delta_time := dt\<rparr>) R W D' F"
  using L D' b sub by (auto simp: linv_def rdy_ok_def wait_ok_def own_ok_def)

lemma linv_put_dly:
  assumes L: "linv s R W D F" and t: "t \<in> F \<union> (\<Union>n. set (W n))" "t \<notin> fst ` set D"
    and d: "0 < d" "d < 0xFFFF"
  shows "\<exists>dl bl dt. rt_put_dly t d s = Some (s\<lparr>p_dlnk := dl, p_blnk := bl, delta_time := dt\<rparr>) \<and>
     linv (s\<lparr>p_dlnk := dl, p_blnk := bl, delta_time := dt\<rparr>) R W (ins_dly t (unat d) D) F"
proof -
  have D: "dly_list s D" using L by (simp add: linv_def)
  have tt: "is_tcb t" using t linv_tcb [OF L] by auto
  obtain dl bl dt where e: "rt_put_dly t d s = Some (s\<lparr>p_dlnk := dl, p_blnk := bl, delta_time := dt\<rparr>)"
    and D': "dly_list (s\<lparr>p_dlnk := dl, p_blnk := bl, delta_time := dt\<rparr>) (ins_dly t (unat d) D)"
    and fr: "\<And>x. x \<notin> insert t (fst ` set D) \<Longrightarrow> bl x = p_blnk s x"
    using dly_list_put [OF D tt t(2) d] by auto
  have "linv (s\<lparr>p_dlnk := dl, p_blnk := bl, delta_time := dt\<rparr>) R W (ins_dly t (unat d) D) F"
  proof (rule linv_dly_frame [OF L D'])
    fix x assume "x \<in> set R \<union> F \<union> (\<Union>n. set (W n))" "x \<notin> fst ` set (ins_dly t (unat d) D)"
    then show "bl x = NULL" using fr [of x] L by (auto simp: linv_def own_ok_def)
  qed (use L t in \<open>auto simp: linv_def own_ok_def\<close>)
  with e show ?thesis by blast
qed

lemma linv_rmv_dly:
  assumes L: "linv s R W D F" and t: "t \<in> set R \<union> F \<union> (\<Union>n. set (W n))"
  shows "\<exists>dl bl dt. rt_rmv_dly t s = Some (s\<lparr>p_dlnk := dl, p_blnk := bl, delta_time := dt\<rparr>) \<and>
     linv (s\<lparr>p_dlnk := dl, p_blnk := bl, delta_time := dt\<rparr>) R W (rmv_dly t D) F"
proof -
  have D: "dly_list s D" using L by (simp add: linv_def)
  have tt: "is_tcb t" using t linv_tcb [OF L] by auto
  show ?thesis
  proof (cases "t \<in> fst ` set D")
    case False
    then have "p_blnk s t = NULL" using L t by (auto simp: linv_def own_ok_def)
    then have "rt_rmv_dly t s = Some s" using tt by (intro rt_rmv_dly_absent) simp_all
    then show ?thesis using L False
      by (intro exI [of _ "p_dlnk s"] exI [of _ "p_blnk s"] exI [of _ "delta_time s"]) simp
  next
    case True
    then obtain xs k ys where Dx: "D = xs @ (t, k) # ys" using split_fst_list [OF True] by blast
    have "distinct (map fst D)" by (rule dly_list_distinct [OF D])
    then have nt: "t \<notin> fst ` set xs" "t \<notin> fst ` set ys" using Dx by auto
    have rm: "rmv_dly t D = xs @ ys"
      using nt rmv_dly_absent [of t xs] rmv_dly_absent [of t ys] Dx by (simp add: rmv_dly_def)
    obtain dl bl dt where e: "rt_rmv_dly t s = Some (s\<lparr>p_dlnk := dl, p_blnk := bl, delta_time := dt\<rparr>)"
      and D': "dly_list (s\<lparr>p_dlnk := dl, p_blnk := bl, delta_time := dt\<rparr>) (xs @ ys)"
      and bt: "bl t = NULL" and fr: "\<And>x. x \<notin> fst ` set (xs @ (t, k) # ys) \<Longrightarrow> bl x = p_blnk s x"
      using dly_list_rmv [of s xs t k ys] D Dx by auto
    have "linv (s\<lparr>p_dlnk := dl, p_blnk := bl, delta_time := dt\<rparr>) R W (xs @ ys) F"
    proof (rule linv_dly_frame [OF L D'])
      fix x assume x: "x \<in> set R \<union> F \<union> (\<Union>n. set (W n))" "x \<notin> fst ` set (xs @ ys)"
      show "bl x = NULL"
      proof (cases "x = t")
        case False
        then have "x \<notin> fst ` set D" using x Dx by auto
        then show ?thesis using fr [of x] x L Dx by (auto simp: linv_def own_ok_def)
      qed (use bt in simp)
    qed (use L Dx in \<open>auto simp: linv_def own_ok_def\<close>)
    with e rm show ?thesis by auto
  qed
qed

section \<open>Removal and re-sorting\<close>

lemma rt_rmv_list_of_rdy:
  assumes L: "linv s R W D F" and t: "t \<in> set R"
  shows "\<exists>l. rt_rmv_list t s = Some (s\<lparr>p_lnk := l\<rparr>) \<and>
     linv (s\<lparr>p_lnk := l\<rparr>) (remove1 t R) W D (insert t F)"
proof -
  have dj: "disj_ok R W F" using L by (simp add: linv_def)
  have c: "chain NULL (p_lnk s) Rdy R" and so: "prio_sorted (prio s) R" and ty: "\<not> sem_mbx (cb_type s Rdy)"
    using L by (simp_all add: linv_def rdy_ok_def)
  obtain xs ys where R: "R = xs @ t # ys" using t by (meson split_list)
  have dist: "distinct (xs @ t # ys)" using chain_distinct [OF c] R by simp
  have rm: "remove1 t R = xs @ ys" using R dist by (simp add: remove1_append)
  have rt: "p_rlnk s t = NULL" using L t by (simp add: linv_def own_ok_def)
  obtain l where e: "rt_rmv_list t s = Some (s\<lparr>p_lnk := l\<rparr>)" and cl: "chain NULL l Rdy (xs @ ys)"
    and fl: "\<And>x. x \<notin> insert Rdy (set xs) \<Longrightarrow> l x = p_lnk s x"
    using rt_rmv_list_rdy [of s xs t ys] c R rt by auto
  have "rdy_ok (s\<lparr>p_lnk := l\<rparr>) (xs @ ys)"
    using cl ty prio_sorted_remove1 [OF so, of t] rm by (simp add: rdy_ok_def)
  moreover have "wait_ok (s\<lparr>p_lnk := l\<rparr>) n (W n)" for n
  proof -
    have n: "x \<notin> insert Rdy (set xs)" if "x \<in> insert (Obj n) (set (W n))" for x
    proof
      assume x: "x \<in> insert Rdy (set xs)"
      then have "x = Rdy \<or> x \<in> set R" using R by auto
      then show False
      proof
        assume "x = Rdy"
        then show False using that disj_heads(3) [OF dj, of Rdy n] by simp
      next
        assume "x \<in> set R"
        then show False using that dj disj_heads(1) [OF dj, of "Obj n"] by (auto simp: disj_ok_def)
      qed
    qed
    have "wait_ok (s\<lparr>p_lnk := l, p_rlnk := p_rlnk s\<rparr>) n (W n) = wait_ok s n (W n)"
      by (intro wait_ok_cong fl n) simp_all
    then show ?thesis using L by (simp add: linv_def)
  qed
  moreover have "disj_ok (xs @ ys) W (insert t F)" using dj R dist by (auto simp: disj_ok_def)
  moreover have "own_ok (s\<lparr>p_lnk := l\<rparr>) (xs @ ys) W D (insert t F)"
    using L R by (auto simp: linv_def own_ok_def)
  moreover have "dly_list (s\<lparr>p_lnk := l\<rparr>) D" using L by (simp add: linv_def dly_list_def dly_links_def)
  ultimately have "linv (s\<lparr>p_lnk := l\<rparr>) (remove1 t R) W D (insert t F)"
    unfolding linv_def rm by (intro conjI allI)
  with e show ?thesis by (intro exI conjI)
qed

lemma rt_rmv_list_of_floating:
  assumes L: "linv s R W D F" and t: "t \<in> F"
  shows "rt_rmv_list t s = Some s"
proof (rule rt_rmv_list_absent)
  show "chain NULL (p_lnk s) Rdy R" using L by (simp add: linv_def rdy_ok_def)
  show "p_rlnk s t = NULL" using L t by (simp add: linv_def own_ok_def)
  show "t \<notin> set R" using L t by (auto simp: linv_def disj_ok_def)
  show "t \<noteq> NULL" using linv_tcb(2) [OF L t] by simp
qed

text \<open>
  Taken out of a waiting list, a task keeps its stale link members. Up to the task's own backward
  link, the memory is again one that satisfies the invariant, with the task floating.
\<close>

lemma linvz_rmv_list_of_wait:
  assumes L: "linvz s R W D F" and t: "t \<in> set (W n)"
  shows "\<exists>l r. rt_rmv_list t s = Some (s\<lparr>p_lnk := l, p_rlnk := r\<rparr>) \<and>
     linvz (s\<lparr>p_lnk := l, p_rlnk := r(t := NULL)\<rparr>) R (W(n := remove1 t (W n))) D (insert t F)"
proof -
  have dj: "disj_ok R W F" using L by (simp add: linvz_def)
  have wn: "wait_ok s n (W n)" using L by (simp add: linvz_def)
  have c: "chain NULL (p_lnk s) (Obj n) (W n)" and rc: "rchain (p_rlnk s) (Obj n) (W n)"
    and ty: "sem_mbx (cb_type s (Obj n))" and so: "prio_sorted (prio s) (W n)"
    using wn t by (auto simp: wait_ok_def)
  obtain xs ys where W: "W n = xs @ t # ys" using t by (meson split_list)
  have dist: "distinct (xs @ t # ys)" using chain_distinct [OF c] W by simp
  have rm: "remove1 t (W n) = xs @ ys" using W dist by (simp add: remove1_append)
  obtain l r where e: "rt_rmv_list t s = Some (s\<lparr>p_lnk := l, p_rlnk := r\<rparr>)"
    and cl: "chain NULL l (Obj n) (xs @ ys)" and rl: "rchain r (Obj n) (xs @ ys)"
    and fl: "\<And>x. x \<notin> insert (Obj n) (set xs) \<Longrightarrow> l x = p_lnk s x"
    and fr: "\<And>x. x \<notin> set ys \<Longrightarrow> r x = p_rlnk s x"
    using rt_rmv_list_wait [of s "Obj n" xs t ys] c rc W by auto
  define r' where "r' = r(t := NULL)"
  let ?s = "s\<lparr>p_lnk := l, p_rlnk := r'\<rparr>"
  have wt: "x \<in> set (xs @ t # ys) \<Longrightarrow> is_tcb x \<and> x \<notin> set R \<and> x \<notin> F \<and> (m \<noteq> n \<longrightarrow> x \<notin> set (W m))" for x m
    using dj W unfolding disj_ok_def by metis
  have rl': "rchain r' (Obj n) (xs @ ys)" using rl dist by (simp add: r'_def)
  have "rdy_ok ?s R = rdy_ok s R"
  proof (intro rdy_ok_cong fl)
    fix x assume "x \<in> insert Rdy (set R)"
    then show "x \<notin> insert (Obj n) (set xs)"
      using wt [of x] disj_heads [OF dj, of "Obj n"] by auto
  qed
  then have "rdy_ok ?s R" using L by (simp add: linvz_def)
  moreover have "wait_ok ?s m ((W(n := xs @ ys)) m)" for m
  proof (cases "m = n")
    case True
    then show ?thesis using cl rl' ty prio_sorted_remove1 [OF so, of t] rm by (simp add: wait_ok_def)
  next
    case False
    have "Obj n \<notin> set (W m)" using dj by (simp add: disj_heads)
    moreover have "x \<notin> set (xs @ t # ys)" if "x \<in> set (W m)" for x using wt [of x m] that False by auto
    ultimately have "wait_ok ?s m (W m) = wait_ok s m (W m)"
      using wt [of "Obj m"] False by (intro wait_ok_cong fl) (auto simp: r'_def fr)
    then show ?thesis using L False by (simp add: linvz_def)
  qed
  moreover have "disj_ok R (W(n := xs @ ys)) (insert t F)"
    by (rule disj_get_wait [OF dj]) (use W dist in auto)
  moreover have "own_ok ?s R (W(n := xs @ ys)) D (insert t F)"
  proof -
    have "insert t (\<Union>m. set ((W(n := xs @ ys)) m)) = (\<Union>m. set (W m))"
      by (rule waiters_get) (simp add: W)
    then have "set R \<union> insert t F \<union> (\<Union>m. set ((W(n := xs @ ys)) m)) = set R \<union> F \<union> (\<Union>m. set (W m))"
      by blast
    moreover have "r' x = NULL" if x: "x \<in> set R \<union> insert t F" for x
    proof (cases "x = t")
      case False
      then have "x \<notin> set ys" using x wt [of x] by auto
      then show ?thesis using fr x False L by (auto simp: linvz_def own_ok_def r'_def)
    qed (simp add: r'_def)
    ultimately show ?thesis using L unfolding linvz_def own_ok_def by simp
  qed
  moreover have "dly_links ?s D \<and> (\<forall>(t, k)\<in>set D. is_tcb t \<and> k < 65535)"
    using L by (simp add: linvz_def dly_links_def)
  ultimately have "linvz ?s R (W(n := remove1 t (W n))) D (insert t F)" unfolding linvz_def rm by blast
  with e show ?thesis unfolding r'_def by blast
qed

lemma rt_rmv_list_of_wait:
  assumes L: "linv s R W D F" and t: "t \<in> set (W n)"
  shows "\<exists>l r. rt_rmv_list t s = Some (s\<lparr>p_lnk := l, p_rlnk := r\<rparr>) \<and>
     linv (s\<lparr>p_lnk := l, p_rlnk := r(t := NULL)\<rparr>) R (W(n := remove1 t (W n))) D (insert t F)"
  using linvz_rmv_list_of_wait [of s R W D F t n] L t unfolding linv_linvz by blast

text \<open>
  \<open>rt_put_prio\<close> overwrites both link members of the task it inserts, so stale values in
  them do not matter.
\<close>

lemma put_prio_search_cong:
  "(\<And>x. x \<in> insert h (set ts) \<Longrightarrow> p_lnk s x = p_lnk s' x) \<Longrightarrow> prio s = prio s' \<Longrightarrow>
     chain NULL (p_lnk s) h ts \<Longrightarrow>
     put_prio_search pr h (p_lnk s h) s = put_prio_search pr h (p_lnk s' h) s'"
  using put_prio_search_chain [of s h ts pr] put_prio_search_chain [of s' h ts pr]
    chain_cong [of h ts "p_lnk s" "p_lnk s'" NULL] by simp

lemma rt_put_prio_stale:
  assumes c: "chain NULL (p_lnk s) h ts" and t: "t \<noteq> NULL" "t \<notin> insert h (set ts)" and h: "h \<noteq> NULL"
  shows "rt_put_prio h t (s\<lparr>p_rlnk := (p_rlnk s)(t := v)\<rparr>) = rt_put_prio h t s"
proof -
  let ?xs = "takeWhile (\<lambda>x. prio s t \<le> prio s x) ts" and ?ys = "dropWhile (\<lambda>x. prio s t \<le> prio s x) ts"
  let ?s' = "s\<lparr>p_rlnk := (p_rlnk s)(t := v)\<rparr>"
  have s: "put_prio_search (prio s t) h (p_lnk s h) s = Some (last_node h ?xs, first_node NULL ?ys)"
    by (rule put_prio_search_chain [OF c])
  have s': "put_prio_search (prio s t) h (p_lnk s h) ?s' = Some (last_node h ?xs, first_node NULL ?ys)"
    using put_prio_search_chain [of ?s' h ts "prio s t"] c by simp
  have "last_node h ?xs \<in> insert h (set ts)" using last_node_in [of h ?xs] set_takeWhileD by fastforce
  then have ln: "last_node h ?xs \<noteq> NULL" using chain_nil_notin [OF c] h by auto
  have fn: "first_node NULL ?ys \<noteq> t"
  proof (cases ?ys)
    case Nil
    show ?thesis unfolding Nil using t(1) by simp
  next
    case (Cons y zs)
    then have "y \<in> set ?ys" by simp
    then have "y \<in> set ts" by (rule set_dropWhileD)
    then show ?thesis using t(2) Cons by auto
  qed
  show ?thesis
    using h t s s' ln fn by (simp add: rt_put_prio_def Let_def fun_upd_twist)
qed

end
