(* ===== verification/Kernel_Relink.thy ===== *)
theory Kernel_Relink
  imports Kernel_Links
begin

text \<open>
  The list operations change the five link members of the control blocks and nothing else.
  \<open>relink L s\<close> is the memory \<open>s\<close> with its link members replaced by \<open>L\<close>. The facts about
  the list operations are restated in this form, so that the effect of an operation on
  everything but the links is read off its result.
\<close>

datatype links =
  Links (l_lnk: "ptr \<Rightarrow> ptr") (l_rlnk: "ptr \<Rightarrow> ptr") (l_dlnk: "ptr \<Rightarrow> ptr") (l_blnk: "ptr \<Rightarrow> ptr")
    (l_delta: "ptr \<Rightarrow> u16")

fun relink :: "links \<Rightarrow> os \<Rightarrow> os" where
  "relink (Links l r dl bl dt) s = s\<lparr>p_lnk := l, p_rlnk := r, p_dlnk := dl, p_blnk := bl, delta_time := dt\<rparr>"

lemma relink_eq:
  "relink L s = s\<lparr>p_lnk := l_lnk L, p_rlnk := l_rlnk L, p_dlnk := l_dlnk L,
     p_blnk := l_blnk L, delta_time := l_delta L\<rparr>"
  by (cases L) simp

lemma relink_sel [simp]:
  "cb_type (relink L s) = cb_type s"
  "state (relink L s) = state s"
  "prio (relink L s) = prio s"
  "task_id (relink L s) = task_id s"
  "interval_time (relink L s) = interval_time s"
  "events (relink L s) = events s"
  "waits (relink L s) = waits s"
  "msg (relink L s) = msg s"
  "stack_frame (relink L s) = stack_frame s"
  "priv_stack (relink L s) = priv_stack s"
  "tsk_stack (relink L s) = tsk_stack s"
  "stack (relink L s) = stack s"
  "ptask (relink L s) = ptask s"
  "tokens (relink L s) = tokens s"
  "mut_prio (relink L s) = mut_prio s"
  "mut_level (relink L s) = mut_level s"
  "mut_owner (relink L s) = mut_owner s"
  "mbx_state (relink L s) = mbx_state s"
  "mbx_isr_st (relink L s) = mbx_isr_st s"
  "mbx_first (relink L s) = mbx_first s"
  "mbx_last (relink L s) = mbx_last s"
  "mbx_count (relink L s) = mbx_count s"
  "mbx_size (relink L s) = mbx_size s"
  "mbx_msg (relink L s) = mbx_msg s"
  "psq_first (relink L s) = psq_first s"
  "psq_last (relink L s) = psq_last s"
  "psq_count (relink L s) = psq_count s"
  "psq_size (relink L s) = psq_size s"
  "psq_q (relink L s) = psq_q s"
  "run (relink L s) = run s"
  "new_tsk (relink L s) = new_tsk s"
  "robin_task (relink L s) = robin_task s"
  "robin_time (relink L s) = robin_time s"
  "robin_tout (relink L s) = robin_tout s"
  "os_time (relink L s) = os_time s"
  "os_active_TCB (relink L s) = os_active_TCB s"
  "os_tick_irqn (relink L s) = os_tick_irqn s"
  "os_lock (relink L s) = os_lock s"
  "os_psh_flag (relink L s) = os_psh_flag s"
  "pend_flags (relink L s) = pend_flags s"
  "pend_sv (relink L s) = pend_sv s"
  "pend_st (relink L s) = pend_st s"
  "st_ctrl (relink L s) = st_ctrl s"
  "psp (relink L s) = psp s"
  "irq_en (relink L s) = irq_en s"
  "mem (relink L s) = mem s"
  "addr (relink L s) = addr s"
  "tmr_next (relink L s) = tmr_next s"
  "tmr_state (relink L s) = tmr_state s"
  "tmr_type (relink L s) = tmr_type s"
  "tmr_arg (relink L s) = tmr_arg s"
  "tmr_tcnt (relink L s) = tmr_tcnt s"
  "tmr_icnt (relink L s) = tmr_icnt s"
  "tmr_ptimer (relink L s) = tmr_ptimer s"
  "os_timer_head (relink L s) = os_timer_head s"
  "osThreadId_osTimerThread (relink L s) = osThreadId_osTimerThread s"
  "osMessageQId_osTimerMessageQ (relink L s) = osMessageQId_osTimerMessageQ s"
  "os_initialized (relink L s) = os_initialized s"
  "os_running (relink L s) = os_running s"
  "callee_regs (relink L s) = callee_regs s"
  "ipsr (relink L s) = ipsr s"
  "control (relink L s) = control s"
  by (simp_all add: relink_eq)

lemma relink_delta [simp]: "delta_time (relink L s) = l_delta L"
  by (simp add: relink_eq)

lemma relink_upd [simp]:
  "(relink L s)\<lparr>cb_type := x0\<rparr> = relink L (s\<lparr>cb_type := x0\<rparr>)"
  "(relink L s)\<lparr>state := x1\<rparr> = relink L (s\<lparr>state := x1\<rparr>)"
  "(relink L s)\<lparr>prio := x2\<rparr> = relink L (s\<lparr>prio := x2\<rparr>)"
  "(relink L s)\<lparr>task_id := x3\<rparr> = relink L (s\<lparr>task_id := x3\<rparr>)"
  "(relink L s)\<lparr>interval_time := x4\<rparr> = relink L (s\<lparr>interval_time := x4\<rparr>)"
  "(relink L s)\<lparr>events := x5\<rparr> = relink L (s\<lparr>events := x5\<rparr>)"
  "(relink L s)\<lparr>waits := x6\<rparr> = relink L (s\<lparr>waits := x6\<rparr>)"
  "(relink L s)\<lparr>msg := x7\<rparr> = relink L (s\<lparr>msg := x7\<rparr>)"
  "(relink L s)\<lparr>stack_frame := x8\<rparr> = relink L (s\<lparr>stack_frame := x8\<rparr>)"
  "(relink L s)\<lparr>priv_stack := x9\<rparr> = relink L (s\<lparr>priv_stack := x9\<rparr>)"
  "(relink L s)\<lparr>tsk_stack := x10\<rparr> = relink L (s\<lparr>tsk_stack := x10\<rparr>)"
  "(relink L s)\<lparr>stack := x11\<rparr> = relink L (s\<lparr>stack := x11\<rparr>)"
  "(relink L s)\<lparr>ptask := x12\<rparr> = relink L (s\<lparr>ptask := x12\<rparr>)"
  "(relink L s)\<lparr>tokens := x13\<rparr> = relink L (s\<lparr>tokens := x13\<rparr>)"
  "(relink L s)\<lparr>mut_prio := x14\<rparr> = relink L (s\<lparr>mut_prio := x14\<rparr>)"
  "(relink L s)\<lparr>mut_level := x15\<rparr> = relink L (s\<lparr>mut_level := x15\<rparr>)"
  "(relink L s)\<lparr>mut_owner := x16\<rparr> = relink L (s\<lparr>mut_owner := x16\<rparr>)"
  "(relink L s)\<lparr>mbx_state := x17\<rparr> = relink L (s\<lparr>mbx_state := x17\<rparr>)"
  "(relink L s)\<lparr>mbx_isr_st := x18\<rparr> = relink L (s\<lparr>mbx_isr_st := x18\<rparr>)"
  "(relink L s)\<lparr>mbx_first := x19\<rparr> = relink L (s\<lparr>mbx_first := x19\<rparr>)"
  "(relink L s)\<lparr>mbx_last := x20\<rparr> = relink L (s\<lparr>mbx_last := x20\<rparr>)"
  "(relink L s)\<lparr>mbx_count := x21\<rparr> = relink L (s\<lparr>mbx_count := x21\<rparr>)"
  "(relink L s)\<lparr>mbx_size := x22\<rparr> = relink L (s\<lparr>mbx_size := x22\<rparr>)"
  "(relink L s)\<lparr>mbx_msg := x23\<rparr> = relink L (s\<lparr>mbx_msg := x23\<rparr>)"
  "(relink L s)\<lparr>psq_first := x24\<rparr> = relink L (s\<lparr>psq_first := x24\<rparr>)"
  "(relink L s)\<lparr>psq_last := x25\<rparr> = relink L (s\<lparr>psq_last := x25\<rparr>)"
  "(relink L s)\<lparr>psq_count := x26\<rparr> = relink L (s\<lparr>psq_count := x26\<rparr>)"
  "(relink L s)\<lparr>psq_size := x27\<rparr> = relink L (s\<lparr>psq_size := x27\<rparr>)"
  "(relink L s)\<lparr>psq_q := x28\<rparr> = relink L (s\<lparr>psq_q := x28\<rparr>)"
  "(relink L s)\<lparr>run := x29\<rparr> = relink L (s\<lparr>run := x29\<rparr>)"
  "(relink L s)\<lparr>new_tsk := x30\<rparr> = relink L (s\<lparr>new_tsk := x30\<rparr>)"
  "(relink L s)\<lparr>robin_task := x31\<rparr> = relink L (s\<lparr>robin_task := x31\<rparr>)"
  "(relink L s)\<lparr>robin_time := x32\<rparr> = relink L (s\<lparr>robin_time := x32\<rparr>)"
  "(relink L s)\<lparr>robin_tout := x33\<rparr> = relink L (s\<lparr>robin_tout := x33\<rparr>)"
  "(relink L s)\<lparr>os_time := x34\<rparr> = relink L (s\<lparr>os_time := x34\<rparr>)"
  "(relink L s)\<lparr>os_active_TCB := x35\<rparr> = relink L (s\<lparr>os_active_TCB := x35\<rparr>)"
  "(relink L s)\<lparr>os_tick_irqn := x36\<rparr> = relink L (s\<lparr>os_tick_irqn := x36\<rparr>)"
  "(relink L s)\<lparr>os_lock := x37\<rparr> = relink L (s\<lparr>os_lock := x37\<rparr>)"
  "(relink L s)\<lparr>os_psh_flag := x38\<rparr> = relink L (s\<lparr>os_psh_flag := x38\<rparr>)"
  "(relink L s)\<lparr>pend_flags := x39\<rparr> = relink L (s\<lparr>pend_flags := x39\<rparr>)"
  "(relink L s)\<lparr>pend_sv := x40\<rparr> = relink L (s\<lparr>pend_sv := x40\<rparr>)"
  "(relink L s)\<lparr>pend_st := x41\<rparr> = relink L (s\<lparr>pend_st := x41\<rparr>)"
  "(relink L s)\<lparr>st_ctrl := x42\<rparr> = relink L (s\<lparr>st_ctrl := x42\<rparr>)"
  "(relink L s)\<lparr>psp := x43\<rparr> = relink L (s\<lparr>psp := x43\<rparr>)"
  "(relink L s)\<lparr>irq_en := x44\<rparr> = relink L (s\<lparr>irq_en := x44\<rparr>)"
  "(relink L s)\<lparr>mem := x45\<rparr> = relink L (s\<lparr>mem := x45\<rparr>)"
  "(relink L s)\<lparr>addr := x46\<rparr> = relink L (s\<lparr>addr := x46\<rparr>)"
  "(relink L s)\<lparr>tmr_next := x47\<rparr> = relink L (s\<lparr>tmr_next := x47\<rparr>)"
  "(relink L s)\<lparr>tmr_state := x48\<rparr> = relink L (s\<lparr>tmr_state := x48\<rparr>)"
  "(relink L s)\<lparr>tmr_type := x49\<rparr> = relink L (s\<lparr>tmr_type := x49\<rparr>)"
  "(relink L s)\<lparr>tmr_arg := x50\<rparr> = relink L (s\<lparr>tmr_arg := x50\<rparr>)"
  "(relink L s)\<lparr>tmr_tcnt := x51\<rparr> = relink L (s\<lparr>tmr_tcnt := x51\<rparr>)"
  "(relink L s)\<lparr>tmr_icnt := x52\<rparr> = relink L (s\<lparr>tmr_icnt := x52\<rparr>)"
  "(relink L s)\<lparr>tmr_ptimer := x53\<rparr> = relink L (s\<lparr>tmr_ptimer := x53\<rparr>)"
  "(relink L s)\<lparr>os_timer_head := x54\<rparr> = relink L (s\<lparr>os_timer_head := x54\<rparr>)"
  "(relink L s)\<lparr>osThreadId_osTimerThread := x55\<rparr> = relink L (s\<lparr>osThreadId_osTimerThread := x55\<rparr>)"
  "(relink L s)\<lparr>osMessageQId_osTimerMessageQ := x56\<rparr> = relink L (s\<lparr>osMessageQId_osTimerMessageQ := x56\<rparr>)"
  "(relink L s)\<lparr>os_initialized := x57\<rparr> = relink L (s\<lparr>os_initialized := x57\<rparr>)"
  "(relink L s)\<lparr>os_running := x58\<rparr> = relink L (s\<lparr>os_running := x58\<rparr>)"
  "(relink L s)\<lparr>callee_regs := y0\<rparr> = relink L (s\<lparr>callee_regs := y0\<rparr>)"
  "(relink L s)\<lparr>ipsr := y1\<rparr> = relink L (s\<lparr>ipsr := y1\<rparr>)"
  "(relink L s)\<lparr>control := y2\<rparr> = relink L (s\<lparr>control := y2\<rparr>)"
  by (simp_all add: relink_eq)

lemma relink_relink [simp]: "relink L (relink M s) = relink L s"
  by (cases L; cases M) simp

lemma relink_links [simp]:
  "relink L (s\<lparr>p_lnk := l\<rparr>) = relink L s"
  "relink L (s\<lparr>p_rlnk := l\<rparr>) = relink L s"
  "relink L (s\<lparr>p_dlnk := l\<rparr>) = relink L s"
  "relink L (s\<lparr>p_blnk := l\<rparr>) = relink L s"
  "relink L (s\<lparr>delta_time := dt\<rparr>) = relink L s"
  by (cases L; simp)+

lemma relink_id: "\<exists>L. s = relink L s"
  by (rule exI [of _ "Links (p_lnk s) (p_rlnk s) (p_dlnk s) (p_blnk s) (delta_time s)"]) simp

lemma relink_lnk: "\<exists>L. s\<lparr>p_lnk := l, p_rlnk := r\<rparr> = relink L s"
  by (rule exI [of _ "Links l r (p_dlnk s) (p_blnk s) (delta_time s)"]) simp

lemma relink_dly: "\<exists>L. s\<lparr>p_dlnk := dl, p_blnk := bl, delta_time := dt\<rparr> = relink L s"
  by (rule exI [of _ "Links (p_lnk s) (p_rlnk s) dl bl dt"]) simp

lemma linv_relink_cong: "prio s = prio s' \<Longrightarrow> cb_type s = cb_type s' \<Longrightarrow> linv (relink L s) R W D F = linv (relink L s') R W D F"
  by (cases L) (simp add: linv_parts)

lemma linv_relink_frame [simp]:
  "linv (relink L (s\<lparr>state := x0\<rparr>)) R W D F = linv (relink L s) R W D F"
  "linv (relink L (s\<lparr>task_id := x1\<rparr>)) R W D F = linv (relink L s) R W D F"
  "linv (relink L (s\<lparr>interval_time := x2\<rparr>)) R W D F = linv (relink L s) R W D F"
  "linv (relink L (s\<lparr>events := x3\<rparr>)) R W D F = linv (relink L s) R W D F"
  "linv (relink L (s\<lparr>waits := x4\<rparr>)) R W D F = linv (relink L s) R W D F"
  "linv (relink L (s\<lparr>msg := x5\<rparr>)) R W D F = linv (relink L s) R W D F"
  "linv (relink L (s\<lparr>stack_frame := x6\<rparr>)) R W D F = linv (relink L s) R W D F"
  "linv (relink L (s\<lparr>priv_stack := x7\<rparr>)) R W D F = linv (relink L s) R W D F"
  "linv (relink L (s\<lparr>tsk_stack := x8\<rparr>)) R W D F = linv (relink L s) R W D F"
  "linv (relink L (s\<lparr>stack := x9\<rparr>)) R W D F = linv (relink L s) R W D F"
  "linv (relink L (s\<lparr>ptask := x10\<rparr>)) R W D F = linv (relink L s) R W D F"
  "linv (relink L (s\<lparr>tokens := x11\<rparr>)) R W D F = linv (relink L s) R W D F"
  "linv (relink L (s\<lparr>mut_prio := x12\<rparr>)) R W D F = linv (relink L s) R W D F"
  "linv (relink L (s\<lparr>mut_level := x13\<rparr>)) R W D F = linv (relink L s) R W D F"
  "linv (relink L (s\<lparr>mut_owner := x14\<rparr>)) R W D F = linv (relink L s) R W D F"
  "linv (relink L (s\<lparr>mbx_state := x15\<rparr>)) R W D F = linv (relink L s) R W D F"
  "linv (relink L (s\<lparr>mbx_isr_st := x16\<rparr>)) R W D F = linv (relink L s) R W D F"
  "linv (relink L (s\<lparr>mbx_first := x17\<rparr>)) R W D F = linv (relink L s) R W D F"
  "linv (relink L (s\<lparr>mbx_last := x18\<rparr>)) R W D F = linv (relink L s) R W D F"
  "linv (relink L (s\<lparr>mbx_count := x19\<rparr>)) R W D F = linv (relink L s) R W D F"
  "linv (relink L (s\<lparr>mbx_size := x20\<rparr>)) R W D F = linv (relink L s) R W D F"
  "linv (relink L (s\<lparr>mbx_msg := x21\<rparr>)) R W D F = linv (relink L s) R W D F"
  "linv (relink L (s\<lparr>psq_first := x22\<rparr>)) R W D F = linv (relink L s) R W D F"
  "linv (relink L (s\<lparr>psq_last := x23\<rparr>)) R W D F = linv (relink L s) R W D F"
  "linv (relink L (s\<lparr>psq_count := x24\<rparr>)) R W D F = linv (relink L s) R W D F"
  "linv (relink L (s\<lparr>psq_size := x25\<rparr>)) R W D F = linv (relink L s) R W D F"
  "linv (relink L (s\<lparr>psq_q := x26\<rparr>)) R W D F = linv (relink L s) R W D F"
  "linv (relink L (s\<lparr>run := x27\<rparr>)) R W D F = linv (relink L s) R W D F"
  "linv (relink L (s\<lparr>new_tsk := x28\<rparr>)) R W D F = linv (relink L s) R W D F"
  "linv (relink L (s\<lparr>robin_task := x29\<rparr>)) R W D F = linv (relink L s) R W D F"
  "linv (relink L (s\<lparr>robin_time := x30\<rparr>)) R W D F = linv (relink L s) R W D F"
  "linv (relink L (s\<lparr>robin_tout := x31\<rparr>)) R W D F = linv (relink L s) R W D F"
  "linv (relink L (s\<lparr>os_time := x32\<rparr>)) R W D F = linv (relink L s) R W D F"
  "linv (relink L (s\<lparr>os_active_TCB := x33\<rparr>)) R W D F = linv (relink L s) R W D F"
  "linv (relink L (s\<lparr>os_tick_irqn := x34\<rparr>)) R W D F = linv (relink L s) R W D F"
  "linv (relink L (s\<lparr>os_lock := x35\<rparr>)) R W D F = linv (relink L s) R W D F"
  "linv (relink L (s\<lparr>os_psh_flag := x36\<rparr>)) R W D F = linv (relink L s) R W D F"
  "linv (relink L (s\<lparr>pend_flags := x37\<rparr>)) R W D F = linv (relink L s) R W D F"
  "linv (relink L (s\<lparr>pend_sv := x38\<rparr>)) R W D F = linv (relink L s) R W D F"
  "linv (relink L (s\<lparr>pend_st := x39\<rparr>)) R W D F = linv (relink L s) R W D F"
  "linv (relink L (s\<lparr>st_ctrl := x40\<rparr>)) R W D F = linv (relink L s) R W D F"
  "linv (relink L (s\<lparr>psp := x41\<rparr>)) R W D F = linv (relink L s) R W D F"
  "linv (relink L (s\<lparr>irq_en := x42\<rparr>)) R W D F = linv (relink L s) R W D F"
  "linv (relink L (s\<lparr>mem := x43\<rparr>)) R W D F = linv (relink L s) R W D F"
  "linv (relink L (s\<lparr>addr := x44\<rparr>)) R W D F = linv (relink L s) R W D F"
  "linv (relink L (s\<lparr>tmr_next := x45\<rparr>)) R W D F = linv (relink L s) R W D F"
  "linv (relink L (s\<lparr>tmr_state := x46\<rparr>)) R W D F = linv (relink L s) R W D F"
  "linv (relink L (s\<lparr>tmr_type := x47\<rparr>)) R W D F = linv (relink L s) R W D F"
  "linv (relink L (s\<lparr>tmr_arg := x48\<rparr>)) R W D F = linv (relink L s) R W D F"
  "linv (relink L (s\<lparr>tmr_tcnt := x49\<rparr>)) R W D F = linv (relink L s) R W D F"
  "linv (relink L (s\<lparr>tmr_icnt := x50\<rparr>)) R W D F = linv (relink L s) R W D F"
  "linv (relink L (s\<lparr>tmr_ptimer := x51\<rparr>)) R W D F = linv (relink L s) R W D F"
  "linv (relink L (s\<lparr>os_timer_head := x52\<rparr>)) R W D F = linv (relink L s) R W D F"
  "linv (relink L (s\<lparr>osThreadId_osTimerThread := x53\<rparr>)) R W D F = linv (relink L s) R W D F"
  "linv (relink L (s\<lparr>osMessageQId_osTimerMessageQ := x54\<rparr>)) R W D F = linv (relink L s) R W D F"
  "linv (relink L (s\<lparr>os_initialized := x55\<rparr>)) R W D F = linv (relink L s) R W D F"
  "linv (relink L (s\<lparr>os_running := x56\<rparr>)) R W D F = linv (relink L s) R W D F"
  "linv (relink L (s\<lparr>callee_regs := y0\<rparr>)) R W D F = linv (relink L s) R W D F"
  "linv (relink L (s\<lparr>ipsr := y1\<rparr>)) R W D F = linv (relink L s) R W D F"
  "linv (relink L (s\<lparr>control := y2\<rparr>)) R W D F = linv (relink L s) R W D F"
  by (rule linv_relink_cong; simp)+

declare relink.simps [simp del]

section \<open>The list operations\<close>

lemma rl_get_first_rdy:
  assumes "linv s (t # R) W D F"
  shows "\<exists>L. rt_get_first Rdy s = Some (t, relink L s) \<and> linv (relink L s) R W D (insert t F)"
proof -
  obtain l where "rt_get_first Rdy s = Some (t, s\<lparr>p_lnk := l\<rparr>)" "linv (s\<lparr>p_lnk := l\<rparr>) R W D (insert t F)"
    using linv_get_first_rdy [OF assms] by blast
  then show ?thesis using relink_lnk [where l = l and r = "p_rlnk s" and s = s] by force
qed

lemma rl_put_prio_rdy:
  assumes "linv s R W D F" and "t \<in> F"
  shows "\<exists>L. rt_put_prio Rdy t s = Some (relink L s) \<and>
     linv (relink L s) (ins_prio (prio s) t R) W D (F - {t})"
  using linv_put_prio_rdy [OF assms] relink_lnk by metis

lemma rl_put_rdy_first:
  assumes "linv s R W D F" and "t \<in> F" and "\<forall>x\<in>set R. prio s x \<le> prio s t"
  shows "\<exists>L. rt_put_rdy_first t s = Some (relink L s) \<and> linv (relink L s) (t # R) W D (F - {t})"
  using linv_put_rdy_first [OF assms] relink_lnk by metis

lemma rl_get_first_wait:
  assumes "linv s R W D F" and "W n = t # ts"
  shows "\<exists>L. rt_get_first (Obj n) s = Some (t, relink L s) \<and>
     linv (relink L s) R (W(n := ts)) D (insert t F)"
  using linv_get_first_wait [OF assms] relink_lnk by metis

lemma rl_put_prio_wait:
  assumes "linv s R W D F" and "t \<in> F" and "sem_mbx (cb_type s (Obj n))"
  shows "\<exists>L. rt_put_prio (Obj n) t s = Some (relink L s) \<and>
     linv (relink L s) R (W(n := ins_prio (prio s) t (W n))) D (F - {t})"
  using linv_put_prio_wait [OF assms] relink_lnk by metis

lemma rl_put_dly:
  assumes "linv s R W D F" and "t \<in> F \<union> (\<Union>n. set (W n))" "t \<notin> fst ` set D" and "0 < d" "d < 0xFFFF"
  shows "\<exists>L. rt_put_dly t d s = Some (relink L s) \<and>
     linv (relink L s) R W (ins_dly t (unat d) D) F"
  using linv_put_dly [OF assms] relink_dly by metis

lemma rl_rmv_dly:
  assumes "linv s R W D F" and "t \<in> set R \<union> F \<union> (\<Union>n. set (W n))"
  shows "\<exists>L. rt_rmv_dly t s = Some (relink L s) \<and> linv (relink L s) R W (rmv_dly t D) F"
  using linv_rmv_dly [OF assms] relink_dly by metis

lemma lnk_rdy: "linv s R W D F \<Longrightarrow> p_lnk s Rdy = first_node NULL R"
  by (simp add: linv_def rdy_ok_def chain_head)

lemma lnk_obj:
  assumes "linv s R W D F" and "sem_mbx (cb_type s (Obj n))"
  shows "p_lnk s (Obj n) = first_node NULL (W n)"
proof -
  have "wait_ok s n (W n)" using assms by (simp add: linv_def)
  then show ?thesis using assms(2) by (auto simp: wait_ok_def dest: chain_head)
qed

lemma obj_waits:
  assumes "linv s R W D F" and "sem_mbx (cb_type s (Obj n))"
  shows "p_lnk s (Obj n) = NULL \<longleftrightarrow> W n = []"
  using lnk_obj [OF assms] linv_tcb(3) [OF assms(1), of _ n] by (cases "W n") auto

lemma rdy_empty: "linv s R W D F \<Longrightarrow> p_lnk s Rdy = NULL \<longleftrightarrow> R = []"
  using lnk_rdy linv_tcb(1) by (cases R) fastforce+

lemma upd_prio_lnk:
  "s\<lparr>p_lnk := l, prio := pr\<rparr> = s\<lparr>prio := pr, p_lnk := l\<rparr>"
  "s\<lparr>p_lnk := l, p_rlnk := r, prio := pr\<rparr> = s\<lparr>prio := pr, p_lnk := l, p_rlnk := r\<rparr>"
  by simp_all

text \<open>A floating task may change its priority.\<close>

lemma linv_prio_floating:
  assumes L: "linv s R W D F" and t: "t \<in> F"
  shows "linv (s\<lparr>prio := (prio s)(t := v)\<rparr>) R W D F"
proof -
  have n: "t \<notin> set R" "t \<notin> set (W n)" for n using L t by (auto simp: linv_def disj_ok_def)
  have "prio_sorted ((prio s)(t := v)) R = prio_sorted (prio s) R"
    using n(1) by (intro prio_sorted_cong) auto
  then have "rdy_ok (s\<lparr>prio := (prio s)(t := v)\<rparr>) R" using L by (simp add: linv_def rdy_ok_def)
  moreover have "wait_ok (s\<lparr>prio := (prio s)(t := v)\<rparr>) n (W n)" for n
  proof -
    have "prio_sorted ((prio s)(t := v)) (W n) = prio_sorted (prio s) (W n)"
      using n(2) [of n] by (intro prio_sorted_cong) auto
    then show ?thesis using L by (simp add: linv_def wait_ok_def)
  qed
  ultimately show ?thesis using L by (simp add: linv_def own_ok_def dly_list_def dly_links_def)
qed

text \<open>Removal does not look at priorities.\<close>

lemma rmv_rdy_prio:
  assumes L: "linv s R W D F" and t: "t \<in> set R"
  shows "rt_rmv_list t (s\<lparr>prio := pr\<rparr>) = map_option (\<lambda>s. s\<lparr>prio := pr\<rparr>) (rt_rmv_list t s)"
proof -
  obtain xs ys where R: "R = xs @ t # ys" using t by (meson split_list)
  have c: "chain NULL (p_lnk s) Rdy (xs @ t # ys)" using L R by (simp add: linv_def rdy_ok_def)
  have r: "p_rlnk s t = NULL" "t \<noteq> NULL" using L t linv_tcb(1) [OF L t] by (auto simp: linv_def own_ok_def)
  show ?thesis
    using rmv_list_search_found [OF c] rmv_list_search_found [of "s\<lparr>prio := pr\<rparr>" Rdy xs t ys] c r
    by (simp add: rt_rmv_list_def)
qed

lemma rmv_wait_prio:
  "t \<noteq> NULL \<Longrightarrow> p_rlnk s t \<noteq> NULL \<Longrightarrow>
     rt_rmv_list t (s\<lparr>prio := pr\<rparr>) = map_option (\<lambda>s. s\<lparr>prio := pr\<rparr>) (rt_rmv_list t s)"
  by (simp add: rt_rmv_list_def)

section \<open>Re-sorting after a change of priority\<close>

lemma rl_resort_floating:
  assumes L: "linv s R W D F" and t: "t \<in> F" and st: "state s t \<noteq> READY"
  shows "rt_resort_prio t (s\<lparr>prio := (prio s)(t := v)\<rparr>) = Some (s\<lparr>prio := (prio s)(t := v)\<rparr>)"
  using L t st linv_tcb(2) [OF L t] by (simp add: rt_resort_prio_def linv_def own_ok_def)

lemma rl_resort_rdy:
  fixes v :: u8
  assumes L: "linv s R W D F" and t: "t \<in> set R" and st: "state s t = READY"
  defines "s' \<equiv> s\<lparr>prio := (prio s)(t := v)\<rparr>"
  shows "\<exists>L. rt_resort_prio t s' = Some (relink L s') \<and>
     linv (relink L s') (ins_prio (prio s') t (remove1 t R)) W D F"
proof -
  obtain l where e: "rt_rmv_list t s = Some (s\<lparr>p_lnk := l\<rparr>)"
    and L1: "linv (s\<lparr>p_lnk := l\<rparr>) (remove1 t R) W D (insert t F)"
    using rt_rmv_list_of_rdy [OF L t] by blast
  have e': "rt_rmv_list t s' = Some (s'\<lparr>p_lnk := l\<rparr>)"
    using rmv_rdy_prio [OF L t] e by (simp add: s'_def)
  have "linv (s'\<lparr>p_lnk := l\<rparr>) (remove1 t R) W D (insert t F)"
    using linv_prio_floating [OF L1, of t v] by (simp add: s'_def upd_prio_lnk)
  then obtain L2 where p: "rt_put_prio Rdy t (s'\<lparr>p_lnk := l\<rparr>) = Some (relink L2 (s'\<lparr>p_lnk := l\<rparr>))"
    and L2: "linv (relink L2 (s'\<lparr>p_lnk := l\<rparr>)) (ins_prio (prio s') t (remove1 t R)) W D (insert t F - {t})"
    using rl_put_prio_rdy [of "s'\<lparr>p_lnk := l\<rparr>" "remove1 t R" W D "insert t F" t] by auto
  have r: "p_rlnk s' t = NULL" "t \<noteq> NULL" "t \<notin> F"
    using L t linv_tcb(1) [OF L t] by (auto simp: linv_def own_ok_def disj_ok_def s'_def)
  have "rt_resort_prio t s' = Some (relink L2 s')"
    using r st e' p by (simp add: rt_resort_prio_def s'_def)
  moreover have "insert t F - {t} = F" using r by simp
  ultimately show ?thesis using L2 by auto
qed

lemma rl_resort_wait:
  fixes v :: u8
  assumes L: "linv s R W D F" and t: "t \<in> set (W n)"
  defines "s' \<equiv> s\<lparr>prio := (prio s)(t := v)\<rparr>"
  shows "\<exists>L. rt_resort_prio t s' = Some (relink L s') \<and>
     linv (relink L s') R (W(n := ins_prio (prio s') t (remove1 t (W n)))) D F"
proof -
  have wn: "wait_ok s n (W n)" using L by (simp add: linv_def)
  then have rc: "rchain (p_rlnk s) (Obj n) (W n)" and ty: "sem_mbx (cb_type s (Obj n))"
    using t by (auto simp: wait_ok_def)
  have tt: "is_tcb t" "t \<notin> F" using L t linv_tcb(3) [OF L t] by (auto simp: linv_def disj_ok_def)
  obtain xs ys where W: "W n = xs @ t # ys" using t by (meson split_list)
  have hd: "find_header (p_rlnk s t) s = Some (Obj n)"
  proof (rule find_header_rchain)
    show "rchain (p_rlnk s) (Obj n) (xs @ [t])" using rc W by (simp add: rchain_append)
    show "\<forall>x\<in>set xs. cb_type s x = TCB \<and> x \<noteq> NULL"
    proof
      fix x assume "x \<in> set xs"
      then have "is_tcb x" using linv_tcb(3) [OF L, of x n] W by simp
      then show "cb_type s x = TCB \<and> x \<noteq> NULL" using L by (cases x) (auto simp: linv_def own_ok_def)
    qed
  qed (use ty in \<open>auto simp: sem_mbx_def cb_types\<close>)
  have hd': "find_header (p_rlnk s' t) s' = Some (Obj n)"
  proof (rule find_header_rchain)
    show "rchain (p_rlnk s') (Obj n) (xs @ [t])" using rc W by (simp add: rchain_append s'_def)
    show "\<forall>x\<in>set xs. cb_type s' x = TCB \<and> x \<noteq> NULL"
    proof
      fix x assume "x \<in> set xs"
      then have "is_tcb x" using linv_tcb(3) [OF L, of x n] W by simp
      then show "cb_type s' x = TCB \<and> x \<noteq> NULL"
        using L by (cases x) (auto simp: linv_def own_ok_def s'_def)
    qed
  qed (use ty in \<open>auto simp: sem_mbx_def cb_types s'_def\<close>)
  have pr: "p_rlnk s t \<noteq> NULL"
  proof -
    have "p_rlnk s t = last_node (Obj n) xs" using rc W by (simp add: rchain_append)
    moreover have "last_node (Obj n) xs \<in> insert (Obj n) (set xs)" by (rule last_node_in)
    ultimately show ?thesis using linv_tcb(3) [OF L, of _ n] W by auto
  qed
  obtain l r where e: "rt_rmv_list t s = Some (s\<lparr>p_lnk := l, p_rlnk := r\<rparr>)"
    and L1: "linv (s\<lparr>p_lnk := l, p_rlnk := r(t := NULL)\<rparr>) R (W(n := remove1 t (W n))) D (insert t F)"
    using rt_rmv_list_of_wait [OF L t] by blast
  let ?s1 = "s'\<lparr>p_lnk := l, p_rlnk := r(t := NULL)\<rparr>"
  have e': "rt_rmv_list t s' = Some (s'\<lparr>p_lnk := l, p_rlnk := r\<rparr>)"
    using rmv_wait_prio [of t s] tt pr e by (simp add: s'_def)
  have L1': "linv ?s1 R (W(n := remove1 t (W n))) D (insert t F)"
    using linv_prio_floating [OF L1, of t v] by (simp add: s'_def upd_prio_lnk)
  then obtain L2 where p: "rt_put_prio (Obj n) t ?s1 = Some (relink L2 ?s1)"
    and L2: "linv (relink L2 ?s1) R (W(n := ins_prio (prio s') t (remove1 t (W n)))) D (insert t F - {t})"
    using rl_put_prio_wait [OF L1', of t n] ty by (auto simp: s'_def)
  have c1: "chain NULL l (Obj n) (remove1 t (W n))" and n1: "t \<notin> set (remove1 t (W n))"
  proof -
    have "wait_ok ?s1 n ((W(n := remove1 t (W n))) n)" using L1' unfolding linv_def by blast
    then have "wait_ok ?s1 n (remove1 t (W n))" by simp
    then show "chain NULL l (Obj n) (remove1 t (W n))" using ty by (simp add: wait_ok_def s'_def)
    have "distinct (W n)" using wn t chain_distinct by (force simp: wait_ok_def)
    then show "t \<notin> set (remove1 t (W n))" by simp
  qed
  have "rt_put_prio (Obj n) t (?s1\<lparr>p_rlnk := (p_rlnk ?s1)(t := r t)\<rparr>) = rt_put_prio (Obj n) t ?s1"
    using c1 n1 tt by (intro rt_put_prio_stale) auto
  then have "rt_put_prio (Obj n) t (s'\<lparr>p_lnk := l, p_rlnk := r\<rparr>) = Some (relink L2 s')"
    using p by simp
  then have "rt_resort_prio t s' = Some (relink L2 s')"
    using tt pr hd' e' by (simp add: rt_resort_prio_def s'_def)
  moreover have "insert t F - {t} = F" using tt by simp
  ultimately show ?thesis using L2 by auto
qed

end
