(* ===== verification/Rt_Tick.thy ===== *)
theory Rt_Tick
  imports Kernel_Relink
begin

text \<open>
  The tick handler of the delay list, \<open>rt_dec_dly\<close> (\<open>rt_List.c\<close>): one tick takes one off the
  remaining time of every delayed task; the tasks with no time left leave the waiting list they
  are in, if any, and go to the ready list in the order of the delay list.
\<close>

section \<open>One task\<close>

lemma linvz_tcb:
  assumes "linvz s R W D F"
  shows "t \<in> set R \<Longrightarrow> is_tcb t" and "t \<in> F \<Longrightarrow> is_tcb t" and "t \<in> set (W n) \<Longrightarrow> is_tcb t"
  using assms by (auto simp: linvz_def disj_ok_def)

lemma linvz_distinct_wait: "linvz s R W D F \<Longrightarrow> distinct (W n)"
  using chain_distinct [of NULL "p_lnk s" "Obj n" "W n"] by (force simp: linvz_def wait_ok_def)

lemma linvz_lnk_floating:
  assumes L: "linvz s R W D F" and t: "t \<in> F"
  shows "linvz (s\<lparr>p_lnk := (p_lnk s)(t := v)\<rparr>) R W D F"
proof -
  have dj: "disj_ok R W F" using L by (simp add: linvz_def)
  have tt: "is_tcb t" using linvz_tcb(2) [OF L t] .
  have n: "t \<notin> set R" "t \<notin> set (W n)" for n using dj t by (auto simp: disj_ok_def)
  have "rdy_ok (s\<lparr>p_lnk := (p_lnk s)(t := v)\<rparr>) R" using L n(1) tt by (simp add: linvz_def rdy_ok_def)
  moreover have "wait_ok (s\<lparr>p_lnk := (p_lnk s)(t := v)\<rparr>) n (W n)" for n
  proof -
    have "wait_ok s n (W n)" using L by (simp add: linvz_def)
    then show ?thesis using n(2) [of n] tt by (simp add: wait_ok_def)
  qed
  ultimately show ?thesis using L by (simp add: linvz_def own_ok_def dly_links_def)
qed

lemma lnk_inject:
  "s\<lparr>p_lnk := l, p_rlnk := r\<rparr> = s\<lparr>p_lnk := l', p_rlnk := r'\<rparr> \<longleftrightarrow> l = l' \<and> r = r'"
  by (cases s) auto

lemma remove1_one_list:
  assumes "disj_ok R W F" and "t \<in> set (W n)"
  shows "W(n := remove1 t (W n)) = (\<lambda>m. remove1 t (W m))"
proof
  fix m
  show "(W(n := remove1 t (W n))) m = remove1 t (W m)"
  proof (cases "m = n")
    case False
    then have "t \<notin> set (W m)" using assms unfolding disj_ok_def by blast
    then show ?thesis using False by (simp add: remove1_idem)
  qed simp
qed

lemma dec_dly_unlink_spec:
  assumes L: "linvz s R W D F" and t: "t \<in> F \<union> (\<Union>n. set (W n))"
  shows "\<exists>l r. dec_dly_unlink t s = Some (s\<lparr>p_lnk := l, p_rlnk := r\<rparr>) \<and>
     linvz (s\<lparr>p_lnk := l, p_rlnk := r\<rparr>) R (\<lambda>n. remove1 t (W n)) D (insert t F)"
proof (cases "t \<in> F")
  case True
  have n: "t \<notin> set (W n)" for n using True L by (auto simp: linvz_def disj_ok_def)
  have "p_rlnk s t = NULL" using True L by (simp add: linvz_def own_ok_def)
  then have e: "dec_dly_unlink t s = Some s" using linvz_tcb(2) [OF L True] by (simp add: dec_dly_unlink_def)
  have "(\<lambda>n. remove1 t (W n)) = W" "insert t F = F" using n True by (auto simp: remove1_idem)
  then show ?thesis using e L by (intro exI [of _ "p_lnk s"] exI [of _ "p_rlnk s"]) simp
next
  case False
  then obtain n where tn: "t \<in> set (W n)" using t by blast
  have tt: "is_tcb t" using linvz_tcb(3) [OF L tn] .
  obtain l r where e: "rt_rmv_list t s = Some (s\<lparr>p_lnk := l, p_rlnk := r\<rparr>)"
    and L1: "linvz (s\<lparr>p_lnk := l, p_rlnk := r(t := NULL)\<rparr>) R (W(n := remove1 t (W n))) D (insert t F)"
    using linvz_rmv_list_of_wait [OF L tn] by blast
  have wn: "wait_ok s n (W n)" using L by (simp add: linvz_def)
  have c: "chain NULL (p_lnk s) (Obj n) (W n)" and rc: "rchain (p_rlnk s) (Obj n) (W n)"
    using wn tn by (auto simp: wait_ok_def)
  obtain xs ys where W: "W n = xs @ t # ys" using tn by (meson split_list)
  have dist: "distinct (xs @ t # ys)" using chain_distinct [OF c] W by simp
  have rt: "p_rlnk s t = last_node (Obj n) xs" using rc W by (simp add: rchain_append)
  have "NULL \<notin> insert (Obj n) (set xs)" "t \<notin> insert (Obj n) (set xs)"
    using linvz_tcb(3) [OF L, of NULL n] W dist tt by auto
  then have rn: "p_rlnk s t \<noteq> NULL" "p_rlnk s t \<noteq> t"
    using rt in_notin_neq [OF last_node_in] by metis+
  define r' where "r' = (if p_lnk s t = NULL then p_rlnk s else (p_rlnk s)(p_lnk s t := p_rlnk s t))"
  have "rt_rmv_list t s = Some (s\<lparr>p_lnk := (p_lnk s)(p_rlnk s t := p_lnk s t), p_rlnk := r'\<rparr>)"
    using rn tt by (simp add: rt_rmv_list_def r'_def)
  then have "l = (p_lnk s)(p_rlnk s t := p_lnk s t)" "r = r'" using e by (simp_all add: lnk_inject)
  then have "dec_dly_unlink t s = Some (s\<lparr>p_lnk := l(t := NULL), p_rlnk := r(t := NULL)\<rparr>)"
    using rn tt by (auto simp: dec_dly_unlink_def r'_def lnk_inject fun_upd_idem_iff fun_upd_twist)
  moreover have "linvz (s\<lparr>p_lnk := l(t := NULL), p_rlnk := r(t := NULL)\<rparr>) R (\<lambda>n. remove1 t (W n)) D (insert t F)"
  proof -
    have W1: "W(n := remove1 t (W n)) = (\<lambda>m. remove1 t (W m))"
      using L tn by (intro remove1_one_list [of R W F]) (simp_all add: linvz_def)
    have eq: "s\<lparr>p_rlnk := r(t := NULL), p_lnk := l(t := NULL)\<rparr>
        = s\<lparr>p_lnk := l(t := NULL), p_rlnk := r(t := NULL)\<rparr>" by simp
    have "linvz (s\<lparr>p_rlnk := r(t := NULL), p_lnk := l(t := NULL)\<rparr>) R (\<lambda>m. remove1 t (W m)) D (insert t F)"
      using linvz_lnk_floating [OF L1, of t NULL] unfolding W1 by simp
    then show ?thesis by (simp only: eq)
  qed
  ultimately show ?thesis by blast
qed

text \<open>The head of the delay list, due now, leaves it.\<close>

lemma dec_dly_pop_spec:
  assumes L: "linvz s R W ((t, 0) # D) F"
  shows "\<exists>dl bl dt. dec_dly_pop t s =
       Some (s\<lparr>state := (state s)(t := READY), p_dlnk := dl, p_blnk := bl, delta_time := dt\<rparr>) \<and>
     linvz (s\<lparr>state := (state s)(t := READY), p_dlnk := dl, p_blnk := bl, delta_time := dt\<rparr>) R W D F \<and>
     (state s t = WAIT_ITV \<longrightarrow> dt t = interval_time s t + ucast (os_time s)) \<and>
     (\<forall>x. x \<noteq> t \<longrightarrow> x \<noteq> Dly \<longrightarrow> dt x = delta_time s x)"
proof -
  have dl: "dly_links s ((t, 0) # D)" and tk: "\<forall>(t, k)\<in>set D. is_tcb t \<and> k < 65535" and tt: "is_tcb t"
    using L by (auto simp: linvz_def)
  have c: "chain NULL (p_dlnk s) Dly (t # map fst D)" and rc: "rchain (p_blnk s) Dly (t # map fst D)"
    and de: "deltas (delta_time s) 0 t D" and z: "delta_time s (last_node t (map fst D)) = 0"
    using dl by (simp_all add: dly_links_def)
  have dist: "t \<notin> fst ` set D" "Dly \<notin> fst ` set D" "distinct (map fst D)"
    using chain_distinct [OF c] by auto
  define dt where "dt = (if state s t = WAIT_ITV
    then (delta_time s)(Dly := delta_time s t, t := interval_time s t + ucast (os_time s))
    else (delta_time s)(Dly := delta_time s t))"
  have D2: "deltas dt 0 Dly D"
  proof (cases D)
    case (Cons x D')
    obtain u k where x: "x = (u, k)" by (cases x)
    have "deltas dt k u D' = deltas (delta_time s) k u D'"
    proof (rule deltas_cong)
      fix y assume "y \<in> insert u (fst ` set D')"
      then have y: "y \<in> fst ` set D" using Cons x by auto
      have "y \<noteq> t" "y \<noteq> Dly" using in_notin_neq [OF y] dist by blast+
      then show "dt y = delta_time s y" by (simp add: dt_def)
    qed
    moreover have "dt Dly = delta_time s t" using tt by (simp add: dt_def)
    ultimately show ?thesis using de Cons x by auto
  qed simp
  have z2: "dt (last_node Dly (map fst D)) = 0"
  proof (cases D)
    case Nil
    then show ?thesis using z tt by (simp add: dt_def)
  next
    case (Cons x D')
    have "last_node (fst x) (map fst D') \<in> fst ` set D"
      using last_node_in [of "fst x" "map fst D'"] Cons by auto
    then have "last_node (fst x) (map fst D') \<noteq> t" "last_node (fst x) (map fst D') \<noteq> Dly"
      using dist in_notin_neq by metis+
    then show ?thesis using z Cons by (simp add: dt_def)
  qed
  have fr: "\<forall>x. x \<noteq> t \<longrightarrow> x \<noteq> Dly \<longrightarrow> dt x = delta_time s x" by (simp add: dt_def)
  have wi: "state s t = WAIT_ITV \<longrightarrow> dt t = interval_time s t + ucast (os_time s)" by (simp add: dt_def)
  have main: "linvz (s\<lparr>state := (state s)(t := READY), p_dlnk := dl, p_blnk := bl, delta_time := dt\<rparr>) R W D F"
    if "chain NULL dl Dly (map fst D)" "rchain bl Dly (map fst D)" "bl t = NULL"
      and "\<And>x. x \<noteq> t \<Longrightarrow> x \<notin> fst ` set D \<Longrightarrow> bl x = p_blnk s x" for dl bl
  proof -
    have "dly_links (s\<lparr>state := (state s)(t := READY), p_dlnk := dl, p_blnk := bl, delta_time := dt\<rparr>) D"
      using that D2 z2 by (simp add: dly_links_def)
    moreover have "bl x = NULL" if x: "x \<in> set R \<union> F \<union> (\<Union>n. set (W n))" "x \<notin> fst ` set D" for x
    proof (cases "x = t")
      case False
      then have "bl x = p_blnk s x" using that(2) \<open>\<And>x. x \<noteq> t \<Longrightarrow> x \<notin> fst ` set D \<Longrightarrow> bl x = p_blnk s x\<close> by simp
      moreover have "x \<notin> fst ` set ((t, 0) # D)" using x(2) False by simp
      ultimately show ?thesis using L x(1) unfolding linvz_def own_ok_def by auto
    qed (use \<open>bl t = NULL\<close> in simp)
    ultimately show ?thesis using L tk unfolding linvz_def own_ok_def rdy_ok_def wait_ok_def by simp
  qed
  show ?thesis
  proof (cases D)
    case Nil
    then have "p_dlnk s t = NULL" using c by simp
    then have "dec_dly_pop t s = Some (s\<lparr>state := (state s)(t := READY), p_dlnk := (p_dlnk s)(Dly := NULL),
        p_blnk := (p_blnk s)(t := NULL), delta_time := dt\<rparr>)"
      using tt by (simp add: dec_dly_pop_def dt_def)
    moreover have "linvz (s\<lparr>state := (state s)(t := READY), p_dlnk := (p_dlnk s)(Dly := NULL),
        p_blnk := (p_blnk s)(t := NULL), delta_time := dt\<rparr>) R W D F"
      using Nil by (intro main) auto
    ultimately show ?thesis using fr wi by blast
  next
    case (Cons x D')
    obtain u k where x: "x = (u, k)" by (cases x)
    have u: "p_dlnk s t = u" "u \<noteq> NULL" "u \<noteq> t" "u \<noteq> Dly" using c Cons x dist by auto
    define dl where "dl = (p_dlnk s)(Dly := u, t := NULL)"
    define bl where "bl = (p_blnk s)(u := Dly, t := NULL)"
    have "dec_dly_pop t s = Some (s\<lparr>state := (state s)(t := READY), p_dlnk := dl, p_blnk := bl, delta_time := dt\<rparr>)"
      using tt u by (simp add: dec_dly_pop_def dt_def dl_def bl_def)
    moreover have "chain NULL dl Dly (map fst D)"
      using chain_remove [of NULL "p_dlnk s" Dly "[]" t "map fst D"] c dist tt u by (simp add: dl_def)
    moreover have "rchain bl Dly (map fst D)" using rc Cons x dist by (auto simp: bl_def)
    ultimately show ?thesis
      using fr wi Cons x by (intro exI [of _ dl] exI [of _ bl] exI [of _ dt] conjI main) (auto simp: bl_def)
  qed
qed

section \<open>One round, and the whole loop\<close>

lemma linvz_relink_frame:
  "linvz (relink L (s\<lparr>state := st\<rparr>)) R W D F = linvz (relink L s) R W D F"
  by (cases L) (simp add: relink_eq linvz_def rdy_ok_def wait_ok_def own_ok_def dly_links_def)

lemma dec_dly_body_spec:
  assumes L: "linvz s R W ((t, 0) # D) F" and t: "t \<notin> set R"
  shows "\<exists>L. dec_dly_body s = Some (relink L (s\<lparr>state := (state s)(t := READY)\<rparr>)) \<and>
     linvz (relink L (s\<lparr>state := (state s)(t := READY)\<rparr>))
       (ins_prio (prio s) t R) (\<lambda>n. remove1 t (W n)) D (F - {t}) \<and>
     (state s t = WAIT_ITV \<longrightarrow> l_delta L t = interval_time s t + ucast (os_time s)) \<and>
     (\<forall>x. x \<noteq> t \<longrightarrow> x \<noteq> Dly \<longrightarrow> l_delta L x = delta_time s x)"
proof -
  have hd: "p_dlnk s Dly = t" using L by (simp add: linvz_def dly_links_def)
  have tf: "t \<in> F \<union> (\<Union>n. set (W n))" using L t by (auto simp: linvz_def own_ok_def)
  obtain l r where e1: "dec_dly_unlink t s = Some (s\<lparr>p_lnk := l, p_rlnk := r\<rparr>)"
    and L1: "linvz (s\<lparr>p_lnk := l, p_rlnk := r\<rparr>) R (\<lambda>n. remove1 t (W n)) ((t, 0) # D) (insert t F)"
    using dec_dly_unlink_spec [OF L tf] by blast
  obtain l2 r2 where e2: "rt_put_prio Rdy t (s\<lparr>p_lnk := l, p_rlnk := r\<rparr>) = Some (s\<lparr>p_lnk := l2, p_rlnk := r2\<rparr>)"
    and L2: "linvz (s\<lparr>p_lnk := l2, p_rlnk := r2\<rparr>) (ins_prio (prio s) t R) (\<lambda>n. remove1 t (W n)) ((t, 0) # D) (insert t F - {t})"
    using linvz_put_prio_rdy [OF L1, of t] by auto
  let ?s2 = "s\<lparr>p_lnk := l2, p_rlnk := r2\<rparr>"
  obtain dl bl dt where e3: "dec_dly_pop t ?s2 =
       Some (?s2\<lparr>state := (state ?s2)(t := READY), p_dlnk := dl, p_blnk := bl, delta_time := dt\<rparr>)"
    and L3: "linvz (?s2\<lparr>state := (state ?s2)(t := READY), p_dlnk := dl, p_blnk := bl, delta_time := dt\<rparr>)
       (ins_prio (prio s) t R) (\<lambda>n. remove1 t (W n)) D (insert t F - {t})"
    and wi: "state ?s2 t = WAIT_ITV \<longrightarrow> dt t = interval_time ?s2 t + ucast (os_time ?s2)"
    and fr: "\<forall>x. x \<noteq> t \<longrightarrow> x \<noteq> Dly \<longrightarrow> dt x = delta_time ?s2 x"
    using dec_dly_pop_spec [OF L2] by blast
  let ?L = "Links l2 r2 dl bl dt"
  have eq: "?s2\<lparr>state := (state ?s2)(t := READY), p_dlnk := dl, p_blnk := bl, delta_time := dt\<rparr>
      = relink ?L (s\<lparr>state := (state s)(t := READY)\<rparr>)" by (simp add: relink_eq)
  have F: "insert t F - {t} = F - {t}" by blast
  have "dec_dly_body s = Some (relink ?L (s\<lparr>state := (state s)(t := READY)\<rparr>))"
    using hd e1 e2 e3 unfolding eq by (simp add: dec_dly_body_def)
  moreover have "linvz (relink ?L (s\<lparr>state := (state s)(t := READY)\<rparr>))
       (ins_prio (prio s) t R) (\<lambda>n. remove1 t (W n)) D (F - {t})"
    using L3 unfolding eq F .
  ultimately show ?thesis using wi fr by (intro exI [of _ ?L]) simp
qed

text \<open>The tasks that are due, and the effect of waking them.\<close>

definition due :: "(ptr \<times> nat) list \<Rightarrow> ptr list" where
  "due D = map fst (takeWhile (\<lambda>x. snd x = 0) D)"

definition not_due :: "(ptr \<times> nat) list \<Rightarrow> (ptr \<times> nat) list" where
  "not_due D = dropWhile (\<lambda>x. snd x = 0) D"

lemma due_simps [simp]:
  "due [] = []"
  "due ((t, 0) # D) = t # due D"
  "due ((t, Suc k) # D) = []"
  "not_due [] = []"
  "not_due ((t, 0) # D) = not_due D"
  "not_due ((t, Suc k) # D) = (t, Suc k) # D"
  by (simp_all add: due_def not_due_def)

lemma set_due: "set (due D) \<subseteq> fst ` set D"
  by (auto simp: due_def dest: set_takeWhileD)

definition wake_rdy :: "(ptr \<Rightarrow> u8) \<Rightarrow> ptr list \<Rightarrow> ptr list \<Rightarrow> ptr list" where
  "wake_rdy pr ts R = fold (ins_prio pr) ts R"

definition wake_wait :: "ptr list \<Rightarrow> (nat \<Rightarrow> ptr list) \<Rightarrow> nat \<Rightarrow> ptr list" where
  "wake_wait ts W = (\<lambda>n. filter (\<lambda>t. t \<notin> set ts) (W n))"

definition wake_state :: "ptr list \<Rightarrow> (ptr \<Rightarrow> tstate) \<Rightarrow> ptr \<Rightarrow> tstate" where
  "wake_state ts st = (\<lambda>t. if t \<in> set ts then READY else st t)"

lemma set_wake_rdy [simp]: "set (wake_rdy pr ts R) = set ts \<union> set R"
  unfolding wake_rdy_def by (induction ts arbitrary: R) auto

lemma wake_simps:
  "wake_rdy pr [] R = R" "wake_wait [] W = W" "wake_state [] st = st"
  "wake_rdy pr (t # ts) R = wake_rdy pr ts (ins_prio pr t R)"
  "wake_state (t # ts) st = wake_state ts (st(t := READY))"
  by (auto simp: wake_rdy_def wake_wait_def wake_state_def)

lemma wake_wait_Cons:
  "(\<And>n. distinct (W n)) \<Longrightarrow> wake_wait (t # ts) W = wake_wait ts (\<lambda>n. remove1 t (W n))"
  by (auto simp: wake_wait_def distinct_remove1_removeAll removeAll_filter_not_eq intro!: ext filter_cong)

lemma dec_dly_loop_spec:
  assumes "linvz s R W D F" and "set R \<inter> fst ` set D = {}"
  shows "\<exists>L. dec_dly_loop s = Some (relink L (s\<lparr>state := wake_state (due D) (state s)\<rparr>)) \<and>
     linvz (relink L (s\<lparr>state := wake_state (due D) (state s)\<rparr>))
       (wake_rdy (prio s) (due D) R) (wake_wait (due D) W) (not_due D) (F - set (due D)) \<and>
     (\<forall>t\<in>set (due D). state s t = WAIT_ITV \<longrightarrow> l_delta L t = interval_time s t + ucast (os_time s)) \<and>
     (\<forall>x. x \<notin> fst ` set D \<longrightarrow> x \<noteq> Dly \<longrightarrow> l_delta L x = delta_time s x)"
  using assms
proof (induction D arbitrary: s R W F)
  case Nil
  then have "p_dlnk s Dly = NULL" by (simp add: linvz_def dly_links_def)
  then have "dec_dly_loop s = Some s" by (subst dec_dly_loop.simps) simp
  then show ?case using Nil
    by (intro exI [of _ "Links (p_lnk s) (p_rlnk s) (p_dlnk s) (p_blnk s) (delta_time s)"])
      (simp add: relink_eq wake_simps)
next
  case (Cons x D)
  obtain t k where x: "x = (t, k)" by (cases x)
  have dt: "k = unat (delta_time s Dly)" and nn: "p_dlnk s Dly \<noteq> NULL"
    using Cons.prems x by (auto simp: linvz_def dly_links_def)
  show ?case
  proof (cases k)
    case (Suc m)
    then have "delta_time s Dly \<noteq> 0" using dt by auto
    then have "dec_dly_loop s = Some s" by (subst dec_dly_loop.simps) simp
    then show ?thesis using Cons.prems Suc x
      by (intro exI [of _ "Links (p_lnk s) (p_rlnk s) (p_dlnk s) (p_blnk s) (delta_time s)"])
        (simp add: relink_eq wake_simps)
  next
    case 0
    then have z: "delta_time s Dly = 0" using dt by (simp add: unat_eq_0)
    have Lt: "linvz s R W ((t, 0) # D) F" using Cons.prems x 0 by simp
    have tR: "t \<notin> set R" "set R \<inter> fst ` set D = {}" using Cons.prems x by auto
    have dist: "t \<notin> fst ` set D"
      using Lt chain_distinct [of NULL "p_dlnk s" Dly "t # map fst D"] by (simp add: linvz_def dly_links_def)
    let ?s1 = "s\<lparr>state := (state s)(t := READY)\<rparr>"
    obtain L1 where e1: "dec_dly_body s = Some (relink L1 ?s1)"
      and L1: "linvz (relink L1 ?s1) (ins_prio (prio s) t R) (\<lambda>n. remove1 t (W n)) D (F - {t})"
      and wi1: "state s t = WAIT_ITV \<longrightarrow> l_delta L1 t = interval_time s t + ucast (os_time s)"
      and fr1: "\<forall>x. x \<noteq> t \<longrightarrow> x \<noteq> Dly \<longrightarrow> l_delta L1 x = delta_time s x"
      using dec_dly_body_spec [OF Lt tR(1)] by blast
    have dj: "set (ins_prio (prio s) t R) \<inter> fst ` set D = {}" using tR(2) dist by simp
    obtain L2 where e2: "dec_dly_loop (relink L1 ?s1) =
        Some (relink L2 ((relink L1 ?s1)\<lparr>state := wake_state (due D) (state (relink L1 ?s1))\<rparr>))"
      and L2: "linvz (relink L2 ((relink L1 ?s1)\<lparr>state := wake_state (due D) (state (relink L1 ?s1))\<rparr>))
        (wake_rdy (prio (relink L1 ?s1)) (due D) (ins_prio (prio s) t R))
        (wake_wait (due D) (\<lambda>n. remove1 t (W n))) (not_due D) (F - {t} - set (due D))"
      and wi2: "\<forall>u\<in>set (due D). state (relink L1 ?s1) u = WAIT_ITV \<longrightarrow>
        l_delta L2 u = interval_time (relink L1 ?s1) u + ucast (os_time (relink L1 ?s1))"
      and fr2: "\<forall>x. x \<notin> fst ` set D \<longrightarrow> x \<noteq> Dly \<longrightarrow> l_delta L2 x = delta_time (relink L1 ?s1) x"
      using Cons.IH [OF L1 dj] by blast
    have WW: "wake_wait (due D) (\<lambda>n. remove1 t (W n)) = wake_wait (t # due D) W"
      by (intro wake_wait_Cons [symmetric]) (rule linvz_distinct_wait [OF Lt])
    have FF: "F - {t} - set (due D) = F - set (t # due D)" by auto
    have tD: "is_tcb t" using Lt by (simp add: linvz_def)
    have "dec_dly_loop s = Some (relink L2 (s\<lparr>state := wake_state (t # due D) (state s)\<rparr>))"
      using z nn e1 e2 by (subst dec_dly_loop.simps) (simp add: wake_simps)
    moreover have "linvz (relink L2 (s\<lparr>state := wake_state (t # due D) (state s)\<rparr>))
        (wake_rdy (prio s) (t # due D) R) (wake_wait (t # due D) W) (not_due D) (F - set (t # due D))"
      using L2 unfolding WW FF by (simp add: wake_simps)
    moreover have "l_delta L2 u = interval_time s u + ucast (os_time s)"
      if "u \<in> set (t # due D)" "state s u = WAIT_ITV" for u
    proof (cases "u = t")
      case True
      then show ?thesis using fr2 wi1 that dist tD by simp
    next
      case False
      then show ?thesis using wi2 that by simp
    qed
    moreover have "l_delta L2 y = delta_time s y" if "y \<notin> fst ` set (x # D)" "y \<noteq> Dly" for y
      using fr1 fr2 that x by simp
    ultimately show ?thesis using x 0 by (intro exI [of _ L2]) simp
  qed
qed

section \<open>The tick\<close>

definition tick1 :: "(ptr \<times> nat) list \<Rightarrow> (ptr \<times> nat) list" where
  "tick1 D = map (\<lambda>(t, k). (t, k - 1)) D"

lemma fst_tick1 [simp]: "map fst (tick1 D) = map fst D" "fst ` set (tick1 D) = fst ` set D"
  by (force simp: tick1_def)+

lemma tick1_simps [simp]:
  "tick1 [] = []" "tick1 ((t, k) # D) = (t, k - 1) # tick1 D"
  by (simp_all add: tick1_def)

lemma deltas_tick1:
  "\<forall>x\<in>set D. b < snd x \<Longrightarrow> deltas dt b h D \<Longrightarrow> h \<notin> fst ` set D \<Longrightarrow> 0 < unat (dt h) \<or> D = [] \<Longrightarrow>
     deltas (dt(h := dt h - 1)) b h (tick1 D)"
proof (cases D)
  case (Cons x D')
  assume a: "\<forall>x\<in>set D. b < snd x" "deltas dt b h D" "h \<notin> fst ` set D" "0 < unat (dt h) \<or> D = []"
  obtain t k where x: "x = (t, k)" by (cases x)
  have k: "k = b + unat (dt h)" "0 < unat (dt h)" using a x Cons by auto
  have shift: "deltas dt j u E \<Longrightarrow> 0 < j \<Longrightarrow> deltas dt (j - 1) u (tick1 E)" for j u E
    by (induction E arbitrary: j u) auto
  have "unat (dt h - 1) = unat (dt h) - 1" using k(2) by (simp add: unat_minus_one unat_gt_0)
  moreover have "deltas dt (k - 1) t (tick1 D')" using a Cons x k by (intro shift) auto
  then have "deltas (dt(h := dt h - 1)) (k - 1) t (tick1 D')"
    using a Cons x by simp
  ultimately show ?thesis using Cons x k by (simp del: fun_upd_apply add: fun_upd_same)
qed simp

lemma not_due_pos: "sorted (map snd D) \<Longrightarrow> (t, k) \<in> set (not_due D) \<Longrightarrow> 0 < k"
proof (induction D)
  case (Cons x D)
  obtain u j where x: "x = (u, j)" by (cases x)
  show ?case using Cons x by (cases j) auto
qed simp

lemma set_not_due: "set (not_due D) \<subseteq> set D"
  by (auto simp: not_due_def dest: set_dropWhileD)

lemma set_due_sorted: "sorted (map snd D) \<Longrightarrow> t \<in> set (due D) \<longleftrightarrow> (t, 0) \<in> set D"
proof (induction D)
  case (Cons x D)
  obtain u j where x: "x = (u, j)" by (cases x)
  show ?case using Cons x by (cases j) auto
qed simp

text \<open>One tick of the delay list, as a function on the abstract lists.\<close>

definition woken :: "(ptr \<times> nat) list \<Rightarrow> ptr list" where
  "woken D = due (tick1 D)"

definition tick_dly :: "(ptr \<times> nat) list \<Rightarrow> (ptr \<times> nat) list" where
  "tick_dly D = not_due (tick1 D)"

lemma sorted_tick1: "sorted (map snd D) \<Longrightarrow> sorted (map snd (tick1 D))"
  by (induction D) (auto simp: tick1_def intro: diff_le_mono)

lemma woken_iff:
  assumes "dly_list s D"
  shows "t \<in> set (woken D) \<longleftrightarrow> (t, 1) \<in> set D"
proof -
  have so: "sorted (map snd D)" using assms deltas_sorted by (auto simp: dly_list_def dly_links_def)
  have pos: "\<forall>(t, k)\<in>set D. 0 < k" using assms by (auto simp: dly_list_def)
  have "t \<in> set (woken D) \<longleftrightarrow> (t, 0) \<in> set (tick1 D)"
    unfolding woken_def by (rule set_due_sorted [OF sorted_tick1 [OF so]])
  also have "\<dots> \<longleftrightarrow> (t, 1) \<in> set D"
  proof
    assume "(t, 0) \<in> set (tick1 D)"
    then obtain k where k: "(t, k) \<in> set D" "k - 1 = 0" by (auto simp: tick1_def)
    then have "k = 1" using pos by fastforce
    with k show "(t, 1) \<in> set D" by simp
  next
    assume "(t, 1) \<in> set D"
    then have "(\<lambda>(t, k). (t, k - 1)) (t, 1) \<in> set (tick1 D)" unfolding tick1_def set_map by (rule imageI)
    then show "(t, 0) \<in> set (tick1 D)" by simp
  qed
  finally show ?thesis .
qed

lemma set_not_due_sorted:
  "sorted (map snd D) \<Longrightarrow> set (not_due D) = {x \<in> set D. snd x \<noteq> 0}"
proof (induction D)
  case (Cons x D)
  then show ?case by (cases "snd x") (auto simp: not_due_def)
qed (simp add: not_due_def)

lemma tick_dly_iff:
  assumes "dly_list s D"
  shows "(t, k) \<in> set (tick_dly D) \<longleftrightarrow> 0 < k \<and> (t, k + 1) \<in> set D"
proof -
  have so: "sorted (map snd D)" using assms deltas_sorted by (auto simp: dly_list_def dly_links_def)
  have "(t, k) \<in> set (tick_dly D) \<longleftrightarrow> (t, k) \<in> set (tick1 D) \<and> k \<noteq> 0"
    unfolding tick_dly_def set_not_due_sorted [OF sorted_tick1 [OF so]] by simp
  also have "\<dots> \<longleftrightarrow> 0 < k \<and> (t, k + 1) \<in> set D"
  proof
    assume "(t, k) \<in> set (tick1 D) \<and> k \<noteq> 0"
    then obtain j where "(t, j) \<in> set D" "j - 1 = k" "k \<noteq> 0" by (auto simp: tick1_def)
    moreover from this have "j = k + 1" by simp
    ultimately show "0 < k \<and> (t, k + 1) \<in> set D" by simp
  next
    assume *: "0 < k \<and> (t, k + 1) \<in> set D"
    then have "(\<lambda>(t, k). (t, k - 1)) (t, k + 1) \<in> set (tick1 D)" unfolding tick1_def set_map by blast
    with * show "(t, k) \<in> set (tick1 D) \<and> k \<noteq> 0" by simp
  qed
  finally show ?thesis .
qed

lemma woken_subset: "set (woken D) \<subseteq> fst ` set D"
  using set_due [of "tick1 D"] by (simp add: woken_def)

lemma tick_dly_subset: "fst ` set (tick_dly D) \<subseteq> fst ` set D"
  using image_mono [OF set_not_due [of "tick1 D"], of fst] by (simp add: tick_dly_def)

lemma rt_dec_dly_spec:
  assumes L: "linv s R W D F" and dj: "set R \<inter> fst ` set D = {}"
  shows "\<exists>L. rt_dec_dly s = Some (relink L (s\<lparr>state := wake_state (woken D) (state s)\<rparr>)) \<and>
     linv (relink L (s\<lparr>state := wake_state (woken D) (state s)\<rparr>))
       (wake_rdy (prio s) (woken D) R) (wake_wait (woken D) W) (tick_dly D) (F - set (woken D)) \<and>
     (\<forall>t\<in>set (woken D). state s t = WAIT_ITV \<longrightarrow> l_delta L t = interval_time s t + ucast (os_time s)) \<and>
     (\<forall>x. x \<notin> fst ` set D \<longrightarrow> x \<noteq> Dly \<longrightarrow> l_delta L x = delta_time s x)"
proof (cases D)
  case Nil
  then have "p_dlnk s Dly = NULL" using L by (simp add: linv_def dly_list_def dly_links_def)
  then have "rt_dec_dly s = Some s" by (simp add: rt_dec_dly_def)
  then show ?thesis using L Nil
    by (intro exI [of _ "Links (p_lnk s) (p_rlnk s) (p_dlnk s) (p_blnk s) (delta_time s)"])
      (simp add: relink_eq wake_simps woken_def tick_dly_def)
next
  case (Cons x D')
  have dl: "dly_list s D" using L by (simp add: linv_def)
  then have lk: "dly_links s D" and pos: "\<forall>(t, k)\<in>set D. is_tcb t \<and> 0 < k \<and> k < 65535"
    by (auto simp: dly_list_def)
  have nn: "p_dlnk s Dly \<noteq> NULL" using lk Cons by (auto simp: dly_links_def)
  have "chain NULL (p_dlnk s) Dly (map fst D)" using lk by (simp add: dly_links_def)
  then have "Dly \<notin> set (map fst D)" by (rule chain_head_notin)
  then have hd: "Dly \<notin> fst ` set D" by simp
  let ?s1 = "s\<lparr>delta_time := (delta_time s)(Dly := delta_time s Dly - 1)\<rparr>"
  have d1: "deltas ((delta_time s)(Dly := delta_time s Dly - 1)) 0 Dly (tick1 D)"
    using lk pos hd Cons by (intro deltas_tick1) (auto simp: dly_links_def)
  have "last_node (fst x) (map fst D') \<in> fst ` set D"
    using last_node_in [of "fst x" "map fst D'"] Cons by auto
  then have "last_node (fst x) (map fst D') \<noteq> Dly" using in_notin_neq hd by metis
  then have z: "((delta_time s)(Dly := delta_time s Dly - 1)) (last_node Dly (map fst D)) = 0"
    using lk Cons by (simp add: dly_links_def)
  have so: "sorted (map snd (tick1 D))"
    using lk by (intro sorted_tick1) (auto simp: dly_links_def intro: deltas_sorted)
  have lz: "linvz ?s1 R W (tick1 D) F"
    unfolding linvz_def
  proof (intro conjI)
    show "dly_links ?s1 (tick1 D)" using lk d1 z by (simp add: dly_links_def)
    show "\<forall>(t, k)\<in>set (tick1 D). is_tcb t \<and> k < 65535" using pos by (fastforce simp: tick1_def)
    show "own_ok ?s1 R W (tick1 D) F" using L by (simp add: linv_def own_ok_def)
  qed (use L in \<open>simp_all add: linv_def rdy_ok_def wait_ok_def\<close>)
  have dj1: "set R \<inter> fst ` set (tick1 D) = {}" using dj by simp
  obtain L1 where e: "dec_dly_loop ?s1 = Some (relink L1 (?s1\<lparr>state := wake_state (due (tick1 D)) (state ?s1)\<rparr>))"
    and L1: "linvz (relink L1 (?s1\<lparr>state := wake_state (due (tick1 D)) (state ?s1)\<rparr>))
       (wake_rdy (prio ?s1) (due (tick1 D)) R) (wake_wait (due (tick1 D)) W) (not_due (tick1 D))
       (F - set (due (tick1 D)))"
    and wi: "\<forall>t\<in>set (due (tick1 D)). state ?s1 t = WAIT_ITV \<longrightarrow>
       l_delta L1 t = interval_time ?s1 t + ucast (os_time ?s1)"
    and fr: "\<forall>x. x \<notin> fst ` set (tick1 D) \<longrightarrow> x \<noteq> Dly \<longrightarrow> l_delta L1 x = delta_time ?s1 x"
    using dec_dly_loop_spec [OF lz dj1] by blast
  have eq: "relink L1 (?s1\<lparr>state := st\<rparr>) = relink L1 (s\<lparr>state := st\<rparr>)" for st
    by (simp add: relink_eq)
  have "rt_dec_dly s = Some (relink L1 (s\<lparr>state := wake_state (woken D) (state s)\<rparr>))"
    using nn e by (simp add: rt_dec_dly_def woken_def eq)
  moreover have "linv (relink L1 (s\<lparr>state := wake_state (woken D) (state s)\<rparr>))
       (wake_rdy (prio s) (woken D) R) (wake_wait (woken D) W) (tick_dly D) (F - set (woken D))"
    using L1 not_due_pos [OF so] unfolding linv_linvz woken_def tick_dly_def eq by auto
  ultimately show ?thesis using wi fr by (intro exI [of _ L1]) (simp add: woken_def)
qed

end
