(* ===== verification/Rt_Task.thy ===== *)
theory Rt_Task
  imports Rt_Tick
begin

text \<open>
  Tasks (\<open>rt_Task.c\<close>, and \<open>rt_init_stack\<close> of \<open>HAL_CM.c\<close>): creation of a task context,
  dispatching, blocking, yielding, change of priority and deletion, and the start of the system.
  Then what dispatching and blocking do to the lists of the ownership invariant.
\<close>

section \<open>Operations\<close>

definition os_maxtaskrun :: nat where
  "os_maxtaskrun = 15"

text \<open>Access to \<open>os_active_TCB\<close> by index; outside of the array it is undefined.\<close>

definition act_get :: "u32 \<Rightarrow> os \<Rightarrow> ptr option" where
  "act_get i s = (if unat i < length (os_active_TCB s) then Some (os_active_TCB s ! unat i) else None)"

definition act_set :: "u32 \<Rightarrow> ptr \<Rightarrow> os \<Rightarrow> os option" where
  "act_set i p s =
     (if unat i < length (os_active_TCB s)
      then Some (s\<lparr>os_active_TCB := (os_active_TCB s)[unat i := p]\<rparr>) else None)"

text \<open>The loop of \<open>rt_get_TID\<close> over the slots that are left, the first of them for \<open>tid\<close>.\<close>

fun get_TID_loop :: "u32 \<Rightarrow> ptr list \<Rightarrow> u32" where
  "get_TID_loop tid [] = 0"
| "get_TID_loop tid (p # ps) = (if p = NULL then tid else get_TID_loop (tid + 1) ps)"

definition rt_get_TID :: "os \<Rightarrow> u32" where
  "rt_get_TID s = get_TID_loop 1 (os_active_TCB s)"

definition INITIAL_xPSR :: u32 where "INITIAL_xPSR = 0x01000000"
definition MAGIC_WORD :: u32 where "MAGIC_WORD = 0xE25A2EA5"

text \<open>\<open>for (i = 0; i < n; i++) stk[i] = 0\<close>\<close>

fun clr_words :: "nat \<Rightarrow> u32 \<Rightarrow> (u32 \<Rightarrow> u32) \<Rightarrow> u32 \<Rightarrow> u32" where
  "clr_words 0 stk m = m"
| "clr_words (Suc n) stk m = clr_words n (stk + 4) (m(stk := 0))"

definition rt_init_stack :: "ptr \<Rightarrow> u32 \<Rightarrow> os \<Rightarrow> os option" where
  "rt_init_stack p_TCB task_body s = do {
     ps \<leftarrow> rd priv_stack p_TCB s;
     base \<leftarrow> rd stack p_TCB s;
     let sz = drop_bit 2 ps;
     let stk = base + 4 * sz;
     let stk = (if stk AND 0x04 \<noteq> 0 then stk - 4 else stk);
     let stk = stk - 4 * 16;
     let m = (mem s)(stk + 4 * 15 := INITIAL_xPSR);
     let m = m(stk + 4 * 14 := task_body);
     let m = clr_words 14 stk m;
     let m = m(stk + 4 * 8 := msg s p_TCB);
     let s = s\<lparr>mem := m\<rparr>;
     s \<leftarrow> wr tsk_stack_update p_TCB stk s;
     s \<leftarrow> wr ptask_update p_TCB task_body s;
     if task_id s p_TCB \<noteq> 0x01 then Some (s\<lparr>mem := (mem s)(stack s p_TCB := MAGIC_WORD)\<rparr>)
     else Some s
   }"

definition rt_init_context :: "ptr \<Rightarrow> u8 \<Rightarrow> u32 \<Rightarrow> os \<Rightarrow> os option" where
  "rt_init_context p_TCB priority task_body s = do {
     s \<leftarrow> wr cb_type_update p_TCB TCB s;
     s \<leftarrow> wr state_update p_TCB READY s;
     s \<leftarrow> wr prio_update p_TCB priority s;
     s \<leftarrow> wr p_lnk_update p_TCB NULL s;
     s \<leftarrow> wr p_rlnk_update p_TCB NULL s;
     s \<leftarrow> wr p_dlnk_update p_TCB NULL s;
     s \<leftarrow> wr p_blnk_update p_TCB NULL s;
     s \<leftarrow> wr delta_time_update p_TCB 0 s;
     s \<leftarrow> wr interval_time_update p_TCB 0 s;
     s \<leftarrow> wr events_update p_TCB 0 s;
     s \<leftarrow> wr waits_update p_TCB 0 s;
     s \<leftarrow> wr stack_frame_update p_TCB 0 s;
     rt_init_stack p_TCB task_body s
   }"

definition rt_switch_req :: "ptr \<Rightarrow> os \<Rightarrow> os option" where
  "rt_switch_req p_new s = wr state_update p_new RUNNING (s\<lparr>new_tsk := p_new\<rparr>)"

definition rt_dispatch :: "ptr \<Rightarrow> os \<Rightarrow> os option" where
  "rt_dispatch next_TCB s =
     (if next_TCB = NULL then do {
        (next_TCB, s) \<leftarrow> rt_get_first Rdy s;
        rt_switch_req next_TCB s
      }
      else do {
        pr \<leftarrow> rd prio (run s) s;
        if pr < prio s next_TCB then do {
          s \<leftarrow> rt_put_rdy_first (run s) s;
          s \<leftarrow> wr state_update (run s) READY s;
          rt_switch_req next_TCB s
        }
        else do {
          s \<leftarrow> wr state_update next_TCB READY s;
          rt_put_prio Rdy next_TCB s
        }
      })"

definition rt_block :: "u16 \<Rightarrow> tstate \<Rightarrow> os \<Rightarrow> os option" where
  "rt_block timeout block_state s =
     (if timeout \<noteq> 0 then do {
        s \<leftarrow> (if timeout < 0xffff then rt_put_dly (run s) timeout s else Some s);
        s \<leftarrow> wr state_update (run s) block_state s;
        (next_TCB, s) \<leftarrow> rt_get_first Rdy s;
        rt_switch_req next_TCB s
      }
      else Some s)"

definition rt_tsk_pass :: "os \<Rightarrow> os option" where
  "rt_tsk_pass s = do {
     (p_new, s) \<leftarrow> rt_get_same_rdy_prio s;
     if p_new \<noteq> NULL then do {
       s \<leftarrow> rt_put_prio Rdy (run s) s;
       s \<leftarrow> wr state_update (run s) READY s;
       rt_switch_req p_new s
     }
     else Some s
   }"

definition rt_tsk_self :: "os \<Rightarrow> u32" where
  "rt_tsk_self s = (if run s = NULL then 0 else ucast (task_id s (run s)))"

text \<open>The code at the label \<open>run\<close> of \<open>rt_tsk_prio\<close>.\<close>

definition tsk_prio_run :: "u8 \<Rightarrow> os \<Rightarrow> (u32 \<times> os) option" where
  "tsk_prio_run new_prio s = do {
     pr \<leftarrow> rt_rdy_prio s;
     s \<leftarrow> (if new_prio < pr then do {
             s \<leftarrow> rt_put_prio Rdy (run s) s;
             s \<leftarrow> wr state_update (run s) READY s;
             rt_dispatch NULL s
           } else Some s);
     Some (OS_R_OK, s)
   }"

definition rt_tsk_prio :: "u32 \<Rightarrow> u8 \<Rightarrow> os \<Rightarrow> (u32 \<times> os) option" where
  "rt_tsk_prio tid new_prio s =
     (if tid = 0 then do {
        s \<leftarrow> wr prio_update (run s) new_prio s;
        tsk_prio_run new_prio s
      }
      else if os_maxtaskrun < unat tid then Some (OS_R_NOK, s)
      else do {
        p_task \<leftarrow> act_get (tid - 1) s;
        if p_task = NULL then Some (OS_R_NOK, s)
        else do {
          s \<leftarrow> wr prio_update p_task new_prio s;
          if p_task = run s then tsk_prio_run new_prio s
          else do {
            s \<leftarrow> rt_resort_prio p_task s;
            s \<leftarrow> (if state s p_task = READY then do {
                    (p_task, s) \<leftarrow> rt_get_first Rdy s;
                    rt_dispatch p_task s
                  } else Some s);
            Some (OS_R_OK, s)
          }
        }
      })"

text \<open>The stack check (\<open>rt_System.c\<close>): its reports are commented out, so it only reads.\<close>

definition rt_stk_check :: "os \<Rightarrow> os option" where
  "rt_stk_check s = do {
     _ \<leftarrow> rd task_id (run s) s;
     Some s
   }"

definition rt_tsk_delete :: "u32 \<Rightarrow> os \<Rightarrow> (u32 \<times> os) option" where
  "rt_tsk_delete tid s = do {
     self \<leftarrow> (if tid = 0 then Some True else do {
                i \<leftarrow> rd task_id (run s) s;
                Some (tid = ucast i)
              });
     if self then do {
       s \<leftarrow> wr state_update (run s) INACTIVE s;
       s \<leftarrow> wr tsk_stack_update (run s) (psp s) s;
       s \<leftarrow> rt_stk_check s;
       s \<leftarrow> act_set (ucast (task_id s (run s)) - 1) NULL s;
       s \<leftarrow> wr stack_update (run s) 0 s;
       let s = s\<lparr>run := NULL\<rparr>;
       s \<leftarrow> rt_dispatch NULL s;
       Some (OS_R_OK, s)
     }
     else if os_maxtaskrun < unat tid then Some (OS_R_NOK, s)
     else do {
       p \<leftarrow> act_get (tid - 1) s;
       if p = NULL then Some (OS_R_NOK, s)
       else do {
         s \<leftarrow> rt_rmv_list p s;
         s \<leftarrow> rt_rmv_dly p s;
         s \<leftarrow> act_set (tid - 1) NULL s;
         s \<leftarrow> wr stack_update p 0 s;
         Some (OS_R_OK, s)
       }
     }
   }"

text \<open>
  System start. The addresses of the idle task's code and stack come from the linker and are
  parameters; the write to the interrupt priority registers in \<open>rt_svc_init\<close> has no
  counterpart in the state.
\<close>

definition os_fifo_size :: u8 where "os_fifo_size = 16"
definition os_rrobin :: u32 where "os_rrobin = push_bit 16 1 OR 5"
definition idle_task_stack_size :: u32 where "idle_task_stack_size = 128"

definition rt_init_robin :: "os \<Rightarrow> os" where
  "rt_init_robin s = s\<lparr>robin_task := NULL, robin_tout := ucast os_rrobin\<rparr>"

definition rt_sys_init :: "u32 \<Rightarrow> u32 \<Rightarrow> os \<Rightarrow> os option" where
  "rt_sys_init os_idle_demon idle_task_stack s = do {
     let s = s\<lparr>os_active_TCB := replicate os_maxtaskrun NULL\<rparr>;
     s \<leftarrow> wr task_id_update os_idle_TCB 255 s;
     s \<leftarrow> wr priv_stack_update os_idle_TCB idle_task_stack_size s;
     s \<leftarrow> wr stack_update os_idle_TCB idle_task_stack s;
     s \<leftarrow> rt_init_context os_idle_TCB 0 os_idle_demon s;
     s \<leftarrow> wr cb_type_update Rdy HCB s;
     s \<leftarrow> wr p_lnk_update Rdy NULL s;
     s \<leftarrow> wr cb_type_update Dly HCB s;
     s \<leftarrow> wr p_dlnk_update Dly NULL s;
     s \<leftarrow> wr p_blnk_update Dly NULL s;
     s \<leftarrow> wr delta_time_update Dly 0 s;
     let s = s\<lparr>run := os_idle_TCB\<rparr>;
     s \<leftarrow> wr state_update (run s) RUNNING s;
     let s = s\<lparr>psq_first := 0\<rparr>;
     let s = s\<lparr>psq_last := 0\<rparr>;
     let s = s\<lparr>psq_size := os_fifo_size\<rparr>;
     Some (rt_init_robin s)
   }"

end
