(* ===== verification/Kernel_View.thy ===== *)
theory Kernel_View
  imports Rt_Task
begin

text \<open>
  The abstract scheduler and the refinement relation. A \<open>kview\<close> is what the kernel's lists mean:
  the task that runs, the ready tasks in the order in which they will run, the tasks that wait
  for each object, the tasks with a time-out, and the tasks that wait for events or time only.
  \<open>kabs s v\<close> says that the memory \<open>s\<close> holds the view \<open>v\<close>: the links form the lists, the
  \<open>state\<close> members agree with the lists, the running task has the highest priority, and the
  idle task is runnable. The operations on views are what dispatching and blocking mean; the
  lemmas here show that \<open>rt_dispatch\<close>, \<open>rt_block\<close> and the other parts of \<open>rt_Task.c\<close>
  implement them.
\<close>

section \<open>Views\<close>

record kview =
  cur :: ptr
  rdyq :: "ptr list"
  waitq :: "nat \<Rightarrow> ptr list"
  dlyq :: "(ptr \<times> nat) list"
  parked :: "ptr set"
  prios :: "ptr \<Rightarrow> u8"

definition obj_wait :: "tstate \<Rightarrow> bool" where
  "obj_wait st \<longleftrightarrow> st \<in> {WAIT_SEM, WAIT_MBX, WAIT_MUT}"

definition park_wait :: "tstate \<Rightarrow> bool" where
  "park_wait st \<longleftrightarrow> st \<in> {WAIT_DLY, WAIT_ITV, WAIT_OR, WAIT_AND}"

lemma wait_states [simp]:
  "obj_wait WAIT_SEM" "obj_wait WAIT_MBX" "obj_wait WAIT_MUT"
  "park_wait WAIT_DLY" "park_wait WAIT_ITV" "park_wait WAIT_OR" "park_wait WAIT_AND"
  "\<not> park_wait READY" "\<not> park_wait RUNNING" "\<not> obj_wait READY" "\<not> obj_wait RUNNING"
  by (simp_all add: obj_wait_def park_wait_def)

text \<open>The states of the tasks agree with where they are; \<open>C\<close> are tasks on their way.\<close>

definition styp :: "(ptr \<Rightarrow> tstate) \<Rightarrow> ptr list \<Rightarrow> (nat \<Rightarrow> ptr list) \<Rightarrow> (ptr \<times> nat) list \<Rightarrow> ptr set \<Rightarrow> bool" where
  "styp st R W D P \<longleftrightarrow>
     (\<forall>t\<in>set R. st t = READY \<and> t \<notin> fst ` set D) \<and>
     (\<forall>n. \<forall>t\<in>set (W n). obj_wait (st t)) \<and>
     (\<forall>t\<in>P. park_wait (st t))"

text \<open>\<open>kst H s v\<close>: besides the view there are the live tasks \<open>H\<close>, in no ready or waiting list,
  that an operation is about to put somewhere.\<close>

definition kst :: "ptr set \<Rightarrow> os \<Rightarrow> kview \<Rightarrow> bool" where
  "kst H s v \<longleftrightarrow>
     linv s (rdyq v) (waitq v) (dlyq v) (H \<union> insert (cur v) (parked v)) \<and>
     H \<inter> insert (cur v) (parked v) = {} \<and>
     cur v \<notin> parked v \<and> cur v \<notin> fst ` set (dlyq v) \<and>
     styp (state s) (rdyq v) (waitq v) (dlyq v) (parked v) \<and>
     state s (cur v) = RUNNING \<and> new_tsk s = cur v \<and> prios v = prio s \<and>
     (\<forall>t\<in>set (rdyq v). prio s t \<le> prio s (cur v)) \<and>
     os_idle_TCB \<in> insert (cur v) (set (rdyq v))"

definition kabs :: "os \<Rightarrow> kview \<Rightarrow> bool" where
  "kabs s v \<longleftrightarrow> kst {} s v"

lemma kst_frame [simp]:
  "kst H (s\<lparr>task_id := x0\<rparr>) v = kst H s v"
  "kst H (s\<lparr>interval_time := x1\<rparr>) v = kst H s v"
  "kst H (s\<lparr>events := x2\<rparr>) v = kst H s v"
  "kst H (s\<lparr>waits := x3\<rparr>) v = kst H s v"
  "kst H (s\<lparr>msg := x4\<rparr>) v = kst H s v"
  "kst H (s\<lparr>stack_frame := x5\<rparr>) v = kst H s v"
  "kst H (s\<lparr>priv_stack := x6\<rparr>) v = kst H s v"
  "kst H (s\<lparr>tsk_stack := x7\<rparr>) v = kst H s v"
  "kst H (s\<lparr>stack := x8\<rparr>) v = kst H s v"
  "kst H (s\<lparr>ptask := x9\<rparr>) v = kst H s v"
  "kst H (s\<lparr>tokens := x10\<rparr>) v = kst H s v"
  "kst H (s\<lparr>mut_prio := x11\<rparr>) v = kst H s v"
  "kst H (s\<lparr>mut_level := x12\<rparr>) v = kst H s v"
  "kst H (s\<lparr>mut_owner := x13\<rparr>) v = kst H s v"
  "kst H (s\<lparr>mbx_state := x14\<rparr>) v = kst H s v"
  "kst H (s\<lparr>mbx_isr_st := x15\<rparr>) v = kst H s v"
  "kst H (s\<lparr>mbx_first := x16\<rparr>) v = kst H s v"
  "kst H (s\<lparr>mbx_last := x17\<rparr>) v = kst H s v"
  "kst H (s\<lparr>mbx_count := x18\<rparr>) v = kst H s v"
  "kst H (s\<lparr>mbx_size := x19\<rparr>) v = kst H s v"
  "kst H (s\<lparr>mbx_msg := x20\<rparr>) v = kst H s v"
  "kst H (s\<lparr>psq_first := x21\<rparr>) v = kst H s v"
  "kst H (s\<lparr>psq_last := x22\<rparr>) v = kst H s v"
  "kst H (s\<lparr>psq_count := x23\<rparr>) v = kst H s v"
  "kst H (s\<lparr>psq_size := x24\<rparr>) v = kst H s v"
  "kst H (s\<lparr>psq_q := x25\<rparr>) v = kst H s v"
  "kst H (s\<lparr>run := x26\<rparr>) v = kst H s v"
  "kst H (s\<lparr>robin_task := x27\<rparr>) v = kst H s v"
  "kst H (s\<lparr>robin_time := x28\<rparr>) v = kst H s v"
  "kst H (s\<lparr>robin_tout := x29\<rparr>) v = kst H s v"
  "kst H (s\<lparr>os_time := x30\<rparr>) v = kst H s v"
  "kst H (s\<lparr>os_active_TCB := x31\<rparr>) v = kst H s v"
  "kst H (s\<lparr>os_tick_irqn := x32\<rparr>) v = kst H s v"
  "kst H (s\<lparr>os_lock := x33\<rparr>) v = kst H s v"
  "kst H (s\<lparr>os_psh_flag := x34\<rparr>) v = kst H s v"
  "kst H (s\<lparr>pend_flags := x35\<rparr>) v = kst H s v"
  "kst H (s\<lparr>pend_sv := x36\<rparr>) v = kst H s v"
  "kst H (s\<lparr>pend_st := x37\<rparr>) v = kst H s v"
  "kst H (s\<lparr>st_ctrl := x38\<rparr>) v = kst H s v"
  "kst H (s\<lparr>psp := x39\<rparr>) v = kst H s v"
  "kst H (s\<lparr>irq_en := x40\<rparr>) v = kst H s v"
  "kst H (s\<lparr>mem := x41\<rparr>) v = kst H s v"
  "kst H (s\<lparr>addr := x42\<rparr>) v = kst H s v"
  "kst H (s\<lparr>tmr_next := x43\<rparr>) v = kst H s v"
  "kst H (s\<lparr>tmr_state := x44\<rparr>) v = kst H s v"
  "kst H (s\<lparr>tmr_type := x45\<rparr>) v = kst H s v"
  "kst H (s\<lparr>tmr_arg := x46\<rparr>) v = kst H s v"
  "kst H (s\<lparr>tmr_tcnt := x47\<rparr>) v = kst H s v"
  "kst H (s\<lparr>tmr_icnt := x48\<rparr>) v = kst H s v"
  "kst H (s\<lparr>tmr_ptimer := x49\<rparr>) v = kst H s v"
  "kst H (s\<lparr>os_timer_head := x50\<rparr>) v = kst H s v"
  "kst H (s\<lparr>osThreadId_osTimerThread := x51\<rparr>) v = kst H s v"
  "kst H (s\<lparr>osMessageQId_osTimerMessageQ := x52\<rparr>) v = kst H s v"
  "kst H (s\<lparr>os_initialized := x53\<rparr>) v = kst H s v"
  "kst H (s\<lparr>os_running := x54\<rparr>) v = kst H s v"
  "kst H (s\<lparr>callee_regs := x55\<rparr>) v = kst H s v"
  "kst H (s\<lparr>ipsr := x56\<rparr>) v = kst H s v"
  "kst H (s\<lparr>control := x57\<rparr>) v = kst H s v"
  by (simp_all add: kst_def linv_parts)

lemma kst_relink_frame [simp]:
  "kst H (relink L (s\<lparr>task_id := x0\<rparr>)) v = kst H (relink L s) v"
  "kst H (relink L (s\<lparr>interval_time := x1\<rparr>)) v = kst H (relink L s) v"
  "kst H (relink L (s\<lparr>events := x2\<rparr>)) v = kst H (relink L s) v"
  "kst H (relink L (s\<lparr>waits := x3\<rparr>)) v = kst H (relink L s) v"
  "kst H (relink L (s\<lparr>msg := x4\<rparr>)) v = kst H (relink L s) v"
  "kst H (relink L (s\<lparr>stack_frame := x5\<rparr>)) v = kst H (relink L s) v"
  "kst H (relink L (s\<lparr>priv_stack := x6\<rparr>)) v = kst H (relink L s) v"
  "kst H (relink L (s\<lparr>tsk_stack := x7\<rparr>)) v = kst H (relink L s) v"
  "kst H (relink L (s\<lparr>stack := x8\<rparr>)) v = kst H (relink L s) v"
  "kst H (relink L (s\<lparr>ptask := x9\<rparr>)) v = kst H (relink L s) v"
  "kst H (relink L (s\<lparr>tokens := x10\<rparr>)) v = kst H (relink L s) v"
  "kst H (relink L (s\<lparr>mut_prio := x11\<rparr>)) v = kst H (relink L s) v"
  "kst H (relink L (s\<lparr>mut_level := x12\<rparr>)) v = kst H (relink L s) v"
  "kst H (relink L (s\<lparr>mut_owner := x13\<rparr>)) v = kst H (relink L s) v"
  "kst H (relink L (s\<lparr>mbx_state := x14\<rparr>)) v = kst H (relink L s) v"
  "kst H (relink L (s\<lparr>mbx_isr_st := x15\<rparr>)) v = kst H (relink L s) v"
  "kst H (relink L (s\<lparr>mbx_first := x16\<rparr>)) v = kst H (relink L s) v"
  "kst H (relink L (s\<lparr>mbx_last := x17\<rparr>)) v = kst H (relink L s) v"
  "kst H (relink L (s\<lparr>mbx_count := x18\<rparr>)) v = kst H (relink L s) v"
  "kst H (relink L (s\<lparr>mbx_size := x19\<rparr>)) v = kst H (relink L s) v"
  "kst H (relink L (s\<lparr>mbx_msg := x20\<rparr>)) v = kst H (relink L s) v"
  "kst H (relink L (s\<lparr>psq_first := x21\<rparr>)) v = kst H (relink L s) v"
  "kst H (relink L (s\<lparr>psq_last := x22\<rparr>)) v = kst H (relink L s) v"
  "kst H (relink L (s\<lparr>psq_count := x23\<rparr>)) v = kst H (relink L s) v"
  "kst H (relink L (s\<lparr>psq_size := x24\<rparr>)) v = kst H (relink L s) v"
  "kst H (relink L (s\<lparr>psq_q := x25\<rparr>)) v = kst H (relink L s) v"
  "kst H (relink L (s\<lparr>run := x26\<rparr>)) v = kst H (relink L s) v"
  "kst H (relink L (s\<lparr>robin_task := x27\<rparr>)) v = kst H (relink L s) v"
  "kst H (relink L (s\<lparr>robin_time := x28\<rparr>)) v = kst H (relink L s) v"
  "kst H (relink L (s\<lparr>robin_tout := x29\<rparr>)) v = kst H (relink L s) v"
  "kst H (relink L (s\<lparr>os_time := x30\<rparr>)) v = kst H (relink L s) v"
  "kst H (relink L (s\<lparr>os_active_TCB := x31\<rparr>)) v = kst H (relink L s) v"
  "kst H (relink L (s\<lparr>os_tick_irqn := x32\<rparr>)) v = kst H (relink L s) v"
  "kst H (relink L (s\<lparr>os_lock := x33\<rparr>)) v = kst H (relink L s) v"
  "kst H (relink L (s\<lparr>os_psh_flag := x34\<rparr>)) v = kst H (relink L s) v"
  "kst H (relink L (s\<lparr>pend_flags := x35\<rparr>)) v = kst H (relink L s) v"
  "kst H (relink L (s\<lparr>pend_sv := x36\<rparr>)) v = kst H (relink L s) v"
  "kst H (relink L (s\<lparr>pend_st := x37\<rparr>)) v = kst H (relink L s) v"
  "kst H (relink L (s\<lparr>st_ctrl := x38\<rparr>)) v = kst H (relink L s) v"
  "kst H (relink L (s\<lparr>psp := x39\<rparr>)) v = kst H (relink L s) v"
  "kst H (relink L (s\<lparr>irq_en := x40\<rparr>)) v = kst H (relink L s) v"
  "kst H (relink L (s\<lparr>mem := x41\<rparr>)) v = kst H (relink L s) v"
  "kst H (relink L (s\<lparr>addr := x42\<rparr>)) v = kst H (relink L s) v"
  "kst H (relink L (s\<lparr>tmr_next := x43\<rparr>)) v = kst H (relink L s) v"
  "kst H (relink L (s\<lparr>tmr_state := x44\<rparr>)) v = kst H (relink L s) v"
  "kst H (relink L (s\<lparr>tmr_type := x45\<rparr>)) v = kst H (relink L s) v"
  "kst H (relink L (s\<lparr>tmr_arg := x46\<rparr>)) v = kst H (relink L s) v"
  "kst H (relink L (s\<lparr>tmr_tcnt := x47\<rparr>)) v = kst H (relink L s) v"
  "kst H (relink L (s\<lparr>tmr_icnt := x48\<rparr>)) v = kst H (relink L s) v"
  "kst H (relink L (s\<lparr>tmr_ptimer := x49\<rparr>)) v = kst H (relink L s) v"
  "kst H (relink L (s\<lparr>os_timer_head := x50\<rparr>)) v = kst H (relink L s) v"
  "kst H (relink L (s\<lparr>osThreadId_osTimerThread := x51\<rparr>)) v = kst H (relink L s) v"
  "kst H (relink L (s\<lparr>osMessageQId_osTimerMessageQ := x52\<rparr>)) v = kst H (relink L s) v"
  "kst H (relink L (s\<lparr>os_initialized := x53\<rparr>)) v = kst H (relink L s) v"
  "kst H (relink L (s\<lparr>os_running := x54\<rparr>)) v = kst H (relink L s) v"
  "kst H (relink L (s\<lparr>callee_regs := y0\<rparr>)) v = kst H (relink L s) v"
  "kst H (relink L (s\<lparr>ipsr := y1\<rparr>)) v = kst H (relink L s) v"
  "kst H (relink L (s\<lparr>control := y2\<rparr>)) v = kst H (relink L s) v"
  by (simp_all add: kst_def)

section \<open>Operations on views\<close>

definition run_next :: "kview \<Rightarrow> kview" where
  "run_next v = v\<lparr>cur := hd (rdyq v), rdyq := tl (rdyq v)\<rparr>"

text \<open>The current task takes a time-out of \<open>d\<close> ticks, 65535 for none.\<close>

definition set_timeout :: "nat \<Rightarrow> kview \<Rightarrow> kview" where
  "set_timeout d v = (if d < 65535 then v\<lparr>dlyq := ins_dly (cur v) d (dlyq v)\<rparr> else v)"

definition block_on :: "nat \<Rightarrow> nat \<Rightarrow> kview \<Rightarrow> kview" where
  "block_on n d v =
     run_next ((set_timeout d v)\<lparr>waitq := (waitq v)(n := ins_prio (prios v) (cur v) (waitq v n))\<rparr>)"

definition block_park :: "nat \<Rightarrow> kview \<Rightarrow> kview" where
  "block_park d v = run_next ((set_timeout d v)\<lparr>parked := insert (cur v) (parked v)\<rparr>)"

text \<open>A task that stopped waiting runs at once if it has a higher priority than the current one.\<close>

definition dispatch :: "ptr \<Rightarrow> kview \<Rightarrow> kview" where
  "dispatch t v =
     (if prios v (cur v) < prios v t then v\<lparr>cur := t, rdyq := cur v # rdyq v\<rparr>
      else v\<lparr>rdyq := ins_prio (prios v) t (rdyq v)\<rparr>)"

text \<open>The first task that waits for object \<open>n\<close> stops waiting.\<close>

definition take_waiter :: "nat \<Rightarrow> kview \<Rightarrow> kview" where
  "take_waiter n v =
     v\<lparr>waitq := (waitq v)(n := tl (waitq v n)), dlyq := rmv_dly (hd (waitq v n)) (dlyq v)\<rparr>"

definition wake_one :: "nat \<Rightarrow> kview \<Rightarrow> kview" where
  "wake_one n v = dispatch (hd (waitq v n)) (take_waiter n v)"

text \<open>The current task goes back to its place in the ready list and the best task runs.\<close>

definition resched :: "kview \<Rightarrow> kview" where
  "resched v = run_next (v\<lparr>rdyq := ins_prio (prios v) (cur v) (rdyq v)\<rparr>)"

section \<open>Dispatching\<close>

lemma upd_state_new: "s\<lparr>state := st, new_tsk := t\<rparr> = s\<lparr>new_tsk := t, state := st\<rparr>"
  by simp

lemma ins_prio_hd_top:
  "prio_sorted pr R \<Longrightarrow> x \<in> set (ins_prio pr t R) \<Longrightarrow> pr x \<le> pr (hd (ins_prio pr t R))"
  using prio_sorted_ins [of pr t R] by (cases "ins_prio pr t R") auto

lemma linv_sorted: "linv s R W D F \<Longrightarrow> prio_sorted (prio s) R"
  by (simp add: linv_def rdy_ok_def)

lemma linv_notin_rdy: "linv s R W D F \<Longrightarrow> t \<in> F \<Longrightarrow> t \<notin> set R"
  by (auto simp: linv_def disj_ok_def)

lemma linv_notin_wait: "linv s R W D F \<Longrightarrow> t \<in> F \<Longrightarrow> t \<notin> set (W n)"
  by (auto simp: linv_def disj_ok_def)

lemma linv_wait_notin: "linv s R W D F \<Longrightarrow> t \<in> set (W n) \<Longrightarrow> t \<notin> set R \<and> t \<notin> F"
  by (auto simp: linv_def disj_ok_def)

lemma linv_distinct_rdy: "linv s R W D F \<Longrightarrow> distinct R"
  using chain_distinct [of NULL "p_lnk s" Rdy R] by (auto simp: linv_def rdy_ok_def)

text \<open>Switching to the head of the ready list.\<close>

lemma switch_first:
  assumes "linv s (t # R) W D F"
  shows "\<exists>L. (do { (t, s) \<leftarrow> rt_get_first Rdy s; rt_switch_req t s })
       = Some (relink L (s\<lparr>new_tsk := t, state := (state s)(t := RUNNING)\<rparr>)) \<and>
     linv (relink L s) R W D (insert t F)"
proof -
  obtain L where "rt_get_first Rdy s = Some (t, relink L s)" "linv (relink L s) R W D (insert t F)"
    using rl_get_first_rdy [OF assms] by blast
  moreover have "t \<noteq> NULL" using linv_tcb(1) [OF assms, of t] by simp
  ultimately show ?thesis by (intro exI [of _ L]) (simp add: rt_switch_req_def)
qed

lemma rt_dispatch_NULL:
  assumes "linv s (t # R) W D F"
  shows "\<exists>L. rt_dispatch NULL s = Some (relink L (s\<lparr>new_tsk := t, state := (state s)(t := RUNNING)\<rparr>)) \<and>
     linv (relink L s) R W D (insert t F)"
  using switch_first [OF assms] by (simp add: rt_dispatch_def)

lemma rt_dispatch_task:
  assumes L: "linv s R W D F" and c: "run s \<in> F" and t: "t \<in> F" "t \<noteq> run s"
    and top: "\<forall>x\<in>set R. prio s x \<le> prio s (run s)"
  shows "prio s (run s) < prio s t \<Longrightarrow>
      \<exists>L. rt_dispatch t s =
        Some (relink L (s\<lparr>new_tsk := t, state := (state s)(run s := READY, t := RUNNING)\<rparr>)) \<and>
      linv (relink L s) (run s # R) W D (F - {run s})"
    and "\<not> prio s (run s) < prio s t \<Longrightarrow>
      \<exists>L. rt_dispatch t s = Some (relink L (s\<lparr>state := (state s)(t := READY)\<rparr>)) \<and>
      linv (relink L s) (ins_prio (prio s) t R) W D (F - {t})"
proof -
  have nn: "t \<noteq> NULL" "run s \<noteq> NULL" using linv_tcb(2) [OF L] c t by fastforce+
  { assume p: "prio s (run s) < prio s t"
    obtain L where e: "rt_put_rdy_first (run s) s = Some (relink L s)"
      and L1: "linv (relink L s) (run s # R) W D (F - {run s})"
      using rl_put_rdy_first [OF L c top] by blast
    have "rt_dispatch t s =
        Some (relink L (s\<lparr>new_tsk := t, state := (state s)(run s := READY, t := RUNNING)\<rparr>))"
      using p e nn t by (simp add: rt_dispatch_def rt_switch_req_def upd_state_new)
    then show "\<exists>L. rt_dispatch t s =
        Some (relink L (s\<lparr>new_tsk := t, state := (state s)(run s := READY, t := RUNNING)\<rparr>)) \<and>
      linv (relink L s) (run s # R) W D (F - {run s})" using L1 by blast }
  { assume p: "\<not> prio s (run s) < prio s t"
    have "linv (s\<lparr>state := (state s)(t := READY)\<rparr>) R W D F" using L by simp
    then obtain L where e: "rt_put_prio Rdy t (s\<lparr>state := (state s)(t := READY)\<rparr>) =
        Some (relink L (s\<lparr>state := (state s)(t := READY)\<rparr>))"
      and L1: "linv (relink L (s\<lparr>state := (state s)(t := READY)\<rparr>)) (ins_prio (prio s) t R) W D (F - {t})"
      using rl_put_prio_rdy [of "s\<lparr>state := (state s)(t := READY)\<rparr>" R W D F t] t by auto
    have "rt_dispatch t s = Some (relink L (s\<lparr>state := (state s)(t := READY)\<rparr>))"
      using p e nn t by (simp add: rt_dispatch_def)
    then show "\<exists>L. rt_dispatch t s = Some (relink L (s\<lparr>state := (state s)(t := READY)\<rparr>)) \<and>
      linv (relink L s) (ins_prio (prio s) t R) W D (F - {t})" using L1 by auto }
qed

section \<open>Steps that only move tasks\<close>

text \<open>\<open>s'\<close> differs from \<open>s\<close> in the links, the task states and the task that runs next, and in nothing else.\<close>

definition moved :: "os \<Rightarrow> os \<Rightarrow> bool" where
  "moved s s' \<longleftrightarrow> (\<exists>L st n. s' = relink L (s\<lparr>new_tsk := n, state := st\<rparr>))"

lemma moved_sel:
  assumes "moved s s'"
  shows
    "cb_type s' = cb_type s"
    "prio s' = prio s"
    "task_id s' = task_id s"
    "interval_time s' = interval_time s"
    "events s' = events s"
    "waits s' = waits s"
    "msg s' = msg s"
    "stack_frame s' = stack_frame s"
    "priv_stack s' = priv_stack s"
    "tsk_stack s' = tsk_stack s"
    "stack s' = stack s"
    "ptask s' = ptask s"
    "tokens s' = tokens s"
    "mut_prio s' = mut_prio s"
    "mut_level s' = mut_level s"
    "mut_owner s' = mut_owner s"
    "mbx_state s' = mbx_state s"
    "mbx_isr_st s' = mbx_isr_st s"
    "mbx_first s' = mbx_first s"
    "mbx_last s' = mbx_last s"
    "mbx_count s' = mbx_count s"
    "mbx_size s' = mbx_size s"
    "mbx_msg s' = mbx_msg s"
    "psq_first s' = psq_first s"
    "psq_last s' = psq_last s"
    "psq_count s' = psq_count s"
    "psq_size s' = psq_size s"
    "psq_q s' = psq_q s"
    "run s' = run s"
    "robin_task s' = robin_task s"
    "robin_time s' = robin_time s"
    "robin_tout s' = robin_tout s"
    "os_time s' = os_time s"
    "os_active_TCB s' = os_active_TCB s"
    "os_tick_irqn s' = os_tick_irqn s"
    "os_lock s' = os_lock s"
    "os_psh_flag s' = os_psh_flag s"
    "pend_flags s' = pend_flags s"
    "pend_sv s' = pend_sv s"
    "pend_st s' = pend_st s"
    "st_ctrl s' = st_ctrl s"
    "psp s' = psp s"
    "irq_en s' = irq_en s"
    "mem s' = mem s"
    "addr s' = addr s"
    "tmr_next s' = tmr_next s"
    "tmr_state s' = tmr_state s"
    "tmr_type s' = tmr_type s"
    "tmr_arg s' = tmr_arg s"
    "tmr_tcnt s' = tmr_tcnt s"
    "tmr_icnt s' = tmr_icnt s"
    "tmr_ptimer s' = tmr_ptimer s"
    "os_timer_head s' = os_timer_head s"
    "osThreadId_osTimerThread s' = osThreadId_osTimerThread s"
    "osMessageQId_osTimerMessageQ s' = osMessageQId_osTimerMessageQ s"
    "os_initialized s' = os_initialized s"
    "os_running s' = os_running s"
    "callee_regs s' = callee_regs s"
    "ipsr s' = ipsr s"
    "control s' = control s"
  using assms by (auto simp: moved_def)

lemma movedI: "moved s (relink L (s\<lparr>new_tsk := n, state := st\<rparr>))"
  by (auto simp: moved_def)

lemma moved_relink: "moved s (relink L s)"
proof -
  have "relink L s = relink L (s\<lparr>new_tsk := new_tsk s, state := state s\<rparr>)" by simp
  then show ?thesis using movedI by metis
qed

lemma moved_refl [simp]: "moved s s"
  using relink_id [of s] moved_relink by metis

lemma moved_state: "moved s (relink L (s\<lparr>state := st\<rparr>))"
proof -
  have "relink L (s\<lparr>state := st\<rparr>) = relink L (s\<lparr>new_tsk := new_tsk s, state := st\<rparr>)" by simp
  then show ?thesis using movedI by metis
qed

lemma moved_trans [trans]:
  assumes "moved s s1" "moved s1 s2"
  shows "moved s s2"
proof -
  obtain L st n L' st' n' where "s1 = relink L (s\<lparr>new_tsk := n, state := st\<rparr>)"
    "s2 = relink L' (s1\<lparr>new_tsk := n', state := st'\<rparr>)" using assms unfolding moved_def by blast
  then have "s2 = relink L' (s\<lparr>new_tsk := n', state := st'\<rparr>)" by simp
  then show ?thesis by (simp add: movedI)
qed

end
