(* ===== verification/Kernel_Sched.thy ===== *)
theory Kernel_Sched
  imports Kernel_View
begin

text \<open>
  The operations of \<open>rt_Task.c\<close> implement the operations on views: dispatching a task that
  stopped waiting, blocking the current task, taking the first task off a waiting list,
  and rescheduling.
\<close>

section \<open>Consequences of the relation\<close>

lemma kst_linv: "kst H s v \<Longrightarrow> linv s (rdyq v) (waitq v) (dlyq v) (H \<union> insert (cur v) (parked v))"
  by (simp add: kst_def)

lemma kst_tcb: "kst H s v \<Longrightarrow> t \<in> insert (cur v) H \<Longrightarrow> is_tcb t"
  using linv_tcb(2) [OF kst_linv, of H s v t] by auto

lemma kst_wait_tcb: "kst H s v \<Longrightarrow> t \<in> set (waitq v n) \<Longrightarrow> is_tcb t"
  by (rule linv_tcb(3) [OF kst_linv])

lemma kst_prios: "kst H s v \<Longrightarrow> prios v = prio s"
  by (simp add: kst_def)

lemma kst_new: "kst H s v \<Longrightarrow> new_tsk s = cur v"
  by (simp add: kst_def)

lemma kst_top: "kst H s v \<Longrightarrow> t \<in> set (rdyq v) \<Longrightarrow> prio s t \<le> prio s (cur v)"
  by (simp add: kst_def)

lemma kst_cur_dly: "kst H s v \<Longrightarrow> cur v \<notin> fst ` set (dlyq v)"
  by (simp add: kst_def)

lemma kst_notin:
  assumes "kst H s v" and "t \<in> insert (cur v) (H \<union> parked v)"
  shows "t \<notin> set (rdyq v)" and "t \<notin> set (waitq v n)"
  using linv_notin_rdy [OF kst_linv [OF assms(1)], of t] linv_notin_wait [OF kst_linv [OF assms(1)], of t]
    assms(2) by auto

lemma kst_wait_notin:
  assumes "kst H s v" and "t \<in> set (waitq v n)"
  shows "t \<notin> set (rdyq v)" and "t \<notin> H" and "t \<noteq> cur v" and "t \<notin> parked v" and "t \<in> set (waitq v m) \<longleftrightarrow> m = n"
proof -
  have L: "linv s (rdyq v) (waitq v) (dlyq v) (H \<union> insert (cur v) (parked v))" by (rule kst_linv [OF assms(1)])
  show "t \<notin> set (rdyq v)" "t \<notin> H" "t \<noteq> cur v" "t \<notin> parked v"
    using linv_wait_notin [OF L assms(2)] by auto
  show "t \<in> set (waitq v m) \<longleftrightarrow> m = n"
    using L assms(2) unfolding linv_def disj_ok_def by blast
qed

text \<open>When the current task is not the idle task, somebody is ready.\<close>

lemma kst_ready: "kst H s v \<Longrightarrow> cur v \<noteq> os_idle_TCB \<Longrightarrow> rdyq v \<noteq> []"
  by (auto simp: kst_def)

lemmas kst_simps = kabs_def kst_prios kst_new

section \<open>State typing\<close>

lemma styp_upd:
  "styp st R W D P \<Longrightarrow> t \<notin> set R \<Longrightarrow> (\<And>n. t \<notin> set (W n)) \<Longrightarrow> t \<notin> P \<Longrightarrow> styp (st(t := x)) R W D P"
  unfolding styp_def by auto

lemma styp_dly_mono:
  assumes "styp st R W D P" and sub: "fst ` set D' \<subseteq> fst ` set D"
  shows "styp st R W D' P"
proof -
  have "t \<notin> fst ` set D'" if "t \<notin> fst ` set D" for t using sub that by (rule contra_subsetD)
  then show ?thesis using assms(1) unfolding styp_def by simp
qed

lemma styp_rdy:
  assumes "styp st R W D P" and "set R' \<subseteq> insert t (set R)" and "st t = READY" and "t \<notin> fst ` set D"
  shows "styp st R' W D P"
proof -
  have "st x = READY \<and> x \<notin> fst ` set D" if "x \<in> set R'" for x
    using assms subsetD [OF assms(2) that] by (auto simp: styp_def simp del: image_iff)
  then show ?thesis using assms(1) unfolding styp_def by simp
qed

lemma styp_wait_mono:
  "styp st R W D P \<Longrightarrow> (\<And>n. set (W' n) \<subseteq> set (W n)) \<Longrightarrow> styp st R W' D P"
  unfolding styp_def by blast

section \<open>Dispatching\<close>

lemma dispatch_refines:
  assumes h: "kst {t} s v" and td: "t \<notin> fst ` set (dlyq v)" and r: "run s = cur v"
  shows "\<exists>s'. rt_dispatch t s = Some s' \<and> kabs s' (dispatch t v) \<and> moved s s'"
proof -
  let ?F = "{t} \<union> insert (cur v) (parked v)"
  let ?c = "cur v"
  have "{t} \<inter> insert ?c (parked v) = {}" using h by (simp only: kst_def)
  then have n0: "t \<noteq> ?c" "t \<notin> parked v" by blast+
  have L: "linv s (rdyq v) (waitq v) (dlyq v) ?F" and n1: "?c \<notin> parked v" "?c \<notin> fst ` set (dlyq v)"
    and ty: "styp (state s) (rdyq v) (waitq v) (dlyq v) (parked v)"
    and cr: "state s ?c = RUNNING" "new_tsk s = ?c" and pv: "prios v = prio s"
    and top: "\<forall>t\<in>set (rdyq v). prio s t \<le> prio s ?c"
    and idle: "os_idle_TCB \<in> insert ?c (set (rdyq v))"
    using h by (simp_all add: kst_def)
  note n = n0 n1
  have nt: "t \<notin> set (rdyq v)" "t \<notin> set (waitq v m)" "?c \<notin> set (rdyq v)" "?c \<notin> set (waitq v m)" for m
    using kst_notin [OF h] by simp_all
  show ?thesis
  proof (cases "prio s ?c < prio s t")
    case True
    then obtain L1 where e: "rt_dispatch t s =
        Some (relink L1 (s\<lparr>new_tsk := t, state := (state s)(?c := READY, t := RUNNING)\<rparr>))"
      and L1: "linv (relink L1 s) (?c # rdyq v) (waitq v) (dlyq v) (?F - {?c})"
      using rt_dispatch_task(1) [OF L, of t] n top r by auto
    let ?s = "relink L1 (s\<lparr>new_tsk := t, state := (state s)(?c := READY, t := RUNNING)\<rparr>)"
    have F: "?F - {?c} = insert t (parked v)" using n by auto
    have "styp (state ?s) (?c # rdyq v) (waitq v) (dlyq v) (parked v)"
      by (rule styp_rdy [where t = ?c and R = "rdyq v"]) (use ty n nt in \<open>simp_all add: styp_upd\<close>)
    moreover have "\<forall>x\<in>set (?c # rdyq v). prio s x \<le> prio s t" using True top by fastforce
    ultimately have "kabs ?s (dispatch t v)"
      using L1 n td idle pv True unfolding kabs_def kst_def dispatch_def F by simp
    then show ?thesis using e movedI by blast
  next
    case False
    then obtain L1 where e: "rt_dispatch t s = Some (relink L1 (s\<lparr>state := (state s)(t := READY)\<rparr>))"
      and L1: "linv (relink L1 s) (ins_prio (prio s) t (rdyq v)) (waitq v) (dlyq v) (?F - {t})"
      using rt_dispatch_task(2) [OF L, of t] n top r by auto
    let ?s = "relink L1 (s\<lparr>state := (state s)(t := READY)\<rparr>)"
    have F: "?F - {t} = insert ?c (parked v)" using n by auto
    have "styp (state ?s) (ins_prio (prio s) t (rdyq v)) (waitq v) (dlyq v) (parked v)"
      by (rule styp_rdy [where t = t and R = "rdyq v"]) (use ty td n nt in \<open>simp_all add: styp_upd\<close>)
    moreover have "\<forall>x\<in>set (ins_prio (prio s) t (rdyq v)). prio s x \<le> prio s ?c" using False top by auto
    moreover have "os_idle_TCB \<in> insert ?c (set (ins_prio (prio s) t (rdyq v)))" using idle by auto
    ultimately have "kabs ?s (dispatch t v)"
      using L1 n cr pv False unfolding kabs_def kst_def dispatch_def F by simp
    then show ?thesis using e moved_state by blast
  qed
qed

section \<open>Taking a waiting task\<close>

lemma take_first_refines:
  assumes k: "kst H s v" and W: "waitq v n = t # ts"
  shows "\<exists>L. rt_get_first (Obj n) s = Some (t, relink L s) \<and>
     kst (insert t H) (relink L s) (v\<lparr>waitq := (waitq v)(n := ts)\<rparr>)"
proof -
  obtain L where e: "rt_get_first (Obj n) s = Some (t, relink L s)"
    and L1: "linv (relink L s) (rdyq v) ((waitq v)(n := ts)) (dlyq v) (insert t (H \<union> insert (cur v) (parked v)))"
    using rl_get_first_wait [OF kst_linv [OF k] W] by blast
  have tw: "t \<in> set (waitq v n)" using W by simp
  have "styp (state s) (rdyq v) ((waitq v)(n := ts)) (dlyq v) (parked v)"
    by (rule styp_wait_mono [where W = "waitq v"]) (use k W in \<open>auto simp: kst_def\<close>)
  then have "kst (insert t H) (relink L s) (v\<lparr>waitq := (waitq v)(n := ts)\<rparr>)"
    using k L1 kst_wait_notin [OF k tw] unfolding kst_def by (simp add: insert_commute)
  with e show ?thesis by blast
qed

lemma rmv_dly_subset: "fst ` set (rmv_dly t D) \<subseteq> fst ` set D"
  unfolding rmv_dly_def by (rule image_mono) simp

lemma notin_rmv_dly [simp]: "t \<notin> fst ` set (rmv_dly t D)"
  by auto

lemma rmv_dly_refines:
  assumes k: "kst H s v" and t: "t \<in> insert (cur v) (H \<union> parked v)"
  shows "\<exists>L. rt_rmv_dly t s = Some (relink L s) \<and> kst H (relink L s) (v\<lparr>dlyq := rmv_dly t (dlyq v)\<rparr>)"
proof -
  obtain L where e: "rt_rmv_dly t s = Some (relink L s)"
    and L1: "linv (relink L s) (rdyq v) (waitq v) (rmv_dly t (dlyq v)) (H \<union> insert (cur v) (parked v))"
    using rl_rmv_dly [OF kst_linv [OF k], of t] t by auto
  have sub: "fst ` set (rmv_dly t (dlyq v)) \<subseteq> fst ` set (dlyq v)" by (rule rmv_dly_subset)
  have "styp (state s) (rdyq v) (waitq v) (rmv_dly t (dlyq v)) (parked v)"
    by (rule styp_dly_mono [OF _ sub]) (use k in \<open>simp add: kst_def\<close>)
  moreover have "cur v \<notin> fst ` set (rmv_dly t (dlyq v))"
    by (rule contra_subsetD [OF sub kst_cur_dly [OF k]])
  ultimately have "kst H (relink L s) (v\<lparr>dlyq := rmv_dly t (dlyq v)\<rparr>)" using k L1 unfolding kst_def by simp
  with e show ?thesis by blast
qed

section \<open>Blocking\<close>

lemma block_linv:
  assumes L: "linv s (t # R) W D F" and c: "run s \<in> F \<union> (\<Union>n. set (W n))" "run s \<notin> fst ` set D"
    and to: "timeout \<noteq> 0"
  shows "\<exists>L. rt_block timeout st s
       = Some (relink L (s\<lparr>new_tsk := t, state := (state s)(run s := st, t := RUNNING)\<rparr>)) \<and>
     linv (relink L s) R W (if timeout < 0xffff then ins_dly (run s) (unat timeout) D else D) (insert t F)"
proof -
  let ?D = "if timeout < 0xffff then ins_dly (run s) (unat timeout) D else D"
  have cn: "run s \<noteq> NULL" using linv_tcb(2,3) [OF L] c by fastforce
  have "\<exists>L. (if timeout < 0xffff then rt_put_dly (run s) timeout s else Some s) = Some (relink L s) \<and>
      linv (relink L s) (t # R) W ?D F"
  proof (cases "timeout < 0xffff")
    case True
    have "0 < timeout" using to by (simp add: word_gt_0)
    then show ?thesis using rl_put_dly [OF L c, of timeout] True by simp
  next
    case False
    then show ?thesis using L relink_id [of s] by (metis (full_types))
  qed
  then obtain L1 where e1: "(if timeout < 0xffff then rt_put_dly (run s) timeout s else Some s) = Some (relink L1 s)"
    and L1: "linv (relink L1 s) (t # R) W ?D F" by blast
  let ?s1 = "relink L1 (s\<lparr>state := (state s)(run s := st)\<rparr>)"
  have "linv ?s1 (t # R) W ?D F" using L1 by simp
  then obtain L2 where e2: "(do { (t, s) \<leftarrow> rt_get_first Rdy ?s1; rt_switch_req t s })
       = Some (relink L2 (?s1\<lparr>new_tsk := t, state := (state ?s1)(t := RUNNING)\<rparr>))"
    and L2: "linv (relink L2 ?s1) R W ?D (insert t F)"
    using switch_first by blast
  have "rt_block timeout st s
      = Some (relink L2 (s\<lparr>new_tsk := t, state := (state s)(run s := st, t := RUNNING)\<rparr>))"
    unfolding rt_block_def using to e1 e2 cn by (simp add: upd_state_new)
  then show ?thesis using L2 by auto
qed

text \<open>Blocking on events or on time only.\<close>

lemma unat_ffff: "unat (w :: u16) < 65535 \<longleftrightarrow> w < 0xffff"
  by (simp add: word_less_nat_alt)

lemma block_park_refines:
  assumes k: "kabs s v" and r: "run s = cur v" and i: "cur v \<noteq> os_idle_TCB"
    and to: "timeout \<noteq> 0" and st: "park_wait st"
  shows "\<exists>s'. rt_block timeout st s = Some s' \<and> kabs s' (block_park (unat timeout) v) \<and> moved s s'"
proof -
  let ?c = "cur v"
  have k0: "kst {} s v" using k by (simp add: kabs_def)
  obtain t R where R: "rdyq v = t # R" using kst_ready [OF k0 i] by (cases "rdyq v") auto
  have L: "linv s (t # R) (waitq v) (dlyq v) (insert ?c (parked v))" using kst_linv [OF k0] R by simp
  let ?D = "if timeout < 0xffff then ins_dly ?c (unat timeout) (dlyq v) else dlyq v"
  obtain L1 where e: "rt_block timeout st s
      = Some (relink L1 (s\<lparr>new_tsk := t, state := (state s)(?c := st, t := RUNNING)\<rparr>))"
    and L1: "linv (relink L1 s) R (waitq v) ?D (insert t (insert ?c (parked v)))"
    using block_linv [OF L, of timeout st, unfolded r] to kst_cur_dly [OF k0] by auto
  let ?s = "relink L1 (s\<lparr>new_tsk := t, state := (state s)(?c := st, t := RUNNING)\<rparr>)"
  have nt: "?c \<notin> set (rdyq v)" "?c \<notin> set (waitq v m)" for m using kst_notin [OF k0, of ?c] by simp_all
  have tR: "t \<notin> set R" using linv_distinct_rdy [OF L] by simp
  have tn: "t \<noteq> ?c" "t \<notin> parked v" "t \<notin> set (waitq v m)" for m
    using L R nt by (auto simp: linv_def disj_ok_def)
  have ty: "styp (state s) (rdyq v) (waitq v) (dlyq v) (parked v)" using k0 by (simp add: kst_def)
  have "styp (state ?s) R (waitq v) ?D (insert ?c (parked v))"
    using ty st nt tn tR R unfolding styp_def by auto
  moreover have "t \<notin> fst ` set ?D" using ty tn R unfolding styp_def by auto
  moreover have "\<forall>x\<in>set R. prio s x \<le> prio s t" using linv_sorted [OF L] by simp
  moreover have "os_idle_TCB \<in> insert t (set R)" using k0 i R by (auto simp: kst_def)
  ultimately have "kabs ?s (block_park (unat timeout) v)"
    using L1 k0 tn R unfolding kabs_def kst_def block_park_def run_next_def set_timeout_def
    by (simp add: unat_ffff split: if_splits)
  then show ?thesis using e movedI by blast
qed

text \<open>The current task has been put in the waiting list of object \<open>n\<close> but still runs.\<close>

definition kenq :: "nat \<Rightarrow> os \<Rightarrow> kview \<Rightarrow> bool" where
  "kenq n s v \<longleftrightarrow>
     linv s (rdyq v) ((waitq v)(n := ins_prio (prios v) (cur v) (waitq v n))) (dlyq v) (parked v) \<and>
     cur v \<notin> parked v \<and> cur v \<notin> fst ` set (dlyq v) \<and>
     styp (state s) (rdyq v) (waitq v) (dlyq v) (parked v) \<and>
     prios v = prio s \<and> os_idle_TCB \<in> insert (cur v) (set (rdyq v))"

lemma kenq_frame [simp]:
  "kenq n (s\<lparr>msg := x\<rparr>) v = kenq n s v"
  "kenq n (s\<lparr>mbx_state := y\<rparr>) v = kenq n s v"
  "kenq n (relink L (s\<lparr>msg := x\<rparr>)) v = kenq n (relink L s) v"
  "kenq n (relink L (s\<lparr>mbx_state := y\<rparr>)) v = kenq n (relink L s) v"
  by (simp_all add: kenq_def)

text \<open>The code a task enters an empty waiting list with.\<close>

definition put_first_waiter :: "ptr \<Rightarrow> os \<Rightarrow> os option" where
  "put_first_waiter p_CB s = do {
     s \<leftarrow> wr p_lnk_update p_CB (run s) s;
     s \<leftarrow> wr p_lnk_update (run s) NULL s;
     wr p_rlnk_update (run s) p_CB s
   }"

lemma put_first_waiter_eq:
  assumes "p_lnk s h = NULL" and "sem_mbx (cb_type s h)" and "h \<noteq> NULL" and "run s \<noteq> NULL" and "run s \<noteq> h"
  shows "put_first_waiter h s = rt_put_prio h (run s) s"
proof -
  have "put_prio_search (prio s (run s)) h NULL s = Some (h, NULL)"
    by (subst put_prio_search.simps) simp
  then show ?thesis
    using assms by (simp add: put_first_waiter_def rt_put_prio_def Let_def fun_upd_twist)
qed

lemma enqueue_refines:
  assumes k: "kabs s v" and r: "run s = cur v" and ty: "sem_mbx (cb_type s (Obj n))"
  shows "\<exists>L. rt_put_prio (Obj n) (run s) s = Some (relink L s) \<and> kenq n (relink L s) v"
    and "waitq v n = [] \<Longrightarrow> \<exists>L. put_first_waiter (Obj n) s = Some (relink L s) \<and> kenq n (relink L s) v"
    and "p_lnk s (Obj n) = NULL \<longleftrightarrow> waitq v n = []"
proof -
  have k0: "kst {} s v" using k by (simp add: kabs_def)
  have L: "linv s (rdyq v) (waitq v) (dlyq v) (insert (cur v) (parked v))" using kst_linv [OF k0] by simp
  have n: "cur v \<notin> parked v" "is_tcb (cur v)" using k0 kst_tcb [OF k0, of "cur v"] by (simp_all add: kst_def)
  show 1: "\<exists>L. rt_put_prio (Obj n) (run s) s = Some (relink L s) \<and> kenq n (relink L s) v"
  proof -
    obtain L1 where e: "rt_put_prio (Obj n) (cur v) s = Some (relink L1 s)"
      and L1: "linv (relink L1 s) (rdyq v) ((waitq v)(n := ins_prio (prio s) (cur v) (waitq v n))) (dlyq v)
        (insert (cur v) (parked v) - {cur v})"
      using rl_put_prio_wait [OF L _ ty, of "cur v"] by auto
    have "insert (cur v) (parked v) - {cur v} = parked v" using n by blast
    then have "kenq n (relink L1 s) v" using L1 k0 by (simp add: kenq_def kst_def)
    then show ?thesis using e r by auto
  qed
  show 3: "p_lnk s (Obj n) = NULL \<longleftrightarrow> waitq v n = []" by (rule obj_waits [OF L ty])
  assume "waitq v n = []"
  then have "put_first_waiter (Obj n) s = rt_put_prio (Obj n) (run s) s"
    using 3 ty n r by (intro put_first_waiter_eq) auto
  then show "\<exists>L. put_first_waiter (Obj n) s = Some (relink L s) \<and> kenq n (relink L s) v" using 1 by simp
qed

lemma block_on_refines:
  assumes k: "kenq n s v" and r: "run s = cur v" and i: "cur v \<noteq> os_idle_TCB"
    and to: "timeout \<noteq> 0" and st: "obj_wait st"
  shows "\<exists>s'. rt_block timeout st s = Some s' \<and> kabs s' (block_on n (unat timeout) v) \<and> moved s s'"
proof -
  let ?c = "cur v"
  let ?W = "(waitq v)(n := ins_prio (prios v) ?c (waitq v n))"
  obtain t R where R: "rdyq v = t # R" using k i by (cases "rdyq v") (auto simp: kenq_def)
  have L: "linv s (t # R) ?W (dlyq v) (parked v)" using k unfolding kenq_def R by blast
  let ?D = "if timeout < 0xffff then ins_dly ?c (unat timeout) (dlyq v) else dlyq v"
  have cW: "?c \<in> set (?W n)" by simp
  then have "?c \<in> parked v \<union> (\<Union>m. set (?W m))" by blast
  moreover have "?c \<notin> fst ` set (dlyq v)" using k by (simp add: kenq_def)
  ultimately obtain L1 where e: "rt_block timeout st s
      = Some (relink L1 (s\<lparr>new_tsk := t, state := (state s)(?c := st, t := RUNNING)\<rparr>))"
    and L1: "linv (relink L1 s) R ?W ?D (insert t (parked v))"
    using block_linv [OF L, of timeout st, unfolded r] to by blast
  let ?s = "relink L1 (s\<lparr>new_tsk := t, state := (state s)(?c := st, t := RUNNING)\<rparr>)"
  have nt: "?c \<notin> set (t # R)" "?c \<notin> parked v" using linv_wait_notin [OF L cW] by simp_all
  have tR: "t \<notin> set R" using linv_distinct_rdy [OF L] by simp
  have tn: "t \<noteq> ?c" "t \<notin> parked v" "t \<notin> set (?W m)" for m
    using L nt by (auto simp: linv_def disj_ok_def)
  have ty: "styp (state s) (rdyq v) (waitq v) (dlyq v) (parked v)" using k by (simp add: kenq_def)
  have "styp (state ?s) R ?W ?D (parked v)"
    unfolding styp_def
  proof (intro conjI allI ballI)
    fix x assume "x \<in> set R"
    then show "state ?s x = READY" "x \<notin> fst ` set ?D" using ty nt tR R by (auto simp: styp_def)
  next
    fix m x assume x: "x \<in> set (?W m)"
    then have "x \<noteq> t" using tn(3) by blast
    moreover have "x = ?c \<or> x \<in> set (waitq v m)" using x by (auto split: if_splits)
    ultimately show "obj_wait (state ?s x)" using ty st by (auto simp: styp_def)
  next
    fix x assume x: "x \<in> parked v"
    then have "x \<noteq> t" "x \<noteq> ?c" using tn(2) nt(2) by blast+
    then show "park_wait (state ?s x)" using ty x by (simp add: styp_def)
  qed
  moreover have "t \<notin> fst ` set ?D" using ty tn R unfolding styp_def by auto
  moreover have "\<forall>x\<in>set R. prio s x \<le> prio s t" using linv_sorted [OF L] by simp
  moreover have "os_idle_TCB \<in> insert t (set R)" using k i R by (auto simp: kenq_def)
  ultimately have "kabs ?s (block_on n (unat timeout) v)"
    using L1 k tn R unfolding kabs_def kst_def kenq_def block_on_def run_next_def set_timeout_def
    by (simp add: unat_ffff split: if_splits)
  then show ?thesis using e movedI by blast
qed

section \<open>Rescheduling\<close>

text \<open>The relation without the claim that the current task has the highest priority: what holds
  after the priority of the current task was lowered, or after tasks were made ready.\<close>

definition klow :: "os \<Rightarrow> kview \<Rightarrow> bool" where
  "klow s v \<longleftrightarrow>
     linv s (rdyq v) (waitq v) (dlyq v) (insert (cur v) (parked v)) \<and>
     cur v \<notin> parked v \<and> cur v \<notin> fst ` set (dlyq v) \<and>
     styp (state s) (rdyq v) (waitq v) (dlyq v) (parked v) \<and>
     state s (cur v) = RUNNING \<and> new_tsk s = cur v \<and> prios v = prio s \<and>
     os_idle_TCB \<in> insert (cur v) (set (rdyq v))"

lemma kabs_klow: "kabs s v \<longleftrightarrow> klow s v \<and> (\<forall>t\<in>set (rdyq v). prio s t \<le> prio s (cur v))"
  by (auto simp: kabs_def kst_def klow_def)

lemma klow_frame [simp]:
  "klow (s\<lparr>mem := m\<rparr>) v = klow s v" "klow (relink L (s\<lparr>mem := m\<rparr>)) v = klow (relink L s) v"
  "klow (s\<lparr>mut_prio := x1\<rparr>) v = klow s v" "klow (s\<lparr>mut_level := x2\<rparr>) v = klow s v"
  "klow (s\<lparr>mut_owner := x3\<rparr>) v = klow s v"
  by (simp_all add: klow_def)

lemma klow_rdy_top:
  assumes "klow s v" and "rdyq v = t # R"
  shows "x \<in> set (rdyq v) \<Longrightarrow> prio s x \<le> prio s t"
  using assms linv_sorted [of s "rdyq v"] by (auto simp: klow_def)

lemma resched_refines:
  assumes k: "klow s v" and r: "run s = cur v"
  shows "\<exists>s'. (do { s \<leftarrow> rt_put_prio Rdy (run s) s;
                  s \<leftarrow> wr state_update (run s) READY s;
                  rt_dispatch NULL s }) = Some s' \<and> kabs s' (resched v) \<and> moved s s'"
proof -
  let ?c = "cur v"
  let ?R = "ins_prio (prio s) ?c (rdyq v)"
  have L: "linv s (rdyq v) (waitq v) (dlyq v) (insert ?c (parked v))" using k by (simp add: klow_def)
  have cn: "?c \<noteq> NULL" using linv_tcb(2) [OF L, of ?c] by simp
  have F: "insert ?c (parked v) - {?c} = parked v" using k by (auto simp: klow_def)
  obtain L1 where e1: "rt_put_prio Rdy ?c s = Some (relink L1 s)"
    and L1: "linv (relink L1 s) ?R (waitq v) (dlyq v) (parked v)"
    using rl_put_prio_rdy [OF L, of ?c] unfolding F by blast
  obtain t R where R: "?R = t # R" by (cases ?R) simp_all
  let ?s1 = "relink L1 (s\<lparr>state := (state s)(?c := READY)\<rparr>)"
  have L1': "linv ?s1 (t # R) (waitq v) (dlyq v) (parked v)" using L1 R by simp
  obtain L2 where e2: "rt_dispatch NULL ?s1 = Some (relink L2 (?s1\<lparr>new_tsk := t, state := (state ?s1)(t := RUNNING)\<rparr>))"
    and L2: "linv (relink L2 ?s1) R (waitq v) (dlyq v) (insert t (parked v))"
    using rt_dispatch_NULL [OF L1'] by blast
  let ?s = "relink L2 (s\<lparr>new_tsk := t, state := (state s)(?c := READY, t := RUNNING)\<rparr>)"
  have e: "(do { s \<leftarrow> rt_put_prio Rdy (run s) s; s \<leftarrow> wr state_update (run s) READY s; rt_dispatch NULL s }) = Some ?s"
    using e1 e2 r cn by (simp add: upd_state_new)
  have set: "set (t # R) = insert ?c (set (rdyq v))" using R by (metis set_ins_prio)
  have dist: "t \<notin> set R" using linv_distinct_rdy [OF L1'] by simp
  have tn: "t \<notin> parked v" "t \<notin> set (waitq v m)" for m using L1' by (auto simp: linv_def disj_ok_def)
  have cw: "?c \<notin> set (waitq v m)" "?c \<notin> parked v" for m using k linv_notin_wait [OF L] by (simp_all add: klow_def)
  have ty: "styp (state s) (rdyq v) (waitq v) (dlyq v) (parked v)" using k by (simp add: klow_def)
  have "styp ((state s)(?c := READY)) (t # R) (waitq v) (dlyq v) (parked v)"
    by (rule styp_rdy [where t = ?c and R = "rdyq v"])
      (use ty k set cw linv_notin_rdy [OF L] in \<open>simp_all add: styp_upd klow_def\<close>)
  then have "styp (state ?s) R (waitq v) (dlyq v) (parked v)" and tD: "t \<notin> fst ` set (dlyq v)"
    using dist tn unfolding styp_def by auto
  moreover have "\<forall>x\<in>set R. prio s x \<le> prio s t" using linv_sorted [OF L1'] by simp
  moreover have "os_idle_TCB \<in> insert t (set R)" using k set by (auto simp: klow_def)
  ultimately have "kabs ?s (resched v)"
    using L2 k tn R unfolding kabs_def kst_def klow_def resched_def run_next_def by simp
  then show ?thesis using e movedI by blast
qed

section \<open>Everybody ready\<close>

text \<open>Inside the interrupt handlers the current task has gone to the head of the ready list.\<close>

definition kall :: "os \<Rightarrow> kview \<Rightarrow> bool" where
  "kall s v \<longleftrightarrow>
     linv s (rdyq v) (waitq v) (dlyq v) (parked v) \<and>
     styp (state s) (rdyq v) (waitq v) (dlyq v) (parked v) \<and>
     prios v = prio s \<and> os_idle_TCB \<in> set (rdyq v)"

definition all_ready :: "kview \<Rightarrow> kview" where
  "all_ready v = v\<lparr>rdyq := cur v # rdyq v\<rparr>"

lemma suspend_refines:
  assumes k: "kabs s v" and r: "run s = cur v"
  shows "\<exists>s'. (do { s \<leftarrow> wr state_update (run s) READY s; rt_put_rdy_first (run s) s }) = Some s' \<and>
     kall s' (all_ready v) \<and> moved s s'"
proof -
  let ?c = "cur v"
  have k0: "kst {} s v" using k by (simp add: kabs_def)
  have L: "linv s (rdyq v) (waitq v) (dlyq v) (insert ?c (parked v))" using kst_linv [OF k0] by simp
  have cn: "?c \<noteq> NULL" using kst_tcb [OF k0, of ?c] by simp
  have F: "insert ?c (parked v) - {?c} = parked v" using k0 by (auto simp: kst_def)
  let ?s = "s\<lparr>state := (state s)(?c := READY)\<rparr>"
  have L': "linv ?s (rdyq v) (waitq v) (dlyq v) (insert ?c (parked v))" using L by simp
  obtain L1 where e: "rt_put_rdy_first ?c ?s = Some (relink L1 ?s)"
    and L1: "linv (relink L1 ?s) (?c # rdyq v) (waitq v) (dlyq v) (parked v)"
    using rl_put_rdy_first [OF L', of ?c] k0 unfolding F by (auto simp: kst_def)
  have nt: "?c \<notin> set (rdyq v)" "?c \<notin> set (waitq v m)" for m using kst_notin [OF k0, of ?c] by simp_all
  have "styp ((state s)(?c := READY)) (?c # rdyq v) (waitq v) (dlyq v) (parked v)"
    by (rule styp_rdy [where t = ?c and R = "rdyq v"])
      (use k0 nt in \<open>simp_all add: styp_upd kst_def\<close>)
  then have "kall (relink L1 ?s) (all_ready v)"
    using L1 k0 unfolding kall_def all_ready_def kst_def by simp
  then show ?thesis using e r cn moved_state by (intro exI [of _ "relink L1 ?s"]) simp
qed

lemma resume_refines:
  assumes k: "kall s v"
  shows "\<exists>s'. (do { (n, s) \<leftarrow> rt_get_first Rdy s; rt_switch_req n s }) = Some s' \<and>
     kabs s' (run_next v) \<and> moved s s'"
proof -
  obtain t R where R: "rdyq v = t # R" using k by (cases "rdyq v") (auto simp: kall_def)
  have L: "linv s (t # R) (waitq v) (dlyq v) (parked v)" using k R by (simp add: kall_def)
  obtain L1 where e: "(do { (n, s) \<leftarrow> rt_get_first Rdy s; rt_switch_req n s })
      = Some (relink L1 (s\<lparr>new_tsk := t, state := (state s)(t := RUNNING)\<rparr>))"
    and L1: "linv (relink L1 s) R (waitq v) (dlyq v) (insert t (parked v))"
    using switch_first [OF L] by blast
  let ?s = "relink L1 (s\<lparr>new_tsk := t, state := (state s)(t := RUNNING)\<rparr>)"
  have dist: "t \<notin> set R" using linv_distinct_rdy [OF L] by simp
  have tn: "t \<notin> parked v" "t \<notin> set (waitq v m)" for m using L by (auto simp: linv_def disj_ok_def)
  have "styp (state s) (t # R) (waitq v) (dlyq v) (parked v)" using k R by (simp add: kall_def)
  then have "styp (state ?s) R (waitq v) (dlyq v) (parked v)" "t \<notin> fst ` set (dlyq v)"
    using dist tn unfolding styp_def by auto
  moreover have "\<forall>x\<in>set R. prio s x \<le> prio s t" using linv_sorted [OF L] by simp
  ultimately have "kabs ?s (run_next v)"
    using L1 k tn R unfolding kabs_def kst_def kall_def run_next_def by simp
  then show ?thesis using e movedI by blast
qed

section \<open>Tasks moved to the ready list one by one\<close>

text \<open>The part of the relation that does not speak of the current task; \<open>F\<close> are the tasks in hand.\<close>

definition kbase :: "ptr set \<Rightarrow> os \<Rightarrow> kview \<Rightarrow> bool" where
  "kbase F s v \<longleftrightarrow>
     linv s (rdyq v) (waitq v) (dlyq v) (F \<union> parked v) \<and> F \<inter> parked v = {} \<and>
     styp (state s) (rdyq v) (waitq v) (dlyq v) (parked v) \<and> prios v = prio s"

definition kcur :: "os \<Rightarrow> kview \<Rightarrow> bool" where
  "kcur s v \<longleftrightarrow> cur v \<notin> fst ` set (dlyq v) \<and> state s (cur v) = RUNNING \<and> new_tsk s = cur v \<and>
     os_idle_TCB \<in> insert (cur v) (set (rdyq v))"

lemma klow_kbase: "klow s v \<longleftrightarrow> kbase {cur v} s v \<and> kcur s v"
  by (auto simp: klow_def kbase_def kcur_def)

lemma kall_kbase: "kall s v \<longleftrightarrow> kbase {} s v \<and> os_idle_TCB \<in> set (rdyq v)"
  by (auto simp: kall_def kbase_def)

lemma kbase_frame [simp]:
  "kbase F (s\<lparr>task_id := x0\<rparr>) v = kbase F s v"
  "kbase F (s\<lparr>interval_time := x1\<rparr>) v = kbase F s v"
  "kbase F (s\<lparr>events := x2\<rparr>) v = kbase F s v"
  "kbase F (s\<lparr>waits := x3\<rparr>) v = kbase F s v"
  "kbase F (s\<lparr>msg := x4\<rparr>) v = kbase F s v"
  "kbase F (s\<lparr>stack_frame := x5\<rparr>) v = kbase F s v"
  "kbase F (s\<lparr>priv_stack := x6\<rparr>) v = kbase F s v"
  "kbase F (s\<lparr>tsk_stack := x7\<rparr>) v = kbase F s v"
  "kbase F (s\<lparr>stack := x8\<rparr>) v = kbase F s v"
  "kbase F (s\<lparr>ptask := x9\<rparr>) v = kbase F s v"
  "kbase F (s\<lparr>tokens := x10\<rparr>) v = kbase F s v"
  "kbase F (s\<lparr>mut_prio := x11\<rparr>) v = kbase F s v"
  "kbase F (s\<lparr>mut_level := x12\<rparr>) v = kbase F s v"
  "kbase F (s\<lparr>mut_owner := x13\<rparr>) v = kbase F s v"
  "kbase F (s\<lparr>mbx_state := x14\<rparr>) v = kbase F s v"
  "kbase F (s\<lparr>mbx_isr_st := x15\<rparr>) v = kbase F s v"
  "kbase F (s\<lparr>mbx_first := x16\<rparr>) v = kbase F s v"
  "kbase F (s\<lparr>mbx_last := x17\<rparr>) v = kbase F s v"
  "kbase F (s\<lparr>mbx_count := x18\<rparr>) v = kbase F s v"
  "kbase F (s\<lparr>mbx_size := x19\<rparr>) v = kbase F s v"
  "kbase F (s\<lparr>mbx_msg := x20\<rparr>) v = kbase F s v"
  "kbase F (s\<lparr>psq_first := x21\<rparr>) v = kbase F s v"
  "kbase F (s\<lparr>psq_last := x22\<rparr>) v = kbase F s v"
  "kbase F (s\<lparr>psq_count := x23\<rparr>) v = kbase F s v"
  "kbase F (s\<lparr>psq_size := x24\<rparr>) v = kbase F s v"
  "kbase F (s\<lparr>psq_q := x25\<rparr>) v = kbase F s v"
  "kbase F (s\<lparr>run := x26\<rparr>) v = kbase F s v"
  "kbase F (s\<lparr>new_tsk := x27\<rparr>) v = kbase F s v"
  "kbase F (s\<lparr>robin_task := x28\<rparr>) v = kbase F s v"
  "kbase F (s\<lparr>robin_time := x29\<rparr>) v = kbase F s v"
  "kbase F (s\<lparr>robin_tout := x30\<rparr>) v = kbase F s v"
  "kbase F (s\<lparr>os_time := x31\<rparr>) v = kbase F s v"
  "kbase F (s\<lparr>os_active_TCB := x32\<rparr>) v = kbase F s v"
  "kbase F (s\<lparr>os_tick_irqn := x33\<rparr>) v = kbase F s v"
  "kbase F (s\<lparr>os_lock := x34\<rparr>) v = kbase F s v"
  "kbase F (s\<lparr>os_psh_flag := x35\<rparr>) v = kbase F s v"
  "kbase F (s\<lparr>pend_flags := x36\<rparr>) v = kbase F s v"
  "kbase F (s\<lparr>pend_sv := x37\<rparr>) v = kbase F s v"
  "kbase F (s\<lparr>pend_st := x38\<rparr>) v = kbase F s v"
  "kbase F (s\<lparr>st_ctrl := x39\<rparr>) v = kbase F s v"
  "kbase F (s\<lparr>psp := x40\<rparr>) v = kbase F s v"
  "kbase F (s\<lparr>irq_en := x41\<rparr>) v = kbase F s v"
  "kbase F (s\<lparr>mem := x42\<rparr>) v = kbase F s v"
  "kbase F (s\<lparr>addr := x43\<rparr>) v = kbase F s v"
  "kbase F (s\<lparr>tmr_next := x44\<rparr>) v = kbase F s v"
  "kbase F (s\<lparr>tmr_state := x45\<rparr>) v = kbase F s v"
  "kbase F (s\<lparr>tmr_type := x46\<rparr>) v = kbase F s v"
  "kbase F (s\<lparr>tmr_arg := x47\<rparr>) v = kbase F s v"
  "kbase F (s\<lparr>tmr_tcnt := x48\<rparr>) v = kbase F s v"
  "kbase F (s\<lparr>tmr_icnt := x49\<rparr>) v = kbase F s v"
  "kbase F (s\<lparr>tmr_ptimer := x50\<rparr>) v = kbase F s v"
  "kbase F (s\<lparr>os_timer_head := x51\<rparr>) v = kbase F s v"
  "kbase F (s\<lparr>osThreadId_osTimerThread := x52\<rparr>) v = kbase F s v"
  "kbase F (s\<lparr>osMessageQId_osTimerMessageQ := x53\<rparr>) v = kbase F s v"
  "kbase F (s\<lparr>os_initialized := x54\<rparr>) v = kbase F s v"
  "kbase F (s\<lparr>os_running := x55\<rparr>) v = kbase F s v"
  "kbase F (s\<lparr>callee_regs := y0\<rparr>) v = kbase F s v"
  "kbase F (s\<lparr>ipsr := y1\<rparr>) v = kbase F s v"
  "kbase F (s\<lparr>control := y2\<rparr>) v = kbase F s v"
  by (simp_all add: kbase_def linv_parts)

lemma kbase_relink_frame [simp]:
  "kbase F (relink L (s\<lparr>task_id := x0\<rparr>)) v = kbase F (relink L s) v"
  "kbase F (relink L (s\<lparr>interval_time := x1\<rparr>)) v = kbase F (relink L s) v"
  "kbase F (relink L (s\<lparr>events := x2\<rparr>)) v = kbase F (relink L s) v"
  "kbase F (relink L (s\<lparr>waits := x3\<rparr>)) v = kbase F (relink L s) v"
  "kbase F (relink L (s\<lparr>msg := x4\<rparr>)) v = kbase F (relink L s) v"
  "kbase F (relink L (s\<lparr>stack_frame := x5\<rparr>)) v = kbase F (relink L s) v"
  "kbase F (relink L (s\<lparr>priv_stack := x6\<rparr>)) v = kbase F (relink L s) v"
  "kbase F (relink L (s\<lparr>tsk_stack := x7\<rparr>)) v = kbase F (relink L s) v"
  "kbase F (relink L (s\<lparr>stack := x8\<rparr>)) v = kbase F (relink L s) v"
  "kbase F (relink L (s\<lparr>ptask := x9\<rparr>)) v = kbase F (relink L s) v"
  "kbase F (relink L (s\<lparr>tokens := x10\<rparr>)) v = kbase F (relink L s) v"
  "kbase F (relink L (s\<lparr>mut_prio := x11\<rparr>)) v = kbase F (relink L s) v"
  "kbase F (relink L (s\<lparr>mut_level := x12\<rparr>)) v = kbase F (relink L s) v"
  "kbase F (relink L (s\<lparr>mut_owner := x13\<rparr>)) v = kbase F (relink L s) v"
  "kbase F (relink L (s\<lparr>mbx_state := x14\<rparr>)) v = kbase F (relink L s) v"
  "kbase F (relink L (s\<lparr>mbx_isr_st := x15\<rparr>)) v = kbase F (relink L s) v"
  "kbase F (relink L (s\<lparr>mbx_first := x16\<rparr>)) v = kbase F (relink L s) v"
  "kbase F (relink L (s\<lparr>mbx_last := x17\<rparr>)) v = kbase F (relink L s) v"
  "kbase F (relink L (s\<lparr>mbx_count := x18\<rparr>)) v = kbase F (relink L s) v"
  "kbase F (relink L (s\<lparr>mbx_size := x19\<rparr>)) v = kbase F (relink L s) v"
  "kbase F (relink L (s\<lparr>mbx_msg := x20\<rparr>)) v = kbase F (relink L s) v"
  "kbase F (relink L (s\<lparr>psq_first := x21\<rparr>)) v = kbase F (relink L s) v"
  "kbase F (relink L (s\<lparr>psq_last := x22\<rparr>)) v = kbase F (relink L s) v"
  "kbase F (relink L (s\<lparr>psq_count := x23\<rparr>)) v = kbase F (relink L s) v"
  "kbase F (relink L (s\<lparr>psq_size := x24\<rparr>)) v = kbase F (relink L s) v"
  "kbase F (relink L (s\<lparr>psq_q := x25\<rparr>)) v = kbase F (relink L s) v"
  "kbase F (relink L (s\<lparr>run := x26\<rparr>)) v = kbase F (relink L s) v"
  "kbase F (relink L (s\<lparr>new_tsk := x27\<rparr>)) v = kbase F (relink L s) v"
  "kbase F (relink L (s\<lparr>robin_task := x28\<rparr>)) v = kbase F (relink L s) v"
  "kbase F (relink L (s\<lparr>robin_time := x29\<rparr>)) v = kbase F (relink L s) v"
  "kbase F (relink L (s\<lparr>robin_tout := x30\<rparr>)) v = kbase F (relink L s) v"
  "kbase F (relink L (s\<lparr>os_time := x31\<rparr>)) v = kbase F (relink L s) v"
  "kbase F (relink L (s\<lparr>os_active_TCB := x32\<rparr>)) v = kbase F (relink L s) v"
  "kbase F (relink L (s\<lparr>os_tick_irqn := x33\<rparr>)) v = kbase F (relink L s) v"
  "kbase F (relink L (s\<lparr>os_lock := x34\<rparr>)) v = kbase F (relink L s) v"
  "kbase F (relink L (s\<lparr>os_psh_flag := x35\<rparr>)) v = kbase F (relink L s) v"
  "kbase F (relink L (s\<lparr>pend_flags := x36\<rparr>)) v = kbase F (relink L s) v"
  "kbase F (relink L (s\<lparr>pend_sv := x37\<rparr>)) v = kbase F (relink L s) v"
  "kbase F (relink L (s\<lparr>pend_st := x38\<rparr>)) v = kbase F (relink L s) v"
  "kbase F (relink L (s\<lparr>st_ctrl := x39\<rparr>)) v = kbase F (relink L s) v"
  "kbase F (relink L (s\<lparr>psp := x40\<rparr>)) v = kbase F (relink L s) v"
  "kbase F (relink L (s\<lparr>irq_en := x41\<rparr>)) v = kbase F (relink L s) v"
  "kbase F (relink L (s\<lparr>mem := x42\<rparr>)) v = kbase F (relink L s) v"
  "kbase F (relink L (s\<lparr>addr := x43\<rparr>)) v = kbase F (relink L s) v"
  "kbase F (relink L (s\<lparr>tmr_next := x44\<rparr>)) v = kbase F (relink L s) v"
  "kbase F (relink L (s\<lparr>tmr_state := x45\<rparr>)) v = kbase F (relink L s) v"
  "kbase F (relink L (s\<lparr>tmr_type := x46\<rparr>)) v = kbase F (relink L s) v"
  "kbase F (relink L (s\<lparr>tmr_arg := x47\<rparr>)) v = kbase F (relink L s) v"
  "kbase F (relink L (s\<lparr>tmr_tcnt := x48\<rparr>)) v = kbase F (relink L s) v"
  "kbase F (relink L (s\<lparr>tmr_icnt := x49\<rparr>)) v = kbase F (relink L s) v"
  "kbase F (relink L (s\<lparr>tmr_ptimer := x50\<rparr>)) v = kbase F (relink L s) v"
  "kbase F (relink L (s\<lparr>os_timer_head := x51\<rparr>)) v = kbase F (relink L s) v"
  "kbase F (relink L (s\<lparr>osThreadId_osTimerThread := x52\<rparr>)) v = kbase F (relink L s) v"
  "kbase F (relink L (s\<lparr>osMessageQId_osTimerMessageQ := x53\<rparr>)) v = kbase F (relink L s) v"
  "kbase F (relink L (s\<lparr>os_initialized := x54\<rparr>)) v = kbase F (relink L s) v"
  "kbase F (relink L (s\<lparr>os_running := x55\<rparr>)) v = kbase F (relink L s) v"
  "kbase F (relink L (s\<lparr>callee_regs := y0\<rparr>)) v = kbase F (relink L s) v"
  "kbase F (relink L (s\<lparr>ipsr := y1\<rparr>)) v = kbase F (relink L s) v"
  "kbase F (relink L (s\<lparr>control := y2\<rparr>)) v = kbase F (relink L s) v"
  by (simp_all add: kbase_def)

lemma kbase_linv: "kbase F s v \<Longrightarrow> linv s (rdyq v) (waitq v) (dlyq v) (F \<union> parked v)"
  by (simp add: kbase_def)

lemma kbase_tcb:
  assumes "kbase F s v"
  shows "t \<in> F \<Longrightarrow> is_tcb t" and "t \<in> parked v \<Longrightarrow> is_tcb t" and "t \<in> set (waitq v n) \<Longrightarrow> is_tcb t"
    and "t \<in> set (rdyq v) \<Longrightarrow> is_tcb t"
  using linv_tcb [OF kbase_linv [OF assms]] by auto

lemma kbase_notin:
  assumes "kbase F s v"
  shows "t \<in> F \<Longrightarrow> t \<notin> set (rdyq v) \<and> t \<notin> set (waitq v n) \<and> t \<notin> parked v"
    and "t \<in> set (waitq v n) \<Longrightarrow> t \<notin> set (rdyq v) \<and> t \<notin> F \<and> t \<notin> parked v"
    and "t \<in> parked v \<Longrightarrow> t \<notin> set (rdyq v) \<and> t \<notin> F"
proof -
  have L: "linv s (rdyq v) (waitq v) (dlyq v) (F \<union> parked v)" and dj: "F \<inter> parked v = {}"
    using assms by (simp_all add: kbase_def)
  show "t \<in> F \<Longrightarrow> t \<notin> set (rdyq v) \<and> t \<notin> set (waitq v n) \<and> t \<notin> parked v"
    using linv_notin_rdy [OF L, of t] linv_notin_wait [OF L, of t n] dj by blast
  show "t \<in> set (waitq v n) \<Longrightarrow> t \<notin> set (rdyq v) \<and> t \<notin> F \<and> t \<notin> parked v"
    using linv_wait_notin [OF L, of t n] by blast
  show "t \<in> parked v \<Longrightarrow> t \<notin> set (rdyq v) \<and> t \<notin> F"
    using linv_notin_rdy [OF L, of t] dj by blast
qed

lemma kbase_state:
  assumes "kbase F s v" and "t \<in> F"
  shows "kbase F (s\<lparr>state := (state s)(t := x)\<rparr>) v"
  using assms kbase_notin(1) [OF assms] styp_upd [of "state s" "rdyq v" "waitq v" "dlyq v" "parked v" t x]
  by (simp add: kbase_def)

lemma take_first_base:
  assumes k: "kbase F s v" and W: "waitq v n = t # ts"
  shows "\<exists>L. rt_get_first (Obj n) s = Some (t, relink L s) \<and>
     kbase (insert t F) (relink L s) (v\<lparr>waitq := (waitq v)(n := ts)\<rparr>)"
proof -
  obtain L where e: "rt_get_first (Obj n) s = Some (t, relink L s)"
    and L1: "linv (relink L s) (rdyq v) ((waitq v)(n := ts)) (dlyq v) (insert t (F \<union> parked v))"
    using rl_get_first_wait [OF kbase_linv [OF k] W] by blast
  have tw: "t \<in> set (waitq v n)" using W by simp
  have "styp (state s) (rdyq v) ((waitq v)(n := ts)) (dlyq v) (parked v)"
    by (rule styp_wait_mono [where W = "waitq v"]) (use k W in \<open>auto simp: kbase_def\<close>)
  then have "kbase (insert t F) (relink L s) (v\<lparr>waitq := (waitq v)(n := ts)\<rparr>)"
    using k L1 kbase_notin(2) [OF k tw] unfolding kbase_def by simp
  with e show ?thesis by blast
qed

lemma rmv_dly_base:
  assumes k: "kbase F s v" and t: "t \<in> F \<union> parked v"
  shows "\<exists>L. rt_rmv_dly t s = Some (relink L s) \<and> kbase F (relink L s) (v\<lparr>dlyq := rmv_dly t (dlyq v)\<rparr>)"
proof -
  obtain L where e: "rt_rmv_dly t s = Some (relink L s)"
    and L1: "linv (relink L s) (rdyq v) (waitq v) (rmv_dly t (dlyq v)) (F \<union> parked v)"
    using rl_rmv_dly [OF kbase_linv [OF k], of t] t by auto
  have "styp (state s) (rdyq v) (waitq v) (rmv_dly t (dlyq v)) (parked v)"
    by (rule styp_dly_mono [OF _ rmv_dly_subset]) (use k in \<open>simp add: kbase_def\<close>)
  then have "kbase F (relink L s) (v\<lparr>dlyq := rmv_dly t (dlyq v)\<rparr>)" using k L1 unfolding kbase_def by simp
  with e show ?thesis by blast
qed

lemma ready_base:
  assumes k: "kbase F s v" and t: "t \<in> F" "t \<notin> fst ` set (dlyq v)"
  shows "\<exists>L. rt_put_prio Rdy t s = Some (relink L s) \<and>
     kbase (F - {t}) (relink L (s\<lparr>state := (state s)(t := READY)\<rparr>))
       (v\<lparr>rdyq := ins_prio (prios v) t (rdyq v)\<rparr>)"
proof -
  have F: "F \<union> parked v - {t} = (F - {t}) \<union> parked v" using kbase_notin(1) [OF k t(1)] by blast
  have pv: "prios v = prio s" using k by (simp add: kbase_def)
  obtain L where e: "rt_put_prio Rdy t s = Some (relink L s)"
    and L1: "linv (relink L s) (ins_prio (prios v) t (rdyq v)) (waitq v) (dlyq v) ((F - {t}) \<union> parked v)"
    using rl_put_prio_rdy [OF kbase_linv [OF k], of t] t unfolding F pv by blast
  have "styp ((state s)(t := READY)) (ins_prio (prios v) t (rdyq v)) (waitq v) (dlyq v) (parked v)"
    by (rule styp_rdy [where t = t and R = "rdyq v"])
      (use k t kbase_notin(1) [OF k t(1)] in \<open>simp_all add: styp_upd kbase_def\<close>)
  then have "kbase (F - {t}) (relink L (s\<lparr>state := (state s)(t := READY)\<rparr>))
       (v\<lparr>rdyq := ins_prio (prios v) t (rdyq v)\<rparr>)"
    using k L1 unfolding kbase_def by auto
  with e show ?thesis by blast
qed

lemma ready_base':
  assumes k: "kbase F s v" and t: "t \<in> F" "t \<notin> fst ` set (dlyq v)"
  shows "\<exists>L. rt_put_prio Rdy t (s\<lparr>state := (state s)(t := READY)\<rparr>)
       = Some (relink L (s\<lparr>state := (state s)(t := READY)\<rparr>)) \<and>
     kbase (F - {t}) (relink L (s\<lparr>state := (state s)(t := READY)\<rparr>))
       (v\<lparr>rdyq := ins_prio (prios v) t (rdyq v)\<rparr>)"
  using ready_base [OF kbase_state [OF k t(1), of READY] t] by simp

end
