(* ===== verification/Rt_Irq.thy ===== *)
theory Rt_Irq
  imports Kernel_Sched
begin

text \<open>
  Requests from interrupt handlers and the scheduler lock (\<open>rt_System.c\<close>, macros of
  \<open>rt_HAL_CM.h\<close>). Of the interrupt control and state register the kernel uses the bits
  that show, set and clear the pending state of PendSV (28, 28, 27) and of SysTick (26, 26, 25);
  of the interrupt enable registers the bit of the tick interrupt.
\<close>

section \<open>Registers\<close>

definition NVIC_INT_CTRL :: "os \<Rightarrow> u32" where
  "NVIC_INT_CTRL s = (if pend_sv s then push_bit 28 1 else 0) OR (if pend_st s then push_bit 26 1 else 0)"

definition set_NVIC_INT_CTRL :: "u32 \<Rightarrow> os \<Rightarrow> os" where
  "set_NVIC_INT_CTRL v s = s\<lparr>
     pend_sv := (if bit v 28 then True else if bit v 27 then False else pend_sv s),
     pend_st := (if bit v 26 then True else if bit v 25 then False else pend_st s)\<rparr>"

definition OS_PEND_IRQ :: "os \<Rightarrow> os" where
  "OS_PEND_IRQ s = set_NVIC_INT_CTRL (push_bit 28 1) s"

definition OS_PENDING :: "os \<Rightarrow> u32" where
  "OS_PENDING s = drop_bit 26 (NVIC_INT_CTRL s) AND (push_bit 2 1 OR 1)"

definition OS_UNPEND :: "os \<Rightarrow> os" where
  "OS_UNPEND s = (let fl = ucast (OS_PENDING s) :: u8; s = s\<lparr>pend_flags := fl\<rparr>
     in set_NVIC_INT_CTRL (push_bit 25 (ucast fl)) s)"

definition OS_PEND :: "u8 \<Rightarrow> bool \<Rightarrow> os \<Rightarrow> os" where
  "OS_PEND fl p s = set_NVIC_INT_CTRL (push_bit 26 (ucast fl OR push_bit 2 (of_bool p))) s"

definition OS_X_PENDING :: "os \<Rightarrow> u32" where
  "OS_X_PENDING s = drop_bit 28 (NVIC_INT_CTRL s) AND 1"

definition OS_X_UNPEND :: "os \<Rightarrow> os" where
  "OS_X_UNPEND s = (let fl = ucast (OS_X_PENDING s) :: u8; s = s\<lparr>pend_flags := fl\<rparr>
     in set_NVIC_INT_CTRL (push_bit 27 (ucast fl)) s)"

definition OS_X_PEND :: "u8 \<Rightarrow> bool \<Rightarrow> os \<Rightarrow> os" where
  "OS_X_PEND fl p s = set_NVIC_INT_CTRL (push_bit 28 (ucast fl OR of_bool p)) s"

section \<open>Operations\<close>

definition rt_tsk_lock :: "os \<Rightarrow> os" where
  "rt_tsk_lock s =
     (if os_tick_irqn s < 0 then
        let s = s\<lparr>st_ctrl := 0x0005\<rparr>; s = s\<lparr>os_lock := True\<rparr> in OS_UNPEND s
      else
        let s = s\<lparr>irq_en := (irq_en s)(os_tick_irqn s := False)\<rparr>; s = s\<lparr>os_lock := True\<rparr> in OS_X_UNPEND s)"

definition rt_tsk_unlock :: "os \<Rightarrow> os" where
  "rt_tsk_unlock s =
     (if os_tick_irqn s < 0 then
        let s = s\<lparr>st_ctrl := 0x0007\<rparr>; s = s\<lparr>os_lock := False\<rparr>;
            s = OS_PEND (pend_flags s) (os_psh_flag s) s in s\<lparr>os_psh_flag := False\<rparr>
      else
        let s = s\<lparr>irq_en := (irq_en s)(os_tick_irqn s := True)\<rparr>; s = s\<lparr>os_lock := False\<rparr>;
            s = OS_X_PEND (pend_flags s) (os_psh_flag s) s in s\<lparr>os_psh_flag := False\<rparr>)"

definition rt_psh_req :: "os \<Rightarrow> os" where
  "rt_psh_req s = (if \<not> os_lock s then OS_PEND_IRQ s else s\<lparr>os_psh_flag := True\<rparr>)"

text \<open>The request that an interrupt handler makes: queue the entry, then ask for post service.\<close>

definition isr_request :: "ptr \<Rightarrow> u32 \<Rightarrow> os \<Rightarrow> os option" where
  "isr_request entry arg s = do {
     s \<leftarrow> rt_psq_enq entry arg s;
     Some (rt_psh_req s)
   }"

section \<open>Facts\<close>

lemma rt_psh_req_eq:
  "rt_psh_req s = (if os_lock s then s\<lparr>os_psh_flag := True\<rparr> else s\<lparr>pend_sv := True, pend_st := pend_st s\<rparr>)"
  by (simp add: rt_psh_req_def OS_PEND_IRQ_def set_NVIC_INT_CTRL_def bit_push_bit_iff)

lemma NVIC_bits:
  "bit (NVIC_INT_CTRL s) 28 = pend_sv s" "bit (NVIC_INT_CTRL s) 26 = pend_st s"
  "\<not> bit (NVIC_INT_CTRL s) 27"
  by (auto simp: NVIC_INT_CTRL_def bit_simps)

lemma OS_PENDING_eq: "OS_PENDING s = (if pend_sv s then 4 else 0) + (if pend_st s then 1 else 0)"
  by (cases "pend_sv s"; cases "pend_st s") (simp_all add: OS_PENDING_def NVIC_INT_CTRL_def)

text \<open>A request made while the scheduler is locked, and what was pending before, are pending
  again after the unlock; nothing is pending in between.\<close>

lemma rt_tsk_lock_spec:
  assumes "os_tick_irqn s < 0"
  shows "rt_tsk_lock s = s\<lparr>st_ctrl := 5, os_lock := True,
     pend_flags := (if pend_sv s then 4 else 0) + (if pend_st s then 1 else 0),
     pend_sv := False, pend_st := False\<rparr>"
  using assms unfolding rt_tsk_lock_def OS_UNPEND_def
  by (cases "pend_sv s"; cases "pend_st s")
    (simp_all add: OS_PENDING_eq set_NVIC_INT_CTRL_def Let_def bit_simps)

lemma rt_tsk_unlock_spec:
  assumes "os_tick_irqn s < 0" and "\<not> bit (pend_flags s) 1"
  shows "rt_tsk_unlock s = s\<lparr>st_ctrl := 7, os_lock := False,
     pend_sv := (pend_sv s \<or> bit (pend_flags s) 2 \<or> os_psh_flag s) , pend_st := (pend_st s \<or> bit (pend_flags s) 0),
     os_psh_flag := False\<rparr>"
  using assms unfolding rt_tsk_unlock_def OS_PEND_def
  by (simp add: set_NVIC_INT_CTRL_def Let_def bit_simps)

end
