(* ===== verification/Rt_Semaphore.thy ===== *)
theory Rt_Semaphore
  imports Rt_Irq
begin

text \<open>
  Semaphores (\<open>rt_Semaphore.c\<close>, the build for CMSIS RTOS): a count of free tokens and the list
  of tasks that wait for one.
\<close>

section \<open>Operations\<close>

definition rt_sem_init :: "ptr \<Rightarrow> u16 \<Rightarrow> os \<Rightarrow> os option" where
  "rt_sem_init p_SCB token_count s = do {
     s \<leftarrow> wr cb_type_update p_SCB SCB s;
     s \<leftarrow> wr p_lnk_update p_SCB NULL s;
     wr tokens_update p_SCB token_count s
   }"

text \<open>The loop of \<open>rt_sem_delete\<close> that makes every waiting task ready, and the check whether one
  of them preempts the running task.\<close>

partial_function (option) sem_delete_loop :: "ptr \<Rightarrow> os \<Rightarrow> os option" where
  "sem_delete_loop p_SCB s =
     (if p_lnk s p_SCB \<noteq> NULL then do {
        (p_TCB, s) \<leftarrow> rt_get_first p_SCB s;
        s \<leftarrow> rt_ret_val p_TCB 0 s;
        s \<leftarrow> rt_rmv_dly p_TCB s;
        s \<leftarrow> wr state_update p_TCB READY s;
        s \<leftarrow> rt_put_prio Rdy p_TCB s;
        sem_delete_loop p_SCB s
      }
      else Some s)"

definition preempt_check :: "os \<Rightarrow> os option" where
  "preempt_check s =
     (if p_lnk s Rdy \<noteq> NULL then do {
        pr \<leftarrow> rd prio (run s) s;
        if pr < prio s (p_lnk s Rdy) then do {
          s \<leftarrow> rt_put_prio Rdy (run s) s;
          s \<leftarrow> wr state_update (run s) READY s;
          rt_dispatch NULL s
        } else Some s
      }
      else Some s)"

definition rt_sem_delete :: "ptr \<Rightarrow> os \<Rightarrow> (u32 \<times> os) option" where
  "rt_sem_delete p_SCB s = do {
     _ \<leftarrow> rd p_lnk p_SCB s;
     s \<leftarrow> sem_delete_loop p_SCB s;
     s \<leftarrow> preempt_check s;
     s \<leftarrow> wr cb_type_update p_SCB 0 s;
     Some (OS_R_OK, s)
   }"

definition rt_sem_send :: "ptr \<Rightarrow> os \<Rightarrow> (u32 \<times> os) option" where
  "rt_sem_send p_SCB s = do {
     lnk \<leftarrow> rd p_lnk p_SCB s;
     if lnk \<noteq> NULL then do {
       (p_TCB, s) \<leftarrow> rt_get_first p_SCB s;
       s \<leftarrow> rt_ret_val p_TCB 1 s;
       s \<leftarrow> rt_rmv_dly p_TCB s;
       s \<leftarrow> rt_dispatch p_TCB s;
       Some (OS_R_OK, s)
     }
     else do {
       s \<leftarrow> wr tokens_update p_SCB (tokens s p_SCB + 1) s;
       Some (OS_R_OK, s)
     }
   }"

definition rt_sem_wait :: "ptr \<Rightarrow> u16 \<Rightarrow> os \<Rightarrow> (u32 \<times> os) option" where
  "rt_sem_wait p_SCB timeout s = do {
     tk \<leftarrow> rd tokens p_SCB s;
     if tk \<noteq> 0 then do {
       s \<leftarrow> wr tokens_update p_SCB (tk - 1) s;
       Some (OS_R_OK, s)
     }
     else if timeout = 0 then Some (OS_R_TMO, s)
     else do {
       s \<leftarrow> (if p_lnk s p_SCB \<noteq> NULL then rt_put_prio p_SCB (run s) s else put_first_waiter p_SCB s);
       s \<leftarrow> rt_block timeout WAIT_SEM s;
       Some (OS_R_TMO, s)
     }
   }"

definition isr_sem_send :: "ptr \<Rightarrow> os \<Rightarrow> os option" where
  "isr_sem_send p_SCB s = do {
     s \<leftarrow> rt_psq_enq p_SCB 0 s;
     Some (rt_psh_req s)
   }"

definition rt_sem_psh :: "ptr \<Rightarrow> os \<Rightarrow> os option" where
  "rt_sem_psh p_CB s = do {
     lnk \<leftarrow> rd p_lnk p_CB s;
     if lnk \<noteq> NULL then do {
       (p_TCB, s) \<leftarrow> rt_get_first p_CB s;
       s \<leftarrow> rt_rmv_dly p_TCB s;
       s \<leftarrow> wr state_update p_TCB READY s;
       s \<leftarrow> rt_ret_val p_TCB 1 s;
       rt_put_prio Rdy p_TCB s
     }
     else wr tokens_update p_CB (tokens s p_CB + 1) s
   }"

section \<open>Waiting and releasing\<close>

text \<open>The return value a task finds in its saved frame.\<close>

definition give_ret :: "ptr \<Rightarrow> u32 \<Rightarrow> os \<Rightarrow> os" where
  "give_ret t x s = s\<lparr>mem := (mem s)(tsk_stack s t + 32 := x)\<rparr>"

lemma rt_ret_val_give: "is_tcb t \<Longrightarrow> rt_ret_val t x s = Some (give_ret t x s)"
  by (simp add: give_ret_def)

lemma give_ret_relink [simp]: "give_ret t x (relink L s) = relink L (give_ret t x s)"
  by (simp add: give_ret_def)

lemma give_ret_run [simp]: "run (give_ret t x s) = run s"
  by (simp add: give_ret_def)

lemma frame_r0_give [simp]: "frame_r0 (give_ret t x s) t = x"
  by (simp add: give_ret_def frame_r0_def)

lemma wake_one_refines:
  assumes k: "kabs s v" and r: "run s = cur v" and W: "waitq v n = t # ts"
  shows "\<exists>s'. (do { (p, s) \<leftarrow> rt_get_first (Obj n) s;
                  s \<leftarrow> rt_ret_val p x s; s \<leftarrow> rt_rmv_dly p s; rt_dispatch p s }) = Some s' \<and>
     kabs s' (wake_one n v) \<and> moved (give_ret t x s) s'"
proof -
  have k0: "kst {} s v" using k by (simp add: kabs_def)
  have tt: "is_tcb t" using kst_wait_tcb [OF k0, of t n] W by simp
  obtain L1 where e1: "rt_get_first (Obj n) s = Some (t, relink L1 s)"
    and k1: "kst {t} (relink L1 s) (v\<lparr>waitq := (waitq v)(n := ts)\<rparr>)"
    using take_first_refines [OF k0 W] by auto
  let ?s1 = "relink L1 (give_ret t x s)"
  have k1': "kst {t} ?s1 (v\<lparr>waitq := (waitq v)(n := ts)\<rparr>)" using k1 by (simp add: give_ret_def)
  obtain L2 where e2: "rt_rmv_dly t ?s1 = Some (relink L2 ?s1)"
    and k2: "kst {t} (relink L2 ?s1) (v\<lparr>waitq := (waitq v)(n := ts), dlyq := rmv_dly t (dlyq v)\<rparr>)"
    using rmv_dly_refines [OF k1', of t] by auto
  have "run (relink L2 ?s1) = cur v" using r by simp
  then obtain s' where e3: "rt_dispatch t (relink L2 ?s1) = Some s'"
    and k3: "kabs s' (dispatch t (v\<lparr>waitq := (waitq v)(n := ts), dlyq := rmv_dly t (dlyq v)\<rparr>))"
    and m: "moved (relink L2 ?s1) s'"
    using dispatch_refines [OF k2] by auto
  have "wake_one n v = dispatch t (v\<lparr>waitq := (waitq v)(n := ts), dlyq := rmv_dly t (dlyq v)\<rparr>)"
    using W by (simp add: wake_one_def take_waiter_def)
  moreover have "moved (give_ret t x s) s'" using m moved_relink moved_trans by (metis relink_relink)
  ultimately show ?thesis using e1 e2 e3 k3 tt by (simp add: rt_ret_val_give del: rt_ret_val_eq)
qed

lemma SCB_types [simp]: "sem_mbx SCB" "sem_mbx MCB" "sem_mbx MUCB" "\<not> sem_mbx 0"
  by (simp_all add: sem_mbx_def cb_types)

lemma kabs_obj_waits:
  "kabs s v \<Longrightarrow> sem_mbx (cb_type s (Obj n)) \<Longrightarrow> p_lnk s (Obj n) = NULL \<longleftrightarrow> waitq v n = []"
  using obj_waits [OF kst_linv] by (simp add: kabs_def)

lemma rt_sem_wait_token:
  assumes "tokens s (Obj n) \<noteq> 0"
  shows "rt_sem_wait (Obj n) timeout s
     = Some (OS_R_OK, s\<lparr>tokens := (tokens s)(Obj n := tokens s (Obj n) - 1)\<rparr>)"
  using assms by (simp add: rt_sem_wait_def)

lemma rt_sem_wait_poll:
  "tokens s (Obj n) = 0 \<Longrightarrow> rt_sem_wait (Obj n) 0 s = Some (OS_R_TMO, s)"
  by (simp add: rt_sem_wait_def)

lemma rt_sem_wait_block:
  assumes k: "kabs s v" and r: "run s = cur v" and i: "cur v \<noteq> os_idle_TCB"
    and ty: "cb_type s (Obj n) = SCB" and z: "tokens s (Obj n) = 0" and to: "timeout \<noteq> 0"
  shows "\<exists>s'. rt_sem_wait (Obj n) timeout s = Some (OS_R_TMO, s') \<and>
     kabs s' (block_on n (unat timeout) v) \<and> moved s s'"
proof -
  have "\<exists>L. (if p_lnk s (Obj n) \<noteq> NULL then rt_put_prio (Obj n) (run s) s else put_first_waiter (Obj n) s)
      = Some (relink L s) \<and> kenq n (relink L s) v"
    using enqueue_refines [OF k r, of n] ty by (cases "waitq v n = []") auto
  then obtain L where e: "(if p_lnk s (Obj n) \<noteq> NULL then rt_put_prio (Obj n) (run s) s
      else put_first_waiter (Obj n) s) = Some (relink L s)" and k1: "kenq n (relink L s) v" by blast
  obtain s' where e2: "rt_block timeout WAIT_SEM (relink L s) = Some s'"
    and k2: "kabs s' (block_on n (unat timeout) v)" and m: "moved (relink L s) s'"
    using block_on_refines [OF k1 _ i to, of WAIT_SEM] r by auto
  have "moved s s'" using moved_relink m by (rule moved_trans)
  then show ?thesis using e e2 k2 z to by (simp add: rt_sem_wait_def)
qed

lemma rt_sem_send_wake:
  assumes k: "kabs s v" and r: "run s = cur v" and ty: "sem_mbx (cb_type s (Obj n))" and W: "waitq v n = t # ts"
  shows "\<exists>s'. rt_sem_send (Obj n) s = Some (OS_R_OK, s') \<and> kabs s' (wake_one n v) \<and>
     moved (give_ret t 1 s) s'"
proof -
  have "p_lnk s (Obj n) \<noteq> NULL" using kabs_obj_waits [OF k ty] W by simp
  then show ?thesis using wake_one_refines [OF k r W, of 1]
    by (auto simp: rt_sem_send_def bind_eq_Some_conv simp del: rt_ret_val_eq)
qed

lemma rt_sem_send_store:
  assumes k: "kabs s v" and ty: "sem_mbx (cb_type s (Obj n))" and W: "waitq v n = []"
  shows "rt_sem_send (Obj n) s = Some (OS_R_OK, s\<lparr>tokens := (tokens s)(Obj n := tokens s (Obj n) + 1)\<rparr>)"
  using kabs_obj_waits [OF k ty] W by (simp add: rt_sem_send_def)

section \<open>Post service\<close>

text \<open>The first task that waits for object \<open>n\<close> becomes ready, without preempting anybody.\<close>

definition ready_one :: "nat \<Rightarrow> kview \<Rightarrow> kview" where
  "ready_one n v = (take_waiter n v)\<lparr>rdyq := ins_prio (prios v) (hd (waitq v n)) (rdyq v)\<rparr>"

lemma kall_obj_waits:
  "kall s v \<Longrightarrow> sem_mbx (cb_type s (Obj n)) \<Longrightarrow> p_lnk s (Obj n) = NULL \<longleftrightarrow> waitq v n = []"
  using obj_waits [OF kbase_linv] unfolding kall_kbase by blast

lemma kall_frame [simp]:
  "kall (s\<lparr>mem := x1\<rparr>) v = kall s v" "kall (relink L (s\<lparr>mem := x1\<rparr>)) v = kall (relink L s) v"
  "kall (s\<lparr>tokens := x2\<rparr>) v = kall s v" "kall (s\<lparr>mbx_count := x3\<rparr>) v = kall s v"
  "kall (s\<lparr>mbx_first := x3\<rparr>) v = kall s v" "kall (s\<lparr>mbx_msg := x4\<rparr>) v = kall s v"
  "kall (s\<lparr>psq_count := x5\<rparr>) v = kall s v" "kall (s\<lparr>psq_last := x5\<rparr>) v = kall s v"
  "kall (s\<lparr>os_time := x6\<rparr>) v = kall s v" "kall (s\<lparr>robin_task := x7\<rparr>) v = kall s v"
  "kall (s\<lparr>robin_time := x8\<rparr>) v = kall s v" "kall (s\<lparr>events := x8'\<rparr>) v = kall s v"
  "kall (s\<lparr>waits := x8'\<rparr>) v = kall s v"
  by (simp_all add: kall_kbase)

lemma upd_state_mem: "s\<lparr>state := st, mem := m\<rparr> = s\<lparr>mem := m, state := st\<rparr>"
  by simp

lemma rt_sem_psh_wake:
  assumes k: "kall s v" and ty: "sem_mbx (cb_type s (Obj n))" and W: "waitq v n = t # ts"
  shows "\<exists>s'. rt_sem_psh (Obj n) s = Some s' \<and> kall s' (ready_one n v) \<and> moved (give_ret t 1 s) s'"
proof -
  have b: "kbase {} s v" and i: "os_idle_TCB \<in> set (rdyq v)" using k by (simp_all add: kall_kbase)
  have tt: "is_tcb t" using kbase_tcb(3) [OF b, of t n] W by simp
  obtain L1 where e1: "rt_get_first (Obj n) s = Some (t, relink L1 s)"
    and k1: "kbase {t} (relink L1 s) (v\<lparr>waitq := (waitq v)(n := ts)\<rparr>)"
    using take_first_base [OF b W] by auto
  obtain L2 where e2: "rt_rmv_dly t (relink L1 s) = Some (relink L2 s)"
    and k2: "kbase {t} (relink L2 s) (v\<lparr>waitq := (waitq v)(n := ts), dlyq := rmv_dly t (dlyq v)\<rparr>)"
    using rmv_dly_base [OF k1, of t] by auto
  let ?s2 = "relink L2 (give_ret t 1 s)"
  have k2': "kbase {t} ?s2 (v\<lparr>waitq := (waitq v)(n := ts), dlyq := rmv_dly t (dlyq v)\<rparr>)"
    using k2 by (simp add: give_ret_def)
  obtain L3 where e3: "rt_put_prio Rdy t (?s2\<lparr>state := (state ?s2)(t := READY)\<rparr>)
      = Some (relink L3 (?s2\<lparr>state := (state ?s2)(t := READY)\<rparr>))"
    and k3: "kbase {} (relink L3 (?s2\<lparr>state := (state ?s2)(t := READY)\<rparr>))
      (v\<lparr>waitq := (waitq v)(n := ts), dlyq := rmv_dly t (dlyq v), rdyq := ins_prio (prios v) t (rdyq v)\<rparr>)"
    using ready_base' [OF k2', of t] by auto
  have v: "ready_one n v = v\<lparr>waitq := (waitq v)(n := ts), dlyq := rmv_dly t (dlyq v), rdyq := ins_prio (prios v) t (rdyq v)\<rparr>"
    using W by (simp add: ready_one_def take_waiter_def)
  have "p_lnk s (Obj n) \<noteq> NULL" using kall_obj_waits [OF k ty] W by simp
  then have "rt_sem_psh (Obj n) s = Some (relink L3 (?s2\<lparr>state := (state ?s2)(t := READY)\<rparr>))"
    using e1 e2 e3 tt by (simp add: rt_sem_psh_def give_ret_def upd_state_mem)
  moreover have "kall (relink L3 (?s2\<lparr>state := (state ?s2)(t := READY)\<rparr>)) (ready_one n v)"
    using k3 i unfolding v kall_kbase by simp
  moreover have "moved (give_ret t 1 s) (relink L3 (?s2\<lparr>state := (state ?s2)(t := READY)\<rparr>))"
    by (simp add: moved_state)
  ultimately show ?thesis by blast
qed

lemma rt_sem_psh_store:
  assumes "kall s v" and "sem_mbx (cb_type s (Obj n))" and "waitq v n = []"
  shows "rt_sem_psh (Obj n) s = Some (s\<lparr>tokens := (tokens s)(Obj n := tokens s (Obj n) + 1)\<rparr>)"
  using kall_obj_waits [OF assms(1,2)] assms(3) by (simp add: rt_sem_psh_def)

section \<open>Deletion\<close>

text \<open>Everybody who waits for object \<open>n\<close> becomes ready, in the order of the waiting list.\<close>

definition wake_all :: "nat \<Rightarrow> kview \<Rightarrow> kview" where
  "wake_all n v = v\<lparr>rdyq := wake_rdy (prios v) (waitq v n) (rdyq v), waitq := (waitq v)(n := []),
     dlyq := filter (\<lambda>x. fst x \<notin> set (waitq v n)) (dlyq v)\<rparr>"

definition preempt :: "kview \<Rightarrow> kview" where
  "preempt v = (if rdyq v \<noteq> [] \<and> prios v (cur v) < prios v (hd (rdyq v)) then resched v else v)"

definition give_all :: "ptr list \<Rightarrow> u32 \<Rightarrow> os \<Rightarrow> os" where
  "give_all ts x s = fold (\<lambda>t s. give_ret t x s) ts s"

lemma give_all_simps [simp]:
  "give_all [] x s = s" "give_all (t # ts) x s = give_all ts x (give_ret t x s)"
  by (simp_all add: give_all_def)

lemma moved_give_ret:
  assumes "moved s s'"
  shows "moved (give_ret t x s) (give_ret t x s')"
proof -
  obtain L st n where "s' = relink L (s\<lparr>new_tsk := n, state := st\<rparr>)" using assms by (auto simp: moved_def)
  then have "give_ret t x s' = relink L ((give_ret t x s)\<lparr>new_tsk := n, state := st\<rparr>)"
    by (simp add: give_ret_def) (rule arg_cong [where f = "relink L"], simp)
  then show ?thesis by (simp add: movedI)
qed

lemma moved_give_all: "moved s s' \<Longrightarrow> moved (give_all ts x s) (give_all ts x s')"
  by (induction ts arbitrary: s s') (auto intro: moved_give_ret)

lemma sem_delete_step:
  assumes b: "kbase {cur v} s v" and c: "kcur s v" and W: "waitq v n = t # ts"
  shows "\<exists>s'. (do { (p, s) \<leftarrow> rt_get_first (Obj n) s; s \<leftarrow> rt_ret_val p 0 s; s \<leftarrow> rt_rmv_dly p s;
                  s \<leftarrow> wr state_update p READY s; rt_put_prio Rdy p s }) = Some s' \<and>
     kbase {cur v} s' (ready_one n v) \<and> kcur s' (ready_one n v) \<and> moved (give_ret t 0 s) s'"
proof -
  have tw: "t \<in> set (waitq v n)" using W by simp
  have tt: "is_tcb t" using kbase_tcb(3) [OF b tw] .
  have tc: "t \<noteq> cur v" using kbase_notin(2) [OF b tw] by auto
  obtain L1 where e1: "rt_get_first (Obj n) s = Some (t, relink L1 s)"
    and k1: "kbase {t, cur v} (relink L1 s) (v\<lparr>waitq := (waitq v)(n := ts)\<rparr>)"
    using take_first_base [OF b W] by auto
  let ?s1 = "relink L1 (give_ret t 0 s)"
  have k1': "kbase {t, cur v} ?s1 (v\<lparr>waitq := (waitq v)(n := ts)\<rparr>)" using k1 by (simp add: give_ret_def)
  obtain L2 where e2: "rt_rmv_dly t ?s1 = Some (relink L2 ?s1)"
    and k2: "kbase {t, cur v} (relink L2 ?s1) (v\<lparr>waitq := (waitq v)(n := ts), dlyq := rmv_dly t (dlyq v)\<rparr>)"
    using rmv_dly_base [OF k1', of t] by auto
  let ?s2 = "relink L2 ?s1" and ?st = "(state s)(t := READY)"
  let ?s3 = "?s2\<lparr>state := (state ?s2)(t := READY)\<rparr>"
  have "{t, cur v} - {t} = {cur v}" using tc by auto
  then obtain L3 where e3: "rt_put_prio Rdy t ?s3 = Some (relink L3 ?s3)"
    and k3: "kbase {cur v} (relink L3 ?s3)
      (v\<lparr>waitq := (waitq v)(n := ts), dlyq := rmv_dly t (dlyq v), rdyq := ins_prio (prios v) t (rdyq v)\<rparr>)"
    using ready_base' [OF k2, of t] by auto
  have v: "ready_one n v = v\<lparr>waitq := (waitq v)(n := ts), dlyq := rmv_dly t (dlyq v), rdyq := ins_prio (prios v) t (rdyq v)\<rparr>"
    using W by (simp add: ready_one_def take_waiter_def)
  have "cur v \<notin> fst ` set (rmv_dly t (dlyq v))"
    by (rule contra_subsetD [OF rmv_dly_subset]) (use c in \<open>simp add: kcur_def\<close>)
  then have "kcur (relink L3 ?s3) (ready_one n v)"
    using c tc unfolding v kcur_def by (auto simp: give_ret_def)
  moreover have "moved (give_ret t 0 s) (relink L3 ?s3)" by (simp add: moved_state)
  ultimately show ?thesis
    using e1 e2 e3 k3 tt unfolding v
    by (intro exI [of _ "relink L3 ?s3"]) (simp add: rt_ret_val_give del: rt_ret_val_eq)
qed

lemma ready_one_all: "waitq v n = t # ts \<Longrightarrow> wake_all n (ready_one n v) = wake_all n v"
  by (auto simp: wake_all_def ready_one_def take_waiter_def wake_simps rmv_dly_def intro!: filter_cong)

lemma sem_delete_loop_spec:
  assumes "kbase {cur v} s v" and "kcur s v" and "sem_mbx (cb_type s (Obj n))"
  shows "\<exists>s'. sem_delete_loop (Obj n) s = Some s' \<and> klow s' (wake_all n v) \<and>
     moved (give_all (waitq v n) 0 s) s'"
  using assms
proof (induction "waitq v n" arbitrary: s v)
  case Nil
  then have "p_lnk s (Obj n) = NULL" using obj_waits [OF kbase_linv] by metis
  then have "sem_delete_loop (Obj n) s = Some s" by (subst sem_delete_loop.simps) simp
  moreover have "(waitq v)(n := []) = waitq v" using Nil(1) by (simp add: fun_upd_idem)
  then have "wake_all n v = v" using Nil(1) [symmetric] by (simp add: wake_all_def wake_simps)
  ultimately show ?case using Nil by (auto simp: klow_kbase)
next
  case (Cons t ts)
  then have W: "waitq v n = t # ts" by simp
  obtain s1 where e1: "(do { (p, s) \<leftarrow> rt_get_first (Obj n) s; s \<leftarrow> rt_ret_val p 0 s; s \<leftarrow> rt_rmv_dly p s;
                  s \<leftarrow> wr state_update p READY s; rt_put_prio Rdy p s }) = Some s1"
    and b1: "kbase {cur v} s1 (ready_one n v)" and c1: "kcur s1 (ready_one n v)"
    and m1: "moved (give_ret t 0 s) s1"
    using sem_delete_step [OF Cons.prems(1,2) W] by blast
  have v1: "cur (ready_one n v) = cur v" "waitq (ready_one n v) n = ts"
    using W by (simp_all add: ready_one_def take_waiter_def)
  have "sem_mbx (cb_type s1 (Obj n))" using Cons.prems(3) moved_sel(1) [OF m1] by (simp add: give_ret_def)
  then obtain s' where e2: "sem_delete_loop (Obj n) s1 = Some s'" and k2: "klow s' (wake_all n (ready_one n v))"
    and m2: "moved (give_all ts 0 s1) s'"
    using Cons.hyps(1) [of "ready_one n v" s1] v1 b1 c1 by auto
  have "p_lnk s (Obj n) \<noteq> NULL" using obj_waits [OF kbase_linv [OF Cons.prems(1)] Cons.prems(3)] W by simp
  then have "sem_delete_loop (Obj n) s = Some s'"
    using e1 e2 by (subst sem_delete_loop.simps) (auto simp: bind_eq_Some_conv)
  moreover have "moved (give_all (waitq v n) 0 s) s'"
    using moved_trans [OF moved_give_all [OF m1] m2] W by simp
  ultimately show ?case using k2 ready_one_all [OF W] by auto
qed

lemma preempt_check_refines:
  assumes k: "klow s v" and r: "run s = cur v"
  shows "\<exists>s'. preempt_check s = Some s' \<and> kabs s' (preempt v) \<and> moved s s'"
proof -
  have L: "linv s (rdyq v) (waitq v) (dlyq v) (insert (cur v) (parked v))" and pv: "prios v = prio s"
    using k by (simp_all add: klow_def)
  have cn: "run s \<noteq> NULL" using linv_tcb(2) [OF L, of "cur v"] r by simp
  have hd: "p_lnk s Rdy = first_node NULL (rdyq v)" by (rule lnk_rdy [OF L])
  show ?thesis
  proof (cases "rdyq v \<noteq> [] \<and> prios v (cur v) < prios v (hd (rdyq v))")
    case True
    then have "p_lnk s Rdy = hd (rdyq v)" "p_lnk s Rdy \<noteq> NULL"
      using hd rdy_empty [OF L] by (cases "rdyq v"; simp)+
    then have "preempt_check s = (do { s \<leftarrow> rt_put_prio Rdy (run s) s;
         s \<leftarrow> wr state_update (run s) READY s; rt_dispatch NULL s })"
      using True cn r pv by (simp add: preempt_check_def)
    then show ?thesis using resched_refines [OF k r] True by (simp add: preempt_def)
  next
    case False
    have top: "\<forall>t\<in>set (rdyq v). prio s t \<le> prio s (cur v)"
      using False klow_rdy_top [OF k] pv by (cases "rdyq v") (force simp: not_less intro: order_trans)+
    have "preempt_check s = Some s"
      using False hd rdy_empty [OF L] cn r pv by (cases "rdyq v") (auto simp: preempt_check_def)
    then show ?thesis using False k top by (auto simp: preempt_def kabs_klow)
  qed
qed

text \<open>A control block with no waiting tasks may change its type.\<close>

lemma linv_cb_type:
  assumes L: "linv s R W D F" and W: "W n = []" and x: "\<not> sem_mbx x"
  shows "linv (s\<lparr>cb_type := (cb_type s)(Obj n := x)\<rparr>) R W D F"
proof -
  have "wait_ok (s\<lparr>cb_type := (cb_type s)(Obj n := x)\<rparr>) m (W m)" for m
  proof (cases "m = n")
    case True
    then show ?thesis using W x by (simp add: wait_ok_def)
  next
    case False
    have "wait_ok s m (W m)" using L by (simp add: linv_def)
    then show ?thesis using False by (simp add: wait_ok_def)
  qed
  then show ?thesis using L by (simp add: linv_def rdy_ok_def own_ok_def dly_list_def dly_links_def)
qed

lemma kabs_cb_type:
  "kabs s v \<Longrightarrow> waitq v n = [] \<Longrightarrow> \<not> sem_mbx x \<Longrightarrow> kabs (s\<lparr>cb_type := (cb_type s)(Obj n := x)\<rparr>) v"
  using linv_cb_type [of s "rdyq v" "waitq v" "dlyq v" "insert (cur v) (parked v)" n x]
  by (simp add: kabs_def kst_def)

lemma waitq_preempt [simp]: "waitq (preempt v) = waitq v"
  by (simp add: preempt_def resched_def run_next_def)

lemma give_all_run [simp]: "run (give_all ts x s) = run s"
  by (induction ts arbitrary: s) simp_all

lemma rt_sem_delete_spec:
  assumes k: "kabs s v" and r: "run s = cur v" and ty: "sem_mbx (cb_type s (Obj n))"
  shows "\<exists>s1. rt_sem_delete (Obj n) s = Some (OS_R_OK, s1\<lparr>cb_type := (cb_type s)(Obj n := 0)\<rparr>) \<and>
     kabs (s1\<lparr>cb_type := (cb_type s)(Obj n := 0)\<rparr>) (preempt (wake_all n v)) \<and>
     moved (give_all (waitq v n) 0 s) s1"
proof -
  have "klow s v" using k by (simp add: kabs_klow)
  then obtain s1 where e1: "sem_delete_loop (Obj n) s = Some s1" and k1: "klow s1 (wake_all n v)"
    and m1: "moved (give_all (waitq v n) 0 s) s1"
    using sem_delete_loop_spec [of v s n] ty by (auto simp: klow_kbase)
  have cb: "cb_type (give_all ts x s) = cb_type s" for ts x
    by (induction ts arbitrary: s) (simp_all add: give_ret_def)
  have "run s1 = cur (wake_all n v)" using moved_sel [OF m1] r by (simp add: wake_all_def)
  then obtain s2 where e2: "preempt_check s1 = Some s2" and k2: "kabs s2 (preempt (wake_all n v))"
    and m2: "moved s1 s2" using preempt_check_refines [OF k1] by blast
  have "cb_type s2 = cb_type s" using moved_sel(1) [OF m1] moved_sel(1) [OF m2] cb by simp
  moreover have "kabs (s2\<lparr>cb_type := (cb_type s2)(Obj n := 0)\<rparr>) (preempt (wake_all n v))"
    by (rule kabs_cb_type [OF k2]) (simp_all add: wake_all_def)
  ultimately show ?thesis using e1 e2 moved_trans [OF m1 m2]
    by (intro exI [of _ s2]) (simp add: rt_sem_delete_def)
qed

end
