(* ===== verification/Rt_Mutex.thy ===== *)
theory Rt_Mutex
  imports Rt_Semaphore
begin

text \<open>
  Mutexes (\<open>rt_Mutex.c\<close>, the build for CMSIS RTOS): the owner, its nesting level, the priority to
  give back to the owner, and the list of tasks that wait.
\<close>

section \<open>Operations\<close>

definition rt_mut_init :: "ptr \<Rightarrow> os \<Rightarrow> os option" where
  "rt_mut_init p_MCB s = do {
     s \<leftarrow> wr cb_type_update p_MCB MUCB s;
     s \<leftarrow> wr mut_prio_update p_MCB 0 s;
     s \<leftarrow> wr mut_level_update p_MCB 0 s;
     s \<leftarrow> wr p_lnk_update p_MCB NULL s;
     wr mut_owner_update p_MCB NULL s
   }"

text \<open>The loop of \<open>rt_mut_delete\<close>.\<close>

partial_function (option) mut_delete_loop :: "ptr \<Rightarrow> os \<Rightarrow> os option" where
  "mut_delete_loop p_MCB s =
     (if p_lnk s p_MCB \<noteq> NULL then do {
        (p_TCB, s) \<leftarrow> rt_get_first p_MCB s;
        s \<leftarrow> rt_ret_val p_TCB 0 s;
        s \<leftarrow> rt_rmv_dly p_TCB s;
        s \<leftarrow> wr state_update p_TCB READY s;
        s \<leftarrow> rt_put_prio Rdy p_TCB s;
        mut_delete_loop p_MCB s
      }
      else Some s)"

definition rt_mut_delete :: "ptr \<Rightarrow> os \<Rightarrow> (u32 \<times> os) option" where
  "rt_mut_delete p_MCB s = do {
     lv \<leftarrow> rd mut_level p_MCB s;
     s \<leftarrow> (if lv \<noteq> 0 then do {
             let owner = mut_owner s p_MCB;
             s \<leftarrow> wr prio_update owner (mut_prio s p_MCB) s;
             if owner \<noteq> run s then rt_resort_prio owner s else Some s
           } else Some s);
     s \<leftarrow> mut_delete_loop p_MCB s;
     s \<leftarrow> preempt_check s;
     s \<leftarrow> wr cb_type_update p_MCB 0 s;
     Some (OS_R_OK, s)
   }"

text \<open>The end of \<open>rt_mut_release\<close> with and without a task that waits for the mutex.\<close>

definition mut_handover :: "ptr \<Rightarrow> os \<Rightarrow> os option" where
  "mut_handover p_MCB s = do {
     (p_TCB, s) \<leftarrow> rt_get_first p_MCB s;
     s \<leftarrow> rt_ret_val p_TCB 0 s;
     s \<leftarrow> rt_rmv_dly p_TCB s;
     s \<leftarrow> wr mut_level_update p_MCB 1 s;
     s \<leftarrow> wr mut_owner_update p_MCB p_TCB s;
     s \<leftarrow> wr mut_prio_update p_MCB (prio s p_TCB) s;
     rp \<leftarrow> rt_rdy_prio s;
     if rp \<le> prio s (run s) then rt_dispatch p_TCB s
     else do {
       s \<leftarrow> rt_put_prio Rdy (run s) s;
       s \<leftarrow> rt_put_prio Rdy p_TCB s;
       s \<leftarrow> wr state_update (run s) READY s;
       s \<leftarrow> wr state_update p_TCB READY s;
       rt_dispatch NULL s
     }
   }"

definition mut_yield :: "os \<Rightarrow> os option" where
  "mut_yield s = do {
     rp \<leftarrow> rt_rdy_prio s;
     if prio s (run s) < rp then do {
       s \<leftarrow> rt_put_prio Rdy (run s) s;
       s \<leftarrow> wr state_update (run s) READY s;
       rt_dispatch NULL s
     } else Some s
   }"

definition rt_mut_release :: "ptr \<Rightarrow> os \<Rightarrow> (u32 \<times> os) option" where
  "rt_mut_release p_MCB s = do {
     lv \<leftarrow> rd mut_level p_MCB s;
     if lv = 0 \<or> mut_owner s p_MCB \<noteq> run s then Some (OS_R_NOK, s)
     else do {
       s \<leftarrow> wr mut_level_update p_MCB (lv - 1) s;
       if mut_level s p_MCB \<noteq> 0 then Some (OS_R_OK, s)
       else do {
         s \<leftarrow> wr prio_update (run s) (mut_prio s p_MCB) s;
         s \<leftarrow> (if p_lnk s p_MCB \<noteq> NULL then mut_handover p_MCB s else mut_yield s);
         Some (OS_R_OK, s)
       }
     }
   }"

text \<open>Priority inheritance, and entering the waiting list.\<close>

definition mut_raise_owner :: "ptr \<Rightarrow> os \<Rightarrow> os option" where
  "mut_raise_owner p_MCB s = do {
     pr \<leftarrow> rd prio (run s) s;
     if mut_prio s p_MCB < pr then do {
       s \<leftarrow> wr prio_update (mut_owner s p_MCB) pr s;
       rt_resort_prio (mut_owner s p_MCB) s
     } else Some s
   }"

definition mut_enqueue :: "ptr \<Rightarrow> os \<Rightarrow> os option" where
  "mut_enqueue p_MCB s =
     (if p_lnk s p_MCB \<noteq> NULL then rt_put_prio p_MCB (run s) s else put_first_waiter p_MCB s)"

definition rt_mut_wait :: "ptr \<Rightarrow> u16 \<Rightarrow> os \<Rightarrow> (u32 \<times> os) option" where
  "rt_mut_wait p_MCB timeout s = do {
     lv \<leftarrow> rd mut_level p_MCB s;
     if lv = 0 then do {
       s \<leftarrow> wr mut_owner_update p_MCB (run s) s;
       pr \<leftarrow> rd prio (run s) s;
       s \<leftarrow> wr mut_prio_update p_MCB pr s;
       s \<leftarrow> wr mut_level_update p_MCB (mut_level s p_MCB + 1) s;
       Some (OS_R_OK, s)
     }
     else if mut_owner s p_MCB = run s then do {
       s \<leftarrow> wr mut_level_update p_MCB (mut_level s p_MCB + 1) s;
       Some (OS_R_OK, s)
     }
     else if timeout = 0 then Some (OS_R_TMO, s)
     else do {
       s \<leftarrow> mut_raise_owner p_MCB s;
       s \<leftarrow> mut_enqueue p_MCB s;
       s \<leftarrow> rt_block timeout WAIT_MUT s;
       Some (OS_R_TMO, s)
     }
   }"

section \<open>Facts\<close>

lemma mut_delete_loop_eq:
  assumes "kbase {cur v} s v" and "kcur s v" and "sem_mbx (cb_type s (Obj n))"
  shows "mut_delete_loop (Obj n) s = sem_delete_loop (Obj n) s"
  using assms
proof (induction "waitq v n" arbitrary: s v)
  case Nil
  then have "p_lnk s (Obj n) = NULL" using obj_waits [OF kbase_linv] by metis
  then show ?case by (subst mut_delete_loop.simps, subst sem_delete_loop.simps) simp
next
  case (Cons t ts)
  then have W: "waitq v n = t # ts" by simp
  obtain s1 where e1: "(do { (p, s) \<leftarrow> rt_get_first (Obj n) s; s \<leftarrow> rt_ret_val p 0 s; s \<leftarrow> rt_rmv_dly p s;
                  s \<leftarrow> wr state_update p READY s; rt_put_prio Rdy p s }) = Some s1"
    and b1: "kbase {cur v} s1 (ready_one n v)" and c1: "kcur s1 (ready_one n v)"
    and m1: "moved (give_ret t 0 s) s1"
    using sem_delete_step [OF Cons.prems(1,2) W] by blast
  have v1: "cur (ready_one n v) = cur v" "waitq (ready_one n v) n = ts"
    using W by (simp_all add: ready_one_def take_waiter_def)
  have "sem_mbx (cb_type s1 (Obj n))" using Cons.prems(3) moved_sel(1) [OF m1] by (simp add: give_ret_def)
  then have "mut_delete_loop (Obj n) s1 = sem_delete_loop (Obj n) s1"
    using Cons.hyps(1) [of "ready_one n v" s1] v1 b1 c1 by auto
  moreover have "p_lnk s (Obj n) \<noteq> NULL"
    using obj_waits [OF kbase_linv [OF Cons.prems(1)] Cons.prems(3)] W by simp
  ultimately show ?case
    using e1 by (subst mut_delete_loop.simps, subst sem_delete_loop.simps) (auto simp: bind_eq_Some_conv)
qed

lemma rt_mut_wait_free:
  assumes "mut_level s (Obj n) = 0" and "run s \<noteq> NULL"
  shows "rt_mut_wait (Obj n) timeout s = Some (OS_R_OK,
     s\<lparr>mut_owner := (mut_owner s)(Obj n := run s), mut_prio := (mut_prio s)(Obj n := prio s (run s)),
       mut_level := (mut_level s)(Obj n := 1)\<rparr>)"
  using assms by (simp add: rt_mut_wait_def)

lemma rt_mut_wait_own:
  assumes "mut_level s (Obj n) \<noteq> 0" and "mut_owner s (Obj n) = run s"
  shows "rt_mut_wait (Obj n) timeout s = Some (OS_R_OK,
     s\<lparr>mut_level := (mut_level s)(Obj n := mut_level s (Obj n) + 1)\<rparr>)"
  using assms by (simp add: rt_mut_wait_def)

lemma rt_mut_wait_poll:
  assumes "mut_level s (Obj n) \<noteq> 0" and "mut_owner s (Obj n) \<noteq> run s"
  shows "rt_mut_wait (Obj n) 0 s = Some (OS_R_TMO, s)"
  using assms by (simp add: rt_mut_wait_def)

lemma rt_mut_release_other:
  assumes "mut_level s (Obj n) = 0 \<or> mut_owner s (Obj n) \<noteq> run s"
  shows "rt_mut_release (Obj n) s = Some (OS_R_NOK, s)"
  using assms by (simp add: rt_mut_release_def)

lemma rt_mut_release_nested:
  assumes "1 < mut_level s (Obj n)" and "mut_owner s (Obj n) = run s"
  shows "rt_mut_release (Obj n) s = Some (OS_R_OK,
     s\<lparr>mut_level := (mut_level s)(Obj n := mut_level s (Obj n) - 1)\<rparr>)"
proof -
  have "mut_level s (Obj n) \<noteq> 0" "mut_level s (Obj n) - 1 \<noteq> 0" using assms(1) by auto
  then show ?thesis using assms(2) by (simp add: rt_mut_release_def)
qed

section \<open>Change of priority\<close>

text \<open>Task \<open>t\<close> gets priority \<open>p\<close> and moves to the place this priority gives it in its list.\<close>

definition set_prio :: "ptr \<Rightarrow> u8 \<Rightarrow> kview \<Rightarrow> kview" where
  "set_prio t p v = (let pr = (prios v)(t := p) in
     v\<lparr>prios := pr,
       rdyq := (if t \<in> set (rdyq v) then ins_prio pr t (remove1 t (rdyq v)) else rdyq v),
       waitq := (\<lambda>m. if t \<in> set (waitq v m) then ins_prio pr t (remove1 t (waitq v m)) else waitq v m)\<rparr>)"

lemma set_prio_sets:
  assumes "distinct (rdyq v)" and "\<And>m. distinct (waitq v m)"
  shows "set (rdyq (set_prio t p v)) = set (rdyq v)" and "set (waitq (set_prio t p v) m) = set (waitq v m)"
  using assms by (auto simp: set_prio_def Let_def)

lemma set_prio_sel [simp]:
  "cur (set_prio t p v) = cur v" "dlyq (set_prio t p v) = dlyq v" "parked (set_prio t p v) = parked v"
  "prios (set_prio t p v) = (prios v)(t := p)"
  by (simp_all add: set_prio_def Let_def)

lemma linv_distinct_wait: "linv s R W D F \<Longrightarrow> distinct (W n)"
  using linvz_distinct_wait linv_linvz by blast

lemma kbase_distinct:
  assumes "kbase F s v"
  shows "distinct (rdyq v)" and "distinct (waitq v m)"
  using linv_distinct_rdy [OF kbase_linv [OF assms]] linv_distinct_wait [OF kbase_linv [OF assms]] by auto

lemma styp_sets:
  assumes "styp st R W D P" and "set R' = set R" and "\<And>m. set (W' m) = set (W m)"
  shows "styp st R' W' D P"
  using assms unfolding styp_def by simp

text \<open>A task in hand only changes its priority; a task in a list is moved by \<open>rt_resort_prio\<close>.\<close>

lemma prio_in_hand:
  assumes b: "kbase F s v" and t: "t \<in> F"
  shows "kbase F (s\<lparr>prio := (prio s)(t := p)\<rparr>) (set_prio t p v)"
proof -
  have n: "t \<notin> set (rdyq v)" "t \<notin> set (waitq v m)" for m using kbase_notin(1) [OF b t] by auto
  have v: "set_prio t p v = v\<lparr>prios := (prios v)(t := p)\<rparr>" using n by (simp add: set_prio_def Let_def)
  show ?thesis
    using b linv_prio_floating [OF kbase_linv [OF b], of t p] t unfolding v kbase_def by simp
qed

lemma resort_refines:
  fixes p :: u8
  assumes b: "kbase F s v" and t: "t \<in> set (rdyq v) \<union> parked v \<union> (\<Union>m. set (waitq v m))"
  defines "s' \<equiv> s\<lparr>prio := (prio s)(t := p)\<rparr>"
  shows "\<exists>L. rt_resort_prio t s' = Some (relink L s') \<and> kbase F (relink L s') (set_prio t p v)"
proof -
  have L: "linv s (rdyq v) (waitq v) (dlyq v) (F \<union> parked v)" by (rule kbase_linv [OF b])
  have pv: "prios v = prio s" and ty: "styp (state s) (rdyq v) (waitq v) (dlyq v) (parked v)"
    using b by (simp_all add: kbase_def)
  have "\<exists>L. rt_resort_prio t s' = Some (relink L s') \<and>
      linv (relink L s') (rdyq (set_prio t p v)) (waitq (set_prio t p v)) (dlyq v) (F \<union> parked v)"
  proof -
    consider "t \<in> set (rdyq v)" | "t \<in> parked v" | m where "t \<in> set (waitq v m)" using t by blast
    then show ?thesis
    proof cases
      case 1
      then have st: "state s t = READY" using ty by (simp add: styp_def)
      have "t \<notin> set (waitq v m)" for m using L 1 by (auto simp: linv_def disj_ok_def)
      then have "waitq (set_prio t p v) = waitq v" by (simp add: set_prio_def Let_def)
      then show ?thesis using rl_resort_rdy [OF L 1 st, of p] 1 pv by (simp add: set_prio_def Let_def s'_def)
    next
      case 2
      then have st: "state s t \<noteq> READY" using ty by (auto simp: styp_def)
      have n: "t \<notin> set (rdyq v)" "t \<notin> set (waitq v m)" for m using L 2 by (auto simp: linv_def disj_ok_def)
      have "rt_resort_prio t s' = Some s'" using rl_resort_floating [OF L _ st, of p] 2 by (simp add: s'_def)
      moreover obtain L1 where L1: "s' = relink L1 s'" using relink_id by blast
      moreover have "linv s' (rdyq v) (waitq v) (dlyq v) (F \<union> parked v)"
        using linv_prio_floating [OF L, of t p] 2 by (simp add: s'_def)
      ultimately show ?thesis using n by (intro exI [of _ L1]) (simp add: set_prio_def Let_def)
    next
      case 3
      have n: "t \<notin> set (rdyq v)" using linv_wait_notin [OF L 3] by simp
      have "t \<in> set (waitq v k) \<longleftrightarrow> k = m" for k using L 3 unfolding linv_def disj_ok_def by blast
      then have "waitq (set_prio t p v) = (waitq v)(m := ins_prio (prio s') t (remove1 t (waitq v m)))"
        using pv by (auto simp: set_prio_def Let_def s'_def)
      then show ?thesis using rl_resort_wait [OF L 3, of p] n by (simp add: set_prio_def Let_def s'_def)
    qed
  qed
  then obtain L1 where e: "rt_resort_prio t s' = Some (relink L1 s')"
    and L1: "linv (relink L1 s') (rdyq (set_prio t p v)) (waitq (set_prio t p v)) (dlyq v) (F \<union> parked v)" by blast
  have "styp (state s) (rdyq (set_prio t p v)) (waitq (set_prio t p v)) (dlyq v) (parked v)"
    by (rule styp_sets [OF ty]) (simp_all add: set_prio_sets kbase_distinct [OF b])
  then have "kbase F (relink L1 s') (set_prio t p v)"
    using b L1 pv by (simp add: kbase_def s'_def)
  with e show ?thesis by blast
qed

lemma kst_kbase:
  "kst H s v \<longleftrightarrow> kbase (insert (cur v) H) s v \<and> cur v \<notin> H \<and> kcur s v \<and>
     (\<forall>t\<in>set (rdyq v). prio s t \<le> prio s (cur v))"
  by (auto simp: kst_def kbase_def kcur_def)

section \<open>Waiting with priority inheritance\<close>

text \<open>The owner of mutex \<open>n\<close> is alive: it runs, is ready, or waits somewhere.\<close>

definition live :: "kview \<Rightarrow> ptr set" where
  "live v = insert (cur v) (set (rdyq v) \<union> parked v \<union> (\<Union>m. set (waitq v m)))"

definition inherit :: "ptr \<Rightarrow> u8 \<Rightarrow> kview \<Rightarrow> kview" where
  "inherit owner mp v = (if mp < prios v (cur v) then set_prio owner (prios v (cur v)) v else v)"

text \<open>\<open>s'\<close> differs from \<open>s\<close> by moved tasks and by the priorities \<open>pr\<close>.\<close>

lemma moved_prio_sel: "moved (s\<lparr>prio := pr\<rparr>) s' \<Longrightarrow> run s' = run s"
  using moved_sel by fastforce

lemma rt_mut_wait_block:
  assumes k: "kabs s v" and r: "run s = cur v" and i: "cur v \<noteq> os_idle_TCB"
    and ty: "cb_type s (Obj n) = MUCB" and lv: "mut_level s (Obj n) \<noteq> 0"
    and ow: "mut_owner s (Obj n) \<in> live v" "mut_owner s (Obj n) \<noteq> cur v" and to: "timeout \<noteq> 0"
  defines "v1 \<equiv> inherit (mut_owner s (Obj n)) (mut_prio s (Obj n)) v"
  shows "\<exists>s'. rt_mut_wait (Obj n) timeout s = Some (OS_R_TMO, s') \<and>
     kabs s' (block_on n (unat timeout) v1) \<and> moved (s\<lparr>prio := prios v1\<rparr>) s'"
proof -
  let ?o = "mut_owner s (Obj n)"
  have lo: "klow s v" using k by (simp add: kabs_klow)
  have pv: "prios v = prio s" using lo by (simp add: klow_def)
  have b: "kbase {cur v} s v" and c: "kcur s v" using lo by (simp_all add: klow_kbase)
  have cn: "cur v \<noteq> NULL" using kbase_tcb(1) [OF b, of "cur v"] by simp
  have ol: "?o \<in> set (rdyq v) \<union> parked v \<union> (\<Union>m. set (waitq v m))" using ow by (auto simp: live_def)
  have on: "?o \<noteq> NULL" using kbase_tcb [OF b] ol by fastforce
  have "\<exists>L. mut_raise_owner (Obj n) s = Some (relink L (s\<lparr>prio := prios v1\<rparr>)) \<and>
      kabs (relink L (s\<lparr>prio := prios v1\<rparr>)) v1"
  proof (cases "mut_prio s (Obj n) < prio s (cur v)")
    case False
    then have v1: "v1 = v" using pv by (simp add: v1_def inherit_def)
    obtain L where "relink L s = s" using relink_id [of s] by metis
    then show ?thesis using k False pv cn r by (intro exI [of _ L]) (simp add: v1 mut_raise_owner_def)
  next
    case True
    let ?p = "prio s (cur v)"
    have v1: "v1 = set_prio ?o ?p v" using True pv by (simp add: v1_def inherit_def)
    obtain L1 where e: "rt_resort_prio ?o (s\<lparr>prio := (prio s)(?o := ?p)\<rparr>) = Some (relink L1 (s\<lparr>prio := (prio s)(?o := ?p)\<rparr>))"
      and b1: "kbase {cur v} (relink L1 (s\<lparr>prio := (prio s)(?o := ?p)\<rparr>)) v1"
      using resort_refines [OF b ol, of ?p] unfolding v1 by blast
    have rs: "set (rdyq v1) = set (rdyq v)" unfolding v1 by (rule set_prio_sets) (rule kbase_distinct [OF b])+
    have "kcur (relink L1 (s\<lparr>prio := (prio s)(?o := ?p)\<rparr>)) v1" using c rs by (simp add: kcur_def v1)
    moreover have "\<forall>t\<in>set (rdyq v1). ((prio s)(?o := ?p)) t \<le> ((prio s)(?o := ?p)) (cur v)"
      using k rs ow(2) by (auto simp: kabs_klow)
    ultimately have "kabs (relink L1 (s\<lparr>prio := (prio s)(?o := ?p)\<rparr>)) v1"
      using b1 by (simp add: kabs_klow klow_kbase v1)
    then show ?thesis using True e on pv cn r by (intro exI [of _ L1]) (simp add: v1 mut_raise_owner_def)
  qed
  then obtain L1 where e1: "mut_raise_owner (Obj n) s = Some (relink L1 (s\<lparr>prio := prios v1\<rparr>))"
    and k1: "kabs (relink L1 (s\<lparr>prio := prios v1\<rparr>)) v1" by blast
  let ?s1 = "relink L1 (s\<lparr>prio := prios v1\<rparr>)"
  have r1: "run ?s1 = cur v1" "cur v1 = cur v" using r by (simp_all add: v1_def inherit_def)
  have "\<exists>L. mut_enqueue (Obj n) ?s1 = Some (relink L ?s1) \<and> kenq n (relink L ?s1) v1"
    using enqueue_refines [OF k1 r1(1), of n] ty by (cases "waitq v1 n = []") (auto simp: mut_enqueue_def)
  then obtain L2 where e2: "mut_enqueue (Obj n) ?s1 = Some (relink L2 ?s1)" and k2: "kenq n (relink L2 ?s1) v1" by blast
  obtain s' where e3: "rt_block timeout WAIT_MUT (relink L2 ?s1) = Some s'"
    and k3: "kabs s' (block_on n (unat timeout) v1)" and m: "moved (relink L2 ?s1) s'"
    using block_on_refines [OF k2 _ _ to, of WAIT_MUT] r1 i by auto
  have "moved (s\<lparr>prio := prios v1\<rparr>) s'" using m moved_relink moved_trans by (metis relink_relink)
  then show ?thesis using e1 e2 e3 k3 lv ow r to cn by (simp add: rt_mut_wait_def)
qed

section \<open>Releasing\<close>

lemma rdy_prio_hd: "linv s R W D F \<Longrightarrow> R \<noteq> [] \<Longrightarrow> rt_rdy_prio s = Some (prio s (hd R))"
  using lnk_rdy [of s R W D F] linv_tcb(1) [of s R W D F "hd R"] by (cases R) (auto simp: rt_rdy_prio_def)

text \<open>Both the releasing task and the new owner go to the ready list, and the best ready task runs.\<close>

definition handoff :: "ptr \<Rightarrow> kview \<Rightarrow> kview" where
  "handoff t v = run_next (v\<lparr>rdyq := ins_prio (prios v) t (ins_prio (prios v) (cur v) (rdyq v))\<rparr>)"

lemma handoff_refines:
  assumes b: "kbase {cur v, t} s v" and c: "kcur s v" and t: "t \<noteq> cur v" "t \<notin> fst ` set (dlyq v)"
    and r: "run s = cur v"
  shows "\<exists>s'. (do { s \<leftarrow> rt_put_prio Rdy (run s) s; s \<leftarrow> rt_put_prio Rdy t s;
                  s \<leftarrow> wr state_update (run s) READY s; s \<leftarrow> wr state_update t READY s;
                  rt_dispatch NULL s }) = Some s' \<and> kabs s' (handoff t v) \<and> moved s s'"
proof -
  let ?c = "cur v" and ?P = "parked v"
  have nn: "?c \<noteq> NULL" "t \<noteq> NULL" using kbase_tcb(1) [OF b] by simp_all
  have np: "?c \<notin> ?P" "t \<notin> ?P" using kbase_notin(1) [OF b] by simp_all
  have pv: "prios v = prio s" using b by (simp add: kbase_def)
  have F: "{?c, t} \<union> ?P - {?c} = insert t ?P" "insert t ?P - {t} = ?P" using np t by auto
  obtain L1 where e1: "rt_put_prio Rdy ?c s = Some (relink L1 s)"
    and L1: "linv (relink L1 s) (ins_prio (prio s) ?c (rdyq v)) (waitq v) (dlyq v) (insert t ?P)"
    using rl_put_prio_rdy [OF kbase_linv [OF b], of ?c] unfolding F by auto
  obtain L2 where e2: "rt_put_prio Rdy t (relink L1 s) = Some (relink L2 s)"
    and L2: "linv (relink L2 s) (ins_prio (prio s) t (ins_prio (prio s) ?c (rdyq v))) (waitq v) (dlyq v) ?P"
    using rl_put_prio_rdy [OF L1, of t] unfolding F by auto
  let ?R = "ins_prio (prio s) t (ins_prio (prio s) ?c (rdyq v))"
  let ?st = "(state s)(?c := READY, t := READY)"
  have n: "x \<notin> set (rdyq v) \<and> x \<notin> set (waitq v m) \<and> x \<notin> ?P" if "x \<in> {?c, t}" for x m
    using kbase_notin(1) [OF b that, of m] by blast
  have "styp ?st (rdyq v) (waitq v) (dlyq v) ?P"
    using b n by (intro styp_upd) (simp_all add: kbase_def)
  then have "styp ?st ?R (waitq v) (dlyq v) ?P" using c t unfolding styp_def kcur_def by auto
  then have "kall (relink L2 (s\<lparr>state := ?st\<rparr>)) (v\<lparr>rdyq := ?R\<rparr>)"
    using L2 pv c unfolding kall_def kcur_def by auto
  then obtain s' where e3: "rt_dispatch NULL (relink L2 (s\<lparr>state := ?st\<rparr>)) = Some s'"
    and k3: "kabs s' (run_next (v\<lparr>rdyq := ?R\<rparr>))" and m: "moved (relink L2 (s\<lparr>state := ?st\<rparr>)) s'"
    using resume_refines by (fastforce simp: rt_dispatch_def)
  have "moved s s'" using moved_state m by (rule moved_trans)
  then show ?thesis using e1 e2 e3 k3 r nn pv unfolding handoff_def by simp
qed

lemma mut_yield_refines:
  assumes k: "klow s v" and r: "run s = cur v" and R: "rdyq v \<noteq> []"
  shows "\<exists>s'. mut_yield s = Some s' \<and> kabs s' (preempt v) \<and> moved s s'"
proof -
  have L: "linv s (rdyq v) (waitq v) (dlyq v) (insert (cur v) (parked v))" using k by (simp add: klow_def)
  have "run s \<noteq> NULL" using linv_tcb(2) [OF L, of "cur v"] r by simp
  moreover have "p_lnk s Rdy = hd (rdyq v)" "p_lnk s Rdy \<noteq> NULL"
    using lnk_rdy [OF L] rdy_empty [OF L] R by (cases "rdyq v"; simp)+
  ultimately have "mut_yield s = preempt_check s"
    using rdy_prio_hd [OF L R] by (simp add: mut_yield_def preempt_check_def)
  then show ?thesis using preempt_check_refines [OF k r] by simp
qed

text \<open>What the memory of mutex \<open>n\<close> and of its new owner looks like after the hand-over.\<close>

definition mut_given :: "nat \<Rightarrow> ptr \<Rightarrow> os \<Rightarrow> os" where
  "mut_given n t s = (give_ret t 0 s)\<lparr>mut_level := (mut_level s)(Obj n := 1),
     mut_owner := (mut_owner s)(Obj n := t), mut_prio := (mut_prio s)(Obj n := prio s t)\<rparr>"

definition after_handover :: "ptr \<Rightarrow> kview \<Rightarrow> kview" where
  "after_handover t v =
     (if prios v (hd (rdyq v)) \<le> prios v (cur v) then dispatch t v else handoff t v)"

lemma mut_handover_refines:
  assumes k: "klow s v" and r: "run s = cur v" and R: "rdyq v \<noteq> []" and W: "waitq v n = t # ts"
  shows "\<exists>s'. mut_handover (Obj n) s = Some s' \<and> kabs s' (after_handover t (take_waiter n v)) \<and>
     moved (mut_given n t s) s'"
proof -
  have b: "kbase {cur v} s v" and c: "kcur s v" using k by (simp_all add: klow_kbase)
  have tw: "t \<in> set (waitq v n)" using W by simp
  have tt: "is_tcb t" using kbase_tcb(3) [OF b tw] .
  have tc: "t \<noteq> cur v" using kbase_notin(2) [OF b tw] by auto
  obtain L1 where e1: "rt_get_first (Obj n) s = Some (t, relink L1 s)"
    and k1: "kbase {t, cur v} (relink L1 s) (v\<lparr>waitq := (waitq v)(n := ts)\<rparr>)"
    using take_first_base [OF b W] by auto
  let ?s1 = "relink L1 (give_ret t 0 s)"
  have k1': "kbase {t, cur v} ?s1 (v\<lparr>waitq := (waitq v)(n := ts)\<rparr>)" using k1 by (simp add: give_ret_def)
  let ?v = "take_waiter n v"
  have v: "?v = v\<lparr>waitq := (waitq v)(n := ts), dlyq := rmv_dly t (dlyq v)\<rparr>"
    using W by (simp add: take_waiter_def)
  have ct: "{t, cur v} = {cur v, t}" by blast
  obtain L2 where e2: "rt_rmv_dly t ?s1 = Some (relink L2 ?s1)" and k2: "kbase {cur v, t} (relink L2 ?s1) ?v"
    using rmv_dly_base [OF k1', of t] unfolding v ct by auto
  let ?s3 = "relink L2 (mut_given n t s)"
  have b3: "kbase {cur v, t} ?s3 ?v" using k2 by (simp add: mut_given_def give_ret_def)
  have tD: "t \<notin> fst ` set (dlyq ?v)" "cur ?v = cur v" "rdyq ?v = rdyq v" by (auto simp: v)
  have "cur v \<notin> fst ` set (rmv_dly t (dlyq v))"
    by (rule contra_subsetD [OF rmv_dly_subset]) (use c in \<open>simp add: kcur_def\<close>)
  then have c3: "kcur ?s3 ?v" using c by (simp add: kcur_def v mut_given_def give_ret_def)
  have r3: "run ?s3 = cur ?v" using r by (simp add: mut_given_def v)
  have L3: "linv ?s3 (rdyq v) ((waitq v)(n := ts)) (rmv_dly t (dlyq v)) ({cur v, t} \<union> parked v)"
    using kbase_linv [OF b3] by (simp add: v)
  have rp: "rt_rdy_prio ?s3 = Some (prio s (hd (rdyq v)))"
    using rdy_prio_hd [OF L3 R] by (simp add: mut_given_def give_ret_def)
  have pv: "prios ?v = prio s" using k by (simp add: v klow_def)
  have e: "mut_handover (Obj n) s =
      (if prio s (hd (rdyq v)) \<le> prio s (cur v) then rt_dispatch t ?s3
       else do { s \<leftarrow> rt_put_prio Rdy (run ?s3) ?s3; s \<leftarrow> rt_put_prio Rdy t s;
                 s \<leftarrow> wr state_update (run s) READY s; s \<leftarrow> wr state_update t READY s; rt_dispatch NULL s })"
    using e1 e2 rp tt r unfolding mut_handover_def
    by (simp add: mut_given_def give_ret_def rt_ret_val_give)
  have "\<exists>s'. mut_handover (Obj n) s = Some s' \<and> kabs s' (after_handover t ?v) \<and> moved ?s3 s'"
  proof (cases "prio s (hd (rdyq v)) \<le> prio s (cur v)")
    case True
    have top: "\<forall>x\<in>set (rdyq v). prio s x \<le> prio s (cur v)"
      using klow_rdy_top [OF k] R True by (cases "rdyq v") (auto intro: order_trans)
    have "kst {t} ?s3 ?v"
      using b3 c3 top tc unfolding kst_kbase by (simp add: v mut_given_def give_ret_def insert_commute)
    then show ?thesis
      using dispatch_refines [OF _ tD(1) r3] True e pv tD by (auto simp: after_handover_def)
  next
    case False
    have b3': "kbase {cur ?v, t} ?s3 ?v" using b3 tD by simp
    have "t \<noteq> cur ?v" using tc tD by simp
    then show ?thesis
      using handoff_refines [OF b3' c3 _ tD(1) r3] False e pv tD by (auto simp: after_handover_def)
  qed
  then show ?thesis using moved_relink moved_trans by blast
qed

text \<open>The releasing task has got its own priority back.\<close>

lemma release_prio:
  assumes k: "kabs s v" and i: "cur v \<noteq> os_idle_TCB" and v1: "v1 = set_prio (cur v) p v"
  shows "klow (s\<lparr>mut_level := ml, prio := prios v1\<rparr>) v1" and "rdyq v1 \<noteq> []" and "waitq v1 = waitq v"
    and "prios v1 = (prio s)(cur v := p)" and "is_tcb (cur v)"
proof -
  have b: "kbase {cur v} s v" and c: "kcur s v" and pv: "prios v = prio s"
    using k by (simp_all add: kabs_klow klow_kbase kbase_def)
  show "is_tcb (cur v)" using kbase_tcb(1) [OF b, of "cur v"] by simp
  have nl: "cur v \<notin> set (rdyq v)" "cur v \<notin> set (waitq v m)" for m using kbase_notin(1) [OF b, of "cur v"] by auto
  then have sel: "rdyq v1 = rdyq v" "waitq v1 = waitq v" "cur v1 = cur v"
    by (simp_all add: v1 set_prio_def Let_def)
  then show "waitq v1 = waitq v" by simp
  show "rdyq v1 \<noteq> []" using kst_ready [of "{}" s v] k i sel by (simp add: kabs_def)
  show pe: "prios v1 = (prio s)(cur v := p)" using pv by (simp add: v1)
  have b1: "kbase {cur v1} (s\<lparr>prio := prios v1\<rparr>) v1"
    using prio_in_hand [OF b, of "cur v" p] unfolding pe sel by (simp add: v1)
  have "linv (s\<lparr>prio := prios v1\<rparr>) (rdyq v1) (waitq v1) (dlyq v1) ({cur v1} \<union> parked v1)" by (rule kbase_linv [OF b1])
  then have "kbase {cur v1} (s\<lparr>mut_level := ml, prio := prios v1\<rparr>) v1"
    using b1 unfolding kbase_def by (simp add: linv_parts)
  moreover have "kcur (s\<lparr>mut_level := ml, prio := prios v1\<rparr>) v1" using c sel by (simp add: kcur_def v1)
  ultimately show "klow (s\<lparr>mut_level := ml, prio := prios v1\<rparr>) v1" by (simp add: klow_kbase)
qed

lemma rt_mut_release_handover:
  assumes k: "kabs s v" and r: "run s = cur v" and i: "cur v \<noteq> os_idle_TCB"
    and ty: "cb_type s (Obj n) = MUCB" and lv: "mut_level s (Obj n) = 1" and ow: "mut_owner s (Obj n) = run s"
    and W: "waitq v n = t # ts"
    and v1: "v1 = set_prio (cur v) (mut_prio s (Obj n)) v"
  shows "\<exists>s'. rt_mut_release (Obj n) s = Some (OS_R_OK, s') \<and>
     kabs s' (after_handover t (take_waiter n v1)) \<and>
     moved (mut_given n t (s\<lparr>prio := prios v1\<rparr>)) s'"
proof -
  let ?s0 = "s\<lparr>mut_level := (mut_level s)(Obj n := 0), prio := prios v1\<rparr>"
  note p = release_prio [OF k i v1]
  have "run ?s0 = cur v1" "waitq v1 n = t # ts" using r W p(3) by (simp_all add: v1)
  then obtain s' where e: "mut_handover (Obj n) ?s0 = Some s'"
    and k1: "kabs s' (after_handover t (take_waiter n v1))" and m: "moved (mut_given n t ?s0) s'"
    using mut_handover_refines [OF p(1) _ p(2)] by blast
  have "p_lnk s (Obj n) \<noteq> NULL" using kabs_obj_waits [OF k, of n] ty W by simp
  then have "rt_mut_release (Obj n) s = Some (OS_R_OK, s')"
    using e lv ow r p(4,5) by (simp add: rt_mut_release_def)
  moreover have "mut_given n t ?s0 = mut_given n t (s\<lparr>prio := prios v1\<rparr>)"
    by (simp add: mut_given_def give_ret_def)
  ultimately show ?thesis using k1 m by auto
qed

lemma rt_mut_release_free:
  assumes k: "kabs s v" and r: "run s = cur v" and i: "cur v \<noteq> os_idle_TCB"
    and ty: "cb_type s (Obj n) = MUCB" and lv: "mut_level s (Obj n) = 1" and ow: "mut_owner s (Obj n) = run s"
    and W: "waitq v n = []"
    and v1: "v1 = set_prio (cur v) (mut_prio s (Obj n)) v"
  shows "\<exists>s'. rt_mut_release (Obj n) s = Some (OS_R_OK, s') \<and> kabs s' (preempt v1) \<and>
     moved (s\<lparr>mut_level := (mut_level s)(Obj n := 0), prio := prios v1\<rparr>) s'"
proof -
  let ?s0 = "s\<lparr>mut_level := (mut_level s)(Obj n := 0), prio := prios v1\<rparr>"
  note p = release_prio [OF k i v1]
  have "run ?s0 = cur v1" using r by (simp add: v1)
  then obtain s' where e: "mut_yield ?s0 = Some s'" and k1: "kabs s' (preempt v1)" and m: "moved ?s0 s'"
    using mut_yield_refines [OF p(1) _ p(2)] by blast
  have "p_lnk s (Obj n) = NULL" using kabs_obj_waits [OF k, of n] ty W by simp
  then have "rt_mut_release (Obj n) s = Some (OS_R_OK, s')"
    using e lv ow r p(4,5) by (simp add: rt_mut_release_def)
  then show ?thesis using k1 m by auto
qed

end
