(* ===== verification/Rt_Event.thy ===== *)
theory Rt_Event
  imports Rt_Mutex
begin

text \<open>
  Event flags (\<open>rt_Event.c\<close>, the build for CMSIS RTOS): sixteen flags per task, on which the
  task waits for all or for any of a set of flags.
\<close>

section \<open>Operations\<close>

definition rt_evt_wait :: "u16 \<Rightarrow> u16 \<Rightarrow> bool \<Rightarrow> os \<Rightarrow> (u32 \<times> os) option" where
  "rt_evt_wait wait_flags timeout and_wait s = do {
     ev \<leftarrow> rd events (run s) s;
     if and_wait \<and> ev AND wait_flags = wait_flags then do {
       s \<leftarrow> wr events_update (run s) (ev AND NOT wait_flags) s;
       Some (OS_R_EVT, s)
     }
     else if \<not> and_wait \<and> ev AND wait_flags \<noteq> 0 then do {
       s \<leftarrow> wr waits_update (run s) (ev AND wait_flags) s;
       s \<leftarrow> wr events_update (run s) (ev AND NOT wait_flags) s;
       Some (OS_R_EVT, s)
     }
     else do {
       let block_state = (if and_wait then WAIT_AND else WAIT_OR);
       s \<leftarrow> wr waits_update (run s) wait_flags s;
       s \<leftarrow> rt_block timeout block_state s;
       Some (OS_R_TMO, s)
     }
   }"

text \<open>The code at the label \<open>wkup\<close> of \<open>rt_evt_set\<close>.\<close>

definition evt_wkup :: "ptr \<Rightarrow> u16 \<Rightarrow> os \<Rightarrow> os option" where
  "evt_wkup p_tcb event_flags s = do {
     s \<leftarrow> wr events_update p_tcb (events s p_tcb AND NOT event_flags) s;
     s \<leftarrow> rt_rmv_dly p_tcb s;
     s \<leftarrow> wr state_update p_tcb READY s;
     s \<leftarrow> rt_ret_val2 p_tcb 0x08 (ucast (waits s p_tcb)) s;
     rt_dispatch p_tcb s
   }"

definition rt_evt_set :: "u16 \<Rightarrow> u32 \<Rightarrow> os \<Rightarrow> os option" where
  "rt_evt_set event_flags tid s = do {
     p_tcb \<leftarrow> act_get (tid - 1) s;
     if p_tcb = NULL then Some s
     else do {
       s \<leftarrow> wr events_update p_tcb (events s p_tcb OR event_flags) s;
       let event_flags = waits s p_tcb;
       if state s p_tcb = WAIT_AND \<and> events s p_tcb AND event_flags = event_flags
       then evt_wkup p_tcb event_flags s
       else if state s p_tcb = WAIT_OR \<and> events s p_tcb AND event_flags \<noteq> 0 then do {
         s \<leftarrow> wr waits_update p_tcb (waits s p_tcb AND events s p_tcb) s;
         evt_wkup p_tcb event_flags s
       }
       else Some s
     }
   }"

definition rt_evt_clr :: "u16 \<Rightarrow> u32 \<Rightarrow> os \<Rightarrow> os option" where
  "rt_evt_clr clear_flags tid s = do {
     task \<leftarrow> act_get (tid - 1) s;
     if task = NULL then Some s
     else wr events_update task (events s task AND NOT clear_flags) s
   }"

definition isr_evt_set :: "u16 \<Rightarrow> u32 \<Rightarrow> os \<Rightarrow> os option" where
  "isr_evt_set event_flags tid s = do {
     p_tcb \<leftarrow> act_get (tid - 1) s;
     if p_tcb = NULL then Some s
     else do {
       s \<leftarrow> rt_psq_enq p_tcb (ucast event_flags) s;
       Some (rt_psh_req s)
     }
   }"

definition rt_evt_get :: "os \<Rightarrow> u16 option" where
  "rt_evt_get s = rd waits (run s) s"

text \<open>The code at the label \<open>rdy\<close> of \<open>rt_evt_psh\<close>.\<close>

definition evt_rdy :: "ptr \<Rightarrow> u16 \<Rightarrow> os \<Rightarrow> os option" where
  "evt_rdy p_CB event_flags s = do {
     s \<leftarrow> wr events_update p_CB (events s p_CB AND NOT event_flags) s;
     s \<leftarrow> rt_rmv_dly p_CB s;
     s \<leftarrow> wr state_update p_CB READY s;
     s \<leftarrow> rt_ret_val2 p_CB 0x08 (ucast (waits s p_CB)) s;
     rt_put_prio Rdy p_CB s
   }"

definition rt_evt_psh :: "ptr \<Rightarrow> u16 \<Rightarrow> os \<Rightarrow> os option" where
  "rt_evt_psh p_CB set_flags s = do {
     ev \<leftarrow> rd events p_CB s;
     s \<leftarrow> wr events_update p_CB (ev OR set_flags) s;
     let event_flags = waits s p_CB;
     if state s p_CB = WAIT_AND \<and> events s p_CB AND event_flags = event_flags
     then evt_rdy p_CB event_flags s
     else if state s p_CB = WAIT_OR \<and> events s p_CB AND event_flags \<noteq> 0 then do {
       s \<leftarrow> wr waits_update p_CB (waits s p_CB AND events s p_CB) s;
       evt_rdy p_CB event_flags s
     }
     else Some s
   }"

section \<open>What the operations mean for one task\<close>

text \<open>Whether a task that waits with flags \<open>w\<close> in the given state is satisfied by the flags \<open>ev\<close>.\<close>

definition evt_met :: "tstate \<Rightarrow> u16 \<Rightarrow> u16 \<Rightarrow> bool" where
  "evt_met st w ev \<longleftrightarrow> (st = WAIT_AND \<and> ev AND w = w) \<or> (st = WAIT_OR \<and> ev AND w \<noteq> 0)"

text \<open>The flags a satisfied task is told about.\<close>

definition evt_got :: "tstate \<Rightarrow> u16 \<Rightarrow> u16 \<Rightarrow> u16" where
  "evt_got st w ev = (if st = WAIT_OR then w AND ev else w)"

text \<open>The task's members after the wake-up: the flags it waited for are cleared, and its saved
  frame holds \<open>osEventSignal\<close> and the flags.\<close>

definition evt_given :: "ptr \<Rightarrow> u16 \<Rightarrow> os \<Rightarrow> os" where
  "evt_given t fl s = (let ev = events s t OR fl; w = waits s t; g = evt_got (state s t) w ev in
     s\<lparr>events := (events s)(t := ev AND NOT w), waits := (waits s)(t := g),
       mem := (mem s)(tsk_stack s t + 32 := 8, tsk_stack s t + 36 := ucast g)\<rparr>)"

text \<open>A parked task stops waiting and is dispatched.\<close>

definition unpark :: "ptr \<Rightarrow> kview \<Rightarrow> kview" where
  "unpark t v = v\<lparr>parked := parked v - {t}, dlyq := rmv_dly t (dlyq v)\<rparr>"

lemma kst_unpark:
  assumes k: "kst {} s v" and t: "t \<in> parked v"
  shows "kst {t} s (v\<lparr>parked := parked v - {t}\<rparr>)"
proof -
  have "{t} \<union> insert (cur v) (parked v - {t}) = insert (cur v) (parked v)" using t by blast
  moreover have "t \<noteq> cur v" using k t by (auto simp: kst_def)
  ultimately show ?thesis using k unfolding kst_def styp_def by auto
qed

lemma kst_state:
  assumes "kst H s v" and "t \<in> H"
  shows "kst H (s\<lparr>state := (state s)(t := x)\<rparr>) v"
  using assms kbase_state [of "insert (cur v) H" s v t x] by (auto simp: kst_kbase kcur_def)

lemma upd_evt:
  "s\<lparr>events := e, state := st, mem := m\<rparr> = s\<lparr>events := e, mem := m, state := st\<rparr>"
  "s\<lparr>events := e, waits := w, state := st, mem := m\<rparr> = s\<lparr>events := e, waits := w, mem := m, state := st\<rparr>"
  "s\<lparr>waits := w, events := e\<rparr> = s\<lparr>events := e, waits := w\<rparr>"
  by simp_all

lemma evt_wkup_refines:
  assumes k: "kabs s v" and r: "run s = cur v" and t: "t \<in> parked v"
  shows "\<exists>s'. evt_wkup t ef s = Some s' \<and> kabs s' (dispatch t (unpark t v)) \<and>
     moved (s\<lparr>events := (events s)(t := events s t AND NOT ef),
       mem := (mem s)(tsk_stack s t + 32 := 8, tsk_stack s t + 36 := ucast (waits s t))\<rparr>) s'"
proof -
  let ?e = "(events s)(t := events s t AND NOT ef)"
  let ?m = "(mem s)(tsk_stack s t + 32 := 8, tsk_stack s t + 36 := ucast (waits s t))"
  let ?s0 = "s\<lparr>events := ?e, mem := ?m\<rparr>"
  have k0: "kst {t} (s\<lparr>events := ?e\<rparr>) (v\<lparr>parked := parked v - {t}\<rparr>)"
    using kst_unpark [OF _ t] k by (simp add: kabs_def)
  have tn: "t \<noteq> NULL" using kst_tcb [OF k0, of t] by simp
  obtain L1 where e1: "rt_rmv_dly t (s\<lparr>events := ?e\<rparr>) = Some (relink L1 (s\<lparr>events := ?e\<rparr>))"
    and k1: "kst {t} (relink L1 (s\<lparr>events := ?e\<rparr>)) (unpark t v)"
    using rmv_dly_refines [OF k0, of t] by (auto simp: unpark_def)
  let ?s1 = "relink L1 ?s0"
  have "kst {t} ?s1 (unpark t v)" using k1 by simp
  then have k2: "kst {t} (?s1\<lparr>state := (state ?s1)(t := READY)\<rparr>) (unpark t v)" by (rule kst_state) simp
  have "t \<notin> fst ` set (dlyq (unpark t v))" by (auto simp: unpark_def)
  then obtain s' where e3: "rt_dispatch t (?s1\<lparr>state := (state ?s1)(t := READY)\<rparr>) = Some s'"
    and k3: "kabs s' (dispatch t (unpark t v))" and m: "moved (?s1\<lparr>state := (state ?s1)(t := READY)\<rparr>) s'"
    using dispatch_refines [OF k2] r by (auto simp: unpark_def)
  have "evt_wkup t ef s = Some s'" using e1 e3 tn by (simp add: evt_wkup_def upd_evt)
  moreover have "moved ?s0 (?s1\<lparr>state := (state ?s1)(t := READY)\<rparr>)" by (simp add: moved_state)
  then have "moved ?s0 s'" using m by (rule moved_trans)
  ultimately show ?thesis using k3 by blast
qed

lemma kabs_frame_evt [simp]:
  "kabs (s\<lparr>events := e\<rparr>) v = kabs s v" "kabs (s\<lparr>waits := w\<rparr>) v = kabs s v" "kabs (s\<lparr>mem := m\<rparr>) v = kabs s v"
  by (simp_all add: kabs_def)

lemma rt_evt_set_wake:
  assumes k: "kabs s v" and r: "run s = cur v" and a: "act_get (tid - 1) s = Some t" and t: "t \<in> parked v"
    and met: "evt_met (state s t) (waits s t) (events s t OR fl)"
  shows "\<exists>s'. rt_evt_set fl tid s = Some s' \<and> kabs s' (dispatch t (unpark t v)) \<and> moved (evt_given t fl s) s'"
proof -
  have tn: "t \<noteq> NULL" using kst_tcb [OF kst_unpark [OF _ t], of s t] k by (simp add: kabs_def)
  let ?ev = "events s t OR fl" and ?w = "waits s t"
  let ?g = "evt_got (state s t) ?w ?ev"
  let ?s0 = "s\<lparr>events := (events s)(t := ?ev), waits := (waits s)(t := ?g)\<rparr>"
  have "rt_evt_set fl tid s = evt_wkup t ?w ?s0"
    using met a tn by (auto simp: rt_evt_set_def evt_met_def evt_got_def Let_def)
  moreover have "kabs ?s0 v" "run ?s0 = cur v" using k r by simp_all
  then obtain s' where "evt_wkup t ?w ?s0 = Some s'" "kabs s' (dispatch t (unpark t v))"
    "moved (?s0\<lparr>events := (events ?s0)(t := events ?s0 t AND NOT ?w),
       mem := (mem ?s0)(tsk_stack ?s0 t + 32 := 8, tsk_stack ?s0 t + 36 := ucast (waits ?s0 t))\<rparr>) s'"
    using evt_wkup_refines [OF _ _ t] by blast
  moreover have "?s0\<lparr>events := (events ?s0)(t := events ?s0 t AND NOT ?w),
       mem := (mem ?s0)(tsk_stack ?s0 t + 32 := 8, tsk_stack ?s0 t + 36 := ucast (waits ?s0 t))\<rparr> = evt_given t fl s"
    by (simp add: evt_given_def Let_def)
  ultimately show ?thesis by auto
qed

lemma rt_evt_set_store:
  assumes a: "act_get (tid - 1) s = Some t" and t: "t \<noteq> NULL"
    and met: "\<not> evt_met (state s t) (waits s t) (events s t OR fl)"
  shows "rt_evt_set fl tid s = Some (s\<lparr>events := (events s)(t := events s t OR fl)\<rparr>)"
  using assms by (auto simp: rt_evt_set_def evt_met_def Let_def)

lemma rt_evt_wait_block:
  assumes k: "kabs s v" and r: "run s = cur v" and i: "cur v \<noteq> os_idle_TCB" and to: "timeout \<noteq> 0"
    and st: "st = (if all then WAIT_AND else WAIT_OR)" and met: "\<not> evt_met st fl (events s (cur v))"
  shows "\<exists>s'. rt_evt_wait fl timeout all s = Some (OS_R_TMO, s') \<and>
     kabs s' (block_park (unat timeout) v) \<and> moved (s\<lparr>waits := (waits s)(cur v := fl)\<rparr>) s'"
proof -
  have cn: "cur v \<noteq> NULL" using kst_tcb [of "{}" s v "cur v"] k by (simp add: kabs_def)
  let ?s = "s\<lparr>waits := (waits s)(cur v := fl)\<rparr>"
  have "kabs ?s v" "run ?s = cur v" "park_wait st" using k r st by simp_all
  then obtain s' where e: "rt_block timeout st ?s = Some s'" "kabs s' (block_park (unat timeout) v)" "moved ?s s'"
    using block_park_refines [OF _ _ i to] by blast
  moreover have "rt_evt_wait fl timeout all s = Some (OS_R_TMO, s')"
    using e(1) met st r cn by (auto simp: rt_evt_wait_def evt_met_def Let_def split: if_splits)
  ultimately show ?thesis by blast
qed

lemma rt_evt_wait_now:
  assumes "run s \<noteq> NULL" and "st = (if all then WAIT_AND else WAIT_OR)"
    and met: "evt_met st fl (events s (run s))"
  shows "rt_evt_wait fl timeout all s = Some (OS_R_EVT,
     s\<lparr>events := (events s)(run s := events s (run s) AND NOT fl),
       waits := (if all then waits s else (waits s)(run s := events s (run s) AND fl))\<rparr>)"
  using assms by (auto simp: rt_evt_wait_def evt_met_def split: if_splits)

section \<open>Post service\<close>

lemma kbase_unpark:
  assumes k: "kbase F s v" and t: "t \<in> parked v"
  shows "kbase (insert t F) s (v\<lparr>parked := parked v - {t}\<rparr>)"
proof -
  have "insert t F \<union> (parked v - {t}) = F \<union> parked v" using t by blast
  moreover have "insert t F \<inter> (parked v - {t}) = {}" using k by (auto simp: kbase_def)
  ultimately show ?thesis using k unfolding kbase_def styp_def by auto
qed

lemma evt_rdy_refines:
  assumes k: "kall s v" and t: "t \<in> parked v"
  shows "\<exists>s'. evt_rdy t ef s = Some s' \<and>
     kall s' ((unpark t v)\<lparr>rdyq := ins_prio (prios v) t (rdyq v)\<rparr>) \<and>
     moved (s\<lparr>events := (events s)(t := events s t AND NOT ef),
       mem := (mem s)(tsk_stack s t + 32 := 8, tsk_stack s t + 36 := ucast (waits s t))\<rparr>) s'"
proof -
  let ?e = "(events s)(t := events s t AND NOT ef)"
  let ?m = "(mem s)(tsk_stack s t + 32 := 8, tsk_stack s t + 36 := ucast (waits s t))"
  let ?s0 = "s\<lparr>events := ?e, mem := ?m\<rparr>"
  have b: "kbase {} s v" and i: "os_idle_TCB \<in> set (rdyq v)" using k by (simp_all add: kall_kbase)
  have k0: "kbase {t} (s\<lparr>events := ?e\<rparr>) (v\<lparr>parked := parked v - {t}\<rparr>)"
    using kbase_unpark [OF b t] by simp
  have tn: "t \<noteq> NULL" using kbase_tcb(1) [OF k0, of t] by simp
  obtain L1 where e1: "rt_rmv_dly t (s\<lparr>events := ?e\<rparr>) = Some (relink L1 (s\<lparr>events := ?e\<rparr>))"
    and k1: "kbase {t} (relink L1 (s\<lparr>events := ?e\<rparr>)) (unpark t v)"
    using rmv_dly_base [OF k0, of t] by (auto simp: unpark_def)
  let ?s1 = "relink L1 ?s0"
  have k1': "kbase {t} ?s1 (unpark t v)" using k1 by simp
  have "t \<notin> fst ` set (dlyq (unpark t v))" by (auto simp: unpark_def)
  then obtain L2 where e2: "rt_put_prio Rdy t (?s1\<lparr>state := (state ?s1)(t := READY)\<rparr>)
       = Some (relink L2 (?s1\<lparr>state := (state ?s1)(t := READY)\<rparr>))"
    and k2: "kbase {} (relink L2 (?s1\<lparr>state := (state ?s1)(t := READY)\<rparr>))
       ((unpark t v)\<lparr>rdyq := ins_prio (prios v) t (rdyq v)\<rparr>)"
    using ready_base' [OF k1', of t] by (auto simp: unpark_def)
  have "evt_rdy t ef s = Some (relink L2 (?s0\<lparr>state := (state s)(t := READY)\<rparr>))"
    using e1 e2 tn by (simp add: evt_rdy_def upd_evt)
  moreover have "kall (relink L2 (?s0\<lparr>state := (state s)(t := READY)\<rparr>)) ((unpark t v)\<lparr>rdyq := ins_prio (prios v) t (rdyq v)\<rparr>)"
    using k2 i by (simp add: kall_kbase)
  ultimately show ?thesis using moved_state by blast
qed

end
