(* ===== verification/Rt_MemBox.thy ===== *)
theory Rt_MemBox
  imports Os_State
begin

text \<open>
  Fixed-size memory blocks (\<open>rt_MemBox.c\<close>). A box starts with a descriptor of three words (first
  free block, end of the box, block size); every free block holds the address of the next
  one. The free list is a chain through memory, headed by the first word of the descriptor.
\<close>

section \<open>Operations\<close>

definition BOX_ALIGN_8 :: u32 where "BOX_ALIGN_8 = 0x80000000"
definition sizeof_OS_BM :: u32 where "sizeof_OS_BM = 12"

text \<open>The loop of \<open>_init_box\<close> that links the free blocks.\<close>

partial_function (option) init_box_loop :: "u32 \<Rightarrow> u32 \<Rightarrow> u32 \<Rightarrow> (u32 \<Rightarrow> u32) \<Rightarrow> (u32 \<Rightarrow> u32) option" where
  "init_box_loop blk end blk_size m =
     (let nxt = blk + blk_size in
      if nxt > end then Some (m(blk := 0))
      else init_box_loop nxt end blk_size (m(blk := nxt)))"

definition init_box :: "u32 \<Rightarrow> u32 \<Rightarrow> u32 \<Rightarrow> os \<Rightarrow> (nat \<times> os) option" where
  "init_box box_mem box_size blk_size s =
     (let (blk_size, sizeof_bm) =
        (if blk_size AND BOX_ALIGN_8 \<noteq> 0
         then (((blk_size AND NOT BOX_ALIGN_8) + 7) AND NOT 7, (sizeof_OS_BM + 7) AND NOT 7)
         else ((blk_size + 3) AND NOT 3, sizeof_OS_BM))
      in
      if blk_size = 0 then Some (1, s)
      else if blk_size + sizeof_bm > box_size then Some (1, s)
      else do {
        let blk = box_mem + sizeof_bm;
        let m = (mem s)(box_mem := blk);
        let end = box_mem + box_size;
        let m = m(box_mem + 4 := end);
        let m = m(box_mem + 8 := blk_size);
        m \<leftarrow> init_box_loop blk (end - blk_size) blk_size m;
        Some (0, s\<lparr>mem := m\<rparr>)
      })"

definition rt_alloc_box :: "u32 \<Rightarrow> os \<Rightarrow> u32 \<times> os" where
  "rt_alloc_box box_mem s =
     (let free = mem s box_mem in
      if free \<noteq> 0 then (free, s\<lparr>mem := (mem s)(box_mem := mem s free)\<rparr>) else (free, s))"

text \<open>Clearing a block, as \<open>_calloc_box\<close> and \<open>rt_clr_box\<close> do: \<open>for (i = n; i; i -= 4) *p++ = 0\<close>.\<close>

partial_function (option) clr_box_loop :: "u32 \<Rightarrow> u32 \<Rightarrow> (u32 \<Rightarrow> u32) \<Rightarrow> (u32 \<Rightarrow> u32) option" where
  "clr_box_loop i p m = (if i \<noteq> 0 then clr_box_loop (i - 4) (p + 4) (m(p := 0)) else Some m)"

definition calloc_box :: "u32 \<Rightarrow> os \<Rightarrow> (u32 \<times> os) option" where
  "calloc_box box_mem s =
     (let (free, s) = rt_alloc_box box_mem s in
      if free \<noteq> 0 then do {
        m \<leftarrow> clr_box_loop (mem s (box_mem + 8)) free (mem s);
        Some (free, s\<lparr>mem := m\<rparr>)
      }
      else Some (free, s))"

definition rt_free_box :: "u32 \<Rightarrow> u32 \<Rightarrow> os \<Rightarrow> nat \<times> os" where
  "rt_free_box box_mem box s =
     (if box < box_mem \<or> box \<ge> mem s (box_mem + 4) then (1, s)
      else
        let m = (mem s)(box := mem s box_mem);
            m = m(box_mem := box)
        in (0, s\<lparr>mem := m\<rparr>))"

section \<open>The free list\<close>

text \<open>\<open>box_free s box bs\<close>: the free blocks of the box are \<open>bs\<close>, in the order they will be given out.\<close>

definition box_free :: "os \<Rightarrow> u32 \<Rightarrow> u32 list \<Rightarrow> bool" where
  "box_free s box bs \<longleftrightarrow> chain 0 (mem s) box bs"

lemma alloc_some:
  assumes "box_free s box (b # bs)"
  shows "\<exists>s'. rt_alloc_box box s = (b, s') \<and> box_free s' box bs \<and> s' = s\<lparr>mem := (mem s)(box := mem s b)\<rparr>"
proof -
  have c: "chain 0 (mem s) box ([] @ b # bs)" using assms by (simp add: box_free_def)
  then have "mem s box = b" "b \<noteq> 0" by auto
  then show ?thesis using chain_remove [OF c] by (simp add: rt_alloc_box_def box_free_def)
qed

lemma alloc_none: "box_free s box [] \<Longrightarrow> rt_alloc_box box s = (0, s)"
  by (simp add: box_free_def rt_alloc_box_def)

lemma free_ok:
  assumes "box_free s box bs" and "b \<noteq> 0" and "b \<notin> insert box (set bs)"
    and "box \<le> b" and "b < mem s (box + 4)"
  shows "\<exists>s'. rt_free_box box b s = (0, s') \<and> box_free s' box (b # bs) \<and>
     s' = s\<lparr>mem := (mem s)(b := mem s box, box := b)\<rparr>"
proof -
  have c: "chain 0 (mem s) box ([] @ bs)" using assms by (simp add: box_free_def)
  have "chain 0 ((mem s)(b := first_node 0 bs, box := b)) box (b # bs)"
    using chain_insert [OF c, of b] assms by simp
  then show ?thesis
    using assms chain_head [of 0 "mem s" box bs] by (auto simp: rt_free_box_def box_free_def)
qed

lemma free_bad: "b < box \<or> mem s (box + 4) \<le> b \<Longrightarrow> rt_free_box box b s = (1, s)"
  by (auto simp: rt_free_box_def)

section \<open>Initialisation\<close>

text \<open>The blocks of a box, without wrap-around of addresses.\<close>

definition blocks :: "nat \<Rightarrow> nat \<Rightarrow> nat \<Rightarrow> u32 list" where
  "blocks a bsz n = map (\<lambda>i. of_nat (a + i * bsz)) [0..<n]"

lemma blocks_Suc: "blocks a bsz (Suc n) = of_nat a # blocks (a + bsz) bsz n"
  by (simp add: blocks_def upt_conv_Cons map_Suc_upt [symmetric] algebra_simps del: upt_Suc)

lemma blocks_0 [simp]: "blocks a bsz 0 = []"
  by (simp add: blocks_def)

lemma in_blocks: "w \<in> set (blocks a bsz n) \<longleftrightarrow> (\<exists>i<n. w = of_nat (a + i * bsz))"
  by (auto simp: blocks_def)

text \<open>The loop terminates and links \<open>n\<close> blocks, where \<open>n\<close> is the number that fits.\<close>

lemma init_box_loop_spec:
  assumes "0 < bsz" and "0 < a" and "a + Suc n * bsz \<le> e" and "e < a + Suc (Suc n) * bsz" and "e < 2 ^ 32"
  shows "\<exists>m'. init_box_loop (of_nat a) (of_nat (e - bsz)) (of_nat bsz) m = Some m' \<and>
     (\<forall>h. h < a \<longrightarrow> m (of_nat h) = of_nat a \<longrightarrow> chain 0 m' (of_nat h) (blocks a bsz (Suc n))) \<and>
     (\<forall>w. w \<notin> set (blocks a bsz (Suc n)) \<longrightarrow> m' w = m w)"
  using assms
proof (induction n arbitrary: a m)
  case 0
  have "unat (of_nat (a + bsz) :: u32) = a + bsz" by (rule unat_of_nat_lt) (use 0 in simp)
  moreover have "unat (of_nat (e - bsz) :: u32) = e - bsz" by (rule unat_of_nat_lt) (use 0 in simp)
  ultimately have "of_nat (a + bsz) > (of_nat (e - bsz) :: u32)"
    using 0 unfolding word_less_nat_alt by simp
  then have e1: "init_box_loop (of_nat a) (of_nat (e - bsz)) (of_nat bsz) m = Some (m(of_nat a := 0))"
    by (subst init_box_loop.simps) (simp add: Let_def del: of_nat_diff)
  have an: "(of_nat a :: u32) \<noteq> 0" using 0 of_nat_word_eq [of a 0, where 'a = 32] by simp
  have "(of_nat h :: u32) \<noteq> of_nat a" if "h < a" for h
    using that 0 of_nat_word_eq [of h a, where 'a = 32] by simp
  then show ?case using e1 an by (auto simp: blocks_Suc)
next
  case (Suc n)
  have "unat (of_nat (a + bsz) :: u32) = a + bsz" by (rule unat_of_nat_lt) (use Suc.prems in simp)
  moreover have "unat (of_nat (e - bsz) :: u32) = e - bsz" by (rule unat_of_nat_lt) (use Suc.prems in simp)
  ultimately have "\<not> of_nat (a + bsz) > (of_nat (e - bsz) :: u32)"
    using Suc.prems unfolding word_less_nat_alt by simp
  then have e1: "init_box_loop (of_nat a) (of_nat (e - bsz)) (of_nat bsz) m
      = init_box_loop (of_nat (a + bsz)) (of_nat (e - bsz)) (of_nat bsz) (m(of_nat a := of_nat (a + bsz)))"
    by (subst init_box_loop.simps) (simp add: Let_def)
  let ?m1 = "m(of_nat a := of_nat (a + bsz))"
  obtain m' where m': "init_box_loop (of_nat (a + bsz)) (of_nat (e - bsz)) (of_nat bsz) ?m1 = Some m'"
    and c: "\<forall>h. h < a + bsz \<longrightarrow> ?m1 (of_nat h) = of_nat (a + bsz) \<longrightarrow> chain 0 m' (of_nat h) (blocks (a + bsz) bsz (Suc n))"
    and fr: "\<forall>w. w \<notin> set (blocks (a + bsz) bsz (Suc n)) \<longrightarrow> m' w = ?m1 w"
  proof -
    have "0 < a + bsz" "a + bsz + Suc n * bsz \<le> e" "e < a + bsz + Suc (Suc n) * bsz"
      using Suc.prems by (simp_all add: algebra_simps)
    from that Suc.IH [OF Suc.prems(1) this Suc.prems(5), of ?m1] show ?thesis by blast
  qed
  have an: "(of_nat a :: u32) \<noteq> 0" using Suc.prems of_nat_word_eq [of a 0, where 'a = 32] by simp
  have ca: "chain 0 m' (of_nat a) (blocks (a + bsz) bsz (Suc n))" using c Suc.prems(1) by simp
  have nb: "(of_nat h :: u32) \<notin> set (blocks (a + bsz) bsz (Suc n))" if "h \<le> a" for h
  proof
    assume "(of_nat h :: u32) \<in> set (blocks (a + bsz) bsz (Suc n))"
    then obtain i where i: "i < Suc n" "(of_nat h :: u32) = of_nat (a + bsz + i * bsz)" by (auto simp: in_blocks)
    have "a + bsz + i * bsz \<le> a + bsz + n * bsz" using i(1) by simp
    also have "\<dots> < 2 ^ 32" using Suc.prems by (simp add: algebra_simps)
    finally have "a + bsz + i * bsz < 2 ^ 32" .
    moreover have "h < 2 ^ 32" using Suc.prems that by (simp add: algebra_simps)
    ultimately have "h = a + bsz + i * bsz"
      using i(2) of_nat_word_eq [of h "a + bsz + i * bsz", where 'a = 32] unfolding len_bit0 by fastforce
    then show False using that Suc.prems(1) by simp
  qed
  have "chain 0 m' (of_nat h) (blocks a bsz (Suc (Suc n)))" if h: "h < a" "m (of_nat h) = of_nat a" for h
  proof -
    have "(of_nat h :: u32) \<noteq> of_nat a" using h Suc.prems of_nat_word_eq [of h a, where 'a = 32] by simp
    then have "m' (of_nat h) = of_nat a" using fr nb [of h] h by simp
    then show ?thesis using an ca by (simp add: blocks_Suc [of a])
  qed
  moreover have "m' w = m w" if "w \<notin> set (blocks a bsz (Suc (Suc n)))" for w
    using that fr by (simp add: blocks_Suc [of a])
  ultimately show ?case using e1 m' by auto
qed

text \<open>A box of word-aligned blocks (the case without \<open>BOX_ALIGN_8\<close>) at address \<open>a\<close>, of \<open>sz\<close> bytes, with
  blocks of \<open>bsz\<close> bytes.\<close>

lemma bit_u32_3: "bit (3 :: u32) n \<longleftrightarrow> n < 2"
proof -
  have "(3 :: u32) = mask 2" by (simp add: mask_eq_exp_minus_1)
  then show ?thesis by (simp only: bit_mask_iff) auto
qed

lemma round4: "(of_nat (4 * k) + 3 :: u32) AND NOT 3 = of_nat (4 * k)"
proof -
  have "(of_nat (4 * k) :: u32) = push_bit 2 (of_nat k)" by (simp add: push_bit_eq_mult)
  moreover have "(push_bit 2 w + 3 :: u32) AND NOT 3 = push_bit 2 w" for w :: u32
  proof -
    have "push_bit 2 w + 3 = push_bit 2 w OR (3 :: u32)"
    proof (rule disjunctive_add)
      fix n
      show "\<not> bit (push_bit 2 w) n \<or> \<not> bit (3 :: u32) n"
        using bit_u32_3 [of n] by (auto simp: bit_push_bit_iff simp del: bit_numeral_rec)
    qed
    moreover have "(push_bit 2 w OR 3) AND NOT 3 = push_bit 2 (w :: u32)"
    proof (rule bit_word_eqI)
      fix n
      show "bit ((push_bit 2 w OR 3) AND NOT 3) n = bit (push_bit 2 w) n" if "n < LENGTH(32)"
        by (simp only: bit_and_iff bit_or_iff bit_not_iff bit_push_bit_iff bit_u32_3) (use that in auto)
    qed
    ultimately show ?thesis by simp
  qed
  ultimately show ?thesis by simp
qed

lemma init_box_spec:
  assumes al: "bsz = 4 * k" "0 < k" and fit: "bsz + 12 \<le> sz" "sz < 2 ^ 31" and top: "0 < a" "a + sz < 2 ^ 32"
  shows "\<exists>s'. init_box (of_nat a) (of_nat sz) (of_nat bsz) s = Some (0, s') \<and>
     box_free s' (of_nat a) (blocks (a + 12) bsz ((sz - 12) div bsz)) \<and>
     mem s' (of_nat a + 4) = of_nat (a + sz) \<and> mem s' (of_nat a + 8) = of_nat bsz"
proof -
  let ?n = "(sz - 12) div bsz - 1"
  have pos: "0 < bsz" using al by simp
  have n1: "1 \<le> (sz - 12) div bsz" using fit pos by (simp add: Suc_leI div_greater_zero_iff)
  then have Sn: "Suc ?n = (sz - 12) div bsz" by simp
  have nd: "Suc ?n * bsz \<le> sz - 12" "sz - 12 < Suc (Suc ?n) * bsz"
    unfolding Sn using div_times_less_eq_dividend dividend_less_div_times [OF pos, of "sz - 12"] by auto
  have u: "unat (of_nat bsz :: u32) = bsz" "unat (of_nat sz :: u32) = sz" "unat (of_nat (bsz + 12) :: u32) = bsz + 12"
    by (rule unat_of_nat_lt; use fit in simp)+
  have "(of_nat bsz :: u32) < 2 ^ 31" using fit u(1) by (simp add: word_less_nat_alt)
  then have "\<not> bit (of_nat bsz :: u32) 31" by (simp add: bit_iff_odd div_word_less)
  then have b31: "(of_nat bsz :: u32) AND BOX_ALIGN_8 = 0"
    using and_exp_eq_0_iff_not_bit [of "of_nat bsz :: u32" 31] by (simp add: BOX_ALIGN_8_def)
  have r4: "(of_nat bsz + 3 :: u32) AND NOT 3 = of_nat bsz" using round4 [of k] al by simp
  have nz: "(of_nat bsz :: u32) \<noteq> 0" using u(1) pos by auto
  have le: "\<not> of_nat bsz + sizeof_OS_BM > (of_nat sz :: u32)"
    using u fit by (simp add: sizeof_OS_BM_def word_less_nat_alt)
  let ?m = "(mem s)(of_nat a := of_nat (a + 12), of_nat a + 4 := of_nat (a + sz), of_nat a + 8 := of_nat bsz)"
  have dist: "(of_nat (a + i) :: u32) = of_nat (a + j) \<longleftrightarrow> i = j" if "i \<le> sz" "j \<le> sz" for i j
    using of_nat_word_eq [of "a + i" "a + j", where 'a = 32] that top by simp
  have hd: "?m (of_nat a) = of_nat (a + 12)"
    using dist [of 0 4] dist [of 0 8] fit by simp
  have d: "a + 12 + Suc ?n * bsz \<le> a + sz" "a + sz < a + 12 + Suc (Suc ?n) * bsz" "0 < a + 12"
    using nd fit by linarith+
  obtain m' where m': "init_box_loop (of_nat (a + 12)) (of_nat (a + sz - bsz)) (of_nat bsz) ?m = Some m'"
    and c: "\<forall>h. h < a + 12 \<longrightarrow> ?m (of_nat h) = of_nat (a + 12) \<longrightarrow> chain 0 m' (of_nat h) (blocks (a + 12) bsz (Suc ?n))"
    and fr: "\<forall>w. w \<notin> set (blocks (a + 12) bsz (Suc ?n)) \<longrightarrow> m' w = ?m w"
    using init_box_loop_spec [OF pos d(3,1,2) top(2), of ?m] by blast
  have nb: "(of_nat (a + j) :: u32) \<notin> set (blocks (a + 12) bsz (Suc ?n))" if "j < 12" for j
  proof
    assume "(of_nat (a + j) :: u32) \<in> set (blocks (a + 12) bsz (Suc ?n))"
    then obtain i where i: "i < Suc ?n" "(of_nat (a + j) :: u32) = of_nat (a + 12 + i * bsz)" by (auto simp: in_blocks)
    have "i * bsz \<le> Suc ?n * bsz" using i(1) by (intro mult_le_mono1) simp
    then have "12 + i * bsz \<le> sz" using nd(1) fit by linarith
    then have "j = 12 + i * bsz" using dist [of j "12 + i * bsz"] i(2) that fit by (simp add: add.assoc)
    then show False using that by simp
  qed
  have "init_box (of_nat a) (of_nat sz) (of_nat bsz) s = Some (0, s\<lparr>mem := m'\<rparr>)"
    using b31 r4 nz le m' fit by (simp add: init_box_def Let_def sizeof_OS_BM_def of_nat_diff)
  moreover have "chain 0 m' (of_nat a) (blocks (a + 12) bsz (Suc ?n))" using c hd by simp
  moreover have "m' (of_nat a + 4) = of_nat (a + sz)"
    using fr nb [of 4] dist [of 4 8] fit by simp
  moreover have "m' (of_nat a + 8) = of_nat bsz" using fr nb [of 8] by simp
  ultimately show ?thesis unfolding Sn by (auto simp: box_free_def)
qed

end
