(* ===== verification/Ring.thy ===== *)
theory Ring
  imports Prelude
begin

text \<open>
  Ring buffers: the kernel keeps messages and interrupt requests in arrays with a read index, a
  write index and a count. The contract of a bounded first-in first-out queue is a locale,
  in which the order of whole batches of messages is proved once; the mailbox and the post
  service queue are its instances.
\<close>

section \<open>The contents of a ring\<close>

text \<open>The \<open>c\<close> entries from index \<open>l\<close> on, in an array \<open>q\<close> of size \<open>n\<close>.\<close>

definition ring :: "(nat \<Rightarrow> 'a) \<Rightarrow> nat \<Rightarrow> nat \<Rightarrow> nat \<Rightarrow> 'a list" where
  "ring q l c n = map (\<lambda>i. q ((l + i) mod n)) [0..<c]"

lemma length_ring [simp]: "length (ring q l c n) = c"
  by (simp add: ring_def)

lemma ring_0 [simp]: "ring q l 0 n = []"
  by (simp add: ring_def)

lemma ring_Suc_snoc: "ring q l (Suc c) n = ring q l c n @ [q ((l + c) mod n)]"
  by (simp add: ring_def)

lemma mod_add_cancel_lt:
  assumes "i < n" and "j < n" and "(l + i) mod n = (l + j) mod n"
  shows "i = (j :: nat)"
  using assms
proof (induction i j rule: linorder_wlog)
  case (le i j)
  then have "(l + j) mod n = (l + i) mod n" by simp
  then have "n dvd (l + j) - (l + i)" using le(1) by (simp add: mod_eq_dvd_iff_nat)
  then have "n dvd j - i" by simp
  then show ?case using le(1,3) by (auto dest: dvd_imp_le)
next
  case (sym i j)
  then show ?case by simp
qed

lemma ring_put:
  assumes "c < n"
  shows "ring (q((l + c) mod n := x)) l (Suc c) n = ring q l c n @ [x]"
proof -
  have "(l + i) mod n \<noteq> (l + c) mod n" if "i < c" for i
    using mod_add_cancel_lt [of i n c l] that assms by auto
  then show ?thesis by (simp add: ring_def)
qed

lemma ring_frame:
  assumes "c \<le> k" and "k < n"
  shows "ring (q((l + k) mod n := x)) l c n = ring q l c n"
proof -
  have "(l + i) mod n \<noteq> (l + k) mod n" if "i < c" for i
    using mod_add_cancel_lt [of i n k l] that assms by auto
  then show ?thesis by (simp add: ring_def)
qed

lemma ring_get: "l < n \<Longrightarrow> ring q l (Suc c) n = q l # ring q ((l + 1) mod n) c n"
  by (simp add: ring_def upt_conv_Cons map_Suc_upt [symmetric] mod_simps del: upt_Suc)

lemma ring_wrap: "a < n \<Longrightarrow> (if Suc a = n then 0 else Suc a) = (a + 1) mod n"
  by auto

section \<open>The contract\<close>

locale bounded_fifo =
  fixes ok :: "'s \<Rightarrow> bool"
    and content :: "'s \<Rightarrow> 'a list"
    and cap :: "'s \<Rightarrow> nat"
    and put :: "'a \<Rightarrow> 's \<Rightarrow> 's option"
    and get :: "'s \<Rightarrow> ('a \<times> 's) option"
  assumes put_law: "ok s \<Longrightarrow> length (content s) < cap s \<Longrightarrow>
      \<exists>s'. put x s = Some s' \<and> ok s' \<and> cap s' = cap s \<and> content s' = content s @ [x]"
    and get_law: "ok s \<Longrightarrow> content s = x # xs \<Longrightarrow>
      \<exists>s'. get s = Some (x, s') \<and> ok s' \<and> cap s' = cap s \<and> content s' = xs"
begin

text \<open>A batch of writes, and a batch of reads.\<close>

primrec puts :: "'a list \<Rightarrow> 's \<Rightarrow> 's option" where
  "puts [] s = Some s"
| "puts (x # xs) s = Option.bind (put x s) (puts xs)"

primrec gets :: "nat \<Rightarrow> 's \<Rightarrow> ('a list \<times> 's) option" where
  "gets 0 s = Some ([], s)"
| "gets (Suc n) s = Option.bind (get s) (\<lambda>(x, s). map_option (\<lambda>(xs, s). (x # xs, s)) (gets n s))"

lemma puts_fit:
  "ok s \<Longrightarrow> length (content s) + length xs \<le> cap s \<Longrightarrow>
     \<exists>s'. puts xs s = Some s' \<and> ok s' \<and> cap s' = cap s \<and> content s' = content s @ xs"
proof (induction xs arbitrary: s)
  case (Cons x xs)
  then have "length (content s) < cap s" by simp
  then obtain s1 where s1: "put x s = Some s1" "ok s1" "cap s1 = cap s" "content s1 = content s @ [x]"
    using put_law [OF Cons.prems(1)] by blast
  then have "length (content s1) + length xs \<le> cap s1" using Cons.prems by simp
  then show ?case using Cons.IH [OF s1(2)] s1 by auto
qed simp

lemma gets_all:
  "ok s \<Longrightarrow> content s = xs @ ys \<Longrightarrow>
     \<exists>s'. gets (length xs) s = Some (xs, s') \<and> ok s' \<and> cap s' = cap s \<and> content s' = ys"
proof (induction xs arbitrary: s)
  case (Cons x xs)
  then obtain s1 where s1: "get s = Some (x, s1)" "ok s1" "cap s1 = cap s" "content s1 = xs @ ys"
    using get_law [OF Cons.prems(1), of x "xs @ ys"] by auto
  then show ?case using Cons.IH [OF s1(2,4)] by auto
qed simp

text \<open>What is written to an empty queue is read back in the same order.\<close>

lemma fifo_order:
  assumes "ok s" and "content s = []" and "length xs \<le> cap s"
  shows "\<exists>s1 s2. puts xs s = Some s1 \<and> gets (length xs) s1 = Some (xs, s2) \<and> ok s2 \<and> content s2 = []"
proof -
  obtain s1 where s1: "puts xs s = Some s1" "ok s1" "content s1 = xs"
    using puts_fit [OF assms(1), of xs] assms(2,3) by auto
  then show ?thesis using gets_all [OF s1(2), of xs "[]"] by auto
qed

end

end
