(* ===== verification/Rt_Mailbox.thy ===== *)
theory Rt_Mailbox
  imports Rt_Event Rt_MemBox Ring
begin

text \<open>
  Mailboxes (\<open>rt_Mailbox.c\<close>, the build for CMSIS RTOS): a ring of message words, and a list of
  tasks that wait to receive (\<open>state\<close> 1), to send (2) or to allocate memory (3).
\<close>

section \<open>Operations\<close>

definition sizeof_OS_MCB :: u32 where "sizeof_OS_MCB = 20"

definition rt_mbx_init :: "ptr \<Rightarrow> u16 \<Rightarrow> os \<Rightarrow> os option" where
  "rt_mbx_init p_MCB sz s = do {
     s \<leftarrow> wr cb_type_update p_MCB MCB s;
     s \<leftarrow> wr mbx_state_update p_MCB 0 s;
     s \<leftarrow> wr mbx_isr_st_update p_MCB 0 s;
     s \<leftarrow> wr p_lnk_update p_MCB NULL s;
     s \<leftarrow> wr mbx_first_update p_MCB 0 s;
     s \<leftarrow> wr mbx_last_update p_MCB 0 s;
     s \<leftarrow> wr mbx_count_update p_MCB 0 s;
     wr mbx_size_update p_MCB (ucast ((ucast sz + 4 - sizeof_OS_MCB) div 4)) s
   }"

text \<open>\<open>msg[i]\<close>: the ring has \<open>size\<close> entries; outside of it the access is undefined.\<close>

definition mbx_rd_msg :: "ptr \<Rightarrow> u16 \<Rightarrow> os \<Rightarrow> u32 option" where
  "mbx_rd_msg p i s = (if i < mbx_size s p then Some (mbx_msg s p (unat i)) else None)"

definition mbx_wr_msg :: "ptr \<Rightarrow> u16 \<Rightarrow> u32 \<Rightarrow> os \<Rightarrow> os option" where
  "mbx_wr_msg p i m s =
     (if i < mbx_size s p then wr mbx_msg_update p ((mbx_msg s p)(unat i := m)) s else None)"

text \<open>\<open>if (++p->first == p->size) p->first = 0\<close>, and the same for \<open>last\<close>.\<close>

definition mbx_next_first :: "ptr \<Rightarrow> os \<Rightarrow> os option" where
  "mbx_next_first p s = do {
     s \<leftarrow> wr mbx_first_update p (mbx_first s p + 1) s;
     if mbx_first s p = mbx_size s p then wr mbx_first_update p 0 s else Some s
   }"

definition mbx_next_last :: "ptr \<Rightarrow> os \<Rightarrow> os option" where
  "mbx_next_last p s = do {
     s \<leftarrow> wr mbx_last_update p (mbx_last s p + 1) s;
     if mbx_last s p = mbx_size s p then wr mbx_last_update p 0 s else Some s
   }"

text \<open>Storing a message in a free entry, as \<open>rt_mbx_send\<close> and \<open>rt_mbx_psh\<close> do.\<close>

definition mbx_store :: "ptr \<Rightarrow> u32 \<Rightarrow> os \<Rightarrow> os option" where
  "mbx_store p m s = do {
     s \<leftarrow> mbx_wr_msg p (mbx_first s p) m s;
     s \<leftarrow> wr mbx_count_update p (mbx_count s p + 1) s;
     mbx_next_first p s
   }"

definition rt_mbx_send :: "ptr \<Rightarrow> u32 \<Rightarrow> u16 \<Rightarrow> os \<Rightarrow> (u32 \<times> os) option" where
  "rt_mbx_send p_MCB p_msg timeout s = do {
     lnk \<leftarrow> rd p_lnk p_MCB s;
     if lnk \<noteq> NULL \<and> mbx_state s p_MCB = 1 then do {
       (p_TCB, s) \<leftarrow> rt_get_first p_MCB s;
       s \<leftarrow> rt_ret_val2 p_TCB 0x10 p_msg s;
       s \<leftarrow> rt_rmv_dly p_TCB s;
       s \<leftarrow> rt_dispatch p_TCB s;
       Some (OS_R_OK, s)
     }
     else if mbx_count s p_MCB = mbx_size s p_MCB then
       if timeout = 0 then Some (OS_R_TMO, s)
       else do {
         s \<leftarrow> (if p_lnk s p_MCB \<noteq> NULL then rt_put_prio p_MCB (run s) s
               else do {
                 s \<leftarrow> put_first_waiter p_MCB s;
                 wr mbx_state_update p_MCB 2 s
               });
         s \<leftarrow> wr msg_update (run s) p_msg s;
         s \<leftarrow> rt_block timeout WAIT_MBX s;
         Some (OS_R_TMO, s)
       }
     else do {
       s \<leftarrow> mbx_store p_MCB p_msg s;
       Some (OS_R_OK, s)
     }
   }"

text \<open>\<open>rt_mbx_wait\<close> returns the message it stored through its second argument, if it did.\<close>

definition rt_mbx_wait :: "ptr \<Rightarrow> u16 \<Rightarrow> os \<Rightarrow> (u32 \<times> u32 option \<times> os) option" where
  "rt_mbx_wait p_MCB timeout s = do {
     cnt \<leftarrow> rd mbx_count p_MCB s;
     if cnt \<noteq> 0 then do {
       m \<leftarrow> mbx_rd_msg p_MCB (mbx_last s p_MCB) s;
       s \<leftarrow> mbx_next_last p_MCB s;
       s \<leftarrow> (if p_lnk s p_MCB \<noteq> NULL \<and> mbx_state s p_MCB = 2 then do {
               (p_TCB, s) \<leftarrow> rt_get_first p_MCB s;
               s \<leftarrow> rt_ret_val p_TCB 0 s;
               s \<leftarrow> mbx_wr_msg p_MCB (mbx_first s p_MCB) (msg s p_TCB) s;
               s \<leftarrow> mbx_next_first p_MCB s;
               s \<leftarrow> rt_rmv_dly p_TCB s;
               rt_dispatch p_TCB s
             }
             else wr mbx_count_update p_MCB (mbx_count s p_MCB - 1) s);
       Some (OS_R_OK, Some m, s)
     }
     else if timeout = 0 then Some (OS_R_TMO, None, s)
     else do {
       s \<leftarrow> (if p_lnk s p_MCB \<noteq> NULL then rt_put_prio p_MCB (run s) s
             else do {
               s \<leftarrow> put_first_waiter p_MCB s;
               wr mbx_state_update p_MCB 1 s
             });
       s \<leftarrow> rt_block timeout WAIT_MBX s;
       Some (OS_R_TMO, None, s)
     }
   }"

definition rt_mbx_check :: "ptr \<Rightarrow> os \<Rightarrow> u32 option" where
  "rt_mbx_check p_MCB s = do {
     sz \<leftarrow> rd mbx_size p_MCB s;
     Some (ucast sz - ucast (mbx_count s p_MCB))
   }"

definition isr_mbx_send :: "ptr \<Rightarrow> u32 \<Rightarrow> os \<Rightarrow> os option" where
  "isr_mbx_send p_MCB p_msg s = do {
     s \<leftarrow> rt_psq_enq p_MCB p_msg s;
     Some (rt_psh_req s)
   }"

definition isr_mbx_receive :: "ptr \<Rightarrow> os \<Rightarrow> (u32 \<times> u32 option \<times> os) option" where
  "isr_mbx_receive p_MCB s = do {
     cnt \<leftarrow> rd mbx_count p_MCB s;
     if cnt \<noteq> 0 then do {
       m \<leftarrow> mbx_rd_msg p_MCB (mbx_last s p_MCB) s;
       s \<leftarrow> (if mbx_state s p_MCB = 2 then do {
               s \<leftarrow> rt_psq_enq p_MCB 0 s;
               Some (rt_psh_req s)
             } else Some s);
       s \<leftarrow> wr mbx_count_update p_MCB (mbx_count s p_MCB - 1) s;
       s \<leftarrow> mbx_next_last p_MCB s;
       Some (OS_R_MBX, Some m, s)
     }
     else Some (OS_R_OK, None, s)
   }"

text \<open>The common end of the cases of \<open>rt_mbx_psh\<close>.\<close>

definition mbx_psh_ready :: "ptr \<Rightarrow> os \<Rightarrow> os option" where
  "mbx_psh_ready p_TCB s = do {
     s \<leftarrow> wr state_update p_TCB READY s;
     s \<leftarrow> rt_rmv_dly p_TCB s;
     rt_put_prio Rdy p_TCB s
   }"

definition rt_mbx_psh :: "ptr \<Rightarrow> u32 \<Rightarrow> os \<Rightarrow> os option" where
  "rt_mbx_psh p_CB p_msg s = do {
     lnk \<leftarrow> rd p_lnk p_CB s;
     if lnk \<noteq> NULL then
       (if mbx_state s p_CB = 3 then
          (let (m, s) = rt_alloc_box p_msg s in
           if m = 0 then Some s
           else do {
             (p_TCB, s) \<leftarrow> rt_get_first p_CB s;
             s \<leftarrow> rt_ret_val p_TCB m s;
             mbx_psh_ready p_TCB s
           })
        else if mbx_state s p_CB = 2 then do {
          (p_TCB, s) \<leftarrow> rt_get_first p_CB s;
          s \<leftarrow> rt_ret_val p_TCB 0 s;
          s \<leftarrow> mbx_store p_CB (msg s p_TCB) s;
          mbx_psh_ready p_TCB s
        }
        else if mbx_state s p_CB = 1 then do {
          (p_TCB, s) \<leftarrow> rt_get_first p_CB s;
          s \<leftarrow> rt_ret_val2 p_TCB 0x10 p_msg s;
          mbx_psh_ready p_TCB s
        }
        else Some s)
     else if mbx_count s p_CB < mbx_size s p_CB then mbx_store p_CB p_msg s
     else None
   }"

section \<open>The ring of messages\<close>

definition mbx_ok :: "ptr \<Rightarrow> os \<Rightarrow> bool" where
  "mbx_ok p s \<longleftrightarrow> p \<noteq> NULL \<and> mbx_first s p < mbx_size s p \<and> mbx_last s p < mbx_size s p \<and>
     mbx_count s p \<le> mbx_size s p \<and>
     unat (mbx_first s p) = (unat (mbx_last s p) + unat (mbx_count s p)) mod unat (mbx_size s p)"

definition mbx_content :: "ptr \<Rightarrow> os \<Rightarrow> u32 list" where
  "mbx_content p s = ring (mbx_msg s p) (unat (mbx_last s p)) (unat (mbx_count s p)) (unat (mbx_size s p))"

definition mbx_cap :: "ptr \<Rightarrow> os \<Rightarrow> nat" where
  "mbx_cap p s = unat (mbx_size s p)"

text \<open>Taking the oldest message out, as \<open>rt_mbx_wait\<close> does when nobody waits to send.\<close>

definition mbx_take :: "ptr \<Rightarrow> os \<Rightarrow> (u32 \<times> os) option" where
  "mbx_take p s = do {
     m \<leftarrow> mbx_rd_msg p (mbx_last s p) s;
     s \<leftarrow> mbx_next_last p s;
     s \<leftarrow> wr mbx_count_update p (mbx_count s p - 1) s;
     Some (m, s)
   }"

lemma wrap16:
  fixes a n :: u16
  assumes "a < n"
  shows "unat (if a + 1 = n then 0 else a + 1) = (unat a + 1) mod unat n"
proof -
  have lt: "unat a < unat n" using assms by (simp add: word_less_nat_alt)
  have "Suc (unat a) < 65536" using lt unat_u16_less [of n] by linarith
  then have s: "unat (a + 1) = unat a + 1" by (simp add: unat_word_ariths)
  have eq: "a + 1 = n \<longleftrightarrow> Suc (unat a) = unat n"
    using s by (metis Suc_eq_plus1 word_unat_eq_iff)
  show ?thesis using s eq lt ring_wrap [OF lt] by auto
qed

lemma mbx_next_first_eq:
  "p \<noteq> NULL \<Longrightarrow> mbx_next_first p s = Some (s\<lparr>mbx_first := (mbx_first s)(p :=
     (if mbx_first s p + 1 = mbx_size s p then 0 else mbx_first s p + 1))\<rparr>)"
  by (simp add: mbx_next_first_def)

lemma mbx_next_last_eq:
  "p \<noteq> NULL \<Longrightarrow> mbx_next_last p s = Some (s\<lparr>mbx_last := (mbx_last s)(p :=
     (if mbx_last s p + 1 = mbx_size s p then 0 else mbx_last s p + 1))\<rparr>)"
  by (simp add: mbx_next_last_def)

lemma unat_inc16: "(a :: u16) < n \<Longrightarrow> unat (a + 1) = Suc (unat a)"
proof -
  assume "a < n"
  then have "unat a < unat n" by (simp add: word_less_nat_alt)
  then have "Suc (unat a) < 65536" using unat_u16_less [of n] by linarith
  then show ?thesis by (simp add: unat_word_ariths)
qed

lemma unat_dec16: "(a :: u16) \<noteq> 0 \<Longrightarrow> unat (a - 1) = unat a - 1"
  by (simp add: unat_minus_one)

lemma mbx_store_law:
  assumes ok: "mbx_ok p s" and room: "length (mbx_content p s) < mbx_cap p s"
  shows "\<exists>s'. mbx_store p x s = Some s' \<and> mbx_ok p s' \<and> mbx_cap p s' = mbx_cap p s \<and>
     mbx_content p s' = mbx_content p s @ [x]"
proof -
  have pn: "p \<noteq> NULL" and fl: "mbx_first s p < mbx_size s p"
    and fst: "unat (mbx_first s p) = (unat (mbx_last s p) + unat (mbx_count s p)) mod unat (mbx_size s p)"
    using ok by (simp_all add: mbx_ok_def)
  have c: "unat (mbx_count s p) < unat (mbx_size s p)" using room by (simp add: mbx_content_def mbx_cap_def)
  then have cw: "mbx_count s p < mbx_size s p" by (simp add: word_less_nat_alt)
  define f where "f = (if mbx_first s p + 1 = mbx_size s p then 0 else mbx_first s p + 1)"
  define s' where "s' = s\<lparr>mbx_msg := (mbx_msg s)(p := (mbx_msg s p)(unat (mbx_first s p) := x)),
    mbx_count := (mbx_count s)(p := mbx_count s p + 1), mbx_first := (mbx_first s)(p := f)\<rparr>"
  have e: "mbx_store p x s = Some s'"
    using pn fl by (simp add: mbx_store_def mbx_wr_msg_def mbx_next_first_eq s'_def f_def)
  have fu: "unat f = (unat (mbx_first s p) + 1) mod unat (mbx_size s p)" unfolding f_def by (rule wrap16 [OF fl])
  have cu: "unat (mbx_count s p + 1) = Suc (unat (mbx_count s p))" by (rule unat_inc16 [OF cw])
  have "f < mbx_size s p" using fu c by (simp add: word_less_nat_alt)
  moreover have "unat f = (unat (mbx_last s p) + Suc (unat (mbx_count s p))) mod unat (mbx_size s p)"
    unfolding fu fst by (simp add: mod_Suc_eq)
  moreover have "mbx_count s p + 1 \<le> mbx_size s p" using cu c by (simp add: word_le_nat_alt)
  ultimately have "mbx_ok p s'" using ok cu by (simp add: mbx_ok_def s'_def)
  moreover have "mbx_content p s' = mbx_content p s @ [x]"
    using ring_put [OF c, of "mbx_msg s p" "unat (mbx_last s p)" x] cu fst by (simp add: mbx_content_def s'_def)
  ultimately show ?thesis using e by (simp add: mbx_cap_def s'_def)
qed

lemma mbx_take_law:
  assumes ok: "mbx_ok p s" and c: "mbx_content p s = x # xs"
  shows "\<exists>s'. mbx_take p s = Some (x, s') \<and> mbx_ok p s' \<and> mbx_cap p s' = mbx_cap p s \<and> mbx_content p s' = xs"
proof -
  have pn: "p \<noteq> NULL" and la: "mbx_last s p < mbx_size s p"
    and fst: "unat (mbx_first s p) = (unat (mbx_last s p) + unat (mbx_count s p)) mod unat (mbx_size s p)"
    using ok by (simp_all add: mbx_ok_def)
  have "length (mbx_content p s) = Suc (length xs)" using c by simp
  then have cs: "unat (mbx_count s p) = Suc (length xs)" by (simp add: mbx_content_def)
  then have nz: "mbx_count s p \<noteq> 0" by auto
  define l where "l = (if mbx_last s p + 1 = mbx_size s p then 0 else mbx_last s p + 1)"
  have lt: "unat (mbx_last s p) < unat (mbx_size s p)" using la by (simp add: word_less_nat_alt)
  have lu: "unat l = (unat (mbx_last s p) + 1) mod unat (mbx_size s p)" unfolding l_def by (rule wrap16 [OF la])
  have cu: "unat (mbx_count s p - 1) = length xs" using unat_dec16 [OF nz] cs by simp
  have g: "ring (mbx_msg s p) (unat (mbx_last s p)) (Suc (length xs)) (unat (mbx_size s p))
      = mbx_msg s p (unat (mbx_last s p)) # ring (mbx_msg s p) (unat l) (length xs) (unat (mbx_size s p))"
    unfolding lu by (rule ring_get [OF lt])
  then have x: "x = mbx_msg s p (unat (mbx_last s p))"
    and xs: "xs = ring (mbx_msg s p) (unat l) (length xs) (unat (mbx_size s p))"
    using c cs by (simp_all add: mbx_content_def)
  define s' where "s' = s\<lparr>mbx_last := (mbx_last s)(p := l), mbx_count := (mbx_count s)(p := mbx_count s p - 1)\<rparr>"
  have e: "mbx_take p s = Some (x, s')"
    using pn la x by (simp add: mbx_take_def mbx_rd_msg_def mbx_next_last_eq s'_def l_def)
  have "l < mbx_size s p" using lu lt by (simp add: word_less_nat_alt)
  moreover have "unat (mbx_first s p) = (unat l + length xs) mod unat (mbx_size s p)"
    unfolding fst lu cs by (simp add: mod_simps)
  moreover have "mbx_count s p - 1 \<le> mbx_size s p"
    using cu cs ok by (simp add: mbx_ok_def word_le_nat_alt)
  ultimately have "mbx_ok p s'" using ok cu by (simp add: mbx_ok_def s'_def)
  moreover have "mbx_content p s' = xs" using xs cu by (simp add: mbx_content_def s'_def)
  ultimately show ?thesis using e by (simp add: mbx_cap_def s'_def)
qed

lemma mbx_count_0: "mbx_count s p = 0 \<longleftrightarrow> mbx_content p s = []"
  by (simp add: mbx_content_def unat_eq_0 flip: length_0_conv)

lemma mbx_full: "mbx_ok p s \<Longrightarrow> mbx_count s p = mbx_size s p \<longleftrightarrow> length (mbx_content p s) = mbx_cap p s"
  by (simp add: mbx_content_def mbx_cap_def word_unat_eq_iff)

section \<open>Waking a task and changing data on the way\<close>

lemma wake_data:
  assumes k: "kabs s v" and r: "run s = cur v" and W: "waitq v n = t # ts"
  shows "is_tcb t \<and> (\<exists>L. rt_get_first (Obj n) s = Some (t, relink L s) \<and>
     (\<forall>s1. (\<forall>u. kst {t} (relink L s) u \<longrightarrow> kst {t} s1 u) \<longrightarrow> run s1 = run s \<longrightarrow>
       (\<exists>s'. (do { s \<leftarrow> rt_rmv_dly t s1; rt_dispatch t s }) = Some s' \<and> kabs s' (wake_one n v) \<and> moved s1 s')))"
proof -
  have k0: "kst {} s v" using k by (simp add: kabs_def)
  have tt: "is_tcb t" using kst_wait_tcb [OF k0, of t n] W by simp
  obtain L1 where e1: "rt_get_first (Obj n) s = Some (t, relink L1 s)"
    and k1: "kst {t} (relink L1 s) (v\<lparr>waitq := (waitq v)(n := ts)\<rparr>)"
    using take_first_refines [OF k0 W] by auto
  have "\<exists>s'. (do { s \<leftarrow> rt_rmv_dly t s1; rt_dispatch t s }) = Some s' \<and> kabs s' (wake_one n v) \<and> moved s1 s'"
    if fr: "\<forall>u. kst {t} (relink L1 s) u \<longrightarrow> kst {t} s1 u" and r1: "run s1 = run s" for s1
  proof -
    have k1': "kst {t} s1 (v\<lparr>waitq := (waitq v)(n := ts)\<rparr>)" using fr k1 by blast
    obtain L2 where e2: "rt_rmv_dly t s1 = Some (relink L2 s1)"
      and k2: "kst {t} (relink L2 s1) (v\<lparr>waitq := (waitq v)(n := ts), dlyq := rmv_dly t (dlyq v)\<rparr>)"
      using rmv_dly_refines [OF k1', of t] by auto
    have "run (relink L2 s1) = cur v" using r r1 by simp
    then obtain s' where e3: "rt_dispatch t (relink L2 s1) = Some s'"
      and k3: "kabs s' (dispatch t (v\<lparr>waitq := (waitq v)(n := ts), dlyq := rmv_dly t (dlyq v)\<rparr>))"
      and m: "moved (relink L2 s1) s'"
      using dispatch_refines [OF k2] by auto
    have "wake_one n v = dispatch t (v\<lparr>waitq := (waitq v)(n := ts), dlyq := rmv_dly t (dlyq v)\<rparr>)"
      using W by (simp add: wake_one_def take_waiter_def)
    then show ?thesis using e2 e3 k3 moved_trans [OF moved_relink m] by simp
  qed
  then show ?thesis using e1 tt by blast
qed

section \<open>Sending\<close>

definition give_ret2 :: "ptr \<Rightarrow> u32 \<Rightarrow> u32 \<Rightarrow> os \<Rightarrow> os" where
  "give_ret2 t x y s = s\<lparr>mem := (mem s)(tsk_stack s t + 32 := x, tsk_stack s t + 36 := y)\<rparr>"

lemma rt_mbx_send_deliver:
  assumes k: "kabs s v" and r: "run s = cur v" and ty: "cb_type s (Obj n) = MCB"
    and W: "waitq v n = t # ts" and st: "mbx_state s (Obj n) = 1"
  shows "\<exists>s'. rt_mbx_send (Obj n) m timeout s = Some (OS_R_OK, s') \<and> kabs s' (wake_one n v) \<and>
     moved (give_ret2 t 0x10 m s) s'"
proof -
  have tt: "is_tcb t" using wake_data [OF k r W] by blast
  obtain L where e: "rt_get_first (Obj n) s = Some (t, relink L s)"
    and w: "\<forall>s1. (\<forall>u. kst {t} (relink L s) u \<longrightarrow> kst {t} s1 u) \<longrightarrow> run s1 = run s \<longrightarrow>
       (\<exists>s'. (do { s \<leftarrow> rt_rmv_dly t s1; rt_dispatch t s }) = Some s' \<and> kabs s' (wake_one n v) \<and> moved s1 s')"
    using wake_data [OF k r W] by blast
  let ?s1 = "relink L (give_ret2 t 0x10 m s)"
  obtain s' where s': "(do { s \<leftarrow> rt_rmv_dly t ?s1; rt_dispatch t s }) = Some s'" "kabs s' (wake_one n v)" "moved ?s1 s'"
    using w [rule_format, of ?s1] by (auto simp: give_ret2_def)
  have "p_lnk s (Obj n) \<noteq> NULL" using kabs_obj_waits [OF k, of n] ty W by simp
  then have "rt_mbx_send (Obj n) m timeout s = Some (OS_R_OK, s')"
    using e s'(1) st tt by (auto simp: rt_mbx_send_def give_ret2_def bind_eq_Some_conv)
  then show ?thesis using s'(2) moved_trans [OF moved_relink s'(3)] by blast
qed

lemma rt_mbx_send_store:
  assumes k: "kabs s v" and ty: "cb_type s (Obj n) = MCB" and ok: "mbx_ok (Obj n) s"
    and nr: "waitq v n = [] \<or> mbx_state s (Obj n) \<noteq> 1" and room: "length (mbx_content (Obj n) s) < mbx_cap (Obj n) s"
  shows "\<exists>s'. rt_mbx_send (Obj n) m timeout s = Some (OS_R_OK, s') \<and> mbx_store (Obj n) m s = Some s' \<and>
     mbx_ok (Obj n) s' \<and> mbx_content (Obj n) s' = mbx_content (Obj n) s @ [m]"
proof -
  have "p_lnk s (Obj n) = NULL \<longleftrightarrow> waitq v n = []" using kabs_obj_waits [OF k, of n] ty by simp
  moreover have "mbx_count s (Obj n) \<noteq> mbx_size s (Obj n)" using mbx_full [OF ok] room by simp
  ultimately show ?thesis using mbx_store_law [OF ok room, of m] nr by (auto simp: rt_mbx_send_def)
qed

lemma rt_mbx_send_poll:
  assumes k: "kabs s v" and ty: "cb_type s (Obj n) = MCB" and nr: "waitq v n = [] \<or> mbx_state s (Obj n) \<noteq> 1"
    and full: "mbx_count s (Obj n) = mbx_size s (Obj n)"
  shows "rt_mbx_send (Obj n) m 0 s = Some (OS_R_TMO, s)"
  using kabs_obj_waits [OF k, of n] assms by (auto simp: rt_mbx_send_def)

text \<open>Entering the waiting list of a mailbox: the first task to wait says what for.\<close>

lemma mbx_enqueue:
  assumes k: "kabs s v" and r: "run s = cur v" and ty: "cb_type s (Obj n) = MCB"
  shows "\<exists>L. (if p_lnk s (Obj n) \<noteq> NULL then rt_put_prio (Obj n) (run s) s
         else do { s \<leftarrow> put_first_waiter (Obj n) s; wr mbx_state_update (Obj n) x s })
       = Some (relink L (if waitq v n = [] then s\<lparr>mbx_state := (mbx_state s)(Obj n := x)\<rparr> else s)) \<and>
     kenq n (relink L s) v"
  using enqueue_refines [OF k r, of n] ty by (cases "waitq v n = []") auto

lemma rt_mbx_send_block:
  assumes k: "kabs s v" and r: "run s = cur v" and i: "cur v \<noteq> os_idle_TCB" and ty: "cb_type s (Obj n) = MCB"
    and nr: "waitq v n = [] \<or> mbx_state s (Obj n) \<noteq> 1"
    and full: "mbx_count s (Obj n) = mbx_size s (Obj n)" and to: "timeout \<noteq> 0"
    and s0: "s0 = (if waitq v n = [] then s\<lparr>mbx_state := (mbx_state s)(Obj n := 2)\<rparr> else s)\<lparr>msg := (msg s)(cur v := m)\<rparr>"
  shows "\<exists>s'. rt_mbx_send (Obj n) m timeout s = Some (OS_R_TMO, s') \<and>
     kabs s' (block_on n (unat timeout) v) \<and> moved s0 s'"
proof -
  have cn: "cur v \<noteq> NULL" using kst_tcb [of "{}" s v "cur v"] k by (simp add: kabs_def)
  let ?s1 = "if waitq v n = [] then s\<lparr>mbx_state := (mbx_state s)(Obj n := 2)\<rparr> else s"
  obtain L where e: "(if p_lnk s (Obj n) \<noteq> NULL then rt_put_prio (Obj n) (run s) s
         else do { s \<leftarrow> put_first_waiter (Obj n) s; wr mbx_state_update (Obj n) 2 s }) = Some (relink L ?s1)"
    and q: "kenq n (relink L s) v" using mbx_enqueue [OF k r ty, of 2] by blast
  have rs: "run ?s1 = cur v" "msg ?s1 = msg s" using r by simp_all
  have q1: "kenq n (relink L s0) v" "run (relink L s0) = cur v" using q r by (auto simp: s0)
  obtain s' where s': "rt_block timeout WAIT_MBX (relink L s0) = Some s'" "kabs s' (block_on n (unat timeout) v)"
    "moved (relink L s0) s'" using block_on_refines [OF q1 i to, of WAIT_MBX] by auto
  have w: "wr msg_update (run (relink L ?s1)) m (relink L ?s1) = Some (relink L s0)"
    using cn rs by (simp add: s0)
  have "rt_mbx_send (Obj n) m timeout s =
     (do { s \<leftarrow> (if p_lnk s (Obj n) \<noteq> NULL then rt_put_prio (Obj n) (run s) s
         else do { s \<leftarrow> put_first_waiter (Obj n) s; wr mbx_state_update (Obj n) 2 s });
         s \<leftarrow> wr msg_update (run s) m s; s \<leftarrow> rt_block timeout WAIT_MBX s; Some (OS_R_TMO, s) })"
    using kabs_obj_waits [OF k, of n] ty nr full to by (auto simp: rt_mbx_send_def)
  also have "\<dots> = Some (OS_R_TMO, s')" unfolding e by (simp only: bind.bind_lunit w s'(1))
  finally show ?thesis using s'(2) moved_trans [OF moved_relink s'(3)] by blast
qed

section \<open>Receiving\<close>

lemma rt_mbx_wait_take:
  assumes k: "kabs s v" and ty: "cb_type s (Obj n) = MCB" and ok: "mbx_ok (Obj n) s"
    and ns: "waitq v n = [] \<or> mbx_state s (Obj n) \<noteq> 2" and c: "mbx_content (Obj n) s = x # xs"
  shows "\<exists>s'. rt_mbx_wait (Obj n) timeout s = Some (OS_R_OK, Some x, s') \<and> mbx_take (Obj n) s = Some (x, s') \<and>
     mbx_ok (Obj n) s' \<and> mbx_content (Obj n) s' = xs"
proof -
  have "p_lnk s (Obj n) = NULL \<longleftrightarrow> waitq v n = []" using kabs_obj_waits [OF k, of n] ty by simp
  moreover have "mbx_count s (Obj n) \<noteq> 0" using mbx_count_0 [of s "Obj n"] c by simp
  moreover have "mbx_last s (Obj n) < mbx_size s (Obj n)" using ok by (simp add: mbx_ok_def)
  ultimately have "rt_mbx_wait (Obj n) timeout s = map_option (\<lambda>(m, s). (OS_R_OK, Some m, s)) (mbx_take (Obj n) s)"
    using ns by (auto simp: rt_mbx_wait_def mbx_take_def mbx_rd_msg_def mbx_next_last_eq)
  then show ?thesis using mbx_take_law [OF ok c] by auto
qed

text \<open>With a task waiting to send, the queue is full: the oldest message goes to the caller, the
  message of the first waiting task takes its place.\<close>

definition mbx_swap :: "ptr \<Rightarrow> u32 \<Rightarrow> os \<Rightarrow> os option" where
  "mbx_swap p m s = do {
     s \<leftarrow> mbx_next_last p s;
     s \<leftarrow> mbx_wr_msg p (mbx_first s p) m s;
     mbx_next_first p s
   }"

lemma mbx_store_eq:
  "p \<noteq> NULL \<Longrightarrow> mbx_first s p < mbx_size s p \<Longrightarrow> mbx_store p m s = Some (s\<lparr>
     mbx_msg := (mbx_msg s)(p := (mbx_msg s p)(unat (mbx_first s p) := m)),
     mbx_count := (mbx_count s)(p := mbx_count s p + 1),
     mbx_first := (mbx_first s)(p := (if mbx_first s p + 1 = mbx_size s p then 0 else mbx_first s p + 1))\<rparr>)"
  by (simp add: mbx_store_def mbx_wr_msg_def mbx_next_first_eq)

lemma mbx_take_eq:
  "p \<noteq> NULL \<Longrightarrow> mbx_last s p < mbx_size s p \<Longrightarrow> mbx_take p s = Some (mbx_msg s p (unat (mbx_last s p)), s\<lparr>
     mbx_last := (mbx_last s)(p := (if mbx_last s p + 1 = mbx_size s p then 0 else mbx_last s p + 1)),
     mbx_count := (mbx_count s)(p := mbx_count s p - 1)\<rparr>)"
  by (simp add: mbx_take_def mbx_rd_msg_def mbx_next_last_eq)

lemma mbx_swap_law:
  assumes ok: "mbx_ok p s" and c: "mbx_content p s = x # xs" and full: "length (x # xs) = mbx_cap p s"
  shows "\<exists>f l. mbx_swap p m s = Some (s\<lparr>mbx_last := (mbx_last s)(p := l),
       mbx_msg := (mbx_msg s)(p := (mbx_msg s p)(unat (mbx_first s p) := m)), mbx_first := (mbx_first s)(p := f)\<rparr>) \<and>
     mbx_ok p (the (mbx_swap p m s)) \<and> mbx_content p (the (mbx_swap p m s)) = xs @ [m]"
proof -
  obtain s1 where t: "mbx_take p s = Some (x, s1)" and ok1: "mbx_ok p s1" and cap1: "mbx_cap p s1 = mbx_cap p s"
    and c1: "mbx_content p s1 = xs" using mbx_take_law [OF ok c] by blast
  have "length (mbx_content p s1) < mbx_cap p s1" using c1 cap1 full by simp
  then obtain s2 where p2: "mbx_store p m s1 = Some s2" and ok2: "mbx_ok p s2" and c2: "mbx_content p s2 = xs @ [m]"
    using mbx_store_law [OF ok1, of m] c1 by blast
  have pn: "p \<noteq> NULL" and la: "mbx_last s p < mbx_size s p" and fi: "mbx_first s p < mbx_size s p"
    using ok by (simp_all add: mbx_ok_def)
  define l where "l = (if mbx_last s p + 1 = mbx_size s p then 0 else mbx_last s p + 1)"
  define f where "f = (if mbx_first s p + 1 = mbx_size s p then 0 else mbx_first s p + 1)"
  have s1: "s1 = s\<lparr>mbx_last := (mbx_last s)(p := l), mbx_count := (mbx_count s)(p := mbx_count s p - 1)\<rparr>"
    using t mbx_take_eq [OF pn la] by (simp add: l_def)
  let ?s' = "s\<lparr>mbx_last := (mbx_last s)(p := l),
       mbx_msg := (mbx_msg s)(p := (mbx_msg s p)(unat (mbx_first s p) := m)), mbx_first := (mbx_first s)(p := f)\<rparr>"
  have e: "mbx_swap p m s = Some ?s'"
    using pn fi by (simp add: mbx_swap_def mbx_wr_msg_def mbx_next_first_eq mbx_next_last_eq l_def f_def)
  have "mbx_store p m s1 = Some (s1\<lparr>
     mbx_msg := (mbx_msg s)(p := (mbx_msg s p)(unat (mbx_first s p) := m)),
     mbx_count := (mbx_count s)(p := mbx_count s p), mbx_first := (mbx_first s)(p := f)\<rparr>)"
    using mbx_store_eq [of p s1 m] pn fi by (simp add: s1 f_def)
  then have "s2 = ?s'" using p2 s1 by simp
  then have "mbx_ok p ?s'" "mbx_content p ?s' = xs @ [m]" using ok2 c2 by simp_all
  then show ?thesis using e by (intro exI [of _ f] exI [of _ l] conjI) simp_all
qed

lemma rt_mbx_wait_swap:
  assumes k: "kabs s v" and r: "run s = cur v" and ty: "cb_type s (Obj n) = MCB" and ok: "mbx_ok (Obj n) s"
    and W: "waitq v n = t # ts" and st: "mbx_state s (Obj n) = 2" and c: "mbx_content (Obj n) s = x # xs"
  shows "\<exists>s1 s'. rt_mbx_wait (Obj n) timeout s = Some (OS_R_OK, Some x, s') \<and> kabs s' (wake_one n v) \<and>
     mbx_swap (Obj n) (msg s t) s = Some s1 \<and> moved (give_ret t 0 s1) s'"
proof -
  let ?p = "Obj n"
  have la: "mbx_last s ?p < mbx_size s ?p" and fi: "mbx_first s ?p < mbx_size s ?p" using ok by (simp_all add: mbx_ok_def)
  define l where "l = (if mbx_last s ?p + 1 = mbx_size s ?p then 0 else mbx_last s ?p + 1)"
  define f where "f = (if mbx_first s ?p + 1 = mbx_size s ?p then 0 else mbx_first s ?p + 1)"
  have x: "x = mbx_msg s ?p (unat (mbx_last s ?p))"
    using mbx_take_law [OF ok c] mbx_take_eq [of ?p s] la by auto
  let ?a = "s\<lparr>mbx_last := (mbx_last s)(?p := l)\<rparr>"
  have ka: "kabs ?a v" "run ?a = cur v" using k r by (simp_all add: kabs_def)
  have tt: "is_tcb t" using wake_data [OF ka W] by blast
  obtain L where e: "rt_get_first ?p ?a = Some (t, relink L ?a)"
    and w: "\<forall>s1. (\<forall>u. kst {t} (relink L ?a) u \<longrightarrow> kst {t} s1 u) \<longrightarrow> run s1 = run ?a \<longrightarrow>
       (\<exists>s'. (do { s \<leftarrow> rt_rmv_dly t s1; rt_dispatch t s }) = Some s' \<and> kabs s' (wake_one n v) \<and> moved s1 s')"
    using wake_data [OF ka W] by blast
  let ?b = "?a\<lparr>mbx_msg := (mbx_msg s)(?p := (mbx_msg s ?p)(unat (mbx_first s ?p) := msg s t)),
     mbx_first := (mbx_first s)(?p := f)\<rparr>"
  have sw: "mbx_swap ?p (msg s t) s = Some ?b"
    using fi by (simp add: mbx_swap_def mbx_wr_msg_def mbx_next_first_eq mbx_next_last_eq l_def f_def)
  let ?s1 = "relink L (?a\<lparr>mem := (mem s)(tsk_stack s t + 32 := 0),
     mbx_msg := (mbx_msg s)(?p := (mbx_msg s ?p)(unat (mbx_first s ?p) := msg s t)), mbx_first := (mbx_first s)(?p := f)\<rparr>)"
  obtain s' where s': "(do { s \<leftarrow> rt_rmv_dly t ?s1; rt_dispatch t s }) = Some s'" "kabs s' (wake_one n v)" "moved ?s1 s'"
    using w [rule_format, of ?s1] by auto
  have eq: "?s1 = relink L (give_ret t 0 ?b)" by (rule arg_cong [where f = "relink L"]) (simp add: give_ret_def)
  have "p_lnk s ?p \<noteq> NULL" using kabs_obj_waits [OF k, of n] ty W by simp
  moreover have "mbx_count s ?p \<noteq> 0" using mbx_count_0 [of s ?p] c by simp
  ultimately have "rt_mbx_wait ?p timeout s = map_option (\<lambda>s. (OS_R_OK, Some x, s))
      (do { s \<leftarrow> rt_rmv_dly t ?s1; rt_dispatch t s })"
    using st e la fi tt x unfolding rt_mbx_wait_def l_def f_def
    by (simp add: mbx_rd_msg_def mbx_wr_msg_def mbx_next_last_eq mbx_next_first_eq bind_eq_Some_conv split: Option.bind_splits)
  then have "rt_mbx_wait ?p timeout s = Some (OS_R_OK, Some x, s')" using s'(1) by simp
  moreover have "moved (give_ret t 0 ?b) s'" using s'(3) moved_trans [OF moved_relink] unfolding eq by blast
  ultimately show ?thesis using s'(2) sw by blast
qed

lemma rt_mbx_wait_poll:
  "mbx_content (Obj n) s = [] \<Longrightarrow> rt_mbx_wait (Obj n) 0 s = Some (OS_R_TMO, None, s)"
  by (simp add: rt_mbx_wait_def flip: mbx_count_0)

lemma rt_mbx_wait_block:
  assumes k: "kabs s v" and r: "run s = cur v" and i: "cur v \<noteq> os_idle_TCB" and ty: "cb_type s (Obj n) = MCB"
    and c: "mbx_content (Obj n) s = []" and to: "timeout \<noteq> 0"
    and s0: "s0 = (if waitq v n = [] then s\<lparr>mbx_state := (mbx_state s)(Obj n := 1)\<rparr> else s)"
  shows "\<exists>s'. rt_mbx_wait (Obj n) timeout s = Some (OS_R_TMO, None, s') \<and>
     kabs s' (block_on n (unat timeout) v) \<and> moved s0 s'"
proof -
  obtain L where e: "(if p_lnk s (Obj n) \<noteq> NULL then rt_put_prio (Obj n) (run s) s
         else do { s \<leftarrow> put_first_waiter (Obj n) s; wr mbx_state_update (Obj n) 1 s }) = Some (relink L s0)"
    and q: "kenq n (relink L s) v" using mbx_enqueue [OF k r ty, of 1] unfolding s0 by blast
  have q1: "kenq n (relink L s0) v" "run (relink L s0) = cur v" using q r by (auto simp: s0)
  obtain s' where s': "rt_block timeout WAIT_MBX (relink L s0) = Some s'" "kabs s' (block_on n (unat timeout) v)"
    "moved (relink L s0) s'" using block_on_refines [OF q1 i to, of WAIT_MBX] by auto
  have "rt_mbx_wait (Obj n) timeout s =
     (do { s \<leftarrow> (if p_lnk s (Obj n) \<noteq> NULL then rt_put_prio (Obj n) (run s) s
         else do { s \<leftarrow> put_first_waiter (Obj n) s; wr mbx_state_update (Obj n) 1 s });
         s \<leftarrow> rt_block timeout WAIT_MBX s; Some (OS_R_TMO, None, s) })"
    using c to by (simp add: rt_mbx_wait_def flip: mbx_count_0)
  also have "\<dots> = Some (OS_R_TMO, None, s')" unfolding e by (simp only: bind.bind_lunit s'(1))
  finally show ?thesis using s'(2) moved_trans [OF moved_relink s'(3)] by blast
qed

lemma mbx_content_le: "mbx_ok p s \<Longrightarrow> length (mbx_content p s) \<le> mbx_cap p s"
  by (simp add: mbx_ok_def mbx_content_def mbx_cap_def word_le_nat_alt)

text \<open>Storing and taking a message moves no task.\<close>

lemma mbx_store_kabs:
  assumes "kabs s v" and "mbx_ok p s" and "mbx_store p m s = Some s'"
  shows "kabs s' v"
  using assms mbx_store_eq [of p s m] by (auto simp: mbx_ok_def kabs_def)

lemma mbx_take_kabs:
  assumes "kabs s v" and "mbx_ok p s" and "mbx_take p s = Some (x, s')"
  shows "kabs s' v"
  using assms mbx_take_eq [of p s] by (auto simp: mbx_ok_def kabs_def)

section \<open>Calls on a mailbox without waiting threads\<close>

text \<open>When no thread waits at the mailbox and the call does not have to, the calls are the writes and reads of a bounded queue.\<close>

definition mbx_free :: "ptr \<Rightarrow> os \<Rightarrow> bool" where
  "mbx_free p s \<longleftrightarrow> mbx_ok p s \<and> p_lnk s p = NULL"

lemma send_free:
  assumes "mbx_free p s" and "length (mbx_content p s) < mbx_cap p s"
  shows "\<exists>s'. rt_mbx_send p m t s = Some (OS_R_OK, s') \<and> mbx_free p s' \<and> mbx_cap p s' = mbx_cap p s \<and>
     mbx_content p s' = mbx_content p s @ [m] \<and> (\<forall>v. kabs s v \<longrightarrow> kabs s' v)"
proof -
  have ok: "mbx_ok p s" "p_lnk s p = NULL" "p \<noteq> NULL" "mbx_first s p < mbx_size s p" using assms(1) by (auto simp: mbx_free_def mbx_ok_def)
  have "mbx_count s p \<noteq> mbx_size s p" using mbx_full [OF ok(1)] assms(2) by simp
  then have "rt_mbx_send p m t s = map_option (\<lambda>s. (OS_R_OK, s)) (mbx_store p m s)"
    using ok by (cases "mbx_store p m s") (auto simp: rt_mbx_send_def)
  moreover obtain s' where s': "mbx_store p m s = Some s'" "mbx_ok p s'" "mbx_cap p s' = mbx_cap p s" "mbx_content p s' = mbx_content p s @ [m]"
    using mbx_store_law [OF ok(1) assms(2)] by blast
  moreover have "p_lnk s' p = NULL" using s'(1) mbx_store_eq [OF ok(3,4), of m] ok(2) by auto
  moreover have "\<forall>v. kabs s v \<longrightarrow> kabs s' v" using mbx_store_kabs [OF _ ok(1) s'(1)] by blast
  ultimately show ?thesis by (auto simp: mbx_free_def)
qed

lemma send_free_full:
  assumes "mbx_free p s" and "\<not> length (mbx_content p s) < mbx_cap p s"
  shows "rt_mbx_send p m 0 s = Some (OS_R_TMO, s)"
proof -
  have "mbx_ok p s" "p_lnk s p = NULL" "p \<noteq> NULL" using assms(1) by (auto simp: mbx_free_def mbx_ok_def)
  moreover have "mbx_count s p = mbx_size s p" using mbx_full [of p s] mbx_content_le [of p s] assms(2) calculation(1) by simp
  ultimately show ?thesis by (simp add: rt_mbx_send_def)
qed

lemma wait_free:
  assumes "mbx_free p s" and "mbx_content p s = x # xs"
  shows "\<exists>s'. rt_mbx_wait p t s = Some (OS_R_OK, Some x, s') \<and> mbx_free p s' \<and> mbx_cap p s' = mbx_cap p s \<and>
     mbx_content p s' = xs \<and> (\<forall>v. kabs s v \<longrightarrow> kabs s' v)"
proof -
  have ok: "mbx_ok p s" "p_lnk s p = NULL" "p \<noteq> NULL" "mbx_last s p < mbx_size s p" using assms(1) by (auto simp: mbx_free_def mbx_ok_def)
  have "mbx_count s p \<noteq> 0" using mbx_count_0 [of s p] assms(2) by simp
  then have "rt_mbx_wait p t s = map_option (\<lambda>(m, s). (OS_R_OK, Some m, s)) (mbx_take p s)"
    using ok by (auto simp: rt_mbx_wait_def mbx_take_def mbx_rd_msg_def mbx_next_last_eq)
  moreover obtain s' where s': "mbx_take p s = Some (x, s')" "mbx_ok p s'" "mbx_cap p s' = mbx_cap p s" "mbx_content p s' = xs"
    using mbx_take_law [OF ok(1) assms(2)] by blast
  moreover have "p_lnk s' p = NULL" using s'(1) mbx_take_eq [OF ok(3,4)] ok(2) by auto
  moreover have "\<forall>v. kabs s v \<longrightarrow> kabs s' v" using mbx_take_kabs [OF _ ok(1) s'(1)] by blast
  ultimately show ?thesis by (auto simp: mbx_free_def)
qed

lemma wait_free_empty:
  assumes "mbx_free p s" and "mbx_content p s = []"
  shows "rt_mbx_wait p 0 s = Some (OS_R_TMO, None, s)"
  using assms mbx_count_0 [of s p] by (simp add: rt_mbx_wait_def mbx_free_def mbx_ok_def)

definition mbx_put :: "ptr \<Rightarrow> u32 \<Rightarrow> os \<Rightarrow> os option" where
  "mbx_put p m s = do { (r, s) \<leftarrow> rt_mbx_send p m 0 s; if r = OS_R_OK then Some s else None }"

definition mbx_get :: "ptr \<Rightarrow> os \<Rightarrow> (u32 \<times> os) option" where
  "mbx_get p s = do { (r, m, s) \<leftarrow> rt_mbx_wait p 0 s; map_option (\<lambda>m. (m, s)) m }"

interpretation mbx: bounded_fifo "mbx_free p" "mbx_content p" "mbx_cap p" "mbx_put p" "mbx_get p"
proof unfold_locales
  show "\<exists>s'. mbx_put p x s = Some s' \<and> mbx_free p s' \<and> mbx_cap p s' = mbx_cap p s \<and> mbx_content p s' = mbx_content p s @ [x]"
    if "mbx_free p s" "length (mbx_content p s) < mbx_cap p s" for s x
    using send_free [OF that, of x 0] by (auto simp: mbx_put_def)
  show "\<exists>s'. mbx_get p s = Some (x, s') \<and> mbx_free p s' \<and> mbx_cap p s' = mbx_cap p s \<and> mbx_content p s' = xs"
    if "mbx_free p s" "mbx_content p s = x # xs" for s x xs
    using wait_free [OF that, of 0] by (auto simp: mbx_get_def)
qed

text \<open>Calls in any order, each with its time-out, and their answers; the queue that they are compared with has no answer for a call that
  would have to wait.\<close>

datatype mbx_call = Send u32 u16 | Wait u16

datatype mbx_answer = Sent u32 | Received u32 "u32 option"

fun mbx_run :: "ptr \<Rightarrow> mbx_call list \<Rightarrow> os \<Rightarrow> (mbx_answer list \<times> os) option" where
  "mbx_run p [] s = Some ([], s)"
| "mbx_run p (Send m t # cs) s = do { (r, s) \<leftarrow> rt_mbx_send p m t s; (as, s) \<leftarrow> mbx_run p cs s; Some (Sent r # as, s) }"
| "mbx_run p (Wait t # cs) s = do { (r, x, s) \<leftarrow> rt_mbx_wait p t s; (as, s) \<leftarrow> mbx_run p cs s; Some (Received r x # as, s) }"

fun mbx_queue :: "nat \<Rightarrow> mbx_call list \<Rightarrow> u32 list \<Rightarrow> (mbx_answer list \<times> u32 list) option" where
  "mbx_queue n [] q = Some ([], q)"
| "mbx_queue n (Send m t # cs) q =
     (if length q < n then do { (as, q) \<leftarrow> mbx_queue n cs (q @ [m]); Some (Sent OS_R_OK # as, q) }
      else if t = 0 then do { (as, q) \<leftarrow> mbx_queue n cs q; Some (Sent OS_R_TMO # as, q) }
      else None)"
| "mbx_queue n (Wait t # cs) [] =
     (if t = 0 then do { (as, q) \<leftarrow> mbx_queue n cs []; Some (Received OS_R_TMO None # as, q) } else None)"
| "mbx_queue n (Wait t # cs) (x # q) = do { (as, q) \<leftarrow> mbx_queue n cs q; Some (Received OS_R_OK (Some x) # as, q) }"

lemma mbx_run_queue:
  assumes "mbx_free p s" and "mbx_queue (mbx_cap p s) cs (mbx_content p s) = Some (as, q)"
  shows "\<exists>s'. mbx_run p cs s = Some (as, s') \<and> mbx_free p s' \<and> mbx_cap p s' = mbx_cap p s \<and> mbx_content p s' = q \<and>
     (\<forall>v. kabs s v \<longrightarrow> kabs s' v)"
  using assms
proof (induction cs arbitrary: s as)
  case Nil
  then show ?case by simp
next
  case (Cons c cs)
  show ?case
  proof (cases c)
    case (Send m t)
    show ?thesis
    proof (cases "length (mbx_content p s) < mbx_cap p s")
      case True
      obtain s1 where s1: "rt_mbx_send p m t s = Some (OS_R_OK, s1)" "mbx_free p s1" "mbx_cap p s1 = mbx_cap p s"
        "mbx_content p s1 = mbx_content p s @ [m]" "\<forall>v. kabs s v \<longrightarrow> kabs s1 v" using send_free [OF Cons.prems(1) True] by blast
      obtain as1 where as1: "mbx_queue (mbx_cap p s1) cs (mbx_content p s1) = Some (as1, q)" "as = Sent OS_R_OK # as1"
        using Cons.prems(2) True s1(3,4) by (auto simp: Send bind_eq_Some_conv)
      from Cons.IH [OF s1(2) as1(1)] show ?thesis using s1 as1(2) by (auto simp: Send)
    next
      case False
      then have t: "t = 0" using Cons.prems(2) by (auto simp: Send split: if_splits)
      obtain as1 where as1: "mbx_queue (mbx_cap p s) cs (mbx_content p s) = Some (as1, q)" "as = Sent OS_R_TMO # as1"
        using Cons.prems(2) False t by (auto simp: Send bind_eq_Some_conv)
      from Cons.IH [OF Cons.prems(1) as1(1)] show ?thesis using send_free_full [OF Cons.prems(1) False] as1(2) t by (auto simp: Send)
    qed
  next
    case (Wait t)
    show ?thesis
    proof (cases "mbx_content p s")
      case Nil
      then have t: "t = 0" using Cons.prems(2) by (auto simp: Wait split: if_splits)
      obtain as1 where as1: "mbx_queue (mbx_cap p s) cs (mbx_content p s) = Some (as1, q)" "as = Received OS_R_TMO None # as1"
        using Cons.prems(2) Nil t by (auto simp: Wait bind_eq_Some_conv)
      from Cons.IH [OF Cons.prems(1) as1(1)] show ?thesis using wait_free_empty [OF Cons.prems(1) Nil] as1(2) t by (auto simp: Wait)
    next
      case C: (Cons x xs)
      obtain s1 where s1: "rt_mbx_wait p t s = Some (OS_R_OK, Some x, s1)" "mbx_free p s1" "mbx_cap p s1 = mbx_cap p s"
        "mbx_content p s1 = xs" "\<forall>v. kabs s v \<longrightarrow> kabs s1 v" using wait_free [OF Cons.prems(1) C] by blast
      obtain as1 where as1: "mbx_queue (mbx_cap p s1) cs (mbx_content p s1) = Some (as1, q)" "as = Received OS_R_OK (Some x) # as1"
        using Cons.prems(2) C s1(3,4) by (auto simp: Wait bind_eq_Some_conv)
      from Cons.IH [OF s1(2) as1(1)] show ?thesis using s1 as1(2) by (auto simp: Wait)
    qed
  qed
qed

end
