(* ===== verification/Demo.thy ===== *)
theory Demo
  imports Rt_Mailbox Rt_Event Rt_MemBox Rt_Mutex
begin

text \<open>
  A concrete kernel memory in which nine tasks run, are ready and wait in every way the kernel
  has, with its view. The properties are applied to it to show that their hypotheses hold together.
  Task 9 runs; tasks 4, 7 and the idle task are ready; task 2 waits for a semaphore with a time-out,
  task 3 for events, task 5 for a mutex that task 9 owns, task 6 for a message with a time-out,
  task 8 for room in a full mailbox.
\<close>

definition demo :: os where
  "demo = \<lparr>
     cb_type = (\<lambda>_. TCB)(Rdy := HCB, Dly := HCB, Obj 0 := SCB, Obj 11 := MUCB, Obj 2 := MCB, Obj 3 := MUCB,
       Obj 4 := MCB, Obj 5 := SCB, Obj 6 := MUCB, Obj 7 := MCB, Obj 8 := SCB, Obj 9 := MCB, Obj 10 := MUCB),
     p_lnk = (\<lambda>_. NULL)(Rdy := Tcb 4, Tcb 4 := Tcb 7, Tcb 7 := Tcb 0, Obj 0 := Tcb 2, Obj 11 := Tcb 5,
       Obj 2 := Tcb 6, Obj 4 := Tcb 8),
     p_rlnk = (\<lambda>_. NULL)(Tcb 2 := Obj 0, Tcb 5 := Obj 11, Tcb 6 := Obj 2, Tcb 8 := Obj 4),
     p_dlnk = (\<lambda>_. NULL)(Dly := Tcb 2, Tcb 2 := Tcb 6),
     p_blnk = (\<lambda>_. NULL)(Tcb 2 := Dly, Tcb 6 := Tcb 2),
     delta_time = (\<lambda>_. 0)(Dly := 10, Tcb 2 := 10),
     state = (\<lambda>_. INACTIVE)(Tcb 0 := READY, Tcb 9 := RUNNING, Tcb 2 := WAIT_SEM, Tcb 3 := WAIT_OR,
       Tcb 4 := READY, Tcb 5 := WAIT_MUT, Tcb 6 := WAIT_MBX, Tcb 7 := READY, Tcb 8 := WAIT_MBX),
     prio = (\<lambda>_. 0)(Tcb 9 := 3, Tcb 2 := 5, Tcb 3 := 4, Tcb 4 := 2, Tcb 5 := 3, Tcb 6 := 2, Tcb 7 := 1, Tcb 8 := 4),
     task_id = (\<lambda>_. 0)(Tcb 0 := 255, Tcb 9 := 1, Tcb 2 := 2, Tcb 3 := 3, Tcb 4 := 4, Tcb 5 := 5, Tcb 6 := 6,
       Tcb 7 := 7, Tcb 8 := 8),
     interval_time = (\<lambda>_. 0), events = (\<lambda>_. 0), waits = (\<lambda>_. 0)(Tcb 3 := 6), msg = (\<lambda>_. 0)(Tcb 8 := 99),
     stack_frame = (\<lambda>_. 0), priv_stack = (\<lambda>_. 0), tsk_stack = (\<lambda>_. 0x10000000), stack = (\<lambda>_. 0),
     ptask = (\<lambda>_. 0),
     tokens = (\<lambda>_. 0)(Obj 8 := 3),
     mut_prio = (\<lambda>_. 0)(Obj 11 := 3, Obj 3 := 1, Obj 6 := 3),
     mut_level = (\<lambda>_. 0)(Obj 11 := 1, Obj 3 := 1, Obj 6 := 1),
     mut_owner = (\<lambda>_. NULL)(Obj 11 := Tcb 9, Obj 3 := Tcb 7, Obj 6 := Tcb 9),
     mbx_state = (\<lambda>_. 0)(Obj 2 := 1, Obj 4 := 2), mbx_isr_st = (\<lambda>_. 0),
     mbx_first = (\<lambda>_. 0)(Obj 9 := 1), mbx_last = (\<lambda>_. 0),
     mbx_count = (\<lambda>_. 0)(Obj 4 := 2, Obj 9 := 1),
     mbx_size = (\<lambda>_. 2), mbx_msg = (\<lambda>_ _. 0)(Obj 4 := (\<lambda>_. 0)(0 := 41, Suc 0 := 42), Obj 9 := (\<lambda>_. 7)),
     psq_first = 0, psq_last = 0, psq_count = 0, psq_size = 16, psq_q = (\<lambda>_. (NULL, 0)),
     run = Tcb 9, new_tsk = Tcb 9, robin_task = NULL, robin_time = 0, robin_tout = 5, os_time = 100,
     os_active_TCB = [Tcb 9, Tcb 2, Tcb 3, Tcb 4, Tcb 5, Tcb 6, Tcb 7, Tcb 8, NULL, NULL, NULL, NULL, NULL, NULL, NULL],
     os_tick_irqn = - 1, os_lock = False, os_psh_flag = False, pend_flags = 0,
     pend_sv = False, pend_st = False, st_ctrl = 7, psp = 0x10000800, callee_regs = replicate 8 0, ipsr = 0, control = 2, irq_en = (\<lambda>_. False),
     mem = (\<lambda>_. 0), addr = (\<lambda>_. 0),
     tmr_next = (\<lambda>_. NULL), tmr_state = (\<lambda>_. 0), tmr_type = (\<lambda>_. 0), tmr_arg = (\<lambda>_. 0),
     tmr_tcnt = (\<lambda>_. 0), tmr_icnt = (\<lambda>_. 0), tmr_ptimer = (\<lambda>_. 0), os_timer_head = NULL,
     osThreadId_osTimerThread = NULL, osMessageQId_osTimerMessageQ = NULL,
     os_initialized = True, os_running = True\<rparr>"

definition demo_view :: kview where
  "demo_view = \<lparr>cur = Tcb 9, rdyq = [Tcb 4, Tcb 7, Tcb 0],
     waitq = (\<lambda>_. [])(0 := [Tcb 2], 11 := [Tcb 5], 2 := [Tcb 6], 4 := [Tcb 8]),
     dlyq = [(Tcb 2, 10), (Tcb 6, 20)], parked = {Tcb 3}, prios = prio demo\<rparr>"

lemma demo_wait_ok: "wait_ok demo n (waitq demo_view n)"
  by (simp add: demo_def demo_view_def wait_ok_def cb_types sem_mbx_def)

lemma demo_disj_ok: "disj_ok (rdyq demo_view) (waitq demo_view) (insert (cur demo_view) (parked demo_view))"
  by (auto simp: demo_view_def disj_ok_def split: if_splits)

lemma demo_own_ok:
  "own_ok demo (rdyq demo_view) (waitq demo_view) (dlyq demo_view) (insert (cur demo_view) (parked demo_view))"
proof -
  have "Tcb 2 \<in> set (waitq demo_view 0)" "Tcb 6 \<in> set (waitq demo_view 2)" by (simp_all add: demo_view_def)
  then have "{Tcb 2, Tcb 6} \<subseteq> (\<Union>n. set (waitq demo_view n))" by blast
  moreover have "fst ` set (dlyq demo_view) = {Tcb 2, Tcb 6}" by (simp add: demo_view_def)
  moreover have "p_blnk demo t = NULL" if "t \<notin> {Tcb 2, Tcb 6}" for t using that by (simp add: demo_def)
  moreover have "\<forall>t\<in>set (rdyq demo_view) \<union> insert (cur demo_view) (parked demo_view). p_rlnk demo t = NULL"
    by (simp add: demo_def demo_view_def)
  moreover have "cb_type demo (Tcb n) = TCB" for n by (simp add: demo_def)
  ultimately show ?thesis unfolding own_ok_def by blast
qed

lemma demo_kabs: "kabs demo demo_view"
proof -
  have "rdy_ok demo (rdyq demo_view)"
    by (simp add: demo_def demo_view_def rdy_ok_def cb_types sem_mbx_def)
  moreover have "dly_list demo (dlyq demo_view)"
    by (simp add: demo_def demo_view_def dly_list_def dly_links_def)
  ultimately have "linv demo (rdyq demo_view) (waitq demo_view) (dlyq demo_view)
      (insert (cur demo_view) (parked demo_view))"
    using demo_wait_ok demo_disj_ok demo_own_ok by (simp add: linv_def)
  moreover have "styp (state demo) (rdyq demo_view) (waitq demo_view) (dlyq demo_view) (parked demo_view)"
    by (simp add: demo_def demo_view_def styp_def)
  ultimately show ?thesis
    unfolding kabs_def kst_def by (simp add: demo_def demo_view_def os_idle_TCB_def)
qed

lemma demo_linv:
  "linv demo (rdyq demo_view) (waitq demo_view) (dlyq demo_view) (insert (cur demo_view) (parked demo_view))"
  using demo_kabs by (simp add: kabs_def kst_def)

text \<open>Values that the applications of the properties read off.\<close>

lemma demo_run: "run demo = cur demo_view" "cur demo_view \<noteq> os_idle_TCB" "cur demo_view = Tcb 9"
  by (simp_all add: demo_def demo_view_def os_idle_TCB_def)

lemma demo_type:
  "cb_type demo (Obj 0) = SCB" "cb_type demo (Obj 11) = MUCB" "cb_type demo (Obj 2) = MCB"
  "cb_type demo (Obj 3) = MUCB" "cb_type demo (Obj 4) = MCB" "cb_type demo (Obj 5) = SCB"
  "cb_type demo (Obj 6) = MUCB" "cb_type demo (Obj 9) = MCB"
  by (simp_all add: demo_def)

lemma demo_val:
  "tokens demo (Obj 5) = 0" "mut_level demo (Obj 3) = 1" "mut_owner demo (Obj 3) = Tcb 7" "mut_prio demo (Obj 3) = 1"
  "mut_level demo (Obj 11) = 1" "mut_owner demo (Obj 11) = Tcb 9" "mut_prio demo (Obj 11) = 3"
  by (simp_all add: demo_def)

lemma demo_waitq:
  "waitq demo_view 0 = [Tcb 2]" "waitq demo_view 11 = [Tcb 5]" "waitq demo_view 2 = [Tcb 6]" "waitq demo_view 4 = [Tcb 8]"
  by (simp_all add: demo_view_def)

lemma demo_prios:
  "prios demo_view (Tcb 0) = 0" "prios demo_view (Tcb 9) = 3" "prios demo_view (Tcb 2) = 5" "prios demo_view (Tcb 3) = 4"
  "prios demo_view (Tcb 4) = 2" "prios demo_view (Tcb 5) = 3" "prios demo_view (Tcb 6) = 2"
  "prios demo_view (Tcb 7) = 1" "prios demo_view (Tcb 8) = 4"
  by (simp_all add: demo_view_def demo_def)

lemma demo_live: "Tcb 7 \<in> live demo_view" "Tcb 9 \<in> live demo_view"
  by (simp_all add: live_def demo_view_def)

lemma demo_dly: "set (rdyq demo_view) \<inter> fst ` set (dlyq demo_view) = {}"
  by (simp add: demo_view_def)

end
