(* ===== verification/Kernel_Props.thy ===== *)
theory Kernel_Props
  imports Demo
begin

text \<open>
  The properties of the kernel services: scheduling lists, tick, semaphores, mutexes, events,
  mailboxes and memory boxes. Each is stated over the functions of the model and the views of
  \<open>Kernel_View\<close>, and is applied to the concrete kernel memory of \<open>Demo\<close>.
\<close>

lemma u16_levels: "(l :: u16) = 0 \<or> l = 1 \<or> 1 < l"
  by unat_arith

section \<open>Lists and time\<close>

text \<open>C11. \<open>rt_put_prio\<close> on the ready list returns and inserts the task behind all ready tasks of the
  same or a higher priority; the other lists keep their content.\<close>

theorem rt_put_prio_inserts:
  assumes "linv s R W D F" and "t \<in> F"
  shows "\<exists>s'. rt_put_prio Rdy t s = Some s' \<and> linv s' (ins_prio (prio s) t R) W D (F - {t}) \<and> moved s s'"
  using rl_put_prio_rdy [OF assms] moved_relink by blast

theorem rt_put_prio_inserts_witness:
  "\<exists>s'. rt_put_prio Rdy (Tcb 9) demo = Some s' \<and>
     linv s' (ins_prio (prio demo) (Tcb 9) (rdyq demo_view)) (waitq demo_view) (dlyq demo_view)
       (insert (cur demo_view) (parked demo_view) - {Tcb 9}) \<and> moved demo s'"
  by (rule rt_put_prio_inserts [OF demo_linv]) (simp add: demo_view_def)

text \<open>C13. One tick of the delay list (\<open>rt_dec_dly\<close>): the loop ends; every task whose time-out was one
  tick leaves the delay list and the waiting list it is in and becomes ready at its place in the
  ready list; the remaining time of every other delayed task shrinks by one.\<close>

theorem rt_dec_dly_tick:
  assumes "linv s R W D F" and "set R \<inter> fst ` set D = {}"
  shows "\<exists>s'. rt_dec_dly s = Some s' \<and> moved s s' \<and>
     linv s' (wake_rdy (prio s) (woken D) R) (wake_wait (woken D) W) (tick_dly D) (F - set (woken D)) \<and>
     state s' = wake_state (woken D) (state s) \<and>
     (\<forall>t. t \<in> set (woken D) \<longleftrightarrow> (t, 1) \<in> set D) \<and>
     (\<forall>t k. (t, k) \<in> set (tick_dly D) \<longleftrightarrow> 0 < k \<and> (t, k + 1) \<in> set D)"
proof -
  obtain L where e: "rt_dec_dly s = Some (relink L (s\<lparr>state := wake_state (woken D) (state s)\<rparr>))"
    and L: "linv (relink L (s\<lparr>state := wake_state (woken D) (state s)\<rparr>))
       (wake_rdy (prio s) (woken D) R) (wake_wait (woken D) W) (tick_dly D) (F - set (woken D))"
    using rt_dec_dly_spec [OF assms] by blast
  have dl: "dly_list s D" using assms by (simp add: linv_def)
  let ?s' = "relink L (s\<lparr>state := wake_state (woken D) (state s)\<rparr>)"
  have "state ?s' = wake_state (woken D) (state s)" by simp
  moreover have "\<forall>t. t \<in> set (woken D) \<longleftrightarrow> (t, 1) \<in> set D" by (rule allI) (rule woken_iff [OF dl])
  moreover have "\<forall>t k. (t, k) \<in> set (tick_dly D) \<longleftrightarrow> 0 < k \<and> (t, k + 1) \<in> set D"
    by (intro allI) (rule tick_dly_iff [OF dl])
  ultimately show ?thesis using e L moved_state [of s L] by (intro exI [of _ ?s'] conjI) assumption+
qed

theorem rt_dec_dly_tick_witness:
  "\<exists>s'. rt_dec_dly demo = Some s' \<and> moved demo s' \<and>
     linv s' (wake_rdy (prio demo) (woken (dlyq demo_view)) (rdyq demo_view))
       (wake_wait (woken (dlyq demo_view)) (waitq demo_view)) (tick_dly (dlyq demo_view))
       (insert (cur demo_view) (parked demo_view) - set (woken (dlyq demo_view)))"
  using rt_dec_dly_tick [OF demo_linv demo_dly] by (elim exE conjE) (intro exI conjI; assumption)


section \<open>Semaphores\<close>

text \<open>C14. \<open>rt_sem_wait\<close> takes a token if there is one; without a token and without a time-out it
  reports the time-out and changes nothing; otherwise the caller joins the semaphore's waiting list
  by priority, gets its time-out, and the best ready task runs.\<close>

theorem rt_sem_wait_refines:
  assumes "kabs s v" and "run s = cur v" and "cur v \<noteq> os_idle_TCB" and "cb_type s (Obj n) = SCB"
  shows "\<exists>r s'. rt_sem_wait (Obj n) timeout s = Some (r, s') \<and>
     (if tokens s (Obj n) \<noteq> 0 then r = OS_R_OK \<and> s' = s\<lparr>tokens := (tokens s)(Obj n := tokens s (Obj n) - 1)\<rparr>
      else if timeout = 0 then r = OS_R_TMO \<and> s' = s
      else r = OS_R_TMO \<and> kabs s' (block_on n (unat timeout) v) \<and> moved s s')"
proof (cases "tokens s (Obj n) = 0")
  case True
  then show ?thesis
    using rt_sem_wait_poll [of s n] rt_sem_wait_block [OF assms True, of timeout] by (cases "timeout = 0") simp_all
next
  case False
  then show ?thesis using rt_sem_wait_token [of s n timeout] by simp
qed

theorem rt_sem_wait_refines_witness:
  "\<exists>r s'. rt_sem_wait (Obj 5) 7 demo = Some (r, s') \<and> r = OS_R_TMO \<and> kabs s' (block_on 5 7 demo_view) \<and> moved demo s'"
  using rt_sem_wait_refines [OF demo_kabs, of 5 7] by (simp add: demo_run demo_type demo_val os_idle_TCB_def)

text \<open>C15. \<open>rt_sem_send\<close> gives the token to the waiting task of the highest priority, which is made
  ready or runs at once when it is more urgent than the sender, with the return value 1 in its
  saved frame; without a waiting task the token is counted, modulo 65536.\<close>

theorem rt_sem_send_refines:
  assumes "kabs s v" and "run s = cur v" and "cb_type s (Obj n) = SCB"
  shows "\<exists>s'. rt_sem_send (Obj n) s = Some (OS_R_OK, s') \<and>
     (case waitq v n of
        [] \<Rightarrow> s' = s\<lparr>tokens := (tokens s)(Obj n := tokens s (Obj n) + 1)\<rparr>
      | t # ts \<Rightarrow> kabs s' (wake_one n v) \<and> moved (give_ret t 1 s) s')"
  using rt_sem_send_store [of s v n] rt_sem_send_wake [of s v n] assms by (cases "waitq v n") auto

theorem rt_sem_send_refines_witness:
  "\<exists>s'. rt_sem_send (Obj 0) demo = Some (OS_R_OK, s') \<and> kabs s' (wake_one 0 demo_view) \<and>
     cur (wake_one 0 demo_view) = Tcb 2"
  using rt_sem_send_refines [OF demo_kabs, of 0]
  by (auto simp: demo_run demo_type demo_waitq wake_one_def take_waiter_def dispatch_def demo_prios)

text \<open>C16. \<open>rt_sem_delete\<close> wakes every task that waits for the semaphore with return value 0, in the
  order of the waiting list, lets a woken task preempt the caller when it is more urgent, and
  leaves the control block with type 0 and without waiting tasks.\<close>

theorem rt_sem_delete_wakes_all:
  assumes "kabs s v" and "run s = cur v" and "cb_type s (Obj n) = SCB"
  shows "\<exists>s'. rt_sem_delete (Obj n) s = Some (OS_R_OK, s') \<and> kabs s' (preempt (wake_all n v)) \<and>
     cb_type s' = (cb_type s)(Obj n := 0) \<and> mem s' = mem (give_all (waitq v n) 0 s)"
proof -
  obtain s1 where "rt_sem_delete (Obj n) s = Some (OS_R_OK, s1\<lparr>cb_type := (cb_type s)(Obj n := 0)\<rparr>)"
    "kabs (s1\<lparr>cb_type := (cb_type s)(Obj n := 0)\<rparr>) (preempt (wake_all n v))" "moved (give_all (waitq v n) 0 s) s1"
    using rt_sem_delete_spec [of s v n] assms by auto
  then show ?thesis using moved_sel by (intro exI [of _ "s1\<lparr>cb_type := (cb_type s)(Obj n := 0)\<rparr>"]) simp
qed

theorem rt_sem_delete_wakes_all_witness:
  "\<exists>s'. rt_sem_delete (Obj 0) demo = Some (OS_R_OK, s') \<and> kabs s' (preempt (wake_all 0 demo_view)) \<and>
     cb_type s' = (cb_type demo)(Obj 0 := 0)"
  using rt_sem_delete_wakes_all [OF demo_kabs, of 0] by (auto simp: demo_run demo_type)

section \<open>Mutexes\<close>

text \<open>C17. \<open>rt_mut_wait\<close>: a free mutex is taken at level 1 with the caller's priority saved; the owner
  only raises the level; another task polls, or blocks by priority after the owner took over its
  priority when the saved priority of the mutex is lower.\<close>

theorem rt_mut_wait_refines:
  assumes "kabs s v" and "run s = cur v" and "cur v \<noteq> os_idle_TCB" and "cb_type s (Obj n) = MUCB"
    and "mut_level s (Obj n) = 0 \<or> mut_owner s (Obj n) \<in> live v"
  shows "\<exists>r s'. rt_mut_wait (Obj n) timeout s = Some (r, s') \<and>
     (if mut_level s (Obj n) = 0 then r = OS_R_OK \<and>
        s' = s\<lparr>mut_owner := (mut_owner s)(Obj n := run s), mut_prio := (mut_prio s)(Obj n := prio s (run s)),
               mut_level := (mut_level s)(Obj n := 1)\<rparr>
      else if mut_owner s (Obj n) = run s then r = OS_R_OK \<and>
        s' = s\<lparr>mut_level := (mut_level s)(Obj n := mut_level s (Obj n) + 1)\<rparr>
      else if timeout = 0 then r = OS_R_TMO \<and> s' = s
      else r = OS_R_TMO \<and>
        kabs s' (block_on n (unat timeout) (inherit (mut_owner s (Obj n)) (mut_prio s (Obj n)) v)) \<and>
        moved (s\<lparr>prio := prios (inherit (mut_owner s (Obj n)) (mut_prio s (Obj n)) v)\<rparr>) s')"
proof -
  consider (free) "mut_level s (Obj n) = 0" | (own) "mut_level s (Obj n) \<noteq> 0" "mut_owner s (Obj n) = run s"
    | (poll) "mut_level s (Obj n) \<noteq> 0" "mut_owner s (Obj n) \<noteq> run s" "timeout = 0"
    | (block) "mut_level s (Obj n) \<noteq> 0" "mut_owner s (Obj n) \<noteq> run s" "timeout \<noteq> 0" by blast
  then show ?thesis
  proof cases
    case free
    moreover have "run s \<noteq> NULL" using kst_tcb [of "{}" s v "cur v"] assms by (auto simp: kabs_def)
    ultimately show ?thesis using rt_mut_wait_free [of s n timeout] by auto
  next
    case own
    then show ?thesis using rt_mut_wait_own [of s n timeout] by auto
  next
    case poll
    then show ?thesis using rt_mut_wait_poll [of s n] by auto
  next
    case block
    then show ?thesis using rt_mut_wait_block [of s v n timeout] assms by auto
  qed
qed

theorem rt_mut_wait_refines_witness:
  "\<exists>r s'. rt_mut_wait (Obj 3) 9 demo = Some (r, s') \<and> r = OS_R_TMO \<and>
     kabs s' (block_on 3 9 (inherit (Tcb 7) 1 demo_view)) \<and> prios (inherit (Tcb 7) 1 demo_view) (Tcb 7) = 3"
proof -
  have "prios (inherit (Tcb 7) 1 demo_view) (Tcb 7) = 3" by (simp add: inherit_def demo_run demo_prios)
  then show ?thesis
    using rt_mut_wait_refines [OF demo_kabs demo_run(1,2) demo_type(4), of 9] demo_live
    by (auto simp: demo_run demo_val)
qed


text \<open>C18. \<open>rt_mut_release\<close>: a task that does not own the mutex gets \<open>OS_R_NOK\<close> and nothing changes;
  a nested lock only loses a level; the last release restores the owner's saved priority and
  hands the mutex to the first waiting task, or leaves it free, and the best task runs.\<close>

theorem rt_mut_release_refines:
  assumes "kabs s v" and "run s = cur v" and "cur v \<noteq> os_idle_TCB" and "cb_type s (Obj n) = MUCB"
  shows "\<exists>r s'. rt_mut_release (Obj n) s = Some (r, s') \<and>
     (if mut_level s (Obj n) = 0 \<or> mut_owner s (Obj n) \<noteq> run s then r = OS_R_NOK \<and> s' = s
      else if 1 < mut_level s (Obj n) then r = OS_R_OK \<and>
        s' = s\<lparr>mut_level := (mut_level s)(Obj n := mut_level s (Obj n) - 1)\<rparr>
      else r = OS_R_OK \<and> (let v1 = set_prio (cur v) (mut_prio s (Obj n)) v in
        case waitq v n of
          [] \<Rightarrow> kabs s' (preempt v1) \<and> moved (s\<lparr>mut_level := (mut_level s)(Obj n := 0), prio := prios v1\<rparr>) s'
        | t # ts \<Rightarrow> kabs s' (after_handover t (take_waiter n v1)) \<and>
                    moved (mut_given n t (s\<lparr>prio := prios v1\<rparr>)) s'))"
proof -
  let ?l = "mut_level s (Obj n)"
  consider (other) "?l = 0 \<or> mut_owner s (Obj n) \<noteq> run s"
    | (nested) "mut_owner s (Obj n) = run s" "1 < ?l"
    | (last) "mut_owner s (Obj n) = run s" "?l = 1" using u16_levels [of ?l] by blast
  then show ?thesis
  proof cases
    case other
    then show ?thesis using rt_mut_release_other [of s n] by auto
  next
    case nested
    then show ?thesis using rt_mut_release_nested [of s n] by auto
  next
    case last
    then show ?thesis
      using rt_mut_release_free [OF assms last(2,1) _ refl] rt_mut_release_handover [OF assms last(2,1) _ refl]
      by (cases "waitq v n") (simp_all add: Let_def)
  qed
qed

theorem rt_mut_release_refines_witness:
  "\<exists>r s'. rt_mut_release (Obj 11) demo = Some (r, s') \<and> r = OS_R_OK \<and>
     kabs s' (after_handover (Tcb 5) (take_waiter 11 (set_prio (Tcb 9) 3 demo_view)))"
  using rt_mut_release_refines [OF demo_kabs demo_run(1,2) demo_type(2)]
  by (auto simp: demo_run demo_val demo_waitq Let_def)

section \<open>Events\<close>

text \<open>C19. \<open>rt_evt_wait\<close>, called by a thread: when the flags waited for are set (all of them, or one of them), the call
  returns at once and clears them. Otherwise it answers that they are not: with a time-out of zero the call is a poll that moves no thread and
  only notes the flags it asked for; with any other time-out the caller waits and the best ready task runs.\<close>

theorem rt_evt_wait_refines:
  assumes "kabs s v" and "run s = cur v" and "cur v \<noteq> os_idle_TCB"
    and "st = (if all then WAIT_AND else WAIT_OR)"
  shows "\<exists>r s'. rt_evt_wait fl timeout all s = Some (r, s') \<and>
     (if evt_met st fl (events s (cur v)) then r = OS_R_EVT \<and>
        s' = s\<lparr>events := (events s)(cur v := events s (cur v) AND NOT fl),
               waits := (if all then waits s else (waits s)(cur v := events s (cur v) AND fl))\<rparr>
      else r = OS_R_TMO \<and>
        (if timeout = 0 then s' = s\<lparr>waits := (waits s)(cur v := fl)\<rparr> \<and> kabs s' v
         else kabs s' (block_park (unat timeout) v) \<and> moved (s\<lparr>waits := (waits s)(cur v := fl)\<rparr>) s'))"
proof -
  have n: "run s \<noteq> NULL" using kst_tcb [of "{}" s v "cur v"] assms(1,2) by (auto simp: kabs_def)
  consider (met) "evt_met st fl (events s (cur v))" | (poll) "\<not> evt_met st fl (events s (cur v))" "timeout = 0"
    | (block) "\<not> evt_met st fl (events s (cur v))" "timeout \<noteq> 0" by blast
  then show ?thesis
  proof cases
    case met
    then show ?thesis using rt_evt_wait_now [OF n assms(4)] assms(2) by simp
  next
    case poll
    have "rt_evt_wait fl 0 all s = Some (OS_R_TMO, s\<lparr>waits := (waits s)(cur v := fl)\<rparr>)"
      using poll(1) n assms(2,4) by (auto simp: rt_evt_wait_def rt_block_def evt_met_def Let_def split: if_splits)
    then show ?thesis using poll assms(1) by simp
  next
    case block
    then show ?thesis using rt_evt_wait_block [OF assms(1-3) block(2) assms(4) block(1)] by simp
  qed
qed
theorem rt_evt_wait_refines_witness:
  "\<exists>r s'. rt_evt_wait 5 100 True demo = Some (r, s') \<and> r = OS_R_TMO \<and> kabs s' (block_park 100 demo_view)"
proof -
  have "\<not> evt_met WAIT_AND 5 (events demo (cur demo_view))" by (simp add: evt_met_def demo_def)
  then show ?thesis
    using rt_evt_wait_refines [OF demo_kabs demo_run(1,2), of WAIT_AND True 5 100] by auto
qed

section \<open>Mailboxes\<close>

text \<open>C20. A mailbox at which no thread waits is a bounded first-in first-out queue: any sequence of \<open>rt_mbx_send\<close> and \<open>rt_mbx_wait\<close>,
  each with its time-out, on any mailbox with whatever it holds, gives the answers of the queue, message by message, and leaves what the queue
  leaves, as long as no call has to wait. A call without a time-out never has to: it is refused by a full mailbox, or an empty
  one, which stay as they are. No call moves a thread.\<close>

theorem mbx_fifo:
  assumes "mbx_ok p s" and "p_lnk s p = NULL" and "mbx_queue (mbx_cap p s) cs (mbx_content p s) = Some (as, q)"
  shows "\<exists>s'. mbx_run p cs s = Some (as, s') \<and> mbx_content p s' = q \<and> mbx_ok p s' \<and> mbx_cap p s' = mbx_cap p s \<and> p_lnk s' p = NULL \<and>
     (\<forall>v. kabs s v \<longrightarrow> kabs s' v)"
  using mbx_run_queue [of p s cs as q] assms by (auto simp: mbx_free_def)

theorem mbx_fifo_witness:
  "\<exists>s'. mbx_run (Obj 7) [Send 1 0, Send 2 5, Send 8 0, Wait 0, Send 3 0xffff, Wait 9, Wait 0, Wait 0] demo =
     Some ([Sent OS_R_OK, Sent OS_R_OK, Sent OS_R_TMO, Received OS_R_OK (Some 1), Sent OS_R_OK, Received OS_R_OK (Some 2),
       Received OS_R_OK (Some 3), Received OS_R_TMO None], s') \<and> mbx_content (Obj 7) s' = []"
proof -
  let ?cs = "[Send 1 0, Send 2 5, Send 8 0, Wait 0, Send 3 0xffff, Wait 9, Wait 0, Wait 0]"
  have "mbx_ok (Obj 7) demo" "p_lnk demo (Obj 7) = NULL" by (simp_all add: mbx_ok_def demo_def)
  moreover have "mbx_content (Obj 7) demo = []" "mbx_cap (Obj 7) demo = 2" by (simp_all add: mbx_content_def mbx_cap_def demo_def)
  moreover have "mbx_queue 2 ?cs [] = Some ([Sent OS_R_OK, Sent OS_R_OK, Sent OS_R_TMO, Received OS_R_OK (Some 1), Sent OS_R_OK,
      Received OS_R_OK (Some 2), Received OS_R_OK (Some 3), Received OS_R_TMO None], [])" by simp
  ultimately show ?thesis using mbx_fifo [of "Obj 7" demo ?cs] by auto
qed

text \<open>C21. \<open>rt_mbx_send\<close>: a waiting receiver gets the message directly and runs if it is more urgent;
  otherwise the message is stored behind the others; when the mailbox is full the sender polls, or
  waits with the message in its control block.\<close>

theorem rt_mbx_send_refines:
  assumes "kabs s v" and "run s = cur v" and "cur v \<noteq> os_idle_TCB" and "cb_type s (Obj n) = MCB"
    and "mbx_ok (Obj n) s"
  shows "\<exists>r s'. rt_mbx_send (Obj n) m timeout s = Some (r, s') \<and>
     (if waitq v n \<noteq> [] \<and> mbx_state s (Obj n) = 1
      then r = OS_R_OK \<and> kabs s' (wake_one n v) \<and> moved (give_ret2 (hd (waitq v n)) 0x10 m s) s'
      else if length (mbx_content (Obj n) s) < mbx_cap (Obj n) s
      then r = OS_R_OK \<and> mbx_content (Obj n) s' = mbx_content (Obj n) s @ [m] \<and> mbx_ok (Obj n) s' \<and> kabs s' v
      else r = OS_R_TMO \<and> (if timeout = 0 then s' = s
        else kabs s' (block_on n (unat timeout) v) \<and> msg s' (cur v) = m \<and>
             mbx_content (Obj n) s' = mbx_content (Obj n) s))"
proof -
  have full: "mbx_count s (Obj n) = mbx_size s (Obj n)"
    if "\<not> length (mbx_content (Obj n) s) < mbx_cap (Obj n) s"
    using that mbx_full [OF assms(5)] mbx_content_le [OF assms(5)] by simp
  consider (deliver) t ts where "waitq v n = t # ts" "mbx_state s (Obj n) = 1"
    | (store) "waitq v n = [] \<or> mbx_state s (Obj n) \<noteq> 1" "length (mbx_content (Obj n) s) < mbx_cap (Obj n) s"
    | (poll) "waitq v n = [] \<or> mbx_state s (Obj n) \<noteq> 1" "\<not> length (mbx_content (Obj n) s) < mbx_cap (Obj n) s" "timeout = 0"
    | (block) "waitq v n = [] \<or> mbx_state s (Obj n) \<noteq> 1" "\<not> length (mbx_content (Obj n) s) < mbx_cap (Obj n) s" "timeout \<noteq> 0"
    by (cases "waitq v n") blast+
  then show ?thesis
  proof cases
    case deliver
    then show ?thesis using rt_mbx_send_deliver [OF assms(1,2,4), of _ _ m timeout] by simp
  next
    case store
    then obtain s' where s': "rt_mbx_send (Obj n) m timeout s = Some (OS_R_OK, s')" "mbx_store (Obj n) m s = Some s'"
      "mbx_ok (Obj n) s'" "mbx_content (Obj n) s' = mbx_content (Obj n) s @ [m]"
      using rt_mbx_send_store [OF assms(1,4,5), of m timeout] by blast
    then have "kabs s' v" using mbx_store_kabs [OF assms(1,5)] by blast
    then show ?thesis using s' store by auto
  next
    case poll
    then show ?thesis using rt_mbx_send_poll [OF assms(1,4) _ full] by auto
  next
    case block
    obtain s' where s': "rt_mbx_send (Obj n) m timeout s = Some (OS_R_TMO, s')" "kabs s' (block_on n (unat timeout) v)"
      "moved ((if waitq v n = [] then s\<lparr>mbx_state := (mbx_state s)(Obj n := 2)\<rparr> else s)\<lparr>msg := (msg s)(cur v := m)\<rparr>) s'"
      using rt_mbx_send_block [OF assms(1-4) block(1) full [OF block(2)] block(3) refl] by blast
    then have "msg s' (cur v) = m" "mbx_content (Obj n) s' = mbx_content (Obj n) s"
      using moved_sel [OF s'(3)] by (simp_all add: mbx_content_def)
    then show ?thesis using s' block by auto
  qed
qed

theorem rt_mbx_send_refines_witness:
  "\<exists>r s'. rt_mbx_send (Obj 2) 77 5 demo = Some (r, s') \<and> r = OS_R_OK \<and> kabs s' (wake_one 2 demo_view) \<and>
     moved (give_ret2 (Tcb 6) 0x10 77 demo) s'"
proof -
  have "mbx_ok (Obj 2) demo" "mbx_state demo (Obj 2) = 1" by (simp_all add: mbx_ok_def demo_def)
  then show ?thesis
    using rt_mbx_send_refines [OF demo_kabs demo_run(1,2) demo_type(3), of 77 5] by (auto simp: demo_waitq)
qed

text \<open>C22. \<open>rt_mbx_wait\<close>: the oldest message is taken; when senders wait, the message of the most urgent
  one fills the freed place and that sender stops waiting with return value 0; on an empty
  mailbox the caller polls, or waits for a message.\<close>

theorem rt_mbx_wait_refines:
  assumes "kabs s v" and "run s = cur v" and "cur v \<noteq> os_idle_TCB" and "cb_type s (Obj n) = MCB"
    and "mbx_ok (Obj n) s"
    and "waitq v n \<noteq> [] \<and> mbx_state s (Obj n) = 2 \<longrightarrow> length (mbx_content (Obj n) s) = mbx_cap (Obj n) s"
  shows "\<exists>r mo s'. rt_mbx_wait (Obj n) timeout s = Some (r, mo, s') \<and>
     (case mbx_content (Obj n) s of
        x # xs \<Rightarrow> r = OS_R_OK \<and> mo = Some x \<and> mbx_ok (Obj n) s' \<and>
          (if waitq v n \<noteq> [] \<and> mbx_state s (Obj n) = 2
           then mbx_content (Obj n) s' = xs @ [msg s (hd (waitq v n))] \<and> kabs s' (wake_one n v)
           else mbx_content (Obj n) s' = xs \<and> kabs s' v)
      | [] \<Rightarrow> r = OS_R_TMO \<and> mo = None \<and>
          (if timeout = 0 then s' = s else kabs s' (block_on n (unat timeout) v)))"
proof (cases "mbx_content (Obj n) s")
  case Nil
  then show ?thesis
    using rt_mbx_wait_poll [OF Nil] rt_mbx_wait_block [OF assms(1-4) Nil, of timeout] by (cases "timeout = 0") auto
next
  case (Cons x xs)
  show ?thesis
  proof (cases "waitq v n \<noteq> [] \<and> mbx_state s (Obj n) = 2")
    case True
    then obtain t ts where W: "waitq v n = t # ts" and st: "mbx_state s (Obj n) = 2" by (cases "waitq v n") auto
    obtain s1 s' where s': "rt_mbx_wait (Obj n) timeout s = Some (OS_R_OK, Some x, s')" "kabs s' (wake_one n v)"
      "mbx_swap (Obj n) (msg s t) s = Some s1" "moved (give_ret t 0 s1) s'"
      using rt_mbx_wait_swap [OF assms(1,2,4,5) W st Cons] by blast
    moreover have "mbx_ok (Obj n) s1" "mbx_content (Obj n) s1 = xs @ [msg s t]"
      using mbx_swap_law [OF assms(5) Cons, of "msg s t"] assms(6) True Cons s'(3) by auto
    then have "mbx_ok (Obj n) s'" "mbx_content (Obj n) s' = xs @ [msg s t]"
      using moved_sel [OF s'(4)] by (simp_all add: mbx_ok_def mbx_content_def give_ret_def)
    ultimately show ?thesis using Cons W st by auto
  next
    case False
    then obtain s' where s': "rt_mbx_wait (Obj n) timeout s = Some (OS_R_OK, Some x, s')"
      "mbx_take (Obj n) s = Some (x, s')" "mbx_ok (Obj n) s'" "mbx_content (Obj n) s' = xs"
      using rt_mbx_wait_take [OF assms(1,4,5) _ Cons, of timeout] by blast
    moreover have "kabs s' v" by (rule mbx_take_kabs [OF assms(1,5) s'(2)])
    ultimately show ?thesis using Cons False by auto
  qed
qed

theorem rt_mbx_wait_refines_witness:
  "\<exists>r mo s'. rt_mbx_wait (Obj 4) 5 demo = Some (r, mo, s') \<and> r = OS_R_OK \<and> mo = Some 41 \<and>
     mbx_content (Obj 4) s' = [42, 99] \<and> kabs s' (wake_one 4 demo_view)"
proof -
  have "mbx_ok (Obj 4) demo" "mbx_state demo (Obj 4) = 2" "msg demo (Tcb 8) = 99" "mbx_content (Obj 4) demo = [41, 42]"
    "mbx_cap (Obj 4) demo = 2"
    by (simp_all add: mbx_ok_def demo_def mbx_content_def ring_def mbx_cap_def upt_conv_Cons)
  then show ?thesis
    using rt_mbx_wait_refines [OF demo_kabs demo_run(1,2) demo_type(5), of 5] by (auto simp: demo_waitq)
qed

section \<open>Memory boxes\<close>

text \<open>\<open>_init_box\<close> divides the memory behind its header into as many blocks of the (word aligned)
  size as fit, all of them free, in ascending order, and its loop ends.\<close>

lemma init_box_blocks:
  assumes "bsz = 4 * k" and "0 < k" and "bsz + 12 \<le> sz" and "sz < 2 ^ 31" and "0 < a" and "a + sz < 2 ^ 32"
  shows "\<exists>s'. init_box (of_nat a) (of_nat sz) (of_nat bsz) s = Some (0, s') \<and>
     box_free s' (of_nat a) (blocks (a + 12) bsz ((sz - 12) div bsz)) \<and>
     mem s' (of_nat a + 4) = of_nat (a + sz) \<and> mem s' (of_nat a + 8) = of_nat bsz"
  by (rule init_box_spec [OF assms])

lemma init_box_blocks_example:
  "\<exists>s'. init_box (of_nat 4096) (of_nat 44) (of_nat 8) demo = Some (0, s') \<and>
     box_free s' (of_nat 4096) (blocks (4096 + 12) 8 ((44 - 12) div 8)) \<and>
     mem s' (of_nat 4096 + 4) = of_nat (4096 + 44) \<and> mem s' (of_nat 4096 + 8) = of_nat 8"
  by (rule init_box_blocks [where k = 2]) simp_all

text \<open>C23. A block that \<open>rt_alloc_box\<close> handed out and \<open>rt_free_box\<close> gets back is free again, first
  in line, and the others are untouched; a block that was not part of the box is refused.\<close>

theorem alloc_free_box:
  assumes "box_free s box (b # bs)" and "b \<noteq> 0" and "b \<noteq> box" and "box \<le> b" and "b < mem s (box + 4)"
  shows "\<exists>s1 s2. rt_alloc_box box s = (b, s1) \<and> box_free s1 box bs \<and>
     rt_free_box box b s1 = (0, s2) \<and> box_free s2 box (b # bs) \<and>
     (\<forall>c. c < box \<or> mem s (box + 4) \<le> c \<longrightarrow> rt_free_box box c s1 = (1, s1))"
proof -
  obtain s1 where s1: "rt_alloc_box box s = (b, s1)" "box_free s1 box bs" "s1 = s\<lparr>mem := (mem s)(box := mem s b)\<rparr>"
    using alloc_some [OF assms(1)] by blast
  then have m: "mem s1 (box + 4) = mem s (box + 4)" by simp
  have "b \<notin> insert box (set bs)" using assms(1,3) by (auto simp: box_free_def dest: chain_distinct)
  then obtain s2 where "rt_free_box box b s1 = (0, s2)" "box_free s2 box (b # bs)"
    using free_ok [OF s1(2) assms(2) _ assms(4)] assms(5) m by auto
  moreover have "rt_free_box box c s1 = (1, s1)" if "c < box \<or> mem s (box + 4) \<le> c" for c
    using free_bad [of c box s1] that m by simp
  ultimately show ?thesis using s1 by blast
qed

theorem alloc_free_box_witness:
  "\<exists>s s1 s2. rt_alloc_box 100 s = (112, s1) \<and> rt_free_box 100 112 s1 = (0, s2) \<and> box_free s2 100 [112, 120]"
proof -
  define s where "s = demo\<lparr>mem := (\<lambda>_. 0)(100 := 112, 104 := 128, 108 := 8, 112 := 120)\<rparr>"
  have "box_free s 100 [112, 120]" by (simp add: s_def box_free_def)
  then show ?thesis using alloc_free_box [of s 100 112 "[120]"] by (auto simp: s_def)
qed

end
