(* ===== verification/Rt_Time.thy ===== *)
theory Rt_Time
  imports Kernel_Sched Rt_Event
begin

text \<open>
  Delays, periodic intervals (\<open>rt_Time.c\<close>) and round robin (\<open>rt_Robin.c\<close>). The interval of a task
  is kept in \<open>interval_time\<close>; while the task is not on the delay list its \<open>delta_time\<close> is the
  lower half of the system time at which its next interval starts.
\<close>

section \<open>Operations\<close>

definition rt_time_get :: "os \<Rightarrow> u32" where
  "rt_time_get s = os_time s"

definition rt_dly_wait :: "u16 \<Rightarrow> os \<Rightarrow> os option" where
  "rt_dly_wait delay_time s = rt_block delay_time WAIT_DLY s"

definition rt_itv_set :: "u16 \<Rightarrow> os \<Rightarrow> os option" where
  "rt_itv_set itv s = do {
     s \<leftarrow> wr interval_time_update (run s) itv s;
     wr delta_time_update (run s) (itv + ucast (os_time s)) s
   }"

definition rt_itv_wait :: "os \<Rightarrow> os option" where
  "rt_itv_wait s = do {
     dt \<leftarrow> rd delta_time (run s) s;
     let delta = dt - ucast (os_time s);
     s \<leftarrow> wr delta_time_update (run s) (dt + interval_time s (run s)) s;
     if delta AND 0x8000 = 0 then rt_block delta WAIT_ITV s else Some s
   }"

text \<open>The part of \<open>rt_chk_robin\<close> that notes a new task at the head of the ready list, and the
  part that moves a task whose time slice is over behind the tasks of its priority.\<close>

definition robin_note :: "os \<Rightarrow> os" where
  "robin_note s = (if robin_task s \<noteq> p_lnk s Rdy
     then s\<lparr>robin_task := p_lnk s Rdy, robin_time := ucast (os_time s) + robin_tout s - 1\<rparr> else s)"

definition rt_chk_robin :: "os \<Rightarrow> os option" where
  "rt_chk_robin s =
     (let s = robin_note s in
      if robin_time s = ucast (os_time s) then
        let s = s\<lparr>robin_task := NULL\<rparr> in do {
          (p_new, s) \<leftarrow> rt_get_first Rdy s;
          rt_put_prio Rdy p_new s
        }
      else Some s)"

section \<open>Delays\<close>

lemma rt_dly_wait_spec:
  assumes "kabs s v" and "run s = cur v" and "cur v \<noteq> os_idle_TCB"
  shows "\<exists>s'. rt_dly_wait d s = Some s' \<and>
     (if d = 0 then s' = s else kabs s' (block_park (unat d) v) \<and> moved s s')"
proof (cases "d = 0")
  case True
  then show ?thesis by (simp add: rt_dly_wait_def rt_block_def)
next
  case False
  then show ?thesis using block_park_refines [OF assms(1,2,3) False, of WAIT_DLY] by (simp add: rt_dly_wait_def)
qed

text \<open>The \<open>delta_time\<close> of a task that is not on the delay list is free.\<close>

lemma linv_delta_free:
  assumes L: "linv s R W D F" and t: "is_tcb t" "t \<notin> fst ` set D"
  shows "linv (s\<lparr>delta_time := (delta_time s)(t := x)\<rparr>) R W D F"
proof -
  have dl: "dly_list s D" using L by (simp add: linv_def)
  have ln: "last_node Dly (map fst D) \<noteq> t"
    using last_node_in [of Dly "map fst D"] t by auto
  have "deltas ((delta_time s)(t := x)) 0 Dly D"
    using dl t by (simp add: dly_list_def dly_links_def)
  then have "dly_list (s\<lparr>delta_time := (delta_time s)(t := x)\<rparr>) D"
    using dl ln by (simp add: dly_list_def dly_links_def)
  then show ?thesis using L by (simp add: linv_def rdy_ok_def wait_ok_def own_ok_def)
qed

lemma kabs_delta_free:
  assumes "kabs s v"
  shows "kabs (s\<lparr>delta_time := (delta_time s)(cur v := x)\<rparr>) v"
proof -
  have "is_tcb (cur v)" "cur v \<notin> fst ` set (dlyq v)"
    using assms kst_tcb [of "{}" s v "cur v"] kst_cur_dly [of "{}" s v] by (simp_all add: kabs_def)
  then show ?thesis
    using assms linv_delta_free [of s "rdyq v" "waitq v" "dlyq v"] by (simp add: kabs_def kst_def)
qed

lemma moved_delta: "moved s (s\<lparr>delta_time := x\<rparr>)"
proof -
  have "s\<lparr>delta_time := x\<rparr> = relink (Links (p_lnk s) (p_rlnk s) (p_dlnk s) (p_blnk s) x) s"
    by (simp add: relink_eq)
  then show ?thesis by (simp only: moved_relink)
qed

text \<open>How many ticks a task waits for its next interval: until the time in its \<open>delta_time\<close> when that
  is less than half the range of the clock ahead, else not at all.\<close>

definition itv_wait_ticks :: "os \<Rightarrow> ptr \<Rightarrow> nat" where
  "itv_wait_ticks s t = (let d = delta_time s t - ucast (os_time s) in if unat d < 32768 then unat d else 0)"

lemma msb16: "(d :: u16) AND 0x8000 = 0 \<longleftrightarrow> unat d < 32768"
proof -
  have "(d AND 0x8000 = 0) = (\<not> bit d 15)"
    using and_exp_eq_0_iff_not_bit [of d 15] by simp
  also have "\<dots> = (\<not> bit (unat d) 15)" by (simp add: bit_unsigned_iff)
  also have "\<dots> = (unat d < 32768)"
  proof -
    have "unat d div 32768 < 2" by (rule less_mult_imp_div_less) simp
    moreover have "even k \<longleftrightarrow> k = 0" if "k < 2" for k :: nat using that by (cases k) auto
    ultimately show ?thesis by (simp add: bit_iff_odd div_eq_0_iff)
  qed
  finally show ?thesis .
qed

lemma rt_itv_wait_spec:
  assumes k: "kabs s v" and r: "run s = cur v" and i: "cur v \<noteq> os_idle_TCB"
    and s1: "s1 = s\<lparr>delta_time := (delta_time s)(cur v := delta_time s (cur v) + interval_time s (cur v))\<rparr>"
  shows "\<exists>s'. rt_itv_wait s = Some s' \<and>
     (if itv_wait_ticks s (cur v) = 0 then s' = s1
      else kabs s' (block_park (itv_wait_ticks s (cur v)) v) \<and> moved s s')"
proof -
  have cn: "cur v \<noteq> NULL" using k kst_tcb [of "{}" s v "cur v"] by (simp add: kabs_def)
  let ?d = "delta_time s (cur v) - ucast (os_time s)"
  have k1: "kabs s1 v" and r1: "run s1 = cur v" using kabs_delta_free [OF k] r by (simp_all add: s1)
  have e: "rt_itv_wait s = (if unat ?d < 32768 then rt_block ?d WAIT_ITV s1 else Some s1)"
    using cn r by (simp add: rt_itv_wait_def Let_def msb16 s1)
  show ?thesis
  proof (cases "itv_wait_ticks s (cur v) = 0")
    case True
    then have "rt_itv_wait s = Some s1" unfolding e itv_wait_ticks_def Let_def
      by (auto simp: rt_block_def unat_eq_zero split: if_splits)
    then show ?thesis using True by simp
  next
    case False
    then have d: "unat ?d < 32768" "?d \<noteq> 0" "itv_wait_ticks s (cur v) = unat ?d"
      by (auto simp: itv_wait_ticks_def Let_def split: if_splits)
    obtain s' where "rt_block ?d WAIT_ITV s1 = Some s'" "kabs s' (block_park (unat ?d) v)" "moved s1 s'"
      using block_park_refines [OF k1 r1 i d(2), of WAIT_ITV] by auto
    moreover have "moved s s1" unfolding s1 by (rule moved_delta)
    ultimately show ?thesis using e d False moved_trans by auto
  qed
qed

section \<open>Round robin\<close>

text \<open>The head of the ready list goes behind the other ready tasks of its priority.\<close>

definition rotate :: "kview \<Rightarrow> kview" where
  "rotate v = v\<lparr>rdyq := ins_prio (prios v) (hd (rdyq v)) (tl (rdyq v))\<rparr>"

lemma take_ready_base:
  assumes k: "kbase F s v" and R: "rdyq v = t # R"
  shows "\<exists>L. rt_get_first Rdy s = Some (t, relink L s) \<and> kbase (insert t F) (relink L s) (v\<lparr>rdyq := R\<rparr>)"
proof -
  have L0: "linv s (t # R) (waitq v) (dlyq v) (F \<union> parked v)" using kbase_linv [OF k] R by simp
  obtain L where e: "rt_get_first Rdy s = Some (t, relink L s)"
    and L1: "linv (relink L s) R (waitq v) (dlyq v) (insert t (F \<union> parked v))"
    using rl_get_first_rdy [OF L0] by blast
  have "t \<notin> parked v" using kbase_notin(3) [OF k, of t] R by auto
  moreover have "styp (state s) R (waitq v) (dlyq v) (parked v)" using k R by (auto simp: kbase_def styp_def)
  ultimately have "kbase (insert t F) (relink L s) (v\<lparr>rdyq := R\<rparr>)" using k L1 unfolding kbase_def by simp
  with e show ?thesis by blast
qed

lemma rotate_refines:
  assumes k: "kall s v"
  shows "\<exists>s'. (do { (p, s) \<leftarrow> rt_get_first Rdy s; rt_put_prio Rdy p s }) = Some s' \<and> kall s' (rotate v) \<and> moved s s'"
proof -
  obtain t R where R: "rdyq v = t # R" using k by (cases "rdyq v") (auto simp: kall_def)
  have b: "kbase {} s v" using k by (simp add: kall_kbase)
  obtain L where e: "rt_get_first Rdy s = Some (t, relink L s)" and b1: "kbase {t} (relink L s) (v\<lparr>rdyq := R\<rparr>)"
    using take_ready_base [OF b R] by blast
  have ty: "state s t = READY" "t \<notin> fst ` set (dlyq v)" using b R by (simp_all add: kbase_def styp_def)
  obtain M where e2: "rt_put_prio Rdy t (relink L s) = Some (relink M s)"
    and b2: "kbase {} (relink M ((relink L s)\<lparr>state := (state s)(t := READY)\<rparr>)) (v\<lparr>rdyq := ins_prio (prios v) t R\<rparr>)"
    using ready_base [OF b1, of t] ty by auto
  have "(state s)(t := READY) = state s" using ty by (simp add: fun_upd_idem)
  then have "kbase {} (relink M s) (rotate v)" using b2 R by (simp add: rotate_def)
  moreover have "os_idle_TCB \<in> set (rdyq (rotate v))" using k R by (simp add: rotate_def kall_def)
  ultimately have "kall (relink M s) (rotate v)" by (simp add: kall_kbase)
  then show ?thesis using e e2 moved_relink by (intro exI [of _ "relink M s"]) simp
qed

text \<open>Whether the time slice of the task at the head of the ready list is over.\<close>

definition slice_over :: "os \<Rightarrow> ptr \<Rightarrow> bool" where
  "slice_over s h \<longleftrightarrow> (if robin_task s = h then robin_time s = ucast (os_time s) else robin_tout s = 1)"

lemma rt_chk_robin_spec:
  assumes k: "kall s v"
  shows "\<exists>s'. rt_chk_robin s = Some s' \<and>
     (if slice_over s (hd (rdyq v)) then kall s' (rotate v) \<and> robin_task s' = NULL
      else kall s' v \<and> robin_task s' = hd (rdyq v)) \<and>
     moved (s\<lparr>robin_task := robin_task s', robin_time := robin_time s'\<rparr>) s'"
proof -
  obtain t R where R: "rdyq v = t # R" using k by (cases "rdyq v") (auto simp: kall_def)
  have h: "p_lnk s Rdy = t" using lnk_rdy [of s "rdyq v" "waitq v" "dlyq v" "parked v"] k R by (simp add: kall_def)
  let ?s1 = "robin_note s"
  have so: "robin_time ?s1 = ucast (os_time s) \<longleftrightarrow> slice_over s t"
    using h by (auto simp: robin_note_def slice_over_def algebra_simps)
  have k1: "kall ?s1 v" and t1: "robin_task ?s1 = t" "os_time ?s1 = os_time s"
    using k h by (simp_all add: robin_note_def)
  have s1: "?s1 = s\<lparr>robin_task := robin_task ?s1, robin_time := robin_time ?s1\<rparr>" by (simp add: robin_note_def)
  show ?thesis
  proof (cases "slice_over s t")
    case True
    let ?s2 = "?s1\<lparr>robin_task := NULL\<rparr>"
    have "kall ?s2 v" using k1 by simp
    then obtain s' where s': "(do { (p, s) \<leftarrow> rt_get_first Rdy ?s2; rt_put_prio Rdy p s }) = Some s'"
      "kall s' (rotate v)" "moved ?s2 s'" using rotate_refines by blast
    then have rt: "robin_task s' = NULL" "robin_time s' = robin_time ?s1" using moved_sel [OF s'(3)] by simp_all
    have "rt_chk_robin s = Some s'" using s'(1) True so t1 by (simp add: rt_chk_robin_def Let_def)
    moreover have "?s2 = s\<lparr>robin_task := robin_task s', robin_time := robin_time s'\<rparr>"
      using rt by (simp add: robin_note_def)
    ultimately show ?thesis using s' True R rt by auto
  next
    case False
    then have "rt_chk_robin s = Some ?s1" using so t1 by (simp add: rt_chk_robin_def Let_def)
    then show ?thesis using k1 t1 False R s1 by auto
  qed
qed

end
