(* ===== verification/Cmsis_Base.thy ===== *)
theory Cmsis_Base
  imports Rt_Mailbox Rt_MemBox Rt_Time
begin

text \<open>
  Common parts of the CMSIS-RTOS layer (\<open>rt_CMSIS.c\<close>, \<open>cmsis_os.h\<close>, \<open>RTX_Conf_CM.c\<close>): status
  codes, the conversion of milliseconds to ticks, the checks of identifiers, and the
  message queue call of interrupt handlers that the timer tick uses.
\<close>

section \<open>Status codes\<close>

definition osOK :: u32 where "osOK = 0"
definition osEventSignal :: u32 where "osEventSignal = 0x08"
definition osEventMessage :: u32 where "osEventMessage = 0x10"
definition osEventMail :: u32 where "osEventMail = 0x20"
definition osEventTimeout :: u32 where "osEventTimeout = 0x40"
definition osErrorParameter :: u32 where "osErrorParameter = 0x80"
definition osErrorResource :: u32 where "osErrorResource = 0x81"
definition osErrorTimeoutResource :: u32 where "osErrorTimeoutResource = 0xC1"
definition osErrorISR :: u32 where "osErrorISR = 0x82"
definition osErrorValue :: u32 where "osErrorValue = 0x86"
definition osErrorOS :: u32 where "osErrorOS = 0xFF"

lemmas os_codes = osOK_def osEventSignal_def osEventMessage_def osEventMail_def osEventTimeout_def
  osErrorParameter_def osErrorResource_def osErrorTimeoutResource_def osErrorISR_def osErrorValue_def osErrorOS_def

definition osWaitForever :: u32 where "osWaitForever = 0xFFFFFFFF"
definition os_clockrate :: u32 where "os_clockrate = 1000"

section \<open>Helper functions\<close>

definition rt_ms2tick :: "u32 \<Rightarrow> u32" where
  "rt_ms2tick millisec =
     (if millisec = osWaitForever then 0xFFFF
      else if 4000000 < millisec then 0xFFFE
      else let tick = (1000 * millisec + os_clockrate - 1) div os_clockrate in
           if 0xFFFE < tick then 0xFFFE else tick)"

fun rt_tid2ptcb :: "ptr \<Rightarrow> os \<Rightarrow> ptr" where
  "rt_tid2ptcb NULL s = NULL"
| "rt_tid2ptcb (Unaligned a) s = NULL"
| "rt_tid2ptcb p s = (if cb_type s p \<noteq> TCB then NULL else p)"

fun rt_id2obj :: "ptr \<Rightarrow> ptr" where
  "rt_id2obj (Unaligned a) = NULL"
| "rt_id2obj p = p"

text \<open>\<open>sysThreadError\<close> ends in the endless loop of \<open>mbed_die_advanced\<close> for every status but \<open>osOK\<close>.\<close>

definition sysThreadError :: "u32 \<Rightarrow> os \<Rightarrow> os option" where
  "sysThreadError status s = (if status \<noteq> osOK then None else Some s)"

definition isrMessagePut :: "ptr \<Rightarrow> u32 \<Rightarrow> u32 \<Rightarrow> os \<Rightarrow> (u32 \<times> os) option" where
  "isrMessagePut queue_id info millisec s =
     (if queue_id = NULL \<or> millisec \<noteq> 0 then Some (osErrorParameter, s)
      else if cb_type s queue_id \<noteq> MCB then Some (osErrorParameter, s)
      else do {
        c \<leftarrow> rt_mbx_check queue_id s;
        if c = 0 then Some (osErrorResource, s)
        else do {
          s \<leftarrow> isr_mbx_send queue_id info s;
          Some (osOK, s)
        }
      })"

section \<open>Facts\<close>

text \<open>With a tick of one millisecond the conversion is exact up to 65534 ticks and saturates there.\<close>

lemma rt_ms2tick_eq:
  "unat (rt_ms2tick ms) = (if ms = osWaitForever then 65535 else min (unat ms) 65534)"
proof -
  consider "ms = osWaitForever" | "ms \<noteq> osWaitForever" "4000000 < ms" | "ms \<noteq> osWaitForever" "ms \<le> 4000000"
    by fastforce
  then show ?thesis
  proof cases
    case 2
    then have "4000000 < unat ms" by (simp add: word_less_nat_alt)
    then show ?thesis using 2 by (simp add: rt_ms2tick_def)
  next
    case 3
    then have le: "unat ms \<le> 4000000" by (simp add: word_le_nat_alt)
    have m: "unat (1000 * ms) = 1000 * unat ms"
      using le by (subst unat_mult_lem [THEN iffD1]) simp_all
    define w where "w = 1000 * ms + os_clockrate - 1"
    have "w = 1000 * ms + 999" by (simp add: w_def os_clockrate_def)
    then have "unat w = 1000 * unat ms + 999"
      using m le by (simp only:) (subst unat_add_lem [THEN iffD1]; simp)
    then have "unat (w div os_clockrate) = (1000 * unat ms + 999) div 1000"
      by (simp add: unat_div os_clockrate_def)
    also have "\<dots> = unat ms" by simp
    finally have t: "unat (w div os_clockrate) = unat ms" .
    then have "0xFFFE < w div os_clockrate \<longleftrightarrow> 65534 < unat ms" by (simp add: word_less_nat_alt)
    then show ?thesis using 3 t by (auto simp: rt_ms2tick_def Let_def min_def w_def [symmetric])
  qed (simp add: rt_ms2tick_def)
qed

end
