(* ===== verification/Cmsis_Timer.thy ===== *)
theory Cmsis_Timer
  imports Cmsis_Base
begin

text \<open>
  Software timers (\<open>rt_CMSIS.c\<close>, "Timer Management"). The running timers form a list in which
  every timer stores the ticks between its predecessor's expiry and its own; \<open>timer_list s T\<close>
  relates this to the list \<open>T\<close> of timers with the ticks until each expires. A definition
  object (\<open>osTimerDef_t\<close>) is constant, so the control block keeps the callback of its definition.
\<close>

section \<open>Operations\<close>

definition osTimerInvalid :: u8 where "osTimerInvalid = 0"
definition osTimerStopped :: u8 where "osTimerStopped = 1"
definition osTimerRunning :: u8 where "osTimerRunning = 2"
definition osTimerOnce :: u32 where "osTimerOnce = 0"
definition osTimerPeriodic :: u32 where "osTimerPeriodic = 1"

lemmas timer_codes = osTimerInvalid_def osTimerStopped_def osTimerRunning_def osTimerOnce_def osTimerPeriodic_def

record timer_def =
  td_ptimer :: u32
  td_timer :: ptr

text \<open>The search loop of \<open>rt_timer_insert\<close>: the last timer passed, the first one after it, and
  what is left of the count.\<close>

partial_function (option) timer_search :: "ptr \<Rightarrow> ptr \<Rightarrow> u32 \<Rightarrow> os \<Rightarrow> (ptr \<times> ptr \<times> u32) option" where
  "timer_search prev p tcnt s =
     (if p = NULL then Some (prev, p, tcnt)
      else if tcnt < ucast (tmr_tcnt s p) then Some (prev, p, tcnt)
      else timer_search p (tmr_next s p) (tcnt - ucast (tmr_tcnt s p)) s)"

definition set_prev :: "ptr \<Rightarrow> ptr \<Rightarrow> os \<Rightarrow> os option" where
  "set_prev prev x s = (if prev \<noteq> NULL then wr tmr_next_update prev x s else Some (s\<lparr>os_timer_head := x\<rparr>))"

definition rt_timer_insert :: "ptr \<Rightarrow> u32 \<Rightarrow> os \<Rightarrow> os option" where
  "rt_timer_insert pt tcnt s = do {
     (prev, p, tcnt) \<leftarrow> timer_search NULL (os_timer_head s) tcnt s;
     s \<leftarrow> wr tmr_next_update pt p s;
     s \<leftarrow> wr tmr_tcnt_update pt (ucast tcnt) s;
     s \<leftarrow> (if p \<noteq> NULL then wr tmr_tcnt_update p (tmr_tcnt s p - tmr_tcnt s pt) s else Some s);
     set_prev prev pt s
   }"

partial_function (option) timer_find :: "ptr \<Rightarrow> ptr \<Rightarrow> ptr \<Rightarrow> os \<Rightarrow> (ptr \<times> ptr) option" where
  "timer_find pt prev p s =
     (if p = NULL then Some (prev, p)
      else if p = pt then Some (prev, p)
      else timer_find pt p (tmr_next s p) s)"

definition rt_timer_remove :: "ptr \<Rightarrow> os \<Rightarrow> (int \<times> os) option" where
  "rt_timer_remove pt s = do {
     (prev, p) \<leftarrow> timer_find pt NULL (os_timer_head s) s;
     if p = NULL then Some (- 1, s)
     else do {
       nx \<leftarrow> rd tmr_next pt s;
       s \<leftarrow> set_prev prev nx s;
       let nx = tmr_next s pt;
       s \<leftarrow> (if nx \<noteq> NULL then wr tmr_tcnt_update nx (tmr_tcnt s nx + tmr_tcnt s pt) s else Some s);
       Some (0, s)
     }
   }"

definition svcTimerCreate :: "timer_def option \<Rightarrow> u32 \<Rightarrow> u32 \<Rightarrow> os \<Rightarrow> (ptr \<times> os) option" where
  "svcTimerCreate timer_def type arg s =
     (case timer_def of
        None \<Rightarrow> do { s \<leftarrow> sysThreadError osErrorParameter s; Some (NULL, s) }
      | Some d \<Rightarrow>
          if td_ptimer d = 0 then do { s \<leftarrow> sysThreadError osErrorParameter s; Some (NULL, s) }
          else let pt = td_timer d in
          if pt = NULL then do { s \<leftarrow> sysThreadError osErrorParameter s; Some (NULL, s) }
          else if type \<noteq> osTimerOnce \<and> type \<noteq> osTimerPeriodic
          then do { s \<leftarrow> sysThreadError osErrorValue s; Some (NULL, s) }
          else if osThreadId_osTimerThread s = NULL
          then do { s \<leftarrow> sysThreadError osErrorResource s; Some (NULL, s) }
          else if tmr_state s pt \<noteq> osTimerInvalid
          then do { s \<leftarrow> sysThreadError osErrorResource s; Some (NULL, s) }
          else do {
            s \<leftarrow> wr tmr_state_update pt osTimerStopped s;
            s \<leftarrow> wr tmr_type_update pt (ucast type) s;
            s \<leftarrow> wr tmr_arg_update pt arg s;
            s \<leftarrow> wr tmr_ptimer_update pt (td_ptimer d) s;
            Some (pt, s)
          })"

definition svcTimerStart :: "ptr \<Rightarrow> u32 \<Rightarrow> os \<Rightarrow> (u32 \<times> os) option" where
  "svcTimerStart timer_id millisec s =
     (let pt = rt_id2obj timer_id in
      if pt = NULL then Some (osErrorParameter, s)
      else let tcnt = rt_ms2tick millisec in
      if tcnt = 0 then Some (osErrorValue, s)
      else if tmr_state s pt = osTimerRunning then do {
        (r, s) \<leftarrow> rt_timer_remove pt s;
        if r \<noteq> 0 then Some (osErrorResource, s)
        else do { s \<leftarrow> rt_timer_insert pt tcnt s; Some (osOK, s) }
      }
      else if tmr_state s pt = osTimerStopped then do {
        s \<leftarrow> wr tmr_state_update pt osTimerRunning s;
        s \<leftarrow> wr tmr_icnt_update pt (ucast tcnt) s;
        s \<leftarrow> rt_timer_insert pt tcnt s;
        Some (osOK, s)
      }
      else Some (osErrorResource, s))"

definition svcTimerStop :: "ptr \<Rightarrow> os \<Rightarrow> (u32 \<times> os) option" where
  "svcTimerStop timer_id s =
     (let pt = rt_id2obj timer_id in
      if pt = NULL then Some (osErrorParameter, s)
      else if tmr_state s pt \<noteq> osTimerRunning then Some (osErrorResource, s)
      else do {
        s \<leftarrow> wr tmr_state_update pt osTimerStopped s;
        (r, s) \<leftarrow> rt_timer_remove pt s;
        if r \<noteq> 0 then Some (osErrorResource, s) else Some (osOK, s)
      })"

definition svcTimerDelete :: "ptr \<Rightarrow> os \<Rightarrow> (u32 \<times> os) option" where
  "svcTimerDelete timer_id s =
     (let pt = rt_id2obj timer_id in
      if pt = NULL then Some (osErrorParameter, s)
      else if tmr_state s pt = osTimerRunning then do {
        (_, s) \<leftarrow> rt_timer_remove pt s;
        s \<leftarrow> wr tmr_state_update pt osTimerInvalid s;
        Some (osOK, s)
      }
      else if tmr_state s pt = osTimerStopped then do {
        s \<leftarrow> wr tmr_state_update pt osTimerInvalid s;
        Some (osOK, s)
      }
      else Some (osErrorResource, s))"

definition svcTimerCall :: "ptr \<Rightarrow> os \<Rightarrow> u32 \<times> u32" where
  "svcTimerCall timer_id s =
     (let pt = rt_id2obj timer_id in
      if pt = NULL then (0, 0) else (tmr_ptimer s pt, tmr_arg s pt))"

text \<open>The loop of \<open>sysTimerTick\<close>, from the timer \<open>p\<close> at the head of the list.\<close>

definition timer_expire :: "ptr \<Rightarrow> os \<Rightarrow> os option" where
  "timer_expire pt s = do {
     (_, s) \<leftarrow> isrMessagePut (osMessageQId_osTimerMessageQ s) (addr s pt) 0 s;
     if ucast (tmr_type s pt) = osTimerPeriodic then rt_timer_insert pt (ucast (tmr_icnt s pt)) s
     else wr tmr_state_update pt osTimerStopped s
   }"

partial_function (option) timer_tick_loop :: "ptr \<Rightarrow> os \<Rightarrow> os option" where
  "timer_tick_loop p s =
     (if p \<noteq> NULL \<and> tmr_tcnt s p = 0 then
        let pt = p; p = tmr_next s p; s = s\<lparr>os_timer_head := p\<rparr> in
        Option.bind (timer_expire pt s) (timer_tick_loop p)
      else Some s)"

definition sysTimerTick :: "os \<Rightarrow> os option" where
  "sysTimerTick s =
     (let p = os_timer_head s in
      if p = NULL then Some s
      else do {
        s \<leftarrow> wr tmr_tcnt_update p (tmr_tcnt s p - 1) s;
        timer_tick_loop p s
      })"

section \<open>The list of running timers\<close>

text \<open>The links with the head of the list as the link of the null pointer.\<close>

definition tlnk :: "os \<Rightarrow> ptr \<Rightarrow> ptr" where
  "tlnk s = (tmr_next s)(NULL := os_timer_head s)"

fun tdelt :: "(ptr \<Rightarrow> u16) \<Rightarrow> nat \<Rightarrow> (ptr \<times> nat) list \<Rightarrow> bool" where
  "tdelt c b [] \<longleftrightarrow> True"
| "tdelt c b ((t, k) # T) \<longleftrightarrow> k = b + unat (c t) \<and> k < 65536 \<and> tdelt c k T"

definition timer_list :: "os \<Rightarrow> (ptr \<times> nat) list \<Rightarrow> bool" where
  "timer_list s T \<longleftrightarrow> chain NULL (tlnk s) NULL (map fst T) \<and> tdelt (tmr_tcnt s) 0 T"

text \<open>A timer is inserted behind all timers that expire at the same tick or before.\<close>

definition ins_tmr :: "ptr \<Rightarrow> nat \<Rightarrow> (ptr \<times> nat) list \<Rightarrow> (ptr \<times> nat) list" where
  "ins_tmr t d T = takeWhile (\<lambda>x. snd x \<le> d) T @ (t, d) # dropWhile (\<lambda>x. snd x \<le> d) T"

lemma set_ins_tmr [simp]: "set (ins_tmr t d T) = insert (t, d) (set T)"
proof -
  have "set (takeWhile (\<lambda>x. snd x \<le> d) T) \<union> set (dropWhile (\<lambda>x. snd x \<le> d) T) = set T"
    by (metis set_append takeWhile_dropWhile_id)
  then show ?thesis by (auto simp: ins_tmr_def)
qed

lemma after_dropWhile:
  "sorted (map snd T) \<Longrightarrow> \<forall>x\<in>set (dropWhile (\<lambda>x. snd x \<le> d) T). d < (snd x :: nat)"
  by (induction T) auto

lemma tdelt_append:
  "tdelt c b (xs @ ys) \<longleftrightarrow> tdelt c b xs \<and> tdelt c (last_time b xs) ys"
  by (induction c b xs rule: tdelt.induct) auto

lemma tdelt_frame [simp]: "x \<notin> fst ` set T \<Longrightarrow> tdelt (c(x := v)) b T = tdelt c b T"
  by (induction c b T rule: tdelt.induct) auto

lemma tdelt_sorted: "tdelt c b T \<Longrightarrow> sorted (map snd T) \<and> (\<forall>x\<in>set T. b \<le> snd x)"
  by (induction c b T rule: tdelt.induct) fastforce+

lemma tdelt_bound: "tdelt c b T \<Longrightarrow> x \<in> set T \<Longrightarrow> snd x < 65536"
  by (induction c b T rule: tdelt.induct) auto

lemma last_time_tdelt: "tdelt c b T \<Longrightarrow> \<forall>x\<in>set T. snd x \<le> d \<Longrightarrow> b \<le> d \<Longrightarrow> last_time b T \<le> d"
  by (induction c b T rule: tdelt.induct) auto

lemma timer_search_spec:
  assumes "chain NULL (tlnk s) h (map fst T)" and "tdelt (tmr_tcnt s) b T" and "b \<le> d" and "d < 65536"
  shows "timer_search h (tlnk s h) (of_nat (d - b)) s =
     Some (last_node h (map fst (takeWhile (\<lambda>x. snd x \<le> d) T)),
           first_node NULL (map fst (dropWhile (\<lambda>x. snd x \<le> d) T)),
           of_nat (d - last_time b (takeWhile (\<lambda>x. snd x \<le> d) T)))"
  using assms
proof (induction T arbitrary: h b)
  case Nil
  then show ?case by (subst timer_search.simps) simp
next
  case (Cons x T)
  obtain t k where x: "x = (t, k)" by (cases x)
  have t: "t \<noteq> NULL" "tlnk s h = t" and k: "k = b + unat (tmr_tcnt s t)"
    using Cons.prems x by simp_all
  have "(of_nat (d - b) :: u32) < of_nat (unat (tmr_tcnt s t)) \<longleftrightarrow> d - b < unat (tmr_tcnt s t)"
    using Cons.prems(4) unat_u16_less [of "tmr_tcnt s t"]
    by (intro of_nat_word_less) (simp_all del: unat_u16_less)
  then have less: "(of_nat (d - b) :: u32) < ucast (tmr_tcnt s t) \<longleftrightarrow> d < k"
    unfolding ucast_of_nat_unat using k Cons.prems(3) by linarith
  show ?case
  proof (cases "d < k")
    case True
    then show ?thesis using less t x by (subst timer_search.simps) simp
  next
    case False
    have "d - k = (d - b) - unat (tmr_tcnt s t)" "unat (tmr_tcnt s t) \<le> d - b" using k False by linarith+
    then have "(of_nat (d - b) :: u32) - ucast (tmr_tcnt s t) = of_nat (d - k)"
      unfolding ucast_of_nat_unat by (simp only: of_nat_diff)
    moreover have "timer_search t (tlnk s t) (of_nat (d - k)) s =
       Some (last_node t (map fst (takeWhile (\<lambda>x. snd x \<le> d) T)),
             first_node NULL (map fst (dropWhile (\<lambda>x. snd x \<le> d) T)),
             of_nat (d - last_time k (takeWhile (\<lambda>x. snd x \<le> d) T)))"
      using Cons.prems False x by (intro Cons.IH) auto
    moreover have "tlnk s t = tmr_next s t" using t by (simp add: tlnk_def)
    ultimately show ?thesis using False less t x by (subst timer_search.simps) simp
  qed
qed

text \<open>Insertion between two parts of the list.\<close>

lemma tlnk_upd:
  "tlnk (s\<lparr>tmr_next := (tmr_next s)(p := x)\<rparr>) = (if p = NULL then tlnk s else (tlnk s)(p := x))"
  "tlnk (s\<lparr>os_timer_head := x\<rparr>) = (tlnk s)(NULL := x)"
  "tlnk (s\<lparr>tmr_tcnt := c\<rparr>) = tlnk s" "tlnk (s\<lparr>tmr_state := st\<rparr>) = tlnk s" "tlnk (s\<lparr>tmr_icnt := c\<rparr>) = tlnk s"
  by (auto simp: tlnk_def)

lemma set_prev_spec:
  "\<exists>nx hd. set_prev p x s = Some (s\<lparr>tmr_next := nx, os_timer_head := hd\<rparr>) \<and>
     tlnk (s\<lparr>tmr_next := nx, os_timer_head := hd\<rparr>) = (tlnk s)(p := x)"
proof (cases "p = NULL")
  case True
  then show ?thesis
    by (intro exI [of _ "tmr_next s"] exI [of _ x]) (simp add: set_prev_def tlnk_def)
next
  case False
  then show ?thesis
    by (intro exI [of _ "(tmr_next s)(p := x)"] exI [of _ "os_timer_head s"])
      (simp add: set_prev_def tlnk_def fun_upd_twist)
qed

lemma tdelt_insert:
  assumes T: "tdelt c 0 (A @ B)" and t: "t \<notin> fst ` set (A @ B)" and d: "distinct (map fst (A @ B))"
    and le: "last_time 0 A \<le> d" "d < 65536" and lt: "\<forall>x\<in>set B. d < snd x"
    and c': "c' = (c(t := of_nat (d - last_time 0 A)))"
    and c'': "c'' = (if B = [] then c' else c'(fst (hd B) := c' (fst (hd B)) - c' t))"
  shows "tdelt c'' 0 (A @ (t, d) # B)"
proof -
  have ut: "unat (of_nat (d - last_time 0 A) :: u16) = d - last_time 0 A" using le by (intro unat_of_nat_lt) simp
  show ?thesis
  proof (cases B)
  case Nil
  then show ?thesis using T t le ut by (simp add: c'' c' tdelt_append del: of_nat_diff)
next
  case (Cons x B')
  obtain p k where x: "x = (p, k)" by (cases x)
  have p: "p \<noteq> t" "p \<notin> fst ` set A" "p \<notin> fst ` set B'" "t \<notin> fst ` set A" "t \<notin> fst ` set B'"
    using t d Cons x by auto
  have "tdelt c 0 A \<and> k = last_time 0 A + unat (c p) \<and> k < 65536 \<and> tdelt c k B'"
    using T Cons x by (auto simp: tdelt_append)
  then have k: "k = last_time 0 A + unat (c p)" "k < 65536" "tdelt c k B'" and A: "tdelt c 0 A" by blast+
  have dk: "d < k" using lt Cons x by simp
  have "(of_nat (d - last_time 0 A) :: u16) \<le> c p"
    unfolding word_le_nat_alt ut using k dk by simp
  then have "unat (c p - of_nat (d - last_time 0 A)) = k - d"
    using k dk le ut by (simp add: unat_sub del: of_nat_diff)
  then show ?thesis using Cons x p k A dk le ut by (simp add: c'' c' tdelt_append del: of_nat_diff)
qed
qed

lemma rt_timer_insert_spec:
  assumes T: "timer_list s T" and t: "t \<noteq> NULL" "t \<notin> fst ` set T" and d: "d < 65536"
  shows "\<exists>nx tc hd. rt_timer_insert t (of_nat d) s = Some (s\<lparr>tmr_next := nx, tmr_tcnt := tc, os_timer_head := hd\<rparr>) \<and>
     timer_list (s\<lparr>tmr_next := nx, tmr_tcnt := tc, os_timer_head := hd\<rparr>) (ins_tmr t d T)"
proof -
  let ?A = "takeWhile (\<lambda>x. snd x \<le> d) T" and ?B = "dropWhile (\<lambda>x. snd x \<le> d) T"
  have AB: "T = ?A @ ?B" by simp
  have ch: "chain NULL (tlnk s) NULL (map fst T)" and td: "tdelt (tmr_tcnt s) 0 T" using T by (simp_all add: timer_list_def)
  have dist: "distinct (map fst T)" using chain_distinct [OF ch] by simp
  have nn: "NULL \<notin> fst ` set T" using chain_nil_notin [OF ch] by simp
  define pr p w where "pr = last_node NULL (map fst ?A)" and "p = first_node NULL (map fst ?B)"
    and "w = (of_nat (d - last_time 0 ?A) :: u32)"
  have e0: "timer_search NULL (os_timer_head s) (of_nat d) s = Some (pr, p, w)"
    using timer_search_spec [OF ch td _ d] by (simp add: tlnk_def pr_def p_def w_def)
  have "fst ` set ?B \<subseteq> fst ` set T" using AB by (metis image_mono set_append sup_ge2)
  then have nB: "NULL \<notin> fst ` set ?B" using nn by blast
  have p: "p = NULL \<longleftrightarrow> ?B = []" "?B \<noteq> [] \<Longrightarrow> fst (hd ?B) = p"
    unfolding p_def using nB by (cases ?B; auto simp del: dropWhile_eq_Nil_conv)+
  let ?c' = "(tmr_tcnt s)(t := of_nat (d - last_time 0 ?A))"
  have uc: "(ucast w :: u16) = of_nat (d - last_time 0 ?A)" unfolding w_def by (rule ucast_of_nat_down) simp
  define c'' where "c'' = (if p = NULL then ?c' else ?c'(p := ?c' p - ?c' t))"
  have c'': "c'' = (if ?B = [] then ?c' else ?c'(fst (hd ?B) := ?c' (fst (hd ?B)) - ?c' t))"
    using p by (auto simp: c''_def)
  let ?s1 = "s\<lparr>tmr_next := (tmr_next s)(t := p), tmr_tcnt := c''\<rparr>"
  obtain nx h where e1: "set_prev pr t ?s1 = Some (?s1\<lparr>tmr_next := nx, os_timer_head := h\<rparr>)"
    and l1: "tlnk (?s1\<lparr>tmr_next := nx, os_timer_head := h\<rparr>) = (tlnk ?s1)(pr := t)"
    using set_prev_spec [of pr t ?s1] by blast
  let ?s' = "s\<lparr>tmr_next := nx, tmr_tcnt := c'', os_timer_head := h\<rparr>"
  have "rt_timer_insert t (of_nat d) s = set_prev pr t ?s1"
    using e0 t uc unfolding rt_timer_insert_def c''_def by (cases "p = NULL"; cases "p = t") (simp_all del: of_nat_diff)
  then have "rt_timer_insert t (of_nat d) s = Some ?s'" using e1 by simp
  moreover have "timer_list ?s' (ins_tmr t d T)"
  proof -
    have "?s1\<lparr>tmr_next := nx, os_timer_head := h\<rparr> = ?s'" by simp
    moreover have "tlnk ?s1 = (tlnk s)(t := p)" using t by (simp add: tlnk_def fun_upd_twist)
    ultimately have "tlnk ?s' = (tlnk s)(t := p, pr := t)" using l1 by (simp only:)
    moreover have "chain NULL ((tlnk s)(t := p, pr := t)) NULL (map fst ?A @ t # map fst ?B)"
      unfolding p_def pr_def using ch t AB by (intro chain_insert) (simp_all flip: map_append)
    ultimately have "chain NULL (tlnk ?s') NULL (map fst (ins_tmr t d T))" by (simp add: ins_tmr_def)
    moreover have "tdelt c'' 0 (ins_tmr t d T)"
      unfolding ins_tmr_def
    proof (rule tdelt_insert [where c = "tmr_tcnt s" and c' = ?c'])
      show "last_time 0 ?A \<le> d"
      proof (rule last_time_tdelt)
        show "tdelt (tmr_tcnt s) 0 ?A" using td AB tdelt_append by metis
      qed (auto dest: set_takeWhileD)
      show "\<forall>x\<in>set ?B. d < snd x" using td by (rule after_dropWhile [OF tdelt_sorted [THEN conjunct1]])
    qed (use td t dist d c'' in simp_all)
    ultimately show ?thesis by (simp add: timer_list_def)
  qed
  ultimately show ?thesis by blast
qed

section \<open>Removal\<close>

lemma rmv_dly_split:
  assumes "t \<notin> fst ` set (A @ B)"
  shows "rmv_dly t (A @ (t, k) # B) = A @ B"
proof -
  have "rmv_dly t A = A" "rmv_dly t B = B" using assms by (simp_all add: image_Un)
  then show ?thesis by (simp add: rmv_dly_def)
qed

lemma timer_find_absent:
  assumes "chain NULL (tlnk s) h ts" and "t \<notin> set ts"
  shows "timer_find t h (tlnk s h) s = Some (last_node h ts, NULL)"
  using assms
proof (induction ts arbitrary: h)
  case Nil
  then show ?case by (subst timer_find.simps) simp
next
  case (Cons x ts)
  then have "timer_find t x (tlnk s x) s = Some (last_node x ts, NULL)" by simp
  moreover have "tlnk s x = tmr_next s x" using Cons.prems by (simp add: tlnk_def)
  ultimately show ?case using Cons.prems by (subst timer_find.simps) auto
qed

lemma timer_find_present:
  assumes "chain NULL (tlnk s) h (xs @ t # ys)" and "t \<notin> set xs"
  shows "timer_find t h (tlnk s h) s = Some (last_node h xs, t)"
  using assms
proof (induction xs arbitrary: h)
  case Nil
  then show ?case by (subst timer_find.simps) simp
next
  case (Cons x xs)
  then have "timer_find t x (tlnk s x) s = Some (last_node x xs, t)" by simp
  moreover have "tlnk s x = tmr_next s x" using Cons.prems by (simp add: tlnk_def)
  ultimately show ?case using Cons.prems by (subst timer_find.simps) auto
qed

lemma rt_timer_remove_absent:
  assumes T: "timer_list s T" and t: "t \<notin> fst ` set T"
  shows "rt_timer_remove t s = Some (- 1, s)"
proof -
  have ch: "chain NULL (tlnk s) NULL (map fst T)" using T by (simp add: timer_list_def)
  have "timer_find t NULL (os_timer_head s) s = Some (last_node NULL (map fst T), NULL)"
    using timer_find_absent [OF ch, of t] t by (simp add: tlnk_def)
  then show ?thesis by (simp add: rt_timer_remove_def)
qed

lemma tdelt_remove:
  assumes T: "tdelt c 0 (A @ (t, k) # B)" and d: "distinct (map fst (A @ (t, k) # B))"
    and c': "c' = (if B = [] then c else c(fst (hd B) := c (fst (hd B)) + c t))"
  shows "tdelt c' 0 (A @ B)"
proof (cases B)
  case Nil
  then show ?thesis using T by (simp add: c' tdelt_append)
next
  case (Cons x B')
  obtain p j where x: "x = (p, j)" by (cases x)
  have p: "p \<notin> fst ` set A" "p \<notin> fst ` set B'" "p \<noteq> t" using d Cons x by auto
  have "tdelt c 0 A \<and> k = last_time 0 A + unat (c t) \<and> j = k + unat (c p) \<and> j < 65536 \<and> tdelt c j B'"
    using T Cons x by (auto simp: tdelt_append)
  moreover from this have "unat (c p + c t) = unat (c p) + unat (c t)"
    by (subst unat_add_lem [THEN iffD1]) auto
  ultimately show ?thesis using Cons x p by (auto simp: c' tdelt_append)
qed

lemma rt_timer_remove_spec:
  assumes T: "timer_list s T" and t: "t \<in> fst ` set T"
  shows "\<exists>nx tc hd. rt_timer_remove t s = Some (0, s\<lparr>tmr_next := nx, tmr_tcnt := tc, os_timer_head := hd\<rparr>) \<and>
     timer_list (s\<lparr>tmr_next := nx, tmr_tcnt := tc, os_timer_head := hd\<rparr>) (rmv_dly t T)"
proof -
  have ch: "chain NULL (tlnk s) NULL (map fst T)" and td: "tdelt (tmr_tcnt s) 0 T" using T by (simp_all add: timer_list_def)
  have dist: "distinct (map fst T)" using chain_distinct [OF ch] by simp
  have nn: "NULL \<notin> fst ` set T" using chain_nil_notin [OF ch] by simp
  obtain A k B where AB: "T = A @ (t, k) # B" using split_fst_list [OF t] by blast
  have tn: "t \<noteq> NULL" "t \<notin> fst ` set (A @ B)" using nn t dist AB by auto
  define pr p where "pr = last_node NULL (map fst A)" and "p = first_node NULL (map fst B)"
  have ch': "chain NULL (tlnk s) NULL (map fst A @ t # map fst B)" using ch AB by simp
  have e0: "timer_find t NULL (os_timer_head s) s = Some (pr, t)"
    using timer_find_present [OF ch'] tn by (simp add: tlnk_def pr_def image_Un)
  have nt: "tmr_next s t = p" using chain_lnk_at [OF ch'] tn by (simp add: tlnk_def p_def)
  have pB: "p = NULL \<longleftrightarrow> B = []" "B \<noteq> [] \<Longrightarrow> fst (hd B) = p"
    using nn AB by (cases B; auto simp: p_def)+
  obtain nx h where e1: "set_prev pr p s = Some (s\<lparr>tmr_next := nx, os_timer_head := h\<rparr>)"
    and l1: "tlnk (s\<lparr>tmr_next := nx, os_timer_head := h\<rparr>) = (tlnk s)(pr := p)"
    using set_prev_spec [of pr p s] by blast
  have "pr \<in> insert NULL (fst ` set A)" using last_node_in [of NULL "map fst A"] by (simp add: pr_def)
  then have "pr \<noteq> t" using tn by auto
  then have nt': "nx t = p" using fun_cong [OF l1, of t] nt tn by (simp add: tlnk_def)
  define c' where "c' = (if p = NULL then tmr_tcnt s else (tmr_tcnt s)(p := tmr_tcnt s p + tmr_tcnt s t))"
  have c': "c' = (if B = [] then tmr_tcnt s else (tmr_tcnt s)(fst (hd B) := tmr_tcnt s (fst (hd B)) + tmr_tcnt s t))"
    using pB by (auto simp: c'_def)
  let ?s' = "s\<lparr>tmr_next := nx, tmr_tcnt := c', os_timer_head := h\<rparr>"
  have "rt_timer_remove t s = Some (0, ?s')"
    using e0 e1 nt nt' tn by (simp add: rt_timer_remove_def c'_def)
  moreover have "timer_list ?s' (rmv_dly t T)"
  proof -
    have "tlnk ?s' = tlnk (s\<lparr>tmr_next := nx, os_timer_head := h\<rparr>)" by (simp add: tlnk_def)
    moreover have "chain NULL ((tlnk s)(pr := p)) NULL (map fst A @ map fst B)"
      using chain_remove [OF ch'] chain_lnk_at [OF ch'] by (simp add: pr_def p_def)
    ultimately have "chain NULL (tlnk ?s') NULL (map fst (A @ B))" using l1 by simp
    moreover have "tdelt c' 0 (A @ B)" using td dist c' unfolding AB by (rule tdelt_remove)
    ultimately show ?thesis using rmv_dly_split [OF tn(2)] AB by (simp add: timer_list_def)
  qed
  ultimately show ?thesis by blast
qed

section \<open>The timer tick\<close>

text \<open>The members that the timer list is made of, changed together.\<close>

datatype timers = Timers (t_next: "ptr \<Rightarrow> ptr") (t_tcnt: "ptr \<Rightarrow> u16") (t_state: "ptr \<Rightarrow> u8") (t_head: ptr)

definition retimer :: "timers \<Rightarrow> os \<Rightarrow> os" where
  "retimer X s = s\<lparr>tmr_next := t_next X, tmr_tcnt := t_tcnt X, tmr_state := t_state X, os_timer_head := t_head X\<rparr>"

lemma retimer_sel [simp]:
  "tmr_next (retimer X s) = t_next X" "tmr_tcnt (retimer X s) = t_tcnt X" "tmr_state (retimer X s) = t_state X"
  "os_timer_head (retimer X s) = t_head X" "tmr_type (retimer X s) = tmr_type s" "tmr_icnt (retimer X s) = tmr_icnt s"
  "osMessageQId_osTimerMessageQ (retimer X s) = osMessageQId_osTimerMessageQ s" "addr (retimer X s) = addr s"
  by (simp_all add: retimer_def)

lemma retimer_retimer [simp]: "retimer X (retimer Y s) = retimer X s"
  by (simp add: retimer_def)

lemma retimer_id: "\<exists>X. s = retimer X s"
  by (rule exI [of _ "Timers (tmr_next s) (tmr_tcnt s) (tmr_state s) (os_timer_head s)"]) (simp add: retimer_def)

lemma retimer_list:
  "\<exists>Y. (retimer X s)\<lparr>tmr_next := nx, tmr_tcnt := tc, os_timer_head := hp\<rparr> = retimer Y s \<and> t_state Y = t_state X"
  by (rule exI [of _ "Timers nx tc (t_state X) hp"]) (simp add: retimer_def)

text \<open>The message of an expired timer does not read or change the timer list.\<close>

lemma isrMessagePut_retimer:
  "isrMessagePut q m 0 (retimer X s) = map_option (\<lambda>(r, s). (r, retimer X s)) (isrMessagePut q m 0 s)"
proof (cases "q = NULL \<or> cb_type s q \<noteq> MCB \<or> rt_mbx_check q s = Some 0")
  case True
  then show ?thesis by (auto simp: isrMessagePut_def retimer_def rt_mbx_check_def)
next
  case False
  have "isr_mbx_send q m (retimer X s) = map_option (retimer X) (isr_mbx_send q m s)"
    unfolding isr_mbx_send_def rt_psq_enq_def rt_inc_qi_def rt_psh_req_eq
    by (simp add: retimer_def Let_def)
  then show ?thesis using False
    by (cases "isr_mbx_send q m s") (auto simp: isrMessagePut_def retimer_def rt_mbx_check_def)
qed

primrec put_timer_msgs :: "ptr list \<Rightarrow> os \<Rightarrow> os option" where
  "put_timer_msgs [] s = Some s"
| "put_timer_msgs (t # ts) s = do {
     (_, s) \<leftarrow> isrMessagePut (osMessageQId_osTimerMessageQ s) (addr s t) 0 s;
     put_timer_msgs ts s
   }"

text \<open>What the tick does to the timers that are due: periodic ones start again.\<close>

definition periodic :: "os \<Rightarrow> ptr \<Rightarrow> bool" where
  "periodic s t \<longleftrightarrow> ucast (tmr_type s t) = osTimerPeriodic"

definition restart :: "os \<Rightarrow> ptr list \<Rightarrow> (ptr \<times> nat) list \<Rightarrow> (ptr \<times> nat) list" where
  "restart s ts T = fold (\<lambda>t T. if periodic s t then ins_tmr t (unat (tmr_icnt s t)) T else T) ts T"

definition stopped :: "os \<Rightarrow> ptr list \<Rightarrow> (ptr \<Rightarrow> u8) \<Rightarrow> ptr \<Rightarrow> u8" where
  "stopped s ts st = (\<lambda>t. if t \<in> set ts \<and> \<not> periodic s t then osTimerStopped else st t)"

lemma restart_simps [simp]:
  "restart s [] T = T"
  "restart s (t # ts) T = restart s ts (if periodic s t then ins_tmr t (unat (tmr_icnt s t)) T else T)"
  by (simp_all add: restart_def)

lemma ins_tmr_Cons0: "ins_tmr t d ((u, 0) # T) = (u, 0) # ins_tmr t d T"
  by (simp add: ins_tmr_def)

lemma isrMessagePut_frame:
  assumes "isrMessagePut q m w s = Some (r, s')"
  shows "tmr_next s' = tmr_next s" "tmr_tcnt s' = tmr_tcnt s" "tmr_state s' = tmr_state s" "os_timer_head s' = os_timer_head s"
    "tmr_type s' = tmr_type s" "tmr_icnt s' = tmr_icnt s"
  using assms unfolding isrMessagePut_def isr_mbx_send_def rt_psq_enq_def rt_inc_qi_def rt_psh_req_eq
  by (auto simp: Let_def bind_eq_Some_conv split: if_splits)

lemma put_timer_msgs_retimer:
  "put_timer_msgs ts (retimer X s) = map_option (retimer X) (put_timer_msgs ts s)"
proof (induction ts arbitrary: s)
  case (Cons t ts)
  show ?case
  proof (cases "isrMessagePut (osMessageQId_osTimerMessageQ s) (addr s t) 0 s")
    case None
    then show ?thesis by (simp add: isrMessagePut_retimer)
  next
    case (Some y)
    then show ?thesis using Cons.IH by (cases y) (simp add: isrMessagePut_retimer)
  qed
qed simp

lemma timer_list_cong:
  assumes "tmr_next s = tmr_next s'" "tmr_tcnt s = tmr_tcnt s'" "os_timer_head s = os_timer_head s'"
  shows "timer_list s T = timer_list s' T"
  using assms by (simp add: timer_list_def tlnk_def)

text \<open>Taking the first timer, due now, off the list.\<close>

lemma timer_list_pop:
  assumes "timer_list s ((t, 0) # T)"
  shows "timer_list (s\<lparr>os_timer_head := tmr_next s t\<rparr>) T" and "tmr_next s t = first_node NULL (map fst T)"
    and "t \<noteq> NULL" and "t \<notin> fst ` set T" and "tmr_tcnt s t = 0"
proof -
  have ch: "chain NULL (tlnk s) NULL (t # map fst T)" and td: "tdelt (tmr_tcnt s) 0 ((t, 0) # T)"
    using assms by (simp_all add: timer_list_def)
  show tn: "t \<noteq> NULL" using ch by simp
  have ct: "chain NULL (tlnk s) t (map fst T)" using ch by simp
  show "t \<notin> fst ` set T" using chain_head_notin [OF ct] by simp
  show f: "tmr_next s t = first_node NULL (map fst T)" using chain_head [OF ct] tn by (simp add: tlnk_def)
  show "tmr_tcnt s t = 0" using td by (simp add: unat_eq_zero)
  let ?s = "s\<lparr>os_timer_head := tmr_next s t\<rparr>"
  have "chain NULL (tlnk ?s) NULL (map fst T)"
  proof (cases T)
    case Nil
    then show ?thesis using f by (simp add: tlnk_def)
  next
    case (Cons y T')
    have "chain NULL (tlnk s) (fst y) (map fst T')" using ct Cons by simp
    moreover have "NULL \<notin> insert (fst y) (set (map fst T'))" using chain_nil_notin [OF ct] Cons by auto
    ultimately have "chain NULL (tlnk ?s) (fst y) (map fst T')" by (simp add: tlnk_upd)
    then show ?thesis using f Cons chain_nil_notin [OF ct] by (auto simp: tlnk_def)
  qed
  then show "timer_list ?s T" using td by (simp add: timer_list_def)
qed

text \<open>One expired timer: its message is queued and it starts again or stops.\<close>

lemma timer_expire_spec:
  assumes T: "timer_list s (map (\<lambda>t. (t, 0)) zs @ T)" and t: "t \<noteq> NULL" "t \<notin> fst ` set (map (\<lambda>t. (t, 0)) zs @ T)"
    and m: "isrMessagePut (osMessageQId_osTimerMessageQ s) (addr s t) 0 s = Some (r, s2)"
  shows "\<exists>X. timer_expire t s = Some (retimer X s2) \<and>
     timer_list (retimer X s2) (map (\<lambda>t. (t, 0)) zs @ (if periodic s t then ins_tmr t (unat (tmr_icnt s t)) T else T)) \<and>
     t_state X = (if periodic s t then tmr_state s else (tmr_state s)(t := osTimerStopped))"
proof -
  note fr = isrMessagePut_frame [OF m]
  have T2: "timer_list s2 (map (\<lambda>t. (t, 0)) zs @ T)" using T fr timer_list_cong by metis
  show ?thesis
  proof (cases "periodic s t")
    case True
    have zs: "ins_tmr t d (map (\<lambda>t. (t, 0)) us @ T) = map (\<lambda>t. (t, 0)) us @ ins_tmr t d T" for us d
      by (induction us) (simp_all add: ins_tmr_Cons0)
    have u: "(ucast (tmr_icnt s t) :: u32) = of_nat (unat (tmr_icnt s t))" by (rule ucast_of_nat_unat)
    obtain nx tc hp where e: "rt_timer_insert t (ucast (tmr_icnt s t)) s2
          = Some (s2\<lparr>tmr_next := nx, tmr_tcnt := tc, os_timer_head := hp\<rparr>)"
      and L: "timer_list (s2\<lparr>tmr_next := nx, tmr_tcnt := tc, os_timer_head := hp\<rparr>)
          (map (\<lambda>t. (t, 0)) zs @ ins_tmr t (unat (tmr_icnt s t)) T)"
      using rt_timer_insert_spec [OF T2 t, of "unat (tmr_icnt s t)"] unfolding zs u by auto
    have eq: "s2\<lparr>tmr_next := nx, tmr_tcnt := tc, os_timer_head := hp\<rparr> = retimer (Timers nx tc (tmr_state s) hp) s2"
      using fr(3) by (simp add: retimer_def)
    show ?thesis using e L m True fr unfolding eq
      by (intro exI [of _ "Timers nx tc (tmr_state s) hp"]) (simp add: timer_expire_def periodic_def)
  next
    case False
    let ?X = "Timers (tmr_next s) (tmr_tcnt s) ((tmr_state s)(t := osTimerStopped)) (os_timer_head s)"
    have "timer_expire t s = Some (retimer ?X s2)"
      using m False t fr by (simp add: timer_expire_def periodic_def retimer_def)
    moreover have "timer_list (retimer ?X s2) (map (\<lambda>t. (t, 0)) zs @ T)"
      using T by (subst timer_list_cong [of _ s]) simp_all
    ultimately show ?thesis using False by (intro exI [of _ ?X]) simp
  qed
qed

lemma timer_head_live:
  assumes T: "timer_list s (ins_tmr t d T)" and pos: "\<forall>x\<in>set T. 0 < snd x" and t: "t \<notin> fst ` set T" and ts: "T = (p, k) # T'"
  shows "tmr_tcnt s p \<noteq> 0"
proof (cases "k \<le> d")
  case True
  then have "ins_tmr t d T = (p, k) # ins_tmr t d T'" using ts by (simp add: ins_tmr_def)
  then have "k = unat (tmr_tcnt s p)" using T by (simp add: timer_list_def)
  then show ?thesis using pos ts by auto
next
  case False
  then have "ins_tmr t d T = (t, d) # (p, k) # T'" using ts by (simp add: ins_tmr_def)
  then have "k = d + unat (tmr_tcnt s p)" using T by (simp add: timer_list_def)
  then show ?thesis using False by auto
qed

lemma timer_tick_loop_spec:
  assumes "timer_list s (map (\<lambda>t. (t, 0)) (z # zs) @ T)" and "\<forall>x\<in>set T. 0 < snd x"
    and "\<forall>t\<in>set (z # zs). periodic s t \<longrightarrow> tmr_icnt s t \<noteq> 0"
    and "put_timer_msgs (z # zs) s = Some sm"
  shows "\<exists>X. timer_tick_loop z s = Some (retimer X sm) \<and> timer_list (retimer X sm) (restart s (z # zs) T) \<and>
     t_state X = stopped s (z # zs) (tmr_state s)"
  using assms
proof (induction zs arbitrary: s z T sm)
  case (Cons z' zs)
  let ?T1 = "map (\<lambda>t. (t, 0)) (z' # zs) @ T"
  have T0: "timer_list s ((z, 0) # ?T1)" using Cons.prems(1) by simp
  note pop = timer_list_pop [OF T0]
  let ?s1 = "s\<lparr>os_timer_head := tmr_next s z\<rparr>"
  have s1: "?s1 = retimer (Timers (tmr_next s) (tmr_tcnt s) (tmr_state s) (tmr_next s z)) s" by (simp add: retimer_def)
  obtain r s2 where m0: "isrMessagePut (osMessageQId_osTimerMessageQ s) (addr s z) 0 s = Some (r, s2)"
    and ms: "put_timer_msgs (z' # zs) s2 = Some sm" using Cons.prems(4) by (auto simp: bind_eq_Some_conv)
  obtain Y where m: "isrMessagePut (osMessageQId_osTimerMessageQ ?s1) (addr ?s1 z) 0 ?s1 = Some (r, retimer Y s2)"
    unfolding s1 using m0 by (simp add: isrMessagePut_retimer)
  obtain X where e: "timer_expire z ?s1 = Some (retimer X s2)"
    and L: "timer_list (retimer X s2) (map (\<lambda>t. (t, 0)) (z' # zs) @
         (if periodic s z then ins_tmr z (unat (tmr_icnt s z)) T else T))"
    and st: "t_state X = (if periodic s z then tmr_state s else (tmr_state s)(z := osTimerStopped))"
    using timer_expire_spec [OF pop(1) pop(3) pop(4) m] by (auto simp: periodic_def cong: if_cong)
  note fr = isrMessagePut_frame [OF m0]
  have per: "periodic (retimer X s2) = periodic s" "tmr_icnt (retimer X s2) = tmr_icnt s"
    using fr by (simp_all add: periodic_def fun_eq_iff)
  have e1: "timer_tick_loop z s = timer_tick_loop z' (retimer X s2)"
    using pop e by (subst timer_tick_loop.simps) (simp add: Let_def)
  have pos: "\<forall>x\<in>set (if periodic s z then ins_tmr z (unat (tmr_icnt s z)) T else T). 0 < snd x"
    using Cons.prems(2,3) by (auto simp: unat_gt_0)
  have ms': "put_timer_msgs (z' # zs) (retimer X s2) = Some (retimer X sm)"
    using ms by (simp only: put_timer_msgs_retimer option.map)
  obtain Z where "timer_tick_loop z' (retimer X s2) = Some (retimer Z (retimer X sm))"
    "timer_list (retimer Z (retimer X sm)) (restart (retimer X s2) (z' # zs)
       (if periodic s z then ins_tmr z (unat (tmr_icnt s z)) T else T))"
    "t_state Z = stopped (retimer X s2) (z' # zs) (tmr_state (retimer X s2))"
    using Cons.IH [OF L pos _ ms'] Cons.prems(3) unfolding per by auto
  moreover have "stopped (retimer X s2) (z' # zs) (tmr_state (retimer X s2)) = stopped s (z # z' # zs) (tmr_state s)"
    using st unfolding stopped_def per by (auto simp: fun_eq_iff)
  moreover have "restart (retimer X s2) = restart s" unfolding restart_def per by simp
  ultimately show ?case using e1 by auto
next
  case Nil
  have T0: "timer_list s ((z, 0) # T)" using Nil.prems(1) by simp
  note pop = timer_list_pop [OF T0]
  let ?s1 = "s\<lparr>os_timer_head := tmr_next s z\<rparr>"
  have s1: "?s1 = retimer (Timers (tmr_next s) (tmr_tcnt s) (tmr_state s) (tmr_next s z)) s" by (simp add: retimer_def)
  obtain r where m0: "isrMessagePut (osMessageQId_osTimerMessageQ s) (addr s z) 0 s = Some (r, sm)"
    using Nil.prems(4) by (auto simp: bind_eq_Some_conv)
  obtain Y where m: "isrMessagePut (osMessageQId_osTimerMessageQ ?s1) (addr ?s1 z) 0 ?s1 = Some (r, retimer Y sm)"
    unfolding s1 using m0 by (simp add: isrMessagePut_retimer)
  have pop': "timer_list ?s1 (map (\<lambda>t. (t, 0)) [] @ T)" "z \<notin> fst ` set (map (\<lambda>t. (t, 0)) [] @ T)"
    using pop by simp_all
  obtain X where e: "timer_expire z ?s1 = Some (retimer X sm)"
    and L: "timer_list (retimer X sm) (if periodic s z then ins_tmr z (unat (tmr_icnt s z)) T else T)"
    and st: "t_state X = (if periodic s z then tmr_state s else (tmr_state s)(z := osTimerStopped))"
    using timer_expire_spec [OF pop'(1) pop(3) pop'(2) m] by (auto simp: periodic_def cong: if_cong)
  have "timer_tick_loop (first_node NULL (map fst T)) (retimer X sm) = Some (retimer X sm)"
  proof (cases T)
    case Nil
    then show ?thesis by (subst timer_tick_loop.simps) simp
  next
    case (Cons y T')
    obtain p k where y: "y = (p, k)" by (cases y)
    have "t_tcnt X p \<noteq> 0"
    proof (cases "periodic s z")
      case True
      then show ?thesis using timer_head_live [OF _ Nil.prems(2) pop(4), of "retimer X sm"] L Cons y by simp
    next
      case False
      then have "k = unat (t_tcnt X p)" using L Cons y by (simp add: timer_list_def)
      then show ?thesis using Nil.prems(2) Cons y by auto
    qed
    then show ?thesis using Cons y by (subst timer_tick_loop.simps) simp
  qed
  then have "timer_tick_loop z s = Some (retimer X sm)"
    using pop e by (subst timer_tick_loop.simps) (simp add: Let_def)
  moreover have "t_state X = stopped s [z] (tmr_state s)" using st by (auto simp: stopped_def)
  ultimately show ?case using L by auto
qed

lemma zeros_due: "map (\<lambda>t. (t, 0)) (due D) @ not_due D = D"
proof -
  have "map (\<lambda>t. (t, 0)) (due D) = takeWhile (\<lambda>x. snd x = 0) D"
    unfolding due_def by (induction D) auto
  then show ?thesis by (simp add: not_due_def)
qed

lemma tdelt_tick1: "tdelt c k T \<Longrightarrow> 0 < k \<Longrightarrow> tdelt c (k - 1) (tick1 T)"
proof (induction T arbitrary: k)
  case (Cons x T)
  obtain t j where x: "x = (t, j)" by (cases x)
  have "tdelt c (j - 1) (tick1 T)" using Cons x by auto
  then show ?case using Cons.prems x by (auto simp: tick1_def)
qed (simp add: tick1_def)

lemma timer_list_tick1:
  assumes T: "timer_list s T" and pos: "\<forall>x\<in>set T. 0 < snd x" and ne: "T \<noteq> []"
  shows "timer_list (s\<lparr>tmr_tcnt := (tmr_tcnt s)(os_timer_head s := tmr_tcnt s (os_timer_head s) - 1)\<rparr>) (tick1 T)"
    and "os_timer_head s = fst (hd T)" and "os_timer_head s \<noteq> NULL"
proof -
  obtain t k T' where x: "T = (t, k) # T'" using ne by (cases T) auto
  have ch: "chain NULL (tlnk s) NULL (t # map fst T')" and td: "k = unat (tmr_tcnt s t)" "tdelt (tmr_tcnt s) k T'" "k < 65536"
    using T x by (auto simp: timer_list_def)
  have h: "os_timer_head s = t" using ch by (simp add: tlnk_def)
  show "os_timer_head s = fst (hd T)" "os_timer_head s \<noteq> NULL" using h x ch by auto
  have "chain NULL (tlnk s) t (map fst T')" using ch by simp
  then have "t \<notin> set (map fst T')" by (rule chain_head_notin)
  then have n: "t \<notin> fst ` set T'" by simp
  have k: "0 < k" using pos x by simp
  then have "tmr_tcnt s t \<noteq> 0" using td by auto
  then have "unat (tmr_tcnt s t - 1) = k - 1" using td by (simp add: unat_dec16)
  then have "tdelt ((tmr_tcnt s)(t := tmr_tcnt s t - 1)) 0 (tick1 T)"
    using tdelt_tick1 [OF td(2) k] n td(3) x by simp
  then show "timer_list (s\<lparr>tmr_tcnt := (tmr_tcnt s)(os_timer_head s := tmr_tcnt s (os_timer_head s) - 1)\<rparr>) (tick1 T)"
    using T h by (simp add: timer_list_def tlnk_upd)
qed

lemma sysTimerTick_spec:
  assumes T: "timer_list s T" and pos: "\<forall>x\<in>set T. 0 < snd x"
    and ic: "\<forall>t\<in>fst ` set T. tmr_icnt s t \<noteq> 0" and m: "put_timer_msgs (woken T) s = Some sm"
  shows "\<exists>X. sysTimerTick s = Some (retimer X sm) \<and> timer_list (retimer X sm) (restart s (woken T) (tick_dly T)) \<and>
     t_state X = stopped s (woken T) (tmr_state s)"
proof (cases "T = []")
  case True
  then have "os_timer_head s = NULL" using T by (simp add: timer_list_def tlnk_def)
  then have e: "sysTimerTick s = Some s" by (simp add: sysTimerTick_def)
  obtain X where X: "s = retimer X s" using retimer_id by blast
  then have "t_state X = tmr_state s" using retimer_sel(3) by metis
  then show ?thesis using e T True m X
    by (intro exI [of _ X]) (simp add: woken_def tick_dly_def stopped_def tick1_def due_def not_due_def)
next
  case False
  note t1 = timer_list_tick1 [OF T pos False]
  define c where "c = (tmr_tcnt s)(os_timer_head s := tmr_tcnt s (os_timer_head s) - 1)"
  let ?s1 = "s\<lparr>tmr_tcnt := c\<rparr>"
  have s1: "?s1 = retimer (Timers (tmr_next s) c (tmr_state s) (os_timer_head s)) s" by (simp add: retimer_def)
  have T1: "timer_list ?s1 (map (\<lambda>t. (t, 0)) (woken T) @ tick_dly T)"
    using t1(1) by (simp add: zeros_due woken_def tick_dly_def c_def)
  have e: "sysTimerTick s = timer_tick_loop (os_timer_head s) ?s1"
    using t1(3) by (simp add: sysTimerTick_def Let_def c_def)
  have so: "sorted (map snd (tick1 T))"
    using T tdelt_sorted [of "tmr_tcnt s" 0 T] by (intro sorted_tick1) (simp add: timer_list_def)
  have pos1: "\<forall>x\<in>set (tick_dly T). 0 < snd x" using not_due_pos [OF so] by (auto simp: tick_dly_def)
  have m1: "put_timer_msgs (woken T) ?s1 = Some (retimer (Timers (tmr_next s) c (tmr_state s) (os_timer_head s)) sm)"
    unfolding s1 using m by (simp add: put_timer_msgs_retimer)
  have q: "periodic ?s1 = periodic s" "restart ?s1 = restart s" "stopped ?s1 = stopped s"
    by (simp_all add: periodic_def restart_def stopped_def fun_eq_iff cong: if_cong)
  show ?thesis
  proof (cases "woken T")
    case Nil
    have "tick_dly T = tick1 T" using zeros_due [of "tick1 T"] Nil by (simp add: woken_def tick_dly_def)
    then obtain t k T' where x: "tick_dly T = (t, k) # T'" "t = os_timer_head s"
      using False t1(2) by (cases T) (auto simp: tick1_def)
    then have "c t \<noteq> 0" using T1 pos1 Nil by (auto simp: timer_list_def)
    then have "timer_tick_loop (os_timer_head s) ?s1 = Some ?s1" using x by (subst timer_tick_loop.simps) simp
    then show ?thesis using e T1 m Nil s1
      by (intro exI [of _ "Timers (tmr_next s) c (tmr_state s) (os_timer_head s)"]) (auto simp: stopped_def)
  next
    case (Cons z zs)
    have z: "os_timer_head s = z" using t1(2) False Cons by (cases T) (auto simp: woken_def tick1_def due_def split: if_splits)
    have "\<forall>t\<in>set (z # zs). periodic ?s1 t \<longrightarrow> tmr_icnt ?s1 t \<noteq> 0"
      using ic woken_subset [of T] Cons by auto
    then obtain X where "timer_tick_loop z ?s1 = Some (retimer X (retimer (Timers (tmr_next s) c (tmr_state s) (os_timer_head s)) sm))"
      "timer_list (retimer X (retimer (Timers (tmr_next s) c (tmr_state s) (os_timer_head s)) sm)) (restart ?s1 (z # zs) (tick_dly T))"
      "t_state X = stopped ?s1 (z # zs) (tmr_state ?s1)"
      using timer_tick_loop_spec [OF T1 [unfolded Cons] pos1 _ m1 [unfolded Cons]] by blast
    then show ?thesis using e z Cons q by auto
  qed
qed

section \<open>The timer services keep the list and the states together\<close>

definition tinv :: "os \<Rightarrow> (ptr \<times> nat) list \<Rightarrow> bool" where
  "tinv s T \<longleftrightarrow> timer_list s T \<and> (\<forall>x\<in>set T. 0 < snd x) \<and> (\<forall>t\<in>fst ` set T. tmr_icnt s t \<noteq> 0) \<and>
     (\<forall>t. t \<noteq> NULL \<longrightarrow> (tmr_state s t = osTimerRunning \<longleftrightarrow> t \<in> fst ` set T))"

lemma fst_ins_tmr [simp]: "fst ` set (ins_tmr t d T) = insert t (fst ` set T)"
  by simp

lemma fst_rmv_dly [simp]: "fst ` set (rmv_dly t T) = fst ` set T - {t}"
  by (auto simp: rmv_dly_def)

definition start_tmr :: "ptr \<Rightarrow> nat \<Rightarrow> (ptr \<times> nat) list \<Rightarrow> (ptr \<times> nat) list" where
  "start_tmr t d T = ins_tmr t d (rmv_dly t T)"

lemma rt_ms2tick_u16: "unat (rt_ms2tick ms) < 65536" "(ucast (rt_ms2tick ms) :: u16) = of_nat (unat (rt_ms2tick ms))"
proof -
  show "unat (rt_ms2tick ms) < 65536" unfolding rt_ms2tick_eq by (simp add: min_def)
  show "(ucast (rt_ms2tick ms) :: u16) = of_nat (unat (rt_ms2tick ms))" by (rule ucast_of_nat_unat)
qed

lemma svcTimerStart_spec:
  assumes I: "tinv s T" and t: "t \<noteq> NULL" "rt_id2obj t = t"
  shows "\<exists>r s'. svcTimerStart t ms s = Some (r, s') \<and>
     (if ms = 0 then r = osErrorValue \<and> s' = s
      else if tmr_state s t = osTimerRunning \<or> tmr_state s t = osTimerStopped
      then r = osOK \<and> tinv s' (start_tmr t (unat (rt_ms2tick ms)) T) \<and>
           tmr_icnt s' = (if tmr_state s t = osTimerStopped then (tmr_icnt s)(t := ucast (rt_ms2tick ms)) else tmr_icnt s)
      else r = osErrorResource \<and> s' = s)"
proof -
  let ?d = "unat (rt_ms2tick ms)"
  have d0: "rt_ms2tick ms = 0 \<longleftrightarrow> ms = 0"
    using rt_ms2tick_eq [of ms] by (auto simp: unat_eq_zero osWaitForever_def split: if_splits simp flip: unat_eq_zero)
  have ofd: "rt_ms2tick ms = of_nat ?d" by simp
  have L: "timer_list s T" using I by (simp add: tinv_def)
  consider (zero) "ms = 0" | (run) "ms \<noteq> 0" "tmr_state s t = osTimerRunning" | (stop) "ms \<noteq> 0" "tmr_state s t = osTimerStopped"
    | (other) "ms \<noteq> 0" "tmr_state s t \<noteq> osTimerRunning" "tmr_state s t \<noteq> osTimerStopped" by blast
  then show ?thesis
  proof cases
    case zero
    then show ?thesis using t d0 by (simp add: svcTimerStart_def Let_def)
  next
    case run
    then have tT: "t \<in> fst ` set T" using I t by (simp add: tinv_def)
    obtain nx tc h where e1: "rt_timer_remove t s = Some (0, s\<lparr>tmr_next := nx, tmr_tcnt := tc, os_timer_head := h\<rparr>)"
      and L1: "timer_list (s\<lparr>tmr_next := nx, tmr_tcnt := tc, os_timer_head := h\<rparr>) (rmv_dly t T)"
      using rt_timer_remove_spec [OF L tT] by blast
    obtain nx' tc' h' where e2: "rt_timer_insert t (of_nat ?d) (s\<lparr>tmr_next := nx, tmr_tcnt := tc, os_timer_head := h\<rparr>)
        = Some (s\<lparr>tmr_next := nx', tmr_tcnt := tc', os_timer_head := h'\<rparr>)"
      and L2: "timer_list (s\<lparr>tmr_next := nx', tmr_tcnt := tc', os_timer_head := h'\<rparr>) (start_tmr t ?d T)"
      using rt_timer_insert_spec [OF L1 t(1) _ rt_ms2tick_u16(1), of ms] by (auto simp: start_tmr_def)
    have "svcTimerStart t ms s = Some (osOK, s\<lparr>tmr_next := nx', tmr_tcnt := tc', os_timer_head := h'\<rparr>)"
      using run t d0 e1 e2 by (simp add: svcTimerStart_def Let_def)
    moreover have "tinv (s\<lparr>tmr_next := nx', tmr_tcnt := tc', os_timer_head := h'\<rparr>) (start_tmr t ?d T)"
      using L2 I tT run d0 by (auto simp: tinv_def start_tmr_def unat_gt_0)
    ultimately show ?thesis using run by (auto simp: timer_codes)
  next
    case stop
    then have tT: "t \<notin> fst ` set T" using I t by (auto simp: tinv_def timer_codes)
    let ?s1 = "s\<lparr>tmr_state := (tmr_state s)(t := osTimerRunning), tmr_icnt := (tmr_icnt s)(t := ucast (rt_ms2tick ms))\<rparr>"
    have L1: "timer_list ?s1 T" using L by (subst timer_list_cong [of _ s]) simp_all
    obtain nx tc h where e: "rt_timer_insert t (of_nat ?d) ?s1 = Some (?s1\<lparr>tmr_next := nx, tmr_tcnt := tc, os_timer_head := h\<rparr>)"
      and L2: "timer_list (?s1\<lparr>tmr_next := nx, tmr_tcnt := tc, os_timer_head := h\<rparr>) (ins_tmr t ?d T)"
      using rt_timer_insert_spec [OF L1 t(1) tT rt_ms2tick_u16(1), of ms] by auto
    have "svcTimerStart t ms s = Some (osOK, ?s1\<lparr>tmr_next := nx, tmr_tcnt := tc, os_timer_head := h\<rparr>)"
      using stop t d0 e by (simp add: svcTimerStart_def Let_def timer_codes)
    moreover have "(of_nat ?d :: u16) \<noteq> 0"
    proof
      assume "(of_nat ?d :: u16) = 0"
      then have "unat (of_nat ?d :: u16) = 0" by simp
      moreover have "unat (of_nat ?d :: u16) = ?d" by (rule unat_of_nat_lt) (use rt_ms2tick_u16(1) in simp)
      ultimately have "?d = 0" by (simp only:)
      then have "rt_ms2tick ms = 0" by (simp only: unat_eq_zero)
      then show False using stop(1) d0 by simp
    qed
    then have "tinv (?s1\<lparr>tmr_next := nx, tmr_tcnt := tc, os_timer_head := h\<rparr>) (start_tmr t ?d T)"
    proof -
      assume nz: "(of_nat ?d :: u16) \<noteq> 0"
      have "rmv_dly t T = T" using tT by simp
      moreover have "(ucast (rt_ms2tick ms) :: u16) \<noteq> 0" using nz by (simp only: rt_ms2tick_u16(2) not_False_eq_True)
      moreover have "0 < ?d" using stop(1) d0 by (simp only: unat_gt_0 not_False_eq_True)
      ultimately show ?thesis using L2 I tT unfolding tinv_def start_tmr_def by auto
    qed
    ultimately show ?thesis using stop by (auto simp: timer_codes)
  next
    case other
    then show ?thesis using t d0 by (auto simp: svcTimerStart_def Let_def)
  qed
qed

lemma svcTimerStop_spec:
  assumes I: "tinv s T" and t: "t \<noteq> NULL" "rt_id2obj t = t"
  shows "\<exists>r s'. svcTimerStop t s = Some (r, s') \<and>
     (if tmr_state s t = osTimerRunning then r = osOK \<and> tinv s' (rmv_dly t T) \<and> tmr_state s' t = osTimerStopped
      else r = osErrorResource \<and> s' = s)"
proof (cases "tmr_state s t = osTimerRunning")
  case True
  then have tT: "t \<in> fst ` set T" using I t by (simp add: tinv_def)
  let ?s1 = "s\<lparr>tmr_state := (tmr_state s)(t := osTimerStopped)\<rparr>"
  have L1: "timer_list ?s1 T" using I by (subst timer_list_cong [of _ s]) (simp_all add: tinv_def)
  obtain nx tc h where e: "rt_timer_remove t ?s1 = Some (0, ?s1\<lparr>tmr_next := nx, tmr_tcnt := tc, os_timer_head := h\<rparr>)"
    and L2: "timer_list (?s1\<lparr>tmr_next := nx, tmr_tcnt := tc, os_timer_head := h\<rparr>) (rmv_dly t T)"
    using rt_timer_remove_spec [OF L1 tT] by blast
  have "svcTimerStop t s = Some (osOK, ?s1\<lparr>tmr_next := nx, tmr_tcnt := tc, os_timer_head := h\<rparr>)"
    using True t e by (simp add: svcTimerStop_def Let_def)
  moreover have "tinv (?s1\<lparr>tmr_next := nx, tmr_tcnt := tc, os_timer_head := h\<rparr>) (rmv_dly t T)"
    using L2 I unfolding tinv_def by (auto simp: timer_codes)
  ultimately show ?thesis using True by simp
next
  case False
  then show ?thesis using t by (simp add: svcTimerStop_def Let_def)
qed

lemma svcTimerDelete_spec:
  assumes I: "tinv s T" and t: "t \<noteq> NULL" "rt_id2obj t = t"
  shows "\<exists>r s'. svcTimerDelete t s = Some (r, s') \<and>
     (if tmr_state s t = osTimerRunning \<or> tmr_state s t = osTimerStopped
      then r = osOK \<and> tinv s' (rmv_dly t T) \<and> tmr_state s' t = osTimerInvalid
      else r = osErrorResource \<and> s' = s)"
proof -
  have L: "timer_list s T" using I by (simp add: tinv_def)
  consider (run) "tmr_state s t = osTimerRunning" | (stop) "tmr_state s t = osTimerStopped"
    | (other) "tmr_state s t \<noteq> osTimerRunning" "tmr_state s t \<noteq> osTimerStopped" by blast
  then show ?thesis
  proof cases
    case run
    then have tT: "t \<in> fst ` set T" using I t by (simp add: tinv_def)
    obtain nx tc h where e: "rt_timer_remove t s = Some (0, s\<lparr>tmr_next := nx, tmr_tcnt := tc, os_timer_head := h\<rparr>)"
      and L2: "timer_list (s\<lparr>tmr_next := nx, tmr_tcnt := tc, os_timer_head := h\<rparr>) (rmv_dly t T)"
      using rt_timer_remove_spec [OF L tT] by blast
    let ?s' = "s\<lparr>tmr_next := nx, tmr_tcnt := tc, os_timer_head := h, tmr_state := (tmr_state s)(t := osTimerInvalid)\<rparr>"
    have "svcTimerDelete t s = Some (osOK, ?s')" using run t e by (simp add: svcTimerDelete_def Let_def)
    moreover have "timer_list ?s' (rmv_dly t T)"
      using L2 timer_list_cong [of ?s' "s\<lparr>tmr_next := nx, tmr_tcnt := tc, os_timer_head := h\<rparr>"] by simp
    then have "tinv ?s' (rmv_dly t T)" using I unfolding tinv_def by (auto simp: timer_codes)
    ultimately show ?thesis using run by simp
  next
    case stop
    then have tT: "t \<notin> fst ` set T" using I t by (auto simp: tinv_def timer_codes)
    let ?s' = "s\<lparr>tmr_state := (tmr_state s)(t := osTimerInvalid)\<rparr>"
    have "svcTimerDelete t s = Some (osOK, ?s')" using stop t by (simp add: svcTimerDelete_def Let_def timer_codes)
    moreover have "timer_list ?s' T" using L timer_list_cong [of ?s' s] by simp
    then have "tinv ?s' (rmv_dly t T)" using I tT unfolding tinv_def by (auto simp: timer_codes)
    ultimately show ?thesis using stop by simp
  next
    case other
    then show ?thesis using t by (simp add: svcTimerDelete_def Let_def)
  qed
qed

lemma put_timer_msgs_frame:
  "put_timer_msgs ts s = Some s' \<Longrightarrow> tmr_icnt s' = tmr_icnt s \<and> tmr_type s' = tmr_type s"
proof (induction ts arbitrary: s)
  case (Cons t ts)
  then obtain r s2 where "isrMessagePut (osMessageQId_osTimerMessageQ s) (addr s t) 0 s = Some (r, s2)"
    "put_timer_msgs ts s2 = Some s'" by (auto simp: bind_eq_Some_conv)
  then show ?case using Cons.IH isrMessagePut_frame by metis
qed simp

lemma set_restart: "set (restart s ts T) = set T \<union> {(t, unat (tmr_icnt s t)) | t. t \<in> set ts \<and> periodic s t}"
  by (induction ts arbitrary: T) auto

lemma woken_tick_split:
  assumes "timer_list s T"
  shows "set (woken T) \<inter> fst ` set (tick_dly T) = {}" and "fst ` set T = set (woken T) \<union> fst ` set (tick_dly T)"
proof -
  have d: "distinct (map fst T)" using assms chain_distinct by (force simp: timer_list_def)
  have eq: "map fst T = woken T @ map fst (tick_dly T)"
    using arg_cong [OF zeros_due [of "tick1 T"], of "map fst"] by (simp add: woken_def tick_dly_def comp_def)
  show "set (woken T) \<inter> fst ` set (tick_dly T) = {}" using d unfolding eq by simp
  show "fst ` set T = set (woken T) \<union> fst ` set (tick_dly T)" using arg_cong [OF eq, of set] by simp
qed

lemma sysTimerTick_tinv:
  assumes I: "tinv s T" and m: "put_timer_msgs (woken T) s = Some sm"
  shows "\<exists>X. sysTimerTick s = Some (retimer X sm) \<and> tinv (retimer X sm) (restart s (woken T) (tick_dly T))"
proof -
  have L: "timer_list s T" and pos: "\<forall>x\<in>set T. 0 < snd x" and ic: "\<forall>t\<in>fst ` set T. tmr_icnt s t \<noteq> 0"
    and st: "\<forall>t. t \<noteq> NULL \<longrightarrow> (tmr_state s t = osTimerRunning \<longleftrightarrow> t \<in> fst ` set T)"
    using I by (simp_all add: tinv_def)
  obtain X where e: "sysTimerTick s = Some (retimer X sm)" and L1: "timer_list (retimer X sm) (restart s (woken T) (tick_dly T))"
    and sX: "t_state X = stopped s (woken T) (tmr_state s)"
    using sysTimerTick_spec [OF L pos ic m] by blast
  have so: "sorted (map snd (tick1 T))"
    using L tdelt_sorted [of "tmr_tcnt s" 0 T] by (intro sorted_tick1) (simp add: timer_list_def)
  have pos1: "\<forall>x\<in>set (tick_dly T). 0 < snd x" using not_due_pos [OF so] by (auto simp: tick_dly_def)
  have wT: "set (woken T) \<subseteq> fst ` set T" and sp: "set (woken T) \<inter> fst ` set (tick_dly T) = {}"
    and un: "fst ` set T = set (woken T) \<union> fst ` set (tick_dly T)"
    using woken_subset woken_tick_split [OF L] by blast+
  have fs: "fst ` set (restart s (woken T) (tick_dly T)) = fst ` set (tick_dly T) \<union> {t \<in> set (woken T). periodic s t}"
    unfolding set_restart image_Un by (auto simp: image_iff)
  have "\<forall>x\<in>set (restart s (woken T) (tick_dly T)). 0 < snd x"
  proof -
    have "\<forall>t\<in>set (woken T). tmr_icnt s t \<noteq> 0" using ic wT by blast
    then show ?thesis using pos1 unfolding set_restart by (auto simp: unat_gt_0)
  qed
  moreover have "\<forall>t\<in>fst ` set (restart s (woken T) (tick_dly T)). tmr_icnt sm t \<noteq> 0"
    using ic put_timer_msgs_frame [OF m] unfolding fs un by auto
  moreover have "tmr_state (retimer X sm) t = osTimerRunning \<longleftrightarrow> t \<in> fst ` set (restart s (woken T) (tick_dly T))"
    if "t \<noteq> NULL" for t
    using st that sp un unfolding fs retimer_sel sX stopped_def by (auto simp: timer_codes)
  ultimately show ?thesis using e L1 by (auto simp: tinv_def)
qed

end
