(* ===== verification/Rt_System.thy ===== *)
theory Rt_System
  imports Cmsis_Timer
begin

text \<open>
  Interrupt level of the kernel (\<open>rt_System.c\<close>): the post service of requests made by interrupt
  handlers, the system tick, suspending and resuming the tick, and the start of the system timer.
  An interrupt handler puts the running task at the head of the ready list, does its work on
  the lists, and lets the best ready task run. The queue of requests is a second instance of
  the bounded queue interface.
\<close>

section \<open>Operations\<close>

text \<open>The branches on the type of the control block in \<open>rt_pop_req\<close>.\<close>

definition psq_handle :: "ptr \<Rightarrow> u32 \<Rightarrow> os \<Rightarrow> os option" where
  "psq_handle p_CB arg s = do {
     ct \<leftarrow> rd cb_type p_CB s;
     if ct = TCB then rt_evt_psh p_CB (ucast arg) s
     else if ct = MCB then rt_mbx_psh p_CB arg s
     else rt_sem_psh p_CB s
   }"

partial_function (option) pop_req_loop :: "u32 \<Rightarrow> os \<Rightarrow> (u32 \<times> os) option" where
  "pop_req_loop idx s =
     (if psq_count s \<noteq> 0 then do {
        let (p_CB, arg) = psq_q s (unat idx);
        s \<leftarrow> psq_handle p_CB arg s;
        let idx = idx + 1;
        let idx = (if idx = ucast (psq_size s) then 0 else idx);
        let s = s\<lparr>psq_count := psq_count s - 1\<rparr>;
        pop_req_loop idx s
      }
      else Some (idx, s))"

definition rt_pop_req :: "os \<Rightarrow> os option" where
  "rt_pop_req s = do {
     s \<leftarrow> wr state_update (run s) READY s;
     s \<leftarrow> rt_put_rdy_first (run s) s;
     (idx, s) \<leftarrow> pop_req_loop (ucast (psq_last s)) s;
     let s = s\<lparr>psq_last := ucast idx\<rparr>;
     (next, s) \<leftarrow> rt_get_first Rdy s;
     rt_switch_req next s
   }"

definition rt_systick :: "os \<Rightarrow> os option" where
  "rt_systick s = do {
     s \<leftarrow> wr state_update (run s) READY s;
     s \<leftarrow> rt_put_rdy_first (run s) s;
     s \<leftarrow> rt_chk_robin s;
     let s = s\<lparr>os_time := os_time s + 1\<rparr>;
     s \<leftarrow> rt_dec_dly s;
     s \<leftarrow> sysTimerTick s;
     (next, s) \<leftarrow> rt_get_first Rdy s;
     rt_switch_req next s
   }"

definition rt_suspend :: "os \<Rightarrow> u32 \<times> os" where
  "rt_suspend s =
     (let delta = 0xFFFF; s = rt_tsk_lock s in
      (if p_dlnk s Dly \<noteq> NULL then ucast (delta_time s Dly) else delta, s))"

text \<open>The loop of \<open>rt_resume\<close> over the ticks that were slept.\<close>

partial_function (option) resume_loop :: "u32 \<Rightarrow> os \<Rightarrow> os option" where
  "resume_loop delta s =
     (if p_dlnk s Dly \<noteq> NULL then do {
        s \<leftarrow> rt_dec_dly s;
        if delta = 0 then Some s
        else resume_loop (delta - 1) (s\<lparr>os_time := os_time s + 1\<rparr>)
      }
      else Some s)"

definition resume_delays :: "u32 \<Rightarrow> os \<Rightarrow> os option" where
  "resume_delays sleep_time s =
     (if p_dlnk s Dly \<noteq> NULL then
        (if ucast (delta_time s Dly) \<le> sleep_time then
           let delta = sleep_time - ucast (delta_time s Dly);
               s = s\<lparr>os_time := os_time s + ucast (delta_time s Dly)\<rparr>;
               s = s\<lparr>delta_time := (delta_time s)(Dly := 1)\<rparr>
           in resume_loop delta s
         else
           let s = s\<lparr>os_time := os_time s + sleep_time\<rparr> in
           Some (s\<lparr>delta_time := (delta_time s)(Dly := ucast (ucast (delta_time s Dly) - sleep_time))\<rparr>))
      else Some (s\<lparr>os_time := os_time s + sleep_time\<rparr>))"

definition rt_resume :: "u32 \<Rightarrow> os \<Rightarrow> os option" where
  "rt_resume sleep_time s = do {
     s \<leftarrow> wr state_update (run s) READY s;
     s \<leftarrow> rt_put_rdy_first (run s) s;
     let s = s\<lparr>robin_task := NULL\<rparr>;
     s \<leftarrow> resume_delays sleep_time s;
     (next, s) \<leftarrow> rt_get_first Rdy s;
     s \<leftarrow> rt_switch_req next s;
     Some (rt_tsk_unlock s)
   }"

text \<open>\<open>os_tick_init\<close> with \<open>rt_systick_init\<close>: of the registers of the tick timer the state has the
  control register. It returns -1, so \<open>rt_sys_start\<close> sets up no other interrupt.\<close>

definition os_tick_init :: "os \<Rightarrow> int \<times> os" where
  "os_tick_init s = (- 1, s\<lparr>st_ctrl := 0x0007\<rparr>)"

definition rt_sys_start :: "os \<Rightarrow> os" where
  "rt_sys_start s = (let (n, s) = os_tick_init s in s\<lparr>os_tick_irqn := n\<rparr>)"

section \<open>The request queue\<close>

definition psq_ok :: "os \<Rightarrow> bool" where
  "psq_ok s \<longleftrightarrow> psq_first s < psq_size s \<and> psq_last s < psq_size s \<and> psq_count s \<le> psq_size s \<and>
     unat (psq_first s) = (unat (psq_last s) + unat (psq_count s)) mod unat (psq_size s)"

definition psq_content :: "os \<Rightarrow> (ptr \<times> u32) list" where
  "psq_content s = ring (psq_q s) (unat (psq_last s)) (unat (psq_count s)) (unat (psq_size s))"

definition psq_cap :: "os \<Rightarrow> nat" where
  "psq_cap s = unat (psq_size s)"

definition psq_put :: "ptr \<times> u32 \<Rightarrow> os \<Rightarrow> os option" where
  "psq_put e s = rt_psq_enq (fst e) (snd e) s"

text \<open>What one round of the loop takes out of the queue.\<close>

definition psq_next :: "os \<Rightarrow> u8" where
  "psq_next s = (if psq_last s + 1 = psq_size s then 0 else psq_last s + 1)"

definition psq_get :: "os \<Rightarrow> ((ptr \<times> u32) \<times> os) option" where
  "psq_get s = (if psq_count s = 0 then None
     else Some (psq_q s (unat (psq_last s)), s\<lparr>psq_last := psq_next s, psq_count := psq_count s - 1\<rparr>))"

lemma unat_ucast8: "unat (ucast (a :: u8) :: u32) = unat a"
proof -
  have "unat (of_nat (unat a) :: u32) = unat a"
    by (rule unat_of_nat_lt) (rule less_trans [OF unat_u8_less], simp)
  then show ?thesis by (simp only: ucast_of_nat_unat)
qed

lemma ucast_ucast8: "(ucast (ucast (a :: u8) :: u32) :: u8) = a"
proof -
  have "(ucast (of_nat (unat a) :: u32) :: u8) = of_nat (unat a)" by (rule ucast_of_nat_down) simp
  then show ?thesis by (simp only: ucast_of_nat_unat [symmetric]) simp
qed

lemma ucast_down_add: "(ucast (ucast (a :: u8) + 1 :: u32) :: u8) = a + 1"
proof -
  define n where "n = unat a"
  have "ucast a + 1 = (of_nat (n + 1) :: u32)" by (simp add: n_def)
  then have "(ucast (ucast a + 1 :: u32) :: u8) = of_nat (n + 1)"
    using ucast_of_nat_down [where 'a = 32 and 'b = 8, of "n + 1"] by (simp only:) simp
  then show ?thesis by (simp add: n_def)
qed

lemma wrap8:
  fixes a n :: u8
  assumes "a < n"
  shows "unat (if a + 1 = n then 0 else a + 1) = (unat a + 1) mod unat n"
proof -
  have "unat a < unat n" using assms by (simp add: word_less_nat_alt)
  moreover have "unat (a + 1) = unat a + 1"
  proof -
    have "unat a + 1 < 256" using \<open>unat a < unat n\<close> unat_u8_less [of n] by linarith
    then show ?thesis by (subst unat_add_lem [THEN iffD1]) simp_all
  qed
  ultimately show ?thesis by (auto simp: mod_less word_unat_eq_iff)
qed

lemma rt_psq_enq_eq:
  assumes ok: "psq_ok s" and room: "unat (psq_count s) < unat (psq_size s)"
  shows "rt_psq_enq p a s = Some (s\<lparr>psq_count := psq_count s + 1,
     psq_first := (if psq_first s + 1 = psq_size s then 0 else psq_first s + 1),
     psq_q := (psq_q s)(unat (psq_first s) := (p, a))\<rparr>)"
proof -
  have f: "unat (psq_first s) < unat (psq_size s)" using ok by (simp add: psq_ok_def word_less_nat_alt)
  have "unat (psq_first s) + 1 < 4294967296" using unat_u8_less [of "psq_first s"] by linarith
  then have i1: "unat (ucast (psq_first s) + 1 :: u32) = unat (psq_first s) + 1"
    by (subst unat_add_lem [THEN iffD1]) (simp_all add: unat_ucast8)
  have "unat (psq_first s) + 1 < 256" using f unat_u8_less [of "psq_size s"] by linarith
  then have i2: "unat (psq_first s + 1) = unat (psq_first s) + 1"
    by (subst unat_add_lem [THEN iffD1]) simp_all
  have "ucast (psq_first s) + 1 = (ucast (psq_size s) :: u32) \<longleftrightarrow> psq_first s + 1 = psq_size s"
    by (simp only: word_unat_eq_iff i1 i2 unat_ucast8)
  moreover have "(ucast (ucast (psq_first s) + 1 :: u32) :: u8) = psq_first s + 1"
    "(ucast (ucast (psq_count s) + 1 :: u32) :: u8) = psq_count s + 1"
    by (simp_all add: ucast_down_add)
  ultimately show ?thesis using room f
    by (simp add: rt_psq_enq_def rt_inc_qi_def Let_def word_less_nat_alt unat_ucast8)
qed

lemma ucast_next8:
  assumes "(l :: u8) < n"
  shows "(if ucast l + 1 = (ucast n :: u32) then 0 else ucast l + 1) = (ucast (if l + 1 = n then 0 else l + 1) :: u32)"
proof -
  have lt: "unat l < unat n" using assms by (simp add: word_less_nat_alt)
  have b: "unat l + 1 < 256" using lt unat_u8_less [of n] by linarith
  have i1: "unat (ucast l + 1 :: u32) = unat l + 1"
    using b by (subst unat_add_lem [THEN iffD1]) (simp_all add: unat_ucast8)
  have i2: "unat (l + 1) = unat l + 1" using b by (subst unat_add_lem [THEN iffD1]) simp_all
  have "ucast l + 1 = (ucast n :: u32) \<longleftrightarrow> l + 1 = n"
    by (simp only: word_unat_eq_iff i1 i2 unat_ucast8)
  moreover have "ucast l + 1 = (ucast (l + 1) :: u32)"
    by (simp only: word_unat_eq_iff i1 i2 unat_ucast8)
  ultimately show ?thesis by simp
qed

lemma psq_put_law:
  assumes ok: "psq_ok s" and room: "length (psq_content s) < psq_cap s"
  shows "\<exists>s'. psq_put e s = Some s' \<and> psq_ok s' \<and> psq_cap s' = psq_cap s \<and> psq_content s' = psq_content s @ [e]"
proof -
  have c: "unat (psq_count s) < unat (psq_size s)" using room by (simp add: psq_content_def psq_cap_def)
  have c1: "unat (psq_count s + 1) = Suc (unat (psq_count s))"
  proof -
    have "unat (psq_count s) + 1 < 256" using c unat_u8_less [of "psq_size s"] by linarith
    then show ?thesis by (subst unat_add_lem [THEN iffD1]) simp_all
  qed
  have f: "unat (psq_first s) = (unat (psq_last s) + unat (psq_count s)) mod unat (psq_size s)"
    and fs: "psq_first s < psq_size s" using ok by (simp_all add: psq_ok_def)
  let ?f = "if psq_first s + 1 = psq_size s then 0 else psq_first s + 1"
  let ?s' = "s\<lparr>psq_count := psq_count s + 1, psq_first := ?f, psq_q := (psq_q s)(unat (psq_first s) := e)\<rparr>"
  have w: "unat ?f = (unat (psq_first s) + 1) mod unat (psq_size s)" by (rule wrap8 [OF fs])
  have "0 < unat (psq_size s)" using c by simp
  then have "?f < psq_size s" unfolding word_less_nat_alt w by simp
  moreover have "unat ?f = (unat (psq_last s) + unat (psq_count s + 1)) mod unat (psq_size s)"
    unfolding w c1 f by (simp add: mod_Suc_eq)
  ultimately have "psq_ok ?s'" using ok c c1 by (simp add: psq_ok_def word_le_nat_alt)
  moreover have "psq_content ?s' = psq_content s @ [e]"
    using ring_put [OF c, of "psq_q s" "unat (psq_last s)" e] by (simp add: psq_content_def c1 f)
  moreover have "psq_put e s = Some ?s'" using rt_psq_enq_eq [OF ok c] by (simp add: psq_put_def)
  ultimately show ?thesis by (intro exI [of _ ?s']) (simp add: psq_cap_def)
qed

lemma psq_get_law:
  assumes ok: "psq_ok s" and c: "psq_content s = e # es"
  shows "\<exists>s'. psq_get s = Some (e, s') \<and> psq_ok s' \<and> psq_cap s' = psq_cap s \<and> psq_content s' = es"
proof -
  have l: "psq_last s < psq_size s" using ok by (simp add: psq_ok_def)
  obtain k where k: "unat (psq_count s) = Suc k" using c by (cases "unat (psq_count s)") (simp_all add: psq_content_def)
  then have nz: "psq_count s \<noteq> 0" by auto
  have d: "unat (psq_count s - 1) = k"
    using k nz by (simp add: unat_minus_one)
  have w: "unat (psq_next s) = (unat (psq_last s) + 1) mod unat (psq_size s)"
    unfolding psq_next_def by (rule wrap8 [OF l])
  have r: "ring (psq_q s) (unat (psq_last s)) (Suc k) (unat (psq_size s))
      = psq_q s (unat (psq_last s)) # ring (psq_q s) ((unat (psq_last s) + 1) mod unat (psq_size s)) k (unat (psq_size s))"
    using l by (intro ring_get) (simp add: word_less_nat_alt)
  let ?s' = "s\<lparr>psq_last := psq_next s, psq_count := psq_count s - 1\<rparr>"
  have "psq_q s (unat (psq_last s)) = e" "psq_content ?s' = es"
    using c r by (simp_all add: psq_content_def k d w)
  moreover have "psq_next s < psq_size s"
    using l unfolding word_less_nat_alt w by (simp add: word_less_nat_alt)
  moreover have "unat (psq_first s) = (unat (psq_next s) + unat (psq_count s - 1)) mod unat (psq_size s)"
    using ok unfolding w d psq_ok_def k by (simp add: mod_simps)
  then have "psq_ok ?s'" using ok calculation(3) k d by (simp add: psq_ok_def word_le_nat_alt)
  moreover have "psq_get s = Some (psq_q s (unat (psq_last s)), ?s')" using nz by (simp add: psq_get_def)
  ultimately show ?thesis by (intro exI [of _ ?s']) (simp add: psq_cap_def)
qed

interpretation psq: bounded_fifo psq_ok psq_content psq_cap psq_put psq_get
  by unfold_locales (rule psq_put_law psq_get_law; assumption)+

lemma psq_count_0: "psq_count s = 0 \<longleftrightarrow> psq_content s = []"
  by (simp add: psq_content_def ring_def unat_eq_zero)

section \<open>Post service of one request\<close>

text \<open>The first task that waits for an object becomes ready; before that the handler may write
  anything the list invariant does not read.\<close>

lemma psh_ready:
  assumes k: "kall s v" and W: "waitq v n = t # ts"
  shows "is_tcb t \<and> (\<exists>L. rt_get_first (Obj n) s = Some (t, relink L s) \<and>
     (\<forall>s1. (\<forall>u. kbase {t} (relink L s) u \<longrightarrow> kbase {t} s1 u) \<longrightarrow>
       (\<exists>s'. mbx_psh_ready t s1 = Some s' \<and> kall s' (ready_one n v) \<and> moved s1 s')))"
proof -
  have b: "kbase {} s v" and i: "os_idle_TCB \<in> set (rdyq v)" using k by (simp_all add: kall_kbase)
  have tt: "is_tcb t" using kbase_tcb(3) [OF b, of t n] W by simp
  obtain L where e1: "rt_get_first (Obj n) s = Some (t, relink L s)"
    and k1: "kbase {t} (relink L s) (v\<lparr>waitq := (waitq v)(n := ts)\<rparr>)"
    using take_first_base [OF b W] by auto
  have "\<exists>s'. mbx_psh_ready t s1 = Some s' \<and> kall s' (ready_one n v) \<and> moved s1 s'"
    if q: "\<forall>u. kbase {t} (relink L s) u \<longrightarrow> kbase {t} s1 u" for s1
  proof -
    let ?s2 = "s1\<lparr>state := (state s1)(t := READY)\<rparr>"
    have k2: "kbase {t} ?s2 (v\<lparr>waitq := (waitq v)(n := ts)\<rparr>)" using kbase_state q k1 by blast
    obtain L2 where e2: "rt_rmv_dly t ?s2 = Some (relink L2 ?s2)"
      and k3: "kbase {t} (relink L2 ?s2) (v\<lparr>waitq := (waitq v)(n := ts), dlyq := rmv_dly t (dlyq v)\<rparr>)"
      using rmv_dly_base [OF k2, of t] by auto
    obtain L3 where e3: "rt_put_prio Rdy t (relink L2 ?s2) = Some (relink L3 ?s2)"
      and k4: "kbase {} (relink L3 ?s2) (v\<lparr>waitq := (waitq v)(n := ts), dlyq := rmv_dly t (dlyq v),
          rdyq := ins_prio (prios v) t (rdyq v)\<rparr>)"
      using ready_base [OF k3, of t] by auto
    have v: "ready_one n v = v\<lparr>waitq := (waitq v)(n := ts), dlyq := rmv_dly t (dlyq v), rdyq := ins_prio (prios v) t (rdyq v)\<rparr>"
      using W by (simp add: ready_one_def take_waiter_def)
    have "mbx_psh_ready t s1 = Some (relink L3 ?s2)" using e2 e3 tt by (simp add: mbx_psh_ready_def)
    moreover have "kall (relink L3 ?s2) (ready_one n v)" using k4 i unfolding v kall_kbase by simp
    ultimately show ?thesis using moved_state by blast
  qed
  with e1 tt show ?thesis by blast
qed

text \<open>What the request \<open>(p, arg)\<close> does to the view; the flags and messages are read in \<open>s\<close>.\<close>

definition evt_fires :: "ptr \<Rightarrow> u16 \<Rightarrow> os \<Rightarrow> bool" where
  "evt_fires t fl s \<longleftrightarrow> evt_met (state s t) (waits s t) (events s t OR fl)"

fun post_view :: "ptr \<Rightarrow> u32 \<Rightarrow> os \<Rightarrow> kview \<Rightarrow> kview" where
  "post_view (Tcb k) arg s v =
     (if evt_fires (Tcb k) (ucast arg) s then (unpark (Tcb k) v)\<lparr>rdyq := ins_prio (prios v) (Tcb k) (rdyq v)\<rparr> else v)"
| "post_view (Obj n) arg s v =
     (if waitq v n = [] then v
      else if cb_type s (Obj n) = MCB \<and> \<not> (mbx_state s (Obj n) \<in> {1, 2} \<or> mbx_state s (Obj n) = 3 \<and> mem s arg \<noteq> 0)
      then v else ready_one n v)"
| "post_view p arg s v = v"

text \<open>A request the kernel can serve: flags for a live task, a token for a semaphore, a message
  for a mailbox with room for it or a task that waits for it.\<close>

fun post_ok :: "ptr \<Rightarrow> os \<Rightarrow> kview \<Rightarrow> bool" where
  "post_ok (Tcb k) s v \<longleftrightarrow> Tcb k \<in> set (rdyq v) \<union> parked v \<union> (\<Union>m. set (waitq v m))"
| "post_ok (Obj n) s v \<longleftrightarrow>
     cb_type s (Obj n) = SCB \<or>
     cb_type s (Obj n) = MCB \<and> mbx_ok (Obj n) s \<and>
       (waitq v n = [] \<longrightarrow> mbx_count s (Obj n) < mbx_size s (Obj n))"
| "post_ok p s v \<longleftrightarrow> False"

text \<open>What post service leaves alone: the request queue, the types of the control blocks, and the
  mailboxes but for one more message in the mailbox of the request.\<close>

definition post_same :: "os \<Rightarrow> os \<Rightarrow> bool" where
  "post_same s s' \<longleftrightarrow> cb_type s' = cb_type s \<and> run s' = run s \<and> psq_q s' = psq_q s \<and> psq_first s' = psq_first s \<and>
     psq_last s' = psq_last s \<and> psq_count s' = psq_count s \<and> psq_size s' = psq_size s"

definition mbx_room :: "nat \<Rightarrow> nat \<Rightarrow> os \<Rightarrow> bool" where
  "mbx_room k n s \<longleftrightarrow> mbx_ok (Obj n) s \<and> length (mbx_content (Obj n) s) + k \<le> mbx_cap (Obj n) s"

definition mbx_more :: "ptr \<Rightarrow> os \<Rightarrow> os \<Rightarrow> bool" where
  "mbx_more p s s' \<longleftrightarrow> (\<forall>m k. mbx_room (k + of_bool (p = Obj m)) m s \<longrightarrow> mbx_room k m s')"

lemma mbx_room_cong:
  assumes "mbx_first s' = mbx_first s" "mbx_last s' = mbx_last s" "mbx_count s' = mbx_count s" "mbx_size s' = mbx_size s"
  shows "mbx_room k n s' = mbx_room k n s"
  using assms by (simp add: mbx_room_def mbx_ok_def mbx_content_def mbx_cap_def)

lemma mbx_more_same:
  assumes "mbx_first s' = mbx_first s" "mbx_last s' = mbx_last s" "mbx_count s' = mbx_count s" "mbx_size s' = mbx_size s"
  shows "mbx_more p s s'"
  unfolding mbx_more_def mbx_room_cong [OF assms] by (auto simp: mbx_room_def)

lemma mbx_more_store:
  assumes "mbx_store (Obj n) x s = Some s'" and "mbx_first s (Obj n) < mbx_size s (Obj n)"
  shows "mbx_more (Obj n) s s'"
  unfolding mbx_more_def
proof (intro allI impI)
  fix m k
  assume r: "mbx_room (k + of_bool (Obj n = Obj m)) m s"
  show "mbx_room k m s'"
  proof (cases "m = n")
    case True
    then have "mbx_ok (Obj n) s" "length (mbx_content (Obj n) s) + Suc k \<le> mbx_cap (Obj n) s"
      using r by (simp_all add: mbx_room_def)
    then show ?thesis using mbx_store_law [of "Obj n" s x] assms(1) True by (auto simp: mbx_room_def)
  next
    case False
    then have "mbx_room k m s" using r by simp
    then show ?thesis using mbx_store_eq [of "Obj n" s x] assms False
      by (simp add: mbx_room_def mbx_ok_def mbx_content_def mbx_cap_def)
  qed
qed

lemma post_same_moved: "moved s s' \<Longrightarrow> post_same s s'"
  using moved_sel [of s s'] by (simp add: post_same_def)

lemma moved_mbx_more: "moved s s' \<Longrightarrow> mbx_more p s s'"
  using moved_sel [of s s'] by (intro mbx_more_same) simp_all

lemma post_evt:
  assumes k: "kall s v" and t: "post_ok (Tcb k) s v"
  shows "\<exists>s'. rt_evt_psh (Tcb k) fl s = Some s' \<and> post_same s s' \<and> mbx_more (Tcb k) s s' \<and>
     kall s' (if evt_fires (Tcb k) fl s then (unpark (Tcb k) v)\<lparr>rdyq := ins_prio (prios v) (Tcb k) (rdyq v)\<rparr> else v)"
proof -
  let ?t = "Tcb k"
  let ?e = "(events s)(?t := events s ?t OR fl)"
  show ?thesis
  proof (cases "evt_fires ?t fl s")
    case False
    then have "rt_evt_psh ?t fl s = Some (s\<lparr>events := ?e\<rparr>)"
      by (auto simp: rt_evt_psh_def evt_fires_def evt_met_def Let_def)
    then show ?thesis using k False by (simp add: post_same_def mbx_more_same)
  next
    case True
    have "park_wait (state s ?t)" using True by (auto simp: evt_fires_def evt_met_def)
    then have "state s ?t \<noteq> READY" "\<not> obj_wait (state s ?t)"
      by (auto simp: park_wait_def obj_wait_def)
    then have tp: "?t \<in> parked v" using k t unfolding kall_def styp_def by (auto simp: post_ok.simps)
    let ?w = "waits s ?t" and ?ev = "events s ?t OR fl"
    let ?s0 = "if state s ?t = WAIT_AND then s\<lparr>events := ?e\<rparr> else s\<lparr>events := ?e, waits := (waits s)(?t := ?w AND ?ev)\<rparr>"
    have "rt_evt_psh ?t fl s = evt_rdy ?t ?w ?s0"
      using True by (auto simp: rt_evt_psh_def evt_fires_def evt_met_def Let_def)
    moreover have "kall ?s0 v" using k by simp
    then obtain s' where s': "evt_rdy ?t ?w ?s0 = Some s'" "kall s' ((unpark ?t v)\<lparr>rdyq := ins_prio (prios v) ?t (rdyq v)\<rparr>)"
      "moved (?s0\<lparr>events := (events ?s0)(?t := events ?s0 ?t AND NOT ?w),
       mem := (mem ?s0)(tsk_stack ?s0 ?t + 32 := 8, tsk_stack ?s0 ?t + 36 := ucast (waits ?s0 ?t))\<rparr>) s'"
      using evt_rdy_refines [OF _ tp] by blast
    moreover have "post_same s s'" "mbx_more ?t s s'"
      using moved_sel [OF s'(3)] by (simp_all add: post_same_def mbx_more_same)
    ultimately show ?thesis using True by auto
  qed
qed

lemma post_mbx:
  assumes k: "kall s v" and ty: "cb_type s (Obj n) = MCB" and ok: "post_ok (Obj n) s v"
  shows "\<exists>s'. rt_mbx_psh (Obj n) arg s = Some s' \<and> post_same s s' \<and> mbx_more (Obj n) s s' \<and>
     kall s' (post_view (Obj n) arg s v)"
proof (cases "waitq v n")
  case Nil
  have "p_lnk s (Obj n) = NULL" using kall_obj_waits [OF k, of n] ty Nil by simp
  moreover have r: "mbx_count s (Obj n) < mbx_size s (Obj n)" "mbx_first s (Obj n) < mbx_size s (Obj n)"
    using ok ty Nil by (auto simp: mbx_ok_def cb_types)
  ultimately have "rt_mbx_psh (Obj n) arg s = mbx_store (Obj n) arg s" by (simp add: rt_mbx_psh_def)
  moreover obtain s' where s': "mbx_store (Obj n) arg s = Some s'" "post_same s s'" "kall s' v"
    using mbx_store_eq [of "Obj n" s arg] r k by (simp add: kall_kbase post_same_def)
  moreover have "mbx_more (Obj n) s s'" using mbx_more_store [OF s'(1) r(2)] .
  ultimately show ?thesis using Nil by simp
next
  case (Cons t ts)
  have ln: "p_lnk s (Obj n) \<noteq> NULL" using kall_obj_waits [OF k, of n] ty Cons by simp
  have mf: "mbx_first s (Obj n) < mbx_size s (Obj n)" using ok ty by (auto simp: mbx_ok_def cb_types)
  consider (s1) "mbx_state s (Obj n) = 1" | (s2) "mbx_state s (Obj n) = 2"
    | (s3) "mbx_state s (Obj n) = 3" "mem s arg \<noteq> 0" | (s4) "mbx_state s (Obj n) = 3" "mem s arg = 0"
    | (other) "mbx_state s (Obj n) \<notin> {1, 2, 3}" by blast
  then show ?thesis
  proof cases
    case s1
    obtain L where tt: "is_tcb t" and e: "rt_get_first (Obj n) s = Some (t, relink L s)"
      and q: "\<forall>s1. (\<forall>u. kbase {t} (relink L s) u \<longrightarrow> kbase {t} s1 u) \<longrightarrow>
         (\<exists>s'. mbx_psh_ready t s1 = Some s' \<and> kall s' (ready_one n v) \<and> moved s1 s')"
      using psh_ready [OF k Cons] by blast
    let ?s1 = "(relink L s)\<lparr>mem := (mem s)(tsk_stack s t + 32 := 0x10, tsk_stack s t + 36 := arg)\<rparr>"
    have "rt_mbx_psh (Obj n) arg s = mbx_psh_ready t ?s1" using s1 ln e tt by (simp add: rt_mbx_psh_def)
    moreover have "\<forall>u. kbase {t} (relink L s) u \<longrightarrow> kbase {t} ?s1 u" by simp
    then obtain s' where s': "mbx_psh_ready t ?s1 = Some s'" "kall s' (ready_one n v)" "moved ?s1 s'" using q by blast
    moreover have "post_same s s'" "mbx_more (Obj n) s s'"
      using moved_sel [OF s'(3)] by (simp_all add: post_same_def mbx_more_same)
    ultimately show ?thesis using s1 ty Cons by (auto simp: cb_types)
  next
    case s2
    obtain L where tt: "is_tcb t" and e: "rt_get_first (Obj n) s = Some (t, relink L s)"
      and q: "\<forall>s1. (\<forall>u. kbase {t} (relink L s) u \<longrightarrow> kbase {t} s1 u) \<longrightarrow>
         (\<exists>s'. mbx_psh_ready t s1 = Some s' \<and> kall s' (ready_one n v) \<and> moved s1 s')"
      using psh_ready [OF k Cons] by blast
    let ?s0 = "(relink L s)\<lparr>mem := (mem s)(tsk_stack s t + 32 := 0)\<rparr>"
    obtain s1 where e1: "mbx_store (Obj n) (msg s t) ?s0 = Some s1"
      and k1: "\<forall>u. kbase {t} (relink L s) u \<longrightarrow> kbase {t} s1 u" and p1: "post_same s s1"
      using mbx_store_eq [of "Obj n" ?s0 "msg s t"] mf by (simp add: post_same_def)
    have m0: "mbx_more (Obj n) ?s0 s1" using mbx_more_store [OF e1] mf by simp
    have m1: "mbx_more (Obj n) s s1"
      using m0 mbx_room_cong [of ?s0 s] unfolding mbx_more_def by simp
    obtain s' where s': "mbx_psh_ready t s1 = Some s'" "kall s' (ready_one n v)" "moved s1 s'" using q k1 by blast
    have "rt_mbx_psh (Obj n) arg s = Some s'" using s2 ln e e1 tt s' by (simp add: rt_mbx_psh_def)
    moreover have "post_same s s'" using p1 moved_sel [OF s'(3)] by (simp add: post_same_def)
    moreover have "mbx_more (Obj n) s s'"
      using m1 mbx_room_cong [of s' s1] moved_sel [OF s'(3)] unfolding mbx_more_def by simp
    ultimately show ?thesis using s' s2 ty Cons by (auto simp: cb_types)
  next
    case s3
    let ?s = "s\<lparr>mem := (mem s)(arg := mem s (mem s arg))\<rparr>"
    have k': "kall ?s v" using k by simp
    obtain L where tt: "is_tcb t" and e: "rt_get_first (Obj n) ?s = Some (t, relink L ?s)"
      and q: "\<forall>s1. (\<forall>u. kbase {t} (relink L ?s) u \<longrightarrow> kbase {t} s1 u) \<longrightarrow>
         (\<exists>s'. mbx_psh_ready t s1 = Some s' \<and> kall s' (ready_one n v) \<and> moved s1 s')"
      using psh_ready [OF k' Cons] by blast
    let ?s1 = "(relink L ?s)\<lparr>mem := (mem ?s)(tsk_stack s t + 32 := mem s arg)\<rparr>"
    have "rt_mbx_psh (Obj n) arg s = mbx_psh_ready t ?s1"
      using s3 ln e tt by (simp add: rt_mbx_psh_def rt_alloc_box_def Let_def)
    moreover have "\<forall>u. kbase {t} (relink L ?s) u \<longrightarrow> kbase {t} ?s1 u" by simp
    then obtain s' where s': "mbx_psh_ready t ?s1 = Some s'" "kall s' (ready_one n v)" "moved ?s1 s'" using q by blast
    moreover have "post_same s s'" "mbx_more (Obj n) s s'"
      using moved_sel [OF s'(3)] by (simp_all add: post_same_def mbx_more_same)
    ultimately show ?thesis using s3 ty Cons by (auto simp: cb_types)
  next
    case s4
    then have "rt_mbx_psh (Obj n) arg s = Some s" using ln by (simp add: rt_mbx_psh_def rt_alloc_box_def Let_def)
    then show ?thesis using s4 k ty Cons by (simp add: post_same_def mbx_more_same)
  next
    case other
    then have "rt_mbx_psh (Obj n) arg s = Some s" using ln by (simp add: rt_mbx_psh_def)
    then show ?thesis using other k ty Cons by (simp add: post_same_def mbx_more_same)
  qed
qed

lemma psq_handle_spec:
  assumes k: "kall s v" and ok: "post_ok p s v"
  shows "\<exists>s'. psq_handle p arg s = Some s' \<and> post_same s s' \<and> mbx_more p s s' \<and> kall s' (post_view p arg s v)"
proof (cases p)
  case (Tcb j)
  have "cb_type s (Tcb j) = TCB" using k by (simp add: kall_def linv_def own_ok_def)
  then show ?thesis using post_evt [OF k, of j "ucast arg"] ok Tcb by (simp add: psq_handle_def)
next
  case (Obj n)
  consider (sem) "cb_type s (Obj n) = SCB" | (mbx) "cb_type s (Obj n) = MCB" using ok Obj by auto
  then show ?thesis
  proof cases
    case sem
    then have "psq_handle p arg s = rt_sem_psh (Obj n) s" using Obj by (simp add: psq_handle_def cb_types)
    moreover have "\<exists>s'. rt_sem_psh (Obj n) s = Some s' \<and> post_same s s' \<and> mbx_more p s s' \<and>
        kall s' (if waitq v n = [] then v else ready_one n v)"
    proof (cases "waitq v n")
      case Nil
      then show ?thesis using rt_sem_psh_store [OF k, of n] sem k by (simp add: post_same_def mbx_more_same)
    next
      case (Cons t ts)
      then obtain s' where s': "rt_sem_psh (Obj n) s = Some s'" "kall s' (ready_one n v)" "moved (give_ret t 1 s) s'"
        using rt_sem_psh_wake [OF k, of n] sem by auto
      moreover have "post_same s s'" "mbx_more p s s'"
        using moved_sel [OF s'(3)] by (simp_all add: post_same_def mbx_more_same give_ret_def)
      ultimately show ?thesis using Cons by simp
    qed
    moreover have "post_view p arg s v = (if waitq v n = [] then v else ready_one n v)"
      using Obj sem by (simp add: cb_types)
    ultimately show ?thesis by simp
  next
    case mbx
    then have "psq_handle p arg s = rt_mbx_psh (Obj n) arg s" using Obj by (simp add: psq_handle_def cb_types)
    then show ?thesis using post_mbx [OF k mbx] ok Obj by simp
  qed
qed (use ok in simp_all)

section \<open>The post service loop\<close>

definition lv :: "kview \<Rightarrow> ptr set" where
  "lv v = set (rdyq v) \<union> parked v \<union> (\<Union>m. set (waitq v m))"

fun req_kind :: "ptr \<Rightarrow> os \<Rightarrow> kview \<Rightarrow> bool" where
  "req_kind (Tcb k) s v \<longleftrightarrow> Tcb k \<in> lv v"
| "req_kind (Obj n) s v \<longleftrightarrow> cb_type s (Obj n) = SCB \<or> cb_type s (Obj n) = MCB"
| "req_kind p s v \<longleftrightarrow> False"

text \<open>The requests that wait for service: for live tasks, for semaphores, and for mailboxes with room
  for the messages that are on their way.\<close>

definition reqs_ok :: "(ptr \<times> u32) list \<Rightarrow> os \<Rightarrow> kview \<Rightarrow> bool" where
  "reqs_ok es s v \<longleftrightarrow> (\<forall>p\<in>fst ` set es. req_kind p s v) \<and>
     (\<forall>n. Obj n \<in> fst ` set es \<longrightarrow> cb_type s (Obj n) = MCB \<longrightarrow> mbx_room (count_list (map fst es) (Obj n)) n s)"

primrec post_views :: "(ptr \<times> u32) list \<Rightarrow> os \<Rightarrow> kview \<Rightarrow> kview" where
  "post_views [] s v = v"
| "post_views (e # es) s v = (case psq_handle (fst e) (snd e) s of
      None \<Rightarrow> v
    | Some s' \<Rightarrow> post_views es (s'\<lparr>psq_count := psq_count s' - 1\<rparr>) (post_view (fst e) (snd e) s v))"

lemma reqs_post_ok:
  assumes "reqs_ok ((p, a) # es) s v"
  shows "post_ok p s v"
proof (cases p)
  case (Tcb k)
  then show ?thesis using assms by (simp add: reqs_ok_def lv_def)
next
  case (Obj n)
  have "mbx_ok (Obj n) s \<and> mbx_count s (Obj n) < mbx_size s (Obj n)" if "cb_type s (Obj n) = MCB"
  proof -
    have "mbx_room (Suc (count_list (map fst es) (Obj n))) n s" using assms Obj that by (auto simp: reqs_ok_def)
    then show ?thesis by (simp add: mbx_room_def mbx_content_def mbx_cap_def word_less_nat_alt)
  qed
  then show ?thesis using assms Obj by (auto simp: reqs_ok_def)
qed (use assms in \<open>simp_all add: reqs_ok_def\<close>)

lemma lv_ready_one: "waitq v n \<noteq> [] \<Longrightarrow> lv (ready_one n v) = lv v"
proof -
  assume "waitq v n \<noteq> []"
  then have "set (waitq v n) = insert (hd (waitq v n)) (set (tl (waitq v n)))" by (cases "waitq v n") auto
  then have "insert (hd (waitq v n)) (\<Union>m. set (((waitq v)(n := tl (waitq v n))) m)) = (\<Union>m. set (waitq v m))"
    by (rule waiters_get)
  then show ?thesis unfolding lv_def ready_one_def take_waiter_def by (simp del: fun_upd_apply) blast
qed

lemma lv_post_view: "post_ok p s v \<Longrightarrow> lv (post_view p a s v) = lv v"
proof (cases p)
  case (Tcb k)
  assume "post_ok p s v"
  then have "Tcb k \<in> lv v" using Tcb by (simp add: lv_def)
  then show ?thesis using Tcb by (auto simp: lv_def unpark_def)
next
  case (Obj n)
  then show ?thesis using lv_ready_one [of v n] by simp
qed simp_all

lemma reqs_ok_step:
  assumes r: "reqs_ok ((p, a) # es) s v" and h: "post_same s s'" "mbx_more p s s'"
  shows "reqs_ok es (s'\<lparr>psq_count := c\<rparr>) (post_view p a s v)"
proof -
  have lv: "lv (post_view p a s v) = lv v" using lv_post_view reqs_post_ok [OF r] by blast
  have cb: "cb_type s' = cb_type s" using h(1) by (simp add: post_same_def)
  have rk: "req_kind x (s'\<lparr>psq_count := c\<rparr>) (post_view p a s v) = req_kind x s v" for x
    using lv cb by (cases x) simp_all
  have "mbx_room (count_list (map fst es) (Obj n)) n (s'\<lparr>psq_count := c\<rparr>)"
    if "Obj n \<in> fst ` set es" "cb_type s (Obj n) = MCB" for n
  proof -
    have "mbx_room (count_list (map fst es) (Obj n) + of_bool (p = Obj n)) n s"
      using r that by (cases "p = Obj n") (auto simp: reqs_ok_def)
    then have "mbx_room (count_list (map fst es) (Obj n)) n s'" using h(2) by (simp add: mbx_more_def)
    then show ?thesis using mbx_room_cong [of "s'\<lparr>psq_count := c\<rparr>" s'] by simp
  qed
  then show ?thesis using r rk cb by (auto simp: reqs_ok_def)
qed

lemma pop_req_loop_spec:
  assumes "kall s v" and "psq_ok (s\<lparr>psq_last := l\<rparr>)" and "psq_content (s\<lparr>psq_last := l\<rparr>) = es" and "reqs_ok es s v"
  shows "\<exists>l' s'. pop_req_loop (ucast l) s = Some (ucast l', s') \<and> psq_ok (s'\<lparr>psq_last := l'\<rparr>) \<and>
     psq_content (s'\<lparr>psq_last := l'\<rparr>) = [] \<and> kall s' (post_views es s v) \<and> run s' = run s"
  using assms
proof (induction es arbitrary: s v l)
  case Nil
  have "psq_count s = 0" using Nil.prems(3) psq_count_0 [of "s\<lparr>psq_last := l\<rparr>"] by simp
  then have "pop_req_loop (ucast l) s = Some (ucast l, s)" by (subst pop_req_loop.simps) simp
  then show ?case using Nil.prems by auto
next
  case (Cons e es)
  obtain p a where e: "e = (p, a)" by (cases e)
  let ?sl = "s\<lparr>psq_last := l\<rparr>"
  obtain sg where g: "psq_get ?sl = Some (e, sg)" "psq_ok sg" "psq_content sg = es"
    using psq_get_law [OF Cons.prems(2,3)] by blast
  have nz: "psq_count s \<noteq> 0" and en: "psq_q s (unat l) = (p, a)"
    and sg: "sg = s\<lparr>psq_last := psq_next ?sl, psq_count := psq_count s - 1\<rparr>"
    using g(1) e by (auto simp: psq_get_def split: if_splits)
  have pk: "post_ok p s v" using reqs_post_ok Cons.prems(4) unfolding e by blast
  obtain s' where h: "psq_handle p a s = Some s'" "post_same s s'" "mbx_more p s s'" "kall s' (post_view p a s v)"
    using psq_handle_spec [OF Cons.prems(1) pk] by blast
  let ?s1 = "s'\<lparr>psq_count := psq_count s' - 1\<rparr>"
  have ps: "psq_count s' = psq_count s" "psq_size s' = psq_size s" "psq_q s' = psq_q s" "psq_first s' = psq_first s" "run s' = run s"
    using h(2) by (simp_all add: post_same_def)
  have ls: "l < psq_size s" using Cons.prems(2) by (simp add: psq_ok_def)
  have nx: "(if ucast l + 1 = (ucast (psq_size s) :: u32) then 0 else ucast l + 1) = (ucast (psq_next ?sl) :: u32)"
  proof -
    have "psq_next ?sl = (if l + 1 = psq_size s then 0 else l + 1)" by (simp add: psq_next_def)
    then show ?thesis by (simp only: ucast_next8 [OF ls])
  qed
  have e1: "pop_req_loop (ucast l) s = pop_req_loop (ucast (psq_next ?sl)) ?s1"
    using nz h(1) nx ps by (subst pop_req_loop.simps) (simp add: en unat_ucast8 Let_def)
  have ok1: "psq_ok (?s1\<lparr>psq_last := psq_next ?sl\<rparr>)" "psq_content (?s1\<lparr>psq_last := psq_next ?sl\<rparr>) = es"
    using g(2,3) ps unfolding sg by (simp_all add: psq_ok_def psq_content_def)
  have k1: "kall ?s1 (post_view p a s v)" using h(4) by simp
  have r1: "reqs_ok es ?s1 (post_view p a s v)" using reqs_ok_step [OF _ h(2,3)] Cons.prems(4) unfolding e by blast
  obtain l' s'' where "pop_req_loop (ucast (psq_next ?sl)) ?s1 = Some (ucast l', s'')" "psq_ok (s''\<lparr>psq_last := l'\<rparr>)"
     "psq_content (s''\<lparr>psq_last := l'\<rparr>) = []" "kall s'' (post_views es ?s1 (post_view p a s v))" "run s'' = run ?s1"
    using Cons.IH [OF k1 ok1 r1] by blast
  then show ?case using e1 h(1) e ps by auto
qed

lemma rt_pop_req_spec:
  assumes k: "kabs s v" and r: "run s = cur v" and ok: "psq_ok s" and rq: "reqs_ok (psq_content s) s (all_ready v)"
  shows "\<exists>s1 s'. moved s s1 \<and> kall s1 (all_ready v) \<and> rt_pop_req s = Some s' \<and>
     kabs s' (run_next (post_views (psq_content s) s1 (all_ready v))) \<and> psq_ok s' \<and> psq_content s' = []"
proof -
  obtain s1 where e1: "(do { s \<leftarrow> wr state_update (run s) READY s; rt_put_rdy_first (run s) s }) = Some s1"
    and k1: "kall s1 (all_ready v)" and m1: "moved s s1" using suspend_refines [OF k r] by blast
  note ms = moved_sel [OF m1]
  have ok1: "psq_ok (s1\<lparr>psq_last := psq_last s1\<rparr>)" "psq_content (s1\<lparr>psq_last := psq_last s1\<rparr>) = psq_content s"
    using ok ms by (simp_all add: psq_ok_def psq_content_def)
  have "req_kind x s1 (all_ready v) = req_kind x s (all_ready v)" for x using ms by (cases x) simp_all
  then have rq1: "reqs_ok (psq_content s) s1 (all_ready v)"
    using rq ms mbx_room_cong [of s1 s] by (simp add: reqs_ok_def)
  let ?v = "post_views (psq_content s) s1 (all_ready v)"
  obtain l' s2 where e2: "pop_req_loop (ucast (psq_last s1)) s1 = Some (ucast l', s2)" "psq_ok (s2\<lparr>psq_last := l'\<rparr>)"
     "psq_content (s2\<lparr>psq_last := l'\<rparr>) = []" "kall s2 ?v" "run s2 = run s1"
    using pop_req_loop_spec [OF k1 ok1 rq1] by blast
  let ?s3 = "s2\<lparr>psq_last := l'\<rparr>"
  have "kall ?s3 ?v" using e2(4) by simp
  then obtain s' where e3: "(do { (n, s) \<leftarrow> rt_get_first Rdy ?s3; rt_switch_req n s }) = Some s'"
    "kabs s' (run_next ?v)" "moved ?s3 s'" using resume_refines by blast
  obtain s0 where "wr state_update (run s) READY s = Some s0" "rt_put_rdy_first (run s0) s0 = Some s1"
    using e1 by (auto simp: bind_eq_Some_conv)
  then have "rt_pop_req s = Some s'" using e2(1) e3(1) by (simp add: rt_pop_req_def ucast_ucast8)
  moreover have "psq_ok s'" "psq_content s' = []"
    using e2(2,3) moved_sel [OF e3(3)] by (simp_all add: psq_ok_def psq_content_def)
  ultimately show ?thesis using m1 k1 e3 by blast
qed

section \<open>The system tick\<close>

definition tick_view :: "kview \<Rightarrow> kview" where
  "tick_view v = v\<lparr>rdyq := wake_rdy (prios v) (woken (dlyq v)) (rdyq v), waitq := wake_wait (woken (dlyq v)) (waitq v),
     dlyq := tick_dly (dlyq v), parked := parked v - set (woken (dlyq v))\<rparr>"

lemma woken_tick_disjoint:
  assumes "distinct (map fst D)"
  shows "set (woken D) \<inter> fst ` set (tick_dly D) = {}"
proof -
  have "map fst D = woken D @ map fst (tick_dly D)"
    using arg_cong [OF zeros_due [of "tick1 D"], of "map fst"] by (simp add: woken_def tick_dly_def comp_def)
  then show ?thesis using assms by simp
qed

lemma tick_refines:
  assumes k: "kall s v"
  shows "\<exists>s'. rt_dec_dly s = Some s' \<and> kall s' (tick_view v) \<and> moved s s'"
proof -
  let ?D = "dlyq v" and ?w = "woken (dlyq v)"
  have L: "linv s (rdyq v) (waitq v) ?D (parked v)" and ty: "styp (state s) (rdyq v) (waitq v) ?D (parked v)"
    and pr: "prios v = prio s" and i: "os_idle_TCB \<in> set (rdyq v)" using k by (simp_all add: kall_def)
  have dj: "set (rdyq v) \<inter> fst ` set ?D = {}" using ty unfolding styp_def by blast
  let ?st = "wake_state ?w (state s)"
  obtain M where e: "rt_dec_dly s = Some (relink M (s\<lparr>state := ?st\<rparr>))"
    and L1: "linv (relink M (s\<lparr>state := ?st\<rparr>)) (wake_rdy (prio s) ?w (rdyq v)) (wake_wait ?w (waitq v)) (tick_dly ?D)
       (parked v - set ?w)"
    using rt_dec_dly_spec [OF L dj] by blast
  have dist: "distinct (map fst ?D)" using L dly_list_distinct by (auto simp: linv_def)
  have wt: "set ?w \<inter> fst ` set (tick_dly ?D) = {}" by (rule woken_tick_disjoint [OF dist])
  have ws: "t \<notin> set ?w \<Longrightarrow> ?st t = state s t" "t \<in> set ?w \<Longrightarrow> ?st t = READY" for t
    by (simp_all add: wake_state_def)
  have "styp ?st (wake_rdy (prio s) ?w (rdyq v)) (wake_wait ?w (waitq v)) (tick_dly ?D) (parked v - set ?w)"
    unfolding styp_def
  proof (intro conjI ballI allI)
    fix t assume "t \<in> set (wake_rdy (prio s) ?w (rdyq v))"
    then consider "t \<in> set ?w" | "t \<in> set (rdyq v)" "t \<notin> set ?w" by auto
    then show "?st t = READY" using ty ws unfolding styp_def by cases auto
  next
    fix t assume "t \<in> set (wake_rdy (prio s) ?w (rdyq v))"
    then consider "t \<in> set ?w" | "t \<in> set (rdyq v)" by auto
    then show "t \<notin> fst ` set (tick_dly ?D)"
    proof cases
      case 2
      then show ?thesis using dj tick_dly_subset [of ?D] by blast
    qed (use wt in blast)
  next
    fix n t assume "t \<in> set (wake_wait ?w (waitq v) n)"
    then have "t \<in> set (waitq v n)" "t \<notin> set ?w" by (auto simp: wake_wait_def)
    then show "obj_wait (?st t)" using ty ws unfolding styp_def by auto
  next
    fix t assume "t \<in> parked v - set ?w"
    then show "park_wait (?st t)" using ty ws unfolding styp_def by auto
  qed
  then have "kall (relink M (s\<lparr>state := ?st\<rparr>)) (tick_view v)"
    using L1 pr i by (simp add: kall_def tick_view_def)
  then show ?thesis using e moved_state by blast
qed

text \<open>The messages of the timers change the request queue and the pending bits only, and they all
  fit when the queue has room for one request per expired timer.\<close>

definition isr_core :: "os \<Rightarrow> os" where
  "isr_core s = s\<lparr>psq_count := 0, psq_first := 0, psq_q := (\<lambda>_. (NULL, 0)), os_psh_flag := False,
     pend_sv := False, pend_st := False\<rparr>"

definition isr_frame :: "os \<Rightarrow> os \<Rightarrow> bool" where
  "isr_frame s s' \<longleftrightarrow> isr_core s' = isr_core s"

lemma isr_frame_refl: "isr_frame s s"
  by (simp add: isr_frame_def)

lemma isr_frame_trans: "isr_frame s s1 \<Longrightarrow> isr_frame s1 s2 \<Longrightarrow> isr_frame s s2"
  by (simp add: isr_frame_def)

lemma isr_core_kall: "kall (isr_core s) v = kall s v"
  by (simp add: isr_core_def kall_kbase)

lemma isr_frame_kall: "isr_frame s s' \<Longrightarrow> kall s' v = kall s v"
  unfolding isr_frame_def by (metis isr_core_kall)

lemma isr_core_sel:
  "os_time (isr_core s) = os_time s" "run (isr_core s) = run s" "psq_last (isr_core s) = psq_last s"
  "psq_size (isr_core s) = psq_size s" "cb_type (isr_core s) = cb_type s" "callee_regs (isr_core s) = callee_regs s"
  by (simp_all add: isr_core_def)

lemma isr_frame_sel:
  assumes "isr_frame s s'"
  shows "os_time s' = os_time s" "run s' = run s" "psq_last s' = psq_last s" "psq_size s' = psq_size s" "cb_type s' = cb_type s"
    "callee_regs s' = callee_regs s"
  using assms unfolding isr_frame_def by (metis isr_core_sel)+

lemma isrMessagePut_fits:
  assumes ok: "psq_ok s" and room: "length (psq_content s) < psq_cap s"
  shows "\<exists>r s'. isrMessagePut q m w s = Some (r, s') \<and> isr_frame s s' \<and> psq_ok s' \<and> psq_cap s' = psq_cap s \<and>
     length (psq_content s') \<le> Suc (length (psq_content s))"
proof (cases "q = NULL \<or> w \<noteq> 0 \<or> cb_type s q \<noteq> MCB \<or> rt_mbx_check q s = Some 0")
  case True
  then show ?thesis using ok isr_frame_refl by (auto simp: isrMessagePut_def rt_mbx_check_def)
next
  case False
  have c: "unat (psq_count s) < unat (psq_size s)" using room by (simp add: psq_content_def psq_cap_def)
  obtain s1 where s1: "psq_put (q, m) s = Some s1" "psq_ok s1" "psq_cap s1 = psq_cap s" "psq_content s1 = psq_content s @ [(q, m)]"
    using psq_put_law [OF ok room] by blast
  have f1: "isr_frame s s1"
    using s1(1) by (clarsimp simp: rt_psq_enq_eq [OF ok c, of q m] psq_put_def isr_frame_def isr_core_def)
  let ?s' = "rt_psh_req s1"
  have f2: "isr_frame s1 ?s'" by (simp add: rt_psh_req_eq isr_frame_def isr_core_def)
  have "isrMessagePut q m w s = Some (osOK, ?s')"
    using False s1(1) by (auto simp: isrMessagePut_def isr_mbx_send_def psq_put_def rt_mbx_check_def)
  moreover have "psq_ok ?s'" "psq_cap ?s' = psq_cap s" "psq_content ?s' = psq_content s1"
    using s1(2,3) by (simp_all add: rt_psh_req_eq psq_ok_def psq_cap_def psq_content_def)
  ultimately show ?thesis using isr_frame_trans [OF f1 f2] s1(4) by simp
qed

lemma put_timer_msgs_fit:
  assumes "psq_ok s" and "length (psq_content s) + length ts \<le> psq_cap s"
  shows "\<exists>s'. put_timer_msgs ts s = Some s' \<and> isr_frame s s' \<and> psq_ok s'"
  using assms
proof (induction ts arbitrary: s)
  case Nil
  then show ?case using isr_frame_refl by auto
next
  case (Cons t ts)
  obtain r s1 where e: "isrMessagePut (osMessageQId_osTimerMessageQ s) (addr s t) 0 s = Some (r, s1)" "isr_frame s s1"
    "psq_ok s1" "psq_cap s1 = psq_cap s" "length (psq_content s1) \<le> Suc (length (psq_content s))"
    using isrMessagePut_fits [of s "osMessageQId_osTimerMessageQ s" "addr s t" 0] Cons.prems by auto
  obtain s' where "put_timer_msgs ts s1 = Some s'" "isr_frame s1 s'" "psq_ok s'"
    using Cons.IH [of s1] Cons.prems e by auto
  then show ?case using e isr_frame_trans by auto
qed

lemma kall_retimer [simp]: "kall (retimer X s) v = kall s v"
  by (simp add: retimer_def kall_kbase)

lemma tinv_cong:
  assumes "tmr_next s' = tmr_next s" "tmr_tcnt s' = tmr_tcnt s" "os_timer_head s' = os_timer_head s"
    "tmr_icnt s' = tmr_icnt s" "tmr_state s' = tmr_state s"
  shows "tinv s' T = tinv s T"
  using assms timer_list_cong [of s' s T] by (simp add: tinv_def)

lemma tinv_moved: "moved s s' \<Longrightarrow> tinv s' T = tinv s T"
  using moved_sel [of s s'] by (intro tinv_cong) simp_all

text \<open>The types of the control blocks and the state of mutexes and mailboxes, which the tick leaves alone.\<close>

definition obj_same :: "os \<Rightarrow> os \<Rightarrow> bool" where
  "obj_same s s' \<longleftrightarrow> cb_type s' = cb_type s \<and> mut_level s' = mut_level s \<and> mut_owner s' = mut_owner s \<and>
     mbx_state s' = mbx_state s \<and> mbx_first s' = mbx_first s \<and> mbx_last s' = mbx_last s \<and>
     mbx_count s' = mbx_count s \<and> mbx_size s' = mbx_size s \<and> mbx_msg s' = mbx_msg s \<and> ipsr s' = ipsr s \<and>
     os_active_TCB s' = os_active_TCB s"

lemma obj_same_trans: "obj_same s s1 \<Longrightarrow> obj_same s1 s2 \<Longrightarrow> obj_same s s2"
  by (simp add: obj_same_def)

lemma obj_same_moved: "moved s s' \<Longrightarrow> obj_same s s'"
  using moved_sel [of s s'] by (simp add: obj_same_def)

lemma obj_same_core: "obj_same (isr_core s) s" "obj_same s (isr_core s)"
  by (simp_all add: obj_same_def isr_core_def)

lemma obj_same_isr: "isr_frame s s' \<Longrightarrow> obj_same s s'"
  using obj_same_trans [OF obj_same_core(2) [of s] obj_same_core(1)] by (metis isr_frame_def obj_same_core obj_same_trans)

lemma obj_same_retimer: "obj_same s (retimer X s)"
  by (simp add: obj_same_def retimer_def)

definition robin_view :: "os \<Rightarrow> kview \<Rightarrow> kview" where
  "robin_view s v = (if slice_over s (hd (rdyq v)) then rotate v else v)"

lemma rt_systick_spec:
  assumes k: "kabs s v" and r: "run s = cur v" and tm: "tinv s T" and ok: "psq_ok s"
    and room: "length (psq_content s) + length (woken T) \<le> psq_cap s"
  shows "\<exists>s'. rt_systick s = Some s' \<and> kabs s' (run_next (tick_view (robin_view s (all_ready v)))) \<and>
     tinv s' (restart s (woken T) (tick_dly T)) \<and> psq_ok s' \<and> os_time s' = os_time s + 1 \<and>
     run s' = run s \<and> callee_regs s' = callee_regs s \<and> obj_same s s'"
proof -
  obtain s1 where e1: "(do { s \<leftarrow> wr state_update (run s) READY s; rt_put_rdy_first (run s) s }) = Some s1"
    and k1: "kall s1 (all_ready v)" and m1: "moved s s1" using suspend_refines [OF k r] by blast
  have so: "slice_over s1 = slice_over s" using moved_sel [OF m1] by (simp add: slice_over_def fun_eq_iff)
  obtain s2 where e2: "rt_chk_robin s1 = Some s2" and k2: "kall s2 (robin_view s (all_ready v))"
    and m2: "moved (s1\<lparr>robin_task := robin_task s2, robin_time := robin_time s2\<rparr>) s2"
    using rt_chk_robin_spec [OF k1] so by (auto simp: robin_view_def split: if_splits)
  let ?s2 = "s2\<lparr>os_time := os_time s2 + 1\<rparr>"
  have "kall ?s2 (robin_view s (all_ready v))" using k2 by simp
  then obtain s3 where e3: "rt_dec_dly ?s2 = Some s3" and k3: "kall s3 (tick_view (robin_view s (all_ready v)))"
    and m3: "moved ?s2 s3" using tick_refines by blast
  note ms = moved_sel [OF m1] moved_sel [OF m2] moved_sel [OF m3]
  have t3: "tinv s3 T" using tm tinv_cong [of s3 s T] ms by simp
  have ok3: "psq_ok s3" "psq_content s3 = psq_content s" "psq_cap s3 = psq_cap s"
    using ok ms by (simp_all add: psq_ok_def psq_content_def psq_cap_def)
  obtain sm where pm: "put_timer_msgs (woken T) s3 = Some sm" "isr_frame s3 sm" "psq_ok sm"
    using put_timer_msgs_fit [of s3 "woken T"] ok3 room by auto
  obtain X where e4: "sysTimerTick s3 = Some (retimer X sm)" "tinv (retimer X sm) (restart s3 (woken T) (tick_dly T))"
    using sysTimerTick_tinv [OF t3 pm(1)] by blast
  have k4: "kall (retimer X sm) (tick_view (robin_view s (all_ready v)))" using k3 isr_frame_kall [OF pm(2)] by simp
  obtain s' where e5: "(do { (n, s) \<leftarrow> rt_get_first Rdy (retimer X sm); rt_switch_req n s }) = Some s'"
    "kabs s' (run_next (tick_view (robin_view s (all_ready v))))" "moved (retimer X sm) s'"
    using resume_refines [OF k4] by blast
  obtain s0 where "wr state_update (run s) READY s = Some s0" "rt_put_rdy_first (run s0) s0 = Some s1"
    using e1 by (auto simp: bind_eq_Some_conv)
  then have "rt_systick s = Some s'" using e2 e3 e4(1) e5(1) by (simp add: rt_systick_def Let_def)
  moreover have "tmr_type s3 = tmr_type s" "tmr_icnt s3 = tmr_icnt s" using ms by simp_all
  then have "restart s3 = restart s" by (simp add: restart_def periodic_def fun_eq_iff cong: if_cong)
  then have "tinv s' (restart s (woken T) (tick_dly T))" using e4(2) tinv_moved [OF e5(3)] by simp
  moreover have "os_time s' = os_time s + 1"
    using moved_sel [OF e5(3)] isr_frame_sel [OF pm(2)] ms by (simp add: retimer_def)
  moreover have "psq_ok s'" using pm(3) moved_sel [OF e5(3)] by (simp add: psq_ok_def retimer_def)
  moreover have "run s' = run s" "callee_regs s' = callee_regs s"
    using moved_sel [OF e5(3)] isr_frame_sel [OF pm(2)] ms by (simp_all add: retimer_def)
  moreover have "obj_same s1 s2" using obj_same_moved [OF m2] by (simp add: obj_same_def)
  then have "obj_same s1 s3" using obj_same_moved [OF m3] by (simp add: obj_same_def)
  then have "obj_same s s'"
    using obj_same_moved [OF m1] obj_same_isr [OF pm(2)] obj_same_retimer [of sm X] obj_same_moved [OF e5(3)]
    by (blast intro: obj_same_trans)
  ultimately show ?thesis using e5(2) by blast
qed

end
