(* ===== verification/Cmsis_Svc.thy ===== *)
theory Cmsis_Svc
  imports Rt_System
begin

text \<open>
  The way into the kernel (\<open>HAL_CM3.s\<close>, the \<open>SVC_\<close> macros of \<open>rt_CMSIS.c\<close>): a thread calls a
  service function through the SVC exception, whose handler stores the result in the thread's
  saved frame and switches to the task the kernel chose. A thread that the kernel put to sleep
  therefore finds the result in its frame when it runs again, and whoever wakes it may have
  written another one there. Then the end of the PendSV and SysTick handlers, and what a
  switch of the context keeps.
\<close>

section \<open>Context switch\<close>

text \<open>\<open>STMDB\<close> and \<open>LDMIA\<close> of the registers R4 to R11.\<close>

fun store_words :: "u32 \<Rightarrow> u32 list \<Rightarrow> (u32 \<Rightarrow> u32) \<Rightarrow> u32 \<Rightarrow> u32" where
  "store_words a [] m = m"
| "store_words a (w # ws) m = store_words (a + 4) ws (m(a := w))"

fun load_words :: "u32 \<Rightarrow> nat \<Rightarrow> (u32 \<Rightarrow> u32) \<Rightarrow> u32 list" where
  "load_words a 0 m = []"
| "load_words a (Suc n) m = m a # load_words (a + 4) n m"

definition save_context :: "os \<Rightarrow> os option" where
  "save_context s = do {
     let sp = psp s - 32;
     let s = s\<lparr>mem := store_words sp (callee_regs s) (mem s)\<rparr>;
     s \<leftarrow> wr tsk_stack_update (run s) sp s;
     rt_stk_check s
   }"

definition restore_context :: "os \<Rightarrow> os option" where
  "restore_context s = do {
     let s = s\<lparr>run := new_tsk s\<rparr>;
     sp \<leftarrow> rd tsk_stack (run s) s;
     Some (s\<lparr>callee_regs := load_words sp 8 (mem s), psp := sp + 32\<rparr>)
   }"

text \<open>The end of the SVC handler; a deleted task has no context to save.\<close>

definition SVC_switch :: "os \<Rightarrow> os option" where
  "SVC_switch s =
     (if run s = new_tsk s then Some s
      else do {
        s \<leftarrow> (if run s = NULL then Some s else save_context s);
        restore_context s
      })"

text \<open>\<open>Sys_Switch\<close>: the end of the interrupt handlers.\<close>

definition Sys_Switch :: "os \<Rightarrow> os option" where
  "Sys_Switch s =
     (if run s = new_tsk s then Some s
      else do {
        s \<leftarrow> save_context s;
        restore_context s
      })"

definition PendSV_Handler :: "os \<Rightarrow> os option" where
  "PendSV_Handler s = do {
     s \<leftarrow> rt_pop_req s;
     Sys_Switch s
   }"

definition SysTick_Handler :: "os \<Rightarrow> os option" where
  "SysTick_Handler s = do {
     s \<leftarrow> rt_systick s;
     Sys_Switch s
   }"

section \<open>Service calls\<close>

text \<open>What a service function hands back in registers: a status or number, a pointer, or the
  members \<open>status\<close> and \<open>value\<close> of an \<open>osEvent\<close>, whose value may be left uninitialised. The
  handler also stores registers that carry nothing; the caller declares them as clobbered.\<close>

record osEvent =
  status :: u32
  ev_value :: "u32 option"

definition ptr_val :: "os \<Rightarrow> ptr \<Rightarrow> u32" where
  "ptr_val s p = (if p = NULL then 0 else addr s p)"

definition svc_call :: "(os \<Rightarrow> (u32 \<times> os) option) \<Rightarrow> os \<Rightarrow> os option" where
  "svc_call f s = do {
     (r0, s) \<leftarrow> f s;
     let s = s\<lparr>mem := (mem s)(psp s := r0)\<rparr>;
     SVC_switch s
   }"

definition svc_call_ptr :: "(os \<Rightarrow> (ptr \<times> os) option) \<Rightarrow> os \<Rightarrow> os option" where
  "svc_call_ptr f = svc_call (\<lambda>s. do { (p, s) \<leftarrow> f s; Some (ptr_val s p, s) })"

definition store_event :: "osEvent \<Rightarrow> os \<Rightarrow> os" where
  "store_event e s =
     (let s = s\<lparr>mem := (mem s)(psp s := status e)\<rparr> in
      case ev_value e of None \<Rightarrow> s | Some v \<Rightarrow> s\<lparr>mem := (mem s)(psp s + 4 := v)\<rparr>)"

definition svc_call_event :: "(os \<Rightarrow> (osEvent \<times> os) option) \<Rightarrow> os \<Rightarrow> os option" where
  "svc_call_event f s = do {
     (e, s) \<leftarrow> f s;
     SVC_switch (store_event e s)
   }"

text \<open>The outcome of a public function: it returned a value itself, or it made a service call and
  the value is in the frame of the calling thread.\<close>

datatype 'a reply = Returned 'a | In_frame

definition returned :: "('a \<times> os) option \<Rightarrow> ('a reply \<times> os) option" where
  "returned r = do { (x, s) \<leftarrow> r; Some (Returned x, s) }"

definition in_frame :: "os option \<Rightarrow> ('a reply \<times> os) option" where
  "in_frame r = do { s \<leftarrow> r; Some (In_frame, s) }"

text \<open>The tests of the public functions: in an interrupt handler; privileged and not running.\<close>

definition in_isr :: "os \<Rightarrow> bool" where
  "in_isr s \<longleftrightarrow> ipsr s \<noteq> 0"

definition privileged :: "os \<Rightarrow> bool" where
  "privileged s \<longleftrightarrow> control s AND 1 = 0"

definition before_start :: "os \<Rightarrow> bool" where
  "before_start s \<longleftrightarrow> privileged s \<and> \<not> os_running s"

section \<open>Facts\<close>

lemma length_load_words [simp]: "length (load_words a n m) = n"
  by (induction n arbitrary: a) simp_all

lemma store_words_out:
  assumes "\<And>k. k < length ws \<Longrightarrow> b \<noteq> a + 4 * of_nat k"
  shows "store_words a ws m b = m b"
  using assms
proof (induction ws arbitrary: a m)
  case Nil
  then show ?case by simp
next
  case (Cons w ws)
  have "b \<noteq> a" using Cons.prems [of 0] by simp
  have "b \<noteq> a + 4 + 4 * of_nat k" if "k < length ws" for k
    using Cons.prems [of "Suc k"] that by (simp add: algebra_simps)
  then have "store_words (a + 4) ws (m(a := w)) b = (m(a := w)) b" by (rule Cons.IH)
  also have "\<dots> = m b" using \<open>b \<noteq> a\<close> by (rule fun_upd_other)
  finally show ?case by simp
qed

lemma four_mult_word_eq:
  assumes "(4 :: u32) * of_nat i = 4 * of_nat j" and "i < 2 ^ 30" and "j < 2 ^ 30"
  shows "i = j"
proof -
  have "(of_nat (4 * i) :: u32) = of_nat (4 * j)" using assms(1) by simp
  then have "4 * i = 4 * j" using assms(2,3) by (subst (asm) of_nat_word_eq) simp_all
  then show ?thesis by simp
qed

lemma load_store_words:
  assumes "length ws < 2 ^ 30"
  shows "load_words a (length ws) (store_words a ws m) = ws"
  using assms
proof (induction ws arbitrary: a m)
  case Nil
  then show ?case by simp
next
  case (Cons w ws)
  have "a \<noteq> a + 4 + 4 * of_nat k" if "k < length ws" for k
    using four_mult_word_eq [of 0 "Suc k"] that Cons.prems by (auto simp: algebra_simps)
  then have "store_words (a + 4) ws (m(a := w)) a = w" by (subst store_words_out) simp_all
  moreover have "load_words (a + 4) (length ws) (store_words (a + 4) ws (m(a := w))) = ws"
    using Cons.IH [of "a + 4"] Cons.prems by simp
  ultimately show ?case by simp
qed

lemma load_words_cong:
  "(\<And>k. k < n \<Longrightarrow> m' (a + 4 * of_nat k) = m (a + 4 * of_nat k)) \<Longrightarrow> load_words a n m' = load_words a n m"
proof (induction n arbitrary: a)
  case (Suc n)
  have "m' (a + 4 + 4 * of_nat k) = m (a + 4 + 4 * of_nat k)" if "k < n" for k
    using Suc.prems [of "Suc k"] that by (simp add: algebra_simps)
  then show ?case using Suc.IH [of "a + 4"] Suc.prems [of 0] by simp
qed simp

lemma save_context_eq:
  "run s \<noteq> NULL \<Longrightarrow> save_context s = Some (s\<lparr>mem := store_words (psp s - 32) (callee_regs s) (mem s),
     tsk_stack := (tsk_stack s)(run s := psp s - 32)\<rparr>)"
  by (simp add: save_context_def rt_stk_check_def Let_def)

lemma restore_context_eq:
  "new_tsk s \<noteq> NULL \<Longrightarrow> restore_context s = Some (s\<lparr>run := new_tsk s,
     callee_regs := load_words (tsk_stack s (new_tsk s)) 8 (mem s), psp := tsk_stack s (new_tsk s) + 32\<rparr>)"
  by (simp add: restore_context_def Let_def)

text \<open>A task that is switched out and later switched in again, its stack untouched in between,
  has its registers R4 to R11 and its stack pointer back.\<close>

lemma switch_back:
  assumes r: "run s \<noteq> NULL" and sv: "save_context s = Some s1" and len: "length (callee_regs s) = 8"
    and st: "tsk_stack s2 (run s) = tsk_stack s1 (run s)" and nw: "new_tsk s2 = run s"
    and mm: "\<And>k. k < 8 \<Longrightarrow> mem s2 (psp s - 32 + 4 * of_nat k) = mem s1 (psp s - 32 + 4 * of_nat k)"
  shows "\<exists>s3. restore_context s2 = Some s3 \<and> run s3 = run s \<and> callee_regs s3 = callee_regs s \<and> psp s3 = psp s"
proof -
  have s1: "s1 = s\<lparr>mem := store_words (psp s - 32) (callee_regs s) (mem s), tsk_stack := (tsk_stack s)(run s := psp s - 32)\<rparr>"
    using sv save_context_eq [OF r] by simp
  then have t: "tsk_stack s2 (run s) = psp s - 32" using st by simp
  have "load_words (psp s - 32) 8 (mem s2) = load_words (psp s - 32) 8 (mem s1)"
    by (rule load_words_cong) (rule mm)
  also have "\<dots> = callee_regs s" using load_store_words [of "callee_regs s"] len by (simp add: s1)
  finally show ?thesis using restore_context_eq [of s2] r nw t by simp
qed

section \<open>What a service call does\<close>

text \<open>The value of R0 a thread has, or will have when it runs again.\<close>

definition task_r0 :: "os \<Rightarrow> ptr \<Rightarrow> u32" where
  "task_r0 s t = (if t = run s then mem s (psp s) else frame_r0 s t)"

definition task_r1 :: "os \<Rightarrow> ptr \<Rightarrow> u32" where
  "task_r1 s t = (if t = run s then mem s (psp s + 4) else frame_r1 s t)"

text \<open>A switch of the context changes the registers, the stacks and the running task only.\<close>

definition svc_core :: "os \<Rightarrow> os" where
  "svc_core s = s\<lparr>mem := (\<lambda>_. 0), tsk_stack := (\<lambda>_. 0), run := NULL, callee_regs := [], psp := 0\<rparr>"

definition svc_same :: "os \<Rightarrow> os \<Rightarrow> bool" where
  "svc_same s s' \<longleftrightarrow> svc_core s' = svc_core s"

lemma svc_core_sel:
  "tokens (svc_core s) = tokens s" "cb_type (svc_core s) = cb_type s" "mut_owner (svc_core s) = mut_owner s"
  "mut_level (svc_core s) = mut_level s" "mut_prio (svc_core s) = mut_prio s" "mbx_state (svc_core s) = mbx_state s"
  "mbx_msg (svc_core s) = mbx_msg s" "mbx_first (svc_core s) = mbx_first s" "mbx_last (svc_core s) = mbx_last s"
  "mbx_count (svc_core s) = mbx_count s" "mbx_size (svc_core s) = mbx_size s" "events (svc_core s) = events s"
  "waits (svc_core s) = waits s" "ipsr (svc_core s) = ipsr s"
  by (simp_all add: svc_core_def)

lemma svc_same_sel:
  assumes "svc_same s s'"
  shows "tokens s' = tokens s" "cb_type s' = cb_type s" "mut_owner s' = mut_owner s" "mut_level s' = mut_level s"
    "mut_prio s' = mut_prio s" "mbx_state s' = mbx_state s" "mbx_msg s' = mbx_msg s" "mbx_first s' = mbx_first s"
    "mbx_last s' = mbx_last s" "mbx_count s' = mbx_count s" "mbx_size s' = mbx_size s" "events s' = events s"
    "waits s' = waits s" "ipsr s' = ipsr s"
  using assms unfolding svc_same_def by (metis svc_core_sel)+

lemma svc_same_time:
  assumes "svc_same s s'"
  shows "os_time s' = os_time s" "tmr_next s' = tmr_next s" "tmr_tcnt s' = tmr_tcnt s" "os_timer_head s' = os_timer_head s"
    "tmr_icnt s' = tmr_icnt s" "tmr_state s' = tmr_state s"
proof -
  have "os_time (svc_core s) = os_time s" "tmr_next (svc_core s) = tmr_next s" "tmr_tcnt (svc_core s) = tmr_tcnt s"
    "os_timer_head (svc_core s) = os_timer_head s" "tmr_icnt (svc_core s) = tmr_icnt s" "tmr_state (svc_core s) = tmr_state s" for s
    by (simp_all add: svc_core_def)
  then show "os_time s' = os_time s" "tmr_next s' = tmr_next s" "tmr_tcnt s' = tmr_tcnt s" "os_timer_head s' = os_timer_head s"
    "tmr_icnt s' = tmr_icnt s" "tmr_state s' = tmr_state s" using assms unfolding svc_same_def by metis+
qed

text \<open>The words that a switch writes below the stack pointer of the running thread, and the words
  of its return value.\<close>

definition svc_words :: "os \<Rightarrow> u32 set" where
  "svc_words s = (\<lambda>k. psp s - 32 + 4 * of_nat k) ` {0..9}"

lemma svc_words_in: "k \<le> 9 \<Longrightarrow> psp s - 32 + 4 * of_nat k \<in> svc_words s"
  by (auto simp: svc_words_def)

lemma psp_frame_neq:
  assumes "k < 8"
  shows "(p :: u32) \<noteq> p - 32 + 4 * of_nat k" "p + 4 \<noteq> p - 32 + 4 * of_nat k"
proof -
  have "(32 :: u32) = 4 * of_nat 8" "(36 :: u32) = 4 * of_nat 9" by simp_all
  then show "p \<noteq> p - 32 + 4 * of_nat k" "p + 4 \<noteq> p - 32 + 4 * of_nat k"
    using four_mult_word_eq [of 8 k] four_mult_word_eq [of 9 k] assms by (auto simp: algebra_simps)
qed

lemma SVC_switch_spec:
  assumes k: "kabs s v" and r: "run s \<noteq> NULL" and len: "length (callee_regs s) = 8"
  shows "\<exists>s'. SVC_switch s = Some s' \<and> kabs s' v \<and> run s' = cur v \<and> svc_same s s' \<and> length (callee_regs s') = 8 \<and>
     (\<forall>t. task_r0 s' t = (if t = run s then mem s (psp s) else mem s' (tsk_stack s t + 32))) \<and>
     (\<forall>t. task_r1 s' t = (if t = run s then mem s (psp s + 4) else mem s' (tsk_stack s t + 36))) \<and>
     (\<forall>a. a \<notin> svc_words s \<longrightarrow> mem s' a = mem s a)"
proof -
  have n: "new_tsk s = cur v" "is_tcb (cur v)" using k kst_new kst_tcb [of "{}" s v "cur v"] by (auto simp: kabs_def)
  show ?thesis
  proof (cases "run s = new_tsk s")
    case True
    then show ?thesis using k n len by (auto simp: SVC_switch_def svc_same_def task_r0_def task_r1_def frame_r0_def frame_r1_def)
  next
    case False
    let ?m = "store_words (psp s - 32) (callee_regs s) (mem s)"
    let ?s' = "s\<lparr>mem := ?m, tsk_stack := (tsk_stack s)(run s := psp s - 32), run := cur v,
      callee_regs := load_words (tsk_stack s (cur v)) 8 ?m, psp := tsk_stack s (cur v) + 32\<rparr>"
    have "SVC_switch s = Some ?s'"
      using False r n by (simp add: SVC_switch_def save_context_eq restore_context_eq)
    moreover have "kabs ?s' v" using k by (simp add: kabs_def)
    moreover have ma: "?m a = mem s a" if "a \<notin> svc_words s" for a
      using that svc_words_in [of _ s] len by (intro store_words_out) fastforce
    moreover have m0: "?m (psp s) = mem s (psp s)" "?m (psp s + 4) = mem s (psp s + 4)"
      by (rule store_words_out; use len psp_frame_neq in auto)+
    moreover have "?m (4 + psp s) = mem s (psp s + 4)" using m0(2) by (simp add: add.commute)
    moreover have "task_r0 ?s' t = (if t = run s then mem s (psp s) else mem ?s' (tsk_stack s t + 32))" for t
      using False n m0 by (auto simp: task_r0_def frame_r0_def)
    moreover have "task_r1 ?s' t = (if t = run s then mem s (psp s + 4) else mem ?s' (tsk_stack s t + 36))" for t
      using False n \<open>?m (4 + psp s) = mem s (psp s + 4)\<close> by (auto simp: task_r1_def frame_r1_def add.assoc)
    ultimately show ?thesis by (intro exI [of _ ?s']) (simp add: svc_same_def svc_core_def)
  qed
qed

lemma svc_call_spec:
  assumes f: "f s = Some (r, s1)" and k: "kabs s1 v" and r: "run s1 \<noteq> NULL" and len: "length (callee_regs s1) = 8"
  shows "\<exists>s'. svc_call f s = Some s' \<and> kabs s' v \<and> run s' = cur v \<and> svc_same s1 s' \<and> length (callee_regs s') = 8 \<and>
     task_r0 s' (run s1) = r \<and>
     (\<forall>t. t \<noteq> run s1 \<and> tsk_stack s1 t + 32 \<notin> svc_words s1 \<longrightarrow> task_r0 s' t = frame_r0 s1 t) \<and>
     (\<forall>t. t \<noteq> run s1 \<and> tsk_stack s1 t + 36 \<notin> svc_words s1 \<longrightarrow> task_r1 s' t = frame_r1 s1 t)"
proof -
  let ?s = "s1\<lparr>mem := (mem s1)(psp s1 := r)\<rparr>"
  have "kabs ?s v" using k by (simp add: kabs_def)
  moreover have sw: "svc_words ?s = svc_words s1" by (simp add: svc_words_def)
  ultimately obtain s' where s': "SVC_switch ?s = Some s'" "kabs s' v" "run s' = cur v" "svc_same ?s s'" "length (callee_regs s') = 8"
    and r0: "\<forall>t. task_r0 s' t = (if t = run s1 then r else mem s' (tsk_stack s1 t + 32))"
    and r1: "\<forall>t. task_r1 s' t = (if t = run s1 then mem ?s (psp s1 + 4) else mem s' (tsk_stack s1 t + 36))"
    and m: "\<forall>a. a \<notin> svc_words s1 \<longrightarrow> mem s' a = mem ?s a"
    using SVC_switch_spec [of ?s v] r len by auto
  have "psp s1 \<in> svc_words s1" using svc_words_in [of 8 s1] by (simp add: algebra_simps)
  then have "\<forall>a. a \<notin> svc_words s1 \<longrightarrow> mem s' a = mem s1 a" using m by auto
  moreover have "svc_same s1 s'" using s'(4) by (simp add: svc_same_def svc_core_def)
  ultimately show ?thesis
    using s' r0 r1 f by (intro exI [of _ s']) (simp add: svc_call_def frame_r0_def frame_r1_def)
qed

end
