(* ===== verification/Cmsis_Thread.thy ===== *)
theory Cmsis_Thread
  imports Cmsis_Svc
begin

text \<open>
  Threads and delays of the CMSIS layer (\<open>rt_CMSIS.c\<close>): the service functions that run in the
  SVC handler and the public functions that check where they are called from.
\<close>

section \<open>Thread management\<close>

definition osPriorityIdle :: int where "osPriorityIdle = -3"
definition osPriorityRealtime :: int where "osPriorityRealtime = 3"
definition osPriorityError :: int where "osPriorityError = 0x84"

record thread_def =
  pthread :: u32
  tpriority :: int
  stacksize :: u32
  stack_pointer :: u32
  tcb :: ptr

text \<open>The address of \<open>osThreadExit\<close> comes from the linker.\<close>

definition svcThreadCreate :: "u32 \<Rightarrow> thread_def option \<Rightarrow> u32 \<Rightarrow> os \<Rightarrow> (ptr \<times> os) option" where
  "svcThreadCreate osThreadExit thread_def argument s =
     (case thread_def of
        None \<Rightarrow> do { s \<leftarrow> sysThreadError osErrorParameter s; Some (NULL, s) }
      | Some d \<Rightarrow>
          if pthread d = 0 \<or> tpriority d < osPriorityIdle \<or> osPriorityRealtime < tpriority d \<or>
             stacksize d = 0 \<or> stack_pointer d = 0
          then do { s \<leftarrow> sysThreadError osErrorParameter s; Some (NULL, s) }
          else do {
            let priority = (word_of_int (tpriority d - osPriorityIdle + 1) :: u8);
            let task_context = tcb d;
            s \<leftarrow> wr stack_update task_context (stack_pointer d) s;
            s \<leftarrow> wr priv_stack_update task_context (stacksize d) s;
            let tsk = rt_get_TID s;
            s \<leftarrow> act_set (tsk - 1) task_context s;
            s \<leftarrow> wr task_id_update task_context (ucast tsk) s;
            s \<leftarrow> wr msg_update task_context argument s;
            s \<leftarrow> rt_init_context task_context priority (pthread d) s;
            s \<leftarrow> rt_dispatch task_context s;
            ptcb \<leftarrow> act_get (tsk - 1) s;
            sp \<leftarrow> rd tsk_stack ptcb s;
            let s = s\<lparr>mem := (mem s)(sp + 4 * 13 := osThreadExit)\<rparr>;
            Some (ptcb, s)
          })"

definition svcThreadGetId :: "os \<Rightarrow> (ptr \<times> os) option" where
  "svcThreadGetId s =
     (let tsk = rt_tsk_self s in
      if tsk = 0 then Some (NULL, s)
      else do {
        p \<leftarrow> act_get (tsk - 1) s;
        Some (p, s)
      })"

definition svcThreadTerminate :: "ptr \<Rightarrow> os \<Rightarrow> (u32 \<times> os) option" where
  "svcThreadTerminate thread_id s =
     (let ptcb = rt_tid2ptcb thread_id s in
      if ptcb = NULL then Some (osErrorParameter, s)
      else do {
        i \<leftarrow> rd task_id ptcb s;
        (res, s) \<leftarrow> rt_tsk_delete (ucast i) s;
        if res = OS_R_NOK then Some (osErrorResource, s) else Some (osOK, s)
      })"

definition svcThreadYield :: "os \<Rightarrow> (u32 \<times> os) option" where
  "svcThreadYield s = do {
     s \<leftarrow> rt_tsk_pass s;
     Some (osOK, s)
   }"

definition svcThreadSetPriority :: "ptr \<Rightarrow> int \<Rightarrow> os \<Rightarrow> (u32 \<times> os) option" where
  "svcThreadSetPriority thread_id priority s =
     (let ptcb = rt_tid2ptcb thread_id s in
      if ptcb = NULL then Some (osErrorParameter, s)
      else if priority < osPriorityIdle \<or> osPriorityRealtime < priority then Some (osErrorValue, s)
      else do {
        i \<leftarrow> rd task_id ptcb s;
        (res, s) \<leftarrow> rt_tsk_prio (ucast i) (word_of_int (priority - osPriorityIdle + 1)) s;
        if res = OS_R_NOK then Some (osErrorResource, s) else Some (osOK, s)
      })"

definition svcThreadGetPriority :: "ptr \<Rightarrow> os \<Rightarrow> (int \<times> os) option" where
  "svcThreadGetPriority thread_id s =
     (let ptcb = rt_tid2ptcb thread_id s in
      if ptcb = NULL then Some (osPriorityError, s)
      else do {
        pr \<leftarrow> rd prio ptcb s;
        Some (uint pr - 1 + osPriorityIdle, s)
      })"

section \<open>Public functions for threads\<close>

definition osThreadCreate :: "u32 \<Rightarrow> thread_def option \<Rightarrow> u32 \<Rightarrow> os \<Rightarrow> (ptr reply \<times> os) option" where
  "osThreadCreate osThreadExit thread_def argument s =
     (if in_isr s then Some (Returned NULL, s)
      else if before_start s then returned (svcThreadCreate osThreadExit thread_def argument s)
      else in_frame (svc_call_ptr (svcThreadCreate osThreadExit thread_def argument) s))"

definition osThreadGetId :: "os \<Rightarrow> (ptr reply \<times> os) option" where
  "osThreadGetId s = (if in_isr s then Some (Returned NULL, s) else in_frame (svc_call_ptr svcThreadGetId s))"

definition osThreadTerminate :: "ptr \<Rightarrow> os \<Rightarrow> (u32 reply \<times> os) option" where
  "osThreadTerminate thread_id s =
     (if in_isr s then Some (Returned osErrorISR, s) else in_frame (svc_call (svcThreadTerminate thread_id) s))"

definition osThreadYield :: "os \<Rightarrow> (u32 reply \<times> os) option" where
  "osThreadYield s = (if in_isr s then Some (Returned osErrorISR, s) else in_frame (svc_call svcThreadYield s))"

definition osThreadSetPriority :: "ptr \<Rightarrow> int \<Rightarrow> os \<Rightarrow> (u32 reply \<times> os) option" where
  "osThreadSetPriority thread_id priority s =
     (if in_isr s then Some (Returned osErrorISR, s)
      else in_frame (svc_call (svcThreadSetPriority thread_id priority) s))"

definition osThreadGetPriority :: "ptr \<Rightarrow> os \<Rightarrow> (int reply \<times> os) option" where
  "osThreadGetPriority thread_id s =
     (if in_isr s then Some (Returned osPriorityError, s)
      else in_frame (svc_call (\<lambda>s. do { (p, s) \<leftarrow> svcThreadGetPriority thread_id s; Some (word_of_int p, s) }) s))"

section \<open>Delays\<close>

definition svcDelay :: "u32 \<Rightarrow> os \<Rightarrow> (u32 \<times> os) option" where
  "svcDelay millisec s =
     (if millisec = 0 then Some (osOK, s)
      else do {
        s \<leftarrow> rt_dly_wait (ucast (rt_ms2tick millisec)) s;
        Some (osEventTimeout, s)
      })"

definition osDelay :: "u32 \<Rightarrow> os \<Rightarrow> (u32 reply \<times> os) option" where
  "osDelay millisec s =
     (if in_isr s then Some (Returned osErrorISR, s) else in_frame (svc_call (svcDelay millisec) s))"

text \<open>The build has no generic wait.\<close>

definition osWait :: "u32 \<Rightarrow> os \<Rightarrow> (osEvent reply \<times> os) option" where
  "osWait millisec s = Some (Returned \<lparr>status = osErrorOS, ev_value = None\<rparr>, s)"

section \<open>Public functions for timers\<close>

definition osTimerCreate :: "timer_def option \<Rightarrow> u32 \<Rightarrow> u32 \<Rightarrow> os \<Rightarrow> (ptr reply \<times> os) option" where
  "osTimerCreate timer_def type argument s =
     (if in_isr s then Some (Returned NULL, s)
      else if before_start s then returned (svcTimerCreate timer_def type argument s)
      else in_frame (svc_call_ptr (svcTimerCreate timer_def type argument) s))"

definition osTimerStart :: "ptr \<Rightarrow> u32 \<Rightarrow> os \<Rightarrow> (u32 reply \<times> os) option" where
  "osTimerStart timer_id millisec s =
     (if in_isr s then Some (Returned osErrorISR, s) else in_frame (svc_call (svcTimerStart timer_id millisec) s))"

definition osTimerStop :: "ptr \<Rightarrow> os \<Rightarrow> (u32 reply \<times> os) option" where
  "osTimerStop timer_id s =
     (if in_isr s then Some (Returned osErrorISR, s) else in_frame (svc_call (svcTimerStop timer_id) s))"

definition osTimerDelete :: "ptr \<Rightarrow> os \<Rightarrow> (u32 reply \<times> os) option" where
  "osTimerDelete timer_id s =
     (if in_isr s then Some (Returned osErrorISR, s) else in_frame (svc_call (svcTimerDelete timer_id) s))"

end
