(* ===== verification/Cmsis_Sync.thy ===== *)
theory Cmsis_Sync
  imports Cmsis_Svc
begin

text \<open>
  Signals, mutexes and semaphores of the CMSIS layer (\<open>rt_CMSIS.c\<close>): the checks of the arguments, the
  calls of the kernel and the translation of its results.
\<close>

section \<open>Signals\<close>

definition sig_error :: u32 where "sig_error = 0x80000000"

text \<open>\<open>signals & (0xFFFFFFFF << osFeature_Signals)\<close>\<close>

definition sig_invalid :: "u32 \<Rightarrow> bool" where
  "sig_invalid signals \<longleftrightarrow> signals AND push_bit 16 0xFFFFFFFF \<noteq> 0"

definition svcSignalSet :: "ptr \<Rightarrow> u32 \<Rightarrow> os \<Rightarrow> (u32 \<times> os) option" where
  "svcSignalSet thread_id signals s =
     (let ptcb = rt_tid2ptcb thread_id s in
      if ptcb = NULL then Some (sig_error, s)
      else if sig_invalid signals then Some (sig_error, s)
      else do {
        sig \<leftarrow> rd events ptcb s;
        s \<leftarrow> rt_evt_set (ucast signals) (ucast (task_id s ptcb)) s;
        Some (ucast sig, s)
      })"

definition svcSignalClear :: "ptr \<Rightarrow> u32 \<Rightarrow> os \<Rightarrow> (u32 \<times> os) option" where
  "svcSignalClear thread_id signals s =
     (let ptcb = rt_tid2ptcb thread_id s in
      if ptcb = NULL then Some (sig_error, s)
      else if sig_invalid signals then Some (sig_error, s)
      else do {
        sig \<leftarrow> rd events ptcb s;
        s \<leftarrow> rt_evt_clr (ucast signals) (ucast (task_id s ptcb)) s;
        Some (ucast sig, s)
      })"

definition svcSignalGet :: "ptr \<Rightarrow> os \<Rightarrow> (u32 \<times> os) option" where
  "svcSignalGet thread_id s =
     (let ptcb = rt_tid2ptcb thread_id s in
      if ptcb = NULL then Some (sig_error, s)
      else do {
        sig \<leftarrow> rd events ptcb s;
        Some (ucast sig, s)
      })"

definition svcSignalWait :: "u32 \<Rightarrow> u32 \<Rightarrow> os \<Rightarrow> (osEvent \<times> os) option" where
  "svcSignalWait signals millisec s =
     (if sig_invalid signals then Some (\<lparr>status = osErrorValue, ev_value = None\<rparr>, s)
      else do {
        (res, s) \<leftarrow> (if signals \<noteq> 0 then rt_evt_wait (ucast signals) (ucast (rt_ms2tick millisec)) True s
                     else rt_evt_wait 0xFFFF (ucast (rt_ms2tick millisec)) False s);
        if res = OS_R_EVT then do {
          w \<leftarrow> (if signals \<noteq> 0 then Some signals else do { w \<leftarrow> rd waits (run s) s; Some (ucast w) });
          Some (\<lparr>status = osEventSignal, ev_value = Some w\<rparr>, s)
        }
        else Some (\<lparr>status = (if millisec \<noteq> 0 then osEventTimeout else osOK), ev_value = Some 0\<rparr>, s)
      })"

definition isrSignalSet :: "ptr \<Rightarrow> u32 \<Rightarrow> os \<Rightarrow> (u32 \<times> os) option" where
  "isrSignalSet thread_id signals s =
     (let ptcb = rt_tid2ptcb thread_id s in
      if ptcb = NULL then Some (sig_error, s)
      else if sig_invalid signals then Some (sig_error, s)
      else do {
        sig \<leftarrow> rd events ptcb s;
        s \<leftarrow> isr_evt_set (ucast signals) (ucast (task_id s ptcb)) s;
        Some (ucast sig, s)
      })"

definition osSignalSet :: "ptr \<Rightarrow> u32 \<Rightarrow> os \<Rightarrow> (u32 reply \<times> os) option" where
  "osSignalSet thread_id signals s =
     (if in_isr s then returned (isrSignalSet thread_id signals s)
      else in_frame (svc_call (svcSignalSet thread_id signals) s))"

definition osSignalClear :: "ptr \<Rightarrow> u32 \<Rightarrow> os \<Rightarrow> (u32 reply \<times> os) option" where
  "osSignalClear thread_id signals s =
     (if in_isr s then Some (Returned osErrorISR, s)
      else in_frame (svc_call (svcSignalClear thread_id signals) s))"

definition osSignalGet :: "ptr \<Rightarrow> os \<Rightarrow> (u32 reply \<times> os) option" where
  "osSignalGet thread_id s =
     (if in_isr s then Some (Returned osErrorISR, s) else in_frame (svc_call (svcSignalGet thread_id) s))"

definition osSignalWait :: "u32 \<Rightarrow> u32 \<Rightarrow> os \<Rightarrow> (osEvent reply \<times> os) option" where
  "osSignalWait signals millisec s =
     (if in_isr s then Some (Returned \<lparr>status = osErrorISR, ev_value = None\<rparr>, s)
      else in_frame (svc_call_event (svcSignalWait signals millisec) s))"

section \<open>Mutexes\<close>

text \<open>A mutex definition is a structure with the pointer to the control block; \<open>None\<close> is the null
  pointer in place of the definition.\<close>

definition svcMutexCreate :: "ptr option \<Rightarrow> os \<Rightarrow> (ptr \<times> os) option" where
  "svcMutexCreate mutex_def s =
     (case mutex_def of
        None \<Rightarrow> do { s \<leftarrow> sysThreadError osErrorParameter s; Some (NULL, s) }
      | Some mut \<Rightarrow>
          if mut = NULL then do { s \<leftarrow> sysThreadError osErrorParameter s; Some (NULL, s) }
          else do {
            ct \<leftarrow> rd cb_type mut s;
            if ct \<noteq> 0 then do { s \<leftarrow> sysThreadError osErrorParameter s; Some (NULL, s) }
            else do {
              s \<leftarrow> rt_mut_init mut s;
              Some (mut, s)
            }
          })"

definition svcMutexWait :: "ptr \<Rightarrow> u32 \<Rightarrow> os \<Rightarrow> (u32 \<times> os) option" where
  "svcMutexWait mutex_id millisec s =
     (let mut = rt_id2obj mutex_id in
      if mut = NULL then Some (osErrorParameter, s)
      else if cb_type s mut \<noteq> MUCB then Some (osErrorParameter, s)
      else do {
        (res, s) \<leftarrow> rt_mut_wait mut (ucast (rt_ms2tick millisec)) s;
        if res = OS_R_TMO then Some (if millisec \<noteq> 0 then osErrorTimeoutResource else osErrorResource, s)
        else Some (osOK, s)
      })"

definition svcMutexRelease :: "ptr \<Rightarrow> os \<Rightarrow> (u32 \<times> os) option" where
  "svcMutexRelease mutex_id s =
     (let mut = rt_id2obj mutex_id in
      if mut = NULL then Some (osErrorParameter, s)
      else if cb_type s mut \<noteq> MUCB then Some (osErrorParameter, s)
      else do {
        (res, s) \<leftarrow> rt_mut_release mut s;
        if res = OS_R_NOK then Some (osErrorResource, s) else Some (osOK, s)
      })"

definition svcMutexDelete :: "ptr \<Rightarrow> os \<Rightarrow> (u32 \<times> os) option" where
  "svcMutexDelete mutex_id s =
     (let mut = rt_id2obj mutex_id in
      if mut = NULL then Some (osErrorParameter, s)
      else if cb_type s mut \<noteq> MUCB then Some (osErrorParameter, s)
      else do {
        (_, s) \<leftarrow> rt_mut_delete mut s;
        Some (osOK, s)
      })"

definition osMutexCreate :: "ptr option \<Rightarrow> os \<Rightarrow> (ptr reply \<times> os) option" where
  "osMutexCreate mutex_def s =
     (if in_isr s then Some (Returned NULL, s)
      else if before_start s then returned (svcMutexCreate mutex_def s)
      else in_frame (svc_call_ptr (svcMutexCreate mutex_def) s))"

definition osMutexWait :: "ptr \<Rightarrow> u32 \<Rightarrow> os \<Rightarrow> (u32 reply \<times> os) option" where
  "osMutexWait mutex_id millisec s =
     (if in_isr s then Some (Returned osErrorISR, s) else in_frame (svc_call (svcMutexWait mutex_id millisec) s))"

definition osMutexRelease :: "ptr \<Rightarrow> os \<Rightarrow> (u32 reply \<times> os) option" where
  "osMutexRelease mutex_id s =
     (if in_isr s then Some (Returned osErrorISR, s) else in_frame (svc_call (svcMutexRelease mutex_id) s))"

definition osMutexDelete :: "ptr \<Rightarrow> os \<Rightarrow> (u32 reply \<times> os) option" where
  "osMutexDelete mutex_id s =
     (if in_isr s then Some (Returned osErrorISR, s) else in_frame (svc_call (svcMutexDelete mutex_id) s))"

section \<open>Semaphores\<close>

definition osFeature_Semaphore :: u16 where "osFeature_Semaphore = 65535"

text \<open>The count is a signed number and is compared as one.\<close>

definition svcSemaphoreCreate :: "ptr option \<Rightarrow> u32 \<Rightarrow> os \<Rightarrow> (ptr \<times> os) option" where
  "svcSemaphoreCreate semaphore_def count s =
     (case semaphore_def of
        None \<Rightarrow> do { s \<leftarrow> sysThreadError osErrorParameter s; Some (NULL, s) }
      | Some sem \<Rightarrow>
          if sem = NULL then do { s \<leftarrow> sysThreadError osErrorParameter s; Some (NULL, s) }
          else do {
            ct \<leftarrow> rd cb_type sem s;
            if ct \<noteq> 0 then do { s \<leftarrow> sysThreadError osErrorParameter s; Some (NULL, s) }
            else if uint osFeature_Semaphore < sint count
            then do { s \<leftarrow> sysThreadError osErrorValue s; Some (NULL, s) }
            else do {
              s \<leftarrow> rt_sem_init sem (ucast count) s;
              Some (sem, s)
            }
          })"

definition svcSemaphoreWait :: "ptr \<Rightarrow> u32 \<Rightarrow> os \<Rightarrow> (u32 \<times> os) option" where
  "svcSemaphoreWait semaphore_id millisec s =
     (let sem = rt_id2obj semaphore_id in
      if sem = NULL then Some (- 1, s)
      else if cb_type s sem \<noteq> SCB then Some (- 1, s)
      else do {
        (res, s) \<leftarrow> rt_sem_wait sem (ucast (rt_ms2tick millisec)) s;
        if res = OS_R_TMO then Some (0, s)
        else Some (ucast (tokens s sem) + 1, s)
      })"

definition svcSemaphoreRelease :: "ptr \<Rightarrow> os \<Rightarrow> (u32 \<times> os) option" where
  "svcSemaphoreRelease semaphore_id s =
     (let sem = rt_id2obj semaphore_id in
      if sem = NULL then Some (osErrorParameter, s)
      else if cb_type s sem \<noteq> SCB then Some (osErrorParameter, s)
      else if tokens s sem = osFeature_Semaphore then Some (osErrorResource, s)
      else do {
        (_, s) \<leftarrow> rt_sem_send sem s;
        Some (osOK, s)
      })"

definition svcSemaphoreDelete :: "ptr \<Rightarrow> os \<Rightarrow> (u32 \<times> os) option" where
  "svcSemaphoreDelete semaphore_id s =
     (let sem = rt_id2obj semaphore_id in
      if sem = NULL then Some (osErrorParameter, s)
      else if cb_type s sem \<noteq> SCB then Some (osErrorParameter, s)
      else do {
        (_, s) \<leftarrow> rt_sem_delete sem s;
        Some (osOK, s)
      })"

definition isrSemaphoreRelease :: "ptr \<Rightarrow> os \<Rightarrow> (u32 \<times> os) option" where
  "isrSemaphoreRelease semaphore_id s =
     (let sem = rt_id2obj semaphore_id in
      if sem = NULL then Some (osErrorParameter, s)
      else if cb_type s sem \<noteq> SCB then Some (osErrorParameter, s)
      else if tokens s sem = osFeature_Semaphore then Some (osErrorResource, s)
      else do {
        s \<leftarrow> isr_sem_send sem s;
        Some (osOK, s)
      })"

definition osSemaphoreCreate :: "ptr option \<Rightarrow> u32 \<Rightarrow> os \<Rightarrow> (ptr reply \<times> os) option" where
  "osSemaphoreCreate semaphore_def count s =
     (if in_isr s then Some (Returned NULL, s)
      else if before_start s then returned (svcSemaphoreCreate semaphore_def count s)
      else in_frame (svc_call_ptr (svcSemaphoreCreate semaphore_def count) s))"

definition osSemaphoreWait :: "ptr \<Rightarrow> u32 \<Rightarrow> os \<Rightarrow> (u32 reply \<times> os) option" where
  "osSemaphoreWait semaphore_id millisec s =
     (if in_isr s then Some (Returned (- 1), s) else in_frame (svc_call (svcSemaphoreWait semaphore_id millisec) s))"

definition osSemaphoreRelease :: "ptr \<Rightarrow> os \<Rightarrow> (u32 reply \<times> os) option" where
  "osSemaphoreRelease semaphore_id s =
     (if in_isr s then returned (isrSemaphoreRelease semaphore_id s)
      else in_frame (svc_call (svcSemaphoreRelease semaphore_id) s))"

definition osSemaphoreDelete :: "ptr \<Rightarrow> os \<Rightarrow> (u32 reply \<times> os) option" where
  "osSemaphoreDelete semaphore_id s =
     (if in_isr s then Some (Returned osErrorISR, s) else in_frame (svc_call (svcSemaphoreDelete semaphore_id) s))"

end
