(* ===== verification/Cmsis_Queue.thy ===== *)
theory Cmsis_Queue
  imports Cmsis_Svc
begin

text \<open>
  Memory pools, message queues and mail queues of the CMSIS layer (\<open>rt_CMSIS.c\<close>). A mail queue is a
  message queue together with a memory pool: a mail is a block of the pool whose address is the
  message.
\<close>

section \<open>Memory pools\<close>

record pool_def =
  pool_sz :: u32
  item_sz :: u32
  pool :: u32

definition rt_clr_box :: "u32 \<Rightarrow> u32 \<Rightarrow> os \<Rightarrow> os option" where
  "rt_clr_box box_mem box s =
     (if box \<noteq> 0 then do {
        m \<leftarrow> clr_box_loop (mem s (box_mem + 8)) box (mem s);
        Some (s\<lparr>mem := m\<rparr>)
      }
      else Some s)"

definition svcPoolCreate :: "pool_def option \<Rightarrow> os \<Rightarrow> (u32 \<times> os) option" where
  "svcPoolCreate pool_def s =
     (case pool_def of
        None \<Rightarrow> do { s \<leftarrow> sysThreadError osErrorParameter s; Some (0, s) }
      | Some d \<Rightarrow>
          if pool_sz d = 0 \<or> item_sz d = 0 \<or> pool d = 0
          then do { s \<leftarrow> sysThreadError osErrorParameter s; Some (0, s) }
          else do {
            let blk_sz = (item_sz d + 3) AND NOT 3;
            (_, s) \<leftarrow> init_box (pool d) (sizeof_OS_BM + pool_sz d * blk_sz) blk_sz s;
            Some (pool d, s)
          })"

definition sysPoolAlloc :: "u32 \<Rightarrow> u32 \<Rightarrow> os \<Rightarrow> (u32 \<times> os) option" where
  "sysPoolAlloc pool_id clr s =
     (if pool_id = 0 then Some (0, s)
      else do {
        let (p, s) = rt_alloc_box pool_id s;
        s \<leftarrow> (if clr \<noteq> 0 then rt_clr_box pool_id p s else Some s);
        Some (p, s)
      })"

definition sysPoolFree :: "u32 \<Rightarrow> u32 \<Rightarrow> os \<Rightarrow> (u32 \<times> os) option" where
  "sysPoolFree pool_id block s =
     (if pool_id = 0 then Some (osErrorParameter, s)
      else
        let (res, s) = rt_free_box pool_id block s in
        if res \<noteq> 0 then Some (osErrorValue, s) else Some (osOK, s))"

definition osPoolCreate :: "pool_def option \<Rightarrow> os \<Rightarrow> (u32 reply \<times> os) option" where
  "osPoolCreate pool_def s =
     (if in_isr s then Some (Returned 0, s)
      else if before_start s then returned (svcPoolCreate pool_def s)
      else in_frame (svc_call (svcPoolCreate pool_def) s))"

definition osPoolAlloc :: "u32 \<Rightarrow> os \<Rightarrow> (u32 reply \<times> os) option" where
  "osPoolAlloc pool_id s =
     (if in_isr s \<or> privileged s then returned (sysPoolAlloc pool_id 0 s)
      else in_frame (svc_call (sysPoolAlloc pool_id 0) s))"

definition osPoolCAlloc :: "u32 \<Rightarrow> os \<Rightarrow> (u32 reply \<times> os) option" where
  "osPoolCAlloc pool_id s =
     (if in_isr s \<or> privileged s then returned (sysPoolAlloc pool_id 1 s)
      else in_frame (svc_call (sysPoolAlloc pool_id 1) s))"

definition osPoolFree :: "u32 \<Rightarrow> u32 \<Rightarrow> os \<Rightarrow> (u32 reply \<times> os) option" where
  "osPoolFree pool_id block s =
     (if in_isr s \<or> privileged s then returned (sysPoolFree pool_id block s)
      else in_frame (svc_call (sysPoolFree pool_id block) s))"

section \<open>Message queues\<close>

record messageQ_def =
  queue_sz :: u32
  mq_pool :: ptr

definition svcMessageCreate :: "messageQ_def option \<Rightarrow> ptr \<Rightarrow> os \<Rightarrow> (ptr \<times> os) option" where
  "svcMessageCreate queue_def thread_id s =
     (case queue_def of
        None \<Rightarrow> do { s \<leftarrow> sysThreadError osErrorParameter s; Some (NULL, s) }
      | Some d \<Rightarrow>
          if queue_sz d = 0 \<or> mq_pool d = NULL
          then do { s \<leftarrow> sysThreadError osErrorParameter s; Some (NULL, s) }
          else do {
            ct \<leftarrow> rd cb_type (mq_pool d) s;
            if ct \<noteq> 0 then do { s \<leftarrow> sysThreadError osErrorParameter s; Some (NULL, s) }
            else do {
              s \<leftarrow> rt_mbx_init (mq_pool d) (ucast (4 * (queue_sz d + 4))) s;
              Some (mq_pool d, s)
            }
          })"

definition svcMessagePut :: "ptr \<Rightarrow> u32 \<Rightarrow> u32 \<Rightarrow> os \<Rightarrow> (u32 \<times> os) option" where
  "svcMessagePut queue_id info millisec s =
     (if queue_id = NULL then Some (osErrorParameter, s)
      else if cb_type s queue_id \<noteq> MCB then Some (osErrorParameter, s)
      else do {
        (res, s) \<leftarrow> rt_mbx_send queue_id info (ucast (rt_ms2tick millisec)) s;
        if res = OS_R_TMO then Some (if millisec \<noteq> 0 then osErrorTimeoutResource else osErrorResource, s)
        else Some (osOK, s)
      })"

definition svcMessageGet :: "ptr \<Rightarrow> u32 \<Rightarrow> os \<Rightarrow> (osEvent \<times> os) option" where
  "svcMessageGet queue_id millisec s =
     (if queue_id = NULL then Some (\<lparr>status = osErrorParameter, ev_value = None\<rparr>, s)
      else if cb_type s queue_id \<noteq> MCB then Some (\<lparr>status = osErrorParameter, ev_value = None\<rparr>, s)
      else do {
        (res, v, s) \<leftarrow> rt_mbx_wait queue_id (ucast (rt_ms2tick millisec)) s;
        if res = OS_R_TMO then Some (\<lparr>status = (if millisec \<noteq> 0 then osEventTimeout else osOK), ev_value = v\<rparr>, s)
        else Some (\<lparr>status = osEventMessage, ev_value = v\<rparr>, s)
      })"

definition isrMessageGet :: "ptr \<Rightarrow> u32 \<Rightarrow> os \<Rightarrow> (osEvent \<times> os) option" where
  "isrMessageGet queue_id millisec s =
     (if queue_id = NULL \<or> millisec \<noteq> 0 then Some (\<lparr>status = osErrorParameter, ev_value = None\<rparr>, s)
      else if cb_type s queue_id \<noteq> MCB then Some (\<lparr>status = osErrorParameter, ev_value = None\<rparr>, s)
      else do {
        (res, v, s) \<leftarrow> isr_mbx_receive queue_id s;
        if res \<noteq> OS_R_MBX then Some (\<lparr>status = osOK, ev_value = v\<rparr>, s)
        else Some (\<lparr>status = osEventMessage, ev_value = v\<rparr>, s)
      })"

definition osMessageCreate :: "messageQ_def option \<Rightarrow> ptr \<Rightarrow> os \<Rightarrow> (ptr reply \<times> os) option" where
  "osMessageCreate queue_def thread_id s =
     (if in_isr s then Some (Returned NULL, s)
      else if before_start s then returned (svcMessageCreate queue_def thread_id s)
      else in_frame (svc_call_ptr (svcMessageCreate queue_def thread_id) s))"

definition osMessagePut :: "ptr \<Rightarrow> u32 \<Rightarrow> u32 \<Rightarrow> os \<Rightarrow> (u32 reply \<times> os) option" where
  "osMessagePut queue_id info millisec s =
     (if in_isr s then returned (isrMessagePut queue_id info millisec s)
      else in_frame (svc_call (svcMessagePut queue_id info millisec) s))"

definition osMessageGet :: "ptr \<Rightarrow> u32 \<Rightarrow> os \<Rightarrow> (osEvent reply \<times> os) option" where
  "osMessageGet queue_id millisec s =
     (if in_isr s then returned (isrMessageGet queue_id millisec s)
      else in_frame (svc_call_event (svcMessageGet queue_id millisec) s))"

section \<open>Mail queues\<close>

text \<open>A mail queue identifier points at two words: the message queue and the pool. The record has
  that address and what the words hold; \<open>None\<close> is the null pointer.\<close>

record mailQ =
  mq_addr :: u32
  mq_mcb :: ptr
  mq_box :: u32

record mailQ_def =
  mail_sz :: u32
  mail_item_sz :: u32
  mail_pool :: "mailQ option"

definition mailQ_val :: "mailQ option \<Rightarrow> u32" where
  "mailQ_val q = (case q of None \<Rightarrow> 0 | Some q \<Rightarrow> mq_addr q)"

definition svcMailCreate :: "mailQ_def option \<Rightarrow> ptr \<Rightarrow> os \<Rightarrow> (mailQ option \<times> os) option" where
  "svcMailCreate queue_def thread_id s =
     (case queue_def of
        None \<Rightarrow> do { s \<leftarrow> sysThreadError osErrorParameter s; Some (None, s) }
      | Some d \<Rightarrow>
        (case mail_pool d of
           None \<Rightarrow> do { s \<leftarrow> sysThreadError osErrorParameter s; Some (None, s) }
         | Some q \<Rightarrow>
             if mail_sz d = 0 \<or> mail_item_sz d = 0
             then do { s \<leftarrow> sysThreadError osErrorParameter s; Some (None, s) }
             else if mq_box q = 0 \<or> mq_mcb q = NULL \<or> cb_type s (mq_mcb q) \<noteq> 0
             then do { s \<leftarrow> sysThreadError osErrorParameter s; Some (None, s) }
             else do {
               let blk_sz = (mail_item_sz d + 3) AND NOT 3;
               (_, s) \<leftarrow> init_box (mq_box q) (sizeof_OS_BM + mail_sz d * blk_sz) blk_sz s;
               s \<leftarrow> rt_mbx_init (mq_mcb q) (ucast (4 * (mail_sz d + 4))) s;
               Some (Some q, s)
             }))"

text \<open>The part of \<open>sysMailAlloc\<close> that puts the caller to sleep.\<close>

definition mail_sleep :: "ptr \<Rightarrow> u32 \<Rightarrow> os \<Rightarrow> os option" where
  "mail_sleep pmcb millisec s = do {
     lnk \<leftarrow> rd p_lnk pmcb s;
     s \<leftarrow> (if lnk \<noteq> NULL then rt_put_prio pmcb (run s) s
           else do {
             s \<leftarrow> wr p_lnk_update pmcb (run s) s;
             s \<leftarrow> wr p_lnk_update (run s) NULL s;
             s \<leftarrow> wr p_rlnk_update (run s) pmcb s;
             wr mbx_state_update pmcb 3 s
           });
     rt_block (ucast (rt_ms2tick millisec)) WAIT_MBX s
   }"

definition sysMailAlloc :: "mailQ option \<Rightarrow> u32 \<Rightarrow> u32 \<Rightarrow> u32 \<Rightarrow> os \<Rightarrow> (u32 \<times> os) option" where
  "sysMailAlloc queue_id millisec isr clr s =
     (case queue_id of
        None \<Rightarrow> Some (0, s)
      | Some q \<Rightarrow>
          if mq_box q = 0 \<or> mq_mcb q = NULL then Some (0, s)
          else if isr \<noteq> 0 \<and> millisec \<noteq> 0 then Some (0, s)
          else do {
            let (m, s) = rt_alloc_box (mq_box q) s;
            s \<leftarrow> (if clr \<noteq> 0 then rt_clr_box (mq_box q) m s else Some s);
            s \<leftarrow> (if m = 0 \<and> millisec \<noteq> 0 then mail_sleep (mq_mcb q) millisec s else Some s);
            Some (m, s)
          })"

text \<open>The part of \<open>sysMailFree\<close> that hands the block to a waiting thread.\<close>

definition mail_handover :: "ptr \<Rightarrow> u32 \<Rightarrow> os \<Rightarrow> os option" where
  "mail_handover pmcb box s =
     (let (m, s) = rt_alloc_box box s in
      if m \<noteq> 0 then do {
        (ptcb, s) \<leftarrow> rt_get_first pmcb s;
        lnk \<leftarrow> rd p_lnk pmcb s;
        s \<leftarrow> (if lnk = NULL then wr mbx_state_update pmcb 0 s else Some s);
        s \<leftarrow> rt_ret_val ptcb m s;
        s \<leftarrow> rt_rmv_dly ptcb s;
        rt_dispatch ptcb s
      }
      else Some s)"

definition sysMailFree :: "mailQ option \<Rightarrow> u32 \<Rightarrow> u32 \<Rightarrow> os \<Rightarrow> (u32 \<times> os) option" where
  "sysMailFree queue_id mail isr s =
     (case queue_id of
        None \<Rightarrow> Some (osErrorParameter, s)
      | Some q \<Rightarrow>
          if mq_mcb q = NULL \<or> mq_box q = 0 then Some (osErrorParameter, s)
          else
            let (res, s) = rt_free_box (mq_box q) mail s in
            if res \<noteq> 0 then Some (osErrorValue, s)
            else do {
              s \<leftarrow> (if mbx_state s (mq_mcb q) = 3
                    then (if isr \<noteq> 0 then do {
                            s \<leftarrow> rt_psq_enq (mq_mcb q) (mq_box q) s;
                            Some (rt_psh_req s)
                          }
                          else mail_handover (mq_mcb q) (mq_box q) s)
                    else Some s);
              Some (osOK, s)
            })"

definition osMailCreate :: "mailQ_def option \<Rightarrow> ptr \<Rightarrow> os \<Rightarrow> (mailQ option reply \<times> os) option" where
  "osMailCreate queue_def thread_id s =
     (if in_isr s then Some (Returned None, s)
      else if before_start s then returned (svcMailCreate queue_def thread_id s)
      else in_frame (svc_call
        (\<lambda>s. do { (q, s) \<leftarrow> svcMailCreate queue_def thread_id s; Some (mailQ_val q, s) }) s))"

definition osMailAlloc :: "mailQ option \<Rightarrow> u32 \<Rightarrow> os \<Rightarrow> (u32 reply \<times> os) option" where
  "osMailAlloc queue_id millisec s =
     (if in_isr s then returned (sysMailAlloc queue_id millisec 1 0 s)
      else in_frame (svc_call (sysMailAlloc queue_id millisec 0 0) s))"

definition osMailCAlloc :: "mailQ option \<Rightarrow> u32 \<Rightarrow> os \<Rightarrow> (u32 reply \<times> os) option" where
  "osMailCAlloc queue_id millisec s =
     (if in_isr s then returned (sysMailAlloc queue_id millisec 1 1 s)
      else in_frame (svc_call (sysMailAlloc queue_id millisec 0 1) s))"

definition osMailFree :: "mailQ option \<Rightarrow> u32 \<Rightarrow> os \<Rightarrow> (u32 reply \<times> os) option" where
  "osMailFree queue_id mail s =
     (if in_isr s then returned (sysMailFree queue_id mail 1 s)
      else in_frame (svc_call (sysMailFree queue_id mail 0) s))"

definition osMailPut :: "mailQ option \<Rightarrow> u32 \<Rightarrow> os \<Rightarrow> (u32 reply \<times> os) option" where
  "osMailPut queue_id mail s =
     (case queue_id of
        None \<Rightarrow> Some (Returned osErrorParameter, s)
      | Some q \<Rightarrow>
          if mail = 0 then Some (Returned osErrorValue, s)
          else osMessagePut (mq_mcb q) mail 0 s)"

text \<open>\<open>osMailGet\<close> turns the status of a message into that of a mail. When the message came through a
  service call the status is in the frame of the calling thread and is turned after it is read.\<close>

definition mail_event :: "osEvent \<Rightarrow> osEvent" where
  "mail_event e = (if status e = osEventMessage then e\<lparr>status := osEventMail\<rparr> else e)"

definition osMailGet :: "mailQ option \<Rightarrow> u32 \<Rightarrow> os \<Rightarrow> (osEvent reply \<times> os) option" where
  "osMailGet queue_id millisec s =
     (case queue_id of
        None \<Rightarrow> Some (Returned \<lparr>status = osErrorParameter, ev_value = None\<rparr>, s)
      | Some q \<Rightarrow> do {
          (r, s) \<leftarrow> osMessageGet (mq_mcb q) millisec s;
          Some (case r of Returned e \<Rightarrow> Returned (mail_event e) | In_frame \<Rightarrow> In_frame, s)
        })"

end
