(* ===== verification/Cmsis_Kernel.thy ===== *)
theory Cmsis_Kernel
  imports Cmsis_Thread Cmsis_Sync Cmsis_Queue
begin

text \<open>
  Kernel control of the CMSIS layer (\<open>rt_CMSIS.c\<close>): initialisation and start of the kernel. The
  definitions of the timer thread and its message queue come from the configuration and the
  addresses of code and stacks from the linker: they are parameters, in one record.
\<close>

record startup =
  os_idle_demon :: u32
  idle_task_stack :: u32
  osThreadExit :: u32
  os_messageQ_def_osTimerMessageQ :: "messageQ_def option"
  os_thread_def_osTimerThread :: "thread_def option"

definition svcKernelInitialize :: "startup \<Rightarrow> os \<Rightarrow> (u32 \<times> os) option" where
  "svcKernelInitialize c s =
     (if os_initialized s then Some (osOK, s)
      else do {
        s \<leftarrow> rt_sys_init (os_idle_demon c) (idle_task_stack c) s;
        s \<leftarrow> wr prio_update (run s) 255 s;
        s \<leftarrow> sysThreadError osOK s;
        Some (osOK, s\<lparr>os_initialized := True\<rparr>)
      })"

definition svcKernelStart :: "startup \<Rightarrow> os \<Rightarrow> (u32 \<times> os) option" where
  "svcKernelStart c s =
     (if os_running s then Some (osOK, s)
      else do {
        (q, s) \<leftarrow> svcMessageCreate (os_messageQ_def_osTimerMessageQ c) NULL s;
        let s = s\<lparr>osMessageQId_osTimerMessageQ := q\<rparr>;
        (t, s) \<leftarrow> svcThreadCreate (osThreadExit c) (os_thread_def_osTimerThread c) 0 s;
        let s = s\<lparr>osThreadId_osTimerThread := t\<rparr>;
        (_, s) \<leftarrow> rt_tsk_prio 0 0 s;
        sp \<leftarrow> rd tsk_stack (run s) s;
        let s = s\<lparr>psp := sp + 8 * 4\<rparr>;
        let s = s\<lparr>run := NULL\<rparr>;
        let s = rt_sys_start s;
        Some (osOK, s\<lparr>os_running := True\<rparr>)
      })"

definition svcKernelRunning :: "os \<Rightarrow> (u32 \<times> os) option" where
  "svcKernelRunning s = Some (if os_running s then 1 else 0, s)"

definition osKernelInitialize :: "startup \<Rightarrow> os \<Rightarrow> (u32 reply \<times> os) option" where
  "osKernelInitialize c s =
     (if in_isr s then Some (Returned osErrorISR, s)
      else if privileged s then returned (svcKernelInitialize c s)
      else in_frame (svc_call (svcKernelInitialize c) s))"

text \<open>\<open>os_flags\<close> asks for privileged threads; \<open>stk\<close> is the address of the local array \<open>stack\<close>.\<close>

definition os_flags :: u32 where "os_flags = 1"

definition osKernelStart :: "startup \<Rightarrow> u32 \<Rightarrow> os \<Rightarrow> (u32 reply \<times> os) option" where
  "osKernelStart c stk s =
     (if in_isr s then Some (Returned osErrorISR, s)
      else
        let mode = control s AND 3 in
        if mode = 0 then
          let s = s\<lparr>psp := stk + 4 * 8\<rparr>;
              s = (if os_flags AND 1 \<noteq> 0 then s\<lparr>control := 2\<rparr> else s\<lparr>control := 3\<rparr>)
          in in_frame (svc_call (svcKernelStart c) s)
        else if mode = 1 then Some (Returned osErrorOS, s)
        else if mode = 2 then
          let s = (if os_flags AND 1 = 0 then s\<lparr>control := 3\<rparr> else s)
          in in_frame (svc_call (svcKernelStart c) s)
        else if os_flags AND 1 \<noteq> 0 then Some (Returned osErrorOS, s)
        else in_frame (svc_call (svcKernelStart c) s))"

definition osKernelRunning :: "os \<Rightarrow> (u32 reply \<times> os) option" where
  "osKernelRunning s =
     (if in_isr s \<or> privileged s then Some (Returned (if os_running s then 1 else 0), s)
      else in_frame (svc_call svcKernelRunning s))"

end
