(* ===== verification/Kernel_Run.thy ===== *)
theory Kernel_Run
  imports Cmsis_Kernel Demo
begin

text \<open>
  The kernel as a transition system. A step is one public call made by the running thread, with the
  service call and the context switch that belong to it, or one system tick. The invariant says that the
  memory holds a view, that the running thread is the one the view names, that no thread got lost, that
  mutexes are owned by threads that exist, and that message queues with waiting senders are full.
\<close>

section \<open>No thread gets lost\<close>

text \<open>Everybody but the running thread.\<close>

definition others :: "kview \<Rightarrow> ptr set" where
  "others v = set (rdyq v) \<union> parked v \<union> (\<Union>m. set (waitq v m))"

lemma live_others: "live v = insert (cur v) (others v)"
  by (simp add: live_def others_def)

lemma live_run_next: "rdyq v \<noteq> [] \<Longrightarrow> live (run_next v) = others v"
  by (cases "rdyq v") (auto simp: live_def others_def run_next_def)

lemma set_timeout_sel [simp]:
  "cur (set_timeout d v) = cur v" "rdyq (set_timeout d v) = rdyq v" "waitq (set_timeout d v) = waitq v"
  "parked (set_timeout d v) = parked v" "prios (set_timeout d v) = prios v"
  by (simp_all add: set_timeout_def)

lemma Union_fun_upd: "(\<Union>m. set ((W(n := xs)) m)) = set xs \<union> (\<Union>m\<in>- {n}. set (W m))"
  by (auto split: if_splits)

lemma Union_split: "(\<Union>m. set (W m)) = set (W n) \<union> (\<Union>m\<in>- {n}. set (W m))"
  by auto

lemma live_block_on: "rdyq v \<noteq> [] \<Longrightarrow> live (block_on n d v) = live v"
  unfolding block_on_def
  by (subst live_run_next) (simp_all add: others_def live_def Union_fun_upd Union_split [of "waitq v" n] insert_commute Un_ac del: fun_upd_apply)

lemma live_block_park: "rdyq v \<noteq> [] \<Longrightarrow> live (block_park d v) = live v"
  unfolding block_park_def by (subst live_run_next) (simp_all add: others_def live_def)

lemma live_dispatch: "live (dispatch t v) = insert t (live v)"
  by (auto simp: live_def dispatch_def)

lemma live_take_waiter: "waitq v n = t # ts \<Longrightarrow> insert t (live (take_waiter n v)) = live v"
  by (simp add: live_def take_waiter_def Union_fun_upd Union_split [of "waitq v" n] insert_commute Un_ac del: fun_upd_apply)

lemma live_wake_one: "waitq v n = t # ts \<Longrightarrow> live (wake_one n v) = live v"
  using live_take_waiter [of v n t ts] by (simp add: wake_one_def live_dispatch)

lemma live_resched: "live (resched v) = live v"
  unfolding resched_def by (subst live_run_next) (simp_all add: others_def live_def)

lemma live_preempt: "live (preempt v) = live v"
  by (simp add: preempt_def live_resched)

lemma set_ins_remove1: "set (if t \<in> set xs then ins_prio pr t (remove1 t xs) else xs) = set xs"
  using set_remove1_subset [of t xs] by (auto dest: in_set_remove1 [THEN iffD2, rotated])

lemma live_set_prio: "live (set_prio t p v) = live v"
  by (simp add: live_def set_prio_def Let_def set_ins_remove1 del: if_split set_ins_prio set_remove1_eq if_distrib)

lemma live_inherit: "live (inherit t p v) = live v"
  by (simp add: inherit_def live_set_prio)

lemma live_after_handover: "live (after_handover t v) = insert t (live v)"
proof -
  have "live (handoff t v) = insert t (live v)"
    unfolding handoff_def by (subst live_run_next) (simp_all add: others_def live_def insert_commute)
  then show ?thesis by (simp add: after_handover_def live_dispatch)
qed

lemma set_wake_rdy': "set (wake_rdy pr ts R) = set ts \<union> set R"
  by (induction ts arbitrary: R) (auto simp: wake_rdy_def)

lemma live_tick:
  assumes "set (woken (dlyq v)) \<subseteq> others v"
  shows "live (run_next (tick_view (robin_view s (all_ready v)))) = live v"
proof -
  let ?v = "robin_view s (all_ready v)"
  have r: "set (rdyq ?v) = insert (cur v) (set (rdyq v))" "waitq ?v = waitq v" "parked ?v = parked v" "dlyq ?v = dlyq v"
    by (simp_all add: robin_view_def rotate_def all_ready_def)
  have "rdyq (tick_view ?v) \<noteq> []"
  proof
    assume "rdyq (tick_view ?v) = []"
    then have "set (rdyq (tick_view ?v)) = {}" by simp
    then show False using r(1) by (simp add: tick_view_def set_wake_rdy')
  qed
  then have "live (run_next (tick_view ?v)) = others (tick_view ?v)" by (rule live_run_next)
  also have "\<dots> = insert (cur v) (set (woken (dlyq v)) \<union> others v)"
    unfolding others_def using r by (auto simp: tick_view_def set_wake_rdy' wake_wait_def)
  also have "\<dots> = live v" using assms by (simp add: live_others Un_absorb1)
  finally show ?thesis .
qed

section \<open>The invariant\<close>

text \<open>A mutex that is taken is owned by a thread that exists; a message queue is a proper ring, and full while
  senders wait for room in it.\<close>

definition mut_inv :: "os \<Rightarrow> kview \<Rightarrow> bool" where
  "mut_inv s v \<longleftrightarrow> (\<forall>n. cb_type s (Obj n) = MUCB \<and> mut_level s (Obj n) \<noteq> 0 \<longrightarrow> mut_owner s (Obj n) \<in> live v)"

definition mbx_inv :: "os \<Rightarrow> kview \<Rightarrow> bool" where
  "mbx_inv s v \<longleftrightarrow> (\<forall>n. cb_type s (Obj n) = MCB \<longrightarrow> mbx_ok (Obj n) s \<and>
     (waitq v n \<noteq> [] \<and> mbx_state s (Obj n) = 2 \<longrightarrow> length (mbx_content (Obj n) s) = mbx_cap (Obj n) s))"

text \<open>The task table names threads that exist.\<close>

definition tab_inv :: "ptr set \<Rightarrow> os \<Rightarrow> bool" where
  "tab_inv U s \<longleftrightarrow> (\<forall>i t. act_get i s = Some t \<and> t \<noteq> NULL \<longrightarrow> t \<in> U)"

lemma tab_inv_cong: "os_active_TCB s' = os_active_TCB s \<Longrightarrow> tab_inv U s' = tab_inv U s"
  by (simp add: tab_inv_def act_get_def)

text \<open>The invariant inside a service call, when the view may already name the next thread; \<open>U\<close> are the threads there are.\<close>

definition kinv :: "ptr set \<Rightarrow> os \<Rightarrow> kview \<Rightarrow> bool" where
  "kinv U s v \<longleftrightarrow> kabs s v \<and> live v = U \<and> tab_inv U s \<and> mut_inv s v \<and> mbx_inv s v \<and> tinv s [] \<and> psq_ok s \<and>
     length (callee_regs s) = 8 \<and> \<not> in_isr s"

text \<open>What the kernel services leave alone besides the objects: registers, timers and the request queue.\<close>

definition sys_same :: "os \<Rightarrow> os \<Rightarrow> bool" where
  "sys_same s s' \<longleftrightarrow> callee_regs s' = callee_regs s \<and> run s' = run s \<and> ipsr s' = ipsr s \<and>
     tmr_next s' = tmr_next s \<and> tmr_tcnt s' = tmr_tcnt s \<and> os_timer_head s' = os_timer_head s \<and>
     tmr_icnt s' = tmr_icnt s \<and> tmr_state s' = tmr_state s \<and> psq_first s' = psq_first s \<and>
     psq_last s' = psq_last s \<and> psq_count s' = psq_count s \<and> psq_size s' = psq_size s \<and>
     os_active_TCB s' = os_active_TCB s"

lemma sys_same_moved: "moved s s' \<Longrightarrow> sys_same s s'"
  using moved_sel [of s s'] by (simp add: sys_same_def)

lemma sys_same_trans: "sys_same s s1 \<Longrightarrow> sys_same s1 s2 \<Longrightarrow> sys_same s s2"
  by (simp add: sys_same_def)

lemma obj_same_sel:
  assumes "obj_same s s'"
  shows "cb_type s' = cb_type s" "mut_level s' = mut_level s" "mut_owner s' = mut_owner s" "mbx_state s' = mbx_state s"
    "mbx_ok p s' = mbx_ok p s" "mbx_content p s' = mbx_content p s" "mbx_cap p s' = mbx_cap p s"
  using assms by (simp_all add: obj_same_def mbx_ok_def mbx_content_def mbx_cap_def)

text \<open>An operation that keeps the objects, the threads and the waiting senders keeps the invariant.\<close>

lemma mut_inv_frame: "mut_inv s v \<Longrightarrow> obj_same s s' \<Longrightarrow> live v' = live v \<Longrightarrow> mut_inv s' v'"
  by (simp add: mut_inv_def obj_same_sel)

definition mbx_same :: "os \<Rightarrow> os \<Rightarrow> bool" where
  "mbx_same s s' \<longleftrightarrow> cb_type s' = cb_type s \<and> mbx_state s' = mbx_state s \<and> mbx_first s' = mbx_first s \<and>
     mbx_last s' = mbx_last s \<and> mbx_count s' = mbx_count s \<and> mbx_size s' = mbx_size s \<and> mbx_msg s' = mbx_msg s"

lemma obj_same_mbx: "obj_same s s' \<Longrightarrow> mbx_same s s'"
  by (simp add: obj_same_def mbx_same_def)

lemma mbx_same_trans: "mbx_same s s1 \<Longrightarrow> mbx_same s1 s2 \<Longrightarrow> mbx_same s s2"
  by (simp add: mbx_same_def)

lemma mbx_inv_frame:
  assumes i: "mbx_inv s v" and m: "mbx_same s s'"
    and w: "\<And>n. cb_type s (Obj n) = MCB \<Longrightarrow> waitq v' n \<noteq> [] \<Longrightarrow> waitq v n \<noteq> []"
  shows "mbx_inv s' v'"
proof -
  have "cb_type s' = cb_type s" "mbx_state s' = mbx_state s" "mbx_ok p s' = mbx_ok p s" "mbx_content p s' = mbx_content p s"
    "mbx_cap p s' = mbx_cap p s" for p
    using m by (simp_all add: mbx_same_def mbx_ok_def mbx_content_def mbx_cap_def)
  then show ?thesis using i w unfolding mbx_inv_def by (metis (no_types, lifting))
qed

lemma kinv_frame:
  assumes "kinv U s v" and "kabs s' v'" and "live v' = live v" and "mut_inv s' v'" and "mbx_inv s' v'" and "sys_same s s'"
  shows "kinv U s' v'"
  using assms tinv_cong [of s' s "[]"] tab_inv_cong [of s' s] unfolding kinv_def sys_same_def in_isr_def psq_ok_def by simp

lemma kinv_same:
  assumes k: "kinv U s v" and "kabs s' v'" and lv: "live v' = live v" and o: "obj_same s s'" and "sys_same s s'"
    and "\<And>n. cb_type s (Obj n) = MCB \<Longrightarrow> waitq v' n \<noteq> [] \<Longrightarrow> waitq v n \<noteq> []"
  shows "kinv U s' v'"
proof -
  have i: "mut_inv s v" "mbx_inv s v" using k by (simp_all add: kinv_def)
  show ?thesis
    using assms mut_inv_frame [OF i(1) o lv] mbx_inv_frame [OF i(2) obj_same_mbx [OF o]] by (intro kinv_frame [OF k]) blast+
qed

text \<open>Where the operations on views leave the waiting lists.\<close>

lemma waitq_run_next [simp]: "waitq (run_next v) = waitq v"
  by (simp add: run_next_def)

lemma waitq_block_on: "waitq (block_on n d v) = (waitq v)(n := ins_prio (prios v) (cur v) (waitq v n))"
  by (simp add: block_on_def)

lemma waitq_block_park [simp]: "waitq (block_park d v) = waitq v"
  by (simp add: block_park_def)

lemma waitq_dispatch [simp]: "waitq (dispatch t v) = waitq v"
  by (simp add: dispatch_def)

lemma waitq_take_waiter: "waitq (take_waiter n v) = (waitq v)(n := tl (waitq v n))"
  by (simp add: take_waiter_def)

lemma waitq_wake_one: "waitq (wake_one n v) = (waitq v)(n := tl (waitq v n))"
  by (simp add: wake_one_def waitq_take_waiter)

lemma waitq_resched [simp]: "waitq (resched v) = waitq v"
  by (simp add: resched_def)

lemma waitq_after_handover [simp]: "waitq (after_handover t v) = waitq v"
  by (simp add: after_handover_def handoff_def)

lemma waitq_set_prio_Nil: "waitq (set_prio t p v) n = [] \<longleftrightarrow> waitq v n = []"
  by (auto simp: set_prio_def Let_def)

lemma waitq_inherit_Nil: "waitq (inherit t p v) n = [] \<longleftrightarrow> waitq v n = []"
  by (simp add: inherit_def waitq_set_prio_Nil)

section \<open>Service calls\<close>

lemma svc_same_frame:
  assumes "svc_same s s'"
  shows "obj_same s s'" and "psq_ok s' = psq_ok s" and "os_active_TCB s' = os_active_TCB s"
proof -
  have "psq_ok (svc_core s) = psq_ok s" for s by (simp add: svc_core_def psq_ok_def)
  then show "psq_ok s' = psq_ok s" using assms unfolding svc_same_def by metis
  have "os_active_TCB (svc_core s) = os_active_TCB s" for s by (simp add: svc_core_def)
  then show a: "os_active_TCB s' = os_active_TCB s" using assms unfolding svc_same_def by metis
  show "obj_same s s'" using svc_same_sel [OF assms] a by (simp add: obj_same_def)
qed

lemma kinv_switched:
  assumes k: "kinv U s v" and "kabs s' v" and "svc_same s s'" and "length (callee_regs s') = 8"
  shows "kinv U s' v"
proof -
  note f = svc_same_frame [OF assms(3)]
  have i: "mut_inv s v" "mbx_inv s v" using k by (simp_all add: kinv_def)
  have "tinv s' [] = tinv s []" using svc_same_time [OF assms(3)] by (intro tinv_cong) simp_all
  moreover have "ipsr s' = ipsr s" using svc_same_sel [OF assms(3)] by simp
  ultimately show ?thesis
    using k assms mut_inv_frame [OF i(1) f(1) refl] mbx_inv_frame [OF i(2) obj_same_mbx [OF f(1)]] f(2) tab_inv_cong [OF f(3)] by (simp add: kinv_def in_isr_def)
qed

lemma kinv_run: "kinv U s v \<Longrightarrow> run s = cur v \<Longrightarrow> run s \<noteq> NULL"
  using kst_tcb [of "{}" s v "cur v"] by (auto simp: kinv_def kabs_def)

lemma call_inv:
  assumes f: "f s = Some (x, s1)" and k: "kinv U s1 v1" and r: "run s1 \<noteq> NULL"
  shows "\<exists>s'. svc_call f s = Some s' \<and> kinv U s' v1 \<and> run s' = cur v1"
proof -
  have "kabs s1 v1" "length (callee_regs s1) = 8" using k by (simp_all add: kinv_def)
  then obtain s' where "svc_call f s = Some s'" "kabs s' v1" "run s' = cur v1" "svc_same s1 s'" "length (callee_regs s') = 8"
    using svc_call_spec [of f s x s1 v1] f r by blast
  then show ?thesis using kinv_switched [OF k] by blast
qed

lemma kinv_mem: "kinv U (s\<lparr>mem := m\<rparr>) v = kinv U s v"
proof -
  have "tinv (s\<lparr>mem := m\<rparr>) [] = tinv s []" by (rule tinv_cong) simp_all
  then show ?thesis
    by (simp add: kinv_def kabs_def mut_inv_def mbx_inv_def psq_ok_def in_isr_def mbx_ok_def mbx_content_def mbx_cap_def
        tab_inv_def act_get_def)
qed

lemma call_event_inv:
  assumes f: "f s = Some (e, s1)" and k: "kinv U s1 v1" and r: "run s1 \<noteq> NULL"
  shows "\<exists>s'. svc_call_event f s = Some s' \<and> kinv U s' v1 \<and> run s' = cur v1"
proof -
  obtain m where m: "store_event e s1 = s1\<lparr>mem := m\<rparr>"
    by (cases "ev_value e") (simp_all add: store_event_def Let_def)
  then have k1: "kinv U (store_event e s1) v1" using k by (simp add: kinv_mem)
  moreover have "run (store_event e s1) \<noteq> NULL" using r m by simp
  moreover have "kabs (store_event e s1) v1" "length (callee_regs (store_event e s1)) = 8" using k1 by (simp_all add: kinv_def)
  ultimately obtain s' where "SVC_switch (store_event e s1) = Some s'" "kabs s' v1" "run s' = cur v1"
    "svc_same (store_event e s1) s'" "length (callee_regs s') = 8"
    using SVC_switch_spec [of "store_event e s1" v1] by blast
  then show ?thesis using kinv_switched [OF k1] f by (auto simp: svc_call_event_def)
qed

section \<open>Every service keeps the invariant\<close>

text \<open>No time-out gets lost: a thread with a time-out keeps it, or it is ready or runs; and the thread that
  called is ready, runs, waits forever, or has the time-out \<open>d\<close> that it asked for.\<close>

definition awake :: "kview \<Rightarrow> ptr set" where
  "awake v = insert (cur v) (set (rdyq v))"

definition timely :: "nat \<Rightarrow> kview \<Rightarrow> kview \<Rightarrow> bool" where
  "timely d v v' \<longleftrightarrow> (\<forall>t k. (t, k) \<in> set (dlyq v) \<longrightarrow> (t, k) \<in> set (dlyq v') \<or> t \<in> awake v') \<and>
     (cur v \<in> awake v' \<or> 65535 \<le> d \<or> (cur v, d) \<in> set (dlyq v'))"

lemma timely_same: "dlyq v' = dlyq v \<Longrightarrow> cur v \<in> awake v' \<Longrightarrow> timely d v v'"
  by (simp add: timely_def)

lemma view_simps [simp]:
  "dlyq (run_next v) = dlyq v" "dlyq (dispatch t v) = dlyq v" "dlyq (resched v) = dlyq v" "dlyq (preempt v) = dlyq v"
  "dlyq (set_prio t p v) = dlyq v" "dlyq (inherit t p v) = dlyq v" "dlyq (after_handover t v) = dlyq v"
  "cur (set_prio t p v) = cur v" "cur (inherit t p v) = cur v" "cur (take_waiter n v) = cur v" "cur (unpark t v) = cur v"
  by (simp_all add: run_next_def dispatch_def resched_def preempt_def set_prio_def inherit_def after_handover_def
      handoff_def Let_def take_waiter_def unpark_def)

lemma run_next_awake: "t \<in> set (rdyq v) \<Longrightarrow> t \<in> awake (run_next v)"
  by (cases "rdyq v") (auto simp: awake_def run_next_def)

lemma cur_awake:
  "cur v \<in> awake v" "cur v \<in> awake (dispatch t v)" "cur v \<in> awake (preempt v)" "cur v \<in> awake (after_handover t v)"
proof -
  show d: "cur v \<in> awake v" "cur v \<in> awake (dispatch t v)" by (simp_all add: awake_def dispatch_def)
  have "cur v \<in> awake (resched v)" "cur v \<in> awake (handoff t v)"
    unfolding resched_def handoff_def by (rule run_next_awake, simp)+
  then show "cur v \<in> awake (preempt v)" "cur v \<in> awake (after_handover t v)"
    using d by (simp_all add: preempt_def after_handover_def)
qed

lemma woken_awake: "t \<in> awake (dispatch t v)" "t \<in> awake (after_handover t v)"
proof -
  show d: "t \<in> awake (dispatch t v)" by (simp add: awake_def dispatch_def)
  have "t \<in> awake (handoff t v)" unfolding handoff_def by (rule run_next_awake) simp
  then show "t \<in> awake (after_handover t v)" using d by (simp add: after_handover_def)
qed

lemma timely_refl [simp, intro]: "timely d v v"
  by (rule timely_same) (simp_all add: cur_awake)

lemma timely_sleep: "dlyq v' = dlyq (set_timeout d v) \<Longrightarrow> timely d v v'"
  by (auto simp: timely_def set_timeout_def)

lemma timely_block [simp, intro]:
  "timely d v (block_on n d v)" "timely d v (block_park d v)" "timely d v (block_on n d (inherit t p v))"
proof -
  show "timely d v (block_on n d v)" "timely d v (block_park d v)"
    by (rule timely_sleep, simp add: block_on_def block_park_def)+
  have "dlyq (set_timeout d (inherit t p v)) = dlyq (set_timeout d v)" by (simp add: set_timeout_def)
  then show "timely d v (block_on n d (inherit t p v))" by (intro timely_sleep) (simp add: block_on_def)
qed

lemma timely_wake:
  assumes "dlyq v' = rmv_dly t (dlyq v)" and "t \<in> awake v'" and "cur v \<in> awake v'"
  shows "timely d v v'"
  using assms set_rmv_dly [of t "dlyq v"] by (auto simp: timely_def)

lemma timely_woken [simp, intro]:
  "timely d v (wake_one n v)" "timely d v (dispatch t (unpark t v))"
proof -
  show "timely d v (wake_one n v)"
    using cur_awake(2) [of "take_waiter n v"] woken_awake(1)
    by (intro timely_wake [where t = "hd (waitq v n)"]) (simp_all add: wake_one_def, simp add: take_waiter_def)
  show "timely d v (dispatch t (unpark t v))"
    using cur_awake(2) [of "unpark t v"] woken_awake(1)
    by (intro timely_wake [where t = t]) (simp_all, simp add: unpark_def)
qed

lemma timely_released [simp, intro]: "timely d v (preempt (set_prio t p v))"
  using cur_awake(3) [of "set_prio t p v"] by (intro timely_same) simp_all

definition keeps :: "ptr set \<Rightarrow> os \<Rightarrow> kview \<Rightarrow> nat \<Rightarrow> ('a \<times> os) option \<Rightarrow> bool" where
  "keeps U s v d r \<longleftrightarrow> (\<exists>x s1 v1. r = Some (x, s1) \<and> kinv U s1 v1 \<and> run s1 = run s \<and> timely d v v1)"

lemma keepsI: "r = Some (x, s1) \<Longrightarrow> kinv U s1 v1 \<Longrightarrow> run s1 = run s \<Longrightarrow> timely d v v1 \<Longrightarrow> keeps U s v d r"
  by (auto simp: keeps_def)

lemma kinv_upd [simp]:
  "kinv U (s\<lparr>tokens := a\<rparr>) v = kinv U s v" "kinv U (s\<lparr>events := b\<rparr>) v = kinv U s v"
  "kinv U (s\<lparr>waits := c\<rparr>) v = kinv U s v" "kinv U (s\<lparr>msg := d\<rparr>) v = kinv U s v"
proof -
  have "tinv (s\<lparr>tokens := a\<rparr>) [] = tinv s []" "tinv (s\<lparr>events := b\<rparr>) [] = tinv s []"
    "tinv (s\<lparr>waits := c\<rparr>) [] = tinv s []" "tinv (s\<lparr>msg := d\<rparr>) [] = tinv s []" by (rule tinv_cong; simp)+
  then show "kinv U (s\<lparr>tokens := a\<rparr>) v = kinv U s v" "kinv U (s\<lparr>events := b\<rparr>) v = kinv U s v"
    "kinv U (s\<lparr>waits := c\<rparr>) v = kinv U s v" "kinv U (s\<lparr>msg := d\<rparr>) v = kinv U s v"
    by (simp_all add: kinv_def kabs_def mut_inv_def mbx_inv_def psq_ok_def in_isr_def mbx_ok_def mbx_content_def mbx_cap_def
        tab_inv_def act_get_def)
qed

lemma kinv_moved:
  assumes "kinv U s v" and "moved s s'" and "kabs s' v'" and "live v' = live v"
    and "\<And>n. cb_type s (Obj n) = MCB \<Longrightarrow> waitq v' n \<noteq> [] \<Longrightarrow> waitq v n \<noteq> []"
  shows "kinv U s' v'"
  using kinv_same [OF assms(1,3,4) obj_same_moved [OF assms(2)] sys_same_moved [OF assms(2)] assms(5)] .

text \<open>A thread other than the idle task is running.\<close>

definition running :: "ptr set \<Rightarrow> os \<Rightarrow> kview \<Rightarrow> bool" where
  "running U s v \<longleftrightarrow> kinv U s v \<and> run s = cur v \<and> cur v \<noteq> os_idle_TCB"

lemma runningD:
  assumes "running U s v"
  shows "kinv U s v" and "kabs s v" and "run s = cur v" and "cur v \<noteq> os_idle_TCB" and "rdyq v \<noteq> []" and "live v = U"
    and "mut_inv s v" and "mbx_inv s v" and "cur v \<in> U"
  using assms kst_ready [of "{}" s v] by (auto simp: running_def kinv_def kabs_def live_def)

lemma keeps_same: "running U s v \<Longrightarrow> keeps U s v d (Some (x, s))"
  by (auto simp: keeps_def running_def)

lemma keeps_block_on:
  assumes "running U s v" and "r = Some (x, s1)" and "kabs s1 (block_on n d v)" and "moved s s1"
    and "cb_type s (Obj n) \<noteq> MCB"
  shows "keeps U s v d r"
proof (rule keepsI [OF assms(2)])
  show "kinv U s1 (block_on n d v)"
    using assms(5) live_block_on [OF runningD(5) [OF assms(1)]]
    by (intro kinv_moved [OF runningD(1) [OF assms(1)] assms(4,3)]) (auto simp: waitq_block_on split: if_splits)
  show "run s1 = run s" using moved_sel [OF assms(4)] by simp
qed simp

lemma keeps_wake_one:
  assumes "running U s v" and "r = Some (x, s1)" and "kabs s1 (wake_one n v)" and "moved (s\<lparr>mem := m\<rparr>) s1"
    and "waitq v n \<noteq> []"
  shows "keeps U s v d r"
proof (rule keepsI [OF assms(2)])
  obtain t ts where W: "waitq v n = t # ts" using assms(5) by (cases "waitq v n") auto
  have "kinv U (s\<lparr>mem := m\<rparr>) v" using runningD(1) [OF assms(1)] by (simp add: kinv_mem)
  then show "kinv U s1 (wake_one n v)"
    using W live_wake_one [OF W] by (intro kinv_moved [OF _ assms(4,3)]) (auto simp: waitq_wake_one split: if_splits)
  show "run s1 = run s" using moved_sel [OF assms(4)] by simp
qed simp

subsection \<open>Semaphores and delays\<close>

lemma keeps_sem_wait:
  assumes "running U s v"
  shows "keeps U s v (unat (ucast (rt_ms2tick ms) :: u16)) (svcSemaphoreWait (Obj n) ms s)"
proof -
  note d = runningD [OF assms]
  let ?to = "ucast (rt_ms2tick ms) :: u16"
  consider "cb_type s (Obj n) \<noteq> SCB" | "cb_type s (Obj n) = SCB" "tokens s (Obj n) \<noteq> 0"
    | "cb_type s (Obj n) = SCB" "tokens s (Obj n) = 0" "?to = 0" | "cb_type s (Obj n) = SCB" "tokens s (Obj n) = 0" "?to \<noteq> 0"
    by blast
  then show ?thesis
  proof cases
    case 2
    then have "\<exists>x. svcSemaphoreWait (Obj n) ms s = Some (x, s\<lparr>tokens := (tokens s)(Obj n := tokens s (Obj n) - 1)\<rparr>)"
      using rt_sem_wait_token [of s n ?to] by (simp add: svcSemaphoreWait_def Let_def ret_codes)
    then show ?thesis using d(1) by (auto intro: keepsI)
  next
    case 4
    then obtain s1 where s1: "rt_sem_wait (Obj n) ?to s = Some (OS_R_TMO, s1)" "kabs s1 (block_on n (unat ?to) v)" "moved s s1"
      using rt_sem_wait_block [OF d(2,3,4), of n ?to] by blast
    then have e: "svcSemaphoreWait (Obj n) ms s = Some (0, s1)" using 4 by (simp add: svcSemaphoreWait_def Let_def)
    show ?thesis by (rule keeps_block_on [OF assms e s1(2,3)]) (use 4(1) in \<open>simp add: cb_types\<close>)
  qed (use rt_sem_wait_poll [of s n] in \<open>simp_all add: svcSemaphoreWait_def Let_def keeps_same [OF assms]\<close>)
qed

lemma keeps_sem_release:
  assumes "running U s v"
  shows "keeps U s v d (svcSemaphoreRelease (Obj n) s)"
proof -
  note d = runningD [OF assms]
  consider "cb_type s (Obj n) \<noteq> SCB \<or> tokens s (Obj n) = osFeature_Semaphore"
    | "cb_type s (Obj n) = SCB" "tokens s (Obj n) \<noteq> osFeature_Semaphore" "waitq v n = []"
    | t ts where "cb_type s (Obj n) = SCB" "tokens s (Obj n) \<noteq> osFeature_Semaphore" "waitq v n = t # ts"
    by (cases "waitq v n") blast+
  then show ?thesis
  proof cases
    case 1
    then show ?thesis using keeps_same [OF assms] by (auto simp: svcSemaphoreRelease_def Let_def)
  next
    case 2
    then have "sem_mbx (cb_type s (Obj n))" by (simp add: sem_mbx_def)
    then have "svcSemaphoreRelease (Obj n) s = Some (osOK, s\<lparr>tokens := (tokens s)(Obj n := tokens s (Obj n) + 1)\<rparr>)"
      using 2 rt_sem_send_store [OF d(2) _ 2(3)] by (simp add: svcSemaphoreRelease_def Let_def)
    then show ?thesis using d(1) by (auto intro: keepsI)
  next
    case 3
    then have "sem_mbx (cb_type s (Obj n))" by (simp add: sem_mbx_def)
    then obtain s1 where s1: "rt_sem_send (Obj n) s = Some (OS_R_OK, s1)" "kabs s1 (wake_one n v)" "moved (give_ret t 1 s) s1"
      using rt_sem_send_wake [OF d(2,3) _ 3(3)] by blast
    then have e: "svcSemaphoreRelease (Obj n) s = Some (osOK, s1)" using 3 by (simp add: svcSemaphoreRelease_def Let_def)
    show ?thesis by (rule keeps_wake_one [OF assms e s1(2) s1(3) [unfolded give_ret_def]]) (use 3(3) in simp)
  qed
qed

lemma keeps_park:
  assumes "running U s v" and "r = Some (x, s1)" and "kabs s1 (block_park d v)" and "moved (s\<lparr>waits := w\<rparr>) s1"
  shows "keeps U s v d r"
proof (rule keepsI [OF assms(2)])
  show "kinv U s1 (block_park d v)"
    using runningD(1) [OF assms(1)] live_block_park [OF runningD(5) [OF assms(1)]]
    by (intro kinv_moved [OF _ assms(4,3)]) simp_all
  show "run s1 = run s" using moved_sel [OF assms(4)] by simp
qed simp

lemma keeps_delay:
  assumes "running U s v"
  shows "keeps U s v (unat (ucast (rt_ms2tick ms) :: u16)) (svcDelay ms s)"
proof -
  note d = runningD [OF assms]
  let ?to = "ucast (rt_ms2tick ms) :: u16"
  obtain s1 where s1: "rt_dly_wait ?to s = Some s1" "if ?to = 0 then s1 = s else kabs s1 (block_park (unat ?to) v) \<and> moved s s1"
    using rt_dly_wait_spec [OF d(2,3,4), of ?to] by blast
  then have e: "svcDelay ms s = Some (if ms = 0 then (osOK, s) else (osEventTimeout, s1))" by (simp add: svcDelay_def)
  show ?thesis
  proof (cases "ms = 0 \<or> ?to = 0")
    case True
    then show ?thesis using s1(2) keeps_same [OF assms] unfolding e by auto
  next
    case False
    then have p: "kabs s1 (block_park (unat ?to) v)" "moved (s\<lparr>waits := waits s\<rparr>) s1" using s1(2) by simp_all
    have "svcDelay ms s = Some (osEventTimeout, s1)" using e False by simp
    then show ?thesis by (rule keeps_park [OF assms _ p])
  qed
qed

subsection \<open>Mutexes\<close>

text \<open>Operations that change mutexes, and maybe move threads: the owners have to be checked again.\<close>

lemma kinv_moved_mut:
  assumes k: "kinv U s v" and m: "moved s0 s1" and o: "mbx_same s s0"
    and y: "sys_same s s0" and a: "kabs s1 v1" and l: "live v1 = live v" and i: "mut_inv s1 v1"
    and w: "\<And>n. cb_type s (Obj n) = MCB \<Longrightarrow> waitq v1 n \<noteq> [] \<Longrightarrow> waitq v n \<noteq> []"
  shows "kinv U s1 v1"
proof -
  have "mbx_inv s v" using k by (simp add: kinv_def)
  then have "mbx_inv s1 v1" using mbx_same_trans [OF o obj_same_mbx [OF obj_same_moved [OF m]]] w by (rule mbx_inv_frame)
  from kinv_frame [OF k a l i this sys_same_trans [OF y sys_same_moved [OF m]]] show ?thesis .
qed

lemma kinv_mut:
  assumes k: "kinv U s v" and i: "mut_inv (s\<lparr>mut_owner := ow, mut_prio := mp, mut_level := ml\<rparr>) v"
  shows "kinv U (s\<lparr>mut_owner := ow, mut_prio := mp, mut_level := ml\<rparr>) v"
proof -
  let ?s = "s\<lparr>mut_owner := ow, mut_prio := mp, mut_level := ml\<rparr>"
  have "kabs ?s v" using k by (simp add: kinv_def kabs_def)
  then show ?thesis using i by (intro kinv_moved_mut [OF k moved_refl]) (simp_all add: mbx_same_def sys_same_def)
qed

lemma mut_inv_upd:
  assumes "mut_inv s v" and "p \<in> live v"
  shows "mut_inv (s\<lparr>mut_owner := (mut_owner s)(Obj n := p), mut_prio := mp, mut_level := (mut_level s)(Obj n := l)\<rparr>) v"
  using assms by (simp add: mut_inv_def)

lemma keeps_mut_wait:
  assumes "running U s v"
  shows "keeps U s v (unat (ucast (rt_ms2tick ms) :: u16)) (svcMutexWait (Obj n) ms s)"
proof -
  note d = runningD [OF assms]
  let ?to = "ucast (rt_ms2tick ms) :: u16" and ?l = "mut_level s (Obj n)" and ?o = "mut_owner s (Obj n)"
  have c: "cur v \<in> live v" and rn: "run s \<noteq> NULL" using kinv_run [OF d(1,3)] by (simp_all add: live_def)
  note i = kinv_mut [OF d(1) mut_inv_upd [OF d(7) c, of n]]
  consider "cb_type s (Obj n) \<noteq> MUCB" | "cb_type s (Obj n) = MUCB" "?l = 0"
    | "cb_type s (Obj n) = MUCB" "?l \<noteq> 0" "?o = run s"
    | "cb_type s (Obj n) = MUCB" "?l \<noteq> 0" "?o \<noteq> run s" "?to = 0"
    | "cb_type s (Obj n) = MUCB" "?l \<noteq> 0" "?o \<noteq> run s" "?to \<noteq> 0" by blast
  then show ?thesis
  proof cases
    case 1
    then show ?thesis using keeps_same [OF assms] by (simp add: svcMutexWait_def Let_def)
  next
    case 2
    let ?s1 = "s\<lparr>mut_owner := (mut_owner s)(Obj n := cur v), mut_prio := (mut_prio s)(Obj n := prio s (cur v)),
      mut_level := (mut_level s)(Obj n := 1)\<rparr>"
    have "svcMutexWait (Obj n) ms s = Some (osOK, ?s1)"
      using 2 rt_mut_wait_free [of s n ?to] rn d(3) by (simp add: svcMutexWait_def Let_def ret_codes)
    moreover have "kinv U ?s1 v" by (rule i)
    moreover have "run ?s1 = run s" by simp
    ultimately show ?thesis by (rule keepsI) simp
  next
    case 3
    let ?s1 = "s\<lparr>mut_owner := (mut_owner s)(Obj n := cur v), mut_prio := mut_prio s, mut_level := (mut_level s)(Obj n := ?l + 1)\<rparr>"
    have "(mut_owner s)(Obj n := cur v) = mut_owner s" using 3 d(3) by (intro fun_upd_idem) simp
    then have "s\<lparr>mut_level := (mut_level s)(Obj n := ?l + 1)\<rparr> = ?s1" by simp
    then have "svcMutexWait (Obj n) ms s = Some (osOK, ?s1)"
      using 3 rt_mut_wait_own [of s n ?to] by (simp add: svcMutexWait_def Let_def ret_codes)
    moreover have "kinv U ?s1 v" by (rule i)
    moreover have "run ?s1 = run s" by simp
    ultimately show ?thesis by (rule keepsI) simp
  next
    case 4
    then show ?thesis using rt_mut_wait_poll [of s n] by (simp add: svcMutexWait_def Let_def keeps_same [OF assms])
  next
    case 5
    let ?v1 = "inherit ?o (mut_prio s (Obj n)) v"
    have o: "?o \<in> live v" "?o \<noteq> cur v" using d(3,7) 5 by (auto simp: mut_inv_def)
    obtain s1 where s1: "rt_mut_wait (Obj n) ?to s = Some (OS_R_TMO, s1)" "kabs s1 (block_on n (unat ?to) ?v1)"
      "moved (s\<lparr>prio := prios ?v1\<rparr>) s1" using rt_mut_wait_block [OF d(2,3,4) 5(1,2) o 5(4)] by blast
    then have "\<exists>x. svcMutexWait (Obj n) ms s = Some (x, s1)" using 5 by (simp add: svcMutexWait_def Let_def)
    moreover have r: "rdyq ?v1 \<noteq> []" using d(5) by (auto simp: inherit_def set_prio_def Let_def)
    have lv: "live (block_on n (unat ?to) ?v1) = live v" using live_block_on [OF r] by (simp add: live_inherit)
    have "mut_inv s1 (block_on n (unat ?to) ?v1)"
      using d(7) moved_sel [OF s1(3)] by (simp add: mut_inv_def lv)
    then have "kinv U s1 (block_on n (unat ?to) ?v1)"
      using 5(1) lv by (intro kinv_moved_mut [OF d(1) s1(3) _ _ s1(2)])
        (auto simp: mbx_same_def sys_same_def waitq_block_on waitq_inherit_Nil cb_types split: if_splits)
    moreover have "run s1 = run s" using moved_sel [OF s1(3)] by simp
    ultimately show ?thesis by (auto intro: keepsI)
  qed
qed

lemma keeps_mut_release:
  assumes "running U s v"
  shows "keeps U s v d (svcMutexRelease (Obj n) s)"
proof -
  note d = runningD [OF assms]
  let ?l = "mut_level s (Obj n)" and ?o = "mut_owner s (Obj n)" and ?v1 = "set_prio (cur v) (mut_prio s (Obj n)) v"
  have c: "cur v \<in> live v" by (simp add: live_def)
  have l01: "?l = 0 \<or> ?l = 1 \<or> 1 < ?l" by unat_arith
  consider "cb_type s (Obj n) \<noteq> MUCB" | "cb_type s (Obj n) = MUCB" "?l = 0 \<or> ?o \<noteq> run s"
    | "cb_type s (Obj n) = MUCB" "1 < ?l" "?o = run s"
    | "cb_type s (Obj n) = MUCB" "?l = 1" "?o = run s" "waitq v n = []"
    | t ts where "cb_type s (Obj n) = MUCB" "?l = 1" "?o = run s" "waitq v n = t # ts"
    using l01 by (cases "waitq v n") blast+
  then show ?thesis
  proof cases
    case 1
    then show ?thesis using keeps_same [OF assms] by (simp add: svcMutexRelease_def Let_def)
  next
    case 2
    then show ?thesis using rt_mut_release_other [OF 2(2)] keeps_same [OF assms] by (simp add: svcMutexRelease_def Let_def)
  next
    case 3
    let ?s1 = "s\<lparr>mut_owner := (mut_owner s)(Obj n := cur v), mut_prio := mut_prio s, mut_level := (mut_level s)(Obj n := ?l - 1)\<rparr>"
    have "(mut_owner s)(Obj n := cur v) = mut_owner s" using 3 d(3) by (intro fun_upd_idem) simp
    then have "s\<lparr>mut_level := (mut_level s)(Obj n := ?l - 1)\<rparr> = ?s1" by simp
    then have "svcMutexRelease (Obj n) s = Some (osOK, ?s1)"
      using 3 rt_mut_release_nested [of s n] by (simp add: svcMutexRelease_def Let_def ret_codes)
    moreover have "kinv U ?s1 v" by (rule kinv_mut [OF d(1) mut_inv_upd [OF d(7) c]])
    moreover have "run ?s1 = run s" by simp
    ultimately show ?thesis by (rule keepsI) simp
  next
    case 4
    obtain s1 where s1: "rt_mut_release (Obj n) s = Some (OS_R_OK, s1)" "kabs s1 (preempt ?v1)"
      "moved (s\<lparr>mut_level := (mut_level s)(Obj n := 0), prio := prios ?v1\<rparr>) s1"
      using rt_mut_release_free [OF d(2,3,4) 4 refl] by blast
    then have "svcMutexRelease (Obj n) s = Some (osOK, s1)" using 4 by (simp add: svcMutexRelease_def Let_def ret_codes)
    moreover have "mut_inv s1 (preempt ?v1)"
      using d(7) moved_sel [OF s1(3)] by (simp add: mut_inv_def live_preempt live_set_prio)
    then have "kinv U s1 (preempt ?v1)"
      by (intro kinv_moved_mut [OF d(1) s1(3) _ _ s1(2)])
        (auto simp: mbx_same_def sys_same_def waitq_set_prio_Nil live_preempt live_set_prio)
    moreover have "run s1 = run s" using moved_sel [OF s1(3)] by simp
    ultimately show ?thesis by (rule keepsI) simp
  next
    case 5
    let ?v2 = "after_handover t (take_waiter n ?v1)"
    have W1: "waitq ?v1 = waitq v" by (rule release_prio(3) [OF d(2,4) refl])
    then have W: "waitq ?v1 n = t # ts" using 5 by simp
    have lv: "live ?v2 = live v" using live_take_waiter [of ?v1, OF W] by (simp add: live_after_handover live_set_prio)
    have "t \<in> set (waitq v n)" using 5(4) by simp
    then have tl: "t \<in> live v" unfolding live_def by blast
    obtain s1 where s1: "rt_mut_release (Obj n) s = Some (OS_R_OK, s1)" "kabs s1 ?v2"
      "moved (mut_given n t (s\<lparr>prio := prios ?v1\<rparr>)) s1"
      using rt_mut_release_handover [OF d(2,3,4) 5 refl] by blast
    then have "svcMutexRelease (Obj n) s = Some (osOK, s1)" using 5 by (simp add: svcMutexRelease_def Let_def ret_codes)
    moreover have "mut_inv s1 ?v2"
      using d(7) tl moved_sel [OF s1(3)] by (simp add: mut_inv_def lv mut_given_def give_ret_def)
    then have "kinv U s1 ?v2"
      using 5(1) lv by (intro kinv_moved_mut [OF d(1) s1(3) _ _ s1(2)])
        (auto simp: mbx_same_def sys_same_def waitq_take_waiter W1 mut_given_def give_ret_def cb_types split: if_splits)
    moreover have "run s1 = run s" using moved_sel [OF s1(3)] by (simp add: mut_given_def give_ret_def)
    moreover have "timely d v ?v2" using cur_awake(4) [of "take_waiter n ?v1" t] woken_awake(2)
      by (intro timely_wake [where t = t]) (simp_all, simp add: take_waiter_def W)
    ultimately show ?thesis by (rule keepsI)
  qed
qed

subsection \<open>Message queues\<close>

text \<open>An operation on one message queue keeps the invariant when it leaves that queue in order.\<close>

definition mbx_at :: "ptr \<Rightarrow> os \<Rightarrow> u8 \<times> u16 \<times> u16 \<times> u16 \<times> u16 \<times> (nat \<Rightarrow> u32)" where
  "mbx_at p s = (mbx_state s p, mbx_first s p, mbx_last s p, mbx_count s p, mbx_size s p, mbx_msg s p)"

definition mut_same :: "os \<Rightarrow> os \<Rightarrow> bool" where
  "mut_same s s' \<longleftrightarrow> cb_type s' = cb_type s \<and> mut_level s' = mut_level s \<and> mut_owner s' = mut_owner s"

lemma mbx_inv_one:
  assumes i: "mbx_inv s v" and c: "cb_type s' = cb_type s" and o: "\<And>m. m \<noteq> n \<Longrightarrow> mbx_at (Obj m) s' = mbx_at (Obj m) s"
    and w: "\<And>m. m \<noteq> n \<Longrightarrow> waitq v' m = waitq v m" and ok: "mbx_ok (Obj n) s'"
    and full: "waitq v' n \<noteq> [] \<Longrightarrow> mbx_state s' (Obj n) = 2 \<Longrightarrow> length (mbx_content (Obj n) s') = mbx_cap (Obj n) s'"
  shows "mbx_inv s' v'"
proof -
  have "mbx_ok (Obj m) s' = mbx_ok (Obj m) s" "mbx_content (Obj m) s' = mbx_content (Obj m) s"
    "mbx_cap (Obj m) s' = mbx_cap (Obj m) s" "mbx_state s' (Obj m) = mbx_state s (Obj m)" "waitq v' m = waitq v m"
    if "m \<noteq> n" for m
    using o [OF that] w [OF that] by (simp_all add: mbx_at_def mbx_ok_def mbx_content_def mbx_cap_def)
  then show ?thesis using i c ok full unfolding mbx_inv_def by metis
qed

lemma kinv_mbx:
  assumes k: "kinv U s v" and m: "moved s0 s1" and mu: "mut_same s s0" and y: "sys_same s s0"
    and a: "kabs s1 v1" and l: "live v1 = live v" and o: "\<And>m. m \<noteq> n \<Longrightarrow> mbx_at (Obj m) s0 = mbx_at (Obj m) s"
    and w: "\<And>m. m \<noteq> n \<Longrightarrow> waitq v1 m = waitq v m" and ok: "mbx_ok (Obj n) s0"
    and full: "waitq v1 n \<noteq> [] \<Longrightarrow> mbx_state s0 (Obj n) = 2 \<Longrightarrow> length (mbx_content (Obj n) s0) = mbx_cap (Obj n) s0"
  shows "kinv U s1 v1"
proof -
  note e = moved_sel [OF m]
  have i: "mbx_inv s v" "mut_inv s v" using k by (simp_all add: kinv_def)
  have "mut_inv s1 v1" using i(2) mu l e(1,15,16) unfolding mut_inv_def mut_same_def by metis
  moreover have at: "mbx_at p s1 = mbx_at p s0" for p using e by (simp add: mbx_at_def)
  have "mbx_ok (Obj n) s1 = mbx_ok (Obj n) s0" "mbx_content (Obj n) s1 = mbx_content (Obj n) s0"
    "mbx_cap (Obj n) s1 = mbx_cap (Obj n) s0" "mbx_state s1 = mbx_state s0"
    using e by (simp_all add: mbx_ok_def mbx_content_def mbx_cap_def)
  then have "mbx_inv s1 v1"
    using mu e(1) ok full o at w by (intro mbx_inv_one [OF i(1)]) (auto simp: mut_same_def)
  ultimately show ?thesis by (rule kinv_frame [OF k a l _ _ sys_same_trans [OF y sys_same_moved [OF m]]])
qed

lemma keeps_message_put:
  assumes "running U s v"
  shows "keeps U s v (unat (ucast (rt_ms2tick ms) :: u16)) (svcMessagePut (Obj n) m ms s)"
proof -
  note d = runningD [OF assms]
  let ?to = "ucast (rt_ms2tick ms) :: u16" and ?c = "mbx_content (Obj n) s" and ?nr = "waitq v n = [] \<or> mbx_state s (Obj n) \<noteq> 1"
  show ?thesis
  proof (cases "cb_type s (Obj n) = MCB")
    case False
    then show ?thesis by (simp add: svcMessagePut_def keeps_same [OF assms])
  next
    case ty: True
    have ok: "mbx_ok (Obj n) s" and f: "waitq v n \<noteq> [] \<Longrightarrow> mbx_state s (Obj n) = 2 \<Longrightarrow> length ?c = mbx_cap (Obj n) s"
      using d(8) ty by (auto simp: mbx_inv_def)
    have fl: "mbx_count s (Obj n) = mbx_size s (Obj n)" if "\<not> length ?c < mbx_cap (Obj n) s"
      using that mbx_full [OF ok] mbx_content_le [OF ok] by simp
    consider t ts where "waitq v n = t # ts" "mbx_state s (Obj n) = 1" | "?nr" "length ?c < mbx_cap (Obj n) s"
      | "?nr" "\<not> length ?c < mbx_cap (Obj n) s" "?to = 0" | "?nr" "\<not> length ?c < mbx_cap (Obj n) s" "?to \<noteq> 0"
      by (cases "waitq v n") blast+
    then show ?thesis
    proof cases
      case 1
      obtain s1 where s1: "rt_mbx_send (Obj n) m ?to s = Some (OS_R_OK, s1)" "kabs s1 (wake_one n v)" "moved (give_ret2 t 0x10 m s) s1"
        using rt_mbx_send_deliver [OF d(2,3) ty 1] by blast
      then have e: "svcMessagePut (Obj n) m ms s = Some (osOK, s1)" using ty by (simp add: svcMessagePut_def ret_codes)
      show ?thesis by (rule keeps_wake_one [OF assms e s1(2) s1(3) [unfolded give_ret2_def]]) (use 1 in simp)
    next
      case 2
      obtain s1 where s1: "rt_mbx_send (Obj n) m ?to s = Some (OS_R_OK, s1)" "mbx_store (Obj n) m s = Some s1" "mbx_ok (Obj n) s1"
        using rt_mbx_send_store [OF d(2) ty ok 2] by blast
      have x: "s1 = s\<lparr>mbx_msg := (mbx_msg s)(Obj n := (mbx_msg s (Obj n))(unat (mbx_first s (Obj n)) := m)),
         mbx_count := (mbx_count s)(Obj n := mbx_count s (Obj n) + 1),
         mbx_first := (mbx_first s)(Obj n := (if mbx_first s (Obj n) + 1 = mbx_size s (Obj n) then 0 else mbx_first s (Obj n) + 1))\<rparr>"
        using s1(2) mbx_store_eq [of "Obj n" s m] ok by (simp add: mbx_ok_def)
      have n2: "mbx_state s1 (Obj n) = 2 \<Longrightarrow> waitq v n = []" using f 2(2) unfolding x by auto
      have "kinv U s1 v"
        by (rule kinv_mbx [OF d(1) moved_refl _ _ mbx_store_kabs [OF d(2) ok s1(2)] refl _ refl s1(3)])
          (use n2 in \<open>auto simp: x mut_same_def sys_same_def mbx_at_def\<close>)
      moreover have "svcMessagePut (Obj n) m ms s = Some (osOK, s1)" using ty s1(1) by (simp add: svcMessagePut_def ret_codes)
      moreover have "run s1 = run s" by (simp add: x)
      ultimately show ?thesis by (auto intro: keepsI)
    next
      case 3
      then show ?thesis
        using ty rt_mbx_send_poll [OF d(2) ty _ fl, of m] by (simp add: svcMessagePut_def keeps_same [OF assms])
    next
      case 4
      define s0 where "s0 = (if waitq v n = [] then s\<lparr>mbx_state := (mbx_state s)(Obj n := 2)\<rparr> else s)\<lparr>msg := (msg s)(cur v := m)\<rparr>"
      obtain s1 where s1: "rt_mbx_send (Obj n) m ?to s = Some (OS_R_TMO, s1)" "kabs s1 (block_on n (unat ?to) v)" "moved s0 s1"
        using rt_mbx_send_block [OF d(2,3,4) ty 4(1) fl [OF 4(2)] 4(3) s0_def] by blast
      have full: "length (mbx_content (Obj n) s0) = mbx_cap (Obj n) s0"
        using 4(2) mbx_content_le [OF ok] by (simp add: s0_def mbx_content_def mbx_cap_def)
      have "kinv U s1 (block_on n (unat ?to) v)"
        by (rule kinv_mbx [OF d(1) s1(3) _ _ s1(2) live_block_on [OF d(5)]])
          (use ok full in \<open>auto simp: s0_def mut_same_def sys_same_def mbx_at_def mbx_ok_def waitq_block_on\<close>)
      moreover have "\<exists>x. svcMessagePut (Obj n) m ms s = Some (x, s1)" using ty s1(1) by (simp add: svcMessagePut_def)
      moreover have "run s1 = run s" using moved_sel [OF s1(3)] by (simp add: s0_def)
      ultimately show ?thesis by (auto intro: keepsI)
    qed
  qed
qed

lemma keeps_message_get:
  assumes "running U s v"
  shows "keeps U s v (unat (ucast (rt_ms2tick ms) :: u16)) (svcMessageGet (Obj n) ms s)"
proof -
  note d = runningD [OF assms]
  let ?to = "ucast (rt_ms2tick ms) :: u16" and ?c = "mbx_content (Obj n) s"
  show ?thesis
  proof (cases "cb_type s (Obj n) = MCB")
    case False
    then show ?thesis by (simp add: svcMessageGet_def keeps_same [OF assms])
  next
    case ty: True
    have ok: "mbx_ok (Obj n) s" and f: "waitq v n \<noteq> [] \<Longrightarrow> mbx_state s (Obj n) = 2 \<Longrightarrow> length ?c = mbx_cap (Obj n) s"
      using d(8) ty by (auto simp: mbx_inv_def)
    have cap: "mbx_cap (Obj n) s \<noteq> 0" using ok by (auto simp: mbx_ok_def mbx_cap_def unat_eq_zero)
    consider x xs where "?c = x # xs" "waitq v n = [] \<or> mbx_state s (Obj n) \<noteq> 2"
      | x xs t ts where "?c = x # xs" "waitq v n = t # ts" "mbx_state s (Obj n) = 2"
      | "?c = []" "?to = 0" | "?c = []" "?to \<noteq> 0"
      by (cases ?c; cases "waitq v n") blast+
    then show ?thesis
    proof cases
      case 1
      obtain s1 where s1: "rt_mbx_wait (Obj n) ?to s = Some (OS_R_OK, Some x, s1)" "mbx_take (Obj n) s = Some (x, s1)" "mbx_ok (Obj n) s1"
        using rt_mbx_wait_take [OF d(2) ty ok 1(2,1)] by blast
      have e: "s1 = s\<lparr>mbx_last := (mbx_last s)(Obj n := (if mbx_last s (Obj n) + 1 = mbx_size s (Obj n) then 0 else mbx_last s (Obj n) + 1)),
         mbx_count := (mbx_count s)(Obj n := mbx_count s (Obj n) - 1)\<rparr>"
        using s1(2) mbx_take_eq [of "Obj n" s] ok by (simp add: mbx_ok_def)
      have "kinv U s1 v"
        by (rule kinv_mbx [OF d(1) moved_refl _ _ mbx_take_kabs [OF d(2) ok s1(2)] refl _ refl s1(3)])
          (use 1(2) in \<open>auto simp: e mut_same_def sys_same_def mbx_at_def\<close>)
      moreover have "\<exists>x. svcMessageGet (Obj n) ms s = Some (x, s1)" using ty s1(1) by (simp add: svcMessageGet_def ret_codes)
      moreover have "run s1 = run s" by (simp add: e)
      ultimately show ?thesis by (auto intro: keepsI)
    next
      case 2
      obtain s0 s1 where s1: "rt_mbx_wait (Obj n) ?to s = Some (OS_R_OK, Some x, s1)" "kabs s1 (wake_one n v)"
        "mbx_swap (Obj n) (msg s t) s = Some s0" "moved (give_ret t 0 s0) s1"
        using rt_mbx_wait_swap [OF d(2,3) ty ok 2(2,3,1)] by blast
      have full: "length (x # xs) = mbx_cap (Obj n) s" using f 2 by simp
      obtain fi la where e: "s0 = s\<lparr>mbx_last := (mbx_last s)(Obj n := la),
         mbx_msg := (mbx_msg s)(Obj n := (mbx_msg s (Obj n))(unat (mbx_first s (Obj n)) := msg s t)), mbx_first := (mbx_first s)(Obj n := fi)\<rparr>"
        and o: "mbx_ok (Obj n) s0" "mbx_content (Obj n) s0 = xs @ [msg s t]"
        using mbx_swap_law [OF ok 2(1) full, of "msg s t"] s1(3) by auto
      have o': "mbx_ok (Obj n) (give_ret t 0 s0)" "mbx_content (Obj n) (give_ret t 0 s0) = xs @ [msg s t]"
        using o by (simp_all add: give_ret_def mbx_ok_def mbx_content_def)
      have c: "mbx_cap (Obj n) (give_ret t 0 s0) = mbx_cap (Obj n) s" by (simp add: e give_ret_def mbx_cap_def)
      have "kinv U s1 (wake_one n v)"
      proof (rule kinv_mbx [OF d(1) s1(4) _ _ s1(2) live_wake_one [OF 2(2)] _ _ o'(1)])
        show "length (mbx_content (Obj n) (give_ret t 0 s0)) = mbx_cap (Obj n) (give_ret t 0 s0)"
          unfolding o'(2) c using full by simp
      qed (simp_all add: e give_ret_def mut_same_def sys_same_def mbx_at_def waitq_wake_one)
      moreover have "\<exists>x. svcMessageGet (Obj n) ms s = Some (x, s1)" using ty s1(1) by (simp add: svcMessageGet_def ret_codes)
      moreover have "run s1 = run s" using moved_sel [OF s1(4)] by (simp add: e give_ret_def)
      ultimately show ?thesis by (auto intro: keepsI)
    next
      case 3
      then show ?thesis using ty rt_mbx_wait_poll [OF 3(1)] by (simp add: svcMessageGet_def keeps_same [OF assms])
    next
      case 4
      define s0 where "s0 = (if waitq v n = [] then s\<lparr>mbx_state := (mbx_state s)(Obj n := 1)\<rparr> else s)"
      obtain s1 where s1: "rt_mbx_wait (Obj n) ?to s = Some (OS_R_TMO, None, s1)" "kabs s1 (block_on n (unat ?to) v)" "moved s0 s1"
        using rt_mbx_wait_block [OF d(2,3,4) ty 4 s0_def] by blast
      have n2: "mbx_state s0 (Obj n) \<noteq> 2" using f cap 4(1) by (auto simp: s0_def)
      have "kinv U s1 (block_on n (unat ?to) v)"
        by (rule kinv_mbx [OF d(1) s1(3) _ _ s1(2) live_block_on [OF d(5)]])
          (use ok n2 in \<open>auto simp: s0_def mut_same_def sys_same_def mbx_at_def mbx_ok_def waitq_block_on\<close>)
      moreover have "\<exists>x. svcMessageGet (Obj n) ms s = Some (x, s1)" using ty s1(1) by (simp add: svcMessageGet_def)
      moreover have "run s1 = run s" using moved_sel [OF s1(3)] by (simp add: s0_def)
      ultimately show ?thesis by (auto intro: keepsI)
    qed
  qed
qed

subsection \<open>Signals\<close>

lemma rt_evt_wait_zero:
  assumes "run s \<noteq> NULL" and "\<not> evt_met (if all then WAIT_AND else WAIT_OR) fl (events s (run s))"
  shows "rt_evt_wait fl 0 all s = Some (OS_R_TMO, s\<lparr>waits := (waits s)(run s := fl)\<rparr>)"
  using assms by (cases all) (simp_all add: rt_evt_wait_def evt_met_def rt_block_def)

lemma keeps_evt_wait:
  assumes "running U s v"
  shows "keeps U s v (unat to) (rt_evt_wait fl to all s)"
proof -
  note d = runningD [OF assms]
  let ?st = "if all then WAIT_AND else WAIT_OR"
  have rn: "run s \<noteq> NULL" by (rule kinv_run [OF d(1,3)])
  consider "evt_met ?st fl (events s (run s))" | "\<not> evt_met ?st fl (events s (run s))" "to = 0"
    | "\<not> evt_met ?st fl (events s (run s))" "to \<noteq> 0" by blast
  then show ?thesis
  proof cases
    case 1
    from rt_evt_wait_now [OF rn refl this, of to] show ?thesis by (rule keepsI [where ?v1.0 = v]) (use d(1) in simp_all)
  next
    case 2
    from rt_evt_wait_zero [OF rn 2(1)] show ?thesis unfolding 2(2) by (rule keepsI [where ?v1.0 = v]) (use d(1) in simp_all)
  next
    case 3
    then obtain s1 where s1: "rt_evt_wait fl to all s = Some (OS_R_TMO, s1)" "kabs s1 (block_park (unat to) v)"
      "moved (s\<lparr>waits := (waits s)(cur v := fl)\<rparr>) s1"
      using rt_evt_wait_block [OF d(2,3,4) 3(2) refl] d(3) by auto
    then show ?thesis by (rule keeps_park [OF assms])
  qed
qed

lemma keeps_signal_wait:
  assumes "running U s v"
  shows "keeps U s v (unat (ucast (rt_ms2tick ms) :: u16)) (svcSignalWait signals ms s)"
proof (cases "sig_invalid signals")
  case True
  then show ?thesis by (simp add: svcSignalWait_def keeps_same [OF assms])
next
  case False
  note d = runningD [OF assms]
  let ?to = "ucast (rt_ms2tick ms) :: u16"
  let ?r = "if signals \<noteq> 0 then rt_evt_wait (ucast signals) ?to True s else rt_evt_wait 0xFFFF ?to False s"
  have "keeps U s v (unat ?to) ?r" using keeps_evt_wait [OF assms] by simp
  then obtain res s1 v1 where r: "?r = Some (res, s1)" "kinv U s1 v1" "run s1 = run s" "timely (unat ?to) v v1" by (auto simp: keeps_def)
  have "run s1 \<noteq> NULL" using kinv_run [OF d(1,3)] r(3) by simp
  then have "\<exists>x. svcSignalWait signals ms s = Some (x, s1)"
    using False r(1) unfolding svcSignalWait_def by (simp split del: if_split) (simp split: if_splits)
  then show ?thesis using r(2,3,4) by (auto intro: keepsI)
qed

lemma waiting_places:
  assumes "kabs s v" and "state s t = WAIT_AND \<or> state s t = WAIT_OR"
  shows "t \<noteq> cur v \<and> t \<notin> set (rdyq v) \<and> t \<notin> set (waitq v m)"
proof -
  have "styp (state s) (rdyq v) (waitq v) (dlyq v) (parked v)" "state s (cur v) = RUNNING"
    using assms(1) by (simp_all add: kabs_def kst_def)
  moreover have "\<not> obj_wait (state s t)" using assms(2) by (auto simp: obj_wait_def)
  ultimately show ?thesis using assms(2) unfolding styp_def by auto
qed

text \<open>Signals can be set for a thread that the task table knows.\<close>

definition in_table :: "ptr \<Rightarrow> os \<Rightarrow> bool" where
  "in_table t s \<longleftrightarrow> act_get (ucast (task_id s t) - 1) s \<noteq> None"

lemma keeps_signal_set:
  assumes "running U s v" and tab: "in_table t s"
  shows "keeps U s v d (svcSignalSet t signals s)"
proof -
  note d = runningD [OF assms(1)]
  let ?p = "rt_tid2ptcb t s" and ?fl = "ucast signals :: u16"
  consider "?p = NULL \<or> sig_invalid signals" | "?p \<noteq> NULL" "\<not> sig_invalid signals" by blast
  then show ?thesis
  proof cases
    case 1
    then show ?thesis by (auto simp: svcSignalSet_def Let_def keeps_same [OF assms(1)])
  next
    case 2
    have p: "?p = t" using 2(1) by (cases t) (auto split: if_splits)
    let ?tid = "ucast (task_id s t) :: u32"
    obtain u where u: "act_get (?tid - 1) s = Some u" using tab by (auto simp: in_table_def)
    have "keeps U s v d (do { s1 \<leftarrow> rt_evt_set ?fl ?tid s; Some (ucast (events s t) :: u32, s1) })"
    proof (cases "u = NULL")
      case True
      then show ?thesis using u by (simp add: rt_evt_set_def keeps_same [OF assms(1)])
    next
      case un: False
      show ?thesis
      proof (cases "evt_met (state s u) (waits s u) (events s u OR ?fl)")
        case False
        let ?s1 = "s\<lparr>events := (events s)(u := events s u OR ?fl)\<rparr>"
        have "rt_evt_set ?fl ?tid s = Some ?s1" by (rule rt_evt_set_store [OF u un False])
        moreover have "kinv U ?s1 v" "run ?s1 = run s" using d(1) by simp_all
        ultimately show ?thesis by (auto intro: keepsI)
      next
        case True
        have "u \<in> U" using d(1) u un unfolding kinv_def tab_inv_def by blast
        then have "u \<in> live v" using d(6) by simp
        moreover have "u \<noteq> cur v" "u \<notin> set (rdyq v)" "\<And>m. u \<notin> set (waitq v m)"
          using waiting_places [OF d(2), of u] True by (auto simp: evt_met_def)
        ultimately have "u \<in> parked v" by (auto simp: live_def)
        then obtain s1 where s1: "rt_evt_set ?fl ?tid s = Some s1" "kabs s1 (dispatch u (unpark u v))" "moved (evt_given u ?fl s) s1"
          using rt_evt_set_wake [OF d(2,3) u _ True] by blast
        have lv: "live (dispatch u (unpark u v)) = live v"
          using \<open>u \<in> parked v\<close> unfolding live_dispatch by (auto simp: live_def unpark_def)
        have "kinv U (evt_given u ?fl s) v" using d(1) by (simp add: evt_given_def Let_def kinv_mem)
        then have "kinv U s1 (dispatch u (unpark u v))"
          by (rule kinv_moved [OF _ s1(3,2) lv]) (simp add: unpark_def)
        moreover have "run s1 = run s" using moved_sel [OF s1(3)] by (simp add: evt_given_def Let_def)
        ultimately show ?thesis using s1(1) by (auto intro: keepsI)
      qed
    qed
    then show ?thesis using 2 p by (simp add: svcSignalSet_def Let_def)
  qed
qed

section \<open>The transition system\<close>

text \<open>The calls the running thread may make.\<close>

datatype kcall = Sem_wait nat u32 | Sem_release nat | Mut_wait nat u32 | Mut_release nat
  | Put_message nat u32 u32 | Get_message nat u32 | Wait_signal u32 u32 | Set_signal ptr u32 | Sleep u32

fun do_call :: "kcall \<Rightarrow> os \<Rightarrow> os option" where
  "do_call (Sem_wait n ms) s = map_option snd (osSemaphoreWait (Obj n) ms s)"
| "do_call (Sem_release n) s = map_option snd (osSemaphoreRelease (Obj n) s)"
| "do_call (Mut_wait n ms) s = map_option snd (osMutexWait (Obj n) ms s)"
| "do_call (Mut_release n) s = map_option snd (osMutexRelease (Obj n) s)"
| "do_call (Put_message n m ms) s = map_option snd (osMessagePut (Obj n) m ms s)"
| "do_call (Get_message n ms) s = map_option snd (osMessageGet (Obj n) ms s)"
| "do_call (Wait_signal fl ms) s = map_option snd (osSignalWait fl ms s)"
| "do_call (Set_signal t fl) s = map_option snd (osSignalSet t fl s)"
| "do_call (Sleep ms) s = map_option snd (osDelay ms s)"

definition patience :: "kcall \<Rightarrow> nat" where
  "patience c = (let ticks = \<lambda>ms. unat (ucast (rt_ms2tick ms) :: u16) in
     case c of Sem_wait _ ms \<Rightarrow> ticks ms | Mut_wait _ ms \<Rightarrow> ticks ms | Put_message _ _ ms \<Rightarrow> ticks ms
     | Get_message _ ms \<Rightarrow> ticks ms | Wait_signal _ ms \<Rightarrow> ticks ms | Sleep ms \<Rightarrow> ticks ms | _ \<Rightarrow> 0)"

definition allowed :: "kcall \<Rightarrow> os \<Rightarrow> bool" where
  "allowed c s \<longleftrightarrow> run s \<noteq> os_idle_TCB \<and> (case c of Set_signal t _ \<Rightarrow> in_table t s | _ \<Rightarrow> True)"

inductive kstep :: "os \<Rightarrow> os \<Rightarrow> bool" where
  call: "allowed c s \<Longrightarrow> do_call c s = Some s' \<Longrightarrow> kstep s s'"
| tick: "SysTick_Handler s = Some s' \<Longrightarrow> kstep s s'"

inductive_cases kstepE: "kstep s s'"

inductive kreach :: "os \<Rightarrow> os \<Rightarrow> bool" where
  start: "kreach s s"
| step: "kreach s s1 \<Longrightarrow> kstep s1 s2 \<Longrightarrow> kreach s s2"

lemma svc_call_steps:
  assumes "keeps U s v d (f s)" and "running U s v"
  shows "\<exists>s' v'. svc_call f s = Some s' \<and> kinv U s' v' \<and> run s' = cur v' \<and> timely d v v'"
proof -
  obtain x s1 v1 where "f s = Some (x, s1)" "kinv U s1 v1" "run s1 = run s" "timely d v v1" using assms(1) by (auto simp: keeps_def)
  then show ?thesis using call_inv [of f s x s1 U v1] kinv_run [OF runningD(1,3) [OF assms(2)]] by auto
qed

lemma svc_event_steps:
  assumes "keeps U s v d (f s)" and "running U s v"
  shows "\<exists>s' v'. svc_call_event f s = Some s' \<and> kinv U s' v' \<and> run s' = cur v' \<and> timely d v v'"
proof -
  obtain x s1 v1 where "f s = Some (x, s1)" "kinv U s1 v1" "run s1 = run s" "timely d v v1" using assms(1) by (auto simp: keeps_def)
  then show ?thesis using call_event_inv [of f s x s1 U v1] kinv_run [OF runningD(1,3) [OF assms(2)]] by auto
qed

lemma do_call_inv:
  assumes "kinv U s v" and "run s = cur v" and "allowed c s"
  shows "\<exists>s' v'. do_call c s = Some s' \<and> kinv U s' v' \<and> run s' = cur v' \<and> timely (patience c) v v'"
proof -
  have r: "running U s v" using assms by (simp add: running_def allowed_def)
  have th: "\<not> in_isr s" using assms(1) by (simp add: kinv_def)
  show ?thesis
  proof (cases c)
    case (Set_signal t fl)
    then have "in_table t s" using assms(3) by (simp add: allowed_def)
    from svc_call_steps [where f = "svcSignalSet t fl" and d = 0, OF keeps_signal_set [OF r this] r] show ?thesis using th by (auto simp: Set_signal osSignalSet_def in_frame_def patience_def)
  next
    case (Sem_wait n ms)
    from svc_call_steps [where f = "svcSemaphoreWait (Obj n) ms", OF keeps_sem_wait [OF r] r] show ?thesis using th by (auto simp: Sem_wait osSemaphoreWait_def in_frame_def patience_def)
  next
    case (Sem_release n)
    from svc_call_steps [where f = "svcSemaphoreRelease (Obj n)" and d = 0, OF keeps_sem_release [OF r] r] show ?thesis using th by (auto simp: Sem_release osSemaphoreRelease_def in_frame_def patience_def)
  next
    case (Mut_wait n ms)
    from svc_call_steps [where f = "svcMutexWait (Obj n) ms", OF keeps_mut_wait [OF r] r] show ?thesis using th by (auto simp: Mut_wait osMutexWait_def in_frame_def patience_def)
  next
    case (Mut_release n)
    from svc_call_steps [where f = "svcMutexRelease (Obj n)" and d = 0, OF keeps_mut_release [OF r] r] show ?thesis using th by (auto simp: Mut_release osMutexRelease_def in_frame_def patience_def)
  next
    case (Put_message n m ms)
    from svc_call_steps [where f = "svcMessagePut (Obj n) m ms", OF keeps_message_put [OF r] r] show ?thesis using th by (auto simp: Put_message osMessagePut_def in_frame_def patience_def)
  next
    case (Get_message n ms)
    from svc_event_steps [where f = "svcMessageGet (Obj n) ms", OF keeps_message_get [OF r] r] show ?thesis using th by (auto simp: Get_message osMessageGet_def in_frame_def patience_def)
  next
    case (Wait_signal fl ms)
    from svc_event_steps [where f = "svcSignalWait fl ms", OF keeps_signal_wait [OF r] r] show ?thesis using th by (auto simp: Wait_signal osSignalWait_def in_frame_def patience_def)
  next
    case (Sleep ms)
    from svc_call_steps [where f = "svcDelay ms", OF keeps_delay [OF r] r] show ?thesis using th by (auto simp: Sleep osDelay_def in_frame_def patience_def)
  qed
qed

text \<open>A tick takes one off every time-out; the threads whose time is over are ready.\<close>

lemma tick_inv:
  assumes k: "kinv U s v" and r: "run s = cur v"
  shows "\<exists>s' v'. SysTick_Handler s = Some s' \<and> kinv U s' v' \<and> run s' = cur v' \<and>
     (\<forall>t j. (t, j) \<in> set (dlyq v) \<longrightarrow> 0 < j \<and>
        (if j = 1 then t \<in> awake v' else (t, j - 1) \<in> set (dlyq v')))"
proof -
  let ?v = "run_next (tick_view (robin_view s (all_ready v)))"
  have ka: "kabs s v" and tm: "tinv s []" and ok: "psq_ok s" and len: "length (callee_regs s) = 8" and lv: "live v = U"
    and mu: "mut_inv s v" and mb: "mbx_inv s v" and ta: "tab_inv U s" and th: "\<not> in_isr s"
    using k by (simp_all add: kinv_def)
  have "linv s (rdyq v) (waitq v) (dlyq v) (insert (cur v) (parked v))" using kst_linv [of "{}" s v] ka by (simp add: kabs_def)
  then have dl: "dly_list s (dlyq v)" and own: "fst ` set (dlyq v) \<subseteq> set (rdyq v) \<union> insert (cur v) (parked v) \<union> (\<Union>n. set (waitq v n))"
    by (simp_all add: linv_def own_ok_def)
  have nc: "cur v \<notin> fst ` set (dlyq v)" using ka by (simp add: kabs_def kst_def)
  have "set (woken (dlyq v)) \<subseteq> fst ` set (dlyq v)" using woken_iff [OF dl] by force
  moreover have "fst ` set (dlyq v) \<subseteq> others v"
  proof
    fix t assume t: "t \<in> fst ` set (dlyq v)"
    have "t \<noteq> cur v" using t nc by (rule in_notin_neq)
    then show "t \<in> others v" using subsetD [OF own t] by (simp add: others_def)
  qed
  ultimately have wk: "set (woken (dlyq v)) \<subseteq> others v" by (rule order_trans)
  have "woken [] = []" by (simp add: woken_def due_def)
  moreover have "tick_dly [] = []" by (simp add: tick_dly_def not_due_def)
  moreover have "length (psq_content s) \<le> psq_cap s" using ok by (simp add: psq_ok_def psq_content_def psq_cap_def word_le_nat_alt)
  ultimately obtain s1 where s1: "rt_systick s = Some s1" "kabs s1 ?v" "tinv s1 []" "psq_ok s1" "run s1 = run s"
    "callee_regs s1 = callee_regs s" "obj_same s s1"
    using rt_systick_spec [OF ka r tm ok] by auto
  have act: "os_active_TCB s1 = os_active_TCB s" using s1(7) by (simp add: obj_same_def)
  have lv1: "live ?v = live v" by (rule live_tick [OF wk])
  have w1: "waitq v n \<noteq> []" if "waitq ?v n \<noteq> []" for n
    using that by (auto simp: tick_view_def robin_view_def Rt_Time.rotate_def all_ready_def wake_wait_def split: if_splits)
  have mb1: "mbx_inv s1 ?v" by (rule mbx_inv_frame [OF mb obj_same_mbx [OF s1(7)]]) (rule w1)
  have k1: "kinv U s1 ?v"
    using s1 lv1 lv len th mut_inv_frame [OF mu s1(7) lv1] mb1 tab_inv_cong [OF act] ta
    by (simp add: kinv_def in_isr_def obj_same_def)
  have n: "run s1 \<noteq> NULL" using kinv_run [OF k r] s1(5) by simp
  then obtain s' where s': "SVC_switch s1 = Some s'" "kabs s' ?v" "run s' = cur ?v" "svc_same s1 s'" "length (callee_regs s') = 8"
    using SVC_switch_spec [OF s1(2) n] s1(6) len by auto
  have "Sys_Switch s1 = SVC_switch s1" using n by (simp add: Sys_Switch_def SVC_switch_def)
  then have "SysTick_Handler s = Some s'" using s1(1) s'(1) by (simp add: SysTick_Handler_def)
  moreover have "kinv U s' ?v" by (rule kinv_switched [OF k1 s'(2,4,5)])
  moreover have "0 < j \<and> (if j = 1 then t \<in> awake ?v else (t, j - 1) \<in> set (dlyq ?v))"
    if t: "(t, j) \<in> set (dlyq v)" for t j
  proof -
    have j: "0 < j" using dly_list_times [OF dl t] by simp
    have d: "dlyq ?v = tick_dly (dlyq v)" by (simp add: tick_view_def robin_view_def rotate_def all_ready_def)
    have rd: "awake ?v = set (rdyq (tick_view (robin_view s (all_ready v))))"
      if "rdyq (tick_view (robin_view s (all_ready v))) \<noteq> []"
      using that by (cases "rdyq (tick_view (robin_view s (all_ready v)))") (auto simp: run_next_def awake_def)
    show ?thesis
    proof (cases "j = 1")
      case True
      then have "t \<in> set (woken (dlyq v))" using woken_iff [OF dl] t by simp
      then have "t \<in> set (rdyq (tick_view (robin_view s (all_ready v))))"
        by (simp add: tick_view_def set_wake_rdy' robin_view_def rotate_def all_ready_def)
      then show ?thesis using rd True by force
    next
      case False
      then have "(t, j - 1) \<in> set (tick_dly (dlyq v))" using tick_dly_iff [OF dl, of t "j - 1"] t j by simp
      then show ?thesis using j False d by simp
    qed
  qed
  ultimately show ?thesis using s'(3) by blast
qed

text \<open>In every state that steps can lead to, the invariant holds and the next step exists.\<close>

lemma kstep_inv:
  assumes "kstep s s'" and "kinv U s v" and "run s = cur v"
  shows "\<exists>v'. kinv U s' v' \<and> run s' = cur v'"
  using assms(1)
proof (cases rule: kstep.cases)
  case (call c)
  then show ?thesis using do_call_inv [OF assms(2,3)] by fastforce
next
  case tick
  then show ?thesis using tick_inv [OF assms(2,3)] by auto
qed

lemma kreach_inv:
  "kreach s s' \<Longrightarrow> kinv U s v \<Longrightarrow> run s = cur v \<Longrightarrow> \<exists>v'. kinv U s' v' \<and> run s' = cur v'"
proof (induction rule: kreach.induct)
  case (step s s1 s2)
  then show ?case using kstep_inv by blast
qed blast

lemma kinv_ready:
  assumes "kinv U s v" and "t \<in> U" and "state s t = READY"
  shows "t \<in> set (rdyq v)" and "prio s t \<le> prio s (cur v)"
proof -
  have st: "styp (state s) (rdyq v) (waitq v) (dlyq v) (parked v)" "state s (cur v) = RUNNING"
    and top: "\<forall>t\<in>set (rdyq v). prio s t \<le> prio s (cur v)"
    using assms(1) by (simp_all add: kinv_def kabs_def kst_def)
  have n: "\<not> obj_wait (state s t)" "\<not> park_wait (state s t)" "state s t \<noteq> RUNNING"
    using assms(3) by simp_all
  then have "t \<notin> parked v" "\<And>m. t \<notin> set (waitq v m)" "t \<noteq> cur v"
    using st unfolding styp_def by auto
  moreover have "t \<in> live v" using assms(1,2) by (simp add: kinv_def)
  ultimately show "t \<in> set (rdyq v)" by (auto simp: live_def)
  then show "prio s t \<le> prio s (cur v)" using top by blast
qed

lemma kinv_awake:
  assumes "kinv U s v" and "t \<in> awake v"
  shows "state s t = READY \<or> state s t = RUNNING"
  using assms by (auto simp: kinv_def kabs_def kst_def styp_def awake_def)

section \<open>Time-outs\<close>

text \<open>\<open>asleep t s n s'\<close>: a run from \<open>s\<close> to \<open>s'\<close> with \<open>n\<close> ticks, in all states of which the thread \<open>t\<close> waits.\<close>

inductive asleep :: "ptr \<Rightarrow> os \<Rightarrow> nat \<Rightarrow> os \<Rightarrow> bool" for t where
  start: "state s t \<noteq> READY \<Longrightarrow> state s t \<noteq> RUNNING \<Longrightarrow> asleep t s 0 s"
| call: "asleep t s n s1 \<Longrightarrow> allowed c s1 \<Longrightarrow> do_call c s1 = Some s2 \<Longrightarrow> state s2 t \<noteq> READY \<Longrightarrow>
    state s2 t \<noteq> RUNNING \<Longrightarrow> asleep t s n s2"
| tick: "asleep t s n s1 \<Longrightarrow> SysTick_Handler s1 = Some s2 \<Longrightarrow> state s2 t \<noteq> READY \<Longrightarrow>
    state s2 t \<noteq> RUNNING \<Longrightarrow> asleep t s (Suc n) s2"

lemma asleep_timed:
  assumes "asleep t s n s'" and "kinv U s v" and "run s = cur v" and "(t, j) \<in> set (dlyq v)"
  shows "n < j \<and> (\<exists>v'. kinv U s' v' \<and> run s' = cur v' \<and> (t, j - n) \<in> set (dlyq v'))"
  using assms
proof (induction rule: asleep.induct)
  case (start s)
  have "0 < j" using tick_inv [OF start(3,4)] start(5) by blast
  then show ?case using start(3,4,5) by (intro conjI exI [of _ v]) simp_all
next
  case (call s n s1 c s2)
  then obtain v1 where v1: "n < j" "kinv U s1 v1" "run s1 = cur v1" "(t, j - n) \<in> set (dlyq v1)" by blast
  obtain v2 where v2: "kinv U s2 v2" "run s2 = cur v2" "timely (patience c) v1 v2" using do_call_inv [OF v1(2,3) call(2)] call(3) by auto
  moreover have "t \<notin> awake v2" using kinv_awake [OF v2(1)] call(4,5) by blast
  ultimately show ?case using v1(1,4) unfolding timely_def by blast
next
  case (tick s n s1 s2)
  then obtain v1 where v1: "n < j" "kinv U s1 v1" "run s1 = cur v1" "(t, j - n) \<in> set (dlyq v1)" by blast
  obtain v2 where v2: "kinv U s2 v2" "run s2 = cur v2"
    and tm: "\<forall>t j. (t, j) \<in> set (dlyq v1) \<longrightarrow> 0 < j \<and>
        (if j = 1 then t \<in> awake v2 else (t, j - 1) \<in> set (dlyq v2))"
    using tick_inv [OF v1(2,3)] unfolding tick(2) by blast
  have t: "if j - n = 1 then t \<in> awake v2 else (t, j - n - 1) \<in> set (dlyq v2)"
    using tm v1(4) by blast
  have "t \<notin> awake v2" using kinv_awake [OF v2(1)] tick(3,4) by blast
  then have "j - n \<noteq> 1" "(t, j - n - 1) \<in> set (dlyq v2)" using t by (auto split: if_splits)
  then have "(t, j - Suc n) \<in> set (dlyq v2)" by simp
  moreover have "Suc n < j" using v1(1) \<open>j - n \<noteq> 1\<close> by simp
  ultimately show ?case using v2 by blast
qed

end
