(* ===== verification/Kernel_Safe.thy ===== *)
theory Kernel_Safe
  imports Kernel_Run
begin

text \<open>
  Properties of the kernel that hold over whole runs: of any calls of any threads and any ticks between
  them.
\<close>

section \<open>The concrete memory satisfies the invariant\<close>

definition demo_tasks :: "ptr set" where
  "demo_tasks = Tcb ` {0, 2, 3, 4, 5, 6, 7, 8, 9}"

lemma demo_live_all: "live demo_view = demo_tasks"
proof -
  have "(\<Union>m. set (waitq demo_view m)) = {Tcb 2, Tcb 5, Tcb 6, Tcb 8}"
  proof (rule set_eqI)
    fix t
    have w: "waitq demo_view m = (if m = 0 then [Tcb 2] else if m = 11 then [Tcb 5] else if m = 2 then [Tcb 6]
        else if m = 4 then [Tcb 8] else [])" for m by (simp add: demo_view_def)
    show "t \<in> (\<Union>m. set (waitq demo_view m)) \<longleftrightarrow> t \<in> {Tcb 2, Tcb 5, Tcb 6, Tcb 8}"
      using demo_waitq by (auto simp: w split: if_splits intro: exI [of _ 0] exI [of _ 11] exI [of _ 2] exI [of _ 4])
  qed
  then show ?thesis by (auto simp: live_def demo_view_def demo_tasks_def)
qed

lemma demo_kinv: "kinv demo_tasks demo demo_view"
proof -
  have "mut_inv demo demo_view"
    using demo_live_all by (auto simp: mut_inv_def demo_def demo_tasks_def cb_types)
  moreover have "mbx_inv demo demo_view"
    by (auto simp: mbx_inv_def mbx_ok_def mbx_content_def mbx_cap_def demo_def demo_view_def cb_types split: if_splits)
  moreover have "tinv demo []" by (simp add: tinv_def timer_list_def tlnk_def demo_def timer_codes)
  moreover have "tab_inv demo_tasks demo"
    unfolding tab_inv_def act_get_def by (auto simp: demo_def demo_tasks_def nth_Cons split: nat.splits if_splits)
  moreover have "psq_ok demo" "length (callee_regs demo) = 8" "\<not> in_isr demo"
    by (simp_all add: psq_ok_def demo_def in_isr_def)
  ultimately show ?thesis using demo_kabs demo_live_all by (simp add: kinv_def)
qed

lemma demo_at: "run demo = cur demo_view" "allowed (Sleep 5) demo"
  using demo_run by (simp_all add: allowed_def)

section \<open>Safety\<close>

text \<open>C1. After any calls of any threads and any ticks, in any order: no thread is lost and each is in the one place
  its state names (the view), the thread that runs is marked running and is at least as urgent as every
  thread that is ready, every call it can make returns, and the next tick returns. No call and no
  tick dereferences a null pointer or leaves an array, and every loop ends.\<close>

theorem kernel_safe:
  assumes "kinv U s0 v0" and "run s0 = cur v0" and "kreach s0 s"
  shows "(\<exists>v. kabs s v \<and> run s = cur v \<and> live v = U) \<and> state s (run s) = RUNNING \<and>
     (\<forall>t\<in>U. state s t = READY \<longrightarrow> prio s t \<le> prio s (run s)) \<and>
     (\<forall>c. allowed c s \<longrightarrow> (\<exists>s'. do_call c s = Some s')) \<and> (\<exists>s'. SysTick_Handler s = Some s')"
proof -
  obtain v where v: "kinv U s v" "run s = cur v" using kreach_inv [OF assms(3,1,2)] by blast
  then have k: "kabs s v" "live v = U" "state s (run s) = RUNNING" by (simp_all add: kinv_def kabs_def kst_def)
  have "\<forall>t\<in>U. state s t = READY \<longrightarrow> prio s t \<le> prio s (run s)" using kinv_ready(2) [OF v(1)] v(2) by simp
  moreover have "\<forall>c. allowed c s \<longrightarrow> (\<exists>s'. do_call c s = Some s')" using do_call_inv [OF v] by blast
  moreover have "\<exists>s'. SysTick_Handler s = Some s'" using tick_inv [OF v] by blast
  ultimately show ?thesis using k v(2) by blast
qed

theorem kernel_safe_witness:
  "\<exists>s1 s2. do_call (Sleep 5) demo = Some s1 \<and> SysTick_Handler s1 = Some s2 \<and> state s2 (run s2) = RUNNING \<and>
     (\<forall>t\<in>demo_tasks. state s2 t = READY \<longrightarrow> prio s2 t \<le> prio s2 (run s2))"
proof -
  obtain s1 v1 where s1: "do_call (Sleep 5) demo = Some s1" "kinv demo_tasks s1 v1" "run s1 = cur v1"
    using do_call_inv [OF demo_kinv demo_at] by blast
  obtain s2 where s2: "SysTick_Handler s1 = Some s2" using tick_inv [OF s1(2,3)] by blast
  have "kreach demo s2" using s1(1) s2 demo_at by (blast intro: kreach.intros kstep.intros)
  from kernel_safe [OF demo_kinv demo_at(1) this] show ?thesis using s1(1) s2 by blast
qed

section \<open>Liveness\<close>

lemma sleep_parks:
  assumes "running U s v" and "0 < patience (Sleep ms)" and "patience (Sleep ms) < 65535"
  shows "\<exists>s' v'. do_call (Sleep ms) s = Some s' \<and> kinv U s' v' \<and> run s' = cur v' \<and> (cur v, patience (Sleep ms)) \<in> set (dlyq v')"
proof -
  note d = runningD [OF assms(1)]
  let ?to = "ucast (rt_ms2tick ms) :: u16"
  have p: "patience (Sleep ms) = unat ?to" by (simp add: patience_def)
  moreover have "(ucast (rt_ms2tick 0) :: u16) = 0"
    by (simp add: rt_ms2tick_def osWaitForever_def os_clockrate_def Let_def)
  ultimately have to: "?to \<noteq> 0" "ms \<noteq> 0" using assms(2) by auto
  obtain s1 where s1: "rt_dly_wait ?to s = Some s1" "kabs s1 (block_park (unat ?to) v)" "moved s s1"
    using rt_dly_wait_spec [OF d(2,3,4), of ?to] to by auto
  have "kinv U s1 (block_park (unat ?to) v)"
    using live_block_park [OF d(5)] by (intro kinv_moved [OF d(1) s1(3,2)]) simp_all
  moreover have "svcDelay ms s = Some (osEventTimeout, s1)" using s1(1) to by (simp add: svcDelay_def)
  moreover have "run s1 \<noteq> NULL" using kinv_run [OF d(1,3)] moved_sel [OF s1(3)] by simp
  ultimately obtain s' where "svc_call (svcDelay ms) s = Some s'" "kinv U s' (block_park (unat ?to) v)"
    "run s' = cur (block_park (unat ?to) v)" using call_inv [of "svcDelay ms" s osEventTimeout s1] by blast
  moreover have "(cur v, unat ?to) \<in> set (dlyq (block_park (unat ?to) v))"
    using assms(3) p by (simp add: block_park_def set_timeout_def)
  moreover have "\<not> in_isr s" using d(1) by (simp add: kinv_def)
  ultimately show ?thesis unfolding p by (auto simp: osDelay_def in_frame_def)
qed

lemma asleep_start: "asleep t s n s' \<Longrightarrow> state s t \<noteq> READY \<and> state s t \<noteq> RUNNING"
  by (induction rule: asleep.induct) simp_all

lemma dly_asleep:
  assumes "kinv U s v" and "(t, j) \<in> set (dlyq v)" and "t \<in> U"
  shows "state s t \<noteq> READY \<and> state s t \<noteq> RUNNING"
proof -
  have d: "t \<in> fst ` set (dlyq v)" using assms(2) by force
  have k: "styp (state s) (rdyq v) (waitq v) (dlyq v) (parked v)" "cur v \<notin> fst ` set (dlyq v)" "live v = U"
    using assms(1) by (simp_all add: kinv_def kabs_def kst_def)
  then have "t \<notin> set (rdyq v)" "t \<noteq> cur v" using d unfolding styp_def by blast+
  then have "t \<in> parked v \<or> (\<exists>m. t \<in> set (waitq v m))" using assms(3) k(3) by (auto simp: live_def)
  then have "obj_wait (state s t) \<or> park_wait (state s t)" using k(1) unfolding styp_def by blast
  then show ?thesis by auto
qed

text \<open>C2. No thread waits longer than it asked for: from a call with a time-out of \<open>patience c\<close> ticks the caller
  stays in a waiting state for less than that many ticks, whatever the other threads do.\<close>

theorem timeout_served:
  assumes "kinv U s v" and "run s = cur v" and "allowed c s" and "do_call c s = Some s1"
    and "patience c < 65535" and "asleep (run s) s1 n s2"
  shows "n < patience c"
proof -
  obtain v1 where v1: "kinv U s1 v1" "run s1 = cur v1" "timely (patience c) v v1"
    using do_call_inv [OF assms(1-3)] assms(4) by auto
  have "cur v \<notin> awake v1" using kinv_awake [OF v1(1)] asleep_start [OF assms(6)] assms(2) by auto
  then have "(run s, patience c) \<in> set (dlyq v1)" using v1(3) assms(2,5) by (simp add: timely_def)
  then show ?thesis using asleep_timed [OF assms(6) v1(1,2)] by blast
qed

theorem timeout_served_witness:
  "\<exists>s1 s2. do_call (Sleep 5) demo = Some s1 \<and> SysTick_Handler s1 = Some s2 \<and> asleep (run demo) s1 1 s2 \<and> 1 < patience (Sleep 5)"
proof -
  have p: "patience (Sleep 5) = 5"
    by (simp add: patience_def rt_ms2tick_def os_clockrate_def osWaitForever_def Let_def)
  have u: "cur demo_view \<in> demo_tasks" using demo_run by (simp add: demo_tasks_def)
  have r: "running demo_tasks demo demo_view" using demo_kinv demo_at demo_run by (simp add: running_def)
  obtain s1 v1 where s1: "do_call (Sleep 5) demo = Some s1" "kinv demo_tasks s1 v1" "run s1 = cur v1" "(cur demo_view, 5) \<in> set (dlyq v1)"
    using sleep_parks [OF r, of 5] p by auto
  obtain s2 v2 where s2: "SysTick_Handler s1 = Some s2" "kinv demo_tasks s2 v2" "(cur demo_view, 4) \<in> set (dlyq v2)"
    using tick_inv [OF s1(2,3)] s1(4) by fastforce
  have "asleep (cur demo_view) s1 0 s1" using dly_asleep [OF s1(2,4) u] by (simp add: asleep.start)
  then have a: "asleep (cur demo_view) s1 (Suc 0) s2"
    using s2(1) dly_asleep [OF s2(2,3) u] by (simp add: asleep.tick)
  then have "asleep (run demo) s1 1 s2" by (simp add: demo_run)
  then show ?thesis using timeout_served [OF demo_kinv demo_at s1(1)] p s1(1) s2(1) by auto
qed

end
