(* ===== verification/Cmsis_Props.thy ===== *)
theory Cmsis_Props
  imports Cmsis_Kernel Demo
begin

text \<open>
  Properties of the CMSIS layer: what a thread that calls the public functions gets, through the
  service call, the scheduler and the context switch.
\<close>

section \<open>Time-outs\<close>

lemma ms2tick_u16: "unat (ucast (rt_ms2tick ms) :: u16) = unat (rt_ms2tick ms)"
proof -
  have "unat (rt_ms2tick ms) < 2 ^ LENGTH(16)" using rt_ms2tick_eq [of ms] by (simp add: min_less_iff_disj)
  then show ?thesis unfolding unsigned_ucast_eq by (simp add: take_bit_nat_eq_self)
qed

lemma ms2tick_zero: "(ucast (rt_ms2tick ms) :: u16) = 0 \<longleftrightarrow> ms = 0"
proof -
  have "(ucast (rt_ms2tick ms) :: u16) = 0 \<longleftrightarrow> unat (rt_ms2tick ms) = 0"
    unfolding ms2tick_u16 [symmetric] word_unat_eq_iff by simp
  also have "\<dots> \<longleftrightarrow> unat ms = 0" using rt_ms2tick_eq [of ms] by (auto simp: osWaitForever_def min_def)
  also have "\<dots> \<longleftrightarrow> ms = 0" unfolding word_unat_eq_iff by simp
  finally show ?thesis .
qed

text \<open>C24. With the system tick of one millisecond a time-out in milliseconds is the same number of
  ticks up to the limit of 65534; waiting forever is the value that arms no time-out.\<close>

theorem rt_ms2tick_exact:
  "unat (rt_ms2tick ms) = (if ms = osWaitForever then 65535 else min (unat ms) 65534)"
  by (rule rt_ms2tick_eq)

section \<open>Semaphores\<close>

lemma unat_u16_u32: "unat (ucast (w :: u16) :: u32) = unat w"
proof -
  have "unat w < 2 ^ LENGTH(32)" using unat_u16_less [of w] by (simp del: unat_u16_less)
  then show ?thesis unfolding unsigned_ucast_eq by (simp add: take_bit_nat_eq_self)
qed

lemma ucast_dec_inc: "(w :: u16) \<noteq> 0 \<Longrightarrow> (ucast (w - 1) :: u32) + 1 = ucast w"
proof -
  assume w: "w \<noteq> 0"
  have u: "unat (ucast (w - 1) :: u32) = unat w - 1" using w unat_u16_u32 [of "w - 1"] by (simp add: unat_minus_one)
  have "unat w \<noteq> 0" using w unfolding word_unat_eq_iff by simp
  moreover have "unat ((ucast (w - 1) :: u32) + 1) = unat w - 1 + 1"
    using u unat_u16_less [of w] by (subst unat_add_lem [THEN iffD1]) (simp_all del: unat_u16_less)
  ultimately show ?thesis unfolding word_unat_eq_iff unat_u16_u32 by simp
qed

lemma kabs_cur_tcb: "kabs s v \<Longrightarrow> is_tcb (cur v)"
  using kst_tcb [of "{}" s v "cur v"] by (simp add: kabs_def)

text \<open>\<open>osSemaphoreWait\<close> called by a thread: with a token the caller gets the number of tokens there
  were and keeps running; without one it gets 0, at once when it does not wait and otherwise
  unless it is woken, and meanwhile the best ready thread runs.\<close>

lemma osSemaphoreWait_spec:
  assumes k: "kabs s v" and r: "run s = cur v" and i: "cur v \<noteq> os_idle_TCB" and len: "length (callee_regs s) = 8"
    and th: "\<not> in_isr s" and ty: "cb_type s (Obj n) = SCB"
  shows "\<exists>s' v'. osSemaphoreWait (Obj n) ms s = Some (In_frame, s') \<and> kabs s' v' \<and> run s' = cur v' \<and>
     (if tokens s (Obj n) \<noteq> 0
      then v' = v \<and> task_r0 s' (cur v) = ucast (tokens s (Obj n)) \<and>
        tokens s' = (tokens s)(Obj n := tokens s (Obj n) - 1)
      else v' = (if ms = 0 then v else block_on n (unat (rt_ms2tick ms)) v) \<and> task_r0 s' (cur v) = 0 \<and>
        tokens s' = tokens s)"
proof -
  let ?to = "ucast (rt_ms2tick ms) :: u16" and ?tk = "tokens s (Obj n)"
  let ?v' = "if ?tk \<noteq> 0 \<or> ms = 0 then v else block_on n (unat (rt_ms2tick ms)) v"
  let ?s0 = "s\<lparr>tokens := (tokens s)(Obj n := ?tk - 1)\<rparr>"
  have t: "run s \<noteq> NULL" using kabs_cur_tcb [OF k] r by auto
  obtain res s1 where w: "rt_sem_wait (Obj n) ?to s = Some (res, s1)" and res: "res = (if ?tk \<noteq> 0 then OS_R_OK else OS_R_TMO)"
    and k1: "kabs s1 ?v'" and m1: "moved (if ?tk \<noteq> 0 then ?s0 else s) s1"
  proof (cases "?tk = 0")
    case False
    moreover have "kabs ?s0 v" using k by (simp add: kabs_def)
    ultimately show ?thesis using rt_sem_wait_token [of s n ?to] by (intro that [of OS_R_OK ?s0]) (simp, simp, simp, simp only: moved_refl if_True not_False_eq_True)
  next
    case True
    show ?thesis
    proof (cases "ms = 0")
      case ms: True
      then show ?thesis using that True rt_sem_wait_poll [of s n] k ms2tick_zero [of ms] by simp
    next
      case False
      then show ?thesis
        using that True rt_sem_wait_block [OF k r i ty True, of ?to] ms2tick_zero [of ms] ms2tick_u16 [of ms] by auto
    qed
  qed
  note ms1 = moved_sel [OF m1]
  let ?r = "if ?tk \<noteq> 0 then ucast ?tk else 0 :: u32"
  have "svcSemaphoreWait (Obj n) ms s = Some (?r, s1)"
    using w ty res ms1 by (simp add: svcSemaphoreWait_def Let_def ret_codes ucast_dec_inc)
  moreover have "run s1 = cur v" "length (callee_regs s1) = 8" using ms1 r len by (simp_all split: if_splits)
  ultimately obtain s' where s': "svc_call (svcSemaphoreWait (Obj n) ms) s = Some s'" "kabs s' ?v'" "run s' = cur ?v'"
    "svc_same s1 s'" "task_r0 s' (cur v) = ?r"
    using svc_call_spec [of "svcSemaphoreWait (Obj n) ms" s ?r s1, OF _ k1] t r by auto
  then have "osSemaphoreWait (Obj n) ms s = Some (In_frame, s')" "tokens s' = tokens s1"
    using th svc_same_sel(1) by (simp_all add: osSemaphoreWait_def in_frame_def)
  then show ?thesis using s' ms1 by (intro exI [of _ s'] exI [of _ ?v']) (simp split: if_splits)
qed

lemma demo_regs: "length (callee_regs demo) = 8" "\<not> in_isr demo"
  by (simp_all add: demo_def in_isr_def)

lemma demo_ticks: "unat (rt_ms2tick 7) = 7" "unat (rt_ms2tick osWaitForever) = 65535"
  by (simp_all add: rt_ms2tick_eq osWaitForever_def)

lemma osSemaphoreWait_spec_example:
  "\<exists>s'. osSemaphoreWait (Obj 5) 7 demo = Some (In_frame, s') \<and> kabs s' (block_on 5 7 demo_view) \<and>
     run s' = Tcb 4 \<and> task_r0 s' (Tcb 9) = 0"
proof -
  have "cur (block_on 5 7 demo_view) = Tcb 4"
    by (simp add: block_on_def run_next_def set_timeout_def demo_view_def)
  then show ?thesis
    using osSemaphoreWait_spec [OF demo_kabs demo_run(1,2) demo_regs demo_type(6), of 7]
    by (auto simp: demo_val demo_ticks demo_run)
qed

text \<open>\<open>osSemaphoreRelease\<close> called by a thread: at the limit of 65535 tokens it reports an error and
  changes nothing; otherwise the most urgent waiting thread gets the token, with the return value 1
  from its \<open>osSemaphoreWait\<close> provided that the stacks do not overlap, or the token is counted.\<close>

lemma osSemaphoreRelease_spec:
  assumes k: "kabs s v" and r: "run s = cur v" and len: "length (callee_regs s) = 8"
    and th: "\<not> in_isr s" and ty: "cb_type s (Obj n) = SCB"
  shows "\<exists>s' v'. osSemaphoreRelease (Obj n) s = Some (In_frame, s') \<and> kabs s' v' \<and> run s' = cur v' \<and>
     (if tokens s (Obj n) = osFeature_Semaphore
      then v' = v \<and> task_r0 s' (cur v) = osErrorResource \<and> tokens s' = tokens s
      else task_r0 s' (cur v) = osOK \<and>
        (case waitq v n of
           [] \<Rightarrow> v' = v \<and> tokens s' = (tokens s)(Obj n := tokens s (Obj n) + 1)
         | t # ts \<Rightarrow> v' = wake_one n v \<and> tokens s' = tokens s \<and>
             (tsk_stack s t + 32 \<notin> svc_words s \<longrightarrow> task_r0 s' t = 1)))"
proof -
  let ?tk = "tokens s (Obj n)" and ?f = "svcSemaphoreRelease (Obj n)"
  have t: "run s \<noteq> NULL" using kabs_cur_tcb [OF k] r by auto
  have os: "osSemaphoreRelease (Obj n) s = in_frame (svc_call ?f s)" using th by (simp add: osSemaphoreRelease_def)
  show ?thesis
  proof (cases "?tk = osFeature_Semaphore")
    case True
    then have "?f s = Some (osErrorResource, s)" using ty by (simp add: svcSemaphoreRelease_def Let_def)
    then obtain s' where "svc_call ?f s = Some s'" "kabs s' v" "run s' = cur v" "svc_same s s'" "task_r0 s' (cur v) = osErrorResource"
      using svc_call_spec [of ?f s, OF _ k t len] r by auto
    then show ?thesis using True os svc_same_sel(1) by (intro exI [of _ s'] exI [of _ v]) (simp add: in_frame_def)
  next
    case False
    show ?thesis
    proof (cases "waitq v n")
      case Nil
      let ?s1 = "s\<lparr>tokens := (tokens s)(Obj n := ?tk + 1)\<rparr>"
      have "?f s = Some (osOK, ?s1)"
        using False ty rt_sem_send_store [OF k _ Nil] by (simp add: svcSemaphoreRelease_def Let_def sem_mbx_def)
      moreover have "kabs ?s1 v" using k by (simp add: kabs_def)
      ultimately obtain s' where "svc_call ?f s = Some s'" "kabs s' v" "run s' = cur v" "svc_same ?s1 s'" "task_r0 s' (cur v) = osOK"
        using svc_call_spec [of ?f s osOK ?s1 v] r t len by auto
      then show ?thesis
        using False os svc_same_sel(1) [of ?s1 s'] Nil by (intro exI [of _ s'] exI [of _ v]) (simp add: in_frame_def)
    next
      case (Cons u us)
      obtain s1 where s1: "rt_sem_send (Obj n) s = Some (OS_R_OK, s1)" "kabs s1 (wake_one n v)" "moved (give_ret u 1 s) s1"
        using rt_sem_send_wake [OF k r _ Cons] ty by (auto simp: sem_mbx_def)
      note m = moved_sel [OF s1(3)]
      have f: "?f s = Some (osOK, s1)" using False ty s1(1) by (simp add: svcSemaphoreRelease_def Let_def)
      have p: "run s1 = cur v" "length (callee_regs s1) = 8" "svc_words s1 = svc_words s" "tsk_stack s1 = tsk_stack s"
        "tokens s1 = tokens s" "frame_r0 s1 u = 1"
        using m r len by (simp_all add: give_ret_def svc_words_def frame_r0_def)
      have "u \<noteq> cur v" using kst_wait_notin [of "{}" s v u n] k Cons by (auto simp: kabs_def)
      moreover obtain s' where "svc_call ?f s = Some s'" "kabs s' (wake_one n v)" "run s' = cur (wake_one n v)" "svc_same s1 s'"
        "task_r0 s' (cur v) = osOK"
        "\<forall>t. t \<noteq> run s1 \<and> tsk_stack s1 t + 32 \<notin> svc_words s1 \<longrightarrow> task_r0 s' t = frame_r0 s1 t"
        using svc_call_spec [of ?f s osOK s1, OF f s1(2)] p t r by auto
      ultimately show ?thesis
        using False os svc_same_sel(1) [of s1 s'] Cons p
        by (intro exI [of _ s'] exI [of _ "wake_one n v"]) (simp add: in_frame_def)
    qed
  qed
qed

lemma osSemaphoreRelease_spec_example:
  "\<exists>s s'. osSemaphoreRelease (Obj 0) s = Some (In_frame, s') \<and> run s' = Tcb 2 \<and> task_r0 s' (Tcb 2) = 1 \<and> task_r0 s' (Tcb 9) = osOK"
proof -
  let ?s = "demo\<lparr>psp := 0x10000800\<rparr>"
  have "kabs ?s demo_view" using demo_kabs by (simp add: kabs_def)
  moreover have "run ?s = cur demo_view" "length (callee_regs ?s) = 8" "\<not> in_isr ?s" "cb_type ?s (Obj 0) = SCB"
    using demo_run demo_regs demo_type by (simp_all add: in_isr_def)
  moreover have "tokens ?s (Obj 0) \<noteq> osFeature_Semaphore" by (simp add: demo_def osFeature_Semaphore_def)
  moreover have "tsk_stack ?s (Tcb 2) + 32 \<notin> svc_words ?s"
    by (simp add: demo_def svc_words_def atLeastAtMost_upt upt_conv_Cons)
  moreover have "cur (wake_one 0 demo_view) = Tcb 2"
    by (simp add: demo_waitq wake_one_def take_waiter_def dispatch_def demo_prios demo_run)
  ultimately show ?thesis
    using osSemaphoreRelease_spec [of ?s demo_view 0] by (auto simp: demo_waitq demo_run)
qed

section \<open>Message and mail queues\<close>

text \<open>A message queue created for \<open>q\<close> messages is empty and has room for exactly \<open>q\<close> of them, as
  long as its size in bytes fits the 16-bit argument of \<open>rt_mbx_init\<close>.\<close>

lemma svcMessageCreate_capacity:
  assumes q: "0 < q" "q < 16380" and p: "p \<noteq> NULL" "cb_type s p = 0"
  shows "\<exists>s'. svcMessageCreate (Some \<lparr>queue_sz = of_nat q, mq_pool = p\<rparr>) th s = Some (p, s') \<and>
     cb_type s' p = MCB \<and> mbx_ok p s' \<and> mbx_content p s' = [] \<and> mbx_cap p s' = q"
proof -
  have "(of_nat q :: u32) \<noteq> 0" using q of_nat_word_eq [of q 0, where 'a = 32] by auto
  have "4 * (of_nat q + 4) = (of_nat (4 * (q + 4)) :: u32)" by simp
  then have "(ucast (4 * (of_nat q + 4) :: u32) :: u16) = of_nat (4 * (q + 4))" by (simp only:) (rule ucast_of_nat_down, simp)
  moreover have "unat (of_nat (4 * (q + 4)) :: u16) = 4 * (q + 4)" using q by (intro unat_of_nat_lt) simp
  ultimately have "(ucast (ucast (4 * (of_nat q + 4) :: u32) :: u16) :: u32) = of_nat (4 * (q + 4))"
    using ucast_of_nat_unat [of "of_nat (4 * (q + 4)) :: u16", where 'b = 32] by simp
  then have "(ucast (ucast (4 * (of_nat q + 4) :: u32) :: u16) :: u32) + 4 - sizeof_OS_MCB = of_nat (4 * q)"
    by (simp add: sizeof_OS_MCB_def)
  moreover have "(of_nat (4 * q) :: u32) div 4 = of_nat q"
  proof -
    have "unat ((of_nat (4 * q) :: u32) div 4) = 4 * q div 4" using q unat_of_nat_lt [of "4 * q", where 'a = 32] by (simp add: unat_div)
    then show ?thesis using unat_eq_of_nat by fastforce
  qed
  ultimately have sz: "(ucast ((ucast (ucast (4 * (of_nat q + 4) :: u32) :: u16) + 4 - sizeof_OS_MCB) div 4 :: u32) :: u16) = of_nat q"
    using ucast_of_nat_down [of q, where 'a = 32 and 'b = 16] by simp
  have u: "unat (of_nat q :: u16) = q" using q by (intro unat_of_nat_lt) simp
  then have "(0 :: u16) < of_nat q" using q by (simp add: word_less_nat_alt)
  then show ?thesis
    using p \<open>(of_nat q :: u32) \<noteq> 0\<close> sz u
    by (simp add: svcMessageCreate_def rt_mbx_init_def mbx_ok_def mbx_content_def mbx_cap_def ring_def)
qed

lemma svcMessageCreate_capacity_example:
  "\<exists>s'. svcMessageCreate (Some \<lparr>queue_sz = of_nat 4, mq_pool = Obj 20\<rparr>) NULL demo = Some (Obj 20, s') \<and>
     cb_type s' (Obj 20) = MCB \<and> mbx_ok (Obj 20) s' \<and> mbx_content (Obj 20) s' = [] \<and> mbx_cap (Obj 20) s' = 4"
  by (rule svcMessageCreate_capacity) (simp_all add: demo_def cb_types)

text \<open>C25. The only thread that waits for a mail block reaches its time-out at a tick of the delay list.
  The mail queue stays marked as waited for, and the next \<open>osMailFree\<close> of a thread, with a valid
  block, follows the empty list of waiting threads through the null pointer.\<close>

theorem mail_free_after_timeout:
  assumes k: "kall s v" and ty: "cb_type s (Obj n) = MCB" and W: "waitq v n = [t]" and D: "(t, 1) \<in> set (dlyq v)"
    and st: "mbx_state s (Obj n) = 3" and box: "box \<noteq> 0" "box \<le> b" "b < mem s (box + 4)" "b \<noteq> 0"
  shows "\<exists>s'. rt_dec_dly s = Some s' \<and> waitq (tick_view v) n = [] \<and> kall s' (tick_view v) \<and>
     sysMailFree (Some \<lparr>mq_addr = a, mq_mcb = Obj n, mq_box = box\<rparr>) b 0 s' = None"
proof -
  obtain s' where e: "rt_dec_dly s = Some s'" and k': "kall s' (tick_view v)" and m: "moved s s'"
    using tick_refines [OF k] by blast
  note ms = moved_sel [OF m]
  have "dly_list s (dlyq v)" using k by (simp add: kall_def linv_def)
  then have w: "waitq (tick_view v) n = []" using W D woken_iff by (simp add: tick_view_def wake_wait_def)
  then have "p_lnk s' (Obj n) = NULL" using kall_obj_waits [OF k', of n] ty ms by (simp add: sem_mbx_def)
  moreover have "rt_free_box box b s' = (0, s'\<lparr>mem := (mem s')(b := mem s' box, box := b)\<rparr>)"
    using box ms by (simp add: rt_free_box_def Let_def not_le)
  ultimately have "sysMailFree (Some \<lparr>mq_addr = a, mq_mcb = Obj n, mq_box = box\<rparr>) b 0 s' = None"
    using st ms box by (simp add: sysMailFree_def mail_handover_def rt_alloc_box_def rt_get_first_def Let_def)
  then show ?thesis using e w k' by blast
qed

text \<open>The memory of \<open>Demo\<close> with task 6 waiting for a mail block, its time-out and that of task 2 at the next tick.\<close>

definition demo_mail :: os where
  "demo_mail = demo\<lparr>delta_time := (\<lambda>_. 0)(Dly := 1), mbx_state := (mbx_state demo)(Obj 2 := 3),
     mem := (\<lambda>_. 0)(104 := 128)\<rparr>"

lemma demo_mail_kabs: "kabs demo_mail (demo_view\<lparr>dlyq := [(Tcb 2, 1), (Tcb 6, 1)]\<rparr>)"
proof -
  have k: "kst {} demo demo_view" using demo_kabs by (simp add: kabs_def)
  have "dly_list demo_mail [(Tcb 2, 1), (Tcb 6, 1)]"
    by (simp add: demo_mail_def demo_def dly_list_def dly_links_def)
  then have "linv demo_mail (rdyq demo_view) (waitq demo_view) [(Tcb 2, 1), (Tcb 6, 1)] (insert (cur demo_view) (parked demo_view))"
    using demo_linv unfolding linv_def own_ok_def
    by (simp add: demo_mail_def rdy_ok_def wait_ok_def demo_view_def)
  then show ?thesis using k unfolding kabs_def kst_def styp_def by (simp add: demo_mail_def demo_view_def)
qed

theorem mail_free_after_timeout_witness:
  "\<exists>s v s'. kall s v \<and> rt_dec_dly s = Some s' \<and>
     sysMailFree (Some \<lparr>mq_addr = 0, mq_mcb = Obj 2, mq_box = 100\<rparr>) 112 0 s' = None"
proof -
  let ?v = "demo_view\<lparr>dlyq := [(Tcb 2, 1), (Tcb 6, 1)]\<rparr>"
  have "run demo_mail = cur ?v" by (simp add: demo_mail_def demo_run)
  then obtain s where k: "kall s (all_ready ?v)" and m: "moved demo_mail s"
    using suspend_refines [OF demo_mail_kabs] by blast
  have "waitq (all_ready ?v) 2 = [Tcb 6]" "(Tcb 6, 1) \<in> set (dlyq (all_ready ?v))"
    by (simp_all add: all_ready_def demo_view_def)
  moreover have "cb_type s (Obj 2) = MCB" "mbx_state s (Obj 2) = 3" "mem s (100 + 4) = 128"
    using moved_sel [OF m] demo_type by (simp_all add: demo_mail_def)
  ultimately show ?thesis using mail_free_after_timeout [OF k, of 2 "Tcb 6" 100 112 0] k by auto
qed

section \<open>Interrupt level\<close>

lemma Sys_Switch_eq: "run s \<noteq> NULL \<Longrightarrow> Sys_Switch s = SVC_switch s"
  by (simp add: Sys_Switch_def SVC_switch_def)

text \<open>The system tick interrupt returns; it advances the time by one, takes one tick off every
  time-out and wakes the threads that are due, swaps the round robin threads when the time slice of
  the running one is over, takes one tick off every timer, restarts the periodic timers that are
  due and stops the others, and resumes the best ready thread.\<close>

lemma SysTick_Handler_spec:
  assumes k: "kabs s v" and r: "run s = cur v" and len: "length (callee_regs s) = 8" and tm: "tinv s T" and ok: "psq_ok s"
    and room: "length (psq_content s) + length (woken T) \<le> psq_cap s"
  shows "\<exists>s' v'. SysTick_Handler s = Some s' \<and> v' = run_next (tick_view (robin_view s (all_ready v))) \<and>
     kabs s' v' \<and> run s' = cur v' \<and> os_time s' = os_time s + 1 \<and> tinv s' (restart s (woken T) (tick_dly T))"
proof -
  let ?v = "run_next (tick_view (robin_view s (all_ready v)))"
  obtain s1 where s1: "rt_systick s = Some s1" "kabs s1 ?v" "tinv s1 (restart s (woken T) (tick_dly T))"
    "os_time s1 = os_time s + 1" "run s1 = run s" "callee_regs s1 = callee_regs s"
    using rt_systick_spec [OF k r tm ok room] by blast
  have t: "run s1 \<noteq> NULL" using kabs_cur_tcb [OF k] r s1(5) by auto
  then obtain s' where s': "SVC_switch s1 = Some s'" "kabs s' ?v" "run s' = cur ?v" "svc_same s1 s'"
    using SVC_switch_spec [OF s1(2) t] s1(6) len by auto
  then have "SysTick_Handler s = Some s'" using s1(1) Sys_Switch_eq [OF t] by (simp add: SysTick_Handler_def)
  moreover have "tinv s' (restart s (woken T) (tick_dly T))" "os_time s' = os_time s + 1"
    using s1(3,4) tinv_cong [of s' s1] svc_same_time [OF s'(4)] by simp_all
  ultimately show ?thesis using s' by blast
qed

lemma SysTick_Handler_spec_example:
  "\<exists>s' v'. SysTick_Handler demo = Some s' \<and> kabs s' v' \<and> run s' = cur v' \<and> os_time s' = 101 \<and>
     dlyq v' = [(Tcb 2, 9), (Tcb 6, 19)]"
proof -
  have "tinv demo []" by (simp add: tinv_def timer_list_def tlnk_def demo_def timer_codes)
  moreover have "psq_ok demo" "length (psq_content demo) + length (woken []) \<le> psq_cap demo"
    by (simp_all add: psq_ok_def demo_def psq_content_def ring_def woken_def tick1_def due_def)
  moreover have "dlyq (run_next (tick_view (robin_view demo (all_ready demo_view)))) = [(Tcb 2, 9), (Tcb 6, 19)]"
    by (simp add: run_next_def tick_view_def robin_view_def rotate_def all_ready_def demo_view_def tick_dly_def tick1_def not_due_def)
  moreover have "os_time demo = 100" by (simp add: demo_def)
  ultimately show ?thesis using SysTick_Handler_spec [OF demo_kabs demo_run(1) demo_regs(1), of "[]"] by fastforce
qed

text \<open>C26. The post service of interrupt requests: the loop serves every request of the queue in the
  order in which the interrupt handlers made them, leaves the queue empty, and the best ready
  thread runs. The requests (\<open>reqs_ok\<close>) name threads and objects that exist, and every mailbox has room for the
  messages that are requested for it: without room the kernel ends in its error handler \<open>os_error\<close>.\<close>

theorem rt_pop_req_serves_all:
  assumes k: "kabs s v" and r: "run s = cur v" and ok: "psq_ok s" and rq: "reqs_ok (psq_content s) s (all_ready v)"
  shows "\<exists>s1 s'. moved s s1 \<and> kall s1 (all_ready v) \<and> rt_pop_req s = Some s' \<and>
     kabs s' (run_next (post_views (psq_content s) s1 (all_ready v))) \<and> psq_ok s' \<and> psq_content s' = []"
  by (rule rt_pop_req_spec [OF assms])

definition demo_psq :: os where
  "demo_psq = demo\<lparr>psq_count := 2, psq_first := 2, psq_q := (\<lambda>_. (Obj 0, 0))(0 := (Tcb 3, 2))\<rparr>"

theorem rt_pop_req_serves_all_witness:
  "\<exists>s'. rt_pop_req demo_psq = Some s' \<and> psq_content demo_psq = [(Tcb 3, 2), (Obj 0, 0)] \<and> psq_content s' = []"
proof -
  have k: "kabs demo_psq demo_view" using demo_kabs by (simp add: demo_psq_def kabs_def)
  have c: "psq_content demo_psq = [(Tcb 3, 2), (Obj 0, 0)]"
    by (simp add: demo_psq_def demo_def psq_content_def ring_def upt_conv_Cons)
  have "psq_ok demo_psq" by (simp add: demo_psq_def demo_def psq_ok_def)
  moreover have "reqs_ok (psq_content demo_psq) demo_psq (all_ready demo_view)"
    unfolding c using demo_type by (simp add: reqs_ok_def lv_def all_ready_def demo_view_def demo_psq_def cb_types)
  moreover have "run demo_psq = cur demo_view" by (simp add: demo_psq_def demo_run)
  ultimately show ?thesis using rt_pop_req_serves_all [OF k] c by blast
qed

section \<open>Timers\<close>

text \<open>C27. \<open>svcTimerStart\<close> refuses a time of zero and a timer that was not created; otherwise the timer is
  in the list of running timers once, due after the given number of ticks and behind the timers
  that are due before or at the same tick, whatever its state was. The period of a timer that
  is already running stays what it was.\<close>

theorem svcTimerStart_refines:
  assumes "tinv s T" and "t \<noteq> NULL" and "rt_id2obj t = t"
  shows "\<exists>r s'. svcTimerStart t ms s = Some (r, s') \<and>
     (if ms = 0 then r = osErrorValue \<and> s' = s
      else if tmr_state s t = osTimerRunning \<or> tmr_state s t = osTimerStopped
      then r = osOK \<and> tinv s' (start_tmr t (unat (rt_ms2tick ms)) T) \<and>
           tmr_icnt s' = (if tmr_state s t = osTimerStopped then (tmr_icnt s)(t := ucast (rt_ms2tick ms)) else tmr_icnt s)
      else r = osErrorResource \<and> s' = s)"
  by (rule svcTimerStart_spec [OF assms])

definition demo_tmr :: os where
  "demo_tmr = demo\<lparr>os_timer_head := Tmr 2, tmr_next := (\<lambda>_. NULL)(Tmr 2 := Tmr 3),
     tmr_tcnt := (\<lambda>_. 0)(Tmr 2 := 3, Tmr 3 := 5), tmr_icnt := (\<lambda>_. 0)(Tmr 2 := 3, Tmr 3 := 8),
     tmr_state := (\<lambda>_. 0)(Tmr 2 := 2, Tmr 3 := 2), tmr_type := (\<lambda>_. 0)(Tmr 2 := 1, Tmr 3 := 1)\<rparr>"

lemma demo_tmr_tinv: "tinv demo_tmr [(Tmr 2, 3), (Tmr 3, 8)]"
  by (simp add: demo_tmr_def tinv_def timer_list_def tlnk_def timer_codes)

theorem svcTimerStart_refines_witness:
  "\<exists>s'. svcTimerStart (Tmr 2) 8 demo_tmr = Some (osOK, s') \<and> tinv s' [(Tmr 3, 8), (Tmr 2, 8)] \<and> tmr_icnt s' (Tmr 2) = 3"
proof -
  have "unat (rt_ms2tick 8) = 8" by (simp add: rt_ms2tick_eq osWaitForever_def)
  then have "start_tmr (Tmr 2) (unat (rt_ms2tick 8)) [(Tmr 2, 3), (Tmr 3, 8)] = [(Tmr 3, 8), (Tmr 2, 8)]"
    by (simp add: start_tmr_def ins_tmr_def rmv_dly_def)
  moreover have "tmr_state demo_tmr (Tmr 2) = osTimerRunning" "tmr_icnt demo_tmr (Tmr 2) = 3"
    by (simp_all add: demo_tmr_def timer_codes)
  ultimately show ?thesis
    using svcTimerStart_refines [OF demo_tmr_tinv, of "Tmr 2" 8] by (auto simp: timer_codes)
qed

text \<open>Stopping and deleting a running timer takes it out of the list and leaves the others due when
  they were; a timer that does not run is not stopped.\<close>

lemma svcTimerStop_refines:
  assumes "tinv s T" and "t \<noteq> NULL" and "rt_id2obj t = t"
  shows "\<exists>r s'. svcTimerStop t s = Some (r, s') \<and>
     (if tmr_state s t = osTimerRunning then r = osOK \<and> tinv s' (rmv_dly t T) \<and> tmr_state s' t = osTimerStopped
      else r = osErrorResource \<and> s' = s)"
  by (rule svcTimerStop_spec [OF assms])

lemma svcTimerStop_refines_example:
  "\<exists>s'. svcTimerStop (Tmr 2) demo_tmr = Some (osOK, s') \<and> tinv s' [(Tmr 3, 8)]"
proof -
  have "rmv_dly (Tmr 2) [(Tmr 2, 3), (Tmr 3, 8)] = [(Tmr 3, 8)]" by (simp add: rmv_dly_def)
  moreover have "tmr_state demo_tmr (Tmr 2) = osTimerRunning" by (simp add: demo_tmr_def timer_codes)
  ultimately show ?thesis using svcTimerStop_refines [OF demo_tmr_tinv, of "Tmr 2"] by auto
qed

section \<open>Threads\<close>

text \<open>When all fifteen entries of the table of threads are in use, \<open>osThreadCreate\<close> does not report
  an error: it writes in front of the table.\<close>

lemma svcThreadCreate_table_full:
  assumes "\<forall>p\<in>set (os_active_TCB s). p \<noteq> NULL" and "length (os_active_TCB s) = os_maxtaskrun"
    and "pthread d \<noteq> 0" and "stacksize d \<noteq> 0" and "stack_pointer d \<noteq> 0" and "tcb d \<noteq> NULL"
    and "osPriorityIdle \<le> tpriority d" and "tpriority d \<le> osPriorityRealtime"
  shows "svcThreadCreate ex (Some d) arg s = None"
proof -
  have "get_TID_loop tid ps = 0" if "\<forall>p\<in>set ps. p \<noteq> NULL" for tid ps using that by (induction ps arbitrary: tid) auto
  then have "rt_get_TID s = 0" using assms(1) by (simp add: rt_get_TID_def)
  moreover have "\<not> unat (- 1 :: u32) < 15" using word_less_nat_alt [of "- 1 :: u32" 15] by simp
  ultimately show ?thesis using assms by (simp add: svcThreadCreate_def Let_def rt_get_TID_def act_set_def os_maxtaskrun_def)
qed

lemma svcThreadCreate_table_full_example:
  "svcThreadCreate 0 (Some \<lparr>pthread = 4, tpriority = 0, stacksize = 512, stack_pointer = 0x10001000, tcb = Tcb 20\<rparr>) 0
     (demo\<lparr>os_active_TCB := map Tcb [30..<45]\<rparr>) = None"
  by (rule svcThreadCreate_table_full) (simp_all add: os_maxtaskrun_def osPriorityIdle_def osPriorityRealtime_def)

end
