(* ===== verification/App_Bytes.thy ===== *)
theory App_Bytes
  imports Ring
begin

text \<open>
  Byte buffers of the application code: \<open>memcpy\<close> between buffers with its bounds, the bytes of
  little-endian integers, and writing and reading through the end of a ring of bytes.
  C's \<open>int\<close> values are \<open>int\<close>; where the code mixes them with \<open>sizeof\<close> the arithmetic is
  unsigned and the reduction to 32 bits is written out.
\<close>

section \<open>Operations\<close>

type_synonym bytes = "u8 list"

definition u32_of :: "int \<Rightarrow> int" where
  "u32_of x = x mod 2 ^ 32"

text \<open>The \<open>n\<close> bytes at index \<open>i\<close>, and the buffer with other bytes written at index \<open>i\<close>; outside of
  the buffer the access is undefined.\<close>

definition rd_bytes :: "bytes \<Rightarrow> int \<Rightarrow> int \<Rightarrow> bytes option" where
  "rd_bytes m i n = (if 0 \<le> i \<and> 0 \<le> n \<and> i + n \<le> int (length m) then Some (take (nat n) (drop (nat i) m)) else None)"

definition wr_bytes :: "bytes \<Rightarrow> int \<Rightarrow> bytes \<Rightarrow> bytes option" where
  "wr_bytes m i d =
     (if 0 \<le> i \<and> i + int (length d) \<le> int (length m)
      then Some (take (nat i) m @ d @ drop (nat i + length d) m) else None)"

definition memcpy :: "bytes \<Rightarrow> int \<Rightarrow> bytes \<Rightarrow> int \<Rightarrow> int \<Rightarrow> bytes option" where
  "memcpy dst di src si n = do {
     d \<leftarrow> rd_bytes src si n;
     wr_bytes dst di d
   }"

text \<open>The bytes of an integer in memory, the least significant first, and back.\<close>

fun le_bytes :: "nat \<Rightarrow> int \<Rightarrow> bytes" where
  "le_bytes 0 x = []"
| "le_bytes (Suc n) x = word_of_int x # le_bytes n (x div 256)"

fun le_val :: "bytes \<Rightarrow> int" where
  "le_val [] = 0"
| "le_val (b # bs) = uint b + 256 * le_val bs"

text \<open>Four bytes read as a signed integer.\<close>

definition int_val :: "bytes \<Rightarrow> int" where
  "int_val bs = (let x = le_val bs in if x < 2 ^ 31 then x else x - 2 ^ 32)"

section \<open>Integers\<close>

lemma length_le_bytes [simp]: "length (le_bytes n x) = n"
  by (induction n arbitrary: x) simp_all

lemma le_val_le_bytes: "le_val (le_bytes n x) = x mod 256 ^ n"
proof (induction n arbitrary: x)
  case (Suc n)
  have "le_val (le_bytes (Suc n) x) = x mod 256 + 256 * (x div 256 mod 256 ^ n)"
    using Suc.IH by (simp add: uint_word_of_int)
  also have "\<dots> = x mod 256 ^ Suc n" by (simp add: mod_mult2_eq' mult.commute zmod_zmult2_eq)
  finally show ?case .
qed simp

lemma le_val_range: "0 \<le> le_val bs" "le_val bs < 256 ^ length bs"
proof -
  have b: "uint (b :: u8) < 256" for b using uint_bounded [of b] by simp
  have "0 \<le> le_val bs \<and> le_val bs < 256 ^ length bs"
  proof (induction bs)
    case (Cons c cs)
    then show ?case using b [of c] by auto
  qed simp
  then show "0 \<le> le_val bs" "le_val bs < 256 ^ length bs" by simp_all
qed

lemma int_val_le_bytes:
  assumes "0 \<le> x" and "x < 2 ^ 31"
  shows "int_val (le_bytes 4 x) = x"
proof -
  have "x mod 256 ^ 4 = x" using assms by (intro mod_pos_pos_trivial) simp_all
  then have "le_val (le_bytes 4 x) = x" unfolding le_val_le_bytes .
  then show ?thesis using assms by (simp add: int_val_def)
qed

section \<open>Buffers\<close>

lemma wr_bytes_Some:
  assumes "wr_bytes m i d = Some m'"
  shows "length m' = length m" "0 \<le> i" "nat i + length d \<le> length m"
    "\<And>j. j < length m \<Longrightarrow> m' ! j = (if nat i \<le> j \<and> j < nat i + length d then d ! (j - nat i) else m ! j)"
proof -
  have c: "0 \<le> i" "nat i + length d \<le> length m" and m': "m' = take (nat i) m @ d @ drop (nat i + length d) m"
    using assms by (auto simp: wr_bytes_def split: if_splits)
  show "length m' = length m" "0 \<le> i" "nat i + length d \<le> length m" using c m' by simp_all
  show "m' ! j = (if nat i \<le> j \<and> j < nat i + length d then d ! (j - nat i) else m ! j)" if "j < length m" for j
    using that c unfolding m' by (auto simp: nth_append)
qed

lemma wr_bytes_ok: "0 \<le> i \<Longrightarrow> i + int (length d) \<le> int (length m) \<Longrightarrow> \<exists>m'. wr_bytes m i d = Some m'"
  by (simp add: wr_bytes_def)

text \<open>What is read after a write: the bytes written, and elsewhere the bytes that were there.\<close>

lemma wr_bytes_same:
  assumes "wr_bytes m i d = Some m'"
  shows "take (length d) (drop (nat i) m') = d"
  using assms by (auto simp: wr_bytes_def split: if_splits)

lemma wr_bytes_other:
  assumes "wr_bytes m i d = Some m'" and "j + k \<le> nat i \<or> nat i + length d \<le> j"
  shows "take k (drop j m') = take k (drop j m)"
proof (rule nth_equalityI)
  show "length (take k (drop j m')) = length (take k (drop j m))" using wr_bytes_Some(1) [OF assms(1)] by simp
  fix l assume "l < length (take k (drop j m'))"
  then show "take k (drop j m') ! l = take k (drop j m) ! l" using wr_bytes_Some(1,4) [OF assms(1)] assms(2) by auto
qed

lemma word_of_le_bytes: "word_of_int (le_val (le_bytes 4 (uint w))) = w" for w :: u32
  using uint_lt2p [of w] by (simp add: le_val_le_bytes)

lemma rd_bytes_all: "n = int (length d) \<Longrightarrow> rd_bytes d 0 n = Some d"
  by (simp add: rd_bytes_def)

section \<open>Rings of bytes\<close>

text \<open>\<open>ring_upd m w d m'\<close>: the buffer \<open>m'\<close> is \<open>m\<close> with the bytes \<open>d\<close> written from index \<open>w\<close> on, through the end.\<close>

definition ring_upd :: "bytes \<Rightarrow> nat \<Rightarrow> bytes \<Rightarrow> bytes \<Rightarrow> bool" where
  "ring_upd m w d m' \<longleftrightarrow> length m' = length m \<and>
     (\<forall>j<length d. m' ! ((w + j) mod length m) = d ! j) \<and>
     (\<forall>i<length m. (\<forall>j<length d. i \<noteq> (w + j) mod length m) \<longrightarrow> m' ! i = m ! i)"

lemma ring_upd_Nil [simp]: "ring_upd m w [] m' \<longleftrightarrow> m' = m"
  by (auto simp: ring_upd_def list_eq_iff_nth_eq)

lemma ring_upd_wr:
  assumes "wr_bytes m i d = Some m'"
  shows "ring_upd m (nat i) d m'"
proof -
  note w = wr_bytes_Some [OF assms]
  have "(nat i + j) mod length m = nat i + j" if "j < length d" for j using that w(3) by simp
  moreover have "m' ! k = m ! k" if k: "k < length m" "\<forall>j<length d. k \<noteq> nat i + j" for k
  proof -
    have "\<not> (nat i \<le> k \<and> k < nat i + length d)" using k(2) [rule_format, of "k - nat i"] by linarith
    then show ?thesis using w(4) [OF k(1)] by (simp only: if_False)
  qed
  ultimately show ?thesis using w by (auto simp: ring_upd_def)
qed

lemma ring_upd_mod: "ring_upd m (w mod length m) d m' = ring_upd m w d m'"
  by (simp add: ring_upd_def mod_add_left_eq)

lemma ring_upd_append:
  assumes "ring_upd m w d m1" and "ring_upd m1 (w + length d) e m2" and "length d + length e \<le> length m"
  shows "ring_upd m w (d @ e) m2"
  unfolding ring_upd_def
proof (intro conjI allI impI)
  let ?n = "length m"
  have n1: "length m1 = ?n" using assms(1) by (simp add: ring_upd_def)
  then show "length m2 = ?n" using assms(2) by (simp add: ring_upd_def)
  show "m2 ! ((w + j) mod ?n) = (d @ e) ! j" if j: "j < length (d @ e)" for j
  proof (cases "j < length d")
    case True
    have "(w + j) mod ?n \<noteq> (w + length d + k) mod ?n" if "k < length e" for k
      using mod_add_cancel_lt [of j ?n "length d + k" w] that True assms(3) by (auto simp: add.assoc)
    moreover have "0 < ?n" using True assms(3) by linarith
    ultimately have "m2 ! ((w + j) mod ?n) = m1 ! ((w + j) mod ?n)" using assms(2) n1 by (auto simp: ring_upd_def)
    then show ?thesis using assms(1) True by (simp add: ring_upd_def nth_append)
  next
    case False
    then have "w + j = w + length d + (j - length d)" "j - length d < length e" using j by simp_all
    moreover have "m2 ! ((w + length d + (j - length d)) mod ?n) = e ! (j - length d)"
      using assms(2) n1 \<open>j - length d < length e\<close> unfolding ring_upd_def by simp
    ultimately show ?thesis using False by (simp add: nth_append)
  qed
  show "m2 ! i = m ! i" if i: "i < ?n" "\<forall>j<length (d @ e). i \<noteq> (w + j) mod ?n" for i
  proof -
    have "\<forall>j<length d. i \<noteq> (w + j) mod ?n" using i(2) by simp
    moreover have "\<forall>j<length e. i \<noteq> (w + length d + j) mod ?n"
    proof (intro allI impI)
      fix j assume "j < length e"
      then show "i \<noteq> (w + length d + j) mod ?n" using i(2) [rule_format, of "length d + j"] by (simp add: add.assoc)
    qed
    ultimately show ?thesis using assms(1,2) i(1) n1 by (simp add: ring_upd_def)
  qed
qed

lemma ring_upd_content:
  assumes "ring_upd m w d m'" and "w mod length m = (l + c) mod length m" and "c + length d \<le> length m"
  shows "ring (nth m') l (c + length d) (length m) = ring (nth m) l c (length m) @ d"
proof (rule nth_equalityI)
  let ?n = "length m"
  show "length (ring (nth m') l (c + length d) ?n) = length (ring (nth m) l c ?n @ d)" by simp
  fix i assume i: "i < length (ring (nth m') l (c + length d) ?n)"
  then have n: "0 < ?n" using assms(3) by auto
  have wj: "(w + j) mod ?n = (l + c + j) mod ?n" for j using assms(2) by (metis mod_add_left_eq)
  show "ring (nth m') l (c + length d) ?n ! i = (ring (nth m) l c ?n @ d) ! i"
  proof (cases "i < c")
    case True
    have "(l + i) mod ?n \<noteq> (w + j) mod ?n" if "j < length d" for j
      using mod_add_cancel_lt [of i ?n "c + j" l] that True assms(3) wj [of j] by (auto simp: add.assoc)
    then have "m' ! ((l + i) mod ?n) = m ! ((l + i) mod ?n)" using assms(1) n by (auto simp: ring_upd_def)
    then show ?thesis using i True by (simp add: ring_def nth_append)
  next
    case False
    then have j: "i - c < length d" "(l + i) mod ?n = (w + (i - c)) mod ?n" using i wj [of "i - c"] by simp_all
    then have "m' ! ((l + i) mod ?n) = d ! (i - c)" using assms(1) by (simp add: ring_upd_def)
    then show ?thesis using i False by (simp add: ring_def nth_append)
  qed
qed

lemma ring_split: "ring q l (a + c) n = ring q l a n @ ring q ((l + a) mod n) c n"
proof (rule nth_equalityI)
  fix i assume i: "i < length (ring q l (a + c) n)"
  have "((l + a) mod n + (i - a)) mod n = (l + a + (i - a)) mod n" by (rule mod_add_left_eq)
  then show "ring q l (a + c) n ! i = (ring q l a n @ ring q ((l + a) mod n) c n) ! i"
    using i by (auto simp: ring_def nth_append)
qed simp

lemma rd_bytes_ring:
  assumes "0 \<le> p" and "0 \<le> k" and "p + k \<le> int (length m)"
  shows "rd_bytes m p k = Some (ring (nth m) (nat p) (nat k) (length m))"
proof -
  have "take (nat k) (drop (nat p) m) = ring (nth m) (nat p) (nat k) (length m)"
    using assms by (intro nth_equalityI) (simp_all add: ring_def)
  then show ?thesis using assms by (simp add: rd_bytes_def)
qed

end
