(* ===== verification/Storage_Base.thy ===== *)
theory Storage_Base
  imports App_Bytes
begin

text \<open>
  The storage of results in memory (\<open>storageBase.cpp\<close>): a plain store and a ring of records, each with its
  length in front. The interface \<open>circBuff\<close> of the program is the locale \<open>record_fifo\<close>.
  The storage itself comes from the program's allocator, see \<open>Mem_Alloc\<close>; \<open>FillLevel\<close>, a quotient of floats, is left out.
\<close>

section \<open>The plain store\<close>

record ramStorage =
  st_b :: bytes
  st_bSz :: int
  st_sz :: int

definition ramStorage_Read :: "bytes \<Rightarrow> int \<Rightarrow> int \<Rightarrow> ramStorage \<Rightarrow> (int \<times> bytes) option" where
  "ramStorage_Read buffer index len c =
     (if index = 0 then do {
        buffer \<leftarrow> memcpy buffer 0 (le_bytes 4 (st_sz c)) 0 4;
        Some (4, buffer)
      }
      else if index = 1 then do {
        buffer \<leftarrow> memcpy buffer 0 (st_b c) 0 len;
        Some (len, buffer)
      }
      else Some (- 1, buffer))"

definition ramStorage_Write :: "bytes \<Rightarrow> int \<Rightarrow> int \<Rightarrow> ramStorage \<Rightarrow> (int \<times> ramStorage) option" where
  "ramStorage_Write buffer index len c =
     (if index = 0 then do {
        d \<leftarrow> rd_bytes buffer 0 4;
        Some (4, c\<lparr>st_sz := int_val d\<rparr>)
      }
      else if index = 1 then do {
        b \<leftarrow> memcpy (st_b c) 0 buffer 0 len;
        Some (len, c\<lparr>st_b := b\<rparr>)
      }
      else Some (- 1, c))"

definition ramStorage_Clear :: "int \<Rightarrow> ramStorage \<Rightarrow> int \<times> ramStorage" where
  "ramStorage_Clear index c =
     (0, if index = 0 then c\<lparr>st_sz := 0\<rparr>
         else if index = 1 then c\<lparr>st_b := replicate (nat (st_bSz c)) 0\<rparr>
         else c)"

section \<open>The ring of records\<close>

record ramCircBuff =
  cb_b :: bytes
  bSz :: int
  currSz :: int
  pWrite :: int
  pRead :: int

definition ramCircBuff_new :: "int \<Rightarrow> ramCircBuff" where
  "ramCircBuff_new sz = \<lparr>cb_b = replicate (nat sz) 0, bSz = sz, currSz = 0, pWrite = 0, pRead = 0\<rparr>"

text \<open>The two parts of \<open>Put\<close> when the record does not fit in front of the end of the buffer.\<close>

definition put_header :: "int \<Rightarrow> ramCircBuff \<Rightarrow> ramCircBuff option" where
  "put_header len c =
     (if u32_of (pWrite c + 4) \<le> u32_of (bSz c) then do {
        b \<leftarrow> memcpy (cb_b c) (pWrite c) (le_bytes 4 len) 0 4;
        Some (c\<lparr>cb_b := b, pWrite := pWrite c + 4\<rparr>)
      }
      else do {
        let sh = bSz c - pWrite c;
        b \<leftarrow> memcpy (cb_b c) (pWrite c) (le_bytes 4 len) 0 sh;
        b \<leftarrow> memcpy b 0 (le_bytes 4 len) sh (u32_of (4 - sh));
        Some (c\<lparr>cb_b := b, pWrite := 4 - sh\<rparr>)
      })"

definition put_data :: "bytes \<Rightarrow> int \<Rightarrow> ramCircBuff \<Rightarrow> ramCircBuff option" where
  "put_data buffer len c =
     (if pWrite c + len < bSz c then do {
        b \<leftarrow> memcpy (cb_b c) (pWrite c) buffer 0 len;
        Some (c\<lparr>cb_b := b, pWrite := pWrite c + len\<rparr>)
      }
      else do {
        let s = bSz c - pWrite c;
        b \<leftarrow> memcpy (cb_b c) (pWrite c) buffer 0 s;
        b \<leftarrow> memcpy b 0 buffer s (len - s);
        Some (c\<lparr>cb_b := b, pWrite := len - s\<rparr>)
      })"

definition Put :: "bytes \<Rightarrow> int \<Rightarrow> ramCircBuff \<Rightarrow> (int \<times> ramCircBuff) option" where
  "Put buffer len c =
     (if u32_of (currSz c + 4 + len) \<le> u32_of (bSz c) then
        (if u32_of (pWrite c + 4 + len) \<le> u32_of (bSz c) then do {
           b \<leftarrow> memcpy (cb_b c) (pWrite c) (le_bytes 4 len) 0 4;
           b \<leftarrow> memcpy b (pWrite c + 4) buffer 0 len;
           let c = c\<lparr>cb_b := b, currSz := currSz c + (4 + len), pWrite := pWrite c + (4 + len)\<rparr>;
           let c = (if bSz c \<le> pWrite c then c\<lparr>pWrite := 0\<rparr> else c);
           Some (len, c)
         }
         else do {
           c \<leftarrow> put_header len c;
           let c = c\<lparr>currSz := currSz c + 4\<rparr>;
           c \<leftarrow> put_data buffer len c;
           let c = c\<lparr>currSz := currSz c + len\<rparr>;
           Some (len, c)
         })
      else Some (- 1, c))"

text \<open>The length in front of the record at the read index.\<close>

definition rd_header :: "ramCircBuff \<Rightarrow> int option" where
  "rd_header c =
     (if u32_of (pRead c + 4) \<le> u32_of (bSz c) then do {
        h \<leftarrow> rd_bytes (cb_b c) (pRead c) 4;
        Some (int_val h)
      }
      else do {
        let l = bSz c - pRead c;
        h \<leftarrow> rd_bytes (cb_b c) (pRead c) l;
        h' \<leftarrow> rd_bytes (cb_b c) 0 (u32_of (4 - l));
        Some (int_val (h @ h'))
      })"

definition skip_header :: "ramCircBuff \<Rightarrow> ramCircBuff" where
  "skip_header c =
     (if u32_of (pRead c + 4) \<le> u32_of (bSz c) then
        let c = c\<lparr>currSz := currSz c - 4, pRead := pRead c + 4\<rparr> in
        if bSz c \<le> pRead c then c\<lparr>pRead := 0\<rparr> else c
      else c\<lparr>currSz := currSz c - 4, pRead := 4 - (bSz c - pRead c)\<rparr>)"

definition Get :: "bytes \<Rightarrow> int \<Rightarrow> ramCircBuff \<Rightarrow> (int \<times> bytes \<times> ramCircBuff) option" where
  "Get buffer len c =
     (if currSz c \<noteq> 0 then do {
        s \<leftarrow> rd_header c;
        let c = skip_header c;
        let assertedLength = (if s \<le> len then s else len);
        if pRead c + s \<le> bSz c then do {
          buffer \<leftarrow> memcpy buffer 0 (cb_b c) (pRead c) s;
          let c = c\<lparr>currSz := currSz c - assertedLength, pRead := pRead c + assertedLength\<rparr>;
          let c = (if bSz c \<le> pRead c then c\<lparr>pRead := 0\<rparr> else c);
          Some (assertedLength, buffer, c)
        }
        else do {
          let l = bSz c - pRead c;
          buffer \<leftarrow> memcpy buffer 0 (cb_b c) (pRead c) l;
          buffer \<leftarrow> memcpy buffer l (cb_b c) 0 (s - l);
          let c = c\<lparr>currSz := currSz c - assertedLength, pRead := s - l\<rparr>;
          Some (assertedLength, buffer, c)
        }
      }
      else Some (0, buffer, c))"

definition Probe :: "ramCircBuff \<Rightarrow> int option" where
  "Probe c = (if currSz c \<noteq> 0 then rd_header c else Some 0)"

section \<open>The contract\<close>

text \<open>Calls on a queue of records in any order, with their answers. The queue has room for a number of bytes, and each record
  takes four more than its own. \<open>get\<close> copies the whole record, and so there is no answer when the caller's buffer is shorter.\<close>

datatype ring_call = RPut bytes | RGet bytes | RProbe

datatype ring_answer = Stored int | Got int bytes | Next int

fun queue_calls :: "int \<Rightarrow> ring_call list \<Rightarrow> bytes list \<Rightarrow> (ring_answer list \<times> bytes list) option" where
  "queue_calls n [] rs = Some ([], rs)"
| "queue_calls n (RPut r # cs) rs =
     (if int (length r) + 4 \<le> n then do { (as, rs) \<leftarrow> queue_calls (n - int (length r) - 4) cs (rs @ [r]); Some (Stored (int (length r)) # as, rs) }
      else do { (as, rs) \<leftarrow> queue_calls n cs rs; Some (Stored (- 1) # as, rs) })"
| "queue_calls n (RGet buf # cs) [] = do { (as, rs) \<leftarrow> queue_calls n cs []; Some (Got 0 buf # as, rs) }"
| "queue_calls n (RGet buf # cs) (r # rs) =
     (if length r \<le> length buf
      then do { (as, rs) \<leftarrow> queue_calls (n + int (length r) + 4) cs rs; Some (Got (int (length r)) (r @ drop (length r) buf) # as, rs) }
      else None)"
| "queue_calls n (RProbe # cs) rs =
     do { (as, rs') \<leftarrow> queue_calls n cs rs; Some (Next (case rs of [] \<Rightarrow> 0 | r # _ \<Rightarrow> int (length r)) # as, rs') }"

text \<open>A queue of records that holds a number of bytes: \<open>put\<close> stores a record or refuses it when its
  bytes and four more do not fit, \<open>probe\<close> tells the length of the oldest record, \<open>get\<close> takes it.\<close>

locale record_fifo =
  fixes ok :: "'s \<Rightarrow> bytes list \<Rightarrow> bool"
    and room :: "'s \<Rightarrow> int"
    and put :: "bytes \<Rightarrow> int \<Rightarrow> 's \<Rightarrow> (int \<times> 's) option"
    and get :: "bytes \<Rightarrow> int \<Rightarrow> 's \<Rightarrow> (int \<times> bytes \<times> 's) option"
    and probe :: "'s \<Rightarrow> int option"
  assumes put_fits: "ok s rs \<Longrightarrow> int (length r) + 4 \<le> room s \<Longrightarrow>
      \<exists>s'. put r (int (length r)) s = Some (int (length r), s') \<and> ok s' (rs @ [r]) \<and>
        room s' = room s - int (length r) - 4"
    and put_full: "ok s rs \<Longrightarrow> length r < 2 ^ 31 \<Longrightarrow> room s < int (length r) + 4 \<Longrightarrow>
      put r (int (length r)) s = Some (- 1, s)"
    and probe_first: "ok s rs \<Longrightarrow> probe s = Some (case rs of [] \<Rightarrow> 0 | r # _ \<Rightarrow> int (length r))"
    and get_first: "ok s (r # rs) \<Longrightarrow> int (length r) \<le> len \<Longrightarrow> length r \<le> length buf \<Longrightarrow>
      \<exists>s'. get buf len s = Some (int (length r), r @ drop (length r) buf, s') \<and> ok s' rs \<and>
        room s' = room s + int (length r) + 4"
    and get_none: "ok s [] \<Longrightarrow> get buf len s = Some (0, buf, s)"
    and get_short: "ok s (r # rs) \<Longrightarrow> length buf < length r \<Longrightarrow> get buf (int (length buf)) s = None"
begin

fun calls :: "ring_call list \<Rightarrow> 's \<Rightarrow> (ring_answer list \<times> 's) option" where
  "calls [] s = Some ([], s)"
| "calls (RPut r # cs) s = do { (n, s) \<leftarrow> put r (int (length r)) s; (as, s) \<leftarrow> calls cs s; Some (Stored n # as, s) }"
| "calls (RGet buf # cs) s = do { (n, b, s) \<leftarrow> get buf (int (length buf)) s; (as, s) \<leftarrow> calls cs s; Some (Got n b # as, s) }"
| "calls (RProbe # cs) s = do { n \<leftarrow> probe s; (as, s) \<leftarrow> calls cs s; Some (Next n # as, s) }"

text \<open>The answers are those of the queue, and there are none exactly when the queue has none.\<close>

lemma calls_queue:
  assumes "ok s rs" and "\<forall>r. RPut r \<in> set cs \<longrightarrow> length r < 2 ^ 31"
  shows "case queue_calls (room s) cs rs of None \<Rightarrow> calls cs s = None | Some (as, rs') \<Rightarrow> \<exists>s'. calls cs s = Some (as, s') \<and> ok s' rs'"
  using assms
proof (induction cs arbitrary: s rs)
  case Nil
  then show ?case by simp
next
  case (Cons c cs)
  have P: "\<forall>r. RPut r \<in> set cs \<longrightarrow> length r < 2 ^ 31" using Cons.prems(2) by simp
  note IH = Cons.IH [OF _ P]
  show ?case
  proof (cases c)
    case (RPut r)
    show ?thesis
    proof (cases "int (length r) + 4 \<le> room s")
      case True
      obtain s1 where s1: "put r (int (length r)) s = Some (int (length r), s1)" "ok s1 (rs @ [r])" "room s1 = room s - int (length r) - 4"
        using put_fits [OF Cons.prems(1) True] by blast
      show ?thesis using IH [OF s1(2)] s1(1) True unfolding RPut s1(3) by (fastforce split: option.splits)
    next
      case False
      then have "put r (int (length r)) s = Some (- 1, s)" using put_full [OF Cons.prems(1)] Cons.prems(2) RPut by simp
      then show ?thesis using IH [OF Cons.prems(1)] False unfolding RPut by (fastforce split: option.splits)
    qed
  next
    case (RGet buf)
    show ?thesis
    proof (cases rs)
      case Nil
      have "get buf (int (length buf)) s = Some (0, buf, s)" using get_none Cons.prems(1) Nil by simp
      then show ?thesis using IH [OF Cons.prems(1)] unfolding RGet Nil by (fastforce split: option.splits)
    next
      case R: (Cons r rs')
      have ok: "ok s (r # rs')" using Cons.prems(1) R by simp
      show ?thesis
      proof (cases "length r \<le> length buf")
        case True
        obtain s1 where s1: "get buf (int (length buf)) s = Some (int (length r), r @ drop (length r) buf, s1)" "ok s1 rs'"
          "room s1 = room s + int (length r) + 4" using get_first [OF ok, of "int (length buf)" buf] True by auto
        show ?thesis using IH [OF s1(2)] s1(1) True unfolding RGet R s1(3) by (fastforce split: option.splits)
      next
        case False
        then have "get buf (int (length buf)) s = None" using get_short [OF ok] by simp
        then show ?thesis using False unfolding RGet R by simp
      qed
    qed
  next
    case RProbe
    show ?thesis using IH [OF Cons.prems(1)] probe_first [OF Cons.prems(1)] unfolding RProbe by (fastforce split: option.splits)
  qed
qed

end

section \<open>The ring of records keeps the contract\<close>

definition enc :: "bytes \<Rightarrow> bytes" where
  "enc r = le_bytes 4 (int (length r)) @ r"

definition stream :: "bytes list \<Rightarrow> bytes" where
  "stream rs = concat (map enc rs)"

lemma length_enc [simp]: "length (enc r) = length r + 4"
  by (simp add: enc_def)

lemma stream_simps [simp]: "stream [] = []" "stream (r # rs) = enc r @ stream rs" "stream (rs @ qs) = stream rs @ stream qs"
  by (simp_all add: stream_def)

definition circ_ok :: "ramCircBuff \<Rightarrow> bytes list \<Rightarrow> bool" where
  "circ_ok c rs \<longleftrightarrow> 0 < bSz c \<and> bSz c < 2 ^ 16 \<and> length (cb_b c) = nat (bSz c) \<and>
     0 \<le> pRead c \<and> pRead c < bSz c \<and> 0 \<le> pWrite c \<and> pWrite c < bSz c \<and>
     currSz c = int (length (stream rs)) \<and> currSz c \<le> bSz c \<and>
     nat (pWrite c) = (nat (pRead c) + nat (currSz c)) mod nat (bSz c) \<and>
     ring (nth (cb_b c)) (nat (pRead c)) (nat (currSz c)) (nat (bSz c)) = stream rs"

definition circ_room :: "ramCircBuff \<Rightarrow> int" where
  "circ_room c = bSz c - currSz c"

lemma u32_of_id: "0 \<le> x \<Longrightarrow> x < 2 ^ 32 \<Longrightarrow> u32_of x = x"
  by (simp add: u32_of_def)

lemma memcpy_ring:
  assumes "0 \<le> di" and "0 \<le> si" and "0 \<le> k" and "si + k \<le> int (length src)" and "di + k \<le> int (length dst)"
  shows "\<exists>m. memcpy dst di src si k = Some m \<and> ring_upd dst (nat di) (take (nat k) (drop (nat si) src)) m"
proof -
  let ?d = "take (nat k) (drop (nat si) src)"
  have "length ?d = nat k" using assms by simp
  then obtain m where m: "wr_bytes dst di ?d = Some m" using wr_bytes_ok [of di ?d dst] assms by auto
  then have "memcpy dst di src si k = Some m" using assms by (simp add: memcpy_def rd_bytes_def)
  then show ?thesis using ring_upd_wr [OF m] by blast
qed

text \<open>Writing \<open>d\<close> in two pieces, the second one at the start of the buffer.\<close>

lemma memcpy_split:
  assumes w: "0 \<le> w" "w \<le> int (length b)" and l: "l = int (length b) - w" and k: "l \<le> int (length d)" "length d \<le> length b"
  shows "\<exists>b1 b2. memcpy b w d 0 l = Some b1 \<and> memcpy b1 0 d l (int (length d) - l) = Some b2 \<and> ring_upd b (nat w) d b2"
proof -
  obtain b1 where b1: "memcpy b w d 0 l = Some b1" "ring_upd b (nat w) (take (nat l) d) b1"
    using memcpy_ring [of w 0 l d b] w l k by auto
  have n: "length b1 = length b" using b1(2) by (simp add: ring_upd_def)
  obtain b2 where b2: "memcpy b1 0 d l (int (length d) - l) = Some b2" "ring_upd b1 0 (drop (nat l) d) b2"
    using memcpy_ring [of 0 l "int (length d) - l" d b1] w l k n by auto
  have lt: "length (take (nat l) d) = nat l" using k(1) by simp
  have "(nat w + nat l) mod length b1 = 0" using w l n by (simp add: nat_diff_distrib)
  then have "ring_upd b1 (nat w + nat l) (drop (nat l) d) b2" using b2(2) by (metis ring_upd_mod mod_0)
  then have "ring_upd b (nat w) (take (nat l) d @ drop (nat l) d) b2"
    by (intro ring_upd_append [OF b1(2)]) (use lt k in simp_all)
  then show ?thesis using b1(1) b2(1) by auto
qed

lemma put_header_spec:
  assumes c: "length (cb_b c) = nat (bSz c)" "4 \<le> bSz c" "bSz c < 2 ^ 16" "0 \<le> pWrite c" "pWrite c < bSz c"
  shows "\<exists>b w. put_header len c = Some (c\<lparr>cb_b := b, pWrite := w\<rparr>) \<and> ring_upd (cb_b c) (nat (pWrite c)) (le_bytes 4 len) b \<and>
     0 \<le> w \<and> w \<le> bSz c \<and> nat w mod nat (bSz c) = (nat (pWrite c) + 4) mod nat (bSz c)"
proof (cases "pWrite c + 4 \<le> bSz c")
  case True
  obtain b where b: "memcpy (cb_b c) (pWrite c) (le_bytes 4 len) 0 4 = Some b" "ring_upd (cb_b c) (nat (pWrite c)) (le_bytes 4 len) b"
    using memcpy_ring [of "pWrite c" 0 4 "le_bytes 4 len" "cb_b c"] True c by auto
  moreover have "u32_of (pWrite c + 4) \<le> u32_of (bSz c)" using True c by (simp add: u32_of_id)
  ultimately show ?thesis
    using True c by (intro exI [of _ b] exI [of _ "pWrite c + 4"]) (simp add: put_header_def nat_add_distrib)
next
  case False
  let ?sh = "bSz c - pWrite c"
  obtain b1 b2 where b: "memcpy (cb_b c) (pWrite c) (le_bytes 4 len) 0 ?sh = Some b1" "memcpy b1 0 (le_bytes 4 len) ?sh (4 - ?sh) = Some b2"
    "ring_upd (cb_b c) (nat (pWrite c)) (le_bytes 4 len) b2"
    using memcpy_split [of "pWrite c" "cb_b c" ?sh "le_bytes 4 len"] False c nat_less_iff [of "bSz c" 4] by auto
  have "\<not> u32_of (pWrite c + 4) \<le> u32_of (bSz c)" "u32_of (4 - ?sh) = 4 - ?sh" using False c by (simp_all add: u32_of_id)
  then have "put_header len c = Some (c\<lparr>cb_b := b2, pWrite := 4 - ?sh\<rparr>)" using b by (simp add: put_header_def Let_def)
  moreover have "nat (pWrite c) + 4 = nat (4 - ?sh) + nat (bSz c)" using False c by simp
  then have "nat (4 - ?sh) mod nat (bSz c) = (nat (pWrite c) + 4) mod nat (bSz c)" by simp
  ultimately show ?thesis using b(3) False c by (intro exI [of _ b2] exI [of _ "4 - ?sh"]) simp
qed

lemma put_data_spec:
  assumes c: "length (cb_b c) = nat (bSz c)" "0 \<le> pWrite c" "pWrite c \<le> bSz c" and d: "int (length d) < bSz c"
  shows "\<exists>b w. put_data d (int (length d)) c = Some (c\<lparr>cb_b := b, pWrite := w\<rparr>) \<and> ring_upd (cb_b c) (nat (pWrite c)) d b \<and>
     0 \<le> w \<and> w < bSz c \<and> nat w = (nat (pWrite c) + length d) mod nat (bSz c)"
proof (cases "pWrite c + int (length d) < bSz c")
  case True
  obtain b where b: "memcpy (cb_b c) (pWrite c) d 0 (int (length d)) = Some b" "ring_upd (cb_b c) (nat (pWrite c)) d b"
    using memcpy_ring [of "pWrite c" 0 "int (length d)" d "cb_b c"] True c by auto
  moreover have "nat (pWrite c + int (length d)) = (nat (pWrite c) + length d) mod nat (bSz c)"
    using True c by (simp add: nat_add_distrib)
  ultimately show ?thesis
    using True c by (intro exI [of _ b] exI [of _ "pWrite c + int (length d)"]) (simp add: put_data_def)
next
  case False
  let ?s = "bSz c - pWrite c"
  obtain b1 b2 where b: "memcpy (cb_b c) (pWrite c) d 0 ?s = Some b1" "memcpy b1 0 d ?s (int (length d) - ?s) = Some b2"
    "ring_upd (cb_b c) (nat (pWrite c)) d b2"
    using memcpy_split [of "pWrite c" "cb_b c" ?s d] False c d nat_less_iff [of "bSz c" "length d"] by auto
  then have "put_data d (int (length d)) c = Some (c\<lparr>cb_b := b2, pWrite := int (length d) - ?s\<rparr>)"
    using False by (simp add: put_data_def Let_def)
  moreover have e: "nat (pWrite c) + length d = nat (int (length d) - ?s) + nat (bSz c)" using False c by simp
  have "nat (int (length d) - ?s) = (nat (pWrite c) + length d) mod nat (bSz c)"
    unfolding e using False c d by simp
  ultimately show ?thesis using b(3) False c d by (intro exI [of _ b2] exI [of _ "int (length d) - ?s"]) simp
qed

lemma circ_grow:
  assumes ok: "circ_ok c rs" and up: "ring_upd (cb_b c) (nat (pWrite c)) (enc r) b" and fit: "currSz c + 4 + int (length r) \<le> bSz c"
    and w: "0 \<le> w" "w < bSz c" "nat w = (nat (pWrite c) + (length r + 4)) mod nat (bSz c)"
  shows "circ_ok (c\<lparr>cb_b := b, currSz := currSz c + 4 + int (length r), pWrite := w\<rparr>) (rs @ [r])"
proof -
  let ?n = "nat (bSz c)" and ?k = "nat (currSz c)" and ?l = "nat (pRead c)"
  have n: "length (cb_b c) = ?n" and pw: "nat (pWrite c) = (?l + ?k) mod ?n" and cs: "0 \<le> currSz c"
    using ok by (simp_all add: circ_ok_def)
  have rg: "ring (nth (cb_b c)) ?l ?k ?n = stream rs" using ok unfolding circ_ok_def by blast
  have "ring (nth b) ?l (?k + length (enc r)) ?n = ring (nth (cb_b c)) ?l ?k ?n @ enc r"
    using ring_upd_content [OF up, of ?l ?k] fit cs pw n by (simp add: nat_le_iff)
  moreover have "nat (currSz c + 4 + int (length r)) = ?k + length (enc r)" using cs by simp
  moreover have "nat w = (?l + (?k + length (enc r))) mod ?n"
    using w(3) unfolding pw by (simp add: mod_add_left_eq add.assoc)
  moreover have "length b = ?n" using up n by (simp add: ring_upd_def)
  moreover have "0 < bSz c" "bSz c < 2 ^ 16" "0 \<le> pRead c" "pRead c < bSz c" "currSz c = int (length (stream rs))"
    using ok by (simp_all add: circ_ok_def)
  ultimately show ?thesis using fit w rg unfolding circ_ok_def by simp
qed

lemma Put_fits:
  assumes ok: "circ_ok c rs" and fit: "int (length r) + 4 \<le> circ_room c"
  shows "\<exists>c'. Put r (int (length r)) c = Some (int (length r), c') \<and> circ_ok c' (rs @ [r]) \<and>
     circ_room c' = circ_room c - int (length r) - 4"
proof -
  let ?r = "int (length r)" and ?h = "le_bytes 4 (int (length r))"
  have fit': "currSz c + 4 + ?r \<le> bSz c" using fit by (simp add: circ_room_def)
  have C: "0 \<le> currSz c" "bSz c < 2 ^ 16" "0 \<le> pWrite c" "pWrite c < bSz c" "length (cb_b c) = nat (bSz c)"
    using ok by (simp_all add: circ_ok_def)
  have g: "u32_of (currSz c + 4 + ?r) \<le> u32_of (bSz c)" using fit' C by (simp add: u32_of_id)
  show ?thesis
  proof (cases "pWrite c + 4 + ?r \<le> bSz c")
    case True
    obtain b1 where b1: "memcpy (cb_b c) (pWrite c) ?h 0 4 = Some b1" "ring_upd (cb_b c) (nat (pWrite c)) ?h b1"
      using memcpy_ring [of "pWrite c" 0 4 ?h "cb_b c"] True C by auto
    have n1: "length b1 = nat (bSz c)" using b1(2) C by (simp add: ring_upd_def)
    obtain b2 where b2: "memcpy b1 (pWrite c + 4) r 0 ?r = Some b2" "ring_upd b1 (nat (pWrite c + 4)) r b2"
      using memcpy_ring [of "pWrite c + 4" 0 ?r r b1] True C n1 by auto
    have "ring_upd b1 (nat (pWrite c) + 4) r b2" using b2(2) C by (simp add: nat_add_distrib)
    then have up: "ring_upd (cb_b c) (nat (pWrite c)) (enc r) b2"
      unfolding enc_def using ring_upd_append [OF b1(2), of r b2] fit' C by simp
    have q: "u32_of (pWrite c + 4 + ?r) \<le> u32_of (bSz c)" using True C by (simp add: u32_of_id)
    let ?w = "if bSz c \<le> pWrite c + (4 + ?r) then 0 else pWrite c + (4 + ?r)"
    let ?c' = "c\<lparr>cb_b := b2, currSz := currSz c + 4 + ?r, pWrite := ?w\<rparr>"
    have "Put r ?r c = Some (?r, ?c')" using b1(1) b2(1) g q by (auto simp: Put_def Let_def add.assoc)
    moreover have "circ_ok ?c' (rs @ [r])"
    proof (rule circ_grow [OF ok up fit'])
      show "0 \<le> ?w" "?w < bSz c" using C by simp_all
      have "nat (pWrite c) + (length r + 4) \<le> nat (bSz c)" using True C by simp
      moreover have "nat (pWrite c + (4 + ?r)) = nat (pWrite c) + (length r + 4)" using C by simp
      moreover have "nat (pWrite c) + (length r + 4) = nat (bSz c)" if "bSz c \<le> pWrite c + (4 + ?r)"
        using that True C by linarith
      ultimately show "nat ?w = (nat (pWrite c) + (length r + 4)) mod nat (bSz c)" using C
        by (cases "bSz c \<le> pWrite c + (4 + ?r)") simp_all
    qed
    ultimately show ?thesis by (auto simp: circ_room_def)
  next
    case False
    obtain b1 w1 where h: "put_header ?r c = Some (c\<lparr>cb_b := b1, pWrite := w1\<rparr>)" "ring_upd (cb_b c) (nat (pWrite c)) ?h b1"
      "0 \<le> w1" "w1 \<le> bSz c" "nat w1 mod nat (bSz c) = (nat (pWrite c) + 4) mod nat (bSz c)"
      using put_header_spec [of c ?r] C fit' by auto
    let ?c1 = "c\<lparr>cb_b := b1, pWrite := w1, currSz := currSz c + 4\<rparr>"
    have n1: "length b1 = nat (bSz c)" using h(2) C by (simp add: ring_upd_def)
    obtain b2 w2 where d: "put_data r ?r ?c1 = Some (?c1\<lparr>cb_b := b2, pWrite := w2\<rparr>)" "ring_upd b1 (nat w1) r b2"
      "0 \<le> w2" "w2 < bSz c" "nat w2 = (nat w1 + length r) mod nat (bSz c)"
      using put_data_spec [of ?c1 r] h n1 C fit' by auto
    have "ring_upd b1 (nat (pWrite c) + 4) r b2" using d(2) h(5) n1 by (metis ring_upd_mod)
    then have up: "ring_upd (cb_b c) (nat (pWrite c)) (enc r) b2"
      unfolding enc_def using ring_upd_append [OF h(2), of r b2] fit' C by simp
    have q: "\<not> u32_of (pWrite c + 4 + ?r) \<le> u32_of (bSz c)" using False C fit' by (simp add: u32_of_id)
    let ?c' = "c\<lparr>cb_b := b2, currSz := currSz c + 4 + ?r, pWrite := w2\<rparr>"
    have "Put r ?r c = Some (?r, ?c')" using h(1) d(1) g q by (simp add: Put_def Let_def)
    moreover have "nat w2 = (nat (pWrite c) + (length r + 4)) mod nat (bSz c)"
    proof -
      have "(nat w1 + length r) mod nat (bSz c) = (nat (pWrite c) + 4 + length r) mod nat (bSz c)"
        using h(5) by (metis mod_add_left_eq)
      then show ?thesis using d(5) by (simp add: ac_simps)
    qed
    then have "circ_ok ?c' (rs @ [r])" using circ_grow [OF ok up fit'] d(3,4) by blast
    ultimately show ?thesis by (auto simp: circ_room_def)
  qed
qed

lemma Put_full:
  assumes "circ_ok c rs" and "length r < 2 ^ 31" and "circ_room c < int (length r) + 4"
  shows "Put r (int (length r)) c = Some (- 1, c)"
proof -
  have "\<not> u32_of (currSz c + 4 + int (length r)) \<le> u32_of (bSz c)"
    using assms by (simp add: u32_of_id circ_ok_def circ_room_def)
  then show ?thesis by (simp add: Put_def)
qed

text \<open>Reading.\<close>

lemma rd_split:
  assumes w: "0 \<le> w" "w < int (length b)" and l: "l = int (length b) - w" and k: "l \<le> int k" "k \<le> length b"
  shows "rd_bytes b w l = Some (ring (nth b) (nat w) (nat l) (length b))"
    "rd_bytes b 0 (int k - l) = Some (ring (nth b) 0 (k - nat l) (length b))"
    "ring (nth b) (nat w) k (length b) = ring (nth b) (nat w) (nat l) (length b) @ ring (nth b) 0 (k - nat l) (length b)"
proof -
  show "rd_bytes b w l = Some (ring (nth b) (nat w) (nat l) (length b))"
    using w l by (intro rd_bytes_ring) simp_all
  have "nat (int k - l) = k - nat l" using w l k by simp
  then show "rd_bytes b 0 (int k - l) = Some (ring (nth b) 0 (k - nat l) (length b))"
    using rd_bytes_ring [of 0 "int k - l" b] w l k by simp
  have "k = nat l + (k - nat l)" "(nat w + nat l) mod length b = 0" using w l k by (simp_all add: nat_diff_distrib)
  then show "ring (nth b) (nat w) k (length b) = ring (nth b) (nat w) (nat l) (length b) @ ring (nth b) 0 (k - nat l) (length b)"
    using ring_split [of "nth b" "nat w" "nat l" "k - nat l" "length b"] by simp
qed

lemma rd_header_ring:
  assumes "length (cb_b c) = nat (bSz c)" "4 \<le> bSz c" "bSz c < 2 ^ 16" "0 \<le> pRead c" "pRead c < bSz c"
  shows "rd_header c = Some (int_val (ring (nth (cb_b c)) (nat (pRead c)) 4 (nat (bSz c))))"
proof (cases "pRead c + 4 \<le> bSz c")
  case True
  then have "u32_of (pRead c + 4) \<le> u32_of (bSz c)" using assms by (simp add: u32_of_id)
  then show ?thesis using rd_bytes_ring [of "pRead c" 4 "cb_b c"] True assms by (simp add: rd_header_def)
next
  case False
  have "4 \<le> nat (bSz c)" using assms by linarith
  then have "\<not> u32_of (pRead c + 4) \<le> u32_of (bSz c)" "u32_of (4 - (bSz c - pRead c)) = 4 - (bSz c - pRead c)"
    using False assms by (simp_all add: u32_of_id)
  then show ?thesis
    using rd_split [of "pRead c" "cb_b c" "bSz c - pRead c" 4] False assms \<open>4 \<le> nat (bSz c)\<close> by (simp add: rd_header_def Let_def)
qed

lemma skip_header_eq:
  assumes "4 \<le> bSz c" "bSz c < 2 ^ 16" "0 \<le> pRead c" "pRead c < bSz c"
  shows "\<exists>p. skip_header c = c\<lparr>currSz := currSz c - 4, pRead := p\<rparr> \<and> 0 \<le> p \<and> p < bSz c \<and>
     nat p = (nat (pRead c) + 4) mod nat (bSz c)"
proof -
  let ?p = "if pRead c + 4 < bSz c then pRead c + 4 else 4 - (bSz c - pRead c)"
  have "skip_header c = c\<lparr>currSz := currSz c - 4, pRead := ?p\<rparr>"
    using assms by (auto simp: skip_header_def Let_def u32_of_id)
  moreover have "nat ?p = (nat (pRead c) + 4) mod nat (bSz c)"
  proof (cases "pRead c + 4 < bSz c")
    case False
    have "nat (pRead c) + 4 = nat (4 - (bSz c - pRead c)) + nat (bSz c)" using False assms by linarith
    moreover have "nat (4 - (bSz c - pRead c)) < nat (bSz c)" using False assms by linarith
    ultimately show ?thesis using False by simp
  qed (use assms in \<open>simp add: nat_add_distrib\<close>)
  ultimately show ?thesis using assms by (intro exI [of _ ?p]) auto
qed

lemma circ_front:
  assumes ok: "circ_ok c (r # rs)"
  shows "4 + int (length r) \<le> currSz c" "4 \<le> bSz c" "int (length r) < 2 ^ 16"
    "ring (nth (cb_b c)) (nat (pRead c)) 4 (nat (bSz c)) = le_bytes 4 (int (length r))"
    "ring (nth (cb_b c)) ((nat (pRead c) + 4) mod nat (bSz c)) (length r) (nat (bSz c)) = r"
    "ring (nth (cb_b c)) ((nat (pRead c) + 4 + length r) mod nat (bSz c)) (length (stream rs)) (nat (bSz c)) = stream rs"
proof -
  let ?n = "nat (bSz c)" and ?q = "nth (cb_b c)" and ?l = "nat (pRead c)"
  have cs: "currSz c = int (length (stream (r # rs)))" "currSz c \<le> bSz c" "bSz c < 2 ^ 16" using ok unfolding circ_ok_def by blast+
  then show "4 + int (length r) \<le> currSz c" "4 \<le> bSz c" "int (length r) < 2 ^ 16" by simp_all
  have "nat (currSz c) = 4 + (length r + length (stream rs))" using cs(1) by simp
  moreover have "ring ?q ?l (nat (currSz c)) ?n = stream (r # rs)" using ok unfolding circ_ok_def by blast
  ultimately have "ring ?q ?l 4 ?n @ ring ?q ((?l + 4) mod ?n) (length r) ?n @
      ring ?q (((?l + 4) mod ?n + length r) mod ?n) (length (stream rs)) ?n = le_bytes 4 (int (length r)) @ r @ stream rs"
    by (simp add: ring_split enc_def)
  moreover have "((?l + 4) mod ?n + length r) mod ?n = (?l + 4 + length r) mod ?n" by (rule mod_add_left_eq)
  ultimately show "ring ?q ?l 4 ?n = le_bytes 4 (int (length r))" "ring ?q ((?l + 4) mod ?n) (length r) ?n = r"
    "ring ?q ((?l + 4 + length r) mod ?n) (length (stream rs)) ?n = stream rs"
    by (simp_all add: append_eq_append_conv)
qed

lemma Probe_first:
  assumes ok: "circ_ok c rs"
  shows "Probe c = Some (case rs of [] \<Rightarrow> 0 | r # _ \<Rightarrow> int (length r))"
proof (cases rs)
  case Nil
  then show ?thesis using ok by (simp add: Probe_def circ_ok_def)
next
  case (Cons r qs)
  note f = circ_front [of c r qs, OF ok [unfolded Cons]]
  have "rd_header c = Some (int_val (le_bytes 4 (int (length r))))"
    using rd_header_ring [of c] f(2,4) ok by (simp add: circ_ok_def)
  moreover have "currSz c \<noteq> 0" using f(1) by linarith
  ultimately show ?thesis using int_val_le_bytes [of "int (length r)"] f(3) Cons by (simp add: Probe_def)
qed

lemma circ_shrink:
  assumes ok: "circ_ok c (r # rs)" and p: "0 \<le> p" "p < bSz c" "nat p = (nat (pRead c) + 4 + length r) mod nat (bSz c)"
  shows "circ_ok (c\<lparr>currSz := currSz c - 4 - int (length r), pRead := p\<rparr>) rs"
proof -
  let ?n = "nat (bSz c)"
  note f = circ_front [OF ok]
  have cs: "currSz c = int (length (stream (r # rs)))" and pw: "nat (pWrite c) = (nat (pRead c) + nat (currSz c)) mod ?n"
    using ok unfolding circ_ok_def by blast+
  have k: "nat (currSz c) = 4 + length r + length (stream rs)" using cs by simp
  have "(nat p + length (stream rs)) mod ?n = (nat (pRead c) + 4 + length r + length (stream rs)) mod ?n"
    unfolding p(3) by (rule mod_add_left_eq)
  then have "nat (pWrite c) = (nat p + length (stream rs)) mod ?n" unfolding pw k by (simp add: ac_simps)
  moreover have "currSz c - 4 - int (length r) = int (length (stream rs))" using cs by simp
  moreover have "ring (nth (cb_b c)) (nat p) (length (stream rs)) ?n = stream rs" using f(6) p(3) by simp
  ultimately show ?thesis using ok p(1,2) unfolding circ_ok_def by simp
qed

lemma Get_first:
  assumes ok: "circ_ok c (r # rs)" and len: "int (length r) \<le> len" and buf: "length r \<le> length buf"
  shows "\<exists>c'. Get buf len c = Some (int (length r), r @ drop (length r) buf, c') \<and> circ_ok c' rs \<and>
     circ_room c' = circ_room c + int (length r) + 4"
proof -
  let ?r = "int (length r)" and ?n = "nat (bSz c)"
  note f = circ_front [OF ok]
  have C: "length (cb_b c) = ?n" "bSz c < 2 ^ 16" "0 \<le> pRead c" "pRead c < bSz c" "currSz c \<le> bSz c" using ok unfolding circ_ok_def by blast+
  have h: "rd_header c = Some ?r"
    using rd_header_ring [of c] f C int_val_le_bytes [of ?r] by simp
  obtain p where p: "skip_header c = c\<lparr>currSz := currSz c - 4, pRead := p\<rparr>" "0 \<le> p" "p < bSz c" "nat p = (nat (pRead c) + 4) mod ?n"
    using skip_header_eq [of c] f(2) C by blast
  have d: "ring (nth (cb_b c)) (nat p) (length r) ?n = r" using f(5) p(4) by simp
  have np: "(nat p + length r) mod ?n = (nat (pRead c) + 4 + length r) mod ?n" unfolding p(4) by (rule mod_add_left_eq)
  have nz: "currSz c \<noteq> 0" using f(1) by linarith
  have W: "wr_bytes buf 0 r = Some (r @ drop (length r) buf)" using buf by (simp add: wr_bytes_def)
  show ?thesis
  proof (cases "p + ?r \<le> bSz c")
    case True
    have "rd_bytes (cb_b c) p ?r = Some r" using rd_bytes_ring [of p ?r "cb_b c"] True C p d by simp
    then have m: "memcpy buf 0 (cb_b c) p ?r = Some (r @ drop (length r) buf)" using W by (simp add: memcpy_def)
    let ?p = "if bSz c \<le> p + ?r then 0 else p + ?r"
    let ?c' = "c\<lparr>currSz := currSz c - 4 - ?r, pRead := ?p\<rparr>"
    have "Get buf len c = Some (?r, r @ drop (length r) buf, ?c')"
      using nz h p(1) len True m by (auto simp: Get_def Let_def)
    moreover have "nat ?p = (nat (pRead c) + 4 + length r) mod ?n"
    proof (cases "bSz c \<le> p + ?r")
      case F: True
      then have "nat p + length r = ?n" using True p by linarith
      then show ?thesis using F np by (metis mod_self nat_zero_as_int nat_0 zero_less_nat_eq)
    next
      case False
      then have "nat (p + ?r) = (nat p + length r) mod ?n" using p by (simp add: nat_add_distrib)
      then show ?thesis using False np by simp
    qed
    then have "circ_ok ?c' rs" using circ_shrink [OF ok, of ?p] p by simp
    ultimately show ?thesis by (auto simp: circ_room_def)
  next
    case False
    let ?l = "bSz c - p"
    have lr: "length r \<le> ?n" using f(1) C(5) by linarith
    note sp = rd_split [of p "cb_b c" ?l "length r", unfolded C(1)]
    have b1: "rd_bytes (cb_b c) p ?l = Some (take (nat ?l) r)" and b2: "rd_bytes (cb_b c) 0 (?r - ?l) = Some (drop (nat ?l) r)"
    proof -
      have s3: "r = ring (nth (cb_b c)) (nat p) (nat ?l) ?n @ ring (nth (cb_b c)) 0 (length r - nat ?l) ?n"
        using sp(3) d False p lr C by simp
      have "take (nat ?l) r = ring (nth (cb_b c)) (nat p) (nat ?l) ?n" "drop (nat ?l) r = ring (nth (cb_b c)) 0 (length r - nat ?l) ?n"
        by (subst s3, simp)+
      then show "rd_bytes (cb_b c) p ?l = Some (take (nat ?l) r)" "rd_bytes (cb_b c) 0 (?r - ?l) = Some (drop (nat ?l) r)"
        using sp(1,2) False p lr C by simp_all
    qed
    have ll: "nat ?l \<le> length r" "0 \<le> ?l" using False p by simp_all
    let ?b1 = "take (nat ?l) r @ drop (nat ?l) buf"
    let ?c' = "c\<lparr>currSz := currSz c - 4 - ?r, pRead := ?r - ?l\<rparr>"
    have "memcpy buf 0 (cb_b c) p ?l = Some ?b1" using b1 ll buf by (simp add: memcpy_def wr_bytes_def min_def)
    moreover have "memcpy ?b1 ?l (cb_b c) 0 (?r - ?l) = Some (r @ drop (length r) buf)"
    proof -
      have "length ?b1 = length buf" using ll buf by simp
      then show ?thesis using b2 ll buf by (simp add: memcpy_def wr_bytes_def min_def)
    qed
    ultimately have "Get buf len c = Some (?r, r @ drop (length r) buf, ?c')"
      using nz h p(1) len False by (simp add: Get_def Let_def)
    moreover have "nat (?r - ?l) = (nat (pRead c) + 4 + length r) mod ?n"
    proof -
      have "nat p + length r = nat (?r - ?l) + ?n" "nat (?r - ?l) < ?n" using False p lr f(1) C(5) by linarith+
      then show ?thesis using np by simp
    qed
    then have "circ_ok ?c' rs" using circ_shrink [OF ok, of "?r - ?l"] False f(1) C(5) p by simp
    ultimately show ?thesis by (auto simp: circ_room_def)
  qed
qed

lemma Get_none: "circ_ok c [] \<Longrightarrow> Get buf len c = Some (0, buf, c)"
  by (simp add: circ_ok_def Get_def)

lemma memcpy_overrun: "0 \<le> i \<Longrightarrow> int (length dst) < i + n \<Longrightarrow> memcpy dst i src k n = None"
  by (auto simp: memcpy_def rd_bytes_def wr_bytes_def bind_eq_None_conv split: if_splits)

lemma Get_short:
  assumes ok: "circ_ok c (r # rs)" and buf: "length buf < length r"
  shows "Get buf (int (length buf)) c = None"
proof -
  note f = circ_front [OF ok]
  have C: "length (cb_b c) = nat (bSz c)" "bSz c < 2 ^ 16" "0 \<le> pRead c" "pRead c < bSz c" using ok unfolding circ_ok_def by blast+
  have h: "rd_header c = Some (int (length r))"
    using rd_header_ring [of c] f C int_val_le_bytes [of "int (length r)"] by simp
  obtain p where p: "skip_header c = c\<lparr>currSz := currSz c - 4, pRead := p\<rparr>" "p < bSz c"
    using skip_header_eq [of c] f(2) C by blast
  have nz: "currSz c \<noteq> 0" using f(1) by linarith
  have *: "memcpy b (bSz c - p) (cb_b c) 0 (int (length r) - (bSz c - p)) = None"
    if "memcpy buf 0 (cb_b c) p (bSz c - p) = Some b" for b
  proof -
    have "length b = length buf" using that by (auto simp: memcpy_def wr_bytes_def rd_bytes_def split: if_splits)
    then show ?thesis using buf p(2) by (intro memcpy_overrun) simp_all
  qed
  then have two: "Option.bind (memcpy buf 0 (cb_b c) p (bSz c - p))
      (\<lambda>b. Option.bind (memcpy b (bSz c - p) (cb_b c) 0 (int (length r) - (bSz c - p))) k) = None" for k :: "bytes \<Rightarrow> (int \<times> bytes \<times> ramCircBuff) option"
    by (cases "memcpy buf 0 (cb_b c) p (bSz c - p)") simp_all
  show ?thesis
    using nz h p(1) buf memcpy_overrun [of 0 buf "int (length r)"] two by (simp add: Get_def Let_def)
qed

interpretation circ: record_fifo circ_ok circ_room Put Get Probe
  by unfold_locales (fact Put_fits Put_full Probe_first Get_first Get_none Get_short)+

lemma circ_new_ok: "0 < sz \<Longrightarrow> sz < 2 ^ 16 \<Longrightarrow> circ_ok (ramCircBuff_new sz) []" "circ_room (ramCircBuff_new sz) = sz"
  by (simp_all add: circ_ok_def ramCircBuff_new_def circ_room_def)

end
