(* ===== verification/Com_Handler.thy ===== *)
theory Com_Handler
  imports Storage_Base
begin

text \<open>
  The thread that sends the results of the sensors to the server (\<open>ComHandler.cpp\<close>): results are framed and
  put into the ring of records, a request takes them out again behind a header of 60 bytes. The
  client of \<open>record_fifo\<close>. The clock and what the HTTP client does are outside; the posted frames
  are the result of a request.
\<close>

section \<open>State\<close>

datatype transferType = TT_ASAP | TT_HALF | TT_ALMOST_FULL

record frameHdr =
  imei :: bytes
  idCfg :: bytes
  hdr_time :: u32
  newSess :: u8

record ComHandler =
  tt :: transferType
  first :: bool
  hdr :: frameHdr
  BuffMtx :: bool
  TXBuff :: bytes
  currLen :: u16
  dataStorage :: ramCircBuff

text \<open>The constructor with its own buffer of 2096 bytes; the ring takes 1024 bytes. Memory that is not
  initialised is a parameter.\<close>

definition ComHandler_new :: "bytes \<Rightarrow> transferType \<Rightarrow> bytes \<Rightarrow> u32 \<Rightarrow> u8 \<Rightarrow> u16 \<Rightarrow> ComHandler option" where
  "ComHandler_new idProduct ltt buf tm ns cl = do {
     i \<leftarrow> rd_bytes idProduct 0 15;
     Some \<lparr>tt = ltt, first = True, hdr = \<lparr>imei = i, idCfg = replicate 40 0xa5, hdr_time = tm, newSess = ns\<rparr>,
       BuffMtx = False, TXBuff = buf, currLen = cl, dataStorage = ramCircBuff_new 1024\<rparr>
   }"

section \<open>Operations\<close>

definition SetTransferType :: "transferType \<Rightarrow> ComHandler \<Rightarrow> ComHandler" where
  "SetTransferType ltt c = c\<lparr>tt := ltt\<rparr>"

text \<open>The fill level is a quotient by 1024, which a \<open>float\<close> holds exactly; 0.8 as a \<open>float\<close> is
  13421773 / 2^24. The comparison is written without the division.\<close>

definition NeedTransfer :: "ComHandler \<Rightarrow> bool" where
  "NeedTransfer c =
     (let r = dataStorage c in
      case tt c of
        TT_ASAP \<Rightarrow> True
      | TT_HALF \<Rightarrow> bSz r \<le> 2 * currSz r \<or> first c
      | TT_ALMOST_FULL \<Rightarrow> 13421773 * bSz r \<le> 2 ^ 24 * currSz r \<or> first c)"

definition hdr_bytes :: "frameHdr \<Rightarrow> bytes" where
  "hdr_bytes h = imei h @ idCfg h @ le_bytes 4 (uint (hdr_time h)) @ [newSess h]"

definition FillHeader :: "u32 \<Rightarrow> ComHandler \<Rightarrow> ComHandler option" where
  "FillHeader tm c = do {
     let c = c\<lparr>hdr := (hdr c)\<lparr>hdr_time := tm, newSess := (if first c then 0x31 else 0x30)\<rparr>\<rparr>;
     let c = (if first c then c\<lparr>first := False\<rparr> else c);
     b \<leftarrow> memcpy (TXBuff c) 0 (hdr_bytes (hdr c)) 0 60;
     Some (c\<lparr>TXBuff := b\<rparr>)
   }"

definition setIdConfig :: "bytes \<Rightarrow> ComHandler \<Rightarrow> ComHandler option" where
  "setIdConfig i c = do {
     b \<leftarrow> memcpy (idCfg (hdr c)) 0 i 0 40;
     Some (c\<lparr>hdr := (hdr c)\<lparr>idCfg := b\<rparr>\<rparr>)
   }"

definition AddResults :: "u8 \<Rightarrow> bytes \<Rightarrow> u16 \<Rightarrow> ComHandler \<Rightarrow> (bool \<times> ComHandler) option" where
  "AddResults SensorType ldata len c = (if BuffMtx c then None else do {
     b \<leftarrow> wr_bytes (TXBuff c) 0 [SensorType, ucast len, ucast (drop_bit 8 len)];
     b \<leftarrow> memcpy b 3 ldata 0 (uint len);
     let c = c\<lparr>TXBuff := b\<rparr>;
     (r, st) \<leftarrow> Put (TXBuff c) (uint len + 3) (dataStorage c);
     let c = c\<lparr>dataStorage := st\<rparr>;
     if r = - 1 then Some (False, c) else Some (r = uint len + 3, c)
   })"

text \<open>A mutex that is held and not given back (\<open>BuffMtx\<close>) blocks the next caller for good: \<open>None\<close>.
  The inner loop of \<open>DoServerRequest\<close>: how it ends, and the state.\<close>

datatype fill = Empty | Full | Failed

partial_function (option) fill_loop :: "ComHandler \<Rightarrow> (fill \<times> ComHandler) option" where
  "fill_loop c = do {
     r \<leftarrow> Probe (dataStorage c);
     if r < 0 then Some (Failed, c)
     else if r = 0 then Some (Empty, c)
     else if 2096 < r + uint (currLen c) then Some (Full, c)
     else do {
       let n = unat (currLen c);
       (l, b, st) \<leftarrow> Get (drop n (TXBuff c)) 2096 (dataStorage c);
       let c = c\<lparr>TXBuff := take n (TXBuff c) @ b, dataStorage := st\<rparr>;
       if l = - 1 then Some (Failed, c)
       else fill_loop (c\<lparr>currLen := currLen c + word_of_int l\<rparr>)
     }
   }"

text \<open>The outer loop: one frame for each turn, which is posted with one byte more than it has. When
  reading fails the function returns with the mutex locked. \<open>tm\<close> gives the time for the turns to come.\<close>

partial_function (option) request_loop :: "(nat \<Rightarrow> u32) \<Rightarrow> nat \<Rightarrow> ComHandler \<Rightarrow> (bytes list \<times> ComHandler) option" where
  "request_loop tm k c = do {
     let c = c\<lparr>currLen := 0\<rparr>;
     c \<leftarrow> FillHeader (tm k) c;
     let c = c\<lparr>currLen := currLen c + 60\<rparr>;
     (res, c) \<leftarrow> fill_loop c;
     if res = Failed then Some ([], c)
     else do {
       f \<leftarrow> rd_bytes (TXBuff c) 0 (uint (currLen c) + 1);
       if res = Empty then Some ([f], c\<lparr>BuffMtx := False\<rparr>)
       else do {
         (fs, c) \<leftarrow> request_loop tm (k + 1) c;
         Some (f # fs, c)
       }
     }
   }"

definition DoServerRequest :: "(nat \<Rightarrow> u32) \<Rightarrow> ComHandler \<Rightarrow> (bytes list \<times> ComHandler) option" where
  "DoServerRequest tm c = (if BuffMtx c then None else request_loop tm 0 (c\<lparr>BuffMtx := True\<rparr>))"

section \<open>The contents of a frame\<close>

text \<open>A result as it is stored, and the reading of a sequence of them.\<close>

definition res_rec :: "u8 \<times> bytes \<Rightarrow> bytes" where
  "res_rec x = fst x # of_nat (length (snd x)) # of_nat (length (snd x) div 256) # snd x"

function decode_results :: "bytes \<Rightarrow> (u8 \<times> bytes) list" where
  "decode_results [] = []"
| "decode_results [x] = []"
| "decode_results [x, y] = []"
| "decode_results (ty # lo # hi # d) =
     (let n = unat lo + 256 * unat hi in (ty, take n d) # decode_results (drop n d))"
  by pat_completeness auto
termination by (relation "measure length") auto

lemma decode_res_rec:
  assumes "length (snd x) < 2 ^ 16"
  shows "decode_results (res_rec x @ d) = x # decode_results d"
proof -
  have "unat (of_nat (length (snd x)) :: u8) + 256 * unat (of_nat (length (snd x) div 256) :: u8) = length (snd x)"
    using assms by (simp add: unsigned_of_nat take_bit_eq_mod)
  then show ?thesis by (simp add: res_rec_def)
qed

lemma decode_concat: "\<forall>x\<in>set xs. length (snd x) < 2 ^ 16 \<Longrightarrow> decode_results (concat (map res_rec xs)) = xs"
  using decode_res_rec by (induction xs) simp_all

section \<open>Adding results\<close>

lemma rd_bytes_take: "si + n \<le> int k \<Longrightarrow> k \<le> length b \<Longrightarrow> rd_bytes (take k b) si n = rd_bytes b si n"
  by (auto simp: rd_bytes_def drop_take min_def nat_le_iff)

lemma put_data_take:
  assumes "0 \<le> len" and "len \<le> int (length b)"
  shows "put_data (take (nat len) b) len c = put_data b len c"
  using assms by (simp add: put_data_def memcpy_def rd_bytes_take Let_def)

lemma Put_take:
  assumes "0 \<le> len" and "len \<le> int (length b)"
  shows "Put (take (nat len) b) len c = Put b len c"
  using assms by (simp add: Put_def put_data_take memcpy_def rd_bytes_take Let_def)

lemma AddResults_spec:
  assumes ok: "circ_ok (dataStorage c) rs" and b: "length (TXBuff c) = 2096" and m: "\<not> BuffMtx c"
    and d: "length d + 3 \<le> 2096"
  shows "\<exists>buf st. AddResults ty d (of_nat (length d)) c =
       Some (int (length d) + 7 \<le> circ_room (dataStorage c), c\<lparr>TXBuff := buf, dataStorage := st\<rparr>) \<and> length buf = 2096 \<and>
     (if int (length d) + 7 \<le> circ_room (dataStorage c)
      then circ_ok st (rs @ [res_rec (ty, d)]) \<and> circ_room st = circ_room (dataStorage c) - int (length d) - 7
      else st = dataStorage c)"
proof -
  let ?n = "of_nat (length d) :: u16" and ?r = "res_rec (ty, d)"
  have u: "uint ?n = int (length d)" using d by (simp add: unsigned_of_nat take_bit_nat_eq_self)
  have h: "[ty, ucast ?n, ucast (drop_bit 8 ?n)] = take 3 ?r"
  proof -
    have "(ucast ?n :: u8) = of_nat (length d)" by (simp add: ucast_of_nat_down)
    moreover have "(ucast (drop_bit 8 ?n) :: u8) = of_nat (length d div 256)"
      using d by (intro word_unat_eq_iff [THEN iffD2]) (simp add: unsigned_ucast_eq unsigned_drop_bit_eq unsigned_of_nat take_bit_eq_mod drop_bit_eq_div unat_div)
    ultimately show ?thesis by (simp add: res_rec_def)
  qed
  have lr: "length ?r = length d + 3" by (simp add: res_rec_def)
  have dr: "take 3 ?r @ d = ?r" by (simp add: res_rec_def)
  let ?b1 = "take 3 ?r @ drop 3 (TXBuff c)" and ?b = "?r @ drop (length d + 3) (TXBuff c)"
  have w: "wr_bytes (TXBuff c) 0 (take 3 ?r) = Some ?b1" using b lr by (simp add: wr_bytes_def)
  have "memcpy ?b1 3 d 0 (int (length d)) = Some (take 3 ?r @ d @ drop (length d) (drop 3 (TXBuff c)))"
    using b d lr by (simp add: memcpy_def rd_bytes_def wr_bytes_def)
  then have mc: "memcpy ?b1 3 d 0 (int (length d)) = Some ?b" using dr by (simp add: add.commute flip: append_assoc)
  have tk: "take (nat (int (length d) + 3)) ?b = ?r" using lr by simp
  have P: "Put ?b (int (length d) + 3) (dataStorage c) = Put ?r (int (length ?r)) (dataStorage c)"
    using Put_take [of "int (length d) + 3" ?b "dataStorage c"] lr unfolding tk by simp
  have lb: "length ?b = 2096" using b d lr by simp
  have A: "AddResults ty d ?n c = do {
       (r, st) \<leftarrow> Put ?r (int (length ?r)) (dataStorage c);
       let c = c\<lparr>TXBuff := ?b, dataStorage := st\<rparr>;
       if r = - 1 then Some (False, c) else Some (r = int (length d) + 3, c) }"
    using m h w mc P unfolding AddResults_def u by simp
  show ?thesis
  proof (cases "int (length d) + 7 \<le> circ_room (dataStorage c)")
    case True
    then obtain st where "Put ?r (int (length ?r)) (dataStorage c) = Some (int (length ?r), st)" "circ_ok st (rs @ [?r])"
      "circ_room st = circ_room (dataStorage c) - int (length ?r) - 4"
      using Put_fits [OF ok, of ?r] lr by auto
    then show ?thesis using A True lb lr by (intro exI [of _ ?b] exI [of _ st]) simp
  next
    case False
    then have "Put ?r (int (length ?r)) (dataStorage c) = Some (- 1, dataStorage c)" using Put_full [OF ok, of ?r] lr d by simp
    then show ?thesis using A False lb by (intro exI [of _ ?b] exI [of _ "dataStorage c"]) simp
  qed
qed

section \<open>Requests\<close>

lemma fill_loop_spec:
  assumes "circ_ok (dataStorage c) rs" and "\<forall>r\<in>set rs. r \<noteq> []" and "length (TXBuff c) = 2096"
    and "unat (currLen c) + length (concat rs) \<le> 2096"
  shows "\<exists>st. fill_loop c = Some (Empty, c\<lparr>TXBuff := take (unat (currLen c)) (TXBuff c) @ concat rs @ drop (unat (currLen c) + length (concat rs)) (TXBuff c),
      currLen := of_nat (unat (currLen c) + length (concat rs)), dataStorage := st\<rparr>) \<and> circ_ok st []"
  using assms
proof (induction rs arbitrary: c)
  case Nil
  have "Probe (dataStorage c) = Some 0" using Probe_first [OF Nil(1)] by simp
  then have "fill_loop c = Some (Empty, c)" by (subst fill_loop.simps) simp
  then show ?case using Nil(1) by (intro exI [of _ "dataStorage c"]) simp
next
  case (Cons r rs)
  let ?k = "unat (currLen c)"
  have l: "0 < length r" "?k + length r \<le> 2096" using Cons.prems(2,4) by simp_all
  have l3: "length r \<le> length (drop ?k (TXBuff c))" using l Cons.prems(3) by simp
  have p: "Probe (dataStorage c) = Some (int (length r))" using Probe_first [OF Cons.prems(1)] by simp
  obtain st where g: "Get (drop ?k (TXBuff c)) 2096 (dataStorage c) = Some (int (length r), r @ drop (length r) (drop ?k (TXBuff c)), st)"
    "circ_ok st rs" using Get_first [OF Cons.prems(1) _ l3, of 2096] l by auto
  let ?c = "c\<lparr>TXBuff := take ?k (TXBuff c) @ r @ drop (length r + ?k) (TXBuff c), dataStorage := st,
     currLen := currLen c + word_of_int (int (length r))\<rparr>"
  have "int (?k + length r) \<le> int 2096" using l(2) by (simp only: of_nat_le_iff)
  then have "\<not> 2096 < int (length r) + uint (currLen c)" by simp
  then have step: "fill_loop c = fill_loop ?c" using p g(1) l by (subst fill_loop.simps) (simp add: Let_def)
  have k: "unat (currLen ?c) = ?k + length r" "currLen ?c = of_nat (?k + length r)"
  proof -
    show e: "currLen ?c = of_nat (?k + length r)" by simp
    show "unat (currLen ?c) = ?k + length r" unfolding e using l by (intro unat_of_nat_lt) simp
  qed
  have ll: "length (take ?k (TXBuff c) @ r) = ?k + length r" using l Cons.prems(3) by simp
  have tb: "take (?k + length r) (TXBuff ?c) = take ?k (TXBuff c) @ r" "drop (?k + length r + n) (TXBuff ?c) = drop (?k + length r + n) (TXBuff c)" for n
  proof -
    have e: "TXBuff ?c = (take ?k (TXBuff c) @ r) @ drop (?k + length r) (TXBuff c)" by (simp add: add.commute)
    show "take (?k + length r) (TXBuff ?c) = take ?k (TXBuff c) @ r" unfolding e using ll by simp
    show "drop (?k + length r + n) (TXBuff ?c) = drop (?k + length r + n) (TXBuff c)" unfolding e using ll by (simp add: ac_simps)
  qed
  have hyps: "circ_ok (dataStorage ?c) rs" "\<forall>r\<in>set rs. r \<noteq> []" "length (TXBuff ?c) = 2096"
    using g(2) Cons.prems(2,3) l by simp_all
  have fit: "unat (currLen ?c) + length (concat rs) \<le> 2096" unfolding k(1) using Cons.prems(4) by simp
  obtain st' where "fill_loop ?c = Some (Empty, ?c\<lparr>TXBuff := take (unat (currLen ?c)) (TXBuff ?c) @ concat rs @ drop (unat (currLen ?c) + length (concat rs)) (TXBuff ?c),
      currLen := of_nat (unat (currLen ?c) + length (concat rs)), dataStorage := st'\<rparr>)" "circ_ok st' []"
    using Cons.IH [OF hyps fit] by blast
  then show ?case using step unfolding k(1) tb by (intro exI [of _ st']) (simp add: ac_simps)
qed

lemma FillHeader_spec:
  assumes "length (TXBuff c) = 2096" and "length (imei (hdr c)) = 15" and "length (idCfg (hdr c)) = 40"
  shows "\<exists>h. FillHeader tm c = Some (c\<lparr>hdr := h, first := False, TXBuff := hdr_bytes h @ drop 60 (TXBuff c)\<rparr>) \<and> length (hdr_bytes h) = 60 \<and>
     imei h = imei (hdr c) \<and> idCfg h = idCfg (hdr c) \<and> hdr_time h = tm \<and> newSess h = (if first c then 0x31 else 0x30)"
proof -
  let ?h = "(hdr c)\<lparr>hdr_time := tm, newSess := (if first c then 0x31 else 0x30)\<rparr>"
  have "length (hdr_bytes ?h) = 60" using assms by (simp add: hdr_bytes_def)
  moreover from this have "memcpy (TXBuff c) 0 (hdr_bytes ?h) 0 60 = Some (hdr_bytes ?h @ drop 60 (TXBuff c))"
    using assms by (simp add: memcpy_def rd_bytes_def wr_bytes_def)
  moreover have "c\<lparr>hdr := ?h, TXBuff := b\<rparr> = c\<lparr>hdr := ?h, first := False, TXBuff := b\<rparr>" if "\<not> first c" for b
    using that by (cases c) simp
  ultimately show ?thesis by (intro exI [of _ ?h]) (cases "first c"; simp add: FillHeader_def Let_def)
qed

text \<open>Whatever the ring holds fits into one frame when the ring takes at most 2035 bytes.\<close>

lemma concat_stream: "length (concat rs) + 4 * length rs = length (stream rs)"
  by (induction rs) simp_all

lemma DoServerRequest_spec:
  assumes ok: "circ_ok (dataStorage c) rs" "\<forall>r\<in>set rs. r \<noteq> []" and b: "length (TXBuff c) = 2096" and m: "\<not> BuffMtx c"
    and h: "length (imei (hdr c)) = 15" "length (idCfg (hdr c)) = 40" and sz: "bSz (dataStorage c) \<le> 2035"
  shows "\<exists>hd x c'. DoServerRequest tm c = Some ([hdr_bytes hd @ concat rs @ [x]], c') \<and> length (hdr_bytes hd) = 60 \<and>
     imei hd = imei (hdr c) \<and> idCfg hd = idCfg (hdr c) \<and> hdr_time hd = tm 0 \<and> newSess hd = (if first c then 0x31 else 0x30) \<and>
     circ_ok (dataStorage c') [] \<and> \<not> BuffMtx c' \<and> \<not> first c'"
proof -
  let ?n = "length (concat rs)"
  let ?c0 = "c\<lparr>BuffMtx := True, currLen := 0\<rparr>"
  have n: "?n \<le> 2035" using ok(1) sz concat_stream [of rs] by (simp add: circ_ok_def)
  obtain hd where hd: "FillHeader (tm 0) ?c0 = Some (?c0\<lparr>hdr := hd, first := False, TXBuff := hdr_bytes hd @ drop 60 (TXBuff c)\<rparr>)"
    "length (hdr_bytes hd) = 60" "imei hd = imei (hdr c)" "idCfg hd = idCfg (hdr c)" "hdr_time hd = tm 0" "newSess hd = (if first c then 0x31 else 0x30)"
    using FillHeader_spec [of ?c0 "tm 0"] b h by auto
  let ?c1 = "?c0\<lparr>hdr := hd, first := False, TXBuff := hdr_bytes hd @ drop 60 (TXBuff c), currLen := 60\<rparr>"
  obtain st where st: "fill_loop ?c1 = Some (Empty, ?c1\<lparr>TXBuff := hdr_bytes hd @ concat rs @ drop (?n + 60) (TXBuff c), currLen := of_nat (60 + ?n), dataStorage := st\<rparr>)"
    "circ_ok st []" using fill_loop_spec [of ?c1 rs] ok b hd(2) n by auto
  let ?B = "hdr_bytes hd @ concat rs @ drop (?n + 60) (TXBuff c)"
  have u: "uint (of_nat (60 + ?n) :: u16) = int (60 + ?n)" using n by (simp add: unsigned_of_nat take_bit_nat_eq_self del: of_nat_add)
  obtain x xs where x: "drop (?n + 60) (TXBuff c) = x # xs" using n b by (cases "drop (?n + 60) (TXBuff c)") simp_all
  have "rd_bytes ?B 0 (int (60 + ?n) + 1) = Some (hdr_bytes hd @ concat rs @ [x])"
    unfolding x using hd(2) by (simp add: rd_bytes_def nat_add_distrib)
  then have "DoServerRequest tm c = Some ([hdr_bytes hd @ concat rs @ [x]], ?c1\<lparr>TXBuff := ?B, currLen := of_nat (60 + ?n), dataStorage := st, BuffMtx := False\<rparr>)"
    using m hd(1) st(1) unfolding DoServerRequest_def by (subst request_loop.simps) (simp add: u del: of_nat_add)
  then show ?thesis using hd st(2) by (intro exI [of _ hd] exI [of _ x]) simp
qed

end
