(* ===== verification/Mem_Alloc.thy ===== *)
theory Mem_Alloc
  imports Prelude
begin

text \<open>
  The allocator of the application (\<open>MyMemoryAllocator.cpp\<close>): a list of blocks that tile a region
  of memory, each with a header in front of its data. Addresses are natural numbers, the null pointer
  is 0; the region is far from the end of the address space. Sizes are 16-bit in the code and
  reduced where it stores them. The mutex around the operations is not part of the model.
\<close>

section \<open>Operations\<close>

datatype MemBlockStatus = INUSE | FREE

record alloc =
  memory :: nat
  memorySize :: nat
  blk_prev :: "nat \<Rightarrow> nat"
  blk_sz :: "nat \<Rightarrow> nat"
  blk_data :: "nat \<Rightarrow> nat"
  blk_status :: "nat \<Rightarrow> MemBlockStatus"
  blk_next :: "nat \<Rightarrow> nat"

text \<open>\<open>sizeof(MemBlock)\<close>: five members, each padded to a word.\<close>

definition sizeof_MemBlock :: nat where
  "sizeof_MemBlock = 20"

definition u16_of :: "nat \<Rightarrow> nat" where
  "u16_of n = n mod 2 ^ 16"

definition MyMemoryAllocator_new :: "nat \<Rightarrow> nat \<Rightarrow> alloc" where
  "MyMemoryAllocator_new m sz = \<lparr>memory = m, memorySize = u16_of sz, blk_prev = (\<lambda>_. 0),
     blk_sz = (\<lambda>_. 0)(m := u16_of (u16_of sz - sizeof_MemBlock)), blk_data = (\<lambda>_. 0)(m := m + sizeof_MemBlock),
     blk_status = (\<lambda>_. FREE), blk_next = (\<lambda>_. 0)\<rparr>"

text \<open>\<open>PrintResume\<close> adds up the blocks and resets the processor when they exceed the region.\<close>

partial_function (option) resume_sum :: "nat \<Rightarrow> nat \<Rightarrow> alloc \<Rightarrow> nat option" where
  "resume_sum p acc a =
     (if p \<noteq> 0 then resume_sum (blk_next a p) (u16_of (acc + blk_sz a p + sizeof_MemBlock)) a else Some acc)"

definition PrintResume :: "alloc \<Rightarrow> unit option" where
  "PrintResume a = do {
     acc \<leftarrow> resume_sum (memory a) 0 a;
     if memorySize a < acc then None else Some ()
   }"

definition JoinNextBlock :: "nat \<Rightarrow> alloc \<Rightarrow> alloc" where
  "JoinNextBlock p a =
     (let q = blk_next a p in
      if q \<noteq> 0 then
        let a = a\<lparr>blk_next := (blk_next a)(p := blk_next a q)\<rparr>;
            a = (if blk_next a q \<noteq> 0 then a\<lparr>blk_prev := (blk_prev a)(blk_next a q := p)\<rparr> else a)
        in a\<lparr>blk_sz := (blk_sz a)(p := u16_of (blk_sz a p + (blk_sz a q + sizeof_MemBlock)))\<rparr>
      else a)"

definition JoinPrevBlock :: "nat \<Rightarrow> alloc \<Rightarrow> alloc" where
  "JoinPrevBlock p a = (let q = blk_prev a p in if q \<noteq> 0 then JoinNextBlock q a else a)"

partial_function (option) find_loop :: "nat \<Rightarrow> nat \<Rightarrow> alloc \<Rightarrow> nat option" where
  "find_loop p b a =
     (if b \<noteq> 0 then (if blk_data a b = p then Some b else find_loop p (blk_next a b) a) else Some 0)"

definition findBlock :: "nat \<Rightarrow> alloc \<Rightarrow> nat option" where
  "findBlock p a = find_loop p (memory a) a"

text \<open>The splitting of block \<open>p\<close> in \<open>malloc\<close>.\<close>

definition fragment :: "nat \<Rightarrow> nat \<Rightarrow> alloc \<Rightarrow> alloc" where
  "fragment sz p a =
     (let nb = blk_data a p + sz;
          a = (if blk_next a p \<noteq> 0 then a\<lparr>blk_prev := (blk_prev a)(blk_next a p := nb)\<rparr> else a);
          a = a\<lparr>blk_sz := (blk_sz a)(nb := u16_of (blk_sz a p - (sizeof_MemBlock + sz)))\<rparr>;
          a = a\<lparr>blk_data := (blk_data a)(nb := nb + sizeof_MemBlock)\<rparr>;
          a = a\<lparr>blk_status := (blk_status a)(nb := FREE)\<rparr>;
          a = a\<lparr>blk_prev := (blk_prev a)(nb := p)\<rparr>;
          a = a\<lparr>blk_next := (blk_next a)(nb := blk_next a p)\<rparr>;
          a = a\<lparr>blk_sz := (blk_sz a)(p := sz)\<rparr>;
          a = a\<lparr>blk_status := (blk_status a)(p := INUSE)\<rparr>
      in a\<lparr>blk_next := (blk_next a)(p := nb)\<rparr>)"

partial_function (option) malloc_loop :: "nat \<Rightarrow> nat \<Rightarrow> alloc \<Rightarrow> (nat \<times> alloc) option" where
  "malloc_loop sz p a =
     (if p \<noteq> 0 then
        (if blk_status a p = FREE \<and> sz + sizeof_MemBlock < blk_sz a p
         then (let a = fragment sz p a in Some (blk_data a p, a))
         else malloc_loop sz (blk_next a p) a)
      else Some (0, a))"

text \<open>What the code calls the alignment of the size.\<close>

definition align_sz :: "nat \<Rightarrow> nat" where
  "align_sz sz = u16_of (u16_of sz + u16_of sz mod 4)"

definition malloc :: "nat \<Rightarrow> alloc \<Rightarrow> (nat \<times> alloc) option" where
  "malloc sz a = do {
     (p, a) \<leftarrow> malloc_loop (align_sz sz) (memory a) a;
     _ \<leftarrow> PrintResume a;
     Some (p, a)
   }"

definition free :: "nat \<Rightarrow> alloc \<Rightarrow> alloc option" where
  "free p a = do {
     b \<leftarrow> findBlock p a;
     if b \<noteq> 0 then do {
       let a = a\<lparr>blk_status := (blk_status a)(b := FREE)\<rparr>;
       let nx = blk_next a b;
       let a = (if nx \<noteq> 0 \<and> blk_status a nx = FREE then JoinNextBlock b a else a);
       _ \<leftarrow> PrintResume a;
       let pv = blk_prev a b;
       let a = (if pv \<noteq> 0 \<and> blk_status a pv = FREE then JoinPrevBlock b a else a);
       Some a
     }
     else Some a
   }"

section \<open>Heaps\<close>

text \<open>A heap is the list of its blocks: address of the header, size of the data, status. The blocks tile
  the region.\<close>

type_synonym block = "nat \<times> nat \<times> MemBlockStatus"

fun tiled :: "nat \<Rightarrow> block list \<Rightarrow> nat \<Rightarrow> bool" where
  "tiled lo [] hi \<longleftrightarrow> lo = hi"
| "tiled lo ((p, n, st) # bs) hi \<longleftrightarrow> p = lo \<and> tiled (lo + 20 + n) bs hi"

definition nlnk :: "alloc \<Rightarrow> nat \<Rightarrow> nat" where
  "nlnk a = (blk_next a)(0 := memory a)"

definition heap_ok :: "alloc \<Rightarrow> block list \<Rightarrow> bool" where
  "heap_ok a bs \<longleftrightarrow> 0 < memory a \<and> memorySize a < 2 ^ 16 \<and>
     tiled (memory a) bs (memory a + memorySize a) \<and>
     chain 0 (nlnk a) 0 (map fst bs) \<and> rchain (blk_prev a) 0 (map fst bs) \<and>
     (\<forall>(p, n, st)\<in>set bs. blk_sz a p = n \<and> blk_status a p = st \<and> blk_data a p = p + 20)"

text \<open>No two neighbours are free.\<close>

fun joined :: "block list \<Rightarrow> bool" where
  "joined ((p, n, st) # (q, m, st') # bs) \<longleftrightarrow> \<not> (st = FREE \<and> st' = FREE) \<and> joined ((q, m, st') # bs)"
| "joined _ \<longleftrightarrow> True"

lemma tiled_append: "tiled lo (xs @ ys) hi \<longleftrightarrow> (\<exists>mid. tiled lo xs mid \<and> tiled mid ys hi)"
  by (induction lo xs hi rule: tiled.induct) auto

lemma tiled_le: "tiled lo bs hi \<Longrightarrow> lo \<le> hi"
  by (induction lo bs hi rule: tiled.induct) auto

lemma tiled_in: "tiled lo bs hi \<Longrightarrow> (p, n, st) \<in> set bs \<Longrightarrow> lo \<le> p \<and> p + 20 + n \<le> hi"
  by (induction lo bs hi rule: tiled.induct) (auto dest: tiled_le)

lemma tiled_sum: "tiled lo bs hi \<Longrightarrow> (\<Sum>(p, n, st)\<leftarrow>bs. n + 20) = hi - lo"
proof (induction lo bs hi rule: tiled.induct)
  case (2 lo p n st bs hi)
  then show ?case using tiled_le [of "lo + 20 + n" bs hi] by auto
qed simp

lemma tiled_apart:
  assumes "tiled lo (xs @ (p, n, st) # ys) hi" and "b \<in> set xs \<union> set ys"
  shows "fst b \<noteq> p" "fst b \<le> p \<or> p + 20 + n \<le> fst b"
proof -
  obtain q m st' where b: "b = (q, m, st')" by (cases b)
  have t: "tiled lo xs p" "tiled (p + 20 + n) ys hi" using assms(1) by (auto simp: tiled_append)
  show "fst b \<noteq> p" "fst b \<le> p \<or> p + 20 + n \<le> fst b"
    using assms(2) b tiled_in [OF t(1), of q m st'] tiled_in [OF t(2), of q m st'] by auto
qed

lemma heap_links:
  assumes "heap_ok a bs"
  shows "chain 0 (nlnk a) 0 (map fst bs)" "rchain (blk_prev a) 0 (map fst bs)" "distinct (map fst bs)" "0 \<notin> fst ` set bs"
proof -
  show c: "chain 0 (nlnk a) 0 (map fst bs)" and "rchain (blk_prev a) 0 (map fst bs)" using assms by (simp_all add: heap_ok_def)
  show "distinct (map fst bs)" using chain_distinct [OF c] by simp
  show "0 \<notin> fst ` set bs" using chain_nil_notin [OF c] by simp
qed

lemma heap_in:
  assumes "heap_ok a bs" and "(u, k, s) \<in> set bs"
  shows "blk_sz a u = k \<and> blk_status a u = s \<and> blk_data a u = u + 20"
proof -
  have "\<forall>(p, n, st)\<in>set bs. blk_sz a p = n \<and> blk_status a p = st \<and> blk_data a p = p + 20" using assms(1) by (simp add: heap_ok_def)
  from bspec [OF this assms(2)] show ?thesis by simp
qed

lemma heap_okI:
  assumes "0 < memory a" "memorySize a < 2 ^ 16" "tiled (memory a) bs (memory a + memorySize a)"
    and "chain 0 (nlnk a) 0 (map fst bs)" "rchain (blk_prev a) 0 (map fst bs)"
    and "\<And>u k s. (u, k, s) \<in> set bs \<Longrightarrow> blk_sz a u = k \<and> blk_status a u = s \<and> blk_data a u = u + 20"
  shows "heap_ok a bs"
  unfolding heap_ok_def using assms(1-5) by (intro conjI ballI) (auto dest!: assms(6))

lemma heap_block:
  assumes "heap_ok a (xs @ (p, n, st) # ys)"
  shows "p \<noteq> 0" "blk_sz a p = n" "blk_status a p = st" "blk_data a p = p + 20"
    "blk_next a p = first_node 0 (map fst ys)" "blk_prev a p = last_node 0 (map fst xs)"
proof -
  note l = heap_links [OF assms]
  show p: "p \<noteq> 0" using l(4) by auto
  show "blk_sz a p = n" "blk_status a p = st" "blk_data a p = p + 20" using assms by (auto simp: heap_ok_def)
  show "blk_next a p = first_node 0 (map fst ys)"
    using chain_lnk_at [of 0 "nlnk a" 0 "map fst xs" p "map fst ys"] l(1) p by (simp add: nlnk_def)
  show "blk_prev a p = last_node 0 (map fst xs)"
    using rchain_at [of "blk_prev a" 0 "map fst xs" p "map fst ys"] l(2) by simp
qed

lemma heap_sizes:
  assumes "heap_ok a bs" and "(p, n, st) \<in> set bs"
  shows "n + 20 \<le> memorySize a" "memorySize a < 2 ^ 16"
  using assms tiled_in [of "memory a" bs "memory a + memorySize a" p n st] by (auto simp: heap_ok_def)

text \<open>The blocks never add up to more than the region, so the processor is never reset.\<close>

lemma resume_sum_spec:
  "chain 0 (nlnk a) h (map fst bs) \<Longrightarrow> (\<forall>(p, n, st)\<in>set bs. blk_sz a p = n) \<Longrightarrow>
     s + (\<Sum>(p, n, st)\<leftarrow>bs. n + 20) < 2 ^ 16 \<Longrightarrow>
     resume_sum (first_node 0 (map fst bs)) s a = Some (s + (\<Sum>(p, n, st)\<leftarrow>bs. n + 20))"
proof (induction bs arbitrary: h s)
  case Nil
  then show ?case by (subst resume_sum.simps) simp
next
  case (Cons b bs)
  obtain p n st where b: "b = (p, n, st)" by (cases b)
  have p: "p \<noteq> 0" "chain 0 (nlnk a) p (map fst bs)" using Cons.prems(1) b by auto
  then have nx: "blk_next a p = first_node 0 (map fst bs)" using chain_head [OF p(2)] by (simp add: nlnk_def)
  have "u16_of (s + blk_sz a p + sizeof_MemBlock) = s + n + 20" using Cons.prems b by (auto simp: u16_of_def sizeof_MemBlock_def)
  then have "resume_sum p s a = resume_sum (first_node 0 (map fst bs)) (s + n + 20) a"
    using p nx by (subst resume_sum.simps) simp
  then show ?case using Cons.IH [OF p(2), of "s + n + 20"] Cons.prems b by (simp add: add.assoc)
qed

lemma PrintResume_ok:
  assumes "heap_ok a bs"
  shows "PrintResume a = Some ()"
proof -
  have h: "first_node 0 (map fst bs) = memory a" using chain_head [OF heap_links(1) [OF assms]] by (simp add: nlnk_def)
  have s: "(\<Sum>(p, n, st)\<leftarrow>bs. n + 20) = memorySize a" using assms tiled_sum [of "memory a" bs] by (auto simp: heap_ok_def)
  have "resume_sum (first_node 0 (map fst bs)) 0 a = Some (0 + (\<Sum>(p, n, st)\<leftarrow>bs. n + 20))"
    using heap_links(1) [OF assms] by (rule resume_sum_spec) (use assms s in \<open>auto simp: heap_ok_def\<close>)
  then show ?thesis using h s by (simp add: PrintResume_def)
qed

section \<open>Allocation\<close>

text \<open>The first free block that is large enough is split.\<close>

definition fits :: "nat \<Rightarrow> block \<Rightarrow> bool" where
  "fits n b \<longleftrightarrow> snd (snd b) = FREE \<and> n + 20 < fst (snd b)"

lemma fragment_spec:
  assumes ok: "heap_ok a (xs @ (p, m, FREE) # ys)" and n: "n + 20 < m"
  shows "heap_ok (fragment n p a) (xs @ (p, n, INUSE) # (p + 20 + n, m - 20 - n, FREE) # ys)"
    "blk_data (fragment n p a) p = p + 20"
proof -
  let ?nb = "p + 20 + n" and ?X = "map fst xs @ [p]" and ?Y = "map fst ys"
  note b = heap_block [OF ok] and l = heap_links [OF ok]
  have m: "m < 2 ^ 16" using heap_sizes [OF ok, of p m FREE] by simp
  have T: "tiled (memory a) (xs @ (p, m, FREE) # ys) (memory a + memorySize a)" using ok by (simp add: heap_ok_def)
  have nbn: "?nb \<notin> fst ` set (xs @ (p, m, FREE) # ys)"
    using tiled_apart(2) [OF T] n by fastforce
  have nx: "blk_next a p = first_node 0 ?Y" by (rule b(5))
  have nb0: "?nb \<noteq> 0" by simp
  have fr: "fragment n p a = a\<lparr>blk_prev := (if blk_next a p \<noteq> 0 then (blk_prev a)(blk_next a p := ?nb) else blk_prev a)(?nb := p),
     blk_sz := (blk_sz a)(?nb := m - 20 - n, p := n), blk_data := (blk_data a)(?nb := ?nb + 20),
     blk_status := (blk_status a)(?nb := FREE, p := INUSE), blk_next := (blk_next a)(?nb := blk_next a p, p := ?nb)\<rparr>"
    using b m n by (simp add: fragment_def Let_def sizeof_MemBlock_def u16_of_def)
  have dist: "?nb \<notin> insert 0 (set (?X @ ?Y))" using nbn nb0 by auto
  have "chain 0 ((nlnk a)(?nb := first_node 0 ?Y, last_node 0 ?X := ?nb)) 0 (?X @ ?nb # ?Y)"
    by (rule chain_insert) (use l(1) dist nb0 in simp_all)
  moreover have "(nlnk a)(?nb := first_node 0 ?Y, last_node 0 ?X := ?nb) = nlnk (fragment n p a)"
    using b(1) nb0 nx unfolding fr nlnk_def by (auto simp: fun_eq_iff)
  ultimately have c: "chain 0 (nlnk (fragment n p a)) 0 (?X @ ?nb # ?Y)" by simp
  have r: "rchain (blk_prev (fragment n p a)) 0 (?X @ ?nb # ?Y)"
  proof (cases "?Y")
    case Nil
    then show ?thesis using rchain_insert(1) [of "blk_prev a" 0 ?X "[]" ?nb] l dist nx unfolding fr by simp
  next
    case (Cons y zs)
    then have "y \<noteq> 0" using l(4) by (cases ys) auto
    then show ?thesis using rchain_insert(2) [of "blk_prev a" 0 ?X ?Y ?nb y zs] Cons l dist nx unfolding fr by simp
  qed
  have t: "tiled (memory a) (xs @ (p, n, INUSE) # (?nb, m - 20 - n, FREE) # ys) (memory a + memorySize a)"
    using T n by (auto simp: tiled_append ac_simps)
  have ap: "fst b \<noteq> p \<and> fst b \<noteq> ?nb" if "b \<in> set xs \<union> set ys" for b
    using tiled_apart(1) [OF T that] nbn that by (metis Un_iff image_eqI list.set_intros(2) set_append)
  have "blk_sz (fragment n p a) q = k \<and> blk_status (fragment n p a) q = st \<and> blk_data (fragment n p a) q = q + 20"
    if "(q, k, st) \<in> set xs \<union> set ys" for q k st
  proof -
    have "blk_sz a q = k \<and> blk_status a q = st \<and> blk_data a q = q + 20" using heap_in [OF ok, of q k st] that by auto
    then show ?thesis using ap [OF that] unfolding fr by simp
  qed
  moreover have d: "blk_data (fragment n p a) p = p + 20" using b unfolding fr by simp
  moreover have "blk_sz (fragment n p a) p = n" "blk_status (fragment n p a) p = INUSE"
    "blk_sz (fragment n p a) ?nb = m - 20 - n" "blk_status (fragment n p a) ?nb = FREE" "blk_data (fragment n p a) ?nb = ?nb + 20"
    unfolding fr by simp_all
  moreover have "memory (fragment n p a) = memory a" "memorySize (fragment n p a) = memorySize a" unfolding fr by simp_all
  ultimately show "heap_ok (fragment n p a) (xs @ (p, n, INUSE) # (?nb, m - 20 - n, FREE) # ys)"
    using c r t ok unfolding heap_ok_def by auto
  show "blk_data (fragment n p a) p = p + 20" by (rule d)
qed

lemma malloc_loop_spec:
  assumes ok: "heap_ok a (xs @ bs)"
  shows "case dropWhile (\<lambda>b. \<not> fits n b) bs of
      [] \<Rightarrow> malloc_loop n (first_node 0 (map fst bs)) a = Some (0, a)
    | b # ys \<Rightarrow> malloc_loop n (first_node 0 (map fst bs)) a = Some (fst b + 20, fragment n (fst b) a)"
  using ok
proof (induction bs arbitrary: xs)
  case Nil
  then show ?case by (subst malloc_loop.simps) simp
next
  case (Cons b bs)
  obtain p m st where b: "b = (p, m, st)" by (cases b)
  note B = heap_block [OF Cons.prems [unfolded b]]
  show ?case
  proof (cases "fits n b")
    case True
    then have "malloc_loop n p a = Some (p + 20, fragment n p a)"
      using B fragment_spec(2) [of a xs p m bs n] Cons.prems b
      by (subst malloc_loop.simps) (simp add: fits_def sizeof_MemBlock_def Let_def)
    then show ?thesis using True b by simp
  next
    case False
    then have "malloc_loop n p a = malloc_loop n (first_node 0 (map fst bs)) a"
      using B b by (subst malloc_loop.simps) (auto simp: fits_def sizeof_MemBlock_def)
    then have step: "malloc_loop n (first_node 0 (map fst (b # bs))) a = malloc_loop n (first_node 0 (map fst bs)) a"
      using b by simp
    have drop: "dropWhile (\<lambda>b. \<not> fits n b) (b # bs) = dropWhile (\<lambda>b. \<not> fits n b) bs" using False by simp
    show ?thesis unfolding step drop by (rule Cons.IH [of "xs @ [b]"]) (use Cons.prems in simp)
  qed
qed

lemma heap_first: "heap_ok a bs \<Longrightarrow> memory a = first_node 0 (map fst bs)"
  using chain_head [OF heap_links(1)] by (fastforce simp: nlnk_def)

lemma malloc_spec:
  assumes ok: "heap_ok a bs"
  shows "case dropWhile (\<lambda>b. \<not> fits (align_sz n) b) bs of
      [] \<Rightarrow> malloc n a = Some (0, a)
    | b # ys \<Rightarrow> \<exists>a'. malloc n a = Some (fst b + 20, a') \<and>
        heap_ok a' (takeWhile (\<lambda>b. \<not> fits (align_sz n) b) bs @ (fst b, align_sz n, INUSE) #
          (fst b + 20 + align_sz n, fst (snd b) - 20 - align_sz n, FREE) # ys)"
proof (cases "dropWhile (\<lambda>b. \<not> fits (align_sz n) b) bs")
  case Nil
  have "malloc_loop (align_sz n) (memory a) a = Some (0, a)"
    using malloc_loop_spec [of a "[]" bs "align_sz n", simplified Nil] ok heap_first [OF ok] by simp
  then have "malloc n a = Some (0, a)" using PrintResume_ok [OF ok] by (simp add: malloc_def)
  then show ?thesis unfolding Nil by simp
next
  case (Cons b ys)
  let ?xs = "takeWhile (\<lambda>b. \<not> fits (align_sz n) b) bs"
  obtain p m st where b: "b = (p, m, st)" by (cases b)
  have "fits (align_sz n) b" using Cons hd_dropWhile [of "\<lambda>b. \<not> fits (align_sz n) b" bs] by auto
  then have f: "st = FREE" "align_sz n + 20 < m" using b by (auto simp: fits_def)
  have bs: "bs = ?xs @ b # ys" using Cons takeWhile_dropWhile_id [of "\<lambda>b. \<not> fits (align_sz n) b" bs] by simp
  have "heap_ok a (?xs @ (p, m, FREE) # ys)" using ok bs b f by simp
  note fr = fragment_spec(1) [OF this f(2)]
  have "malloc_loop (align_sz n) (memory a) a = Some (p + 20, fragment (align_sz n) p a)"
    using malloc_loop_spec [of a "[]" bs "align_sz n"] ok heap_first [OF ok] Cons b by simp
  then have "malloc n a = Some (p + 20, fragment (align_sz n) p a)" using PrintResume_ok [OF fr] by (simp add: malloc_def)
  then show ?thesis using fr Cons b by simp
qed

section \<open>Release\<close>

lemma find_loop_spec:
  assumes ok: "heap_ok a (xs @ bs)"
  shows "find_loop d (first_node 0 (map fst bs)) a
     = Some (case dropWhile (\<lambda>b. fst b + 20 \<noteq> d) bs of [] \<Rightarrow> 0 | b # _ \<Rightarrow> fst b)"
  using ok
proof (induction bs arbitrary: xs)
  case Nil
  then show ?case by (subst find_loop.simps) simp
next
  case (Cons b bs)
  obtain p m st where b: "b = (p, m, st)" by (cases b)
  note B = heap_block [OF Cons.prems [unfolded b]]
  show ?case
  proof (cases "p + 20 = d")
    case True
    then show ?thesis using B b by (subst find_loop.simps) simp
  next
    case False
    then have "find_loop d p a = find_loop d (first_node 0 (map fst bs)) a" using B b by (subst find_loop.simps) auto
    then show ?thesis using Cons.IH [of "xs @ [b]"] Cons.prems False b by simp
  qed
qed

lemma JoinNextBlock_spec:
  assumes ok: "heap_ok a (xs @ (p, n, st) # (q, m, st') # ys)"
  shows "heap_ok (JoinNextBlock p a) (xs @ (p, n + 20 + m, st) # ys)"
proof -
  let ?X = "map fst xs @ [p]" and ?Y = "map fst ys"
  have ok2: "heap_ok a ((xs @ [(p, n, st)]) @ (q, m, st') # ys)" using ok by simp
  note b = heap_block [OF ok] and b2 = heap_block [OF ok2] and l = heap_links [OF ok]
  have T: "tiled (memory a) (xs @ (p, n, st) # (q, m, st') # ys) (memory a + memorySize a)" using ok by (simp add: heap_ok_def)
  have t: "tiled (memory a) (xs @ (p, n + 20 + m, st) # ys) (memory a + memorySize a)"
    using T by (auto simp: tiled_append add.assoc)
  have sz: "n + (m + 20) < 2 ^ 16"
    using tiled_in [OF t, of p "n + 20 + m" st] ok by (auto simp: heap_ok_def)
  have pq: "blk_next a p = q" using b(5) by simp
  have qn: "blk_next a q = first_node 0 ?Y" by (rule b2(5))
  have neq: "p \<noteq> q" using l(3) by auto
  have jn: "JoinNextBlock p a = a\<lparr>blk_next := (blk_next a)(p := first_node 0 ?Y),
     blk_prev := (if first_node 0 ?Y \<noteq> 0 then (blk_prev a)(first_node 0 ?Y := p) else blk_prev a),
     blk_sz := (blk_sz a)(p := n + (m + 20))\<rparr>"
    using b b2 pq qn neq sz by (simp add: JoinNextBlock_def Let_def u16_of_def sizeof_MemBlock_def)
  have "chain 0 ((nlnk a)(last_node 0 ?X := nlnk a q)) 0 (?X @ ?Y)" by (rule chain_remove) (use l(1) in simp)
  moreover have "(nlnk a)(last_node 0 ?X := nlnk a q) = nlnk (JoinNextBlock p a)"
    using b(1) b2(1) qn unfolding jn nlnk_def by (auto simp: fun_eq_iff)
  ultimately have c: "chain 0 (nlnk (JoinNextBlock p a)) 0 (?X @ ?Y)" by simp
  have r: "rchain (blk_prev (JoinNextBlock p a)) 0 (?X @ ?Y)"
  proof (cases "?Y")
    case Nil
    then show ?thesis using rchain_remove(1) [of "blk_prev a" 0 ?X q ?Y] l unfolding jn by simp
  next
    case (Cons y zs)
    moreover have "y \<noteq> 0" using l(4) Cons by (cases ys) auto
    moreover have "blk_prev a q = p" using b2(6) by simp
    ultimately show ?thesis using rchain_remove(2) [of "blk_prev a" 0 ?X q ?Y y zs] l unfolding jn by simp
  qed
  have "blk_sz (JoinNextBlock p a) u = k \<and> blk_status (JoinNextBlock p a) u = s \<and> blk_data (JoinNextBlock p a) u = u + 20"
    if "(u, k, s) \<in> set xs \<union> set ys" for u k s
  proof -
    have "blk_sz a u = k \<and> blk_status a u = s \<and> blk_data a u = u + 20" using heap_in [OF ok, of u k s] that by auto
    moreover have "u \<noteq> p" using tiled_apart(1) [OF t that] by simp
    ultimately show ?thesis unfolding jn by simp
  qed
  moreover have "blk_sz (JoinNextBlock p a) p = n + 20 + m" "blk_status (JoinNextBlock p a) p = st" "blk_data (JoinNextBlock p a) p = p + 20"
    "memory (JoinNextBlock p a) = memory a" "memorySize (JoinNextBlock p a) = memorySize a"
    using b unfolding jn by simp_all
  ultimately show ?thesis using c r t ok unfolding heap_ok_def by auto
qed

definition join_next :: "nat \<Rightarrow> nat \<Rightarrow> block list \<Rightarrow> block list" where
  "join_next p n ys = (case ys of (q, m, FREE) # zs \<Rightarrow> (p, n + 20 + m, FREE) # zs | _ \<Rightarrow> (p, n, FREE) # ys)"

lemma join_next_cases:
  obtains k zs where "join_next p n ys = (p, k, FREE) # zs"
proof (cases ys)
  case Nil
  then show ?thesis using that [of n "[]"] by (simp add: join_next_def)
next
  case (Cons y zs)
  obtain q m s where y: "y = (q, m, s)" by (cases y)
  show ?thesis
  proof (cases s)
    case INUSE
    then show ?thesis using that [of n ys] Cons y by (simp add: join_next_def)
  next
    case FREE
    then show ?thesis using that [of "n + 20 + m" zs] Cons y by (simp add: join_next_def)
  qed
qed

definition join_prev :: "block list \<Rightarrow> block list \<Rightarrow> block list" where
  "join_prev xs ys = (if xs \<noteq> [] \<and> snd (snd (last xs)) = FREE
     then butlast xs @ (fst (last xs), fst (snd (last xs)) + 20 + fst (snd (hd ys)), FREE) # tl ys
     else xs @ ys)"

lemma heap_status:
  assumes ok: "heap_ok a (xs @ (p, n, st) # ys)"
  shows "heap_ok (a\<lparr>blk_status := (blk_status a)(p := st')\<rparr>) (xs @ (p, n, st') # ys)"
proof -
  have T: "tiled (memory a) (xs @ (p, n, st) # ys) (memory a + memorySize a)" using ok by (simp add: heap_ok_def)
  let ?a = "a\<lparr>blk_status := (blk_status a)(p := st')\<rparr>"
  note b = heap_block [OF ok] and l = heap_links [OF ok]
  have "blk_sz ?a u = k \<and> blk_status ?a u = s \<and> blk_data ?a u = u + 20" if "(u, k, s) \<in> set xs \<union> set ys" for u k s
  proof -
    have "blk_sz a u = k \<and> blk_status a u = s \<and> blk_data a u = u + 20" using heap_in [OF ok, of u k s] that by auto
    moreover have "u \<noteq> p" using tiled_apart(1) [OF T that] by simp
    ultimately show ?thesis by simp
  qed
  moreover have "blk_sz ?a p = n" "blk_status ?a p = st'" "blk_data ?a p = p + 20" "memory ?a = memory a"
    "memorySize ?a = memorySize a" "blk_prev ?a = blk_prev a" using b by simp_all
  moreover have "nlnk ?a = nlnk a" by (simp add: nlnk_def)
  moreover have "tiled (memory a) (xs @ (p, n, st') # ys) (memory a + memorySize a)" using T by (auto simp: tiled_append)
  moreover have "0 < memory a" "memorySize a < 2 ^ 16" using ok by (simp_all add: heap_ok_def)
  ultimately show ?thesis using l(1,2) unfolding heap_ok_def by auto
qed

lemma free_spec:
  assumes ok: "heap_ok a (xs @ (p, n, st) # ys)"
  shows "\<exists>a'. free (p + 20) a = Some a' \<and> heap_ok a' (join_prev xs (join_next p n ys))"
proof -
  have T: "tiled (memory a) (xs @ (p, n, st) # ys) (memory a + memorySize a)" using ok by (simp add: heap_ok_def)
  have "\<forall>b\<in>set xs. fst b + 20 \<noteq> p + 20" using tiled_apart(1) [OF T] by auto
  then have "dropWhile (\<lambda>b. fst b + 20 \<noteq> p + 20) (xs @ (p, n, st) # ys) = (p, n, st) # ys"
    by (subst dropWhile_append2) auto
  then have fb: "findBlock (p + 20) a = Some p"
    using find_loop_spec [of a "[]" "xs @ (p, n, st) # ys" "p + 20"] ok heap_first [OF ok] by (simp add: findBlock_def)
  note b = heap_block [OF ok]
  let ?a1 = "a\<lparr>blk_status := (blk_status a)(p := FREE)\<rparr>"
  have ok1: "heap_ok ?a1 (xs @ (p, n, FREE) # ys)" by (rule heap_status [OF ok])
  note b1 = heap_block [OF ok1]
  let ?a2 = "if blk_next ?a1 p \<noteq> 0 \<and> blk_status ?a1 (blk_next ?a1 p) = FREE then JoinNextBlock p ?a1 else ?a1"
  have ok2: "heap_ok ?a2 (xs @ join_next p n ys)"
  proof (cases ys)
    case Nil
    then show ?thesis using ok1 b1(5) by (simp add: join_next_def)
  next
    case (Cons y zs)
    obtain q m s where y: "y = (q, m, s)" by (cases y)
    have ok1': "heap_ok ?a1 ((xs @ [(p, n, FREE)]) @ (q, m, s) # zs)" using ok1 Cons y by simp
    note q = heap_block [OF ok1']
    show ?thesis
    proof (cases "s = FREE")
      case True
      then show ?thesis using q b1(5) Cons y JoinNextBlock_spec [of ?a1 xs p n FREE q m s zs] ok1
        by (simp add: join_next_def)
    next
      case False
      then have "s = INUSE" by (cases s) simp_all
      then show ?thesis using q b1(5) Cons y ok1 by (simp add: join_next_def)
    qed
  qed
  obtain k zs where jn: "join_next p n ys = (p, k, FREE) # zs" using join_next_cases .
  have ok2': "heap_ok ?a2 (xs @ (p, k, FREE) # zs)" using ok2 jn by simp
  note b2 = heap_block [OF ok2']
  let ?a3 = "if blk_prev ?a2 p \<noteq> 0 \<and> blk_status ?a2 (blk_prev ?a2 p) = FREE then JoinPrevBlock p ?a2 else ?a2"
  have ok3: "heap_ok ?a3 (join_prev xs (join_next p n ys))"
  proof (cases xs rule: rev_cases)
    case Nil
    then show ?thesis using ok2 b2(6) by (simp add: join_prev_def)
  next
    case (snoc us u)
    obtain q m s where u: "u = (q, m, s)" by (cases u)
    have ok2'': "heap_ok ?a2 (us @ (q, m, s) # (p, k, FREE) # zs)" using ok2' snoc u by simp
    note q = heap_block [OF ok2'']
    have pv: "blk_prev ?a2 p = q" using b2(6) snoc u by simp
    show ?thesis
    proof (cases "s = FREE")
      case True
      then have "?a3 = JoinNextBlock q ?a2" using q pv by (simp add: JoinPrevBlock_def)
      then show ?thesis using JoinNextBlock_spec [OF ok2''] True jn snoc u by (simp add: join_prev_def)
    next
      case False
      then have "\<not> (blk_prev ?a2 p \<noteq> 0 \<and> blk_status ?a2 (blk_prev ?a2 p) = FREE)" using q pv by simp
      then have "?a3 = ?a2" by (simp only: if_False)
      then show ?thesis using ok2 False snoc u by (simp add: join_prev_def)
    qed
  qed
  have "free (p + 20) a = Some ?a3"
    using fb b(1) PrintResume_ok [OF ok2] by (simp add: free_def Let_def)
  then show ?thesis using ok3 by blast
qed

lemma free_unknown:
  assumes "heap_ok a bs" and "\<forall>b\<in>set bs. fst b + 20 \<noteq> d"
  shows "free d a = Some a"
proof -
  have no: "dropWhile (\<lambda>b. fst b + 20 \<noteq> d) bs = []" using assms(2) by (simp add: dropWhile_eq_Nil_conv)
  have "findBlock d a = Some 0"
    using find_loop_spec [of a "[]" bs d, unfolded no] assms(1) heap_first [OF assms(1)] by (simp add: findBlock_def)
  then show ?thesis by (simp add: free_def)
qed

lemma heap_new:
  assumes "0 < m" and "20 \<le> sz" and "sz < 2 ^ 16"
  shows "heap_ok (MyMemoryAllocator_new m sz) [(m, sz - 20, FREE)]"
  using assms by (simp add: heap_ok_def MyMemoryAllocator_new_def nlnk_def u16_of_def sizeof_MemBlock_def)

section \<open>Reachable heaps\<close>

abbreviation is_free :: "block \<Rightarrow> bool" where
  "is_free b \<equiv> snd (snd b) = FREE"

lemma joined_Cons: "joined (b # bs) \<longleftrightarrow> joined bs \<and> (bs \<noteq> [] \<longrightarrow> \<not> (is_free b \<and> is_free (hd bs)))"
  by (cases b; cases bs; cases "hd bs") auto

lemma joined_append: "joined (xs @ ys) \<longleftrightarrow>
    joined xs \<and> joined ys \<and> (xs \<noteq> [] \<longrightarrow> ys \<noteq> [] \<longrightarrow> \<not> (is_free (last xs) \<and> is_free (hd ys)))"
  by (induction xs) (auto simp: joined_Cons hd_append)

lemma joined_fragment:
  assumes "joined (xs @ (p, m, FREE) # ys)"
  shows "joined (xs @ (p, n, INUSE) # (q, k, FREE) # ys)"
  using assms by (auto simp: joined_append joined_Cons)

lemma joined_free:
  assumes "joined (xs @ (p, n, st) # ys)"
  shows "joined (join_prev xs (join_next p n ys))"
proof -
  have y: "joined (join_next p n ys)" "is_free (hd (join_next p n ys))" "join_next p n ys \<noteq> []"
    using assms by (auto simp: join_next_def joined_append joined_Cons split: list.splits prod.splits MemBlockStatus.splits)
  have x: "joined xs" using assms by (simp add: joined_append)
  show ?thesis
  proof (cases "xs \<noteq> [] \<and> is_free (last xs)")
    case True
    then obtain us u where u: "xs = us @ [u]" by (metis append_butlast_last_id)
    obtain z zs where z: "join_next p n ys = z # zs" using y(3) by (cases "join_next p n ys") simp_all
    have "joined zs" "zs \<noteq> [] \<longrightarrow> \<not> is_free (hd zs)" using y z by (simp_all add: joined_Cons)
    moreover have "joined us" "us \<noteq> [] \<longrightarrow> \<not> is_free (last us)" using x True u by (auto simp: joined_append joined_Cons)
    ultimately show ?thesis using True u z by (simp add: join_prev_def joined_append joined_Cons)
  next
    case False
    then show ?thesis using x y by (auto simp: join_prev_def joined_append)
  qed
qed

lemma block_cases:
  assumes "heap_ok a bs"
  obtains (known) xs p n st ys where "bs = xs @ (p, n, st) # ys" "d = p + 20" | (unknown) "\<forall>b\<in>set bs. fst b + 20 \<noteq> d"
proof (cases "\<forall>b\<in>set bs. fst b + 20 \<noteq> d")
  case False
  then obtain b where "b \<in> set bs" and d: "d = fst b + 20" by auto
  then obtain xs ys where "bs = xs @ b # ys" by (meson split_list)
  then show ?thesis using known [of xs "fst b" "fst (snd b)" "snd (snd b)" ys] d by simp
qed (rule unknown)

text \<open>One call of the application, and the heaps a run of calls can reach. The pointer handed to
  \<open>free\<close> is arbitrary.\<close>

inductive alloc_step :: "alloc \<Rightarrow> alloc \<Rightarrow> bool" where
  step_malloc: "malloc n a = Some (d, a') \<Longrightarrow> alloc_step a a'"
| step_free: "free d a = Some a' \<Longrightarrow> alloc_step a a'"

inductive_simps alloc_step_iff: "alloc_step a a'"

inductive alloc_reach :: "nat \<Rightarrow> nat \<Rightarrow> alloc \<Rightarrow> bool" for m sz where
  reach_new: "alloc_reach m sz (MyMemoryAllocator_new m sz)"
| reach_step: "alloc_reach m sz a \<Longrightarrow> alloc_step a a' \<Longrightarrow> alloc_reach m sz a'"

text \<open>What \<open>malloc\<close> does to the blocks: the first free block with room is split.\<close>

definition first_fit :: "nat \<Rightarrow> block list \<Rightarrow> nat \<times> block list" where
  "first_fit n bs = (case dropWhile (\<lambda>b. \<not> fits n b) bs of
       [] \<Rightarrow> (0, bs)
     | (p, m, _) # ys \<Rightarrow> (p + 20, takeWhile (\<lambda>b. \<not> fits n b) bs @ (p, n, INUSE) # (p + 20 + n, m - 20 - n, FREE) # ys))"

lemma first_fit_cases:
  obtains (none) "first_fit n bs = (0, bs)" "\<forall>b\<in>set bs. \<not> fits n b"
  | (some) xs p m ys where "bs = xs @ (p, m, FREE) # ys" "n + 20 < m" "\<forall>b\<in>set xs. \<not> fits n b"
      "first_fit n bs = (p + 20, xs @ (p, n, INUSE) # (p + 20 + n, m - 20 - n, FREE) # ys)"
proof (cases "dropWhile (\<lambda>b. \<not> fits n b) bs")
  case Nil
  then have "first_fit n bs = (0, bs)" unfolding first_fit_def by (simp only: list.case)
  moreover have "\<forall>b\<in>set bs. \<not> fits n b" using Nil by (simp add: dropWhile_eq_Nil_conv)
  ultimately show ?thesis by (rule none)
next
  case (Cons b ys)
  obtain p m st where b: "b = (p, m, st)" by (cases b)
  have "fits n b" using Cons hd_dropWhile [of "\<lambda>b. \<not> fits n b" bs] by auto
  then have f: "st = FREE" "n + 20 < m" using b by (auto simp: fits_def)
  let ?xs = "takeWhile (\<lambda>b. \<not> fits n b) bs"
  show ?thesis
  proof (rule some)
    show "bs = ?xs @ (p, m, FREE) # ys" using Cons b f takeWhile_dropWhile_id [of "\<lambda>b. \<not> fits n b" bs] by simp
    show "n + 20 < m" by (rule f(2))
    show "\<forall>b\<in>set ?xs. \<not> fits n b" by (auto dest: set_takeWhileD)
    show "first_fit n bs = (p + 20, ?xs @ (p, n, INUSE) # (p + 20 + n, m - 20 - n, FREE) # ys)"
      unfolding first_fit_def Cons b by simp
  qed
qed

lemma malloc_refines:
  assumes ok: "heap_ok a bs"
  shows "\<exists>a'. malloc n a = Some (fst (first_fit (align_sz n) bs), a') \<and> heap_ok a' (snd (first_fit (align_sz n) bs))
     \<and> (fst (first_fit (align_sz n) bs) = 0 \<longrightarrow> a' = a)"
proof (cases "dropWhile (\<lambda>b. \<not> fits (align_sz n) b) bs")
  case Nil
  then have "first_fit (align_sz n) bs = (0, bs)" unfolding first_fit_def by (simp only: list.case)
  then show ?thesis using malloc_spec [OF ok, of n, unfolded Nil] ok by simp
next
  case (Cons b ys)
  then show ?thesis using malloc_spec [OF ok, of n, unfolded Cons] unfolding first_fit_def Cons
    by (cases b) simp
qed

lemma joined_first_fit:
  assumes "joined bs"
  shows "joined (snd (first_fit n bs))"
  using first_fit_cases [of n bs] assms joined_fragment by (metis snd_conv)

lemma free_cases:
  assumes ok: "heap_ok a bs" and j: "joined bs"
  shows "\<exists>a' bs'. free d a = Some a' \<and> heap_ok a' bs' \<and> joined bs'"
  using ok
proof (cases rule: block_cases [of a bs d])
  case (known xs p n st ys)
  then show ?thesis using free_spec [of a xs p n st ys] ok j joined_free [of xs p n st ys] by blast
next
  case unknown
  then show ?thesis using free_unknown [OF ok] ok j by blast
qed

lemma alloc_step_heap:
  assumes "alloc_step a a'" and "heap_ok a bs" and "joined bs"
  shows "\<exists>bs'. heap_ok a' bs' \<and> joined bs'"
  using assms(1)
proof cases
  case (step_malloc n d)
  then show ?thesis using malloc_refines [OF assms(2), of n] joined_first_fit [OF assms(3), of "align_sz n"] by auto
next
  case (step_free d)
  then show ?thesis using free_cases [OF assms(2,3), of d] by auto
qed

lemma alloc_reach_heap:
  assumes "alloc_reach m sz a" and "0 < m" and "20 \<le> sz" and "sz < 2 ^ 16"
  shows "\<exists>bs. heap_ok a bs \<and> joined bs"
  using assms(1)
proof (induction rule: alloc_reach.induct)
  case reach_new
  have "joined [(m, sz - 20, FREE)]" by simp
  with heap_new [OF assms(2-4)] show ?case by blast
next
  case (reach_step a a')
  then show ?case using alloc_step_heap by blast
qed

section \<open>What is allocated\<close>

text \<open>The data of the blocks in use: address and size.\<close>

definition used :: "block list \<Rightarrow> (nat \<times> nat) set" where
  "used bs = {(p + 20, n) | p n. (p, n, INUSE) \<in> set bs}"

lemma first_fit_used:
  assumes ok: "heap_ok a bs" and d: "fst (first_fit n bs) \<noteq> 0"
  shows "used (snd (first_fit n bs)) = insert (fst (first_fit n bs), n) (used bs)"
    "\<forall>(e, k)\<in>used bs. fst (first_fit n bs) + n \<le> e \<or> e + k \<le> fst (first_fit n bs)"
proof -
  obtain xs p m ys where F: "bs = xs @ (p, m, FREE) # ys" "n + 20 < m"
    "first_fit n bs = (p + 20, xs @ (p, n, INUSE) # (p + 20 + n, m - 20 - n, FREE) # ys)"
    using first_fit_cases [of n bs] d by (metis fst_conv)
  show "used (snd (first_fit n bs)) = insert (fst (first_fit n bs), n) (used bs)"
    unfolding F(3) unfolding F(1) by (auto simp: used_def)
  have t: "tiled (memory a) xs p" "tiled (p + 20 + m) ys (memory a + memorySize a)"
    using ok F(1) by (auto simp: heap_ok_def tiled_append)
  show "\<forall>(e, k)\<in>used bs. fst (first_fit n bs) + n \<le> e \<or> e + k \<le> fst (first_fit n bs)"
    unfolding F(3) unfolding F(1) using F(2) tiled_in [OF t(1)] tiled_in [OF t(2)] by (fastforce simp: used_def)
qed

lemma malloc_free:
  assumes "heap_ok a bs" and "joined bs" and "malloc n a = Some (d, a')" and "d \<noteq> 0"
  shows "\<exists>a''. free d a' = Some a'' \<and> heap_ok a'' bs"
proof -
  have d: "d = fst (first_fit (align_sz n) bs)" "heap_ok a' (snd (first_fit (align_sz n) bs))"
    using malloc_refines [OF assms(1), of n] assms(3) by auto
  then obtain xs p m ys where F: "bs = xs @ (p, m, FREE) # ys" "align_sz n + 20 < m"
    "first_fit (align_sz n) bs = (p + 20, xs @ (p, align_sz n, INUSE) # (p + 20 + align_sz n, m - 20 - align_sz n, FREE) # ys)"
    using first_fit_cases [of "align_sz n" bs] assms(4) by (metis fst_conv)
  have "join_next p (align_sz n) ((p + 20 + align_sz n, m - 20 - align_sz n, FREE) # ys) = (p, m, FREE) # ys"
    using F(2) by (simp add: join_next_def)
  moreover have "join_prev xs ((p, m, FREE) # ys) = bs" using assms(2) F(1) by (auto simp: join_prev_def joined_append)
  ultimately show ?thesis
    using free_spec [of a' xs p "align_sz n" INUSE "(p + 20 + align_sz n, m - 20 - align_sz n, FREE) # ys"] d F(3) by simp
qed

lemma align_sz_odd:
  assumes "odd n" and "n + 3 < 2 ^ 16"
  shows "align_sz n mod 4 = 2" "align_sz n \<le> n + 3"
proof -
  have "align_sz n = n + n mod 4" using assms(2) mod_less_divisor [of 4 n] by (simp add: align_sz_def u16_of_def del: mod_less_divisor)
  moreover have "(n + n mod 4) mod 4 = 2" using assms(1) by presburger
  moreover have "n mod 4 \<le> 3" by presburger
  ultimately show "align_sz n mod 4 = 2" "align_sz n \<le> n + 3" by simp_all
qed

end
