(* ===== verification/App_Props.thy ===== *)
theory App_Props
  imports Com_Handler Mem_Alloc
begin

text \<open>
  Properties of the storage of results, of the sending of results and of the allocator.
\<close>

section \<open>The ring of records\<close>

text \<open>C10. The ring of records is a queue: any sequence of \<open>Put\<close>, \<open>Get\<close> and \<open>Probe\<close> on a new ring, however often they take the indices around
  its end, gives the answers of a queue with room for as many bytes as the ring has, each record taking four more than its own. \<open>Put\<close> stores the record, or
  answers -1 and stores nothing when it does not fit; \<open>Get\<close> returns the oldest record with its contents; \<open>Probe\<close> tells its length. The ring
  has no answer exactly where the queue has none: when the caller's buffer is shorter than the record, which \<open>Get\<close> copies all the same.\<close>

theorem circ_records_in_order:
  assumes "0 < sz" and "sz < 2 ^ 16" and "\<forall>r. RPut r \<in> set cs \<longrightarrow> length r < 2 ^ 31"
  shows "case queue_calls sz cs [] of
      None \<Rightarrow> circ.calls cs (ramCircBuff_new sz) = None
    | Some (as, rs) \<Rightarrow> \<exists>c. circ.calls cs (ramCircBuff_new sz) = Some (as, c) \<and> circ_ok c rs"
  using circ.calls_queue [OF circ_new_ok(1) [OF assms(1,2)] assms(3)] unfolding circ_new_ok(2) .

text \<open>A run in which the length of a record and a record itself lie across the end of the ring.\<close>

theorem circ_records_in_order_witness:
  "\<exists>c. circ.calls [RPut [1, 2, 3], RGet [0, 0, 0, 9], RPut [5, 6, 7], RPut [8, 9, 10, 11, 12], RProbe, RPut [1], RGet [0, 0, 0], RGet [0, 0, 0, 0, 0],
       RGet [], RPut [13], RPut [14, 15], RGet [0], RGet [0, 0]] (ramCircBuff_new 16) =
     Some ([Stored 3, Got 3 [1, 2, 3, 9], Stored 3, Stored 5, Next 3, Stored (- 1), Got 3 [5, 6, 7], Got 5 [8, 9, 10, 11, 12],
       Got 0 [], Stored 1, Stored 2, Got 1 [13], Got 2 [14, 15]], c)"
  using circ_records_in_order [of 16 "[RPut [1, 2, 3], RGet [0, 0, 0, 9], RPut [5, 6, 7], RPut [8, 9, 10, 11, 12], RProbe, RPut [1], RGet [0, 0, 0],
      RGet [0, 0, 0, 0, 0], RGet [], RPut [13], RPut [14, 15], RGet [0], RGet [0, 0]]"] by auto

text \<open>\<open>Put\<close> on a ring that holds records \<open>rs\<close> either appends the record, wherever in the ring the
  write index stands, or returns -1 and changes nothing; \<open>Probe\<close> then tells the length of the first
  record.\<close>

lemma circ_Put_refines:
  assumes "circ_ok c rs" and "length r < 2 ^ 31"
  shows "\<exists>n c'. Put r (int (length r)) c = Some (n, c') \<and>
     (if int (length r) + 4 \<le> circ_room c then n = int (length r) \<and> circ_ok c' (rs @ [r]) \<and> Probe c' = Some (int (length (hd (rs @ [r]))))
      else n = - 1 \<and> c' = c)"
proof (cases "int (length r) + 4 \<le> circ_room c")
  case True
  obtain c' where "Put r (int (length r)) c = Some (int (length r), c')" "circ_ok c' (rs @ [r])"
    using Put_fits [OF assms(1) True] by blast
  then show ?thesis using True Probe_first [of c' "rs @ [r]"] by (cases rs) auto
next
  case False
  then show ?thesis using Put_full [OF assms] by simp
qed

lemma circ_Put_refines_example:
  "\<exists>n c'. Put [7, 8] 2 (ramCircBuff_new 8) = Some (n, c') \<and> n = 2 \<and> circ_ok c' [[7, 8]] \<and> Probe c' = Some 2"
  using circ_Put_refines [of "ramCircBuff_new 8" "[]" "[7, 8]"] circ_new_ok [of 8] by simp

text \<open>\<open>Get\<close> copies the whole record even when the caller's buffer is shorter: the length the caller
  passes bounds the returned count and not the copy, so a buffer of that length is overrun.\<close>

lemma circ_Get_overruns:
  assumes "circ_ok c (r # rs)" and "length buf < length r"
  shows "Get buf (int (length buf)) c = None"
  by (rule Get_short [OF assms])

lemma circ_Get_overruns_example:
  "\<exists>c. Put [7, 8] 2 (ramCircBuff_new 8) = Some (2, c) \<and> Get [0] 1 c = None"
proof -
  obtain c where c: "Put [7, 8] 2 (ramCircBuff_new 8) = Some (2, c)" "circ_ok c [[7, 8]]"
    using Put_fits [of "ramCircBuff_new 8" "[]" "[7, 8]"] circ_new_ok [of 8] by auto
  then show ?thesis using circ_Get_overruns [of c "[7, 8]" "[]" "[0]"] by auto
qed

section \<open>From the sensors to the server\<close>

primrec AddAll :: "(u8 \<times> bytes) list \<Rightarrow> ComHandler \<Rightarrow> ComHandler option" where
  "AddAll [] c = Some c"
| "AddAll (x # xs) c = do {
     (added, c) \<leftarrow> AddResults (fst x) (snd x) (of_nat (length (snd x))) c;
     if added then AddAll xs c else None
   }"

lemma AddAll_spec:
  assumes "circ_ok (dataStorage c) rs" and "length (TXBuff c) = 2096" and "\<not> BuffMtx c"
    and "(\<Sum>x\<leftarrow>xs. int (length (snd x)) + 7) \<le> circ_room (dataStorage c)" and "circ_room (dataStorage c) \<le> 1024"
  shows "\<exists>buf st. AddAll xs c = Some (c\<lparr>TXBuff := buf, dataStorage := st\<rparr>) \<and> length buf = 2096 \<and> circ_ok st (rs @ map res_rec xs)"
  using assms
proof (induction xs arbitrary: c rs)
  case Nil
  then show ?case by (intro exI [of _ "TXBuff c"] exI [of _ "dataStorage c"]) simp
next
  case (Cons x xs)
  have "0 \<le> (\<Sum>x\<leftarrow>xs. int (length (snd x)) + 7)" by (induction xs) simp_all
  then have f: "int (length (snd x)) + 7 \<le> circ_room (dataStorage c)" using Cons.prems(4) by simp
  then have d: "length (snd x) + 3 \<le> 2096" using Cons.prems(5) by linarith
  obtain buf st where A: "AddResults (fst x) (snd x) (of_nat (length (snd x))) c = Some (True, c\<lparr>TXBuff := buf, dataStorage := st\<rparr>)"
    "length buf = 2096" "circ_ok st (rs @ [res_rec x])" "circ_room st = circ_room (dataStorage c) - int (length (snd x)) - 7"
    using AddResults_spec [OF Cons.prems(1-3) d, of "fst x"] f by auto
  let ?c = "c\<lparr>TXBuff := buf, dataStorage := st\<rparr>"
  have hyps: "circ_ok (dataStorage ?c) (rs @ [res_rec x])" "length (TXBuff ?c) = 2096" "\<not> BuffMtx ?c"
    "(\<Sum>x\<leftarrow>xs. int (length (snd x)) + 7) \<le> circ_room (dataStorage ?c)" "circ_room (dataStorage ?c) \<le> 1024"
    using A(2-4) Cons.prems(3-5) by simp_all
  obtain buf' st' where "AddAll xs ?c = Some (?c\<lparr>TXBuff := buf', dataStorage := st'\<rparr>)" "length buf' = 2096"
    "circ_ok st' ((rs @ [res_rec x]) @ map res_rec xs)" using Cons.IH [OF hyps] by blast
  then show ?case using A(1) by (intro exI [of _ buf'] exI [of _ st']) simp
qed

lemma Put_size: "Put b n s = Some (r, s') \<Longrightarrow> bSz s' = bSz s"
  by (auto simp: Put_def put_header_def put_data_def Let_def bind_eq_Some_conv split: if_splits)

lemma AddAll_size: "AddAll xs c = Some c' \<Longrightarrow> bSz (dataStorage c') = bSz (dataStorage c)"
proof (induction xs arbitrary: c)
  case (Cons x xs)
  then obtain c1 where "AddResults (fst x) (snd x) (of_nat (length (snd x))) c = Some (True, c1)" "AddAll xs c1 = Some c'"
    by (auto simp: bind_eq_Some_conv split: if_splits)
  then show ?case using Cons.IH [of c1] Put_size by (auto simp: AddResults_def Let_def bind_eq_Some_conv split: if_splits)
qed simp

lemma fits_each: "(\<Sum>x\<leftarrow>xs. int (length (snd x)) + 7) \<le> n \<Longrightarrow> x \<in> set xs \<Longrightarrow> int (length (snd x)) \<le> n"
proof (induction xs)
  case (Cons y ys)
  have "0 \<le> (\<Sum>x\<leftarrow>ys. int (length (snd x)) + 7)" by (induction ys) simp_all
  then show ?case using Cons by auto
qed simp

text \<open>Results that fit into the ring together all reach the server: adding them succeeds, the next request
  returns with the mutex free after one frame, and the frame holds the identity of the
  product and then, read back, exactly these results in their order.\<close>

lemma results_reach_server:
  assumes "ComHandler_new idProduct ltt buf t0 n0 l0 = Some c" and "length buf = 2096"
    and "(\<Sum>x\<leftarrow>xs. int (length (snd x)) + 7) \<le> 1024"
  shows "\<exists>c1 f c2. AddAll xs c = Some c1 \<and> DoServerRequest tm c1 = Some ([f], c2) \<and> take 15 f = take 15 idProduct \<and>
     decode_results (butlast (drop 60 f)) = xs \<and> \<not> BuffMtx c2 \<and> circ_ok (dataStorage c2) []"
proof -
  have c: "c = \<lparr>tt = ltt, first = True, hdr = \<lparr>imei = take 15 idProduct, idCfg = replicate 40 0xa5, hdr_time = t0, newSess = n0\<rparr>,
      BuffMtx = False, TXBuff = buf, currLen = l0, dataStorage = ramCircBuff_new 1024\<rparr>" "15 \<le> length idProduct"
    using assms(1) by (auto simp: ComHandler_new_def rd_bytes_def split: if_splits)
  obtain b st where A: "AddAll xs c = Some (c\<lparr>TXBuff := b, dataStorage := st\<rparr>)" "length b = 2096" "circ_ok st (map res_rec xs)"
    using AddAll_spec [of c "[]" xs] circ_new_ok [of 1024] assms(2,3) c(1) by auto
  let ?c = "c\<lparr>TXBuff := b, dataStorage := st\<rparr>"
  have sz: "bSz st = 1024"
    using AddAll_size [OF A(1)] c(1) by (simp add: ramCircBuff_new_def)
  have ne: "\<forall>r\<in>set (map res_rec xs). r \<noteq> []" by (simp add: res_rec_def)
  obtain hd x c2 where D: "DoServerRequest tm ?c = Some ([hdr_bytes hd @ concat (map res_rec xs) @ [x]], c2)" "length (hdr_bytes hd) = 60"
    "imei hd = imei (hdr ?c)" "circ_ok (dataStorage c2) []" "\<not> BuffMtx c2"
    using DoServerRequest_spec [of ?c "map res_rec xs" tm] A c sz ne by auto
  have "take 15 (hdr_bytes hd @ concat (map res_rec xs) @ [x]) = take 15 idProduct"
    using D(3) c by (simp add: hdr_bytes_def)
  moreover have "butlast (drop 60 (hdr_bytes hd @ concat (map res_rec xs) @ [x])) = concat (map res_rec xs)" using D(2) by (simp add: butlast_append)
  moreover have "\<forall>x\<in>set xs. length (snd x) < 2 ^ 16" using assms(3) fits_each [of xs 1024] by fastforce
  ultimately show ?thesis using A(1) D(1,4,5) decode_concat [of xs]
    by (intro exI [of _ ?c] exI [of _ "hdr_bytes hd @ concat (map res_rec xs) @ [x]"] exI [of _ c2]) simp
qed

lemma results_reach_server_example:
  "\<exists>c c1 f c2. ComHandler_new (replicate 15 49) TT_HALF (replicate 2096 0) 0 0 0 = Some c \<and> AddAll [(3, [1, 2]), (4, [])] c = Some c1 \<and>
     DoServerRequest (\<lambda>_. 7) c1 = Some ([f], c2) \<and> decode_results (butlast (drop 60 f)) = [(3, [1, 2]), (4, [])]"
proof -
  obtain c where c: "ComHandler_new (replicate 15 49) TT_HALF (replicate 2096 0) 0 0 0 = Some c"
    by (simp add: ComHandler_new_def rd_bytes_def)
  then show ?thesis using results_reach_server [OF c, of "[(3, [1, 2]), (4, [])]" "\<lambda>_. 7"] by auto
qed

section \<open>The allocator\<close>

text \<open>C7. Whatever calls of \<open>malloc\<close> and \<open>free\<close> were made, with whatever sizes and pointers (a second
  \<open>free\<close> of the same block included), the blocks tile the region, the links of the list are right in
  both directions, no two neighbours are free, and the next call returns: the sum of the blocks
  never exceeds the region, so the processor is not reset.\<close>

theorem alloc_reachable:
  assumes "alloc_reach m sz a" and "0 < m" and "20 \<le> sz" and "sz < 2 ^ 16"
  shows "(\<exists>bs. heap_ok a bs \<and> joined bs) \<and> malloc n a \<noteq> None \<and> free p a \<noteq> None"
proof -
  obtain bs where bs: "heap_ok a bs" "joined bs" using alloc_reach_heap [OF assms] by blast
  then show ?thesis using malloc_refines [OF bs(1), of n] free_cases [OF bs, of p] by auto
qed

theorem alloc_reachable_witness:
  "(\<exists>bs. heap_ok (MyMemoryAllocator_new 4096 8192) bs \<and> joined bs) \<and>
     malloc 5 (MyMemoryAllocator_new 4096 8192) \<noteq> None \<and> free 0 (MyMemoryAllocator_new 4096 8192) \<noteq> None"
  using alloc_reachable [OF reach_new, of 4096 8192 5 0] by simp

text \<open>C28. \<open>malloc\<close> is first fit: it splits the first free block with more room than the size and a
  header and returns its data, or returns null and changes nothing; all blocks in use keep their place
  and size, and the new one overlaps none of them.\<close>

theorem malloc_first_fit:
  assumes "heap_ok a bs"
  shows "\<exists>a' d bs'. malloc n a = Some (d, a') \<and> first_fit (align_sz n) bs = (d, bs') \<and> heap_ok a' bs' \<and>
     (if d = 0 then a' = a else used bs' = insert (d, align_sz n) (used bs) \<and>
        (\<forall>(e, k)\<in>used bs. d + align_sz n \<le> e \<or> e + k \<le> d))"
proof -
  obtain a' where a': "malloc n a = Some (fst (first_fit (align_sz n) bs), a')" "heap_ok a' (snd (first_fit (align_sz n) bs))"
    "fst (first_fit (align_sz n) bs) = 0 \<longrightarrow> a' = a" using malloc_refines [OF assms] by blast
  then show ?thesis using first_fit_used [OF assms, of "align_sz n"]
    by (intro exI [of _ a'] exI [of _ "fst (first_fit (align_sz n) bs)"] exI [of _ "snd (first_fit (align_sz n) bs)"]) auto
qed

theorem malloc_first_fit_witness:
  "\<exists>a' bs'. malloc 8 (MyMemoryAllocator_new 100 200) = Some (120, a') \<and> heap_ok a' bs' \<and> used bs' = {(120, 8)}"
proof -
  have f: "first_fit (align_sz 8) [(100, 180, FREE)] = (120, [(100, 8, INUSE), (128, 152, FREE)])"
    by (simp add: first_fit_def fits_def align_sz_def u16_of_def)
  have "used [(100, 8, INUSE), (128, 152, FREE)] = {(120, 8)}" by (auto simp: used_def)
  then show ?thesis using malloc_first_fit [OF heap_new [of 100 200], of 8] f by auto
qed

text \<open>Freeing what \<open>malloc\<close> has just returned gives the blocks back exactly as they were.\<close>

lemma malloc_free_restores:
  assumes "heap_ok a bs" and "joined bs" and "malloc n a = Some (d, a')" and "d \<noteq> 0"
  shows "\<exists>a''. free d a' = Some a'' \<and> heap_ok a'' bs"
  using malloc_free [OF assms] .

lemma malloc_free_restores_example:
  "\<exists>a' a''. malloc 8 (MyMemoryAllocator_new 100 200) = Some (120, a') \<and> free 120 a' = Some a'' \<and> heap_ok a'' [(100, 180, FREE)]"
proof -
  obtain a' where a': "malloc 8 (MyMemoryAllocator_new 100 200) = Some (120, a')"
    using malloc_refines [OF heap_new [of 100 200], of 8] by (auto simp: first_fit_def fits_def align_sz_def u16_of_def)
  then show ?thesis using malloc_free_restores [OF heap_new [of 100 200] _ a'] by auto
qed

text \<open>The step that is meant to align sizes does not: an odd size comes out two bytes off a multiple
  of four, and so does the header of the block behind the one that is returned.\<close>

lemma malloc_misaligns:
  assumes "0 < m" and "20 \<le> sz" and "sz < 2 ^ 16" and "4 dvd m" and "odd n" and "n + 64 < sz"
  shows "\<exists>a'. malloc n (MyMemoryAllocator_new m sz) = Some (m + 20, a') \<and> blk_next a' m mod 4 = 2"
proof -
  have al: "align_sz n + 20 < sz - 20" "align_sz n mod 4 = 2" using align_sz_odd [of n] assms by simp_all
  have "first_fit (align_sz n) [(m, sz - 20, FREE)] = (m + 20, [(m, align_sz n, INUSE), (m + 20 + align_sz n, sz - 20 - 20 - align_sz n, FREE)])"
    using al by (simp add: first_fit_def fits_def)
  then obtain a' where a': "malloc n (MyMemoryAllocator_new m sz) = Some (m + 20, a')"
    "heap_ok a' ([] @ (m, align_sz n, INUSE) # [(m + 20 + align_sz n, sz - 20 - 20 - align_sz n, FREE)])"
    using malloc_refines [OF heap_new [OF assms(1-3)], of n] by auto
  have "blk_next a' m = m + 20 + align_sz n" using heap_block(5) [OF a'(2)] by simp
  moreover have "(m + 20 + align_sz n) mod 4 = 2" using assms(4) al(2) by presburger
  ultimately show ?thesis using a'(1) by auto
qed

lemma malloc_misaligns_example:
  "\<exists>a'. malloc 5 (MyMemoryAllocator_new 4096 8192) = Some (4116, a') \<and> blk_next a' 4096 mod 4 = 2"
  using malloc_misaligns [of 4096 8192 5] by simp

end
