(* ===== verification/Can_Calc.thy ===== *)
theory Can_Calc
  imports App_Bytes
begin

text \<open>
  The descriptions of calculators that the server sends (\<open>CANRecorderCalculator.cpp\<close>,
  \<open>CANDiagCalculator.cpp\<close>): packed structures, kept as their bytes, and the walks over the chunks and the
  commands behind the header. A pointer to a command is its offset in \<open>cmdStorage\<close>, the
  pointer to the chunks one in \<open>recordData\<close>; \<open>None\<close> is a pointer that was never set.
\<close>

section \<open>Packed fields\<close>

definition fld8 :: "bytes \<Rightarrow> nat \<Rightarrow> u8" where
  "fld8 b i = b ! i"

definition fld16 :: "bytes \<Rightarrow> nat \<Rightarrow> u16" where
  "fld16 b i = word_of_int (le_val (take 2 (drop i b)))"

definition fld32 :: "bytes \<Rightarrow> nat \<Rightarrow> u32" where
  "fld32 b i = word_of_int (le_val (take 4 (drop i b)))"

section \<open>The recorder's description\<close>

definition CAN_RECORDER_ENTRY_STORAGE :: u8 where
  "CAN_RECORDER_ENTRY_STORAGE = 8"

definition CAN_RECORDER_HDR_TYPE :: u8 where
  "CAN_RECORDER_HDR_TYPE = 2"

text \<open>The header takes 14 bytes, an entry 2.\<close>

record CANRecorderCalculator =
  rc_dataPresence :: bool
  rc_dataValidity :: bool
  rc_calc :: bytes
  recordEntries :: "int option"
  recordData :: bytes

definition rc_GetCalcId :: "CANRecorderCalculator \<Rightarrow> u32" where
  "rc_GetCalcId c = fld32 (rc_calc c) 1"

definition rc_GetSpeed :: "CANRecorderCalculator \<Rightarrow> u16" where
  "rc_GetSpeed c = fld16 (rc_calc c) 5"

definition GetRxAddr :: "CANRecorderCalculator \<Rightarrow> u32" where
  "GetRxAddr c = fld32 (rc_calc c) 7"

definition rc_GetPinH :: "CANRecorderCalculator \<Rightarrow> u8" where
  "rc_GetPinH c = fld8 (rc_calc c) 11"

definition rc_GetPinL :: "CANRecorderCalculator \<Rightarrow> u8" where
  "rc_GetPinL c = fld8 (rc_calc c) 12"

definition GetNChunks :: "CANRecorderCalculator \<Rightarrow> u8" where
  "GetNChunks c = fld8 (rc_calc c) 13"

definition rc_Parse :: "bytes \<Rightarrow> CANRecorderCalculator \<Rightarrow> (int \<times> CANRecorderCalculator) option" where
  "rc_Parse buff c = do {
     let c = c\<lparr>rc_dataPresence := False, rc_dataValidity := False\<rparr>;
     h \<leftarrow> rd_bytes buff 0 1;
     if hd h = CAN_RECORDER_HDR_TYPE then do {
       calc \<leftarrow> memcpy (rc_calc c) 0 buff 0 14;
       let c = c\<lparr>rc_calc := calc\<rparr>;
       if 0 < GetNChunks c then
         if GetNChunks c < CAN_RECORDER_ENTRY_STORAGE then do {
           d \<leftarrow> memcpy (recordData c) 0 buff 14 (uint (GetNChunks c) * 2);
           Some (14 + uint (GetNChunks c) * 2, c\<lparr>recordData := d, recordEntries := Some 0, rc_dataPresence := True\<rparr>)
         }
         else Some (- 1, c)
       else Some (- 1, c)
     }
     else Some (- 1, c)
   }"

text \<open>The entry with a number: its first byte and its length. \<open>recordEntries\<close> is a pointer into \<open>recordData\<close>, which only a description that was
  parsed sets.\<close>

definition GetRecordEntry :: "u8 \<Rightarrow> CANRecorderCalculator \<Rightarrow> (u8 \<times> u8) option" where
  "GetRecordEntry index c =
     (if index < GetNChunks c then do {
        p \<leftarrow> recordEntries c;
        d \<leftarrow> rd_bytes (recordData c) (p + 2 * uint index) 2;
        Some (d ! 0, d ! 1)
      }
      else None)"

primrec validate_chunks :: "nat \<Rightarrow> nat \<Rightarrow> bytes \<Rightarrow> bool" where
  "validate_chunks 0 i d = True"
| "validate_chunks (Suc k) i d =
     (let s = d ! (2 * i); l = d ! (2 * i + 1) in
      if 7 < s then False
      else if 8 < uint s + uint l then False
      else validate_chunks k (i + 1) d)"

definition rc_Validate :: "CANRecorderCalculator \<Rightarrow> (bool \<times> CANRecorderCalculator) option" where
  "rc_Validate c =
     (let c = c\<lparr>rc_dataValidity := False\<rparr> in
      if rc_dataPresence c then do {
        p \<leftarrow> recordEntries c;
        let v = validate_chunks (unat (GetNChunks c)) 0 (drop (nat p) (recordData c));
        Some (v, c\<lparr>rc_dataValidity := v\<rparr>)
      }
      else Some (False, c))"

definition rc_SetData :: "bytes option \<Rightarrow> CANRecorderCalculator \<Rightarrow> (int \<times> CANRecorderCalculator) option" where
  "rc_SetData buff c =
     (case buff of
        Some b \<Rightarrow> do { (v, c) \<leftarrow> rc_Parse b c; (_, c) \<leftarrow> rc_Validate c; Some (v, c) }
      | None \<Rightarrow> Some (0, c))"

definition rc_Ready :: "CANRecorderCalculator \<Rightarrow> bool" where
  "rc_Ready c = rc_dataValidity c"

section \<open>The diagnosis description\<close>

definition CMD_END :: u16 where
  "CMD_END = 0"

definition CMD_ACK :: u16 where
  "CMD_ACK = 1"

definition CMD_KEEP_ALIVE :: u16 where
  "CMD_KEEP_ALIVE = 2"

definition CMD_NORM :: u16 where
  "CMD_NORM = 3"

definition CMD_DIAG_START :: u16 where
  "CMD_DIAG_START = 4"

definition CAN_DIAG_CMD_STORAGE :: u16 where
  "CAN_DIAG_CMD_STORAGE = 256"

definition CAN_DIAG_HDR_TYPE :: u8 where
  "CAN_DIAG_HDR_TYPE = 1"

text \<open>The header takes 20 bytes. A command is its type, its number, its size, 7 bytes in all, and its data.\<close>

record CANDiagCalculator =
  dataPresence :: bool
  dataValidity :: bool
  calc :: bytes
  cmd :: "nat option"
  cmdStorage :: bytes

definition GetCalcId :: "CANDiagCalculator \<Rightarrow> u32" where
  "GetCalcId c = fld32 (calc c) 1"

definition GetDiagCode :: "CANDiagCalculator \<Rightarrow> u8" where
  "GetDiagCode c = fld8 (calc c) 5"

definition GetSpeed :: "CANDiagCalculator \<Rightarrow> u16" where
  "GetSpeed c = fld16 (calc c) 6"

definition GetAddrDst :: "CANDiagCalculator \<Rightarrow> u32" where
  "GetAddrDst c = fld32 (calc c) 8"

definition GetAddrSrc :: "CANDiagCalculator \<Rightarrow> u32" where
  "GetAddrSrc c = fld32 (calc c) 12"

definition GetPinH :: "CANDiagCalculator \<Rightarrow> u8" where
  "GetPinH c = fld8 (calc c) 16"

definition GetPinL :: "CANDiagCalculator \<Rightarrow> u8" where
  "GetPinL c = fld8 (calc c) 17"

definition cmdLen :: "CANDiagCalculator \<Rightarrow> u16" where
  "cmdLen c = fld16 (calc c) 18"

definition GetCmdLen :: "CANDiagCalculator \<Rightarrow> u8" where
  "GetCmdLen c = ucast (cmdLen c)"

definition Parse :: "bytes \<Rightarrow> CANDiagCalculator \<Rightarrow> (int \<times> CANDiagCalculator) option" where
  "Parse buff c = do {
     let c = c\<lparr>dataPresence := False, dataValidity := False\<rparr>;
     h \<leftarrow> rd_bytes buff 0 1;
     if hd h = CAN_DIAG_HDR_TYPE then do {
       h \<leftarrow> memcpy (calc c) 0 buff 0 20;
       let c = c\<lparr>calc := h\<rparr>;
       if 0 < cmdLen c then
         if cmdLen c < CAN_DIAG_CMD_STORAGE then do {
           d \<leftarrow> memcpy (cmdStorage c) 0 buff 20 (uint (cmdLen c));
           Some (uint (cmdLen c) + 20, c\<lparr>cmdStorage := d, cmd := Some 0, dataPresence := True\<rparr>)
         }
         else Some (- 1, c)
       else Some (- 1, c)
     }
     else Some (- 1, c)
   }"

text \<open>The type and the size of the command at an offset; reading behind the storage is undefined.\<close>

definition cmd_at :: "bytes \<Rightarrow> nat \<Rightarrow> (u16 \<times> u8) option" where
  "cmd_at st p = (if p + 7 \<le> length st then Some (fld16 st p, fld8 st (p + 6)) else None)"

definition cmd_id :: "bytes \<Rightarrow> nat \<Rightarrow> u32" where
  "cmd_id st p = fld32 st (p + 2)"

definition cmd_data :: "bytes \<Rightarrow> nat \<Rightarrow> bytes" where
  "cmd_data st p = drop (p + 7) st"

function validate_loop :: "nat \<Rightarrow> bytes \<Rightarrow> bool option" where
  "validate_loop p st =
     (case cmd_at st p of
        None \<Rightarrow> None
      | Some (t, s) \<Rightarrow>
          if t = CMD_END then Some True
          else if 8 < s then Some False
          else validate_loop (p + 7 + unat s) st)"
  by pat_completeness auto
termination
  by (relation "measure (\<lambda>(p, st). length st - p)") (auto simp: cmd_at_def split: if_splits)

definition Validate :: "CANDiagCalculator \<Rightarrow> (bool \<times> CANDiagCalculator) option" where
  "Validate c =
     (if dataPresence c then do {
        p \<leftarrow> cmd c;
        v \<leftarrow> validate_loop p (cmdStorage c);
        Some (v, c\<lparr>dataValidity := v\<rparr>)
      }
      else Some (False, c))"

definition SetData :: "bytes option \<Rightarrow> CANDiagCalculator \<Rightarrow> (int \<times> CANDiagCalculator) option" where
  "SetData buff c =
     (case buff of
        Some b \<Rightarrow> do { (v, c) \<leftarrow> Parse b c; (_, c) \<leftarrow> Validate c; Some (v, c) }
      | None \<Rightarrow> Some (0, c))"

definition Ready :: "CANDiagCalculator \<Rightarrow> bool" where
  "Ready c \<longleftrightarrow> dataPresence c \<and> dataValidity c"

text \<open>The loop of \<open>NextCommand\<close>: the offset that is returned, \<open>Some None\<close> for the null pointer.\<close>

function next_loop :: "nat \<Rightarrow> u8 \<Rightarrow> u16 \<Rightarrow> bytes \<Rightarrow> nat option option" where
  "next_loop p s cmdType st =
     (let p = p + 7 + unat s in
      case cmd_at st p of
        None \<Rightarrow> None
      | Some (t, s) \<Rightarrow>
          if t = cmdType then Some (Some p)
          else if t = CMD_END then Some None
          else next_loop p s cmdType st)"
  by pat_completeness auto
termination
  by (relation "measure (\<lambda>(p, s, ty, st). length st - p)") (auto simp: cmd_at_def split: if_splits)

definition NextCommand :: "nat \<Rightarrow> u16 \<Rightarrow> CANDiagCalculator \<Rightarrow> nat option option" where
  "NextCommand p cmdType c = do {
     (_, s) \<leftarrow> cmd_at (cmdStorage c) p;
     next_loop p s cmdType (cmdStorage c)
   }"

definition FirstCommand :: "u16 \<Rightarrow> CANDiagCalculator \<Rightarrow> nat option option" where
  "FirstCommand cmdType c = do {
     p \<leftarrow> cmd c;
     (t, s) \<leftarrow> cmd_at (cmdStorage c) p;
     if t = cmdType then Some (Some p) else NextCommand p cmdType c
   }"

declare validate_loop.simps [simp del] next_loop.simps [simp del]

text \<open>The constructors; the flags of a new object are not initialised.\<close>

definition CANRecorderCalculator_new :: "bytes option \<Rightarrow> CANRecorderCalculator \<Rightarrow> CANRecorderCalculator option" where
  "CANRecorderCalculator_new buff c = map_option snd (rc_SetData buff c)"

definition CANDiagCalculator_new :: "bytes option \<Rightarrow> CANDiagCalculator \<Rightarrow> CANDiagCalculator option" where
  "CANDiagCalculator_new buff c = map_option snd (SetData buff (c\<lparr>cmd := None\<rparr>))"

section \<open>Lists of commands\<close>

text \<open>\<open>cmds_at st p cs\<close>: at offset \<open>p\<close> of the storage are the commands \<open>cs\<close> (type, number, data) and then
  the end mark. \<open>find_cmd\<close> is the offset of the first command of a type.\<close>

type_synonym command = "u16 \<times> u32 \<times> bytes"

fun cmds_at :: "bytes \<Rightarrow> nat \<Rightarrow> command list \<Rightarrow> bool" where
  "cmds_at st p [] \<longleftrightarrow> (\<exists>s. cmd_at st p = Some (CMD_END, s))"
| "cmds_at st p ((t, i, d) # cs) \<longleftrightarrow> t \<noteq> CMD_END \<and> length d \<le> 8 \<and> cmd_at st p = Some (t, of_nat (length d)) \<and>
     cmd_id st p = i \<and> take (length d) (cmd_data st p) = d \<and> cmds_at st (p + 7 + length d) cs"

fun find_cmd :: "u16 \<Rightarrow> nat \<Rightarrow> command list \<Rightarrow> nat option" where
  "find_cmd ty p [] = None"
| "find_cmd ty p ((t, i, d) # cs) = (if t = ty then Some p else find_cmd ty (p + 7 + length d) cs)"

lemma unat_len8: "length d \<le> 8 \<Longrightarrow> unat (of_nat (length d) :: u8) = length d"
  by (simp add: unat_of_nat_lt)

lemma validate_loop_spec: "cmds_at st p cs \<Longrightarrow> validate_loop p st = Some True"
proof (induction st p cs rule: cmds_at.induct)
  case (1 st p)
  then show ?case by (subst validate_loop.simps) auto
next
  case (2 st p t i d cs)
  then show ?case by (subst validate_loop.simps) (auto simp: unat_len8 word_less_nat_alt)
qed

text \<open>A command that is too long ends the walk with failure.\<close>

lemma next_loop_spec:
  assumes "cmds_at st (p + 7 + unat s) cs" and "ty \<noteq> CMD_END"
  shows "next_loop p s ty st = Some (find_cmd ty (p + 7 + unat s) cs)"
  using assms
proof (induction cs arbitrary: p s)
  case Nil
  then show ?case by (subst next_loop.simps) auto
next
  case (Cons c cs)
  obtain t i d where c: "c = (t, i, d)" by (cases c)
  show ?case
    using Cons.prems c Cons.IH [of "p + 7 + unat s" "of_nat (length d)"]
    by (subst next_loop.simps) (auto simp: unat_len8 Let_def)
qed

lemma NextCommand_spec:
  assumes "cmds_at (cmdStorage c) p ((t, i, d) # cs)" and "ty \<noteq> CMD_END"
  shows "NextCommand p ty c = Some (find_cmd ty (p + 7 + length d) cs)"
  using assms next_loop_spec [of "cmdStorage c" p "of_nat (length d)" cs ty] by (simp add: NextCommand_def unat_len8)

lemma FirstCommand_spec:
  assumes "cmds_at (cmdStorage c) 0 cs" and "cs \<noteq> []" and "ty \<noteq> CMD_END" and "cmd c = Some 0"
  shows "FirstCommand ty c = Some (find_cmd ty 0 cs)"
proof -
  obtain t i d qs where cs: "cs = (t, i, d) # qs" using assms(2) by (cases cs) auto
  then show ?thesis using assms(1,3,4) NextCommand_spec [of c 0 t i d qs ty] by (simp add: FirstCommand_def)
qed

text \<open>The commands of a type, as a list, with the rest of the list at each of them.\<close>

lemma find_cmd_split:
  assumes "cmds_at st p cs" and "find_cmd ty p cs = Some q"
  shows "\<exists>us i d vs. cs = us @ (ty, i, d) # vs \<and> (\<forall>u\<in>set us. fst u \<noteq> ty) \<and> cmds_at st q ((ty, i, d) # vs)"
  using assms
proof (induction st p cs rule: cmds_at.induct)
  case (2 st p t i d cs)
  show ?case
  proof (cases "t = ty")
    case True
    then show ?thesis using 2 by (intro exI [of _ "[]"]) auto
  next
    case False
    then obtain us j e vs where "cs = us @ (ty, j, e) # vs" "\<forall>u\<in>set us. fst u \<noteq> ty" "cmds_at st q ((ty, j, e) # vs)"
      using 2 by auto
    then show ?thesis using False by (intro exI [of _ "(t, i, d) # us"]) auto
  qed
qed simp

lemma find_cmd_None: "find_cmd ty p cs = None \<longleftrightarrow> (\<forall>u\<in>set cs. fst u \<noteq> ty)"
  by (induction ty p cs rule: find_cmd.induct) auto

text \<open>The walk over the commands of a type, as \<open>DiagSequence\<close> makes it: number and data of each.\<close>

definition cmd_val :: "nat \<Rightarrow> CANDiagCalculator \<Rightarrow> (u32 \<times> bytes) option" where
  "cmd_val p c = do {
     (_, s) \<leftarrow> cmd_at (cmdStorage c) p;
     Some (cmd_id (cmdStorage c) p, take (unat s) (cmd_data (cmdStorage c) p))
   }"

partial_function (option) commands_from :: "nat option \<Rightarrow> u16 \<Rightarrow> CANDiagCalculator \<Rightarrow> (u32 \<times> bytes) list option" where
  "commands_from h ty c =
     (case h of
        None \<Rightarrow> Some []
      | Some p \<Rightarrow> do {
          v \<leftarrow> cmd_val p c;
          h \<leftarrow> NextCommand p ty c;
          vs \<leftarrow> commands_from h ty c;
          Some (v # vs)
        })"

definition commands_of :: "u16 \<Rightarrow> CANDiagCalculator \<Rightarrow> (u32 \<times> bytes) list option" where
  "commands_of ty c = do { h \<leftarrow> FirstCommand ty c; commands_from h ty c }"

lemma commands_from_spec:
  assumes "cmds_at (cmdStorage c) p cs" and "ty \<noteq> CMD_END"
  shows "commands_from (find_cmd ty p cs) ty c = Some (map snd (filter (\<lambda>u. fst u = ty) cs))"
  using assms(1)
proof (induction cs arbitrary: p)
  case Nil
  then show ?case by (subst commands_from.simps) simp
next
  case (Cons u cs)
  obtain t i d where u: "u = (t, i, d)" by (cases u)
  have tl: "cmds_at (cmdStorage c) (p + 7 + length d) cs" using Cons.prems u by simp
  show ?case
  proof (cases "t = ty")
    case True
    have "cmd_val p c = Some (i, d)" using Cons.prems u by (simp add: cmd_val_def unat_len8)
    moreover have "NextCommand p ty c = Some (find_cmd ty (p + 7 + length d) cs)"
      using NextCommand_spec [of c p t i d cs ty] Cons.prems u assms(2) by simp
    ultimately show ?thesis using Cons.IH [OF tl] u True by (subst commands_from.simps) simp
  next
    case False
    then show ?thesis using Cons.IH [OF tl] u by simp
  qed
qed

lemma commands_of_spec:
  assumes "cmds_at (cmdStorage c) 0 cs" and "cs \<noteq> []" and "ty \<noteq> CMD_END" and "cmd c = Some 0"
  shows "commands_of ty c = Some (map snd (filter (\<lambda>u. fst u = ty) cs))"
  using FirstCommand_spec [OF assms] commands_from_spec [OF assms(1,3)] by (simp add: commands_of_def)

text \<open>When the list is empty, \<open>FirstCommand\<close> does not see its end mark and goes on with the bytes behind it.\<close>

lemma FirstCommand_empty:
  assumes "cmd_at (cmdStorage c) 0 = Some (CMD_END, s)" and "cmd c = Some 0" and "ty \<noteq> CMD_END"
  shows "FirstCommand ty c = (case cmd_at (cmdStorage c) (7 + unat s) of None \<Rightarrow> None
     | Some (t, _) \<Rightarrow> if t = ty then Some (Some (7 + unat s)) else if t = CMD_END then Some None else NextCommand (7 + unat s) ty c)"
  using assms by (simp add: FirstCommand_def NextCommand_def next_loop.simps [of 0 s] Let_def split: option.splits)

lemma commands_of_empty:
  assumes "cmd_at (cmdStorage c) 0 = Some (CMD_END, s)" and "cmd c = Some 0" and "ty \<noteq> CMD_END" and "cmds_at (cmdStorage c) (7 + unat s) us"
  shows "commands_of ty c = Some (map snd (filter (\<lambda>u. fst u = ty) us))"
proof -
  have "FirstCommand ty c = Some (find_cmd ty (7 + unat s) us)"
    using assms(1-3) next_loop_spec [of "cmdStorage c" 0 s us ty] assms(4) by (simp add: FirstCommand_def NextCommand_def)
  then show ?thesis using commands_from_spec [OF assms(4,3)] by (simp add: commands_of_def)
qed

section \<open>Encoding\<close>

definition enc_cmd :: "command \<Rightarrow> bytes" where
  "enc_cmd c = le_bytes 2 (uint (fst c)) @ le_bytes 4 (uint (fst (snd c))) @ of_nat (length (snd (snd c))) # snd (snd c)"

definition enc_cmds :: "command list \<Rightarrow> bytes" where
  "enc_cmds cs = concat (map enc_cmd cs) @ replicate 7 0"

lemma word_of_le_bytes2: "word_of_int (le_val (le_bytes 2 (uint w))) = w" for w :: u16
  using uint_lt2p [of w] by (simp add: le_val_le_bytes)

lemma length_enc_cmd: "length (enc_cmd (t, i, d)) = 7 + length d"
  by (simp add: enc_cmd_def)

lemma cmds_at_enc:
  assumes "drop p st = enc_cmds cs @ rest" and "p \<le> length st" and "\<forall>(t, i, d)\<in>set cs. t \<noteq> CMD_END \<and> length d \<le> 8"
  shows "cmds_at st p cs"
  using assms
proof (induction cs arbitrary: p)
  case Nil
  have "length st - p = 7 + length rest" using arg_cong [OF Nil(1), of length] by (simp add: enc_cmds_def)
  then have l: "p + 7 \<le> length st" by simp
  have "take 2 (drop p st) = [0, 0]" using Nil(1) by (simp add: enc_cmds_def numeral_eq_Suc)
  then show ?case using l by (simp add: cmd_at_def fld16_def CMD_END_def)
next
  case (Cons c cs)
  obtain t i d where c: "c = (t, i, d)" by (cases c)
  have D: "drop p st = le_bytes 2 (uint t) @ le_bytes 4 (uint i) @ of_nat (length d) # d @ (enc_cmds cs @ rest)"
    using Cons.prems(1) c by (simp add: enc_cmds_def enc_cmd_def)
  have l: "length st - p = 7 + length d + length (enc_cmds cs @ rest)" using arg_cong [OF D, of length] by simp
  have "take 2 (drop p st) = le_bytes 2 (uint t)" unfolding D by simp
  moreover have "take 4 (drop (p + 2) st) = le_bytes 4 (uint i)"
  proof -
    have "drop (p + 2) st = drop 2 (drop p st)" by (simp add: add.commute)
    then show ?thesis unfolding D by simp
  qed
  moreover have d6: "drop (p + 6) st = of_nat (length d) # d @ (enc_cmds cs @ rest)"
  proof -
    have "drop (p + 6) st = drop 6 (drop p st)" by (simp add: add.commute)
    then show ?thesis unfolding D by simp
  qed
  moreover have "st ! (p + 6) = of_nat (length d)" using hd_drop_conv_nth [of "p + 6" st] d6 l by simp
  moreover have "drop (p + 7) st = d @ (enc_cmds cs @ rest)"
  proof -
    have "drop (p + 7) st = drop 1 (drop (p + 6) st)" by (simp add: add.commute)
    then show ?thesis unfolding d6 by simp
  qed
  moreover have "drop (p + 7 + length d) st = enc_cmds cs @ rest"
  proof -
    have "drop (p + 7 + length d) st = drop (length d) (drop (p + 7) st)" by (simp add: ac_simps)
    then show ?thesis using \<open>drop (p + 7) st = _\<close> by simp
  qed
  then have "cmds_at st (p + 7 + length d) cs" using Cons.IH [of "p + 7 + length d"] Cons.prems(2,3) l by simp
  ultimately show ?case using Cons.prems(2,3) c l
    by (simp add: cmd_at_def cmd_id_def cmd_data_def fld16_def fld32_def fld8_def word_of_le_bytes word_of_le_bytes2)
qed

text \<open>\<open>Parse\<close> on a header and commands that fit.\<close>

lemma SetData_spec:
  assumes h: "length h = 20" "hd h = CAN_DIAG_HDR_TYPE" "fld16 h 18 = of_nat (length (enc_cmds cs))"
    and st: "length (calc c) = 20" "length (cmdStorage c) = 256" and len: "length (enc_cmds cs) < 256"
    and cs: "\<forall>(t, i, d)\<in>set cs. t \<noteq> CMD_END \<and> length d \<le> 8"
  shows "\<exists>c'. SetData (Some (h @ enc_cmds cs @ rest)) c = Some (20 + int (length (enc_cmds cs)), c') \<and> Ready c' \<and>
     calc c' = h \<and> cmd c' = Some 0 \<and> cmds_at (cmdStorage c') 0 cs"
proof -
  let ?b = "h @ enc_cmds cs @ rest" and ?n = "length (enc_cmds cs)"
  let ?st = "enc_cmds cs @ drop ?n (cmdStorage c)"
  let ?c = "c\<lparr>dataPresence := True, dataValidity := False, calc := h, cmdStorage := ?st, cmd := Some 0\<rparr>"
  have n: "0 < ?n" by (simp add: enc_cmds_def)
  have u: "uint (of_nat ?n :: u16) = int ?n" using len by (simp add: unsigned_of_nat take_bit_nat_eq_self)
  have "rd_bytes ?b 0 1 = Some [hd h]" using h(1) by (cases h) (simp_all add: rd_bytes_def)
  moreover have "memcpy (calc c) 0 ?b 0 20 = Some h" using h(1) st(1) by (simp add: memcpy_def rd_bytes_def wr_bytes_def)
  moreover have "memcpy (cmdStorage c) 0 ?b 20 (int ?n) = Some ?st"
    using h(1) st(2) len by (simp add: memcpy_def rd_bytes_def wr_bytes_def)
  moreover have "(0 :: u16) < of_nat ?n" "(of_nat ?n :: u16) < 256" using n len by (simp_all add: word_less_nat_alt unat_of_nat_lt)
  ultimately have "Parse ?b c = Some (20 + int ?n, ?c)"
    using h u by (simp add: Parse_def cmdLen_def CAN_DIAG_CMD_STORAGE_def)
  moreover have "cmds_at ?st 0 cs" by (rule cmds_at_enc [where rest = "drop ?n (cmdStorage c)"]) (use cs in simp_all)
  ultimately show ?thesis using validate_loop_spec [of ?st 0 cs] by (simp add: SetData_def Validate_def Ready_def)
qed

text \<open>A description that \<open>Validate\<close> accepts holds a list of commands with its end mark inside of the storage.\<close>

lemma validate_loop_sound: "validate_loop p st = Some True \<Longrightarrow> \<exists>cs. cmds_at st p cs"
proof (induction p st rule: validate_loop.induct)
  case (1 p st)
  obtain t s where c: "cmd_at st p = Some (t, s)"
    using 1(2) by (subst (asm) validate_loop.simps) (auto split: option.splits)
  show ?case
  proof (cases "t = CMD_END")
    case True
    then have "cmds_at st p []" using c by simp
    then show ?thesis by blast
  next
    case False
    then have s: "\<not> 8 < s" and v: "validate_loop (p + 7 + unat s) st = Some True"
      using 1(2) c by (subst (asm) validate_loop.simps, simp split: if_splits)+
    obtain cs where cs: "cmds_at st (p + 7 + unat s) cs" using 1(1) [OF c refl False s v] by blast
    have "cmd_at st (p + 7 + unat s) \<noteq> None" using cs by (cases cs) auto
    then have l: "p + 7 + unat s \<le> length st" by (auto simp: cmd_at_def split: if_splits)
    let ?d = "take (unat s) (cmd_data st p)"
    have d: "length ?d = unat s" using l by (simp add: cmd_data_def)
    have "unat s \<le> 8" using s by (simp add: word_less_nat_alt)
    then have "cmds_at st p ((t, cmd_id st p, ?d) # cs)" using False c cs d by simp
    then show ?thesis by blast
  qed
qed

lemma Ready_commands:
  assumes "SetData (Some b) c = Some (v, c')" and "Ready c'"
  shows "\<exists>cs. cmds_at (cmdStorage c') 0 cs \<and> cmd c' = Some 0 \<and> (\<forall>(t, i, d)\<in>set cs. length d \<le> 8)"
proof -
  obtain c1 where P: "Parse b c = Some (v, c1)" and V: "map_option snd (Validate c1) = Some c'"
    using assms(1) by (auto simp: SetData_def bind_eq_Some_conv)
  have r: "dataPresence c1" "cmd c' = cmd c1" "cmdStorage c' = cmdStorage c1" "dataValidity c'"
    using V assms(2) by (auto simp: Validate_def Ready_def bind_eq_Some_conv split: if_splits)
  have "cmd c1 = Some 0" using P r(1) by (auto simp: Parse_def Let_def bind_eq_Some_conv split: if_splits)
  then have "validate_loop 0 (cmdStorage c1) = Some True" using V r(1,4) by (auto simp: Validate_def bind_eq_Some_conv split: if_splits)
  then obtain cs where cs: "cmds_at (cmdStorage c1) 0 cs" using validate_loop_sound by blast
  have "cmds_at st p us \<Longrightarrow> \<forall>(t, i, d)\<in>set us. length d \<le> 8" for st p us
    by (induction st p us rule: cmds_at.induct) auto
  from this [OF cs] show ?thesis using cs r \<open>cmd c1 = Some 0\<close> by (intro exI [of _ cs]) simp
qed

end
