(* ===== verification/Can_Fifo.thy ===== *)
theory Can_Fifo
  imports App_Bytes Ring
begin

text \<open>
  Messages of the CAN buses (\<open>can_helper.h\<close>) and the queue between the receive interrupt and the thread of
  the interface (\<open>CANFifoMessage.cpp\<close>). The queue is an instance of \<open>bounded_fifo\<close>; one of its
  25 places always stays empty.
\<close>

section \<open>Operations\<close>

datatype CANFormat = CANStandard | CANExtended | CANAny

datatype CANType = CANData | CANRemote

record CANMessage =
  msg_id :: u32
  msg_data :: bytes
  msg_len :: u8
  msg_format :: CANFormat
  msg_type :: CANType

definition CANMessage_new :: CANMessage where
  "CANMessage_new = \<lparr>msg_id = 0, msg_data = replicate 8 0, msg_len = 8, msg_format = CANStandard, msg_type = CANData\<rparr>"

definition FIFO_SIZE :: u32 where
  "FIFO_SIZE = 25"

record CANFifoMessage =
  buffer :: "CANMessage list"
  head :: u32
  tail :: u32

definition CANFifoMessage_new :: CANFifoMessage where
  "CANFifoMessage_new = \<lparr>buffer = replicate 25 CANMessage_new, head = 0, tail = 0\<rparr>"

definition available :: "CANFifoMessage \<Rightarrow> u32" where
  "available f = (FIFO_SIZE + head f - tail f) mod FIFO_SIZE"

definition fifo_free :: "CANFifoMessage \<Rightarrow> u32" where
  "fifo_free f = FIFO_SIZE - 1 - available f"

definition fifo_put :: "CANMessage \<Rightarrow> CANFifoMessage \<Rightarrow> (bool \<times> CANFifoMessage) option" where
  "fifo_put data f =
     (let next = (head f + 1) mod FIFO_SIZE in
      if next = tail f then Some (False, f)
      else if unat (head f) < length (buffer f)
        then Some (True, f\<lparr>buffer := (buffer f)[unat (head f) := data], head := next\<rparr>)
        else None)"

definition fifo_get :: "CANFifoMessage \<Rightarrow> (CANMessage option \<times> CANFifoMessage) option" where
  "fifo_get f =
     (if head f = tail f then Some (None, f)
      else let next = (tail f + 1) mod FIFO_SIZE in
        if unat (tail f) < length (buffer f)
        then Some (Some (buffer f ! unat (tail f)), f\<lparr>tail := next\<rparr>)
        else None)"

section \<open>The contract\<close>

definition fifo_ok :: "CANFifoMessage \<Rightarrow> bool" where
  "fifo_ok f \<longleftrightarrow> length (buffer f) = 25 \<and> unat (head f) < 25 \<and> unat (tail f) < 25"

definition fifo_count :: "CANFifoMessage \<Rightarrow> nat" where
  "fifo_count f = (25 + unat (head f) - unat (tail f)) mod 25"

definition fifo_content :: "CANFifoMessage \<Rightarrow> CANMessage list" where
  "fifo_content f = ring (nth (buffer f)) (unat (tail f)) (fifo_count f) 25"

text \<open>The queue as operations that succeed when the code returns \<open>true\<close>.\<close>

definition fifo_put_ok :: "CANMessage \<Rightarrow> CANFifoMessage \<Rightarrow> CANFifoMessage option" where
  "fifo_put_ok x f = do { (b, f) \<leftarrow> fifo_put x f; if b then Some f else None }"

definition fifo_get_ok :: "CANFifoMessage \<Rightarrow> (CANMessage \<times> CANFifoMessage) option" where
  "fifo_get_ok f = do { (m, f) \<leftarrow> fifo_get f; map_option (\<lambda>x. (x, f)) m }"

lemma unat_next25: "unat h < 25 \<Longrightarrow> unat ((h + 1) mod FIFO_SIZE) = (unat h + 1) mod 25" for h :: u32
  by (simp add: FIFO_SIZE_def unat_mod unat_add_lem [THEN iffD1])

lemma available_count: "fifo_ok f \<Longrightarrow> unat (available f) = fifo_count f"
  by (simp add: fifo_ok_def available_def fifo_count_def FIFO_SIZE_def unat_mod unat_sub word_le_nat_alt unat_add_lem [THEN iffD1])

lemma fifo_bounds: "fifo_ok f \<Longrightarrow> fifo_count f < 25 \<and> unat (head f) = (unat (tail f) + fifo_count f) mod 25"
  by (cases "unat (tail f) \<le> unat (head f)") (auto simp: fifo_ok_def fifo_count_def le_mod_geq mod_if)

lemma next_is_tail: "fifo_ok f \<Longrightarrow> (head f + 1) mod FIFO_SIZE = tail f \<longleftrightarrow> fifo_count f = 24"
  unfolding word_unat_eq_iff using fifo_bounds [of f]
  by (auto simp: unat_next25 fifo_ok_def fifo_count_def mod_if split: if_splits)

lemma head_is_tail: "fifo_ok f \<Longrightarrow> head f = tail f \<longleftrightarrow> fifo_count f = 0"
  unfolding word_unat_eq_iff by (auto simp: fifo_ok_def fifo_count_def mod_if split: if_splits)

lemma fifo_put_full: "fifo_ok f \<Longrightarrow> fifo_count f = 24 \<Longrightarrow> fifo_put x f = Some (False, f)"
  by (simp add: fifo_put_def next_is_tail)

lemma fifo_put_room:
  assumes ok: "fifo_ok f" and room: "fifo_count f < 24"
  shows "\<exists>f'. fifo_put x f = Some (True, f') \<and> fifo_ok f' \<and> fifo_content f' = fifo_content f @ [x]"
proof -
  let ?h = "unat (head f)" and ?t = "unat (tail f)" and ?c = "fifo_count f"
  let ?f = "f\<lparr>buffer := (buffer f)[?h := x], head := (head f + 1) mod FIFO_SIZE\<rparr>"
  have n: "length (buffer f) = 25" "?h < 25" "?t < 25" using ok by (simp_all add: fifo_ok_def)
  have h: "?h = (?t + ?c) mod 25" using fifo_bounds [OF ok] by simp
  have ok': "fifo_ok ?f" using n by (simp add: fifo_ok_def unat_next25)
  have c: "fifo_count ?f = Suc ?c"
    using n room by (auto simp: fifo_count_def unat_next25 mod_if split: if_splits)
  have "ring (nth ((buffer f)[?h := x])) ?t (Suc ?c) 25 = ring ((nth (buffer f))(?h := x)) ?t (Suc ?c) 25"
    unfolding ring_def using n by (auto simp: nth_list_update)
  also have "\<dots> = fifo_content f @ [x]" unfolding fifo_content_def h using room by (intro ring_put) simp
  finally have "fifo_content ?f = fifo_content f @ [x]" using c by (simp add: fifo_content_def)
  moreover have "fifo_put x f = Some (True, ?f)" using n next_is_tail [OF ok] room by (simp add: fifo_put_def Let_def)
  ultimately show ?thesis using ok' by blast
qed

lemma fifo_get_empty: "fifo_ok f \<Longrightarrow> fifo_content f = [] \<Longrightarrow> fifo_get f = Some (None, f)"
  using head_is_tail [of f] by (cases "fifo_count f") (simp_all add: fifo_get_def fifo_content_def ring_Suc_snoc)

lemma fifo_get_first:
  assumes ok: "fifo_ok f" and xs: "fifo_content f = x # xs"
  shows "\<exists>f'. fifo_get f = Some (Some x, f') \<and> fifo_ok f' \<and> fifo_content f' = xs"
proof -
  let ?t = "unat (tail f)" and ?f = "f\<lparr>tail := (tail f + 1) mod FIFO_SIZE\<rparr>"
  have n: "length (buffer f) = 25" "unat (head f) < 25" "?t < 25" using ok by (simp_all add: fifo_ok_def)
  have cx: "fifo_count f = Suc (length xs)" using arg_cong [OF xs, of length] by (simp add: fifo_content_def)
  have r: "buffer f ! ?t = x" "ring (nth (buffer f)) ((?t + 1) mod 25) (length xs) 25 = xs"
    using xs ring_get [of ?t 25 "nth (buffer f)" "length xs"] n by (simp_all add: fifo_content_def cx)
  have "fifo_count ?f = length xs" using cx n by (auto simp: fifo_count_def unat_next25 mod_if split: if_splits)
  then have "fifo_content ?f = xs" using r(2) n by (simp add: fifo_content_def unat_next25)
  moreover have "fifo_ok ?f" using n by (simp add: fifo_ok_def unat_next25)
  moreover have "fifo_get f = Some (Some x, ?f)"
    using head_is_tail [OF ok] cx n r(1) by (simp add: fifo_get_def Let_def)
  ultimately show ?thesis by blast
qed

lemma length_fifo_content: "length (fifo_content f) = fifo_count f"
  by (simp add: fifo_content_def)

interpretation canq: bounded_fifo fifo_ok fifo_content "\<lambda>_. 24" fifo_put_ok fifo_get_ok
proof unfold_locales
  fix f x assume "fifo_ok f" "length (fifo_content f) < 24"
  then show "\<exists>f'. fifo_put_ok x f = Some f' \<and> fifo_ok f' \<and> (24::nat) = 24 \<and> fifo_content f' = fifo_content f @ [x]"
    using fifo_put_room [of f x] by (auto simp: fifo_put_ok_def length_fifo_content)
next
  fix f x xs assume "fifo_ok f" "fifo_content f = x # xs"
  then show "\<exists>f'. fifo_get_ok f = Some (x, f') \<and> fifo_ok f' \<and> (24::nat) = 24 \<and> fifo_content f' = xs"
    using fifo_get_first [of f x xs] by (auto simp: fifo_get_ok_def)
qed

lemma fifo_new: "fifo_ok CANFifoMessage_new" "fifo_content CANFifoMessage_new = []"
  by (simp_all add: fifo_ok_def CANFifoMessage_new_def fifo_content_def fifo_count_def)

end
