(* ===== verification/Can_Interface.thy ===== *)
theory Can_Interface
  imports Can_Fifo Cmsis_Base
begin

text \<open>
  The interface to the two CAN buses (\<open>CANInterface.cpp\<close>): the table of callbacks, the dispatching of a
  received message, the receive interrupts and the sending of frames. The table is kept as the 120
  bytes it occupies, because an entry is removed from it by a copy of bytes. Callbacks are addresses;
  dispatching returns the calls it makes. What \<open>Mutex::lock\<close> returns is a parameter of the operations
  that take a mutex. The controllers are hardware: what they receive and what their
  \<open>write\<close> returns are parameters, frames that are sent are results.
\<close>

section \<open>State\<close>

definition CAN_ID_PROMISCUOUS_MODE :: u32 where
  "CAN_ID_PROMISCUOUS_MODE = 0xffffffff"

definition CAN_SIMULTANEOUS_CBS :: u8 where
  "CAN_SIMULTANEOUS_CBS = 10"

definition CAN_BUS_DONT_CARE :: int where
  "CAN_BUS_DONT_CARE = - 1"

definition CAN_CALLBACK :: int where
  "CAN_CALLBACK = 1"

record CANInterface =
  nCurrentCbs :: u8
  idCbTable :: bytes
  CanPinH1 :: u8
  CanPinL1 :: u8
  CanPinH2 :: u8
  CanPinL2 :: u8
  rxOvf :: bool
  fifo1RxMsg :: CANFifoMessage
  fifo2RxMsg :: CANFifoMessage
  msgTx :: CANMessage
  led1 :: bool
  led2 :: bool
  led3 :: bool
  led4 :: bool

text \<open>An entry takes 12 bytes: the bus, three bytes of padding, the identifier and the callback.\<close>

definition cb_bus :: "CANInterface \<Rightarrow> nat \<Rightarrow> u8" where
  "cb_bus c i = idCbTable c ! (12 * i)"

definition cb_id :: "CANInterface \<Rightarrow> nat \<Rightarrow> u32" where
  "cb_id c i = word_of_int (le_val (take 4 (drop (12 * i + 4) (idCbTable c))))"

definition cb_cb :: "CANInterface \<Rightarrow> nat \<Rightarrow> u32" where
  "cb_cb c i = word_of_int (le_val (take 4 (drop (12 * i + 8) (idCbTable c))))"

section \<open>Operations\<close>

text \<open>The constructor; the contents of the table and \<open>rxOvf\<close> are not initialised.\<close>

definition CANInterface_new :: "bytes \<Rightarrow> bool \<Rightarrow> u8 \<Rightarrow> u8 \<Rightarrow> u8 \<Rightarrow> u8 \<Rightarrow> CANInterface" where
  "CANInterface_new tbl ovf CPH1 CPL1 CPH2 CPL2 = \<lparr>nCurrentCbs = 0, idCbTable = tbl,
     CanPinH1 = CPH1, CanPinL1 = CPL1, CanPinH2 = CPH2, CanPinL2 = CPL2, rxOvf = ovf,
     fifo1RxMsg = CANFifoMessage_new, fifo2RxMsg = CANFifoMessage_new, msgTx = CANMessage_new,
     led1 = True, led2 = True, led3 = True, led4 = True\<rparr>"

definition AddCallBackForId :: "u32 \<Rightarrow> u8 \<Rightarrow> u32 \<Rightarrow> u32 \<Rightarrow> CANInterface \<Rightarrow> CANInterface option" where
  "AddCallBackForId lock bus ident cb c =
     (if lock \<noteq> osEventTimeout then
        (if nCurrentCbs c = CAN_SIMULTANEOUS_CBS then Some c
         else do {
           let newEntry = 12 * uint (nCurrentCbs c);
           t \<leftarrow> wr_bytes (idCbTable c) newEntry [bus];
           t \<leftarrow> wr_bytes t (newEntry + 4) (le_bytes 4 (uint ident));
           t \<leftarrow> wr_bytes t (newEntry + 8) (le_bytes 4 (uint cb));
           Some (c\<lparr>idCbTable := t, nCurrentCbs := nCurrentCbs c + 1\<rparr>)
         })
      else Some c)"

definition DelCallBackForId :: "u32 \<Rightarrow> u8 \<Rightarrow> u32 \<Rightarrow> CANInterface \<Rightarrow> CANInterface option" where
  "DelCallBackForId lock bus ident c =
     (if lock \<noteq> osEventTimeout then
        (case find (\<lambda>i. cb_bus c i = bus \<and> cb_id c i = ident) [0..<unat (nCurrentCbs c)] of
           None \<Rightarrow> Some c
         | Some i \<Rightarrow> do {
             t \<leftarrow> memcpy (idCbTable c) (12 * int i) (idCbTable c) (12 * (int i + 1)) (uint (nCurrentCbs c) - (int i + 1));
             Some (c\<lparr>idCbTable := t, nCurrentCbs := nCurrentCbs c - 1\<rparr>)
           })
      else Some c)"

text \<open>The loop of \<open>DispatchCANMessage\<close> from entry \<open>i\<close> on, \<open>k\<close> entries left: the callbacks that are called
  and the value they get.\<close>

primrec dispatch_loop :: "nat \<Rightarrow> nat \<Rightarrow> u8 \<Rightarrow> CANMessage \<Rightarrow> CANInterface \<Rightarrow> (u32 \<times> int) list" where
  "dispatch_loop 0 i bus m c = []"
| "dispatch_loop (Suc k) i bus m c =
     (let call = (cb_cb c i, CAN_CALLBACK OR push_bit 8 (uint bus)) in
      (if cb_id c i = CAN_ID_PROMISCUOUS_MODE then [call] else []) @
      (if (sint (cb_bus c i) = uint bus \<or> sint (cb_bus c i) = CAN_BUS_DONT_CARE) \<and> cb_id c i = msg_id m
       then [call] else dispatch_loop k (i + 1) bus m c))"

definition DispatchCANMessage :: "u8 \<Rightarrow> CANMessage \<Rightarrow> CANInterface \<Rightarrow> (u32 \<times> int) list" where
  "DispatchCANMessage bus m c = dispatch_loop (unat (nCurrentCbs c)) 0 bus m c"

text \<open>Sending: the frame is built in \<open>msgTx\<close>. The result is the frame handed to the controller of the bus,
  the value returned to the caller and the new state; \<open>ret\<close> is what the controller's \<open>write\<close> returns.\<close>

definition Send :: "u32 \<Rightarrow> int \<Rightarrow> u8 \<Rightarrow> u32 \<Rightarrow> bytes \<Rightarrow> u8 \<Rightarrow> CANInterface \<Rightarrow> ((u8 \<times> CANMessage) list \<times> int \<times> CANInterface) option" where
  "Send lock ret bus ident data len c =
     (if lock \<noteq> osEventTimeout then do {
        let c = c\<lparr>msgTx := (msgTx c)\<lparr>msg_id := ident, msg_len := len\<rparr>\<rparr>;
        d \<leftarrow> memcpy (msg_data (msgTx c)) 0 data 0 (uint len);
        let c = c\<lparr>msgTx := (msgTx c)\<lparr>msg_data := d\<rparr>\<rparr>;
        if bus = 1 then Some ([(1, msgTx c)], ret, c\<lparr>led1 := \<not> led1 c\<rparr>)
        else if bus = 2 then Some ([(2, msgTx c)], ret, c\<lparr>led2 := \<not> led2 c\<rparr>)
        else Some ([], 0, c)
      }
      else Some ([], 0, c))"

definition ProcessMsgFromRxFifo :: "u8 \<Rightarrow> CANInterface \<Rightarrow> ((u32 \<times> int) list \<times> CANInterface) option" where
  "ProcessMsgFromRxFifo bus c = do {
     (msg, c) \<leftarrow>
       (if bus = 1 then do { (m, f) \<leftarrow> fifo_get (fifo1RxMsg c); Some (m, c\<lparr>fifo1RxMsg := f\<rparr>) }
        else if bus = 2 then do { (m, f) \<leftarrow> fifo_get (fifo2RxMsg c); Some (m, c\<lparr>fifo2RxMsg := f\<rparr>) }
        else Some (None, c));
     Some (case msg of Some m \<Rightarrow> DispatchCANMessage bus m c | None \<Rightarrow> [], c)
   }"

text \<open>One turn of the loop of the thread.\<close>

definition Main_turn :: "CANInterface \<Rightarrow> ((u32 \<times> int) list \<times> CANInterface) option" where
  "Main_turn c = do {
     let c = (if rxOvf c then c\<lparr>rxOvf := False\<rparr> else c);
     (calls1, c) \<leftarrow> ProcessMsgFromRxFifo 1 c;
     (calls2, c) \<leftarrow> ProcessMsgFromRxFifo 2 c;
     Some (calls1 @ calls2, c)
   }"

definition BusFromPins :: "u8 \<Rightarrow> u8 \<Rightarrow> CANInterface \<Rightarrow> u8" where
  "BusFromPins CanH CanL c =
     (if CanL = CanPinL1 c \<and> CanH = CanPinH1 c then 1
      else if CanL = CanPinL2 c \<and> CanH = CanPinH2 c then 2
      else 0)"

text \<open>The receive interrupts; the argument is what \<open>CAN::read\<close> delivers.\<close>

definition RxCbCan1 :: "CANMessage option \<Rightarrow> CANInterface \<Rightarrow> CANInterface option" where
  "RxCbCan1 rx c =
     (case rx of
        Some m \<Rightarrow> do {
          (b, f) \<leftarrow> fifo_put m (fifo1RxMsg c);
          Some (c\<lparr>fifo1RxMsg := f, rxOvf := \<not> b, led3 := \<not> led3 c\<rparr>)
        }
      | None \<Rightarrow> Some c)"

definition RxCbCan2 :: "CANMessage option \<Rightarrow> CANInterface \<Rightarrow> CANInterface option" where
  "RxCbCan2 rx c =
     (case rx of
        Some m \<Rightarrow> do {
          (b, f) \<leftarrow> fifo_put m (fifo2RxMsg c);
          Some (c\<lparr>fifo2RxMsg := f, rxOvf := \<not> b, led4 := \<not> led4 c\<rparr>)
        }
      | None \<Rightarrow> Some c)"

section \<open>The table of callbacks\<close>

definition tbl_ok :: "CANInterface \<Rightarrow> bool" where
  "tbl_ok c \<longleftrightarrow> length (idCbTable c) = 120 \<and> unat (nCurrentCbs c) \<le> 10"

definition cb_entry :: "CANInterface \<Rightarrow> nat \<Rightarrow> u8 \<times> u32 \<times> u32" where
  "cb_entry c i = (cb_bus c i, cb_id c i, cb_cb c i)"

definition cbs :: "CANInterface \<Rightarrow> (u8 \<times> u32 \<times> u32) list" where
  "cbs c = map (cb_entry c) [0..<unat (nCurrentCbs c)]"

lemma length_cbs [simp]: "length (cbs c) = unat (nCurrentCbs c)"
  by (simp add: cbs_def)

lemma cb_bus_take: "length (idCbTable c) = 120 \<Longrightarrow> i < 10 \<Longrightarrow> cb_bus c i = hd (take 1 (drop (12 * i) (idCbTable c)))"
  by (simp add: cb_bus_def hd_drop_conv_nth hd_take)

text \<open>An entry is what its three fields hold; writes elsewhere do not touch it.\<close>

lemma cb_entry_cong:
  assumes "length (idCbTable c) = 120" "length (idCbTable c') = 120" "i < 10"
    and "\<And>j k. (j, k) \<in> {(0, 1), (4, 4), (8, 4)} \<Longrightarrow> take k (drop (12 * i + j) (idCbTable c')) = take k (drop (12 * i + j) (idCbTable c))"
  shows "cb_entry c' i = cb_entry c i"
  using assms(4) [of 0 1] assms(4) [of 4 4] assms(4) [of 8 4] assms(1-3)
  by (simp add: cb_entry_def cb_bus_take cb_id_def cb_cb_def)

lemma unat_inc8: "unat (n :: u8) < 255 \<Longrightarrow> unat (n + 1) = unat n + 1"
  by (simp add: unat_add_lem [THEN iffD1])

lemma AddCallBackForId_spec:
  assumes ok: "tbl_ok c" and room: "nCurrentCbs c \<noteq> CAN_SIMULTANEOUS_CBS" and lock: "lock \<noteq> osEventTimeout"
  shows "\<exists>t. AddCallBackForId lock bus ident cb c = Some (c\<lparr>idCbTable := t, nCurrentCbs := nCurrentCbs c + 1\<rparr>) \<and>
     tbl_ok (c\<lparr>idCbTable := t, nCurrentCbs := nCurrentCbs c + 1\<rparr>) \<and>
     cbs (c\<lparr>idCbTable := t, nCurrentCbs := nCurrentCbs c + 1\<rparr>) = cbs c @ [(bus, ident, cb)]"
proof -
  let ?n = "unat (nCurrentCbs c)" and ?e = "12 * uint (nCurrentCbs c)"
  have "?n \<noteq> 10" using room by (auto simp: CAN_SIMULTANEOUS_CBS_def word_unat_eq_iff)
  then have n: "?n < 10" "length (idCbTable c) = 120" using ok by (simp_all add: tbl_ok_def)
  define k where "k = ?n"
  have u: "uint (nCurrentCbs c) = int k" by (simp add: k_def)
  have e: "0 \<le> ?e" "nat ?e = 12 * ?n" "nat (?e + 4) = 12 * ?n + 4" "nat (?e + 8) = 12 * ?n + 8" "?e < 120"
    unfolding u k_def [symmetric] using n(1) [folded k_def] by simp_all
  obtain t1 where t1: "wr_bytes (idCbTable c) ?e [bus] = Some t1" using wr_bytes_ok [of ?e "[bus]" "idCbTable c"] e n by auto
  note L1 = wr_bytes_Some(1) [OF t1]
  obtain t2 where t2: "wr_bytes t1 (?e + 4) (le_bytes 4 (uint ident)) = Some t2"
    using wr_bytes_ok [of "?e + 4" "le_bytes 4 (uint ident)" t1] e n L1 by auto
  note L2 = wr_bytes_Some(1) [OF t2]
  obtain t3 where t3: "wr_bytes t2 (?e + 8) (le_bytes 4 (uint cb)) = Some t3"
    using wr_bytes_ok [of "?e + 8" "le_bytes 4 (uint cb)" t2] e n L1 L2 by auto
  note L3 = wr_bytes_Some(1) [OF t3]
  let ?c = "c\<lparr>idCbTable := t3, nCurrentCbs := nCurrentCbs c + 1\<rparr>"
  have old: "cb_entry ?c i = cb_entry c i" if "i < ?n" for i
  proof (rule cb_entry_cong)
    fix j k :: nat assume "(j, k) \<in> {(0, 1), (4, 4), (8, 4)}"
    then have jk: "12 * i + j + k \<le> 12 * ?n" using that by auto
    then show "take k (drop (12 * i + j) (idCbTable ?c)) = take k (drop (12 * i + j) (idCbTable c))"
      using wr_bytes_other [OF t1, of "12 * i + j" k] wr_bytes_other [OF t2, of "12 * i + j" k] wr_bytes_other [OF t3, of "12 * i + j" k] e
      by simp
  qed (use n L1 L2 L3 that in simp_all)
  have "take 4 (drop (12 * ?n + 8) t3) = le_bytes 4 (uint cb)" using wr_bytes_same [OF t3] e by simp
  moreover have "take 4 (drop (12 * ?n + 4) t3) = le_bytes 4 (uint ident)"
    using wr_bytes_same [OF t2] wr_bytes_other [OF t3, of "12 * ?n + 4" 4] e by simp
  moreover have "take 1 (drop (12 * ?n) t3) = [bus]"
    using wr_bytes_same [OF t1] wr_bytes_other [OF t2, of "12 * ?n" 1] wr_bytes_other [OF t3, of "12 * ?n" 1] e by simp
  ultimately have new: "cb_entry ?c ?n = (bus, ident, cb)"
    using n L1 L2 L3 by (simp add: cb_entry_def cb_bus_take cb_id_def cb_cb_def word_of_le_bytes)
  have nn: "unat (nCurrentCbs c + 1) = ?n + 1" by (rule unat_inc8) (use n in simp)
  have "cbs ?c = cbs c @ [(bus, ident, cb)]"
    unfolding cbs_def using old new nn by simp
  moreover have "AddCallBackForId lock bus ident cb c = Some ?c"
    using lock room t1 t2 t3 by (simp add: AddCallBackForId_def)
  moreover have "tbl_ok ?c" using n nn L1 L2 L3 by (simp add: tbl_ok_def)
  ultimately show ?thesis by blast
qed

lemma cbs_nth: "i < unat (nCurrentCbs c) \<Longrightarrow> cbs c ! i = (cb_bus c i, cb_id c i, cb_cb c i)"
  by (simp add: cbs_def cb_entry_def)

lemma find_upt:
  assumes "\<forall>j<i. \<not> P j" and "P i" and "i < n"
  shows "find P [0..<n] = Some i"
  using assms by (auto simp: find_Some_iff intro!: exI [of _ i])

text \<open>The removal of the entry at the end of the table, and of one that is not there.\<close>

lemma DelCallBackForId_last:
  assumes ok: "tbl_ok c" and cs: "cbs c = es @ [(bus, ident, cb)]" and new: "\<forall>(b, i, _)\<in>set es. \<not> (b = bus \<and> i = ident)"
    and lock: "lock \<noteq> osEventTimeout"
  shows "\<exists>c'. DelCallBackForId lock bus ident c = Some c' \<and> c' = c\<lparr>nCurrentCbs := nCurrentCbs c - 1\<rparr> \<and> tbl_ok c' \<and> cbs c' = es"
proof -
  let ?n = "unat (nCurrentCbs c)" and ?c = "c\<lparr>nCurrentCbs := nCurrentCbs c - 1\<rparr>"
  have n: "?n = Suc (length es)" "?n \<le> 10" "length (idCbTable c) = 120"
    using arg_cong [OF cs, of length] ok by (simp_all add: tbl_ok_def)
  have u: "uint (nCurrentCbs c) = int (length es) + 1" using n(1) by (simp add: uint_nat)
  have "find (\<lambda>i. cb_bus c i = bus \<and> cb_id c i = ident) [0..<?n] = Some (length es)"
  proof (rule find_upt)
    show "\<forall>j<length es. \<not> (cb_bus c j = bus \<and> cb_id c j = ident)"
    proof (intro allI impI)
      fix j assume j: "j < length es"
      then have "es ! j = (cb_bus c j, cb_id c j, cb_cb c j)" using cbs_nth [of j c] n(1) cs by (simp add: nth_append)
      then show "\<not> (cb_bus c j = bus \<and> cb_id c j = ident)" using new nth_mem [OF j] by auto
    qed
    show "cb_bus c (length es) = bus \<and> cb_id c (length es) = ident" using cbs_nth [of "length es" c] n(1) cs by simp
  qed (use n in simp)
  moreover have "memcpy (idCbTable c) (12 * int (length es)) (idCbTable c) (12 * (int (length es) + 1)) (uint (nCurrentCbs c) - (int (length es) + 1))
      = Some (idCbTable c)" using n u by (simp add: memcpy_def rd_bytes_def wr_bytes_def)
  ultimately have "DelCallBackForId lock bus ident c = Some ?c" using lock by (simp add: DelCallBackForId_def)
  moreover have nn: "unat (nCurrentCbs c - 1) = length es" using n(1) by (simp add: unat_sub_if_size)
  moreover have "cbs ?c = es"
  proof -
    have "cbs ?c = take (length es) (cbs c)" using n(1) nn by (simp add: cbs_def take_map cb_entry_def cb_bus_def cb_id_def cb_cb_def)
    then show ?thesis using cs by simp
  qed
  ultimately show ?thesis using n by (simp add: tbl_ok_def)
qed

lemma DelCallBackForId_absent:
  assumes "\<forall>(b, i, _)\<in>set (cbs c). \<not> (b = bus \<and> i = ident)"
  shows "DelCallBackForId lock bus ident c = Some c"
proof -
  have "find (\<lambda>i. cb_bus c i = bus \<and> cb_id c i = ident) [0..<unat (nCurrentCbs c)] = None"
    using assms by (auto simp: find_None_iff cbs_def cb_entry_def)
  then show ?thesis by (simp add: DelCallBackForId_def)
qed

text \<open>Two entries, the first of which is removed: one byte is copied.\<close>

lemma DelCallBackForId_first:
  assumes ok: "tbl_ok c" and cs: "cbs c = [(b1, i1, c1), (b2, i2, c2)]" and lock: "lock \<noteq> osEventTimeout"
  shows "\<exists>c'. DelCallBackForId lock b1 i1 c = Some c' \<and> tbl_ok c' \<and> cbs c' = [(b2, i1, c1)]"
proof -
  have n: "unat (nCurrentCbs c) = 2" "length (idCbTable c) = 120" using arg_cong [OF cs, of length] ok by (simp_all add: tbl_ok_def)
  then have un: "uint (nCurrentCbs c) = 2" by (simp add: uint_nat)
  have e: "cb_entry c 0 = (b1, i1, c1)" "cb_entry c 1 = (b2, i2, c2)" using cs n(1) by (simp_all add: cbs_def numeral_2_eq_2)
  have f: "find (\<lambda>i. cb_bus c i = b1 \<and> cb_id c i = i1) [0..<unat (nCurrentCbs c)] = Some 0"
    by (rule find_upt) (use e n in \<open>simp_all add: cb_entry_def\<close>)
  have b2: "idCbTable c ! 12 = b2" using e(2) by (simp add: cb_entry_def cb_bus_def)
  have r: "rd_bytes (idCbTable c) 12 1 = Some [b2]" using n(2) b2 by (simp add: rd_bytes_def take_Suc hd_drop_conv_nth)
  obtain t where t: "wr_bytes (idCbTable c) 0 [b2] = Some t" using wr_bytes_ok [of 0 "[b2]" "idCbTable c"] n by auto
  let ?c = "c\<lparr>idCbTable := t, nCurrentCbs := nCurrentCbs c - 1\<rparr>"
  have d: "DelCallBackForId lock b1 i1 c = Some ?c" using f r t un lock by (simp add: DelCallBackForId_def memcpy_def)
  have "cb_bus ?c 0 = b2" using wr_bytes_Some(4) [OF t, of 0] n by (simp add: cb_bus_def)
  moreover have "cb_id ?c 0 = i1" "cb_cb ?c 0 = c1"
    using e(1) wr_bytes_other [OF t, of 4 4] wr_bytes_other [OF t, of 8 4] by (simp_all add: cb_entry_def cb_id_def cb_cb_def)
  moreover have nn: "unat (nCurrentCbs c - 1) = 1" using n(1) by (simp add: unat_sub_if_size)
  ultimately have "cbs ?c = [(b2, i1, c1)]" by (simp add: cbs_def cb_entry_def)
  then show ?thesis using d n nn wr_bytes_Some(1) [OF t] by (simp add: tbl_ok_def)
qed

end
