(* ===== verification/Can_Comm.thy ===== *)
theory Can_Comm
  imports Can_Calc Can_Interface
begin

text \<open>
  The exchange of a command and its response with a calculator (\<open>CANCommunicators.cpp\<close>,
  \<open>CANCommunicator6A.cpp\<close>, \<open>CANCommunicator68.cpp\<close>): the masters that send a command and put the
  frames of the response together, and the slave that simulates a calculator. What the master's
  queue delivers, one value for each \<open>get\<close>, is a list; a \<open>get\<close> past its end has not returned.
\<close>

section \<open>State\<close>

datatype com_state = IDLE | EXT_CMD

datatype qget = Q_msg CANMessage | Q_timeout | Q_other

record CANCommunicator =
  com_bus :: u8
  com_calc :: "CANDiagCalculator option"
  com_state :: com_state

definition Configure :: "u8 \<Rightarrow> CANDiagCalculator option \<Rightarrow> CANCommunicator \<Rightarrow> CANCommunicator" where
  "Configure b c m = (if b \<noteq> 0 then m\<lparr>com_bus := b, com_calc := c\<rparr> else m)"

fun FlushQueue :: "qget list \<Rightarrow> qget list" where
  "FlushQueue (Q_msg _ # es) = FlushQueue es"
| "FlushQueue (_ # es) = es"
| "FlushQueue [] = []"

text \<open>The callback of a master puts a copy of the message into the queue; only the bytes the message has
  are copied.\<close>

definition master_event :: "int \<Rightarrow> CANMessage \<Rightarrow> CANMessage option option" where
  "master_event ID m =
     (if ID AND 0x0f = CAN_CALLBACK then do {
        d \<leftarrow> memcpy (msg_data CANMessage_new) 0 (msg_data m) 0 (uint (msg_len m));
        Some (Some (CANMessage_new\<lparr>msg_id := msg_id m, msg_len := msg_len m, msg_data := d\<rparr>))
      }
      else Some None)"

section \<open>The master of protocol 6A\<close>

text \<open>The variables of \<open>ExecuteCommand\<close>: the interface, the frames sent, the caller's buffer and length.\<close>

record exch =
  x_itf :: CANInterface
  x_sent :: "(u8 \<times> CANMessage) list"
  response :: bytes
  respLen :: u8
  currLen :: u8
  x_state :: com_state

definition x_Send :: "u32 \<Rightarrow> u8 \<Rightarrow> u32 \<Rightarrow> bytes \<Rightarrow> u8 \<Rightarrow> exch \<Rightarrow> exch option" where
  "x_Send lock bus ident data len x = do {
     (out, _, c) \<leftarrow> Send lock 0 bus ident data len (x_itf x);
     Some (x\<lparr>x_itf := c, x_sent := x_sent x @ out\<rparr>)
   }"

text \<open>One received message: whether the response is complete, and the new variables.\<close>

definition rcv_idle :: "u32 \<Rightarrow> u8 \<Rightarrow> CANDiagCalculator \<Rightarrow> CANMessage \<Rightarrow> exch \<Rightarrow> (bool \<times> exch) option" where
  "rcv_idle lock bus cal m x =
     (let d = msg_data m in
      if d ! 0 AND 0xf0 = 0 then do {
        let x = x\<lparr>respLen := d ! 0\<rparr>;
        r \<leftarrow> memcpy (response x) 0 d 1 (uint (respLen x));
        Some (True, x\<lparr>response := r\<rparr>)
      }
      else if d ! 0 = 0x10 then do {
        let x = x\<lparr>respLen := d ! 1\<rparr>;
        r \<leftarrow> memcpy (response x) 0 d 2 6;
        let x = x\<lparr>response := r, currLen := 6\<rparr>;
        hdrCmd \<leftarrow> FirstCommand CMD_ACK cal;
        (case hdrCmd of
           Some p \<Rightarrow> do {
             (_, sz) \<leftarrow> cmd_at (cmdStorage cal) p;
             x \<leftarrow> x_Send lock bus (GetAddrSrc cal) (cmd_data (cmdStorage cal) p) sz x;
             Some (False, x\<lparr>x_state := EXT_CMD\<rparr>)
           }
         | None \<Rightarrow> Some (False, x))
      }
      else Some (False, x))"

definition rcv_ext :: "CANMessage \<Rightarrow> exch \<Rightarrow> (bool \<times> exch) option" where
  "rcv_ext m x =
     (let d = msg_data m in
      if d ! 0 AND 0xf0 = 0x20 then do {
        let payloadSz = (if uint (respLen x) - uint (currLen x) < 7 then respLen x - currLen x else 7);
        r \<leftarrow> memcpy (response x) (uint (currLen x)) d 1 (uint payloadSz);
        let x = x\<lparr>response := r, currLen := currLen x + payloadSz\<rparr>;
        if respLen x \<le> currLen x then Some (True, x\<lparr>x_state := IDLE\<rparr>) else Some (False, x)
      }
      else Some (False, x))"

primrec rcv_loop :: "u32 \<Rightarrow> u8 \<Rightarrow> CANDiagCalculator \<Rightarrow> qget list \<Rightarrow> exch \<Rightarrow> exch option" where
  "rcv_loop lock bus cal [] x = None"
| "rcv_loop lock bus cal (e # es) x =
     (case e of
        Q_msg m \<Rightarrow> do {
          (endCmd, x) \<leftarrow> (case x_state x of IDLE \<Rightarrow> rcv_idle lock bus cal m x | EXT_CMD \<Rightarrow> rcv_ext m x);
          if endCmd then Some x else rcv_loop lock bus cal es x
        }
      | Q_timeout \<Rightarrow> Some (x\<lparr>x_state := IDLE\<rparr>)
      | Q_other \<Rightarrow> rcv_loop lock bus cal es x)"

text \<open>\<open>ExecuteCommand\<close>; \<open>self\<close> is the address of the communicator, a null pointer is \<open>None\<close>.\<close>

definition ExecuteCommand6A :: "u32 \<Rightarrow> u32 \<Rightarrow> bytes \<Rightarrow> u8 \<Rightarrow> bytes option \<Rightarrow> u8 option \<Rightarrow> u32 \<Rightarrow> qget list \<Rightarrow>
    CANCommunicator \<Rightarrow> CANInterface \<Rightarrow> (exch \<times> CANCommunicator) option" where
  "ExecuteCommand6A lock self data len resp rlen msTmo evs m c =
     (let m = m\<lparr>com_state := IDLE\<rparr>;
          x = \<lparr>x_itf = c, x_sent = [], response = (case resp of Some r \<Rightarrow> r | None \<Rightarrow> []),
               respLen = 0, currLen = 0, x_state = IDLE\<rparr> in
      if rlen = None then Some (x, m)
      else case com_calc m of
        Some cal \<Rightarrow>
          if com_bus m \<noteq> 0 then do {
            let evs = FlushQueue evs;
            c \<leftarrow> AddCallBackForId lock (com_bus m) (GetAddrDst cal) self (x_itf x);
            let x = x\<lparr>x_itf := c\<rparr>;
            x \<leftarrow> x_Send lock (com_bus m) (GetAddrSrc cal) data len x;
            x \<leftarrow> (if msTmo \<noteq> 0 \<and> resp \<noteq> None then rcv_loop lock (com_bus m) cal evs x else Some x);
            c \<leftarrow> DelCallBackForId lock (com_bus m) (GetAddrDst cal) (x_itf x);
            Some (x\<lparr>x_itf := c\<rparr>, m\<lparr>com_state := x_state x\<rparr>)
          }
          else Some (x, m)
      | None \<Rightarrow> Some (x, m))"

section \<open>The master of protocol 68\<close>

definition ExecuteCommand68 :: "u32 \<Rightarrow> u32 \<Rightarrow> bytes \<Rightarrow> u8 \<Rightarrow> bytes option \<Rightarrow> u8 option \<Rightarrow> u32 \<Rightarrow> qget list \<Rightarrow>
    CANCommunicator \<Rightarrow> CANInterface \<Rightarrow> exch option" where
  "ExecuteCommand68 lock self data len resp rlen msTmo evs m c =
     (let x = \<lparr>x_itf = c, x_sent = [], response = (case resp of Some r \<Rightarrow> r | None \<Rightarrow> []),
               respLen = 0, currLen = 0, x_state = IDLE\<rparr> in
      if rlen = None then Some x
      else case com_calc m of
        Some cal \<Rightarrow>
          if com_bus m \<noteq> 0 then do {
            let evs = FlushQueue evs;
            c \<leftarrow> AddCallBackForId lock (com_bus m) (GetAddrDst cal) self (x_itf x);
            let x = x\<lparr>x_itf := c\<rparr>;
            container \<leftarrow> memcpy (replicate 8 0) 0 data 0 (uint len);
            x \<leftarrow> x_Send lock (com_bus m) (GetAddrSrc cal) container 8 x;
            x \<leftarrow> (if msTmo \<noteq> 0 \<and> resp \<noteq> None then
                    (case evs of
                       [] \<Rightarrow> None
                     | Q_msg rx # _ \<Rightarrow> do {
                         let x = x\<lparr>respLen := msg_data rx ! 0\<rparr>;
                         r \<leftarrow> memcpy (response x) 0 (msg_data rx) 1 (uint (respLen x));
                         Some (x\<lparr>response := r\<rparr>)
                       }
                     | _ # _ \<Rightarrow> Some x)
                  else Some x);
            c \<leftarrow> DelCallBackForId lock (com_bus m) (GetAddrDst cal) (x_itf x);
            Some (x\<lparr>x_itf := c\<rparr>)
          }
          else Some x
      | None \<Rightarrow> Some x)"

section \<open>The simulated calculator\<close>

record CANCommunicatorSim6A =
  sim_state :: com_state
  iteration :: u8
  sim_response :: bytes
  rLen :: u8

definition NO_RESP :: u8 where "NO_RESP = 0"
definition SHORT_RESP :: u8 where "SHORT_RESP = 1"
definition LONG_RESP :: u8 where "LONG_RESP = 2"

text \<open>The 26 characters every answer starts from.\<close>

definition db_text :: bytes where
  "db_text = [95, 95, 99, 100, 101, 102, 103, 104, 97, 105, 109, 101, 108, 101, 115, 104, 111, 109, 109, 101, 115, 103, 97, 121, 121, 122]"

definition RequestDB :: "bytes \<Rightarrow> u8 \<Rightarrow> bytes \<Rightarrow> (u8 \<times> bytes \<times> u8) option" where
  "RequestDB cm clen results = do {
     (results, rlen) \<leftarrow>
       (if clen = 2 \<and> (cm ! 0, cm ! 1) \<in> {(0x10, 0xC0), (0x21, 0xB0), (0x21, 0xC0), (0x21, 0xCB), (0x21, 0xC2), (0x21, 0xC9)}
        then do {
          results \<leftarrow> memcpy results 0 db_text 0 26;
          results \<leftarrow> wr_bytes results 0 [25, cm ! 0 + 0x40, cm ! 1];
          Some (results, 26)
        }
        else Some (results, 0));
     Some (if rlen \<noteq> 0 then if rlen \<le> 7 then SHORT_RESP else LONG_RESP else NO_RESP, results, rlen)
   }"

definition FormatResponse :: "bytes \<Rightarrow> u8 \<Rightarrow> bytes \<Rightarrow> u8 \<Rightarrow> (bytes \<times> u8) option" where
  "FormatResponse resp responseSz payload it =
     (if responseSz \<le> 7 then do {
        payload \<leftarrow> memcpy payload 0 resp 0 (uint responseSz);
        Some (payload, responseSz)
      }
      else do {
        payload \<leftarrow> wr_bytes payload 0 [if it = 0 then 0x10 else 0x20 OR (0x0f AND it)];
        let l = (if (uint it + 1) * 7 \<le> uint responseSz then 7 else responseSz mod 7);
        payload \<leftarrow> memcpy payload 1 resp (uint it * 7) (uint l);
        Some (payload, l + 1)
      })"

text \<open>The parts of the response behind the first, from \<open>i\<close> on; \<open>i\<close> is an eight bit integer, so the loop has fuel.\<close>

primrec ext_parts :: "nat \<Rightarrow> u32 \<Rightarrow> u8 \<Rightarrow> u32 \<Rightarrow> u8 \<Rightarrow> bytes \<Rightarrow> CANCommunicatorSim6A \<Rightarrow> CANInterface \<Rightarrow>
    (bytes \<times> (u8 \<times> CANMessage) list \<times> CANCommunicatorSim6A \<times> CANInterface) option" where
  "ext_parts 0 lock bus ident i payload s c = None"
| "ext_parts (Suc k) lock bus ident i payload s c =
     (if i < rLen s then do {
        (payload, sz) \<leftarrow> FormatResponse (sim_response s) (rLen s) payload (iteration s);
        (out, _, c) \<leftarrow> Send lock 0 bus ident payload sz c;
        (payload, outs, s, c) \<leftarrow> ext_parts k lock bus ident (i + 7) payload (s\<lparr>iteration := iteration s + 1\<rparr>) c;
        Some (payload, out @ outs, s, c)
      }
      else Some (payload, [], s, c))"

text \<open>The callback; \<open>payload\<close> is its buffer of seven bytes, not initialised.\<close>

definition sim_event :: "u32 \<Rightarrow> bytes \<Rightarrow> int \<Rightarrow> CANMessage \<Rightarrow> u8 \<Rightarrow> CANDiagCalculator \<Rightarrow> CANCommunicatorSim6A \<Rightarrow> CANInterface \<Rightarrow>
    ((u8 \<times> CANMessage) list \<times> CANCommunicatorSim6A \<times> CANInterface) option" where
  "sim_event lock payload ID m bus cal s c =
     (let d = msg_data m in
      if ID AND 0x0f = CAN_CALLBACK then
        (if d ! 0 = 0x01 \<and> d ! 1 = 0x3E then do {
           (out, _, c) \<leftarrow> Send lock 0 bus (GetAddrSrc cal) [0x01, 0x7E] 2 c;
           Some (out, s, c)
         }
         else case sim_state s of
           IDLE \<Rightarrow>
             if d ! 0 AND 0x0f \<noteq> 0 then do {
               let s = s\<lparr>iteration := 0\<rparr>;
               let payloadSz = d ! 0;
               payload \<leftarrow> memcpy payload 0 d 1 (uint payloadSz);
               (respType, r, n) \<leftarrow> RequestDB payload payloadSz (sim_response s);
               let s = s\<lparr>sim_response := r, rLen := n\<rparr>;
               if respType \<noteq> NO_RESP then do {
                 (payload, payloadSz) \<leftarrow> FormatResponse (sim_response s) (rLen s) payload (iteration s);
                 (out, _, c) \<leftarrow> Send lock 0 bus (GetAddrSrc cal) payload payloadSz c;
                 if respType = LONG_RESP
                 then Some (out, s\<lparr>iteration := iteration s + 1, sim_state := EXT_CMD\<rparr>, c)
                 else Some (out, s, c)
               }
               else Some ([], s, c)
             }
             else Some ([], s, c)
         | EXT_CMD \<Rightarrow>
             if d ! 0 = 0x30 \<and> d ! 1 = 0x00 \<and> d ! 2 = 0x0A then do {
               (_, outs, s, c) \<leftarrow> ext_parts 256 lock bus (GetAddrSrc cal) 7 payload s c;
               Some (outs, s\<lparr>rLen := 0, sim_state := IDLE\<rparr>, c)
             }
             else Some ([], s\<lparr>sim_state := IDLE\<rparr>, c))
      else Some ([], s, c))"

section \<open>Reassembly\<close>

text \<open>The first byte of part \<open>k\<close> of a long response, and the bytes it carries.\<close>

definition pci :: "nat \<Rightarrow> u8" where
  "pci k = (if k = 0 then 0x10 else 0x20 OR (0x0f AND of_nat k))"

definition seg :: "bytes \<Rightarrow> nat \<Rightarrow> bytes" where
  "seg r k = take 7 (drop (7 * k) r)"

lemma u8_nat: "n < 256 \<Longrightarrow> uint (of_nat n :: u8) = int n" "n < 256 \<Longrightarrow> unat (of_nat n :: u8) = n"
  by (simp_all add: unsigned_of_nat take_bit_nat_eq_self)

lemma take_seg: "take (length (seg r k)) (drop (7 * k) r) = seg r k"
proof -
  have "seg r k @ drop 7 (drop (7 * k) r) = drop (7 * k) r" by (simp add: seg_def del: drop_drop)
  then show ?thesis by (metis append_eq_conv_conj)
qed

lemma memcpy_append:
  assumes "rd_bytes src si (int n) = Some d" and "n \<le> length ys"
  shows "memcpy (xs @ ys) (int (length xs)) src si (int n) = Some (xs @ d @ drop n ys)"
proof -
  have "length d = n" using assms(1) by (auto simp: rd_bytes_def split: if_splits)
  then show ?thesis using assms by (simp add: memcpy_def wr_bytes_def)
qed

lemma FormatResponse_long:
  assumes n: "7 < length r" "length r < 256" and k: "7 * k < length r" and p: "length payload = 8"
  shows "FormatResponse r (of_nat (length r)) payload (of_nat k) =
     Some (pci k # seg r k @ drop (length (seg r k) + 1) payload, of_nat (length (seg r k)) + 1)"
proof -
  let ?n = "length r"
  let ?l = "(if (uint (of_nat k :: u8) + 1) * 7 \<le> uint (of_nat ?n :: u8) then 7 else of_nat ?n mod 7) :: u8"
  have k': "k < 256" using k n by simp
  have long: "\<not> (of_nat ?n :: u8) \<le> 7" using n by (simp add: word_le_nat_alt u8_nat)
  have "of_nat k = (0 :: u8) \<longleftrightarrow> k = 0" using k' by (simp add: word_unat_eq_iff u8_nat)
  then have pc: "(if of_nat k = (0 :: u8) then 0x10 else 0x20 OR (0x0f AND of_nat k)) = pci k" by (simp add: pci_def)
  have l: "unat ?l = length (seg r k)"
  proof (cases "(k + 1) * 7 \<le> ?n")
    case True
    then show ?thesis using n k' by (simp add: u8_nat seg_def)
  next
    case False
    then have "?n mod 7 = ?n - 7 * k" using k by (intro mod_nat_eqI) simp_all
    then show ?thesis using False n k k' by (simp add: u8_nat seg_def unat_mod)
  qed
  have l1: "?l = of_nat (length (seg r k))" by (rule unat_eq_of_nat [OF l])
  have l2: "uint ?l = int (length (seg r k))" unfolding l [symmetric] by (rule uint_nat)
  have sl: "length (seg r k) \<le> 7" "7 * k + length (seg r k) \<le> ?n" using k by (auto simp: seg_def)
  have w: "wr_bytes payload 0 [pci k] = Some (pci k # drop 1 payload)" using p by (simp add: wr_bytes_def)
  have "rd_bytes r (int k * 7) (int (length (seg r k))) = Some (seg r k)"
    using sl k take_seg [of r k] by (simp add: rd_bytes_def nat_mult_distrib mult.commute)
  then have m: "memcpy (pci k # drop 1 payload) 1 r (uint (of_nat k :: u8) * 7) (uint ?l) =
      Some (pci k # seg r k @ drop (length (seg r k) + 1) payload)"
    using sl p k' unfolding l2 by (simp add: memcpy_def wr_bytes_def u8_nat)
  show ?thesis using long pc w m l1 unfolding FormatResponse_def by (simp add: Let_def)
qed

lemma pci_ext:
  assumes "k \<noteq> 0"
  shows "pci k AND 0xf0 = 0x20"
proof -
  have "(0x0f AND w) AND 0xf0 = w AND (0x0f AND 0xf0)" for w :: u8 by (metis and.assoc and.commute)
  then have "(0x0f AND w) AND 0xf0 = 0" for w :: u8 by simp
  then show ?thesis using assms by (simp add: pci_def word_ao_dist)
qed

text \<open>What the master has after part \<open>k - 1\<close>: the bytes of the response so far in front of its buffer.\<close>

definition got :: "bytes \<Rightarrow> bytes \<Rightarrow> nat \<Rightarrow> exch \<Rightarrow> bool" where
  "got r B j x \<longleftrightarrow> respLen x = of_nat (length r - 1) \<and> currLen x = of_nat j \<and> response x = take j (tl r) @ drop j B"

lemma rcv_ext_part:
  assumes g: "got r B (7 * k - 1) x" and k: "0 < k" "7 * k < length r" and n: "length r < 256" "length r - 1 \<le> length B"
    and d: "msg_data m = pci k # seg r k @ pad"
  shows "\<exists>x'. rcv_ext m x = Some (length r \<le> 7 * k + 7, x') \<and> got r B (min (7 * k + 7) (length r) - 1) x' \<and>
     x_itf x' = x_itf x \<and> x_sent x' = x_sent x \<and> x_state x' = (if length r \<le> 7 * k + 7 then IDLE else x_state x)"
proof -
  let ?n = "length r" and ?j = "7 * k - 1" and ?s = "length (seg r k)"
  let ?p = "(if uint (respLen x) - uint (currLen x) < 7 then respLen x - currLen x else 7) :: u8"
  have s: "?s = min 7 (?n - 7 * k)" by (simp add: seg_def)
  have R: "respLen x = of_nat (?n - 1)" "currLen x = of_nat ?j" and B: "response x = take ?j (tl r) @ drop ?j B"
    using g by (simp_all add: got_def)
  have u: "uint (respLen x) = int (?n - 1)" "uint (currLen x) = int ?j" unfolding R by (rule u8_nat(1), use n k in simp)+
  have p: "?p = of_nat ?s"
  proof (cases "?n < 7 * k + 7")
    case True
    then have "(of_nat (?n - 1) :: u8) - of_nat ?j = of_nat (?n - 1 - ?j)" using k by (simp add: of_nat_diff)
    then show ?thesis using True u R k s by (simp add: of_nat_diff)
  next
    case False
    then show ?thesis using u k s by (simp add: of_nat_diff)
  qed
  have up: "uint (of_nat ?s :: u8) = int ?s" using s by (simp add: u8_nat)
  have j: "?j + ?s \<le> ?n - 1" "?j + ?s = min (7 * k + 7) ?n - 1" using s k by simp_all
  have "drop ?j (tl r) = drop (7 * k) r" using k by (cases r) (simp_all add: drop_Cons')
  then have "take ?s (drop ?j (tl r)) = seg r k" using take_seg [of r k] by simp
  then have tk: "take ?j (tl r) @ seg r k = take (?j + ?s) (tl r)" by (simp add: take_add)
  have lt: "length (take ?j (tl r)) = ?j" using k by simp
  have "rd_bytes (msg_data m) 1 (int ?s) = Some (seg r k)" unfolding d by (simp add: rd_bytes_def)
  then have "memcpy (take ?j (tl r) @ drop ?j B) (int ?j) (msg_data m) 1 (int ?s) = Some (take (?j + ?s) (tl r) @ drop (?j + ?s) B)"
    using memcpy_append [of "msg_data m" 1 ?s "seg r k" "drop ?j B" "take ?j (tl r)"] j(1) n(2) lt unfolding tk [symmetric]
    by (simp add: add.commute)
  then have mc: "memcpy (response x) (uint (currLen x)) (msg_data m) 1 (uint ?p) = Some (take (?j + ?s) (tl r) @ drop (?j + ?s) B)"
    by (simp only: p up) (simp only: u(2) B)
  let ?x = "x\<lparr>response := take (?j + ?s) (tl r) @ drop (?j + ?s) B, currLen := of_nat (?j + ?s)\<rparr>"
  have cur: "currLen x + ?p = of_nat (?j + ?s)" using p R(2) by simp
  have "unat (respLen x) = ?n - 1" "unat (of_nat (?j + ?s) :: u8) = ?j + ?s" unfolding R by (rule u8_nat(2), use n j(1) in simp)+
  then have "respLen x \<le> of_nat (?j + ?s) \<longleftrightarrow> ?n - 1 \<le> ?j + ?s" by (simp only: word_le_nat_alt)
  then have fin: "respLen x \<le> of_nat (?j + ?s) \<longleftrightarrow> ?n \<le> 7 * k + 7" using s k by (auto simp: min_def)
  have "rcv_ext m x = Some (if ?n \<le> 7 * k + 7 then (True, ?x\<lparr>x_state := IDLE\<rparr>) else (False, ?x))"
    using pci_ext [of k] k d mc cur fin unfolding rcv_ext_def by (simp add: Let_def)
  moreover have "got r B (min (7 * k + 7) ?n - 1) ?x" using j(2) R(1) unfolding got_def by simp
  ultimately show ?thesis
    by (cases "?n \<le> 7 * k + 7") (auto simp: got_def)
qed

lemma rcv_loop_ext:
  assumes "got r B (7 * k - 1) x" and "0 < k" "7 * k < length r" and "length r < 256" "length r - 1 \<le> length B"
    and "x_state x = EXT_CMD" and "7 * K < length r + 7" "length r \<le> 7 * K"
    and "\<And>j. j < K \<Longrightarrow> \<exists>pad. msg_data (fr j) = pci j # seg r j @ pad"
  shows "\<exists>x'. rcv_loop lock bus cal (map (\<lambda>j. Q_msg (fr j)) [k..<K] @ rest) x = Some x' \<and> got r B (length r - 1) x' \<and>
     x_itf x' = x_itf x \<and> x_sent x' = x_sent x \<and> x_state x' = IDLE"
  using assms(1-3,6)
proof (induction "K - k" arbitrary: k x)
  case 0
  then show ?case using assms(8) by simp
next
  case (Suc q)
  then have kK: "k < K" by simp
  obtain pad where pad: "msg_data (fr k) = pci k # seg r k @ pad" using assms(9) [OF kK] by blast
  obtain x1 where x1: "rcv_ext (fr k) x = Some (length r \<le> 7 * k + 7, x1)" "got r B (min (7 * k + 7) (length r) - 1) x1"
    "x_itf x1 = x_itf x" "x_sent x1 = x_sent x" "x_state x1 = (if length r \<le> 7 * k + 7 then IDLE else x_state x)"
    using rcv_ext_part [OF Suc.prems(1-3) assms(4,5) pad] by blast
  have step: "rcv_loop lock bus cal (map (\<lambda>j. Q_msg (fr j)) [k..<K] @ rest) x =
      (if length r \<le> 7 * k + 7 then Some x1 else rcv_loop lock bus cal (map (\<lambda>j. Q_msg (fr j)) [Suc k..<K] @ rest) x1)"
    using x1(1) Suc.prems(4) kK by (simp add: upt_conv_Cons)
  show ?case
  proof (cases "length r \<le> 7 * k + 7")
    case True
    then have "min (7 * k + 7) (length r) = length r" by simp
    then show ?thesis using True step x1(2-5) by auto
  next
    case False
    have "got r B (7 * Suc k - 1) x1" using x1(2) False by (simp add: min_def)
    then show ?thesis using Suc.hyps(1) [of "Suc k" x1] Suc.hyps(2) step x1(3-5) False Suc.prems(4) by simp
  qed
qed

section \<open>A whole exchange\<close>

lemma Send_ok:
  assumes "lock \<noteq> osEventTimeout" and "length (msg_data (msgTx c)) = 8" and "unat len \<le> 8" "unat len \<le> length data"
    and "bus = 1 \<or> bus = 2"
  shows "\<exists>m' c'. Send lock ret bus ident data len c = Some ([(bus, m')], ret, c') \<and> msg_id m' = ident \<and> msg_len m' = len \<and>
     take (unat len) (msg_data m') = take (unat len) data \<and> length (msg_data (msgTx c')) = 8 \<and>
     idCbTable c' = idCbTable c \<and> nCurrentCbs c' = nCurrentCbs c"
proof -
  let ?d = "take (unat len) data @ drop (unat len) (msg_data (msgTx c))"
  define k where "k = unat len"
  have u: "uint len = int k" by (simp add: k_def)
  have "rd_bytes data 0 (int k) = Some (take k data)" using assms(4) [folded k_def] by (simp add: rd_bytes_def)
  then have "memcpy (msg_data (msgTx c)) 0 data 0 (uint len) = Some ?d"
    unfolding u using memcpy_append [of data 0 k "take k data" "msg_data (msgTx c)" "[]"] assms(2,3) by (simp add: k_def)
  then show ?thesis using assms by (auto simp: Send_def)
qed

lemma x_Send_ok:
  assumes "lock \<noteq> osEventTimeout" and "length (msg_data (msgTx (x_itf x))) = 8" and "unat len \<le> 8" "unat len \<le> length data"
    and "bus = 1 \<or> bus = 2"
  shows "\<exists>m' c'. x_Send lock bus ident data len x = Some (x\<lparr>x_itf := c', x_sent := x_sent x @ [(bus, m')]\<rparr>) \<and>
     msg_id m' = ident \<and> msg_len m' = len \<and> take (unat len) (msg_data m') = take (unat len) data \<and>
     length (msg_data (msgTx c')) = 8 \<and> idCbTable c' = idCbTable (x_itf x) \<and> nCurrentCbs c' = nCurrentCbs (x_itf x)"
proof -
  obtain m' c' where "Send lock 0 bus ident data len (x_itf x) = Some ([(bus, m')], 0, c')" "msg_id m' = ident" "msg_len m' = len"
    "take (unat len) (msg_data m') = take (unat len) data" "length (msg_data (msgTx c')) = 8"
    "idCbTable c' = idCbTable (x_itf x)" "nCurrentCbs c' = nCurrentCbs (x_itf x)"
    using Send_ok [OF assms, of 0 ident] by blast
  then show ?thesis by (intro exI [of _ m'] exI [of _ c']) (simp add: x_Send_def)
qed

lemma cbs_cong: "idCbTable c' = idCbTable c \<Longrightarrow> nCurrentCbs c' = nCurrentCbs c \<Longrightarrow> cbs c' = cbs c \<and> tbl_ok c' = tbl_ok c"
  by (simp add: cbs_def cb_entry_def cb_bus_def cb_id_def cb_cb_def tbl_ok_def)

lemma FlushQueue_stale: "FlushQueue (map Q_msg old @ Q_timeout # es) = es"
  by (induction old) simp_all

text \<open>A command of the calculator that can be sent: it is found, and it is short enough.\<close>

definition has_cmd :: "u16 \<Rightarrow> CANDiagCalculator \<Rightarrow> nat \<Rightarrow> u8 \<Rightarrow> bool" where
  "has_cmd ty cal p sz \<longleftrightarrow> FirstCommand ty cal = Some (Some p) \<and> cmd_at (cmdStorage cal) p = Some (ty, sz) \<and>
     unat sz \<le> 8 \<and> unat sz \<le> length (cmd_data (cmdStorage cal) p)"

lemma has_cmdI:
  assumes "cmds_at (cmdStorage cal) 0 cs" and "cmd cal = Some 0" and "ty \<noteq> CMD_END" and "(ty, i, d) \<in> set cs"
  shows "\<exists>p sz. has_cmd ty cal p sz"
proof -
  obtain p where p: "find_cmd ty 0 cs = Some p" using assms(4) find_cmd_None [of ty 0 cs] by fastforce
  have "cs \<noteq> []" using assms(4) by auto
  then have f: "FirstCommand ty cal = Some (Some p)" using FirstCommand_spec [OF assms(1) _ assms(3,2)] p by simp
  obtain us j e vs where "cmds_at (cmdStorage cal) p ((ty, j, e) # vs)" using find_cmd_split [OF assms(1) p] by blast
  then have e: "length e \<le> 8" "cmd_at (cmdStorage cal) p = Some (ty, of_nat (length e))"
    "take (length e) (cmd_data (cmdStorage cal) p) = e" by auto
  then have "length e \<le> length (cmd_data (cmdStorage cal) p)" by (metis length_take min.cobounded1)
  then show ?thesis using f e unat_len8 [of e] unfolding has_cmd_def by auto
qed

lemma rcv_idle_first:
  assumes ack: "has_cmd CMD_ACK cal p sz" and tx: "lock \<noteq> osEventTimeout" "length (msg_data (msgTx (x_itf x))) = 8" "bus = 1 \<or> bus = 2"
    and r: "7 < length r" "length r < 256" "hd r = of_nat (length r - 1)" and B: "response x = B" "length r - 1 \<le> length B"
    and d: "msg_data m = pci 0 # seg r 0 @ pad"
  shows "\<exists>x' a. rcv_idle lock bus cal m x = Some (False, x') \<and> got r B 6 x' \<and> x_state x' = EXT_CMD \<and> x_sent x' = x_sent x @ [(bus, a)] \<and>
     msg_id a = GetAddrSrc cal \<and> idCbTable (x_itf x') = idCbTable (x_itf x) \<and> nCurrentCbs (x_itf x') = nCurrentCbs (x_itf x)"
proof -
  let ?x = "x\<lparr>respLen := of_nat (length r - 1), response := take 6 (tl r) @ drop 6 B, currLen := 6\<rparr>"
  obtain a rs where rr: "r = a # rs" using r(1) by (cases r) auto
  have dd: "msg_data m ! 0 = 0x10" "msg_data m ! 1 = of_nat (length r - 1)" "drop 2 (msg_data m) = take 6 rs @ pad"
    using r(3) rr unfolding d by (simp_all add: pci_def seg_def numeral_eq_Suc)
  have "rd_bytes (msg_data m) 2 6 = Some (take 6 (tl r))"
  proof -
    have "length (msg_data m) - 2 = 6 + length pad" using arg_cong [OF dd(3), of length] r(1) rr by simp
    then have "8 \<le> length (msg_data m)" by simp
    then show ?thesis using dd(3) r(1) rr by (simp add: rd_bytes_def)
  qed
  then have mc: "memcpy B 0 (msg_data m) 2 6 = Some (take 6 (tl r) @ drop 6 B)"
    using memcpy_append [of "msg_data m" 2 6 "take 6 (tl r)" B "[]"] B(2) r(1) by simp
  obtain a c' where s: "x_Send lock bus (GetAddrSrc cal) (cmd_data (cmdStorage cal) p) sz ?x =
      Some (?x\<lparr>x_itf := c', x_sent := x_sent ?x @ [(bus, a)]\<rparr>)" "msg_id a = GetAddrSrc cal"
    "idCbTable c' = idCbTable (x_itf ?x)" "nCurrentCbs c' = nCurrentCbs (x_itf ?x)"
    using x_Send_ok [of lock ?x sz "cmd_data (cmdStorage cal) p" bus "GetAddrSrc cal"] tx ack by (auto simp: has_cmd_def)
  have "rcv_idle lock bus cal m x = Some (False, ?x\<lparr>x_itf := c', x_sent := x_sent ?x @ [(bus, a)], x_state := EXT_CMD\<rparr>)"
    using dd mc s(1) ack B(1) unfolding rcv_idle_def by (simp add: Let_def has_cmd_def)
  then show ?thesis using s(2-4) unfolding got_def by auto
qed

lemma ExecuteCommand6A_long:
  assumes tbl: "tbl_ok c" "nCurrentCbs c \<noteq> CAN_SIMULTANEOUS_CBS" "lock \<noteq> osEventTimeout"
      "\<forall>(b, i, _)\<in>set (cbs c). \<not> (b = com_bus m \<and> i = GetAddrDst cal)"
    and tx: "length (msg_data (msgTx c)) = 8" "com_bus m = 1 \<or> com_bus m = 2" "unat len \<le> 8" "unat len \<le> length data" "msTmo \<noteq> 0"
    and cal: "com_calc m = Some cal" "has_cmd CMD_ACK cal p sz"
    and r: "7 < length r" "length r < 256" "hd r = of_nat (length r - 1)" "length r - 1 \<le> length B"
    and fr: "\<And>j. 7 * j < length r \<Longrightarrow> \<exists>payload l. length payload = 8 \<and>
      FormatResponse r (of_nat (length r)) payload (of_nat j) = Some (msg_data (fr j), l)"
  shows "\<exists>x m'. ExecuteCommand6A lock self data len (Some B) (Some l0) msTmo
      (map Q_msg old @ Q_timeout # map (\<lambda>j. Q_msg (fr j)) [0..<(length r + 6) div 7] @ rest) m c = Some (x, m') \<and>
     response x = tl r @ drop (length r - 1) B \<and> respLen x = of_nat (length r - 1) \<and> cbs (x_itf x) = cbs c \<and>
     map (msg_id \<circ> snd) (x_sent x) = [GetAddrSrc cal, GetAddrSrc cal] \<and> com_state m' = IDLE"
proof -
  let ?K = "(length r + 6) div 7" and ?b = "com_bus m" and ?x0 = "\<lparr>x_itf = c, x_sent = [], response = B, respLen = 0, currLen = 0, x_state = IDLE\<rparr>"
  have K: "7 * ?K < length r + 7" "length r \<le> 7 * ?K" "0 < ?K" using r(1) by presburger+
  have parts: "\<exists>pad. msg_data (fr j) = pci j # seg r j @ pad" if "j < ?K" for j
  proof -
    have j: "7 * j < length r" using that K(1) by linarith
    obtain payload l where f: "length payload = 8" "FormatResponse r (of_nat (length r)) payload (of_nat j) = Some (msg_data (fr j), l)"
      using fr [OF j] by blast
    have "msg_data (fr j) = pci j # seg r j @ drop (length (seg r j) + 1) payload"
      using trans [OF FormatResponse_long [OF r(1,2) j f(1), symmetric] f(2)] by simp
    then show ?thesis by blast
  qed
  obtain c1 where c1: "AddCallBackForId lock ?b (GetAddrDst cal) self c = Some c1" "tbl_ok c1"
      "cbs c1 = cbs c @ [(?b, GetAddrDst cal, self)]" "msgTx c1 = msgTx c"
    using AddCallBackForId_spec [OF tbl(1-3)] by fastforce
  let ?x1 = "?x0\<lparr>x_itf := c1\<rparr>"
  obtain a2 c2 where s2: "x_Send lock ?b (GetAddrSrc cal) data len ?x1 = Some (?x1\<lparr>x_itf := c2, x_sent := [(?b, a2)]\<rparr>)"
      "msg_id a2 = GetAddrSrc cal" "length (msg_data (msgTx c2)) = 8" "idCbTable c2 = idCbTable c1" "nCurrentCbs c2 = nCurrentCbs c1"
    using x_Send_ok [of lock ?x1 len data ?b "GetAddrSrc cal"] tbl(3) tx c1(4) by auto
  let ?x2 = "?x1\<lparr>x_itf := c2, x_sent := [(?b, a2)]\<rparr>"
  obtain pad0 where p0: "msg_data (fr 0) = pci 0 # seg r 0 @ pad0" using parts [OF K(3)] by blast
  obtain x3 a3 where x3: "rcv_idle lock ?b cal (fr 0) ?x2 = Some (False, x3)" "got r B 6 x3" "x_state x3 = EXT_CMD"
      "x_sent x3 = x_sent ?x2 @ [(?b, a3)]" "msg_id a3 = GetAddrSrc cal" "idCbTable (x_itf x3) = idCbTable c2" "nCurrentCbs (x_itf x3) = nCurrentCbs c2"
    using rcv_idle_first [OF cal(2) tbl(3), of ?x2 ?b r B "fr 0" pad0] s2(3) tx(2) r p0 by auto
  obtain x4 where x4: "rcv_loop lock ?b cal (map (\<lambda>j. Q_msg (fr j)) [1..<?K] @ rest) x3 = Some x4" "got r B (length r - 1) x4"
      "x_itf x4 = x_itf x3" "x_sent x4 = x_sent x3" "x_state x4 = IDLE"
    using rcv_loop_ext [of r B 1 x3 ?K fr lock ?b cal rest] x3(2,3) r K parts by auto
  have loop: "rcv_loop lock ?b cal (map (\<lambda>j. Q_msg (fr j)) [0..<?K] @ rest) ?x2 = Some x4"
    using x3(1) x4(1) K(3) by (simp add: upt_conv_Cons)
  have t4: "tbl_ok (x_itf x4)" "cbs (x_itf x4) = cbs c @ [(?b, GetAddrDst cal, self)]"
    using cbs_cong [of "x_itf x4" c1] x4(3) x3(6,7) s2(4,5) c1(2,3) by simp_all
  obtain c5 where c5: "DelCallBackForId lock ?b (GetAddrDst cal) (x_itf x4) = Some c5" "cbs c5 = cbs c"
    using DelCallBackForId_last [OF t4 tbl(4,3)] by blast
  have "?b \<noteq> 0" using tx(2) by auto
  then have "ExecuteCommand6A lock self data len (Some B) (Some l0) msTmo
      (map Q_msg old @ Q_timeout # map (\<lambda>j. Q_msg (fr j)) [0..<?K] @ rest) m c = Some (x4\<lparr>x_itf := c5\<rparr>, m\<lparr>com_state := IDLE\<rparr>)"
    using c1(1) s2(1) loop c5(1) cal(1) tx(5) x4(5) by (simp add: ExecuteCommand6A_def FlushQueue_stale Let_def)
  moreover have "response x4 = tl r @ drop (length r - 1) B" "respLen x4 = of_nat (length r - 1)" using x4(2) by (simp_all add: got_def)
  ultimately show ?thesis using c5(2) x4(4) x3(4,5) s2(2) by auto
qed

text \<open>A first part that announces fewer than six bytes makes the length of the second copy wrap around.\<close>

lemma rcv_ext_wraps:
  assumes "uint (respLen x) < 6" and "currLen x = 6" and "msg_data m ! 0 AND 0xf0 = 0x20" and "length (msg_data m) = 8"
  shows "rcv_ext m x = None"
proof -
  have "uint (respLen x - 6) = uint (respLen x) - 6 + 256"
    using assms(1) by (simp add: uint_sub_if_size word_size)
  then have "250 \<le> uint (respLen x - 6)" using uint_bounded [of "respLen x"] uint_ge_0 [of "respLen x"] by linarith
  then have "rd_bytes (msg_data m) 1 (uint (respLen x - 6)) = None" using assms(4) by (simp add: rd_bytes_def)
  then show ?thesis using assms(1-3) by (simp add: rcv_ext_def memcpy_def Let_def)
qed

text \<open>The simulated calculator and its buffer of seven bytes.\<close>

lemma sim_event_long:
  assumes "ID AND 0x0f = CAN_CALLBACK" and p: "length payload = 7" and "length (sim_response s) = 32" and "sim_state s = IDLE"
    and d: "length (msg_data m) = 8" "msg_data m ! 0 = 2"
    and k: "(msg_data m ! 1, msg_data m ! 2) \<in> {(0x10, 0xC0), (0x21, 0xB0), (0x21, 0xC0), (0x21, 0xCB), (0x21, 0xC2), (0x21, 0xC9)}"
  shows "sim_event lock payload ID m bus cal s c = None"
proof -
  let ?p = "msg_data m ! 1 # msg_data m ! 2 # drop 2 payload"
  have "take 2 (drop 1 (msg_data m)) = [msg_data m ! 1, msg_data m ! 2]"
    using d(1) by (simp add: take_Suc_conv_app_nth numeral_2_eq_2)
  then have "rd_bytes (msg_data m) 1 (int 2) = Some [msg_data m ! 1, msg_data m ! 2]" using d(1) by (simp add: rd_bytes_def)
  then have mc: "memcpy payload 0 (msg_data m) 1 2 = Some ?p" using memcpy_append [of "msg_data m" 1 2 _ payload "[]"] p by simp
  obtain r where r: "RequestDB ?p 2 (sim_response s) = Some (LONG_RESP, r, 26)"
    using k assms(3) by (auto simp: RequestDB_def memcpy_def rd_bytes_def wr_bytes_def db_text_def)
  have "FormatResponse r 26 ?p 0 = None"
    using p by (auto simp: FormatResponse_def wr_bytes_def memcpy_def rd_bytes_def bind_eq_None_conv split: if_splits)
  then show ?thesis using assms(1,4) d k mc r by (simp add: sim_event_def Let_def LONG_RESP_def NO_RESP_def)
qed

end
