(* ===== verification/Can_Props.thy ===== *)
theory Can_Props
  imports Can_Comm Cmsis_Sync Demo
begin

text \<open>
  Properties of the CAN components.
\<close>

section \<open>The interface\<close>

text \<open>Entries of the table: those that get every message, and those that listen for an identifier.\<close>

definition promiscuous :: "u8 \<times> u32 \<times> u32 \<Rightarrow> bool" where
  "promiscuous e \<longleftrightarrow> fst (snd e) = CAN_ID_PROMISCUOUS_MODE"

definition listens :: "u8 \<Rightarrow> u32 \<Rightarrow> u8 \<times> u32 \<times> u32 \<Rightarrow> bool" where
  "listens bus ident e \<longleftrightarrow> (sint (fst e) = uint bus \<or> fst e = 0xff) \<and> fst (snd e) = ident"

lemma dispatch_loop_eq:
  "dispatch_loop k i bus m c =
     (let es = map (cb_entry c) [i..<i + k]; here = takeWhile (\<lambda>e. \<not> listens bus (msg_id m) e) es in
      map (\<lambda>e. (snd (snd e), CAN_CALLBACK OR push_bit 8 (uint bus)))
        (filter promiscuous here @ (case dropWhile (\<lambda>e. \<not> listens bus (msg_id m) e) es of
           [] \<Rightarrow> [] | e # _ \<Rightarrow> (if promiscuous e then [e, e] else [e]))))"
proof (induction k arbitrary: i)
  case (Suc k)
  have b: "sint b = CAN_BUS_DONT_CARE \<longleftrightarrow> b = 0xff" for b :: u8
  proof -
    have "sint b = sint (0xff :: u8) \<longleftrightarrow> b = 0xff" by (rule signed_word_eqI [THEN iffI, OF _] iffI | simp)+
    moreover have "sint (0xff :: u8) = - 1" by simp
    ultimately show ?thesis by (simp add: CAN_BUS_DONT_CARE_def)
  qed
  have "[i..<i + Suc k] = i # [i + 1..<i + 1 + k]" by (simp add: upt_conv_Cons)
  then show ?case
    using Suc.IH [of "i + 1"] by (simp add: Let_def b listens_def promiscuous_def cb_entry_def)
qed simp

lemma dispatch_eq:
  "DispatchCANMessage bus m c =
     map (\<lambda>e. (snd (snd e), CAN_CALLBACK OR push_bit 8 (uint bus)))
       (filter promiscuous (takeWhile (\<lambda>e. \<not> listens bus (msg_id m) e) (cbs c)) @
        (case dropWhile (\<lambda>e. \<not> listens bus (msg_id m) e) (cbs c) of
           [] \<Rightarrow> [] | e # _ \<Rightarrow> (if promiscuous e then [e, e] else [e])))"
  unfolding DispatchCANMessage_def dispatch_loop_eq cbs_def by (simp add: Let_def)

text \<open>C29. Who gets a received message: the promiscuous callbacks in front of the first entry that matches
  bus and identifier, then that entry; the entries behind it, promiscuous ones included, get nothing.\<close>

theorem dispatch_reference:
  "DispatchCANMessage bus m c =
     map (\<lambda>e. (snd (snd e), CAN_CALLBACK OR push_bit 8 (uint bus)))
       (filter promiscuous (takeWhile (\<lambda>e. \<not> listens bus (msg_id m) e) (cbs c)) @
        (case dropWhile (\<lambda>e. \<not> listens bus (msg_id m) e) (cbs c) of
           [] \<Rightarrow> [] | e # _ \<Rightarrow> (if promiscuous e then [e, e] else [e])))"
  by (rule dispatch_eq)

text \<open>A callback that is added and removed again before any other change leaves the table as it was; this
  is how the communicators use it for one exchange.\<close>

lemma callback_add_del:
  assumes "tbl_ok c" and "nCurrentCbs c \<noteq> CAN_SIMULTANEOUS_CBS" and "lock \<noteq> osEventTimeout"
    and "\<forall>(b, i, _)\<in>set (cbs c). \<not> (b = bus \<and> i = ident)"
  shows "\<exists>c1 c2. AddCallBackForId lock bus ident cb c = Some c1 \<and> cbs c1 = cbs c @ [(bus, ident, cb)] \<and>
     DelCallBackForId lock bus ident c1 = Some c2 \<and> cbs c2 = cbs c \<and> tbl_ok c2"
proof -
  obtain c1 where c1: "AddCallBackForId lock bus ident cb c = Some c1" "tbl_ok c1" "cbs c1 = cbs c @ [(bus, ident, cb)]"
    using AddCallBackForId_spec [OF assms(1-3)] by blast
  then show ?thesis using DelCallBackForId_last [OF c1(2,3) assms(4,3)] by blast
qed

lemma demo_tbl: "tbl_ok (CANInterface_new (replicate 120 0) False 3 8 6 14)" "cbs (CANInterface_new (replicate 120 0) False 3 8 6 14) = []"
  by (simp_all add: tbl_ok_def CANInterface_new_def cbs_def)

lemma callback_add_del_example:
  "\<exists>c1 c2. AddCallBackForId osOK 1 0x7a8 64 (CANInterface_new (replicate 120 0) False 3 8 6 14) = Some c1 \<and>
     cbs c1 = [(1, 0x7a8, 64)] \<and> DelCallBackForId osOK 1 0x7a8 c1 = Some c2 \<and> cbs c2 = [] \<and> tbl_ok c2"
  using callback_add_del [of "CANInterface_new (replicate 120 0) False 3 8 6 14" osOK 1 "0x7a8" 64] demo_tbl
  by (simp add: CANInterface_new_def CAN_SIMULTANEOUS_CBS_def osOK_def osEventTimeout_def)

text \<open>C30. The removal of the first of two callbacks copies one byte instead of one entry. The callback that
  was to be removed stays and the other one is lost: its messages go nowhere, and those of the
  removed one are still delivered.\<close>

theorem callback_del_first:
  assumes "tbl_ok c" and "cbs c = [(b, i1, cb1), (b, i2, cb2)]" and "lock \<noteq> osEventTimeout"
    and "b = 1 \<or> b = 2" and "i1 \<noteq> CAN_ID_PROMISCUOUS_MODE" and "i1 \<noteq> i2"
  shows "\<exists>c'. DelCallBackForId lock b i1 c = Some c' \<and>
     DispatchCANMessage b (CANMessage_new\<lparr>msg_id := i2\<rparr>) c' = [] \<and>
     map fst (DispatchCANMessage b (CANMessage_new\<lparr>msg_id := i1\<rparr>) c') = [cb1]"
proof -
  obtain c' where c': "DelCallBackForId lock b i1 c = Some c'" "cbs c' = [(b, i1, cb1)]"
    using DelCallBackForId_first [OF assms(1-3)] by blast
  have "sint b = uint b" using assms(4) by auto
  then show ?thesis using c' assms(5,6) by (auto simp: dispatch_eq listens_def promiscuous_def)
qed

theorem callback_del_first_witness:
  "\<exists>c1 c2 c3. AddCallBackForId osOK 1 0x7a8 64 (CANInterface_new (replicate 120 0) False 3 8 6 14) = Some c1 \<and>
     AddCallBackForId osOK 1 0x7a9 80 c1 = Some c2 \<and> DelCallBackForId osOK 1 0x7a8 c2 = Some c3 \<and>
     DispatchCANMessage 1 (CANMessage_new\<lparr>msg_id := 0x7a9\<rparr>) c3 = []"
proof -
  have l: "osOK \<noteq> osEventTimeout" by (simp add: osOK_def osEventTimeout_def)
  have n0: "nCurrentCbs (CANInterface_new (replicate 120 0) False 3 8 6 14) \<noteq> CAN_SIMULTANEOUS_CBS"
    by (simp add: CANInterface_new_def CAN_SIMULTANEOUS_CBS_def)
  obtain c1 where c1: "AddCallBackForId osOK 1 0x7a8 64 (CANInterface_new (replicate 120 0) False 3 8 6 14) = Some c1"
    "tbl_ok c1" "cbs c1 = [(1, 0x7a8, 64)]"
    using AddCallBackForId_spec [OF demo_tbl(1) n0 l] demo_tbl(2) by fastforce
  have "unat (nCurrentCbs c1) = 1" using arg_cong [OF c1(3), of length] by simp
  then have n1: "nCurrentCbs c1 \<noteq> CAN_SIMULTANEOUS_CBS" by (auto simp: CAN_SIMULTANEOUS_CBS_def)
  obtain c2 where c2: "AddCallBackForId osOK 1 0x7a9 80 c1 = Some c2" "tbl_ok c2" "cbs c2 = [(1, 0x7a8, 64), (1, 0x7a9, 80)]"
    using AddCallBackForId_spec [OF c1(2) n1 l] c1(3) by fastforce
  then show ?thesis using callback_del_first [OF c2(2,3) l] c1(1) by (auto simp: CAN_ID_PROMISCUOUS_MODE_def)
qed

text \<open>The operations on the table and on the transmit buffer are guarded by the status of a mutex and a
  comparison with \<open>osEventTimeout\<close>, which no wait for a mutex ever returns: when the wait times out they go on
  exactly as if they held the mutex.\<close>

lemma mutex_timeout_unnoticed:
  assumes "svcMutexWait mutex 1000 s = Some (st, s')"
  shows "AddCallBackForId st bus ident cb c = AddCallBackForId osOK bus ident cb c \<and>
    DelCallBackForId st bus ident c = DelCallBackForId osOK bus ident c \<and>
    Send st ret bus ident data len c = Send osOK ret bus ident data len c"
proof -
  have "st \<noteq> osEventTimeout"
    using assms by (auto simp: svcMutexWait_def Let_def bind_eq_Some_conv osErrorParameter_def osErrorTimeoutResource_def
        osErrorResource_def osOK_def osEventTimeout_def split: if_splits)
  moreover have "osOK \<noteq> osEventTimeout" by (simp add: osOK_def osEventTimeout_def)
  ultimately show ?thesis by (simp add: AddCallBackForId_def DelCallBackForId_def Send_def)
qed

text \<open>Task 9 waits for the mutex that task 7 owns, for a second, and is blocked.\<close>

lemma mutex_timeout_unnoticed_example:
  "\<exists>s'. svcMutexWait (Obj 3) 1000 demo = Some (osErrorTimeoutResource, s') \<and>
     AddCallBackForId osErrorTimeoutResource 1 0x7a8 64 (CANInterface_new (replicate 120 0) False 3 8 6 14) =
     AddCallBackForId osOK 1 0x7a8 64 (CANInterface_new (replicate 120 0) False 3 8 6 14)"
proof -
  have o: "mut_owner demo (Obj 3) \<in> live demo_view" "mut_owner demo (Obj 3) \<noteq> cur demo_view"
    using demo_val(3) demo_live demo_run by simp_all
  have lv: "mut_level demo (Obj 3) \<noteq> 0" and t: "ucast (rt_ms2tick 1000) \<noteq> (0 :: u16)"
    using demo_val by (simp_all add: rt_ms2tick_def os_clockrate_def osWaitForever_def Let_def)
  obtain s' where w: "rt_mut_wait (Obj 3) (ucast (rt_ms2tick 1000)) demo = Some (OS_R_TMO, s')"
    using rt_mut_wait_block [OF demo_kabs demo_run(1,2) demo_type(4) lv o t] by blast
  then have "svcMutexWait (Obj 3) 1000 demo = Some (osErrorTimeoutResource, s')"
    using demo_type(4) by (simp add: svcMutexWait_def)
  then show ?thesis using mutex_timeout_unnoticed by blast
qed

section \<open>Descriptions of calculators\<close>

text \<open>C12. \<open>SetData\<close> on a header and a list of commands with an end mark accepts them, and then \<open>FirstCommand\<close> gives
  the first command of a type and \<open>NextCommand\<close> from there on each next one, with the number and the data that
  were encoded, until there is no more.\<close>

theorem diag_commands_found:
  assumes "length h = 20" "hd h = CAN_DIAG_HDR_TYPE" "fld16 h 18 = of_nat (length (enc_cmds cs))"
    and "length (calc c) = 20" "length (cmdStorage c) = 256" "length (enc_cmds cs) < 256"
    and "\<forall>(t, i, d)\<in>set cs. t \<noteq> CMD_END \<and> length d \<le> 8" and "cs \<noteq> []" and "ty \<noteq> CMD_END"
  shows "\<exists>c'. SetData (Some (h @ enc_cmds cs)) c = Some (20 + int (length (enc_cmds cs)), c') \<and> Ready c' \<and>
     commands_of ty c' = Some (map snd (filter (\<lambda>u. fst u = ty) cs))"
proof -
  obtain c' where c': "SetData (Some (h @ enc_cmds cs)) c = Some (20 + int (length (enc_cmds cs)), c')" "Ready c'"
    "cmd c' = Some 0" "cmds_at (cmdStorage c') 0 cs" using SetData_spec [OF assms(1-7), of "[]"] by auto
  then show ?thesis using commands_of_spec [OF c'(4) assms(8,9) c'(3)] by blast
qed

theorem diag_commands_found_witness:
  "\<exists>c'. SetData (Some ((1 # replicate 17 0 @ [18, 0]) @ enc_cmds [(CMD_ACK, 9, [48, 0, 10, 0])]))
      \<lparr>dataPresence = False, dataValidity = False, calc = replicate 20 0, cmd = None, cmdStorage = replicate 256 0\<rparr> = Some (38, c') \<and>
     Ready c' \<and> commands_of CMD_ACK c' = Some [(9, [48, 0, 10, 0])]"
proof -
  let ?c = "\<lparr>dataPresence = False, dataValidity = False, calc = replicate 20 0, cmd = None, cmdStorage = replicate 256 0\<rparr>"
  let ?cs = "[(CMD_ACK, 9, [48, 0, 10, 0])]" and ?h = "1 # replicate 17 0 @ [18, 0] :: bytes"
  have l: "length (enc_cmds ?cs) = 18" by (simp add: enc_cmds_def enc_cmd_def)
  have "drop 18 ?h = [18, 0]" by (simp add: drop_Cons')
  then have "fld16 ?h 18 = of_nat (length (enc_cmds ?cs))" unfolding l by (simp add: fld16_def)
  then show ?thesis
    using diag_commands_found [of ?h ?cs ?c CMD_ACK] l by (simp add: CAN_DIAG_HDR_TYPE_def CMD_ACK_def CMD_END_def)
qed

section \<open>Exchanges\<close>

text \<open>C9. Parts of a long response as the simulated calculator formats them, in order and behind whatever was in the
  queue before: \<open>ExecuteCommand\<close> acknowledges the first, puts the response together without its
  length byte, leaves the rest of the caller's buffer alone, and takes its callback out of the table again.\<close>

theorem exec6A_reassembles:
  assumes "tbl_ok c" and "nCurrentCbs c \<noteq> CAN_SIMULTANEOUS_CBS" and "lock \<noteq> osEventTimeout"
    and "\<forall>(b, i, _)\<in>set (cbs c). \<not> (b = com_bus m \<and> i = GetAddrDst cal)"
    and "length (msg_data (msgTx c)) = 8" and "com_bus m = 1 \<or> com_bus m = 2" and "unat len \<le> 8" and "unat len \<le> length data" and "msTmo \<noteq> 0"
    and "com_calc m = Some cal" and "has_cmd CMD_ACK cal p sz"
    and "7 < length r" and "length r < 256" and "hd r = of_nat (length r - 1)" and "length r - 1 \<le> length B"
    and "\<And>j. 7 * j < length r \<Longrightarrow> \<exists>payload l. length payload = 8 \<and>
      FormatResponse r (of_nat (length r)) payload (of_nat j) = Some (msg_data (fr j), l)"
  shows "\<exists>x m'. ExecuteCommand6A lock self data len (Some B) (Some l0) msTmo
      (map Q_msg old @ Q_timeout # map (\<lambda>j. Q_msg (fr j)) [0..<(length r + 6) div 7] @ rest) m c = Some (x, m') \<and>
     response x = tl r @ drop (length r - 1) B \<and> respLen x = of_nat (length r - 1) \<and> cbs (x_itf x) = cbs c \<and>
     map (msg_id \<circ> snd) (x_sent x) = [GetAddrSrc cal, GetAddrSrc cal] \<and> com_state m' = IDLE"
  by (rule ExecuteCommand6A_long [OF assms])

definition demo_cal :: CANDiagCalculator where
  "demo_cal = \<lparr>dataPresence = True, dataValidity = True, calc = replicate 20 0, cmd = Some 0,
     cmdStorage = enc_cmds [(CMD_ACK, 9, [48, 0, 10, 0])] @ replicate 200 0\<rparr>"

lemma demo_cal_ack: "\<exists>p sz. has_cmd CMD_ACK demo_cal p sz"
proof (rule has_cmdI)
  show "cmds_at (cmdStorage demo_cal) 0 [(CMD_ACK, 9, [48, 0, 10, 0])]"
    by (rule cmds_at_enc [where rest = "replicate 200 0"]) (simp_all add: demo_cal_def CMD_ACK_def CMD_END_def)
qed (simp_all add: demo_cal_def CMD_ACK_def CMD_END_def)

definition demo_part :: "nat \<Rightarrow> CANMessage" where
  "demo_part j = CANMessage_new\<lparr>msg_data := pci j # seg [8, 1, 2, 3, 4, 5, 6, 7, 8] j @
     drop (length (seg [8, 1, 2, 3, 4, 5, 6, 7, 8] j) + 1) (replicate 8 0)\<rparr>"

theorem exec6A_reassembles_witness:
  "\<exists>x m'. ExecuteCommand6A osOK 64 [2, 33, 176] 3 (Some (replicate 32 0)) (Some 0) 100
      [Q_msg CANMessage_new, Q_timeout, Q_msg (demo_part 0), Q_msg (demo_part 1)]
      \<lparr>com_bus = 1, com_calc = Some demo_cal, com_state = IDLE\<rparr> (CANInterface_new (replicate 120 0) False 3 8 6 14) = Some (x, m') \<and>
     response x = [1, 2, 3, 4, 5, 6, 7, 8] @ replicate 24 0 \<and> respLen x = 8"
proof -
  let ?r = "[8, 1, 2, 3, 4, 5, 6, 7, 8] :: bytes" and ?c = "CANInterface_new (replicate 120 0) False 3 8 6 14"
  let ?m = "\<lparr>com_bus = 1, com_calc = Some demo_cal, com_state = IDLE\<rparr>"
  obtain p sz where ack: "has_cmd CMD_ACK demo_cal p sz" using demo_cal_ack by blast
  have fr: "\<exists>payload l. length payload = 8 \<and> FormatResponse ?r (of_nat (length ?r)) payload (of_nat j) = Some (msg_data (demo_part j), l)"
    if "7 * j < length ?r" for j
    using FormatResponse_long [of ?r j "replicate 8 0"] that by (intro exI [of _ "replicate 8 0"]) (simp add: demo_part_def)
  have "(length ?r + 6) div 7 = 2" by simp
  moreover have "[0..<2] = [0, 1 :: nat]" by (simp add: numeral_2_eq_2)
  ultimately show ?thesis
    using exec6A_reassembles [of ?c osOK ?m demo_cal 3 "[2, 33, 176]" 100 p sz ?r "replicate 32 0" demo_part 64 0 "[CANMessage_new]" "[]"] demo_tbl ack fr
    by (auto simp: CANInterface_new_def CAN_SIMULTANEOUS_CBS_def osOK_def osEventTimeout_def CANMessage_new_def)
qed

text \<open>The simulated calculator formats the first part of a long response, eight bytes, into a buffer of seven: the answer
  to every command it knows overruns its stack.\<close>

lemma sim_event_overruns:
  assumes "ID AND 0x0f = CAN_CALLBACK" and "length payload = 7" and "length (sim_response s) = 32" and "sim_state s = IDLE"
    and "length (msg_data m) = 8" and "msg_data m ! 0 = 2"
    and "(msg_data m ! 1, msg_data m ! 2) \<in> {(0x10, 0xC0), (0x21, 0xB0), (0x21, 0xC0), (0x21, 0xCB), (0x21, 0xC2), (0x21, 0xC9)}"
  shows "sim_event lock payload ID m bus cal s c = None"
  by (rule sim_event_long [OF assms])

lemma sim_event_overruns_example:
  "sim_event osOK (replicate 7 0) 0x101 (CANMessage_new\<lparr>msg_data := [2, 0x21, 0xB0, 0, 0, 0, 0, 0]\<rparr>) 1 demo_cal
     \<lparr>sim_state = IDLE, iteration = 0, sim_response = replicate 32 0, rLen = 0\<rparr> (CANInterface_new (replicate 120 0) False 3 8 6 14) = None"
  by (rule sim_event_overruns) (simp_all add: CAN_CALLBACK_def)

end
