(* ===== verification/Sensor.thy ===== *)
theory Sensor
  imports Com_Handler
begin

text \<open>
  Sensors (\<open>MyThings/MySensor.cpp\<close>): the results of a sensor, their capture, the list of sensors, and the
  turn of the main loop (\<open>main.cpp\<close>) that captures every sensor and hands the bytes to the \<open>ComHandler\<close>.
\<close>

section \<open>Results\<close>

text \<open>The results structure; \<open>start\<close> is the memory the pointer of that name points to, \<open>None\<close> for a null pointer, and
  \<open>current\<close> the distance of the pointer of that name from it.\<close>

record dataResult =
  res_start :: "bytes option"
  res_current :: int
  res_num :: u16
  res_max :: u16
  res_dynamic :: bool

text \<open>\<open>InitResults\<close>: \<open>store\<close> is the array that \<open>InitResultsStatic\<close> of the sensor installs, \<open>mem\<close> what the
  library's \<open>malloc\<close> returns.\<close>

definition InitResultsStatic :: "bytes \<Rightarrow> dataResult \<Rightarrow> dataResult" where
  "InitResultsStatic store r = r\<lparr>res_start := Some store, res_current := 0, res_max := word_of_int (int (length store))\<rparr>"

definition InitResults :: "bytes \<Rightarrow> bytes option \<Rightarrow> int \<Rightarrow> dataResult \<Rightarrow> dataResult" where
  "InitResults store mem sz r =
     (let r = (if sz = - 1 then InitResultsStatic store r
               else r\<lparr>res_dynamic := True, res_start := mem, res_current := 0, res_max := word_of_int sz\<rparr>)
      in r\<lparr>res_num := 0\<rparr>)"

definition ReleaseResults :: "dataResult \<Rightarrow> dataResult" where
  "ReleaseResults r =
     (if res_dynamic r \<and> res_start r \<noteq> None then r\<lparr>res_start := None, res_current := 0, res_max := 0\<rparr> else r)"

text \<open>\<open>Capture(data, len)\<close>: \<open>free\<close> is the outcome of \<open>trylock\<close>. The last statement, \<open>len = 0\<close>, assigns the parameter,
  a pointer, and not what it points to.\<close>

definition Capture :: "bool \<Rightarrow> bytes \<Rightarrow> u16 \<Rightarrow> dataResult \<Rightarrow> (bytes \<times> u16 \<times> dataResult) option" where
  "Capture free buf len r =
     (case res_start r of
        Some b \<Rightarrow>
          if free then do {
            buf \<leftarrow> memcpy buf 0 b 0 (uint (res_num r));
            let len = res_num r;
            Some (buf, len, r\<lparr>res_current := 0, res_num := 0\<rparr>)
          }
          else Some (buf, len, r)
      | None \<Rightarrow> Some (buf, len, r))"

section \<open>Lists of sensors\<close>

text \<open>The array of pointers; a pointer is an address. \<open>dynamic = dynamic\<close> in the constructor assigns the parameter to
  itself, so the member \<open>dyn\<close> has whatever value it had.\<close>

record MySensors =
  sensors :: "u32 list"
  num_sensors :: u8
  max_sensors :: u8
  dyn :: bool

definition MySensors_new :: "u32 list \<Rightarrow> u8 \<Rightarrow> bool \<Rightarrow> bool \<Rightarrow> MySensors" where
  "MySensors_new mem maxSensors dynamic old = \<lparr>sensors = mem, num_sensors = 0, max_sensors = maxSensors, dyn = old\<rparr>"

definition GetNSensors :: "MySensors \<Rightarrow> u8" where
  "GetNSensors l = num_sensors l"

definition GetMaxSensors :: "MySensors \<Rightarrow> u8" where
  "GetMaxSensors l = max_sensors l"

definition AddSensor :: "u32 \<Rightarrow> MySensors \<Rightarrow> (bool \<times> MySensors) option" where
  "AddSensor p l =
     (if uint (num_sensors l) + 1 \<le> uint (max_sensors l) then
        if unat (num_sensors l) < length (sensors l)
        then Some (True, l\<lparr>sensors := (sensors l)[unat (num_sensors l) := p], num_sensors := num_sensors l + 1\<rparr>)
        else None
      else Some (False, l))"

definition GetSensor :: "u8 \<Rightarrow> MySensors \<Rightarrow> u32" where
  "GetSensor i l = (if i < num_sensors l then sensors l ! unat i else 0)"

definition PopLastSensor :: "MySensors \<Rightarrow> u32 \<times> MySensors" where
  "PopLastSensor l =
     (if num_sensors l \<noteq> 0 then (sensors l ! (unat (num_sensors l) - 1), l\<lparr>num_sensors := num_sensors l - 1\<rparr>)
      else (0, l))"

text \<open>The sensors of a list, the last one last: adding and popping is a stack of at most \<open>max\<close> sensors.\<close>

definition sensors_ok :: "MySensors \<Rightarrow> bool" where
  "sensors_ok l \<longleftrightarrow> num_sensors l \<le> max_sensors l \<and> length (sensors l) = unat (max_sensors l)"

definition held :: "MySensors \<Rightarrow> u32 list" where
  "held l = take (unat (num_sensors l)) (sensors l)"

lemma unat_suc8: "(a :: u8) < b \<Longrightarrow> unat (a + 1) = unat a + 1"
  by unat_arith

lemma AddSensor_spec:
  assumes "sensors_ok l"
  shows "\<exists>l'. AddSensor p l = Some (length (held l) < unat (max_sensors l), l') \<and> sensors_ok l' \<and>
    held l' = (if length (held l) < unat (max_sensors l) then held l @ [p] else held l)"
proof -
  have n: "unat (num_sensors l) \<le> unat (max_sensors l)" using assms by (simp add: sensors_ok_def word_le_nat_alt)
  have h: "length (held l) = unat (num_sensors l)" using assms n by (simp add: held_def sensors_ok_def)
  have c: "uint (num_sensors l) + 1 \<le> uint (max_sensors l) \<longleftrightarrow> unat (num_sensors l) < unat (max_sensors l)"
    unfolding uint_nat by linarith
  show ?thesis
  proof (cases "unat (num_sensors l) < unat (max_sensors l)")
    case True
    then have u: "unat (num_sensors l + 1) = unat (num_sensors l) + 1" by (intro unat_suc8) (simp add: word_less_nat_alt)
    let ?l = "l\<lparr>sensors := (sensors l)[unat (num_sensors l) := p], num_sensors := num_sensors l + 1\<rparr>"
    have "held ?l = held l @ [p]" using True assms u by (simp add: held_def sensors_ok_def take_Suc_conv_app_nth)
    moreover have "sensors_ok ?l" using True assms u by (simp add: sensors_ok_def word_le_nat_alt)
    ultimately show ?thesis using True assms h c by (simp add: AddSensor_def sensors_ok_def)
  next
    case False
    then show ?thesis using assms h c by (simp add: AddSensor_def)
  qed
qed

lemma PopLastSensor_spec:
  assumes "sensors_ok l" and "held l = ps @ [p]"
  shows "\<exists>l'. PopLastSensor l = (p, l') \<and> sensors_ok l' \<and> held l' = ps"
proof -
  have n: "unat (num_sensors l) \<le> length (sensors l)" using assms by (simp add: sensors_ok_def word_le_nat_alt)
  have l: "unat (num_sensors l) = Suc (length ps)" using arg_cong [OF assms(2), of length] n by (simp add: held_def)
  then have nz: "num_sensors l \<noteq> 0" by auto
  then have u: "unat (num_sensors l - 1) = length ps" using l by (simp add: unat_minus_one)
  have "sensors l ! length ps = held l ! length ps" using l by (simp add: held_def)
  then have "sensors l ! (unat (num_sensors l) - 1) = p" using assms(2) l by simp
  moreover have "take (length ps) (held l) = take (length ps) (sensors l)" unfolding held_def l by simp
  then have "take (length ps) (sensors l) = ps" unfolding assms(2) by simp
  then have "held (l\<lparr>num_sensors := num_sensors l - 1\<rparr>) = ps" using u by (simp add: held_def)
  moreover have "sensors_ok (l\<lparr>num_sensors := num_sensors l - 1\<rparr>)" using assms(1) u l by (simp add: sensors_ok_def word_le_nat_alt)
  ultimately show ?thesis using nz by (simp add: PopLastSensor_def)
qed

section \<open>The turn of the main loop\<close>

text \<open>The loop of \<open>MainClass::run\<close> (configuration \<open>APP_CANONAIR\<close>) over a list of sensors: each is captured into the same buffer, and when \<open>len\<close> is not zero the bytes are
  added to the results under the type of the sensor. A sensor is its type and its results; \<open>free\<close> says whether its
  mutex could be taken. \<open>len\<close> lives outside of the loop.\<close>

fun capture_sensors :: "(u8 \<times> bool \<times> dataResult) list \<Rightarrow> bytes \<Rightarrow> u16 \<Rightarrow> ComHandler \<Rightarrow>
    (dataResult list \<times> bytes \<times> u16 \<times> ComHandler) option" where
  "capture_sensors [] buf len c = Some ([], buf, len, c)"
| "capture_sensors ((st, free, r) # ss) buf len c = do {
     (buf, len, r) \<leftarrow> Capture free buf len r;
     (_, c) \<leftarrow> (if len \<noteq> 0 then AddResults st buf len c else Some (True, c));
     (rs, buf, len, c) \<leftarrow> capture_sensors ss buf len c;
     Some (r # rs, buf, len, c)
   }"

text \<open>What a sensor has to say.\<close>

definition results :: "dataResult \<Rightarrow> bytes" where
  "results r = (case res_start r of Some b \<Rightarrow> take (unat (res_num r)) b | None \<Rightarrow> [])"

definition res_ok :: "dataResult \<Rightarrow> bool" where
  "res_ok r \<longleftrightarrow> (case res_start r of Some b \<Rightarrow> res_num r \<le> res_max r \<and> length b = unat (res_max r) \<and> res_current r = uint (res_num r)
     | None \<Rightarrow> False)"

lemma length_results: "res_ok r \<Longrightarrow> length (results r) = unat (res_num r)"
  by (auto simp: res_ok_def results_def word_le_nat_alt split: option.splits)

lemma Capture_spec:
  assumes ok: "res_ok r" and l: "length (results r) \<le> length buf"
  shows "\<exists>buf' r'. Capture True buf len r = Some (buf', res_num r, r') \<and> length buf' = length buf \<and>
     take (length (results r)) buf' = results r \<and> res_ok r' \<and> results r' = [] \<and> res_max r' = res_max r"
proof -
  obtain b where b: "res_start r = Some b" "unat (res_num r) \<le> length b"
    using ok by (auto simp: res_ok_def word_le_nat_alt split: option.splits)
  define m where "m = unat (res_num r)"
  have u: "uint (res_num r) = int m" by (simp add: m_def)
  have "m \<le> length b" "results r = take m b" using b by (simp_all add: m_def results_def)
  then have "rd_bytes b 0 (uint (res_num r)) = Some (results r)" unfolding rd_bytes_def u by simp
  moreover have "wr_bytes buf 0 (results r) = Some (results r @ drop (length (results r)) buf)" using l by (simp add: wr_bytes_def)
  ultimately have "memcpy buf 0 b 0 (uint (res_num r)) = Some (results r @ drop (length (results r)) buf)"
    by (simp add: memcpy_def)
  then show ?thesis using b l ok by (simp add: Capture_def res_ok_def results_def)
qed

lemma Capture_busy: "Capture False buf len r = Some (buf, len, r)"
  by (simp add: Capture_def split: option.splits)

text \<open>Adding results reads the buffer as far as they go.\<close>

lemma AddResults_take:
  assumes "unat len \<le> length buf"
  shows "AddResults st buf len c = AddResults st (take (unat len) buf) len c"
proof -
  define m where "m = unat len"
  have u: "uint len = int m" by (simp add: m_def)
  have "m \<le> length buf" using assms by (simp add: m_def)
  then have "memcpy b 3 buf 0 (uint len) = memcpy b 3 (take m buf) 0 (uint len)" for b
    unfolding memcpy_def rd_bytes_def u by simp
  then show ?thesis unfolding AddResults_def m_def by simp
qed

text \<open>The handler between two results: its ring holds \<open>rs\<close> and has room for \<open>k\<close> bytes.\<close>

definition handler_ok :: "ComHandler \<Rightarrow> bytes list \<Rightarrow> int \<Rightarrow> bool" where
  "handler_ok c rs k \<longleftrightarrow> circ_ok (dataStorage c) rs \<and> circ_room (dataStorage c) = k \<and> length (TXBuff c) = 2096 \<and> \<not> BuffMtx c"

lemma AddResults_fits:
  assumes c: "handler_ok c rs k" and l: "unat len \<le> length buf" and d: "take (unat len) buf = d" and k: "int (length d) + 7 \<le> k"
    and s: "length d + 3 \<le> 2096"
  shows "\<exists>c'. AddResults st buf len c = Some (True, c') \<and> handler_ok c' (rs @ [res_rec (st, d)]) (k - int (length d) - 7)"
proof -
  have "length d = unat len" using l d by auto
  then have n: "len = of_nat (length d)" by simp
  obtain b t where "AddResults st d (of_nat (length d)) c = Some (True, c\<lparr>TXBuff := b, dataStorage := t\<rparr>)" "length b = 2096"
    "circ_ok t (rs @ [res_rec (st, d)])" "circ_room t = circ_room (dataStorage c) - int (length d) - 7"
    using AddResults_spec [of c rs d st] c k s by (auto simp: handler_ok_def)
  then show ?thesis using c n AddResults_take [OF l, of st c] d by (auto simp: handler_ok_def)
qed

text \<open>What the sensors say, with their types, those that say nothing left out.\<close>

definition said :: "(u8 \<times> bool \<times> dataResult) list \<Rightarrow> (u8 \<times> bytes) list" where
  "said ss = filter (\<lambda>x. snd x \<noteq> []) (map (\<lambda>(st, _, r). (st, results r)) ss)"

lemma capture_sensors_spec:
  assumes "handler_ok c rs k" and "\<forall>(st, free, r)\<in>set ss. free \<and> res_ok r \<and> length (results r) \<le> length buf \<and> length (results r) + 3 \<le> 2096"
    and "(\<Sum>x\<leftarrow>said ss. int (length (snd x)) + 7) \<le> k"
  shows "\<exists>rs' buf' len' c'. capture_sensors ss buf len c = Some (rs', buf', len', c') \<and>
     handler_ok c' (rs @ map res_rec (said ss)) (k - (\<Sum>x\<leftarrow>said ss. int (length (snd x)) + 7)) \<and>
     (\<forall>r\<in>set rs'. res_ok r \<and> results r = [])"
  using assms
proof (induction ss arbitrary: buf len c rs k)
  case Nil
  then show ?case by (simp add: said_def)
next
  case (Cons s ss)
  obtain st free r where s: "s = (st, free, r)" by (cases s)
  have f: free and r: "res_ok r" "length (results r) \<le> length buf" "length (results r) + 3 \<le> 2096" using Cons.prems(2) s by auto
  obtain b r' where C: "Capture True buf len r = Some (b, res_num r, r')" "length b = length buf"
    "take (length (results r)) b = results r" "res_ok r'" "results r' = []"
    using Capture_spec [OF r(1,2)] by blast
  have n: "length (results r) = unat (res_num r)" by (rule length_results [OF r(1)])
  have pos: "0 \<le> (\<Sum>x\<leftarrow>said ss. int (length (snd x)) + 7)" by (rule sum_list_nonneg) auto
  have all: "\<forall>(st, free, r)\<in>set ss. free \<and> res_ok r \<and> length (results r) \<le> length b \<and> length (results r) + 3 \<le> 2096"
    using Cons.prems(2) C(2) by simp
  show ?case
  proof (cases "res_num r = 0")
    case True
    then have e: "said (s # ss) = said ss" using n by (simp add: said_def s)
    obtain rs' b' l' c' where "capture_sensors ss b 0 c = Some (rs', b', l', c')"
      "handler_ok c' (rs @ map res_rec (said ss)) (k - (\<Sum>x\<leftarrow>said ss. int (length (snd x)) + 7))"
      "\<forall>r\<in>set rs'. res_ok r \<and> results r = []"
      using Cons.IH [OF Cons.prems(1) all, of 0] Cons.prems(3) unfolding e by blast
    then show ?thesis using C True f s unfolding e by simp
  next
    case False
    then have "results r \<noteq> []" using n unat_eq_zero [of "res_num r"] by auto
    then have e: "said (s # ss) = (st, results r) # said ss" by (simp add: said_def s)
    have l: "unat (res_num r) \<le> length b" "take (unat (res_num r)) b = results r" using C(2,3) r(2) n by simp_all
    have "int (length (results r)) + 7 \<le> k" using Cons.prems(3) pos unfolding e by simp
    then obtain c1 where c1: "AddResults st b (res_num r) c = Some (True, c1)"
      "handler_ok c1 (rs @ [res_rec (st, results r)]) (k - int (length (results r)) - 7)"
      using AddResults_fits [OF Cons.prems(1) l _ r(3), of st] by blast
    obtain rs' b' l' c' where "capture_sensors ss b (res_num r) c1 = Some (rs', b', l', c')"
      "handler_ok c' ((rs @ [res_rec (st, results r)]) @ map res_rec (said ss))
         (k - int (length (results r)) - 7 - (\<Sum>x\<leftarrow>said ss. int (length (snd x)) + 7))"
      "\<forall>r\<in>set rs'. res_ok r \<and> results r = []"
      using Cons.IH [OF c1(2) all, of "res_num r"] Cons.prems(3) unfolding e by auto
    then show ?thesis using C c1(1) False f s unfolding e by (simp add: algebra_simps)
  qed
qed

text \<open>A sensor that is busy: the bytes of the one before are added again, under its type.\<close>

lemma capture_busy_spec:
  assumes c: "handler_ok c rs k" and r: "res_ok r" "results r \<noteq> []" "length (results r) \<le> length buf" "length (results r) + 3 \<le> 2096"
    and k: "2 * (int (length (results r)) + 7) \<le> k"
  shows "\<exists>r1 b l c'. capture_sensors [(st, True, r), (st', False, r')] buf len c = Some ([r1, r'], b, l, c') \<and>
     handler_ok c' (rs @ [res_rec (st, results r), res_rec (st', results r)]) (k - 2 * (int (length (results r)) + 7))"
proof -
  obtain b r1 where C: "Capture True buf len r = Some (b, res_num r, r1)" "length b = length buf"
    "take (length (results r)) b = results r" using Capture_spec [OF r(1,3)] by blast
  have n: "length (results r) = unat (res_num r)" by (rule length_results [OF r(1)])
  then have nz: "res_num r \<noteq> 0" using r(2) by auto
  have l: "unat (res_num r) \<le> length b" "take (unat (res_num r)) b = results r" using C(2,3) r(3) n by simp_all
  have k12: "int (length (results r)) + 7 \<le> k" "int (length (results r)) + 7 \<le> k - int (length (results r)) - 7" using k by simp_all
  obtain c1 where c1: "AddResults st b (res_num r) c = Some (True, c1)"
    "handler_ok c1 (rs @ [res_rec (st, results r)]) (k - int (length (results r)) - 7)"
    using AddResults_fits [OF c l k12(1) r(4), of st] by blast
  obtain c2 where c2: "AddResults st' b (res_num r) c1 = Some (True, c2)"
    "handler_ok c2 ((rs @ [res_rec (st, results r)]) @ [res_rec (st', results r)]) (k - int (length (results r)) - 7 - int (length (results r)) - 7)"
    using AddResults_fits [OF c1(2) l k12(2) r(4), of st'] by blast
  then show ?thesis using C c1(1) nz by (simp add: Capture_busy algebra_simps)
qed

end
