(* ===== verification/Gps.thy ===== *)
theory Gps
  imports Sensor
begin

text \<open>
  The GPS sensor (\<open>GPSSensor.cpp\<close>, \<open>GPSSensorUBX.cpp\<close>): frames of the UBX protocol, their check sum, polling for
  the position and the time, and the store of positions. What the serial line and the clock show is a
  list of events: a byte that can be read, or none and the value of the clock.
\<close>

section \<open>State\<close>

record gpsImpact =
  i_date :: u32
  i_time :: u32
  i_lon :: u32
  i_lat :: u32
  i_alt :: u32
  i_hdop :: u16

definition impact_bytes :: "gpsImpact \<Rightarrow> bytes" where
  "impact_bytes i = le_bytes 4 (uint (i_date i)) @ le_bytes 4 (uint (i_time i)) @ le_bytes 4 (uint (i_lon i)) @
     le_bytes 4 (uint (i_lat i)) @ le_bytes 4 (uint (i_alt i)) @ le_bytes 2 (uint (i_hdop i))"

record GPSSensor =
  recvBuff :: bytes
  impact :: gpsImpact
  fixed :: bool
  g_results :: dataResult

datatype poll = Rx u8 | Quiet u32

section \<open>Frames\<close>

text \<open>\<open>ComputeCheckSum\<close>: two sums of bytes.\<close>

fun ComputeCheckSum :: "bytes \<Rightarrow> u8 \<Rightarrow> u8 \<Rightarrow> u8 \<times> u8" where
  "ComputeCheckSum [] a b = (a, b)"
| "ComputeCheckSum (x # xs) a b = (let a = a + x; b = b + a in ComputeCheckSum xs a b)"

definition UBX_OVERHEAD_SIZE :: int where
  "UBX_OVERHEAD_SIZE = 8"

definition UBX_PREAMBLE :: u16 where
  "UBX_PREAMBLE = 0xB562"

definition swBytes :: "u16 \<Rightarrow> u16" where
  "swBytes x = drop_bit 8 (x AND 0xff00) OR push_bit 8 (x AND 0x00ff)"

definition UBXMsgClassNAV :: u8 where "UBXMsgClassNAV = 0x01"
definition UBXMsgClassCFG :: u8 where "UBXMsgClassCFG = 0x06"
definition UBXMsgClassMON :: u8 where "UBXMsgClassMON = 0x0A"
definition UBXMsgIdMON_VER :: u8 where "UBXMsgIdMON_VER = 0x04"
definition UBXMsgIdCFG_RATE :: u8 where "UBXMsgIdCFG_RATE = 0x08"
definition UBXMsgIdNAV_POSLLH :: u8 where "UBXMsgIdNAV_POSLLH = 0x02"
definition UBXMsgIdNAV_TIMEUTC :: u8 where "UBXMsgIdNAV_TIMEUTC = 0x21"

text \<open>The header of a message at the start of the receive buffer: preamble, class, number, length.\<close>

definition FillHeader_ubx :: "u8 \<Rightarrow> u8 \<Rightarrow> int \<Rightarrow> bytes \<Rightarrow> bytes option" where
  "FillHeader_ubx cls mid len m = do {
     m \<leftarrow> wr_bytes m 0 (le_bytes 2 (uint (swBytes UBX_PREAMBLE)));
     m \<leftarrow> wr_bytes m 2 [cls];
     m \<leftarrow> wr_bytes m 3 [mid];
     wr_bytes m 4 (le_bytes 2 len)
   }"

definition hdr_length :: "bytes \<Rightarrow> int option" where
  "hdr_length m = do { d \<leftarrow> rd_bytes m 4 2; Some (le_val d) }"

definition AppendCheckSum :: "bytes \<Rightarrow> bytes option" where
  "AppendCheckSum m = do {
     l \<leftarrow> hdr_length m;
     let len = l + 4;
     d \<leftarrow> rd_bytes m 2 len;
     let (chA, chB) = ComputeCheckSum d 0 0;
     m \<leftarrow> wr_bytes m (2 + len) [chA];
     wr_bytes m (2 + len + 1) [chB]
   }"

text \<open>\<open>SendFrame\<close>: the bytes that go out.\<close>

definition SendFrame :: "bytes \<Rightarrow> int \<Rightarrow> bytes option" where
  "SendFrame f sz = (if 0 < sz then rd_bytes f 0 sz else Some [])"

definition PollCmd :: "u8 \<Rightarrow> u8 \<Rightarrow> GPSSensor \<Rightarrow> (bytes \<times> GPSSensor) option" where
  "PollCmd cls mid g = do {
     m \<leftarrow> FillHeader_ubx cls mid 0 (recvBuff g);
     m \<leftarrow> AppendCheckSum m;
     l \<leftarrow> hdr_length m;
     out \<leftarrow> SendFrame m (l + UBX_OVERHEAD_SIZE);
     Some (out, g\<lparr>recvBuff := m\<rparr>)
   }"

definition MON_VER :: "GPSSensor \<Rightarrow> (bytes \<times> GPSSensor) option" where
  "MON_VER g = PollCmd UBXMsgClassMON UBXMsgIdMON_VER g"

definition NAV_POSLLH :: "GPSSensor \<Rightarrow> (bytes \<times> GPSSensor) option" where
  "NAV_POSLLH g = PollCmd UBXMsgClassNAV UBXMsgIdNAV_POSLLH g"

definition NAV_RATE :: "GPSSensor \<Rightarrow> (bytes \<times> GPSSensor) option" where
  "NAV_RATE g = PollCmd UBXMsgClassCFG UBXMsgIdCFG_RATE g"

text \<open>The loop of \<open>ReceiveFrame\<close>: \<open>i\<close> bytes received, \<open>j\<close> quiet rounds since. Without events it waits for ever.\<close>

fun recv_loop :: "poll list \<Rightarrow> bool \<Rightarrow> int \<Rightarrow> int \<Rightarrow> u32 \<Rightarrow> bytes \<Rightarrow> (int \<times> bytes) option" where
  "recv_loop [] reading i j deadLine m = None"
| "recv_loop (e # es) reading i j deadLine m =
     (case e of
        Rx b \<Rightarrow> do { m \<leftarrow> wr_bytes m i [b]; recv_loop es True (i + 1) 0 deadLine m }
      | Quiet t \<Rightarrow>
          if reading then
            if j < 10 then recv_loop es reading i (j + 1) deadLine m else Some (i, m)
          else if deadLine < t then Some (0, m)
          else recv_loop es reading i j deadLine m)"

definition ReceiveFrame :: "u32 \<Rightarrow> u32 \<Rightarrow> poll list \<Rightarrow> GPSSensor \<Rightarrow> (int \<times> GPSSensor) option" where
  "ReceiveFrame now timeOutUs es g = do {
     (n, m) \<leftarrow> recv_loop es False 0 0 (now + timeOutUs) (recvBuff g);
     Some (n, g\<lparr>recvBuff := m\<rparr>)
   }"

definition ubx_u :: "nat \<Rightarrow> bytes \<Rightarrow> int \<Rightarrow> int option" where
  "ubx_u n m i = do { d \<leftarrow> rd_bytes m i (int n); Some (le_val d) }"

text \<open>Whether the buffer starts with the preamble and the given class and number.\<close>

definition is_frame :: "u8 \<Rightarrow> u8 \<Rightarrow> bytes \<Rightarrow> bool" where
  "is_frame cls mid m \<longleftrightarrow> m ! 0 = 0xb5 \<and> m ! 1 = 0x62 \<and> m ! 2 = cls \<and> m ! 3 = mid"

section \<open>Time and position\<close>

text \<open>The result is the date and time that are stored, \<open>None\<close> when the function returns false.\<close>

definition GetTime :: "u32 \<Rightarrow> poll list \<Rightarrow> GPSSensor \<Rightarrow> ((u32 \<times> u32) option \<times> GPSSensor) option" where
  "GetTime now es g = do {
     (_, g) \<leftarrow> PollCmd UBXMsgClassNAV UBXMsgIdNAV_TIMEUTC g;
     (n, g) \<leftarrow> ReceiveFrame now 10000 es g;
     if n \<noteq> 0 \<and> is_frame 0x01 0x21 (recvBuff g) then do {
       year \<leftarrow> ubx_u 2 (recvBuff g) (6 + 12);
       month \<leftarrow> ubx_u 1 (recvBuff g) (6 + 14);
       day \<leftarrow> ubx_u 1 (recvBuff g) (6 + 15);
       hour \<leftarrow> ubx_u 1 (recvBuff g) (6 + 16);
       mins \<leftarrow> ubx_u 1 (recvBuff g) (6 + 17);
       sec \<leftarrow> ubx_u 1 (recvBuff g) (6 + 18);
       let date = word_of_int (if 2000 < year then year - 2000 else year);
       let date = date + word_of_int (month * 100);
       let date = date + word_of_int (day * 10000);
       let time = word_of_int sec;
       let time = time * word_of_int mins;
       let time = time * word_of_int hour;
       Some (Some (date, time), g)
     }
     else Some (None, g)
   }"

text \<open>\<open>GetPosition\<close>, called on the members of the last impact.\<close>

definition GetPosition :: "u32 \<Rightarrow> poll list \<Rightarrow> GPSSensor \<Rightarrow> (bool \<times> GPSSensor) option" where
  "GetPosition now es g = do {
     (_, g) \<leftarrow> PollCmd UBXMsgClassNAV UBXMsgIdNAV_POSLLH g;
     (n, g) \<leftarrow> ReceiveFrame now 10000 es g;
     if n \<noteq> 0 \<and> is_frame 0x01 0x02 (recvBuff g) then do {
       lat \<leftarrow> ubx_u 4 (recvBuff g) (6 + 8);
       lon \<leftarrow> ubx_u 4 (recvBuff g) (6 + 4);
       alt \<leftarrow> ubx_u 4 (recvBuff g) (6 + 12);
       _ \<leftarrow> ubx_u 4 (recvBuff g) (6 + 20);
       _ \<leftarrow> ubx_u 4 (recvBuff g) (6 + 24);
       let g = g\<lparr>impact := (impact g)\<lparr>i_lat := word_of_int lat, i_lon := word_of_int lon, i_alt := word_of_int alt\<rparr>\<rparr>;
       if i_lat (impact g) \<noteq> 0 \<and> i_lon (impact g) \<noteq> 0 then Some (True, g\<lparr>fixed := True\<rparr>)
       else Some (False, g)
     }
     else Some (False, g)
   }"

section \<open>The sensor\<close>

definition sizeof_gpsImpact :: int where
  "sizeof_gpsImpact = 22"

text \<open>\<open>StoreLastImpact\<close>; \<open>free\<close> is the outcome of \<open>trylock\<close>. The difference of the counts is compared as an
  unsigned number with \<open>sizeof\<close>.\<close>

definition StoreLastImpact :: "bool \<Rightarrow> GPSSensor \<Rightarrow> GPSSensor option" where
  "StoreLastImpact free g =
     (let r = g_results g in
      if fixed g \<and> sizeof_gpsImpact \<le> u32_of (uint (res_max r) - uint (res_num r)) \<and> free then
        (case res_start r of
           None \<Rightarrow> None
         | Some b \<Rightarrow> do {
             b \<leftarrow> wr_bytes b (res_current r) (impact_bytes (impact g));
             Some (g\<lparr>g_results := r\<lparr>res_start := Some b, res_current := res_current r + sizeof_gpsImpact,
                res_num := res_num r + word_of_int sizeof_gpsImpact\<rparr>\<rparr>)
           })
      else Some g)"

definition Sample :: "u32 \<Rightarrow> poll list \<Rightarrow> GPSSensor \<Rightarrow> GPSSensor option" where
  "Sample now es g = map_option snd (GetPosition now es g)"

definition Loop :: "u32 \<Rightarrow> poll list \<Rightarrow> GPSSensor \<Rightarrow> GPSSensor option" where
  "Loop now es g = Sample now es (g\<lparr>fixed := False\<rparr>)"

text \<open>One turn of \<open>MySensor::Main\<close> on the GPS sensor.\<close>

definition Main_gps :: "bool \<Rightarrow> u32 \<Rightarrow> poll list \<Rightarrow> GPSSensor \<Rightarrow> GPSSensor option" where
  "Main_gps free now es g = do { g \<leftarrow> Loop now es g; StoreLastImpact free g }"

section \<open>The check sum\<close>

text \<open>The second sum is the sum of the sums of all beginnings.\<close>

definition sums :: "bytes \<Rightarrow> u8" where
  "sums xs = sum_list (map (\<lambda>k. sum_list (take (Suc k) xs)) [0..<length xs])"

lemma sums_simps: "sums [] = 0" "sums (xs @ [x]) = sums xs + sum_list xs + x"
proof -
  show "sums [] = 0" by (simp add: sums_def)
  have e: "map (\<lambda>k. sum_list (take (Suc k) (xs @ [x]))) [0..<length xs] = map (\<lambda>k. sum_list (take (Suc k) xs)) [0..<length xs]"
    by (rule map_cong) simp_all
  have "sums (xs @ [x]) = sum_list (map (\<lambda>k. sum_list (take (Suc k) (xs @ [x]))) [0..<length xs]) + (sum_list xs + x)"
    unfolding sums_def by simp
  then show "sums (xs @ [x]) = sums xs + sum_list xs + x" unfolding e sums_def by (simp add: add.assoc)
qed

lemma ComputeCheckSum_append:
  "ComputeCheckSum (xs @ ys) a b = (case ComputeCheckSum xs a b of (a, b) \<Rightarrow> ComputeCheckSum ys a b)"
  by (induction xs a b rule: ComputeCheckSum.induct) (simp_all add: Let_def)

lemma ComputeCheckSum_sums: "ComputeCheckSum xs 0 0 = (sum_list xs, sums xs)"
  by (induction xs rule: rev_induct) (simp_all add: sums_simps ComputeCheckSum_append Let_def add.commute add.left_commute)

lemma sums_append: "sums (xs @ ys) = sums xs + of_nat (length ys) * sum_list xs + sums ys"
  by (induction ys rule: rev_induct) (simp_all add: sums_simps append_assoc [symmetric] algebra_simps del: append_assoc)

lemma sums_Cons: "sums (x # xs) = of_nat (Suc (length xs)) * x + sums xs"
  using sums_append [of "[x]" xs] sums_simps(2) [of "[]" x] by (simp add: sums_simps(1) algebra_simps)

text \<open>A changed byte and two exchanged neighbours change the check sum.\<close>

lemma checksum_changed:
  assumes "i < length xs" and "y \<noteq> xs ! i"
  shows "ComputeCheckSum (xs[i := y]) 0 0 \<noteq> ComputeCheckSum xs 0 0"
proof -
  have x: "xs = take i xs @ xs ! i # drop (Suc i) xs" by (rule id_take_nth_drop [OF assms(1)])
  have "xs[i := y] = take i xs @ y # drop (Suc i) xs" by (rule upd_conv_take_nth_drop [OF assms(1)])
  then have "sum_list (xs[i := y]) = sum_list (take i xs) + (y + sum_list (drop (Suc i) xs))" by simp
  moreover have "sum_list xs = sum_list (take i xs) + (xs ! i + sum_list (drop (Suc i) xs))" by (subst x) simp
  ultimately have "sum_list (xs[i := y]) \<noteq> sum_list xs" using assms(2) by simp
  then show ?thesis by (simp add: ComputeCheckSum_sums)
qed

lemma checksum_swapped:
  assumes "x \<noteq> y"
  shows "ComputeCheckSum (us @ y # x # vs) 0 0 \<noteq> ComputeCheckSum (us @ x # y # vs) 0 0"
proof -
  have "sums (us @ p # q # vs) = sums us + of_nat (length vs + 2) * sum_list us + (p + of_nat (length vs + 1) * (p + q) + sums vs)" for p q
    by (simp add: sums_append sums_Cons algebra_simps)
  then have "sums (us @ y # x # vs) - sums (us @ x # y # vs) = y - x" by (simp add: algebra_simps)
  then have "sums (us @ y # x # vs) \<noteq> sums (us @ x # y # vs)" using assms by auto
  then show ?thesis by (simp add: ComputeCheckSum_sums)
qed

section \<open>Polling and receiving\<close>

definition poll_frame :: "u8 \<Rightarrow> u8 \<Rightarrow> bytes" where
  "poll_frame cls mid = [0xb5, 0x62, cls, mid, 0, 0, cls + mid, 4 * cls + 3 * mid]"

lemma wr_front: "length d \<le> length m \<Longrightarrow> wr_bytes m 0 d = Some (d @ drop (length d) m)"
  by (simp add: wr_bytes_def)

lemma PollCmd_spec:
  assumes "8 \<le> length (recvBuff g)"
  shows "PollCmd cls mid g = Some (poll_frame cls mid, g\<lparr>recvBuff := poll_frame cls mid @ drop 8 (recvBuff g)\<rparr>)"
proof -
  obtain m0 m1 m2 m3 m4 m5 m6 m7 rest where m: "recvBuff g = m0 # m1 # m2 # m3 # m4 # m5 # m6 # m7 # rest"
    using assms by (auto simp: numeral_eq_Suc Suc_le_length_iff)
  have sw: "le_bytes 2 (uint (swBytes UBX_PREAMBLE)) = [0xb5, 0x62]"
    by code_simp
  have z: "le_bytes 2 0 = [0, 0]" by (simp add: numeral_2_eq_2)
  have "FillHeader_ubx cls mid 0 (recvBuff g) = Some (0xb5 # 0x62 # cls # mid # 0 # 0 # m6 # m7 # rest)"
    unfolding m FillHeader_ubx_def sw z by (simp add: wr_bytes_def numeral_eq_Suc)
  moreover have "AppendCheckSum (0xb5 # 0x62 # cls # mid # 0 # 0 # m6 # m7 # rest) = Some (poll_frame cls mid @ rest)"
    by (simp add: AppendCheckSum_def hdr_length_def rd_bytes_def wr_bytes_def poll_frame_def numeral_eq_Suc Let_def algebra_simps)
  moreover have "hdr_length (poll_frame cls mid @ rest) = Some 0"
    by (simp add: hdr_length_def rd_bytes_def poll_frame_def numeral_eq_Suc)
  moreover have "SendFrame (poll_frame cls mid @ rest) 8 = Some (poll_frame cls mid)"
    by (simp add: SendFrame_def rd_bytes_def poll_frame_def numeral_eq_Suc)
  moreover have "drop 8 (recvBuff g) = rest" by (simp add: m)
  ultimately show ?thesis by (simp add: PollCmd_def UBX_OVERHEAD_SIZE_def)
qed

text \<open>An answer, and then the line is quiet for eleven rounds.\<close>

definition answer :: "bytes \<Rightarrow> u32 \<Rightarrow> poll list" where
  "answer f t = map Rx f @ replicate 11 (Quiet t)"

lemma recv_quiet:
  assumes "0 \<le> j" and "j \<le> 10"
  shows "recv_loop (replicate (11 - nat j) (Quiet t) @ es) True i j dl m = Some (i, m)"
  using assms
proof (induction "11 - nat j" arbitrary: j)
  case 0
  then show ?case by simp
next
  case (Suc n)
  show ?case
  proof (cases "j = 10")
    case True
    then show ?thesis by simp
  next
    case False
    have n: "11 - nat j = Suc n" "11 - nat (j + 1) = n" "0 \<le> j + 1" "j + 1 \<le> 10" using Suc.hyps(2) Suc.prems False by auto
    have "recv_loop (replicate (11 - nat (j + 1)) (Quiet t) @ es) True i (j + 1) dl m = Some (i, m)"
      using Suc.hyps(1) [of "j + 1"] n by simp
    then show ?thesis using Suc.prems False unfolding n by simp
  qed
qed

lemma recv_bytes:
  assumes "length d + length f \<le> length m" and "take (length d) m = d"
  shows "recv_loop (map Rx f @ es) (d \<noteq> []) (int (length d)) 0 dl m =
     recv_loop es (d @ f \<noteq> []) (int (length (d @ f))) 0 dl (d @ f @ drop (length (d @ f)) m)"
  using assms
proof (induction f arbitrary: d m)
  case Nil
  then show ?case using append_take_drop_id [of "length d" m] by simp
next
  case (Cons b f)
  let ?m = "take (length d) m @ b # drop (Suc (length d)) m"
  have "wr_bytes m (int (length d)) [b] = Some ?m" using Cons.prems by (simp add: wr_bytes_def)
  moreover have "length (d @ [b]) + length f \<le> length ?m" "take (length (d @ [b])) ?m = d @ [b]" using Cons.prems by simp_all
  note Cons.IH [OF this]
  moreover have "drop (length ((d @ [b]) @ f)) ?m = drop (length (d @ b # f)) m" using Cons.prems by (simp add: drop_Cons' add.commute)
  moreover have "int (length d) + 1 = int (length (d @ [b]))" "(d @ [b]) @ f = d @ b # f" by simp_all
  ultimately show ?case using Cons.prems by simp (metis add.commute)
qed

lemma ReceiveFrame_answer:
  assumes "f \<noteq> []" and "length f \<le> length (recvBuff g)"
  shows "ReceiveFrame now tmo (answer f t @ es) g = Some (int (length f), g\<lparr>recvBuff := f @ drop (length f) (recvBuff g)\<rparr>)"
proof -
  have "recv_loop (map Rx f @ (replicate 11 (Quiet t) @ es)) False 0 0 (now + tmo) (recvBuff g) =
     recv_loop (replicate 11 (Quiet t) @ es) True (int (length f)) 0 (now + tmo) (f @ drop (length f) (recvBuff g))"
    using recv_bytes [of "[]" f "recvBuff g" "replicate 11 (Quiet t) @ es"] assms by simp
  also have "\<dots> = Some (int (length f), f @ drop (length f) (recvBuff g))"
    using recv_quiet [of 0 t es "int (length f)"] by simp
  finally show ?thesis by (simp add: ReceiveFrame_def answer_def)
qed

text \<open>An answer that is longer than the receive buffer is written behind its end.\<close>

lemma ReceiveFrame_overrun:
  assumes "length (recvBuff g) < length f"
  shows "ReceiveFrame now tmo (map Rx f @ es) g = None"
proof -
  have "recv_loop (map Rx f @ es) r (int k) 0 dl m = None" if "length m < k + length f" "k \<le> length m" for r k dl m es f
    using that
  proof (induction f arbitrary: r k m)
    case (Cons b f)
    show ?case
    proof (cases "k = length m")
      case True
      then show ?thesis by (simp add: wr_bytes_def)
    next
      case False
      then have w: "wr_bytes m (int k) [b] = Some (take k m @ b # drop (Suc k) m)" using Cons.prems by (simp add: wr_bytes_def)
      have "recv_loop (map Rx f @ es) True (int (Suc k)) 0 dl (take k m @ b # drop (Suc k) m) = None"
        by (rule Cons.IH) (use Cons.prems False in simp_all)
      then show ?thesis using w by (simp add: add.commute)
    qed
  qed simp
  from this [of "recvBuff g" 0 f] show ?thesis using assms by (simp add: ReceiveFrame_def)
qed

section \<open>Positions\<close>

definition u32_at :: "nat \<Rightarrow> bytes \<Rightarrow> u32" where
  "u32_at i m = word_of_int (le_val (take 4 (drop i m)))"

text \<open>The position that a buffer with an answer holds.\<close>

definition with_position :: "bytes \<Rightarrow> gpsImpact \<Rightarrow> gpsImpact" where
  "with_position m i = i\<lparr>i_lat := u32_at 14 m, i_lon := u32_at 10 m, i_alt := u32_at 18 m\<rparr>"

text \<open>Whether the firmware takes it for a position: neither the latitude nor the longitude is 0.\<close>

definition has_fix :: "bytes \<Rightarrow> bool" where
  "has_fix m \<longleftrightarrow> u32_at 14 m \<noteq> 0 \<and> u32_at 10 m \<noteq> 0"

lemma ubx_u4: "i + 4 \<le> length m \<Longrightarrow> ubx_u 4 m (int i) = Some (le_val (take 4 (drop i m)))"
  by (simp add: ubx_u_def rd_bytes_def)

lemma GetPosition_frame:
  assumes r: "PollCmd UBXMsgClassNAV UBXMsgIdNAV_POSLLH g = Some (out, g0)" "ReceiveFrame now 10000 es g0 = Some (n, g1)" "n \<noteq> 0"
    and m: "is_frame 1 2 (recvBuff g1)" "34 \<le> length (recvBuff g1)"
  shows "GetPosition now es g = Some (has_fix (recvBuff g1),
     g1\<lparr>impact := with_position (recvBuff g1) (impact g1), fixed := fixed g1 \<or> has_fix (recvBuff g1)\<rparr>)"
proof -
  have u: "ubx_u 4 (recvBuff g1) 14 = Some (le_val (take 4 (drop 14 (recvBuff g1))))"
    "ubx_u 4 (recvBuff g1) 10 = Some (le_val (take 4 (drop 10 (recvBuff g1))))"
    "ubx_u 4 (recvBuff g1) 18 = Some (le_val (take 4 (drop 18 (recvBuff g1))))"
    "ubx_u 4 (recvBuff g1) 26 = Some (le_val (take 4 (drop 26 (recvBuff g1))))"
    "ubx_u 4 (recvBuff g1) 30 = Some (le_val (take 4 (drop 30 (recvBuff g1))))"
    using m(2) ubx_u4 [of 14 "recvBuff g1"] ubx_u4 [of 10 "recvBuff g1"] ubx_u4 [of 18 "recvBuff g1"] ubx_u4 [of 26 "recvBuff g1"]
      ubx_u4 [of 30 "recvBuff g1"] by simp_all
  show ?thesis
    using r m(1) by (simp add: GetPosition_def u with_position_def has_fix_def u32_at_def Let_def)
qed

text \<open>The answer that starts with the right header overwrites the start of the buffer.\<close>

lemma receive_answer:
  assumes l: "length (recvBuff g) = 512" and f: "f \<noteq> []" "length f \<le> 512"
  shows "\<exists>g0. PollCmd UBXMsgClassNAV UBXMsgIdNAV_POSLLH g = Some (poll_frame 1 2, g0) \<and>
     ReceiveFrame now 10000 (answer f t @ es) g0 = Some (int (length f), g\<lparr>recvBuff := f @ drop (length f) (poll_frame 1 2 @ drop 8 (recvBuff g))\<rparr>)"
proof -
  let ?g = "g\<lparr>recvBuff := poll_frame 1 2 @ drop 8 (recvBuff g)\<rparr>"
  have "PollCmd UBXMsgClassNAV UBXMsgIdNAV_POSLLH g = Some (poll_frame 1 2, ?g)"
    using PollCmd_spec [of g 1 2] l by (simp add: UBXMsgClassNAV_def UBXMsgIdNAV_POSLLH_def)
  moreover have "length f \<le> length (recvBuff ?g)" using l f(2) by (simp add: poll_frame_def)
  from ReceiveFrame_answer [OF f(1) this, of now 10000 t es]
  have "ReceiveFrame now 10000 (answer f t @ es) ?g = Some (int (length f), g\<lparr>recvBuff := f @ drop (length f) (poll_frame 1 2 @ drop 8 (recvBuff g))\<rparr>)"
    by simp
  ultimately show ?thesis by blast
qed

definition posllh :: "bytes \<Rightarrow> bool" where
  "posllh f \<longleftrightarrow> take 4 f = [0xb5, 0x62, 1, 2] \<and> 34 \<le> length f \<and> length f \<le> 512"

lemma is_frame_prefix: "take 4 m = [0xb5, 0x62, c, i] \<Longrightarrow> is_frame c i m"
proof -
  assume t: "take 4 m = [0xb5, 0x62, c, i]"
  have "m ! k = take 4 m ! k" if "k < 4" for k using that by simp
  then show ?thesis unfolding t is_frame_def by simp
qed

lemma GetPosition_answer:
  assumes l: "length (recvBuff g) = 512" and f: "posllh f"
  shows "\<exists>g'. GetPosition now (answer f t @ es) g = Some (has_fix f, g') \<and> fixed g' = (fixed g \<or> has_fix f) \<and> impact g' = with_position f (impact g) \<and>
     g_results g' = g_results g \<and> length (recvBuff g') = 512 \<and> (\<forall>k. k + 4 \<le> 34 \<longrightarrow> u32_at k (recvBuff g') = u32_at k f)"
proof -
  let ?m = "f @ drop (length f) (poll_frame 1 2 @ drop 8 (recvBuff g))"
  have F: "f \<noteq> []" "length f \<le> 512" "34 \<le> length f" "take 4 f = [0xb5, 0x62, 1, 2]" using f by (auto simp: posllh_def)
  obtain g0 where R: "PollCmd UBXMsgClassNAV UBXMsgIdNAV_POSLLH g = Some (poll_frame 1 2, g0)"
    "ReceiveFrame now 10000 (answer f t @ es) g0 = Some (int (length f), g\<lparr>recvBuff := ?m\<rparr>)"
    using receive_answer [OF l F(1,2)] by blast
  have at: "u32_at k ?m = u32_at k f" if "k + 4 \<le> 34" for k using that F(3) by (simp add: u32_at_def)
  have "is_frame 1 2 ?m" by (rule is_frame_prefix) (use F(3,4) in simp)
  moreover have lm: "length ?m = 512" using l F(2) by (simp add: poll_frame_def)
  ultimately have "GetPosition now (answer f t @ es) g = Some (has_fix f, (g\<lparr>recvBuff := ?m\<rparr>)\<lparr>impact := with_position ?m (impact g), fixed := fixed g \<or> has_fix f\<rparr>)"
    using GetPosition_frame [OF R] F(1) at by (simp add: has_fix_def)
  then show ?thesis using at lm by (simp add: with_position_def)
qed

text \<open>The answer is a single byte of the header: the command is still in the buffer, and behind it the answer of the time before.\<close>

lemma GetPosition_stale:
  assumes l: "length (recvBuff g) = 512" and nz: "u32_at 14 (recvBuff g) \<noteq> 0" "u32_at 10 (recvBuff g) \<noteq> 0"
  shows "\<exists>g'. GetPosition now (answer [0xb5] t @ es) g = Some (True, g') \<and> fixed g' \<and> impact g' = with_position (recvBuff g) (impact g) \<and>
     g_results g' = g_results g"
proof -
  let ?m = "[0xb5] @ drop 1 (poll_frame 1 2 @ drop 8 (recvBuff g))"
  obtain g0 where R: "PollCmd UBXMsgClassNAV UBXMsgIdNAV_POSLLH g = Some (poll_frame 1 2, g0)"
    "ReceiveFrame now 10000 (answer [0xb5] t @ es) g0 = Some (1, g\<lparr>recvBuff := ?m\<rparr>)"
    using receive_answer [OF l, of "[0xb5]" now t es] by auto
  have m: "?m = poll_frame 1 2 @ drop 8 (recvBuff g)" by (simp add: poll_frame_def)
  have "length (poll_frame 1 2) = 8" by (simp add: poll_frame_def)
  then have at: "u32_at (8 + k) ?m = u32_at (8 + k) (recvBuff g)" for k unfolding m by (simp add: u32_at_def add.commute)
  have "u32_at 10 ?m = u32_at 10 (recvBuff g)" "u32_at 14 ?m = u32_at 14 (recvBuff g)" "u32_at 18 ?m = u32_at 18 (recvBuff g)"
    using at [of 2] at [of 6] at [of 10] by simp_all
  moreover have "is_frame 1 2 ?m" by (simp add: is_frame_def poll_frame_def)
  moreover have "34 \<le> length ?m" using l by (simp add: poll_frame_def)
  ultimately show ?thesis using GetPosition_frame [OF R] nz by (simp add: with_position_def has_fix_def)
qed

text \<open>The position goes behind the results.\<close>

lemma length_impact [simp]: "length (impact_bytes i) = 22"
  by (simp add: impact_bytes_def)

lemma StoreLastImpact_spec:
  assumes r: "res_ok (g_results g)" and f: "fixed g" and room: "length (results (g_results g)) + 22 \<le> unat (res_max (g_results g))"
  shows "\<exists>g'. StoreLastImpact True g = Some g' \<and> res_ok (g_results g') \<and> results (g_results g') = results (g_results g) @ impact_bytes (impact g) \<and>
     res_max (g_results g') = res_max (g_results g) \<and> recvBuff g' = recvBuff g \<and> impact g' = impact g"
proof -
  let ?r = "g_results g"
  define m where "m = length (results ?r)"
  have n: "unat (res_num ?r) = m" using length_results [OF r] by (simp add: m_def)
  have u: "uint (res_num ?r) = int m" unfolding n [symmetric] by simp
  obtain b where b: "res_start ?r = Some b" "length b = unat (res_max ?r)" "res_current ?r = int m"
    using r unfolding res_ok_def u by (cases "res_start ?r") simp_all
  have x: "take m b = results ?r" using b(1) n by (simp add: results_def)
  have room': "m + 22 \<le> length b" using room b(2) by (simp add: m_def)
  have M: "uint (res_max ?r) = int (length b)" unfolding b(2) by simp
  have big: "length b < 2 ^ LENGTH(16)" unfolding b(2) by (rule unat_lt)
  have g: "sizeof_gpsImpact \<le> u32_of (uint (res_max ?r) - uint (res_num ?r))"
    unfolding M u using room' big by (simp add: u32_of_def sizeof_gpsImpact_def)
  let ?b = "take m b @ impact_bytes (impact g) @ drop (m + 22) b"
  have w: "wr_bytes b (int m) (impact_bytes (impact g)) = Some ?b" using room' by (simp add: wr_bytes_def)
  let ?r' = "?r\<lparr>res_start := Some ?b, res_current := int m + sizeof_gpsImpact, res_num := res_num ?r + word_of_int sizeof_gpsImpact\<rparr>"
  have e: "StoreLastImpact True g = Some (g\<lparr>g_results := ?r'\<rparr>)" using f g b w by (simp add: StoreLastImpact_def Let_def)
  have "res_num ?r = of_nat m" unfolding n [symmetric] by simp
  then have s: "res_num ?r' = of_nat (m + 22)" by (simp add: sizeof_gpsImpact_def)
  have n': "unat (res_num ?r') = m + 22" unfolding s by (rule unat_of_nat_lt) (use room' big in simp)
  have "uint (res_num ?r') = int m + sizeof_gpsImpact" using n' uint_nat [of "res_num ?r'"] unfolding sizeof_gpsImpact_def by linarith
  then have "res_ok ?r'" using n' b(2) room' by (simp add: res_ok_def word_le_nat_alt)
  moreover have "results ?r' = take (m + 22) ?b" 
  proof -
    have "results ?r' = take (unat (res_num ?r')) ?b" by (simp add: results_def)
    then show ?thesis by (simp only: n')
  qed
  then have "results ?r' = results ?r @ impact_bytes (impact g)" using x room' m_def by simp
  ultimately show ?thesis using e by auto
qed

text \<open>Without a position, without room, or with a locked mutex nothing is stored.\<close>

lemma StoreLastImpact_total:
  assumes r: "res_ok (g_results g)"
  shows "\<exists>g'. StoreLastImpact free g = Some g' \<and> res_ok (g_results g') \<and> results (g_results g') = results (g_results g) @
     (if fixed g \<and> length (results (g_results g)) + 22 \<le> unat (res_max (g_results g)) \<and> free then impact_bytes (impact g) else [])"
proof (cases "fixed g \<and> length (results (g_results g)) + 22 \<le> unat (res_max (g_results g)) \<and> free")
  case True
  then show ?thesis using StoreLastImpact_spec [OF r] by auto
next
  case False
  let ?r = "g_results g"
  have n: "unat (res_num ?r) = length (results ?r)" using length_results [OF r] by simp
  have le: "unat (res_num ?r) \<le> unat (res_max ?r)" using r by (auto simp: res_ok_def word_le_nat_alt split: option.splits)
  have b: "unat (res_max ?r) < 65536" using unat_lt [of "res_max ?r"] by simp
  have "\<not> sizeof_gpsImpact \<le> u32_of (uint (res_max ?r) - uint (res_num ?r))" if "\<not> length (results ?r) + 22 \<le> unat (res_max ?r)"
  proof -
    have "uint (res_max ?r) - uint (res_num ?r) = int (unat (res_max ?r) - unat (res_num ?r))" by (simp only: uint_nat of_nat_diff [OF le])
    moreover have "u32_of (int x) = int x" if "x < 65536" for x using that by (simp add: u32_of_def)
    ultimately show ?thesis using that b n by (simp add: sizeof_gpsImpact_def)
  qed
  then have "StoreLastImpact free g = Some g" using False by (auto simp: StoreLastImpact_def Let_def)
  then show ?thesis using False r by auto
qed

end
