(* ===== verification/Can_Diag.thy ===== *)
theory Can_Diag
  imports Sensor Can_Comm
begin

text \<open>
  The sensor that asks the calculators of a car (\<open>CAN/CANDiagSensor.cpp\<close>): its calculators, the commands it
  lets its communicator execute, and the record of their responses. The communicator is an object with a virtual
  \<open>ExecuteCommand\<close>, an argument of the definitions that call it; the locale \<open>master\<close> says what the sensor needs of it,
  and both communicators of the code provide it.
\<close>

section \<open>Calculators\<close>

text \<open>\<open>running\<close> is the flag of the thread; the timer holds its period while it runs.\<close>

record CANDiagSensor =
  calculators :: "CANDiagCalculator option list"
  nCalculators :: int
  ds_results :: dataResult
  KeepAliveTimer :: "int option"

definition CAN_DIAG_STORE_SIZE :: nat where
  "CAN_DIAG_STORE_SIZE = 256"

text \<open>The second pointer of a new object, \<open>old\<close>, is not initialised.\<close>

definition CANDiagSensor_new :: "CANDiagCalculator \<Rightarrow> CANDiagCalculator option \<Rightarrow> bytes \<Rightarrow> dataResult \<Rightarrow> CANDiagSensor" where
  "CANDiagSensor_new cal old store r =
     \<lparr>calculators = [Some cal, old], nCalculators = 1, ds_results = InitResults store None (- 1) r, KeepAliveTimer = None\<rparr>"

definition FreeCalculator :: "int \<Rightarrow> CANDiagSensor \<Rightarrow> CANDiagSensor option" where
  "FreeCalculator i s =
     (if i < nCalculators s then
        if 0 \<le> i \<and> nat i < length (calculators s) then
          case calculators s ! nat i of
            Some _ \<Rightarrow> Some (s\<lparr>calculators := (calculators s)[nat i := None], nCalculators := nCalculators s - 1\<rparr>)
          | None \<Rightarrow> Some s
        else None
      else Some s)"

definition AddCalculator :: "CANDiagCalculator \<Rightarrow> int \<Rightarrow> CANDiagSensor \<Rightarrow> CANDiagSensor option" where
  "AddCalculator cal i s = do {
     s \<leftarrow> FreeCalculator i s;
     if 0 \<le> i \<and> nat i < length (calculators s)
     then Some (s\<lparr>calculators := (calculators s)[nat i := Some cal], nCalculators := nCalculators s + 1\<rparr>)
     else None
   }"

definition GetDiagCalculator :: "int \<Rightarrow> CANDiagSensor \<Rightarrow> CANDiagCalculator option option" where
  "GetDiagCalculator i s = (if 0 \<le> i \<and> nat i < length (calculators s) then Some (calculators s ! nat i) else None)"

definition GetNDiagCalculator :: "CANDiagSensor \<Rightarrow> int" where
  "GetNDiagCalculator s = nCalculators s"

text \<open>A calculator that is used: a null pointer or a missing element is undefined.\<close>

definition the_calc :: "nat \<Rightarrow> CANDiagSensor \<Rightarrow> CANDiagCalculator option" where
  "the_calc i s = (if i < length (calculators s) then calculators s ! i else None)"

section \<open>Executing commands\<close>

text \<open>\<open>ExecuteCommand\<close> of a communicator, with the data of the command, its size, the buffer for the response and
  the time-out, changes the state of everything behind the communicator and returns the buffer and the length.\<close>

type_synonym 'w exec = "'w \<Rightarrow> bytes \<Rightarrow> u8 \<Rightarrow> bytes \<Rightarrow> u32 \<Rightarrow> (bytes \<times> u8 \<times> 'w) option"

text \<open>What is behind the communicators of the code: the communicator, the interface, what the queue will deliver in
  each exchange, and the frames sent.\<close>

type_synonym can_world = "CANCommunicator \<times> CANInterface \<times> qget list list \<times> (u8 \<times> CANMessage) list"

definition exec6A :: "u32 \<Rightarrow> u32 \<Rightarrow> can_world exec" where
  "exec6A lock self w data sz resp tmo =
     (case w of
        (m, c, ev # evs, out) \<Rightarrow> do {
          (x, m) \<leftarrow> ExecuteCommand6A lock self data sz (Some resp) (Some 0) tmo ev m c;
          Some (response x, respLen x, (m, x_itf x, evs, out @ x_sent x))
        }
      | _ \<Rightarrow> None)"

definition exec68 :: "u32 \<Rightarrow> u32 \<Rightarrow> can_world exec" where
  "exec68 lock self w data sz resp tmo =
     (case w of
        (m, c, ev # evs, out) \<Rightarrow> do {
          x \<leftarrow> ExecuteCommand68 lock self data sz (Some resp) (Some 0) tmo ev m c;
          Some (response x, respLen x, (m, x_itf x, evs, out @ x_sent x))
        }
      | _ \<Rightarrow> None)"

text \<open>\<open>KeepAliveStart\<close>: the period is the last two bytes of the command. A calculator without such a command is used
  through a null pointer.\<close>

definition KeepAliveStart :: "nat \<Rightarrow> CANDiagSensor \<Rightarrow> CANDiagSensor option" where
  "KeepAliveStart i s = do {
     c \<leftarrow> the_calc i s;
     h \<leftarrow> FirstCommand CMD_KEEP_ALIVE c;
     p \<leftarrow> h;
     (_, sz) \<leftarrow> cmd_at (cmdStorage c) p;
     d \<leftarrow> rd_bytes (cmdStorage c) (int p + 7 + uint sz - 2) 2;
     Some (s\<lparr>KeepAliveTimer := Some (le_val d)\<rparr>)
   }"

definition KeepAliveStop :: "CANDiagSensor \<Rightarrow> CANDiagSensor" where
  "KeepAliveStop s = s\<lparr>KeepAliveTimer := None\<rparr>"

definition KeepAliveSequence :: "'w exec \<Rightarrow> bytes \<Rightarrow> nat \<Rightarrow> CANDiagSensor \<Rightarrow> 'w \<Rightarrow> 'w option" where
  "KeepAliveSequence exec resp i s w = do {
     c \<leftarrow> the_calc i s;
     h \<leftarrow> FirstCommand CMD_KEEP_ALIVE c;
     (case h of
        Some p \<Rightarrow> do {
          (_, sz) \<leftarrow> cmd_at (cmdStorage c) p;
          (_, _, w) \<leftarrow> exec w (cmd_data (cmdStorage c) p) (sz - 2) resp 100;
          Some w
        }
      | None \<Rightarrow> Some w)
   }"

definition DiagStart :: "'w exec \<Rightarrow> bytes \<Rightarrow> nat \<Rightarrow> CANDiagSensor \<Rightarrow> 'w \<Rightarrow> 'w option" where
  "DiagStart exec resp i s w = do {
     c \<leftarrow> the_calc i s;
     h \<leftarrow> FirstCommand CMD_DIAG_START c;
     (case h of
        Some p \<Rightarrow> do {
          (_, sz) \<leftarrow> cmd_at (cmdStorage c) p;
          (_, _, w) \<leftarrow> exec w (cmd_data (cmdStorage c) p) sz resp 100;
          Some w
        }
      | None \<Rightarrow> Some w)
   }"

section \<open>Recording responses\<close>

text \<open>A response is recorded: the number of the command, the time, the length, the bytes. The test leaves out four
  of the bytes of the header.\<close>

definition diag_record :: "bool \<Rightarrow> u32 \<Rightarrow> u32 \<Rightarrow> bytes \<Rightarrow> u8 \<Rightarrow> dataResult \<Rightarrow> dataResult option" where
  "diag_record free t ident resp len r =
     (if uint (res_num r) + 4 + 2 + uint len < uint (res_max r) then
        if free then do {
          b \<leftarrow> res_start r;
          let cur = res_current r;
          b \<leftarrow> wr_bytes b cur (le_bytes 4 (uint ident));
          let cur = cur + 4;
          b \<leftarrow> wr_bytes b cur (le_bytes 4 (uint t));
          let cur = cur + 4;
          b \<leftarrow> wr_bytes b cur (le_bytes 2 (uint len));
          let cur = cur + 2;
          b \<leftarrow> memcpy b cur resp 0 (uint len);
          let cur = cur + uint len;
          Some (r\<lparr>res_start := Some b, res_current := cur, res_num := res_num r + (4 + 4 + 2 + ucast len)\<rparr>)
        }
        else Some r
      else Some r)"

text \<open>The turns of the loop of \<open>DiagSequence\<close>. Turn \<open>k\<close> sees whether the thread is still running, whether the
  mutex of the results is free, and the time, in \<open>env k\<close>.\<close>

lemma next_loop_later: "next_loop p s ty st = Some (Some q) \<Longrightarrow> p < q \<and> q + 7 \<le> length st"
proof (induction p s ty st rule: next_loop.induct)
  case (1 p s ty st)
  let ?p = "p + 7 + unat s"
  obtain t s' where c: "cmd_at st ?p = Some (t, s')" "?p + 7 \<le> length st"
    using 1(2) by (subst (asm) next_loop.simps) (auto simp: Let_def cmd_at_def split: if_splits)
  show ?case
  proof (cases "t = ty \<or> t = CMD_END")
    case True
    then show ?thesis using 1(2) c by (subst (asm) next_loop.simps) (auto simp: Let_def split: if_splits)
  next
    case False
    then have "next_loop ?p s' ty st = Some (Some q)" using 1(2) c by (subst (asm) next_loop.simps) (simp add: Let_def)
    then show ?thesis using 1(1) [OF refl c(1) refl] False by auto
  qed
qed

lemma NextCommand_later: "NextCommand p ty c = Some (Some q) \<Longrightarrow> p < q \<and> q + 7 \<le> length (cmdStorage c)"
  by (auto simp: NextCommand_def bind_eq_Some_conv dest: next_loop_later)

function diag_loop :: "'w exec \<Rightarrow> (nat \<Rightarrow> bool \<times> bool \<times> u32) \<Rightarrow> nat \<Rightarrow> nat \<Rightarrow> CANDiagCalculator \<Rightarrow> bytes \<Rightarrow> 'w \<Rightarrow>
    dataResult \<Rightarrow> ('w \<times> dataResult) option" where
  "diag_loop exec env k p c resp w r =
     (case env k of (running, free, t) \<Rightarrow>
        if running then do {
          (_, sz) \<leftarrow> cmd_at (cmdStorage c) p;
          (resp, len, w) \<leftarrow> exec w (cmd_data (cmdStorage c) p) sz resp 100;
          r \<leftarrow> (if len \<noteq> 0 then diag_record free t (cmd_id (cmdStorage c) p) resp len r else Some r);
          case NextCommand p CMD_NORM c of
            None \<Rightarrow> None
          | Some None \<Rightarrow> Some (w, r)
          | Some (Some q) \<Rightarrow> diag_loop exec env (k + 1) q c resp w r
        }
        else Some (w, r))"
  by pat_completeness auto
termination
  by (relation "measure (\<lambda>(exec, env, k, p, c, resp, w, r). length (cmdStorage c) - p)") (auto dest: NextCommand_later)

declare diag_loop.simps [simp del]

definition DiagSequence :: "'w exec \<Rightarrow> (nat \<Rightarrow> bool \<times> bool \<times> u32) \<Rightarrow> bytes \<Rightarrow> nat \<Rightarrow> CANDiagSensor \<Rightarrow> 'w \<Rightarrow>
    ('w \<times> CANDiagSensor) option" where
  "DiagSequence exec env resp i s w = do {
     c \<leftarrow> the_calc i s;
     h \<leftarrow> FirstCommand CMD_NORM c;
     (case h of
        None \<Rightarrow> Some (w, s)
      | Some p \<Rightarrow> do {
          (w, r) \<leftarrow> diag_loop exec env 0 p c resp w (ds_results s);
          Some (w, s\<lparr>ds_results := r\<rparr>)
        })
   }"

text \<open>The loop over the calculators. \<open>env i\<close> is what the loop of the calculator \<open>i\<close> sees; the two buffers for responses are
  local variables. The communicator is the same for all of them. The second protocol has no keep-alive commands.\<close>

primrec diag_turns :: "bool \<Rightarrow> 'w exec \<Rightarrow> (nat \<Rightarrow> nat \<Rightarrow> bool \<times> bool \<times> u32) \<Rightarrow> bytes \<Rightarrow> bytes \<Rightarrow> nat \<Rightarrow> nat \<Rightarrow> CANDiagSensor \<Rightarrow> 'w \<Rightarrow>
    ('w \<times> CANDiagSensor) option" where
  "diag_turns keep exec env r32 r64 0 i s w = Some (w, s)"
| "diag_turns keep exec env r32 r64 (Suc n) i s w = do {
     w \<leftarrow> DiagStart exec r32 i s w;
     s \<leftarrow> (if keep then KeepAliveStart i s else Some s);
     (w, s) \<leftarrow> DiagSequence exec (env i) r64 i s w;
     let s = (if keep then KeepAliveStop s else s);
     diag_turns keep exec env r32 r64 n (i + 1) s w
   }"

definition diag_Loop6A :: "u32 \<Rightarrow> u32 \<Rightarrow> (nat \<Rightarrow> nat \<Rightarrow> bool \<times> bool \<times> u32) \<Rightarrow> bytes \<Rightarrow> bytes \<Rightarrow> CANDiagSensor \<Rightarrow> can_world \<Rightarrow>
    (can_world \<times> CANDiagSensor) option" where
  "diag_Loop6A lock self env r32 r64 s w = diag_turns True (exec6A lock self) env r32 r64 (nat (nCalculators s)) 0 s w"

definition diag_Loop68 :: "u32 \<Rightarrow> u32 \<Rightarrow> (nat \<Rightarrow> nat \<Rightarrow> bool \<times> bool \<times> u32) \<Rightarrow> bytes \<Rightarrow> bytes \<Rightarrow> CANDiagSensor \<Rightarrow> can_world \<Rightarrow>
    (can_world \<times> CANDiagSensor) option" where
  "diag_Loop68 lock self env r32 r64 s w = diag_turns False (exec68 lock self) env r32 r64 (nat (nCalculators s)) 0 s w"

section \<open>What a communicator promises\<close>

text \<open>A communicator reads as many bytes of the command as its size says, and returns the buffer for the response with
  the size it has.\<close>

locale master =
  fixes exec :: "'w exec"
  assumes reads_size: "unat sz \<le> length data \<Longrightarrow> exec w data sz resp tmo = exec w (take (unat sz) data) sz resp tmo"
    and same_buffer: "exec w data sz resp tmo = Some (resp', n, w') \<Longrightarrow> length resp' = length resp"

text \<open>Executing the commands of a list, one after the other: the responses that are not empty, with the number of the
  command and the time.\<close>

fun run_cmds :: "'w exec \<Rightarrow> (nat \<Rightarrow> u32) \<Rightarrow> nat \<Rightarrow> bytes \<Rightarrow> 'w \<Rightarrow> (u32 \<times> bytes) list \<Rightarrow> ((u32 \<times> u32 \<times> bytes) list \<times> 'w) option" where
  "run_cmds exec tm k resp w [] = Some ([], w)"
| "run_cmds exec tm k resp w ((i, d) # cs) = do {
     (resp, len, w) \<leftarrow> exec w d (of_nat (length d)) resp 100;
     if unat len \<le> length resp then do {
       (rs, w) \<leftarrow> run_cmds exec tm (k + 1) resp w cs;
       Some (if len = 0 then rs else (i, tm k, take (unat len) resp) # rs, w)
     }
     else None
   }"

definition norm_cmds :: "command list \<Rightarrow> (u32 \<times> bytes) list" where
  "norm_cmds cs = map snd (filter (\<lambda>c. fst c = CMD_NORM) cs)"

definition diag_rec :: "u32 \<times> u32 \<times> bytes \<Rightarrow> bytes" where
  "diag_rec x = (case x of (i, t, d) \<Rightarrow> le_bytes 4 (uint i) @ le_bytes 4 (uint t) @ le_bytes 2 (int (length d)) @ d)"

function decode_diag :: "bytes \<Rightarrow> (u32 \<times> u32 \<times> bytes) list" where
  "decode_diag b =
     (if length b < 10 then []
      else (let n = nat (le_val (take 2 (drop 8 b))) in
        (word_of_int (le_val (take 4 b)), word_of_int (le_val (take 4 (drop 4 b))), take n (drop 10 b)) # decode_diag (drop (10 + n) b)))"
  by pat_completeness auto
termination by (relation "measure length") auto

declare decode_diag.simps [simp del]

lemma decode_diag_rec:
  assumes "length d < 2 ^ 16"
  shows "decode_diag (diag_rec (i, t, d) @ b) = (i, t, d) # decode_diag b"
proof -
  have "le_val (le_bytes 2 (int (length d))) = int (length d)"
    unfolding le_val_le_bytes using assms by (intro mod_pos_pos_trivial) auto
  then show ?thesis
    by (subst decode_diag.simps) (simp add: diag_rec_def Let_def word_of_le_bytes)
qed

lemma decode_diag_concat:
  "\<forall>(i, t, d)\<in>set xs. length d < 2 ^ 16 \<Longrightarrow> decode_diag (concat (map diag_rec xs)) = xs"
proof (induction xs)
  case Nil
  then show ?case by (simp add: decode_diag.simps)
next
  case (Cons x xs)
  then show ?case by (cases x) (simp add: decode_diag_rec)
qed

text \<open>Writing behind what a buffer holds.\<close>

lemma wr_behind:
  assumes "take n b = x" and "length x = n" and "n + length d \<le> length b"
  shows "\<exists>b'. wr_bytes b (int n) d = Some b' \<and> length b' = length b \<and> take (n + length d) b' = x @ d"
  using assms by (auto simp: wr_bytes_def)

lemma diag_record_spec:
  assumes r: "res_ok r" and d: "take (unat len) resp = d" "unat len \<le> length resp"
    and fits: "length (results r) + 10 + length d \<le> unat (res_max r)"
  shows "\<exists>r'. diag_record True t i resp len r = Some r' \<and> res_ok r' \<and> res_max r' = res_max r \<and>
     results r' = results r @ diag_rec (i, t, d)"
proof -
  define m where "m = length (results r)"
  have n: "unat (res_num r) = m" using length_results [OF r] by (simp add: m_def)
  have l: "length d = unat len" using d by auto
  have u: "uint (res_num r) = int m" unfolding n [symmetric] by simp
  obtain b where b: "res_start r = Some b" "length b = unat (res_max r)" "res_current r = int m"
    using r unfolding res_ok_def u by (cases "res_start r") simp_all
  have x: "take m b = results r" "length (results r) = m" using b(1) n by (simp add: results_def) (simp add: m_def)
  have room: "m + 10 + length d \<le> length b" using fits b by (simp add: m_def)
  obtain b1 where b1: "wr_bytes b (int m) (le_bytes 4 (uint i)) = Some b1" "length b1 = length b"
    "take (m + 4) b1 = results r @ le_bytes 4 (uint i)" using wr_behind [OF x, of "le_bytes 4 (uint i)"] room by auto
  obtain b2 where b2: "wr_bytes b1 (int (m + 4)) (le_bytes 4 (uint t)) = Some b2" "length b2 = length b"
    "take (m + 4 + 4) b2 = (results r @ le_bytes 4 (uint i)) @ le_bytes 4 (uint t)"
    using wr_behind [OF b1(3), of "le_bytes 4 (uint t)"] room b1(2) x by auto
  obtain b3 where b3: "wr_bytes b2 (int (m + 4 + 4)) (le_bytes 2 (uint len)) = Some b3" "length b3 = length b"
    "take (m + 4 + 4 + 2) b3 = ((results r @ le_bytes 4 (uint i)) @ le_bytes 4 (uint t)) @ le_bytes 2 (uint len)"
    using wr_behind [OF b2(3), of "le_bytes 2 (uint len)"] room b2(2) x by auto
  obtain b4 where b4: "wr_bytes b3 (int (m + 4 + 4 + 2)) d = Some b4" "length b4 = length b"
    "take (m + 4 + 4 + 2 + length d) b4 = (((results r @ le_bytes 4 (uint i)) @ le_bytes 4 (uint t)) @ le_bytes 2 (uint len)) @ d"
    using wr_behind [OF b3(3), of d] room b3(2) x by auto
  have L: "uint len = int (length d)" unfolding l by simp
  have q: "length d \<le> length resp" "take (length d) resp = d" using d l by simp_all
  have M: "rd_bytes resp 0 (uint len) = Some d" unfolding L using q by (simp add: rd_bytes_def)
  have g: "uint (res_num r) + 4 + 2 + uint len < uint (res_max r)" using room b(2) uint_nat [of "res_max r"] unfolding u L by linarith
  let ?r = "r\<lparr>res_start := Some b4, res_current := int m + 4 + 4 + 2 + uint len, res_num := res_num r + (4 + 4 + 2 + ucast len)\<rparr>"
  have e: "diag_record True t i resp len r = Some ?r"
    using g b(1,3) b1(1) b2(1) b3(1) b4(1) M by (simp add: diag_record_def memcpy_def Let_def add.commute)
  have "res_num r = of_nat m" unfolding n [symmetric] by simp
  moreover have "ucast len = (of_nat (length d) :: u16)" unfolding l by (simp add: unsigned_of_nat unsigned_ucast_eq)
  ultimately have s: "res_num ?r = of_nat (m + 10 + length d)" by simp
  have "m + 10 + length d < 2 ^ LENGTH(16)" by (rule le_less_trans [OF _ unat_lt [of "res_max r"]]) (use room b(2) in simp)
  then have n': "unat (res_num ?r) = m + 10 + length d" unfolding s by (rule unat_of_nat_lt)
  have "results ?r = results r @ diag_rec (i, t, d)"
  proof -
    have q: "m + 4 + 4 + 2 + length d = m + 10 + length d" by simp
    have "results ?r = take (m + 10 + length d) b4" unfolding n' [symmetric] by (simp add: results_def)
    then show ?thesis using b4(3) unfolding q L by (simp add: diag_rec_def)
  qed
  moreover have "uint (res_num ?r) = int m + 4 + 4 + 2 + uint len" using n' uint_nat [of "res_num ?r"] L by linarith
  then have "res_ok ?r" using n' b(2) b4(2) room by (simp add: res_ok_def word_le_nat_alt)
  ultimately show ?thesis using e by auto
qed

text \<open>The next command of a type, in terms of the list.\<close>

lemma find_norm:
  assumes "cmds_at st p cs"
  shows "(find_cmd CMD_NORM p cs = None \<and> norm_cmds cs = []) \<or>
    (\<exists>q i d vs. find_cmd CMD_NORM p cs = Some q \<and> cmds_at st q ((CMD_NORM, i, d) # vs) \<and> norm_cmds cs = (i, d) # norm_cmds vs \<and>
       length vs < length cs)"
  using assms
proof (induction st p cs rule: cmds_at.induct)
  case (2 st p t i d cs)
  show ?case
  proof (cases "t = CMD_NORM")
    case True
    then show ?thesis using 2(2) by (intro disjI2) (auto simp: norm_cmds_def)
  next
    case False
    then have n: "norm_cmds ((t, i, d) # cs) = norm_cmds cs" by (simp add: norm_cmds_def)
    have f: "find_cmd CMD_NORM p ((t, i, d) # cs) = find_cmd CMD_NORM (p + 7 + length d) cs" using False by simp
    have "cmds_at st (p + 7 + length d) cs" using 2(2) by simp
    from 2(1) [OF this] show ?thesis unfolding n f length_Cons by (blast intro: less_SucI)
  qed
qed (simp add: norm_cmds_def)

definition all_turns :: "(nat \<Rightarrow> u32) \<Rightarrow> nat \<Rightarrow> bool \<times> bool \<times> u32" where
  "all_turns tm k = (True, True, tm k)"

definition diag_size :: "(u32 \<times> u32 \<times> bytes) list \<Rightarrow> nat" where
  "diag_size rs = (\<Sum>(i, t, d)\<leftarrow>rs. 10 + length d)"

context master
begin

lemma exec_cmd:
  assumes "cmds_at st p ((t, i, d) # cs)"
  shows "exec w (cmd_data st p) (of_nat (length d)) resp tmo = exec w d (of_nat (length d)) resp tmo"
proof -
  have u: "unat (of_nat (length d) :: u8) = length d" using assms by (simp add: unat_len8)
  have t: "take (length d) (cmd_data st p) = d" using assms by simp
  have "length d \<le> length (cmd_data st p)" using arg_cong [OF t, of length] by simp
  then show ?thesis using reads_size [of "of_nat (length d)" "cmd_data st p" w resp tmo] u t by simp
qed

lemma diag_loop_spec:
  assumes "cmds_at (cmdStorage c) p ((CMD_NORM, i, d) # cs)"
    and "run_cmds exec tm k resp w ((i, d) # norm_cmds cs) = Some (rs, w')"
    and "res_ok r" and "length (results r) + diag_size rs \<le> unat (res_max r)"
  shows "\<exists>r'. diag_loop exec (all_turns tm) k p c resp w r = Some (w', r') \<and> res_ok r' \<and> res_max r' = res_max r \<and>
     results r' = results r @ concat (map diag_rec rs)"
  using assms
proof (induction "length cs" arbitrary: p i d cs k resp w rs r rule: less_induct)
  case less
  note C = less.prems(1)
  have n: "NextCommand p CMD_NORM c = Some (find_cmd CMD_NORM (p + 7 + length d) cs)"
    by (rule NextCommand_spec [OF C]) (simp add: CMD_NORM_def CMD_END_def)
  obtain resp1 len w1 rs1 where E: "exec w d (of_nat (length d)) resp 100 = Some (resp1, len, w1)" "unat len \<le> length resp1"
    "run_cmds exec tm (k + 1) resp1 w1 (norm_cmds cs) = Some (rs1, w')"
    "rs = (if len = 0 then rs1 else (i, tm k, take (unat len) resp1) # rs1)"
    using less.prems(2) by (auto simp: bind_eq_Some_conv split: if_splits)
  have sz: "cmd_at (cmdStorage c) p = Some (CMD_NORM, of_nat (length d))" and id: "cmd_id (cmdStorage c) p = i" using C by simp_all
  define R where "R = (if len \<noteq> 0 then diag_record True (tm k) i resp1 len r else Some r)"
  obtain r1 where r1: "R = Some r1" "res_ok r1" "res_max r1 = res_max r" "length (results r1) + diag_size rs1 \<le> unat (res_max r)"
    "results r1 @ concat (map diag_rec rs1) = results r @ concat (map diag_rec rs)"
  proof (cases "len = 0")
    case True
    then show ?thesis using that [of r] less.prems(3,4) E(4) by (simp add: R_def)
  next
    case False
    let ?d = "take (unat len) resp1"
    have l: "length ?d = unat len" using E(2) by simp
    have f: "length (results r) + 10 + length ?d \<le> unat (res_max r)" using less.prems(4) E(4) False by (simp add: diag_size_def)
    obtain r1 where "diag_record True (tm k) i resp1 len r = Some r1" "res_ok r1" "res_max r1 = res_max r"
      "results r1 = results r @ diag_rec (i, tm k, ?d)"
      using diag_record_spec [OF less.prems(3) refl E(2) f] by blast
    then show ?thesis using that [of r1] False E(4) less.prems(4) by (simp add: R_def diag_size_def diag_rec_def)
  qed
  have step: "diag_loop exec (all_turns tm) k p c resp w r =
     (case find_cmd CMD_NORM (p + 7 + length d) cs of None \<Rightarrow> Some (w1, r1)
      | Some q \<Rightarrow> diag_loop exec (all_turns tm) (k + 1) q c resp1 w1 r1)"
    using r1(1) by (subst diag_loop.simps) (simp add: all_turns_def sz id exec_cmd [OF C] E(1) n R_def split: option.splits if_splits)
  consider "find_cmd CMD_NORM (p + 7 + length d) cs = None" "norm_cmds cs = []"
    | q i' d' vs where "find_cmd CMD_NORM (p + 7 + length d) cs = Some q" "cmds_at (cmdStorage c) q ((CMD_NORM, i', d') # vs)"
      "norm_cmds cs = (i', d') # norm_cmds vs" "length vs < length cs"
    using find_norm [of "cmdStorage c" "p + 7 + length d" cs] C by auto
  then show ?case
  proof cases
    case 1
    then show ?thesis using step E(3) r1 by simp
  next
    case 2
    obtain r' where "diag_loop exec (all_turns tm) (k + 1) q c resp1 w1 r1 = Some (w', r')" "res_ok r'" "res_max r' = res_max r1"
      "results r' = results r1 @ concat (map diag_rec rs1)"
      using less.hyps [OF 2(4) 2(2) E(3) [unfolded 2(3)] r1(2)] r1(3,4) by auto
    then show ?thesis using step 2(1) r1 by simp
  qed
qed

lemma DiagSequence_spec:
  assumes c: "the_calc i s = Some c" and l: "cmds_at (cmdStorage c) 0 cs" "cs \<noteq> []" "cmd c = Some 0"
    and run: "run_cmds exec tm 0 resp w (norm_cmds cs) = Some (rs, w')"
    and r: "res_ok (ds_results s)" "length (results (ds_results s)) + diag_size rs \<le> unat (res_max (ds_results s))"
  shows "\<exists>s'. DiagSequence exec (all_turns tm) resp i s w = Some (w', s') \<and> res_ok (ds_results s') \<and>
     results (ds_results s') = results (ds_results s) @ concat (map diag_rec rs)"
proof -
  have f: "FirstCommand CMD_NORM c = Some (find_cmd CMD_NORM 0 cs)"
    by (rule FirstCommand_spec [OF l(1,2) _ l(3)]) (simp add: CMD_NORM_def CMD_END_def)
  consider "find_cmd CMD_NORM 0 cs = None" "norm_cmds cs = []"
    | q j d vs where "find_cmd CMD_NORM 0 cs = Some q" "cmds_at (cmdStorage c) q ((CMD_NORM, j, d) # vs)"
      "norm_cmds cs = (j, d) # norm_cmds vs"
    using find_norm [OF l(1)] by auto
  then show ?thesis
  proof cases
    case 1
    then show ?thesis using c f run r by (simp add: DiagSequence_def)
  next
    case 2
    show ?thesis using diag_loop_spec [OF 2(2) run [unfolded 2(3)] r] c f 2(1) by (auto simp: DiagSequence_def)
  qed
qed

end

section \<open>Both communicators\<close>

lemma memcpy_length: "memcpy dst di src si n = Some m \<Longrightarrow> length m = length dst"
  by (auto simp: memcpy_def bind_eq_Some_conv dest: wr_bytes_Some(1))

lemma memcpy_take: "unat n \<le> length src \<Longrightarrow> memcpy dst di (take (unat n) src) 0 (uint n) = memcpy dst di src 0 (uint n)"
  for n :: u8
  unfolding memcpy_def by (subst rd_bytes_take) simp_all

lemma x_Send_take: "unat len \<le> length data \<Longrightarrow> x_Send lock bus ident (take (unat len) data) len x = x_Send lock bus ident data len x"
  by (simp add: x_Send_def Send_def memcpy_take)

lemma x_Send_same: "x_Send lock bus ident data len x = Some x' \<Longrightarrow> response x' = response x"
  by (auto simp: x_Send_def bind_eq_Some_conv)

lemma rcv_idle_length: "rcv_idle lock bus cal m x = Some (e, x') \<Longrightarrow> length (response x') = length (response x)"
  by (auto simp: rcv_idle_def Let_def bind_eq_Some_conv dest!: memcpy_length x_Send_same split: if_splits option.splits)

lemma rcv_ext_length: "rcv_ext m x = Some (e, x') \<Longrightarrow> length (response x') = length (response x)"
  by (auto simp: rcv_ext_def Let_def bind_eq_Some_conv dest!: memcpy_length split: if_splits)

lemma rcv_loop_length: "rcv_loop lock bus cal es x = Some x' \<Longrightarrow> length (response x') = length (response x)"
proof (induction es arbitrary: x)
  case (Cons e es)
  show ?case
  proof (cases e)
    case (Q_msg m)
    obtain b x1 where s: "(case x_state x of IDLE \<Rightarrow> rcv_idle lock bus cal m x | EXT_CMD \<Rightarrow> rcv_ext m x) = Some (b, x1)"
      "(if b then Some x1 else rcv_loop lock bus cal es x1) = Some x'"
      using Cons.prems Q_msg by (auto simp: bind_eq_Some_conv)
    have "length (response x1) = length (response x)"
      using s(1) by (cases "x_state x") (auto dest: rcv_idle_length rcv_ext_length)
    then show ?thesis using s(2) Cons.IH by (auto split: if_splits)
  qed (use Cons in auto)
qed simp

lemma ExecuteCommand_take:
  assumes "unat sz \<le> length data"
  shows "ExecuteCommand6A lock self (take (unat sz) data) sz resp rlen tmo ev m c = ExecuteCommand6A lock self data sz resp rlen tmo ev m c"
    and "ExecuteCommand68 lock self (take (unat sz) data) sz resp rlen tmo ev m c = ExecuteCommand68 lock self data sz resp rlen tmo ev m c"
  unfolding ExecuteCommand6A_def ExecuteCommand68_def x_Send_take [OF assms] memcpy_take [OF assms] by (rule refl)+

lemma ExecuteCommand6A_length:
  assumes "ExecuteCommand6A lock self data sz (Some resp) (Some n) tmo ev m c = Some (x, m')"
  shows "length (response x) = length resp"
proof (cases "com_calc m")
  case (Some cal)
  then show ?thesis using assms
    by (auto simp: ExecuteCommand6A_def Let_def bind_eq_Some_conv dest!: rcv_loop_length x_Send_same split: if_splits)
qed (use assms in \<open>auto simp: ExecuteCommand6A_def\<close>)

lemma ExecuteCommand68_length:
  assumes "ExecuteCommand68 lock self data sz (Some resp) (Some n) tmo ev m c = Some x"
  shows "length (response x) = length resp"
proof (cases "com_calc m")
  case (Some cal)
  then show ?thesis using assms
    by (auto simp: ExecuteCommand68_def Let_def bind_eq_Some_conv dest!: memcpy_length x_Send_same split: if_splits list.splits qget.splits)
qed (use assms in \<open>auto simp: ExecuteCommand68_def\<close>)

interpretation m6A: master "exec6A lock self" for lock self
proof
  fix sz :: u8 and data :: bytes and w resp tmo
  assume "unat sz \<le> length data"
  then show "exec6A lock self w data sz resp tmo = exec6A lock self w (take (unat sz) data) sz resp tmo"
    by (simp add: exec6A_def ExecuteCommand_take split: prod.splits list.splits)
next
  fix w data sz resp tmo resp' n w'
  assume "exec6A lock self w data sz resp tmo = Some (resp', n, w')"
  then show "length resp' = length resp"
    by (auto simp: exec6A_def bind_eq_Some_conv dest: ExecuteCommand6A_length split: prod.splits list.splits)
qed

interpretation m68: master "exec68 lock self" for lock self
proof
  fix sz :: u8 and data :: bytes and w resp tmo
  assume "unat sz \<le> length data"
  then show "exec68 lock self w data sz resp tmo = exec68 lock self w (take (unat sz) data) sz resp tmo"
    by (simp add: exec68_def ExecuteCommand_take split: prod.splits list.splits)
next
  fix w data sz resp tmo resp' n w'
  assume "exec68 lock self w data sz resp tmo = Some (resp', n, w')"
  then show "length resp' = length resp"
    by (auto simp: exec68_def bind_eq_Some_conv dest: ExecuteCommand68_length split: prod.splits list.splits)
qed

end
