(* ===== verification/Can_Recorder.thy ===== *)
theory Can_Recorder
  imports Can_Calc Can_Interface
begin

text \<open>
  The recorder of pieces of CAN frames (\<open>CAN/CANRecorder.cpp\<close>): learning of the interval between frames, recording of the chunks
  of a frame, and the capture of what was recorded. The pointers \<open>dt\<close> and \<open>nSamples\<close> are the offsets 4 and 6 of
  \<open>dataResult\<close>.
\<close>

definition SHIFTS_TO_DIVIDE :: nat where "SHIFTS_TO_DIVIDE = 5"
definition CAN_FRAMES_TO_WAIT :: nat where "CAN_FRAMES_TO_WAIT = 32"
definition NET_FRAME_ALLOCSZ :: nat where "NET_FRAME_ALLOCSZ = 64"
definition NET_FRAME_HEADER_SIZE :: int where "NET_FRAME_HEADER_SIZE = 8"

text \<open>\<open>tmp\<close> is the array of learned intervals, \<open>None\<close> when it has been freed. Its elements are kept as 32 bits.\<close>

record learningStuffs =
  isLearning :: bool
  nTicks :: int
  tmp :: "u32 list option"
  oldTick :: u16

record CANRecorder =
  rec_calc :: CANRecorderCalculator
  activated :: bool
  offset :: u16
  nPoints :: int
  nPointsMax :: int
  rec_data :: bytes
  lStruct :: learningStuffs

text \<open>The entries of the header: start and length of each chunk.\<close>

primrec hdr_entries :: "nat \<Rightarrow> nat \<Rightarrow> CANRecorderCalculator \<Rightarrow> bytes \<Rightarrow> bytes option" where
  "hdr_entries 0 i cal m = Some m"
| "hdr_entries (Suc k) i cal m = do {
     (s, l) \<leftarrow> GetRecordEntry (of_nat i) cal;
     m \<leftarrow> wr_bytes m (9 + int i * 2) [s];
     m \<leftarrow> wr_bytes m (10 + int i * 2) [l];
     hdr_entries k (i + 1) cal m
   }"

definition first_offset :: "CANRecorderCalculator \<Rightarrow> u16" where
  "first_offset cal = word_of_int (NET_FRAME_HEADER_SIZE + 1 + uint (GetNChunks cal) * 2)"

text \<open>The constructor; \<open>blk\<close> and \<open>ticks\<close> are the blocks the allocator returns, \<open>self\<close> is the address of the object. The
  recorder is called for every frame of both busses.\<close>

definition CANRecorder_new :: "u32 \<Rightarrow> u32 \<Rightarrow> bytes option \<Rightarrow> u32 list option \<Rightarrow> CANRecorderCalculator \<Rightarrow> CANInterface \<Rightarrow>
    (CANRecorder \<times> CANInterface) option" where
  "CANRecorder_new lock self blk ticks cal itf = do {
     m \<leftarrow> blk;
     let n = uint (GetNChunks cal);
     m \<leftarrow> wr_bytes m 0 (replicate (nat (8 + 1 + n * 2)) 0);
     m \<leftarrow> wr_bytes m 0 (le_bytes 4 (uint (GetRxAddr cal)));
     m \<leftarrow> wr_bytes m 8 [GetNChunks cal];
     m \<leftarrow> hdr_entries (nat n) 0 cal m;
     itf \<leftarrow> AddCallBackForId lock (word_of_int CAN_BUS_DONT_CARE) CAN_ID_PROMISCUOUS_MODE self itf;
     Some (\<lparr>rec_calc = cal, activated = True, offset = first_offset cal, nPoints = 0, nPointsMax = 1, rec_data = m,
        lStruct = \<lparr>isLearning = True, nTicks = int CAN_FRAMES_TO_WAIT, tmp = ticks, oldTick = 0\<rparr>\<rparr>, itf)
   }"

definition Activate :: "CANRecorder \<Rightarrow> CANRecorder" where
  "Activate r = r\<lparr>activated := True\<rparr>"

definition DeActivate :: "CANRecorder \<Rightarrow> CANRecorder" where
  "DeActivate r = r\<lparr>activated := False\<rparr>"

text \<open>\<open>Capture(data, len)\<close>: \<open>*len\<close> is read first, as the room in the buffer.\<close>

definition rec_Capture :: "bytes \<Rightarrow> u16 \<Rightarrow> CANRecorder \<Rightarrow> (bytes \<times> u16 \<times> CANRecorder) option" where
  "rec_Capture buf len r =
     (if \<not> isLearning (lStruct r) \<and> nPoints r \<noteq> 0 then do {
        (buf, len, r) \<leftarrow>
          (if offset r < len then do {
             m \<leftarrow> wr_bytes (rec_data r) 6 (le_bytes 2 (uint (offset r)));
             let r = r\<lparr>rec_data := m\<rparr>;
             buf \<leftarrow> memcpy buf 0 (rec_data r) 0 (uint (offset r));
             Some (buf, offset r, r)
           }
           else Some (buf, 0, r));
        Some (buf, len, r\<lparr>nPoints := 0, offset := first_offset (rec_calc r)\<rparr>)
      }
      else Some (buf, 0, r))"

text \<open>Learning from a frame at the time \<open>t\<close>. \<open>oldTick\<close> keeps the low half of the time.\<close>

definition learn :: "u32 \<Rightarrow> CANRecorder \<Rightarrow> CANRecorder option" where
  "learn t r =
     (let l = lStruct r in
      if nTicks l \<noteq> 0 then
        if oldTick l = 0 then Some (r\<lparr>lStruct := l\<lparr>oldTick := ucast t\<rparr>\<rparr>)
        else do {
          a \<leftarrow> tmp l;
          if 0 < nTicks l \<and> nat (nTicks l - 1) < length a
          then Some (r\<lparr>lStruct := l\<lparr>tmp := Some (a[nat (nTicks l - 1) := ucast (oldTick l) - t]), oldTick := ucast t,
                  nTicks := nTicks l - 1\<rparr>\<rparr>)
          else None
        }
      else do {
        a \<leftarrow> tmp l;
        if CAN_FRAMES_TO_WAIT \<le> length a then do {
          let s = sum_list (take CAN_FRAMES_TO_WAIT a);
          m \<leftarrow> wr_bytes (rec_data r) 4 (le_bytes 2 (uint (ucast (drop_bit 5 s) :: u16)));
          Some (r\<lparr>lStruct := l\<lparr>tmp := None, isLearning := False\<rparr>, rec_data := m\<rparr>)
        }
        else None
      })"

text \<open>The chunks of a frame with the bytes \<open>d\<close>.\<close>

primrec rec_chunks :: "nat \<Rightarrow> nat \<Rightarrow> bytes \<Rightarrow> CANRecorder \<Rightarrow> CANRecorder option" where
  "rec_chunks 0 i d r = Some r"
| "rec_chunks (Suc k) i d r = do {
     (s, l) \<leftarrow> GetRecordEntry (of_nat i) (rec_calc r);
     r \<leftarrow> (if uint (offset r) + uint l < int NET_FRAME_ALLOCSZ then do {
             m \<leftarrow> memcpy (rec_data r) (uint (offset r)) d (uint s) (uint l);
             Some (r\<lparr>rec_data := m, offset := offset r + ucast l\<rparr>)
           }
           else Some r);
     rec_chunks k (i + 1) d r
   }"

definition rec_event :: "u32 \<Rightarrow> int \<Rightarrow> CANMessage \<Rightarrow> CANRecorder \<Rightarrow> CANRecorder option" where
  "rec_event t ID m r =
     (if ID AND 0x0f = CAN_CALLBACK \<and> activated r then
        if msg_id m = GetRxAddr (rec_calc r) then
          if isLearning (lStruct r) then learn t r
          else if nPoints r < nPointsMax r then do {
            r \<leftarrow> rec_chunks (unat (GetNChunks (rec_calc r))) 0 (msg_data m) r;
            Some (r\<lparr>nPoints := nPoints r + 1\<rparr>)
          }
          else Some r
        else Some r
      else Some r)"

section \<open>Recording and capturing\<close>

definition rec_entries :: "CANRecorderCalculator \<Rightarrow> (u8 \<times> u8) list" where
  "rec_entries cal = map (\<lambda>i. (recordData cal ! (2 * i), recordData cal ! (2 * i + 1))) [0..<unat (GetNChunks cal)]"

definition piece :: "bytes \<Rightarrow> u8 \<times> u8 \<Rightarrow> bytes" where
  "piece d e = take (unat (snd e)) (drop (unat (fst e)) d)"

definition pieces :: "bytes \<Rightarrow> (u8 \<times> u8) list \<Rightarrow> bytes" where
  "pieces d es = concat (map (piece d) es)"

text \<open>What a description that was validated says of its chunks.\<close>

definition chunks_ok :: "CANRecorderCalculator \<Rightarrow> bool" where
  "chunks_ok cal \<longleftrightarrow> recordEntries cal = Some 0 \<and> 2 * unat (GetNChunks cal) \<le> length (recordData cal) \<and>
     (\<forall>(s, l)\<in>set (rec_entries cal). unat s + unat l \<le> 8)"

lemma validate_chunks_entries:
  "validate_chunks k i d \<Longrightarrow> j < k \<Longrightarrow> unat (d ! (2 * (i + j))) + unat (d ! (2 * (i + j) + 1)) \<le> 8"
proof (induction k arbitrary: i j)
  case (Suc k)
  have "\<not> 8 < uint (d ! (2 * i)) + uint (d ! (2 * i + 1))" and v: "validate_chunks k (i + 1) d"
    using Suc.prems(1) by (simp_all add: Let_def split: if_splits)
  then have z: "unat (d ! (2 * i)) + unat (d ! (2 * i + 1)) \<le> 8" unfolding uint_nat by linarith
  show ?case
  proof (cases j)
    case 0
    then show ?thesis using z by simp
  next
    case (Suc j')
    then show ?thesis using Suc.IH [OF v, of j'] Suc.prems(2) by simp
  qed
qed simp

lemma Validate_chunks_ok:
  "rc_Validate cal = Some (True, cal') \<Longrightarrow> recordEntries cal = Some 0 \<Longrightarrow> 2 * unat (GetNChunks cal) \<le> length (recordData cal) \<Longrightarrow> chunks_ok cal"
  using validate_chunks_entries [of "unat (GetNChunks cal)" 0 "recordData cal"]
  by (auto simp: rc_Validate_def GetNChunks_def chunks_ok_def rec_entries_def Let_def split: if_splits)

lemma GetRecordEntry_nth:
  assumes "i < unat (GetNChunks cal)" and ok: "chunks_ok cal"
  shows "GetRecordEntry (of_nat i) cal = Some (rec_entries cal ! i)" and "i < length (rec_entries cal)"
proof -
  have "i < 2 ^ LENGTH(8)" by (rule less_trans [OF assms(1) unat_lt])
  then have u: "unat (of_nat i :: u8) = i" by (rule unat_of_nat_lt)
  then have lt: "(of_nat i :: u8) < GetNChunks cal" using assms(1) by (simp add: word_less_nat_alt)
  have ui: "uint (of_nat i :: u8) = int i" using u by (metis uint_nat)
  have "2 * i + 2 \<le> length (recordData cal)" using ok assms(1) by (simp add: chunks_ok_def)
  then have "rd_bytes (recordData cal) (2 * int i) 2 = Some (take 2 (drop (2 * i) (recordData cal)))" by (simp add: rd_bytes_def nat_mult_distrib)
  moreover have "take 2 (drop (2 * i) (recordData cal)) ! 0 = recordData cal ! (2 * i)"
    "take 2 (drop (2 * i) (recordData cal)) ! 1 = recordData cal ! (2 * i + 1)"
    using \<open>2 * i + 2 \<le> length (recordData cal)\<close> by simp_all
  ultimately show "GetRecordEntry (of_nat i) cal = Some (rec_entries cal ! i)" "i < length (rec_entries cal)"
    using assms(1) ok lt by (simp_all add: GetRecordEntry_def rec_entries_def chunks_ok_def ui)
qed

lemma wr_behind_rec:
  assumes "take n b = x" and "length x = n" and "n + length d \<le> length b"
  shows "\<exists>b'. wr_bytes b (int n) d = Some b' \<and> length b' = length b \<and> take (n + length d) b' = x @ d"
  using assms by (auto simp: wr_bytes_def)

text \<open>The chunks that are recorded: one that would take the frame to its 64 bytes or over them is left out, and the next ones are tried.\<close>

fun fitting :: "nat \<Rightarrow> (u8 \<times> u8) list \<Rightarrow> (u8 \<times> u8) list" where
  "fitting n [] = []"
| "fitting n ((s, l) # es) = (if n + unat l < 64 then (s, l) # fitting (n + unat l) es else fitting n es)"

lemma length_pieces_fitting: "length d = 8 \<Longrightarrow> \<forall>(s, l)\<in>set es. unat s + unat l \<le> 8 \<Longrightarrow> n < 64 \<Longrightarrow> n + length (pieces d (fitting n es)) < 64"
proof (induction n es rule: fitting.induct)
  case (2 n s l es)
  then have "unat s + unat l \<le> 8" by simp
  then have "unat l \<le> 8 - unat s" by linarith
  then have "length (piece d (s, l)) = unat l" using 2(3) by (simp add: piece_def)
  then show ?case using 2 by (auto simp: pieces_def add.assoc)
qed (simp add: pieces_def)

lemma rec_chunks_spec:
  assumes "chunks_ok (rec_calc r)" and "i + k = unat (GetNChunks (rec_calc r))" and "uint (offset r) = int n" and "length d = 8"
    and "length (rec_data r) = 64" and "n < 64" and "p = pieces d (fitting n (drop i (rec_entries (rec_calc r))))"
  shows "\<exists>m. rec_chunks k i d r = Some (r\<lparr>rec_data := m, offset := of_nat (n + length p)\<rparr>) \<and> length m = 64 \<and>
     take (n + length p) m = take n (rec_data r) @ p"
  using assms
proof (induction k arbitrary: i n r p)
  case 0
  have e: "p = []" using 0(2,7) by (simp add: rec_entries_def pieces_def)
  have "offset r = of_nat n" using 0(3) by (metis of_int_of_nat_eq word_of_int_uint)
  then have "r\<lparr>rec_data := rec_data r, offset := of_nat n\<rparr> = r" by simp
  then show ?case unfolding e using 0(5) by (intro exI [of _ "rec_data r"]) simp
next
  case (Suc k)
  let ?es = "rec_entries (rec_calc r)"
  have i: "i < unat (GetNChunks (rec_calc r))" using Suc.prems(2) by simp
  note G = GetRecordEntry_nth [OF i Suc.prems(1)]
  obtain s l where e: "?es ! i = (s, l)" by fastforce
  have dr: "drop i ?es = (s, l) # drop (Suc i) ?es" using G(2) e by (metis Cons_nth_drop_Suc)
  have sl: "unat s + unat l \<le> 8" using Suc.prems(1) e nth_mem [OF G(2)] by (auto simp: chunks_ok_def)
  have iff: "uint (offset r) + uint l < int NET_FRAME_ALLOCSZ \<longleftrightarrow> n + unat l < 64"
    unfolding Suc.prems(3) uint_nat [of l] NET_FRAME_ALLOCSZ_def by linarith
  show ?case
  proof (cases "n + unat l < 64")
    case False
    have p: "p = pieces d (fitting n (drop (Suc i) ?es))" using False Suc.prems(7) by (simp add: dr)
    have "rec_chunks (Suc k) i d r = rec_chunks k (Suc i) d r" using G(1) e False iff by simp
    then show ?thesis using Suc.IH [OF Suc.prems(1) _ Suc.prems(3-6) p] Suc.prems(2) by auto
  next
    case True
    let ?p = "piece d (s, l)" and ?q = "pieces d (fitting (n + unat l) (drop (Suc i) ?es))"
    have lp: "length ?p = unat l" using sl Suc.prems(4) by (simp add: piece_def)
    have pq: "p = ?p @ ?q" using True Suc.prems(7) by (simp add: dr pieces_def)
    have "rd_bytes d (int a) (int b) = Some (take b (drop a d))" if "a + b \<le> 8" for a b
      using that Suc.prems(4) by (simp add: rd_bytes_def)
    from this [OF sl] have rd: "rd_bytes d (uint s) (uint l) = Some ?p" by (simp add: piece_def)
    obtain b where b: "wr_bytes (rec_data r) (int n) ?p = Some b" "length b = 64" "take (n + unat l) b = take n (rec_data r) @ ?p"
      using wr_behind_rec [of n "rec_data r" "take n (rec_data r)" ?p] True Suc.prems(5) lp by auto
    let ?r = "r\<lparr>rec_data := b, offset := offset r + ucast l\<rparr>"
    have "offset r = of_nat n" using Suc.prems(3) by (metis of_int_of_nat_eq word_of_int_uint)
    moreover have "ucast l = (of_nat (unat l) :: u16)" by (simp add: unsigned_ucast_eq)
    ultimately have o: "offset ?r = of_nat (n + unat l)" by simp
    have "unat (of_nat (n + unat l) :: u16) = n + unat l" by (rule unat_of_nat_lt) (use True in simp)
    then have o': "uint (offset ?r) = int (n + unat l)" unfolding o by (metis uint_nat)
    obtain m where m: "rec_chunks k (Suc i) d ?r = Some (?r\<lparr>rec_data := m, offset := of_nat (n + unat l + length ?q)\<rparr>)" "length m = 64"
      "take (n + unat l + length ?q) m = take (n + unat l) b @ ?q"
      using Suc.IH [of ?r "Suc i" "n + unat l" ?q] Suc.prems(1,2,4) o' b(2) True by auto
    have st: "rec_chunks (Suc k) i d r = rec_chunks k (Suc i) d ?r"
      using G(1) iff True rd b(1) Suc.prems(3) e by (simp add: memcpy_def)
    have L: "n + length p = n + unat l + length ?q" unfolding pq using lp by simp
    show ?thesis unfolding L st using m b(3) pq by (intro exI [of _ m]) simp
  qed
qed

text \<open>The frame that is sent: address, interval, size, the table of all chunks, and the bytes of those that fit.\<close>

definition rec_table :: "CANRecorderCalculator \<Rightarrow> bytes" where
  "rec_table cal = GetNChunks cal # concat (map (\<lambda>(s, l). [s, l]) (rec_entries cal))"

definition rec_frame :: "CANRecorderCalculator \<Rightarrow> bytes \<Rightarrow> bytes \<Rightarrow> bytes" where
  "rec_frame cal interval d =
     (let p = pieces d (fitting (8 + length (rec_table cal)) (rec_entries cal)) in
      le_bytes 4 (uint (GetRxAddr cal)) @ interval @ le_bytes 2 (int (8 + length (rec_table cal) + length p)) @ rec_table cal @ p)"

text \<open>A recorder that waits for a frame; \<open>x\<close> are the two bytes of the size, not yet filled in.\<close>

definition rec_hdr :: "CANRecorder \<Rightarrow> bytes \<Rightarrow> bool" where
  "rec_hdr r interval \<longleftrightarrow> length (rec_data r) = 64 \<and> length interval = 2 \<and> chunks_ok (rec_calc r) \<and> GetNChunks (rec_calc r) < 8 \<and> nPointsMax r = 1 \<and>
     offset r = first_offset (rec_calc r) \<and> nPoints r = 0 \<and> activated r \<and>
     (\<exists>x. length x = 2 \<and> take (8 + length (rec_table (rec_calc r))) (rec_data r) =
        le_bytes 4 (uint (GetRxAddr (rec_calc r))) @ interval @ x @ rec_table (rec_calc r))"

lemma length_rec_table: "length (rec_table cal) = 1 + 2 * unat (GetNChunks cal)"
proof -
  have z: "length (concat (map (\<lambda>(s, l). [s, l]) es)) = 2 * length es" for es :: "(u8 \<times> u8) list" by (induction es) auto
  have "length (rec_table cal) = 1 + 2 * length (rec_entries cal)" unfolding rec_table_def by (simp only: list.size z)
  then show ?thesis by (simp add: rec_entries_def)
qed

lemma first_offset_table: "GetNChunks cal < 8 \<Longrightarrow> uint (first_offset cal) = int (8 + length (rec_table cal))"
proof -
  assume "GetNChunks cal < 8"
  then have n: "unat (GetNChunks cal) < 8" by (simp add: word_less_nat_alt)
  have "first_offset cal = of_nat (8 + length (rec_table cal))"
  proof -
    have "NET_FRAME_HEADER_SIZE + 1 + uint (GetNChunks cal) * 2 = int (8 + length (rec_table cal))"
      unfolding length_rec_table uint_nat [of "GetNChunks cal"] NET_FRAME_HEADER_SIZE_def by linarith
    then show ?thesis unfolding first_offset_def by (metis of_int_of_nat_eq)
  qed
  moreover have "unat (of_nat (8 + length (rec_table cal)) :: u16) = 8 + length (rec_table cal)"
    by (rule unat_of_nat_lt) (use n length_rec_table [of cal] in simp)
  ultimately show ?thesis by (metis uint_nat)
qed

lemma memcpy_front: "n \<le> length m \<Longrightarrow> n \<le> length buf \<Longrightarrow> memcpy buf 0 m 0 (int n) = Some (take n m @ drop n buf)"
  by (simp add: memcpy_def rd_bytes_def wr_bytes_def)

lemma recorder_spec:
  assumes h: "rec_hdr r interval" and l: "\<not> isLearning (lStruct r)"
    and m: "msg_id m = GetRxAddr (rec_calc r)" "length (msg_data m) = 8" "ID AND 0x0f = CAN_CALLBACK"
    and buf: "unat len \<le> length buf"
  shows "\<exists>r1 buf' len' r2. rec_event t ID m r = Some r1 \<and> rec_Capture buf len r1 = Some (buf', len', r2) \<and>
     (if length (rec_frame (rec_calc r) interval (msg_data m)) < unat len then take (unat len') buf' = rec_frame (rec_calc r) interval (msg_data m)
      else len' = 0 \<and> buf' = buf) \<and> rec_hdr r2 interval \<and> rec_calc r2 = rec_calc r \<and> lStruct r2 = lStruct r"
proof -
  let ?cal = "rec_calc r" and ?d = "msg_data m"
  let ?h = "8 + length (rec_table ?cal)"
  let ?p = "pieces ?d (fitting ?h (rec_entries ?cal))"
  have L: "length (rec_frame ?cal interval ?d) = ?h + length ?p"
    using h by (simp add: rec_frame_def rec_hdr_def Let_def)
  have "unat (GetNChunks ?cal) < 8" using h by (simp add: rec_hdr_def word_less_nat_alt)
  then have h64: "?h < 64" unfolding length_rec_table by linarith
  have ok: "chunks_ok ?cal" using h by (simp add: rec_hdr_def)
  then have p64: "?h + length ?p < 64" using length_pieces_fitting [OF m(2) _ h64] by (simp add: chunks_ok_def)
  have o: "uint (offset r) = int ?h" using h first_offset_table by (simp add: rec_hdr_def)
  obtain x where x: "length x = 2" "take ?h (rec_data r) = le_bytes 4 (uint (GetRxAddr ?cal)) @ interval @ x @ rec_table ?cal"
    using h by (auto simp: rec_hdr_def)
  obtain b where b: "rec_chunks (unat (GetNChunks ?cal)) 0 ?d r = Some (r\<lparr>rec_data := b, offset := of_nat (?h + length ?p)\<rparr>)" "length b = 64"
    "take (?h + length ?p) b = take ?h (rec_data r) @ ?p"
    using rec_chunks_spec [of r 0 "unat (GetNChunks ?cal)" ?h ?d ?p] h o m(2) h64 by (auto simp: rec_hdr_def)
  let ?r1 = "r\<lparr>rec_data := b, offset := of_nat (?h + length ?p), nPoints := nPoints r + 1\<rparr>"
  have e: "rec_event t ID m r = Some ?r1" using h l m b(1) by (simp add: rec_event_def rec_hdr_def)
  define n where "n = ?h + length ?p"
  have u: "unat (of_nat n :: u16) = n" by (rule unat_of_nat_lt) (use p64 n_def in simp)
  then have ui: "uint (of_nat n :: u16) = int n" by (metis uint_nat)
  have ld: "length b = 64" by (rule b)
  have fc: "first_offset ?cal = offset r" using h by (simp add: rec_hdr_def)
  show ?thesis
  proof (cases "n < unat len")
    case False
    then have "\<not> (of_nat n :: u16) < len" using u by (simp add: word_less_nat_alt)
    then have c: "rec_Capture buf len ?r1 = Some (buf, 0, ?r1\<lparr>nPoints := 0, offset := first_offset ?cal\<rparr>)"
      using l h by (simp add: rec_Capture_def rec_hdr_def n_def [symmetric] del: of_nat_add)
    have "take ?h b = take ?h (take (?h + length ?p) b)" by simp
    also have "\<dots> = take ?h (rec_data r)" unfolding b(3) using h h64 by (simp add: rec_hdr_def)
    finally have "rec_hdr (?r1\<lparr>nPoints := 0, offset := first_offset ?cal\<rparr>) interval" using h ld by (simp add: rec_hdr_def)
    then show ?thesis using e c L False by (auto simp: n_def)
  next
    case True
    have n: "n < 64" "n \<le> length buf" "n < unat len" using p64 buf True by (simp_all add: n_def)
    have lt: "(of_nat n :: u16) < len" using n(3) u by (simp add: word_less_nat_alt)
    let ?b = "take 6 b @ le_bytes 2 (int n) @ drop 8 b"
    have w: "wr_bytes b 6 (le_bytes 2 (int n)) = Some ?b" using ld by (simp add: wr_bytes_def)
    have tk: "take n b = le_bytes 4 (uint (GetRxAddr ?cal)) @ interval @ x @ rec_table ?cal @ ?p" using b(3) x(2) by (simp add: n_def)
    have il: "length interval = 2" using h by (simp add: rec_hdr_def)
    have b6: "take 6 b = le_bytes 4 (uint (GetRxAddr ?cal)) @ interval"
    proof -
      have "take 6 (take n b) = take 6 b" by (simp add: n_def min_def)
      then show ?thesis unfolding tk using il by simp
    qed
    have b8: "take (n - 8) (drop 8 b) = rec_table ?cal @ ?p"
    proof -
      have "drop 8 (take n b) = take (n - 8) (drop 8 b)" by (simp add: drop_take)
      then show ?thesis unfolding tk using il x(1) by simp
    qed
    have fr: "take n ?b = rec_frame ?cal interval ?d"
    proof -
      have "take n ?b = take 6 b @ le_bytes 2 (int n) @ take (n - 8) (drop 8 b)" using ld by (simp add: n_def min_def)
      then show ?thesis unfolding b6 b8 by (simp add: rec_frame_def Let_def n_def)
    qed
    have lb: "length ?b = 64" using ld by simp
    have "memcpy buf 0 ?b 0 (int n) = Some (take n ?b @ drop n buf)"
      by (rule memcpy_front) (use n lb in linarith)+
    then have c: "rec_Capture buf len ?r1 = Some (take n ?b @ drop n buf, of_nat n,
        ?r1\<lparr>rec_data := ?b, nPoints := 0, offset := first_offset ?cal\<rparr>)"
      using l lt w ui h by (simp add: rec_Capture_def rec_hdr_def n_def [symmetric] del: of_nat_add)
    have "take ?h ?b = le_bytes 4 (uint (GetRxAddr ?cal)) @ interval @ le_bytes 2 (int n) @ rec_table ?cal"
    proof -
      have "min ?h n = ?h" by (simp add: n_def)
      then have "take ?h ?b = take ?h (take n ?b)" unfolding take_take by (rule arg_cong [OF sym])
      then show ?thesis unfolding fr using il by (simp add: rec_frame_def Let_def n_def)
    qed
    then have "rec_hdr (?r1\<lparr>rec_data := ?b, nPoints := 0, offset := first_offset ?cal\<rparr>) interval"
      using h lb by (auto simp: rec_hdr_def)
    moreover have "take (unat (of_nat n :: u16)) (rec_frame ?cal interval ?d @ drop n buf) = rec_frame ?cal interval ?d"
      unfolding u using L by (simp add: n_def)
    ultimately show ?thesis using e c [unfolded fr] True
      by (intro exI [of _ ?r1] exI [of _ "rec_frame ?cal interval ?d @ drop n buf"] exI [of _ "of_nat n"]
          exI [of _ "?r1\<lparr>rec_data := ?b, nPoints := 0, offset := first_offset ?cal\<rparr>"]) (simp add: L n_def)
  qed
qed

section \<open>Learning\<close>

text \<open>The same frame at the times \<open>ts\<close>.\<close>

primrec hear :: "CANMessage \<Rightarrow> u32 list \<Rightarrow> CANRecorder \<Rightarrow> CANRecorder option" where
  "hear m [] r = Some r"
| "hear m (t # ts) r = do { r \<leftarrow> rec_event t CAN_CALLBACK m r; hear m ts r }"

definition learning :: "CANMessage \<Rightarrow> CANRecorder \<Rightarrow> nat \<Rightarrow> u16 \<Rightarrow> u32 list \<Rightarrow> bool" where
  "learning m r k old ds \<longleftrightarrow> activated r \<and> GetRxAddr (rec_calc r) = msg_id m \<and> isLearning (lStruct r) \<and> nTicks (lStruct r) = int k \<and> oldTick (lStruct r) = old \<and>
     (\<exists>a. tmp (lStruct r) = Some a \<and> length a = 32 \<and> k + length ds = 32 \<and> drop k a = ds)"

lemma learn_step:
  assumes "learning m r (Suc k) old ds" and "old \<noteq> 0"
  shows "\<exists>r'. rec_event t CAN_CALLBACK m r = Some r' \<and> learning m r' k (ucast t) ((ucast old - t) # ds) \<and> rec_data r' = rec_data r"
proof -
  obtain a where a: "tmp (lStruct r) = Some a" "length a = 32" "k + length ds = 31" "drop (Suc k) a = ds"
    and l: "activated r" "GetRxAddr (rec_calc r) = msg_id m" "isLearning (lStruct r)" "nTicks (lStruct r) = 1 + int k" "oldTick (lStruct r) = old"
    using assms(1) by (auto simp: learning_def)
  have k: "k < length a" using a by simp
  have "drop k (a[k := ucast old - t]) = (ucast old - t) # ds"
    using k a(4) by (simp add: Cons_nth_drop_Suc [symmetric])
  then show ?thesis using a l assms(2) k by (simp add: rec_event_def CAN_CALLBACK_def learn_def learning_def Let_def)
qed

lemma ucast_of_nat_up: "n < 2 ^ 16 \<Longrightarrow> ucast (of_nat n :: u16) = (of_nat n :: u32)"
  by (simp add: unsigned_of_nat unsigned_ucast_eq take_bit_nat_eq_self)

lemma ucast_of_nat_16: "ucast (of_nat n :: u32) = (of_nat n :: u16)"
  by (simp add: word_unat_eq_iff unsigned_ucast_eq unsigned_of_nat take_bit_take_bit)

lemma drop_bit_of_nat: "n < 2 ^ 32 \<Longrightarrow> drop_bit 5 (of_nat n :: u32) = of_nat (n div 32)"
proof -
  assume "n < 2 ^ 32"
  then have n: "unat (of_nat n :: u32) = n" "unat (of_nat (n div 32) :: u32) = n div 32" by (intro unat_of_nat_lt; simp)+
  have "unat (drop_bit 5 (of_nat n :: u32)) = n div 32" using n(1) by (simp add: unat_drop_bit_eq drop_bit_eq_div unat_div_distrib)
  then show ?thesis using n(2) by (metis word_unat_eq_iff)
qed

lemma le_bytes2_mod: "le_bytes 2 (x mod 65536) = le_bytes 2 x"
proof -
  have a: "x mod 65536 mod 256 = x mod 256" by (simp add: mod_mod_cancel)
  have "x mod (256 * 256) = 256 * (x div 256 mod 256) + x mod 256" by (rule zmod_zmult2_eq) simp
  then have "x mod 65536 div 256 = x div 256 mod 256" by simp
  then have b: "x mod 65536 div 256 mod 256 = x div 256 mod 256" by simp
  have "(word_of_int (x mod 65536) :: u8) = word_of_int x" "(word_of_int (x mod 65536 div 256) :: u8) = word_of_int (x div 256)"
    using a b by (simp_all add: word_of_int_eq_iff take_bit_eq_mod)
  then show ?thesis by (simp add: numeral_2_eq_2)
qed

text \<open>Frames at a regular interval \<open>d\<close>, before the clock passes 16 bits.\<close>

lemma learn_regular:
  assumes "learning m r k (of_nat t) ds" and "0 < t" and "t + k * d < 2 ^ 16" and "\<forall>x\<in>set ds. x = - of_nat d"
  shows "\<exists>r' ds'. hear m (map (\<lambda>j. of_nat (t + Suc j * d)) [0..<k]) r = Some r' \<and> learning m r' 0 (of_nat (t + k * d)) ds' \<and>
     (\<forall>x\<in>set ds'. x = - of_nat d) \<and> rec_data r' = rec_data r"
  using assms
proof (induction k arbitrary: r t ds)
  case 0
  then show ?case by auto
next
  case (Suc k)
  have t: "t < 2 ^ 16" "t + d < 2 ^ 16" using Suc.prems(3) by simp_all
  have n0: "(of_nat t :: u16) \<noteq> 0"
    using unat_of_nat_lt [of t, where ?'a = 16] t Suc.prems(2) by auto
  note c = ucast_of_nat_up [OF t(1)] ucast_of_nat_16 [of "t + d"]
  obtain r1 where r1: "rec_event (of_nat (t + d)) CAN_CALLBACK m r = Some r1" "learning m r1 k (of_nat (t + d)) ((of_nat t - of_nat (t + d)) # ds)"
    "rec_data r1 = rec_data r"
    using learn_step [OF Suc.prems(1) n0, of "of_nat (t + d)"] unfolding c by blast
  have ds: "\<forall>x\<in>set ((of_nat t - of_nat (t + d)) # ds). x = - of_nat d" using Suc.prems(4) by simp
  obtain r' ds' where r': "hear m (map (\<lambda>j. of_nat (t + d + Suc j * d)) [0..<k]) r1 = Some r'" "learning m r' 0 (of_nat (t + d + k * d)) ds'"
    "\<forall>x\<in>set ds'. x = - of_nat d" "rec_data r' = rec_data r1"
    using Suc.IH [OF r1(2) _ _ ds] Suc.prems(2,3) by (auto simp: algebra_simps)
  have "[0..<Suc k] = 0 # map Suc [0..<k]" by (simp add: upt_conv_Cons map_Suc_upt del: upt_Suc)
  then have e: "map (\<lambda>j. of_nat (t + Suc j * d)) [0..<Suc k] = (of_nat (t + d) :: u32) # map (\<lambda>j. of_nat (t + d + Suc j * d)) [0..<k]"
    by (simp add: o_def algebra_simps)
  show ?case unfolding e using r1 r' by (auto simp: algebra_simps)
qed

lemma sum_list_same: "\<forall>x\<in>set xs. x = c \<Longrightarrow> sum_list xs = of_nat (length xs) * c" for c :: u32
  by (induction xs) (auto simp: algebra_simps)

lemma learn_last:
  assumes "learning m r 0 old ds" and "\<forall>x\<in>set ds. x = - of_nat d" and "0 < d" and "d < 2 ^ 16" and "6 \<le> length (rec_data r)"
  shows "\<exists>r'. rec_event t CAN_CALLBACK m r = Some r' \<and> \<not> isLearning (lStruct r') \<and> take 2 (drop 4 (rec_data r')) = le_bytes 2 (- int d)"
proof -
  obtain a where a: "tmp (lStruct r) = Some a" "length a = 32" "length ds = 32" "a = ds"
    and l: "activated r" "GetRxAddr (rec_calc r) = msg_id m" "isLearning (lStruct r)" "nTicks (lStruct r) = 0" using assms(1) by (auto simp: learning_def)
  have "sum_list ds = 32 * (- of_nat d)" using sum_list_same [OF assms(2)] a(3) by simp
  then have s: "sum_list (take 32 a) = - (32 * of_nat d)" using a by simp
  have "(- (32 * of_nat d) :: u32) = of_nat (2 ^ 32 - 32 * d)" using assms(4) by (simp add: of_nat_diff)
  moreover have "(2 ^ 32 - 32 * d) div 32 = 2 ^ 27 - d" by simp
  ultimately have w: "(ucast (drop_bit 5 (- (32 * of_nat d) :: u32)) :: u16) = of_nat (2 ^ 27 - d)"
    using drop_bit_of_nat [of "2 ^ 32 - 32 * d"] assms(3) ucast_of_nat_16 by simp
  have "uint (of_nat (2 ^ 27 - d) :: u16) = (- int d) mod 65536"
  proof -
    have "uint (of_nat (2 ^ 27 - d) :: u16) = int (2 ^ 27 - d) mod 65536" by (simp add: unsigned_of_nat take_bit_eq_mod zmod_int)
    also have "int (2 ^ 27 - d) = - int d + 2048 * 65536" using assms(4) by simp
    also have "(- int d + 2048 * 65536) mod 65536 = (- int d) mod 65536" by (rule mod_mult_self1)
    finally show ?thesis .
  qed
  then have "le_bytes 2 (uint (ucast (drop_bit 5 (- (32 * of_nat d) :: u32)) :: u16)) = le_bytes 2 (- int d)"
    unfolding w by (simp add: le_bytes2_mod)
  then show ?thesis using a l s assms(5)
    by (auto simp: rec_event_def CAN_CALLBACK_def learn_def Let_def CAN_FRAMES_TO_WAIT_def wr_bytes_def)
qed

text \<open>A new recorder: the header is in place, and it waits for the first frame.\<close>

lemma hdr_entries_spec:
  assumes "i + k = unat (GetNChunks cal)" and "take (9 + 2 * i) m = x" and "length x = 9 + 2 * i" and "length m = 64" and "unat (GetNChunks cal) < 8" and "chunks_ok cal"
  shows "\<exists>m'. hdr_entries k i cal m = Some m' \<and> length m' = 64 \<and>
     take (9 + 2 * (i + k)) m' = x @ concat (map (\<lambda>(s, l). [s, l]) (drop i (rec_entries cal)))"
  using assms
proof (induction k arbitrary: i m x)
  case 0
  then show ?case by (simp add: rec_entries_def)
next
  case (Suc k)
  have i: "i < unat (GetNChunks cal)" using Suc.prems(1) by simp
  obtain s l where e: "rec_entries cal ! i = (s, l)" by fastforce
  have dr: "drop i (rec_entries cal) = (s, l) # drop (Suc i) (rec_entries cal)"
    using GetRecordEntry_nth(2) [OF i Suc.prems(6)] e by (metis Cons_nth_drop_Suc)
  obtain m1 where m1: "wr_bytes m (int (9 + 2 * i)) [s] = Some m1" "length m1 = 64" "take (9 + 2 * i + 1) m1 = x @ [s]"
    using wr_behind_rec [OF Suc.prems(2,3), of "[s]"] Suc.prems(1,4,5) by auto
  obtain m2 where m2: "wr_bytes m1 (int (9 + 2 * i + 1)) [l] = Some m2" "length m2 = 64" "take (9 + 2 * i + 1 + 1) m2 = (x @ [s]) @ [l]"
    using wr_behind_rec [OF m1(3), of "[l]"] Suc.prems(1,3,5) m1(2) by auto
  have m2': "take (9 + 2 * Suc i) m2 = x @ [s, l]" using m2(3) by simp
  obtain m' where m': "hdr_entries k (Suc i) cal m2 = Some m'" "length m' = 64"
    "take (9 + 2 * (Suc i + k)) m' = (x @ [s, l]) @ concat (map (\<lambda>(s, l). [s, l]) (drop (Suc i) (rec_entries cal)))"
    using Suc.IH [OF _ m2' _ m2(2)] Suc.prems(1,3,5,6) by auto
  have "hdr_entries (Suc k) i cal m = Some m'"
    using GetRecordEntry_nth(1) [OF i Suc.prems(6)] e m1(1) m2(1) m'(1) by (simp add: algebra_simps)
  then show ?case using m' unfolding dr by simp
qed

lemma CANRecorder_new_spec:
  assumes "chunks_ok cal" and "GetNChunks cal < 8" and "length blk = 64" and "length ticks = 32"
    and "AddCallBackForId lock (word_of_int CAN_BUS_DONT_CARE) CAN_ID_PROMISCUOUS_MODE self itf = Some itf'"
  shows "\<exists>r. CANRecorder_new lock self (Some blk) (Some ticks) cal itf = Some (r, itf') \<and> rec_hdr r [0, 0] \<and> rec_calc r = cal \<and>
     (msg_id m = GetRxAddr cal \<longrightarrow> learning m r 32 0 [])"
proof -
  define n where "n = unat (GetNChunks cal)"
  have n: "n < 8" using assms(2) by (simp add: n_def word_less_nat_alt)
  have u: "uint (GetNChunks cal) = int n" by (simp add: n_def)
  let ?m0 = "replicate (9 + 2 * n) 0 @ drop (9 + 2 * n) blk"
  have w0: "wr_bytes blk 0 (replicate (nat (8 + 1 + uint (GetNChunks cal) * 2)) 0) = Some ?m0"
    unfolding u using n assms(3) by (simp add: wr_bytes_def nat_add_distrib nat_mult_distrib mult.commute)
  have l0: "length ?m0 = 64" using n assms(3) by simp
  let ?a = "le_bytes 4 (uint (GetRxAddr cal))"
  let ?m1 = "?a @ drop 4 ?m0"
  have w1: "wr_bytes ?m0 0 ?a = Some ?m1" using l0 by (simp add: wr_bytes_def)
  have l1: "length ?m1 = 64" using l0 by simp
  have t1: "take 8 ?m1 = ?a @ [0, 0] @ [0, 0]" by (simp add: numeral_eq_Suc)
  obtain m2 where m2: "wr_bytes ?m1 (int 8) [GetNChunks cal] = Some m2" "length m2 = 64"
    "take (8 + 1) m2 = (?a @ [0, 0] @ [0, 0]) @ [GetNChunks cal]"
    using wr_behind_rec [OF t1, of "[GetNChunks cal]"] l1 by auto
  obtain m3 where m3: "hdr_entries n 0 cal m2 = Some m3" "length m3 = 64"
    "take (9 + 2 * (0 + n)) m3 = ((?a @ [0, 0] @ [0, 0]) @ [GetNChunks cal]) @ concat (map (\<lambda>(s, l). [s, l]) (drop 0 (rec_entries cal)))"
    using hdr_entries_spec [of 0 n cal m2 "(?a @ [0, 0] @ [0, 0]) @ [GetNChunks cal]"] m2 n n_def assms(1) by auto
  let ?r = "\<lparr>rec_calc = cal, activated = True, offset = first_offset cal, nPoints = 0, nPointsMax = 1, rec_data = m3,
        lStruct = \<lparr>isLearning = True, nTicks = int CAN_FRAMES_TO_WAIT, tmp = Some ticks, oldTick = 0\<rparr>\<rparr>"
  have "CANRecorder_new lock self (Some blk) (Some ticks) cal itf = Some (?r, itf')"
    using w0 w1 m2(1) m3(1) assms(5) by (simp add: CANRecorder_new_def Let_def n_def)
  moreover have "take (8 + length (rec_table cal)) m3 = ?a @ [0, 0] @ [0, 0] @ rec_table cal"
    using m3(3) length_rec_table [of cal] by (simp add: n_def rec_table_def)
  then have "rec_hdr ?r [0, 0]" using m3(2) assms(1,2) by (auto simp: rec_hdr_def intro: exI [of _ "[0, 0]"])
  moreover have "msg_id m = GetRxAddr cal \<longrightarrow> learning m ?r 32 0 []" using assms(4) by (simp add: learning_def CAN_FRAMES_TO_WAIT_def)
  ultimately show ?thesis by auto
qed

end
