(* ===== verification/Sensor_Props.thy ===== *)
theory Sensor_Props
  imports App_Props Gps Can_Diag Can_Recorder
begin

text \<open>
  What the sensors promise: their results reach the server, a busy sensor spoils them, the position of the GPS sensor is
  recorded (and an old one with it when the answer is cut short), the responses of a calculator are recorded, the chunks
  of a frame are recorded, and the interval the recorder learns has the wrong sign.
\<close>

section \<open>From the sensors to the server\<close>

lemma capture_sensors_size:
  "capture_sensors ss buf len c = Some (rs, buf', len', c') \<Longrightarrow>
    bSz (dataStorage c') = bSz (dataStorage c) \<and> hdr c' = hdr c"
proof (induction ss arbitrary: buf len c rs)
  case (Cons s ss)
  obtain st free r where s: "s = (st, free, r)" by (cases s)
  obtain b l r1 ok c1 rs1 where C: "Capture free buf len r = Some (b, l, r1)"
    "(if l \<noteq> 0 then AddResults st b l c else Some (True, c)) = Some (ok, c1)" "capture_sensors ss b l c1 = Some (rs1, buf', len', c')"
    using Cons.prems s by (auto simp: bind_eq_Some_conv)
  have "bSz (dataStorage c1) = bSz (dataStorage c) \<and> hdr c1 = hdr c"
    using C(2) Put_size by (auto simp: AddResults_def Let_def bind_eq_Some_conv split: if_splits)
  then show ?case using Cons.IH [OF C(3)] by simp
qed simp

lemma said_each: "(st, r) \<in> set (said ss) \<Longrightarrow> \<exists>free x. (st, free, x) \<in> set ss \<and> r = results x"
  by (auto simp: said_def)

text \<open>C4. One turn of the main loop and one request: what the sensors have captured, each with its type, arrives at the server in order and
  unchanged, and afterwards every sensor and the ring are empty, when no sensor is busy and the results fit into the ring.\<close>

theorem sensors_reach_server:
  assumes "ComHandler_new idProduct ltt buf t0 n0 l0 = Some c" and "length buf = 2096"
    and "\<forall>(st, free, r)\<in>set ss. free \<and> res_ok r \<and> length (results r) \<le> length data"
    and "(\<Sum>x\<leftarrow>said ss. int (length (snd x)) + 7) \<le> 1024"
  shows "\<exists>rs' data' len' c1 f c2. capture_sensors ss data len c = Some (rs', data', len', c1) \<and> (\<forall>r\<in>set rs'. results r = []) \<and>
     DoServerRequest tm c1 = Some ([f], c2) \<and> take 15 f = take 15 idProduct \<and>
     decode_results (butlast (drop 60 f)) = said ss \<and> circ_ok (dataStorage c2) [] \<and> \<not> BuffMtx c2"
proof -
  have c: "c = \<lparr>tt = ltt, first = True, hdr = \<lparr>imei = take 15 idProduct, idCfg = replicate 40 0xa5, hdr_time = t0, newSess = n0\<rparr>,
      BuffMtx = False, TXBuff = buf, currLen = l0, dataStorage = ramCircBuff_new 1024\<rparr>" "15 \<le> length idProduct"
    using assms(1) by (auto simp: ComHandler_new_def rd_bytes_def split: if_splits)
  have h: "handler_ok c [] 1024" using c(1) assms(2) circ_new_ok [of 1024] by (simp add: handler_ok_def)
  have sm: "length (results r) + 3 \<le> 2096" if "(st, free, r) \<in> set ss" for st free r
  proof (cases "results r = []")
    case False
    then have "(st, results r) \<in> set (said ss)" using that by (force simp: said_def)
    then show ?thesis using fits_each [OF assms(4)] by fastforce
  qed simp
  obtain rs' data' len' c1 where S: "capture_sensors ss data len c = Some (rs', data', len', c1)"
    "handler_ok c1 (map res_rec (said ss)) (1024 - (\<Sum>x\<leftarrow>said ss. int (length (snd x)) + 7))" "\<forall>r\<in>set rs'. results r = []"
    using capture_sensors_spec [OF h, of ss data len] assms(3,4) sm by fastforce
  have sz: "bSz (dataStorage c1) = 1024" "hdr c1 = hdr c"
    using capture_sensors_size [OF S(1)] c(1) by (simp_all add: ramCircBuff_new_def)
  have ne: "\<forall>r\<in>set (map res_rec (said ss)). r \<noteq> []" by (auto simp: res_rec_def)
  obtain hd x c2 where D: "DoServerRequest tm c1 = Some ([hdr_bytes hd @ concat (map res_rec (said ss)) @ [x]], c2)" "length (hdr_bytes hd) = 60"
    "imei hd = imei (hdr c1)" "circ_ok (dataStorage c2) []" "\<not> BuffMtx c2"
    using DoServerRequest_spec [of c1 "map res_rec (said ss)" tm] S(2) ne sz c by (auto simp: handler_ok_def)
  have "take 15 (hdr_bytes hd @ concat (map res_rec (said ss)) @ [x]) = take 15 idProduct"
    using D(3) c sz by (simp add: hdr_bytes_def)
  moreover have "butlast (drop 60 (hdr_bytes hd @ concat (map res_rec (said ss)) @ [x])) = concat (map res_rec (said ss))"
    using D(2) by (simp add: butlast_append)
  moreover have "\<forall>x\<in>set (said ss). length (snd x) < 2 ^ 16" using assms(4) fits_each [of "said ss" 1024] by fastforce
  ultimately show ?thesis using S(1,3) D(1,4,5) decode_concat [of "said ss"]
    by (intro exI [of _ rs'] exI [of _ data'] exI [of _ len'] exI [of _ c1]
        exI [of _ "hdr_bytes hd @ concat (map res_rec (said ss)) @ [x]"] exI [of _ c2]) simp
qed

definition demo_res :: "bytes \<Rightarrow> dataResult" where
  "demo_res d = \<lparr>res_start = Some (d @ replicate (100 - length d) 0), res_current = int (length d), res_num = of_nat (length d),
     res_max = 100, res_dynamic = False\<rparr>"

lemma demo_res_ok: "res_ok (demo_res [1, 2, 3])" "results (demo_res [1, 2, 3]) = [1, 2, 3]" "res_ok (demo_res [])" "results (demo_res []) = []"
  by (simp_all add: demo_res_def res_ok_def results_def)

theorem sensors_reach_server_witness:
  "\<exists>c rs' data' len' c1 f c2. ComHandler_new (replicate 15 49) TT_HALF (replicate 2096 0) 0 0 0 = Some c \<and>
     capture_sensors [(3, True, demo_res [1, 2, 3]), (2, True, demo_res [])] (replicate 64 0) 0 c = Some (rs', data', len', c1) \<and>
     DoServerRequest (\<lambda>_. 7) c1 = Some ([f], c2) \<and> decode_results (butlast (drop 60 f)) = [(3, [1, 2, 3])]"
proof -
  obtain c where c: "ComHandler_new (replicate 15 49) TT_HALF (replicate 2096 0) 0 0 0 = Some c"
    by (simp add: ComHandler_new_def rd_bytes_def)
  have s: "said [(3, True, demo_res [1, 2, 3]), (2, True, demo_res [])] = [(3, [1, 2, 3])]" by (simp add: said_def demo_res_ok)
  show ?thesis
    using sensors_reach_server [OF c, of "[(3, True, demo_res [1, 2, 3]), (2, True, demo_res [])]" "replicate 64 0" 0 "\<lambda>_. 7"] c
    unfolding s by (auto simp: demo_res_ok)
qed

text \<open>C34. A sensor whose results are in use when the main loop asks for them does not clear the length, and so the bytes of the
  sensor before it are recorded a second time, under its type.\<close>

theorem capture_busy_repeats:
  assumes "handler_ok c rs k" and "res_ok r" and "results r \<noteq> []" and "length (results r) \<le> length buf" and "length (results r) + 3 \<le> 2096"
    and "2 * (int (length (results r)) + 7) \<le> k"
  shows "\<exists>r1 b l c'. capture_sensors [(st, True, r), (st', False, r')] buf len c = Some ([r1, r'], b, l, c') \<and>
     handler_ok c' (rs @ [res_rec (st, results r), res_rec (st', results r)]) (k - 2 * (int (length (results r)) + 7))"
  by (rule capture_busy_spec [OF assms])

theorem capture_busy_repeats_witness:
  "\<exists>c c' r1 b l. capture_sensors [(3, True, demo_res [1, 2, 3]), (2, False, demo_res [])] (replicate 64 0) 0 c = Some ([r1, demo_res []], b, l, c') \<and>
     handler_ok c' [res_rec (3, [1, 2, 3]), res_rec (2, [1, 2, 3])] 1004"
proof -
  obtain c where c: "ComHandler_new (replicate 15 49) TT_HALF (replicate 2096 0) 0 0 0 = Some c"
    by (simp add: ComHandler_new_def rd_bytes_def)
  then have "handler_ok c [] 1024" using circ_new_ok [of 1024] by (auto simp: ComHandler_new_def rd_bytes_def handler_ok_def)
  from capture_busy_repeats [OF this, of "demo_res [1, 2, 3]" "replicate 64 0" 3 2 "demo_res []" 0] show ?thesis
    by (fastforce simp: demo_res_ok)
qed

section \<open>The GPS sensor\<close>

text \<open>C33. One turn of the GPS sensor when the receiver answers the poll with a frame of the position: the record of the position, with the
  latitude, longitude and height of the answer, is appended to the results exactly if neither the latitude nor the longitude is 0,
  the store has room for its 22 bytes and the mutex of the results is free (\<open>unlocked\<close>); in each other case the position is dropped
  and the results stay as they are.\<close>

theorem position_recorded:
  assumes "length (recvBuff g) = 512" and "posllh f" and "res_ok (g_results g)"
  shows "\<exists>g'. Main_gps unlocked now (answer f t @ es) g = Some g' \<and> res_ok (g_results g') \<and>
     results (g_results g') = results (g_results g) @
       (if u32_at 14 f \<noteq> 0 \<and> u32_at 10 f \<noteq> 0 \<and> length (results (g_results g)) + 22 \<le> unat (res_max (g_results g)) \<and> unlocked
        then impact_bytes (with_position f (impact g)) else [])"
proof -
  obtain g1 where g1: "GetPosition now (answer f t @ es) (g\<lparr>fixed := False\<rparr>) = Some (has_fix f, g1)" "fixed g1 = has_fix f"
    "impact g1 = with_position f (impact g)" "g_results g1 = g_results g"
    using GetPosition_answer [of "g\<lparr>fixed := False\<rparr>" f now t es] assms(1,2) by auto
  obtain g2 where "StoreLastImpact unlocked g1 = Some g2" "res_ok (g_results g2)" "results (g_results g2) = results (g_results g1) @
     (if fixed g1 \<and> length (results (g_results g1)) + 22 \<le> unat (res_max (g_results g1)) \<and> unlocked then impact_bytes (impact g1) else [])"
    using StoreLastImpact_total [of g1 unlocked] g1(4) assms(3) by auto
  then show ?thesis using g1 by (simp add: Main_gps_def Loop_def Sample_def has_fix_def)
qed

definition demo_gps :: GPSSensor where
  "demo_gps = \<lparr>recvBuff = replicate 512 0, impact = \<lparr>i_date = 0, i_time = 0, i_lon = 0, i_lat = 0, i_alt = 0, i_hdop = 0\<rparr>,
     fixed = False, g_results = demo_res []\<rparr>"

definition demo_posllh :: bytes where
  "demo_posllh = [0xb5, 0x62, 1, 2, 28, 0, 0, 0, 0, 0, 1, 0, 0, 0, 2, 0, 0, 0, 3] @ replicate 17 0"

lemma demo_posllh_ok: "posllh demo_posllh" "u32_at 14 demo_posllh \<noteq> 0" "u32_at 10 demo_posllh \<noteq> 0"
  by code_simp+

theorem position_recorded_witness:
  "\<exists>g1 g2. Main_gps True 0 (answer demo_posllh 5 @ []) demo_gps = Some g1 \<and>
     results (g_results g1) = impact_bytes (with_position demo_posllh (impact demo_gps)) \<and>
     Main_gps True 0 (answer (demo_posllh[10 := 0]) 5 @ []) demo_gps = Some g2 \<and> results (g_results g2) = []"
proof -
  have g: "length (recvBuff demo_gps) = 512" "res_ok (g_results demo_gps)" "results (g_results demo_gps) = []" "res_max (g_results demo_gps) = 100"
    by (simp_all add: demo_gps_def demo_res_ok) (simp add: demo_res_def)
  have z: "posllh (demo_posllh[10 := 0])" "u32_at 10 (demo_posllh[10 := 0]) = 0" by code_simp+
  show ?thesis
    using position_recorded [of demo_gps demo_posllh True 0 5 "[]"] position_recorded [of demo_gps "demo_posllh[10 := 0]" True 0 5 "[]"]
      demo_posllh_ok g z by auto
qed

text \<open>The length and the check sum of an answer are not looked at, and the command that was sent is still in the buffer. When the next
  answer is nothing but the first byte of a frame, the position of the turn before is taken for a new one and recorded again.\<close>

lemma position_recorded_twice:
  assumes "length (recvBuff g) = 512" and "posllh f" and "u32_at 14 f \<noteq> 0" and "u32_at 10 f \<noteq> 0"
    and "res_ok (g_results g)" and "length (results (g_results g)) + 44 \<le> unat (res_max (g_results g))"
  shows "\<exists>g1 g2. Main_gps True now (answer f t @ es) g = Some g1 \<and> Main_gps True now' (answer [0xb5] t' @ es') g1 = Some g2 \<and>
     (let p = impact_bytes (with_position f (impact g)) in results (g_results g2) = results (g_results g) @ p @ p)"
proof -
  obtain g1 where g1: "GetPosition now (answer f t @ es) (g\<lparr>fixed := False\<rparr>) = Some (has_fix f, g1)" "fixed g1 = has_fix f"
    "impact g1 = with_position f (impact g)" "g_results g1 = g_results g" "length (recvBuff g1) = 512"
    "\<forall>k. k + 4 \<le> 34 \<longrightarrow> u32_at k (recvBuff g1) = u32_at k f"
    using GetPosition_answer [of "g\<lparr>fixed := False\<rparr>" f now t es] assms(1,2) by auto
  have "fixed g1" using g1(2) assms(3,4) by (simp add: has_fix_def)
  then obtain g2 where g2: "StoreLastImpact True g1 = Some g2" "res_ok (g_results g2)" "recvBuff g2 = recvBuff g1" "impact g2 = impact g1"
    "results (g_results g2) = results (g_results g) @ impact_bytes (impact g1)" "res_max (g_results g2) = res_max (g_results g)"
    using StoreLastImpact_spec [of g1] g1 assms(5,6) by auto
  have p: "with_position (recvBuff g2) (impact g2) = with_position f (impact g)" using g1(3,6) g2(3,4) by (simp add: with_position_def)
  obtain g3 where g3: "GetPosition now' (answer [0xb5] t' @ es') (g2\<lparr>fixed := False\<rparr>) = Some (True, g3)" "fixed g3"
    "impact g3 = with_position f (impact g)" "g_results g3 = g_results g2"
    using GetPosition_stale [of "g2\<lparr>fixed := False\<rparr>" now' t' es'] g1(5,6) g2(3) p assms(3,4) by auto
  obtain g4 where "StoreLastImpact True g3 = Some g4" "results (g_results g4) = results (g_results g2) @ impact_bytes (impact g3)"
    using StoreLastImpact_spec [of g3] g3 g2 assms(6) by auto
  then show ?thesis using g1 g2 g3 by (simp add: Main_gps_def Loop_def Sample_def Let_def)
qed

lemma position_recorded_twice_example:
  "\<exists>g1 g2. Main_gps True 0 (answer demo_posllh 5 @ []) demo_gps = Some g1 \<and> Main_gps True 9 (answer [0xb5] 14 @ []) g1 = Some g2 \<and>
     length (results (g_results g2)) = 44"
proof -
  have "length (recvBuff demo_gps) = 512" "res_ok (g_results demo_gps)" "results (g_results demo_gps) = []" "res_max (g_results demo_gps) = 100"
    by (simp_all add: demo_gps_def demo_res_ok) (simp add: demo_res_def)
  then show ?thesis using position_recorded_twice [of demo_gps demo_posllh 0 5 "[]" 9 14 "[]"] demo_posllh_ok by (auto simp: Let_def)
qed

text \<open>Every command that is polled goes out as a frame with a check sum that the receiver finds right, and that a single wrong byte
  between the preamble and the check sum makes wrong.\<close>

lemma poll_frames_checked:
  assumes "8 \<le> length (recvBuff g)"
  shows "\<exists>body a b g'. PollCmd cls mid g = Some ([0xb5, 0x62] @ body @ [a, b], g') \<and> body = [cls, mid, 0, 0] \<and>
     ComputeCheckSum body 0 0 = (a, b) \<and> (\<forall>i y. i < 4 \<and> y \<noteq> body ! i \<longrightarrow> ComputeCheckSum (body[i := y]) 0 0 \<noteq> (a, b))"
proof -
  let ?body = "[cls, mid, 0, 0]"
  have c: "ComputeCheckSum ?body 0 0 = (cls + mid, 4 * cls + 3 * mid)" by (simp add: Let_def algebra_simps)
  have "ComputeCheckSum (?body[i := y]) 0 0 \<noteq> ComputeCheckSum ?body 0 0" if "i < 4" "y \<noteq> ?body ! i" for i y
    by (rule checksum_changed) (use that in simp_all)
  then show ?thesis using PollCmd_spec [OF assms, of cls mid] c by (auto simp: poll_frame_def)
qed

lemma poll_frames_checked_example:
  "\<exists>g'. PollCmd 1 2 demo_gps = Some ([0xb5, 0x62, 1, 2, 0, 0, 3, 10], g')"
  using poll_frames_checked [of demo_gps 1 2] by (auto simp: demo_gps_def Let_def)

section \<open>The diagnosis sensor\<close>

text \<open>C31. One sequence of commands over protocol 6A, at least one: after it the results hold, read back, the number, the time and the bytes of
  every response that was not empty, in the order of the commands, when they fit into the empty store, the mutex of the results is free
  at every command, and the sensor is not stopped meanwhile (\<open>all_turns\<close>).\<close>

theorem diag_responses_recorded:
  assumes "the_calc i s = Some c" and "cmds_at (cmdStorage c) 0 cs" and "cs \<noteq> []" and "cmd c = Some 0"
    and "run_cmds (exec6A lock self) tm 0 resp w (norm_cmds cs) = Some (rs, w')"
    and "res_ok (ds_results s)" and "results (ds_results s) = []" and "diag_size rs \<le> unat (res_max (ds_results s))"
  shows "\<exists>s'. DiagSequence (exec6A lock self) (all_turns tm) resp i s w = Some (w', s') \<and> res_ok (ds_results s') \<and>
     decode_diag (results (ds_results s')) = rs"
proof -
  have "length d < 2 ^ 16" if "(j, t, d) \<in> set rs" for j t d
  proof -
    have "10 + length d \<le> diag_size rs" using that member_le_sum_list [of "10 + length d" "map (\<lambda>(i, t, d). 10 + length d) rs"]
      by (force simp: diag_size_def)
    also have "\<dots> < 2 ^ LENGTH(16)" by (rule le_less_trans [OF assms(8) unat_lt])
    finally show ?thesis by simp
  qed
  then have "decode_diag (concat (map diag_rec rs)) = rs" by (intro decode_diag_concat) auto
  then show ?thesis using m6A.DiagSequence_spec [OF assms(1-6)] assms(7,8) by auto
qed

definition demo_dcal :: CANDiagCalculator where
  "demo_dcal = \<lparr>dataPresence = True, dataValidity = True, calc = replicate 20 0, cmd = Some 0,
     cmdStorage = enc_cmds [(CMD_NORM, 7, [2, 33, 176])] @ replicate 20 0\<rparr>"

definition demo_world :: can_world where
  "demo_world = (\<lparr>com_bus = 1, com_calc = Some demo_dcal, com_state = IDLE\<rparr>, CANInterface_new (replicate 120 0) False 3 8 6 14,
     [[Q_timeout, Q_msg (CANMessage_new\<lparr>msg_data := [3, 9, 8, 7, 0, 0, 0, 0]\<rparr>)]], [])"

definition demo_diag :: CANDiagSensor where
  "demo_diag = \<lparr>calculators = [Some demo_dcal, None], nCalculators = 1, ds_results = demo_res [], KeepAliveTimer = None\<rparr>"

lemma demo_run_cmds: "map_option fst (run_cmds (exec6A 0 64) (\<lambda>_. 5) 0 (replicate 64 0) demo_world [(7, [2, 33, 176])]) = Some [(7, 5, [9, 8, 7])]"
  by code_simp

theorem diag_responses_recorded_witness:
  "\<exists>w' s'. DiagSequence (exec6A 0 64) (all_turns (\<lambda>_. 5)) (replicate 64 0) 0 demo_diag demo_world = Some (w', s') \<and>
     decode_diag (results (ds_results s')) = [(7, 5, [9, 8, 7])]"
proof -
  let ?cs = "[(CMD_NORM, 7, [2, 33, 176])] :: command list"
  have "cmds_at (cmdStorage demo_dcal) 0 ?cs"
    by (rule cmds_at_enc [where rest = "replicate 20 0"]) (simp_all add: demo_dcal_def CMD_NORM_def CMD_END_def)
  moreover have "norm_cmds ?cs = [(7, [2, 33, 176])]" by (simp add: norm_cmds_def)
  moreover obtain w' where "run_cmds (exec6A 0 64) (\<lambda>_. 5) 0 (replicate 64 0) demo_world [(7, [2, 33, 176])] = Some ([(7, 5, [9, 8, 7])], w')"
    using demo_run_cmds by auto
  moreover have "the_calc 0 demo_diag = Some demo_dcal" "cmd demo_dcal = Some 0" "ds_results demo_diag = demo_res []" "res_max (demo_res []) = 100"
    by (simp_all add: the_calc_def demo_diag_def demo_dcal_def demo_res_def)
  ultimately have "\<exists>s'. DiagSequence (exec6A 0 64) (all_turns (\<lambda>_. 5)) (replicate 64 0) 0 demo_diag demo_world = Some (w', s') \<and>
      res_ok (ds_results s') \<and> decode_diag (results (ds_results s')) = [(7, 5, [9, 8, 7])]"
    by (intro diag_responses_recorded [of 0 demo_diag demo_dcal ?cs]) (simp_all only: demo_res_ok, simp_all add: diag_size_def)
  then show ?thesis by blast
qed

text \<open>The test for room counts six of the ten bytes of the header: a response can be written behind the store.\<close>

lemma diag_record_overruns:
  assumes "res_ok r" and "uint (res_num r) + 6 + uint len < uint (res_max r)" and "uint (res_max r) < uint (res_num r) + 10 + uint len"
  shows "diag_record True t i resp len r = None"
proof (rule ccontr)
  assume "diag_record True t i resp len r \<noteq> None"
  then obtain b b1 b2 b3 d b4 where w: "res_start r = Some b" "wr_bytes b (res_current r) (le_bytes 4 (uint i)) = Some b1"
    "wr_bytes b1 (res_current r + 4) (le_bytes 4 (uint t)) = Some b2" "wr_bytes b2 (res_current r + 4 + 4) (le_bytes 2 (uint len)) = Some b3"
    "rd_bytes resp 0 (uint len) = Some d" "wr_bytes b3 (res_current r + 4 + 4 + 2) d = Some b4"
    using assms(2) by (auto simp: diag_record_def memcpy_def bind_eq_Some_conv Let_def add.assoc)
  have b: "length b = unat (res_max r)" "res_current r = uint (res_num r)"
    using assms(1) w(1) unfolding res_ok_def by simp_all
  have "length b3 = unat (res_max r)" using wr_bytes_Some(1) [OF w(2)] wr_bytes_Some(1) [OF w(3)] wr_bytes_Some(1) [OF w(4)] b(1) by simp
  moreover have "int (length d) = uint len"
  proof -
    have "int (length d) = n" if "rd_bytes resp 0 n = Some d" for n using that by (auto simp: rd_bytes_def min_def split: if_splits)
    then show ?thesis using w(5) .
  qed
  ultimately show False
    using wr_bytes_Some(2,3) [OF w(6)] assms(3) uint_nat [of "res_max r"] b(2) by linarith
qed

section \<open>The recorder\<close>

text \<open>C32. A recorder that has learned its interval and waits for a frame: the frame with its address makes the next capture return
  the address, the interval, the size, the table of all chunks and the bytes of the frame that the chunks name, in their order. A chunk
  that would take the recorded frame to 64 bytes or over them (7 chunks of 8 bytes pass the validation) is left out, although the table
  still names it, and the chunks after it are tried; \<open>fitting\<close> lists those that remain. When the frame is not smaller than the buffer of
  the capture, nothing is returned and the frame is lost. The recorder waits again in each case.\<close>

theorem recorder_frames:
  assumes "rec_hdr r interval" and "\<not> isLearning (lStruct r)"
    and "msg_id m = GetRxAddr (rec_calc r)" and "length (msg_data m) = 8" and "ID AND 0x0f = CAN_CALLBACK"
    and "unat len \<le> length buf"
  shows "\<exists>r1 buf' len' r2. rec_event t ID m r = Some r1 \<and> rec_Capture buf len r1 = Some (buf', len', r2) \<and>
     (if length (rec_frame (rec_calc r) interval (msg_data m)) < unat len then take (unat len') buf' = rec_frame (rec_calc r) interval (msg_data m)
      else len' = 0 \<and> buf' = buf) \<and> rec_hdr r2 interval \<and> rec_calc r2 = rec_calc r \<and> lStruct r2 = lStruct r"
  by (rule recorder_spec [OF assms])

definition demo_rec_calc :: CANRecorderCalculator where
  "demo_rec_calc = \<lparr>rc_dataPresence = True, rc_dataValidity = True, rc_calc = [2, 0, 0, 0, 0, 0, 0, 9, 0, 0, 0, 6, 14, 2], recordEntries = Some 0,
     recordData = [1, 2, 5, 3] @ replicate 12 0\<rparr>"

definition demo_itf :: CANInterface where
  "demo_itf = CANInterface_new (replicate 120 0) False 3 8 6 14"

definition demo_msg :: CANMessage where
  "demo_msg = CANMessage_new\<lparr>msg_id := 9, msg_data := [10, 11, 12, 13, 14, 15, 16, 17]\<rparr>"

lemma demo_rec_calc_ok: "chunks_ok demo_rec_calc" "GetNChunks demo_rec_calc < 8" "GetRxAddr demo_rec_calc = 9"
  "rec_frame demo_rec_calc [0, 0] (msg_data demo_msg) = [9, 0, 0, 0, 0, 0, 18, 0, 2, 1, 2, 5, 3, 11, 12, 15, 16, 17]"
  by code_simp+

lemma demo_rec: "\<exists>r itf. CANRecorder_new 0 64 (Some (replicate 64 0)) (Some (replicate 32 0)) demo_rec_calc demo_itf = Some (r, itf) \<and> rec_hdr r [0, 0] \<and>
    rec_calc r = demo_rec_calc \<and> learning demo_msg r 32 0 []"
proof -
  have "AddCallBackForId 0 (word_of_int CAN_BUS_DONT_CARE) CAN_ID_PROMISCUOUS_MODE 64 demo_itf \<noteq> None" by code_simp
  then obtain itf where "AddCallBackForId 0 (word_of_int CAN_BUS_DONT_CARE) CAN_ID_PROMISCUOUS_MODE 64 demo_itf = Some itf" by auto
  from CANRecorder_new_spec [OF demo_rec_calc_ok(1,2) _ _ this, of "replicate 64 0" "replicate 32 0" demo_msg] demo_rec_calc_ok(3)
  show ?thesis by (auto simp: demo_msg_def)
qed

theorem recorder_frames_witness:
  "\<exists>r r1 buf' len' r2. rec_calc r = demo_rec_calc \<and> rec_event 7 CAN_CALLBACK demo_msg r = Some r1 \<and> rec_Capture (replicate 64 0) 64 r1 = Some (buf', len', r2) \<and>
     take (unat len') buf' = [9, 0, 0, 0, 0, 0, 18, 0, 2, 1, 2, 5, 3, 11, 12, 15, 16, 17]"
proof -
  obtain r itf where r: "rec_hdr r [0, 0]" "rec_calc r = demo_rec_calc" using demo_rec by blast
  let ?r = "r\<lparr>lStruct := (lStruct r)\<lparr>isLearning := False\<rparr>\<rparr>"
  have h: "rec_hdr ?r [0, 0]" "rec_calc ?r = demo_rec_calc" "\<not> isLearning (lStruct ?r)" using r by (auto simp: rec_hdr_def)
  have m: "msg_id demo_msg = GetRxAddr (rec_calc ?r)" "length (msg_data demo_msg) = 8" "CAN_CALLBACK AND 0x0f = CAN_CALLBACK"
    unfolding h(2) demo_rec_calc_ok by (simp_all add: demo_msg_def CAN_CALLBACK_def)
  have f: "rec_frame (rec_calc ?r) [0, 0] (msg_data demo_msg) = [9, 0, 0, 0, 0, 0, 18, 0, 2, 1, 2, 5, 3, 11, 12, 15, 16, 17]"
    unfolding h(2) by (rule demo_rec_calc_ok)
  obtain r1 buf' len' r2 where "rec_event 7 CAN_CALLBACK demo_msg ?r = Some r1" "rec_Capture (replicate 64 0) 64 r1 = Some (buf', len', r2)"
    "take (unat len') buf' = [9, 0, 0, 0, 0, 0, 18, 0, 2, 1, 2, 5, 3, 11, 12, 15, 16, 17]"
    using recorder_frames [OF h(1,3) m, of 64 "replicate 64 0" 7] unfolding f by auto
  then show ?thesis using h(2) by blast
qed

text \<open>The interval that a new recorder learns from frames that come every \<open>d\<close> microseconds is not \<open>d\<close> but \<open>- d\<close>: the
  differences of the times are taken the wrong way round.\<close>

lemma recorder_interval_negated:
  assumes "CANRecorder_new lock self (Some blk) (Some ticks) cal itf = Some (r, itf')" and "chunks_ok cal" and "GetNChunks cal < 8"
    and "length blk = 64" and "length ticks = 32" and "msg_id m = GetRxAddr cal" and "0 < t" and "0 < d" and "t + 33 * d < 2 ^ 16"
  shows "\<exists>r'. hear m (map (\<lambda>j. of_nat (t + j * d)) [0..<34]) r = Some r' \<and> \<not> isLearning (lStruct r') \<and>
     take 2 (drop 4 (rec_data r')) = le_bytes 2 (- int d)"
proof -
  have a: "AddCallBackForId lock (word_of_int CAN_BUS_DONT_CARE) CAN_ID_PROMISCUOUS_MODE self itf = Some itf'"
    using assms(1) by (auto simp: CANRecorder_new_def bind_eq_Some_conv Let_def)
  have r: "rec_hdr r [0, 0]" "learning m r 32 0 []"
    using CANRecorder_new_spec [OF assms(2-5) a, of m] assms(1,6) by auto
  let ?r1 = "r\<lparr>lStruct := (lStruct r)\<lparr>oldTick := of_nat t\<rparr>\<rparr>"
  have "ucast (of_nat t :: u32) = (of_nat t :: u16)" by (rule ucast_of_nat_16)
  then have e1: "rec_event (of_nat t) CAN_CALLBACK m r = Some ?r1" and l1: "learning m ?r1 32 (of_nat t) []"
    using r(2) by (auto simp: rec_event_def CAN_CALLBACK_def learning_def learn_def Let_def)
  obtain r2 ds where r2: "hear m (map (\<lambda>j. of_nat (t + Suc j * d)) [0..<32]) ?r1 = Some r2" "learning m r2 0 (of_nat (t + 32 * d)) ds"
    "\<forall>x\<in>set ds. x = - of_nat d" "rec_data r2 = rec_data ?r1"
    using learn_regular [OF l1, of d] assms(7,9) by auto
  have "6 \<le> length (rec_data r2)" using r(1) r2(4) by (simp add: rec_hdr_def)
  then obtain r3 where r3: "rec_event (of_nat (t + 33 * d)) CAN_CALLBACK m r2 = Some r3" "\<not> isLearning (lStruct r3)"
    "take 2 (drop 4 (rec_data r3)) = le_bytes 2 (- int d)"
    using learn_last [OF r2(2,3), of "of_nat (t + 33 * d)"] assms(8,9) by auto
  have "[0..<34] = 0 # map Suc [0..<32] @ [33]" by code_simp
  then have ts: "map (\<lambda>j. of_nat (t + j * d)) [0..<34] =
      (of_nat t :: u32) # map (\<lambda>j. of_nat (t + Suc j * d)) [0..<32] @ [of_nat (t + 33 * d)]"
    by (simp add: o_def algebra_simps del: upt_rec_numeral)
  have app: "hear m (xs @ ys) q = Option.bind (hear m xs q) (hear m ys)" for xs ys q
    by (induction xs arbitrary: q) simp_all
  have "hear m (map (\<lambda>j. of_nat (t + j * d)) [0..<34]) r = Some r3"
    unfolding ts using e1 r2(1) r3(1) by (simp add: app del: upt_rec_numeral)
  then show ?thesis using r3(2,3) by blast
qed

lemma recorder_interval_negated_example:
  "\<exists>r r' itf. CANRecorder_new 0 64 (Some (replicate 64 0)) (Some (replicate 32 0)) demo_rec_calc demo_itf = Some (r, itf) \<and>
     hear demo_msg (map (\<lambda>j. of_nat (1000 + j * 500)) [0..<34]) r = Some r' \<and> take 2 (drop 4 (rec_data r')) = [12, 254]"
proof -
  obtain r itf where r: "CANRecorder_new 0 64 (Some (replicate 64 0)) (Some (replicate 32 0)) demo_rec_calc demo_itf = Some (r, itf)"
    using demo_rec by blast
  have "le_bytes 2 (- int 500) = [12, 254]" by code_simp
  then show ?thesis
    using recorder_interval_negated [OF r demo_rec_calc_ok(1,2) _ _ _, of demo_msg 1000 500] r demo_rec_calc_ok(3) by (auto simp: demo_msg_def)
qed

end
