(* ===== verification/Nmea.thy ===== *)
theory Nmea
  imports Gps
begin

text \<open>
  The parser of NMEA sentences (\<open>TinyGPS.cpp\<close>) and the NMEA driver of the GPS receiver (\<open>GPSSensorNMEA.cpp\<close>). The parser is a state machine
  over characters: a sentence is \<open>$\<close>, terms with commas between them, \<open>*\<close> and two digits of a check sum. \<open>long\<close> and \<open>unsigned long\<close>
  are words of 32 bits. \<open>millis\<close> is the name of a type in this port, and so \<open>millis()\<close> is zero.
\<close>

section \<open>State\<close>

datatype sentence = GPGLL | GPGGA | GPRMC | GPGSV | OTHER

record gps_fix =
  f_time :: u32
  f_date :: u32
  f_latitude :: u32
  f_longitude :: u32
  f_altitude :: u32
  f_speed :: u32
  f_course :: u32
  f_hdop :: u32
  f_sat_count :: u32
  f_time_fix :: u32
  f_position_fix :: u32

record TinyGPS =
  cur :: gps_fix
  fresh :: gps_fix
  parity :: u8
  is_checksum_term :: bool
  g_term :: bytes
  sentence_type :: sentence
  term_number :: u8
  term_offset :: u8
  gps_data_good :: bool
  rmc_ready :: bool
  gga_ready :: bool
  gsv_ready :: bool
  gll_ready :: bool
  encoded_characters :: u32
  good_sentences :: u16
  failed_checksum :: u16

definition GPS_INVALID_ANGLE :: u32 where "GPS_INVALID_ANGLE = 999999999"
definition GPS_INVALID_ALTITUDE :: u32 where "GPS_INVALID_ALTITUDE = 999999999"
definition GPS_INVALID_DATE :: u32 where "GPS_INVALID_DATE = 0"
definition GPS_INVALID_TIME :: u32 where "GPS_INVALID_TIME = 0xFFFFFFFF"
definition GPS_INVALID_SPEED :: u32 where "GPS_INVALID_SPEED = 999999999"
definition GPS_INVALID_FIX_TIME :: u32 where "GPS_INVALID_FIX_TIME = 0xFFFFFFFF"

definition millis :: u32 where "millis = 0"

text \<open>The constructor; the values of the sentence that is being read, and the array for its terms, keep what the memory held.\<close>

definition TinyGPS_new :: "gps_fix \<Rightarrow> bytes \<Rightarrow> TinyGPS" where
  "TinyGPS_new mem tm =
     \<lparr>cur = \<lparr>f_time = GPS_INVALID_TIME, f_date = GPS_INVALID_DATE, f_latitude = GPS_INVALID_ANGLE, f_longitude = GPS_INVALID_ANGLE,
        f_altitude = GPS_INVALID_ALTITUDE, f_speed = GPS_INVALID_SPEED, f_course = GPS_INVALID_ANGLE, f_hdop = 0, f_sat_count = 0,
        f_time_fix = GPS_INVALID_FIX_TIME, f_position_fix = GPS_INVALID_FIX_TIME\<rparr>,
      fresh = mem, parity = 0, is_checksum_term = False, g_term = tm[0 := 0], sentence_type = OTHER, term_number = 0, term_offset = 0,
      gps_data_good = False, rmc_ready = False, gga_ready = False, gsv_ready = False, gll_ready = False,
      encoded_characters = 0, good_sentences = 0, failed_checksum = 0\<rparr>"

section \<open>Numbers\<close>

definition gpsisdigit :: "u8 \<Rightarrow> bool" where
  "gpsisdigit c \<longleftrightarrow> 48 \<le> c \<and> c \<le> 57"

definition from_hex :: "u8 \<Rightarrow> u8" where
  "from_hex a = (if 65 \<le> a \<and> a \<le> 70 then a - 65 + 10 else if 97 \<le> a \<and> a \<le> 102 then a - 97 + 10 else a - 48)"

fun atol_loop :: "u32 \<Rightarrow> bytes \<Rightarrow> u32" where
  "atol_loop acc (c # cs) = (if gpsisdigit c then atol_loop (10 * acc + ucast c - 48) cs else acc)"
| "atol_loop acc [] = acc"

definition gpsatol :: "bytes \<Rightarrow> u32" where
  "gpsatol s = atol_loop 0 s"

fun parse_decimal :: "bytes \<Rightarrow> u32" where
  "parse_decimal t =
     (let isneg = (hd t = 45);
          p = (if isneg then tl t else t);
          ret = 100 * gpsatol p;
          q = dropWhile gpsisdigit p;
          ret = (if q \<noteq> [] \<and> hd q = 46 then
                   if gpsisdigit (q ! 1) then
                     let ret = ret + 10 * (ucast (q ! 1) - 48) in if gpsisdigit (q ! 2) then ret + (ucast (q ! 2) - 48) else ret
                   else ret
                 else ret)
      in if isneg then - ret else ret)"

fun frac_loop :: "u32 \<Rightarrow> u32 \<Rightarrow> bytes \<Rightarrow> u32" where
  "frac_loop mult acc (c # cs) = (if gpsisdigit c then frac_loop (mult div 10) (acc + mult * (ucast c - 48)) cs else acc)"
| "frac_loop mult acc [] = acc"

definition parse_degrees :: "bytes \<Rightarrow> u32" where
  "parse_degrees t =
     (let left = gpsatol t;
          tenk = (left mod 100) * 10000;
          q = dropWhile gpsisdigit t;
          tenk = (if q \<noteq> [] \<and> hd q = 46 then frac_loop 1000 tenk (tl q) else tenk)
      in (left div 100) * 100000 + tenk div 6)"

text \<open>\<open>gpsstrcmp\<close> returns the character at which it stops in the first string: zero when that is a prefix of the second.\<close>

fun gpsstrcmp :: "bytes \<Rightarrow> bytes \<Rightarrow> u8" where
  "gpsstrcmp (a # as) (b # bs) = (if a \<noteq> 0 \<and> a = b then gpsstrcmp as bs else a)"
| "gpsstrcmp (a # as) [] = a"
| "gpsstrcmp [] bs = 0"

definition GPRMC_TERM :: bytes where "GPRMC_TERM = [71, 80, 82, 77, 67, 0]"
definition GPGLL_TERM :: bytes where "GPGLL_TERM = [71, 80, 71, 76, 76, 0]"
definition GPGGA_TERM :: bytes where "GPGGA_TERM = [71, 80, 71, 71, 65, 0]"
definition GPGSV_TERM :: bytes where "GPGSV_TERM = [71, 80, 71, 83, 86, 0]"

definition sentence_of :: "bytes \<Rightarrow> sentence" where
  "sentence_of t =
     (if gpsstrcmp t GPRMC_TERM = 0 then GPRMC else if gpsstrcmp t GPGLL_TERM = 0 then GPGLL
      else if gpsstrcmp t GPGGA_TERM = 0 then GPGGA else if gpsstrcmp t GPGSV_TERM = 0 then GPGSV else OTHER)"

section \<open>Terms\<close>

text \<open>A sentence with the right check sum and good data is taken over.\<close>

definition gps_commit :: "TinyGPS \<Rightarrow> TinyGPS" where
  "gps_commit g =
     (let c = (cur g)\<lparr>f_time_fix := f_time_fix (fresh g), f_position_fix := f_position_fix (fresh g)\<rparr>; n = fresh g;
          full = c\<lparr>f_time := f_time n, f_date := f_date n, f_latitude := f_latitude n, f_longitude := f_longitude n,
                   f_speed := f_speed n, f_course := f_course n\<rparr>;
          g = g\<lparr>good_sentences := good_sentences g + 1\<rparr>
      in case sentence_type g of
           GPGLL \<Rightarrow> g\<lparr>cur := full, gll_ready := True\<rparr>
         | GPRMC \<Rightarrow> g\<lparr>cur := full, rmc_ready := True\<rparr>
         | GPGGA \<Rightarrow> g\<lparr>cur := c\<lparr>f_altitude := f_altitude n, f_time := f_time n, f_latitude := f_latitude n, f_longitude := f_longitude n,
                        f_hdop := f_hdop n, f_sat_count := f_sat_count n\<rparr>, gga_ready := True\<rparr>
         | GPGSV \<Rightarrow> g\<lparr>cur := c, gsv_ready := True\<rparr>
         | OTHER \<Rightarrow> g\<lparr>cur := c\<rparr>)"

definition term_key :: "TinyGPS \<Rightarrow> nat" where
  "term_key g = unat (term_number g) + (case sentence_type g of GPGGA \<Rightarrow> 200 | GPRMC \<Rightarrow> 100 | GPGLL \<Rightarrow> 300 | _ \<Rightarrow> 0)"

text \<open>The value of one term of a sentence.\<close>

definition term_value :: "nat \<Rightarrow> TinyGPS \<Rightarrow> TinyGPS" where
  "term_value k g =
     (let n = fresh g; t = g_term g in
      if k = 101 \<or> k = 201 \<or> k = 305 then g\<lparr>fresh := n\<lparr>f_time := parse_decimal t, f_time_fix := millis\<rparr>\<rparr>
      else if k = 102 \<or> k = 306 then g\<lparr>gps_data_good := (hd t = 65)\<rparr>
      else if k = 103 \<or> k = 202 \<or> k = 301 then g\<lparr>fresh := n\<lparr>f_latitude := parse_degrees t, f_position_fix := millis\<rparr>\<rparr>
      else if k = 104 \<or> k = 203 \<or> k = 302 then (if hd t = 83 then g\<lparr>fresh := n\<lparr>f_latitude := - f_latitude n\<rparr>\<rparr> else g)
      else if k = 105 \<or> k = 204 \<or> k = 303 then g\<lparr>fresh := n\<lparr>f_longitude := parse_degrees t\<rparr>\<rparr>
      else if k = 106 \<or> k = 205 \<or> k = 304 then (if hd t = 87 then g\<lparr>fresh := n\<lparr>f_longitude := - f_longitude n\<rparr>\<rparr> else g)
      else if k = 107 then g\<lparr>fresh := n\<lparr>f_speed := parse_decimal t\<rparr>\<rparr>
      else if k = 108 then g\<lparr>fresh := n\<lparr>f_course := parse_decimal t\<rparr>\<rparr>
      else if k = 109 then g\<lparr>fresh := n\<lparr>f_date := gpsatol t\<rparr>\<rparr>
      else if k = 206 then g\<lparr>gps_data_good := (48 < hd t)\<rparr>
      else if k = 207 then g\<lparr>fresh := n\<lparr>f_sat_count := parse_decimal t\<rparr>\<rparr>
      else if k = 208 then g\<lparr>fresh := n\<lparr>f_hdop := parse_decimal t\<rparr>\<rparr>
      else if k = 209 then g\<lparr>fresh := n\<lparr>f_altitude := parse_decimal t\<rparr>\<rparr>
      else g)"

definition term_complete :: "TinyGPS \<Rightarrow> bool \<times> TinyGPS" where
  "term_complete g =
     (if is_checksum_term g then
        if 16 * from_hex (g_term g ! 0) + from_hex (g_term g ! 1) = parity g then
          if gps_data_good g then (True, gps_commit g) else (False, g)
        else (False, g\<lparr>failed_checksum := failed_checksum g + 1\<rparr>)
      else if term_number g = 0 then (False, g\<lparr>sentence_type := sentence_of (g_term g)\<rparr>)
      else if sentence_type g \<noteq> OTHER \<and> hd (g_term g) \<noteq> 0 then (False, term_value (term_key g) g)
      else (False, g))"

section \<open>Characters\<close>

definition end_term :: "u8 \<Rightarrow> TinyGPS \<Rightarrow> bool \<times> TinyGPS" where
  "end_term c g =
     (let (v, g) = (if unat (term_offset g) < length (g_term g) then term_complete (g\<lparr>g_term := (g_term g)[unat (term_offset g) := 0]\<rparr>) else (False, g)) in
      (v, g\<lparr>term_number := term_number g + 1, term_offset := 0, is_checksum_term := (c = 42)\<rparr>))"

definition encode :: "u8 \<Rightarrow> TinyGPS \<Rightarrow> bool \<times> TinyGPS" where
  "encode c g =
     (let g = g\<lparr>encoded_characters := encoded_characters g + 1\<rparr> in
      if c = 44 then end_term c (g\<lparr>parity := parity g XOR c\<rparr>)
      else if c = 13 \<or> c = 10 \<or> c = 42 then end_term c g
      else if c = 36 then
        (False, g\<lparr>term_number := 0, term_offset := 0, parity := 0, sentence_type := OTHER, is_checksum_term := False, gps_data_good := False\<rparr>)
      else
        let g = (if unat (term_offset g) < length (g_term g) - 1
                 then g\<lparr>g_term := (g_term g)[unat (term_offset g) := c], term_offset := term_offset g + 1\<rparr> else g);
            g = (if is_checksum_term g then g else g\<lparr>parity := parity g XOR c\<rparr>)
        in (False, g))"

definition reset_ready :: "TinyGPS \<Rightarrow> TinyGPS" where
  "reset_ready g = g\<lparr>gll_ready := False, gsv_ready := False, rmc_ready := False, gga_ready := False\<rparr>"

section \<open>The driver\<close>

record GPSSensorNMEA = GPSSensor +
  gpsParser :: TinyGPS
  lastImpact :: u32

text \<open>\<open>GetLine\<close>: \<open>chars\<close> are the bytes that the serial line will show. Without a \<open>$\<close>, or a line feed after it, it waits forever; a line that
  is too long stops the program.\<close>

fun get_line_loop :: "nat \<Rightarrow> bytes \<Rightarrow> bytes \<Rightarrow> (bytes \<times> bytes) option" where
  "get_line_loop 0 line chars = None"
| "get_line_loop (Suc k) line [] = None"
| "get_line_loop (Suc k) line (c # chars) = (if c = 10 then Some (line @ [c], chars) else get_line_loop k (line @ [c]) chars)"

definition GPS_RECV_BUFF :: nat where "GPS_RECV_BUFF = 512"

fun GetLine :: "bytes \<Rightarrow> (bytes \<times> bytes) option" where
  "GetLine [] = None"
| "GetLine (c # chars) = (if c = 36 then get_line_loop (GPS_RECV_BUFF - 3) [36] chars else GetLine chars)"

fun encode_all :: "bytes \<Rightarrow> TinyGPS \<Rightarrow> bool \<times> TinyGPS" where
  "encode_all [] g = (False, g)"
| "encode_all (c # cs) g = (let (v, g) = encode c g; (v', g) = encode_all cs g in (v \<or> v', g))"

text \<open>What is done behind a line.\<close>

definition after_line :: "GPSSensorNMEA \<Rightarrow> GPSSensorNMEA" where
  "after_line s =
     (let g = gpsParser s; c = cur g in
      if gll_ready g then
        let s = s\<lparr>gpsParser := reset_ready g\<rparr> in
        if f_latitude c \<noteq> GPS_INVALID_ANGLE \<and> f_longitude c \<noteq> GPS_INVALID_ANGLE then
          s\<lparr>fixed := True, impact := \<lparr>i_date = f_date c, i_time = f_time c div 100, i_lon = f_longitude c, i_lat = f_latitude c, i_alt = f_altitude c,
             i_hdop = (if 0xffff < sint (f_hdop c) then - 1 else ucast (f_hdop c))\<rparr>\<rparr>
        else s\<lparr>fixed := False\<rparr>
      else s\<lparr>fixed := False\<rparr>)"

text \<open>\<open>Sample\<close>, when a line feed was seen: \<open>counts\<close> is the number of characters in the buffer at each look. The length that \<open>GetLine\<close>
  returns does not count the \<open>$\<close>, and so the line feed is not given to the parser.\<close>

fun sample_loop :: "nat list \<Rightarrow> bytes \<Rightarrow> GPSSensorNMEA \<Rightarrow> (bytes \<times> GPSSensorNMEA) option" where
  "sample_loop [] chars s = None"
| "sample_loop (n # ns) chars s =
     (if n = 0 then Some (chars, s)
      else do {
        (line, chars) \<leftarrow> GetLine chars;
        sample_loop ns chars (after_line (s\<lparr>recvBuff := line @ 0 # drop (Suc (length line)) (recvBuff s),
           gpsParser := snd (encode_all (butlast line) (gpsParser s))\<rparr>))
      })"

definition Sample_nmea :: "bool \<Rightarrow> nat list \<Rightarrow> bytes \<Rightarrow> GPSSensorNMEA \<Rightarrow> (bytes \<times> GPSSensorNMEA) option" where
  "Sample_nmea newline counts chars s = (if newline then sample_loop counts chars s else Some (chars, s))"

text \<open>\<open>GetImpact\<close>: nothing is copied without a position.\<close>

definition GetImpact_nmea :: "GPSSensorNMEA \<Rightarrow> bytes option" where
  "GetImpact_nmea s = (if fixed s then Some (impact_bytes (impact s)) else None)"

text \<open>\<open>NeedImpact\<close>: \<open>t\<close> is the time in seconds.\<close>

definition NeedImpact_nmea :: "u32 \<Rightarrow> u32 \<Rightarrow> GPSSensorNMEA \<Rightarrow> bool \<times> GPSSensorNMEA" where
  "NeedImpact_nmea t trackTime s =
     (let now = t * 1000 in if trackTime < now - lastImpact s then (True, s\<lparr>lastImpact := now\<rparr>) else (False, s))"

end
