(* ===== verification/Nmea_Lemmas.thy ===== *)
theory Nmea_Lemmas
  imports Nmea
begin

text \<open>
  How the parser of NMEA sentences moves over the characters of a term, the end of a term, and a whole sentence; the values of numbers.
\<close>

section \<open>Characters\<close>

abbreviation run :: "bytes \<Rightarrow> TinyGPS \<Rightarrow> TinyGPS" where
  "run w g \<equiv> snd (encode_all w g)"

abbreviation accepts :: "bytes \<Rightarrow> TinyGPS \<Rightarrow> bool" where
  "accepts w g \<equiv> fst (encode_all w g)"

definition xors :: "bytes \<Rightarrow> u8" where
  "xors w = foldr (XOR) w 0"

definition plain :: "bytes \<Rightarrow> bool" where
  "plain w \<longleftrightarrow> (\<forall>c \<in> set w. c \<noteq> 44 \<and> c \<noteq> 13 \<and> c \<noteq> 10 \<and> c \<noteq> 42 \<and> c \<noteq> 36)"

lemma xors_simps [simp]: "xors [] = 0" "xors (c # w) = c XOR xors w" "xors (v @ w) = xors v XOR xors w"
proof -
  show "xors [] = 0" "xors (c # w) = c XOR xors w" for c w by (simp_all add: xors_def)
  then show "xors (v @ w) = xors v XOR xors w" by (induction v) (simp_all add: xor.assoc)
qed

lemma plain_simps [simp]:
  "plain []" "plain (c # w) \<longleftrightarrow> c \<noteq> 44 \<and> c \<noteq> 13 \<and> c \<noteq> 10 \<and> c \<noteq> 42 \<and> c \<noteq> 36 \<and> plain w" "plain (v @ w) \<longleftrightarrow> plain v \<and> plain w"
  by (auto simp: plain_def)

lemma run_append [simp]: "run (v @ w) g = run w (run v g)"
  by (induction v arbitrary: g) (simp_all add: Let_def split: prod.splits, metis snd_conv)

lemma accepts_append [simp]: "accepts (v @ w) g \<longleftrightarrow> accepts v g \<or> accepts w (run v g)"
  by (induction v arbitrary: g) (simp_all add: Let_def split: prod.splits, metis fst_conv snd_conv)

lemma run_one: "run [c] g = snd (encode c g)" "accepts [c] g = fst (encode c g)"
  by (simp_all split: prod.splits)

lemma off_Suc: "unat (o' :: u8) \<le> 14 \<Longrightarrow> unat (o' + 1) = Suc (unat o')"
  by (simp add: unat_word_ariths)

lemma encode_plain:
  assumes "plain [c]" "length (g_term g) = 15" "unat (term_offset g) \<le> 13"
  shows "encode c g = (False, g\<lparr>encoded_characters := encoded_characters g + 1, g_term := (g_term g)[unat (term_offset g) := c],
    term_offset := term_offset g + 1, parity := (if is_checksum_term g then parity g else parity g XOR c)\<rparr>)"
  using assms by (simp add: encode_def Let_def)

lemma run_plain:
  assumes "plain w" "length (g_term g) = 15" "unat (term_offset g) + length w \<le> 14" "\<not> is_checksum_term g"
  shows "encode_all w g = (False, g\<lparr>encoded_characters := encoded_characters g + of_nat (length w),
    g_term := take (unat (term_offset g)) (g_term g) @ w @ drop (unat (term_offset g) + length w) (g_term g),
    term_offset := term_offset g + of_nat (length w), parity := parity g XOR xors w\<rparr>)"
  using assms
proof (induction w arbitrary: g)
  case Nil then show ?case by simp
next
  case (Cons c w)
  let ?g = "snd (encode c g)"
  have e: "encode c g = (False, g\<lparr>encoded_characters := encoded_characters g + 1, g_term := (g_term g)[unat (term_offset g) := c],
      term_offset := term_offset g + 1, parity := parity g XOR c\<rparr>)"
    using Cons.prems by (simp add: encode_plain)
  have o: "unat (term_offset g + 1) = Suc (unat (term_offset g))" using Cons.prems by (intro off_Suc) simp
  have u: "take (Suc k) (xs[k := c]) = take k xs @ [c]" if "k < length xs" for k and xs :: bytes
    using that by (simp add: take_Suc_conv_app_nth)
  show ?case
    using Cons.prems Cons.IH [of ?g] by (simp add: e o Let_def u xor.assoc add.assoc )
qed

text \<open>What a sentence shows before it ends.\<close>

definition unpublished :: "TinyGPS \<Rightarrow> TinyGPS \<Rightarrow> bool" where
  "unpublished g h \<longleftrightarrow> cur h = cur g \<and> gll_ready h = gll_ready g \<and> rmc_ready h = rmc_ready g \<and> gga_ready h = gga_ready g \<and>
     gsv_ready h = gsv_ready g \<and> failed_checksum h = failed_checksum g \<and> good_sentences h = good_sentences g"

lemma unpublished_trans: "unpublished g h \<Longrightarrow> unpublished h k \<Longrightarrow> unpublished g k"
  by (simp add: unpublished_def)

lemma unpublished_term_value: "unpublished g (term_value k g)"
  by (simp add: unpublished_def term_value_def Let_def)

lemma term_value_keeps [simp]:
  "is_checksum_term (term_value k g) = is_checksum_term g" "parity (term_value k g) = parity g" "g_term (term_value k g) = g_term g"
  "term_offset (term_value k g) = term_offset g" "term_number (term_value k g) = term_number g"
  "sentence_type (term_value k g) = sentence_type g" "cur (term_value k g) = cur g"
  by (simp_all add: term_value_def Let_def)

lemma term_complete_open:
  assumes "\<not> is_checksum_term g"
  shows "fst (term_complete g) = False" "unpublished g (snd (term_complete g))" "parity (snd (term_complete g)) = parity g"
    "g_term (snd (term_complete g)) = g_term g" "is_checksum_term (snd (term_complete g)) = False"
  using assms unpublished_term_value [of g] by (auto simp: term_complete_def unpublished_def)

definition in_body :: "TinyGPS \<Rightarrow> bool" where
  "in_body g \<longleftrightarrow> length (g_term g) = 15 \<and> unat (term_offset g) \<le> 14 \<and> \<not> is_checksum_term g"

lemma encode_body:
  assumes "in_body g" "c \<noteq> 13" "c \<noteq> 10" "c \<noteq> 42" "c \<noteq> 36"
  shows "fst (encode c g) = False" "in_body (snd (encode c g))" "unpublished g (snd (encode c g))"
    "parity (snd (encode c g)) = parity g XOR c"
proof -
  let ?h = "g\<lparr>encoded_characters := encoded_characters g + 1, parity := parity g XOR c, g_term := (g_term g)[unat (term_offset g) := 0]\<rparr>"
  have b: "length (g_term g) = 15" "unat (term_offset g) \<le> 14" "\<not> is_checksum_term g" using assms(1) by (auto simp: in_body_def)
  have t: "\<not> is_checksum_term ?h" using b by simp
  note T = term_complete_open [OF t]
  have o: "unat (term_offset g + 1) = Suc (unat (term_offset g))" using b by (intro off_Suc) simp
  have "fst (encode c g) = False \<and> in_body (snd (encode c g)) \<and> unpublished g (snd (encode c g)) \<and> parity (snd (encode c g)) = parity g XOR c"
  proof (cases "c = 44")
    case True
    then show ?thesis using T b
      by (simp add: encode_def end_term_def Let_def in_body_def unpublished_def case_prod_beta)
  next
    case False
    then show ?thesis using assms b o
      by (simp add: encode_def Let_def in_body_def unpublished_def)
  qed
  then show "fst (encode c g) = False" "in_body (snd (encode c g))" "unpublished g (snd (encode c g))"
    "parity (snd (encode c g)) = parity g XOR c" by simp_all
qed

lemma run_body:
  assumes "in_body g" "\<forall>c \<in> set w. c \<noteq> 13 \<and> c \<noteq> 10 \<and> c \<noteq> 42 \<and> c \<noteq> 36"
  shows "accepts w g = False \<and> in_body (run w g) \<and> unpublished g (run w g) \<and> parity (run w g) = parity g XOR xors w"
  using assms
proof (induction w arbitrary: g)
  case Nil then show ?case by (simp add: unpublished_def)
next
  case (Cons c w)
  note E = encode_body [of g c]
  have IH: "accepts w (snd (encode c g)) = False \<and> in_body (run w (snd (encode c g))) \<and> unpublished (snd (encode c g)) (run w (snd (encode c g))) \<and>
      parity (run w (snd (encode c g))) = parity (snd (encode c g)) XOR xors w"
    using Cons.prems E by (intro Cons.IH) auto
  have a: "encode_all (c # w) g = (accepts w (snd (encode c g)), run w (snd (encode c g)))"
    using Cons.prems E by (simp add: Let_def case_prod_beta)
  show ?case unfolding a using IH E Cons.prems by (auto simp: xor.assoc intro: unpublished_trans)
qed

section \<open>The check sum\<close>

lemma run_star:
  assumes "in_body g"
  shows "accepts [42] g = False" "unpublished g (run [42] g)" "parity (run [42] g) = parity g" "length (g_term (run [42] g)) = 15"
    "term_offset (run [42] g) = 0" "is_checksum_term (run [42] g)"
proof -
  let ?h = "g\<lparr>encoded_characters := encoded_characters g + 1, g_term := (g_term g)[unat (term_offset g) := 0]\<rparr>"
  have b: "length (g_term g) = 15" "unat (term_offset g) \<le> 14" "\<not> is_checksum_term g" using assms(1) by (auto simp: in_body_def)
  have t: "\<not> is_checksum_term ?h" using b by simp
  note T = term_complete_open [OF t]
  have "fst (encode 42 g) = False \<and> unpublished g (snd (encode 42 g)) \<and> parity (snd (encode 42 g)) = parity g \<and>
      length (g_term (snd (encode 42 g))) = 15 \<and> term_offset (snd (encode 42 g)) = 0 \<and> is_checksum_term (snd (encode 42 g))"
    using T b by (simp add: encode_def end_term_def Let_def unpublished_def case_prod_beta)
  then show "accepts [42] g = False" "unpublished g (run [42] g)" "parity (run [42] g) = parity g" "length (g_term (run [42] g)) = 15"
    "term_offset (run [42] g) = 0" "is_checksum_term (run [42] g)" by (simp_all only: run_one)
qed

definition checksum_of :: "u8 \<Rightarrow> u8 \<Rightarrow> u8" where
  "checksum_of h l = 16 * from_hex h + from_hex l"

lemma run_checksum:
  assumes "length (g_term g) = 15" "term_offset g = 0" "is_checksum_term g" "plain [h, l]"
  shows "accepts [h, l, 13] g = (checksum_of h l = parity g \<and> gps_data_good g)"
    "checksum_of h l \<noteq> parity g \<Longrightarrow> cur (run [h, l, 13] g) = cur g \<and> gll_ready (run [h, l, 13] g) = gll_ready g \<and>
       rmc_ready (run [h, l, 13] g) = rmc_ready g \<and> gga_ready (run [h, l, 13] g) = gga_ready g \<and> gsv_ready (run [h, l, 13] g) = gsv_ready g \<and>
       good_sentences (run [h, l, 13] g) = good_sentences g \<and> failed_checksum (run [h, l, 13] g) = failed_checksum g + 1"
    "checksum_of h l = parity g \<Longrightarrow> gps_data_good g \<Longrightarrow> sentence_type g = GPGLL \<Longrightarrow> gll_ready (run [h, l, 13] g) \<and>
       cur (run [h, l, 13] g) = (cur g)\<lparr>f_time_fix := f_time_fix (fresh g), f_position_fix := f_position_fix (fresh g),
         f_time := f_time (fresh g), f_date := f_date (fresh g), f_latitude := f_latitude (fresh g), f_longitude := f_longitude (fresh g),
         f_speed := f_speed (fresh g), f_course := f_course (fresh g)\<rparr>"
proof -
  have "length (g_term g) = Suc (Suc 13)" using assms(1) by simp
  then obtain a b ts where t: "g_term g = a # b # ts" "length ts = 13" unfolding length_Suc_conv by blast
  have "encode h g = (False, g\<lparr>encoded_characters := encoded_characters g + 1, g_term := h # b # ts, term_offset := 1\<rparr>)"
    using assms t by (simp add: encode_def Let_def)
  moreover have "encode l (g\<lparr>encoded_characters := encoded_characters g + 1, g_term := h # b # ts, term_offset := 1\<rparr>)
      = (False, g\<lparr>encoded_characters := encoded_characters g + 2, g_term := h # l # ts, term_offset := 2\<rparr>)"
    using assms t by (simp add: encode_def Let_def)
  ultimately have e: "encode_all [h, l, 13] g = encode_all [13] (g\<lparr>encoded_characters := encoded_characters g + 2, g_term := h # l # ts, term_offset := 2\<rparr>)"
    by (simp add: Let_def case_prod_beta)
  show "accepts [h, l, 13] g = (checksum_of h l = parity g \<and> gps_data_good g)"
    unfolding e using assms t by (simp add: encode_def end_term_def term_complete_def Let_def checksum_of_def)
  show "checksum_of h l \<noteq> parity g \<Longrightarrow> cur (run [h, l, 13] g) = cur g \<and> gll_ready (run [h, l, 13] g) = gll_ready g \<and>
       rmc_ready (run [h, l, 13] g) = rmc_ready g \<and> gga_ready (run [h, l, 13] g) = gga_ready g \<and> gsv_ready (run [h, l, 13] g) = gsv_ready g \<and>
       good_sentences (run [h, l, 13] g) = good_sentences g \<and> failed_checksum (run [h, l, 13] g) = failed_checksum g + 1"
    unfolding e using assms t by (simp add: encode_def end_term_def term_complete_def Let_def checksum_of_def)
  show "checksum_of h l = parity g \<Longrightarrow> gps_data_good g \<Longrightarrow> sentence_type g = GPGLL \<Longrightarrow> gll_ready (run [h, l, 13] g) \<and>
       cur (run [h, l, 13] g) = (cur g)\<lparr>f_time_fix := f_time_fix (fresh g), f_position_fix := f_position_fix (fresh g),
         f_time := f_time (fresh g), f_date := f_date (fresh g), f_latitude := f_latitude (fresh g), f_longitude := f_longitude (fresh g),
         f_speed := f_speed (fresh g), f_course := f_course (fresh g)\<rparr>"
    unfolding e using assms t by (simp add: encode_def end_term_def term_complete_def gps_commit_def Let_def checksum_of_def)
qed

section \<open>Terms\<close>

text \<open>Where the parser stands in front of term \<open>n\<close> of a sentence.\<close>

definition in_front :: "gps_fix \<Rightarrow> sentence \<Rightarrow> u8 \<Rightarrow> u8 \<Rightarrow> TinyGPS \<Rightarrow> bool" where
  "in_front c st n p g \<longleftrightarrow> length (g_term g) = 15 \<and> term_offset g = 0 \<and> \<not> is_checksum_term g \<and> sentence_type g = st \<and> term_number g = n \<and>
     parity g = p \<and> cur g = c"

text \<open>One term and the comma behind it.\<close>

lemma run_term:
  assumes g: "in_front c st n p g" and w: "plain w" "length w \<le> 14"
  shows "\<exists>h. g_term h = w @ 0 # drop (Suc (length w)) (g_term g) \<and> fresh h = fresh g \<and> gps_data_good h = gps_data_good g \<and>
      in_front c st n (p XOR xors w XOR 44) (h\<lparr>term_offset := 0\<rparr>) \<and>
      run (w @ [44]) g = (snd (term_complete h))\<lparr>term_number := term_number (snd (term_complete h)) + 1, term_offset := 0,
        is_checksum_term := False\<rparr>"
proof -
  have b: "length (g_term g) = 15" "term_offset g = 0" "\<not> is_checksum_term g" "sentence_type g = st" "term_number g = n" "parity g = p" "cur g = c"
    using g by (auto simp: in_front_def)
  let ?k = "g\<lparr>encoded_characters := encoded_characters g + of_nat (length w), g_term := w @ drop (length w) (g_term g),
      term_offset := of_nat (length w), parity := p XOR xors w\<rparr>"
  have e: "encode_all w g = (False, ?k)" using run_plain [of w g] b w by simp
  have u: "unat (of_nat (length w) :: u8) = length w" using w by (simp add: unat_of_nat_lt)
  have d: "(w @ drop (length w) (g_term g))[length w := 0] = w @ 0 # drop (Suc (length w)) (g_term g)"
    using w b by (simp add: list_update_append Cons_nth_drop_Suc [symmetric, of "length w" "g_term g"])
  let ?h = "?k\<lparr>encoded_characters := encoded_characters ?k + 1, parity := p XOR xors w XOR 44,
      g_term := w @ 0 # drop (Suc (length w)) (g_term g)\<rparr>"
  have r: "run (w @ [44]) g = (snd (term_complete ?h))\<lparr>term_number := term_number (snd (term_complete ?h)) + 1, term_offset := 0,
        is_checksum_term := False\<rparr>"
    using w b by (simp add: e encode_def end_term_def Let_def case_prod_beta u d xor.assoc)
  show ?thesis using r b w by (intro exI [of _ ?h]) (simp add: in_front_def)
qed

lemma run_field:
  assumes g: "in_front c st n p g" and w: "plain w" "length w \<le> 14" "w \<noteq> []" "hd w \<noteq> 0" and n: "n \<noteq> 0" "st \<noteq> OTHER"
  shows "in_front c st (n + 1) (p XOR xors w XOR 44) (run (w @ [44]) g) \<and>
    (\<exists>h r. g_term h = w @ 0 # r \<and> fresh h = fresh g \<and> gps_data_good h = gps_data_good g \<and>
       fresh (run (w @ [44]) g) = fresh (term_value (unat n + (case st of GPGGA \<Rightarrow> 200 | GPRMC \<Rightarrow> 100 | GPGLL \<Rightarrow> 300 | _ \<Rightarrow> 0)) h) \<and>
       gps_data_good (run (w @ [44]) g) = gps_data_good (term_value (unat n + (case st of GPGGA \<Rightarrow> 200 | GPRMC \<Rightarrow> 100 | GPGLL \<Rightarrow> 300 | _ \<Rightarrow> 0)) h))"
proof -
  from run_term [OF g w(1,2)] obtain h where h: "g_term h = w @ 0 # drop (Suc (length w)) (g_term g)" "fresh h = fresh g"
    "gps_data_good h = gps_data_good g" "in_front c st n (p XOR xors w XOR 44) (h\<lparr>term_offset := 0\<rparr>)"
    "run (w @ [44]) g = (snd (term_complete h))\<lparr>term_number := term_number (snd (term_complete h)) + 1, term_offset := 0,
        is_checksum_term := False\<rparr>" by blast
  have f: "\<not> is_checksum_term h" "term_number h = n" "sentence_type h = st" "parity h = p XOR xors w XOR 44" "cur h = c" "length (g_term h) = 15"
    using h(4) by (auto simp: in_front_def)
  have "hd (g_term h) = hd w" using h(1) w(3) by simp
  then have t: "term_complete h = (False, term_value (term_key h) h)" using f n w by (simp add: term_complete_def)
  show ?thesis
    unfolding h(5) t using f h(2,3) by (auto simp: in_front_def term_key_def intro!: exI [of _ h] exI [of _ "drop (Suc (length w)) (g_term g)"] h(1))
qed

text \<open>The start of a sentence and the name of it.\<close>

lemma run_start:
  assumes "length (g_term g) = 15"
  shows "in_front (cur g) OTHER 0 0 (run [36] g)" "fresh (run [36] g) = fresh g" "accepts [36] g = False"
  using assms by (simp_all add: encode_def in_front_def)

definition GLL_NAME :: bytes where
  "GLL_NAME = [71, 80, 71, 76, 76]"

lemma sentence_of_GLL: "sentence_of (GLL_NAME @ 0 # r) = GPGLL"
  by (simp add: sentence_of_def GLL_NAME_def GPRMC_TERM_def GPGLL_TERM_def)

lemma run_name:
  assumes g: "in_front c OTHER 0 p g"
  shows "in_front c GPGLL 1 (p XOR xors GLL_NAME XOR 44) (run (GLL_NAME @ [44]) g)" "fresh (run (GLL_NAME @ [44]) g) = fresh g"
proof -
  have w: "plain GLL_NAME" "length GLL_NAME \<le> 14" by (simp_all add: GLL_NAME_def)
  from run_term [OF g w] obtain h where h: "g_term h = GLL_NAME @ 0 # drop (Suc (length GLL_NAME)) (g_term g)" "fresh h = fresh g"
    "in_front c OTHER 0 (p XOR xors GLL_NAME XOR 44) (h\<lparr>term_offset := 0\<rparr>)"
    "run (GLL_NAME @ [44]) g = (snd (term_complete h))\<lparr>term_number := term_number (snd (term_complete h)) + 1, term_offset := 0,
        is_checksum_term := False\<rparr>" by blast
  have f: "\<not> is_checksum_term h" "term_number h = 0" "parity h = p XOR xors GLL_NAME XOR 44" "cur h = c" "length (g_term h) = 15"
    using h(3) by (auto simp: in_front_def)
  have t: "term_complete h = (False, h\<lparr>sentence_type := GPGLL\<rparr>)" using f by (simp add: term_complete_def h(1) sentence_of_GLL)
  show "in_front c GPGLL 1 (p XOR xors GLL_NAME XOR 44) (run (GLL_NAME @ [44]) g)" "fresh (run (GLL_NAME @ [44]) g) = fresh g"
    unfolding h(4) t using f h(2) by (simp_all add: in_front_def)
qed

section \<open>Numbers\<close>

definition digits :: "bytes \<Rightarrow> bool" where
  "digits w \<longleftrightarrow> (\<forall>c \<in> set w. gpsisdigit c)"

definition dval :: "bytes \<Rightarrow> nat" where
  "dval w = foldl (\<lambda>a c. 10 * a + (unat c - 48)) 0 w"

lemma digit_of: "gpsisdigit c \<Longrightarrow> (ucast c :: u32) - 48 = of_nat (unat c - 48)" "gpsisdigit c \<Longrightarrow> unat c - 48 \<le> 9"
proof -
  assume "gpsisdigit c"
  then have b: "48 \<le> unat c" "unat c \<le> 57" by (simp_all add: gpsisdigit_def word_le_nat_alt)
  show "unat c - 48 \<le> 9" using b by simp
  show "(ucast c :: u32) - 48 = of_nat (unat c - 48)" unfolding ucast_of_nat_unat of_nat_diff [OF b(1)] by simp
qed

lemma atol_digits:
  assumes "digits w" "\<not> gpsisdigit z"
  shows "atol_loop (of_nat a) (w @ z # r) = of_nat (foldl (\<lambda>a c. 10 * a + (unat c - 48)) a w)"
  using assms
proof (induction w arbitrary: a)
  case Nil then show ?case by simp
next
  case (Cons c w)
  have d: "gpsisdigit c" "digits w" using Cons.prems by (simp_all add: digits_def)
  have e: "10 * of_nat a + ucast c - 48 = (of_nat (10 * a + (unat c - 48)) :: u32)"
    using digit_of(1) [OF d(1)] by (simp add: diff_add_eq [symmetric] add_diff_eq [symmetric] del: of_nat_diff)
  show ?case
    by (simp only: atol_loop.simps append_Cons foldl_Cons d if_True e Cons.IH [OF d(2) Cons.prems(2)])
qed

lemma gpsatol_digits: "digits w \<Longrightarrow> \<not> gpsisdigit z \<Longrightarrow> gpsatol (w @ z # r) = of_nat (dval w)"
  using atol_digits [of w z 0 r] by (simp add: gpsatol_def dval_def)

lemma dropWhile_digits: "digits w \<Longrightarrow> \<not> gpsisdigit z \<Longrightarrow> dropWhile gpsisdigit (w @ z # r) = z # r"
  by (simp add: dropWhile_append3 digits_def)

lemma dval_less: "digits w \<Longrightarrow> dval w < 10 ^ length w"
proof -
  have "foldl (\<lambda>a c. 10 * a + (unat c - 48)) a w < (a + 1) * 10 ^ length w" if "digits w" for a
    using that
  proof (induction w arbitrary: a)
    case Nil then show ?case by simp
  next
    case (Cons c w)
    have d: "unat c - 48 \<le> 9" "digits w" using Cons.prems digit_of(2) by (simp_all add: digits_def)
    have "foldl (\<lambda>a c. 10 * a + (unat c - 48)) (10 * a + (unat c - 48)) w < (10 * a + (unat c - 48) + 1) * 10 ^ length w"
      by (rule Cons.IH [OF d(2)])
    also have "\<dots> \<le> ((a + 1) * 10) * 10 ^ length w" using d(1) by (intro mult_right_mono) auto
    finally show ?case by (simp only: foldl_Cons length_Cons power_Suc mult.assoc)
  qed
  from this [of 0] show "digits w \<Longrightarrow> dval w < 10 ^ length w" by (simp add: dval_def)
qed

text \<open>The value of an angle in hundred thousandths of a degree: \<open>ds\<close> are degrees and minutes, \<open>fs\<close> the decimals of the minutes, of which
  four are read.\<close>

definition angle :: "bytes \<Rightarrow> bytes \<Rightarrow> nat" where
  "angle ds fs = dval ds div 100 * 100000 + (dval ds mod 100 * 10000 + dval (take 4 (fs @ [48, 48, 48, 48]))) div 6"

lemma frac_zero: "frac_loop 0 acc w = acc"
  by (induction w arbitrary: acc) auto

lemma word_div_of_nat: "a < 2 ^ 32 \<Longrightarrow> b < 2 ^ 32 \<Longrightarrow> (of_nat a :: u32) div of_nat b = of_nat (a div b)"
  by (simp only: word_arith_nat_div) (simp add: unat_of_nat_lt)

lemma frac_step:
  assumes "gpsisdigit c" "m < 2 ^ 32"
  shows "frac_loop (of_nat m) (of_nat a) (c # w) = frac_loop (of_nat (m div 10)) (of_nat (a + m * (unat c - 48))) w"
proof -
  have "(of_nat m :: u32) div 10 = of_nat (m div 10)" using word_div_of_nat [OF assms(2), of 10] by simp
  moreover have "of_nat a + of_nat m * (ucast c - 48) = (of_nat (a + m * (unat c - 48)) :: u32)"
    unfolding digit_of(1) [OF assms(1)] by simp
  ultimately show ?thesis using assms(1) by (simp only: frac_loop.simps if_True)
qed

lemma frac_digits:
  assumes "digits fs" "\<not> gpsisdigit z"
  shows "frac_loop 1000 (of_nat a) (fs @ z # r) = of_nat (a + dval (take 4 (fs @ [48, 48, 48, 48])))"
proof -
  define d :: "u8 \<Rightarrow> nat" where "d c = unat c - 48" for c
  have dv: "dval w = foldl (\<lambda>a c. 10 * a + d c) 0 w" for w by (simp add: dval_def d_def)
  have d0: "d 48 = 0" by (simp add: d_def)
  have m: "(1000 :: u32) = of_nat 1000" by simp
  have G: "gpsisdigit c" if "c \<in> set fs" for c using assms(1) that by (simp add: digits_def)
  have F: "frac_loop (of_nat k) (of_nat b) (c # w) = frac_loop (of_nat (k div 10)) (of_nat (b + k * d c)) w"
    if "c \<in> set fs" "k < 2 ^ 32" for k b c w
    unfolding d_def by (rule frac_step [OF G [OF that(1)] that(2)])
  have Z: "frac_loop k b (z # w) = b" for k b w using assms(2) by simp
  consider "fs = []" | a1 where "fs = [a1]" | a1 a2 where "fs = [a1, a2]" | a1 a2 a3 where "fs = [a1, a2, a3]"
    | a1 a2 a3 a4 fs' where "fs = a1 # a2 # a3 # a4 # fs'"
    by (metis list.exhaust)
  then show ?thesis
    unfolding m by cases (simp_all add: F Z dv d0 frac_zero add.assoc del: frac_loop.simps of_nat_numeral of_nat_add of_nat_mult of_nat_1 of_nat_Suc)
qed

lemma parse_degrees_angle:
  assumes "digits ds" "length ds \<le> 9" "digits fs"
  shows "parse_degrees (ds @ 46 # fs @ 0 # r) = of_nat (angle ds fs)"
proof -
  have z: "\<not> gpsisdigit 46" "\<not> gpsisdigit 0" by (simp_all add: gpsisdigit_def)
  have "dval ds < 10 ^ length ds" by (rule dval_less [OF assms(1)])
  also have "(10 :: nat) ^ length ds \<le> 10 ^ 9" using assms(2) by (intro power_increasing) simp_all
  finally have n: "dval ds < 2 ^ 32" by simp
  let ?f = "dval (take 4 (fs @ [48, 48, 48, 48]))"
  have "digits (take 4 (fs @ [48, 48, 48, 48]))" using assms(3) by (auto simp: digits_def gpsisdigit_def dest: in_set_takeD)
  from dval_less [OF this] have "?f < 10 ^ 4" by (simp only: length_take length_append list.size) simp
  then have f: "?f < 10000" by simp
  have t: "gpsatol (ds @ 46 # fs @ 0 # r) = of_nat (dval ds)" by (rule gpsatol_digits [OF assms(1) z(1)])
  have m: "(of_nat (dval ds) :: u32) mod 100 = of_nat (dval ds mod 100)" using n
    by (simp only: word_arith_nat_mod) (simp add: unat_of_nat_lt)
  have q: "(of_nat (dval ds) :: u32) div 100 = of_nat (dval ds div 100)" using word_div_of_nat [OF n, of 100] by simp
  have l: "frac_loop 1000 (of_nat (dval ds mod 100 * 10000)) (fs @ 0 # r) = of_nat (dval ds mod 100 * 10000 + ?f)"
    by (rule frac_digits [OF assms(3) z(2)])
  have "dval ds mod 100 < 100" by simp
  then have s: "dval ds mod 100 * 10000 + ?f < 2 ^ 32" using f by simp
  have v: "(of_nat (dval ds mod 100 * 10000 + ?f) :: u32) div 6 = of_nat ((dval ds mod 100 * 10000 + ?f) div 6)"
    using word_div_of_nat [OF s, of 6] by simp
  have w: "of_nat (dval ds mod 100) * 10000 = (of_nat (dval ds mod 100 * 10000) :: u32)" by simp
  have "parse_degrees (ds @ 46 # fs @ 0 # r) =
      of_nat (dval ds div 100) * 100000 + frac_loop 1000 (of_nat (dval ds mod 100) * 10000) (fs @ 0 # r) div 6"
    by (simp only: parse_degrees_def Let_def t m q dropWhile_digits [OF assms(1) z(1)] list.sel list.distinct simp_thms if_True)
  also have "\<dots> = of_nat (dval ds div 100) * 100000 + of_nat ((dval ds mod 100 * 10000 + ?f) div 6)"
    by (simp only: w l v)
  also have "\<dots> = of_nat (angle ds fs)" unfolding angle_def by simp
  finally show ?thesis .
qed

lemma parse_decimal_time:
  assumes "digits ts" "gpsisdigit c1" "gpsisdigit c2" "ts \<noteq> []"
  shows "parse_decimal (ts @ 46 # c1 # c2 # 0 # r) = of_nat (100 * dval ts + dval [c1, c2])"
proof -
  have z: "\<not> gpsisdigit 46" by (simp add: gpsisdigit_def)
  have h: "hd (ts @ 46 # c1 # c2 # 0 # r) \<noteq> 45" using assms(1,4) by (cases ts) (auto simp: digits_def gpsisdigit_def)
  have t: "gpsatol (ts @ 46 # c1 # c2 # 0 # r) = of_nat (dval ts)" by (rule gpsatol_digits [OF assms(1) z])
  define d :: "u8 \<Rightarrow> nat" where "d c = unat c - 48" for c
  have d: "(ucast c1 :: u32) - 48 = of_nat (d c1)" "(ucast c2 :: u32) - 48 = of_nat (d c2)"
    using digit_of(1) assms(2,3) by (simp_all only: d_def)
  have v: "dval [c1, c2] = 10 * d c1 + d c2" by (simp add: dval_def d_def)
  show ?thesis
    using h assms(2,3) by (simp add: Let_def t dropWhile_digits [OF assms(1) z] d v add.assoc)
qed

section \<open>A sentence of position\<close>

text \<open>The last term: the mode, which has no value.\<close>

lemma run_last:
  assumes g: "in_front c GPGLL 7 p g" and w: "plain w" "length w \<le> 14"
  shows "is_checksum_term (run (w @ [42]) g)" "term_offset (run (w @ [42]) g) = 0" "length (g_term (run (w @ [42]) g)) = 15"
    "parity (run (w @ [42]) g) = p XOR xors w" "fresh (run (w @ [42]) g) = fresh g" "gps_data_good (run (w @ [42]) g) = gps_data_good g"
    "cur (run (w @ [42]) g) = c" "sentence_type (run (w @ [42]) g) = GPGLL"
proof -
  have b: "length (g_term g) = 15" "term_offset g = 0" "\<not> is_checksum_term g" "sentence_type g = GPGLL" "term_number g = 7" "parity g = p" "cur g = c"
    using g by (auto simp: in_front_def)
  let ?k = "g\<lparr>encoded_characters := encoded_characters g + of_nat (length w), g_term := w @ drop (length w) (g_term g),
      term_offset := of_nat (length w), parity := p XOR xors w\<rparr>"
  have e: "encode_all w g = (False, ?k)" using run_plain [of w g] b w by simp
  have u: "unat (of_nat (length w) :: u8) = length w" using w by (simp add: unat_of_nat_lt)
  let ?h = "?k\<lparr>encoded_characters := encoded_characters ?k + 1, g_term := (w @ drop (length w) (g_term g))[length w := 0]\<rparr>"
  have t: "term_complete ?h = (False, ?h)" using b by (simp add: term_complete_def term_key_def term_value_def)
  have "run (w @ [42]) g = ?h\<lparr>term_number := 8, term_offset := 0, is_checksum_term := True\<rparr>"
    using w b t by (simp add: e encode_def end_term_def Let_def case_prod_beta u)
  then show "is_checksum_term (run (w @ [42]) g)" "term_offset (run (w @ [42]) g) = 0" "length (g_term (run (w @ [42]) g)) = 15"
    "parity (run (w @ [42]) g) = p XOR xors w" "fresh (run (w @ [42]) g) = fresh g" "gps_data_good (run (w @ [42]) g) = gps_data_good g"
    "cur (run (w @ [42]) g) = c" "sentence_type (run (w @ [42]) g) = GPGLL"
    using b w by simp_all
qed

definition gll_body :: "bytes \<Rightarrow> u8 \<Rightarrow> bytes \<Rightarrow> u8 \<Rightarrow> bytes \<Rightarrow> bytes \<Rightarrow> bytes" where
  "gll_body lat ns lon ew ts md =
     (GLL_NAME @ [44]) @ (lat @ [44]) @ ([ns] @ [44]) @ (lon @ [44]) @ ([ew] @ [44]) @ (ts @ [44]) @ ([65] @ [44]) @ md"

definition field_ok :: "bytes \<Rightarrow> bool" where
  "field_ok w \<longleftrightarrow> plain w \<and> length w \<le> 14 \<and> w \<noteq> [] \<and> hd w \<noteq> 0"

lemma run_value:
  assumes g: "in_front c GPGLL n p g" "fresh g = x" and w: "field_ok w" "n \<noteq> 0"
    and v: "\<And>h r. g_term h = w @ 0 # r \<Longrightarrow> fresh h = x \<Longrightarrow> fresh (term_value (unat n + 300) h) = y"
  shows "\<exists>k. run (w @ [44]) g = k \<and> in_front c GPGLL (n + 1) (p XOR xors w XOR 44) k \<and> fresh k = y"
proof -
  have w': "plain w" "length w \<le> 14" "w \<noteq> []" "hd w \<noteq> 0" using w(1) by (simp_all add: field_ok_def)
  from run_field [OF g(1) w' w(2), simplified sentence.case sentence.distinct] obtain h r where
    "in_front c GPGLL (n + 1) (p XOR xors w XOR 44) (run (w @ [44]) g)" "g_term h = w @ 0 # r" "fresh h = fresh g"
    "fresh (run (w @ [44]) g) = fresh (term_value (unat n + 300) h)" by blast
  then show ?thesis using v [of h r] g(2) by blast
qed

lemma run_valid:
  assumes g: "in_front c GPGLL 6 p g" "fresh g = x"
  shows "\<exists>k. run ([65] @ [44]) g = k \<and> in_front c GPGLL 7 (p XOR 65 XOR 44) k \<and> fresh k = x \<and> gps_data_good k"
proof -
  from run_field [OF g(1), of "[65]", simplified sentence.case] obtain h r where
    "in_front c GPGLL (6 + 1) (p XOR xors [65] XOR 44) (run ([65] @ [44]) g)" "g_term h = [65] @ 0 # r" "fresh h = fresh g"
    "fresh (run ([65] @ [44]) g) = fresh (term_value (unat (6 :: u8) + 300) h)"
    "gps_data_good (run ([65] @ [44]) g) = gps_data_good (term_value (unat (6 :: u8) + 300) h)" by auto
  then show ?thesis using g(2) by (intro exI [of _ "run ([65] @ [44]) g"]) (simp add: term_value_def Let_def)
qed

text \<open>The values that a sentence of position leaves, whatever they are made of.\<close>

lemma run_gll:
  assumes g: "length (g_term g) = 15"
    and lat: "field_ok lat" "\<And>r. parse_degrees (lat @ 0 # r) = la" and ns: "ns = 78 \<or> ns = 83"
    and lon: "field_ok lon" "\<And>r. parse_degrees (lon @ 0 # r) = lo" and ew: "ew = 69 \<or> ew = 87"
    and ts: "field_ok ts" "\<And>r. parse_decimal (ts @ 0 # r) = ti" and md: "plain md" "length md \<le> 14"
    and cs: "plain [h, l]" "checksum_of h l = xors (gll_body lat ns lon ew ts md)"
  shows "gll_ready (run ([36] @ gll_body lat ns lon ew ts md @ [42] @ [h, l, 13]) g) \<and>
    cur (run ([36] @ gll_body lat ns lon ew ts md @ [42] @ [h, l, 13]) g) = (cur g)\<lparr>f_time_fix := 0, f_position_fix := 0, f_time := ti,
      f_date := f_date (fresh g), f_latitude := (if ns = 83 then - la else la), f_longitude := (if ew = 87 then - lo else lo),
      f_speed := f_speed (fresh g), f_course := f_course (fresh g)\<rparr>"
proof -
  note S = run_start [OF g]
  note N = run_name [OF S(1)]
  have F: "field_ok [ns]" "field_ok [ew]" using ns ew by (auto simp: field_ok_def)
  define g1 where "g1 = run (GLL_NAME @ [44]) (run [36] g)"
  have k1: "in_front (cur g) GPGLL 1 (0 XOR xors GLL_NAME XOR 44) g1" "fresh g1 = fresh g" using N S(2) by (simp_all only: g1_def)
  obtain g2 where k2: "run (lat @ [44]) g1 = g2" "in_front (cur g) GPGLL 2 ((0 XOR xors GLL_NAME XOR 44) XOR xors lat XOR 44) g2"
    "fresh g2 = (fresh g)\<lparr>f_latitude := la, f_position_fix := 0\<rparr>"
    using run_value [OF k1 lat(1), of "(fresh g)\<lparr>f_latitude := la, f_position_fix := 0\<rparr>"] lat(2)
    by (auto simp: term_value_def Let_def millis_def)
  let ?la = "if ns = 83 then - la else la" let ?lo = "if ew = 87 then - lo else lo"
  obtain g3 where k3: "run ([ns] @ [44]) g2 = g3"
    "in_front (cur g) GPGLL 3 (((0 XOR xors GLL_NAME XOR 44) XOR xors lat XOR 44) XOR xors [ns] XOR 44) g3"
    "fresh g3 = (fresh g)\<lparr>f_latitude := ?la, f_position_fix := 0\<rparr>"
    using run_value [OF k2(2,3) F(1), of "(fresh g)\<lparr>f_latitude := ?la, f_position_fix := 0\<rparr>"] ns
    by (auto simp: term_value_def Let_def)
  let ?p3 = "((0 XOR xors GLL_NAME XOR 44) XOR xors lat XOR 44) XOR xors [ns] XOR 44"
  let ?x4 = "(fresh g)\<lparr>f_latitude := ?la, f_position_fix := 0, f_longitude := lo\<rparr>"
  obtain g4 where k4: "run (lon @ [44]) g3 = g4" "in_front (cur g) GPGLL 4 (?p3 XOR xors lon XOR 44) g4" "fresh g4 = ?x4"
    using run_value [OF k3(2,3) lon(1), of ?x4] lon(2) by (auto simp: term_value_def Let_def)
  let ?x5 = "(fresh g)\<lparr>f_latitude := ?la, f_position_fix := 0, f_longitude := ?lo\<rparr>"
  obtain g5 where k5: "run ([ew] @ [44]) g4 = g5"
    "in_front (cur g) GPGLL 5 ((?p3 XOR xors lon XOR 44) XOR xors [ew] XOR 44) g5" "fresh g5 = ?x5"
    using run_value [OF k4(2,3) F(2), of ?x5] ew by (auto simp: term_value_def Let_def)
  let ?x6 = "(fresh g)\<lparr>f_latitude := ?la, f_position_fix := 0, f_longitude := ?lo, f_time := ti, f_time_fix := 0\<rparr>"
  obtain g6 where k6: "run (ts @ [44]) g5 = g6"
    "in_front (cur g) GPGLL 6 (((?p3 XOR xors lon XOR 44) XOR xors [ew] XOR 44) XOR xors ts XOR 44) g6" "fresh g6 = ?x6"
    using run_value [OF k5(2,3) ts(1), of ?x6] ts(2) by (auto simp: term_value_def Let_def millis_def)
  obtain g7 where k7: "run ([65] @ [44]) g6 = g7"
    "in_front (cur g) GPGLL 7 ((((?p3 XOR xors lon XOR 44) XOR xors [ew] XOR 44) XOR xors ts XOR 44) XOR 65 XOR 44) g7"
    "fresh g7 = ?x6" "gps_data_good g7"
    using run_valid [OF k6(2,3)] by blast
  note L = run_last [OF k7(2) md]
  have p: "checksum_of h l = parity (run (md @ [42]) g7)" unfolding L(4) cs(2)
    by (simp only: gll_body_def xors_simps xor.assoc xor.left_neutral xor.right_neutral)
  have "run ([36] @ gll_body lat ns lon ew ts md @ [42] @ [h, l, 13]) g = run [h, l, 13] (run (md @ [42]) g7)"
    by (simp only: gll_body_def run_append append_assoc g1_def k2(1) [symmetric] k3(1) [symmetric] k4(1) [symmetric] k5(1) [symmetric]
        k6(1) [symmetric] k7(1) [symmetric])
  then show ?thesis
    using run_checksum(3) [OF L(3) L(2) L(1) cs(1) p] k7(3,4) L(5-8) by simp
qed

end
