(* ===== verification/Nmea_Props.thy ===== *)
theory Nmea_Props
  imports Nmea_Lemmas
begin

text \<open>
  Properties of the NMEA driver: a sentence whose check sum is wrong publishes nothing, and a sentence of position becomes the position that
  is recorded.
\<close>

section \<open>Lines\<close>








section \<open>Properties\<close>

text \<open>C35. A corrupted sentence publishes nothing: when the two digits behind the star are not the check sum of the characters between the
  dollar sign and the star, the parser says no, and time, date, position and all the other published values, and the flags of complete
  sentences, are what they were, whatever the sentence holds; the counter of failures is increased.\<close>

theorem corrupted_sentence_ignored:
  assumes "length (g_term g) = 15" "\<forall>c \<in> set body. c \<noteq> 13 \<and> c \<noteq> 10 \<and> c \<noteq> 42 \<and> c \<noteq> 36" "plain [h, l]"
    and "checksum_of h l \<noteq> xors body"
  shows "\<exists>k. encode_all ([36] @ body @ [42] @ [h, l, 13]) g = (False, k) \<and> cur k = cur g \<and>
    gll_ready k = gll_ready g \<and> rmc_ready k = rmc_ready g \<and> gga_ready k = gga_ready g \<and> gsv_ready k = gsv_ready g \<and>
    good_sentences k = good_sentences g \<and> failed_checksum k = failed_checksum g + 1"
proof -
  define g1 where "g1 = run [36] g"
  define g2 where "g2 = run body g1"
  define g3 where "g3 = run [42] g2"
  have s: "in_body g1" "unpublished g g1" "parity g1 = 0" "accepts [36] g = False"
    using assms(1) by (simp_all add: g1_def encode_def in_body_def unpublished_def)
  have b: "accepts body g1 = False" "in_body g2" "unpublished g1 g2" "parity g2 = xors body"
    using run_body [OF s(1) assms(2)] s(3) by (auto simp: g2_def)
  note T = run_star [OF b(2), folded g3_def]
  have u: "unpublished g g3" using unpublished_trans [OF unpublished_trans [OF s(2) b(3)] T(2)] .
  have p: "checksum_of h l \<noteq> parity g3" using assms(4) b(4) T(3) by simp
  have r: "run ([36] @ body @ [42] @ [h, l, 13]) g = run [h, l, 13] g3" by (simp only: run_append g1_def g2_def g3_def)
  have v: "accepts ([36] @ body @ [42] @ [h, l, 13]) g = False"
    using s(4) b(1) T(1) run_checksum(1) [OF T(4,5,6) assms(3)] p by (simp only: accepts_append g1_def [symmetric] g2_def [symmetric] g3_def [symmetric]) simp
  show ?thesis
    using run_checksum(2) [OF T(4,5,6) assms(3) p] u v
    by (intro exI [of _ "run ([36] @ body @ [42] @ [h, l, 13]) g"] conjI prod_eqI) (simp_all only: r unpublished_def fst_conv snd_conv)
qed

definition demo_parser :: TinyGPS where
  "demo_parser = TinyGPS_new \<lparr>f_time = 0, f_date = 180516, f_latitude = 0, f_longitude = 0, f_altitude = 0, f_speed = 0, f_course = 0,
     f_hdop = 0, f_sat_count = 0, f_time_fix = 0, f_position_fix = 0\<rparr> (replicate 15 0)"

definition demo_body :: bytes where
  "demo_body = gll_body ([52, 56, 52, 55] @ 46 # [57, 53, 49, 53, 53]) 78 ([48, 48, 50, 50, 50] @ 46 # [48, 57, 53, 57, 53]) 69
     ([50, 49, 53, 57, 53, 52] @ [46, 48, 48]) [65]"

theorem corrupted_sentence_ignored_witness:
  "\<exists>k. encode_all ([36] @ demo_body @ [42] @ [54, 54, 13]) demo_parser = (False, k) \<and> cur k = cur demo_parser \<and> failed_checksum k = 1"
proof -
  have "length (g_term demo_parser) = 15" "failed_checksum demo_parser = 0" by code_simp+
  moreover have "\<forall>c \<in> set demo_body. c \<noteq> 13 \<and> c \<noteq> 10 \<and> c \<noteq> 42 \<and> c \<noteq> 36" by code_simp
  moreover have "plain [54, 54]" "checksum_of 54 54 \<noteq> xors demo_body" by code_simp+
  ultimately show ?thesis using corrupted_sentence_ignored [of demo_parser demo_body 54 54] by auto
qed




end
