(* ===== verification/Can_Track.thy ===== *)
theory Can_Track
  imports Can_Calc Can_Interface
begin

text \<open>
  Watching frames for changes: \<open>CAN/CANVariableData.cpp\<close>, the values of one variable; \<open>CAN/CANVariationDetector.cpp\<close>, the table
  of the last frame of each identifier; \<open>CAN/CANCorrelator.cpp\<close>, the search for bytes that vary together.
\<close>

section \<open>The values of a variable\<close>

text \<open>The block starts with the header: identifier, size of the values, size of one value, 7 bytes in all.\<close>

record CANVariableData =
  vd_data :: bytes
  vd_n :: int
  vd_m :: int
  vd_sz :: int
  vd_tSz :: int

definition CANVariableData_new :: "int \<Rightarrow> int \<Rightarrow> int \<Rightarrow> bytes option \<Rightarrow> CANVariableData option" where
  "CANVariableData_new ident allocSz typeSz blk = do {
     d \<leftarrow> blk;
     d \<leftarrow> wr_bytes d 0 (le_bytes 4 ident);
     d \<leftarrow> wr_bytes d 6 (le_bytes 1 typeSz);
     Some \<lparr>vd_data = d, vd_n = 7, vd_m = allocSz, vd_sz = 0, vd_tSz = typeSz\<rparr>
   }"

definition AddData :: "bytes \<Rightarrow> int \<Rightarrow> CANVariableData \<Rightarrow> CANVariableData option" where
  "AddData d detSz v =
     (if vd_n v + vd_tSz v < vd_m v then
        if detSz = vd_tSz v then do {
          m \<leftarrow> memcpy (vd_data v) (vd_n v) d 0 (vd_tSz v);
          Some (v\<lparr>vd_data := m, vd_n := vd_n v + vd_tSz v, vd_sz := vd_sz v + vd_tSz v\<rparr>)
        }
        else Some v
      else Some v)"

definition GetDataSz :: "CANVariableData \<Rightarrow> int" where
  "GetDataSz v = vd_sz v"

definition GetData :: "CANVariableData \<Rightarrow> bytes" where
  "GetData v = drop 7 (vd_data v)"

definition GetNetworkFrame :: "bytes \<Rightarrow> CANVariableData \<Rightarrow> (bytes \<times> CANVariableData) option" where
  "GetNetworkFrame buff v = do {
     m \<leftarrow> wr_bytes (vd_data v) 4 (le_bytes 2 (vd_sz v));
     let v = v\<lparr>vd_data := m\<rparr>;
     buff \<leftarrow> memcpy buff 0 (vd_data v) 0 (vd_sz v + 7);
     Some (buff, v\<lparr>vd_n := 7, vd_sz := 0\<rparr>)
   }"

section \<open>The detector of variations\<close>

definition NUM_FRAME_ENTRY_MAX :: nat where
  "NUM_FRAME_ENTRY_MAX = 30"

text \<open>An entry of the table: the identifier, in 16 bits, and eight bytes.\<close>

record CANVariationDetector =
  fe :: "(u16 \<times> bytes) list"
  nFrameEntry :: u16

definition CANVariationDetector_new :: "(u16 \<times> bytes) list \<Rightarrow> CANVariationDetector" where
  "CANVariationDetector_new old = \<lparr>fe = old, nFrameEntry = 0\<rparr>"

text \<open>The comparison of the bytes from \<open>j\<close> on: what is reported (identifier, place, new byte) and the new bytes. A byte
  outside of either array is undefined.\<close>

primrec compare_bytes :: "nat \<Rightarrow> nat \<Rightarrow> u32 \<Rightarrow> bytes \<Rightarrow> bytes \<Rightarrow> ((u32 \<times> nat \<times> u8) list \<times> bytes) option" where
  "compare_bytes 0 j ident old new = Some ([], old)"
| "compare_bytes (Suc k) j ident old new =
     (if j < length old \<and> j < length new then do {
        (out, old) \<leftarrow> (if old ! j \<noteq> new ! j then Some ([(ident, j, new ! j)], old[j := new ! j]) else Some ([], old));
        (out', old) \<leftarrow> compare_bytes k (j + 1) ident old new;
        Some (out @ out', old)
      }
      else None)"

text \<open>The loop over the table: the index that was found and the outcome, \<open>Some None\<close> when no entry has the identifier.\<close>

primrec find_entry :: "nat \<Rightarrow> nat \<Rightarrow> u32 \<Rightarrow> (u16 \<times> bytes) list \<Rightarrow> nat option option" where
  "find_entry 0 i ident es = Some None"
| "find_entry (Suc k) i ident es =
     (if i < length es then if uint (fst (es ! i)) = sint ident then Some (Some i) else find_entry k (i + 1) ident es else None)"

definition var_event :: "int \<Rightarrow> CANMessage \<Rightarrow> CANVariationDetector \<Rightarrow> ((u32 \<times> nat \<times> u8) list \<times> CANVariationDetector) option" where
  "var_event ID m v =
     (if ID AND 0x0f = CAN_CALLBACK then do {
        r \<leftarrow> find_entry (unat (nFrameEntry v)) 0 (msg_id m) (fe v);
        (case r of
           Some i \<Rightarrow> do {
             (out, d) \<leftarrow> compare_bytes (unat (msg_len m)) 0 (msg_id m) (snd (fe v ! i)) (msg_data m);
             Some (out, v\<lparr>fe := (fe v)[i := (fst (fe v ! i), d)]\<rparr>)
           }
         | None \<Rightarrow>
             let n = unat (nFrameEntry v) in
             if n < length (fe v) then do {
               d \<leftarrow> memcpy (snd (fe v ! n)) 0 (msg_data m) 0 (uint (msg_len m));
               Some ([], v\<lparr>fe := (fe v)[n := (ucast (msg_id m), d)], nFrameEntry := nFrameEntry v + 1\<rparr>)
             }
             else None)
      }
      else Some ([], v))"

section \<open>The correlator\<close>

definition CAN_FRAME_MAX_LEN :: nat where "CAN_FRAME_MAX_LEN = 64"
definition CAN_MAX_FRAMES :: int where "CAN_MAX_FRAMES = 40"
definition CAN_MAX_VARS :: int where "CAN_MAX_VARS = 40"

record frameEntry =
  fr_id :: u32
  fr_len :: u8
  fr_data :: bytes

record variableEntry =
  ve_id :: u32
  ve_index :: int
  ve_len :: int
  vData :: "CANVariableData option"

record CANCorrelator =
  curFrames :: int
  maxFrames :: int
  frameList :: "frameEntry list"
  curVariables :: int
  maxVariables :: int
  variableList :: "variableEntry list"

definition CANCorrelator_new :: "frameEntry list \<Rightarrow> variableEntry list \<Rightarrow> CANCorrelator" where
  "CANCorrelator_new fs vs = \<lparr>curFrames = 0, maxFrames = CAN_MAX_FRAMES, frameList = fs, curVariables = 0, maxVariables = CAN_MAX_VARS,
     variableList = vs\<rparr>"

text \<open>\<open>BasicCorrelation\<close> without its last division: the number of equal bytes. Whether the quotient of this number and \<open>len\<close> is above
  the limit of a half is decided with whole numbers; for \<open>len = 0\<close> the quotient is not a number and not above it.\<close>

primrec BasicCorrelation :: "nat \<Rightarrow> nat \<Rightarrow> bytes \<Rightarrow> bytes \<Rightarrow> nat option" where
  "BasicCorrelation 0 i d1 d2 = Some 0"
| "BasicCorrelation (Suc k) i d1 d2 =
     (if i < length d1 \<and> i < length d2 then do {
        n \<leftarrow> BasicCorrelation k (i + 1) d1 d2;
        Some (if d1 ! i = d2 ! i then n + 1 else n)
      }
      else None)"

definition correlated :: "nat \<Rightarrow> nat \<Rightarrow> bool" where
  "correlated n len \<longleftrightarrow> len < 2 * n"

primrec SearchSimilarFrame :: "nat \<Rightarrow> nat \<Rightarrow> u32 \<Rightarrow> u8 \<Rightarrow> bytes \<Rightarrow> frameEntry list \<Rightarrow> nat option option" where
  "SearchSimilarFrame 0 i ident len d fs = Some None"
| "SearchSimilarFrame (Suc k) i ident len d fs =
     (if i < length fs then
        if fr_id (fs ! i) = ident \<and> fr_len (fs ! i) = len then do {
          n \<leftarrow> BasicCorrelation (unat len) 0 d (fr_data (fs ! i));
          if correlated n (unat len) then Some (Some i) else SearchSimilarFrame k (i + 1) ident len d fs
        }
        else SearchSimilarFrame k (i + 1) ident len d fs
      else None)"

primrec SearchSimilarVariable :: "nat \<Rightarrow> nat \<Rightarrow> u32 \<Rightarrow> int \<Rightarrow> int \<Rightarrow> variableEntry list \<Rightarrow> int option" where
  "SearchSimilarVariable 0 i ident index len vs = Some (- 1)"
| "SearchSimilarVariable (Suc k) i ident index len vs =
     (if i < length vs then
        if ve_id (vs ! i) = ident \<and> ve_index (vs ! i) = index \<and> ve_len (vs ! i) = len then Some (int i)
        else SearchSimilarVariable k (i + 1) ident index len vs
      else None)"

text \<open>\<open>mem k\<close> is the block the allocator returns for the variable \<open>k\<close>.\<close>

definition InsertNewVariable :: "(int \<Rightarrow> bytes option) \<Rightarrow> u32 \<Rightarrow> int \<Rightarrow> int \<Rightarrow> CANCorrelator \<Rightarrow> (int \<times> CANCorrelator) option" where
  "InsertNewVariable blks ident s n c =
     (let k = curVariables c in
      if 0 \<le> k \<and> nat k < length (variableList c) then do {
        v \<leftarrow> CANVariableData_new (sint ident) 128 n (blks k);
        let e = \<lparr>ve_id = ident, ve_index = s, ve_len = n, vData = Some v\<rparr>;
        let c = c\<lparr>variableList := (variableList c)[nat k := e], curVariables := k + 1\<rparr>;
        Some (curVariables c - 1, c)
      }
      else None)"

text \<open>A run of bytes that differ is stored; behind the loop the test for an index is stricter (\<open>final\<close>).\<close>

definition store_run :: "bool \<Rightarrow> (int \<Rightarrow> bytes option) \<Rightarrow> u32 \<Rightarrow> int \<Rightarrow> bytes \<Rightarrow> CANCorrelator \<Rightarrow> CANCorrelator option" where
  "store_run final blks ident s blk c = do {
     let n = int (length blk);
     index \<leftarrow> SearchSimilarVariable (nat (curVariables c)) 0 ident s n (variableList c);
     (index, c) \<leftarrow> (if (if final then 0 < index else 0 \<le> index) then Some (index, c) else InsertNewVariable blks ident s n c);
     if nat index < length (variableList c) then
       case vData (variableList c ! nat index) of
         Some v \<Rightarrow> do {
           v \<leftarrow> AddData blk n v;
           Some (c\<lparr>variableList := (variableList c)[nat index := (variableList c ! nat index)\<lparr>vData := Some v\<rparr>]\<rparr>)
         }
       | None \<Rightarrow> Some c
     else None
   }"

text \<open>The loop of \<open>TrackVariations\<close>; \<open>blk\<close> are the bytes of \<open>varBlock\<close>, which has room for 16, \<open>s\<close> is the place of the first.\<close>

primrec track_loop :: "nat \<Rightarrow> nat \<Rightarrow> (int \<Rightarrow> bytes option) \<Rightarrow> u32 \<Rightarrow> bytes \<Rightarrow> bytes \<Rightarrow> int \<Rightarrow> bytes \<Rightarrow> CANCorrelator \<Rightarrow> CANCorrelator option" where
  "track_loop 0 i blks ident d1 d2 s blk c = (if blk \<noteq> [] then store_run True blks ident s blk c else Some c)"
| "track_loop (Suc k) i blks ident d1 d2 s blk c =
     (if i < length d1 \<and> i < length d2 then
        if d1 ! i \<noteq> d2 ! i then
          if length blk < 16
          then track_loop k (i + 1) blks ident d1 d2 (if s = - 1 then int i else s) (blk @ [d1 ! i]) c
          else None
        else if blk \<noteq> [] then do {
          c \<leftarrow> store_run False blks ident s blk c;
          track_loop k (i + 1) blks ident d1 d2 (- 1) [] c
        }
        else track_loop k (i + 1) blks ident d1 d2 s blk c
      else None)"

definition TrackVariations :: "(int \<Rightarrow> bytes option) \<Rightarrow> u32 \<Rightarrow> u8 \<Rightarrow> bytes \<Rightarrow> bytes \<Rightarrow> CANCorrelator \<Rightarrow> CANCorrelator option" where
  "TrackVariations blks ident len d1 d2 c = track_loop (unat len) 0 blks ident d1 d2 (- 1) [] c"

definition corr_event :: "(int \<Rightarrow> bytes option) \<Rightarrow> int \<Rightarrow> CANMessage \<Rightarrow> CANCorrelator \<Rightarrow> CANCorrelator option" where
  "corr_event blks ID m c =
     (if ID AND 0x0f = CAN_CALLBACK then
        if CAN_FRAME_MAX_LEN < unat (msg_len m) then Some c
        else do {
          r \<leftarrow> SearchSimilarFrame (nat (curFrames c)) 0 (msg_id m) (msg_len m) (msg_data m) (frameList c);
          (case r of
             Some i \<Rightarrow> do {
               c \<leftarrow> TrackVariations blks (msg_id m) (msg_len m) (msg_data m) (fr_data (frameList c ! i)) c;
               d \<leftarrow> memcpy (fr_data (frameList c ! i)) 0 (msg_data m) 0 (uint (msg_len m));
               Some (c\<lparr>frameList := (frameList c)[i := (frameList c ! i)\<lparr>fr_data := d\<rparr>]\<rparr>)
             }
           | None \<Rightarrow>
               if curFrames c \<le> maxFrames c then
                 let k = nat (curFrames c) in
                 if k < length (frameList c) then do {
                   d \<leftarrow> memcpy (fr_data (frameList c ! k)) 0 (msg_data m) 0 (uint (msg_len m));
                   Some (c\<lparr>frameList := (frameList c)[k := \<lparr>fr_id = msg_id m, fr_len = msg_len m, fr_data = d\<rparr>], curFrames := curFrames c + 1\<rparr>)
                 }
                 else None
               else Some c)
        }
      else Some c)"

section \<open>What the operations do\<close>

subsection \<open>Values\<close>

primrec AddAll_vd :: "bytes list \<Rightarrow> CANVariableData \<Rightarrow> CANVariableData option" where
  "AddAll_vd [] v = Some v"
| "AddAll_vd (d # ds) v = do { v \<leftarrow> AddData d (int (length d)) v; AddAll_vd ds v }"

text \<open>\<open>vd_holds v x t c\<close>: the values \<open>c\<close> of size \<open>t\<close> behind the header of the identifier \<open>x\<close>.\<close>

definition vd_holds :: "CANVariableData \<Rightarrow> int \<Rightarrow> nat \<Rightarrow> bytes \<Rightarrow> bool" where
  "vd_holds v x t c \<longleftrightarrow> vd_n v = 7 + int (length c) \<and> vd_sz v = int (length c) \<and> vd_tSz v = int t \<and> vd_m v = int (length (vd_data v)) \<and>
     7 + length c \<le> length (vd_data v) \<and> take 4 (vd_data v) = le_bytes 4 x \<and> take 1 (drop 6 (vd_data v)) = le_bytes 1 (int t) \<and>
     take (length c) (drop 7 (vd_data v)) = c"

lemma wr_bytes_at: "i + length d \<le> length b \<Longrightarrow> wr_bytes b (int i) d = Some (take i b @ d @ drop (i + length d) b)"
  by (simp add: wr_bytes_def)

lemma vd_new:
  assumes "7 \<le> length blk"
  shows "\<exists>v. CANVariableData_new x (int (length blk)) (int t) (Some blk) = Some v \<and> vd_holds v x t [] \<and> vd_m v = int (length blk)"
proof -
  have w0: "wr_bytes blk 0 (le_bytes 4 x) = Some (le_bytes 4 x @ drop 4 blk)" using assms by (simp add: wr_bytes_def)
  have w1: "wr_bytes (le_bytes 4 x @ drop 4 blk) 6 (le_bytes 1 (int t)) =
     Some (take 6 (le_bytes 4 x @ drop 4 blk) @ le_bytes 1 (int t) @ drop 7 (le_bytes 4 x @ drop 4 blk))"
    using assms wr_bytes_at [of 6 "le_bytes 1 (int t)" "le_bytes 4 x @ drop 4 blk"] by simp
  show ?thesis using assms w0 w1 by (simp add: CANVariableData_new_def vd_holds_def)
qed

lemma AddData_spec:
  assumes v: "vd_holds v x t c" and d: "length d = t" and room: "7 + int (length c) + int t < vd_m v"
  shows "\<exists>v'. AddData d (int t) v = Some v' \<and> vd_holds v' x t (c @ d) \<and> vd_m v' = vd_m v"
proof -
  let ?m = "vd_data v" and ?k = "length c"
  have l: "7 + ?k + t \<le> length ?m" using v room by (simp add: vd_holds_def)
  have rd: "rd_bytes d 0 (int t) = Some d" using d by (simp add: rd_bytes_def)
  have w: "wr_bytes ?m (7 + int ?k) d = Some (take (7 + ?k) ?m @ d @ drop (7 + ?k + t) ?m)"
    using wr_bytes_at [of "7 + ?k" d ?m] l d by simp
  let ?b = "take (7 + ?k) ?m @ d @ drop (7 + ?k + t) ?m"
  have "take 4 ?b = take 4 ?m" "take 1 (drop 6 ?b) = take 1 (drop 6 ?m)" using l by (auto simp: drop_take min_def)
  moreover have "take (length (c @ d)) (drop 7 ?b) = c @ d"
    using l d v by (simp add: vd_holds_def drop_take)
  ultimately show ?thesis
    using v rd w room l d by (simp add: AddData_def memcpy_def vd_holds_def algebra_simps)
qed

lemma AddAll_vd_spec:
  assumes "vd_holds v x t c" and "\<forall>d\<in>set ds. length d = t" and "7 + int (length c) + int (t * length ds) < vd_m v"
  shows "\<exists>v'. AddAll_vd ds v = Some v' \<and> vd_holds v' x t (c @ concat ds) \<and> vd_m v' = vd_m v"
  using assms
proof (induction ds arbitrary: c v)
  case (Cons d ds)
  have "int (t * length (d # ds)) = int t + int (t * length ds)" by simp
  then have "7 + int (length c) + int t < vd_m v" using Cons.prems(3) by linarith
  then obtain v1 where v1: "AddData d (int t) v = Some v1" "vd_holds v1 x t (c @ d)" "vd_m v1 = vd_m v"
    using AddData_spec [OF Cons.prems(1), of d] Cons.prems(2) by auto
  have r: "7 + int (length (c @ d)) + int (t * length ds) < vd_m v1" using Cons.prems(2,3) v1(3) by (simp add: algebra_simps)
  obtain v2 where "AddAll_vd ds v1 = Some v2" "vd_holds v2 x t ((c @ d) @ concat ds)" "vd_m v2 = vd_m v1"
    using Cons.IH [OF v1(2) _ r] Cons.prems(2) by auto
  then show ?case using v1 Cons.prems(2) by simp
qed simp

lemma AddData_full: "vd_m v \<le> vd_n v + vd_tSz v \<Longrightarrow> AddData d k v = Some v"
  by (simp add: AddData_def)

lemma GetNetworkFrame_spec:
  assumes v: "vd_holds v x t c" and b: "7 + length c \<le> length buff"
  shows "\<exists>buf v'. GetNetworkFrame buff v = Some (buf, v') \<and>
     take (7 + length c) buf = le_bytes 4 x @ le_bytes 2 (int (length c)) @ le_bytes 1 (int t) @ c \<and> vd_holds v' x t []"
proof -
  let ?m = "vd_data v" and ?k = "length c"
  have l: "7 + ?k \<le> length ?m" using v by (simp add: vd_holds_def)
  let ?b = "take 4 ?m @ le_bytes 2 (int ?k) @ drop 6 ?m"
  have w: "wr_bytes ?m 4 (le_bytes 2 (int ?k)) = Some ?b" using wr_bytes_at [of 4 "le_bytes 2 (int ?k)" ?m] l by simp
  have d6: "drop 6 ?m = le_bytes 1 (int t) @ c @ drop (7 + ?k) ?m"
  proof -
    have "drop 6 ?m = take 1 (drop 6 ?m) @ drop 7 ?m" using append_take_drop_id [of 1 "drop 6 ?m"] by simp
    moreover have "drop 7 ?m = c @ drop (7 + ?k) ?m" using append_take_drop_id [of ?k "drop 7 ?m"] v by (simp add: vd_holds_def add.commute)
    ultimately show ?thesis using v by (simp add: vd_holds_def)
  qed
  have B: "?b = (le_bytes 4 x @ le_bytes 2 (int ?k) @ le_bytes 1 (int t) @ c) @ drop (7 + ?k) ?m" unfolding d6 using v by (simp add: vd_holds_def)
  let ?f = "le_bytes 4 x @ le_bytes 2 (int ?k) @ le_bytes 1 (int t) @ c"
  have lf: "length ?f = 7 + ?k" by simp
  have rd: "rd_bytes (?f @ z) 0 (int (length ?f)) = Some ?f" for z by (simp add: rd_bytes_def nat_add_distrib)
  have "memcpy buff 0 ?b 0 (int (length ?f)) = Some (?f @ drop (7 + ?k) buff)"
    unfolding memcpy_def B rd using b lf by (simp add: wr_bytes_def)
  then have g: "GetNetworkFrame buff v = Some (?f @ drop (7 + ?k) buff, v\<lparr>vd_data := ?b, vd_n := 7, vd_sz := 0\<rparr>)"
    using w v by (simp add: GetNetworkFrame_def vd_holds_def add.commute)
  have "length ?b = length ?m" using l by simp
  moreover have "take 1 (drop 6 ?b) = le_bytes 1 (int t)" unfolding B by simp
  ultimately have "vd_holds (v\<lparr>vd_data := ?b, vd_n := 7, vd_sz := 0\<rparr>) x t []" using v l by (simp add: vd_holds_def)
  then show ?thesis using g by simp
qed

subsection \<open>The table of last frames\<close>

definition det_ok :: "CANVariationDetector \<Rightarrow> bool" where
  "det_ok v \<longleftrightarrow> length (fe v) = NUM_FRAME_ENTRY_MAX \<and> unat (nFrameEntry v) \<le> NUM_FRAME_ENTRY_MAX \<and> (\<forall>e\<in>set (fe v). length (snd e) = 8) \<and>
     distinct (map fst (take (unat (nFrameEntry v)) (fe v)))"

definition last_frames :: "CANVariationDetector \<Rightarrow> u16 \<Rightarrow> bytes option" where
  "last_frames v = map_of (take (unat (nFrameEntry v)) (fe v))"

text \<open>What is reported for a frame in place of another one.\<close>

definition diffs :: "u32 \<Rightarrow> nat \<Rightarrow> bytes \<Rightarrow> bytes \<Rightarrow> (u32 \<times> nat \<times> u8) list" where
  "diffs ident j old new = map (\<lambda>k. (ident, k, new ! k)) (filter (\<lambda>k. old ! k \<noteq> new ! k) [j..<length new])"

lemma compare_bytes_spec:
  assumes "j + k = length new" and "length old = length new" and "take j old = take j new"
  shows "compare_bytes k j ident old new = Some (diffs ident j old new, new)"
  using assms
proof (induction k arbitrary: j old)
  case 0
  then show ?case by (simp add: diffs_def)
next
  case (Suc k)
  have j: "j < length new" "j < length old" using Suc.prems by simp_all
  let ?o = "if old ! j \<noteq> new ! j then old[j := new ! j] else old"
  have t: "take (j + 1) ?o = take (j + 1) new" using j Suc.prems(3) by (simp add: take_Suc_conv_app_nth)
  have o: "?o ! i = old ! i" if "j < i" for i using that by simp
  have "diffs ident (j + 1) ?o new = diffs ident (j + 1) old new"
    unfolding diffs_def by (rule arg_cong [where f = "map _"], rule filter_cong) (use o in auto)
  moreover have "[j..<length new] = j # [j + 1..<length new]" using j by (simp add: upt_conv_Cons)
  then have "diffs ident j old new = (if old ! j \<noteq> new ! j then [(ident, j, new ! j)] else []) @ diffs ident (j + 1) old new"
    by (simp add: diffs_def)
  moreover have "compare_bytes k (j + 1) ident ?o new = Some (diffs ident (j + 1) ?o new, new)"
    by (rule Suc.IH) (use Suc.prems t in simp_all)
  ultimately show ?case using j by (simp split: if_splits)
qed

lemma find_entry_find:
  "i + k \<le> length es \<Longrightarrow> find_entry k i ident es = Some (find (\<lambda>j. uint (fst (es ! j)) = sint ident) [i..<i + k])"
proof (induction k arbitrary: i)
  case (Suc k)
  have "[i..<i + Suc k] = i # [Suc i..<Suc i + k]" by (simp add: upt_conv_Cons)
  then show ?case using Suc by simp
qed simp

lemma key_match: "unat i < 2 ^ 16 \<Longrightarrow> uint (w :: u16) = sint (i :: u32) \<longleftrightarrow> w = ucast i"
proof -
  assume i: "unat i < 2 ^ 16"
  have "int (unat i) < int (2 ^ 16)" using i by (simp only: of_nat_less_iff)
  then have "uint i < 2 ^ 16" by simp
  then have "signed_take_bit 31 (uint i) = uint i" by (intro signed_take_bit_int_eq_self) (auto intro: order_trans [of _ 0])
  then have s: "sint i = int (unat i)" by (simp add: sint_uint)
  have "(ucast i :: u16) = of_nat (unat i)" by (simp add: unsigned_ucast_eq)
  moreover have "unat (of_nat (unat i) :: u16) = unat i" by (rule unat_of_nat_lt) (use i in simp)
  ultimately have u: "uint (ucast i :: u16) = int (unat i)" by (metis uint_nat)
  show ?thesis unfolding s u [symmetric] by (rule word_uint_eq_iff [symmetric])
qed

lemma map_of_update:
  assumes "distinct (map fst es)" and "j < length es" and "fst (es ! j) = k"
  shows "map_of (es[j := (k, d)]) = (map_of es)(k \<mapsto> d)" and "map_of es k = Some (snd (es ! j))"
proof -
  have m: "map fst (es[j := (k, d)]) = map fst es" using assms(2,3) by (simp add: map_update list_update_same_conv)
  show "map_of es k = Some (snd (es ! j))" using assms by (intro map_of_is_SomeI) (auto simp: in_set_conv_nth intro: exI [of _ j])
  show "map_of (es[j := (k, d)]) = (map_of es)(k \<mapsto> d)"
  proof
    fix x
    show "map_of (es[j := (k, d)]) x = ((map_of es)(k \<mapsto> d)) x"
      using assms
    proof (induction es arbitrary: j)
      case (Cons e es)
      then show ?case by (cases j; cases e) (auto simp: nth_mem rev_image_eqI)
    qed simp
  qed
qed

lemma map_of_snoc: "k \<notin> fst ` set es \<Longrightarrow> map_of (es @ [(k, d)]) = (map_of es)(k \<mapsto> d)"
  using map_of_eq_None_iff [of es k] by (intro ext) (auto simp: map_add_def split: option.splits)

definition key :: "CANMessage \<Rightarrow> u16" where
  "key m = ucast (msg_id m)"

definition std_msg :: "CANMessage \<Rightarrow> bool" where
  "std_msg m \<longleftrightarrow> unat (msg_id m) < 2 ^ 16 \<and> msg_len m = 8 \<and> length (msg_data m) = 8"

definition report :: "(u16 \<Rightarrow> bytes option) \<Rightarrow> CANMessage \<Rightarrow> (u32 \<times> nat \<times> u8) list" where
  "report M m = (case M (key m) of None \<Rightarrow> [] | Some old \<Rightarrow> diffs (msg_id m) 0 old (msg_data m))"

lemma var_event_spec:
  assumes v: "det_ok v" and m: "std_msg m" and room: "last_frames v (key m) = None \<longrightarrow> unat (nFrameEntry v) < NUM_FRAME_ENTRY_MAX"
  shows "\<exists>v'. var_event CAN_CALLBACK m v = Some (report (last_frames v) m, v') \<and> det_ok v' \<and>
     last_frames v' = (last_frames v)(key m \<mapsto> msg_data m)"
proof -
  let ?n = "unat (nFrameEntry v)"
  let ?es = "take ?n (fe v)" and ?k = "key m"
  have l: "length (fe v) = 30" "?n \<le> 30" "\<And>e. e \<in> set (fe v) \<Longrightarrow> length (snd e) = 8" and di: "distinct (map fst ?es)"
    using v by (auto simp: det_ok_def NUM_FRAME_ENTRY_MAX_def)
  have M: "unat (msg_id m) < 2 ^ 16" "unat (msg_len m) = 8" "uint (msg_len m) = 8" "length (msg_data m) = 8" using m by (auto simp: std_msg_def)
  have P: "uint (fst (fe v ! j)) = sint (msg_id m) \<longleftrightarrow> fst (fe v ! j) = ?k" for j
    unfolding key_def by (rule key_match [OF M(1)])
  have F: "find_entry ?n 0 (msg_id m) (fe v) = Some (find (\<lambda>j. fst (fe v ! j) = ?k) [0..<?n])"
    using find_entry_find [of 0 ?n "fe v" "msg_id m"] l by (simp add: P)
  have C: "CAN_CALLBACK AND 0x0f = CAN_CALLBACK" by (simp add: CAN_CALLBACK_def)
  show ?thesis
  proof (cases "find (\<lambda>j. fst (fe v ! j) = ?k) [0..<?n]")
    case None
    have k: "?k \<notin> fst ` set ?es"
    proof
      assume "?k \<in> fst ` set ?es"
      then obtain i where "i < length ?es" "fst (?es ! i) = ?k" unfolding image_iff Bex_def in_set_conv_nth by metis
      then show False using None by (auto simp: find_None_iff)
    qed
    then have lf: "last_frames v ?k = None" by (simp add: last_frames_def map_of_eq_None_iff)
    then have n: "?n < 30" using room by (simp add: NUM_FRAME_ENTRY_MAX_def)
    have "length (snd (fe v ! ?n)) = 8" using l(1,3) n by simp
    then have c: "memcpy (snd (fe v ! ?n)) 0 (msg_data m) 0 (uint (msg_len m)) = Some (msg_data m)"
      using M by (simp add: memcpy_def rd_bytes_def wr_bytes_def)
    let ?v = "v\<lparr>fe := (fe v)[?n := (?k, msg_data m)], nFrameEntry := nFrameEntry v + 1\<rparr>"
    have e: "var_event CAN_CALLBACK m v = Some ([], ?v)"
      using F None C n l(1) c by (simp add: var_event_def Let_def key_def)
    have "nFrameEntry v + 1 = of_nat (?n + 1)" by simp
    moreover have "unat (of_nat (?n + 1) :: u16) = ?n + 1" by (rule unat_of_nat_lt) (use n in simp)
    ultimately have n': "unat (nFrameEntry ?v) = ?n + 1" by (simp add: add.commute)
    have t: "take (?n + 1) ((fe v)[?n := (?k, msg_data m)]) = ?es @ [(?k, msg_data m)]" using n l(1) by (simp add: take_Suc_conv_app_nth)
    have "last_frames ?v = (last_frames v)(?k \<mapsto> msg_data m)" unfolding last_frames_def n' using t map_of_snoc [OF k] by simp
    moreover have "distinct (map fst (take (unat (nFrameEntry ?v)) (fe ?v)))" unfolding n' using t di k by simp
    then have "det_ok ?v" using l n n' M(4) by (auto simp: det_ok_def NUM_FRAME_ENTRY_MAX_def dest!: set_update_subset_insert [THEN subsetD])
    ultimately show ?thesis using e lf by (simp add: report_def)
  next
    case (Some j)
    then have j: "j < ?n" "fst (fe v ! j) = ?k" by (auto simp: find_Some_iff)
    have je: "j < length ?es" "?es ! j = fe v ! j" "fst (?es ! j) = ?k" using j l by simp_all
    let ?old = "snd (fe v ! j)"
    have lf: "last_frames v ?k = Some ?old" using map_of_update(2) [OF di je(1,3)] je(2) by (simp add: last_frames_def)
    have "length ?old = 8" using j l by simp
    then have c: "compare_bytes (unat (msg_len m)) 0 (msg_id m) ?old (msg_data m) = Some (diffs (msg_id m) 0 ?old (msg_data m), msg_data m)"
      using compare_bytes_spec [of 0 8 "msg_data m" ?old "msg_id m"] M by simp
    let ?v = "v\<lparr>fe := (fe v)[j := (?k, msg_data m)]\<rparr>"
    have e: "var_event CAN_CALLBACK m v = Some (diffs (msg_id m) 0 ?old (msg_data m), ?v)"
      using F Some C c j(2) by (simp add: var_event_def)
    have t: "take ?n ((fe v)[j := (?k, msg_data m)]) = ?es[j := (?k, msg_data m)]" by (simp add: take_update_swap)
    have "last_frames ?v = (last_frames v)(?k \<mapsto> msg_data m)" unfolding last_frames_def using t map_of_update(1) [OF di je(1,3)] by simp
    moreover have "map fst (?es[j := (?k, msg_data m)]) = map fst ?es" using je by (simp add: map_update list_update_same_conv)
    then have "distinct (map fst (take (unat (nFrameEntry ?v)) (fe ?v)))" using t di by simp
    then have "det_ok ?v" using l M(4) by (auto simp: det_ok_def NUM_FRAME_ENTRY_MAX_def dest!: set_update_subset_insert [THEN subsetD])
    ultimately show ?thesis using e lf by (simp add: report_def)
  qed
qed

text \<open>Runs of frames, and what a table without a limit would report.\<close>

primrec var_run :: "CANMessage list \<Rightarrow> CANVariationDetector \<Rightarrow> ((u32 \<times> nat \<times> u8) list \<times> CANVariationDetector) option" where
  "var_run [] v = Some ([], v)"
| "var_run (m # ms) v = do {
     (out, v) \<leftarrow> var_event CAN_CALLBACK m v;
     (out', v) \<leftarrow> var_run ms v;
     Some (out @ out', v)
   }"

fun reports :: "(u16 \<Rightarrow> bytes option) \<Rightarrow> CANMessage list \<Rightarrow> (u32 \<times> nat \<times> u8) list" where
  "reports M [] = []"
| "reports M (m # ms) = report M m @ reports (M(key m \<mapsto> msg_data m)) ms"

fun overwrite :: "(u16 \<Rightarrow> bytes option) \<Rightarrow> CANMessage list \<Rightarrow> u16 \<Rightarrow> bytes option" where
  "overwrite M [] = M"
| "overwrite M (m # ms) = overwrite (M(key m \<mapsto> msg_data m)) ms"

lemma dom_last_frames: "det_ok v \<Longrightarrow> finite (dom (last_frames v)) \<and> card (dom (last_frames v)) = unat (nFrameEntry v)"
  by (simp add: last_frames_def dom_map_of_conv_image_fst det_ok_def distinct_card flip: set_map)

lemma var_run_spec:
  assumes "det_ok v" and "\<forall>m\<in>set ms. std_msg m" and "card (dom (last_frames v) \<union> key ` set ms) \<le> NUM_FRAME_ENTRY_MAX"
  shows "\<exists>v'. var_run ms v = Some (reports (last_frames v) ms, v') \<and> det_ok v' \<and> last_frames v' = overwrite (last_frames v) ms"
  using assms
proof (induction ms arbitrary: v)
  case (Cons m ms)
  let ?D = "dom (last_frames v)"
  have fin: "finite ?D" "card ?D = unat (nFrameEntry v)" using dom_last_frames [OF Cons.prems(1)] by auto
  have "unat (nFrameEntry v) < NUM_FRAME_ENTRY_MAX" if "last_frames v (key m) = None"
  proof -
    have "card ?D < card (insert (key m) ?D)" using card_insert_disjoint [OF fin(1), of "key m"] that by (simp add: domIff)
    also have "\<dots> \<le> card (?D \<union> key ` set (m # ms))" by (rule card_mono) (use fin(1) in auto)
    finally show ?thesis using Cons.prems(3) fin(2) by simp
  qed
  then obtain v1 where v1: "var_event CAN_CALLBACK m v = Some (report (last_frames v) m, v1)" "det_ok v1"
    "last_frames v1 = (last_frames v)(key m \<mapsto> msg_data m)"
    using var_event_spec [OF Cons.prems(1), of m] Cons.prems(2) by auto
  have "dom (last_frames v1) \<union> key ` set ms = ?D \<union> key ` set (m # ms)" unfolding v1(3) by auto
  then have "card (dom (last_frames v1) \<union> key ` set ms) \<le> NUM_FRAME_ENTRY_MAX" using Cons.prems(3) by simp
  then obtain v2 where "var_run ms v1 = Some (reports (last_frames v1) ms, v2)" "det_ok v2" "last_frames v2 = overwrite (last_frames v1) ms"
    using Cons.IH [OF v1(2)] Cons.prems(2) by auto
  then show ?case using v1(1) unfolding v1(3) by simp
qed simp

lemma det_new:
  assumes "length old = NUM_FRAME_ENTRY_MAX" and "\<forall>e\<in>set old. length (snd e) = 8"
  shows "det_ok (CANVariationDetector_new old)" and "last_frames (CANVariationDetector_new old) = Map.empty"
  using assms by (simp_all add: det_ok_def CANVariationDetector_new_def last_frames_def NUM_FRAME_ENTRY_MAX_def)

text \<open>Identifiers of more than 16 bits are cut when they are stored and never found again.\<close>

lemma find_entry_ext: "2 ^ 16 \<le> sint i \<Longrightarrow> j + k \<le> length es \<Longrightarrow> find_entry k j i es = Some None"
proof -
  assume i: "2 ^ 16 \<le> sint i" and l: "j + k \<le> length es"
  have "uint (w :: u16) \<noteq> sint i" for w using i uint_lt2p [of w] by simp
  then show ?thesis using find_entry_find [OF l, of i] by (simp add: find_None_iff)
qed

lemma var_event_ext:
  assumes "2 ^ 16 \<le> sint (msg_id m)" and "msg_len m = 8" and "length (msg_data m) = 8"
    and "length (fe v) = NUM_FRAME_ENTRY_MAX" and "\<forall>e\<in>set (fe v). length (snd e) = 8" and "unat (nFrameEntry v) = n"
  shows "n < NUM_FRAME_ENTRY_MAX \<Longrightarrow> \<exists>v'. var_event CAN_CALLBACK m v = Some ([], v') \<and> length (fe v') = NUM_FRAME_ENTRY_MAX \<and>
      (\<forall>e\<in>set (fe v'). length (snd e) = 8) \<and> unat (nFrameEntry v') = n + 1"
    and "n = NUM_FRAME_ENTRY_MAX \<Longrightarrow> var_event CAN_CALLBACK m v = None"
proof -
  have C: "CAN_CALLBACK AND 0x0f = CAN_CALLBACK" by (simp add: CAN_CALLBACK_def)
  have F: "find_entry n 0 (msg_id m) (fe v) = Some None" if "n \<le> NUM_FRAME_ENTRY_MAX"
    using find_entry_ext [OF assms(1), of 0 n "fe v"] that assms(4) by simp
  show "var_event CAN_CALLBACK m v = None" if "n = NUM_FRAME_ENTRY_MAX"
    using F that assms(4,6) C by (simp add: var_event_def)
  show "\<exists>v'. var_event CAN_CALLBACK m v = Some ([], v') \<and> length (fe v') = NUM_FRAME_ENTRY_MAX \<and>
      (\<forall>e\<in>set (fe v'). length (snd e) = 8) \<and> unat (nFrameEntry v') = n + 1" if n: "n < NUM_FRAME_ENTRY_MAX"
  proof -
    have "length (snd (fe v ! n)) = 8" using assms(4,5) n by simp
    then have c: "memcpy (snd (fe v ! n)) 0 (msg_data m) 0 (uint (msg_len m)) = Some (msg_data m)"
      using assms(2,3) by (simp add: memcpy_def rd_bytes_def wr_bytes_def)
    let ?v = "v\<lparr>fe := (fe v)[n := (ucast (msg_id m), msg_data m)], nFrameEntry := nFrameEntry v + 1\<rparr>"
    have e: "var_event CAN_CALLBACK m v = Some ([], ?v)" using F n C c assms(4,6) by (simp add: var_event_def Let_def)
    have "nFrameEntry v + 1 = of_nat (n + 1)" using assms(6) by auto
    moreover have "unat (of_nat (n + 1) :: u16) = n + 1" by (rule unat_of_nat_lt) (use n in \<open>simp add: NUM_FRAME_ENTRY_MAX_def\<close>)
    ultimately have "unat (nFrameEntry ?v) = n + 1" by (simp add: add.commute)
    moreover have "\<forall>e\<in>set (fe ?v). length (snd e) = 8" using assms(3,5) by (auto dest!: set_update_subset_insert [THEN subsetD])
    ultimately show ?thesis using e assms(4) by simp
  qed
qed

lemma var_run_ext:
  assumes "\<forall>m\<in>set ms. 2 ^ 16 \<le> sint (msg_id m) \<and> msg_len m = 8 \<and> length (msg_data m) = 8"
    and "length (fe v) = NUM_FRAME_ENTRY_MAX" and "\<forall>e\<in>set (fe v). length (snd e) = 8" and "unat (nFrameEntry v) \<le> NUM_FRAME_ENTRY_MAX"
    and "NUM_FRAME_ENTRY_MAX < unat (nFrameEntry v) + length ms"
  shows "var_run ms v = None"
  using assms
proof (induction ms arbitrary: v)
  case (Cons m ms)
  note E = var_event_ext [of m v "unat (nFrameEntry v)"]
  show ?case
  proof (cases "unat (nFrameEntry v) = NUM_FRAME_ENTRY_MAX")
    case True
    then show ?thesis using E(2) Cons.prems by simp
  next
    case False
    then obtain v' where "var_event CAN_CALLBACK m v = Some ([], v')" "length (fe v') = NUM_FRAME_ENTRY_MAX"
      "\<forall>e\<in>set (fe v'). length (snd e) = 8" "unat (nFrameEntry v') = unat (nFrameEntry v) + 1"
      using E(1) Cons.prems by auto
    then show ?thesis using Cons.IH [of v'] Cons.prems False by simp
  qed
qed simp

subsection \<open>Runs of bytes that vary\<close>

lemma track_equal:
  assumes "\<forall>j. i \<le> j \<and> j < i + n \<longrightarrow> d1 ! j = d2 ! j" and "i + n \<le> length d1" and "i + n \<le> length d2"
  shows "track_loop (n + k) i blks ident d1 d2 s [] c = track_loop k (i + n) blks ident d1 d2 s [] c"
  using assms
proof (induction n arbitrary: i)
  case (Suc n)
  have "track_loop (n + k) (i + 1) blks ident d1 d2 s [] c = track_loop k (i + 1 + n) blks ident d1 d2 s [] c"
    by (rule Suc.IH) (use Suc.prems in auto)
  then show ?case using Suc.prems by simp
qed simp

lemma track_differ:
  assumes "\<forall>j. i \<le> j \<and> j < i + n \<longrightarrow> d1 ! j \<noteq> d2 ! j" and "i + n \<le> length d1" and "i + n \<le> length d2" and "length blk + n \<le> 16"
    and "blk \<noteq> [] \<longrightarrow> s \<noteq> - 1"
  shows "track_loop n i blks ident d1 d2 s blk c =
     (let blk' = blk @ take n (drop i d1) in
      if blk' \<noteq> [] then store_run True blks ident (if s = - 1 then int i else s) blk' c else Some c)"
  using assms
proof (induction n arbitrary: i s blk)
  case 0
  then show ?case by (auto simp: Let_def)
next
  case (Suc n)
  let ?s = "if s = - 1 then int i else s" and ?b = "blk @ [d1 ! i]"
  have t: "d1 ! i # take n (drop (i + 1) d1) = take (Suc n) (drop i d1)"
    using Suc.prems(2) by (simp add: Cons_nth_drop_Suc [symmetric])
  have "track_loop n (i + 1) blks ident d1 d2 ?s ?b c =
     (let blk' = ?b @ take n (drop (i + 1) d1) in
      if blk' \<noteq> [] then store_run True blks ident (if ?s = - 1 then int (i + 1) else ?s) blk' c else Some c)"
    by (rule Suc.IH) (use Suc.prems in auto)
  then show ?case using Suc.prems t by (simp add: Let_def)
qed

text \<open>The same variable at the end of a frame, a second time: it is not found when it is the first in the table.\<close>

lemma store_run_first:
  assumes k: "curVariables c = int k" "1 \<le> k" "k \<le> length (variableList c)"
    and v: "ve_id (variableList c ! 0) = ident" "ve_index (variableList c ! 0) = s" "ve_len (variableList c ! 0) = int (length blk)"
    and b: "blks (int k) = Some b" "length b = 128" and l: "length blk \<le> 16"
  shows "k < length (variableList c) \<Longrightarrow> \<exists>c'. store_run True blks ident s blk c = Some c' \<and> curVariables c' = int k + 1 \<and>
      length (variableList c') = length (variableList c) \<and> variableList c' ! 0 = variableList c ! 0 \<and>
      ve_id (variableList c' ! k) = ident \<and> ve_index (variableList c' ! k) = s \<and> ve_len (variableList c' ! k) = int (length blk)"
    and "k = length (variableList c) \<Longrightarrow> store_run True blks ident s blk c = None"
proof -
  obtain n where n: "k = Suc n" using k(2) by (cases k) auto
  have nk: "nat (curVariables c) = Suc n" unfolding k(1) n by (rule nat_int)
  have S: "SearchSimilarVariable (nat (curVariables c)) 0 ident s (int (length blk)) (variableList c) = Some 0"
    unfolding nk using k(3) v n by (cases "variableList c") simp_all
  show "store_run True blks ident s blk c = None" if "k = length (variableList c)"
    using S that k(1) by (simp add: store_run_def InsertNewVariable_def Let_def)
  show "\<exists>c'. store_run True blks ident s blk c = Some c' \<and> curVariables c' = int k + 1 \<and>
      length (variableList c') = length (variableList c) \<and> variableList c' ! 0 = variableList c ! 0 \<and>
      ve_id (variableList c' ! k) = ident \<and> ve_index (variableList c' ! k) = s \<and> ve_len (variableList c' ! k) = int (length blk)"
    if lt: "k < length (variableList c)"
  proof -
    obtain w where w: "CANVariableData_new (sint ident) 128 (int (length blk)) (Some b) = Some w" "vd_holds w (sint ident) (length blk) []" "vd_m w = 128"
      using vd_new [of b "sint ident" "length blk"] b(2) by auto
    obtain w' where w': "AddData blk (int (length blk)) w = Some w'"
      using AddData_spec [OF w(2), of blk] l w(3) by auto
    show ?thesis
      using S lt k(1,2) w(1) w' b(1) by (simp add: store_run_def InsertNewVariable_def Let_def)
  qed
qed

end
