(* ===== verification/Dyn_Sensors.thy ===== *)
theory Dyn_Sensors
  imports Can_Diag Can_Recorder
begin

text \<open>
  The sensors that the server configures (\<open>main.cpp\<close>, \<open>NewDynSensors\<close> and \<open>StopDynSensors\<close>): descriptions of calculators, one behind the
  other, become sensors with their communicators, and recorders. Objects live at addresses; what the allocator gives for the
  \<open>k\<close>-th sensor, and what its memory holds before it is initialised, is a parameter.
\<close>

section \<open>State\<close>

text \<open>A diagnosis sensor has the code of its protocol and its communicator.\<close>

datatype dyn_sensor = Diag_sensor u8 CANDiagSensor CANCommunicator | Rec_sensor CANRecorder

record dyn_state =
  dynamicSensors :: MySensors
  objs :: "u32 \<Rightarrow> dyn_sensor option"
  d_itf :: CANInterface
  d_count :: nat

record new_objects =
  f_addr :: "nat \<Rightarrow> u32"
  f_diag :: "nat \<Rightarrow> CANDiagCalculator"
  f_diag2 :: "nat \<Rightarrow> CANDiagCalculator option"
  f_com :: "nat \<Rightarrow> CANCommunicator"
  f_store :: "nat \<Rightarrow> bytes"
  f_res :: "nat \<Rightarrow> dataResult"
  f_rec :: "nat \<Rightarrow> CANRecorderCalculator"
  f_blk :: "nat \<Rightarrow> bytes option"
  f_ticks :: "nat \<Rightarrow> u32 list option"

section \<open>Creating sensors\<close>

definition add_sensor :: "new_objects \<Rightarrow> dyn_sensor \<Rightarrow> dyn_state \<Rightarrow> dyn_state option" where
  "add_sensor f s st = do {
     let a = f_addr f (d_count st);
     (_, l) \<leftarrow> AddSensor a (dynamicSensors st);
     Some (st\<lparr>dynamicSensors := l, objs := (objs st)(a := Some s), d_count := d_count st + 1\<rparr>)
   }"

text \<open>A new sensor for a calculator and its communicator, which are started.\<close>

definition new_diag :: "new_objects \<Rightarrow> u8 \<Rightarrow> u8 \<Rightarrow> CANDiagCalculator \<Rightarrow> dyn_state \<Rightarrow> dyn_state option" where
  "new_diag f dcode bus cal st =
     (let k = d_count st in
      add_sensor f (Diag_sensor dcode (CANDiagSensor_new cal (f_diag2 f k) (f_store f k) (f_res f k)) (Configure bus (Some cal) (f_com f k))) st)"

text \<open>The list is full: the calculator joins the first sensor that has fewer than two. Every sensor is taken for a diagnosis
  sensor; \<open>Some (done, st)\<close>.\<close>

primrec share_diag :: "nat \<Rightarrow> nat \<Rightarrow> CANDiagCalculator \<Rightarrow> dyn_state \<Rightarrow> (bool \<times> dyn_state) option" where
  "share_diag 0 i cal st = Some (False, st)"
| "share_diag (Suc k) i cal st =
     (let a = GetSensor (of_nat i) (dynamicSensors st) in
      if a \<noteq> 0 then
        case objs st a of
          Some (Diag_sensor p s com) \<Rightarrow>
            let n = GetNDiagCalculator s in
            if n < 2 then do {
              s \<leftarrow> AddCalculator cal n s;
              Some (True, st\<lparr>objs := (objs st)(a := Some (Diag_sensor p s com))\<rparr>)
            }
            else share_diag k (i + 1) cal st
        | _ \<Rightarrow> None
      else share_diag k (i + 1) cal st)"

text \<open>One description of a calculator at the offset \<open>off\<close>: whether the loop ends, the new offset, the new state.\<close>

definition diag_turn :: "new_objects \<Rightarrow> bytes \<Rightarrow> int \<Rightarrow> dyn_state \<Rightarrow> (bool \<times> int \<times> dyn_state) option" where
  "diag_turn f data off st = do {
     (inc, cal) \<leftarrow> SetData (Some (drop (nat off) data)) (f_diag f (d_count st));
     if inc \<noteq> 0 then do {
       let off = off + inc;
       if Ready cal then
         let dcode = GetDiagCode cal in
         if dcode = 0x6A \<or> dcode = 0x68 then
           let bus = BusFromPins (GetPinH cal) (GetPinL cal) (d_itf st) in
           if bus \<noteq> 0 then
             if GetNSensors (dynamicSensors st) < GetMaxSensors (dynamicSensors st)
             then do { st \<leftarrow> new_diag f dcode bus cal st; Some (False, off, st) }
             else do { (_, st) \<leftarrow> share_diag (unat (GetMaxSensors (dynamicSensors st))) 0 cal st; Some (False, off, st) }
           else Some (True, off, st)
         else Some (False, off, st)
       else Some (True, off, st)
     }
     else Some (True, off, st)
   }"

text \<open>One description of a recorder. It is used even when it is not valid; the list may refuse the new sensor.\<close>

definition rec_turn :: "u32 \<Rightarrow> new_objects \<Rightarrow> bytes \<Rightarrow> int \<Rightarrow> dyn_state \<Rightarrow> (bool \<times> int \<times> dyn_state) option" where
  "rec_turn lock f data off st =
     (let k = d_count st in do {
        (inc, cal) \<leftarrow> rc_SetData (Some (drop (nat off) data)) (f_rec f k);
        if inc \<noteq> 0 then do {
          let off = off + inc;
          (r, itf) \<leftarrow> CANRecorder_new lock (f_addr f k) (f_blk f k) (f_ticks f k) cal (d_itf st);
          st \<leftarrow> add_sensor f (Rec_sensor r) (st\<lparr>d_itf := itf\<rparr>);
          Some (False, off, st)
        }
        else Some (True, off, st)
      })"

partial_function (option) new_dyn_loop :: "u32 \<Rightarrow> new_objects \<Rightarrow> bytes \<Rightarrow> int \<Rightarrow> int \<Rightarrow> dyn_state \<Rightarrow> dyn_state option" where
  "new_dyn_loop lock f data dataSz off st = do {
     h \<leftarrow> rd_bytes data off 1;
     (stop, off, st) \<leftarrow> (if hd h = CAN_DIAG_HDR_TYPE then diag_turn f data off st
                         else if hd h = CAN_RECORDER_HDR_TYPE then rec_turn lock f data off st
                         else Some (False, off, st));
     if stop \<or> dataSz \<le> off then Some st else new_dyn_loop lock f data dataSz off st
   }"

text \<open>\<open>s\<close> is the status that the lock of the list returns, \<open>lock\<close> that of the table of callbacks.\<close>

definition NewDynSensors :: "u32 \<Rightarrow> u32 \<Rightarrow> new_objects \<Rightarrow> bytes \<Rightarrow> int \<Rightarrow> dyn_state \<Rightarrow> dyn_state option" where
  "NewDynSensors s lock f data dataSz st = (if s = osOK then new_dyn_loop lock f data dataSz 0 st else Some st)"

text \<open>\<open>StopDynSensors\<close>: the loop pops a sensor and then looks at the status of the lock instead of the sensor. The status is
  \<open>osOK\<close>, which is zero, and so the loop ends; the branch that stops and releases the sensor is never taken. For any other status
  than a time-out the function returns nothing.\<close>

definition StopDynSensors :: "u32 \<Rightarrow> dyn_state \<Rightarrow> (bool \<times> dyn_state) option" where
  "StopDynSensors s st =
     (if s = osOK then Some (True, st\<lparr>dynamicSensors := snd (PopLastSensor (dynamicSensors st))\<rparr>)
      else if s = osEventTimeout then Some (False, st)
      else None)"

section \<open>Descriptions\<close>

text \<open>A description as the server sends it, its bytes, and when it is complete.\<close>

datatype descr = D_diag bytes "command list" | D_rec bytes

primrec descr_bytes :: "descr \<Rightarrow> bytes" where
  "descr_bytes (D_diag h cs) = h @ enc_cmds cs"
| "descr_bytes (D_rec b) = b"

definition valid_chunks :: "bytes \<Rightarrow> bool" where
  "valid_chunks b \<longleftrightarrow> validate_chunks (unat (b ! 13)) 0 (drop 14 b)"

definition descr_ok :: "CANInterface \<Rightarrow> descr \<Rightarrow> bool" where
  "descr_ok itf d =
     (case d of
        D_diag h cs \<Rightarrow> length h = 20 \<and> hd h = CAN_DIAG_HDR_TYPE \<and> fld16 h 18 = of_nat (length (enc_cmds cs)) \<and> length (enc_cmds cs) < 256 \<and>
          list_all (\<lambda>(t, i, d). t \<noteq> CMD_END \<and> length d \<le> 8) cs \<and> (fld8 h 5 = 0x6A \<or> fld8 h 5 = 0x68) \<and>
          BusFromPins (fld8 h 16) (fld8 h 17) itf \<noteq> 0
      | D_rec b \<Rightarrow> length b = 14 + 2 * unat (b ! 13) \<and> hd b = CAN_RECORDER_HDR_TYPE \<and> 0 < b ! 13 \<and> b ! 13 < 8 \<and> valid_chunks b)"

text \<open>The sensor that belongs to a description.\<close>

definition sensor_for :: "CANInterface \<Rightarrow> descr \<Rightarrow> dyn_sensor \<Rightarrow> bool" where
  "sensor_for itf d s =
     (case d of
        D_diag h cs \<Rightarrow> (case s of
            Diag_sensor p ds com \<Rightarrow> p = fld8 h 5 \<and> GetNDiagCalculator ds = 1 \<and> com_bus com = BusFromPins (fld8 h 16) (fld8 h 17) itf \<and>
              (case the_calc 0 ds of
                 Some cal \<Rightarrow> calc cal = h \<and> cmds_at (cmdStorage cal) 0 cs \<and> cmd cal = Some 0 \<and> com_calc com = Some cal
               | None \<Rightarrow> False)
          | Rec_sensor r \<Rightarrow> False)
      | D_rec b \<Rightarrow> (case s of
            Rec_sensor r \<Rightarrow> rc_calc (rec_calc r) = take 14 b \<and> take (length b - 14) (recordData (rec_calc r)) = drop 14 b \<and> rec_hdr r [0, 0]
          | Diag_sensor p ds com \<Rightarrow> False))"

text \<open>The memory that new objects are made of.\<close>

definition fresh_ok :: "new_objects \<Rightarrow> bool" where
  "fresh_ok f \<longleftrightarrow> (\<forall>k. length (calc (f_diag f k)) = 20 \<and> length (cmdStorage (f_diag f k)) = 256 \<and>
     length (rc_calc (f_rec f k)) = 14 \<and> length (recordData (f_rec f k)) = 16 \<and>
     (\<exists>b. f_blk f k = Some b \<and> length b = 64) \<and> (\<exists>t. f_ticks f k = Some t \<and> length t = 32))"

definition dyn_ok :: "dyn_state \<Rightarrow> bool" where
  "dyn_ok st \<longleftrightarrow> sensors_ok (dynamicSensors st) \<and> tbl_ok (d_itf st)"

definition room :: "dyn_state \<Rightarrow> nat" where
  "room st = unat (max_sensors (dynamicSensors st)) - length (held (dynamicSensors st))"

lemma BusFromPins_cong:
  "CanPinL1 c' = CanPinL1 c \<Longrightarrow> CanPinH1 c' = CanPinH1 c \<Longrightarrow> CanPinL2 c' = CanPinL2 c \<Longrightarrow> CanPinH2 c' = CanPinH2 c \<Longrightarrow>
    BusFromPins h l c' = BusFromPins h l c"
  by (simp add: BusFromPins_def)

lemma AddCallBack_total:
  assumes "tbl_ok c"
  shows "\<exists>c'. AddCallBackForId lock bus ident cb c = Some c' \<and> tbl_ok c' \<and> (\<forall>h l. BusFromPins h l c' = BusFromPins h l c)"
proof (cases "lock = osEventTimeout \<or> nCurrentCbs c = CAN_SIMULTANEOUS_CBS")
  case True
  then show ?thesis using assms by (auto simp: AddCallBackForId_def)
next
  case False
  then obtain t where "AddCallBackForId lock bus ident cb c = Some (c\<lparr>idCbTable := t, nCurrentCbs := nCurrentCbs c + 1\<rparr>)"
    "tbl_ok (c\<lparr>idCbTable := t, nCurrentCbs := nCurrentCbs c + 1\<rparr>)" using AddCallBackForId_spec [OF assms] by blast
  then show ?thesis by (simp add: BusFromPins_def)
qed

lemma add_sensor_spec:
  assumes ok: "dyn_ok st" and r: "0 < room st"
  shows "\<exists>st'. add_sensor f s st = Some st' \<and> dyn_ok st' \<and> d_itf st' = d_itf st \<and> d_count st' = d_count st + 1 \<and>
     held (dynamicSensors st') = held (dynamicSensors st) @ [f_addr f (d_count st)] \<and>
     objs st' = (objs st)(f_addr f (d_count st) := Some s) \<and> room st' = room st - 1"
proof -
  let ?l = "dynamicSensors st"
  have lt: "length (held ?l) < unat (max_sensors ?l)" using r by (simp add: room_def)
  obtain l' where l': "AddSensor (f_addr f (d_count st)) ?l = Some (True, l')" "sensors_ok l'" "held l' = held ?l @ [f_addr f (d_count st)]"
    using AddSensor_spec [of ?l "f_addr f (d_count st)"] ok lt by (auto simp: dyn_ok_def)
  have "max_sensors l' = max_sensors ?l" using l'(1) by (auto simp: AddSensor_def split: if_splits)
  then show ?thesis using ok l' by (simp add: add_sensor_def dyn_ok_def room_def)
qed

lemma diag_turn_spec:
  assumes ok: "dyn_ok st" and r: "0 < room st" and f: "fresh_ok f" and d: "descr_ok (d_itf st) (D_diag h cs)"
    and at: "drop off data = h @ enc_cmds cs @ rest"
  shows "\<exists>st' s. diag_turn f data (int off) st = Some (False, int (off + length (descr_bytes (D_diag h cs))), st') \<and> dyn_ok st' \<and>
     d_itf st' = d_itf st \<and> d_count st' = d_count st + 1 \<and> held (dynamicSensors st') = held (dynamicSensors st) @ [f_addr f (d_count st)] \<and>
     objs st' = (objs st)(f_addr f (d_count st) := Some s) \<and> room st' = room st - 1 \<and> sensor_for (d_itf st) (D_diag h cs) s"
proof -
  let ?k = "d_count st" and ?l = "dynamicSensors st"
  have H: "length h = 20" "hd h = CAN_DIAG_HDR_TYPE" "fld16 h 18 = of_nat (length (enc_cmds cs))" "length (enc_cmds cs) < 256"
    "\<forall>(t, i, d)\<in>set cs. t \<noteq> CMD_END \<and> length d \<le> 8" "fld8 h 5 = 0x6A \<or> fld8 h 5 = 0x68" "BusFromPins (fld8 h 16) (fld8 h 17) (d_itf st) \<noteq> 0"
    using d by (simp_all add: descr_ok_def list_all_iff)
  obtain cal where S: "SetData (Some (drop off data)) (f_diag f ?k) = Some (20 + int (length (enc_cmds cs)), cal)" "Ready cal" "calc cal = h"
    "cmd cal = Some 0" "cmds_at (cmdStorage cal) 0 cs"
    using SetData_spec [OF H(1-3) _ _ H(4,5), of "f_diag f ?k" rest] f unfolding at fresh_ok_def by blast
  let ?bus = "BusFromPins (fld8 h 16) (fld8 h 17) (d_itf st)"
  let ?s = "CANDiagSensor_new cal (f_diag2 f ?k) (f_store f ?k) (f_res f ?k)" and ?com = "Configure ?bus (Some cal) (f_com f ?k)"
  obtain st' where A: "add_sensor f (Diag_sensor (fld8 h 5) ?s ?com) st = Some st'" "dyn_ok st'" "d_itf st' = d_itf st" "d_count st' = ?k + 1"
    "held (dynamicSensors st') = held ?l @ [f_addr f ?k]" "objs st' = (objs st)(f_addr f ?k := Some (Diag_sensor (fld8 h 5) ?s ?com))" "room st' = room st - 1"
    using add_sensor_spec [OF ok r] by blast
  have "length (held ?l) = unat (num_sensors ?l)" using ok by (auto simp: dyn_ok_def sensors_ok_def held_def word_le_nat_alt)
  then have "num_sensors ?l < max_sensors ?l" using r by (simp add: room_def word_less_nat_alt)
  then have "diag_turn f data (int off) st = Some (False, int (off + length (descr_bytes (D_diag h cs))), st')"
    using S A(1) H(1,6,7) by (auto simp: diag_turn_def new_diag_def Let_def GetDiagCode_def GetPinH_def GetPinL_def GetNSensors_def GetMaxSensors_def)
  moreover have "sensor_for (d_itf st) (D_diag h cs) (Diag_sensor (fld8 h 5) ?s ?com)"
    using S H(7) by (simp add: sensor_for_def CANDiagSensor_new_def GetNDiagCalculator_def Configure_def the_calc_def)
  ultimately show ?thesis using A by blast
qed

lemma rc_SetData_spec:
  assumes b: "length b = 14 + 2 * unat (b ! 13)" "hd b = CAN_RECORDER_HDR_TYPE" "0 < b ! 13" "b ! 13 < 8" "valid_chunks b"
    and c: "length (rc_calc c) = 14" "length (recordData c) = 16"
  shows "\<exists>cal. rc_SetData (Some (b @ rest)) c = Some (int (length b), cal) \<and> rc_calc cal = take 14 b \<and>
     take (length b - 14) (recordData cal) = drop 14 b \<and> chunks_ok cal \<and> GetNChunks cal = b ! 13"
proof -
  let ?n = "unat (b ! 13)" and ?buf = "b @ rest"
  have n: "?n < 8" using b(4) by (simp add: word_less_nat_alt)
  have u: "uint (b ! 13) * 2 = int (2 * ?n)" using uint_nat [of "b ! 13"] by linarith
  let ?d = "drop 14 b @ drop (2 * ?n) (recordData c)"
  have r1: "rd_bytes ?buf 0 1 = Some [hd b]" using b(1) by (cases b) (simp_all add: rd_bytes_def)
  have r2: "memcpy (rc_calc c) 0 ?buf 0 14 = Some (take 14 b)" using b(1) c(1) by (simp add: memcpy_def rd_bytes_def wr_bytes_def)
  have "rd_bytes ?buf 14 (int k) = Some (drop 14 b)" if "length b = 14 + k" for k using that by (simp add: rd_bytes_def)
  from this [OF b(1)] have rd: "rd_bytes ?buf 14 (int (2 * ?n)) = Some (drop 14 b)" .
  have r3: "memcpy (recordData c) 0 ?buf 14 (uint (b ! 13) * 2) = Some ?d"
  proof -
    have ld: "length (drop 14 b) = 2 * ?n" using b(1) by simp
    have w: "wr_bytes m 0 d = Some (d @ drop (length d) m)" if "length d \<le> length m" for m d using that by (simp add: wr_bytes_def)
    have "length (drop 14 b) \<le> length (recordData c)" unfolding ld c(2) using n by linarith
    from w [OF this] show ?thesis unfolding u memcpy_def rd ld by simp
  qed
  let ?c0 = "c\<lparr>rc_dataPresence := False, rc_dataValidity := False, rc_calc := take 14 b\<rparr>"
  have g: "GetNChunks (c\<lparr>rc_dataPresence := p, rc_dataValidity := q, rc_calc := take 14 b\<rparr>) = b ! 13" for p q
    by (simp add: GetNChunks_def fld8_def)
  let ?cal = "c\<lparr>rc_dataPresence := True, rc_dataValidity := False, rc_calc := take 14 b, recordEntries := Some 0, recordData := ?d\<rparr>"
  have P: "rc_Parse ?buf c = Some (int (length b), ?cal)"
    using r1 r2 r3 b(1-4) u by (simp add: rc_Parse_def Let_def g CAN_RECORDER_ENTRY_STORAGE_def mult.commute)
  obtain q cal' where V: "rc_Validate ?cal = Some (q, cal')" by (simp add: rc_Validate_def Let_def)
  then have v: "rc_calc cal' = take 14 b" "recordData cal' = ?d" "recordEntries cal' = Some 0" by (auto simp: rc_Validate_def Let_def)
  have g': "GetNChunks cal' = b ! 13" using v(1) by (simp add: GetNChunks_def fld8_def)
  have "unat (?d ! (2 * i)) + unat (?d ! (2 * i + 1)) \<le> 8" if "i < ?n" for i
  proof -
    have "unat (drop 14 b ! (2 * i)) + unat (drop 14 b ! (2 * i + 1)) \<le> 8"
      using validate_chunks_entries [of ?n 0 "drop 14 b" i] b(5) that by (simp add: valid_chunks_def)
    moreover have "2 * i + 1 < length (drop 14 b)" using b(1) that by simp
    ultimately show ?thesis by (simp add: nth_append)
  qed
  moreover have "2 * ?n \<le> length ?d" using b(1) by simp
  ultimately have "chunks_ok cal'" unfolding chunks_ok_def rec_entries_def g' v(2,3) by auto
  then show ?thesis using P V v g' b(1) by (simp add: rc_SetData_def)
qed

lemma rec_turn_spec:
  assumes ok: "dyn_ok st" and r: "0 < room st" and f: "fresh_ok f" and d: "descr_ok itf (D_rec b)" and at: "drop off data = b @ rest"
  shows "\<exists>st' s. rec_turn lock f data (int off) st = Some (False, int (off + length b), st') \<and> dyn_ok st' \<and>
     (\<forall>h l. BusFromPins h l (d_itf st') = BusFromPins h l (d_itf st)) \<and> d_count st' = d_count st + 1 \<and>
     held (dynamicSensors st') = held (dynamicSensors st) @ [f_addr f (d_count st)] \<and>
     objs st' = (objs st)(f_addr f (d_count st) := Some s) \<and> room st' = room st - 1 \<and> sensor_for itf (D_rec b) s"
proof -
  let ?k = "d_count st"
  have B: "length b = 14 + 2 * unat (b ! 13)" "hd b = CAN_RECORDER_HDR_TYPE" "0 < b ! 13" "b ! 13 < 8" "valid_chunks b"
    using d by (simp_all add: descr_ok_def)
  obtain cal where C: "rc_SetData (Some (drop off data)) (f_rec f ?k) = Some (int (length b), cal)" "rc_calc cal = take 14 b"
    "take (length b - 14) (recordData cal) = drop 14 b" "chunks_ok cal" "GetNChunks cal = b ! 13"
    using rc_SetData_spec [OF B, of "f_rec f ?k" rest] f unfolding at fresh_ok_def by blast
  obtain blk ticks where m: "f_blk f ?k = Some blk" "length blk = 64" "f_ticks f ?k = Some ticks" "length ticks = 32"
    using f unfolding fresh_ok_def by blast
  obtain itf' where I: "AddCallBackForId lock (word_of_int CAN_BUS_DONT_CARE) CAN_ID_PROMISCUOUS_MODE (f_addr f ?k) (d_itf st) = Some itf'"
    "tbl_ok itf'" "\<forall>h l. BusFromPins h l itf' = BusFromPins h l (d_itf st)"
    using AddCallBack_total ok unfolding dyn_ok_def by blast
  have n8: "GetNChunks cal < 8" using C(5) B(4) by simp
  obtain q where R: "CANRecorder_new lock (f_addr f ?k) (Some blk) (Some ticks) cal (d_itf st) = Some (q, itf')" "rec_hdr q [0, 0]" "rec_calc q = cal"
    using CANRecorder_new_spec [OF C(4) n8 m(2,4) I(1)] by blast
  have ok': "dyn_ok (st\<lparr>d_itf := itf'\<rparr>)" "0 < room (st\<lparr>d_itf := itf'\<rparr>)" using ok I(2) r by (simp_all add: dyn_ok_def room_def)
  obtain st' where A: "add_sensor f (Rec_sensor q) (st\<lparr>d_itf := itf'\<rparr>) = Some st'" "dyn_ok st'" "d_itf st' = itf'" "d_count st' = ?k + 1"
    "held (dynamicSensors st') = held (dynamicSensors st) @ [f_addr f ?k]" "objs st' = (objs st)(f_addr f ?k := Some (Rec_sensor q))" "room st' = room st - 1"
    using add_sensor_spec [OF ok', of f "Rec_sensor q"] by (auto simp: room_def)
  have "b \<noteq> []" using B(1) by auto
  then have "rec_turn lock f data (int off) st = Some (False, int (off + length b), st')"
    using C(1) m(1,3) R(1) A(1) by (simp add: rec_turn_def Let_def)
  moreover have "sensor_for itf (D_rec b) (Rec_sensor q)" using C(2,3) R(2,3) by (simp add: sensor_for_def)
  ultimately show ?thesis using A I(3) by blast
qed

section \<open>The loop over the descriptions\<close>

definition same_pins :: "CANInterface \<Rightarrow> CANInterface \<Rightarrow> bool" where
  "same_pins c c' \<longleftrightarrow> (\<forall>h l. BusFromPins h l c' = BusFromPins h l c)"

lemma same_pins_cong: "same_pins c c' \<Longrightarrow> descr_ok c' d = descr_ok c d" "same_pins c c' \<Longrightarrow> sensor_for c' d s = sensor_for c d s"
  unfolding same_pins_def descr_ok_def sensor_for_def by (simp_all only:)

text \<open>One turn, whatever the kind of the description is.\<close>

lemma turn_spec:
  assumes ok: "dyn_ok st" "0 < room st" "fresh_ok f" and d: "descr_ok (d_itf st) d" and at: "drop off data = descr_bytes d @ rest"
    and fin: "fin \<longleftrightarrow> dataSz \<le> int (off + length (descr_bytes d))"
  shows "\<exists>st' s. new_dyn_loop lock f data dataSz (int off) st =
       (if fin then Some st' else new_dyn_loop lock f data dataSz (int (off + length (descr_bytes d))) st') \<and> dyn_ok st' \<and>
     same_pins (d_itf st) (d_itf st') \<and> d_count st' = d_count st + 1 \<and> held (dynamicSensors st') = held (dynamicSensors st) @ [f_addr f (d_count st)] \<and>
     objs st' = (objs st)(f_addr f (d_count st) := Some s) \<and> room st' = room st - 1 \<and> sensor_for (d_itf st) d s"
proof -
  have hd: "rd_bytes data (int off) 1 = Some [hd b]" if "drop off data = b @ rest" "b \<noteq> []" for b
  proof -
    have "off < length data" using arg_cong [OF that(1), of length] that(2) by (cases "off < length data") auto
    moreover have "data ! off = hd b" using calculation that by (metis hd_append2 hd_drop_conv_nth)
    ultimately show ?thesis by (simp add: rd_bytes_def take_Suc_conv_app_nth hd_drop_conv_nth [symmetric] take_Suc)
  qed
  show ?thesis
  proof (cases d)
    case (D_diag h cs)
    have at': "drop off data = h @ enc_cmds cs @ rest" using at D_diag by simp
    have "length h = 20" "hd h = CAN_DIAG_HDR_TYPE" using d D_diag by (simp_all add: descr_ok_def)
    then have "rd_bytes data (int off) 1 = Some [CAN_DIAG_HDR_TYPE]" using hd [of "h @ enc_cmds cs"] at' by (cases h) auto
    moreover obtain st' s where "diag_turn f data (int off) st = Some (False, int (off + length (descr_bytes d)), st')" "dyn_ok st'"
      "d_itf st' = d_itf st" "d_count st' = d_count st + 1" "held (dynamicSensors st') = held (dynamicSensors st) @ [f_addr f (d_count st)]"
      "objs st' = (objs st)(f_addr f (d_count st) := Some s)" "room st' = room st - 1" "sensor_for (d_itf st) d s"
      using diag_turn_spec [OF ok d [unfolded D_diag] at'] unfolding D_diag by blast
    ultimately show ?thesis using fin
      by (intro exI [of _ st'] exI [of _ s]) (subst new_dyn_loop.simps, simp add: same_pins_def)
  next
    case (D_rec b)
    have at': "drop off data = b @ rest" using at D_rec by simp
    have B: "hd b = CAN_RECORDER_HDR_TYPE" "b \<noteq> []" using d D_rec by (auto simp: descr_ok_def)
    have "rd_bytes data (int off) 1 = Some [CAN_RECORDER_HDR_TYPE]" using hd [OF at' B(2)] B(1) by simp
    moreover obtain st' s where "rec_turn lock f data (int off) st = Some (False, int (off + length (descr_bytes d)), st')" "dyn_ok st'"
      "same_pins (d_itf st) (d_itf st')" "d_count st' = d_count st + 1" "held (dynamicSensors st') = held (dynamicSensors st) @ [f_addr f (d_count st)]"
      "objs st' = (objs st)(f_addr f (d_count st) := Some s)" "room st' = room st - 1" "sensor_for (d_itf st) d s"
      using rec_turn_spec [OF ok d [unfolded D_rec] at', of lock] unfolding D_rec same_pins_def descr_bytes.simps by blast
    moreover have "CAN_RECORDER_HDR_TYPE \<noteq> CAN_DIAG_HDR_TYPE" by (simp add: CAN_RECORDER_HDR_TYPE_def CAN_DIAG_HDR_TYPE_def)
    ultimately show ?thesis using fin
      by (intro exI [of _ st'] exI [of _ s]) (subst new_dyn_loop.simps, simp)
  qed
qed

lemma descr_bytes_ne: "descr_ok itf d \<Longrightarrow> descr_bytes d \<noteq> []"
  by (cases d) (auto simp: descr_ok_def)

lemma concat_empty: "concat (map descr_bytes ds) = [] \<Longrightarrow> \<forall>d\<in>set ds. descr_ok itf d \<Longrightarrow> ds = []"
  using descr_bytes_ne by (cases ds) auto

lemma new_dyn_loop_spec:
  assumes "dyn_ok st" and "length ds \<le> room st" and "fresh_ok f" and "\<forall>d\<in>set ds. descr_ok (d_itf st) d" and "ds \<noteq> []"
    and "drop off data = concat (map descr_bytes ds) @ rest" and "dataSz = int (off + length (concat (map descr_bytes ds)))"
    and "inj_on (f_addr f) {d_count st..<d_count st + length ds}"
  shows "\<exists>st'. new_dyn_loop lock f data dataSz (int off) st = Some st' \<and> dyn_ok st' \<and> d_count st' = d_count st + length ds \<and>
     held (dynamicSensors st') = held (dynamicSensors st) @ map (f_addr f) [d_count st..<d_count st + length ds] \<and>
     (\<forall>i<length ds. \<exists>s. objs st' (f_addr f (d_count st + i)) = Some s \<and> sensor_for (d_itf st) (ds ! i) s) \<and>
     (\<forall>a. a \<notin> f_addr f ` {d_count st..<d_count st + length ds} \<longrightarrow> objs st' a = objs st a)"
  using assms
proof (induction ds arbitrary: off st)
  case (Cons d ds)
  let ?k = "d_count st" and ?rest = "concat (map descr_bytes ds)"
  let ?last = "dataSz \<le> int (off + length (descr_bytes d))"
  have at: "drop off data = descr_bytes d @ ?rest @ rest" using Cons.prems(6) by simp
  have len: "dataSz = int (off + length (descr_bytes d) + length ?rest)" using Cons.prems(7) by simp
  obtain st1 s where T: "new_dyn_loop lock f data (dataSz) (int off) st =
       (if ?last then Some st1 else new_dyn_loop lock f data (dataSz) (int (off + length (descr_bytes d))) st1)" "dyn_ok st1"
    "same_pins (d_itf st) (d_itf st1)" "d_count st1 = ?k + 1" "held (dynamicSensors st1) = held (dynamicSensors st) @ [f_addr f ?k]"
    "objs st1 = (objs st)(f_addr f ?k := Some s)" "room st1 = room st - 1" "sensor_for (d_itf st) d s"
    using turn_spec [OF Cons.prems(1) _ Cons.prems(3) _ at refl] Cons.prems(2,4) by fastforce
  have "?k \<in> {?k..<?k + length (d # ds)}" "{d_count st1..<d_count st1 + length ds} \<subseteq> {?k..<?k + length (d # ds)}" using T(4) by auto
  note inj = Cons.prems(8) this
  have inj1: "inj_on (f_addr f) {d_count st1..<d_count st1 + length ds}" by (rule inj_on_subset [OF inj(1,3)])
  show ?case
  proof (cases "ds = []")
    case True
    then show ?thesis using T len by simp
  next
    case False
    have ok1: "\<forall>d\<in>set ds. descr_ok (d_itf st1) d" using Cons.prems(4) same_pins_cong(1) [OF T(3)] by simp
    have nl: "\<not> ?last" using len concat_empty [OF _ ok1] False by (cases "?rest = []") auto
    have at1: "drop (off + length (descr_bytes d)) data = ?rest @ rest"
    proof -
      have "drop (length (descr_bytes d)) (drop off data) = ?rest @ rest" unfolding at by simp
      then show ?thesis by (simp add: add.commute)
    qed
    have r1: "length ds \<le> room st1" and o1: "dataSz = int (off + length (descr_bytes d) + length ?rest)" using Cons.prems(2) T(7) len by simp_all
    obtain st2 where S: "new_dyn_loop lock f data (dataSz) (int (off + length (descr_bytes d))) st1 = Some st2" "dyn_ok st2"
      "d_count st2 = d_count st1 + length ds"
      "held (dynamicSensors st2) = held (dynamicSensors st1) @ map (f_addr f) [d_count st1..<d_count st1 + length ds]"
      "\<forall>i<length ds. \<exists>s. objs st2 (f_addr f (d_count st1 + i)) = Some s \<and> sensor_for (d_itf st1) (ds ! i) s"
      "\<forall>a. a \<notin> f_addr f ` {d_count st1..<d_count st1 + length ds} \<longrightarrow> objs st2 a = objs st1 a"
      using Cons.IH [OF T(2) r1 Cons.prems(3) ok1 False at1 o1 inj1] by blast
    have "f_addr f ?k \<notin> f_addr f ` {d_count st1..<d_count st1 + length ds}" using inj_on_image_mem_iff [OF inj] T(4) by simp
    then have first: "objs st2 (f_addr f ?k) = Some s" using S(6) T(6) by simp
    have "\<exists>s. objs st2 (f_addr f (?k + i)) = Some s \<and> sensor_for (d_itf st) ((d # ds) ! i) s" if "i < length (d # ds)" for i
    proof (cases i)
      case 0
      then show ?thesis using first T(8) by simp
    next
      case (Suc j)
      then show ?thesis using S(5) that T(4) same_pins_cong(2) [OF T(3)] by (auto simp: add.commute)
    qed
    moreover have "objs st2 a = objs st a" if "a \<notin> f_addr f ` {?k..<?k + length (d # ds)}" for a
    proof -
      have "a \<noteq> f_addr f ?k" "a \<notin> f_addr f ` {d_count st1..<d_count st1 + length ds}" using that T(4) by auto
      then show ?thesis using S(6) T(6) by simp
    qed
    moreover have "[?k..<?k + length (d # ds)] = ?k # [d_count st1..<d_count st1 + length ds]" using T(4) upt_conv_Cons [of ?k "?k + length (d # ds)"] by simp
    then have "held (dynamicSensors st2) = held (dynamicSensors st) @ map (f_addr f) [?k..<?k + length (d # ds)]" using S(4) T(5) by simp
    moreover have "new_dyn_loop lock f data (dataSz) (int off) st = Some st2" using T(1) nl S(1) by simp
    moreover have "d_count st2 = ?k + length (d # ds)" using S(3) T(4) by simp
    ultimately show ?thesis using S(2) by blast
  qed
qed simp

text \<open>A byte that is the type of no description: the loop does not move, and never ends.\<close>

lemma new_dyn_loop_stuck:
  assumes "h \<noteq> CAN_DIAG_HDR_TYPE" and "h \<noteq> CAN_RECORDER_HDR_TYPE" and "rd_bytes data off 1 = Some [h]" and "off < dataSz"
  shows "new_dyn_loop lock f data dataSz off st = None"
proof -
  let ?P = "\<lambda>l f data dataSz off st r. \<forall>h. rd_bytes data off 1 = Some [h] \<longrightarrow> off < dataSz \<longrightarrow> h = CAN_DIAG_HDR_TYPE \<or> h = CAN_RECORDER_HDR_TYPE"
  have "?P l f data dataSz off st r" if "new_dyn_loop l f data dataSz off st = Some r" for l r
  proof (rule new_dyn_loop.raw_induct [where P = ?P, OF _ that], intro allI impI, rule ccontr)
    fix g lock f data dataSz off st r h
    assume IH: "\<And>lock f data dataSz off st r. g lock f data dataSz off st = Some r \<Longrightarrow> ?P lock f data dataSz off st r"
      and step: "do { h \<leftarrow> rd_bytes data off 1;
         (stop, off, st) \<leftarrow> (if hd h = CAN_DIAG_HDR_TYPE then diag_turn f data off st
                             else if hd h = CAN_RECORDER_HDR_TYPE then rec_turn lock f data off st else Some (False, off, st));
         if stop \<or> dataSz \<le> off then Some st else g lock f data dataSz off st } = Some r"
      and h: "rd_bytes data off 1 = Some [h]" "off < dataSz" and ne: "\<not> (h = CAN_DIAG_HDR_TYPE \<or> h = CAN_RECORDER_HDR_TYPE)"
    have "g lock f data dataSz off st = Some r" using step h ne by simp
    from IH [OF this] show False using h ne by blast
  qed
  then show ?thesis using assms by (cases "new_dyn_loop lock f data dataSz off st") blast+
qed

lemma new_dyn_loop_past:
  assumes "dyn_ok st" and "length ds \<le> room st" and "fresh_ok f" and "\<forall>d\<in>set ds. descr_ok (d_itf st) d"
    and "drop off data = concat (map descr_bytes ds) @ rest" and "int (off + length (concat (map descr_bytes ds))) < dataSz"
  shows "\<exists>st'. new_dyn_loop lock f data dataSz (int off) st = new_dyn_loop lock f data dataSz (int (off + length (concat (map descr_bytes ds)))) st'"
  using assms
proof (induction ds arbitrary: off st)
  case (Cons d ds)
  have at: "drop off data = descr_bytes d @ concat (map descr_bytes ds) @ rest" using Cons.prems(5) by simp
  have more: "False \<longleftrightarrow> dataSz \<le> int (off + length (descr_bytes d))" using Cons.prems(6) by simp
  have r: "0 < room st" and d: "descr_ok (d_itf st) d" using Cons.prems(2,4) by auto
  obtain st1 where T: "new_dyn_loop lock f data dataSz (int off) st = new_dyn_loop lock f data dataSz (int (off + length (descr_bytes d))) st1"
    "dyn_ok st1" "same_pins (d_itf st) (d_itf st1)" "room st1 = room st - 1"
    using turn_spec [OF Cons.prems(1) r Cons.prems(3) d at more, of lock] unfolding if_False by blast
  have ok1: "\<forall>d\<in>set ds. descr_ok (d_itf st1) d" using Cons.prems(4) same_pins_cong(1) [OF T(3)] by simp
  have at1: "drop (off + length (descr_bytes d)) data = concat (map descr_bytes ds) @ rest"
  proof -
    have "drop (length (descr_bytes d)) (drop off data) = concat (map descr_bytes ds) @ rest" unfolding at by simp
    then show ?thesis by (simp add: add.commute)
  qed
  have r1: "length ds \<le> room st1" and o1: "int (off + length (descr_bytes d) + length (concat (map descr_bytes ds))) < dataSz"
    using Cons.prems(2,6) T(4) by simp_all
  obtain st2 where "new_dyn_loop lock f data dataSz (int (off + length (descr_bytes d))) st1 =
      new_dyn_loop lock f data dataSz (int (off + length (descr_bytes d) + length (concat (map descr_bytes ds)))) st2"
    using Cons.IH [OF T(2) r1 Cons.prems(3) ok1 at1 o1] by blast
  then show ?case unfolding T(1) by (intro exI [of _ st2]) (simp add: add.assoc)
qed auto

text \<open>Stopping the sensors drops the last one from the list, not stopped and not released, and keeps the others.\<close>

lemma StopDynSensors_drops_one:
  assumes "dyn_ok st"
  shows "\<exists>st'. StopDynSensors osOK st = Some (True, st') \<and> dyn_ok st' \<and> held (dynamicSensors st') = butlast (held (dynamicSensors st)) \<and>
     objs st' = objs st \<and> d_itf st' = d_itf st \<and> d_count st' = d_count st \<and> max_sensors (dynamicSensors st') = max_sensors (dynamicSensors st)"
proof -
  let ?l = "dynamicSensors st"
  have ok: "sensors_ok ?l" using assms by (simp add: dyn_ok_def)
  have m: "max_sensors (snd (PopLastSensor ?l)) = max_sensors ?l" by (simp add: PopLastSensor_def)
  have "sensors_ok (snd (PopLastSensor ?l)) \<and> held (snd (PopLastSensor ?l)) = butlast (held ?l)"
  proof (cases "held ?l" rule: rev_cases)
    case Nil
    then have "num_sensors ?l = 0 \<or> sensors ?l = []" by (auto simp: held_def unat_eq_0)
    then have "num_sensors ?l = 0" using ok by (auto simp: sensors_ok_def word_le_nat_alt unat_eq_0)
    then show ?thesis using ok Nil by (simp add: PopLastSensor_def)
  next
    case (snoc ps p)
    then show ?thesis using PopLastSensor_spec [OF ok snoc] by auto
  qed
  then show ?thesis using assms m by (simp add: StopDynSensors_def dyn_ok_def)
qed

end
