(* ===== verification/Dyn_Props.thy ===== *)
theory Dyn_Props
  imports Can_Track Dyn_Sensors
begin

text \<open>
  Properties of the sensors that the server configures, of the descriptions they are made from, and of the detector of variations,
  each with an application to a concrete input.
\<close>

section \<open>Sensors from descriptions\<close>

text \<open>C8. \<open>NewDynSensors\<close> on a block of complete descriptions, with room in the list for all of them: it ends, and
  the list has one new sensor for each description, in their order, behind the sensors it had. A sensor for diagnosis has
  exactly the calculator and the commands of its description and a communicator on the bus that its pins name; a recorder has
  the calculator, the chunks and the header of its description. No other object is touched.\<close>

theorem new_sensors_created:
  assumes "dyn_ok st" and "length ds \<le> room st" and "fresh_ok f" and "\<forall>d\<in>set ds. descr_ok (d_itf st) d" and "ds \<noteq> []"
    and "data = concat (map descr_bytes ds) @ rest" and "dataSz = int (length (concat (map descr_bytes ds)))"
    and "inj_on (f_addr f) {d_count st..<d_count st + length ds}"
  shows "\<exists>st'. NewDynSensors osOK lock f data dataSz st = Some st' \<and> dyn_ok st' \<and>
     held (dynamicSensors st') = held (dynamicSensors st) @ map (f_addr f) [d_count st..<d_count st + length ds] \<and>
     (\<forall>i<length ds. \<exists>s. objs st' (f_addr f (d_count st + i)) = Some s \<and> sensor_for (d_itf st) (ds ! i) s) \<and>
     (\<forall>a. a \<notin> f_addr f ` {d_count st..<d_count st + length ds} \<longrightarrow> objs st' a = objs st a)"
proof -
  have "drop 0 data = concat (map descr_bytes ds) @ rest" "dataSz = int (0 + length (concat (map descr_bytes ds)))"
    using assms(6,7) by simp_all
  from new_dyn_loop_spec [OF assms(1-5) this assms(8), of lock] show ?thesis unfolding NewDynSensors_def by auto
qed

definition demo_pins :: CANInterface where
  "demo_pins = CANInterface_new (replicate 120 0) False 3 8 6 14"

definition demo_descr_diag :: descr where
  "demo_descr_diag = D_diag ([1, 0, 0, 0, 0, 0x6A] @ replicate 10 0 @ [6, 14, 17, 0]) [(CMD_NORM, 7, [2, 33, 176])]"

definition demo_descr_rec :: descr where
  "demo_descr_rec = D_rec ([2, 0, 0, 0, 0, 0, 0, 9, 0, 0, 0, 6, 14, 2] @ [1, 2, 5, 3])"

definition demo_objects :: new_objects where
  "demo_objects = \<lparr>f_addr = \<lambda>k. of_nat (16 * k + 64), f_diag = \<lambda>k. \<lparr>dataPresence = False, dataValidity = False, calc = replicate 20 0, cmd = None,
     cmdStorage = replicate 256 0\<rparr>, f_diag2 = \<lambda>k. None, f_com = \<lambda>k. \<lparr>com_bus = 0, com_calc = None, com_state = IDLE\<rparr>, f_store = \<lambda>k. replicate 256 0,
     f_res = \<lambda>k. \<lparr>res_start = None, res_current = 0, res_num = 0, res_max = 0, res_dynamic = False\<rparr>, f_rec = \<lambda>k. \<lparr>rc_dataPresence = False, rc_dataValidity = False,
     rc_calc = replicate 14 0, recordEntries = None, recordData = replicate 16 0\<rparr>, f_blk = \<lambda>k. Some (replicate 64 0), f_ticks = \<lambda>k. Some (replicate 32 0)\<rparr>"

definition demo_dyn :: dyn_state where
  "demo_dyn = \<lparr>dynamicSensors = MySensors_new (replicate 4 0) 4 True True, objs = \<lambda>_. None, d_itf = demo_pins, d_count = 0\<rparr>"

lemma demo_dyn_ok: "dyn_ok demo_dyn" "room demo_dyn = 4" "fresh_ok demo_objects" "d_count demo_dyn = 0" "held (dynamicSensors demo_dyn) = []"
  by (simp_all add: dyn_ok_def room_def demo_dyn_def MySensors_new_def sensors_ok_def held_def demo_pins_def tbl_ok_def CANInterface_new_def
      fresh_ok_def demo_objects_def)

lemma demo_descr_ok: "descr_ok demo_pins demo_descr_diag" "descr_ok demo_pins demo_descr_rec"
  subgoal by code_simp
  by code_simp

theorem new_sensors_created_witness:
  "\<exists>st'. NewDynSensors osOK 0 demo_objects (descr_bytes demo_descr_diag @ descr_bytes demo_descr_rec @ [9]) 55 demo_dyn = Some st' \<and>
     held (dynamicSensors st') = [64, 80] \<and> (\<exists>s. objs st' 64 = Some s \<and> sensor_for demo_pins demo_descr_diag s) \<and>
     (\<exists>s. objs st' 80 = Some s \<and> sensor_for demo_pins demo_descr_rec s)"
proof -
  let ?ds = "[demo_descr_diag, demo_descr_rec]"
  have p: "d_itf demo_dyn = demo_pins" by (simp add: demo_dyn_def)
  have a: "f_addr demo_objects k = of_nat (16 * k + 64)" for k by (simp add: demo_objects_def)
  have l: "length (concat (map descr_bytes ?ds)) = 55"
    by (simp add: demo_descr_diag_def demo_descr_rec_def enc_cmds_def enc_cmd_def)
  have i: "inj_on (f_addr demo_objects) {0..<2}" unfolding a inj_on_def by (auto simp: less_2_cases_iff)
  obtain st' where st': "NewDynSensors osOK 0 demo_objects (concat (map descr_bytes ?ds) @ [9]) 55 demo_dyn = Some st'"
    "held (dynamicSensors st') = map (f_addr demo_objects) [0..<2]"
    "\<forall>j<2. \<exists>s. objs st' (f_addr demo_objects j) = Some s \<and> sensor_for demo_pins (?ds ! j) s"
    using new_sensors_created [OF demo_dyn_ok(1) _ demo_dyn_ok(3), of ?ds _ "[9]" 55 0] demo_descr_ok demo_dyn_ok(2,4,5) l i unfolding p
    by (auto simp: numeral_2_eq_2)
  have "held (dynamicSensors st') = [64, 80]" using st'(2) by (simp add: a upt_rec)
  moreover have "\<exists>s. objs st' 64 = Some s \<and> sensor_for demo_pins demo_descr_diag s" using st'(3) [rule_format, of 0] by (simp add: a)
  moreover have "\<exists>s. objs st' 80 = Some s \<and> sensor_for demo_pins demo_descr_rec s" using st'(3) [rule_format, of 1] by (simp add: a)
  ultimately show ?thesis using st'(1) by auto
qed

text \<open>C38. A byte that is the type of no description, behind any number of complete descriptions and before the size that
  the server gave: the offset does not move any more and the loop never ends, with the lock of the list held.\<close>

theorem new_sensors_endless:
  assumes "dyn_ok st" and "length ds \<le> room st" and "fresh_ok f" and "\<forall>d\<in>set ds. descr_ok (d_itf st) d"
    and "data = concat (map descr_bytes ds) @ h # rest" and "int (length (concat (map descr_bytes ds))) < dataSz"
    and "h \<noteq> CAN_DIAG_HDR_TYPE" and "h \<noteq> CAN_RECORDER_HDR_TYPE"
  shows "NewDynSensors osOK lock f data dataSz st = None"
proof -
  let ?n = "length (concat (map descr_bytes ds))"
  have 1: "drop 0 data = concat (map descr_bytes ds) @ h # rest" "int (0 + ?n) < dataSz" using assms(5,6) by simp_all
  have "rd_bytes (a @ h # rest) (int (length a)) 1 = Some [h]" for a by (simp add: rd_bytes_def)
  then have "rd_bytes data (int ?n) 1 = Some [h]" unfolding assms(5) .
  then have "new_dyn_loop lock f data dataSz (int ?n) st' = None" for st' using assms(6-8) by (intro new_dyn_loop_stuck)
  then show ?thesis using new_dyn_loop_past [OF assms(1-4) 1, of lock] by (auto simp: NewDynSensors_def)
qed

theorem new_sensors_endless_witness:
  "NewDynSensors osOK 0 demo_objects (descr_bytes demo_descr_diag @ [0, 0]) 39 demo_dyn = None"
proof -
  have "length (descr_bytes demo_descr_diag) = 37" by (simp add: demo_descr_diag_def enc_cmds_def enc_cmd_def)
  then show ?thesis
    using new_sensors_endless [OF demo_dyn_ok(1) _ demo_dyn_ok(3), of "[demo_descr_diag]" _ 0 "[0]" 39 0] demo_descr_ok(1) demo_dyn_ok(2)
    by (simp add: demo_dyn_def CAN_DIAG_HDR_TYPE_def CAN_RECORDER_HDR_TYPE_def)
qed

section \<open>What a calculator that is ready holds\<close>

text \<open>C39. Whatever bytes the server sent, a calculator that \<open>SetData\<close> declares ready is well formed: its storage starts
  with commands of at most eight bytes and an end mark, all inside the storage. When there is a command, the walk over the commands of
  a type (any but that of the end mark) returns and gives exactly these commands. An empty list is declared ready too, and there the walk goes
  wrong: \<open>FirstCommand\<close> steps over the end mark and looks at the bytes behind it, which an earlier description left there, so that the commands
  of a list in these bytes are returned, and the read runs out of the storage (\<open>None\<close>) when no end mark comes.\<close>

theorem ready_commands_walk:
  assumes "SetData (Some b) c = Some (v, c')" and "Ready c'"
  shows "\<exists>cs. cmds_at (cmdStorage c') 0 cs \<and> (\<forall>(t, i, d)\<in>set cs. length d \<le> 8) \<and>
     (cs \<noteq> [] \<longrightarrow> (\<forall>ty. ty \<noteq> CMD_END \<longrightarrow> commands_of ty c' = Some (map snd (filter (\<lambda>u. fst u = ty) cs)))) \<and>
     (cs = [] \<longrightarrow> (\<exists>s. cmd_at (cmdStorage c') 0 = Some (CMD_END, s) \<and>
        (\<forall>ty. ty \<noteq> CMD_END \<longrightarrow>
           FirstCommand ty c' = (case cmd_at (cmdStorage c') (7 + unat s) of None \<Rightarrow> None
             | Some (t, _) \<Rightarrow> if t = ty then Some (Some (7 + unat s)) else if t = CMD_END then Some None else NextCommand (7 + unat s) ty c') \<and>
           (\<forall>us. cmds_at (cmdStorage c') (7 + unat s) us \<longrightarrow> commands_of ty c' = Some (map snd (filter (\<lambda>u. fst u = ty) us))))))"
proof -
  obtain cs where cs: "cmds_at (cmdStorage c') 0 cs" "cmd c' = Some 0" "\<forall>(t, i, d)\<in>set cs. length d \<le> 8"
    using Ready_commands [OF assms] by blast
  show ?thesis
  proof (cases cs)
    case Nil
    then obtain s where s: "cmd_at (cmdStorage c') 0 = Some (CMD_END, s)" using cs(1) by auto
    show ?thesis using cs(1) s FirstCommand_empty [OF s cs(2)] commands_of_empty [OF s cs(2)] unfolding Nil by (intro exI [of _ "[]"]) simp
  next
    case (Cons u us)
    then show ?thesis using commands_of_spec [OF cs(1) _ _ cs(2)] cs(1,3) by (intro exI [of _ cs]) simp
  qed
qed

text \<open>An object whose storage still holds the command of an earlier description gets the description of an empty list.\<close>

definition demo_used :: CANDiagCalculator where
  "demo_used = (f_diag demo_objects 0)\<lparr>cmdStorage := replicate 7 0 @ enc_cmds [(CMD_NORM, 7, [2, 33, 176])] @ replicate 232 0\<rparr>"

definition demo_no_cmds :: bytes where
  "demo_no_cmds = [1, 0, 0, 0, 0, 0x6A] @ replicate 10 0 @ [6, 14, 7, 0] @ replicate 7 0"

theorem ready_commands_walk_witness:
  "\<exists>c'. SetData (Some demo_no_cmds) demo_used = Some (27, c') \<and> Ready c' \<and> cmds_at (cmdStorage c') 0 [] \<and> commands_of CMD_NORM c' = Some [(7, [2, 33, 176])]"
proof -
  have "map_option (\<lambda>(v, c'). (v, Ready c', cmdStorage c')) (SetData (Some demo_no_cmds) demo_used) = Some (27, True, cmdStorage demo_used)"
    by code_simp
  then obtain c' where c': "SetData (Some demo_no_cmds) demo_used = Some (27, c')" "Ready c'" "cmdStorage c' = cmdStorage demo_used" by auto
  have e: "cmd_at (cmdStorage c') 0 = Some (CMD_END, 0)" unfolding c'(3) by code_simp
  have d: "drop 7 (cmdStorage c') = enc_cmds [(CMD_NORM, 7, [2, 33, 176])] @ replicate 232 0" unfolding c'(3) by code_simp
  have "7 \<le> length (cmdStorage c')" and t: "CMD_NORM \<noteq> CMD_END" unfolding c'(3) by code_simp+
  then have s: "cmds_at (cmdStorage c') 7 [(CMD_NORM, 7, [2, 33, 176])]" by (intro cmds_at_enc [OF d]) simp_all
  obtain cs where cs: "cmds_at (cmdStorage c') 0 cs" "cs = [] \<longrightarrow> (\<exists>s. cmd_at (cmdStorage c') 0 = Some (CMD_END, s) \<and>
      (\<forall>us. cmds_at (cmdStorage c') (7 + unat s) us \<longrightarrow> commands_of CMD_NORM c' = Some (map snd (filter (\<lambda>u. fst u = CMD_NORM) us))))"
    using ready_commands_walk [OF c'(1,2)] t by blast
  have "cs = []" using cs(1) e by (cases cs) auto
  then have "\<forall>us. cmds_at (cmdStorage c') 7 us \<longrightarrow> commands_of CMD_NORM c' = Some (map snd (filter (\<lambda>u. fst u = CMD_NORM) us))"
    using cs(2) e by auto
  from this [rule_format, OF s] have "commands_of CMD_NORM c' = Some [(7, [2, 33, 176])]" by simp
  then show ?thesis using c'(1,2) e by auto
qed

section \<open>Variations on the bus\<close>

text \<open>C40. The detector of variations against its reference, a map from identifiers to the last data: for frames of eight
  bytes with standard identifiers, not more than its table has entries, it reports exactly the bytes that differ from the last frame
  of the same identifier, in order, whatever the table held before it was made, and keeps exactly the last data of every identifier.\<close>

theorem variations_reported:
  assumes "length old = NUM_FRAME_ENTRY_MAX" and "\<forall>e\<in>set old. length (snd e) = 8"
    and "\<forall>m\<in>set ms. std_msg m" and "card (key ` set ms) \<le> NUM_FRAME_ENTRY_MAX"
  shows "\<exists>v'. var_run ms (CANVariationDetector_new old) = Some (reports Map.empty ms, v') \<and> last_frames v' = overwrite Map.empty ms"
  using var_run_spec [OF det_new(1) [OF assms(1,2)] assms(3)] assms(4) unfolding det_new(2) [OF assms(1,2)] by auto

definition demo_frame :: "u32 \<Rightarrow> u8 \<Rightarrow> CANMessage" where
  "demo_frame i x = CANMessage_new\<lparr>msg_id := i, msg_data := [1, 2, 3, x, 5, 6, 7, x]\<rparr>"

theorem variations_reported_witness:
  "\<exists>v'. var_run [demo_frame 9 1, demo_frame 8 1, demo_frame 9 4] (CANVariationDetector_new (replicate 30 (5, replicate 8 0))) =
      Some ([(9, 3, 4), (9, 7, 4)], v') \<and> last_frames v' 9 = Some [1, 2, 3, 4, 5, 6, 7, 4]"
proof -
  let ?ms = "[demo_frame 9 1, demo_frame 8 1, demo_frame 9 4]"
  have "\<forall>m\<in>set ?ms. std_msg m" by (simp add: demo_frame_def std_msg_def CANMessage_new_def)
  moreover have "card (key ` set ?ms) \<le> NUM_FRAME_ENTRY_MAX"
    using card_image_le [of "set ?ms" key] card_length [of ?ms] unfolding NUM_FRAME_ENTRY_MAX_def by simp
  moreover have "reports Map.empty ?ms = [(9, 3, 4), (9, 7, 4)]" by code_simp
  moreover have "overwrite Map.empty ?ms 9 = Some [1, 2, 3, 4, 5, 6, 7, 4]" by code_simp
  ultimately show ?thesis using variations_reported [of "replicate 30 (5, replicate 8 0)" ?ms] by (auto simp: NUM_FRAME_ENTRY_MAX_def)
qed

end
