(* ===== verification/Sd_Card.thy ===== *)
theory Sd_Card
  imports App_Bytes
begin

text \<open>
  The SD card driver (\<open>sd.cpp\<close>, class \<open>sdCard\<close>). The card is a parameter: what it answers to a byte on the SPI bus, and
  what the chip select does to it. Loops that wait for the card count their tries, or are \<open>partial_function (option)\<close>.
\<close>

section \<open>The bus\<close>

record 'c spi =
  xfer :: "u8 \<Rightarrow> 'c \<Rightarrow> u8 \<times> 'c"
  select :: "bool \<Rightarrow> 'c \<Rightarrow> 'c"

primrec send_bytes :: "'c spi \<Rightarrow> bytes \<Rightarrow> 'c \<Rightarrow> 'c" where
  "send_bytes p [] c = c"
| "send_bytes p (b # bs) c = send_bytes p bs (snd (xfer p b c))"

primrec recv_bytes :: "'c spi \<Rightarrow> nat \<Rightarrow> 'c \<Rightarrow> bytes \<times> 'c" where
  "recv_bytes p 0 c = ([], c)"
| "recv_bytes p (Suc k) c =
     (let (r, c) = xfer p 0xFF c; (rs, c) = recv_bytes p k c in (r # rs, c))"

text \<open>The end of an exchange: the card is deselected and gets one more clock.\<close>

definition release :: "'c spi \<Rightarrow> 'c \<Rightarrow> 'c" where
  "release p c = snd (xfer p 0xFF (select p True c))"

section \<open>Commands\<close>

definition SD_COMMAND_TIMEOUT :: nat where "SD_COMMAND_TIMEOUT = 5000"
definition R1_IDLE_STATE :: int where "R1_IDLE_STATE = 1"
definition R1_ILLEGAL_COMMAND :: int where "R1_ILLEGAL_COMMAND = 4"
definition SDCARD_FAIL :: int where "SDCARD_FAIL = 0"
definition SDCARD_V1 :: int where "SDCARD_V1 = 1"
definition SDCARD_V2 :: int where "SDCARD_V2 = 2"

definition cmd_bytes :: "u8 \<Rightarrow> u32 \<Rightarrow> bytes" where
  "cmd_bytes cmd arg = [0x40 OR cmd, ucast (drop_bit 24 arg), ucast (drop_bit 16 arg), ucast (drop_bit 8 arg), ucast arg, 0x95]"

text \<open>The loop that waits for a response, at most \<open>k\<close> times.\<close>

primrec wait_resp :: "'c spi \<Rightarrow> nat \<Rightarrow> 'c \<Rightarrow> u8 option \<times> 'c" where
  "wait_resp p 0 c = (None, c)"
| "wait_resp p (Suc k) c =
     (let (r, c) = xfer p 0xFF c in if r AND 0x80 = 0 then (Some r, c) else wait_resp p k c)"

definition sd_cmd :: "'c spi \<Rightarrow> u8 \<Rightarrow> u32 \<Rightarrow> 'c \<Rightarrow> int \<times> 'c" where
  "sd_cmd p cmd arg c =
     (let (r, c) = wait_resp p SD_COMMAND_TIMEOUT (send_bytes p (cmd_bytes cmd arg) (select p False c)) in
      (case r of Some r \<Rightarrow> uint r | None \<Rightarrow> - 1, release p c))"

definition sd_cmdx :: "'c spi \<Rightarrow> u8 \<Rightarrow> u32 \<Rightarrow> 'c \<Rightarrow> int \<times> 'c" where
  "sd_cmdx p cmd arg c =
     (let (r, c) = wait_resp p SD_COMMAND_TIMEOUT (send_bytes p (cmd_bytes cmd arg) (select p False c)) in
      case r of Some r \<Rightarrow> (uint r, c) | None \<Rightarrow> (- 1, release p c))"

definition sd_cmd58 :: "'c spi \<Rightarrow> 'c \<Rightarrow> int \<times> 'c" where
  "sd_cmd58 p c =
     (let (r, c) = wait_resp p SD_COMMAND_TIMEOUT (send_bytes p (cmd_bytes 58 0) (select p False c)) in
      case r of Some r \<Rightarrow> (uint r, release p (snd (recv_bytes p 4 c))) | None \<Rightarrow> (- 1, release p c))"

text \<open>\<open>_cmd8\<close>: the four bytes behind the response are all stored at the index \<open>i\<close>, the number of the try, of an array of
  five bytes, and the first of the array is returned.\<close>

primrec cmd8_loop :: "'c spi \<Rightarrow> nat \<Rightarrow> nat \<Rightarrow> 'c \<Rightarrow> (int \<times> 'c) option" where
  "cmd8_loop p 0 i c = Some (- 1, release p c)"
| "cmd8_loop p (Suc k) i c =
     (let (r, c) = xfer p 0xFF c in
      if r AND 0x80 = 0 then
        let (rs, c) = recv_bytes p 4 c in
        if i < 5 then Some (uint (([r, 0, 0, 0, 0])[i := last rs] ! 0) :: int, release p c) else None
      else cmd8_loop p k (i + 1) c)"

definition sd_cmd8 :: "'c spi \<Rightarrow> 'c \<Rightarrow> (int \<times> 'c) option" where
  "sd_cmd8 p c = cmd8_loop p (SD_COMMAND_TIMEOUT * 1000) 0 (send_bytes p [0x48, 0x00, 0x00, 0x01, 0xAA, 0x87] (select p False c))"

section \<open>Blocks of data\<close>

text \<open>Waiting for the start of a block, and for the end of a write.\<close>

partial_function (option) wait_token :: "'c spi \<Rightarrow> 'c \<Rightarrow> 'c option" where
  "wait_token p c = (let (r, c) = xfer p 0xFF c in if r = 0xFE then Some c else wait_token p c)"

partial_function (option) wait_busy :: "'c spi \<Rightarrow> 'c \<Rightarrow> 'c option" where
  "wait_busy p c = (let (r, c) = xfer p 0xFF c in if r = 0 then wait_busy p c else Some c)"

definition sd_read :: "'c spi \<Rightarrow> nat \<Rightarrow> 'c \<Rightarrow> (bytes \<times> 'c) option" where
  "sd_read p len c = do {
     c \<leftarrow> wait_token p (select p False c);
     let (bs, c) = recv_bytes p len c;
     let c = snd (recv_bytes p 2 c);
     Some (bs, release p c)
   }"

definition sd_write :: "'c spi \<Rightarrow> bytes \<Rightarrow> nat \<Rightarrow> 'c \<Rightarrow> (int \<times> 'c) option" where
  "sd_write p buffer len c = do {
     d \<leftarrow> rd_bytes buffer 0 (int len);
     let c = send_bytes p (0xFE # d @ [0xFF, 0xFF]) (select p False c);
     let (r, c) = xfer p 0xFF c;
     if r AND 0x1F \<noteq> 5 then Some (1, release p c)
     else do {
       c \<leftarrow> wait_busy p c;
       Some (0, release p c)
     }
   }"

section \<open>The size of the card\<close>

text \<open>The bits \<open>msb\<close> down to \<open>lsb\<close> of the 128 bits of the register, whose first byte is the highest.\<close>

primrec bits_loop :: "bytes \<Rightarrow> nat \<Rightarrow> nat \<Rightarrow> int" where
  "bits_loop d lsb 0 = 0"
| "bits_loop d lsb (Suc k) =
     bits_loop d lsb k OR push_bit k (uint (drop_bit ((lsb + k) mod 8) (d ! (15 - (lsb + k) div 8)) AND 1))"

definition ext_bits :: "bytes \<Rightarrow> nat \<Rightarrow> nat \<Rightarrow> int" where
  "ext_bits d msb lsb = bits_loop d lsb (1 + msb - lsb)"

text \<open>C's division rounds towards zero; \<open>capacity\<close> is kept in 32 bits.\<close>

definition int_div :: "int \<Rightarrow> int \<Rightarrow> int" where
  "int_div a b = sgn a * (\<bar>a\<bar> div b)"

definition s32_of :: "int \<Rightarrow> int" where
  "s32_of x = sint (word_of_int x :: u32)"

text \<open>The number of sectors, and the factor of addresses when the kind of the card is known.\<close>

definition csd_sectors :: "bytes \<Rightarrow> int \<times> u32 option" where
  "csd_sectors csd =
     (let v = ext_bits csd 127 126 in
      if v = 0 then
        let block_len = 2 ^ nat (ext_bits csd 83 80);
            mult = 2 ^ (nat (ext_bits csd 49 47) + 2);
            capacity = s32_of ((ext_bits csd 73 62 + 1) * mult * block_len)
        in (int_div capacity 512, Some 512)
      else if v = 1 then ((ext_bits csd 63 48 + 1) * 1024, Some 1)
      else (0, None))"

section \<open>The driver\<close>

text \<open>A mutex of the RTOS: whether another thread has it, and how often this one has taken it. Releasing a mutex that is not
  taken is an error that the code does not look at.\<close>

record mutex =
  mtx_other :: bool
  mtx_level :: nat

definition trylock :: "mutex \<Rightarrow> bool \<times> mutex" where
  "trylock m = (if mtx_other m then (False, m) else (True, m\<lparr>mtx_level := mtx_level m + 1\<rparr>))"

definition unlock :: "mutex \<Rightarrow> mutex" where
  "unlock m = m\<lparr>mtx_level := mtx_level m - 1\<rparr>"

record 'c sdCard =
  dev :: 'c
  cdv :: u32
  sd_sectors :: int
  cmtx :: mutex

definition sd_count_sectors :: "'c spi \<Rightarrow> 'c sdCard \<Rightarrow> (int \<times> 'c sdCard) option" where
  "sd_count_sectors p s =
     (let (r, c) = sd_cmdx p 9 0 (dev s) in
      if r \<noteq> 0 then Some (0, s\<lparr>dev := c\<rparr>)
      else do {
        (csd, c) \<leftarrow> sd_read p 16 c;
        (case csd_sectors csd of
           (n, Some f) \<Rightarrow> Some (n, s\<lparr>dev := c, cdv := f\<rparr>)
         | (n, None) \<Rightarrow> Some (n, s\<lparr>dev := c\<rparr>))
      })"

primrec init_v1_loop :: "'c spi \<Rightarrow> nat \<Rightarrow> 'c sdCard \<Rightarrow> int \<times> 'c sdCard" where
  "init_v1_loop p 0 s = (SDCARD_FAIL, s)"
| "init_v1_loop p (Suc k) s =
     (let (_, c) = sd_cmd p 55 0 (dev s); (r, c) = sd_cmd p 41 0 c in
      if r = 0 then (SDCARD_V1, s\<lparr>dev := c, cdv := 512\<rparr>) else init_v1_loop p k (s\<lparr>dev := c\<rparr>))"

primrec init_v2_loop :: "'c spi \<Rightarrow> nat \<Rightarrow> 'c sdCard \<Rightarrow> int \<times> 'c sdCard" where
  "init_v2_loop p 0 s = (SDCARD_FAIL, s)"
| "init_v2_loop p (Suc k) s =
     (let (_, c) = sd_cmd58 p (dev s); (_, c) = sd_cmd p 55 0 c; (r, c) = sd_cmd p 41 0x40000000 c in
      if r = 0 then (SDCARD_V2, s\<lparr>dev := snd (sd_cmd58 p c), cdv := 1\<rparr>) else init_v2_loop p k (s\<lparr>dev := c\<rparr>))"

definition initialise_card :: "'c spi \<Rightarrow> 'c sdCard \<Rightarrow> (int \<times> 'c sdCard) option" where
  "initialise_card p s =
     (let c = send_bytes p (replicate 16 0xFF) (select p True (dev s)); (r, c) = sd_cmd p 0 0 c in
      if r \<noteq> R1_IDLE_STATE then Some (SDCARD_FAIL, s\<lparr>dev := c\<rparr>)
      else do {
        (r, c) \<leftarrow> sd_cmd8 p c;
        if r = R1_IDLE_STATE then Some (init_v2_loop p SD_COMMAND_TIMEOUT (s\<lparr>dev := c\<rparr>))
        else if r = R1_IDLE_STATE OR R1_ILLEGAL_COMMAND then Some (init_v1_loop p SD_COMMAND_TIMEOUT (s\<lparr>dev := c\<rparr>))
        else Some (SDCARD_FAIL, s\<lparr>dev := c\<rparr>)
      })"

definition disk_initialize :: "'c spi \<Rightarrow> 'c sdCard \<Rightarrow> (int \<times> 'c sdCard) option" where
  "disk_initialize p s = do {
     (_, s) \<leftarrow> initialise_card p s;
     (n, s) \<leftarrow> sd_count_sectors p s;
     let (r, c) = sd_cmd p 16 512 (dev s);
     Some (if r \<noteq> 0 then 1 else 0, s\<lparr>dev := c, sd_sectors := n\<rparr>)
   }"

text \<open>Both leave the mutex taken when the card refuses the command, and the outcome of \<open>_write\<close> is dropped.\<close>

definition disk_write :: "'c spi \<Rightarrow> bytes \<Rightarrow> int \<Rightarrow> 'c sdCard \<Rightarrow> (int \<times> 'c sdCard) option" where
  "disk_write p buffer n s =
     (let (free, m) = trylock (cmtx s) in
      if free then
        let (r, c) = sd_cmd p 24 (word_of_int n * cdv s) (dev s) in
        if r \<noteq> 0 then Some (- 1, s\<lparr>dev := c, cmtx := m\<rparr>)
        else do {
          (_, c) \<leftarrow> sd_write p buffer 512 c;
          Some (0, s\<lparr>dev := c, cmtx := unlock m\<rparr>)
        }
      else Some (- 1, s))"

definition disk_read :: "'c spi \<Rightarrow> bytes \<Rightarrow> int \<Rightarrow> 'c sdCard \<Rightarrow> (int \<times> bytes \<times> 'c sdCard) option" where
  "disk_read p buffer n s =
     (let (free, m) = trylock (cmtx s) in
      if free then
        let (r, c) = sd_cmd p 17 (word_of_int n * cdv s) (dev s) in
        if r \<noteq> 0 then Some (- 1, buffer, s\<lparr>dev := c, cmtx := m\<rparr>)
        else do {
          (bs, c) \<leftarrow> sd_read p 512 c;
          buffer \<leftarrow> wr_bytes buffer 0 bs;
          Some (0, buffer, s\<lparr>dev := c, cmtx := unlock m\<rparr>)
        }
      else Some (- 1, buffer, s))"

section \<open>What a card does\<close>

text \<open>Bytes out and bytes back.\<close>

primrec talk :: "'c spi \<Rightarrow> bytes \<Rightarrow> 'c \<Rightarrow> bytes \<times> 'c" where
  "talk p [] c = ([], c)"
| "talk p (w # ws) c = (let (r, c) = xfer p w c; (rs, c) = talk p ws c in (r # rs, c))"

lemma talk_append: "talk p a c = (r, d) \<Longrightarrow> talk p b d = (s, e) \<Longrightarrow> talk p (a @ b) c = (r @ s, e)"
  by (induction a arbitrary: c r) (auto simp: Let_def split: prod.splits)

lemma talk_length: "talk p ws c = (rs, c') \<Longrightarrow> length rs = length ws"
  by (induction ws arbitrary: c rs c') (auto simp: Let_def split: prod.splits)

lemma send_talk: "send_bytes p ws c = snd (talk p ws c)"
  by (induction ws arbitrary: c) (auto simp: Let_def split: prod.splits)

lemma recv_talk: "recv_bytes p k c = talk p (replicate k 0xFF) c"
  by (induction k arbitrary: c) (auto simp: Let_def split: prod.splits)

lemma wait_resp_talk:
  assumes "talk p (replicate (length qs + 1) 0xFF) c = (qs @ [r], c')" and "\<forall>q\<in>set qs. q AND 0x80 \<noteq> 0" and "r AND 0x80 = 0" and "length qs < k"
  shows "wait_resp p k c = (Some r, c')"
  using assms
proof (induction qs arbitrary: c k)
  case Nil
  then show ?case by (cases k) (auto simp: Let_def split: prod.splits)
next
  case (Cons q qs)
  then obtain j where k: "k = Suc j" by (cases k) auto
  obtain c1 where c1: "xfer p 0xFF c = (q, c1)" "talk p (replicate (length qs + 1) 0xFF) c1 = (qs @ [r], c')"
    using Cons.prems(1) by (auto simp: Let_def split: prod.splits)
  show ?case using Cons.IH [OF c1(2), of j] Cons.prems k c1(1) by simp
qed

lemma wait_token_talk:
  assumes "talk p (replicate (length ts + 1) 0xFF) c = (ts @ [0xFE], c')" and "0xFE \<notin> set ts"
  shows "wait_token p c = Some c'"
  using assms
proof (induction ts arbitrary: c)
  case Nil
  then show ?case by (subst wait_token.simps) (auto simp: Let_def split: prod.splits)
next
  case (Cons t ts)
  obtain c1 where c1: "xfer p 0xFF c = (t, c1)" "talk p (replicate (length ts + 1) 0xFF) c1 = (ts @ [0xFE], c')"
    using Cons.prems(1) by (auto simp: Let_def split: prod.splits)
  show ?case using Cons.IH [OF c1(2)] Cons.prems(2) c1(1) by (subst wait_token.simps) auto
qed

lemma wait_busy_talk:
  assumes "talk p (replicate (m + 1) 0xFF) c = (replicate m 0 @ [r], c')" and "r \<noteq> 0"
  shows "wait_busy p c = Some c'"
  using assms
proof (induction m arbitrary: c)
  case 0
  then show ?case by (subst wait_busy.simps) (auto simp: Let_def split: prod.splits)
next
  case (Suc m)
  obtain c1 where c1: "xfer p 0xFF c = (0, c1)" "talk p (replicate (m + 1) 0xFF) c1 = (replicate m 0 @ [r], c')"
    using Suc.prems(1) by (auto simp: Let_def split: prod.splits)
  show ?case using Suc.IH [OF c1(2)] Suc.prems(2) c1(1) by (subst wait_busy.simps) auto
qed

text \<open>The driver with a card, when no other thread has its mutex. \<open>u\<close> is the factor of addresses.\<close>

definition card_ok :: "('c \<Rightarrow> bool) \<Rightarrow> u32 \<Rightarrow> 'c sdCard \<Rightarrow> bool" where
  "card_ok ready u s \<longleftrightarrow> ready (dev s) \<and> cdv s = u \<and> \<not> mtx_other (cmtx s)"

text \<open>A card that is ready keeps blocks of 512 bytes. It accepts a command after a few clocks, by a zero; it sends a block behind
  the start byte, and takes one that follows a start byte, is busy for a while, and has it then. \<open>u\<close> is the factor of addresses.\<close>

locale sd_protocol =
  fixes p :: "'c spi" and ready :: "'c \<Rightarrow> bool" and blk :: "'c \<Rightarrow> nat \<Rightarrow> bytes" and nblk :: nat and u :: u32
  assumes blk_length: "ready c \<Longrightarrow> n < nblk \<Longrightarrow> length (blk c n) = 512"
    and read_block: "ready c \<Longrightarrow> n < nblk \<Longrightarrow> \<exists>qs c1 ts crc c2.
      talk p (replicate (length qs + 1) 0xFF) (snd (talk p (cmd_bytes 17 (of_nat n * u)) (select p False c))) = (qs @ [0], c1) \<and>
      length qs < 8 \<and> (\<forall>q\<in>set qs. q AND 0x80 \<noteq> 0) \<and>
      talk p (replicate (length ts + 515) 0xFF) (select p False (release p c1)) = (ts @ 0xFE # blk c n @ crc, c2) \<and> length crc = 2 \<and>
      0xFE \<notin> set ts \<and> ready (release p c2) \<and> blk (release p c2) = blk c"
    and write_block: "ready c \<Longrightarrow> n < nblk \<Longrightarrow> length d = 512 \<Longrightarrow> \<exists>qs c1 r m x c2.
      talk p (replicate (length qs + 1) 0xFF) (snd (talk p (cmd_bytes 24 (of_nat n * u)) (select p False c))) = (qs @ [0], c1) \<and>
      length qs < 8 \<and> (\<forall>q\<in>set qs. q AND 0x80 \<noteq> 0) \<and>
      talk p (replicate (m + 2) 0xFF) (snd (talk p (0xFE # d @ [0xFF, 0xFF]) (select p False (release p c1)))) = (r # replicate m 0 @ [x], c2) \<and>
      r AND 0x1F = 5 \<and> x \<noteq> 0 \<and> ready (release p c2) \<and> blk (release p c2) = (blk c)(n := d)"
begin

lemma sd_cmd_ok:
  assumes "talk p (replicate (length qs + 1) 0xFF) (snd (talk p (cmd_bytes cmd arg) (select p False c))) = (qs @ [0], c1)"
    and "length qs < 8" and "\<forall>q\<in>set qs. q AND 0x80 \<noteq> 0"
  shows "sd_cmd p cmd arg c = (0, release p c1)"
  using wait_resp_talk [OF assms(1,3), of SD_COMMAND_TIMEOUT] assms(2) by (simp add: sd_cmd_def send_talk SD_COMMAND_TIMEOUT_def)

lemma sd_read_ok:
  assumes "talk p (replicate (length ts + 515) 0xFF) (select p False c) = (ts @ 0xFE # b @ crc, c2)" and "length crc = 2" and "length b = 512" and "0xFE \<notin> set ts"
  shows "sd_read p 512 c = Some (b, release p c2)"
proof -
  have s: "replicate (length ts + 515) (0xFF :: u8) = replicate (length ts + 1) 0xFF @ replicate 512 0xFF @ replicate 2 0xFF"
    unfolding replicate_add [symmetric] by simp
  obtain r1 d1 where r1: "talk p (replicate (length ts + 1) 0xFF) (select p False c) = (r1, d1)" by fastforce
  obtain r2 d2 where r2: "talk p (replicate 512 0xFF) d1 = (r2, d2)" by fastforce
  obtain r3 d3 where r3: "talk p (replicate 2 0xFF) d2 = (r3, d3)" by fastforce
  have e: "r1 @ r2 @ r3 = (ts @ [0xFE]) @ b @ crc" "d3 = c2"
    using assms(1) unfolding s talk_append [OF r1 talk_append [OF r2 r3]] by simp_all
  have l: "length r1 = length (ts @ [0xFE])" "length r2 = length b" "length r3 = length crc"
    using talk_length [OF r1] talk_length [OF r2] talk_length [OF r3] assms(2,3) by simp_all
  have e1: "r1 = ts @ [0xFE]" and e2: "r2 @ r3 = b @ crc" using e(1) append_eq_append_conv [OF disjI1 [OF l(1)]] by blast+
  have e3: "r2 = b" using e2 append_eq_append_conv [OF disjI1 [OF l(2)]] by blast
  have "wait_token p (select p False c) = Some d1" by (rule wait_token_talk [OF r1 [unfolded e1] assms(4)])
  then show ?thesis using r2 r3 e(2) e3 by (simp add: sd_read_def recv_talk)
qed

lemma sd_write_ok:
  assumes "talk p (replicate (m + 2) 0xFF) (snd (talk p (0xFE # d @ [0xFF, 0xFF]) (select p False c))) = (r # replicate m 0 @ [x], c2)"
    and "r AND 0x1F = 5" and "x \<noteq> 0" and "length d = 512"
  shows "sd_write p d 512 c = Some (0, release p c2)"
proof -
  let ?c = "snd (talk p (0xFE # d @ [0xFF, 0xFF]) (select p False c))"
  obtain c1 where c1: "xfer p 0xFF ?c = (r, c1)" "talk p (replicate (m + 1) 0xFF) c1 = (replicate m 0 @ [x], c2)"
    using assms(1) by (auto simp: Let_def split: prod.splits)
  have "rd_bytes d 0 (int 512) = Some d" using assms(4) by (simp add: rd_bytes_def)
  then show ?thesis using c1(1) wait_busy_talk [OF c1(2) assms(3)] assms(2) unfolding sd_write_def send_talk by simp
qed

lemma disk_read_ok:
  assumes ok: "card_ok ready u s" and n: "n < nblk" and b: "length buffer = 512"
  shows "\<exists>s'. disk_read p buffer (int n) s = Some (0, blk (dev s) n, s') \<and> card_ok ready u s' \<and> blk (dev s') = blk (dev s)"
proof -
  have r: "ready (dev s)" and o: "\<not> mtx_other (cmtx s)" and u: "cdv s = u" using ok by (simp_all add: card_ok_def)
  obtain qs c1 ts crc c2 where
    q: "talk p (replicate (length qs + 1) 0xFF) (snd (talk p (cmd_bytes 17 (of_nat n * u)) (select p False (dev s)))) = (qs @ [0], c1)"
      "length qs < 8" "\<forall>q\<in>set qs. q AND 0x80 \<noteq> 0" and
    t: "talk p (replicate (length ts + 515) 0xFF) (select p False (release p c1)) = (ts @ 0xFE # blk (dev s) n @ crc, c2)" "length crc = 2"
      "0xFE \<notin> set ts" and f: "ready (release p c2)" "blk (release p c2) = blk (dev s)"
    using read_block [OF r n] by blast
  have c: "sd_cmd p 17 (word_of_int (int n) * cdv s) (dev s) = (0, release p c1)" using sd_cmd_ok [OF q] u by simp
  have l: "length (blk (dev s) n) = 512" by (rule blk_length [OF r n])
  have d: "sd_read p 512 (release p c1) = Some (blk (dev s) n, release p c2)" by (rule sd_read_ok [OF t(1,2) l t(3)])
  have w: "wr_bytes buffer 0 (blk (dev s) n) = Some (blk (dev s) n)" using b l by (simp add: wr_bytes_def)
  show ?thesis using c d w o f u by (simp add: disk_read_def trylock_def unlock_def card_ok_def)
qed

lemma disk_write_ok:
  assumes ok: "card_ok ready u s" and n: "n < nblk" and b: "length d = 512"
  shows "\<exists>s'. disk_write p d (int n) s = Some (0, s') \<and> card_ok ready u s' \<and> blk (dev s') = (blk (dev s))(n := d)"
proof -
  have r: "ready (dev s)" and o: "\<not> mtx_other (cmtx s)" and u: "cdv s = u" using ok by (simp_all add: card_ok_def)
  obtain qs c1 r1 m x c2 where
    q: "talk p (replicate (length qs + 1) 0xFF) (snd (talk p (cmd_bytes 24 (of_nat n * u)) (select p False (dev s)))) = (qs @ [0], c1)"
      "length qs < 8" "\<forall>q\<in>set qs. q AND 0x80 \<noteq> 0" and
    t: "talk p (replicate (m + 2) 0xFF) (snd (talk p (0xFE # d @ [0xFF, 0xFF]) (select p False (release p c1)))) = (r1 # replicate m 0 @ [x], c2)"
      "r1 AND 0x1F = 5" "x \<noteq> 0" and f: "ready (release p c2)" "blk (release p c2) = (blk (dev s))(n := d)"
    using write_block [OF r n b] by blast
  have c: "sd_cmd p 24 (word_of_int (int n) * cdv s) (dev s) = (0, release p c1)" using sd_cmd_ok [OF q] u by simp
  have w: "sd_write p d 512 (release p c1) = Some (0, release p c2)" by (rule sd_write_ok [OF t b])
  show ?thesis using c w o f u by (simp add: disk_write_def trylock_def unlock_def card_ok_def)
qed

end

end
