(* ===== verification/Sd_Sim.thy ===== *)
theory Sd_Sim
  imports Sd_Card
begin

text \<open>
  A card in software, of high capacity: it answers the commands of the driver as the SD specification says, keeps 4096 blocks, and
  satisfies the interface \<open>sd_protocol\<close>. It is what the applications of the storage properties run on.
\<close>

record sim =
  sim_blk :: "nat \<Rightarrow> bytes"
  outq :: bytes
  inq :: bytes
  expect :: "nat option"

definition sim_csd :: bytes where
  "sim_csd = [0x40, 0, 0, 0, 0, 0, 0, 0, 0, 3, 0, 0, 0, 0, 0, 0]"

definition sim_arg :: "bytes \<Rightarrow> u32" where
  "sim_arg q = push_bit 24 (ucast (q ! 1)) OR push_bit 16 (ucast (q ! 2)) OR push_bit 8 (ucast (q ! 3)) OR ucast (q ! 4)"

definition sim_exec :: "bytes \<Rightarrow> sim \<Rightarrow> sim" where
  "sim_exec q s =
     (let a = unat (sim_arg q) in
      if hd q = 0x51 then s\<lparr>outq := [0xFF, 0, 0xFF, 0xFF, 0xFE] @ sim_blk s a @ [0, 0]\<rparr>
      else if hd q = 0x58 then s\<lparr>outq := [0xFF, 0, 0xFF], expect := Some a\<rparr>
      else if hd q = 0x48 then s\<lparr>outq := [0xFF, 1, 0, 0, 1, 0xAA]\<rparr>
      else if hd q = 0x7A then s\<lparr>outq := [0xFF, 0, 0xC0, 0xFF, 0x80, 0]\<rparr>
      else if hd q = 0x49 then s\<lparr>outq := [0xFF, 0, 0xFF, 0xFE] @ sim_csd @ [0, 0]\<rparr>
      else if hd q = 0x40 \<or> hd q = 0x77 then s\<lparr>outq := [0xFF, 1]\<rparr>
      else s\<lparr>outq := [0xFF, 0]\<rparr>)"

definition sim_xfer :: "u8 \<Rightarrow> sim \<Rightarrow> u8 \<times> sim" where
  "sim_xfer w s =
     (if outq s \<noteq> [] then (hd (outq s), s\<lparr>outq := tl (outq s)\<rparr>)
      else case expect s of
        Some n \<Rightarrow>
          if inq s = [] \<and> w \<noteq> 0xFE then (0xFF, s)
          else if length (inq s) = 514 then
            (0xFF, s\<lparr>sim_blk := (sim_blk s)(n := take 512 (tl (inq s))), inq := [], expect := None, outq := [0xE5, 0, 0, 0xFF]\<rparr>)
          else (0xFF, s\<lparr>inq := inq s @ [w]\<rparr>)
      | None \<Rightarrow>
          if inq s = [] \<and> w = 0xFF then (0xFF, s)
          else if length (inq s) = 5 then (0xFF, sim_exec (inq s @ [w]) (s\<lparr>inq := []\<rparr>))
          else (0xFF, s\<lparr>inq := inq s @ [w]\<rparr>))"

definition sim_spi :: "sim spi" where
  "sim_spi = \<lparr>xfer = sim_xfer, select = \<lambda>_ s. s\<rparr>"

definition sim_ready :: "sim \<Rightarrow> bool" where
  "sim_ready s \<longleftrightarrow> outq s = [] \<and> inq s = [] \<and> expect s = None \<and> (\<forall>n. length (sim_blk s n) = 512)"

lemma sim_arg_cmd: "sim_arg (cmd_bytes cmd a) = a"
proof (rule bit_word_eqI)
  fix n assume "n < LENGTH(32)"
  then have n: "n < 32" by simp
  consider "n < 8" | "8 \<le> n \<and> n < 16" | "16 \<le> n \<and> n < 24" | "24 \<le> n" by linarith
  then show "bit (sim_arg (cmd_bytes cmd a)) n = bit a n"
    by cases (use n in \<open>auto simp: sim_arg_def cmd_bytes_def bit_simps\<close>)
qed

lemma talk_out:
  assumes "outq s = q @ r"
  shows "talk sim_spi (replicate (length q) 0xFF) s = (q, s\<lparr>outq := r\<rparr>)"
  using assms
proof (induction q arbitrary: s)
  case (Cons x q)
  have "talk sim_spi (replicate (length q) 0xFF) (s\<lparr>outq := q @ r\<rparr>) = (q, (s\<lparr>outq := q @ r\<rparr>)\<lparr>outq := r\<rparr>)" by (rule Cons.IH) simp
  then show ?case using Cons.prems by (simp add: sim_spi_def sim_xfer_def)
qed simp

lemma talk_cmd:
  assumes "sim_ready s" and "0x40 OR cmd \<noteq> 0xFF"
  shows "snd (talk sim_spi (cmd_bytes cmd a) s) = sim_exec (cmd_bytes cmd a) s"
proof -
  have "s\<lparr>inq := []\<rparr> = s" using assms(1) by (cases s) (simp add: sim_ready_def)
  moreover have "snd (talk sim_spi (cmd_bytes cmd a) s) = sim_exec (cmd_bytes cmd a) (s\<lparr>inq := []\<rparr>)"
    using assms by (simp add: cmd_bytes_def sim_spi_def sim_xfer_def sim_ready_def)
  ultimately show ?thesis by (simp only:)
qed

lemma talk_data:
  assumes "outq s = []" and "expect s = Some n" and "inq s \<noteq> []" and "length (inq s) + length d \<le> 514"
  shows "snd (talk sim_spi d s) = s\<lparr>inq := inq s @ d\<rparr>"
  using assms
proof (induction d arbitrary: s)
  case (Cons x d)
  have "snd (talk sim_spi d (s\<lparr>inq := inq s @ [x]\<rparr>)) = (s\<lparr>inq := inq s @ [x]\<rparr>)\<lparr>inq := (inq s @ [x]) @ d\<rparr>"
    using Cons.prems Cons.IH [of "s\<lparr>inq := inq s @ [x]\<rparr>"] by simp
  then show ?case using Cons.prems by (simp add: sim_spi_def sim_xfer_def case_prod_unfold)
qed simp

lemma sim_release [simp]: "release sim_spi s = snd (sim_xfer 0xFF s)" and sim_select [simp]: "select sim_spi b s = s"
  by (simp_all add: release_def sim_spi_def)

lemma sim_ready_upd: "sim_ready s \<Longrightarrow> s\<lparr>outq := []\<rparr> = s" "sim_ready s \<Longrightarrow> s\<lparr>inq := [], expect := None, outq := []\<rparr> = s"
  by (cases s; simp add: sim_ready_def)+

text \<open>One read and one write of a block.\<close>

lemma sim_read:
  assumes r: "sim_ready s"
  shows "\<exists>qs c1 ts crc c2.
      talk sim_spi (replicate (length qs + 1) 0xFF) (snd (talk sim_spi (cmd_bytes 17 (of_nat n * 1)) (select sim_spi False s))) = (qs @ [0], c1) \<and>
      length qs < 8 \<and> (\<forall>q\<in>set qs. q AND 0x80 \<noteq> 0) \<and>
      talk sim_spi (replicate (length ts + 515) 0xFF) (select sim_spi False (release sim_spi c1)) = (ts @ 0xFE # sim_blk s (unat (of_nat n :: u32)) @ crc, c2) \<and>
      length crc = 2 \<and> 0xFE \<notin> set ts \<and> sim_ready (release sim_spi c2) \<and> sim_blk (release sim_spi c2) = sim_blk s"
proof -
  let ?b = "sim_blk s (unat (of_nat n :: u32))" and ?q = "cmd_bytes 17 (of_nat n)"
  have l: "length ?b = 512" using r by (simp add: sim_ready_def)
  have e: "snd (talk sim_spi ?q s) = s\<lparr>outq := [0xFF, 0, 0xFF, 0xFF, 0xFE] @ ?b @ [0, 0]\<rparr>"
    using talk_cmd [OF r, of 17 "of_nat n"] by (simp add: sim_exec_def sim_arg_cmd) (simp add: cmd_bytes_def)
  let ?c1 = "s\<lparr>outq := [0xFF, 0xFF, 0xFE] @ ?b @ [0, 0]\<rparr>"
  have t1: "talk sim_spi (replicate (length [0xFF :: u8] + 1) 0xFF) (snd (talk sim_spi ?q s)) = ([0xFF] @ [0], ?c1)"
    unfolding e using talk_out [of "s\<lparr>outq := [0xFF, 0, 0xFF, 0xFF, 0xFE] @ ?b @ [0, 0]\<rparr>" "[0xFF, 0]"] by simp
  let ?c2 = "s\<lparr>outq := [0xFF, 0xFE] @ ?b @ [0, 0]\<rparr>"
  have c2: "release sim_spi ?c1 = ?c2" by (simp add: sim_xfer_def)
  have len: "length ([0xFF, 0xFE] @ ?b @ [0, 0]) = length [0xFF :: u8] + 515" using l by simp
  have t2: "talk sim_spi (replicate (length [0xFF :: u8] + 515) 0xFF) ?c2 = ([0xFF] @ 0xFE # ?b @ [0, 0], s)"
    using talk_out [of ?c2 "[0xFF, 0xFE] @ ?b @ [0, 0]" "[]"] sim_ready_upd(1) [OF r] unfolding len by simp
  have f: "release sim_spi s = s" using r by (simp add: sim_xfer_def sim_ready_def)
  show ?thesis
    by (rule exI [of _ "[0xFF]"], rule exI [of _ ?c1], rule exI [of _ "[0xFF]"], rule exI [of _ "[0, 0]"], rule exI [of _ s])
      (use t1 t2 c2 f r in simp)
qed

lemma sim_write:
  assumes r: "sim_ready s" and d: "length d = 512"
  shows "\<exists>qs c1 r m x c2.
      talk sim_spi (replicate (length qs + 1) 0xFF) (snd (talk sim_spi (cmd_bytes 24 (of_nat n * 1)) (select sim_spi False s))) = (qs @ [0], c1) \<and>
      length qs < 8 \<and> (\<forall>q\<in>set qs. q AND 0x80 \<noteq> 0) \<and>
      talk sim_spi (replicate (m + 2) 0xFF) (snd (talk sim_spi (0xFE # d @ [0xFF, 0xFF]) (select sim_spi False (release sim_spi c1)))) = (r # replicate m 0 @ [x], c2) \<and>
      r AND 0x1F = 5 \<and> x \<noteq> 0 \<and> sim_ready (release sim_spi c2) \<and> sim_blk (release sim_spi c2) = (sim_blk s)(unat (of_nat n :: u32) := d)"
proof -
  let ?n = "unat (of_nat n :: u32)" and ?q = "cmd_bytes 24 (of_nat n)"
  have e: "snd (talk sim_spi ?q s) = s\<lparr>outq := [0xFF, 0, 0xFF], expect := Some ?n\<rparr>"
    using talk_cmd [OF r, of 24 "of_nat n"] by (simp add: sim_exec_def sim_arg_cmd) (simp add: cmd_bytes_def)
  let ?c1 = "s\<lparr>outq := [0xFF], expect := Some ?n\<rparr>"
  have t1: "talk sim_spi (replicate (length [0xFF :: u8] + 1) 0xFF) (snd (talk sim_spi ?q s)) = ([0xFF] @ [0], ?c1)"
    unfolding e using talk_out [of "s\<lparr>outq := [0xFF, 0, 0xFF], expect := Some ?n\<rparr>" "[0xFF, 0]"] by simp
  let ?c2 = "s\<lparr>outq := [], expect := Some ?n\<rparr>"
  have c2: "release sim_spi ?c1 = ?c2" by (simp add: sim_xfer_def)
  let ?c3 = "s\<lparr>outq := [], expect := Some ?n, inq := [0xFE]\<rparr>" and ?c4 = "s\<lparr>outq := [], expect := Some ?n, inq := 0xFE # d @ [0xFF]\<rparr>"
  have i: "inq s = []" using r by (simp add: sim_ready_def)
  have a1: "talk sim_spi [0xFE] ?c2 = ([0xFF], ?c3)" using i by (simp add: sim_spi_def sim_xfer_def)
  have "snd (talk sim_spi (d @ [0xFF]) ?c3) = ?c4" using talk_data [of ?c3 ?n "d @ [0xFF]"] d by simp
  then obtain rs where a2: "talk sim_spi (d @ [0xFF]) ?c3 = (rs, ?c4)" by (metis prod.collapse)
  let ?s = "s\<lparr>sim_blk := (sim_blk s)(?n := d)\<rparr>"
  let ?c5 = "?s\<lparr>outq := [0xE5, 0, 0, 0xFF]\<rparr>"
  have a3: "talk sim_spi [0xFF] ?c4 = ([0xFF], ?c5)" using d r by (cases s) (simp add: sim_spi_def sim_xfer_def sim_ready_def)
  have "snd (talk sim_spi ([0xFE] @ (d @ [0xFF]) @ [0xFF]) ?c2) = ?c5" unfolding talk_append [OF a1 talk_append [OF a2 a3]] by simp
  then have t2: "snd (talk sim_spi (0xFE # d @ [0xFF, 0xFF]) ?c2) = ?c5" by simp
  have r': "sim_ready ?s" using r d by (simp add: sim_ready_def)
  have t3: "talk sim_spi (replicate (2 + 2) 0xFF) ?c5 = (0xE5 # replicate 2 0 @ [0xFF], ?s)"
    using talk_out [of ?c5 "[0xE5, 0, 0, 0xFF]" "[]"] sim_ready_upd(1) [OF r'] by (simp add: numeral_2_eq_2)
  have f: "release sim_spi ?s = ?s" using r' by (simp add: sim_xfer_def sim_ready_def)
  show ?thesis
    by (rule exI [of _ "[0xFF]"], rule exI [of _ ?c1], rule exI [of _ "0xE5"], rule exI [of _ 2], rule exI [of _ "0xFF"], rule exI [of _ ?s])
      (use t1 t2 t3 c2 f r' in simp)
qed

interpretation sim: sd_protocol sim_spi sim_ready sim_blk 4096 1
proof
  have n: "unat (of_nat n :: u32) = n" if "n < 4096" for n using that by (intro unat_of_nat_lt) simp
  show "length (sim_blk c n) = 512" if "sim_ready c" for c n using that by (simp add: sim_ready_def)
  fix c n assume c: "sim_ready c" "n < (4096 :: nat)"
  show "\<exists>qs c1 ts crc c2.
      talk sim_spi (replicate (length qs + 1) 0xFF) (snd (talk sim_spi (cmd_bytes 17 (of_nat n * 1)) (select sim_spi False c))) = (qs @ [0], c1) \<and>
      length qs < 8 \<and> (\<forall>q\<in>set qs. q AND 0x80 \<noteq> 0) \<and>
      talk sim_spi (replicate (length ts + 515) 0xFF) (select sim_spi False (release sim_spi c1)) = (ts @ 0xFE # sim_blk c n @ crc, c2) \<and>
      length crc = 2 \<and> 0xFE \<notin> set ts \<and> sim_ready (release sim_spi c2) \<and> sim_blk (release sim_spi c2) = sim_blk c"
    using sim_read [OF c(1), of n] unfolding n [OF c(2)] .
  fix d :: bytes assume d: "length d = 512"
  show "\<exists>qs c1 r m x c2.
      talk sim_spi (replicate (length qs + 1) 0xFF) (snd (talk sim_spi (cmd_bytes 24 (of_nat n * 1)) (select sim_spi False c))) = (qs @ [0], c1) \<and>
      length qs < 8 \<and> (\<forall>q\<in>set qs. q AND 0x80 \<noteq> 0) \<and>
      talk sim_spi (replicate (m + 2) 0xFF) (snd (talk sim_spi (0xFE # d @ [0xFF, 0xFF]) (select sim_spi False (release sim_spi c1)))) = (r # replicate m 0 @ [x], c2) \<and>
      r AND 0x1F = 5 \<and> x \<noteq> 0 \<and> sim_ready (release sim_spi c2) \<and> sim_blk (release sim_spi c2) = (sim_blk c)(n := d)"
    using sim_write [OF c(1) d, of n] unfolding n [OF c(2)] .
qed

section \<open>The driver finds the card\<close>

lemma sim_idle: "sim_ready s \<Longrightarrow> send_bytes sim_spi (replicate k 0xFF) s = s"
  by (induction k) (simp_all add: sim_spi_def sim_xfer_def sim_ready_def)

lemma sim_release_idle: "sim_ready s \<Longrightarrow> snd (sim_xfer 0xFF s) = s"
  by (simp add: sim_xfer_def sim_ready_def)

lemma sim_sd_cmd:
  assumes r: "sim_ready s" and e: "sim_exec (cmd_bytes cmd a) s = s\<lparr>outq := [0xFF, r]\<rparr>" and c: "0x40 OR cmd \<noteq> 0xFF" and b: "r AND 0x80 = 0"
  shows "sd_cmd sim_spi cmd a s = (uint r, s)"
proof -
  have "talk sim_spi (replicate (length [0xFF :: u8] + 1) 0xFF) (s\<lparr>outq := [0xFF, r]\<rparr>) = ([0xFF] @ [r], s)"
    using talk_out [of "s\<lparr>outq := [0xFF, r]\<rparr>" "[0xFF, r]" "[]"] sim_ready_upd(1) [OF r] by simp
  then have "wait_resp sim_spi SD_COMMAND_TIMEOUT (s\<lparr>outq := [0xFF, r]\<rparr>) = (Some r, s)"
    by (rule wait_resp_talk) (simp_all add: b SD_COMMAND_TIMEOUT_def)
  then show ?thesis using talk_cmd [OF r c, of a] sim_release_idle [OF r] by (simp add: sd_cmd_def send_talk e)
qed

lemma sim_sd_cmd58:
  assumes r: "sim_ready s"
  shows "sd_cmd58 sim_spi s = (0, s)"
proof -
  let ?s = "s\<lparr>outq := [0xFF, 0, 0xC0, 0xFF, 0x80, 0]\<rparr>" and ?s1 = "s\<lparr>outq := [0xC0, 0xFF, 0x80, 0]\<rparr>"
  have e: "sim_exec (cmd_bytes 58 0) s = ?s" by (simp add: sim_exec_def cmd_bytes_def)
  have "talk sim_spi (replicate (length [0xFF :: u8] + 1) 0xFF) ?s = ([0xFF] @ [0], ?s1)" using talk_out [of ?s "[0xFF, 0]"] by simp
  then have w: "wait_resp sim_spi SD_COMMAND_TIMEOUT ?s = (Some 0, ?s1)" by (rule wait_resp_talk) (simp_all add: SD_COMMAND_TIMEOUT_def)
  have f: "talk sim_spi (replicate 4 0xFF) ?s1 = ([0xC0, 0xFF, 0x80, 0], s)"
    using talk_out [of ?s1 "[0xC0, 0xFF, 0x80, 0]" "[]"] sim_ready_upd(1) [OF r] by (simp add: eval_nat_numeral)
  show ?thesis using talk_cmd [OF r, of 58 0] w f sim_release_idle [OF r] unfolding sd_cmd58_def recv_talk send_talk by (simp add: e)
qed

text \<open>The answer to command 8 comes at the second try; then, and only then, the response that is returned is the one of the card.\<close>

lemma cmd8_second_try:
  assumes "xfer p 0xFF c = (x, c1)" "x AND 0x80 \<noteq> 0" "xfer p 0xFF c1 = (r, c2)" "r AND 0x80 = 0" "recv_bytes p 4 c2 = (rs, c3)"
  shows "cmd8_loop p (Suc (Suc k)) 0 c = Some (uint r, release p c3)"
  using assms by simp

text \<open>An answer at the first try is overwritten by the check pattern that follows it; later than at the fifth it destroys the stack.\<close>

lemma cmd8_first_try:
  assumes "xfer p 0xFF c = (r, c1)" "r AND 0x80 = 0" "recv_bytes p 4 c1 = (rs, c2)"
  shows "cmd8_loop p (Suc k) 0 c = Some (uint (last rs), release p c2)"
  using assms by simp

lemma cmd8_late:
  assumes "5 \<le> i" "xfer p 0xFF c = (r, c1)" "r AND 0x80 = 0"
  shows "cmd8_loop p (Suc k) i c = None"
  using assms by (simp add: Let_def split: prod.splits)

lemma sim_sd_cmd8:
  assumes r: "sim_ready s"
  shows "sd_cmd8 sim_spi s = Some (1, s)"
proof -
  let ?s = "s\<lparr>outq := [0xFF, 1, 0, 0, 1, 0xAA]\<rparr>" and ?s2 = "s\<lparr>outq := [0, 0, 1, 0xAA]\<rparr>"
  have i: "s\<lparr>inq := []\<rparr> = s" using r by (cases s) (simp add: sim_ready_def)
  have "send_bytes sim_spi [0x48, 0x00, 0x00, 0x01, 0xAA, 0x87] s = (s\<lparr>inq := []\<rparr>)\<lparr>outq := [0xFF, 1, 0, 0, 1, 0xAA]\<rparr>"
    using r by (simp add: sim_spi_def sim_xfer_def sim_ready_def sim_exec_def)
  then have e: "send_bytes sim_spi [0x48, 0x00, 0x00, 0x01, 0xAA, 0x87] s = ?s" unfolding i .
  have x: "xfer sim_spi 0xFF ?s = (0xFF, s\<lparr>outq := [1, 0, 0, 1, 0xAA]\<rparr>)" "xfer sim_spi 0xFF (s\<lparr>outq := [1, 0, 0, 1, 0xAA]\<rparr>) = (1, ?s2)"
    by (simp_all add: sim_spi_def sim_xfer_def)
  have f: "recv_bytes sim_spi 4 ?s2 = ([0, 0, 1, 0xAA], s)"
    using talk_out [of ?s2 "[0, 0, 1, 0xAA]" "[]"] sim_ready_upd(1) [OF r] by (simp add: recv_talk eval_nat_numeral)
  have "SD_COMMAND_TIMEOUT * 1000 = Suc (Suc (SD_COMMAND_TIMEOUT * 1000 - 2))" by (simp add: SD_COMMAND_TIMEOUT_def)
  then show ?thesis using cmd8_second_try [OF x(1) _ x(2) _ f, of "SD_COMMAND_TIMEOUT * 1000 - 2"] sim_release_idle [OF r]
    unfolding sd_cmd8_def sim_select e by (simp del: cmd8_loop.simps)
qed

lemma sim_sectors:
  assumes r: "sim_ready (dev c)"
  shows "sd_count_sectors sim_spi c = Some (4096, c\<lparr>cdv := 1\<rparr>)"
proof -
  let ?d = "dev c"
  let ?s = "?d\<lparr>outq := [0xFF, 0, 0xFF, 0xFE] @ sim_csd @ [0, 0]\<rparr>" and ?s1 = "?d\<lparr>outq := [0xFF, 0xFE] @ sim_csd @ [0, 0]\<rparr>"
    and ?s2 = "?d\<lparr>outq := sim_csd @ [0, 0]\<rparr>" and ?s3 = "?d\<lparr>outq := [0, 0]\<rparr>"
  have e: "sim_exec (cmd_bytes 9 0) ?d = ?s" by (simp add: sim_exec_def cmd_bytes_def)
  have "talk sim_spi (replicate (length [0xFF :: u8] + 1) 0xFF) ?s = ([0xFF] @ [0], ?s1)" using talk_out [of ?s "[0xFF, 0]"] by simp
  then have w: "wait_resp sim_spi SD_COMMAND_TIMEOUT ?s = (Some 0, ?s1)" by (rule wait_resp_talk) (simp_all add: SD_COMMAND_TIMEOUT_def)
  have "talk sim_spi (replicate (length [0xFF :: u8] + 1) 0xFF) ?s1 = ([0xFF] @ [0xFE], ?s2)" using talk_out [of ?s1 "[0xFF, 0xFE]"] by simp
  then have t: "wait_token sim_spi ?s1 = Some ?s2" by (rule wait_token_talk) simp
  have l: "length sim_csd = 16" by (simp add: sim_csd_def)
  have f: "recv_bytes sim_spi 16 ?s2 = (sim_csd, ?s3)" using talk_out [of ?s2 sim_csd] l by (simp add: recv_talk)
  have g: "recv_bytes sim_spi 2 ?s3 = ([0, 0], ?d)"
    using talk_out [of ?s3 "[0, 0]" "[]"] sim_ready_upd(1) [OF r] by (simp add: recv_talk numeral_2_eq_2)
  have rd: "sd_read sim_spi 16 ?s1 = Some (sim_csd, ?d)" using t f g sim_release_idle [OF r] by (simp add: sd_read_def del: recv_bytes.simps)
  have x: "sd_cmdx sim_spi 9 0 ?d = (0, ?s1)" using talk_cmd [OF r, of 9 0] w by (simp add: sd_cmdx_def send_talk e)
  have "csd_sectors sim_csd = (4096, Some 1)" by code_simp
  then show ?thesis using x rd by (simp add: sd_count_sectors_def)
qed

lemma sim_disk_initialize:
  assumes r: "sim_ready (dev c)"
  shows "disk_initialize sim_spi c = Some (0, c\<lparr>cdv := 1, sd_sectors := 4096\<rparr>)"
proof -
  let ?d = "dev c"
  have c0: "sd_cmd sim_spi 0 0 ?d = (1, ?d)" and c55: "sd_cmd sim_spi 55 0 ?d = (1, ?d)" and c41: "sd_cmd sim_spi 41 0x40000000 ?d = (0, ?d)"
    and c16: "sd_cmd sim_spi 16 512 ?d = (0, ?d)"
    using sim_sd_cmd [OF r, of 0 0 1] sim_sd_cmd [OF r, of 55 0 1] sim_sd_cmd [OF r, of 41 "0x40000000" 0] sim_sd_cmd [OF r, of 16 512 0]
    by (simp_all add: sim_exec_def cmd_bytes_def)
  obtain k where k: "SD_COMMAND_TIMEOUT = Suc k" by (simp add: SD_COMMAND_TIMEOUT_def)
  have "init_v2_loop sim_spi SD_COMMAND_TIMEOUT c = (SDCARD_V2, c\<lparr>cdv := 1\<rparr>)"
    unfolding k using c55 c41 sim_sd_cmd58 [OF r] by simp
  then have "initialise_card sim_spi c = Some (SDCARD_V2, c\<lparr>cdv := 1\<rparr>)"
    using c0 sim_sd_cmd8 [OF r] sim_idle [OF r, of 16] by (simp add: initialise_card_def R1_IDLE_STATE_def)
  then show ?thesis using sim_sectors [of "c\<lparr>cdv := 1\<rparr>"] r c16 by (simp add: disk_initialize_def)
qed

end
