(* ===== verification/Sd_Storage.thy ===== *)
theory Sd_Storage
  imports Sd_Sim
begin

text \<open>
  A store in a range of sectors of the SD card (\<open>sd.cpp\<close>, class \<open>sdStorage\<close>). Card, mutex and sector buffer are shared by all stores.
\<close>

section \<open>Operations\<close>

record 'c sd_world =
  sd_card :: "'c sdCard"
  sd_access :: mutex
  bufftmp :: bytes

record sdStorage =
  iSectorStart :: int
  nSectors :: int

text \<open>\<open>new\<close>: there is no card object yet. A store that asks for too many sectors keeps what its memory held (\<open>old\<close>).\<close>

definition sdStorage_new :: "'c spi \<Rightarrow> bool \<Rightarrow> int \<Rightarrow> int \<Rightarrow> sdStorage \<Rightarrow> 'c sd_world \<Rightarrow> (sdStorage \<times> 'c sd_world) option" where
  "sdStorage_new p new start n old w = do {
     w \<leftarrow> (if new then do {
             (_, c) \<leftarrow> disk_initialize p (sd_card w);
             Some (w\<lparr>sd_card := c, sd_access := \<lparr>mtx_other = False, mtx_level = 0\<rparr>\<rparr>)
           } else Some w);
     Some (if n < sd_sectors (sd_card w) then \<lparr>iSectorStart = start, nSectors = n\<rparr> else old, w)
   }"

text \<open>The loop of \<open>Read\<close>; \<open>i\<close> bytes are there.\<close>

partial_function (option) sd_read_loop :: "'c spi \<Rightarrow> bytes \<Rightarrow> int \<Rightarrow> int \<Rightarrow> int \<Rightarrow> int \<Rightarrow> int \<Rightarrow> 'c sd_world \<Rightarrow> (int \<times> bytes \<times> 'c sd_world) option" where
  "sd_read_loop p buffer len err i offset sect w =
     (if i < len then do {
        let n = (if offset \<noteq> 0 \<and> i = 0 then (if len < 512 - offset then len else 512 - offset)
                 else (if 512 < len - i then 512 else len - i));
        (err, b, c) \<leftarrow> disk_read p (bufftmp w) sect (sd_card w);
        let w = w\<lparr>bufftmp := b, sd_card := c\<rparr>;
        if err = - 1 then Some (- 1, buffer, w)
        else do {
          buffer \<leftarrow> memcpy buffer i b offset n;
          sd_read_loop p buffer len err (i + n) 0 (sect + 1) w
        }
      }
      else Some (err, buffer, w))"

definition sd_Read :: "'c spi \<Rightarrow> 'z sdStorage_scheme \<Rightarrow> bytes \<Rightarrow> int \<Rightarrow> int \<Rightarrow> int \<Rightarrow> 'c sd_world \<Rightarrow> (int \<times> bytes \<times> 'c sd_world) option" where
  "sd_Read p st buffer index len offset w =
     (let (free, m) = trylock (sd_access w) in
      if free then do {
        let room = (nSectors st - index) * 512 - offset;
        let len = (if room < len then room else len);
        (err, buffer, w) \<leftarrow> sd_read_loop p buffer len (- 1) 0 offset (iSectorStart st + index) (w\<lparr>sd_access := m\<rparr>);
        Some (err, buffer, w\<lparr>sd_access := unlock (sd_access w)\<rparr>)
      }
      else Some (- 1, buffer, w))"

text \<open>The loop of \<open>Write\<close> releases the mutex behind every sector, and not when the write of a sector fails.\<close>

partial_function (option) sd_write_loop :: "'c spi \<Rightarrow> bytes \<Rightarrow> int \<Rightarrow> int \<Rightarrow> int \<Rightarrow> int \<Rightarrow> int \<Rightarrow> 'c sd_world \<Rightarrow> (int \<times> 'c sd_world) option" where
  "sd_write_loop p buffer len err i offset sect w =
     (if i < len then do {
        (err, n, w) \<leftarrow>
          (if offset \<noteq> 0 \<and> i = 0 then do {
             (err, b, c) \<leftarrow> disk_read p (bufftmp w) sect (sd_card w);
             Some (err, if 512 - offset < len then 512 - offset else len, w\<lparr>bufftmp := b, sd_card := c\<rparr>)
           }
           else Some (0, if 512 < len - i then 512 else len - i, w\<lparr>bufftmp := replicate 512 0\<rparr>));
        if err = - 1 then Some (- 1, w\<lparr>sd_access := unlock (sd_access w)\<rparr>)
        else do {
          b \<leftarrow> memcpy (bufftmp w) offset buffer i n;
          (err, c) \<leftarrow> disk_write p b sect (sd_card w);
          let w = w\<lparr>bufftmp := b, sd_card := c\<rparr>;
          if err = - 1 then Some (- 1, w)
          else sd_write_loop p buffer len err (i + n) 0 (sect + 1) (w\<lparr>sd_access := unlock (sd_access w)\<rparr>)
        }
      }
      else Some (err, w))"

definition sd_Write :: "'c spi \<Rightarrow> 'z sdStorage_scheme \<Rightarrow> bytes \<Rightarrow> int \<Rightarrow> int \<Rightarrow> int \<Rightarrow> 'c sd_world \<Rightarrow> (int \<times> 'c sd_world) option" where
  "sd_Write p st buffer index len offset w =
     (let (free, m) = trylock (sd_access w) in
      if free then
        let len = (if (nSectors st - index) * 512 - offset < len then (nSectors st - index) * 512 else len) in
        sd_write_loop p buffer len (- 1) 0 offset (iSectorStart st + index) (w\<lparr>sd_access := m\<rparr>)
      else Some (- 1, w))"

text \<open>\<open>Clear\<close> takes its index for a sector of the card.\<close>

definition sd_Clear :: "'c spi \<Rightarrow> int \<Rightarrow> 'c sd_world \<Rightarrow> (int \<times> 'c sd_world) option" where
  "sd_Clear p index w =
     (let (free, m) = trylock (sd_access w); w = w\<lparr>bufftmp := replicate 512 0\<rparr> in
      if free then do {
        (err, c) \<leftarrow> disk_write p (bufftmp w) index (sd_card w);
        Some (err, w\<lparr>sd_card := c, sd_access := unlock m\<rparr>)
      }
      else Some (0, w))"

section \<open>Bytes on the card\<close>

definition byte_at :: "(nat \<Rightarrow> bytes) \<Rightarrow> nat \<Rightarrow> u8" where
  "byte_at b a = b (a div 512) ! (a mod 512)"

definition world_ok :: "('c \<Rightarrow> bool) \<Rightarrow> u32 \<Rightarrow> 'c sd_world \<Rightarrow> bool" where
  "world_ok ready u w \<longleftrightarrow> card_ok ready u (sd_card w) \<and> length (bufftmp w) = 512 \<and> \<not> mtx_other (sd_access w)"

lemma unlock_other [simp]: "mtx_other (unlock m) = mtx_other m"
  by (simp add: unlock_def)

lemma byte_at_sect: "j < 512 \<Longrightarrow> byte_at b (s * 512 + j) = b s ! j"
  by (simp add: byte_at_def)

lemma byte_at_upd: "length d = 512 \<Longrightarrow> byte_at (b(s := d)) a = (if a div 512 = s then d ! (a - s * 512) else byte_at b a)"
  by (auto simp: byte_at_def minus_div_mult_eq_mod)

lemma next_sect: "off + n = 512 \<Longrightarrow> (s + 1) * 512 + 0 + k = s * 512 + off + (n + k)" for off n s k :: nat
  unfolding add_mult_distrib by linarith

lemma next_sect_le: "off + n = 512 \<Longrightarrow> n \<le> l \<Longrightarrow> s * 512 + off + l \<le> x \<Longrightarrow> (s + 1) * 512 + 0 + (l - n) \<le> x" for off n s l x :: nat
  unfolding add_mult_distrib by linarith

context sd_protocol
begin

lemma read_loop_spec:
  assumes "world_ok ready u w" and "i \<le> len" and "len \<le> length buffer" and "off < 512" and "off \<noteq> 0 \<Longrightarrow> i = 0"
    and "sect * 512 + off + (len - i) \<le> nblk * 512"
  shows "\<exists>w'. sd_read_loop p buffer (int len) err (int i) (int off) (int sect) w =
       Some (if i < len then 0 else err,
         take i buffer @ map (\<lambda>j. byte_at (blk (dev (sd_card w))) (sect * 512 + off + j)) [0..<len - i] @ drop len buffer, w') \<and>
     world_ok ready u w' \<and> blk (dev (sd_card w')) = blk (dev (sd_card w)) \<and> sd_access w' = sd_access w"
  using assms
proof (induction "len - i" arbitrary: i off sect w buffer err rule: less_induct)
  case less
  let ?B = "blk (dev (sd_card w))"
  show ?case
  proof (cases "i < len")
    case False
    then show ?thesis using less.prems(1-3) by (subst sd_read_loop.simps) simp
  next
    case True
    define n where "n = min (512 - off) (len - i)"
    have n: "0 < n" "n \<le> len - i" "off + n \<le> 512" using True less.prems(4) by (auto simp: n_def)
    have s: "sect < nblk" using less.prems(6) True by linarith
    have w: "card_ok ready u (sd_card w)" "length (bufftmp w) = 512" using less.prems(1) by (simp_all add: world_ok_def)
    obtain c where c: "disk_read p (bufftmp w) (int sect) (sd_card w) = Some (0, ?B sect, c)" "card_ok ready u c" "blk (dev c) = ?B"
      using disk_read_ok [OF w(1) s w(2)] by blast
    have l: "length (?B sect) = 512" using blk_length [OF _ s] w(1) by (simp add: card_ok_def)
    let ?d = "take n (drop off (?B sect))" and ?w = "w\<lparr>bufftmp := ?B sect, sd_card := c\<rparr>"
    let ?b = "take i buffer @ ?d @ drop (i + n) buffer"
    have ld: "length ?d = n" using l n by simp
    have m: "memcpy buffer (int i) (?B sect) (int off) (int n) = Some ?b"
      using n l True less.prems(3) by (simp add: memcpy_def rd_bytes_def wr_bytes_def nat_int_add ld)
    have wok: "world_ok ready u ?w" using less.prems(1) c(2) l by (simp add: world_ok_def)
    have n_eq: "(if int off \<noteq> 0 \<and> int i = 0 then if int len < 512 - int off then int len else 512 - int off
        else if 512 < int len - int i then 512 else int len - int i) = int n"
      by (cases "off = 0") (use less.prems(4,5) True in \<open>auto simp: n_def min_def\<close>)
    have step: "sd_read_loop p buffer (int len) err (int i) (int off) (int sect) w =
        sd_read_loop p ?b (int len) 0 (int (i + n)) (int 0) (int (sect + 1)) ?w"
      using True c(1) m by (subst sd_read_loop.simps, simp only: n_eq) (simp add: add.commute)
    have more: "off + n = 512" if "i + n < len" using that n_def less.prems(4) by auto
    have lb: "length ?b = length buffer" using ld n less.prems(3) True by simp
    have d: "?d = map (\<lambda>j. byte_at ?B (sect * 512 + off + j)) [0..<n]"
      by (rule nth_equalityI) (use ld n l byte_at_sect [of "off + _" ?B sect] in \<open>auto simp: add.assoc\<close>)
    have a1: "len - (i + n) < len - i" and a2: "i + n \<le> len" and a3: "len \<le> length ?b" using n True lb less.prems(3) by simp_all
    have a4: "(sect + 1) * 512 + 0 + (len - (i + n)) \<le> nblk * 512"
    proof (cases "i + n < len")
      case True
      then show ?thesis using next_sect_le [OF more [OF True] n(2) less.prems(6)] by simp
    next
      case False
      then show ?thesis using s by simp
    qed
    have z: "(0 :: nat) < 512" "(0 :: nat) \<noteq> 0 \<Longrightarrow> i + n = 0" by simp_all
    obtain w' where w': "sd_read_loop p ?b (int len) 0 (int (i + n)) (int 0) (int (sect + 1)) ?w =
        Some (if i + n < len then 0 else 0, take (i + n) ?b @ map (\<lambda>j. byte_at (blk (dev (sd_card ?w))) ((sect + 1) * 512 + 0 + j)) [0..<len - (i + n)] @ drop len ?b, w')"
      "world_ok ready u w'" "blk (dev (sd_card w')) = blk (dev (sd_card ?w))" "sd_access w' = sd_access ?w"
      using less.hyps [OF a1 wok a2 a3 z a4, of 0] by blast
    have t: "take (i + n) ?b = take i buffer @ ?d" "drop len ?b = drop len buffer" using ld n True less.prems(3) by simp_all
    have "map (\<lambda>j. byte_at ?B (sect * 512 + off + j)) [0..<n] @ map (\<lambda>j. byte_at ?B ((sect + 1) * 512 + 0 + j)) [0..<len - (i + n)] =
        map (\<lambda>j. byte_at ?B (sect * 512 + off + j)) [0..<len - i]"
    proof (rule nth_equalityI)
      show "length (map (\<lambda>j. byte_at ?B (sect * 512 + off + j)) [0..<n] @ map (\<lambda>j. byte_at ?B ((sect + 1) * 512 + 0 + j)) [0..<len - (i + n)]) =
        length (map (\<lambda>j. byte_at ?B (sect * 512 + off + j)) [0..<len - i])" using n by simp
      fix j assume "j < length (map (\<lambda>j. byte_at ?B (sect * 512 + off + j)) [0..<n] @ map (\<lambda>j. byte_at ?B ((sect + 1) * 512 + 0 + j)) [0..<len - (i + n)])"
      then have j: "j < len - i" using n by simp
      show "(map (\<lambda>j. byte_at ?B (sect * 512 + off + j)) [0..<n] @ map (\<lambda>j. byte_at ?B ((sect + 1) * 512 + 0 + j)) [0..<len - (i + n)]) ! j =
        map (\<lambda>j. byte_at ?B (sect * 512 + off + j)) [0..<len - i] ! j"
      proof (cases "j < n")
        case True
        then show ?thesis using j by (simp add: nth_append)
      next
        case False
        then have e: "off + n = 512" using more j by simp
        obtain k where k: "j = n + k" using False le_Suc_ex [of n j] by auto
        have "k < len - (i + n)" using j k by simp
        then show ?thesis using j unfolding k next_sect [OF e] by (simp add: nth_append)
      qed
    qed
    then have "?d @ map (\<lambda>j. byte_at ?B ((sect + 1) * 512 + 0 + j)) [0..<len - (i + n)] = map (\<lambda>j. byte_at ?B (sect * 512 + off + j)) [0..<len - i]"
      unfolding d .
    then have "take (i + n) ?b @ map (\<lambda>j. byte_at ?B ((sect + 1) * 512 + 0 + j)) [0..<len - (i + n)] @ drop len ?b =
        take i buffer @ map (\<lambda>j. byte_at ?B (sect * 512 + off + j)) [0..<len - i] @ drop len buffer"
      by (simp only: t append_assoc) (simp only: append_assoc [symmetric])
    moreover have "blk (dev (sd_card ?w)) = ?B" using c(3) by simp
    ultimately have "sd_read_loop p buffer (int len) err (int i) (int off) (int sect) w =
        Some (0, take i buffer @ map (\<lambda>j. byte_at ?B (sect * 512 + off + j)) [0..<len - i] @ drop len buffer, w')"
      using step w'(1) by (simp only: if_cancel)
    then show ?thesis using w'(2-4) True c(3) by (intro exI [of _ w']) simp
  qed
qed

text \<open>What a write of \<open>len\<close> bytes at the address \<open>a\<close> of the card does to the bytes of the card: the bytes in front of them and behind their
  last sector stay, and the bytes themselves are there.\<close>

lemma write_loop_spec:
  assumes "world_ok ready u w" and "i \<le> len" and "len \<le> length buffer" and "off < 512" and "off \<noteq> 0 \<Longrightarrow> i = 0"
    and "sect * 512 + off + (len - i) \<le> nblk * 512"
  shows "\<exists>w'. sd_write_loop p buffer (int len) err (int i) (int off) (int sect) w = Some (if i < len then 0 else err, w') \<and> world_ok ready u w' \<and>
     (\<forall>j<len - i. byte_at (blk (dev (sd_card w'))) (sect * 512 + off + j) = buffer ! (i + j)) \<and>
     (\<forall>a. a < sect * 512 + off \<or> sect * 512 + off + (len - i) \<le> a div 512 * 512 \<longrightarrow>
        byte_at (blk (dev (sd_card w'))) a = byte_at (blk (dev (sd_card w))) a)"
  using assms
proof (induction "len - i" arbitrary: i off sect w err rule: less_induct)
  case less
  let ?B = "blk (dev (sd_card w))"
  show ?case
  proof (cases "i < len")
    case False
    then show ?thesis using less.prems(1-3) by (subst sd_write_loop.simps) simp
  next
    case True
    define n where "n = min (512 - off) (len - i)"
    have n: "0 < n" "n \<le> len - i" "off + n \<le> 512" using True less.prems(4) by (auto simp: n_def)
    have s: "sect < nblk" using less.prems(6) True by linarith
    have w: "card_ok ready u (sd_card w)" "length (bufftmp w) = 512" "\<not> mtx_other (sd_access w)" using less.prems(1) by (simp_all add: world_ok_def)
    let ?first = "int off \<noteq> 0 \<and> int i = 0"
    obtain c0 b0 where b0: "(if ?first then do {
             (err, b, c) \<leftarrow> disk_read p (bufftmp w) (int sect) (sd_card w);
             Some (err, if 512 - int off < int len then 512 - int off else int len, w\<lparr>bufftmp := b, sd_card := c\<rparr>)
           }
           else Some (0, if 512 < int len - int i then 512 else int len - int i, w\<lparr>bufftmp := replicate 512 0\<rparr>)) =
        Some (0, int n, w\<lparr>bufftmp := b0, sd_card := c0\<rparr>)" "card_ok ready u c0" "blk (dev c0) = ?B" "length b0 = 512"
      "\<forall>j<off. b0 ! j = ?B sect ! j"
    proof (cases ?first)
      case f: True
      obtain c where c: "disk_read p (bufftmp w) (int sect) (sd_card w) = Some (0, ?B sect, c)" "card_ok ready u c" "blk (dev c) = ?B"
        using disk_read_ok [OF w(1) s w(2)] by blast
      have "(if 512 - int off < int len then 512 - int off else int len) = int n" using f less.prems(4) by (auto simp: n_def min_def)
      moreover have "length (?B sect) = 512" using blk_length [OF _ s] w(1) by (simp add: card_ok_def)
      ultimately show ?thesis using f c that by simp
    next
      case f: False
      then have "off = 0" using less.prems(5) by auto
      then have "(if 512 < int len - int i then 512 else int len - int i) = int n" using True by (auto simp: n_def min_def)
      then show ?thesis using f w(1) that [of "sd_card w" "replicate 512 0"] \<open>off = 0\<close> by simp
    qed
    let ?d = "take n (drop i buffer)"
    let ?b = "take off b0 @ ?d @ drop (off + n) b0" and ?w0 = "w\<lparr>bufftmp := b0, sd_card := c0\<rparr>"
    have ld: "length ?d = n" and lb: "length ?b = 512" using b0(4) n less.prems(3) True by simp_all
    have m: "memcpy b0 (int off) buffer (int i) (int n) = Some ?b"
      using n b0(4) less.prems(3) True by (simp add: memcpy_def rd_bytes_def wr_bytes_def nat_int_add ld)
    obtain c where c: "disk_write p ?b (int sect) c0 = Some (0, c)" "card_ok ready u c" "blk (dev c) = ?B(sect := ?b)"
      using disk_write_ok [OF b0(2) s lb] b0(3) by auto
    let ?w = "w\<lparr>bufftmp := ?b, sd_card := c, sd_access := unlock (sd_access w)\<rparr>"
    have wok: "world_ok ready u ?w" using w(3) c(2) lb by (simp add: world_ok_def)
    have step: "sd_write_loop p buffer (int len) err (int i) (int off) (int sect) w =
        sd_write_loop p buffer (int len) 0 (int (i + n)) (int 0) (int (sect + 1)) ?w"
      using True c(1) m by (subst sd_write_loop.simps, simp only: b0(1)) (simp add: add.commute)
    have more: "off + n = 512" if "i + n < len" using that n_def less.prems(4) by auto
    have a1: "len - (i + n) < len - i" and a2: "i + n \<le> len" using n True by simp_all
    have a4: "(sect + 1) * 512 + 0 + (len - (i + n)) \<le> nblk * 512"
    proof (cases "i + n < len")
      case True
      then show ?thesis using next_sect_le [OF more [OF True] n(2) less.prems(6)] by simp
    next
      case False
      then show ?thesis using s by simp
    qed
    have z: "(0 :: nat) < 512" "(0 :: nat) \<noteq> 0 \<Longrightarrow> i + n = 0" by simp_all
    obtain w' where w': "sd_write_loop p buffer (int len) 0 (int (i + n)) (int 0) (int (sect + 1)) ?w = Some (if i + n < len then 0 else 0, w')"
      "world_ok ready u w'"
      and data: "\<forall>j<len - (i + n). byte_at (blk (dev (sd_card w'))) ((sect + 1) * 512 + 0 + j) = buffer ! (i + n + j)"
      and rest: "\<forall>a. a < (sect + 1) * 512 + 0 \<or> (sect + 1) * 512 + 0 + (len - (i + n)) \<le> a div 512 * 512 \<longrightarrow>
        byte_at (blk (dev (sd_card w'))) a = byte_at (blk (dev (sd_card ?w))) a"
      using less.hyps [OF a1 wok a2 less.prems(3) z a4, of 0] by blast
    have B: "byte_at (blk (dev (sd_card ?w))) a = (if a div 512 = sect then ?b ! (a - sect * 512) else byte_at ?B a)" for a
      using byte_at_upd [OF lb, of ?B sect a] c(3) by simp
    have D: "byte_at (blk (dev (sd_card w'))) (sect * 512 + off + j) = buffer ! (i + j)" if j: "j < len - i" for j
    proof (cases "j < n")
      case True
      have d: "(sect * 512 + off + j) div 512 = sect" using True n(3) by (simp add: div_nat_eqI)
      have "sect * 512 + off + j < (sect + 1) * 512 + 0" using True n(3) by simp
      then have "byte_at (blk (dev (sd_card w'))) (sect * 512 + off + j) = ?b ! (off + j)" using rest B d by simp
      also have "\<dots> = ?d ! j" using True b0(4) ld n(3) by (simp add: nth_append)
      finally show ?thesis using True j less.prems(3) by simp
    next
      case False
      then have e: "off + n = 512" using more j by simp
      obtain k where k: "j = n + k" using False le_Suc_ex [of n j] by auto
      have "k < len - (i + n)" using k j by simp
      then have "byte_at (blk (dev (sd_card w'))) ((sect + 1) * 512 + 0 + k) = buffer ! (i + n + k)" using data by blast
      then show ?thesis unfolding k next_sect [OF e] by (simp add: add.assoc)
    qed
    have R: "byte_at (blk (dev (sd_card w'))) a = byte_at ?B a"
      if a: "a < sect * 512 + off \<or> sect * 512 + off + (len - i) \<le> a div 512 * 512" for a
    proof (cases "a < sect * 512 + off")
      case True
      have 1: "a < (sect + 1) * 512 + 0" using True less.prems(4) by simp
      have "?b ! (a - sect * 512) = ?B sect ! (a - sect * 512)" if "a div 512 = sect"
      proof -
        have "sect * 512 \<le> a" using that by auto
        then have "a - sect * 512 < off" using True by linarith
        then show ?thesis using b0(4,5) less.prems(4) by (simp add: nth_append)
      qed
      moreover have "?B sect ! (a - sect * 512) = byte_at ?B a" if "a div 512 = sect"
        using that by (auto simp: byte_at_def minus_div_mult_eq_mod)
      ultimately show ?thesis using rest 1 B by auto
    next
      case False
      then have 2: "sect * 512 + off + (len - i) \<le> a div 512 * 512" using a by blast
      have "sect < a div 512" using 2 True by linarith
      moreover have "(sect + 1) * 512 + 0 + (len - (i + n)) \<le> a div 512 * 512"
      proof (cases "i + n < len")
        case True
        then show ?thesis using next_sect_le [OF more [OF True] n(2) 2] by simp
      next
        case False
        then show ?thesis using \<open>sect < a div 512\<close> by simp
      qed
      ultimately show ?thesis using rest B by auto
    qed
    show ?thesis using step w' D R True by (intro exI [of _ w']) simp
  qed
qed

text \<open>\<open>Read\<close> and \<open>Write\<close> inside a store.\<close>

lemma sd_Read_spec:
  assumes "world_ok ready u w" and "iSectorStart st = int s0" and "nSectors st = int n" and "s0 + n \<le> nblk"
    and "k * 512 + off + len \<le> n * 512" and "off < 512" and "0 < len" and "len \<le> length buffer"
  shows "\<exists>w'. sd_Read p st buffer (int k) (int len) (int off) w =
       Some (0, map (\<lambda>j. byte_at (blk (dev (sd_card w))) ((s0 + k) * 512 + off + j)) [0..<len] @ drop len buffer, w') \<and>
     world_ok ready u w' \<and> blk (dev (sd_card w')) = blk (dev (sd_card w))"
proof -
  let ?w = "w\<lparr>sd_access := snd (trylock (sd_access w))\<rparr>"
  have t: "fst (trylock (sd_access w))" and wok: "world_ok ready u ?w" using assms(1) by (simp_all add: world_ok_def trylock_def)
  have b: "(s0 + k) * 512 + off + (len - 0) \<le> nblk * 512" using assms(4,5) unfolding add_mult_distrib by linarith
  have room: "\<not> (int n - int k) * 512 - int off < int len" using assms(5) by (simp add: algebra_simps)
  obtain w' where w': "sd_read_loop p buffer (int len) (- 1) (int 0) (int off) (int (s0 + k)) ?w =
      Some (if 0 < len then 0 else - 1, take 0 buffer @ map (\<lambda>j. byte_at (blk (dev (sd_card ?w))) ((s0 + k) * 512 + off + j)) [0..<len - 0] @ drop len buffer, w')"
    "world_ok ready u w'" "blk (dev (sd_card w')) = blk (dev (sd_card ?w))"
    using read_loop_spec [OF wok le0 assms(8,6) refl b] by blast
  have "world_ok ready u (w'\<lparr>sd_access := unlock (sd_access w')\<rparr>)" using w'(2) by (simp add: world_ok_def)
  then show ?thesis using t w' room assms(2,3,7) by (cases "trylock (sd_access w)") (simp add: sd_Read_def Let_def)
qed

lemma sd_Write_spec:
  assumes "world_ok ready u w" and "iSectorStart st = int s0" and "nSectors st = int n" and "s0 + n \<le> nblk"
    and "k * 512 + off + len \<le> n * 512" and "off < 512" and "0 < len" and "len \<le> length buffer"
  shows "\<exists>w'. sd_Write p st buffer (int k) (int len) (int off) w = Some (0, w') \<and> world_ok ready u w' \<and>
     (\<forall>j<len. byte_at (blk (dev (sd_card w'))) ((s0 + k) * 512 + off + j) = buffer ! j) \<and>
     (\<forall>a. a < (s0 + k) * 512 + off \<or> (s0 + k) * 512 + off + len \<le> a div 512 * 512 \<longrightarrow>
        byte_at (blk (dev (sd_card w'))) a = byte_at (blk (dev (sd_card w))) a)"
proof -
  let ?w = "w\<lparr>sd_access := snd (trylock (sd_access w))\<rparr>"
  have t: "fst (trylock (sd_access w))" and wok: "world_ok ready u ?w" using assms(1) by (simp_all add: world_ok_def trylock_def)
  have b: "(s0 + k) * 512 + off + (len - 0) \<le> nblk * 512" using assms(4,5) unfolding add_mult_distrib by linarith
  have room: "\<not> (int n - int k) * 512 - int off < int len" using assms(5) by (simp add: algebra_simps)
  obtain w' where w': "sd_write_loop p buffer (int len) (- 1) (int 0) (int off) (int (s0 + k)) ?w = Some (if 0 < len then 0 else - 1, w')"
    "world_ok ready u w'" "\<forall>j<len - 0. byte_at (blk (dev (sd_card w'))) ((s0 + k) * 512 + off + j) = buffer ! (0 + j)"
    "\<forall>a. a < (s0 + k) * 512 + off \<or> (s0 + k) * 512 + off + (len - 0) \<le> a div 512 * 512 \<longrightarrow>
        byte_at (blk (dev (sd_card w'))) a = byte_at (blk (dev (sd_card ?w))) a"
    using write_loop_spec [OF wok le0 assms(8,6) refl b] by blast
  have "sd_Write p st buffer (int k) (int len) (int off) w = Some (0, w')"
    using t w'(1) room assms(2,3,7) by (cases "trylock (sd_access w)") (simp add: sd_Write_def Let_def)
  then show ?thesis using w'(2-4) by simp
qed

end

end
