(* ===== verification/App_Config.thy ===== *)
theory App_Config
  imports Dyn_Sensors Storage_Base Sd_Storage
begin

text \<open>
  The configuration from the server (\<open>main.cpp\<close>, \<open>MainClass::event\<close> and the end of the main loop): the answer of the server is stored,
  and the main loop reads it back and makes the sensors. The store is an object of the class \<open>storage\<close>, in memory or on the SD card;
  the class is the record of its two functions, and what the application relies on is the locale \<open>config_store\<close>.
\<close>

section \<open>Operations\<close>

record 's store_ops =
  st_rd :: "bytes \<Rightarrow> int \<Rightarrow> int \<Rightarrow> 's \<Rightarrow> (int \<times> bytes \<times> 's) option"
  st_wr :: "bytes \<Rightarrow> int \<Rightarrow> int \<Rightarrow> 's \<Rightarrow> (int \<times> 's) option"

definition ram_ops :: "ramStorage store_ops" where
  "ram_ops = \<lparr>st_rd = \<lambda>b i n st. map_option (\<lambda>(r, b). (r, b, st)) (ramStorage_Read b i n st), st_wr = ramStorage_Write\<rparr>"

definition sd_ops :: "'c spi \<Rightarrow> sdStorage \<Rightarrow> 'c sd_world store_ops" where
  "sd_ops p st = \<lparr>st_rd = \<lambda>b i n w. sd_Read p st b i n 0 w, st_wr = \<lambda>b i n w. sd_Write p st b i n 0 w\<rparr>"

record 's main_app =
  calcStorage :: 's
  newCalcPending :: bool
  app_idCfg :: bytes
  result_buf :: bytes
  app_dyn :: dyn_state

text \<open>\<open>ID\<close> is the number of bytes of the answer: 40 bytes that name the configuration, and the descriptions.\<close>

definition main_event :: "'s store_ops \<Rightarrow> int \<Rightarrow> bytes \<Rightarrow> 's main_app \<Rightarrow> 's main_app option" where
  "main_event ops ID data a = do {
     let sz = ID - 40;
     cfg \<leftarrow> rd_bytes data 0 40;
     let a = a\<lparr>app_idCfg := cfg\<rparr>;
     if sz \<noteq> 0 then do {
       (err, st) \<leftarrow> st_wr ops (le_bytes 4 sz) 0 4 (calcStorage a);
       let a = a\<lparr>calcStorage := st\<rparr>;
       if err = - 1 then Some a
       else do {
         (err, st) \<leftarrow> st_wr ops (drop 40 data) 1 sz (calcStorage a);
         let a = a\<lparr>calcStorage := st\<rparr>;
         Some (if err = - 1 then a else a\<lparr>newCalcPending := True\<rparr>)
       }
     }
     else Some a
   }"

text \<open>What the main loop does with a new configuration. The outcomes of the two reads are not looked at; \<open>s1\<close>, \<open>s2\<close>, \<open>lock\<close> as before.\<close>

definition apply_config :: "'s store_ops \<Rightarrow> u32 \<Rightarrow> u32 \<Rightarrow> u32 \<Rightarrow> new_objects \<Rightarrow> 's main_app \<Rightarrow> 's main_app option" where
  "apply_config ops s1 s2 lock f a =
     (if newCalcPending a then do {
        let a = a\<lparr>newCalcPending := False\<rparr>;
        (_, szb, st) \<leftarrow> st_rd ops (le_bytes 4 0) 0 4 (calcStorage a);
        let sz = int_val szb;
        (_, d, st) \<leftarrow> st_rd ops (result_buf a) 1 sz st;
        let a = a\<lparr>calcStorage := st, result_buf := d\<rparr>;
        (stopped, dy) \<leftarrow> StopDynSensors s1 (app_dyn a);
        dy \<leftarrow> (if stopped then NewDynSensors s2 lock f d sz dy else Some dy);
        Some (a\<lparr>app_dyn := dy\<rparr>)
      }
      else Some a)"

section \<open>What the application relies on\<close>

text \<open>A store that is in order takes a size and data of up to \<open>cap\<close> bytes, and gives them back.\<close>

locale config_store =
  fixes ops :: "'s store_ops" and ok :: "'s \<Rightarrow> bool" and holds :: "'s \<Rightarrow> bytes \<Rightarrow> bool" and cap :: nat
  assumes store: "ok st \<Longrightarrow> 0 < length d \<Longrightarrow> length d \<le> cap \<Longrightarrow> \<exists>r1 st1 r2 st2.
      st_wr ops (le_bytes 4 (int (length d))) 0 4 st = Some (r1, st1) \<and> r1 \<noteq> - 1 \<and>
      st_wr ops (d @ junk) 1 (int (length d)) st1 = Some (r2, st2) \<and> r2 \<noteq> - 1 \<and> ok st2 \<and> holds st2 d"
    and load: "ok st \<Longrightarrow> holds st d \<Longrightarrow> length d \<le> length buf \<Longrightarrow> \<exists>r1 st1 r2 st2.
      st_rd ops (le_bytes 4 0) 0 4 st = Some (r1, le_bytes 4 (int (length d)), st1) \<and>
      st_rd ops buf 1 (int (length d)) st1 = Some (r2, d @ drop (length d) buf, st2) \<and> ok st2 \<and> holds st2 d"
    and cap_small: "cap < 2 ^ 31"
begin

lemma event_stores:
  assumes "ok (calcStorage a)" and "length cfg = 40" and "0 < length d" and "length d \<le> cap"
  shows "\<exists>st. main_event ops (40 + int (length d)) (cfg @ d @ junk) a = Some (a\<lparr>app_idCfg := cfg, calcStorage := st, newCalcPending := True\<rparr>) \<and>
     ok st \<and> holds st d"
proof -
  obtain r1 st1 r2 st2 where S: "st_wr ops (le_bytes 4 (int (length d))) 0 4 (calcStorage a) = Some (r1, st1)" "r1 \<noteq> - 1"
    "st_wr ops (d @ junk) 1 (int (length d)) st1 = Some (r2, st2)" "r2 \<noteq> - 1" "ok st2" "holds st2 d"
    using store [OF assms(1,3,4), of junk] by blast
  have "rd_bytes (cfg @ d @ junk) 0 40 = Some cfg" using assms(2) by (simp add: rd_bytes_def)
  then show ?thesis using S assms(2,3) by (intro exI [of _ st2]) (simp add: main_event_def Let_def)
qed

lemma apply_makes:
  assumes "ok (calcStorage a)" and "holds (calcStorage a) d" and "length d \<le> cap" and "length d \<le> length (result_buf a)" and "newCalcPending a"
    and dy: "StopDynSensors osOK (app_dyn a) = Some (True, dy)"
    and new: "NewDynSensors osOK lock f (d @ drop (length d) (result_buf a)) (int (length d)) dy = Some dy'"
  shows "\<exists>st. apply_config ops osOK osOK lock f a =
      Some (a\<lparr>newCalcPending := False, calcStorage := st, result_buf := d @ drop (length d) (result_buf a), app_dyn := dy'\<rparr>) \<and> ok st \<and> holds st d"
proof -
  obtain r1 st1 r2 st2 where L: "st_rd ops (le_bytes 4 0) 0 4 (calcStorage a) = Some (r1, le_bytes 4 (int (length d)), st1)"
    "st_rd ops (result_buf a) 1 (int (length d)) st1 = Some (r2, d @ drop (length d) (result_buf a), st2)" "ok st2" "holds st2 d"
    using load [OF assms(1,2,4)] by blast
  have "int_val (le_bytes 4 (int (length d))) = int (length d)" by (rule int_val_le_bytes) (use assms(3) cap_small in simp_all)
  then show ?thesis using L assms(5) dy new by (intro exI [of _ st2]) (simp add: apply_config_def Let_def)
qed

text \<open>From the answer of the server to the sensors.\<close>

lemma configured:
  assumes a: "ok (calcStorage a)" "length cfg = 40" and d: "dyn_ok (app_dyn a)" "fresh_ok f" "\<forall>d\<in>set ds. descr_ok (d_itf (app_dyn a)) d" "ds \<noteq> []"
    and D: "D = concat (map descr_bytes ds)" "length D \<le> cap" "length D \<le> length (result_buf a)"
    and room: "length (butlast (held (dynamicSensors (app_dyn a)))) + length ds \<le> unat (max_sensors (dynamicSensors (app_dyn a)))"
    and inj: "inj_on (f_addr f) {d_count (app_dyn a)..<d_count (app_dyn a) + length ds}"
  shows "\<exists>a1 a2. main_event ops (40 + int (length D)) (cfg @ D @ junk) a = Some a1 \<and> apply_config ops osOK osOK lock f a1 = Some a2 \<and>
     \<not> newCalcPending a2 \<and> app_idCfg a2 = cfg \<and> ok (calcStorage a2) \<and> holds (calcStorage a2) D \<and>
     held (dynamicSensors (app_dyn a2)) =
       butlast (held (dynamicSensors (app_dyn a))) @ map (f_addr f) [d_count (app_dyn a)..<d_count (app_dyn a) + length ds] \<and>
     (\<forall>i<length ds. \<exists>s. objs (app_dyn a2) (f_addr f (d_count (app_dyn a) + i)) = Some s \<and> sensor_for (d_itf (app_dyn a)) (ds ! i) s)"
proof -
  let ?st = "app_dyn a"
  have "descr_bytes (hd ds) \<noteq> []" using descr_bytes_ne d(3,4) by (metis hd_in_set)
  then have ne: "0 < length D" unfolding D(1) using d(4) by (cases ds) auto
  obtain s1 where E: "main_event ops (40 + int (length D)) (cfg @ D @ junk) a = Some (a\<lparr>app_idCfg := cfg, calcStorage := s1, newCalcPending := True\<rparr>)"
    "ok s1" "holds s1 D" using event_stores [OF a ne D(2)] by blast
  obtain dy where S: "StopDynSensors osOK ?st = Some (True, dy)" "dyn_ok dy" "held (dynamicSensors dy) = butlast (held (dynamicSensors ?st))"
    "d_itf dy = d_itf ?st" "d_count dy = d_count ?st" "max_sensors (dynamicSensors dy) = max_sensors (dynamicSensors ?st)"
    using StopDynSensors_drops_one [OF d(1)] by blast
  have r: "length ds \<le> room dy" using room S(3,6) by (simp add: room_def)
  have dd: "\<forall>d\<in>set ds. descr_ok (d_itf dy) d" using d(3) S(4) by simp
  have at: "drop 0 (D @ drop (length D) (result_buf a)) = concat (map descr_bytes ds) @ drop (length D) (result_buf a)"
    "int (length D) = int (0 + length (concat (map descr_bytes ds)))" unfolding D(1) by simp_all
  have inj': "inj_on (f_addr f) {d_count dy..<d_count dy + length ds}" using inj S(5) by simp
  obtain dy' where N: "new_dyn_loop lock f (D @ drop (length D) (result_buf a)) (int (length D)) (int 0) dy = Some dy'"
    "held (dynamicSensors dy') = held (dynamicSensors dy) @ map (f_addr f) [d_count dy..<d_count dy + length ds]"
    "\<forall>i<length ds. \<exists>s. objs dy' (f_addr f (d_count dy + i)) = Some s \<and> sensor_for (d_itf dy) (ds ! i) s"
    using new_dyn_loop_spec [OF S(2) r d(2) dd d(4) at inj', of lock] by blast
  have N': "NewDynSensors osOK lock f (D @ drop (length D) (result_buf a)) (int (length D)) dy = Some dy'" using N(1) by (simp add: NewDynSensors_def)
  let ?a1 = "a\<lparr>app_idCfg := cfg, calcStorage := s1, newCalcPending := True\<rparr>"
  have c: "ok (calcStorage ?a1)" "holds (calcStorage ?a1) D" "length D \<le> length (result_buf ?a1)" "newCalcPending ?a1" "StopDynSensors osOK (app_dyn ?a1) = Some (True, dy)"
    "NewDynSensors osOK lock f (D @ drop (length D) (result_buf ?a1)) (int (length D)) dy = Some dy'"
    using E(2,3) D(3) S(1) N' by simp_all
  obtain s2 where A: "apply_config ops osOK osOK lock f ?a1 =
      Some (?a1\<lparr>newCalcPending := False, calcStorage := s2, result_buf := D @ drop (length D) (result_buf ?a1), app_dyn := dy'\<rparr>)" "ok s2" "holds s2 D"
    using apply_makes [OF c(1,2) D(2) c(3-6)] by blast
  show ?thesis using E(1) A N(2,3) S(3-5) by simp
qed

end

section \<open>The stores\<close>

definition ram_holds :: "ramStorage \<Rightarrow> bytes \<Rightarrow> bool" where
  "ram_holds st d \<longleftrightarrow> st_sz st = int (length d) \<and> take (length d) (st_b st) = d \<and> length d \<le> 512"

interpretation ram: config_store ram_ops "\<lambda>st. length (st_b st) = 512" ram_holds 512
proof
  show "\<exists>r1 st1 r2 st2. st_wr ram_ops (le_bytes 4 (int (length d))) 0 4 st = Some (r1, st1) \<and> r1 \<noteq> - 1 \<and>
      st_wr ram_ops (d @ junk) 1 (int (length d)) st1 = Some (r2, st2) \<and> r2 \<noteq> - 1 \<and> length (st_b st2) = 512 \<and> ram_holds st2 d"
    if "length (st_b st) = 512" "0 < length d" "length d \<le> 512" for st d junk
  proof -
    have "int_val (le_bytes 4 (int (length d))) = int (length d)" by (rule int_val_le_bytes) (use that in simp_all)
    moreover have "rd_bytes (le_bytes 4 (int (length d))) 0 4 = Some (le_bytes 4 (int (length d)))" by (simp add: rd_bytes_def)
    moreover have "memcpy (st_b st) 0 (d @ junk) 0 (int (length d)) = Some (d @ drop (length d) (st_b st))"
      using that by (simp add: memcpy_def rd_bytes_def wr_bytes_def)
    ultimately show ?thesis using that by (simp add: ram_ops_def ramStorage_Write_def ram_holds_def)
  qed
  show "\<exists>r1 st1 r2 st2. st_rd ram_ops (le_bytes 4 0) 0 4 st = Some (r1, le_bytes 4 (int (length d)), st1) \<and>
      st_rd ram_ops buf 1 (int (length d)) st1 = Some (r2, d @ drop (length d) buf, st2) \<and> length (st_b st2) = 512 \<and> ram_holds st2 d"
    if "length (st_b st) = 512" "ram_holds st d" "length d \<le> length buf" for st d buf
  proof -
    have "memcpy (le_bytes 4 0) 0 (le_bytes 4 (st_sz st)) 0 4 = Some (le_bytes 4 (int (length d)))"
      using that(2) by (simp add: memcpy_def rd_bytes_def wr_bytes_def ram_holds_def)
    moreover have "memcpy buf 0 (st_b st) 0 (int (length d)) = Some (d @ drop (length d) buf)"
      using that by (simp add: memcpy_def rd_bytes_def wr_bytes_def ram_holds_def)
    ultimately show ?thesis using that by (simp add: ram_ops_def ramStorage_Read_def)
  qed
qed simp

text \<open>A store on the card: the size in its first sector, the data from its second sector on.\<close>

definition sd_holds :: "nat \<Rightarrow> nat \<Rightarrow> (nat \<Rightarrow> bytes) \<Rightarrow> bytes \<Rightarrow> bool" where
  "sd_holds s0 n b d \<longleftrightarrow> 0 < length d \<and> length d \<le> (n - 1) * 512 \<and>
     map (\<lambda>j. byte_at b (s0 * 512 + j)) [0..<4] = le_bytes 4 (int (length d)) \<and> map (\<lambda>j. byte_at b ((s0 + 1) * 512 + j)) [0..<length d] = d"

locale sd_store = sd_protocol p ready blk nblk u for p :: "'c spi" and ready blk nblk u +
  fixes st :: sdStorage and s0 n :: nat
  assumes place: "iSectorStart st = int s0" "nSectors st = int n" "s0 + n \<le> nblk" "2 \<le> n" "n * 512 < 2 ^ 31"
begin

lemma sd_holds_stored:
  assumes w: "world_ok ready u w" and d: "0 < length d" "length d \<le> (n - 1) * 512"
  shows "\<exists>w1 w2. sd_Write p st (le_bytes 4 (int (length d))) 0 4 0 w = Some (0, w1) \<and> sd_Write p st (d @ junk) 1 (int (length d)) 0 w1 = Some (0, w2) \<and>
     world_ok ready u w2 \<and> sd_holds s0 n (blk (dev (sd_card w2))) d"
proof -
  have n: "1 * 512 + 0 + length d \<le> n * 512" "0 * 512 + 0 + 4 \<le> n * 512" using d(2) place(4) by (simp_all add: diff_mult_distrib)
  obtain w1 where w1: "sd_Write p st (le_bytes 4 (int (length d))) (int 0) (int 4) (int 0) w = Some (0, w1)" "world_ok ready u w1"
    "\<forall>j<4. byte_at (blk (dev (sd_card w1))) ((s0 + 0) * 512 + 0 + j) = le_bytes 4 (int (length d)) ! j"
    using sd_Write_spec [OF w place(1-3) n(2), of "le_bytes 4 (int (length d))"] by auto
  obtain w2 where w2: "sd_Write p st (d @ junk) (int 1) (int (length d)) (int 0) w1 = Some (0, w2)" "world_ok ready u w2"
    "\<forall>j<length d. byte_at (blk (dev (sd_card w2))) ((s0 + 1) * 512 + 0 + j) = (d @ junk) ! j"
    "\<forall>a. a < (s0 + 1) * 512 + 0 \<or> (s0 + 1) * 512 + 0 + length d \<le> a div 512 * 512 \<longrightarrow>
        byte_at (blk (dev (sd_card w2))) a = byte_at (blk (dev (sd_card w1))) a"
    using sd_Write_spec [OF w1(2) place(1-3) n(1) _ d(1), of "d @ junk"] by auto
  have "map (\<lambda>j. byte_at (blk (dev (sd_card w2))) (s0 * 512 + j)) [0..<4] = le_bytes 4 (int (length d))"
    by (rule nth_equalityI) (use w1(3) w2(4) in simp_all)
  moreover have "map (\<lambda>j. byte_at (blk (dev (sd_card w2))) ((s0 + 1) * 512 + j)) [0..<length d] = d"
    by (rule nth_equalityI) (use w2(3) in \<open>simp_all add: nth_append\<close>)
  ultimately show ?thesis using w1(1) w2(1,2) d by (simp add: sd_holds_def)
qed

lemma sd_holds_loaded:
  assumes w: "world_ok ready u w" and h: "sd_holds s0 n (blk (dev (sd_card w))) d" and b: "length d \<le> length buf"
  shows "\<exists>w1 w2. sd_Read p st (le_bytes 4 0) 0 4 0 w = Some (0, le_bytes 4 (int (length d)), w1) \<and>
     sd_Read p st buf 1 (int (length d)) 0 w1 = Some (0, d @ drop (length d) buf, w2) \<and> world_ok ready u w2 \<and>
     sd_holds s0 n (blk (dev (sd_card w2))) d"
proof -
  have d: "0 < length d" "length d \<le> (n - 1) * 512" using h by (simp_all add: sd_holds_def)
  have n: "1 * 512 + 0 + length d \<le> n * 512" "0 * 512 + 0 + 4 \<le> n * 512" using d(2) place(4) by (simp_all add: diff_mult_distrib)
  obtain w1 where w1: "sd_Read p st (le_bytes 4 0) (int 0) (int 4) (int 0) w =
      Some (0, map (\<lambda>j. byte_at (blk (dev (sd_card w))) ((s0 + 0) * 512 + 0 + j)) [0..<4] @ drop 4 (le_bytes 4 0), w1)"
    "world_ok ready u w1" "blk (dev (sd_card w1)) = blk (dev (sd_card w))"
    using sd_Read_spec [OF w place(1-3) n(2), of "le_bytes 4 0"] by auto
  obtain w2 where w2: "sd_Read p st buf (int 1) (int (length d)) (int 0) w1 =
      Some (0, map (\<lambda>j. byte_at (blk (dev (sd_card w1))) ((s0 + 1) * 512 + 0 + j)) [0..<length d] @ drop (length d) buf, w2)"
    "world_ok ready u w2" "blk (dev (sd_card w2)) = blk (dev (sd_card w1))"
    using sd_Read_spec [OF w1(2) place(1-3) n(1) _ d(1) b] by auto
  have "drop 4 (le_bytes 4 0) = []" by simp
  moreover have "map (\<lambda>j. byte_at (blk (dev (sd_card w))) ((s0 + 0) * 512 + 0 + j)) [0..<4] = le_bytes 4 (int (length d))"
    using h by (simp add: sd_holds_def)
  moreover have "map (\<lambda>j. byte_at (blk (dev (sd_card w1))) ((s0 + 1) * 512 + 0 + j)) [0..<length d] = d"
    using h w1(3) by (simp add: sd_holds_def)
  ultimately show ?thesis using w1 w2 h by (simp only: of_nat_0 of_nat_1 of_nat_numeral append_Nil2) simp
qed

end

sublocale sd_store \<subseteq> cfg: config_store "sd_ops p st" "world_ok ready u" "\<lambda>w. sd_holds s0 n (blk (dev (sd_card w)))" "(n - 1) * 512"
proof
  show "\<exists>r1 st1 r2 st2. st_wr (sd_ops p st) (le_bytes 4 (int (length d))) 0 4 w = Some (r1, st1) \<and> r1 \<noteq> - 1 \<and>
      st_wr (sd_ops p st) (d @ junk) 1 (int (length d)) st1 = Some (r2, st2) \<and> r2 \<noteq> - 1 \<and> world_ok ready u st2 \<and>
      sd_holds s0 n (blk (dev (sd_card st2))) d"
    if "world_ok ready u w" "0 < length d" "length d \<le> (n - 1) * 512" for w d junk
  proof -
    have "(0 :: int) \<noteq> - 1" by simp
    then show ?thesis using sd_holds_stored [OF that, of junk] unfolding sd_ops_def store_ops.simps by blast
  qed
  show "\<exists>r1 st1 r2 st2. st_rd (sd_ops p st) (le_bytes 4 0) 0 4 w = Some (r1, le_bytes 4 (int (length d)), st1) \<and>
      st_rd (sd_ops p st) buf 1 (int (length d)) st1 = Some (r2, d @ drop (length d) buf, st2) \<and> world_ok ready u st2 \<and>
      sd_holds s0 n (blk (dev (sd_card st2))) d"
    if "world_ok ready u w" "sd_holds s0 n (blk (dev (sd_card w))) d" "length d \<le> length buf" for w d buf
    using sd_holds_loaded [OF that] unfolding sd_ops_def store_ops.simps by blast
  show "(n - 1) * 512 < 2 ^ 31" using place(5) by (simp add: diff_mult_distrib)
qed

text \<open>The store that the program has for the card: 100 sectors from the first on.\<close>

interpretation sim_store: sd_store sim_spi sim_ready sim_blk 4096 1 "\<lparr>iSectorStart = 0, nSectors = 100\<rparr>" 0 100
  by unfold_locales simp_all

end
