(* ===== verification/Sd_Ring.thy ===== *)
theory Sd_Ring
  imports Sd_Storage
begin

text \<open>
  A ring of records in a range of sectors of the SD card (\<open>sd.cpp\<close>, class \<open>sdCircBuff\<close>): each record is its length, four bytes, and
  its data. Where the code mixes \<open>sizeof\<close> with \<open>int\<close> values the comparison is unsigned. The pointers are never negative. The
  specification is a queue of records, \<open>sd_queue\<close>, for any sequence of calls (\<open>sd_run_queue\<close>).
\<close>

section \<open>Operations\<close>

record sdCircBuff = sdStorage +
  cb_size :: int
  cb_current :: int
  cb_pRead :: int
  cb_pWrite :: int

definition sdCircBuff_new :: "'c spi \<Rightarrow> bool \<Rightarrow> int \<Rightarrow> int \<Rightarrow> sdStorage \<Rightarrow> 'c sd_world \<Rightarrow> (sdCircBuff \<times> 'c sd_world) option" where
  "sdCircBuff_new p new start n old w = do {
     (st, w) \<leftarrow> sdStorage_new p new start n old w;
     (_, w) \<leftarrow> sd_Clear p 0 w;
     Some (\<lparr>iSectorStart = iSectorStart st, nSectors = nSectors st, cb_size = n * 512, cb_current = 0, cb_pRead = 0, cb_pWrite = 0\<rparr>, w)
   }"

definition ring_write :: "'c spi \<Rightarrow> sdCircBuff \<Rightarrow> bytes \<Rightarrow> int \<Rightarrow> int \<Rightarrow> 'c sd_world \<Rightarrow> (int \<times> 'c sd_world) option" where
  "ring_write p q buffer a len w = sd_Write p q buffer (a div 512) len (a mod 512) w"

definition ring_read :: "'c spi \<Rightarrow> sdCircBuff \<Rightarrow> bytes \<Rightarrow> int \<Rightarrow> int \<Rightarrow> 'c sd_world \<Rightarrow> (int \<times> bytes \<times> 'c sd_world) option" where
  "ring_read p q buffer a len w = sd_Read p q buffer (a div 512) len (a mod 512) w"

definition sd_unlock :: "'c sd_world \<Rightarrow> 'c sd_world" where
  "sd_unlock w = w\<lparr>sd_access := unlock (sd_access w)\<rparr>"

text \<open>The parts of \<open>Put\<close>; the flag says whether to go on. The outcome of the write of the data is not looked at in the first.\<close>

definition put_nosplit :: "'c spi \<Rightarrow> bytes \<Rightarrow> int \<Rightarrow> sdCircBuff \<Rightarrow> 'c sd_world \<Rightarrow> (bool \<times> sdCircBuff \<times> 'c sd_world) option" where
  "put_nosplit p buffer len q w = do {
     (err, w) \<leftarrow> ring_write p q (le_bytes 4 len) (cb_pWrite q) 4 w;
     if err = - 1 then Some (False, q, w)
     else do {
       let q = q\<lparr>cb_pWrite := cb_pWrite q + 4\<rparr>;
       (_, w) \<leftarrow> ring_write p q buffer (cb_pWrite q) len w;
       let q = q\<lparr>cb_pWrite := cb_pWrite q + len\<rparr>;
       Some (True, if cb_pWrite q = cb_size q then q\<lparr>cb_pWrite := 0\<rparr> else q, w)
     }
   }"

definition sd_put_header :: "'c spi \<Rightarrow> int \<Rightarrow> sdCircBuff \<Rightarrow> 'c sd_world \<Rightarrow> (bool \<times> sdCircBuff \<times> 'c sd_world) option" where
  "sd_put_header p len q w =
     (if 4 < u32_of (cb_size q - cb_pWrite q) then do {
        (err, w) \<leftarrow> ring_write p q (le_bytes 4 len) (cb_pWrite q) 4 w;
        Some (if err = - 1 then (False, q, w) else (True, q\<lparr>cb_pWrite := cb_pWrite q + 4\<rparr>, w))
      }
      else do {
        let sz = cb_size q - cb_pWrite q;
        (err, w) \<leftarrow> ring_write p q (le_bytes 4 len) (cb_pWrite q) sz w;
        if err = - 1 then Some (False, q, w)
        else do {
          (_, w) \<leftarrow> sd_Write p q (drop (nat sz) (le_bytes 4 len)) 0 (4 - sz) 0 w;
          Some (True, q\<lparr>cb_pWrite := 4 - sz\<rparr>, w)
        }
      })"

definition sd_put_data :: "'c spi \<Rightarrow> bytes \<Rightarrow> int \<Rightarrow> sdCircBuff \<Rightarrow> 'c sd_world \<Rightarrow> (bool \<times> sdCircBuff \<times> 'c sd_world) option" where
  "sd_put_data p buffer len q w =
     (if len < cb_size q - cb_pWrite q then do {
        (err, w) \<leftarrow> ring_write p q buffer (cb_pWrite q) len w;
        Some (if err = - 1 then (False, q, w) else (True, q\<lparr>cb_pWrite := cb_pWrite q + len\<rparr>, w))
      }
      else do {
        let sz = cb_size q - cb_pWrite q;
        (err, w) \<leftarrow> ring_write p q buffer (cb_pWrite q) sz w;
        if err = - 1 then Some (False, q, w)
        else do {
          (err, w) \<leftarrow> sd_Write p q (drop (nat sz) buffer) 0 (len - sz) 0 w;
          Some (if err = - 1 then (False, q, w) else (True, q\<lparr>cb_pWrite := len - sz\<rparr>, w))
        }
      })"

definition put_split :: "'c spi \<Rightarrow> bytes \<Rightarrow> int \<Rightarrow> sdCircBuff \<Rightarrow> 'c sd_world \<Rightarrow> (bool \<times> sdCircBuff \<times> 'c sd_world) option" where
  "put_split p buffer len q w =
     (if 4 = u32_of (cb_size q - cb_pWrite q) then do {
        (err, w) \<leftarrow> ring_write p q (le_bytes 4 len) (cb_pWrite q) 4 w;
        if err = - 1 then Some (False, q, w)
        else do {
          (err, w) \<leftarrow> sd_Write p q buffer 0 len 0 w;
          Some (if err = - 1 then (False, q, w) else (True, q\<lparr>cb_pWrite := len\<rparr>, w))
        }
      }
      else do {
        (ok, q, w) \<leftarrow> sd_put_header p len q w;
        if ok then sd_put_data p buffer len q w else Some (False, q, w)
      })"

text \<open>When there is no space the mutex is not released.\<close>

definition sdCirc_Put :: "'c spi \<Rightarrow> bytes \<Rightarrow> int \<Rightarrow> sdCircBuff \<Rightarrow> 'c sd_world \<Rightarrow> (int \<times> sdCircBuff \<times> 'c sd_world) option" where
  "sdCirc_Put p buffer len q w =
     (let (free, m) = trylock (sd_access w) in
      if free then
        let w = w\<lparr>sd_access := m\<rparr> in
        if len < 0 \<or> 2048 < len then Some (- 1, q, sd_unlock w)
        else if u32_of (cb_current q + len + 4) < u32_of (cb_size q) then do {
          (ok, q, w) \<leftarrow> (if u32_of (len + 4) \<le> u32_of (cb_size q - cb_pWrite q) then put_nosplit p buffer len q w else put_split p buffer len q w);
          Some (if ok then (len, q\<lparr>cb_current := cb_current q + (len + 4)\<rparr>, sd_unlock w) else (- 1, q, sd_unlock w))
        }
        else Some (- 1, q, w)
      else Some (0, q, w))"

text \<open>\<open>old\<close> are the bytes of the variable for the length. Behind the header the read pointer is reset when four bytes are left.\<close>

definition sd_get_header :: "'c spi \<Rightarrow> bytes \<Rightarrow> sdCircBuff \<Rightarrow> 'c sd_world \<Rightarrow> (bool \<times> int \<times> sdCircBuff \<times> 'c sd_world) option" where
  "sd_get_header p old q w =
     (if 4 \<le> u32_of (cb_size q - cb_pRead q) then do {
        (err, h, w) \<leftarrow> ring_read p q old (cb_pRead q) 4 w;
        if err = - 1 then Some (False, 0, q, w)
        else do {
          let q = q\<lparr>cb_pRead := cb_pRead q + 4\<rparr>;
          Some (True, int_val h, if 4 = u32_of (cb_size q - cb_pRead q) then q\<lparr>cb_pRead := 0\<rparr> else q, w)
        }
      }
      else do {
        let sz = cb_size q - cb_pRead q;
        (err, h, w) \<leftarrow> ring_read p q old (cb_pRead q) sz w;
        if err = - 1 then Some (False, 0, q, w)
        else do {
          (err, h', w) \<leftarrow> sd_Read p q (drop (nat sz) h) 0 (4 - sz) 0 w;
          Some (if err = - 1 then (False, 0, q, w) else (True, int_val (take (nat sz) h @ h'), q\<lparr>cb_pRead := 4 - sz\<rparr>, w))
        }
      })"

definition sd_get_data :: "'c spi \<Rightarrow> bytes \<Rightarrow> int \<Rightarrow> sdCircBuff \<Rightarrow> 'c sd_world \<Rightarrow> (bool \<times> bytes \<times> sdCircBuff \<times> 'c sd_world) option" where
  "sd_get_data p buffer len q w =
     (if len \<le> cb_size q - cb_pRead q then do {
        (err, buffer, w) \<leftarrow> ring_read p q buffer (cb_pRead q) len w;
        if err = - 1 then Some (False, buffer, q, w)
        else do {
          let q = q\<lparr>cb_pRead := cb_pRead q + len\<rparr>;
          Some (True, buffer, if len = cb_size q - cb_pRead q then q\<lparr>cb_pRead := 0\<rparr> else q, w)
        }
      }
      else do {
        let sz = cb_size q - cb_pRead q;
        (err, buffer, w) \<leftarrow> ring_read p q buffer (cb_pRead q) len w;
        if err = - 1 then Some (False, buffer, q, w)
        else do {
          (err, b, w) \<leftarrow> sd_Read p q (drop (nat sz) buffer) 0 (len - sz) 0 w;
          let buffer = take (nat sz) buffer @ b;
          Some (if err = - 1 then (False, buffer, q, w) else (True, buffer, q\<lparr>cb_pRead := len - sz\<rparr>, w))
        }
      })"

definition sdCirc_Get :: "'c spi \<Rightarrow> bytes \<Rightarrow> bytes \<Rightarrow> int \<Rightarrow> sdCircBuff \<Rightarrow> 'c sd_world \<Rightarrow> (int \<times> bytes \<times> sdCircBuff \<times> 'c sd_world) option" where
  "sdCirc_Get p old buffer len q w =
     (let (free, m) = trylock (sd_access w) in
      if free then
        let w = w\<lparr>sd_access := m\<rparr> in
        if cb_current q \<noteq> 0 then do {
          (ok, n, q, w) \<leftarrow> sd_get_header p old q w;
          if \<not> ok \<or> n \<le> 0 \<or> 2048 \<le> n \<or> len < n then Some (- 1, buffer, q, sd_unlock w)
          else do {
            (ok, buffer, q, w) \<leftarrow> sd_get_data p buffer n q w;
            Some (if ok then (n, buffer, q\<lparr>cb_current := cb_current q - (n + 4)\<rparr>, sd_unlock w) else (- 1, buffer, q, sd_unlock w))
          }
        }
        else Some (0, buffer, q, sd_unlock w)
      else Some (0, buffer, q, w))"

text \<open>\<open>Probe\<close> moves the read pointer when the header is the last thing in the ring.\<close>

definition sdCirc_Probe :: "'c spi \<Rightarrow> sdCircBuff \<Rightarrow> 'c sd_world \<Rightarrow> (int \<times> sdCircBuff \<times> 'c sd_world) option" where
  "sdCirc_Probe p q w =
     (let (free, m) = trylock (sd_access w) in
      if free then
        let w = w\<lparr>sd_access := m\<rparr> in
        if cb_current q \<noteq> 0 then
          if 4 \<le> u32_of (cb_size q - cb_pRead q) then do {
            (err, h, w) \<leftarrow> ring_read p q (le_bytes 4 0) (cb_pRead q) 4 w;
            if err = - 1 then Some (- 1, q, sd_unlock w)
            else Some (int_val h, if 4 = u32_of (cb_size q - cb_pRead q) then q\<lparr>cb_pRead := 0\<rparr> else q, sd_unlock w)
          }
          else do {
            let sz = cb_size q - cb_pRead q;
            (err, h, w) \<leftarrow> ring_read p q (le_bytes 4 0) (cb_pRead q) sz w;
            if err = - 1 then Some (- 1, q, sd_unlock w)
            else do {
              (err, h', w) \<leftarrow> sd_Read p q (drop (nat sz) h) 0 (4 - sz) 0 w;
              Some (if err = - 1 then - 1 else int_val (take (nat sz) h @ h'), q, sd_unlock w)
            }
          }
        else Some (0, q, sd_unlock w)
      else Some (0, q, w))"

section \<open>Records in the ring\<close>

definition sd_rec :: "bytes \<Rightarrow> bytes" where
  "sd_rec d = le_bytes 4 (int (length d)) @ d"

text \<open>The bytes of the store that starts at sector \<open>s0\<close>.\<close>

definition store_byte :: "nat \<Rightarrow> (nat \<Rightarrow> bytes) \<Rightarrow> nat \<Rightarrow> u8" where
  "store_byte s0 b a = byte_at b (s0 * 512 + a)"

text \<open>The ring is the range of \<open>n\<close> sectors from \<open>s0\<close>.\<close>

definition ring_at :: "nat \<Rightarrow> nat \<Rightarrow> sdCircBuff \<Rightarrow> bool" where
  "ring_at s0 n q \<longleftrightarrow> iSectorStart q = int s0 \<and> nSectors q = int n \<and> cb_size q = int (n * 512) \<and> n * 512 < 2 ^ 31"

lemma sector_of: "(s0 + a div 512) * 512 + a mod 512 = s0 * 512 + a" for s0 a :: nat
  by (simp add: add_mult_distrib)

lemma div_mod_int: "int a div 512 = int (a div 512)" "int a mod 512 = int (a mod 512)"
  by (simp_all add: zdiv_int zmod_int)

lemma u32_of_small: "0 \<le> x \<Longrightarrow> x < 2 ^ 32 \<Longrightarrow> u32_of x = x"
  by (simp add: u32_of_def)

context sd_protocol
begin

lemma ring_write_spec:
  assumes "world_ok ready u w" and "ring_at s0 n q" and "s0 + n \<le> nblk" and "a + len \<le> n * 512" and "0 < len" and "len \<le> length buffer"
  shows "\<exists>w'. ring_write p q buffer (int a) (int len) w = Some (0, w') \<and> world_ok ready u w' \<and>
     (\<forall>j<len. store_byte s0 (blk (dev (sd_card w'))) (a + j) = buffer ! j) \<and>
     (\<forall>j. j < a \<or> a + len + 511 \<le> j \<longrightarrow> store_byte s0 (blk (dev (sd_card w'))) j = store_byte s0 (blk (dev (sd_card w))) j)"
proof -
  have b: "a div 512 * 512 + a mod 512 + len \<le> n * 512" using assms(4) by simp
  have q: "iSectorStart q = int s0" "nSectors q = int n" using assms(2) by (simp_all add: ring_at_def)
  obtain w' where w': "sd_Write p q buffer (int (a div 512)) (int len) (int (a mod 512)) w = Some (0, w')" "world_ok ready u w'"
    "\<forall>j<len. byte_at (blk (dev (sd_card w'))) ((s0 + a div 512) * 512 + a mod 512 + j) = buffer ! j"
    "\<forall>x. x < (s0 + a div 512) * 512 + a mod 512 \<or> (s0 + a div 512) * 512 + a mod 512 + len \<le> x div 512 * 512 \<longrightarrow>
        byte_at (blk (dev (sd_card w'))) x = byte_at (blk (dev (sd_card w))) x"
    using sd_Write_spec [OF assms(1) q assms(3) b _ assms(5,6)] by auto
  have far: "s0 * 512 + a + len \<le> (s0 * 512 + j) div 512 * 512" if "a + len + 511 \<le> j" for j
  proof -
    have "(s0 * 512 + j) div 512 * 512 = s0 * 512 + j div 512 * 512" by (simp add: add_mult_distrib)
    moreover have "j mod 512 < 512" by simp
    then have "j \<le> j div 512 * 512 + 511" using div_mult_mod_eq [of j 512] by linarith
    ultimately show ?thesis using that by linarith
  qed
  have "store_byte s0 (blk (dev (sd_card w'))) j = store_byte s0 (blk (dev (sd_card w))) j" if "j < a \<or> a + len + 511 \<le> j" for j
    using w'(4) far [of j] that unfolding sector_of store_byte_def by auto
  moreover have "ring_write p q buffer (int a) (int len) w = Some (0, w')" using w'(1) by (simp add: ring_write_def div_mod_int)
  moreover have "\<forall>j<len. store_byte s0 (blk (dev (sd_card w'))) (a + j) = buffer ! j"
    using w'(3) unfolding sector_of store_byte_def by (simp add: add.assoc)
  ultimately show ?thesis using w'(2) by blast
qed

lemma ring_read_spec:
  assumes "world_ok ready u w" and "ring_at s0 n q" and "s0 + n \<le> nblk" and "a + len \<le> n * 512" and "0 < len" and "len \<le> length buffer"
  shows "\<exists>w'. ring_read p q buffer (int a) (int len) w =
       Some (0, map (store_byte s0 (blk (dev (sd_card w)))) [a..<a + len] @ drop len buffer, w') \<and> world_ok ready u w' \<and>
     blk (dev (sd_card w')) = blk (dev (sd_card w))"
proof -
  have b: "a div 512 * 512 + a mod 512 + len \<le> n * 512" using assms(4) by simp
  have q: "iSectorStart q = int s0" "nSectors q = int n" using assms(2) by (simp_all add: ring_at_def)
  obtain w' where w': "sd_Read p q buffer (int (a div 512)) (int len) (int (a mod 512)) w =
      Some (0, map (\<lambda>j. byte_at (blk (dev (sd_card w))) ((s0 + a div 512) * 512 + a mod 512 + j)) [0..<len] @ drop len buffer, w')"
    "world_ok ready u w'" "blk (dev (sd_card w')) = blk (dev (sd_card w))"
    using sd_Read_spec [OF assms(1) q assms(3) b _ assms(5,6)] by auto
  have "map (\<lambda>j. byte_at (blk (dev (sd_card w))) ((s0 + a div 512) * 512 + a mod 512 + j)) [0..<len] =
      map (store_byte s0 (blk (dev (sd_card w)))) [a..<a + len]"
    unfolding sector_of by (rule nth_equalityI) (simp_all add: store_byte_def add.assoc)
  then show ?thesis using w' by (simp add: ring_read_def div_mod_int)
qed

end

lemma world_unlock: "world_ok ready u (sd_unlock w) = world_ok ready u w" "sd_card (sd_unlock w) = sd_card w"
  by (simp_all add: world_ok_def sd_unlock_def)

lemma world_lock:
  assumes "world_ok ready u w"
  shows "\<exists>m. trylock (sd_access w) = (True, m) \<and> world_ok ready u (w\<lparr>sd_access := m\<rparr>)"
  using assms by (simp add: world_ok_def trylock_def)

lemma map_upt_append: "map f [a..<a + (j + k)] = map f [a..<a + j] @ map f [a + j..<a + j + k]" for a j k :: nat
  using upt_add_eq_append [of a "a + j" k] by (simp add: add.assoc)

context sd_protocol
begin

text \<open>One \<open>Put\<close> at the address \<open>a\<close>, when it does not reach the end of the ring.\<close>

lemma put_raw:
  assumes w: "world_ok ready u w" and q: "ring_at s0 n q" and s: "s0 + n \<le> nblk" and P: "cb_pWrite q = int a" "cb_current q = int c"
    and d: "0 < length d" "length d \<le> 2048" and room: "a + length (sd_rec d) < n * 512" "c + length (sd_rec d) < n * 512"
  shows "\<exists>w'. sdCirc_Put p d (int (length d)) q w =
      Some (int (length d), q\<lparr>cb_pWrite := int (a + length (sd_rec d)), cb_current := int (c + length (sd_rec d))\<rparr>, w') \<and> world_ok ready u w' \<and>
     map (store_byte s0 (blk (dev (sd_card w')))) [a..<a + length (sd_rec d)] = sd_rec d \<and>
     (\<forall>j<a. store_byte s0 (blk (dev (sd_card w'))) j = store_byte s0 (blk (dev (sd_card w))) j)"
proof -
  let ?l = "length d"
  have sz: "cb_size q = int (n * 512)" "n * 512 < 2 ^ 31" using q by (simp_all add: ring_at_def)
  have ls: "length (sd_rec d) = ?l + 4" by (simp add: sd_rec_def)
  obtain m where m: "trylock (sd_access w) = (True, m)" "world_ok ready u (w\<lparr>sd_access := m\<rparr>)" using world_lock [OF w] by blast
  let ?w = "w\<lparr>sd_access := m\<rparr>"
  have r1: "a + 4 \<le> n * 512" and r2: "a + 4 + ?l < n * 512" using room ls by simp_all
  obtain w1 where w1: "ring_write p q (le_bytes 4 (int ?l)) (int a) (int 4) ?w = Some (0, w1)" "world_ok ready u w1"
    "\<forall>j<4. store_byte s0 (blk (dev (sd_card w1))) (a + j) = le_bytes 4 (int ?l) ! j"
    "\<forall>j<a. store_byte s0 (blk (dev (sd_card w1))) j = store_byte s0 (blk (dev (sd_card ?w))) j"
    using ring_write_spec [OF m(2) q s r1, of "le_bytes 4 (int ?l)"] by auto
  let ?q = "q\<lparr>cb_pWrite := int (a + 4)\<rparr>"
  have q': "ring_at s0 n ?q" using q by (simp add: ring_at_def)
  obtain w2 where w2: "ring_write p ?q d (int (a + 4)) (int ?l) w1 = Some (0, w2)" "world_ok ready u w2"
    "\<forall>j<?l. store_byte s0 (blk (dev (sd_card w2))) (a + 4 + j) = d ! j"
    "\<forall>j<a + 4. store_byte s0 (blk (dev (sd_card w2))) j = store_byte s0 (blk (dev (sd_card w1))) j"
    using ring_write_spec [OF w1(2) q' s less_imp_le [OF r2] d(1) le_refl] by blast
  let ?B = "blk (dev (sd_card w2))"
  let ?q2 = "q\<lparr>cb_pWrite := int (a + 4 + ?l), cb_current := int (c + (?l + 4))\<rparr>"
  have e1: "u32_of (cb_current q + int ?l + 4) < u32_of (cb_size q)"
    using sz P(2) room(2) ls u32_of_small [of "int c + int ?l + 4"] u32_of_small [of "int (n * 512)"] by simp
  have e2: "u32_of (int ?l + 4) \<le> u32_of (cb_size q - cb_pWrite q)"
    using sz P(1) r2 u32_of_small [of "int ?l + 4"] u32_of_small [of "int (n * 512) - int a"] by simp
  have ns: "put_nosplit p d (int ?l) q ?w = Some (True, q\<lparr>cb_pWrite := int (a + 4 + ?l)\<rparr>, w2)"
    using w1(1) w2(1) sz(1) P(1) r2 by (simp add: put_nosplit_def Let_def add.assoc add.commute add.left_commute)
  have put: "sdCirc_Put p d (int ?l) q w = Some (int ?l, ?q2, sd_unlock w2)"
    using m(1) e1 e2 ns d P(2) by (simp add: sdCirc_Put_def Let_def)
  have old: "store_byte s0 ?B j = store_byte s0 (blk (dev (sd_card w))) j" if "j < a" for j using w1(4) w2(4) that by simp
  have b2: "map (store_byte s0 ?B) [a..<a + 4] = le_bytes 4 (int ?l)"
    by (rule nth_equalityI) (use w1(3) w2(4) in simp_all)
  have b3: "map (store_byte s0 ?B) [a + 4..<a + 4 + ?l] = d"
    by (rule nth_equalityI) (use w2(3) in simp_all)
  have "map (store_byte s0 ?B) [a..<a + (4 + ?l)] = sd_rec d" unfolding map_upt_append b2 b3 sd_rec_def ..
  then show ?thesis using put w2(2) old ls by (intro exI [of _ "sd_unlock w2"]) (simp add: world_unlock add.assoc add.commute)
qed

text \<open>One \<open>Get\<close>. When the rest of the ring behind the record is as long as its data, the read pointer goes back to the start.\<close>

lemma get_raw:
  assumes w: "world_ok ready u w" and q: "ring_at s0 n q" and s: "s0 + n \<le> nblk" and P: "cb_pRead q = int r" "cb_current q = int c" "c \<noteq> 0"
    and M: "map (store_byte s0 (blk (dev (sd_card w)))) [r..<r + length (sd_rec d)] = sd_rec d"
    and d: "0 < length d" "length d < 2048" "length d \<le> length buffer" and l: "int (length d) \<le> len" and old: "length old = 4"
    and room: "r + length (sd_rec d) \<le> n * 512" and gap: "n * 512 \<noteq> r + 8"
  shows "\<exists>q' w'. sdCirc_Get p old buffer len q w = Some (int (length d), d @ drop (length d) buffer, q', w') \<and> world_ok ready u w' \<and>
     blk (dev (sd_card w')) = blk (dev (sd_card w)) \<and>
     q' = q\<lparr>cb_pRead := (if r + 4 + length d + length d = n * 512 then 0 else int (r + 4 + length d)),
            cb_current := int c - int (length (sd_rec d))\<rparr>"
proof -
  let ?B = "blk (dev (sd_card w))" and ?l = "length d"
  have ls: "length (sd_rec d) = 4 + ?l" by (simp add: sd_rec_def)
  have sz: "cb_size q = int (n * 512)" "n * 512 < 2 ^ 31" using q by (simp_all add: ring_at_def)
  have M1: "map (store_byte s0 ?B) [r..<r + 4] = le_bytes 4 (int ?l)" and M2: "map (store_byte s0 ?B) [r + 4..<r + 4 + ?l] = d"
    using M [unfolded ls map_upt_append, unfolded sd_rec_def] by (simp_all add: append_eq_append_conv)
  obtain m where m: "trylock (sd_access w) = (True, m)" "world_ok ready u (w\<lparr>sd_access := m\<rparr>)" using world_lock [OF w] by blast
  let ?w = "w\<lparr>sd_access := m\<rparr>"
  have r1: "r + 4 \<le> n * 512" and r2: "r + 4 + ?l \<le> n * 512" using room ls by simp_all
  obtain w1 where w1: "ring_read p q old (int r) (int 4) ?w = Some (0, map (store_byte s0 (blk (dev (sd_card ?w)))) [r..<r + 4] @ drop 4 old, w1)"
    "world_ok ready u w1" "blk (dev (sd_card w1)) = blk (dev (sd_card ?w))"
    using ring_read_spec [OF m(2) q s r1, of old] old by auto
  let ?q = "q\<lparr>cb_pRead := int (r + 4)\<rparr>"
  have q': "ring_at s0 n ?q" using q by (simp add: ring_at_def)
  obtain w2 where w2: "ring_read p ?q buffer (int (r + 4)) (int ?l) w1 =
      Some (0, map (store_byte s0 (blk (dev (sd_card w1)))) [r + 4..<r + 4 + ?l] @ drop ?l buffer, w2)"
    "world_ok ready u w2" "blk (dev (sd_card w2)) = blk (dev (sd_card w1))"
    using ring_read_spec [OF w1(2) q' s r2 d(1,3)] by blast
  have B1: "blk (dev (sd_card w1)) = ?B" using w1(3) by simp
  have v: "int_val (le_bytes 4 (int ?l)) = int ?l" by (rule int_val_le_bytes) (use d in simp_all)
  have u1: "4 \<le> u32_of (cb_size q - cb_pRead q)" using sz P(1) r1 u32_of_small [of "int (n * 512) - int r"] by simp
  have "4 \<noteq> u32_of (int (n * 512) - int (r + 4))" using sz r1 gap u32_of_small [of "int (n * 512) - int (r + 4)"] by (simp add: algebra_simps)
  then have u2: "4 \<noteq> u32_of (cb_size q - (cb_pRead q + 4))" unfolding sz(1) P(1) by (simp add: algebra_simps)
  have hd: "sd_get_header p old q ?w = Some (True, int ?l, ?q, w1)"
    using u1 u2 w1(1) P(1) old v unfolding sd_get_header_def by (simp add: M1 add.commute)
  let ?q2 = "q\<lparr>cb_pRead := (if r + 4 + ?l + ?l = n * 512 then 0 else int (r + 4 + ?l))\<rparr>"
  have dt: "sd_get_data p buffer (int ?l) ?q w1 = Some (True, d @ drop ?l buffer, ?q2, w2)"
    using w2(1) r2 sz(1) unfolding B1 M2 sd_get_data_def by (simp add: Let_def add.commute add.left_commute)
  have "sdCirc_Get p old buffer len q w =
      Some (int ?l, d @ drop ?l buffer, ?q2\<lparr>cb_current := cb_current ?q2 - (int ?l + 4)\<rparr>, sd_unlock w2)"
    using m(1) hd dt P(2,3) d l by (simp add: sdCirc_Get_def Let_def)
  moreover have "cb_current ?q2 - (int ?l + 4) = int c - int (length (sd_rec d))" using P(2) ls by simp
  ultimately show ?thesis using w2(2,3) B1 by (intro exI [of _ "?q2\<lparr>cb_current := int c - int (length (sd_rec d))\<rparr>"] exI [of _ "sd_unlock w2"]) (simp add: world_unlock)
qed

end

section \<open>The bytes around the ring\<close>

text \<open>The \<open>k\<close> bytes of a ring of \<open>S\<close> bytes from the address \<open>r\<close> on, which go on at its start.\<close>

definition cells :: "nat \<Rightarrow> nat \<Rightarrow> (nat \<Rightarrow> bytes) \<Rightarrow> nat \<Rightarrow> nat \<Rightarrow> bytes" where
  "cells s0 S b r k = map (\<lambda>j. store_byte s0 b ((r + j) mod S)) [0..<k]"

lemma length_cells [simp]: "length (cells s0 S b r k) = k"
  by (simp add: cells_def)

lemma cells_append: "cells s0 S b r (k + l) = cells s0 S b r k @ cells s0 S b ((r + k) mod S) l"
  by (rule nth_equalityI) (auto simp: cells_def nth_append mod_simps add.assoc)

lemma cells_flat: "r + k \<le> S \<Longrightarrow> cells s0 S b r k = map (store_byte s0 b) [r..<r + k]"
  by (rule nth_equalityI) (simp_all add: cells_def)

lemma cells_split:
  assumes "cells s0 S b r (length x + length y) = x @ y"
  shows "cells s0 S b r (length x) = x" and "cells s0 S b ((r + length x) mod S) (length y) = y"
  using assms unfolding cells_append by simp_all

lemma around_neq: "(r + i) mod S = (r + j) mod S \<Longrightarrow> i < S \<Longrightarrow> j < S \<Longrightarrow> i = j" for i j r S :: nat
proof (induction i j rule: linorder_wlog)
  case (le i j)
  have "S dvd (r + j) - (r + i)" using le.prems(1) le.hyps by (subst mod_eq_dvd_iff_nat [symmetric]) simp_all
  then have "S dvd j - i" by simp
  then show ?case using le by (cases "j - i = 0") (auto dest: dvd_imp_le)
qed simp

text \<open>Where a piece lies when the address before it is known.\<close>

lemma around_pos:
  fixes a r c k S :: nat
  assumes "a = (r + c) mod S" and "a < S"
  shows "a + k < S \<Longrightarrow> (r + (c + k)) mod S = a + k" and "S \<le> a + k \<Longrightarrow> a + k < 2 * S \<Longrightarrow> (r + (c + k)) mod S = a + k - S"
proof -
  have e: "(r + (c + k)) mod S = (a + k) mod S" unfolding assms(1) by (simp only: mod_add_left_eq add.assoc)
  show "a + k < S \<Longrightarrow> (r + (c + k)) mod S = a + k" unfolding e by simp
  show "S \<le> a + k \<Longrightarrow> a + k < 2 * S \<Longrightarrow> (r + (c + k)) mod S = a + k - S" unfolding e by (simp add: le_mod_geq)
qed

context sd_protocol
begin

text \<open>A piece that is written behind \<open>c\<close> bytes of the ring. The rest of its last sector may be cleared, and so up to 511 bytes more must be free.\<close>

lemma ring_extend:
  assumes w: "world_ok ready u w" and q: "ring_at s0 n q" and s: "s0 + n \<le> nblk" and a: "a = (r + c) mod (n * 512)" and e: "a + len \<le> n * 512"
    and l: "0 < len" "len \<le> length buffer" and room: "c + len + 511 \<le> n * 512"
  shows "\<exists>w'. ring_write p q buffer (int a) (int len) w = Some (0, w') \<and> world_ok ready u w' \<and>
     cells s0 (n * 512) (blk (dev (sd_card w'))) r (c + len) = cells s0 (n * 512) (blk (dev (sd_card w))) r c @ take len buffer"
proof -
  obtain w' where w': "ring_write p q buffer (int a) (int len) w = Some (0, w')" "world_ok ready u w'"
    "\<forall>j<len. store_byte s0 (blk (dev (sd_card w'))) (a + j) = buffer ! j"
    "\<forall>j. j < a \<or> a + len + 511 \<le> j \<longrightarrow> store_byte s0 (blk (dev (sd_card w'))) j = store_byte s0 (blk (dev (sd_card w))) j"
    using ring_write_spec [OF w q s e l] by blast
  have "store_byte s0 (blk (dev (sd_card w'))) ((r + k) mod (n * 512)) = store_byte s0 (blk (dev (sd_card w))) ((r + k) mod (n * 512))" if k: "k < c" for k
  proof (rule ccontr)
    let ?x = "(r + k) mod (n * 512)"
    assume "store_byte s0 (blk (dev (sd_card w'))) ?x \<noteq> store_byte s0 (blk (dev (sd_card w))) ?x"
    then have "\<not> (?x < a \<or> a + len + 511 \<le> ?x)" using w'(4) by blast
    then obtain j where j: "?x = a + j" "j < len + 511" using le_Suc_ex [of a ?x] by auto
    have "0 < n * 512" using e l(1) by linarith
    then have "?x < n * 512" by (rule mod_less_divisor)
    then have "?x = (a + j) mod (n * 512)" using j(1) by simp
    then have "?x = (r + (c + j)) mod (n * 512)" unfolding a by (simp only: mod_add_left_eq add.assoc)
    then have "k = c + j" by (rule around_neq) (use k j(2) room in linarith)+
    then show False using k by simp
  qed
  then have "cells s0 (n * 512) (blk (dev (sd_card w'))) r c = cells s0 (n * 512) (blk (dev (sd_card w))) r c" by (simp add: cells_def)
  moreover have "cells s0 (n * 512) (blk (dev (sd_card w'))) a len = take len buffer"
    unfolding cells_flat [OF e] by (rule nth_equalityI) (use w'(3) l(2) in simp_all)
  ultimately have "cells s0 (n * 512) (blk (dev (sd_card w'))) r (c + len) = cells s0 (n * 512) (blk (dev (sd_card w))) r c @ take len buffer"
    unfolding cells_append [of s0 "n * 512" _ r c len] a [symmetric] by simp
  then show ?thesis using w'(1,2) by blast
qed

lemma ring_piece:
  assumes "world_ok ready u w" and "ring_at s0 n q" and "s0 + n \<le> nblk" and "(r + c) mod (n * 512) = a" and "a + length e \<le> n * 512"
    and "0 < length e" and "take (length e) buffer = e" and "c + length e + 511 \<le> n * 512"
  shows "\<exists>w'. ring_write p q buffer (int a) (int (length e)) w = Some (0, w') \<and> world_ok ready u w' \<and>
     cells s0 (n * 512) (blk (dev (sd_card w'))) r (c + length e) = cells s0 (n * 512) (blk (dev (sd_card w))) r c @ e"
proof -
  have "length e \<le> length buffer" using arg_cong [OF assms(7), of length] by simp
  from ring_extend [OF assms(1-3) assms(4) [symmetric] assms(5,6) this assms(8)] show ?thesis unfolding assms(7) .
qed

text \<open>The parts of \<open>Put\<close>: in one piece, and with the split between header and data, in the data, or in the header.\<close>

lemma put_nosplit_around:
  assumes w: "world_ok ready u w" and q: "ring_at s0 n q" and s: "s0 + n \<le> nblk"
    and a: "a = (r + c) mod (n * 512)" "a < n * 512" "cb_pWrite q = int a" "a + 4 + length d \<le> n * 512"
    and d: "0 < length d" "length d \<le> 2048" and room: "c + 4 + length d + 511 \<le> n * 512"
  shows "\<exists>w'. put_nosplit p d (int (length d)) q w = Some (True, q\<lparr>cb_pWrite := int ((r + (c + 4 + length d)) mod (n * 512))\<rparr>, w') \<and> world_ok ready u w' \<and>
     cells s0 (n * 512) (blk (dev (sd_card w'))) r (c + 4 + length d) = cells s0 (n * 512) (blk (dev (sd_card w))) r c @ sd_rec d"
proof -
  let ?S = "n * 512" and ?h = "le_bytes 4 (int (length d))"
  note pos = around_pos [OF a(1,2)]
  have sz: "cb_size q = int ?S" using q by (simp add: ring_at_def)
  obtain w1 where 1: "ring_write p q ?h (int a) 4 w = Some (0, w1)" "world_ok ready u w1"
    "cells s0 ?S (blk (dev (sd_card w1))) r (c + 4) = cells s0 ?S (blk (dev (sd_card w))) r c @ ?h"
    using ring_piece [OF w q s a(1) [symmetric], of ?h ?h] a(4) room by auto
  let ?q = "q\<lparr>cb_pWrite := int (a + 4)\<rparr>"
  have q1: "ring_at s0 n ?q" using q by (simp add: ring_at_def)
  have a4: "(r + (c + 4)) mod ?S = a + 4" using a(4) d(1) by (intro pos(1)) linarith
  obtain w2 where 2: "ring_write p ?q d (int (a + 4)) (int (length d)) w1 = Some (0, w2)" "world_ok ready u w2"
    "cells s0 ?S (blk (dev (sd_card w2))) r (c + 4 + length d) = cells s0 ?S (blk (dev (sd_card w1))) r (c + 4) @ d"
    using ring_piece [OF 1(2) q1 s a4 a(4), of d] d(1) room by auto
  have e: "(r + (c + 4 + length d)) mod ?S = (if a + 4 + length d = ?S then 0 else a + 4 + length d)"
    using pos [of "4 + length d"] a(2,4) by (auto simp: add.assoc)
  have "put_nosplit p d (int (length d)) q w = Some (True, q\<lparr>cb_pWrite := int ((r + (c + 4 + length d)) mod ?S)\<rparr>, w2)"
    unfolding e using 1(1) 2(1) a(3) sz by (auto simp: put_nosplit_def Let_def add.commute add.left_commute)
  then show ?thesis using 1(3) 2(2,3) by (simp add: sd_rec_def)
qed

lemma put_split_around:
  assumes w: "world_ok ready u w" and q: "ring_at s0 n q" and s: "s0 + n \<le> nblk"
    and a: "a = (r + c) mod (n * 512)" "a < n * 512" "cb_pWrite q = int a" "n * 512 < a + 4 + length d"
    and d: "0 < length d" "length d \<le> 2048" and room: "c + 4 + length d + 511 \<le> n * 512"
  shows "\<exists>w'. put_split p d (int (length d)) q w = Some (True, q\<lparr>cb_pWrite := int ((r + (c + 4 + length d)) mod (n * 512))\<rparr>, w') \<and> world_ok ready u w' \<and>
     cells s0 (n * 512) (blk (dev (sd_card w'))) r (c + 4 + length d) = cells s0 (n * 512) (blk (dev (sd_card w))) r c @ sd_rec d"
proof -
  let ?S = "n * 512" and ?l = "length d" and ?C = "\<lambda>w. cells s0 (n * 512) (blk (dev (sd_card w))) r"
  define h where "h = le_bytes 4 (int ?l)"
  have lh: "length h = 4" by (simp add: h_def)
  note pos = around_pos [OF a(1,2)]
  have sz: "cb_size q = int ?S" "?S < 2 ^ 31" using q by (simp_all add: ring_at_def)
  have ring: "ring_at s0 n (q\<lparr>cb_pWrite := x\<rparr>)" for x using q by (simp add: ring_at_def)
  have zero: "sd_Write p q' b 0 l 0 v = ring_write p q' b (int 0) l v" for q' :: sdCircBuff and b l v by (simp add: ring_write_def)
  have u: "u32_of (cb_size q - cb_pWrite q) = int (?S - a)" using sz a(2,3) u32_of_small [of "int ?S - int a"] by (simp add: of_nat_diff)
  have rec: "sd_rec d = h @ d" by (simp add: sd_rec_def h_def)
  consider (between) "a + 4 = ?S" | (data) "a + 4 < ?S" | (header) "?S < a + 4" by linarith
  then show ?thesis
  proof cases
    case between
    obtain w1 where 1: "ring_write p q h (int a) 4 w = Some (0, w1)" "world_ok ready u w1" "?C w1 (c + 4) = ?C w c @ h"
      using ring_piece [OF w q s a(1) [symmetric], of h h] between lh room by auto
    have a4: "(r + (c + 4)) mod ?S = 0" using pos(2) [of 4] between a(2) by simp
    obtain w2 where 2: "ring_write p q d (int 0) (int ?l) w1 = Some (0, w2)" "world_ok ready u w2" "?C w2 (c + 4 + ?l) = ?C w1 (c + 4) @ d"
      using ring_piece [OF 1(2) q s a4, of d d] d(1) room by auto
    have e: "(r + (c + 4 + ?l)) mod ?S = ?l" using pos(2) [of "4 + ?l"] between a(2) room by (simp add: add.assoc)
    have "?S - a = 4" using between by linarith
    then have "put_split p d (int ?l) q w = Some (True, q\<lparr>cb_pWrite := int ?l\<rparr>, w2)"
      using 1(1) 2(1) a(3) unfolding put_split_def u zero h_def [symmetric] by simp
    then show ?thesis unfolding e rec using 1(3) 2(2,3) by simp
  next
    case data
    define z where "z = ?S - (a + 4)"
    define x where "x = take z d"
    define y where "y = drop z d"
    have sp: "0 < z" "z < ?l" "a + 4 + z = ?S" using data a(4) unfolding z_def by linarith+
    then have lx: "length x = z" and ly: "length y = ?l - z" and dxy: "d = x @ y" by (simp_all add: x_def y_def)
    obtain w1 where 1: "ring_write p q h (int a) 4 w = Some (0, w1)" "world_ok ready u w1" "?C w1 (c + 4) = ?C w c @ h"
      using ring_piece [OF w q s a(1) [symmetric], of h h] data lh room by auto
    let ?q = "q\<lparr>cb_pWrite := int (a + 4)\<rparr>"
    have a4: "(r + (c + 4)) mod ?S = a + 4" using pos(1) [of 4] data by simp
    have r1: "a + 4 + length x \<le> ?S" "0 < length x" "c + 4 + length x + 511 \<le> ?S" and t1: "take (length x) d = x"
      unfolding lx using sp room by (linarith | simp add: x_def)+
    obtain w2 where 2: "ring_write p ?q d (int (a + 4)) (int z) w1 = Some (0, w2)" "world_ok ready u w2" "?C w2 (c + 4 + length x) = ?C w1 (c + 4) @ x"
      using ring_piece [OF 1(2) ring s a4 r1(1,2) t1 r1(3)] unfolding lx by blast
    have a5: "(r + (c + 4 + length x)) mod ?S = 0" using pos(2) [of "4 + z"] sp(3) a(2) unfolding lx by (simp add: add.assoc)
    have r2: "0 + length y \<le> ?S" "0 < length y" "c + 4 + length x + length y + 511 \<le> ?S" and t2: "take (length y) y = y"
      unfolding lx using ly sp room by (linarith | simp)+
    obtain w3 where 3: "ring_write p ?q y (int 0) (int (length y)) w2 = Some (0, w3)" "world_ok ready u w3"
      "?C w3 (c + 4 + length x + length y) = ?C w2 (c + 4 + length x) @ y"
      using ring_piece [OF 2(2) ring s a5 r2(1,2) t2 r2(3)] by blast
    have L: "c + 4 + length x + length y = c + 4 + ?l" using sp lx ly by linarith
    have e: "(r + (c + 4 + ?l)) mod ?S = length y" using pos(2) [of "4 + ?l"] sp a(2) room ly by (simp add: add.assoc)
    have H: "sd_put_header p (int ?l) q w = Some (True, ?q, w1)"
      using data 1(1) a(3) unfolding sd_put_header_def u h_def [symmetric] by (simp add: add.commute)
    have sz1: "cb_size ?q - cb_pWrite ?q = int z" using sz(1) sp(3) by simp
    have len2: "int ?l - int z = int (length y)" using ly sp by simp
    have D: "sd_put_data p d (int ?l) ?q w1 = Some (True, q\<lparr>cb_pWrite := int (length y)\<rparr>, w3)"
      unfolding sd_put_data_def Let_def sz1 len2 zero using 2(1) 3(1) sp(2) by (simp flip: y_def)
    have "put_split p d (int ?l) q w = Some (True, q\<lparr>cb_pWrite := int (length y)\<rparr>, w3)"
      using H D data unfolding put_split_def u by auto
    moreover have "?C w3 (c + 4 + ?l) = ?C w c @ sd_rec d" using 1(3) 2(3) 3(3) unfolding L rec using dxy by simp
    ultimately show ?thesis unfolding e using 3(2) by blast
  next
    case header
    define z where "z = ?S - a"
    define x where "x = take z h"
    define y where "y = drop z h"
    have sp: "0 < z" "z < 4" "a + z = ?S" using header a(2) unfolding z_def by linarith+
    then have lx: "length x = z" and ly: "length y = 4 - z" and hxy: "h = x @ y" using lh by (simp_all add: x_def y_def)
    have r1: "a + length x \<le> ?S" "0 < length x" "c + length x + 511 \<le> ?S" and t1: "take (length x) h = x"
      unfolding lx using sp room by (linarith | simp add: x_def)+
    obtain w1 where 1: "ring_write p q h (int a) (int z) w = Some (0, w1)" "world_ok ready u w1" "?C w1 (c + length x) = ?C w c @ x"
      using ring_piece [OF w q s a(1) [symmetric] r1(1,2) t1 r1(3)] unfolding lx by blast
    have a4: "(r + (c + length x)) mod ?S = 0" using pos(2) [of z] sp(3) a(2) unfolding lx by simp
    have r2: "0 + length y \<le> ?S" "0 < length y" "c + length x + length y + 511 \<le> ?S" and t2: "take (length y) y = y"
      unfolding lx using ly sp room by (linarith | simp)+
    obtain w2 where 2: "ring_write p q y (int 0) (int (length y)) w1 = Some (0, w2)" "world_ok ready u w2"
      "?C w2 (c + length x + length y) = ?C w1 (c + length x) @ y"
      using ring_piece [OF 1(2) q s a4 r2(1,2) t2 r2(3)] by blast
    have L: "c + length x + length y = c + 4" using sp lx ly by linarith
    let ?q = "q\<lparr>cb_pWrite := int (length y)\<rparr>"
    have a5: "(r + (c + 4)) mod ?S = length y" using pos(2) [of 4] sp a(2) ly room by simp
    have r3: "length y + ?l \<le> ?S" "c + 4 + ?l + 511 \<le> ?S" using ly room sp by linarith+
    obtain w3 where 3: "ring_write p ?q d (int (length y)) (int ?l) w2 = Some (0, w3)" "world_ok ready u w3" "?C w3 (c + 4 + ?l) = ?C w2 (c + 4) @ d"
      using ring_piece [OF 2(2) ring s a5 r3(1) d(1) take_all [OF le_refl] r3(2)] by blast
    have e: "(r + (c + 4 + ?l)) mod ?S = length y + ?l" using pos(2) [of "4 + ?l"] a(2) sp room ly by (simp add: add.assoc)
    have sz0: "cb_size q - cb_pWrite q = int z" using sz(1) a(3) sp(3) by simp
    have u': "u32_of (cb_size q - cb_pWrite q) = int z" unfolding u z_def ..
    have len2: "4 - int z = int (length y)" using ly sp by simp
    have H: "sd_put_header p (int ?l) q w = Some (True, ?q, w2)"
      unfolding sd_put_header_def Let_def u' sz0 len2 zero h_def [symmetric] using sp 1(1) 2(1) a(3) u32_of_small [of "int z"] by (simp flip: y_def)
    have D: "sd_put_data p d (int ?l) ?q w2 = Some (True, q\<lparr>cb_pWrite := int (length y + ?l)\<rparr>, w3)"
      using 3(1) room sz(1) ly sp unfolding sd_put_data_def by simp
    have "put_split p d (int ?l) q w = Some (True, q\<lparr>cb_pWrite := int (length y + ?l)\<rparr>, w3)"
      unfolding put_split_def u' using H D sp by auto
    moreover have "?C w3 (c + 4 + ?l) = ?C w c @ sd_rec d" using 1(3) 2(3) 3(3) unfolding L rec using hxy by simp
    ultimately show ?thesis unfolding e using 3(2) by blast
  qed
qed

lemma put_around:
  assumes w: "world_ok ready u w" and q: "ring_at s0 n q" and s: "s0 + n \<le> nblk"
    and P: "cb_pWrite q = int ((r + c) mod (n * 512))" "cb_current q = int c"
    and d: "0 < length d" "length d \<le> 2048" and room: "c + length (sd_rec d) + 511 \<le> n * 512"
  shows "\<exists>w'. sdCirc_Put p d (int (length d)) q w = Some (int (length d),
        q\<lparr>cb_pWrite := int ((r + (c + length (sd_rec d))) mod (n * 512)), cb_current := int (c + length (sd_rec d))\<rparr>, w') \<and>
     world_ok ready u w' \<and>
     cells s0 (n * 512) (blk (dev (sd_card w'))) r (c + length (sd_rec d)) = cells s0 (n * 512) (blk (dev (sd_card w))) r c @ sd_rec d"
proof -
  let ?l = "length d" and ?S = "n * 512" and ?C = "\<lambda>w. cells s0 (n * 512) (blk (dev (sd_card w))) r"
  define a where "a = (r + c) mod ?S"
  have L: "c + length (sd_rec d) = c + 4 + ?l" by (simp add: sd_rec_def)
  have sz: "cb_size q = int ?S" "?S < 2 ^ 31" using q by (simp_all add: ring_at_def)
  have aS: "a < ?S" unfolding a_def using room L by (intro mod_less_divisor) linarith
  have P': "cb_pWrite q = int a" using P(1) by (simp add: a_def)
  have room': "c + 4 + ?l + 511 \<le> ?S" using room L by simp
  obtain m where m: "trylock (sd_access w) = (True, m)" "world_ok ready u (w\<lparr>sd_access := m\<rparr>)" using world_lock [OF w] by blast
  let ?w = "w\<lparr>sd_access := m\<rparr>"
  let ?put = "if u32_of (int ?l + 4) \<le> u32_of (cb_size q - cb_pWrite q) then put_nosplit p d (int ?l) q ?w else put_split p d (int ?l) q ?w"
  have c: "u32_of (int ?l + 4) \<le> u32_of (cb_size q - cb_pWrite q) \<longleftrightarrow> a + 4 + ?l \<le> ?S"
    using sz P' aS d(2) u32_of_small [of "int ?l + 4"] u32_of_small [of "int ?S - int a"] by auto
  obtain w2 where w2: "?put = Some (True, q\<lparr>cb_pWrite := int ((r + (c + 4 + ?l)) mod ?S)\<rparr>, w2)" "world_ok ready u w2"
    "?C w2 (c + 4 + ?l) = ?C ?w c @ sd_rec d"
    using put_nosplit_around [OF m(2) q s a_def aS P' _ d room'] put_split_around [OF m(2) q s a_def aS P' _ d room'] unfolding c
    by (cases "a + 4 + ?l \<le> ?S") auto
  have e1: "u32_of (cb_current q + int ?l + 4) < u32_of (cb_size q)"
    using sz P(2) room' u32_of_small [of "int c + int ?l + 4"] u32_of_small [of "int ?S"] by simp
  have "sdCirc_Put p d (int ?l) q w = Some (int ?l, q\<lparr>cb_pWrite := int ((r + (c + 4 + ?l)) mod ?S), cb_current := int c + (int ?l + 4)\<rparr>, sd_unlock w2)"
    using m(1) e1 w2(1) d P(2) by (simp add: sdCirc_Put_def Let_def)
  moreover have "int c + (int ?l + 4) = int (c + 4 + ?l)" by simp
  ultimately show ?thesis using w2(2,3) unfolding L by (intro exI [of _ "sd_unlock w2"]) (simp add: world_unlock)
qed

text \<open>Without enough space, or for a longer record, \<open>Put\<close> only answers \<open>- 1\<close>.\<close>

lemma put_refused:
  assumes w: "world_ok ready u w" and q: "ring_at s0 n q" and P: "cb_current q = int c" "c < n * 512"
    and l: "2048 < length d \<or> n * 512 \<le> c + length (sd_rec d)"
  shows "\<exists>w'. sdCirc_Put p d (int (length d)) q w = Some (- 1, q, w') \<and> world_ok ready u w' \<and> blk (dev (sd_card w')) = blk (dev (sd_card w))"
proof -
  obtain m where m: "trylock (sd_access w) = (True, m)" "world_ok ready u (w\<lparr>sd_access := m\<rparr>)" using world_lock [OF w] by blast
  have sz: "cb_size q = int (n * 512)" "n * 512 < 2 ^ 31" using q by (simp_all add: ring_at_def)
  show ?thesis
  proof (cases "2048 < length d")
    case True
    then show ?thesis using m by (intro exI [of _ "sd_unlock (w\<lparr>sd_access := m\<rparr>)"]) (simp add: sdCirc_Put_def world_unlock)
  next
    case False
    then have "\<not> u32_of (cb_current q + int (length d) + 4) < u32_of (cb_size q)"
      using sz P l u32_of_small [of "int c + int (length d) + 4"] u32_of_small [of "int (n * 512)"] by (simp add: sd_rec_def)
    then show ?thesis using m False by (intro exI [of _ "w\<lparr>sd_access := m\<rparr>"]) (simp add: sdCirc_Put_def)
  qed
qed

text \<open>Reads.\<close>

lemma read_cells:
  assumes "world_ok ready u w" and "ring_at s0 n q" and "s0 + n \<le> nblk" and "a + len \<le> n * 512" and "0 < len" and "len \<le> length buffer"
  shows "\<exists>w'. ring_read p q buffer (int a) (int len) w = Some (0, cells s0 (n * 512) (blk (dev (sd_card w))) a len @ drop len buffer, w') \<and>
     world_ok ready u w' \<and> blk (dev (sd_card w')) = blk (dev (sd_card w))"
  using ring_read_spec [OF assms] by (simp add: cells_flat [OF assms(4)])

text \<open>A read over the end of the ring stops there.\<close>

lemma ring_read_cut:
  assumes "ring_at s0 n q" and "a \<le> n * 512" and "int (n * 512 - a) \<le> len"
  shows "ring_read p q buffer (int a) len w = ring_read p q buffer (int a) (int (n * 512 - a)) w"
proof -
  have q: "nSectors q = int n" using assms(1) by (simp add: ring_at_def)
  have "int (a div 512 * 512 + a mod 512) = int a" by (simp only: div_mult_mod_eq)
  then have "int (a div 512) * 512 + int (a mod 512) = int a" by (simp only: of_nat_add of_nat_mult of_nat_numeral)
  then have room: "(int n - int (a div 512)) * 512 - int (a mod 512) = int (n * 512 - a)" using assms(2) by (simp add: of_nat_diff left_diff_distrib)
  have cut: "(if int (n * 512 - a) < len then int (n * 512 - a) else len) = int (n * 512 - a)" using assms(3) by simp
  show ?thesis unfolding ring_read_def sd_Read_def q div_mod_int Let_def room cut if_cancel ..
qed

text \<open>\<open>Get\<close>: the header and the data, each in one piece or split.\<close>

lemma get_header_around:
  assumes w: "world_ok ready u w" and q: "ring_at s0 n q" and s: "s0 + n \<le> nblk" and P: "cb_pRead q = int r" "r < n * 512"
    and h: "cells s0 (n * 512) (blk (dev (sd_card w))) r 4 = le_bytes 4 (int l)" and l: "l < 2 ^ 31" and old: "length old = 4"
    and ends: "r + 4 \<noteq> n * 512" "(r + 4) mod (n * 512) + 4 \<noteq> n * 512"
  shows "\<exists>w'. sd_get_header p old q w = Some (True, int l, q\<lparr>cb_pRead := int ((r + 4) mod (n * 512))\<rparr>, w') \<and> world_ok ready u w' \<and>
     blk (dev (sd_card w')) = blk (dev (sd_card w))"
proof -
  let ?S = "n * 512" and ?C = "cells s0 (n * 512) (blk (dev (sd_card w)))"
  have sz: "cb_size q = int ?S" "?S < 2 ^ 31" using q by (simp_all add: ring_at_def)
  have v: "int_val (le_bytes 4 (int l)) = int l" by (rule int_val_le_bytes) (use l in simp_all)
  show ?thesis
  proof (cases "r + 4 \<le> ?S")
    case True
    then have r4: "r + 4 < ?S" using ends(1) by simp
    define k where "k = ?S - r"
    define m where "m = ?S - (r + 4)"
    have e: "(r + 4) mod ?S = r + 4" using r4 by simp
    have km: "4 \<le> k" "m \<noteq> 4" "r + k = ?S" "r + 4 + m = ?S" using ends(2) r4 unfolding e k_def m_def by linarith+
    have k: "cb_size q - cb_pRead q = int k" and m: "cb_size q - (cb_pRead q + 4) = int m" using sz(1) P(1) km(3,4) by linarith+
    have u1: "u32_of (cb_size q - cb_pRead q) = int k" unfolding k by (rule u32_of_small) (use sz(2) km(3) in simp_all)
    have u2: "u32_of (cb_size q - (cb_pRead q + 4)) = int m" unfolding m by (rule u32_of_small) (use sz(2) km(4) in simp_all)
    obtain w1 where 1: "ring_read p q old (int r) 4 w = Some (0, le_bytes 4 (int l), w1)" "world_ok ready u w1" "blk (dev (sd_card w1)) = blk (dev (sd_card w))"
      using read_cells [OF w q s True, of old] old h by auto
    have "ring_read p q old (cb_pRead q) 4 w = Some (0, le_bytes 4 (int l), w1)" unfolding P(1) by (rule 1(1))
    then have "sd_get_header p old q w = Some (True, int l, q\<lparr>cb_pRead := cb_pRead q + 4\<rparr>, w1)"
      unfolding sd_get_header_def u1 using km u2 v by (simp add: Let_def)
    then have "sd_get_header p old q w = Some (True, int l, q\<lparr>cb_pRead := int (r + 4)\<rparr>, w1)" unfolding P(1) by simp
    then show ?thesis unfolding e using 1(2,3) by blast
  next
    case False
    define z where "z = ?S - r"
    have z: "0 < z" "z < 4" "r + z = ?S" using False P(2) unfolding z_def by linarith+
    have sz1: "cb_size q - cb_pRead q = int z" using sz(1) P(1) z(3) by linarith
    have u1: "u32_of (int z) = int z" by (rule u32_of_small) (use z(2) in simp_all)
    have S4: "4 \<le> ?S" using P(2) by (cases n) simp_all
    have r0: "(r + z) mod ?S = 0" using z(3) by simp
    have "?C r (z + (4 - z)) = ?C r z @ ?C 0 (4 - z)" unfolding cells_append r0 ..
    then have h2: "?C r z @ ?C 0 (4 - z) = le_bytes 4 (int l)" using h z(2) by simp
    have k: "r + z \<le> ?S" "z \<le> length old" using z old by simp_all
    obtain w1 where 1: "ring_read p q old (int r) (int z) w = Some (0, ?C r z @ drop z old, w1)" "world_ok ready u w1" "blk (dev (sd_card w1)) = blk (dev (sd_card w))"
      using read_cells [OF w q s k(1) z(1) k(2)] by blast
    have k2: "0 + (4 - z) \<le> ?S" "0 < 4 - z" "4 - z \<le> length (drop z old)" using z old S4 by (linarith | simp)+
    obtain w2 where 2: "ring_read p q (drop z old) (int 0) (int (4 - z)) w1 = Some (0, ?C 0 (4 - z) @ drop (4 - z) (drop z old), w2)" "world_ok ready u w2"
      "blk (dev (sd_card w2)) = blk (dev (sd_card w1))"
      using read_cells [OF 1(2) q s k2] unfolding 1(3) by blast
    have "sd_Read p q (drop z old) 0 (4 - int z) 0 w1 = Some (0, ?C 0 (4 - z), w2)"
      using 2(1) z(2) old by (simp add: ring_read_def of_nat_diff)
    then have "sd_get_header p old q w = Some (True, int_val (?C r z @ ?C 0 (4 - z)), q\<lparr>cb_pRead := 4 - int z\<rparr>, w2)"
      unfolding sd_get_header_def sz1 u1 Let_def using 1(1) P(1) z(2) by simp
    moreover have "4 - int z = int ((r + 4) mod ?S)"
    proof -
      have e: "r + 4 = ?S + (4 - z)" and lt: "4 - z < ?S" using z S4 by linarith+
      have "(r + 4) mod ?S = 4 - z" unfolding e using lt by simp
      then show ?thesis using z(2) by simp
    qed
    ultimately show ?thesis using 1(3) 2(2,3) unfolding h2 v by auto
  qed
qed

lemma get_data_around:
  assumes w: "world_ok ready u w" and q: "ring_at s0 n q" and s: "s0 + n \<le> nblk" and P: "cb_pRead q = int r" "r < n * 512"
    and c: "cells s0 (n * 512) (blk (dev (sd_card w))) r (length d) = d" and d: "0 < length d" "length d < n * 512" "length d \<le> length buffer"
    and ends: "r + length d \<noteq> n * 512" "r + 2 * length d \<noteq> n * 512"
  shows "\<exists>w'. sd_get_data p buffer (int (length d)) q w =
       Some (True, d @ drop (length d) buffer, q\<lparr>cb_pRead := int ((r + length d) mod (n * 512))\<rparr>, w') \<and> world_ok ready u w' \<and>
     blk (dev (sd_card w')) = blk (dev (sd_card w))"
proof -
  let ?S = "n * 512" and ?l = "length d" and ?C = "cells s0 (n * 512) (blk (dev (sd_card w)))"
  have sz: "cb_size q = int ?S" using q by (simp add: ring_at_def)
  show ?thesis
  proof (cases "r + ?l \<le> ?S")
    case True
    obtain w1 where 1: "ring_read p q buffer (int r) (int ?l) w = Some (0, d @ drop ?l buffer, w1)" "world_ok ready u w1" "blk (dev (sd_card w1)) = blk (dev (sd_card w))"
      using read_cells [OF w q s True d(1,3)] unfolding c by blast
    have e: "(r + ?l) mod ?S = r + ?l" using True ends(1) by simp
    have ne: "int ?l \<noteq> int ?S - (int r + int ?l)" "int ?l \<le> int ?S - int r" using True ends(2) by linarith+
    have "sd_get_data p buffer (int ?l) q w = Some (True, d @ drop ?l buffer, q\<lparr>cb_pRead := int r + int ?l\<rparr>, w1)"
      unfolding sd_get_data_def sz P(1) using 1(1) ne P(1) sz by simp
    then show ?thesis unfolding e using 1(2,3) by simp
  next
    case False
    define z where "z = ?S - r"
    have z: "0 < z" "z < ?l" "r + z = ?S" using False P(2) unfolding z_def by linarith+
    have sz1: "cb_size q - int r = int z" using sz z by simp
    have r0: "(r + z) mod ?S = 0" using z(3) by simp
    have "?C r (z + (?l - z)) = ?C r z @ ?C 0 (?l - z)" unfolding cells_append r0 ..
    then have c2: "?C r z @ ?C 0 (?l - z) = d" using c z(2) by simp
    have k: "r + z \<le> ?S" "z \<le> length buffer" "r \<le> ?S" "int (?S - r) \<le> int ?l" using z d by simp_all
    let ?b = "?C r z @ drop z buffer"
    obtain w1 where 1: "ring_read p q buffer (int r) (int z) w = Some (0, ?b, w1)" "world_ok ready u w1" "blk (dev (sd_card w1)) = blk (dev (sd_card w))"
      using read_cells [OF w q s k(1) z(1) k(2)] by blast
    have rd1: "ring_read p q buffer (int r) (int ?l) w = Some (0, ?b, w1)" using ring_read_cut [OF q k(3,4)] 1(1) unfolding z_def by simp
    have k2: "0 + (?l - z) \<le> ?S" "0 < ?l - z" "?l - z \<le> length (drop z ?b)" using z d by simp_all
    obtain w2 where 2: "ring_read p q (drop z ?b) (int 0) (int (?l - z)) w1 = Some (0, ?C 0 (?l - z) @ drop (?l - z) (drop z ?b), w2)" "world_ok ready u w2"
      "blk (dev (sd_card w2)) = blk (dev (sd_card w1))"
      using read_cells [OF 1(2) q s k2] unfolding 1(3) by blast
    have len: "int ?l - int z = int (?l - z)" using z(2) by simp
    have "drop (?l - z) (drop z ?b) = drop ?l buffer" using z(2) by simp
    then have rd2: "sd_Read p q (drop z ?b) 0 (int ?l - int z) 0 w1 = Some (0, ?C 0 (?l - z) @ drop ?l buffer, w2)"
      using 2(1) unfolding len by (simp add: ring_read_def)
    have "sd_get_data p buffer (int ?l) q w = Some (True, (?C r z @ ?C 0 (?l - z)) @ drop ?l buffer, q\<lparr>cb_pRead := int ?l - int z\<rparr>, w2)"
      unfolding sd_get_data_def Let_def P(1) sz1 using rd1 rd2 z(2) by simp
    moreover have "int ?l - int z = int ((r + ?l) mod ?S)"
    proof -
      have "(r + ?l) mod ?S = (r + ?l - ?S) mod ?S" using z by (intro le_mod_geq) linarith
      also have "\<dots> = ?l - z" using z d(2) by (intro trans [OF mod_less]) linarith+
      finally show ?thesis unfolding len by simp
    qed
    ultimately show ?thesis using 1(3) 2(2,3) unfolding c2 by auto
  qed
qed

end

text \<open>A record of \<open>l\<close> bytes at the address \<open>r\<close> that \<open>Get\<close> can pass. It cannot when the header or the data end with the ring, for then the
  read pointer stays behind the end, nor when the rest of the ring is 4 bytes behind the header, or as long as the data behind the
  data, for then \<open>Get\<close> takes it for the end.\<close>

definition passable :: "nat \<Rightarrow> nat \<Rightarrow> nat \<Rightarrow> bool" where
  "passable S r l \<longleftrightarrow> r + 4 \<noteq> S \<and> (let h = (r + 4) mod S in h + 4 \<noteq> S \<and> h + l \<noteq> S \<and> h + 2 * l \<noteq> S)"

context sd_protocol
begin

lemma get_around:
  assumes w: "world_ok ready u w" and q: "ring_at s0 n q" and s: "s0 + n \<le> nblk" and P: "cb_pRead q = int r" "r < n * 512" "cb_current q = int c" "c \<noteq> 0"
    and t: "cells s0 (n * 512) (blk (dev (sd_card w))) r (length (sd_rec d)) = sd_rec d" "length (sd_rec d) < n * 512"
    and d: "0 < length d" "length d < 2048" "length d \<le> length buffer" and l: "int (length d) \<le> len" and old: "length old = 4"
    and ok: "passable (n * 512) r (length d)"
  shows "\<exists>w'. sdCirc_Get p old buffer len q w = Some (int (length d), d @ drop (length d) buffer,
       q\<lparr>cb_pRead := int ((r + length (sd_rec d)) mod (n * 512)), cb_current := int c - int (length (sd_rec d))\<rparr>, w') \<and> world_ok ready u w' \<and>
     blk (dev (sd_card w')) = blk (dev (sd_card w))"
proof -
  let ?S = "n * 512" and ?B = "blk (dev (sd_card w))" and ?l = "length d"
  have ls: "length (sd_rec d) = length (le_bytes 4 (int ?l)) + ?l" by (simp add: sd_rec_def)
  have C: "cells s0 ?S ?B r 4 = le_bytes 4 (int ?l)" "cells s0 ?S ?B ((r + 4) mod ?S) ?l = d"
    using cells_split [OF t(1) [unfolded ls, unfolded sd_rec_def]] by simp_all
  define h where "h = (r + 4) mod ?S"
  have h: "r + 4 \<noteq> ?S" "h + 4 \<noteq> ?S" "h + ?l \<noteq> ?S" "h + 2 * ?l \<noteq> ?S" using ok by (simp_all add: passable_def Let_def h_def)
  have hS: "h < ?S" unfolding h_def using P(2) by (intro mod_less_divisor) linarith
  obtain m where m: "trylock (sd_access w) = (True, m)" "world_ok ready u (w\<lparr>sd_access := m\<rparr>)" using world_lock [OF w] by blast
  let ?w = "w\<lparr>sd_access := m\<rparr>" and ?q = "q\<lparr>cb_pRead := int h\<rparr>"
  have B: "blk (dev (sd_card ?w)) = ?B" by simp
  have l31: "?l < 2 ^ 31" using d(2) by simp
  obtain w1 where 1: "sd_get_header p old q ?w = Some (True, int ?l, ?q, w1)" "world_ok ready u w1" "blk (dev (sd_card w1)) = ?B"
    using get_header_around [OF m(2) q s P(1,2) C(1) [folded B] l31 old h(1) h(2) [unfolded h_def]] unfolding B h_def by blast
  have q1: "ring_at s0 n ?q" "cb_pRead ?q = int h" using q by (simp_all add: ring_at_def)
  have lS: "?l < ?S" using t(2) ls by linarith
  obtain w2 where 2: "sd_get_data p buffer (int ?l) ?q w1 = Some (True, d @ drop ?l buffer, ?q\<lparr>cb_pRead := int ((h + ?l) mod ?S)\<rparr>, w2)" "world_ok ready u w2"
    "blk (dev (sd_card w2)) = ?B"
    using get_data_around [OF 1(2) q1(1) s q1(2) hS C(2) [folded 1(3) h_def] d(1) lS d(3) h(3,4)] unfolding 1(3) by blast
  have e: "(h + ?l) mod ?S = (r + (4 + ?l)) mod ?S" unfolding h_def by (simp only: mod_add_left_eq add.assoc)
  have "sdCirc_Get p old buffer len q w = Some (int ?l, d @ drop ?l buffer,
      q\<lparr>cb_pRead := int ((r + (4 + ?l)) mod ?S), cb_current := int c - (int ?l + 4)\<rparr>, sd_unlock w2)"
    using m(1) 1(1) 2(1) d P(3,4) l unfolding e by (simp add: sdCirc_Get_def Let_def)
  moreover have "length (sd_rec d) = 4 + ?l" "int c - (int ?l + 4) = int c - int (4 + ?l)" using ls by simp_all
  ultimately show ?thesis using 2(2,3) by (intro exI [of _ "sd_unlock w2"]) (simp add: world_unlock)
qed

lemma probe_around:
  assumes w: "world_ok ready u w" and q: "ring_at s0 n q" and s: "s0 + n \<le> nblk" and P: "cb_pRead q = int r" "r < n * 512" "cb_current q = int c" "c \<noteq> 0"
    and t: "cells s0 (n * 512) (blk (dev (sd_card w))) r 4 = le_bytes 4 (int l)" and l: "l < 2 ^ 31" and ok: "r + 4 \<noteq> n * 512"
  shows "\<exists>w'. sdCirc_Probe p q w = Some (int l, q, w') \<and> world_ok ready u w' \<and> blk (dev (sd_card w')) = blk (dev (sd_card w))"
proof -
  let ?S = "n * 512" and ?B = "blk (dev (sd_card w))"
  let ?C = "cells s0 ?S ?B" and ?o = "le_bytes 4 0"
  have sz: "cb_size q = int ?S" "?S < 2 ^ 31" using q by (simp_all add: ring_at_def)
  have v: "int_val (le_bytes 4 (int l)) = int l" by (rule int_val_le_bytes) (use l in simp_all)
  obtain m where m: "trylock (sd_access w) = (True, m)" "world_ok ready u (w\<lparr>sd_access := m\<rparr>)" using world_lock [OF w] by blast
  let ?w = "w\<lparr>sd_access := m\<rparr>"
  define z where "z = ?S - r"
  have z: "0 < z" "r + z = ?S" "z \<noteq> 4" using P(2) ok unfolding z_def by linarith+
  have "cb_size q - cb_pRead q = int z" using sz(1) P(1) z(2) by linarith
  moreover have "u32_of (int z) = int z" using sz(2) z(2) by (intro u32_of_small) simp_all
  ultimately have u: "u32_of (cb_size q - cb_pRead q) = int z" "cb_size q - cb_pRead q = int z" "u32_of (int z) = int z" by simp_all
  show ?thesis
  proof (cases "4 \<le> z")
    case True
    then have r4: "r + 4 \<le> ?S" using z(2) by linarith
    obtain w1 where 1: "ring_read p q ?o (int r) 4 ?w = Some (0, le_bytes 4 (int l), w1)" "world_ok ready u w1" "blk (dev (sd_card w1)) = ?B"
      using read_cells [OF m(2) q s r4, of ?o] t by auto
    have "sdCirc_Probe p q w = Some (int l, q, sd_unlock w1)"
      unfolding sdCirc_Probe_def u m(1) Let_def using 1(1) True z(3) v P(1,3,4) by simp
    then show ?thesis using 1(2,3) by (simp add: world_unlock)
  next
    case False
    have r0: "(r + z) mod ?S = 0" using z(2) by simp
    have "?C r (z + (4 - z)) = ?C r z @ ?C 0 (4 - z)" unfolding cells_append r0 ..
    then have h2: "?C r z @ ?C 0 (4 - z) = le_bytes 4 (int l)" using t False by simp
    have k: "r + z \<le> ?S" "z \<le> length ?o" using z False by simp_all
    obtain w1 where 1: "ring_read p q ?o (int r) (int z) ?w = Some (0, ?C r z @ drop z ?o, w1)" "world_ok ready u w1" "blk (dev (sd_card w1)) = ?B"
      using read_cells [OF m(2) q s k(1) z(1) k(2)] by auto
    have S4: "4 \<le> ?S" using P(2) by (cases n) simp_all
    have k2: "0 + (4 - z) \<le> ?S" "0 < 4 - z" "4 - z \<le> length (drop z ?o)" using z False S4 by (linarith | simp)+
    obtain w2 where 2: "ring_read p q (drop z ?o) (int 0) (int (4 - z)) w1 = Some (0, ?C 0 (4 - z) @ drop (4 - z) (drop z ?o), w2)" "world_ok ready u w2"
      "blk (dev (sd_card w2)) = ?B"
      using read_cells [OF 1(2) q s k2] unfolding 1(3) by blast
    have "sd_Read p q (drop z ?o) 0 (4 - int z) 0 w1 = Some (0, ?C 0 (4 - z), w2)"
      using 2(1) False by (simp add: ring_read_def of_nat_diff)
    then have "sdCirc_Probe p q w = Some (int_val (?C r z @ ?C 0 (4 - z)), q, sd_unlock w2)"
      unfolding sdCirc_Probe_def u m(1) Let_def using 1(1) False P(1,3,4) by simp
    then show ?thesis using 2(2,3) unfolding h2 v by (simp add: world_unlock)
  qed
qed

lemma empty_around:
  assumes w: "world_ok ready u w" and P: "cb_current q = 0"
  shows "\<exists>w'. sdCirc_Get p old buffer len q w = Some (0, buffer, q, w') \<and> world_ok ready u w' \<and> blk (dev (sd_card w')) = blk (dev (sd_card w))"
    and "\<exists>w'. sdCirc_Probe p q w = Some (0, q, w') \<and> world_ok ready u w' \<and> blk (dev (sd_card w')) = blk (dev (sd_card w))"
proof -
  obtain m where m: "trylock (sd_access w) = (True, m)" "world_ok ready u (w\<lparr>sd_access := m\<rparr>)" using world_lock [OF w] by blast
  then show "\<exists>w'. sdCirc_Get p old buffer len q w = Some (0, buffer, q, w') \<and> world_ok ready u w' \<and> blk (dev (sd_card w')) = blk (dev (sd_card w))"
    "\<exists>w'. sdCirc_Probe p q w = Some (0, q, w') \<and> world_ok ready u w' \<and> blk (dev (sd_card w')) = blk (dev (sd_card w))"
    using P by (auto simp: sdCirc_Get_def sdCirc_Probe_def world_unlock)
qed

end

section \<open>Any sequence of calls\<close>

text \<open>\<open>SdGet x b\<close> is a \<open>Get\<close> into the buffer \<open>b\<close>, with \<open>x\<close> in the variable for the length.\<close>

datatype sd_call = SdPut bytes | SdGet u32 bytes | SdProbe

datatype sd_answer = Status int | Record bytes

fun sd_run :: "'c spi \<Rightarrow> sd_call list \<Rightarrow> sdCircBuff \<Rightarrow> 'c sd_world \<Rightarrow> sd_answer list option" where
  "sd_run p [] q w = Some []"
| "sd_run p (SdPut d # cs) q w = do {
     (r, q, w) \<leftarrow> sdCirc_Put p d (int (length d)) q w;
     as \<leftarrow> sd_run p cs q w;
     Some (Status r # as)
   }"
| "sd_run p (SdGet x b # cs) q w = do {
     (r, b, q, w) \<leftarrow> sdCirc_Get p (le_bytes 4 (uint x)) b (int (length b)) q w;
     as \<leftarrow> sd_run p cs q w;
     Some ((if 0 < r then Record (take (nat r) b) else Status r) # as)
   }"
| "sd_run p (SdProbe # cs) q w = do {
     (r, q, w) \<leftarrow> sdCirc_Probe p q w;
     as \<leftarrow> sd_run p cs q w;
     Some (Status r # as)
   }"

text \<open>The answers of a queue of records in a ring of \<open>S\<close> bytes, the first at the address \<open>r\<close>. \<open>None\<close> are the calls that the ring gets wrong: a
  record without data, a \<open>Put\<close> that leaves less than 511 bytes free, a \<open>Get\<close> of a record that is not passable, too long or longer than the
  buffer, and a \<open>Probe\<close> of a header at the end of the ring.\<close>

fun sd_queue :: "nat \<Rightarrow> sd_call list \<Rightarrow> nat \<Rightarrow> bytes list \<Rightarrow> sd_answer list option" where
  "sd_queue S [] r rs = Some []"
| "sd_queue S (SdPut d # cs) r rs =
     (let c = length (concat (map sd_rec rs)); l = length (sd_rec d) in
      if 2048 < length d \<or> S \<le> c + l then map_option (Cons (Status (- 1))) (sd_queue S cs r rs)
      else if 0 < length d \<and> c + l + 511 \<le> S then map_option (Cons (Status (int (length d)))) (sd_queue S cs r (rs @ [d]))
      else None)"
| "sd_queue S (SdGet x b # cs) r [] = map_option (Cons (Status 0)) (sd_queue S cs r [])"
| "sd_queue S (SdGet x b # cs) r (d # ds) =
     (if passable S r (length d) \<and> 0 < length d \<and> length d < 2048 \<and> length d \<le> length b
      then map_option (Cons (Record d)) (sd_queue S cs ((r + length (sd_rec d)) mod S) ds) else None)"
| "sd_queue S (SdProbe # cs) r [] = map_option (Cons (Status 0)) (sd_queue S cs r [])"
| "sd_queue S (SdProbe # cs) r (d # ds) =
     (if r + 4 \<noteq> S then map_option (Cons (Status (int (length d)))) (sd_queue S cs r (d # ds)) else None)"

text \<open>The ring holds the records \<open>rs\<close> from the address \<open>r\<close> on.\<close>

definition ring_holds :: "nat \<Rightarrow> nat \<Rightarrow> (nat \<Rightarrow> bytes) \<Rightarrow> nat \<Rightarrow> bytes list \<Rightarrow> sdCircBuff \<Rightarrow> bool" where
  "ring_holds s0 n b r rs q \<longleftrightarrow> ring_at s0 n q \<and> r < n * 512 \<and>
     (let t = concat (map sd_rec rs) in
      length t < n * 512 \<and> cb_pRead q = int r \<and> cb_pWrite q = int ((r + length t) mod (n * 512)) \<and> cb_current q = int (length t) \<and>
      cells s0 (n * 512) b r (length t) = t)"

lemma sd_new_holds:
  assumes "ring_at s0 n q" and "0 < n" and "cb_pRead q = 0" and "cb_pWrite q = 0" and "cb_current q = 0"
  shows "ring_holds s0 n b 0 [] q"
  using assms by (simp add: ring_holds_def cells_def)

context sd_protocol
begin

lemma put_holds:
  assumes w: "world_ok ready u w" and s: "s0 + n \<le> nblk" and h: "ring_holds s0 n (blk (dev (sd_card w))) r rs q"
    and d: "0 < length d" "length d \<le> 2048" and room: "length (concat (map sd_rec rs)) + length (sd_rec d) + 511 \<le> n * 512"
  shows "\<exists>q' w'. sdCirc_Put p d (int (length d)) q w = Some (int (length d), q', w') \<and> world_ok ready u w' \<and>
     ring_holds s0 n (blk (dev (sd_card w'))) r (rs @ [d]) q'"
proof -
  let ?t = "concat (map sd_rec rs)" and ?S = "n * 512"
  have H: "ring_at s0 n q" "r < ?S" "cb_pRead q = int r" "cb_pWrite q = int ((r + length ?t) mod ?S)" "cb_current q = int (length ?t)"
    "cells s0 ?S (blk (dev (sd_card w))) r (length ?t) = ?t" using h by (simp_all add: ring_holds_def Let_def)
  let ?q = "q\<lparr>cb_pWrite := int ((r + (length ?t + length (sd_rec d))) mod ?S), cb_current := int (length ?t + length (sd_rec d))\<rparr>"
  obtain w' where w': "sdCirc_Put p d (int (length d)) q w = Some (int (length d), ?q, w')" "world_ok ready u w'"
    "cells s0 ?S (blk (dev (sd_card w'))) r (length ?t + length (sd_rec d)) = ?t @ sd_rec d"
    using put_around [OF w H(1) s H(4,5) d room] unfolding H(6) by blast
  have "ring_holds s0 n (blk (dev (sd_card w'))) r (rs @ [d]) ?q"
    using H(1-3) w'(3) room by (simp add: ring_holds_def Let_def ring_at_def)
  then show ?thesis using w'(1,2) by blast
qed

lemma get_holds:
  assumes w: "world_ok ready u w" and s: "s0 + n \<le> nblk" and h: "ring_holds s0 n (blk (dev (sd_card w))) r (d # ds) q"
    and d: "0 < length d" "length d < 2048" "length d \<le> length buffer" and old: "length old = 4" and ok: "passable (n * 512) r (length d)"
  shows "\<exists>q' w'. sdCirc_Get p old buffer (int (length buffer)) q w = Some (int (length d), d @ drop (length d) buffer, q', w') \<and> world_ok ready u w' \<and>
     ring_holds s0 n (blk (dev (sd_card w'))) ((r + length (sd_rec d)) mod (n * 512)) ds q'"
proof -
  let ?t = "concat (map sd_rec ds)" and ?S = "n * 512" and ?l = "length (sd_rec d)"
  have H: "ring_at s0 n q" "r < ?S" "?l + length ?t < ?S" "cb_pRead q = int r" "cb_pWrite q = int ((r + (?l + length ?t)) mod ?S)"
    "cb_current q = int (?l + length ?t)" "cells s0 ?S (blk (dev (sd_card w))) r (?l + length ?t) = sd_rec d @ ?t"
    using h by (simp_all add: ring_holds_def Let_def)
  note C = cells_split [OF H(7)]
  have ne: "?l + length ?t \<noteq> 0" and lt: "?l < ?S" using H(3) by (simp_all add: sd_rec_def)
  let ?q = "q\<lparr>cb_pRead := int ((r + ?l) mod ?S), cb_current := int (?l + length ?t) - int ?l\<rparr>"
  obtain w' where w': "sdCirc_Get p old buffer (int (length buffer)) q w = Some (int (length d), d @ drop (length d) buffer, ?q, w')" "world_ok ready u w'"
    "blk (dev (sd_card w')) = blk (dev (sd_card w))"
    using get_around [OF w H(1) s H(4,2,6) ne C(1) lt d _ old ok, of "int (length buffer)"] d(3) by auto
  have e: "((r + ?l) mod ?S + length ?t) mod ?S = (r + (?l + length ?t)) mod ?S" by (simp only: mod_add_left_eq add.assoc)
  have "(r + ?l) mod ?S < ?S" using H(2) by (intro mod_less_divisor) linarith
  then have "ring_holds s0 n (blk (dev (sd_card w'))) ((r + ?l) mod ?S) ds ?q"
    using H(1,3,5) C(2) e unfolding w'(3) by (simp add: ring_holds_def Let_def ring_at_def)
  then show ?thesis using w'(1,2) by blast
qed

lemma probe_holds:
  assumes w: "world_ok ready u w" and s: "s0 + n \<le> nblk" and h: "ring_holds s0 n (blk (dev (sd_card w))) r (d # ds) q" and ok: "r + 4 \<noteq> n * 512"
  shows "\<exists>w'. sdCirc_Probe p q w = Some (int (length d), q, w') \<and> world_ok ready u w' \<and> blk (dev (sd_card w')) = blk (dev (sd_card w))"
proof -
  let ?t = "d @ concat (map sd_rec ds)" and ?S = "n * 512" and ?h = "le_bytes 4 (int (length d))"
  have H: "ring_at s0 n q" "r < ?S" "4 + length ?t < ?S" "cb_pRead q = int r" "cb_current q = int (4 + length ?t)" "?S < 2 ^ 31"
    "cells s0 ?S (blk (dev (sd_card w))) r (length ?h + length ?t) = ?h @ ?t"
    using h by (simp_all add: ring_holds_def Let_def sd_rec_def ring_at_def)
  have c: "cells s0 ?S (blk (dev (sd_card w))) r 4 = ?h" using cells_split(1) [OF H(7)] by simp
  have l: "length d < 2 ^ 31" "4 + length ?t \<noteq> 0" using H(3,6) by simp_all
  show ?thesis by (rule probe_around [OF w H(1) s H(4,2,5) l(2) c l(1) ok])
qed

lemma sd_run_queue:
  assumes "world_ok ready u w" and "s0 + n \<le> nblk" and "ring_holds s0 n (blk (dev (sd_card w))) r rs q" and "sd_queue (n * 512) cs r rs = Some as"
  shows "sd_run p cs q w = Some as"
  using assms
proof (induction "n * 512" cs r rs arbitrary: q w as rule: sd_queue.induct)
  case (2 d cs r rs)
  let ?c = "length (concat (map sd_rec rs))"
  have q: "ring_at s0 n q" "cb_current q = int ?c" "?c < n * 512" using 2(5) by (simp_all add: ring_holds_def Let_def)
  show ?case
  proof (cases "2048 < length d \<or> n * 512 \<le> ?c + length (sd_rec d)")
    case True
    obtain w1 where "sdCirc_Put p d (int (length d)) q w = Some (- 1, q, w1)" "world_ok ready u w1" "blk (dev (sd_card w1)) = blk (dev (sd_card w))"
      using put_refused [OF 2(3) q True] by blast
    then show ?thesis using 2(1) [OF refl refl True, of w1 q] 2(4-6) True by (auto simp: Let_def)
  next
    case False
    then have r: "0 < length d" "?c + length (sd_rec d) + 511 \<le> n * 512" "length d \<le> 2048" using 2(6) by (auto simp: Let_def split: if_splits)
    obtain q1 w1 where P: "sdCirc_Put p d (int (length d)) q w = Some (int (length d), q1, w1)" "world_ok ready u w1"
      "ring_holds s0 n (blk (dev (sd_card w1))) r (rs @ [d]) q1" using put_holds [OF 2(3-5) r(1,3,2)] by blast
    then show ?thesis using 2(2) [OF refl refl False conjI [OF r(1,2)], of w1 q1] 2(4,6) False r by (auto simp: Let_def)
  qed
next
  case (3 x b cs r)
  have "cb_current q = 0" using 3(4) by (simp add: ring_holds_def)
  then obtain w1 where "sdCirc_Get p (le_bytes 4 (uint x)) b (int (length b)) q w = Some (0, b, q, w1)" "world_ok ready u w1" "blk (dev (sd_card w1)) = blk (dev (sd_card w))"
    using empty_around(1) [OF 3(2)] by blast
  then show ?case using 3(1) [of w1 q] 3(3-5) by auto
next
  case (4 x b cs r d ds)
  have c: "passable (n * 512) r (length d) \<and> 0 < length d \<and> length d < 2048 \<and> length d \<le> length b" using 4(5) by (auto split: if_splits)
  then obtain q1 w1 where G: "sdCirc_Get p (le_bytes 4 (uint x)) b (int (length b)) q w = Some (int (length d), d @ drop (length d) b, q1, w1)" "world_ok ready u w1"
     "ring_holds s0 n (blk (dev (sd_card w1))) ((r + length (sd_rec d)) mod (n * 512)) ds q1"
    using get_holds [OF 4(2-4), of b "le_bytes 4 (uint x)"] by auto
  then show ?case using 4(1) [OF c, of w1 q1] 4(3,5) c by auto
next
  case (5 cs r)
  have "cb_current q = 0" using 5(4) by (simp add: ring_holds_def)
  then obtain w1 where "sdCirc_Probe p q w = Some (0, q, w1)" "world_ok ready u w1" "blk (dev (sd_card w1)) = blk (dev (sd_card w))"
    using empty_around(2) [OF 5(2)] by blast
  then show ?case using 5(1) [of w1 q] 5(3-5) by auto
next
  case (6 cs r d ds)
  have c: "r + 4 \<noteq> n * 512" using 6(5) by (auto split: if_splits)
  obtain w1 where "sdCirc_Probe p q w = Some (int (length d), q, w1)" "world_ok ready u w1" "blk (dev (sd_card w1)) = blk (dev (sd_card w))"
    using probe_holds [OF 6(2-4) c] by blast
  then show ?case using 6(1) [OF c, of w1 q] 6(3-5) c by auto
qed simp

end

end
