(* ===== verification/Sd_Props.thy ===== *)
theory Sd_Props
  imports App_Config Sd_Ring Dyn_Props
begin

text \<open>
  Properties of the SD card driver, of the stores on the card, and of the way of a configuration from the server to the sensors. The card
  is any device that follows the protocol \<open>sd_protocol\<close>; the applications run on the card of \<open>Sd_Sim\<close>.
\<close>

section \<open>The store on the card\<close>

text \<open>C5. \<open>Write\<close> and \<open>Read\<close> of a store on a card: data written at any place inside the store are read back unchanged, and neither the
  bytes in front of them nor any later sector changes.\<close>

theorem sd_storage_roundtrip:
  assumes "sd_protocol p ready blk nblk u" and "world_ok ready u w" and "iSectorStart st = int s0" and "nSectors st = int n" and "s0 + n \<le> nblk"
    and "k * 512 + off + length d \<le> n * 512" and "off < 512" and "d \<noteq> []" and "length d \<le> length buf"
  shows "\<exists>w1 w2. sd_Write p st d (int k) (int (length d)) (int off) w = Some (0, w1) \<and>
     sd_Read p st buf (int k) (int (length d)) (int off) w1 = Some (0, d @ drop (length d) buf, w2) \<and> world_ok ready u w2 \<and>
     (\<forall>a. a < (s0 + k) * 512 + off \<or> (s0 + k) * 512 + off + length d \<le> a div 512 * 512 \<longrightarrow>
        byte_at (blk (dev (sd_card w2))) a = byte_at (blk (dev (sd_card w))) a)"
proof -
  note W = sd_protocol.sd_Write_spec [OF assms(1)] and R = sd_protocol.sd_Read_spec [OF assms(1)]
  have l: "0 < length d" using assms(8) by simp
  obtain w1 where w1: "sd_Write p st d (int k) (int (length d)) (int off) w = Some (0, w1)" "world_ok ready u w1"
    "\<forall>j<length d. byte_at (blk (dev (sd_card w1))) ((s0 + k) * 512 + off + j) = d ! j"
    "\<forall>a. a < (s0 + k) * 512 + off \<or> (s0 + k) * 512 + off + length d \<le> a div 512 * 512 \<longrightarrow>
        byte_at (blk (dev (sd_card w1))) a = byte_at (blk (dev (sd_card w))) a"
    using W [OF assms(2-7) l le_refl] by blast
  obtain w2 where w2: "sd_Read p st buf (int k) (int (length d)) (int off) w1 =
      Some (0, map (\<lambda>j. byte_at (blk (dev (sd_card w1))) ((s0 + k) * 512 + off + j)) [0..<length d] @ drop (length d) buf, w2)"
    "world_ok ready u w2" "blk (dev (sd_card w2)) = blk (dev (sd_card w1))"
    using R [OF w1(2) assms(3-7) l assms(9)] by blast
  have "map (\<lambda>j. byte_at (blk (dev (sd_card w1))) ((s0 + k) * 512 + off + j)) [0..<length d] = d"
    by (rule nth_equalityI) (use w1(3) in simp_all)
  then show ?thesis using w1(1,4) w2 by simp
qed

definition demo_card :: "sim sdCard" where
  "demo_card = \<lparr>dev = \<lparr>sim_blk = \<lambda>_. replicate 512 7, outq = [], inq = [], expect = None\<rparr>, cdv = 1, sd_sectors = 4096, cmtx = \<lparr>mtx_other = False, mtx_level = 0\<rparr>\<rparr>"

definition demo_sd :: "sim sd_world" where
  "demo_sd = \<lparr>sd_card = demo_card, sd_access = \<lparr>mtx_other = False, mtx_level = 0\<rparr>, bufftmp = replicate 512 0\<rparr>"

lemma demo_sd_ok: "world_ok sim_ready 1 demo_sd"
  by (simp add: world_ok_def card_ok_def demo_sd_def demo_card_def sim_ready_def)

lemma sim_protocol: "sd_protocol sim_spi sim_ready sim_blk 4096 1"
  by unfold_locales

theorem sd_storage_roundtrip_witness:
  "\<exists>w1 w2. sd_Write sim_spi \<lparr>iSectorStart = 0, nSectors = 100\<rparr> [1, 2, 3] (int 2) 3 (int 510) demo_sd = Some (0, w1) \<and>
     sd_Read sim_spi \<lparr>iSectorStart = 0, nSectors = 100\<rparr> [9, 9, 9, 9] (int 2) 3 (int 510) w1 = Some (0, [1, 2, 3, 9], w2)"
  using sd_storage_roundtrip [OF sim_protocol demo_sd_ok, of "\<lparr>iSectorStart = 0, nSectors = 100\<rparr>" 0 100 2 510 "[1, 2, 3]" "[9, 9, 9, 9]"]
  by auto

section \<open>The ring on the card\<close>

text \<open>C36. A ring on a card that holds any records, at any place and around its end: every sequence of \<open>Put\<close>, \<open>Get\<close> and \<open>Probe\<close> gives the
  answers of a queue that refuses what does not leave a byte free, and returns the records in their order and unchanged, in whichever of
  its pieces the code writes and reads them. This is so as long as the queue \<open>sd_queue\<close> has an answer. It has none for the calls that
  the code gets wrong: a record without data; a \<open>Put\<close> that leaves less than 511 bytes free, for a write clears the rest of its last sector
  and the oldest record may lie there; a \<open>Get\<close> of a record of 2048 bytes, or into a smaller buffer; a \<open>Get\<close> or \<open>Probe\<close> when the header or
  the data end exactly with the ring, or the code takes the place behind them for the end (\<open>passable\<close>; C37 shows one of these).\<close>

theorem sd_ring_in_order:
  assumes "sd_protocol p ready blk nblk u" and "world_ok ready u w" and "s0 + n \<le> nblk"
    and "ring_holds s0 n (blk (dev (sd_card w))) r rs q" and "sd_queue (n * 512) cs r rs = Some as"
  shows "sd_run p cs q w = Some as"
  by (rule sd_protocol.sd_run_queue [OF assms])

definition demo_cb :: "int \<Rightarrow> sdCircBuff" where
  "demo_cb n = \<lparr>iSectorStart = 100, nSectors = n, cb_size = n * 512, cb_current = 0, cb_pRead = 0, cb_pWrite = 0\<rparr>"

text \<open>Records go around a ring of four sectors, with a split in the header of the one of 100 bytes and in the data of the one of 700.\<close>

definition demo_sd_calls :: "sd_call list" where
  "demo_sd_calls = (let get = SdGet 77 (replicate 2047 0) in
     [SdPut (replicate 1000 1), get, SdPut (replicate 1037 2), get, SdPut (replicate 100 3), SdProbe, SdPut (replicate 2046 4), get,
      SdPut (replicate 1400 5), get, SdPut (replicate 700 6), SdPut [7], get, get, get])"

definition demo_sd_answers :: "sd_answer list" where
  "demo_sd_answers = [Status 1000, Record (replicate 1000 1), Status 1037, Record (replicate 1037 2), Status 100, Status 100, Status (- 1),
     Record (replicate 100 3), Status 1400, Record (replicate 1400 5), Status 700, Status 1, Record (replicate 700 6), Record [7], Status 0]"

theorem sd_ring_in_order_witness:
  "sd_run sim_spi demo_sd_calls (demo_cb 4) demo_sd = Some demo_sd_answers"
proof -
  have h: "ring_holds 100 4 (sim_blk (dev (sd_card demo_sd))) 0 [] (demo_cb 4)"
    by (rule sd_new_holds) (simp_all add: ring_at_def demo_cb_def)
  have n: "100 + 4 \<le> (4096 :: nat)" by simp
  have "sd_queue (4 * 512) demo_sd_calls 0 [] = Some demo_sd_answers"
    by (simp add: demo_sd_calls_def demo_sd_answers_def sd_rec_def passable_def Let_def)
  from sd_ring_in_order [OF sim_protocol demo_sd_ok n h this] show ?thesis .
qed

text \<open>C37. The same ring when the rest behind the first record is exactly as long as its data: \<open>Get\<close> takes this for the end of the
  ring and goes back to its start, and so the next \<open>Get\<close> returns the first record again instead of the second, which is lost.\<close>

theorem sd_ring_repeats:
  assumes "sd_protocol p ready blk nblk u" and "world_ok ready u w" and "ring_at s0 n q" and "s0 + n \<le> nblk"
    and "cb_pRead q = 0" and "cb_pWrite q = 0" and "cb_current q = 0"
    and "0 < length d" and "length d < 2048" and "length d \<le> length buf" and "4 + 2 * length d = n * 512"
    and "0 < length e" and "length e + 4 < length d"
  shows "\<exists>q1 w1 b2 q2 w2 q3 w3 b4 q4 w4. sdCirc_Put p d (int (length d)) q w = Some (int (length d), q1, w1) \<and>
     sdCirc_Get p [0, 0, 0, 0] buf (int (length buf)) q1 w1 = Some (int (length d), d @ b2, q2, w2) \<and>
     sdCirc_Put p e (int (length e)) q2 w2 = Some (int (length e), q3, w3) \<and>
     sdCirc_Get p [0, 0, 0, 0] buf (int (length buf)) q3 w3 = Some (int (length d), d @ b4, q4, w4)"
proof -
  note put = sd_protocol.put_raw [OF assms(1)] and get = sd_protocol.get_raw [OF assms(1)]
  have ld: "length (sd_rec d) = 4 + length d" and le: "length (sd_rec e) = 4 + length e" by (simp_all add: sd_rec_def)
  have z: "cb_pWrite q = int 0" "cb_current q = int 0" using assms(6,7) by simp_all
  have d: "length d \<le> 2048" "0 + length (sd_rec d) < n * 512" using assms(8,9,11) ld by linarith+
  let ?q1 = "q\<lparr>cb_pWrite := int (0 + length (sd_rec d)), cb_current := int (0 + length (sd_rec d))\<rparr>"
  obtain w1 where 1: "sdCirc_Put p d (int (length d)) q w = Some (int (length d), ?q1, w1)" "world_ok ready u w1"
    "map (store_byte s0 (blk (dev (sd_card w1)))) [0..<0 + length (sd_rec d)] = sd_rec d"
    using put [OF assms(2-4) z assms(8) d(1) d(2) d(2)] by blast
  have q1: "ring_at s0 n ?q1" "cb_pRead ?q1 = int 0" "cb_current ?q1 = int (length (sd_rec d))" "length (sd_rec d) \<noteq> 0"
    using assms(3,5) ld by (simp_all add: ring_at_def)
  have o: "length [0, 0, 0, 0 :: u8] = 4" and r: "0 + length (sd_rec d) \<le> n * 512" and g: "n * 512 \<noteq> 0 + 8" using d(2) assms(8,11,12,13) by (simp, linarith, linarith)
  let ?q2 = "?q1\<lparr>cb_pRead := 0, cb_current := 0\<rparr>"
  have wraps: "0 + 4 + length d + length d = n * 512" using assms(11) by simp
  obtain w2 where 2: "sdCirc_Get p [0, 0, 0, 0] buf (int (length buf)) ?q1 w1 = Some (int (length d), d @ drop (length d) buf, ?q2, w2)"
    "world_ok ready u w2" "blk (dev (sd_card w2)) = blk (dev (sd_card w1))"
    using get [OF 1(2) q1(1) assms(4) q1(2-4) 1(3) assms(8-10) _ o r g, of "int (length buf)"] assms(10) wraps by auto
  have q2: "ring_at s0 n ?q2" "cb_pWrite ?q2 = int (length (sd_rec d))" "cb_current ?q2 = int 0" using assms(3) by (simp_all add: ring_at_def)
  have e: "length e \<le> 2048" "length (sd_rec d) + length (sd_rec e) < n * 512" "0 + length (sd_rec e) < n * 512"
    using assms(9,11,13) ld le by linarith+
  let ?q3 = "?q2\<lparr>cb_pWrite := int (length (sd_rec d) + length (sd_rec e)), cb_current := int (0 + length (sd_rec e))\<rparr>"
  obtain w3 where 3: "sdCirc_Put p e (int (length e)) ?q2 w2 = Some (int (length e), ?q3, w3)" "world_ok ready u w3"
    "\<forall>j<length (sd_rec d). store_byte s0 (blk (dev (sd_card w3))) j = store_byte s0 (blk (dev (sd_card w2))) j"
    using put [OF 2(2) q2(1) assms(4) q2(2,3) assms(12) e] by blast
  have "map (store_byte s0 (blk (dev (sd_card w3)))) [0..<0 + length (sd_rec d)] = map (store_byte s0 (blk (dev (sd_card w1)))) [0..<0 + length (sd_rec d)]"
    by (rule map_cong) (use 3(3) 2(3) in auto)
  then have m3: "map (store_byte s0 (blk (dev (sd_card w3)))) [0..<0 + length (sd_rec d)] = sd_rec d" by (rule trans [OF _ 1(3)])
  have q3: "ring_at s0 n ?q3" "cb_pRead ?q3 = int 0" "cb_current ?q3 = int (length (sd_rec e))" "length (sd_rec e) \<noteq> 0"
    using assms(3) le by (simp_all add: ring_at_def)
  obtain q4 w4 where 4: "sdCirc_Get p [0, 0, 0, 0] buf (int (length buf)) ?q3 w3 = Some (int (length d), d @ drop (length d) buf, q4, w4)"
    using get [OF 3(2) q3(1) assms(4) q3(2-4) m3 assms(8-10) _ o r g, of "int (length buf)"] assms(10) by auto
  show ?thesis using 1(1) 2(1) 3(1) 4 by blast
qed

theorem sd_ring_repeats_witness:
  "\<exists>q1 w1 b2 q2 w2 q3 w3 b4 q4 w4. sdCirc_Put sim_spi (replicate 254 5) 254 (demo_cb 1) demo_sd = Some (254, q1, w1) \<and>
     sdCirc_Get sim_spi [0, 0, 0, 0] (replicate 1024 0) 1024 q1 w1 = Some (254, replicate 254 5 @ b2, q2, w2) \<and>
     sdCirc_Put sim_spi [1, 2, 3] 3 q2 w2 = Some (3, q3, w3) \<and>
     sdCirc_Get sim_spi [0, 0, 0, 0] (replicate 1024 0) 1024 q3 w3 = Some (254, replicate 254 5 @ b4, q4, w4)"
proof -
  let ?d = "replicate 254 (5 :: u8)" and ?b = "replicate 1024 (0 :: u8)" and ?e = "[1, 2, 3] :: bytes"
  have r: "ring_at 100 1 (demo_cb 1)" "cb_pRead (demo_cb 1) = 0" "cb_pWrite (demo_cb 1) = 0" "cb_current (demo_cb 1) = 0"
    by (simp_all add: ring_at_def demo_cb_def)
  have l: "length ?d = 254" "length ?b = 1024" "length ?e = 3" by simp_all
  have c: "100 + 1 \<le> (4096 :: nat)" "0 < (254 :: nat)" "254 < (2048 :: nat)" "254 \<le> (1024 :: nat)" "4 + 2 * 254 = 1 * (512 :: nat)" "0 < (3 :: nat)" "3 + 4 < (254 :: nat)"
    by simp_all
  show ?thesis using sd_ring_repeats [OF sim_protocol demo_sd_ok r(1) c(1) r(2-4), of ?d ?b ?e, unfolded l, OF c(2-7)] by simp
qed

section \<open>From the server to the sensors\<close>

text \<open>C3. The answer of the server on its way through the program, with the store in memory that it uses: 40 bytes that name the
  configuration and complete descriptions, up to 512 bytes of them, whatever lies behind them in the buffer. The answer is stored and marked
  as new; the next turn of the main loop reads it back and makes exactly one sensor for each description, in order. Of the sensors that were
  there before only the last one is gone.\<close>

theorem config_applied:
  assumes "length (st_b (calcStorage a)) = 512" and "length cfg = 40" and "dyn_ok (app_dyn a)" and "fresh_ok f"
    and "\<forall>d\<in>set ds. descr_ok (d_itf (app_dyn a)) d" and "ds \<noteq> []" and "D = concat (map descr_bytes ds)" and "length D \<le> 512"
    and "length D \<le> length (result_buf a)"
    and "length (butlast (held (dynamicSensors (app_dyn a)))) + length ds \<le> unat (max_sensors (dynamicSensors (app_dyn a)))"
    and "inj_on (f_addr f) {d_count (app_dyn a)..<d_count (app_dyn a) + length ds}"
  shows "\<exists>a1 a2. main_event ram_ops (40 + int (length D)) (cfg @ D @ junk) a = Some a1 \<and> apply_config ram_ops osOK osOK lock f a1 = Some a2 \<and>
     \<not> newCalcPending a2 \<and> app_idCfg a2 = cfg \<and> ram_holds (calcStorage a2) D \<and>
     held (dynamicSensors (app_dyn a2)) =
       butlast (held (dynamicSensors (app_dyn a))) @ map (f_addr f) [d_count (app_dyn a)..<d_count (app_dyn a) + length ds] \<and>
     (\<forall>i<length ds. \<exists>s. objs (app_dyn a2) (f_addr f (d_count (app_dyn a) + i)) = Some s \<and> sensor_for (d_itf (app_dyn a)) (ds ! i) s)"
  using ram.configured [OF assms] by blast

definition demo_main :: "ramStorage main_app" where
  "demo_main = \<lparr>calcStorage = \<lparr>st_b = replicate 512 0, st_bSz = 512, st_sz = 0\<rparr>, newCalcPending = False, app_idCfg = replicate 40 0,
     result_buf = replicate 1024 0, app_dyn = demo_dyn\<rparr>"

theorem config_applied_witness:
  "\<exists>a1 a2. main_event ram_ops 95 (replicate 40 65 @ (descr_bytes demo_descr_diag @ descr_bytes demo_descr_rec) @ [9]) demo_main = Some a1 \<and>
     apply_config ram_ops osOK osOK 0 demo_objects a1 = Some a2 \<and> held (dynamicSensors (app_dyn a2)) = [64, 80]"
proof -
  let ?ds = "[demo_descr_diag, demo_descr_rec]" and ?D = "descr_bytes demo_descr_diag @ descr_bytes demo_descr_rec"
  have l: "length ?D = 55" by (simp add: demo_descr_diag_def demo_descr_rec_def enc_cmds_def enc_cmd_def)
  have a: "length (st_b (calcStorage demo_main)) = 512" "app_dyn demo_main = demo_dyn" "length (result_buf demo_main) = 1024" by (simp_all add: demo_main_def)
  have k: "f_addr demo_objects k = of_nat (16 * k + 64)" for k by (simp add: demo_objects_def)
  have i: "inj_on (f_addr demo_objects) {0..<2}" unfolding k inj_on_def by (auto simp: less_2_cases_iff)
  have m: "unat (max_sensors (dynamicSensors demo_dyn)) = 4" and p: "d_itf demo_dyn = demo_pins" by (simp_all add: demo_dyn_def MySensors_new_def)
  have d: "\<forall>d\<in>set ?ds. descr_ok (d_itf (app_dyn demo_main)) d" unfolding a(2) p using demo_descr_ok by simp
  have e: "?D = concat (map descr_bytes ?ds)" "length ?D \<le> 512" "length ?D \<le> length (result_buf demo_main)" "length (replicate 40 (65 :: u8)) = 40" "?ds \<noteq> []"
    unfolding l a(3) by simp_all
  have g: "length (butlast (held (dynamicSensors (app_dyn demo_main)))) + length ?ds \<le> unat (max_sensors (dynamicSensors (app_dyn demo_main)))"
    "inj_on (f_addr demo_objects) {d_count (app_dyn demo_main)..<d_count (app_dyn demo_main) + length ?ds}"
    unfolding a(2) m demo_dyn_ok(4,5) using i by (simp_all add: numeral_2_eq_2)
  have o: "dyn_ok (app_dyn demo_main)" unfolding a(2) by (rule demo_dyn_ok(1))
  obtain a1 a2 where "main_event ram_ops (40 + int 55) (replicate 40 65 @ ?D @ [9]) demo_main = Some a1" "apply_config ram_ops osOK osOK 0 demo_objects a1 = Some a2"
    "held (dynamicSensors (app_dyn a2)) = butlast (held (dynamicSensors demo_dyn)) @ map (f_addr demo_objects) [d_count demo_dyn..<d_count demo_dyn + length ?ds]"
    using config_applied [OF a(1) e(4) o demo_dyn_ok(3) d e(5,1-3) g, of "[9]" 0] unfolding l a(2) by blast
  then show ?thesis by (intro exI [of _ a1] exI [of _ a2]) (simp add: demo_dyn_ok(4,5) k upt_rec)
qed

text \<open>An answer with more than 512 bytes of descriptions is copied over the end of the store in memory.\<close>

lemma config_overruns:
  assumes "length (st_b (calcStorage a)) = 512" and "512 < n" and "length data = 40 + n" and "n < 2 ^ 31"
  shows "main_event ram_ops (40 + int n) data a = None"
proof -
  have "rd_bytes (le_bytes 4 (int n)) 0 4 = Some (le_bytes 4 (int n))" by (simp add: rd_bytes_def)
  moreover have "memcpy (st_b (calcStorage a)) 0 (drop 40 data) 0 (int n) = None" using assms by (simp add: memcpy_def rd_bytes_def wr_bytes_def)
  moreover have "rd_bytes data 0 40 = Some (take 40 data)" using assms(3) by (simp add: rd_bytes_def)
  ultimately show ?thesis using assms(2) by (simp add: main_event_def ram_ops_def ramStorage_Write_def Let_def)
qed

text \<open>The first store finds the card and is in order then.\<close>

lemma sdStorage_new_ok:
  assumes "sim_ready (dev (sd_card w))" and "length (bufftmp w) = 512" and "\<not> mtx_other (cmtx (sd_card w))"
  shows "\<exists>w'. sdStorage_new sim_spi True 0 100 old w = Some (\<lparr>iSectorStart = 0, nSectors = 100\<rparr>, w') \<and> world_ok sim_ready 1 w'"
  using assms sim_disk_initialize [OF assms(1)] by (simp add: sdStorage_new_def world_ok_def card_ok_def)

end
