(* ===== verification/Spec2Isabelle.thy ===== *)
theory Spec2Isabelle
  imports Kernel_Props Kernel_Safe Cmsis_Props App_Props Can_Props Sensor_Props Nmea_Props Dyn_Props Sd_Props
begin

text \<open>
  Verification of the PYRN firmware: an LPC1768 board (Cortex-M3) in a car that listens to two CAN buses,
  asks calculators of the car for diagnostic data, and sends what it gets to a server. The firmware is
  C++ code of its own over the mbed library, and the real-time kernel RTX with its CMSIS-RTOS layer, which
  schedules everything. This development models the kernel and the core of the application.

  \<^bold>\<open>The kernel\<close> (\<open>src/mbed-rtos/rtx/TARGET_CORTEX_M\<close>; the build of the repository: CMSIS, the GNU compiler,
  one tick per millisecond, up to 15 threads).

  \<^item> \<open>Os_State\<close>: the memory of the kernel as one record \<open>os\<close>. Pointers to control blocks are the
    datatype \<open>ptr\<close>; every member of the structures of \<open>rt_TypeDef.h\<close> is a map from pointers, every global
    variable a field. \<open>rd\<close> and \<open>wr\<close> read and write a member; at the null pointer they are \<open>None\<close>, and so is a
    program that does it. \<open>os_error\<close> and \<open>sysThreadError\<close> never return: \<open>None\<close>. Integers are words of
    the width of the code.
  \<^item> \<open>Rt_List\<close>, \<open>Rt_Delay\<close>: \<open>rt_List.c\<close>, the ready list, the waiting lists (doubly linked, by priority), the
    delay list (doubly linked, times as differences) and the queue of interrupt requests. Loops over
    links are \<open>partial_function (option)\<close>: a search that never ends is \<open>None\<close>, and that they end is proved.
  \<^item> \<open>Rt_Task\<close>, \<open>Rt_Semaphore\<close>, \<open>Rt_Mutex\<close>, \<open>Rt_Event\<close>, \<open>Rt_Mailbox\<close>, \<open>Rt_MemBox\<close>, \<open>Rt_Time\<close>, \<open>Rt_Irq\<close>,
    \<open>Rt_System\<close>: the files of the same names (\<open>Rt_Time\<close> also has \<open>rt_Robin.c\<close>, \<open>Rt_Task\<close> also \<open>HAL_CM.c\<close>), one
    definition per function, inner loops and blocks under names of their own.
  \<^item> \<open>Cmsis_Base\<close>, \<open>Cmsis_Svc\<close>, \<open>Cmsis_Thread\<close>, \<open>Cmsis_Timer\<close>, \<open>Cmsis_Sync\<close>, \<open>Cmsis_Queue\<close>, \<open>Cmsis_Kernel\<close>: \<open>rt_CMSIS.c\<close>,
    with the service call and the context switch of \<open>HAL_CM3.s\<close>: registers are saved on the stack of the
    thread that leaves and loaded from the stack of the one that comes; return values are in stack frames.
  \<^item> \<open>Kernel_View\<close> has the specification: a \<open>kview\<close> is the running thread, the lists as lists, the
    threads that wait for events or time, and the priorities. \<open>kabs s v\<close> relates memory and view
    (\<open>Kernel_Links\<close>: the links form the lists; states agree with places; the running thread is the most
    urgent). \<open>Kernel_Relink\<close>, \<open>Rt_Tick\<close>, \<open>Kernel_Sched\<close> show that list operations, tick, dispatching and
    blocking implement the operations on views.
  \<^item> \<open>Kernel_Props\<close>, \<open>Cmsis_Props\<close>: each service refines its operation on views, on all branches; mailboxes are
    bounded queues (locale \<open>bounded_fifo\<close> of \<open>Ring\<close>, interpreted on \<open>rt_mbx_send\<close> and \<open>rt_mbx_wait\<close>); memory boxes; the tick; timers.
  \<^item> \<open>Kernel_Run\<close>, \<open>Kernel_Safe\<close>: the kernel as a transition system. \<open>kstep\<close> is one call of the running thread
    or one tick; \<open>kinv\<close> is preserved by every step and every step exists, so whole runs are safe, and no
    thread waits longer than it asked for. The memory of \<open>Demo\<close>, with nine threads that wait in every
    way there is, satisfies the invariant.

  \<^bold>\<open>The application\<close> (\<open>src\<close>, \<open>src/CAN\<close>, \<open>src/MyThings\<close>). Objects are records, their methods functions that
  return the new object; buffers are lists of bytes, and an access outside of one is \<open>None\<close> (\<open>App_Bytes\<close>).

  \<^item> \<open>Storage_Base\<close>: \<open>storageBase.cpp\<close>, the ring of records. \<open>circ_ok\<close> says which records it holds; the specification of its calls is a
    queue that is bounded by the bytes of its records (\<open>queue_calls\<close>, locale \<open>record_fifo\<close>, interpreted on \<open>Put\<close>, \<open>Get\<close> and \<open>Probe\<close>).
  \<^item> \<open>Mem_Alloc\<close>: \<open>MyMemoryAllocator.cpp\<close>. \<open>heap_ok\<close>: the blocks tile the region and are linked both ways; \<open>joined\<close>: no
    two free blocks are neighbours. First fit on lists of blocks is the specification.
  \<^item> \<open>Can_Fifo\<close>, \<open>Can_Interface\<close>: the queue of received messages (another interpretation of \<open>bounded_fifo\<close>), and the
    table of callbacks, as the bytes it is, because its removal copies bytes.
  \<^item> \<open>Can_Calc\<close>, \<open>Can_Comm\<close>: descriptions of calculators, and exchanges with them (requests, long answers in parts,
    the simulated calculator). What the queue of the RTOS returns to the master is a list of events.
  \<^item> \<open>Com_Handler\<close>: \<open>ComHandler.cpp\<close>, results to the ring and frames to the server.
  \<^item> \<open>Sensor\<close>: \<open>MySensor.cpp\<close> and the loop of \<open>main.cpp\<close> that captures the sensors into the ring. \<open>res_ok\<close>: counter and
    pointer of a result store agree. \<open>Gps\<close>: \<open>GPSSensorUBX.cpp\<close>, polling over the serial line, which is a list of what each
    look at it shows. \<open>Nmea\<close>: \<open>TinyGPS.cpp\<close> and \<open>GPSSensorNMEA.cpp\<close>, a state machine over characters; \<open>Nmea_Lemmas\<close> follows it through terms
    and sentences (\<open>in_front\<close>: where it stands in front of a term; \<open>angle\<close>: the value of degrees and minutes). \<open>Can_Diag\<close>: \<open>CANDiagSensor.cpp\<close>; the locale \<open>master\<close> is what it needs of its communicator (it reads no more
    of a command than its size, and keeps the size of the response buffer), and both communicators are interpretations.
    \<open>Can_Recorder\<close>: \<open>CANRecorder.cpp\<close>, the interval, the chunks (\<open>fitting\<close>: those that are recorded), the capture.
  \<^item> \<open>Can_Track\<close>: \<open>CANVariationDetector.cpp\<close>, \<open>CANCorrelator.cpp\<close>, \<open>CANVariableData.cpp\<close>, which bytes of the frames on a bus vary. A map
    from identifiers to the last data is the specification of the detector (\<open>last_frames\<close>, \<open>reports\<close>).
  \<^item> \<open>Dyn_Sensors\<close>: \<open>NewDynSensors\<close> and \<open>StopDynSensors\<close> of \<open>main.cpp\<close>, which bring the parts together: descriptions become calculators,
    sensors with their communicators, and recorders. \<open>descr_ok\<close>: a complete description; \<open>sensor_for\<close>: the sensor that belongs to it.
  \<^item> \<open>Sd_Card\<close>, \<open>Sd_Storage\<close>, \<open>Sd_Ring\<close>: \<open>sd.cpp\<close>, the driver of the SD card, the store in a range of its sectors, and the ring of records in
    it. The card is a parameter, a function from bytes on the SPI bus to bytes; what the code relies on is the locale \<open>sd_protocol\<close>, the answers to
    the commands that read and write a block. The store is described by the bytes of the card (\<open>byte_at\<close>), the ring by those
    around it (\<open>cells\<close>); its specification \<open>sd_queue\<close> is a queue that has no answer to the calls that the code gets wrong. \<open>Sd_Sim\<close> is a card in software that satisfies
    the protocol, and that the driver finds and initialises.
  \<^item> \<open>App_Config\<close>: \<open>event\<close> and the end of the main loop of \<open>main.cpp\<close>. The class \<open>storage\<close> is a record of functions; the locale \<open>config_store\<close> is
    what the application relies on, and both the store in memory and every store on a card satisfy it.
  \<^item> \<open>App_Props\<close>, \<open>Can_Props\<close>, \<open>Sensor_Props\<close>, \<open>Nmea_Props\<close>, \<open>Dyn_Props\<close>, \<open>Sd_Props\<close>: the properties. Records come out of the ring in order; results reach the server;
    the heap stays whole over any run; callbacks; commands; reassembly of answers; what a sensor has measured arrives
    at the server; the answer of the server becomes sensors; data on the card are read back. The properties of kind
    error show what the code does where it goes wrong.

  \<^bold>\<open>Bounds and fuel.\<close> Loops that follow links or wait for input are \<open>partial_function (option)\<close> or recursion on
  the list of inputs; loops over arrays count down the number of entries left. There is no fuel to choose:
  results are stated as \<open>Some\<close>.

  \<^bold>\<open>Shared library.\<close> \<open>Prelude\<close>: words, option-valued programs, chains of links, insertion by priority. \<open>Ring\<close>: ring
  buffers and the interface of a bounded queue.

  \<^bold>\<open>Not modelled.\<close> Vendored code that the repository only calls: lwIP, PPP, the USB host and the FAT file
  system, the mbed library with its drivers, the HTTP client, MODSERIAL. Device I/O: the set-up of
  serial lines, IMU sensors, modems, blinker, watchdog, debug output. The rest of \<open>main.cpp\<close> builds objects and
  starts threads; of its applications, one of which is selected when it is compiled, the model has the main loop of CANONAIR.
  The thread that runs timer callbacks runs application code; \<open>osThreadExit\<close> makes two service calls and loops.
\<close>

end
